(* ===== verification/Prelude.thy ===== *)
theory Prelude
  imports Main "HOL-Library.Word" "HOL-Library.List_Lexorder" "HOL-Library.Product_Lexorder"
    "HOL-Library.Monad_Syntax" "HOL-Library.Code_Target_Nat"
begin

text \<open>
  Shared vocabulary of the development: text, paths, machine sizes and the parts of the Rust
  standard library (string slicing, splitting, trimming, ordered maps) that several components
  of the server use.

  \<^item> A Rust \<open>char\<close> is a Unicode scalar value, here a natural number, and a \<open>str\<close> is the list of
    its characters; \<open>len()\<close> counts UTF-8 bytes (\<open>str_len\<close>), so byte offsets and character counts
    are kept apart.  \<open>lit\<close> turns an Isabelle string literal into such a text.
  \<^item> A canonical absolute path is the list of its components.
  \<^item> \<open>usize\<close> and \<open>u64\<close> quantities that saturate or overflow in the code use the operations of the
    section on machine sizes; Unix targets of the server are 64-bit.
\<close>

section \<open>Collections of rewrite rules\<close>

named_theorems str_simps \<open>evaluation of the string operations\<close>
named_theorems loop_simps \<open>unfolding equations of loops, not in the simpset\<close>

declare Option.bind_cong [fundef_cong]

section \<open>Results\<close>

text \<open>\<open>Result\<close> as a sum, \<open>Inl\<close> the error; \<open>and_then\<close> is the \<open>?\<close> operator followed by the rest of the function,
  and \<open>collect_results\<close> collects an iterator of results up to the first error.\<close>

definition and_then :: "'e + 'a \<Rightarrow> ('a \<Rightarrow> 'e + 'b) \<Rightarrow> 'e + 'b" where
  "and_then r f = (case r of Inl e \<Rightarrow> Inl e | Inr a \<Rightarrow> f a)"

fun collect_results :: "('e + 'a) list \<Rightarrow> 'e + 'a list" where
  "collect_results [] = Inr []"
| "collect_results (Inl e # rs) = Inl e"
| "collect_results (Inr a # rs) = (case collect_results rs of Inl e \<Rightarrow> Inl e | Inr as \<Rightarrow> Inr (a # as))"

named_theorems result_iff \<open>when a result is a success\<close>

lemma and_then_simps [simp]: "and_then (Inl e) f = Inl e" "and_then (Inr a) f = f a"
  by (simp_all add: and_then_def)

lemma and_then_Inr [result_iff]: "and_then r f = Inr b \<longleftrightarrow> (\<exists>a. r = Inr a \<and> f a = Inr b)"
  by (cases r) auto

lemma collect_results_map_Inr [simp]: "collect_results (map Inr xs) = Inr xs"
  by (induction xs) auto

lemma collect_results_Inr [result_iff]: "collect_results rs = Inr xs \<longleftrightarrow> rs = map Inr xs"
proof
  show "collect_results rs = Inr xs \<Longrightarrow> rs = map Inr xs"
    by (induction rs arbitrary: xs rule: collect_results.induct) (auto split: sum.splits)
qed simp

section \<open>Text\<close>

type_synonym ch = nat
type_synonym str = "ch list"

primrec lit :: "string \<Rightarrow> str" where
  "lit [] = []"
| "lit (c # cs) = of_char c # lit cs"

text \<open>UTF-8 length of one scalar value and of a text (\<open>char::len_utf8\<close>, \<open>str::len\<close>).\<close>

definition utf8_len :: "ch \<Rightarrow> nat" where
  "utf8_len c = (if c < 128 then 1 else if c < 2048 then 2 else if c < 65536 then 3 else 4)"

definition str_len :: "str \<Rightarrow> nat" where
  "str_len s = sum_list (map utf8_len s)"

lemma utf8_len_pos [simp]: "0 < utf8_len c"
  by (simp add: utf8_len_def)

lemma utf8_len_neq_0 [simp]: "utf8_len c \<noteq> 0"
  by (simp add: utf8_len_def)

lemma utf8_len_ascii [simp]: "c < 128 \<Longrightarrow> utf8_len c = 1"
  by (simp add: utf8_len_def)

lemma str_len_Nil [simp]: "str_len [] = 0"
  and str_len_Cons [simp]: "str_len (c # s) = utf8_len c + str_len s"
  and str_len_append [simp]: "str_len (s @ t) = str_len s + str_len t"
  by (simp_all add: str_len_def)

lemma str_len_eq_0 [simp]: "str_len s = 0 \<longleftrightarrow> s = []"
  by (cases s) simp_all

lemma length_le_str_len: "length s \<le> str_len s"
proof (induction s)
  case (Cons c s)
  have "0 < utf8_len c" by simp
  then show ?case using Cons by (simp only: list.size str_len_Cons)
qed simp

lemma str_len_take_drop: "str_len (take n s) + str_len (drop n s) = str_len s"
  by (metis append_take_drop_id str_len_append)

section \<open>Character classes\<close>

text \<open>
  \<open>char::is_whitespace\<close> is the Unicode property \<open>White_Space\<close>, a closed list; the ASCII classes
  are ranges.
\<close>

definition is_whitespace :: "ch \<Rightarrow> bool" where
  "is_whitespace c \<longleftrightarrow> (9 \<le> c \<and> c \<le> 13) \<or> c = 32 \<or> c = 133 \<or> c = 160 \<or> c = 5760 \<or>
     (8192 \<le> c \<and> c \<le> 8202) \<or> c = 8232 \<or> c = 8233 \<or> c = 8239 \<or> c = 8287 \<or> c = 12288"

definition is_ascii_digit :: "ch \<Rightarrow> bool" where
  "is_ascii_digit c \<longleftrightarrow> 48 \<le> c \<and> c \<le> 57"

definition is_ascii_alphabetic :: "ch \<Rightarrow> bool" where
  "is_ascii_alphabetic c \<longleftrightarrow> (65 \<le> c \<and> c \<le> 90) \<or> (97 \<le> c \<and> c \<le> 122)"

definition is_ascii_alphanumeric :: "ch \<Rightarrow> bool" where
  "is_ascii_alphanumeric c \<longleftrightarrow> is_ascii_digit c \<or> is_ascii_alphabetic c"

definition to_ascii_lower :: "ch \<Rightarrow> ch" where
  "to_ascii_lower c = (if 65 \<le> c \<and> c \<le> 90 then c + 32 else c)"

definition to_ascii_lowercase :: "str \<Rightarrow> str" where
  "to_ascii_lowercase s = map to_ascii_lower s"

definition eq_ignore_ascii_case :: "str \<Rightarrow> str \<Rightarrow> bool" where
  "eq_ignore_ascii_case a b \<longleftrightarrow> to_ascii_lowercase a = to_ascii_lowercase b"

section \<open>String operations of the standard library\<close>

fun strip_prefix :: "'a list \<Rightarrow> 'a list \<Rightarrow> 'a list option" where
  "strip_prefix [] s = Some s"
| "strip_prefix (p # ps) [] = None"
| "strip_prefix (p # ps) (c # s) = (if p = c then strip_prefix ps s else None)"

definition starts_with :: "'a list \<Rightarrow> 'a list \<Rightarrow> bool" where
  "starts_with p s \<longleftrightarrow> strip_prefix p s \<noteq> None"

definition strip_suffix :: "'a list \<Rightarrow> 'a list \<Rightarrow> 'a list option" where
  "strip_suffix p s = map_option rev (strip_prefix (rev p) (rev s))"

definition ends_with :: "'a list \<Rightarrow> 'a list \<Rightarrow> bool" where
  "ends_with p s \<longleftrightarrow> strip_suffix p s \<noteq> None"

text \<open>\<open>str::find\<close>: the number of characters before the first occurrence of the pattern.\<close>

fun find_str :: "'a list \<Rightarrow> 'a list \<Rightarrow> nat option" where
  "find_str p [] = (if p = [] then Some 0 else None)"
| "find_str p (c # s) =
     (if starts_with p (c # s) then Some 0 else map_option Suc (find_str p s))"

definition contains :: "'a list \<Rightarrow> 'a list \<Rightarrow> bool" where
  "contains p s \<longleftrightarrow> find_str p s \<noteq> None"

text \<open>\<open>str::split\<close> at one character: always at least one part.\<close>

fun split_on :: "'a \<Rightarrow> 'a list \<Rightarrow> 'a list list" where
  "split_on d [] = [[]]"
| "split_on d (c # s) =
     (if c = d then [] # split_on d s
      else (case split_on d s of [] \<Rightarrow> [[c]] | w # ws \<Rightarrow> (c # w) # ws))"

text \<open>\<open>str::split_once\<close> and \<open>str::rsplit_once\<close> for a pattern of any length.\<close>

definition split_once :: "'a list \<Rightarrow> 'a list \<Rightarrow> ('a list \<times> 'a list) option" where
  "split_once p s = map_option (\<lambda>i. (take i s, drop (i + length p) s)) (find_str p s)"

definition rsplit_once :: "'a list \<Rightarrow> 'a list \<Rightarrow> ('a list \<times> 'a list) option" where
  "rsplit_once p s =
     map_option (\<lambda>(a, b). (rev b, rev a)) (split_once (rev p) (rev s))"

definition trim_start :: "str \<Rightarrow> str" where
  "trim_start s = dropWhile is_whitespace s"

definition trim_end :: "str \<Rightarrow> str" where
  "trim_end s = rev (dropWhile is_whitespace (rev s))"

definition trim :: "str \<Rightarrow> str" where
  "trim s = trim_end (trim_start s)"

definition trim_end_matches_ch :: "'a \<Rightarrow> 'a list \<Rightarrow> 'a list" where
  "trim_end_matches_ch d s = rev (dropWhile ((=) d) (rev s))"

text \<open>\<open>str::trim_start_matches\<close> with a text pattern strips it as often as it occurs.\<close>

function trim_start_matches :: "'a list \<Rightarrow> 'a list \<Rightarrow> 'a list" where
  "trim_start_matches p s =
     (if p = [] then s
      else case strip_prefix p s of None \<Rightarrow> s | Some r \<Rightarrow> trim_start_matches p r)"
  by pat_completeness auto

lemma strip_prefix_Some: "strip_prefix p s = Some r \<longleftrightarrow> s = p @ r"
  by (induction p s rule: strip_prefix.induct) auto

termination trim_start_matches
  by (relation "measure (\<lambda>(p, s). length s)") (auto simp: strip_prefix_Some)

declare trim_start_matches.simps [simp del, loop_simps]

text \<open>\<open>str::lines\<close>: split after each newline, dropping the newline and one carriage return
  before it; a final newline starts no further line.\<close>

definition strip_cr :: "str \<Rightarrow> str" where
  "strip_cr s = (case strip_suffix [13] s of None \<Rightarrow> s | Some r \<Rightarrow> r)"

definition str_lines :: "str \<Rightarrow> str list" where
  "str_lines s =
     (let ps = split_on 10 s
      in map strip_cr (butlast ps) @ (if last ps = [] then [] else [last ps]))"

text \<open>\<open>str::split_whitespace\<close>: the maximal runs of other characters.\<close>

fun split_whitespace_from :: "str \<Rightarrow> str \<Rightarrow> str list" where
  "split_whitespace_from w [] = (if w = [] then [] else [w])"
| "split_whitespace_from w (c # s) =
     (if is_whitespace c
      then (if w = [] then split_whitespace_from [] s else w # split_whitespace_from [] s)
      else split_whitespace_from (w @ [c]) s)"

definition split_whitespace :: "str \<Rightarrow> str list" where
  "split_whitespace s = split_whitespace_from [] s"

text \<open>\<open>[T]::join\<close>.\<close>

fun join :: "'a list \<Rightarrow> 'a list list \<Rightarrow> 'a list" where
  "join sep [] = []"
| "join sep [x] = x"
| "join sep (x # y # ys) = x @ sep @ join sep (y # ys)"

text \<open>\<open>str::replace\<close> of one character by another.\<close>

definition replace_ch :: "'a \<Rightarrow> 'a \<Rightarrow> 'a list \<Rightarrow> 'a list" where
  "replace_ch a b s = map (\<lambda>c. if c = a then b else c) s"

subsection \<open>Laws of the string operations\<close>

lemma starts_with_iff: "starts_with p s \<longleftrightarrow> (\<exists>r. s = p @ r)"
  by (auto simp: starts_with_def strip_prefix_Some)

lemma strip_suffix_Some: "strip_suffix p s = Some r \<longleftrightarrow> s = r @ p"
proof -
  have "strip_suffix p s = Some r \<longleftrightarrow> strip_prefix (rev p) (rev s) = Some (rev r)"
    by (auto simp: strip_suffix_def)
  also have "\<dots> \<longleftrightarrow> rev s = rev p @ rev r" by (simp add: strip_prefix_Some)
  also have "\<dots> \<longleftrightarrow> s = r @ p" by (metis rev_append rev_is_rev_conv)
  finally show ?thesis .
qed

lemma ends_with_iff: "ends_with p s \<longleftrightarrow> (\<exists>r. s = r @ p)"
  by (auto simp: ends_with_def strip_suffix_Some)

lemma find_str_Some_split:
  "find_str p s = Some i \<Longrightarrow> i + length p \<le> length s \<and> s = take i s @ p @ drop (i + length p) s"
proof (induction s arbitrary: i)
  case Nil
  then show ?case by (simp split: if_splits)
next
  case (Cons c s)
  show ?case
  proof (cases "starts_with p (c # s)")
    case True
    then obtain r where "c # s = p @ r" by (auto simp: starts_with_iff)
    moreover from True Cons.prems have "i = 0" by simp
    ultimately show ?thesis by simp
  next
    case False
    with Cons.prems obtain j where "find_str p s = Some j" "i = Suc j" by auto
    with Cons.IH show ?thesis by simp
  qed
qed

lemma split_once_Some: "split_once p s = Some (a, b) \<Longrightarrow> s = a @ p @ b"
  by (auto simp: split_once_def dest: find_str_Some_split)

lemma split_once_ch: "d \<notin> set k \<Longrightarrow> split_once [d] (k @ d # v) = Some (k, v)"
proof -
  assume d: "d \<notin> set k"
  then have "find_str [d] (k @ d # v) = Some (length k)"
    by (induction k) (auto simp: starts_with_def)
  then show ?thesis by (simp add: split_once_def)
qed

lemma split_on_not_Nil [simp]: "split_on d s \<noteq> []"
  by (cases s) (auto split: list.splits)

lemma split_on_no_sep: "w \<in> set (split_on d s) \<Longrightarrow> d \<notin> set w"
  by (induction s arbitrary: w) (force split: if_splits list.splits)+

lemma join_split_on: "join [d] (split_on d s) = s"
proof (induction s)
  case (Cons c s)
  obtain w ws where ws: "split_on d s = w # ws" by (cases "split_on d s") auto
  show ?case
  proof (cases "c = d")
    case True
    then show ?thesis using Cons ws by simp
  next
    case False
    then show ?thesis using Cons ws by (cases ws) simp_all
  qed
qed simp

lemma split_on_join:
  "xs \<noteq> [] \<Longrightarrow> (\<And>w. w \<in> set xs \<Longrightarrow> d \<notin> set w) \<Longrightarrow> split_on d (join [d] xs) = xs"
proof (induction xs rule: list_nonempty_induct)
  case (single x)
  then show ?case by (induction x) auto
next
  case (cons x xs)
  have step: "d \<notin> set x \<Longrightarrow> split_on d (x @ d # t) = x # split_on d t" for t
    by (induction x) auto
  have "split_on d (join [d] xs) = xs" using cons by simp
  moreover obtain y ys where "xs = y # ys" using cons.hyps by (cases xs) auto
  ultimately show ?case using step [of "join [d] xs"] cons.prems by simp
qed

section \<open>Byte offsets\<close>

text \<open>
  Slicing by byte offsets: \<open>s[n..]\<close> and \<open>s[..n]\<close> panic (\<open>None\<close>) when \<open>n\<close> is beyond the end or inside
  a character; \<open>is_char_boundary\<close> is the test for that.
\<close>

fun bytes_from :: "nat \<Rightarrow> str \<Rightarrow> str option" where
  "bytes_from n [] = (if n = 0 then Some [] else None)"
| "bytes_from n (c # s) =
     (if n = 0 then Some (c # s) else if utf8_len c \<le> n then bytes_from (n - utf8_len c) s else None)"

fun bytes_to :: "nat \<Rightarrow> str \<Rightarrow> str option" where
  "bytes_to n [] = (if n = 0 then Some [] else None)"
| "bytes_to n (c # s) =
     (if n = 0 then Some []
      else if utf8_len c \<le> n then map_option ((#) c) (bytes_to (n - utf8_len c) s) else None)"

definition byte_slice :: "str \<Rightarrow> nat \<Rightarrow> nat \<Rightarrow> str option" where
  "byte_slice s a b =
     (if a \<le> b then (case bytes_from a s of None \<Rightarrow> None | Some r \<Rightarrow> bytes_to (b - a) r) else None)"

definition is_char_boundary :: "str \<Rightarrow> nat \<Rightarrow> bool" where
  "is_char_boundary s n \<longleftrightarrow> bytes_from n s \<noteq> None"

lemma bytes_from_Some: "bytes_from n s = Some r \<longleftrightarrow> (\<exists>p. s = p @ r \<and> str_len p = n)"
proof (induction n s rule: bytes_from.induct)
  case (2 n c s)
  show ?case
  proof
    assume "bytes_from n (c # s) = Some r"
    then show "\<exists>p. c # s = p @ r \<and> str_len p = n" using 2
      by (auto split: if_splits)
  next
    assume "\<exists>p. c # s = p @ r \<and> str_len p = n"
    then obtain p where p: "c # s = p @ r" "str_len p = n" by blast
    show "bytes_from n (c # s) = Some r"
    proof (cases p)
      case (Cons d p')
      then show ?thesis using p 2 by auto
    qed (use p in auto)
  qed
qed auto

lemma bytes_to_Some: "bytes_to n s = Some p \<longleftrightarrow> (\<exists>r. s = p @ r \<and> str_len p = n)"
proof (induction n s arbitrary: p rule: bytes_to.induct)
  case (2 n c s)
  show ?case
  proof
    assume "bytes_to n (c # s) = Some p"
    then show "\<exists>r. c # s = p @ r \<and> str_len p = n" using 2 by (auto split: if_splits)
  next
    assume "\<exists>r. c # s = p @ r \<and> str_len p = n"
    then obtain r where r: "c # s = p @ r" "str_len p = n" by blast
    show "bytes_to n (c # s) = Some p"
    proof (cases p)
      case (Cons d p')
      then show ?thesis using r 2 by auto
    qed (use r in auto)
  qed
qed auto

lemma byte_slice_append [simp]:
  "byte_slice (p @ f @ r) (str_len p) (str_len p + str_len f) = Some f"
proof -
  have "bytes_from (str_len p) (p @ f @ r) = Some (f @ r)" by (auto simp: bytes_from_Some)
  moreover have "bytes_to (str_len f) (f @ r) = Some f" by (auto simp: bytes_to_Some)
  ultimately show ?thesis by (simp add: byte_slice_def)
qed

lemma is_char_boundary_iff: "is_char_boundary s n \<longleftrightarrow> (\<exists>p r. s = p @ r \<and> str_len p = n)"
  by (auto simp: is_char_boundary_def bytes_from_Some)

lemma byte_slice_SomeD:
  "byte_slice s i j = Some x \<Longrightarrow> \<exists>a b. s = a @ x @ b \<and> str_len a = i \<and> str_len (a @ x) = j"
  by (auto simp: byte_slice_def bytes_from_Some bytes_to_Some split: option.splits if_splits)

lemma prefix_by_str_len: "p @ r = p' @ r' \<Longrightarrow> str_len p \<le> str_len p' \<Longrightarrow> \<exists>m. p' = p @ m \<and> r = m @ r'"
proof -
  assume eq: "p @ r = p' @ r'" and le: "str_len p \<le> str_len p'"
  from eq consider m where "p' = p @ m" "r = m @ r'" | m where "p = p' @ m" "r' = m @ r"
    by (auto simp: append_eq_append_conv2)
  then show ?thesis using le by cases auto
qed

section \<open>Machine sizes\<close>

definition usize_max :: nat where
  "usize_max = 2 ^ 64 - 1"

text \<open>\<open>saturating_add\<close> and \<open>saturating_mul\<close> on \<open>usize\<close> and \<open>u64\<close>; \<open>saturating_sub\<close> is the
  truncating subtraction of \<open>nat\<close>.\<close>

definition sat_add :: "nat \<Rightarrow> nat \<Rightarrow> nat" where
  "sat_add a b = min (a + b) usize_max"

definition sat_mul :: "nat \<Rightarrow> nat \<Rightarrow> nat" where
  "sat_mul a b = min (a * b) usize_max"

definition checked_add :: "nat \<Rightarrow> nat \<Rightarrow> nat option" where
  "checked_add a b = (if a + b \<le> usize_max then Some (a + b) else None)"

definition checked_sub :: "nat \<Rightarrow> nat \<Rightarrow> nat option" where
  "checked_sub a b = (if b \<le> a then Some (a - b) else None)"

text \<open>Plain \<open>+=\<close> and \<open>-=\<close> on \<open>usize\<close> wrap around in the release profile.\<close>

definition wrap_add :: "nat \<Rightarrow> nat \<Rightarrow> nat" where
  "wrap_add a b = (a + b) mod 2 ^ 64"

definition wrap_sub :: "nat \<Rightarrow> nat \<Rightarrow> nat" where
  "wrap_sub a b = (a + 2 ^ 64 - b) mod 2 ^ 64"

lemma sat_add_no_overflow: "a + b \<le> usize_max \<Longrightarrow> sat_add a b = a + b"
  by (simp add: sat_add_def)

lemma wrap_add_no_overflow: "a + b \<le> usize_max \<Longrightarrow> wrap_add a b = a + b"
  by (simp add: wrap_add_def usize_max_def)

lemma wrap_sub_no_underflow:
  assumes "b \<le> a" "a \<le> usize_max"
  shows "wrap_sub a b = a - b"
proof -
  have "a + M - b = (a - b) + M" for M using assms(1) by linarith
  moreover have "a - b < 2 ^ 64" using assms(2) by (simp add: usize_max_def)
  ultimately show ?thesis unfolding wrap_sub_def by (metis mod_add_self2 mod_less)
qed

section \<open>Numbers as text\<close>

definition digit_ch :: "nat \<Rightarrow> ch" where
  "digit_ch d = (if d < 10 then 48 + d else 87 + d)"

text \<open>\<open>{:x}\<close> and \<open>{}\<close> formatting of unsigned numbers: no leading zero.\<close>

fun fmt_radix :: "nat \<Rightarrow> nat \<Rightarrow> str" where
  "fmt_radix b n = (if n < b \<or> b < 2 then [digit_ch n] else fmt_radix b (n div b) @ [digit_ch (n mod b)])"

declare fmt_radix.simps [simp del, loop_simps]

abbreviation fmt_dec :: "nat \<Rightarrow> str" where
  "fmt_dec n \<equiv> fmt_radix 10 n"

abbreviation fmt_hex :: "nat \<Rightarrow> str" where
  "fmt_hex n \<equiv> fmt_radix 16 n"

text \<open>\<open>{:0w$x}\<close>: left padding with zeros.\<close>

definition fmt_hex_pad :: "nat \<Rightarrow> nat \<Rightarrow> str" where
  "fmt_hex_pad w n = replicate (w - length (fmt_hex n)) 48 @ fmt_hex n"

text \<open>\<open>str::parse::<usize>\<close>: an optional plus sign and decimal digits, within the type.\<close>

fun dec_value :: "nat \<Rightarrow> str \<Rightarrow> nat option" where
  "dec_value acc [] = Some acc"
| "dec_value acc (c # s) = (if is_ascii_digit c then dec_value (10 * acc + (c - 48)) s else None)"

definition parse_usize :: "str \<Rightarrow> nat option" where
  "parse_usize s =
     (let digits = (case s of [] \<Rightarrow> [] | c # r \<Rightarrow> if c = 43 then r else s)
      in if digits = [] then None
         else case dec_value 0 digits of None \<Rightarrow> None
              | Some n \<Rightarrow> if n \<le> usize_max then Some n else None)"

lemma dec_value_append:
  "dec_value acc (s @ [c]) =
     (case dec_value acc s of None \<Rightarrow> None
      | Some n \<Rightarrow> if is_ascii_digit c then Some (10 * n + (c - 48)) else None)"
  by (induction s arbitrary: acc) auto

lemma dec_value_fmt_dec: "dec_value 0 (fmt_dec n) = Some n"
proof (induction n rule: less_induct)
  case (less n)
  show ?case
  proof (cases "n < 10")
    case True
    then show ?thesis
      by (subst fmt_radix.simps) (simp add: digit_ch_def is_ascii_digit_def)
  next
    case False
    then have "dec_value 0 (fmt_dec (n div 10)) = Some (n div 10)" using less by simp
    with False show ?thesis
      by (subst fmt_radix.simps)
        (simp add: dec_value_append digit_ch_def is_ascii_digit_def)
  qed
qed

lemma fmt_radix_not_Nil [simp]: "fmt_radix b n \<noteq> []"
  by (subst fmt_radix.simps) simp

lemma fmt_dec_digits: "c \<in> set (fmt_dec n) \<Longrightarrow> is_ascii_digit c"
proof (induction n rule: less_induct)
  case (less n)
  show ?case
  proof (cases "n < 10")
    case True
    then show ?thesis using less.prems
      by (subst (asm) fmt_radix.simps) (simp add: digit_ch_def is_ascii_digit_def)
  next
    case False
    from False less.prems have "c \<in> set (fmt_dec (n div 10)) \<or> c = digit_ch (n mod 10)"
      by (subst (asm) fmt_radix.simps) auto
    then show ?thesis using less.IH [of "n div 10"] False
      by (auto simp: digit_ch_def is_ascii_digit_def)
  qed
qed

lemma parse_usize_fmt_dec: "n \<le> usize_max \<Longrightarrow> parse_usize (fmt_dec n) = Some n"
proof -
  assume n: "n \<le> usize_max"
  obtain c r where c: "fmt_dec n = c # r" by (cases "fmt_dec n") auto
  then have "is_ascii_digit c" using fmt_dec_digits [of c n] by simp
  then have "c \<noteq> 43" by (auto simp: is_ascii_digit_def)
  then show ?thesis using n c dec_value_fmt_dec [of n] by (simp add: parse_usize_def)
qed

text \<open>Formatting is injective, prints only ASCII characters, and its width is logarithmic.\<close>

lemma digit_ch_inj: "a < 36 \<Longrightarrow> b < 36 \<Longrightarrow> digit_ch a = digit_ch b \<longleftrightarrow> a = b"
  by (auto simp: digit_ch_def)

lemma mod_less_le: "2 \<le> b \<Longrightarrow> b \<le> m \<Longrightarrow> k mod b < (m::nat)"
  using mod_less_divisor [of b k] by linarith

lemma fmt_radix_small: "n < b \<Longrightarrow> fmt_radix b n = [digit_ch n]"
  by (subst fmt_radix.simps) simp

lemma fmt_radix_big:
  "2 \<le> b \<Longrightarrow> \<not> n < b \<Longrightarrow> fmt_radix b n = fmt_radix b (n div b) @ [digit_ch (n mod b)]"
  by (subst fmt_radix.simps) simp

lemma fmt_radix_inj:
  assumes b: "2 \<le> b" "b \<le> 36"
  shows "fmt_radix b m = fmt_radix b n \<Longrightarrow> m = n"
proof (induction m arbitrary: n rule: less_induct)
  case (less m)
  have digit: "k mod b < 36" for k by (rule mod_less_le [OF b])
  consider "m < b" "n < b" | "m < b" "\<not> n < b" | "\<not> m < b" "n < b" | "\<not> m < b" "\<not> n < b" by blast
  then show ?case
  proof cases
    case 1
    then have "digit_ch m = digit_ch n" using less.prems by (simp add: fmt_radix_small)
    moreover have "m < 36" "n < 36" using 1 b by linarith+
    ultimately show ?thesis by (simp add: digit_ch_inj)
  next
    case 2
    then show ?thesis using less.prems fmt_radix_small [of m b] fmt_radix_big [OF b(1), of n]
      by (metis append_self_conv2 fmt_radix_not_Nil append1_eq_conv)
  next
    case 3
    then show ?thesis using less.prems fmt_radix_small [of n b] fmt_radix_big [OF b(1), of m]
      by simp
  next
    case 4
    then have "fmt_radix b (m div b) = fmt_radix b (n div b)" "m mod b = n mod b"
      using less.prems fmt_radix_big [OF b(1)] digit by (simp_all add: digit_ch_inj)
    moreover have "m div b < m" using 4 b by simp
    ultimately show ?thesis using less.IH by (metis div_mult_mod_eq)
  qed
qed

lemma fmt_radix_ascii: "b \<le> 36 \<Longrightarrow> 2 \<le> b \<Longrightarrow> c \<in> set (fmt_radix b n) \<Longrightarrow> c < 128"
proof (induction n rule: less_induct)
  case (less n)
  have digit: "d < 36 \<Longrightarrow> digit_ch d < 128" for d by (simp add: digit_ch_def)
  show ?case
  proof (cases "n < b")
    case True
    then show ?thesis using less.prems digit by (simp add: fmt_radix_small)
  next
    case False
    then have "c \<in> set (fmt_radix b (n div b)) \<or> c = digit_ch (n mod b)"
      using less.prems by (auto simp: fmt_radix_big)
    moreover have "n div b < n" using False less.prems by simp
    ultimately show ?thesis using less.IH less.prems digit mod_less_le by blast
  qed
qed

lemma length_fmt_radix: "2 \<le> b \<Longrightarrow> n < b ^ Suc k \<Longrightarrow> length (fmt_radix b n) \<le> Suc k"
proof (induction k arbitrary: n)
  case 0
  then show ?case by (subst fmt_radix.simps) simp
next
  case (Suc k)
  then have "n div b < b ^ Suc k"
    by (metis less_mult_imp_div_less mult.commute power_Suc)
  then show ?case using Suc by (subst fmt_radix.simps) simp
qed

lemma str_len_ascii: "(\<And>c. c \<in> set s \<Longrightarrow> c < 128) \<Longrightarrow> str_len s = length s"
  by (induction s) auto

section \<open>Paths\<close>

type_synonym path = "str list"

text \<open>\<open>Path::starts_with\<close> compares whole components; \<open>as_os_str().len()\<close> of a canonical absolute
  path counts its separators.\<close>

definition path_starts_with :: "path \<Rightarrow> path \<Rightarrow> bool" where
  "path_starts_with p base \<longleftrightarrow> starts_with base p"

definition path_len :: "path \<Rightarrow> nat" where
  "path_len p = (if p = [] then 1 else sum_list (map (\<lambda>c. Suc (str_len c)) p))"

section \<open>Ordered maps\<close>

text \<open>\<open>BTreeMap::insert\<close> on an association list kept in key order.\<close>

fun bt_insert :: "'k::linorder \<Rightarrow> 'v \<Rightarrow> ('k \<times> 'v) list \<Rightarrow> ('k \<times> 'v) list" where
  "bt_insert k v [] = [(k, v)]"
| "bt_insert k v ((a, b) # m) =
     (if k < a then (k, v) # (a, b) # m
      else if k = a then (k, v) # m
      else (a, b) # bt_insert k v m)"

lemma map_of_map_values: "map_of (map (\<lambda>(k, v). (k, f k v)) m) k = map_option (f k) (map_of m k)"
  by (induction m) auto

lemma map_of_bt_insert [simp]: "map_of (bt_insert k v m) = (map_of m)(k \<mapsto> v)"
  by (induction k v m rule: bt_insert.induct) (auto simp: fun_eq_iff)

lemma keys_bt_insert [simp]: "fst ` set (bt_insert k v m) = insert k (fst ` set m)"
  by (induction k v m rule: bt_insert.induct) auto

lemma sorted_bt_insert:
  "sorted_wrt (<) (map fst m) \<Longrightarrow> sorted_wrt (<) (map fst (bt_insert k v m))"
proof (induction k v m rule: bt_insert.induct)
  case (2 k v a b m)
  have "fst ` set (bt_insert k v m) = insert k (fst ` set m)" by simp
  with 2 show ?case
    by (auto simp: less_trans)
qed simp

section \<open>Invariants of step relations\<close>

text \<open>
  The contract between a step relation and an invariant, and what it gives for every reachable state.
  \<open>draining_system\<close> adds a measure that some steps decrease until a state is quiet.
\<close>

locale invariant_system =
  fixes step :: "'a \<Rightarrow> 'a \<Rightarrow> bool" and start :: 'a and inv :: "'a \<Rightarrow> bool"
  assumes inv_start: "inv start" and inv_step: "inv s \<Longrightarrow> step s t \<Longrightarrow> inv t"
begin

lemma inv_steps: "step\<^sup>*\<^sup>* s t \<Longrightarrow> inv s \<Longrightarrow> inv t"
  by (induction rule: rtranclp_induct) (auto intro: inv_step)

lemma reachable_inv: "step\<^sup>*\<^sup>* start t \<Longrightarrow> inv t"
  by (rule inv_steps [OF _ inv_start])

end

locale draining_system = invariant_system +
  fixes inner :: "'a \<Rightarrow> 'a \<Rightarrow> bool" and quiet :: "'a \<Rightarrow> bool" and pending :: "'a \<Rightarrow> nat"
  assumes inner_step: "inner s t \<Longrightarrow> step s t"
    and inner_decreases: "inner s t \<Longrightarrow> pending t < pending s"
    and inner_enabled: "inv s \<Longrightarrow> \<not> quiet s \<Longrightarrow> \<exists>t. inner s t"
begin

lemma drains: "inv s \<Longrightarrow> \<exists>t. inner\<^sup>*\<^sup>* s t \<and> quiet t"
proof (induction "pending s" arbitrary: s rule: less_induct)
  case less
  show ?case
  proof (cases "quiet s")
    case False
    then obtain t where t: "inner s t" using inner_enabled less.prems by blast
    then have "inv t" using inv_step inner_step less.prems by blast
    with less.hyps [OF inner_decreases [OF t]] obtain u where "inner\<^sup>*\<^sup>* t u" "quiet u" by blast
    then show ?thesis using t by (meson converse_rtranclp_into_rtranclp)
  qed auto
qed

lemma no_endless_inner: "\<not> (\<forall>n. inner (f n) (f (Suc n)))"
proof
  assume run: "\<forall>n. inner (f n) (f (Suc n))"
  have "pending (f n) + n \<le> pending (f 0)" for n
  proof (induction n)
    case (Suc n)
    have "pending (f (Suc n)) < pending (f n)" using run inner_decreases by blast
    then show ?case using Suc by simp
  qed simp
  from this [of "Suc (pending (f 0))"] show False by simp
qed

end

end
