(* ===== verification/Result_Store.thy ===== *)
theory Result_Store
  imports Prelude
begin

text \<open>
  The bounded, process-local store of oversized tool results (\<open>src/server/result_store.rs\<close>).

  The state is the record \<open>result_store\<close>; \<open>insert\<close>, \<open>get\<close>, \<open>expire\<close>, \<open>evict_oldest\<close> and
  \<open>next_id\<close> are the methods of the code.  An \<open>Instant\<close> is a number of nanoseconds.  The eviction
  loop of \<open>insert\<close> has no bound of its own, so it is a partial function whose result \<open>None\<close> means
  that the loop never ends; under the invariant it always returns.

  The abstract specification keeps the whole history of accepted results and reads it through a
  window (\<open>window\<close>): newest first, at most sixteen results, within the byte budget, and none
  older than the time to live.  The refinement lemmas show that the evicting store is exactly
  this window, and everything else about the store follows from it.
\<close>

section \<open>Data and operations\<close>

definition MAX_STORED_RESULTS :: nat where
  "MAX_STORED_RESULTS = 16"

definition STORED_RESULT_TTL :: nat where
  "STORED_RESULT_TTL = 300 * 1000000000"

record ResultTooLarge =
  tl_retained_bytes :: nat
  tl_limit :: nat

record StoredResult =
  sr_id :: str
  sr_project_root :: path
  sr_json :: str
  sr_stored_at :: nat
  sr_retained_bytes :: nat

record ResultStore =
  rs_entries :: "StoredResult list"
  rs_max_bytes :: nat
  rs_retained_bytes :: nat
  rs_process_key :: "64 word"
  rs_next_sequence :: "64 word"

definition with_process_key :: "nat \<Rightarrow> 64 word \<Rightarrow> ResultStore" where
  "with_process_key max_bytes key =
     \<lparr> rs_entries = [], rs_max_bytes = max_bytes, rs_retained_bytes = 0,
       rs_process_key = key, rs_next_sequence = 0 \<rparr>"

definition evict_oldest :: "ResultStore \<Rightarrow> ResultStore" where
  "evict_oldest s =
     (case rs_entries s of
        [] \<Rightarrow> s
      | evicted # rest \<Rightarrow>
          s \<lparr> rs_entries := rest,
              rs_retained_bytes := wrap_sub (rs_retained_bytes s) (sr_retained_bytes evicted) \<rparr>)"

text \<open>\<open>now.saturating_duration_since(stored_at) >= STORED_RESULT_TTL\<close>\<close>

definition is_expired :: "nat \<Rightarrow> StoredResult \<Rightarrow> bool" where
  "is_expired now e \<longleftrightarrow> STORED_RESULT_TTL \<le> now - sr_stored_at e"

function expire :: "nat \<Rightarrow> ResultStore \<Rightarrow> ResultStore" where
  "expire now s =
     (case rs_entries s of
        [] \<Rightarrow> s
      | front # _ \<Rightarrow> if is_expired now front then expire now (evict_oldest s) else s)"
  by pat_completeness auto

termination expire
  by (relation "measure (\<lambda>(now, s). length (rs_entries s))") (auto simp: evict_oldest_def)

declare expire.simps [simp del, loop_simps]

text \<open>\<open>format!("r{:016x}{sequence:x}", self.process_key)\<close>\<close>

definition format_id :: "64 word \<Rightarrow> 64 word \<Rightarrow> str" where
  "format_id key sequence = lit ''r'' @ fmt_hex_pad 16 (unat key) @ fmt_hex (unat sequence)"

definition next_id :: "ResultStore \<Rightarrow> str \<times> ResultStore" where
  "next_id s =
     (format_id (rs_process_key s) (rs_next_sequence s),
      s \<lparr> rs_next_sequence := rs_next_sequence s + 1 \<rparr>)"

definition longest_result_id :: str where
  "longest_result_id = format_id (- 1) (- 1)"

definition retained_size :: "str \<Rightarrow> path \<Rightarrow> str \<Rightarrow> nat" where
  "retained_size rid root json = str_len json + str_len rid + path_len root"

definition must_evict :: "nat \<Rightarrow> ResultStore \<Rightarrow> bool" where
  "must_evict bytes s \<longleftrightarrow>
     MAX_STORED_RESULTS \<le> length (rs_entries s) \<or>
     rs_max_bytes s < sat_add (rs_retained_bytes s) bytes"

partial_function (option) evict_until_fits :: "nat \<Rightarrow> ResultStore \<Rightarrow> ResultStore option" where
  "evict_until_fits bytes s =
     (if must_evict bytes s then evict_until_fits bytes (evict_oldest s) else Some s)"

declare evict_until_fits.simps [code, loop_simps]

definition push_result :: "str \<Rightarrow> path \<Rightarrow> str \<Rightarrow> nat \<Rightarrow> nat \<Rightarrow> ResultStore \<Rightarrow> ResultStore" where
  "push_result rid root json now bytes s =
     s \<lparr> rs_retained_bytes := wrap_add (rs_retained_bytes s) bytes,
         rs_entries := rs_entries s @
           [\<lparr> sr_id = rid, sr_project_root = root, sr_json = json, sr_stored_at = now,
              sr_retained_bytes = bytes \<rparr>] \<rparr>"

text \<open>\<open>None\<close> is a call whose eviction loop never ends.\<close>

definition insert_result ::
    "path \<Rightarrow> str \<Rightarrow> nat \<Rightarrow> ResultStore \<Rightarrow> ((ResultTooLarge + str) \<times> ResultStore) option" where
  "insert_result root json now s =
     (let (rid, s) = next_id (expire now s);
          bytes = retained_size rid root json
      in if rs_max_bytes s < bytes
         then Some (Inl \<lparr> tl_retained_bytes = bytes, tl_limit = rs_max_bytes s \<rparr>, s)
         else case evict_until_fits bytes s of
                None \<Rightarrow> None
              | Some s \<Rightarrow> Some (Inr rid, push_result rid root json now bytes s))"

definition get_result :: "str \<Rightarrow> path \<Rightarrow> nat \<Rightarrow> ResultStore \<Rightarrow> str option \<times> ResultStore" where
  "get_result rid root now s =
     (let s = expire now s
      in (map_option sr_json
            (find (\<lambda>e. sr_id e = rid \<and> sr_project_root e = root) (rs_entries s)), s))"

definition stored_len :: "ResultStore \<Rightarrow> nat" where
  "stored_len s = length (rs_entries s)"

section \<open>Abstract specification: a window on the history\<close>

text \<open>
  \<open>fit n b\<close> is the longest prefix of a history (newest result first) with at most \<open>n\<close> results
  and at most \<open>b\<close> bytes; \<open>window\<close> cuts it at the first expired result.
\<close>

fun fit :: "nat \<Rightarrow> nat \<Rightarrow> StoredResult list \<Rightarrow> StoredResult list" where
  "fit 0 b es = []"
| "fit (Suc n) b [] = []"
| "fit (Suc n) b (e # es) =
     (if sr_retained_bytes e \<le> b then e # fit n (b - sr_retained_bytes e) es else [])"

definition window :: "nat \<Rightarrow> nat \<Rightarrow> nat \<Rightarrow> StoredResult list \<Rightarrow> StoredResult list" where
  "window n b now es = takeWhile (\<lambda>e. \<not> is_expired now e) (fit n b es)"

definition total_bytes :: "StoredResult list \<Rightarrow> nat" where
  "total_bytes es = sum_list (map sr_retained_bytes es)"

lemma total_bytes_simps [simp]:
  "total_bytes [] = 0" "total_bytes (e # es) = sr_retained_bytes e + total_bytes es"
  "total_bytes (xs @ ys) = total_bytes xs + total_bytes ys" "total_bytes (rev es) = total_bytes es"
  by (simp_all add: total_bytes_def rev_map [symmetric])

lemma fit_Nil [simp]: "fit n b [] = []"
  by (cases n) simp_all

lemma fit_snoc:
  "fit n b (es @ [e]) =
     (if length es < n \<and> total_bytes (es @ [e]) \<le> b then es @ [e] else fit n b es)"
proof (induction n b es rule: fit.induct)
  case (2 n b)
  then show ?case by simp
qed auto

lemma fit_fit: "n \<le> m \<Longrightarrow> b \<le> c \<Longrightarrow> fit n b (fit m c es) = fit n b es"
proof (induction n b es arbitrary: m c rule: fit.induct)
  case (3 n b e es)
  then obtain m' where "m = Suc m'" by (cases m) auto
  then show ?case using 3 by (auto simp: diff_le_mono)
qed simp_all

lemma fit_takeWhile: "fit n b (takeWhile P es) = takeWhile P (fit n b es)"
  by (induction n b es rule: fit.induct) auto

lemma fit_bounds: "length (fit n b es) \<le> n" "total_bytes (fit n b es) \<le> b"
  by (induction n b es rule: fit.induct) auto

lemma fit_take: "fit n b es = take (length (fit n b es)) es"
  by (induction n b es rule: fit.induct) auto

lemma set_fit: "set (fit n b es) \<subseteq> set es"
  by (induction n b es rule: fit.induct) auto

lemma total_bytes_takeWhile: "total_bytes (takeWhile P es) \<le> total_bytes es"
  by (induction es) auto

lemma window_bounds: "length (window n b now es) \<le> n" "total_bytes (window n b now es) \<le> b"
  using fit_bounds [of n b es] total_bytes_takeWhile length_takeWhile_le
  unfolding window_def by (meson order_trans)+

lemma set_window: "e \<in> set (window n b now es) \<Longrightarrow> e \<in> set es \<and> \<not> is_expired now e"
  using set_fit by (fastforce simp: window_def dest: set_takeWhileD)

text \<open>A result stays in the window while it is young and what follows it leaves it room.\<close>

lemma mem_fit:
  "length later < n \<Longrightarrow> total_bytes (later @ [e]) \<le> b \<Longrightarrow>
   \<exists>tl. fit n b (later @ e # es) = later @ e # tl"
proof (induction later arbitrary: n b)
  case Nil
  then show ?case by (cases n) auto
next
  case (Cons x later)
  then obtain m where "n = Suc m" by (cases n) auto
  then show ?case using Cons by simp
qed

lemma is_expired_mono: "is_expired now e \<Longrightarrow> now \<le> now' \<Longrightarrow> is_expired now' e"
  by (auto simp: is_expired_def)

lemma mem_window:
  assumes "length later < n" "total_bytes (later @ [e]) \<le> b"
    and "\<And>x. x \<in> set later \<Longrightarrow> sr_stored_at e \<le> sr_stored_at x" "\<not> is_expired now e"
  shows "e \<in> set (window n b now (later @ e # es))"
proof -
  from mem_fit [OF assms(1,2)] obtain tl where tl: "fit n b (later @ e # es) = later @ e # tl" ..
  have "\<not> is_expired now x" if "x \<in> set later" for x
    using assms(3) [OF that] assms(4) by (auto simp: is_expired_def)
  with assms(4) show ?thesis by (simp add: window_def tl takeWhile_append2)
qed

section \<open>The store invariant\<close>

definition entry_ok :: "nat \<Rightarrow> StoredResult \<Rightarrow> bool" where
  "entry_ok now e \<longleftrightarrow> sr_stored_at e \<le> now \<and>
     sr_retained_bytes e = retained_size (sr_id e) (sr_project_root e) (sr_json e)"

definition store_ok :: "nat \<Rightarrow> ResultStore \<Rightarrow> bool" where
  "store_ok now s \<longleftrightarrow>
     rs_max_bytes s < usize_max \<and>
     rs_retained_bytes s = total_bytes (rs_entries s) \<and>
     rs_retained_bytes s \<le> rs_max_bytes s \<and>
     length (rs_entries s) \<le> MAX_STORED_RESULTS \<and>
     sorted (map sr_stored_at (rs_entries s)) \<and>
     (\<forall>e \<in> set (rs_entries s). entry_ok now e)"

lemma entry_ok_mono: "entry_ok now e \<Longrightarrow> now \<le> now' \<Longrightarrow> entry_ok now' e"
  by (auto simp: entry_ok_def)

lemma store_ok_mono: "store_ok now s \<Longrightarrow> now \<le> now' \<Longrightarrow> store_ok now' s"
  by (auto simp: store_ok_def entry_ok_mono)

text \<open>The store with other entries and the byte count that belongs to them.\<close>

definition with_entries :: "StoredResult list \<Rightarrow> ResultStore \<Rightarrow> ResultStore" where
  "with_entries es s = s \<lparr> rs_entries := es, rs_retained_bytes := total_bytes es \<rparr>"

lemma with_entries_simps [simp]:
  "rs_entries (with_entries es s) = es"
  "rs_retained_bytes (with_entries es s) = total_bytes es"
  "rs_max_bytes (with_entries es s) = rs_max_bytes s"
  "rs_process_key (with_entries es s) = rs_process_key s"
  "rs_next_sequence (with_entries es s) = rs_next_sequence s"
  "with_entries xs (with_entries es s) = with_entries xs s"
  by (simp_all add: with_entries_def)

lemma with_entries_self: "store_ok now s \<Longrightarrow> with_entries (rs_entries s) s = s"
  by (simp add: with_entries_def store_ok_def)

lemma evict_oldest_ok:
  assumes "store_ok now s" "rs_entries s = e # es"
  shows "evict_oldest s = with_entries es s" "store_ok now (with_entries es s)"
proof -
  have "wrap_sub (rs_retained_bytes s) (sr_retained_bytes e) = total_bytes es"
    using assms by (subst wrap_sub_no_underflow) (auto simp: store_ok_def)
  then show "evict_oldest s = with_entries es s"
    using assms by (simp add: evict_oldest_def with_entries_def)
  show "store_ok now (with_entries es s)" using assms by (auto simp: store_ok_def)
qed

lemma expire_ok:
  "store_ok t s \<Longrightarrow>
   expire now s = with_entries (dropWhile (is_expired now) (rs_entries s)) s \<and> store_ok t (expire now s)"
proof (induction "rs_entries s" arbitrary: s)
  case Nil
  then show ?case using with_entries_self [of t s] by (simp add: expire.simps)
next
  case (Cons e es)
  note ev = evict_oldest_ok [OF Cons.prems Cons.hyps(2) [symmetric]]
  have es: "rs_entries s = e # es" using Cons.hyps(2) by simp
  have step: "expire now s = (if is_expired now e then expire now (with_entries es s) else s)"
    using es ev(1) by (subst expire.simps) simp
  show ?case
  proof (cases "is_expired now e")
    case True
    then show ?thesis using Cons.hyps(1) [of "with_entries es s"] ev(2) step es by auto
  next
    case False
    then show ?thesis using step es Cons.prems with_entries_self [of t s] by simp
  qed
qed

text \<open>What the eviction loop leaves, as a structural recursion over the entries.\<close>

fun drop_oldest :: "nat \<Rightarrow> nat \<Rightarrow> StoredResult list \<Rightarrow> StoredResult list" where
  "drop_oldest b bytes [] = []"
| "drop_oldest b bytes (e # es) =
     (if MAX_STORED_RESULTS \<le> length (e # es) \<or> b < total_bytes (e # es) + bytes
      then drop_oldest b bytes es else e # es)"

lemma drop_oldest_fit:
  "drop_oldest b bytes (rev es) = rev (fit (MAX_STORED_RESULTS - 1) (b - bytes) es)" if "bytes \<le> b"
proof (induction es rule: rev_induct)
  case (snoc e es)
  then show ?case using that by (auto simp: fit_snoc MAX_STORED_RESULTS_def)
qed simp

lemma must_evict_iff:
  "store_ok now s \<Longrightarrow> bytes \<le> rs_max_bytes s \<Longrightarrow>
   must_evict bytes s \<longleftrightarrow>
     MAX_STORED_RESULTS \<le> length (rs_entries s) \<or> rs_max_bytes s < total_bytes (rs_entries s) + bytes"
  by (auto simp: must_evict_def store_ok_def sat_add_def)

lemma evict_until_fits_ok:
  "store_ok now s \<Longrightarrow> bytes \<le> rs_max_bytes s \<Longrightarrow>
   evict_until_fits bytes s = Some (with_entries (drop_oldest (rs_max_bytes s) bytes (rs_entries s)) s) \<and>
   store_ok now (with_entries (drop_oldest (rs_max_bytes s) bytes (rs_entries s)) s)"
proof (induction "rs_entries s" arbitrary: s)
  case Nil
  then have "\<not> must_evict bytes s" by (subst must_evict_iff) (auto simp: MAX_STORED_RESULTS_def)
  then show ?case using Nil with_entries_self [of now s] by (subst evict_until_fits.simps) simp
next
  case (Cons e es)
  note ev = evict_oldest_ok [OF Cons.prems(1) Cons.hyps(2) [symmetric]]
  have "rs_entries s = e # es" using Cons.hyps(2) by simp
  then show ?case
    using Cons.hyps(1) [of "evict_oldest s"] ev Cons.prems with_entries_self [of now s]
      must_evict_iff [OF Cons.prems]
    by (subst evict_until_fits.simps) simp
qed

section \<open>Traces of the store\<close>

text \<open>
  The server calls the store under one lock and reads the clock while it holds it, so the calls
  are a sequence with a clock that never goes back.  A trace lists the calls, newest first,
  with their results.
\<close>

datatype store_event =
    Inserted path str nat "ResultTooLarge + str"
  | Read str path nat "str option"

inductive store_run :: "nat \<Rightarrow> 64 word \<Rightarrow> store_event list \<Rightarrow> nat \<Rightarrow> ResultStore \<Rightarrow> bool"
  for max_bytes key where
  start: "max_bytes < usize_max \<Longrightarrow>
     store_run max_bytes key [] 0 (with_process_key max_bytes key)"
| inserted: "store_run max_bytes key tr t s \<Longrightarrow> t \<le> now \<Longrightarrow>
     insert_result root json now s = Some (r, s') \<Longrightarrow>
     store_run max_bytes key (Inserted root json now r # tr) now s'"
| read: "store_run max_bytes key tr t s \<Longrightarrow> t \<le> now \<Longrightarrow>
     get_result rid root now s = (r, s') \<Longrightarrow>
     store_run max_bytes key (Read rid root now r # tr) now s'"

text \<open>The history of accepted results, newest first, and the number of identifiers drawn.\<close>

fun accepted :: "store_event list \<Rightarrow> StoredResult list" where
  "accepted [] = []"
| "accepted (Inserted root json now (Inr rid) # tr) =
     \<lparr> sr_id = rid, sr_project_root = root, sr_json = json, sr_stored_at = now,
       sr_retained_bytes = retained_size rid root json \<rparr> # accepted tr"
| "accepted (_ # tr) = accepted tr"

fun inserts :: "store_event list \<Rightarrow> nat" where
  "inserts [] = 0"
| "inserts (Inserted root json now r # tr) = Suc (inserts tr)"
| "inserts (Read rid root now r # tr) = inserts tr"

subsection \<open>One call refines one step of the window\<close>

definition refines :: "nat \<Rightarrow> StoredResult list \<Rightarrow> ResultStore \<Rightarrow> bool" where
  "refines now h s \<longleftrightarrow>
     store_ok now s \<and>
     rs_entries s = rev (window MAX_STORED_RESULTS (rs_max_bytes s) now h) \<and>
     sorted_wrt (\<ge>) (map sr_stored_at h) \<and> (\<forall>e \<in> set h. sr_stored_at e \<le> now)"

lemma dropWhile_rev_expired:
  "sorted_wrt (\<ge>) (map sr_stored_at es) \<Longrightarrow>
   dropWhile (is_expired now) (rev es) = rev (takeWhile (\<lambda>e. \<not> is_expired now e) es)"
proof (induction es)
  case (Cons e es)
  show ?case
  proof (cases "is_expired now e")
    case True
    then have "\<forall>x \<in> set es. is_expired now x" using Cons.prems by (auto simp: is_expired_def)
    with True show ?thesis by (simp add: dropWhile_append2)
  next
    case False
    then have "rev (e # es) = rev es @ [e]" "dropWhile (is_expired now) [e] = [e]" by simp_all
    then show ?thesis using False Cons
      by (cases "\<exists>x \<in> set (rev es). \<not> is_expired now x") (auto simp: dropWhile_append3 dropWhile_append1 takeWhile_eq_Nil_iff)
  qed
qed simp

lemma sorted_fit: "sorted_wrt R (map f es) \<Longrightarrow> sorted_wrt R (map f (fit n b es))"
proof (induction n b es rule: fit.induct)
  case (3 n b e es)
  then show ?case using set_fit by fastforce
qed simp_all

lemma takeWhile_takeWhile_expired:
  "now \<le> now' \<Longrightarrow>
   takeWhile (\<lambda>e. \<not> is_expired now' e) (takeWhile (\<lambda>e. \<not> is_expired now e) es) =
   takeWhile (\<lambda>e. \<not> is_expired now' e) es"
  by (induction es) (auto dest: is_expired_mono)

lemma sorted_takeWhile_map:
  "sorted_wrt R (map f es) \<Longrightarrow> sorted_wrt R (map f (takeWhile P es))"
  by (induction es) (auto dest: set_takeWhileD)

lemma refines_expire:
  assumes "refines t h s" "t \<le> now"
  shows "refines now h (expire now s)"
    and "expire now s = with_entries (rev (window MAX_STORED_RESULTS (rs_max_bytes s) now h)) s"
proof -
  let ?f = "fit MAX_STORED_RESULTS (rs_max_bytes s) h"
  have ok: "store_ok t s" and es: "rs_entries s = rev (takeWhile (\<lambda>e. \<not> is_expired t e) ?f)"
    and srt: "sorted_wrt (\<ge>) (map sr_stored_at h)"
    using assms(1) by (simp_all add: refines_def window_def)
  have "sorted_wrt (\<ge>) (map sr_stored_at (takeWhile (\<lambda>e. \<not> is_expired t e) ?f))"
    by (intro sorted_takeWhile_map sorted_fit srt)
  then have "dropWhile (is_expired now) (rs_entries s) =
      rev (window MAX_STORED_RESULTS (rs_max_bytes s) now h)"
    using takeWhile_takeWhile_expired [OF assms(2)]
    by (simp add: es dropWhile_rev_expired window_def)
  with expire_ok [OF ok, of now]
  show eq: "expire now s = with_entries (rev (window MAX_STORED_RESULTS (rs_max_bytes s) now h)) s"
    by simp
  show "refines now h (expire now s)"
  proof -
    have "store_ok now (expire now s)" using expire_ok [OF ok] store_ok_mono assms(2) by blast
    moreover have "\<forall>e \<in> set h. sr_stored_at e \<le> now"
      using assms by (meson refines_def order_trans)
    ultimately show ?thesis unfolding refines_def using srt eq by simp
  qed
qed

lemma store_ok_next_id [simp]: "store_ok now (snd (next_id s)) = store_ok now s"
  by (simp add: next_id_def store_ok_def)

lemma refines_next_id: "refines now h s \<Longrightarrow> refines now h (snd (next_id s))"
  unfolding refines_def store_ok_next_id by (simp add: next_id_def)

lemma window_Cons:
  "sr_retained_bytes e \<le> b \<Longrightarrow> \<not> is_expired now e \<Longrightarrow>
   window MAX_STORED_RESULTS b now (e # h) =
     e # fit (MAX_STORED_RESULTS - 1) (b - sr_retained_bytes e) (window MAX_STORED_RESULTS b now h)"
  unfolding window_def fit_takeWhile by (simp add: fit_fit MAX_STORED_RESULTS_def numeral_eq_Suc)

text \<open>A call of \<open>insert\<close> either is rejected and only expires results, or adds its result to the
  history; it always returns.\<close>

definition new_result :: "str \<Rightarrow> path \<Rightarrow> str \<Rightarrow> nat \<Rightarrow> StoredResult" where
  "new_result rid root json now =
     \<lparr> sr_id = rid, sr_project_root = root, sr_json = json, sr_stored_at = now,
       sr_retained_bytes = retained_size rid root json \<rparr>"

lemma push_refines:
  assumes ref: "refines now h s" and bytes: "retained_size rid root json \<le> rs_max_bytes s"
  obtains s' where "evict_until_fits (retained_size rid root json) s = Some s'"
    "refines now (new_result rid root json now # h)
       (push_result rid root json now (retained_size rid root json) s')"
    "rs_next_sequence s' = rs_next_sequence s" "rs_process_key s' = rs_process_key s"
    "rs_max_bytes s' = rs_max_bytes s"
proof -
  let ?bytes = "retained_size rid root json"
  let ?e = "new_result rid root json now"
  let ?es = "drop_oldest (rs_max_bytes s) ?bytes (rs_entries s)"
  let ?s' = "with_entries ?es s"
  have ok: "store_ok now s" using ref by (simp add: refines_def)
  from evict_until_fits_ok [OF ok bytes]
  have ev: "evict_until_fits ?bytes s = Some ?s'" and ok': "store_ok now ?s'" by simp_all
  have sz [simp]: "sr_retained_bytes ?e = ?bytes" "sr_stored_at ?e = now"
    by (simp_all add: new_result_def)
  have young: "\<not> is_expired now ?e" by (simp add: is_expired_def new_result_def STORED_RESULT_TTL_def)
  have es: "?es @ [?e] = rev (window MAX_STORED_RESULTS (rs_max_bytes s) now (?e # h))"
    using ref bytes young by (simp add: refines_def drop_oldest_fit window_Cons sz)
  have len: "length (?es @ [?e]) \<le> MAX_STORED_RESULTS" "total_bytes (?es @ [?e]) \<le> rs_max_bytes s"
    unfolding es using window_bounds by simp_all
  then have "wrap_add (total_bytes ?es) ?bytes = total_bytes (?es @ [?e])"
    using ok by (subst wrap_add_no_overflow) (auto simp: store_ok_def new_result_def)
  then have push: "push_result rid root json now ?bytes ?s' = with_entries (?es @ [?e]) s"
    by (simp add: push_result_def with_entries_def new_result_def)
  have "\<forall>e \<in> set ?es. sr_stored_at e \<le> now" using ok' by (simp add: store_ok_def entry_ok_def)
  then have "store_ok now (with_entries (?es @ [?e]) s)"
    using ok' len by (auto simp: store_ok_def sorted_append entry_ok_def new_result_def)
  then have "refines now (?e # h) (with_entries (?es @ [?e]) s)"
    using ref es by (simp add: refines_def)
  with ev push show thesis by (intro that [of ?s']) simp_all
qed


lemma insert_result_cases:
  fixes root json
  assumes "refines t h s" "t \<le> now"
  defines "rid \<equiv> format_id (rs_process_key s) (rs_next_sequence s)"
  defines "bytes \<equiv> retained_size rid root json"
  obtains (rejected) s' where "rs_max_bytes s < bytes"
      "insert_result root json now s =
         Some (Inl \<lparr> tl_retained_bytes = bytes, tl_limit = rs_max_bytes s \<rparr>, s')"
      "refines now h s'" "rs_next_sequence s' = rs_next_sequence s + 1"
      "rs_process_key s' = rs_process_key s" "rs_max_bytes s' = rs_max_bytes s"
    | (stored) s' where "bytes \<le> rs_max_bytes s"
      "insert_result root json now s = Some (Inr rid, s')"
      "refines now (new_result rid root json now # h) s'"
      "rs_next_sequence s' = rs_next_sequence s + 1"
      "rs_process_key s' = rs_process_key s" "rs_max_bytes s' = rs_max_bytes s"
proof -
  let ?s = "snd (next_id (expire now s))"
  have same: "fst (next_id (expire now s)) = rid" "rs_max_bytes ?s = rs_max_bytes s"
    "rs_next_sequence ?s = rs_next_sequence s + 1" "rs_process_key ?s = rs_process_key s"
    using refines_expire(2) [OF assms(1,2)] by (simp_all add: next_id_def rid_def)
  have ref: "refines now h ?s" by (intro refines_next_id refines_expire(1) [OF assms(1,2)])
  have ins: "insert_result root json now s =
      (if rs_max_bytes s < bytes
       then Some (Inl \<lparr> tl_retained_bytes = bytes, tl_limit = rs_max_bytes s \<rparr>, ?s)
       else case evict_until_fits bytes ?s of None \<Rightarrow> None
            | Some s' \<Rightarrow> Some (Inr rid, push_result rid root json now bytes s'))"
    by (simp add: insert_result_def Let_def case_prod_beta same bytes_def cong: option.case_cong)
  show thesis
  proof (cases "rs_max_bytes s < bytes")
    case True
    then show thesis using rejected [of ?s] ins ref same by simp
  next
    case False
    then have "retained_size rid root json \<le> rs_max_bytes ?s" using same by (simp add: bytes_def)
    from push_refines [OF ref this] obtain s' where s': "evict_until_fits bytes ?s = Some s'"
      "refines now (new_result rid root json now # h) (push_result rid root json now bytes s')"
      "rs_next_sequence s' = rs_next_sequence ?s" "rs_process_key s' = rs_process_key ?s"
      "rs_max_bytes s' = rs_max_bytes ?s"
      unfolding bytes_def by blast
    then show thesis using stored [of "push_result rid root json now bytes s'"] False ins same
      by (simp add: push_result_def)
  qed
qed

lemma get_result_eq:
  assumes "refines t h s" "t \<le> now"
  shows "get_result rid root now s =
     (map_option sr_json (find (\<lambda>e. sr_id e = rid \<and> sr_project_root e = root)
        (rev (window MAX_STORED_RESULTS (rs_max_bytes s) now h))), expire now s)"
  using refines_expire(2) [OF assms] by (simp add: get_result_def Let_def)

lemma accepted_Inserted [simp]:
  "accepted (Inserted root json now (Inr rid) # tr) = new_result rid root json now # accepted tr"
  "accepted (Inserted root json now (Inl err) # tr) = accepted tr"
  "accepted (Read rid root now r # tr) = accepted tr"
  by (simp_all add: new_result_def)

declare accepted.simps(2) [simp del]

lemma store_run_refines:
  assumes "store_run b key tr t s"
  shows "refines t (accepted tr) s \<and> rs_max_bytes s = b \<and> rs_process_key s = key \<and>
         rs_next_sequence s = of_nat (inserts tr)"
  using assms
proof (induction rule: store_run.induct)
  case start
  then show ?case
    by (simp add: refines_def store_ok_def with_process_key_def window_def)
next
  case (inserted tr t s now root json r s')
  then have "refines t (accepted tr) s" by simp
  from insert_result_cases [OF this inserted.hyps(2), of root json] show ?case
    by cases (use inserted in \<open>auto simp: add.commute\<close>)
next
  case (read tr t s now rid root r s')
  then have ref: "refines t (accepted tr) s" by simp
  then have "s' = expire now s" using read.hyps get_result_eq by simp
  then show ?case using read refines_expire [OF ref read.hyps(2)] by simp
qed

text \<open>Identifiers: injective in the sequence number, of bounded length.\<close>

lemma format_id_inj: "format_id key a = format_id key b \<longleftrightarrow> a = b"
proof
  assume "format_id key a = format_id key b"
  then have "fmt_hex (unat a) = fmt_hex (unat b)" by (simp add: format_id_def)
  then have "unat a = unat b" by (rule fmt_radix_inj [rotated 2]) simp_all
  then show "a = b" by (rule unsigned_word_eqI)
qed simp

lemma accepted_ids:
  "store_run b key tr t s \<Longrightarrow> e \<in> set (accepted tr) \<Longrightarrow>
   \<exists>n < inserts tr. sr_id e = format_id key (of_nat n)"
proof (induction arbitrary: e rule: store_run.induct)
  case (inserted tr t s now root json r s')
  note run = store_run_refines [OF inserted.hyps(1)]
  then have ref: "refines t (accepted tr) s" by simp
  show ?case
  proof (cases rule: insert_result_cases [OF ref inserted.hyps(2), of root json, case_names rejected stored])
    case rejected
    then show ?thesis using inserted less_Suc_eq by fastforce
  next
    case stored
    then have r: "r = Inr (format_id key (of_nat (inserts tr)))" using inserted.hyps run by simp
    show ?thesis
    proof (cases "e \<in> set (accepted tr)")
      case True
      then show ?thesis using inserted.IH by (force simp: less_Suc_eq)
    next
      case False
      then have "sr_id e = format_id key (of_nat (inserts tr))"
        using inserted.prems r by (simp add: new_result_def)
      then show ?thesis by auto
    qed
  qed
qed simp_all

lemma accepted_distinct:
  "store_run b key tr t s \<Longrightarrow> inserts tr \<le> 2 ^ 64 \<Longrightarrow> distinct (map sr_id (accepted tr))"
proof (induction rule: store_run.induct)
  case (inserted tr t s now root json r s')
  note run = store_run_refines [OF inserted.hyps(1)]
  then have ref: "refines t (accepted tr) s" by simp
  show ?case
  proof (cases rule: insert_result_cases [OF ref inserted.hyps(2), of root json, case_names rejected stored])
    case rejected
    then show ?thesis using inserted by simp
  next
    case stored
    let ?n = "inserts tr"
    have r: "r = Inr (format_id key (of_nat ?n))" using stored inserted.hyps run by simp
    have "format_id key (of_nat ?n) \<noteq> sr_id e" if "e \<in> set (accepted tr)" for e
    proof -
      from accepted_ids [OF inserted.hyps(1) that] obtain m where
        m: "m < ?n" "sr_id e = format_id key (of_nat m)" by blast
      have "m < 2 ^ LENGTH(64)" "?n < 2 ^ LENGTH(64)" using inserted.prems m(1) by simp_all
      then have "(of_nat m :: 64 word) \<noteq> of_nat ?n" using m(1)
        by (metis less_irrefl of_nat_inverse)
      then show ?thesis using m(2) by (simp add: format_id_inj)
    qed
    then show ?thesis using inserted r
      by (auto simp: new_result_def image_iff)
  qed
qed simp_all

lemma find_unique:
  assumes "distinct (map sr_id es)" "e \<in> set es" "sr_id e = rid" "sr_project_root e = root"
  shows "find (\<lambda>e. sr_id e = rid \<and> sr_project_root e = root) es = Some e"
  using assms by (induction es) auto

lemma distinct_window: "distinct (map f es) \<Longrightarrow> distinct (map f (window n b now es))"
proof -
  have "distinct (map f es) \<Longrightarrow> distinct (map f (fit n b es))"
    by (induction n b es rule: fit.induct) (use set_fit in \<open>fastforce+\<close>)
  moreover have "distinct (map f xs) \<Longrightarrow> distinct (map f (takeWhile P xs))" for xs P
    by (induction xs) (auto dest: set_takeWhileD)
  ultimately show "distinct (map f es) \<Longrightarrow> ?thesis" by (simp add: window_def)
qed

lemma accepted_append: "accepted (a @ b) = accepted a @ accepted b"
  by (induction a rule: accepted.induct) simp_all

lemma accepted_iff:
  "e \<in> set (accepted tr) \<longleftrightarrow>
     (\<exists>rid root json now. e = new_result rid root json now \<and> Inserted root json now (Inr rid) \<in> set tr)"
  by (induction tr rule: accepted.induct) (auto simp: new_result_def)

lemma new_result_sel [simp]:
  "sr_id (new_result rid root json now) = rid"
  "sr_project_root (new_result rid root json now) = root"
  "sr_json (new_result rid root json now) = json"
  "sr_stored_at (new_result rid root json now) = now"
  "sr_retained_bytes (new_result rid root json now) = retained_size rid root json"
  by (simp_all add: new_result_def)

section \<open>A retained result as an interface\<close>

text \<open>
  What a client that reads one result page by page relies on: while the result is held and its
  deadline has not passed, every read returns the same text and keeps holding it.  The reading
  protocol of the paging component is proved against this contract only.
\<close>

locale held_result =
  fixes read_at :: "nat \<Rightarrow> 's \<Rightarrow> str option \<times> 's"
    and holds :: "nat \<Rightarrow> 's \<Rightarrow> bool"
    and json :: str
    and deadline :: nat
  assumes read_held:
    "holds t s \<Longrightarrow> t \<le> now \<Longrightarrow> now < deadline \<Longrightarrow>
     fst (read_at now s) = Some json \<and> holds now (snd (read_at now s))"
begin

fun reads :: "nat list \<Rightarrow> 's \<Rightarrow> str option list" where
  "reads [] s = []"
| "reads (now # ts) s = fst (read_at now s) # reads ts (snd (read_at now s))"

lemma reads_constant:
  "holds t s \<Longrightarrow> sorted (t # ts) \<Longrightarrow> (\<forall>now \<in> set ts. now < deadline) \<Longrightarrow>
   reads ts s = replicate (length ts) (Some json)"
proof (induction ts arbitrary: t s)
  case (Cons now ts)
  then have "fst (read_at now s) = Some json" "holds now (snd (read_at now s))"
    using read_held [of t s now] by auto
  then show ?case using Cons by auto
qed simp

end

text \<open>The store holds a result when it is one of its entries and identifiers are distinct.\<close>

definition retains :: "StoredResult \<Rightarrow> nat \<Rightarrow> ResultStore \<Rightarrow> bool" where
  "retains e t s \<longleftrightarrow> store_ok t s \<and> e \<in> set (rs_entries s) \<and> distinct (map sr_id (rs_entries s))"

lemma mem_dropWhile: "x \<in> set xs \<Longrightarrow> \<not> P x \<Longrightarrow> x \<in> set (dropWhile P xs)"
  by (induction xs) auto

lemma distinct_map_dropWhile: "distinct (map f xs) \<Longrightarrow> distinct (map f (dropWhile P xs))"
  by (metis distinct_append map_append takeWhile_dropWhile_id)

interpretation stored: held_result
  "get_result (sr_id e) (sr_project_root e)" "retains e" "sr_json e" "sr_stored_at e + STORED_RESULT_TTL"
proof
  fix t s now
  assume held: "retains e t s" "t \<le> now" "now < sr_stored_at e + STORED_RESULT_TTL"
  let ?es = "dropWhile (is_expired now) (rs_entries s)"
  have ok: "store_ok t s" using held(1) by (simp add: retains_def)
  have ex: "expire now s = with_entries ?es s" "store_ok now (expire now s)"
    using expire_ok [OF ok] store_ok_mono held(2) by blast+
  have "\<not> is_expired now e" using held(3) by (auto simp: is_expired_def STORED_RESULT_TTL_def)
  then have mem: "e \<in> set ?es" "distinct (map sr_id ?es)"
    using held(1) by (auto simp: retains_def mem_dropWhile distinct_map_dropWhile)
  then show "fst (get_result (sr_id e) (sr_project_root e) now s) = Some (sr_json e) \<and>
        retains e now (snd (get_result (sr_id e) (sr_project_root e) now s))"
    using ex find_unique [OF mem(2,1) refl refl] by (simp add: get_result_def Let_def retains_def)
qed

text \<open>A result that was just accepted is retained.\<close>

lemma insert_retains:
  assumes "store_run b key tr t s" "t \<le> now" "insert_result root json now s = Some (Inr rid, s')"
    and "inserts tr < 2 ^ 64"
  shows "retains (new_result rid root json now) now s'"
    and "retained_size rid root json \<le> b" "rid = format_id key (of_nat (inserts tr))"
proof -
  let ?tr = "Inserted root json now (Inr rid) # tr"
  have run': "store_run b key ?tr now s'" using store_run.inserted [OF assms(1-3)] .
  have ref: "refines now (new_result rid root json now # accepted tr) s'" "rs_max_bytes s' = b"
    using store_run_refines [OF run'] by simp_all
  have "inserts ?tr \<le> 2 ^ 64" using assms(4) by simp
  then have "distinct (map sr_id (new_result rid root json now # accepted tr))"
    using accepted_distinct [OF run'] by simp
  then have dist: "distinct (map sr_id (rs_entries s'))"
    using ref distinct_window [of sr_id] by (simp add: refines_def rev_map [symmetric])
  have run: "refines t (accepted tr) s" "rs_process_key s = key"
      "rs_next_sequence s = of_nat (inserts tr)" "rs_max_bytes s = b"
    using store_run_refines [OF assms(1)] by simp_all
  have bytes: "retained_size rid root json \<le> b \<and> rid = format_id key (of_nat (inserts tr))"
    using assms(3) run
    by (cases rule: insert_result_cases [OF run(1) assms(2), of root json, case_names rejected stored]) auto
  show le: "retained_size rid root json \<le> b" and "rid = format_id key (of_nat (inserts tr))"
    using bytes by blast+
  from le have "new_result rid root json now \<in> set (window MAX_STORED_RESULTS b now ([] @ new_result rid root json now # accepted tr))"
    by (intro mem_window) (simp_all add: MAX_STORED_RESULTS_def is_expired_def STORED_RESULT_TTL_def)
  then show "retains (new_result rid root json now) now s'"
    using ref dist by (simp add: retains_def refines_def)
qed

section \<open>Properties\<close>

text \<open>
  Claim C1.  The evicting store refines the window on the history: after any sequence of calls its
  entries are exactly the newest accepted results that fit the count of sixteen, the byte budget
  and the time to live, oldest first, and its byte counter is their total size.
\<close>

theorem store_is_window:
  assumes "store_run b key tr t s"
  shows "rs_entries s = rev (window MAX_STORED_RESULTS b t (accepted tr)) \<and>
         rs_retained_bytes s = total_bytes (rs_entries s) \<and>
         rs_retained_bytes s \<le> b \<and> length (rs_entries s) \<le> MAX_STORED_RESULTS"
  using store_run_refines [OF assms] by (auto simp: refines_def store_ok_def)

text \<open>
  Claim C5.  Every hit is justified: a read returns a text only if that text was stored for the
  same project under that identifier less than the time to live ago; as long as the 64-bit sequence
  has not wrapped, no other call ever issued this identifier, so nothing of another project and
  no other text can be returned.
\<close>

theorem store_hit_justified:
  assumes "store_run b key tr t s" "t \<le> now" "fst (get_result rid root now s) = Some json"
  shows "\<exists>t0. Inserted root json t0 (Inr rid) \<in> set tr \<and> now - t0 < STORED_RESULT_TTL \<and>
     (inserts tr \<le> 2 ^ 64 \<longrightarrow>
       (\<forall>root' json' t'. Inserted root' json' t' (Inr rid) \<in> set tr \<longrightarrow>
          root' = root \<and> json' = json \<and> t' = t0))"
proof -
  have ref: "refines t (accepted tr) s" using store_run_refines [OF assms(1)] by simp
  let ?w = "window MAX_STORED_RESULTS (rs_max_bytes s) now (accepted tr)"
  from assms(3) obtain e where e: "e \<in> set ?w" "sr_id e = rid" "sr_project_root e = root" "sr_json e = json"
    unfolding get_result_eq [OF ref assms(2)] by (auto simp: find_Some_iff) (metis nth_mem set_rev length_rev)
  then obtain t0 where t0: "e = new_result rid root json t0" "Inserted root json t0 (Inr rid) \<in> set tr"
    using set_window [OF e(1)] by (auto simp: accepted_iff)
  have "root' = root \<and> json' = json \<and> t' = t0"
    if "inserts tr \<le> 2 ^ 64" "Inserted root' json' t' (Inr rid) \<in> set tr" for root' json' t'
  proof -
    have "new_result rid root' json' t' \<in> set (accepted tr)" "e \<in> set (accepted tr)"
      using that(2) t0 by (auto simp: accepted_iff)
    then have "new_result rid root' json' t' = e"
      using accepted_distinct [OF assms(1) that(1)] e(2)
      by (metis inj_onD distinct_map new_result_sel(1))
    then show ?thesis using t0(1) by (metis new_result_sel)
  qed
  moreover have "now - t0 < STORED_RESULT_TTL"
    using set_window [OF e(1)] t0(1) by (simp add: is_expired_def)
  ultimately show ?thesis using t0(2) by blast
qed

text \<open>
  Retention: an accepted result stays readable by its project, with the text that was
  stored, until the time to live has passed, as long as fewer than sixteen results were accepted
  after it and all of them together with it fit the byte budget.
\<close>

lemma store_retention:
  assumes "store_run b key (later @ Inserted root json t0 (Inr rid) # earlier) t s" "t \<le> now"
    and "now - t0 < STORED_RESULT_TTL"
    and "length (accepted later) < MAX_STORED_RESULTS"
    and "total_bytes (accepted later) + retained_size rid root json \<le> b"
    and "inserts (later @ Inserted root json t0 (Inr rid) # earlier) \<le> 2 ^ 64"
  shows "fst (get_result rid root now s) = Some json"
proof -
  let ?tr = "later @ Inserted root json t0 (Inr rid) # earlier"
  let ?e = "new_result rid root json t0"
  have ref: "refines t (accepted ?tr) s" and b: "rs_max_bytes s = b"
    using store_run_refines [OF assms(1)] by simp_all
  have acc: "accepted ?tr = accepted later @ ?e # accepted earlier" by (simp add: accepted_append)
  have "sr_stored_at ?e \<le> sr_stored_at x" if "x \<in> set (accepted later)" for x
    using ref that unfolding refines_def acc by (simp add: sorted_wrt_append)
  then have "?e \<in> set (window MAX_STORED_RESULTS b now (accepted ?tr))"
    unfolding acc using assms(3-5) by (intro mem_window) (simp_all add: is_expired_def)
  moreover have "distinct (map sr_id (rev (window MAX_STORED_RESULTS b now (accepted ?tr))))"
    using accepted_distinct [OF assms(1,6)] distinct_window by (simp add: rev_map [symmetric])
  ultimately show ?thesis
    unfolding get_result_eq [OF ref assms(2)] b by (simp add: find_unique [of _ ?e])
qed

text \<open>
  Every call of \<open>insert\<close> returns, although its eviction loop has no bound of its own: it
  rejects exactly the results whose own size exceeds the byte budget, and then drops nothing but
  expired results; otherwise it answers with the next identifier, drops only oldest results and
  appends the new one.
\<close>

lemma insert_returns:
  assumes "store_run b key tr t s" "t \<le> now"
  defines "rid \<equiv> format_id key (of_nat (inserts tr))"
  shows "\<exists>r s'. insert_result root json now s = Some (r, s') \<and>
    (if b < retained_size rid root json
     then r = Inl \<lparr> tl_retained_bytes = retained_size rid root json, tl_limit = b \<rparr> \<and>
          rs_entries s' = dropWhile (is_expired now) (rs_entries s)
     else r = Inr rid \<and>
          (\<exists>k. rs_entries s' = drop k (dropWhile (is_expired now) (rs_entries s)) @
             [new_result rid root json now]))"
proof -
  have run: "refines t (accepted tr) s" "rs_max_bytes s = b" "rs_process_key s = key"
    "rs_next_sequence s = of_nat (inserts tr)"
    using store_run_refines [OF assms(1)] by simp_all
  have "store_ok t s" using run(1) by (simp add: refines_def)
  then have live: "dropWhile (is_expired now) (rs_entries s) =
      rev (window MAX_STORED_RESULTS b now (accepted tr))"
    using expire_ok [of t s now] refines_expire(2) [OF run(1) assms(2)] run(2)
    by (metis with_entries_simps(1))
  show ?thesis
  proof (cases rule: insert_result_cases [OF run(1) assms(2), of root json, case_names rejected stored])
    case (rejected s')
    then show ?thesis using run live by (simp add: rid_def refines_def)
  next
    case (stored s')
    let ?w = "window MAX_STORED_RESULTS b now (accepted tr)"
    obtain n c where "rs_entries s' = rev (fit n c ?w) @ [new_result rid root json now]"
      using stored run by (simp add: refines_def window_Cons is_expired_def STORED_RESULT_TTL_def rid_def)
    then have "\<exists>k. rs_entries s' = drop k (rev ?w) @ [new_result rid root json now]"
      using fit_take [of n c ?w] by (metis rev_take)
    then show ?thesis using stored run live by (simp add: rid_def)
  qed
qed

section \<open>Evaluation on a concrete store\<close>

text \<open>A store of 64 bytes with a second result that evicts the first.\<close>

definition demo_root :: path where
  "demo_root = [lit ''p'']"

definition demo_json :: str where
  "demo_json = lit ''[1,2,3,4,5,6,7,8,9]''"

definition demo_store1 :: ResultStore where
  "demo_store1 = snd (the (insert_result demo_root demo_json 5 (with_process_key 64 7)))"

definition demo_store2 :: ResultStore where
  "demo_store2 = snd (the (insert_result demo_root demo_json 6 demo_store1))"

abbreviation demo_events :: "store_event list" where
  "demo_events \<equiv>
     [Inserted demo_root demo_json 6 (Inr (lit ''r00000000000000071'')),
      Inserted demo_root demo_json 5 (Inr (lit ''r00000000000000070''))]"

lemma demo_insert1:
  "insert_result demo_root demo_json 5 (with_process_key 64 7) =
     Some (Inr (lit ''r00000000000000070''), demo_store1)"
  by code_simp

lemma demo_insert2:
  "insert_result demo_root demo_json 6 demo_store1 =
     Some (Inr (lit ''r00000000000000071''), demo_store2)"
  by code_simp

lemma demo_run: "store_run 64 7 demo_events 6 demo_store2"
proof -
  have "store_run 64 7 [] 0 (with_process_key 64 7)" by (rule start) (simp add: usize_max_def)
  from store_run.inserted [OF this _ demo_insert1] have
    "store_run 64 7 [Inserted demo_root demo_json 5 (Inr (lit ''r00000000000000070''))] 5 demo_store1"
    by simp
  from store_run.inserted [OF this _ demo_insert2] show ?thesis by simp
qed

theorem store_is_window_witness:
  "store_run 64 7 demo_events 6 demo_store2 \<and>
   rs_entries demo_store2 = rev (window MAX_STORED_RESULTS 64 6 (accepted demo_events)) \<and>
   rs_retained_bytes demo_store2 \<le> 64"
  using store_is_window [OF demo_run] demo_run by blast

theorem store_hit_justified_witness:
  "\<exists>t0. Inserted demo_root demo_json t0 (Inr (lit ''r00000000000000071'')) \<in> set demo_events \<and>
        9 - t0 < STORED_RESULT_TTL"
proof -
  have "fst (get_result (lit ''r00000000000000071'') demo_root 9 demo_store2) = Some demo_json"
    by code_simp
  from store_hit_justified [OF demo_run _ this] show ?thesis by auto
qed

end
