(* ===== verification/Paging.thy ===== *)
theory Paging
  imports Result_Store
begin

text \<open>
  The size boundary of tool results (\<open>src/server/response_limit.rs\<close>) and the two places of
  \<open>src/server.rs\<close> that apply it: \<open>bound_response\<close>, which stores an oversized result, and
  \<open>read_tool_result_page\<close>, which reads it back page by page.

  JSON serialization (serde\_json) and the MCP result wrapper (rmcp) are third-party code.  A value
  that is serialized is described by what the code observes of it (\<open>serialized\<close>): the lengths of
  the buffers written to the counting writer, whether serialization itself ends with an error,
  and the JSON value built from it.  A record \<open>codec\<close> bundles the serializers of pages, markers and
  results; what the correctness of the page size relies on is stated by the hypotheses
  \<open>exact_cost\<close> and \<open>frame_bounded\<close>, the documented escaping of JSON strings.
\<close>

section \<open>Errors\<close>

datatype ErrorData =
    InvalidParams str
  | InternalError str
  | OtherCode int str

definition result_too_large :: "nat \<Rightarrow> ErrorData" where
  "result_too_large limit = InternalError
     (lit ''the tool result exceeds MAX_MCP_RESULT_CACHE_BYTES ('' @ fmt_dec limit @
      lit '' bytes), so it can be neither returned nor stored for read_tool_result_page; narrow the request, for example with a smaller limit or a selected jar'')"

definition unavailable_result :: ErrorData where
  "unavailable_result = InvalidParams
     (lit ''result_id is unknown, expired, evicted, or belongs to another project; repeat the original tool call'')"

definition invalid_cursor :: ErrorData where
  "invalid_cursor = InvalidParams
     (lit ''cursor is not a next_cursor returned for this result_id; omit it to read the first page'')"

definition serialization_error :: "str \<Rightarrow> ErrorData" where
  "serialization_error msg = InternalError (lit ''failed to serialize structured content: '' @ msg)"

section \<open>Counting serialized bytes\<close>

record ByteCounter =
  bc_written :: nat
  bc_limit :: nat

text \<open>\<open>write\<close>: the error of a write that passes the limit is \<open>None\<close>.\<close>

definition counter_write :: "nat \<Rightarrow> ByteCounter \<Rightarrow> nat option \<times> ByteCounter" where
  "counter_write buf_len c =
     (let c = c \<lparr> bc_written := sat_add (bc_written c) buf_len \<rparr>
      in (if bc_limit c < bc_written c then None else Some buf_len, c))"

record 'v serialized =
  ser_writes :: "nat list"
  ser_error :: "str option"
  ser_value :: "str + 'v"

text \<open>\<open>serde_json::to_writer\<close>: the buffers in order, up to the first failing write.\<close>

fun to_writer :: "nat list \<Rightarrow> str option \<Rightarrow> ByteCounter \<Rightarrow> str option \<times> ByteCounter" where
  "to_writer [] err c = (err, c)"
| "to_writer (n # ns) err c =
     (case counter_write n c of
        (None, c) \<Rightarrow> (Some (lit ''serialized size limit exceeded''), c)
      | (Some _, c) \<Rightarrow> to_writer ns err c)"

definition serialized_len_within :: "'v serialized \<Rightarrow> nat \<Rightarrow> ErrorData + nat option" where
  "serialized_len_within value limit =
     (case to_writer (ser_writes value) (ser_error value) \<lparr> bc_written = 0, bc_limit = limit \<rparr> of
        (None, counter) \<Rightarrow> Inr (Some (bc_written counter))
      | (Some error, counter) \<Rightarrow>
          if limit < bc_written counter then Inr None else Inl (serialization_error error))"

definition structured_result :: "('v \<Rightarrow> 'r) \<Rightarrow> 'v serialized \<Rightarrow> nat \<Rightarrow> ErrorData + 'r" where
  "structured_result structured value limit =
     (case serialized_len_within value limit of
        Inl e \<Rightarrow> Inl e
      | Inr None \<Rightarrow> Inl (result_too_large limit)
      | Inr (Some _) \<Rightarrow>
          (case ser_value value of
             Inl error \<Rightarrow> Inl (serialization_error error)
           | Inr v \<Rightarrow> Inr (structured v)))"

section \<open>Markers and pages\<close>

record DeferredResult =
  dr_result_id :: str
  dr_tool :: str
  dr_total_bytes :: nat
  dr_read_with :: str
  dr_expires_in_seconds :: nat
  dr_instruction :: str

definition READ_PAGE_TOOL :: str where
  "READ_PAGE_TOOL = lit ''read_tool_result_page''"

definition DEFERRED_INSTRUCTION :: str where
  "DEFERRED_INSTRUCTION = lit ''This tool result is larger than one MCP response may be (MAX_MCP_RESPONSE_BYTES), so it was stored in this server process instead of being returned. Call read_tool_result_page with the same project_path and this result_id and no cursor, then call it again with each returned next_cursor until complete is true. Concatenating every fragment in order yields the original structured JSON of this tool exactly. The result_id is valid only in this server process and expires 300 seconds after this response; older results may be evicted earlier.''"

declare DEFERRED_INSTRUCTION_def [code del]

definition deferred_marker :: "str \<Rightarrow> str \<Rightarrow> nat \<Rightarrow> DeferredResult" where
  "deferred_marker tool result_id bytes =
     \<lparr> dr_result_id = result_id, dr_tool = tool, dr_total_bytes = bytes,
       dr_read_with = READ_PAGE_TOOL,
       dr_expires_in_seconds = STORED_RESULT_TTL div 1000000000,
       dr_instruction = DEFERRED_INSTRUCTION \<rparr>"

record ToolResultPage =
  pg_offset :: nat
  pg_fragment :: str
  pg_next_cursor :: "str option"
  pg_complete :: bool
  pg_total_bytes :: nat

datatype PageError = LimitTooSmall

definition encode_cursor :: "str \<Rightarrow> nat \<Rightarrow> str" where
  "encode_cursor result_id offset = result_id @ lit ''.'' @ fmt_dec offset"

definition decode_cursor :: "str \<Rightarrow> str \<Rightarrow> str \<Rightarrow> nat option" where
  "decode_cursor result_id cursor json =
     do {
       r \<leftarrow> strip_prefix result_id cursor;
       d \<leftarrow> strip_prefix (lit ''.'') r;
       offset \<leftarrow> parse_usize d;
       if encode_cursor result_id offset = cursor \<and> offset < str_len json \<and>
          is_char_boundary json offset
       then Some offset else None
     }"

section \<open>The serializers of third-party code\<close>

record ('v, 'r) codec =
  cd_page :: "ToolResultPage \<Rightarrow> 'v serialized"
  cd_marker :: "DeferredResult \<Rightarrow> 'v serialized"
  cd_structured :: "'v \<Rightarrow> 'r"
  cd_result :: "'r \<Rightarrow> 'v serialized"
  cd_result_bytes :: "'r \<Rightarrow> nat option"
  cd_structured_content :: "'r \<Rightarrow> 'v option"
  cd_text :: "'v \<Rightarrow> str"

definition page_response_len :: "('v, 'r) codec \<Rightarrow> ToolResultPage \<Rightarrow> PageError + nat" where
  "page_response_len cd page =
     (case structured_result (cd_structured cd) (cd_page cd page) usize_max of
        Inl _ \<Rightarrow> Inl LimitTooSmall
      | Inr result \<Rightarrow>
          (case cd_result_bytes cd result of None \<Rightarrow> Inl LimitTooSmall | Some n \<Rightarrow> Inr n))"

section \<open>Fitting one page\<close>

definition response_cost :: "ch \<Rightarrow> nat" where
  "response_cost c =
     (if c = 34 \<or> c = 92 then 2 + 4
      else if c = 8 \<or> c = 12 \<or> c = 10 \<or> c = 13 \<or> c = 9 then 2 + 3
      else if c < 32 then 6 + 7
      else 2 * utf8_len c)"

definition page_at :: "str \<Rightarrow> nat \<Rightarrow> nat \<Rightarrow> str \<Rightarrow> ToolResultPage option" where
  "page_at json offset stop result_id =
     (let complete = (stop = str_len json)
      in map_option (\<lambda>fragment.
           \<lparr> pg_offset = offset, pg_fragment = fragment,
             pg_next_cursor = (if complete then None else Some (encode_cursor result_id stop)),
             pg_complete = complete, pg_total_bytes = str_len json \<rparr>)
         (byte_slice json offset stop))"

fun previous_boundary :: "str \<Rightarrow> nat \<Rightarrow> nat" where
  "previous_boundary json 0 = 0"
| "previous_boundary json (Suc n) =
     (if is_char_boundary json n then n else previous_boundary json n)"

text \<open>The loop over the characters from the offset: the end reached within the budget.\<close>

fun fitting_end :: "nat \<Rightarrow> nat \<Rightarrow> nat \<Rightarrow> str \<Rightarrow> nat" where
  "fitting_end budget cost stop [] = stop"
| "fitting_end budget cost stop (c # cs) =
     (let next = cost + response_cost c
      in if budget < next then stop else fitting_end budget next (stop + utf8_len c) cs)"

lemma previous_boundary_less: "0 < n \<Longrightarrow> previous_boundary json n < n"
proof (induction json n rule: previous_boundary.induct)
  case (2 json n)
  then show ?case by (cases n) auto
qed simp

lemma page_at_ordered: "page_at json offset stop rid = Some p \<Longrightarrow> offset \<le> stop"
  by (auto simp: page_at_def byte_slice_def Let_def split: if_splits)

text \<open>The shrinking loop; \<open>None\<close> is a panic of the slice.\<close>

function shrink_page ::
    "('v, 'r) codec \<Rightarrow> str \<Rightarrow> nat \<Rightarrow> str \<Rightarrow> nat \<Rightarrow> nat \<Rightarrow> (PageError + ToolResultPage) option" where
  "shrink_page cd json offset result_id limit stop =
     (if stop = offset then Some (Inl LimitTooSmall)
      else case page_at json offset stop result_id of
             None \<Rightarrow> None
           | Some page \<Rightarrow>
               (case page_response_len cd page of
                  Inl e \<Rightarrow> Some (Inl e)
                | Inr n \<Rightarrow>
                    if n \<le> limit then Some (Inr page)
                    else shrink_page cd json offset result_id limit (previous_boundary json stop)))"
  by pat_completeness auto

termination shrink_page
  by (relation "measure (\<lambda>(cd, json, offset, result_id, limit, stop). stop)")
    (auto intro!: previous_boundary_less dest: page_at_ordered)

declare shrink_page.simps [simp del, loop_simps]

definition skeleton :: "str \<Rightarrow> nat \<Rightarrow> str \<Rightarrow> ToolResultPage" where
  "skeleton json offset result_id =
     \<lparr> pg_offset = offset, pg_fragment = [],
       pg_next_cursor = Some (encode_cursor result_id (str_len json)),
       pg_complete = False, pg_total_bytes = str_len json \<rparr>"

definition fit_page ::
    "('v, 'r) codec \<Rightarrow> str \<Rightarrow> nat \<Rightarrow> str \<Rightarrow> nat \<Rightarrow> (PageError + ToolResultPage) option" where
  "fit_page cd json offset result_id limit =
     (case page_response_len cd (skeleton json offset result_id) of
        Inl e \<Rightarrow> Some (Inl e)
      | Inr n \<Rightarrow>
          (case checked_sub limit n of
             None \<Rightarrow> Some (Inl LimitTooSmall)
           | Some budget \<Rightarrow>
               (case bytes_from offset json of
                  None \<Rightarrow> None
                | Some rest \<Rightarrow>
                    shrink_page cd json offset result_id limit (fitting_end budget 0 offset rest))))"

section \<open>Startup validation\<close>

definition serialized_response_len :: "('v, 'r) codec \<Rightarrow> 'v serialized \<Rightarrow> str + nat" where
  "serialized_response_len cd value =
     (case ser_value value of
        Inl e \<Rightarrow> Inl e
      | Inr v \<Rightarrow>
          (case cd_result_bytes cd (cd_structured cd v) of
             None \<Rightarrow> Inl (lit ''serialization failed'')
           | Some n \<Rightarrow> Inr n))"

definition WIDEST_FRAGMENT_CHARACTER :: ch where
  "WIDEST_FRAGMENT_CHARACTER = 1114111"

definition widest_page :: "nat \<Rightarrow> ToolResultPage" where
  "widest_page max_result_bytes =
     \<lparr> pg_offset = max_result_bytes, pg_fragment = [WIDEST_FRAGMENT_CHARACTER],
       pg_next_cursor = Some (encode_cursor longest_result_id max_result_bytes),
       pg_complete = False, pg_total_bytes = max_result_bytes \<rparr>"

definition validate_response_limit ::
    "('v, 'r) codec \<Rightarrow> nat \<Rightarrow> nat \<Rightarrow> nat \<Rightarrow> str + unit" where
  "validate_response_limit cd max_response_bytes max_result_bytes longest_tool_name =
     (case serialized_response_len cd (cd_marker cd
             (deferred_marker (replicate longest_tool_name 116) longest_result_id max_result_bytes)) of
        Inl e \<Rightarrow> Inl e
      | Inr marker_bytes \<Rightarrow>
          if max_response_bytes < marker_bytes
          then Inl (lit ''MAX_MCP_RESPONSE_BYTES ('' @ fmt_dec max_response_bytes @
                    lit '') is too small: a deferred_result marker needs up to '' @
                    fmt_dec marker_bytes @ lit '' bytes'')
          else case serialized_response_len cd (cd_page cd (widest_page max_result_bytes)) of
                 Inl e \<Rightarrow> Inl e
               | Inr page_bytes \<Rightarrow>
                   if max_response_bytes < page_bytes
                   then Inl (lit ''MAX_MCP_RESPONSE_BYTES ('' @ fmt_dec max_response_bytes @
                     lit '') is too small: a read_tool_result_page response with one character needs up to '' @
                     fmt_dec page_bytes @ lit '' bytes'')
                   else Inr ())"

section \<open>Trusted project roots\<close>

text \<open>The file system as the code observes it.\<close>

record filesystem =
  fs_canonicalize :: "str \<Rightarrow> path option"
  fs_is_dir :: "path \<Rightarrow> bool"
  fs_is_file :: "path \<Rightarrow> bool"

definition canonical_project_root :: "filesystem \<Rightarrow> str \<Rightarrow> str + path" where
  "canonical_project_root fs project_path =
     (if \<not> starts_with (lit ''/'') project_path
      then Inl (lit ''project_path must be an absolute path'')
      else case fs_canonicalize fs project_path of
        None \<Rightarrow> Inl (lit ''project_path must be a readable directory'')
      | Some root \<Rightarrow>
          if \<not> fs_is_dir fs root then Inl (lit ''project_path must be a directory'')
          else if \<not> fs_is_file fs (root @ [lit ''pom.xml''])
          then Inl (lit ''project_path must contain a pom.xml'')
          else Inr root)"

definition validate_project_path :: "filesystem \<Rightarrow> str \<Rightarrow> ErrorData + path" where
  "validate_project_path fs project_path =
     (case canonical_project_root fs project_path of
        Inl e \<Rightarrow> Inl (InvalidParams e) | Inr root \<Rightarrow> Inr root)"

definition trusted_project_root :: "filesystem \<Rightarrow> path list \<Rightarrow> str \<Rightarrow> ErrorData + path" where
  "trusted_project_root fs directories project_path =
     (case validate_project_path fs project_path of
        Inl e \<Rightarrow> Inl e
      | Inr root \<Rightarrow>
          if \<not> list_ex (path_starts_with root) directories
          then Inl (InvalidParams (lit ''project_path is not inside a directory configured by MAVEN_TRUSTED_PROJECT_DIRECTORIES''))
          else Inr root)"

section \<open>The server's boundary operations\<close>

record server =
  srv_results :: ResultStore
  srv_results_poisoned :: bool
  srv_max_mcp_response_bytes :: nat
  srv_result_serialization_limit :: nat
  srv_trusted_project_directories :: "path list"

datatype 'r CallToolResponse = Complete 'r | OtherResponse

definition result_serialization_limit :: "nat \<Rightarrow> nat \<Rightarrow> nat" where
  "result_serialization_limit max_mcp_result_cache_bytes max_mcp_response_bytes =
     max max_mcp_result_cache_bytes max_mcp_response_bytes"

definition lock_results :: "server \<Rightarrow> ErrorData + ResultStore" where
  "lock_results sv =
     (if srv_results_poisoned sv then Inl (InternalError (lit ''result store is poisoned''))
      else Inr (srv_results sv))"

definition fits_response :: "('v, 'r) codec \<Rightarrow> 'r \<Rightarrow> nat \<Rightarrow> ErrorData + bool" where
  "fits_response cd result limit =
     (case serialized_len_within (cd_result cd result) limit of
        Inl e \<Rightarrow> Inl e | Inr n \<Rightarrow> Inr (n \<noteq> None))"

text \<open>The part of \<open>bound_response\<close> after the size test: storing the text and building the marker.\<close>

definition defer_result ::
    "('v, 'r) codec \<Rightarrow> nat \<Rightarrow> str \<Rightarrow> path \<Rightarrow> str \<Rightarrow> server \<Rightarrow>
     ((ErrorData + 'r CallToolResponse) \<times> server) option" where
  "defer_result cd now tool root json sv =
     (case lock_results sv of
        Inl e \<Rightarrow> Some (Inl e, sv)
      | Inr results \<Rightarrow>
          (case insert_result root json now results of
             None \<Rightarrow> None
           | Some (Inl too_large, results) \<Rightarrow>
               Some (Inl (result_too_large (tl_limit too_large)), sv \<lparr> srv_results := results \<rparr>)
           | Some (Inr result_id, results) \<Rightarrow>
               Some (case structured_result (cd_structured cd)
                            (cd_marker cd (deferred_marker tool result_id (str_len json))) usize_max of
                       Inl e \<Rightarrow> Inl e
                     | Inr r \<Rightarrow> Inr (Complete r),
                     sv \<lparr> srv_results := results \<rparr>)))"

definition bound_response ::
    "('v, 'r) codec \<Rightarrow> filesystem \<Rightarrow> nat \<Rightarrow> str \<Rightarrow> str option \<Rightarrow> 'r CallToolResponse \<Rightarrow> server \<Rightarrow>
     ((ErrorData + 'r CallToolResponse) \<times> server) option" where
  "bound_response cd fs now tool project_path response sv =
     (case response of
        OtherResponse \<Rightarrow> Some (Inr response, sv)
      | Complete result \<Rightarrow>
          if tool = READ_PAGE_TOOL then Some (Inr (Complete result), sv)
          else case fits_response cd result (srv_max_mcp_response_bytes sv) of
            Inl e \<Rightarrow> Some (Inl e, sv)
          | Inr True \<Rightarrow> Some (Inr (Complete result), sv)
          | Inr False \<Rightarrow>
              (case cd_structured_content cd result of
                 None \<Rightarrow>
                   Some (Inl (InternalError
                     (lit ''the tool result exceeds MAX_MCP_RESPONSE_BYTES ('' @
                      fmt_dec (srv_max_mcp_response_bytes sv) @ lit '' bytes)'')), sv)
               | Some structured \<Rightarrow>
                   (case trusted_project_root fs (srv_trusted_project_directories sv)
                           (case project_path of None \<Rightarrow> [] | Some p \<Rightarrow> p) of
                      Inl e \<Rightarrow> Some (Inl e, sv)
                    | Inr root \<Rightarrow> defer_result cd now tool root (cd_text cd structured) sv)))"

record ResultPageRequest =
  rq_project_path :: str
  rq_result_id :: str
  rq_cursor :: "str option"

definition page_offset :: "str \<Rightarrow> str option \<Rightarrow> str \<Rightarrow> nat option" where
  "page_offset result_id cursor json =
     (case cursor of None \<Rightarrow> Some 0 | Some cursor \<Rightarrow> decode_cursor result_id cursor json)"

text \<open>Reading one page; the outer \<open>None\<close> is a panic.\<close>

definition read_tool_result_page ::
    "('v, 'r) codec \<Rightarrow> filesystem \<Rightarrow> nat \<Rightarrow> ResultPageRequest \<Rightarrow> server \<Rightarrow>
     ((ErrorData + ToolResultPage) \<times> server) option" where
  "read_tool_result_page cd fs now request sv =
     (case trusted_project_root fs (srv_trusted_project_directories sv) (rq_project_path request) of
        Inl e \<Rightarrow> Some (Inl e, sv)
      | Inr root \<Rightarrow>
          (case lock_results sv of
             Inl e \<Rightarrow> Some (Inl e, sv)
           | Inr results \<Rightarrow>
               (case get_result (rq_result_id request) root now results of
                  (None, results) \<Rightarrow> Some (Inl unavailable_result, sv \<lparr> srv_results := results \<rparr>)
                | (Some json, results) \<Rightarrow>
                    let sv = sv \<lparr> srv_results := results \<rparr>
                    in case page_offset (rq_result_id request) (rq_cursor request) json of
                         None \<Rightarrow> Some (Inl invalid_cursor, sv)
                       | Some offset \<Rightarrow>
                           (case fit_page cd json offset (rq_result_id request)
                                   (srv_max_mcp_response_bytes sv) of
                              None \<Rightarrow> None
                            | Some (Inl _) \<Rightarrow>
                                Some (Inl (InternalError
                                  (lit ''MAX_MCP_RESPONSE_BYTES is too small for a result page'')), sv)
                            | Some (Inr page) \<Rightarrow> Some (Inr page, sv)))))"

section \<open>The counting writer\<close>

lemma to_writer_within:
  "bc_written c + sum_list ns \<le> bc_limit c \<Longrightarrow> bc_limit c \<le> usize_max \<Longrightarrow>
   to_writer ns err c = (err, c \<lparr> bc_written := bc_written c + sum_list ns \<rparr>)"
proof (induction ns arbitrary: c)
  case (Cons n ns)
  then show ?case
    by (simp add: counter_write_def Let_def sat_add_no_overflow add.assoc)
qed simp

lemma to_writer_beyond:
  "bc_limit c < bc_written c + sum_list ns \<Longrightarrow> bc_written c \<le> bc_limit c \<Longrightarrow> bc_limit c < usize_max \<Longrightarrow>
   \<exists>w. to_writer ns err c = (Some (lit ''serialized size limit exceeded''), c \<lparr> bc_written := w \<rparr>) \<and>
       bc_limit c < w"
proof (induction ns arbitrary: c)
  case (Cons n ns)
  let ?c = "c \<lparr> bc_written := sat_add (bc_written c) n \<rparr>"
  show ?case
  proof (cases "bc_limit c < bc_written c + n")
    case True
    then have "bc_limit c < sat_add (bc_written c) n" using Cons.prems by (simp add: sat_add_def)
    then show ?thesis by (auto simp: counter_write_def Let_def)
  next
    case False
    then have sat: "sat_add (bc_written c) n = bc_written c + n"
      using Cons.prems by (intro sat_add_no_overflow) simp
    then show ?thesis using Cons.IH [of ?c] Cons.prems False by (auto simp: counter_write_def Let_def)
  qed
qed simp

lemma serialized_len_within_eq:
  assumes "limit < usize_max"
  shows "serialized_len_within value limit =
    (if limit < sum_list (ser_writes value) then Inr None
     else case ser_error value of
            None \<Rightarrow> Inr (Some (sum_list (ser_writes value)))
          | Some e \<Rightarrow> Inl (serialization_error e))"
proof (cases "limit < sum_list (ser_writes value)")
  case True
  then obtain w where "to_writer (ser_writes value) (ser_error value) \<lparr> bc_written = 0, bc_limit = limit \<rparr> =
      (Some (lit ''serialized size limit exceeded''), \<lparr> bc_written = w, bc_limit = limit \<rparr>)" "limit < w"
    using to_writer_beyond [of "\<lparr> bc_written = 0, bc_limit = limit \<rparr>" "ser_writes value" "ser_error value"]
      assms by auto
  then show ?thesis using True by (simp add: serialized_len_within_def)
next
  case False
  then show ?thesis using assms
    by (simp add: serialized_len_within_def to_writer_within split: option.split)
qed

text \<open>With the largest limit nothing is ever rejected for its size.\<close>

lemma to_writer_unlimited:
  "bc_limit c = usize_max \<Longrightarrow> \<exists>w. to_writer ns err c = (err, c \<lparr> bc_written := w \<rparr>)"
proof (induction ns arbitrary: c)
  case (Cons n ns)
  have "\<not> usize_max < sat_add a b" for a b by (simp add: sat_add_def)
  then show ?case
    using Cons.IH [of "c \<lparr> bc_written := sat_add (bc_written c) n \<rparr>"] Cons.prems
    by (auto simp: counter_write_def Let_def)
qed (simp, metis ByteCounter.surjective ByteCounter.update_convs(1) unit.exhaust)

lemma structured_result_unlimited:
  "ser_error value = None \<Longrightarrow> ser_value value = Inr v \<Longrightarrow>
   structured_result structured value usize_max = Inr (structured v)"
  using to_writer_unlimited [of "\<lparr> bc_written = 0, bc_limit = usize_max \<rparr>" "ser_writes value" None]
  by (auto simp: structured_result_def serialized_len_within_def)

section \<open>Pages of a text cut into three parts\<close>

definition the_page :: "str \<Rightarrow> str \<Rightarrow> str \<Rightarrow> str \<Rightarrow> ToolResultPage" where
  "the_page pre f post rid =
     \<lparr> pg_offset = str_len pre, pg_fragment = f,
       pg_next_cursor = (if post = [] then None else Some (encode_cursor rid (str_len (pre @ f)))),
       pg_complete = (post = []), pg_total_bytes = str_len (pre @ f @ post) \<rparr>"

lemma page_at_parts:
  "page_at (pre @ f @ post) (str_len pre) (str_len pre + str_len f) rid = Some (the_page pre f post rid)"
  by (simp add: page_at_def the_page_def Let_def)

lemma no_boundary_inside:
  "is_char_boundary (p @ c # r) n \<Longrightarrow> str_len p < n \<Longrightarrow> str_len p + utf8_len c \<le> n"
proof -
  assume "is_char_boundary (p @ c # r) n" and less: "str_len p < n"
  then obtain q r' where q: "p @ c # r = q @ r'" "str_len q = n" by (auto simp: is_char_boundary_iff)
  then obtain m where m: "q = p @ m" "c # r = m @ r'"
    using prefix_by_str_len [of p "c # r" q r'] less by auto
  with less q(2) obtain m' where "m = c # m'" by (cases m) auto
  with m q(2) show ?thesis by simp
qed

lemma previous_boundary_skip:
  "(\<And>m. k \<le> m \<Longrightarrow> m < n \<Longrightarrow> \<not> is_char_boundary json m) \<Longrightarrow> k \<le> n \<Longrightarrow>
   previous_boundary json n = previous_boundary json k"
proof (induction n)
  case (Suc n)
  then show ?case by (cases "k = Suc n") auto
qed simp

lemma previous_boundary_snoc:
  "previous_boundary (p @ c # r) (str_len p + utf8_len c) = str_len p"
proof -
  have "\<not> is_char_boundary (p @ c # r) m" if "Suc (str_len p) \<le> m" "m < str_len p + utf8_len c" for m
    using no_boundary_inside [of p c r m] that by auto
  then have "previous_boundary (p @ c # r) (str_len p + utf8_len c) =
      previous_boundary (p @ c # r) (Suc (str_len p))"
    using utf8_len_pos [of c] by (intro previous_boundary_skip) (auto simp: Suc_le_eq)
  moreover have "is_char_boundary (p @ c # r) (str_len p)" by (auto simp: is_char_boundary_iff)
  ultimately show ?thesis by simp
qed

lemma shrink_page_parts:
  "\<exists>r. shrink_page cd (pre @ f @ post) (str_len pre) rid limit (str_len pre + str_len f) = Some r \<and>
     (\<forall>p. r = Inr p \<longrightarrow>
       (\<exists>f1 f2 n. f = f1 @ f2 \<and> f1 \<noteq> [] \<and> p = the_page pre f1 (f2 @ post) rid \<and>
          page_response_len cd p = Inr n \<and> n \<le> limit))"
proof (induction f arbitrary: post rule: rev_induct)
  case Nil
  then show ?case by (simp add: shrink_page.simps)
next
  case (snoc c f)
  have prev: "previous_boundary (pre @ (f @ [c]) @ post) (str_len pre + str_len (f @ [c])) =
      str_len pre + str_len f"
    using previous_boundary_snoc [of "pre @ f" c post] by (simp add: add.assoc)
  have pos: "str_len (f @ [c]) \<noteq> 0" by simp
  let ?p = "the_page pre (f @ [c]) post rid"
  have page: "page_at (pre @ (f @ [c]) @ post) (str_len pre) (str_len pre + str_len (f @ [c])) rid = Some ?p"
    by (rule page_at_parts)
  show ?case
  proof (cases "page_response_len cd ?p")
    case (Inl e)
    then show ?thesis using pos page by (subst shrink_page.simps) simp
  next
    case (Inr n)
    show ?thesis
    proof (cases "n \<le> limit")
      case True
      then have "shrink_page cd (pre @ (f @ [c]) @ post) (str_len pre) rid limit (str_len pre + str_len (f @ [c]))
          = Some (Inr ?p)"
        using pos page Inr by (subst shrink_page.simps) simp
      moreover have "f @ [c] = (f @ [c]) @ [] \<and> f @ [c] \<noteq> [] \<and> ?p = the_page pre (f @ [c]) ([] @ post) rid" by simp
      ultimately show ?thesis using Inr True by blast
    next
      case False
      then have "shrink_page cd (pre @ (f @ [c]) @ post) (str_len pre) rid limit (str_len pre + str_len (f @ [c]))
          = shrink_page cd (pre @ f @ (c # post)) (str_len pre) rid limit (str_len pre + str_len f)"
        using pos page Inr prev by (subst shrink_page.simps) simp
      then show ?thesis using snoc.IH [of "c # post"] by (auto simp del: str_len_append) (metis append.assoc append_Cons append_Nil)
    qed
  qed
qed

definition cost_of :: "str \<Rightarrow> nat" where
  "cost_of s = sum_list (map response_cost s)"

lemma cost_of_simps [simp]: "cost_of [] = 0" "cost_of (c # s) = response_cost c + cost_of s"
  "cost_of (s @ t) = cost_of s + cost_of t"
  by (simp_all add: cost_of_def)

lemma fitting_end_parts:
  "\<exists>f r. cs = f @ r \<and> fitting_end budget cost e cs = e + str_len f \<and>
     (f = [] \<or> cost + cost_of f \<le> budget) \<and>
     (r = [] \<or> budget < cost + cost_of f + response_cost (hd r))"
proof (induction budget cost e cs rule: fitting_end.induct)
  case (2 budget cost e c cs)
  show ?case
  proof (cases "budget < cost + response_cost c")
    case True
    then show ?thesis by (intro exI [of _ "[]"] exI [of _ "c # cs"]) simp
  next
    case False
    with 2 obtain f r where "cs = f @ r"
      "fitting_end budget (cost + response_cost c) (e + utf8_len c) cs = e + utf8_len c + str_len f"
      "f = [] \<or> cost + response_cost c + cost_of f \<le> budget"
      "r = [] \<or> budget < cost + response_cost c + cost_of f + response_cost (hd r)"
      by (metis (no_types, lifting))
    then show ?thesis using False by (intro exI [of _ "c # f"] exI [of _ r]) (auto simp: add.assoc Let_def)
  qed
qed simp

section \<open>What the page size relies on\<close>

text \<open>
  \<open>exact_cost\<close>: a page serializes without error, and its complete serialized result has the size
  of a frame, which does not depend on the fragment, plus the cost of each fragment character.
  \<open>frame_bounded\<close>: numbers grow in width with their value, a cursor costs what its characters
  cost, \<open>null\<close> is no wider than a nonempty cursor and \<open>true\<close> no wider than \<open>false\<close>.
\<close>

type_synonym frame = "nat \<Rightarrow> str option \<Rightarrow> bool \<Rightarrow> nat \<Rightarrow> nat"

definition exact_cost :: "('v, 'r) codec \<Rightarrow> frame \<Rightarrow> bool" where
  "exact_cost cd frame \<longleftrightarrow>
     (\<forall>p. ser_error (cd_page cd p) = None \<and>
        (\<exists>v. ser_value (cd_page cd p) = Inr v \<and>
           cd_result_bytes cd (cd_structured cd v) =
             Some (frame (pg_offset p) (pg_next_cursor p) (pg_complete p) (pg_total_bytes p) +
                   cost_of (pg_fragment p))))"

definition frame_bounded :: "frame \<Rightarrow> bool" where
  "frame_bounded frame \<longleftrightarrow>
     (\<forall>off off' total total' c c' complete.
        off \<le> off' \<and> total \<le> total' \<and> c \<noteq> [] \<and> cost_of c \<le> cost_of c' \<longrightarrow>
        frame off (Some c) complete total \<le> frame off' (Some c') False total' \<and>
        frame off None complete total \<le> frame off' (Some c') False total')"

definition page_frame :: "frame \<Rightarrow> ToolResultPage \<Rightarrow> nat" where
  "page_frame frame p = frame (pg_offset p) (pg_next_cursor p) (pg_complete p) (pg_total_bytes p)"

lemma page_response_len_exact:
  "exact_cost cd frame \<Longrightarrow> page_response_len cd p = Inr (page_frame frame p + cost_of (pg_fragment p))"
  unfolding exact_cost_def
  by (drule spec [of _ p])
    (auto simp: page_response_len_def page_frame_def structured_result_unlimited)

lemma serialized_response_len_exact:
  "exact_cost cd frame \<Longrightarrow>
   serialized_response_len cd (cd_page cd p) = Inr (page_frame frame p + cost_of (pg_fragment p))"
  unfolding exact_cost_def
  by (drule spec [of _ p]) (auto simp: serialized_response_len_def page_frame_def)

subsection \<open>Widths of numbers and identifiers\<close>

lemma length_fmt_dec_mono: "m \<le> n \<Longrightarrow> length (fmt_dec m) \<le> length (fmt_dec n)"
proof (induction n arbitrary: m rule: less_induct)
  case (less n)
  show ?case
  proof (cases "m < 10")
    case True
    then show ?thesis by (simp add: fmt_radix_small Suc_le_eq)
  next
    case False
    then have "length (fmt_dec (m div 10)) \<le> length (fmt_dec (n div 10))"
      using less by (simp add: div_le_mono)
    then show ?thesis using False less.prems by (simp add: fmt_radix_big)
  qed
qed

lemma response_cost_plain: "32 \<le> c \<Longrightarrow> c < 128 \<Longrightarrow> c \<noteq> 34 \<Longrightarrow> c \<noteq> 92 \<Longrightarrow> response_cost c = 2"
  by (simp add: response_cost_def)

lemma cost_of_plain:
  "(\<And>c. c \<in> set s \<Longrightarrow> 32 \<le> c \<and> c < 128 \<and> c \<noteq> 34 \<and> c \<noteq> 92) \<Longrightarrow> cost_of s = 2 * length s"
  by (induction s) (simp_all add: response_cost_plain)

lemma digit_ch_plain: "d < 16 \<Longrightarrow> 48 \<le> digit_ch d \<and> digit_ch d < 128 \<and> digit_ch d \<noteq> 92"
  by (auto simp: digit_ch_def)

lemma fmt_radix_plain:
  "2 \<le> b \<Longrightarrow> b \<le> 16 \<Longrightarrow> c \<in> set (fmt_radix b n) \<Longrightarrow> 48 \<le> c \<and> c < 128 \<and> c \<noteq> 92"
proof (induction n rule: less_induct)
  case (less n)
  show ?case
  proof (cases "n < b")
    case True
    then show ?thesis using less.prems digit_ch_plain [of n] by (simp add: fmt_radix_small)
  next
    case False
    then have "c \<in> set (fmt_radix b (n div b)) \<or> c = digit_ch (n mod b)"
      using less.prems by (auto simp: fmt_radix_big)
    moreover have "48 \<le> digit_ch (n mod b) \<and> digit_ch (n mod b) < 128 \<and> digit_ch (n mod b) \<noteq> 92"
      by (rule digit_ch_plain) (rule mod_less_le [OF less.prems(1,2)])
    moreover have "n div b < n" using False less.prems by simp
    ultimately show ?thesis using less.IH [of "n div b"] less.prems(1,2) by auto
  qed
qed

lemma length_fmt_hex_word: "length (fmt_hex (unat (w :: 64 word))) \<le> 16"
proof -
  have "unat w < 2 ^ LENGTH(64)" by (rule unsigned_less)
  then have "unat w < 16 ^ Suc 15" by simp
  from length_fmt_radix [OF _ this] show ?thesis by simp
qed

lemma format_id_plain:
  "c \<in> set (format_id key n) \<Longrightarrow> 48 \<le> c \<and> c < 128 \<and> c \<noteq> 92"
  using fmt_radix_plain [of 16 c]
  by (auto simp: format_id_def fmt_hex_pad_def)

lemma length_format_id: "length (format_id key n) = 17 + length (fmt_hex (unat n))"
  using length_fmt_hex_word [of key] by (simp add: format_id_def fmt_hex_pad_def)

lemma longest_id_hex: "length (fmt_hex (unat (- 1 :: 64 word))) = 16"
  by code_simp

lemma cost_of_format_id_eq: "cost_of (format_id k m) = 2 * (17 + length (fmt_hex (unat m)))"
  using format_id_plain by (subst cost_of_plain) (fastforce simp: length_format_id)+

lemma cost_of_longest_id: "cost_of longest_result_id = 66"
  unfolding longest_result_id_def cost_of_format_id_eq longest_id_hex by simp

lemma cost_of_format_id: "cost_of (format_id key n) \<le> cost_of longest_result_id"
  using length_fmt_hex_word [of n] by (simp add: cost_of_format_id_eq cost_of_longest_id)

lemma cost_of_fmt_dec: "cost_of (fmt_dec n) = 2 * length (fmt_dec n)"
  using fmt_radix_plain [of 10] by (subst cost_of_plain) fastforce+

lemma cost_of_cursor_mono:
  "cost_of rid \<le> cost_of rid' \<Longrightarrow> m \<le> n \<Longrightarrow> cost_of (encode_cursor rid m) \<le> cost_of (encode_cursor rid' n)"
  using length_fmt_dec_mono [of m n] by (simp add: encode_cursor_def cost_of_fmt_dec)

lemma encode_cursor_not_Nil [simp]: "encode_cursor rid n \<noteq> []"
  by (simp add: encode_cursor_def)

lemma frame_boundedD:
  assumes "frame_bounded frame" "off \<le> off'" "n \<le> n'" "c \<noteq> []" "cost_of c \<le> cost_of c'"
  shows "frame off (Some c) complete n \<le> frame off' (Some c') False n'"
    "frame off None complete n \<le> frame off' (Some c') False n'"
  using assms unfolding frame_bounded_def by blast+

text \<open>No page frame is wider than the skeleton of its text.\<close>

lemma frame_le_skeleton:
  assumes "frame_bounded frame"
  shows "page_frame frame (the_page pre f post rid) \<le> page_frame frame (skeleton (pre @ f @ post) (str_len pre) rid)"
proof -
  have "cost_of (encode_cursor rid (str_len (pre @ f))) \<le> cost_of (encode_cursor rid (str_len (pre @ f @ post)))"
    by (intro cost_of_cursor_mono) simp_all
  from frame_boundedD [OF assms order_refl order_refl encode_cursor_not_Nil this]
  show ?thesis by (cases "post = []") (simp_all add: page_frame_def the_page_def skeleton_def)
qed

section \<open>Pages under the exact cost\<close>

lemma fit_page_parts:
  assumes "json = pre @ rest"
  obtains f r where "rest = f @ r"
    "page_response_len cd (skeleton json (str_len pre) rid) = Inr n \<Longrightarrow> n \<le> limit \<Longrightarrow>
       fit_page cd json (str_len pre) rid limit =
         shrink_page cd (pre @ f @ r) (str_len pre) rid limit (str_len pre + str_len f)"
    "f = [] \<or> cost_of f \<le> limit - n" "r = [] \<or> limit - n < cost_of f + response_cost (hd r)"
proof -
  obtain f r where fr: "rest = f @ r"
    "fitting_end (limit - n) 0 (str_len pre) rest = str_len pre + str_len f"
    "f = [] \<or> cost_of f \<le> limit - n" "r = [] \<or> limit - n < cost_of f + response_cost (hd r)"
    using fitting_end_parts [of rest "limit - n" 0 "str_len pre"] by auto
  have "bytes_from (str_len pre) json = Some rest" using assms by (auto simp: bytes_from_Some)
  then show thesis using fr assms
    by (intro that [OF fr(1)]) (simp_all add: fit_page_def checked_sub_def)
qed

lemma fit_page_returns:
  assumes "json = pre @ rest"
  obtains r where "fit_page cd json (str_len pre) rid limit = Some r"
    "\<And>p. r = Inr p \<Longrightarrow> \<exists>f post n. rest = f @ post \<and> f \<noteq> [] \<and> p = the_page pre f post rid \<and>
       page_response_len cd p = Inr n \<and> n \<le> limit"
proof (cases "\<exists>n. page_response_len cd (skeleton json (str_len pre) rid) = Inr n \<and> n \<le> limit")
  case True
  then obtain n where n: "page_response_len cd (skeleton json (str_len pre) rid) = Inr n" "n \<le> limit" by blast
  obtain f r where fr: "rest = f @ r"
    "fit_page cd json (str_len pre) rid limit =
       shrink_page cd (pre @ f @ r) (str_len pre) rid limit (str_len pre + str_len f)"
    using fit_page_parts [OF assms, of cd rid n limit] n by metis
  from shrink_page_parts [of cd pre f r rid limit] obtain x where
    x: "fit_page cd json (str_len pre) rid limit = Some x"
    "\<And>p. x = Inr p \<Longrightarrow> \<exists>f1 f2 n. f = f1 @ f2 \<and> f1 \<noteq> [] \<and> p = the_page pre f1 (f2 @ r) rid \<and>
        page_response_len cd p = Inr n \<and> n \<le> limit"
    using fr(2) by auto
  show thesis
  proof (rule that [OF x(1)])
    fix p assume "x = Inr p"
    from x(2) [OF this] obtain f1 f2 n where "f = f1 @ f2" "f1 \<noteq> []" "p = the_page pre f1 (f2 @ r) rid"
      "page_response_len cd p = Inr n" "n \<le> limit" by blast
    then show "\<exists>f post n. rest = f @ post \<and> f \<noteq> [] \<and> p = the_page pre f post rid \<and>
       page_response_len cd p = Inr n \<and> n \<le> limit" using fr(1)
      by (intro exI [of _ f1] exI [of _ "f2 @ r"] exI [of _ n]) simp
  qed
next
  case False
  have "fit_page cd json (str_len pre) rid limit = Some (Inl LimitTooSmall)"
  proof (cases "page_response_len cd (skeleton json (str_len pre) rid)")
    case (Inl e)
    then show ?thesis by (cases e) (simp add: fit_page_def)
  next
    case (Inr n)
    then show ?thesis using False by (simp add: fit_page_def checked_sub_def)
  qed
  then show thesis by (rule that) simp
qed

lemma fit_page_exact:
  assumes "exact_cost cd frame" "frame_bounded frame" "json = pre @ c # rest"
    and "page_frame frame (skeleton json (str_len pre) rid) + response_cost c \<le> limit"
  obtains f post where "c # rest = f @ post" "f \<noteq> []"
    "fit_page cd json (str_len pre) rid limit = Some (Inr (the_page pre f post rid))"
    "page_frame frame (skeleton json (str_len pre) rid) + cost_of f \<le> limit"
    "post \<noteq> [] \<Longrightarrow>
       limit < page_frame frame (skeleton json (str_len pre) rid) + cost_of f + response_cost (hd post)"
proof -
  let ?n = "page_frame frame (skeleton json (str_len pre) rid)"
  have n: "page_response_len cd (skeleton json (str_len pre) rid) = Inr ?n"
    using page_response_len_exact [OF assms(1)] by (simp add: skeleton_def)
  obtain f r where fr: "c # rest = f @ r"
    "fit_page cd json (str_len pre) rid limit =
       shrink_page cd (pre @ f @ r) (str_len pre) rid limit (str_len pre + str_len f)"
    "f = [] \<or> cost_of f \<le> limit - ?n" "r = [] \<or> limit - ?n < cost_of f + response_cost (hd r)"
    using fit_page_parts [OF assms(3), of cd rid ?n limit] n assms(4)
    by (metis add_leD1)
  have "f \<noteq> []"
  proof
    assume "f = []"
    then have "r = c # rest" using fr(1) by simp
    with fr(4) \<open>f = []\<close> assms(4) show False by simp
  qed
  let ?p = "the_page pre f r rid"
  have cost: "?n + cost_of f \<le> limit" using fr(3) \<open>f \<noteq> []\<close> assms(4) by auto
  have "page_response_len cd ?p = Inr (page_frame frame ?p + cost_of f)"
    using page_response_len_exact [OF assms(1)] by (simp add: the_page_def)
  moreover have "page_frame frame ?p + cost_of f \<le> limit"
    using frame_le_skeleton [OF assms(2), of pre f r rid] cost fr(1) assms(3) by simp
  moreover have "str_len f \<noteq> 0" using \<open>f \<noteq> []\<close> by simp
  ultimately have "fit_page cd json (str_len pre) rid limit = Some (Inr ?p)"
    unfolding fr(2) using page_at_parts [of pre f r rid] by (subst shrink_page.simps) simp
  then show thesis using that [OF fr(1) \<open>f \<noteq> []\<close>] cost fr(4) by force
qed

text \<open>A validated response limit holds one character of every text the store can keep.\<close>

lemma validated_limit:
  assumes "exact_cost cd frame" "frame_bounded frame"
    and "validate_response_limit cd limit max_result k = Inr ()"
    and "cost_of rid \<le> cost_of longest_result_id" "str_len json \<le> max_result" "offset \<le> str_len json"
    and "32 \<le> c"
  shows "page_frame frame (skeleton json offset rid) + response_cost c \<le> limit"
proof -
  have "page_frame frame (widest_page max_result) + cost_of [WIDEST_FRAGMENT_CHARACTER] \<le> limit"
    using assms(3) serialized_response_len_exact [OF assms(1)]
    by (auto simp: validate_response_limit_def widest_page_def split: sum.splits if_splits)
  moreover have "response_cost c \<le> cost_of [WIDEST_FRAGMENT_CHARACTER]"
    using assms(7) by (simp add: response_cost_def WIDEST_FRAGMENT_CHARACTER_def utf8_len_def)
  moreover have "page_frame frame (skeleton json offset rid) \<le> page_frame frame (widest_page max_result)"
  proof -
    have "cost_of (encode_cursor rid (str_len json)) \<le> cost_of (encode_cursor longest_result_id max_result)"
      using assms by (intro cost_of_cursor_mono) simp_all
    moreover have "offset \<le> max_result" using assms(5,6) by simp
    ultimately show ?thesis
      using frame_boundedD(1) [OF assms(2) _ assms(5) encode_cursor_not_Nil]
      by (simp add: page_frame_def skeleton_def widest_page_def)
  qed
  ultimately show ?thesis by simp
qed

section \<open>Cursors\<close>

lemma decode_encode_cursor:
  assumes "str_len json \<le> usize_max"
  shows "decode_cursor rid (encode_cursor rid n) json =
     (if n < str_len json \<and> is_char_boundary json n then Some n else None)"
proof -
  have strip: "strip_prefix rid (encode_cursor rid n) = Some (lit ''.'' @ fmt_dec n)"
    "strip_prefix (lit ''.'') (lit ''.'' @ fmt_dec n) = Some (fmt_dec n)"
    by (simp_all only: strip_prefix_Some encode_cursor_def)
  show ?thesis
  proof (cases "n \<le> usize_max")
    case True
    then show ?thesis unfolding decode_cursor_def strip Option.bind.bind_lunit
      by (simp add: parse_usize_fmt_dec)
  next
    case False
    then have "\<not> n < str_len json" using assms by simp
    moreover have "parse_usize (fmt_dec n) \<noteq> Some m" if "m < str_len json" for m
      using False fmt_dec_digits dec_value_fmt_dec [of n] that
      by (auto simp: parse_usize_def Let_def is_ascii_digit_def split: list.splits if_splits)
    ultimately show ?thesis unfolding decode_cursor_def strip Option.bind.bind_lunit
      by (cases "parse_usize (fmt_dec n)") auto
  qed
qed

lemma decode_cursor_SomeD:
  "decode_cursor rid cursor json = Some n \<Longrightarrow>
   cursor = encode_cursor rid n \<and> n < str_len json \<and> is_char_boundary json n"
  by (auto simp: decode_cursor_def Option.bind_eq_Some_conv split: if_splits)

section \<open>The reading protocol\<close>

text \<open>
  A client calls the pager without a cursor and then with each returned cursor, at the given
  times, until a page is complete; \<open>None\<close> is an error or a client that stops too early.
\<close>

fun read_all ::
    "(nat \<Rightarrow> str option \<Rightarrow> 's \<Rightarrow> ToolResultPage option \<times> 's) \<Rightarrow> nat list \<Rightarrow> str option \<Rightarrow> 's \<Rightarrow> str option" where
  "read_all serve [] cursor s = None"
| "read_all serve (now # ts) cursor s =
     (case serve now cursor s of
        (None, s') \<Rightarrow> None
      | (Some p, s') \<Rightarrow>
          if pg_complete p then Some (pg_fragment p)
          else map_option (\<lambda>t. pg_fragment p @ t) (read_all serve ts (pg_next_cursor p) s'))"

definition cursor_for :: "str \<Rightarrow> str \<Rightarrow> str option" where
  "cursor_for rid pre = (if pre = [] then None else Some (encode_cursor rid (str_len pre)))"

text \<open>The contract of a pager: at the cursor of every proper prefix it serves a nonempty page
  that continues the text.\<close>

locale page_protocol =
  fixes serve :: "nat \<Rightarrow> str option \<Rightarrow> 's \<Rightarrow> ToolResultPage option \<times> 's"
    and holds :: "nat \<Rightarrow> 's \<Rightarrow> bool"
    and json :: str
    and rid :: str
    and deadline :: nat
  assumes serve_page:
    "holds t s \<Longrightarrow> t \<le> now \<Longrightarrow> now < deadline \<Longrightarrow> json = pre @ rest \<Longrightarrow> rest \<noteq> [] \<Longrightarrow>
     \<exists>f post s'. f \<noteq> [] \<and> rest = f @ post \<and>
       serve now (cursor_for rid pre) s = (Some (the_page pre f post rid), s') \<and> holds now s'"
begin

lemma read_all_rest:
  "holds t s \<Longrightarrow> sorted (t # ts) \<Longrightarrow> (\<forall>now \<in> set ts. now < deadline) \<Longrightarrow>
   json = pre @ rest \<Longrightarrow> rest \<noteq> [] \<Longrightarrow> length rest \<le> length ts \<Longrightarrow>
   read_all serve ts (cursor_for rid pre) s = Some rest"
proof (induction ts arbitrary: t s pre rest)
  case (Cons now ts)
  from Cons.prems have "t \<le> now" "now < deadline" by simp_all
  from serve_page [OF Cons.prems(1) this Cons.prems(4,5)] obtain f post s' where
    f: "f \<noteq> []" "rest = f @ post" "holds now s'"
      "serve now (cursor_for rid pre) s = (Some (the_page pre f post rid), s')"
    by blast
  show ?case
  proof (cases "post = []")
    case True
    then show ?thesis using f by (simp add: the_page_def)
  next
    case False
    have "read_all serve ts (cursor_for rid (pre @ f)) s' = Some post"
      using Cons.prems f False by (intro Cons.IH [of now]) (auto simp: Suc_le_eq neq_Nil_conv)
    then show ?thesis using f False by (simp add: the_page_def cursor_for_def)
  qed
qed simp

lemma read_all_text:
  "holds t s \<Longrightarrow> sorted (t # ts) \<Longrightarrow> (\<forall>now \<in> set ts. now < deadline) \<Longrightarrow> json \<noteq> [] \<Longrightarrow>
   length json \<le> length ts \<Longrightarrow> read_all serve ts None s = Some json"
  using read_all_rest [of t s ts "[]" json] by (simp add: cursor_for_def)

end

text \<open>The pager of the server: the page of one project and identifier, errors dropped.\<close>

definition serve_page_of ::
    "('v, 'r) codec \<Rightarrow> filesystem \<Rightarrow> str \<Rightarrow> str \<Rightarrow> nat \<Rightarrow> str option \<Rightarrow> server \<Rightarrow>
     ToolResultPage option \<times> server" where
  "serve_page_of cd fs project rid now cursor sv =
     (case read_tool_result_page cd fs now
             \<lparr> rq_project_path = project, rq_result_id = rid, rq_cursor = cursor \<rparr> sv of
        Some (Inr p, sv') \<Rightarrow> (Some p, sv')
      | Some (Inl _, sv') \<Rightarrow> (None, sv')
      | None \<Rightarrow> (None, sv))"

text \<open>The server is ready to page a result: its limit was validated, the project resolves to the
  root the result is bound to, and the store retains it.\<close>

definition page_ready ::
    "('v, 'r) codec \<Rightarrow> frame \<Rightarrow> filesystem \<Rightarrow> str \<Rightarrow> StoredResult \<Rightarrow> nat \<Rightarrow> server \<Rightarrow> bool" where
  "page_ready cd frame fs project e t sv \<longleftrightarrow>
     exact_cost cd frame \<and> frame_bounded frame \<and>
     (\<exists>k. validate_response_limit cd (srv_max_mcp_response_bytes sv) (srv_result_serialization_limit sv) k = Inr ()) \<and>
     trusted_project_root fs (srv_trusted_project_directories sv) project = Inr (sr_project_root e) \<and>
     \<not> srv_results_poisoned sv \<and>
     retains e t (srv_results sv) \<and>
     cost_of (sr_id e) \<le> cost_of longest_result_id \<and>
     str_len (sr_json e) \<le> srv_result_serialization_limit sv \<and>
     str_len (sr_json e) \<le> usize_max \<and>
     (\<forall>c \<in> set (sr_json e). 32 \<le> c)"

lemma serve_page_of_ready:
  assumes ready: "page_ready cd frame fs project e t sv" and time: "t \<le> now" "now < sr_stored_at e + STORED_RESULT_TTL"
    and rest: "sr_json e = pre @ rest" "rest \<noteq> []"
  shows "\<exists>f post sv'. f \<noteq> [] \<and> rest = f @ post \<and>
     serve_page_of cd fs project (sr_id e) now (cursor_for (sr_id e) pre) sv =
       (Some (the_page pre f post (sr_id e)), sv') \<and> page_ready cd frame fs project e now sv'"
proof -
  obtain c cs where c: "rest = c # cs" using rest(2) by (cases rest) auto
  let ?g = "get_result (sr_id e) (sr_project_root e) now (srv_results sv)"
  let ?sv = "sv \<lparr> srv_results := snd ?g \<rparr>"
  have held: "fst ?g = Some (sr_json e)" "retains e now (snd ?g)"
    using stored.read_held [OF _ time] ready by (simp_all add: page_ready_def)
  obtain k where "validate_response_limit cd (srv_max_mcp_response_bytes sv) (srv_result_serialization_limit sv) k = Inr ()"
    using ready by (auto simp: page_ready_def)
  then have fits: "page_frame frame (skeleton (sr_json e) (str_len pre) (sr_id e)) + response_cost c \<le>
      srv_max_mcp_response_bytes sv"
    using ready rest c by (intro validated_limit [of cd]) (auto simp: page_ready_def)
  have exact: "exact_cost cd frame" "frame_bounded frame" using ready by (simp_all add: page_ready_def)
  from fit_page_exact [OF exact _ fits] obtain f post where f: "rest = f @ post" "f \<noteq> []"
    "fit_page cd (sr_json e) (str_len pre) (sr_id e) (srv_max_mcp_response_bytes sv) =
       Some (Inr (the_page pre f post (sr_id e)))"
    using rest(1) c by metis
  have "is_char_boundary (sr_json e) (str_len pre)" using rest(1) by (auto simp: is_char_boundary_iff)
  then have offset: "page_offset (sr_id e) (cursor_for (sr_id e) pre) (sr_json e) = Some (str_len pre)"
    using ready rest by (auto simp: page_offset_def cursor_for_def decode_encode_cursor page_ready_def)
  have "serve_page_of cd fs project (sr_id e) now (cursor_for (sr_id e) pre) sv =
      (Some (the_page pre f post (sr_id e)), ?sv)"
    using ready held(1) offset f(3)
    by (cases ?g) (simp add: serve_page_of_def read_tool_result_page_def page_ready_def lock_results_def Let_def)
  moreover have "page_ready cd frame fs project e now ?sv"
    using ready held(2) by (simp add: page_ready_def)
  ultimately show ?thesis using f by blast
qed

interpretation paged: page_protocol
  "serve_page_of cd fs project (sr_id e)" "page_ready cd frame fs project e"
  "sr_json e" "sr_id e" "sr_stored_at e + STORED_RESULT_TTL"
  by unfold_locales (rule serve_page_of_ready)

section \<open>Properties\<close>

text \<open>
  A page that is returned is sound whatever the serializer does: its fragment is a
  nonempty run of whole characters that starts at the requested offset, its cursor, completeness
  flag and sizes describe exactly that cut, and its complete serialized result is within the limit.
\<close>

lemma page_sound:
  assumes "fit_page cd json offset rid limit = Some (Inr p)"
  shows "\<exists>pre f post n. json = pre @ f @ post \<and> str_len pre = offset \<and> f \<noteq> [] \<and>
     p = the_page pre f post rid \<and> page_response_len cd p = Inr n \<and> n \<le> limit"
proof -
  from assms obtain rest where "bytes_from offset json = Some rest"
    by (auto simp: fit_page_def split: sum.splits option.splits)
  then obtain pre where pre: "json = pre @ rest" "str_len pre = offset" by (auto simp: bytes_from_Some)
  from fit_page_returns [OF pre(1), of cd rid limit] show ?thesis
    using assms pre by (metis option.inject)
qed

text \<open>
  Fitting a page neither panics nor loops: for every character boundary of the text it
  returns a page or \<open>LimitTooSmall\<close>, whatever the serializer does.
\<close>

lemma fit_page_total:
  assumes "is_char_boundary json offset"
  shows "\<exists>r. fit_page cd json offset rid limit = Some r"
proof -
  from assms obtain pre rest where "json = pre @ rest" "str_len pre = offset"
    by (auto simp: is_char_boundary_iff)
  with fit_page_returns [of json pre rest cd rid limit] show ?thesis by metis
qed

text \<open>
  When the serializer escapes as documented and the response limit passed the startup
  validation, every page request for a stored text without raw control characters succeeds, and
  the page is the longest whose characters fit the limit beside the skeleton: it ends the text or
  the next character would not fit.
\<close>

lemma validated_page_progress:
  fixes key n :: "64 word"
  assumes "exact_cost cd frame" "frame_bounded frame"
    and "validate_response_limit cd limit max_result k = Inr ()"
    and "str_len json \<le> max_result" "\<forall>c \<in> set json. 32 \<le> c"
    and "json = pre @ rest" "rest \<noteq> []"
  defines "rid \<equiv> format_id key n"
  shows "\<exists>f post. rest = f @ post \<and> f \<noteq> [] \<and>
    fit_page cd json (str_len pre) rid limit = Some (Inr (the_page pre f post rid)) \<and>
    (post = [] \<or> limit < page_frame frame (skeleton json (str_len pre) rid) + cost_of (f @ [hd post]))"
proof -
  obtain c cs where c: "rest = c # cs" using assms(7) by (cases rest) auto
  have "page_frame frame (skeleton json (str_len pre) rid) + response_cost c \<le> limit"
    using assms c cost_of_format_id by (intro validated_limit [of cd frame limit max_result k]) auto
  from fit_page_exact [OF assms(1,2) _ this] obtain f post where
    "rest = f @ post" "f \<noteq> []" "fit_page cd json (str_len pre) rid limit = Some (Inr (the_page pre f post rid))"
    "post \<noteq> [] \<Longrightarrow> limit < page_frame frame (skeleton json (str_len pre) rid) + cost_of f + response_cost (hd post)"
    using assms(6) c by metis
  then show ?thesis by (auto simp: add.assoc)
qed

text \<open>
  Cursors: a cursor decodes to an offset exactly when it is the canonical encoding,
  for this identifier, of a character boundary before the end of the text.
\<close>

lemma cursor_roundtrip:
  assumes "str_len json \<le> usize_max"
  shows "decode_cursor rid cursor json = Some n \<longleftrightarrow>
     cursor = encode_cursor rid n \<and> n < str_len json \<and> is_char_boundary json n"
  using decode_cursor_SomeD decode_encode_cursor [OF assms] by fastforce

text \<open>
  The counting writer decides the size limit exactly: the serialized length is returned
  when it is within the limit, a larger value is reported as too large even when its
  serialization would fail later, and any other failure is a serialization error.
\<close>

lemma serialized_len_exact:
  assumes "limit < usize_max"
  shows "serialized_len_within value limit =
    (if limit < sum_list (ser_writes value) then Inr None
     else case ser_error value of
            None \<Rightarrow> Inr (Some (sum_list (ser_writes value)))
          | Some e \<Rightarrow> Inl (serialization_error e))"
  by (rule serialized_len_within_eq [OF assms])

text \<open>
  Claim C3.  End to end: when \<open>bound_response\<close> replaces an oversized result by a marker, a client
  that calls \<open>read_tool_result_page\<close> with the identifier of the marker, first without a cursor and
  then with each returned cursor, before the time to live is over and with no store operation of
  others in between, gets fragments that concatenate to the structured JSON text of the original
  result; it needs at most as many calls as the text has characters.
\<close>

theorem deferred_result_read_back:
  assumes "exact_cost cd frame" "frame_bounded frame"
    and "validate_response_limit cd (srv_max_mcp_response_bytes sv) (srv_result_serialization_limit sv) k = Inr ()"
    and "store_run b key tr t (srv_results sv)" "t \<le> now" "inserts tr < 2 ^ 64"
    and "b \<le> srv_result_serialization_limit sv"
    and "\<not> srv_results_poisoned sv" "tool \<noteq> READ_PAGE_TOOL"
    and "fits_response cd result (srv_max_mcp_response_bytes sv) = Inr False"
    and "cd_structured_content cd result = Some structured"
    and "cd_text cd structured \<noteq> []" "\<forall>c \<in> set (cd_text cd structured). 32 \<le> c"
    and "bound_response cd fs now tool (Some project) (Complete result) sv = Some (Inr r, sv')"
    and "sorted (now # ts)" "\<forall>u \<in> set ts. u < now + STORED_RESULT_TTL"
    and "length (cd_text cd structured) \<le> length ts"
  shows "\<exists>rid m. r = Complete m \<and>
     structured_result (cd_structured cd)
       (cd_marker cd (deferred_marker tool rid (str_len (cd_text cd structured)))) usize_max = Inr m \<and>
     read_all (serve_page_of cd fs project rid) ts None sv' = Some (cd_text cd structured)"
proof -
  let ?json = "cd_text cd structured"
  obtain root where root: "trusted_project_root fs (srv_trusted_project_directories sv) project = Inr root"
    and deferred: "defer_result cd now tool root ?json sv = Some (Inr r, sv')"
    using assms(9-11,14) by (auto simp: bound_response_def split: sum.splits)
  from deferred obtain rid s' m where ins: "insert_result root ?json now (srv_results sv) = Some (Inr rid, s')"
    and sv': "sv' = sv \<lparr> srv_results := s' \<rparr>" and m: "r = Complete m"
      "structured_result (cd_structured cd) (cd_marker cd (deferred_marker tool rid (str_len ?json))) usize_max = Inr m"
    using assms(8) by (auto simp: defer_result_def lock_results_def split: option.splits sum.splits)
  let ?e = "new_result rid root ?json now"
  note kept = insert_retains [OF assms(4,5) ins assms(6)]
  have "b < usize_max" using store_run_refines [OF assms(4)] by (auto simp: refines_def store_ok_def)
  with kept(2) have "str_len ?json \<le> b" "b < usize_max" by (simp_all add: retained_size_def)
  then have "page_ready cd frame fs project ?e now sv'"
    using assms kept root sv' cost_of_format_id by (auto simp: page_ready_def)
  from paged.read_all_text [OF this assms(15)] have
    "read_all (serve_page_of cd fs project rid) ts None sv' = Some ?json"
    using assms(12,16,17) by simp
  with m show ?thesis by blast
qed

section \<open>Evaluation with a concrete serializer\<close>

datatype demo_value = DPage ToolResultPage | DMarker DeferredResult | DText str

definition demo_frame :: frame where
  "demo_frame off cur complete n =
     2 * length (fmt_dec off) + (case cur of None \<Rightarrow> 8 | Some c \<Rightarrow> 6 + cost_of c) +
     (if complete then 8 else 10) + 2 * length (fmt_dec n) + 20"

fun demo_bytes :: "demo_value \<Rightarrow> nat" where
  "demo_bytes (DPage p) =
     demo_frame (pg_offset p) (pg_next_cursor p) (pg_complete p) (pg_total_bytes p) + cost_of (pg_fragment p)"
| "demo_bytes (DMarker m) = 100 + length (dr_tool m)"
| "demo_bytes (DText t) = 100 + 2 * str_len t"

definition demo_serialized :: "demo_value \<Rightarrow> demo_value serialized" where
  "demo_serialized v = \<lparr> ser_writes = [demo_bytes v], ser_error = None, ser_value = Inr v \<rparr>"

definition demo_codec :: "(demo_value, demo_value) codec" where
  "demo_codec =
     \<lparr> cd_page = (\<lambda>p. demo_serialized (DPage p)), cd_marker = (\<lambda>m. demo_serialized (DMarker m)),
       cd_structured = (\<lambda>v. v), cd_result = demo_serialized, cd_result_bytes = (\<lambda>v. Some (demo_bytes v)),
       cd_structured_content = Some, cd_text = (\<lambda>v. case v of DText t \<Rightarrow> t | _ \<Rightarrow> []) \<rparr>"

lemma demo_exact_cost: "exact_cost demo_codec demo_frame"
  by (simp add: exact_cost_def demo_codec_def demo_serialized_def)

lemma response_cost_ge: "2 \<le> response_cost c"
  by (auto simp: response_cost_def utf8_len_def)

lemma demo_frame_bounded: "frame_bounded demo_frame"
  unfolding frame_bounded_def
proof (intro allI impI)
  fix off off' n n' :: nat and c c' :: str and complete
  assume a: "off \<le> off' \<and> n \<le> n' \<and> c \<noteq> [] \<and> cost_of c \<le> cost_of c'"
  then obtain d ds where "c = d # ds" by (cases c) auto
  then have "2 \<le> cost_of c'" using a response_cost_ge [of d] by simp
  then show "demo_frame off (Some c) complete n \<le> demo_frame off' (Some c') False n' \<and>
        demo_frame off None complete n \<le> demo_frame off' (Some c') False n'"
    using a length_fmt_dec_mono [of off off'] length_fmt_dec_mono [of n n']
    by (simp add: demo_frame_def)
qed

definition demo_fs :: filesystem where
  "demo_fs = \<lparr> fs_canonicalize = (\<lambda>p. Some (tl (split_on 47 p))), fs_is_dir = (\<lambda>_. True), fs_is_file = (\<lambda>_. True) \<rparr>"

definition demo_server :: server where
  "demo_server =
     \<lparr> srv_results = with_process_key 1000 7, srv_results_poisoned = False,
       srv_max_mcp_response_bytes = 150, srv_result_serialization_limit = 1000,
       srv_trusted_project_directories = [[lit ''w'']] \<rparr>"

definition demo_text :: str where
  "demo_text = replicate 30 97"

lemma demo_widest_bytes: "demo_bytes (DPage (widest_page 1000)) = 136"
proof -
  have "length (fmt_dec 1000) = 4" "response_cost WIDEST_FRAGMENT_CHARACTER = 8"
    "response_cost (of_char (CHR ''.'')) = 2"
    by code_simp+
  then show ?thesis
    by (simp add: demo_frame_def widest_page_def encode_cursor_def cost_of_fmt_dec cost_of_longest_id)
qed

lemma demo_validated: "validate_response_limit demo_codec 150 1000 12 = Inr ()"
  by (simp add: validate_response_limit_def serialized_response_len_def demo_codec_def
      demo_serialized_def demo_widest_bytes deferred_marker_def del: demo_bytes.simps(1))

definition demo_deferred :: "demo_value CallToolResponse \<times> server" where
  "demo_deferred =
     (case bound_response demo_codec demo_fs 5 (lit ''search'') (Some (lit ''/w/a'')) (Complete (DText demo_text)) demo_server of
        Some (Inr r, sv) \<Rightarrow> (r, sv) | _ \<Rightarrow> (OtherResponse, demo_server))"

theorem deferred_result_read_back_witness:
  "\<exists>rid. read_all (serve_page_of demo_codec demo_fs (lit ''/w/a'') rid) (replicate 30 6) None (snd demo_deferred) =
     Some demo_text"
proof -
  have run: "store_run 1000 7 [] 0 (srv_results demo_server)"
    unfolding demo_server_def by (simp add: store_run.start usize_max_def)
  have bound: "bound_response demo_codec demo_fs 5 (lit ''search'') (Some (lit ''/w/a'')) (Complete (DText demo_text)) demo_server =
      Some (Inr (fst demo_deferred), snd demo_deferred)"
    by code_simp
  have valid: "validate_response_limit demo_codec (srv_max_mcp_response_bytes demo_server)
      (srv_result_serialization_limit demo_server) 12 = Inr ()"
    using demo_validated by (simp add: demo_server_def)
  have limits: "lit ''search'' \<noteq> READ_PAGE_TOOL"
    "fits_response demo_codec (DText demo_text) (srv_max_mcp_response_bytes demo_server) = Inr False"
    by code_simp+
  have val: "cd_structured_content demo_codec (DText demo_text) = Some (DText demo_text)"
    "cd_text demo_codec (DText demo_text) = demo_text" by (simp_all add: demo_codec_def)
  note read_back = deferred_result_read_back [OF demo_exact_cost demo_frame_bounded valid run _ _ _ _
      limits(1,2) val(1) _ _ bound, where ts = "replicate 30 6"]
  show ?thesis
    using read_back unfolding val(2)
    by (simp add: demo_server_def demo_text_def STORED_RESULT_TTL_def) blast
qed

end
