(* ===== verification/Project_Cache.thy ===== *)
theory Project_Cache
  imports Prelude
begin

text \<open>
  The per-project cache of runners and scoped indexes (\<open>src/project_cache.rs\<close>): file fingerprints,
  generations, single-flight builds, reservations, least-recently-used eviction and the byte
  budget.

  Shared objects (\<open>Arc\<close>) are identified by numbers.  Who else holds them is not the cache's to
  decide: a record \<open>world\<close> says at the time of a call which indexes, runners, reservations and
  build cells are held outside the cache, which build owners are locked, what the clock says and
  how large the test results of a runner are.  Weak references upgrade when the world or the
  cache itself still holds the object.  The hash map of projects is an association list whose
  order is the iteration order; the invariant makes its keys distinct, and the victim of an eviction does
  not depend on that order.  Byte counts and the generation and tick counters are unbounded
  numbers: they count memory in use and single steps of the process, far below the 64 bits of the
  code.
\<close>

section \<open>Fingerprints\<close>

record FileStamp =
  stamp_len :: nat
  stamp_modified_ns :: nat

type_synonym ProjectFingerprint = "(path \<times> FileStamp option) list"

text \<open>\<open>stamp\<close> is the file metadata as the code reads it: size and modification time of a path, or
  nothing when the metadata cannot be read.\<close>

definition capture :: "(path \<Rightarrow> FileStamp option) \<Rightarrow> path list \<Rightarrow> ProjectFingerprint" where
  "capture stamp paths = fold (\<lambda>p m. bt_insert p (stamp p) m) paths []"

definition fp_is_current :: "(path \<Rightarrow> FileStamp option) \<Rightarrow> ProjectFingerprint \<Rightarrow> bool" where
  "fp_is_current stamp fp \<longleftrightarrow> list_all (\<lambda>(p, recorded). stamp p = recorded) fp"

definition SETTLED_AGE :: nat where
  "SETTLED_AGE = 2 * 1000000000"

definition was_settled_at :: "nat \<Rightarrow> nat \<Rightarrow> bool" where
  "was_settled_at modified_ns moment \<longleftrightarrow>
     (case checked_sub moment SETTLED_AGE of None \<Rightarrow> False | Some threshold \<Rightarrow> modified_ns \<le> threshold)"

definition fp_was_settled_at :: "ProjectFingerprint \<Rightarrow> nat \<Rightarrow> bool" where
  "fp_was_settled_at fp moment \<longleftrightarrow>
     list_all (\<lambda>(_, s). case s of None \<Rightarrow> True | Some s \<Rightarrow> was_settled_at (stamp_modified_ns s) moment) fp"

definition file_bytes :: "ProjectFingerprint \<Rightarrow> nat" where
  "file_bytes fp = sum_list (map (\<lambda>(_, s). case s of None \<Rightarrow> 0 | Some s \<Rightarrow> stamp_len s) fp)"

definition PATH_ENTRY_OVERHEAD_BYTES :: nat where
  "PATH_ENTRY_OVERHEAD_BYTES = 96"

definition RUNNER_BASE_BYTES :: nat where
  "RUNNER_BASE_BYTES = 16 * 1024"

definition fp_estimated_bytes :: "ProjectFingerprint \<Rightarrow> nat" where
  "fp_estimated_bytes fp = sum_list (map (\<lambda>(p, _). path_len p + PATH_ENTRY_OVERHEAD_BYTES) fp)"

section \<open>State\<close>

record world =
  wd_index_held :: "nat \<Rightarrow> bool"
  wd_runner_held :: "nat \<Rightarrow> bool"
  wd_reservation_held :: "nat \<Rightarrow> bool"
  wd_cell_held :: "nat \<Rightarrow> bool"
  wd_owner_locked :: "nat \<Rightarrow> bool"
  wd_test_result_bytes :: "nat \<Rightarrow> nat"
  wd_index_bytes :: "nat \<Rightarrow> nat"
  wd_unix_ms :: nat

record CacheLimits =
  cl_max_indexes :: nat
  cl_max_runners :: nat
  cl_max_bytes :: nat

record RunnerSnapshot =
  sn_runner :: nat
  sn_fingerprint :: ProjectFingerprint
  sn_revalidate :: bool

record CachedIndex =
  ci_index :: nat
  ci_project :: ProjectFingerprint
  ci_artifacts :: ProjectFingerprint
  ci_bytes :: nat
  ci_classpath_entries :: nat
  ci_build_duration :: nat

record FinishedBuild =
  fb_artifacts :: ProjectFingerprint
  fb_classpath_entries :: nat
  fb_duration :: nat

datatype IndexLookup =
    Cached CachedIndex nat
  | Build nat nat nat

datatype ReserveError = ReserveStale | OverBudget nat nat

datatype Publication = PubStale | PubRetained | PubUncached

record RunnerEntry =
  re_runner :: nat
  re_fingerprint :: ProjectFingerprint
  re_revalidate :: bool

record ReleasedRunner =
  rr_runner :: nat
  rr_fingerprint_bytes :: nat

record InFlight =
  if_generation :: nat
  if_cell :: nat
  if_owner :: nat

record ProjectState =
  ps_generation :: nat
  ps_runner :: "RunnerEntry option"
  ps_index :: "CachedIndex option"
  ps_in_flight :: "InFlight option"
  ps_full_rebuild :: bool
  ps_last_used_tick :: nat
  ps_last_used_unix_ms :: nat

record PersistedCounters =
  pr_classpath_hits :: nat
  pr_record_hits :: nat
  pr_record_misses :: nat

record ProjectCache =
  pc_limits :: CacheLimits
  pc_states :: "(path \<times> ProjectState) list"
  pc_released :: "(nat \<times> nat) list"
  pc_released_runners :: "ReleasedRunner list"
  pc_reservations :: "(nat \<times> nat) list"
  pc_next_generation :: nat
  pc_tick :: nat
  pc_hits :: nat
  pc_misses :: nat
  pc_evictions :: nat
  pc_invalidations :: nat
  pc_persisted :: PersistedCounters

definition new_cache :: "CacheLimits \<Rightarrow> ProjectCache" where
  "new_cache limits =
     \<lparr> pc_limits = limits, pc_states = [], pc_released = [], pc_released_runners = [],
       pc_reservations = [], pc_next_generation = 0, pc_tick = 0, pc_hits = 0, pc_misses = 0,
       pc_evictions = 0, pc_invalidations = 0,
       pc_persisted = \<lparr> pr_classpath_hits = 0, pr_record_hits = 0, pr_record_misses = 0 \<rparr> \<rparr>"

definition new_state :: "world \<Rightarrow> nat \<Rightarrow> ProjectState" where
  "new_state w generation =
     \<lparr> ps_generation = generation, ps_runner = None, ps_index = None, ps_in_flight = None,
       ps_full_rebuild = False, ps_last_used_tick = 0, ps_last_used_unix_ms = wd_unix_ms w \<rparr>"

text \<open>\<open>HashMap::get\<close>, \<open>get_mut\<close> with an update, and \<open>entry().or_insert_with()\<close>.\<close>

definition state_of :: "ProjectCache \<Rightarrow> path \<Rightarrow> ProjectState option" where
  "state_of c root = map_of (pc_states c) root"

definition upd_states :: "(path \<Rightarrow> ProjectState \<Rightarrow> ProjectState) \<Rightarrow> ProjectCache \<Rightarrow> ProjectCache" where
  "upd_states f c = c \<lparr> pc_states := map (\<lambda>(k, s). (k, f k s)) (pc_states c) \<rparr>"

definition upd_state :: "path \<Rightarrow> (ProjectState \<Rightarrow> ProjectState) \<Rightarrow> ProjectCache \<Rightarrow> ProjectCache" where
  "upd_state root f c = upd_states (\<lambda>k s. if k = root then f s else s) c"

definition or_insert :: "path \<Rightarrow> ProjectState \<Rightarrow> ProjectCache \<Rightarrow> ProjectCache" where
  "or_insert root s c =
     (if state_of c root = None then c \<lparr> pc_states := pc_states c @ [(root, s)] \<rparr> else c)"

definition next_tick :: "ProjectCache \<Rightarrow> nat \<times> ProjectCache" where
  "next_tick c = (pc_tick c + 1, c \<lparr> pc_tick := pc_tick c + 1 \<rparr>)"

definition fresh_generation :: "ProjectCache \<Rightarrow> nat \<times> ProjectCache" where
  "fresh_generation c =
     (pc_next_generation c + 1, c \<lparr> pc_next_generation := pc_next_generation c + 1 \<rparr>)"

section \<open>Memory accounting\<close>

definition in_flight_is_live :: "world \<Rightarrow> InFlight \<Rightarrow> bool" where
  "in_flight_is_live w f \<longleftrightarrow> wd_cell_held w (if_cell f) \<or> wd_owner_locked w (if_owner f)"

definition has_live_build :: "world \<Rightarrow> ProjectState \<Rightarrow> bool" where
  "has_live_build w s \<longleftrightarrow> (case ps_in_flight s of None \<Rightarrow> False | Some f \<Rightarrow> in_flight_is_live w f)"

definition runner_bytes :: "world \<Rightarrow> nat \<Rightarrow> ProjectFingerprint \<Rightarrow> nat" where
  "runner_bytes w runner fp = RUNNER_BASE_BYTES + fp_estimated_bytes fp + wd_test_result_bytes w runner"

definition entry_bytes :: "world \<Rightarrow> RunnerEntry \<Rightarrow> nat" where
  "entry_bytes w e = runner_bytes w (re_runner e) (re_fingerprint e)"

definition release_runner :: "RunnerEntry \<Rightarrow> ReleasedRunner" where
  "release_runner e =
     \<lparr> rr_runner = re_runner e, rr_fingerprint_bytes = fp_estimated_bytes (re_fingerprint e) \<rparr>"

text \<open>Strong counts of the weak references the cache keeps: the world or a cached entry holds the object.\<close>

definition index_strong :: "world \<Rightarrow> ProjectCache \<Rightarrow> nat \<Rightarrow> bool" where
  "index_strong w c i \<longleftrightarrow> wd_index_held w i \<or>
     list_ex (\<lambda>(_, s). case ps_index s of None \<Rightarrow> False | Some e \<Rightarrow> ci_index e = i) (pc_states c)"

definition runner_strong :: "world \<Rightarrow> ProjectCache \<Rightarrow> nat \<Rightarrow> bool" where
  "runner_strong w c r \<longleftrightarrow> wd_runner_held w r \<or>
     list_ex (\<lambda>(_, s). case ps_runner s of None \<Rightarrow> False | Some e \<Rightarrow> re_runner e = r) (pc_states c)"

definition released_runner_bytes :: "world \<Rightarrow> ProjectCache \<Rightarrow> ReleasedRunner \<Rightarrow> nat" where
  "released_runner_bytes w c r =
     (if runner_strong w c (rr_runner r)
      then RUNNER_BASE_BYTES + rr_fingerprint_bytes r + wd_test_result_bytes w (rr_runner r) else 0)"

definition state_bytes :: "world \<Rightarrow> ProjectState \<Rightarrow> nat" where
  "state_bytes w s =
     (case ps_runner s of None \<Rightarrow> 0 | Some e \<Rightarrow> entry_bytes w e) +
     (case ps_index s of None \<Rightarrow> 0 | Some e \<Rightarrow> ci_bytes e)"

definition retained_bytes :: "world \<Rightarrow> ProjectCache \<Rightarrow> nat" where
  "retained_bytes w c =
     sum_list (map (\<lambda>(_, s). state_bytes w s) (pc_states c)) +
     sum_list (map snd (filter (\<lambda>(i, _). index_strong w c i) (pc_released c))) +
     sum_list (map (released_runner_bytes w c) (pc_released_runners c)) +
     sum_list (map snd (filter (\<lambda>(r, _). wd_reservation_held w r) (pc_reservations c)))"

section \<open>Pruning, release and eviction\<close>

definition prune :: "world \<Rightarrow> ProjectCache \<Rightarrow> ProjectCache" where
  "prune w c =
     (let c = c \<lparr> pc_released := filter (\<lambda>(i, _). index_strong w c i) (pc_released c),
                  pc_released_runners := filter (\<lambda>r. runner_strong w c (rr_runner r)) (pc_released_runners c) \<rparr>;
          c = upd_states (\<lambda>_ s. case ps_in_flight s of None \<Rightarrow> s
                | Some f \<Rightarrow> if \<not> in_flight_is_live w f then s \<lparr> ps_in_flight := None \<rparr> else s) c
      in c \<lparr> pc_reservations := filter (\<lambda>(r, _). wd_reservation_held w r) (pc_reservations c) \<rparr>)"

definition release_index :: "world \<Rightarrow> path \<Rightarrow> ProjectCache \<Rightarrow> ProjectCache" where
  "release_index w root c =
     (case state_of c root of
        None \<Rightarrow> c
      | Some s \<Rightarrow>
          (case ps_index s of
             None \<Rightarrow> c
           | Some entry \<Rightarrow>
               prune w (upd_state root (\<lambda>s. s \<lparr> ps_index := None \<rparr>) c
                        \<lparr> pc_released := pc_released c @ [(ci_index entry, ci_bytes entry)] \<rparr>)))"

definition invalidate :: "world \<Rightarrow> path \<Rightarrow> ProjectCache \<Rightarrow> ProjectCache" where
  "invalidate w root c =
     (let (generation, c) = fresh_generation c
      in case state_of c root of
           None \<Rightarrow> c
         | Some _ \<Rightarrow>
             release_index w root
               (upd_state root (\<lambda>s. s \<lparr> ps_generation := generation, ps_in_flight := None \<rparr>) c
                \<lparr> pc_invalidations := pc_invalidations c + 1 \<rparr>))"

text \<open>\<open>min_by_key\<close> on the last use: the first of the least in iteration order.\<close>

fun min_by_tick :: "(path \<times> ProjectState) list \<Rightarrow> (path \<times> ProjectState) option" where
  "min_by_tick [] = None"
| "min_by_tick (x # xs) =
     (case min_by_tick xs of
        None \<Rightarrow> Some x
      | Some y \<Rightarrow> if ps_last_used_tick (snd x) \<le> ps_last_used_tick (snd y) then Some x else Some y)"

definition index_victim :: "path option \<Rightarrow> ProjectCache \<Rightarrow> path option" where
  "index_victim protect c =
     map_option fst (min_by_tick (filter (\<lambda>(root, s). ps_index s \<noteq> None \<and> protect \<noteq> Some root) (pc_states c)))"

definition runner_victim :: "world \<Rightarrow> path option \<Rightarrow> ProjectCache \<Rightarrow> path option" where
  "runner_victim w protect c =
     map_option fst (min_by_tick (filter
       (\<lambda>(root, s). ps_runner s \<noteq> None \<and> \<not> has_live_build w s \<and> protect \<noteq> Some root) (pc_states c)))"

definition evict_least_recently_used_index ::
    "world \<Rightarrow> path option \<Rightarrow> ProjectCache \<Rightarrow> bool \<times> ProjectCache" where
  "evict_least_recently_used_index w protect c =
     (case index_victim protect c of
        None \<Rightarrow> (False, c)
      | Some victim \<Rightarrow>
          let c = release_index w victim c
          in (True, c \<lparr> pc_evictions := pc_evictions c + 1 \<rparr>))"

definition evict_least_recently_used_runner ::
    "world \<Rightarrow> path option \<Rightarrow> ProjectCache \<Rightarrow> bool \<times> ProjectCache" where
  "evict_least_recently_used_runner w protect c =
     (case runner_victim w protect c of
        None \<Rightarrow> (False, c)
      | Some victim \<Rightarrow>
          (True,
           case state_of c victim of
             None \<Rightarrow> c
           | Some s \<Rightarrow>
               (case ps_runner s of
                  None \<Rightarrow> c
                | Some runner \<Rightarrow>
                    upd_state victim (\<lambda>s. s \<lparr> ps_runner := None \<rparr>) c
                    \<lparr> pc_released_runners := pc_released_runners c @ [release_runner runner] \<rparr>)))"

text \<open>\<open>evict_index || evict_runner\<close>, as the two budget loops use it.\<close>

definition evict_any ::
    "world \<Rightarrow> path option \<Rightarrow> path option \<Rightarrow> ProjectCache \<Rightarrow> bool \<times> ProjectCache" where
  "evict_any w protect_index protect_runner c =
     (case evict_least_recently_used_index w protect_index c of
        (True, c) \<Rightarrow> (True, c)
      | (False, c) \<Rightarrow> evict_least_recently_used_runner w protect_runner c)"

definition index_count :: "ProjectCache \<Rightarrow> nat" where
  "index_count c = length (filter (\<lambda>s. ps_index s \<noteq> None) (map snd (pc_states c)))"

definition runner_count :: "ProjectCache \<Rightarrow> nat" where
  "runner_count c = length (filter (\<lambda>s. ps_runner s \<noteq> None) (map snd (pc_states c)))"

section \<open>The eviction loops\<close>

text \<open>
  Each iteration takes an index or a runner out of the cache, so the number of both bounds the
  iterations; the loops carry that number as fuel.  The lemmas below show that a loop never stops
  for lack of it.
\<close>

fun evict_while ::
    "nat \<Rightarrow> (ProjectCache \<Rightarrow> bool) \<Rightarrow> (ProjectCache \<Rightarrow> bool \<times> ProjectCache) \<Rightarrow> ProjectCache \<Rightarrow> ProjectCache" where
  "evict_while 0 over evict c = c"
| "evict_while (Suc n) over evict c =
     (if over c
      then (case evict c of (False, c) \<Rightarrow> c | (True, c) \<Rightarrow> evict_while n over evict c)
      else c)"

definition loop_fuel :: "ProjectCache \<Rightarrow> nat" where
  "loop_fuel c = Suc (index_count c + runner_count c)"

definition too_many_indexes :: "ProjectCache \<Rightarrow> bool" where
  "too_many_indexes c \<longleftrightarrow> cl_max_indexes (pc_limits c) < index_count c"

definition too_many_runners :: "ProjectCache \<Rightarrow> bool" where
  "too_many_runners c \<longleftrightarrow> cl_max_runners (pc_limits c) < runner_count c"

definition over_budget :: "world \<Rightarrow> nat \<Rightarrow> ProjectCache \<Rightarrow> bool" where
  "over_budget w bytes c \<longleftrightarrow> cl_max_bytes (pc_limits c) < retained_bytes w c + bytes"

definition retain_states :: "world \<Rightarrow> ProjectCache \<Rightarrow> ProjectCache" where
  "retain_states w c =
     c \<lparr> pc_states := filter (\<lambda>(_, s). ps_runner s \<noteq> None \<or> ps_index s \<noteq> None \<or> has_live_build w s)
           (pc_states c) \<rparr>"

definition enforce :: "world \<Rightarrow> path option \<Rightarrow> ProjectCache \<Rightarrow> ProjectCache" where
  "enforce w protect c =
     (let c = prune w c;
          c = evict_while (loop_fuel c) too_many_indexes (evict_least_recently_used_index w protect) c;
          c = evict_while (loop_fuel c) (over_budget w 0) (evict_any w protect protect) c;
          c = evict_while (loop_fuel c) too_many_runners (evict_least_recently_used_runner w protect) c
      in retain_states w c)"

section \<open>Operations\<close>

definition record_persisted_use :: "bool \<Rightarrow> nat \<Rightarrow> nat \<Rightarrow> ProjectCache \<Rightarrow> ProjectCache" where
  "record_persisted_use classpath_hit record_hits record_misses c =
     c \<lparr> pc_persisted :=
           \<lparr> pr_classpath_hits = pr_classpath_hits (pc_persisted c) + (if classpath_hit then 1 else 0),
             pr_record_hits = pr_record_hits (pc_persisted c) + record_hits,
             pr_record_misses = pr_record_misses (pc_persisted c) + record_misses \<rparr> \<rparr>"

definition touch :: "world \<Rightarrow> nat \<Rightarrow> ProjectState \<Rightarrow> ProjectState" where
  "touch w tick s = s \<lparr> ps_last_used_tick := tick, ps_last_used_unix_ms := wd_unix_ms w \<rparr>"

definition runner_for :: "world \<Rightarrow> path \<Rightarrow> ProjectCache \<Rightarrow> RunnerSnapshot option \<times> ProjectCache" where
  "runner_for w root c =
     (let (tick, c) = next_tick c
      in case state_of c root of
           None \<Rightarrow> (None, c)
         | Some s \<Rightarrow>
             (map_option (\<lambda>e. \<lparr> sn_runner = re_runner e, sn_fingerprint = re_fingerprint e,
                                sn_revalidate = re_revalidate e \<rparr>) (ps_runner s),
              upd_state root (touch w tick) c))"

definition install_runner ::
    "world \<Rightarrow> path \<Rightarrow> nat \<Rightarrow> ProjectFingerprint \<Rightarrow> ProjectCache \<Rightarrow> RunnerSnapshot \<times> ProjectCache" where
  "install_runner w root runner fingerprint c =
     (let changed = (case state_of c root of None \<Rightarrow> False
            | Some s \<Rightarrow> (case ps_runner s of None \<Rightarrow> False | Some e \<Rightarrow> re_fingerprint e \<noteq> fingerprint));
          c = (if changed then invalidate w root c else c);
          (tick, c) = next_tick c;
          (generation, c) = fresh_generation c;
          c = or_insert root (new_state w generation) c;
          replaced = (case state_of c root of None \<Rightarrow> None | Some s \<Rightarrow> ps_runner s);
          c = upd_state root (\<lambda>s. touch w tick (s \<lparr> ps_runner :=
                Some \<lparr> re_runner = runner, re_fingerprint = fingerprint, re_revalidate = False \<rparr> \<rparr>)) c;
          c = (case replaced of None \<Rightarrow> c
               | Some e \<Rightarrow> c \<lparr> pc_released_runners := pc_released_runners c @ [release_runner e] \<rparr>)
      in (\<lparr> sn_runner = runner, sn_fingerprint = fingerprint, sn_revalidate = False \<rparr>,
          enforce w (Some root) c))"

definition discard_project :: "world \<Rightarrow> path \<Rightarrow> ProjectCache \<Rightarrow> ProjectCache" where
  "discard_project w root c =
     (let c = invalidate w root c;
          c = (case state_of c root of
                 None \<Rightarrow> c
               | Some s \<Rightarrow>
                   (case ps_runner s of
                      None \<Rightarrow> c
                    | Some e \<Rightarrow>
                        upd_state root (\<lambda>s. s \<lparr> ps_runner := None \<rparr>) c
                        \<lparr> pc_released_runners := pc_released_runners c @ [release_runner e] \<rparr>))
      in enforce w None c)"

definition invalidate_after_maven :: "world \<Rightarrow> path \<Rightarrow> ProjectCache \<Rightarrow> ProjectCache" where
  "invalidate_after_maven w root c =
     upd_state root (\<lambda>s. s \<lparr> ps_runner := map_option (\<lambda>e. e \<lparr> re_revalidate := True \<rparr>) (ps_runner s) \<rparr>)
       (invalidate w root c)"

definition require_full_rebuild :: "world \<Rightarrow> path \<Rightarrow> ProjectCache \<Rightarrow> ProjectCache" where
  "require_full_rebuild w root c =
     (let (generation, c) = fresh_generation c
      in upd_state root (\<lambda>s. s \<lparr> ps_full_rebuild := True \<rparr>) (or_insert root (new_state w generation) c))"

definition requires_full_rebuild :: "path \<Rightarrow> ProjectCache \<Rightarrow> bool" where
  "requires_full_rebuild root c \<longleftrightarrow>
     (case state_of c root of None \<Rightarrow> False | Some s \<Rightarrow> ps_full_rebuild s)"

definition is_current :: "path \<Rightarrow> nat \<Rightarrow> ProjectCache \<Rightarrow> bool" where
  "is_current root generation c \<longleftrightarrow>
     (case state_of c root of None \<Rightarrow> False | Some s \<Rightarrow> ps_generation s = generation)"

definition finish_full_rebuild :: "path \<Rightarrow> nat \<Rightarrow> ProjectCache \<Rightarrow> ProjectCache" where
  "finish_full_rebuild root generation c =
     upd_state root (\<lambda>s. if ps_generation s = generation then s \<lparr> ps_full_rebuild := False \<rparr> else s) c"

definition invalidate_generation :: "world \<Rightarrow> path \<Rightarrow> nat \<Rightarrow> ProjectCache \<Rightarrow> ProjectCache" where
  "invalidate_generation w root generation c =
     (if is_current root generation c then invalidate w root c else c)"

text \<open>\<open>lookup_index\<close>; \<open>cell\<close> and \<open>owner\<close> are the objects it allocates when it starts a new build.\<close>

definition start_build :: "path \<Rightarrow> nat \<Rightarrow> nat \<Rightarrow> ProjectCache \<Rightarrow> IndexLookup \<times> ProjectCache" where
  "start_build root cell owner c =
     (case state_of c root of
        None \<Rightarrow> (Build cell owner 0, c)
      | Some s \<Rightarrow>
          (case ps_in_flight s of
             Some f \<Rightarrow>
               if if_generation f = ps_generation s
               then (Build (if_cell f) (if_owner f) (ps_generation s), c)
               else (Build cell owner (ps_generation s),
                     upd_state root (\<lambda>s. s \<lparr> ps_in_flight :=
                       Some \<lparr> if_generation = ps_generation s, if_cell = cell, if_owner = owner \<rparr> \<rparr>) c)
           | None \<Rightarrow>
               (Build cell owner (ps_generation s),
                upd_state root (\<lambda>s. s \<lparr> ps_in_flight :=
                  Some \<lparr> if_generation = ps_generation s, if_cell = cell, if_owner = owner \<rparr> \<rparr>) c)))"

definition lookup_index ::
    "world \<Rightarrow> path \<Rightarrow> ProjectFingerprint \<Rightarrow> nat \<Rightarrow> nat \<Rightarrow> ProjectCache \<Rightarrow> IndexLookup \<times> ProjectCache" where
  "lookup_index w root project cell owner c =
     (let (tick, c) = next_tick c;
          (generation, c) = fresh_generation c;
          c = or_insert root (new_state w generation) c;
          c = upd_state root (\<lambda>s. s \<lparr> ps_last_used_tick := tick \<rparr>) c
      in case state_of c root of
           None \<Rightarrow> (Build cell owner 0, c)
         | Some s \<Rightarrow>
             (case ps_index s of
                Some entry \<Rightarrow>
                  if ci_project entry = project then (Cached entry (ps_generation s), c)
                  else let c = invalidate w root c
                       in start_build root cell owner (c \<lparr> pc_misses := pc_misses c + 1 \<rparr>)
              | None \<Rightarrow> start_build root cell owner (c \<lparr> pc_misses := pc_misses c + 1 \<rparr>)))"

definition record_hit :: "world \<Rightarrow> path \<Rightarrow> ProjectCache \<Rightarrow> ProjectCache" where
  "record_hit w root c =
     (let (tick, c) = next_tick (c \<lparr> pc_hits := pc_hits c + 1 \<rparr>)
      in upd_state root (touch w tick) c)"

text \<open>\<open>reserve\<close>; \<open>rid\<close> is the reservation it allocates.  Its loop ends over the budget exactly when nothing
  more can be evicted, which is its error return.\<close>

definition reserve ::
    "world \<Rightarrow> path \<Rightarrow> nat \<Rightarrow> nat \<Rightarrow> nat \<Rightarrow> ProjectCache \<Rightarrow> (ReserveError + nat) \<times> ProjectCache" where
  "reserve w root generation bytes rid c =
     (let c = prune w c
      in if \<not> is_current root generation c then (Inl ReserveStale, c)
         else let c = evict_while (loop_fuel c) (over_budget w bytes) (evict_any w None (Some root)) c
              in if over_budget w bytes c
                 then (Inl (OverBudget (retained_bytes w c + bytes) (cl_max_bytes (pc_limits c))), c)
                 else (Inr rid, c \<lparr> pc_reservations := pc_reservations c @ [(rid, bytes)] \<rparr>))"

definition publish ::
    "world \<Rightarrow> path \<Rightarrow> nat \<Rightarrow> nat \<Rightarrow> FinishedBuild \<Rightarrow> ProjectFingerprint \<Rightarrow> nat \<Rightarrow> ProjectCache \<Rightarrow>
     Publication \<times> ProjectCache" where
  "publish w0 root generation index build project reservation c =
     (let w = w0 \<lparr> wd_reservation_held := (wd_reservation_held w0)(reservation := False) \<rparr>;
          c = prune w c
      in if \<not> is_current root generation c then (PubStale, c)
         else
           let bytes = wd_index_bytes w index + fp_estimated_bytes (fb_artifacts build)
           in if cl_max_bytes (pc_limits c) < bytes
              then (PubUncached,
                    upd_state root (\<lambda>s. s \<lparr> ps_in_flight := None \<rparr>) c
                    \<lparr> pc_released := pc_released c @ [(index, bytes)] \<rparr>)
              else
                let entry = \<lparr> ci_index = index, ci_project = project, ci_artifacts = fb_artifacts build,
                              ci_bytes = bytes, ci_classpath_entries = fb_classpath_entries build,
                              ci_build_duration = fb_duration build \<rparr>;
                    (tick, c) = next_tick c;
                    c = upd_state root (\<lambda>s. touch w tick (s \<lparr> ps_in_flight := None, ps_index := Some entry \<rparr>)) c;
                    c = enforce w (Some root) c
                in if cl_max_bytes (pc_limits c) < retained_bytes w c
                   then (PubUncached, release_index w root c)
                   else (PubRetained, c))"

definition finish_failed :: "world \<Rightarrow> path \<Rightarrow> nat \<Rightarrow> ProjectCache \<Rightarrow> ProjectCache" where
  "finish_failed w root generation c =
     enforce w None
       (upd_state root (\<lambda>s. if ps_generation s = generation then s \<lparr> ps_in_flight := None \<rparr> else s) c)"

section \<open>What an eviction takes away\<close>

lemma pc_states_upd [simp]:
  "pc_states (upd_states f c) = map (\<lambda>(k, s). (k, f k s)) (pc_states c)"
  "pc_limits (upd_states f c) = pc_limits c"
  "pc_limits (upd_state root g c) = pc_limits c"
  by (simp_all add: upd_states_def upd_state_def)

definition clear_dead :: "world \<Rightarrow> ProjectState \<Rightarrow> ProjectState" where
  "clear_dead w s = (if has_live_build w s then s else s \<lparr> ps_in_flight := None \<rparr>)"

lemma clear_dead_sel [simp]:
  "ps_generation (clear_dead w s) = ps_generation s" "ps_runner (clear_dead w s) = ps_runner s"
  "ps_index (clear_dead w s) = ps_index s" "ps_full_rebuild (clear_dead w s) = ps_full_rebuild s"
  "ps_last_used_tick (clear_dead w s) = ps_last_used_tick s"
  "has_live_build w (clear_dead w s) = has_live_build w s"
  "ps_in_flight (clear_dead w s) = (if has_live_build w s then ps_in_flight s else None)"
  by (simp_all add: clear_dead_def has_live_build_def)

lemma prune_states: "pc_states (prune w c) = map (\<lambda>(k, s). (k, clear_dead w s)) (pc_states c)"
proof -
  have "(case ps_in_flight s of None \<Rightarrow> s
      | Some f \<Rightarrow> if \<not> in_flight_is_live w f then s \<lparr> ps_in_flight := None \<rparr> else s) = clear_dead w s" for s
    by (cases s) (auto simp: clear_dead_def has_live_build_def split: option.split)
  then show ?thesis by (simp add: prune_def Let_def)
qed

lemma prune_limits [simp]: "pc_limits (prune w c) = pc_limits c"
  by (simp add: prune_def Let_def)

lemma count_map_states:
  assumes "\<And>k s. P (f k s) \<longleftrightarrow> P s"
  shows "length (filter P (map snd (map (\<lambda>(k, s). (k, f k s)) xs))) = length (filter P (map snd xs))"
  using assms by (induction xs) auto

lemma prune_counts [simp]: "index_count (prune w c) = index_count c" "runner_count (prune w c) = runner_count c"
  unfolding index_count_def runner_count_def prune_states by (rule count_map_states; simp)+

text \<open>How often a condition on states holds is what the loops count down.\<close>

lemma count_upd_less:
  assumes "(root, s) \<in> set xs" "P s" "\<And>s. \<not> P (f s)"
  shows "length (filter P (map snd (map (\<lambda>(k, s). (k, if k = root then f s else s)) xs))) <
    length (filter P (map snd xs))"
proof -
  have le: "length (filter P (map snd (map (\<lambda>(k, s). (k, if k = root then f s else s)) ys))) \<le>
      length (filter P (map snd ys))" for ys
    using assms(3) by (induction ys) (auto simp: le_SucI split: if_splits)
  show ?thesis using assms(1)
  proof (induction xs)
    case (Cons x xs)
    show ?case
    proof (cases "x = (root, s)")
      case True
      then show ?thesis using le [of xs] assms(2,3) by (simp add: less_Suc_eq_le)
    next
      case False
      then show ?thesis using Cons assms(3) by (cases x) (auto simp: less_SucI)
    qed
  qed simp
qed

lemma release_index_counts:
  assumes "state_of c root = Some s" "ps_index s \<noteq> None"
  shows "index_count (release_index w root c) < index_count c"
    "runner_count (release_index w root c) = runner_count c"
proof -
  obtain e where "ps_index s = Some e" using assms(2) by auto
  then have eq: "release_index w root c =
      prune w (upd_state root (\<lambda>s. s \<lparr> ps_index := None \<rparr>) c \<lparr> pc_released := pc_released c @ [(ci_index e, ci_bytes e)] \<rparr>)"
    using assms(1) by (simp add: release_index_def)
  have "(root, s) \<in> set (pc_states c)" using assms(1) by (simp add: state_of_def map_of_SomeD)
  from count_upd_less [OF this, of "\<lambda>s. ps_index s \<noteq> None" "\<lambda>s. s \<lparr> ps_index := None \<rparr>"]
  show "index_count (release_index w root c) < index_count c"
    using assms(2) unfolding eq prune_counts by (simp add: index_count_def upd_state_def)
  have "length (filter (\<lambda>s. ps_runner s \<noteq> None)
      (map snd (map (\<lambda>(k, s). (k, if k = root then s \<lparr> ps_index := None \<rparr> else s)) (pc_states c)))) = runner_count c"
    unfolding runner_count_def by (rule count_map_states) simp
  then show "runner_count (release_index w root c) = runner_count c"
    unfolding eq prune_counts by (simp add: runner_count_def upd_state_def)
qed

lemma min_by_tick_mem: "min_by_tick xs = Some x \<Longrightarrow> x \<in> set xs"
  by (induction xs) (auto split: option.splits if_splits)

lemma min_by_tick_None [simp]: "min_by_tick xs = None \<longleftrightarrow> xs = []"
  by (cases xs) (auto split: option.splits)

lemma min_by_tick_least:
  "min_by_tick xs = Some x \<Longrightarrow> y \<in> set xs \<Longrightarrow> ps_last_used_tick (snd x) \<le> ps_last_used_tick (snd y)"
  by (induction xs arbitrary: x) (fastforce split: option.splits if_splits)+

text \<open>Keys of the association list are distinct; then membership is lookup.\<close>

definition keys_ok :: "ProjectCache \<Rightarrow> bool" where
  "keys_ok c \<longleftrightarrow> distinct (map fst (pc_states c))"

lemma state_of_iff: "keys_ok c \<Longrightarrow> state_of c root = Some s \<longleftrightarrow> (root, s) \<in> set (pc_states c)"
  by (simp add: keys_ok_def state_of_def)

lemma index_victim_Some:
  assumes "index_victim protect c = Some v"
  obtains s where "(v, s) \<in> set (pc_states c)" "ps_index s \<noteq> None" "protect \<noteq> Some v"
    "\<And>k s'. (k, s') \<in> set (pc_states c) \<Longrightarrow> ps_index s' \<noteq> None \<Longrightarrow> protect \<noteq> Some k \<Longrightarrow>
       ps_last_used_tick s \<le> ps_last_used_tick s'"
proof -
  let ?xs = "filter (\<lambda>(root, s). ps_index s \<noteq> None \<and> protect \<noteq> Some root) (pc_states c)"
  obtain s where s: "min_by_tick ?xs = Some (v, s)" using assms by (auto simp: index_victim_def)
  from min_by_tick_mem [OF s] min_by_tick_least [OF s] show thesis by (intro that [of s]) auto
qed

lemma runner_victim_Some:
  assumes "runner_victim w protect c = Some v"
  obtains s where "(v, s) \<in> set (pc_states c)" "ps_runner s \<noteq> None" "\<not> has_live_build w s" "protect \<noteq> Some v"
    "\<And>k s'. (k, s') \<in> set (pc_states c) \<Longrightarrow> ps_runner s' \<noteq> None \<Longrightarrow> \<not> has_live_build w s' \<Longrightarrow>
       protect \<noteq> Some k \<Longrightarrow> ps_last_used_tick s \<le> ps_last_used_tick s'"
proof -
  let ?xs = "filter (\<lambda>(root, s). ps_runner s \<noteq> None \<and> \<not> has_live_build w s \<and> protect \<noteq> Some root) (pc_states c)"
  obtain s where s: "min_by_tick ?xs = Some (v, s)" using assms by (auto simp: runner_victim_def)
  from min_by_tick_mem [OF s] min_by_tick_least [OF s] show thesis by (intro that [of s]) auto
qed

lemma index_victim_None:
  "index_victim protect c = None \<longleftrightarrow> (\<forall>(k, s) \<in> set (pc_states c). ps_index s = None \<or> protect = Some k)"
  by (auto simp: index_victim_def filter_empty_conv)

lemma runner_victim_None:
  "runner_victim w protect c = None \<longleftrightarrow>
     (\<forall>(k, s) \<in> set (pc_states c). ps_runner s = None \<or> has_live_build w s \<or> protect = Some k)"
  by (auto simp: runner_victim_def filter_empty_conv)

lemma evict_index_counts:
  assumes "evict_least_recently_used_index w protect c = (True, c')" "keys_ok c"
  shows "index_count c' < index_count c" "runner_count c' = runner_count c"
proof -
  from assms(1) obtain v where v: "index_victim protect c = Some v"
    and c': "index_count c' = index_count (release_index w v c)" "runner_count c' = runner_count (release_index w v c)"
    by (auto simp: evict_least_recently_used_index_def Let_def index_count_def runner_count_def
        split: option.splits)
  obtain s where "(v, s) \<in> set (pc_states c)" "ps_index s \<noteq> None"
    using index_victim_Some [OF v] by metis
  then show "index_count c' < index_count c" "runner_count c' = runner_count c"
    using release_index_counts [of c v s w] c' assms(2) by (simp_all add: state_of_iff)
qed

lemma evict_runner_counts:
  assumes "evict_least_recently_used_runner w protect c = (True, c')" "keys_ok c"
  shows "runner_count c' < runner_count c" "index_count c' = index_count c"
proof -
  from assms(1) obtain v where v: "runner_victim w protect c = Some v"
    by (auto simp: evict_least_recently_used_runner_def split: option.splits)
  obtain s where s: "(v, s) \<in> set (pc_states c)" "ps_runner s \<noteq> None"
    using runner_victim_Some [OF v] by metis
  then have st: "state_of c v = Some s" using assms(2) by (simp add: state_of_iff)
  have states: "pc_states c' = map (\<lambda>(k, s). (k, if k = v then s \<lparr> ps_runner := None \<rparr> else s)) (pc_states c)"
    using assms(1) v st s(2) by (auto simp: evict_least_recently_used_runner_def upd_state_def)
  show "runner_count c' < runner_count c"
    unfolding runner_count_def states using s(2) by (intro count_upd_less [OF s(1)]) simp_all
  show "index_count c' = index_count c"
    unfolding index_count_def states by (rule count_map_states) simp
qed

section \<open>Lookup after the basic updates\<close>

lemma state_of_upd_states [simp]: "state_of (upd_states f c) root = map_option (f root) (state_of c root)"
  by (simp add: state_of_def map_of_map_values)

lemma state_of_upd_state [simp]:
  "state_of (upd_state root f c) r = (if r = root then map_option f (state_of c r) else state_of c r)"
  unfolding upd_state_def by (cases "state_of c r") auto

lemma state_of_cong: "pc_states c' = pc_states c \<Longrightarrow> state_of c' r = state_of c r"
  by (simp add: state_of_def)

lemma state_of_fields [simp]:
  "state_of (c \<lparr> pc_released := a \<rparr>) r = state_of c r"
  "state_of (c \<lparr> pc_released_runners := b \<rparr>) r = state_of c r"
  "state_of (c \<lparr> pc_reservations := a \<rparr>) r = state_of c r"
  "state_of (c \<lparr> pc_next_generation := n \<rparr>) r = state_of c r"
  "state_of (c \<lparr> pc_tick := n \<rparr>) r = state_of c r"
  "state_of (c \<lparr> pc_hits := n \<rparr>) r = state_of c r"
  "state_of (c \<lparr> pc_misses := n \<rparr>) r = state_of c r"
  "state_of (c \<lparr> pc_evictions := n \<rparr>) r = state_of c r"
  "state_of (c \<lparr> pc_invalidations := n \<rparr>) r = state_of c r"
  "state_of (c \<lparr> pc_persisted := p \<rparr>) r = state_of c r"
  by (simp_all add: state_of_def)

lemma keys_ok_upd [simp]: "keys_ok (upd_states f c) = keys_ok c" "keys_ok (upd_state root g c) = keys_ok c"
  by (simp_all add: keys_ok_def upd_state_def o_def case_prod_beta)

lemma keys_ok_fields [simp]:
  "keys_ok (c \<lparr> pc_released := a \<rparr>) = keys_ok c"
  "keys_ok (c \<lparr> pc_released_runners := b \<rparr>) = keys_ok c"
  "keys_ok (c \<lparr> pc_reservations := a \<rparr>) = keys_ok c"
  "keys_ok (c \<lparr> pc_next_generation := n \<rparr>) = keys_ok c"
  "keys_ok (c \<lparr> pc_tick := n \<rparr>) = keys_ok c"
  "keys_ok (c \<lparr> pc_hits := n \<rparr>) = keys_ok c"
  "keys_ok (c \<lparr> pc_misses := n \<rparr>) = keys_ok c"
  "keys_ok (c \<lparr> pc_evictions := n \<rparr>) = keys_ok c"
  "keys_ok (c \<lparr> pc_invalidations := n \<rparr>) = keys_ok c"
  "keys_ok (c \<lparr> pc_persisted := p \<rparr>) = keys_ok c"
  by (simp_all add: keys_ok_def)

lemma upd_state_fields [simp]:
  "pc_next_generation (upd_state root f c) = pc_next_generation c" "pc_tick (upd_state root f c) = pc_tick c"
  "pc_released (upd_state root f c) = pc_released c"
  "pc_next_generation (upd_states g c) = pc_next_generation c" "pc_tick (upd_states g c) = pc_tick c"
  by (simp_all add: upd_state_def upd_states_def)

lemma state_of_or_insert [simp]:
  "state_of (or_insert root s c) r =
     (case state_of c r of None \<Rightarrow> if r = root then Some s else None | Some t \<Rightarrow> Some t)"
  by (auto simp: or_insert_def state_of_def map_add_def split: option.splits)

lemma or_insert_fields [simp]:
  "pc_next_generation (or_insert root s c) = pc_next_generation c" "pc_tick (or_insert root s c) = pc_tick c"
  "pc_limits (or_insert root s c) = pc_limits c"
  by (simp_all add: or_insert_def)

lemma keys_ok_or_insert [simp]: "keys_ok c \<Longrightarrow> keys_ok (or_insert root s c)"
  by (auto simp: or_insert_def keys_ok_def state_of_def map_of_eq_None_iff)

section \<open>Shrinking: what pruning and eviction may do\<close>

text \<open>
  Pruning, releasing and evicting never touch generations, ticks or counters, never clear the
  marker of a live build, and drop a project only when no live build belongs to it.
\<close>

definition state_le :: "world \<Rightarrow> ProjectState \<Rightarrow> ProjectState \<Rightarrow> bool" where
  "state_le w s s' \<longleftrightarrow>
     ps_generation s' = ps_generation s \<and> ps_last_used_tick s' = ps_last_used_tick s \<and>
     ps_full_rebuild s' = ps_full_rebuild s \<and>
     (ps_runner s' = ps_runner s \<or> ps_runner s' = None) \<and>
     (ps_index s' = ps_index s \<or> ps_index s' = None) \<and>
     (ps_in_flight s' = ps_in_flight s \<or> \<not> has_live_build w s \<and> ps_in_flight s' = None)"

definition shrinks :: "world \<Rightarrow> ProjectCache \<Rightarrow> ProjectCache \<Rightarrow> bool" where
  "shrinks w c c' \<longleftrightarrow>
     pc_limits c' = pc_limits c \<and> pc_next_generation c' = pc_next_generation c \<and> pc_tick c' = pc_tick c \<and>
     keys_ok c' \<and>
     (\<forall>root s'. state_of c' root = Some s' \<longrightarrow> (\<exists>s. state_of c root = Some s \<and> state_le w s s')) \<and>
     (\<forall>root s. state_of c root = Some s \<and> has_live_build w s \<longrightarrow> state_of c' root \<noteq> None)"

lemma state_le_refl [simp]: "state_le w s s"
  by (simp add: state_le_def)

lemma state_le_live: "state_le w s s' \<Longrightarrow> has_live_build w s' = has_live_build w s"
  by (auto simp: state_le_def has_live_build_def)

lemma state_le_trans: "state_le w s s' \<Longrightarrow> state_le w s' s'' \<Longrightarrow> state_le w s s''"
  using state_le_live unfolding state_le_def by (smt (verit, best))

lemma shrinks_refl: "keys_ok c \<Longrightarrow> shrinks w c c"
  by (auto simp: shrinks_def)

lemma shrinks_keys: "shrinks w c c' \<Longrightarrow> keys_ok c'"
  by (simp add: shrinks_def)

lemma shrinks_trans: "shrinks w c c' \<Longrightarrow> shrinks w c' c'' \<Longrightarrow> shrinks w c c''"
proof -
  assume a: "shrinks w c c'" and b: "shrinks w c' c''"
  have "\<exists>s. state_of c root = Some s \<and> state_le w s s''" if "state_of c'' root = Some s''" for root s''
    using a b that unfolding shrinks_def by (meson state_le_trans)
  moreover have "state_of c'' root \<noteq> None" if "state_of c root = Some s" "has_live_build w s" for root s
  proof -
    from a that obtain s' where s': "state_of c' root = Some s'" by (auto simp: shrinks_def)
    with a obtain s0 where "state_of c root = Some s0" "state_le w s0 s'" unfolding shrinks_def by blast
    then have "has_live_build w s'" using that state_le_live by fastforce
    with b s' show ?thesis by (auto simp: shrinks_def)
  qed
  ultimately show ?thesis using a b by (auto simp: shrinks_def)
qed

lemma state_of_prune [simp]: "state_of (prune w c) root = map_option (clear_dead w) (state_of c root)"
  by (simp add: state_of_def prune_states map_of_map_values)

lemma prune_fields [simp]:
  "pc_next_generation (prune w c) = pc_next_generation c" "pc_tick (prune w c) = pc_tick c"
  "keys_ok (prune w c) = keys_ok c"
  by (simp_all add: prune_def Let_def keys_ok_def o_def case_prod_beta)

lemma state_le_clear_dead: "state_le w s (clear_dead w s)"
  by (simp add: state_le_def)

lemma shrinks_prune: "keys_ok c \<Longrightarrow> shrinks w c (prune w c)"
  by (auto simp: shrinks_def state_le_clear_dead)

lemma state_of_release_index:
  "state_of (release_index w root c) r =
     (case state_of c root of
        None \<Rightarrow> state_of c r
      | Some s \<Rightarrow> if ps_index s = None then state_of c r
          else map_option (\<lambda>t. clear_dead w (if r = root then t \<lparr> ps_index := None \<rparr> else t)) (state_of c r))"
  by (auto simp: release_index_def split: option.splits)

lemma release_index_fields [simp]:
  "pc_next_generation (release_index w root c) = pc_next_generation c"
  "pc_tick (release_index w root c) = pc_tick c" "pc_limits (release_index w root c) = pc_limits c"
  "keys_ok (release_index w root c) = keys_ok c"
  by (simp_all add: release_index_def split: option.splits)

lemma shrinks_release_index: "keys_ok c \<Longrightarrow> shrinks w c (release_index w root c)"
  unfolding shrinks_def state_of_release_index
  by (auto simp: state_le_def has_live_build_def split: option.splits if_splits)

lemma shrinks_evict_index:
  "keys_ok c \<Longrightarrow> shrinks w c (snd (evict_least_recently_used_index w protect c))"
  using shrinks_release_index [of c w] shrinks_refl [of c w]
  by (auto simp: evict_least_recently_used_index_def Let_def shrinks_def split: option.splits)

lemma shrinks_evict_runner:
  "keys_ok c \<Longrightarrow> shrinks w c (snd (evict_least_recently_used_runner w protect c))"
  by (auto simp: evict_least_recently_used_runner_def shrinks_def state_le_def split: option.splits)

lemma shrinks_evict_any: "keys_ok c \<Longrightarrow> shrinks w c (snd (evict_any w p q c))"
proof -
  assume ok: "keys_ok c"
  note idx = shrinks_evict_index [OF ok, of w p]
  show ?thesis
  proof (cases "evict_least_recently_used_index w p c")
    case (Pair b c')
    then show ?thesis using idx shrinks_evict_runner [of c' w q] shrinks_keys shrinks_trans
      by (cases b) (fastforce simp: evict_any_def)+
  qed
qed

lemma evict_any_counts:
  assumes "evict_any w p q c = (True, c')" "keys_ok c"
  shows "index_count c' + runner_count c' < index_count c + runner_count c"
proof (cases "evict_least_recently_used_index w p c")
  case (Pair b d)
  show ?thesis
  proof (cases b)
    case True
    then show ?thesis using assms Pair evict_index_counts [of w p c c'] by (simp add: evict_any_def)
  next
    case False
    then have "d = c" using Pair by (auto simp: evict_least_recently_used_index_def Let_def split: option.splits)
    then show ?thesis using assms Pair False evict_runner_counts [of w q c c'] by (simp add: evict_any_def)
  qed
qed

section \<open>The eviction loops under the invariant\<close>

lemma evict_index_False:
  "evict_least_recently_used_index w p c = (False, c') \<longleftrightarrow> index_victim p c = None \<and> c' = c"
  by (auto simp: evict_least_recently_used_index_def Let_def split: option.splits)

lemma evict_runner_False:
  "evict_least_recently_used_runner w p c = (False, c') \<longleftrightarrow> runner_victim w p c = None \<and> c' = c"
  by (auto simp: evict_least_recently_used_runner_def split: option.splits)

lemma evict_any_False:
  "evict_any w p q c = (False, c') \<longleftrightarrow> index_victim p c = None \<and> runner_victim w q c = None \<and> c' = c"
proof (cases "evict_least_recently_used_index w p c")
  case (Pair b d)
  then show ?thesis
    by (cases b) (auto simp: evict_any_def evict_index_False evict_runner_False
        evict_least_recently_used_index_def Let_def split: option.splits)
qed

text \<open>
  The contract of one eviction step, which all loops share: it only shrinks the cache, a
  successful step makes progress, and an unsuccessful one changes nothing.
\<close>

locale evictor =
  fixes evict :: "ProjectCache \<Rightarrow> bool \<times> ProjectCache"
    and w :: world
    and room :: "ProjectCache \<Rightarrow> nat"
  assumes evict_shrinks: "keys_ok c \<Longrightarrow> shrinks w c (snd (evict c))"
    and evict_progress: "keys_ok c \<Longrightarrow> evict c = (True, d) \<Longrightarrow> room d < room c"
    and evict_stuck: "evict c = (False, d) \<Longrightarrow> d = c"
begin

lemma evict_while_shrinks: "keys_ok c \<Longrightarrow> shrinks w c (evict_while n over evict c)"
proof (induction n arbitrary: c)
  case (Suc n)
  obtain b d where d: "evict c = (b, d)" by fastforce
  then have sh: "shrinks w c d" using evict_shrinks [OF Suc.prems] by simp
  show ?case
  proof (cases "over c \<and> b")
    case True
    then show ?thesis using d Suc.IH [OF shrinks_keys [OF sh]] shrinks_trans [OF sh] by simp
  next
    case False
    then show ?thesis using d sh shrinks_refl [OF Suc.prems] by (cases b) simp_all
  qed
qed (simp add: shrinks_refl)

lemma evict_while_exit:
  "keys_ok c \<Longrightarrow> room c < n \<Longrightarrow> \<not> over (evict_while n over evict c) \<or>
     evict (evict_while n over evict c) = (False, evict_while n over evict c)"
proof (induction n arbitrary: c)
  case (Suc n)
  obtain b d where d: "evict c = (b, d)" by fastforce
  then have sh: "shrinks w c d" using evict_shrinks [OF Suc.prems(1)] by simp
  show ?case
  proof (cases "over c \<and> b")
    case True
    then have "room d < n" using evict_progress [OF Suc.prems(1)] d Suc.prems(2) by fastforce
    then show ?thesis using True d Suc.IH [OF shrinks_keys [OF sh]] by simp
  next
    case False
    then show ?thesis using d evict_stuck by (cases b) auto
  qed
qed simp

end

interpretation idx: evictor "evict_least_recently_used_index w p" w index_count
  by unfold_locales (auto simp: shrinks_evict_index evict_index_counts(1) evict_index_False)

interpretation rnr: evictor "evict_least_recently_used_runner w p" w runner_count
  by unfold_locales (auto simp: shrinks_evict_runner evict_runner_counts(1) evict_runner_False)

interpretation anyv: evictor "evict_any w p q" w "\<lambda>c. index_count c + runner_count c"
  by unfold_locales (auto simp: shrinks_evict_any evict_any_counts evict_any_False)

lemmas loop_shrinks = idx.evict_while_shrinks rnr.evict_while_shrinks anyv.evict_while_shrinks

lemma state_of_retain:
  "keys_ok c \<Longrightarrow> state_of (retain_states w c) root = Some s \<longleftrightarrow>
   state_of c root = Some s \<and> (ps_runner s \<noteq> None \<or> ps_index s \<noteq> None \<or> has_live_build w s)"
proof -
  assume ok: "keys_ok c"
  then have ok': "keys_ok (retain_states w c)"
    by (simp add: keys_ok_def retain_states_def distinct_map_filter)
  show ?thesis unfolding state_of_iff [OF ok'] state_of_iff [OF ok] by (auto simp: retain_states_def)
qed

lemma shrinks_retain: "keys_ok c \<Longrightarrow> shrinks w c (retain_states w c)"
proof -
  assume ok: "keys_ok c"
  have "state_of (retain_states w c) root \<noteq> None" if "state_of c root = Some s" "has_live_build w s" for root s
    using state_of_retain [OF ok, of w root s] that by auto
  then show ?thesis using ok state_of_retain [OF ok, of w]
    by (auto simp: shrinks_def) (simp_all add: retain_states_def keys_ok_def distinct_map_filter)
qed

lemma shrinks_enforce: "keys_ok c \<Longrightarrow> shrinks w c (enforce w p c)"
proof -
  assume ok: "keys_ok c"
  define c1 where "c1 = prune w c"
  define c2 where "c2 = evict_while (loop_fuel c1) too_many_indexes (evict_least_recently_used_index w p) c1"
  define c3 where "c3 = evict_while (loop_fuel c2) (over_budget w 0) (evict_any w p p) c2"
  define c4 where "c4 = evict_while (loop_fuel c3) too_many_runners (evict_least_recently_used_runner w p) c3"
  have 1: "shrinks w c c1" using shrinks_prune [OF ok] by (simp add: c1_def)
  have 2: "shrinks w c1 c2" unfolding c2_def by (rule loop_shrinks [OF shrinks_keys [OF 1]])
  have 3: "shrinks w c2 c3" unfolding c3_def by (rule loop_shrinks [OF shrinks_keys [OF 2]])
  have 4: "shrinks w c3 c4" unfolding c4_def by (rule loop_shrinks [OF shrinks_keys [OF 3]])
  have 5: "shrinks w c4 (retain_states w c4)" by (rule shrinks_retain [OF shrinks_keys [OF 4]])
  have "enforce w p c = retain_states w c4" by (simp add: enforce_def Let_def c1_def c2_def c3_def c4_def)
  then show ?thesis using shrinks_trans 1 2 3 4 5 by metis
qed

section \<open>The cache invariant\<close>

definition used :: "ProjectState \<Rightarrow> bool" where
  "used s \<longleftrightarrow> ps_runner s \<noteq> None \<or> ps_index s \<noteq> None"

definition state_ok :: "ProjectCache \<Rightarrow> ProjectState \<Rightarrow> bool" where
  "state_ok c s \<longleftrightarrow>
     ps_generation s \<le> pc_next_generation c \<and>
     (\<forall>f. ps_in_flight s = Some f \<longrightarrow> if_generation f = ps_generation s) \<and>
     ps_last_used_tick s \<le> pc_tick c \<and> (used s \<longrightarrow> 0 < ps_last_used_tick s)"

definition cache_ok :: "ProjectCache \<Rightarrow> bool" where
  "cache_ok c \<longleftrightarrow>
     keys_ok c \<and>
     (\<forall>root s. state_of c root = Some s \<longrightarrow> state_ok c s) \<and>
     (\<forall>r s r' s'. state_of c r = Some s \<and> state_of c r' = Some s' \<and> r \<noteq> r' \<and> used s \<and> used s' \<longrightarrow>
        ps_last_used_tick s \<noteq> ps_last_used_tick s')"

text \<open>Generations only move forward: a state keeps its generation or gets a new one.\<close>

definition gen_step :: "ProjectCache \<Rightarrow> ProjectCache \<Rightarrow> bool" where
  "gen_step c c' \<longleftrightarrow>
     pc_next_generation c \<le> pc_next_generation c' \<and>
     (\<forall>root s'. state_of c' root = Some s' \<longrightarrow>
        (\<exists>s. state_of c root = Some s \<and> ps_generation s' = ps_generation s) \<or>
        pc_next_generation c < ps_generation s')"

definition good_step :: "ProjectCache \<Rightarrow> ProjectCache \<Rightarrow> bool" where
  "good_step c c' \<longleftrightarrow> (cache_ok c \<longrightarrow> cache_ok c' \<and> gen_step c c')"

lemma gen_step_trans: "gen_step a b \<Longrightarrow> gen_step b c \<Longrightarrow> gen_step a c"
  unfolding gen_step_def by (smt (verit, best) order_trans le_less_trans)

lemma good_step_trans: "good_step a b \<Longrightarrow> good_step b c \<Longrightarrow> good_step a c"
  unfolding good_step_def using gen_step_trans by blast

lemma good_step_refl: "good_step c c"
  by (auto simp: good_step_def gen_step_def)

lemma cache_okD:
  "cache_ok c \<Longrightarrow> keys_ok c" "cache_ok c \<Longrightarrow> state_of c root = Some s \<Longrightarrow> state_ok c s"
  by (simp_all add: cache_ok_def)

lemma cache_okI:
  assumes "keys_ok c" "\<And>r s. state_of c r = Some s \<Longrightarrow> state_ok c s"
    "\<And>r s r' s'. state_of c r = Some s \<Longrightarrow> state_of c r' = Some s' \<Longrightarrow> r \<noteq> r' \<Longrightarrow> used s \<Longrightarrow> used s' \<Longrightarrow>
       ps_last_used_tick s \<noteq> ps_last_used_tick s'"
  shows "cache_ok c"
  using assms unfolding cache_ok_def by blast

lemma cache_ok_ticks:
  "cache_ok c \<Longrightarrow> state_of c r = Some s \<Longrightarrow> state_of c r' = Some s' \<Longrightarrow> r \<noteq> r' \<Longrightarrow> used s \<Longrightarrow> used s' \<Longrightarrow>
   ps_last_used_tick s \<noteq> ps_last_used_tick s'"
  unfolding cache_ok_def by blast

text \<open>Changes of other fields keep everything.\<close>

lemma good_step_same:
  assumes "\<And>r. state_of c' r = state_of c r" "keys_ok c \<Longrightarrow> keys_ok c'"
    "pc_next_generation c \<le> pc_next_generation c'" "pc_tick c \<le> pc_tick c'"
  shows "good_step c c'"
  using assms unfolding good_step_def cache_ok_def gen_step_def state_ok_def
  by (auto intro: le_trans)

lemma used_le: "state_le w s s' \<Longrightarrow> used s' \<Longrightarrow> used s"
  by (auto simp: state_le_def used_def)

lemma good_step_shrinks:
  assumes "keys_ok c \<Longrightarrow> shrinks w c c'"
  shows "good_step c c'"
  unfolding good_step_def
proof
  assume ok: "cache_ok c"
  then have sh: "shrinks w c c'" using assms cache_okD(1) by blast
  have below: "\<exists>s. state_of c root = Some s \<and> state_le w s s'" if "state_of c' root = Some s'" for root s'
    using sh that by (auto simp: shrinks_def)
  have "state_ok c' s'" if "state_of c' root = Some s'" for root s'
  proof -
    from below [OF that] obtain s where s: "state_of c root = Some s" "state_le w s s'" by blast
    with cache_okD(2) [OF ok s(1)] used_le [OF s(2)] sh show ?thesis
      by (auto simp: state_ok_def state_le_def shrinks_def)
  qed
  moreover have "ps_last_used_tick a \<noteq> ps_last_used_tick b"
    if "state_of c' r = Some a" "state_of c' r' = Some b" "r \<noteq> r'" "used a" "used b" for r r' a b
  proof -
    from below [OF that(1)] obtain a0 where a0: "state_of c r = Some a0" "state_le w a0 a" by blast
    from below [OF that(2)] obtain b0 where b0: "state_of c r' = Some b0" "state_le w b0 b" by blast
    have "ps_last_used_tick a0 \<noteq> ps_last_used_tick b0"
      using ok a0 b0 used_le that(3-5) unfolding cache_ok_def by blast
    then show ?thesis using a0(2) b0(2) by (simp add: state_le_def)
  qed
  ultimately have "cache_ok c'" using sh unfolding cache_ok_def shrinks_def by blast
  moreover have "gen_step c c'" using below sh by (fastforce simp: gen_step_def shrinks_def state_le_def)
  ultimately show "cache_ok c' \<and> gen_step c c'" ..
qed

text \<open>An update that keeps generation and last use and makes nothing used.\<close>

lemma good_step_upd:
  assumes "\<And>s. ps_generation (f s) = ps_generation s" "\<And>s. ps_last_used_tick (f s) = ps_last_used_tick s"
    "\<And>s. used (f s) \<Longrightarrow> used s"
    "\<And>s g. ps_in_flight (f s) = Some g \<Longrightarrow> ps_in_flight s = Some g \<or> if_generation g = ps_generation s"
  shows "good_step c (upd_state root f c)"
  unfolding good_step_def
proof
  assume ok: "cache_ok c"
  have "state_ok (upd_state root f c) s'" if st: "state_of (upd_state root f c) r = Some s'" for r s'
  proof (cases "r = root")
    case True
    with st obtain s where "state_of c root = Some s" "s' = f s" by auto
    then show ?thesis using cache_okD(2) [OF ok] assms by (fastforce simp: state_ok_def)
  next
    case False
    then show ?thesis using st cache_okD(2) [OF ok, of r s'] by (simp add: state_ok_def)
  qed
  moreover have "ps_last_used_tick a \<noteq> ps_last_used_tick b"
    if "state_of (upd_state root f c) r = Some a" "state_of (upd_state root f c) r' = Some b"
      "r \<noteq> r'" "used a" "used b" for r r' a b
    using that cache_ok_ticks [OF ok] assms(2,3) by (auto split: if_splits)
  ultimately have "cache_ok (upd_state root f c)" using cache_okD(1) [OF ok] by (intro cache_okI) simp_all
  moreover have "gen_step c (upd_state root f c)" using assms(1) by (auto simp: gen_step_def)
  ultimately show "cache_ok (upd_state root f c) \<and> gen_step c (upd_state root f c)" ..
qed

text \<open>An update that stamps the state with a tick newer than every other.\<close>

definition ticks_below :: "ProjectCache \<Rightarrow> bool" where
  "ticks_below c \<longleftrightarrow> (\<forall>r s. state_of c r = Some s \<longrightarrow> ps_last_used_tick s < pc_tick c)"

lemma touch_step:
  assumes "cache_ok c" "ticks_below c" "tick = pc_tick c"
    "\<And>s. ps_generation (f s) = ps_generation s" "\<And>s. ps_last_used_tick (f s) = tick"
    "\<And>s g. ps_in_flight (f s) = Some g \<Longrightarrow> ps_in_flight s = Some g"
  shows "cache_ok (upd_state root f c) \<and> gen_step c (upd_state root f c)"
proof -
  have pos: "0 < pc_tick c" if "state_of c r = Some s" for r s
    using assms(2) that by (auto simp: ticks_below_def dest: gr_implies_not_zero)
  have "state_ok (upd_state root f c) s'" if st: "state_of (upd_state root f c) r = Some s'" for r s'
  proof (cases "r = root")
    case True
    with st obtain s where s: "state_of c root = Some s" "s' = f s" by auto
    have old: "state_ok c s" by (rule cache_okD(2) [OF assms(1) s(1)])
    have "\<forall>g. ps_in_flight (f s) = Some g \<longrightarrow> if_generation g = ps_generation s"
      using old assms(6) [of s] unfolding state_ok_def by blast
    then show ?thesis using old pos [OF s(1)] assms(3) assms(4,5) [of s] s(2)
      by (simp add: state_ok_def)
  next
    case False
    then show ?thesis using st cache_okD(2) [OF assms(1), of r s'] by (simp add: state_ok_def)
  qed
  moreover have "ps_last_used_tick a \<noteq> ps_last_used_tick b"
    if "state_of (upd_state root f c) r = Some a" "state_of (upd_state root f c) r' = Some b"
      "r \<noteq> r'" "used a" "used b" for r r' a b
    using that assms(1,2,3,5) unfolding cache_ok_def ticks_below_def
    by (auto split: if_splits) (metis less_irrefl)+
  ultimately have "cache_ok (upd_state root f c)" using cache_okD(1) [OF assms(1)] by (intro cache_okI) simp_all
  moreover have "gen_step c (upd_state root f c)" using assms(4) by (auto simp: gen_step_def)
  ultimately show ?thesis ..
qed

lemma new_entry_step:
  "good_step c (or_insert root (new_state w (pc_next_generation c + 1))
     (c \<lparr> pc_next_generation := pc_next_generation c + 1 \<rparr>))"
  unfolding good_step_def
proof
  let ?c = "c \<lparr> pc_next_generation := pc_next_generation c + 1 \<rparr>"
  let ?d = "or_insert root (new_state w (pc_next_generation c + 1)) ?c"
  assume ok: "cache_ok c"
  have new: "\<not> used (new_state w n)" "state_ok ?d (new_state w (pc_next_generation c + 1))" for n
    by (simp_all add: used_def state_ok_def new_state_def)
  have "state_ok ?d s" if "state_of ?d r = Some s" for r s
    using that cache_okD(2) [OF ok, of r s] new(2)
    by (auto simp: state_ok_def split: option.splits if_splits)
  moreover have "ps_last_used_tick a \<noteq> ps_last_used_tick b"
    if "state_of ?d r = Some a" "state_of ?d r' = Some b" "r \<noteq> r'" "used a" "used b" for r r' a b
  proof -
    have "state_of c r = Some a" "state_of c r' = Some b"
      using that new(1) by (auto split: option.splits if_splits)
    then show ?thesis using cache_ok_ticks [OF ok] that by blast
  qed
  ultimately have "cache_ok ?d" using cache_okD(1) [OF ok] by (intro cache_okI) simp_all
  moreover have "gen_step c ?d"
    by (auto simp: gen_step_def new_state_def split: option.splits if_splits)
  ultimately show "cache_ok ?d \<and> gen_step c ?d" ..
qed

lemma new_generation_step:
  "good_step c (upd_state root (\<lambda>s. s \<lparr> ps_generation := pc_next_generation c + 1, ps_in_flight := None \<rparr>)
     (c \<lparr> pc_next_generation := pc_next_generation c + 1 \<rparr>))"
  unfolding good_step_def
proof
  let ?f = "\<lambda>s. s \<lparr> ps_generation := pc_next_generation c + 1, ps_in_flight := None \<rparr>"
  let ?d = "upd_state root ?f (c \<lparr> pc_next_generation := pc_next_generation c + 1 \<rparr>)"
  assume ok: "cache_ok c"
  have used: "used (?f s) = used s" for s by (simp add: used_def)
  have "state_ok ?d s'" if st: "state_of ?d r = Some s'" for r s'
  proof (cases "r = root")
    case True
    with st obtain s where s: "state_of c root = Some s" "s' = ?f s" by auto
    then show ?thesis using cache_okD(2) [OF ok s(1)] used by (auto simp: state_ok_def)
  next
    case False
    then show ?thesis using st cache_okD(2) [OF ok, of r s'] by (simp add: state_ok_def)
  qed
  moreover have "ps_last_used_tick a \<noteq> ps_last_used_tick b"
    if "state_of ?d r = Some a" "state_of ?d r' = Some b" "r \<noteq> r'" "used a" "used b" for r r' a b
    using that cache_ok_ticks [OF ok] used by (auto split: if_splits)
  ultimately have "cache_ok ?d" using cache_okD(1) [OF ok] by (intro cache_okI) simp_all
  moreover have "gen_step c ?d" by (auto simp: gen_step_def split: if_splits)
  ultimately show "cache_ok ?d \<and> gen_step c ?d" ..
qed

lemma release_index_step: "good_step c (release_index w root c)"
  by (rule good_step_shrinks [OF shrinks_release_index])

lemma enforce_step: "good_step c (enforce w p c)"
  by (rule good_step_shrinks [OF shrinks_enforce])

lemma prune_step: "good_step c (prune w c)"
  by (rule good_step_shrinks [OF shrinks_prune])

lemma invalidate_step: "good_step c (invalidate w root c)"
proof (cases "state_of c root")
  case None
  then show ?thesis by (simp add: invalidate_def fresh_generation_def good_step_same)
next
  case (Some s)
  let ?d = "upd_state root (\<lambda>s. s \<lparr> ps_generation := pc_next_generation c + 1, ps_in_flight := None \<rparr>)
     (c \<lparr> pc_next_generation := pc_next_generation c + 1 \<rparr>)"
  let ?e = "?d \<lparr> pc_invalidations := pc_invalidations c + 1 \<rparr>"
  have "good_step c ?d" by (rule new_generation_step)
  moreover have "good_step ?d ?e" by (rule good_step_same) simp_all
  moreover have "good_step ?e (release_index w root ?e)" by (rule release_index_step)
  ultimately have "good_step c (release_index w root ?e)" by (blast intro: good_step_trans)
  then show ?thesis using Some by (simp add: invalidate_def fresh_generation_def)
qed

text \<open>After an invalidation the project is in a generation that did not exist before.\<close>

lemma invalidate_fresh:
  "state_of (invalidate w root c) root = Some s \<Longrightarrow> ps_generation s = pc_next_generation c + 1"
  "pc_next_generation (invalidate w root c) = pc_next_generation c + 1"
  by (auto simp: invalidate_def fresh_generation_def state_of_release_index split: option.splits if_splits)

lemma invalidate_clears:
  "state_of (invalidate w root c) root = Some s \<Longrightarrow> ps_index s = None \<and> ps_in_flight s = None"
  by (auto simp: invalidate_def fresh_generation_def state_of_release_index split: option.splits if_splits)

lemma ticks_below_next: "cache_ok c \<Longrightarrow> ticks_below (c \<lparr> pc_tick := pc_tick c + 1 \<rparr>)"
  by (auto simp: ticks_below_def less_Suc_eq_le dest: cache_okD(2) simp: state_ok_def)

lemma next_tick_step: "good_step c (c \<lparr> pc_tick := pc_tick c + 1 \<rparr>)"
  by (rule good_step_same) simp_all

text \<open>Touching a project: a new tick, and the state stamped with it.\<close>

lemma touch_project_step:
  assumes "\<And>s. ps_generation (f s) = ps_generation s" "\<And>s. ps_last_used_tick (f s) = pc_tick c + 1"
    "\<And>s g. ps_in_flight (f s) = Some g \<Longrightarrow> ps_in_flight s = Some g"
  shows "good_step c (upd_state root f (c \<lparr> pc_tick := pc_tick c + 1 \<rparr>))"
  unfolding good_step_def
proof
  let ?c = "c \<lparr> pc_tick := pc_tick c + 1 \<rparr>"
  assume ok: "cache_ok c"
  then have "cache_ok ?c" "gen_step c ?c" using next_tick_step by (auto simp: good_step_def)
  moreover have "cache_ok (upd_state root f ?c) \<and> gen_step ?c (upd_state root f ?c)"
    by (rule touch_step [OF \<open>cache_ok ?c\<close> ticks_below_next [OF ok] _ assms]) simp_all
  ultimately show "cache_ok (upd_state root f ?c) \<and> gen_step c (upd_state root f ?c)"
    using gen_step_trans by blast
qed

text \<open>The same after the project's entry was created.\<close>

definition ensure_project :: "world \<Rightarrow> path \<Rightarrow> ProjectCache \<Rightarrow> ProjectCache" where
  "ensure_project w root c =
     (let d = fresh_generation (snd (next_tick c)) in or_insert root (new_state w (fst d)) (snd d))"

lemma ensure_project_eq:
  "ensure_project w root c =
     or_insert root (new_state w (pc_next_generation c + 1))
       (c \<lparr> pc_tick := pc_tick c + 1, pc_next_generation := pc_next_generation c + 1 \<rparr>)"
  by (simp add: ensure_project_def fresh_generation_def next_tick_def Let_def)

lemma ensure_project_fields [simp]:
  "pc_tick (ensure_project w root c) = pc_tick c + 1"
  "pc_next_generation (ensure_project w root c) = pc_next_generation c + 1"
  "state_of (ensure_project w root c) r =
     (case state_of c r of None \<Rightarrow> if r = root then Some (new_state w (pc_next_generation c + 1)) else None
      | Some s \<Rightarrow> Some s)"
  by (simp_all add: ensure_project_eq split: option.split)

lemma ensure_touch_step:
  assumes "\<And>s. ps_generation (f s) = ps_generation s" "\<And>s. ps_last_used_tick (f s) = pc_tick c + 1"
    "\<And>s g. ps_in_flight (f s) = Some g \<Longrightarrow> ps_in_flight s = Some g"
  shows "good_step c (upd_state root f (ensure_project w root c))"
  unfolding good_step_def
proof
  let ?t = "c \<lparr> pc_tick := pc_tick c + 1 \<rparr>"
  let ?d = "ensure_project w root c"
  assume ok: "cache_ok c"
  then have t: "cache_ok ?t" "gen_step c ?t" using next_tick_step by (auto simp: good_step_def)
  have "?d = or_insert root (new_state w (pc_next_generation ?t + 1)) (?t \<lparr> pc_next_generation := pc_next_generation ?t + 1 \<rparr>)"
    by (simp add: ensure_project_eq)
  then have d: "cache_ok ?d" "gen_step ?t ?d" using new_entry_step [of ?t root w] t(1) by (simp_all add: good_step_def)
  have "ticks_below ?d"
    using ticks_below_next [OF ok] by (auto simp: ticks_below_def new_state_def split: option.splits if_splits)
  then have "cache_ok (upd_state root f ?d) \<and> gen_step ?d (upd_state root f ?d)"
    by (rule touch_step [OF d(1) _ _ assms]) simp_all
  then show "cache_ok (upd_state root f ?d) \<and> gen_step c (upd_state root f ?d)"
    using t(2) d(2) gen_step_trans by blast
qed

section \<open>Every operation is a good step\<close>

lemma good_step_via: "good_step a b \<Longrightarrow> good_step b c \<Longrightarrow> c = d \<Longrightarrow> good_step a d"
  using good_step_trans by blast

lemma runner_for_step: "good_step c (snd (runner_for w root c))"
proof (cases "state_of c root")
  case None
  then show ?thesis using next_tick_step [of c] by (simp add: runner_for_def next_tick_def)
next
  case (Some s)
  have "good_step c (upd_state root (touch w (pc_tick c + 1)) (c \<lparr> pc_tick := pc_tick c + 1 \<rparr>))"
    by (rule touch_project_step) (simp_all add: touch_def)
  then show ?thesis using Some by (simp add: runner_for_def next_tick_def)
qed

lemma record_hit_step: "good_step c (record_hit w root c)"
proof -
  let ?c = "c \<lparr> pc_hits := pc_hits c + 1 \<rparr>"
  have "good_step c ?c" by (rule good_step_same) simp_all
  moreover have "good_step ?c (upd_state root (touch w (pc_tick ?c + 1)) (?c \<lparr> pc_tick := pc_tick ?c + 1 \<rparr>))"
    by (rule touch_project_step) (simp_all add: touch_def)
  ultimately show ?thesis by (rule good_step_via) (simp add: record_hit_def next_tick_def)
qed

lemma released_runner_step:
  "good_step c (c \<lparr> pc_released_runners := rs \<rparr>)" "good_step c (c \<lparr> pc_released := xs \<rparr>)"
  "good_step c (c \<lparr> pc_reservations := xs \<rparr>)" "good_step c (c \<lparr> pc_misses := n \<rparr>)"
  "good_step c (c \<lparr> pc_persisted := pp \<rparr>)"
  by (rule good_step_same; simp)+

lemma install_runner_step: "good_step c (snd (install_runner w root runner fp c))"
proof -
  define changed where "changed = (case state_of c root of None \<Rightarrow> False
      | Some s \<Rightarrow> (case ps_runner s of None \<Rightarrow> False | Some e \<Rightarrow> re_fingerprint e \<noteq> fp))"
  define c1 where "c1 = (if changed then invalidate w root c else c)"
  define f where "f = (\<lambda>s. touch w (fst (next_tick c1)) (s \<lparr> ps_runner :=
      Some \<lparr> re_runner = runner, re_fingerprint = fp, re_revalidate = False \<rparr> \<rparr>))"
  define c2 where "c2 = upd_state root f (ensure_project w root c1)"
  define replaced where "replaced = (case state_of (ensure_project w root c1) root of None \<Rightarrow> None | Some s \<Rightarrow> ps_runner s)"
  define c3 where "c3 = (case replaced of None \<Rightarrow> c2
      | Some e \<Rightarrow> c2 \<lparr> pc_released_runners := pc_released_runners c2 @ [release_runner e] \<rparr>)"
  have "good_step c c1" using invalidate_step good_step_refl by (simp add: c1_def)
  moreover have "good_step c1 c2" unfolding c2_def by (rule ensure_touch_step) (simp_all add: f_def touch_def next_tick_def)
  moreover have "good_step c2 c3" using released_runner_step good_step_refl by (simp add: c3_def split: option.split)
  moreover have "good_step c3 (enforce w (Some root) c3)" by (rule enforce_step)
  ultimately have "good_step c (enforce w (Some root) c3)" by (blast intro: good_step_trans)
  moreover have "snd (install_runner w root runner fp c) = enforce w (Some root) c3"
    by (simp only: install_runner_def Let_def case_prod_beta snd_conv c3_def replaced_def c2_def f_def
        ensure_project_def c1_def changed_def)
  ultimately show ?thesis by simp
qed

lemma drop_runner_step: "good_step c (upd_state root (\<lambda>s. s \<lparr> ps_runner := None \<rparr>) c)"
  by (rule good_step_upd) (auto simp: used_def)

lemma drop_in_flight_step:
  "good_step c (upd_state root (\<lambda>s. if P s then s \<lparr> ps_in_flight := None \<rparr> else s) c)"
  by (rule good_step_upd) (auto simp: used_def split: if_splits)

lemma discard_project_step: "good_step c (discard_project w root c)"
proof -
  define c1 where "c1 = invalidate w root c"
  define c2 where "c2 = (case state_of c1 root of None \<Rightarrow> c1
      | Some s \<Rightarrow> (case ps_runner s of None \<Rightarrow> c1
          | Some e \<Rightarrow> upd_state root (\<lambda>s. s \<lparr> ps_runner := None \<rparr>) c1
              \<lparr> pc_released_runners := pc_released_runners c1 @ [release_runner e] \<rparr>))"
  have "good_step c c1" unfolding c1_def by (rule invalidate_step)
  moreover have "good_step c1 c2" unfolding c2_def
    using good_step_trans [OF drop_runner_step released_runner_step(1)] good_step_refl
    by (auto split: option.split)
  moreover have "good_step c2 (enforce w None c2)" by (rule enforce_step)
  ultimately have "good_step c (enforce w None c2)" by (blast intro: good_step_trans)
  then show ?thesis by (simp only: discard_project_def Let_def c1_def c2_def)
qed

lemma invalidate_after_maven_step: "good_step c (invalidate_after_maven w root c)"
  unfolding invalidate_after_maven_def
  by (rule good_step_trans [OF invalidate_step good_step_upd]) (auto simp: used_def)

lemma require_full_rebuild_step: "good_step c (require_full_rebuild w root c)"
  unfolding require_full_rebuild_def fresh_generation_def Let_def prod.case
  by (rule good_step_trans [OF new_entry_step good_step_upd]) (auto simp: used_def)

lemma finish_full_rebuild_step: "good_step c (finish_full_rebuild root g c)"
  unfolding finish_full_rebuild_def by (rule good_step_upd) (auto simp: used_def split: if_splits)

lemma invalidate_generation_step: "good_step c (invalidate_generation w root g c)"
  using invalidate_step good_step_refl by (simp add: invalidate_generation_def)

lemma start_build_step: "good_step c (snd (start_build root cell owner c))"
proof -
  have "good_step c (upd_state root (\<lambda>s. s \<lparr> ps_in_flight :=
      Some \<lparr> if_generation = ps_generation s, if_cell = cell, if_owner = owner \<rparr> \<rparr>) c)"
    by (rule good_step_upd) (auto simp: used_def)
  then show ?thesis using good_step_refl by (auto simp: start_build_def split: option.split)
qed

lemma lookup_index_step: "good_step c (snd (lookup_index w root project cell owner c))"
proof -
  define c1 where "c1 = upd_state root (\<lambda>s. s \<lparr> ps_last_used_tick := pc_tick c + 1 \<rparr>) (ensure_project w root c)"
  have 1: "good_step c c1" unfolding c1_def by (rule ensure_touch_step) simp_all
  have build: "good_step d (snd (start_build root cell owner (d \<lparr> pc_misses := n \<rparr>)))" for d n
    by (rule good_step_trans [OF released_runner_step(4) start_build_step])
  have inval: "good_step c1 (snd (start_build root cell owner (invalidate w root c1 \<lparr> pc_misses := n \<rparr>)))" for n
    by (rule good_step_trans [OF invalidate_step build])
  have "snd (lookup_index w root project cell owner c) \<in>
      {c1, snd (start_build root cell owner (c1 \<lparr> pc_misses := pc_misses c1 + 1 \<rparr>)),
       snd (start_build root cell owner (invalidate w root c1 \<lparr> pc_misses := pc_misses (invalidate w root c1) + 1 \<rparr>))}"
    by (auto simp: lookup_index_def next_tick_def fresh_generation_def Let_def c1_def ensure_project_eq
        split: option.splits)
  then have "good_step c1 (snd (lookup_index w root project cell owner c))"
    using build inval good_step_refl by auto
  with 1 show ?thesis by (rule good_step_trans)
qed

lemma reserve_step: "good_step c (snd (reserve w root g bytes rid c))"
proof -
  define c1 where "c1 = prune w c"
  define c2 where "c2 = evict_while (loop_fuel c1) (over_budget w bytes) (evict_any w None (Some root)) c1"
  have 1: "good_step c c1" unfolding c1_def by (rule prune_step)
  have 2: "good_step c1 c2" unfolding c2_def by (rule good_step_shrinks [OF anyv.evict_while_shrinks])
  have "snd (reserve w root g bytes rid c) \<in> {c1, c2, c2 \<lparr> pc_reservations := pc_reservations c2 @ [(rid, bytes)] \<rparr>}"
    by (simp add: reserve_def Let_def c1_def [symmetric] c2_def [symmetric])
  moreover have 3: "good_step c c2" by (rule good_step_trans [OF 1 2])
  moreover have "good_step c (c2 \<lparr> pc_reservations := pc_reservations c2 @ [(rid, bytes)] \<rparr>)"
    by (rule good_step_trans [OF 3 released_runner_step(3)])
  ultimately show ?thesis using 1 by auto
qed

lemma finish_failed_step: "good_step c (finish_failed w root g c)"
  unfolding finish_failed_def by (rule good_step_trans [OF drop_in_flight_step enforce_step])

text \<open>The three ways a publication can end, with the cache each of them leaves.\<close>

definition pub_entry :: "world \<Rightarrow> nat \<Rightarrow> FinishedBuild \<Rightarrow> ProjectFingerprint \<Rightarrow> CachedIndex" where
  "pub_entry w index build project =
     \<lparr> ci_index = index, ci_project = project, ci_artifacts = fb_artifacts build,
       ci_bytes = wd_index_bytes w index + fp_estimated_bytes (fb_artifacts build),
       ci_classpath_entries = fb_classpath_entries build, ci_build_duration = fb_duration build \<rparr>"

definition pub_world :: "world \<Rightarrow> nat \<Rightarrow> world" where
  "pub_world w reservation = w \<lparr> wd_reservation_held := (wd_reservation_held w)(reservation := False) \<rparr>"

definition pub_installed :: "world \<Rightarrow> path \<Rightarrow> CachedIndex \<Rightarrow> ProjectCache \<Rightarrow> ProjectCache" where
  "pub_installed w root entry c =
     enforce w (Some root)
       (upd_state root (\<lambda>s. touch w (pc_tick c + 1) (s \<lparr> ps_in_flight := None, ps_index := Some entry \<rparr>))
          (c \<lparr> pc_tick := pc_tick c + 1 \<rparr>))"

lemma publish_eq:
  "publish w0 root g index build project reservation c =
     (let w = pub_world w0 reservation; c = prune w c; e = pub_entry w0 index build project;
          d = pub_installed w root e c
      in if \<not> is_current root g c then (PubStale, c)
         else if cl_max_bytes (pc_limits c) < ci_bytes e
         then (PubUncached, upd_state root (\<lambda>s. s \<lparr> ps_in_flight := None \<rparr>) c
                 \<lparr> pc_released := pc_released c @ [(index, ci_bytes e)] \<rparr>)
         else if cl_max_bytes (pc_limits d) < retained_bytes w d then (PubUncached, release_index w root d)
         else (PubRetained, d))"
  by (simp add: publish_def pub_world_def pub_entry_def pub_installed_def next_tick_def Let_def)

lemma pub_installed_step: "good_step c (pub_installed w root e c)"
  unfolding pub_installed_def
  by (rule good_step_trans [OF touch_project_step enforce_step]) (simp_all add: touch_def)

lemma publish_step: "good_step c (snd (publish w0 root g index build project reservation c))"
proof -
  define w where "w = pub_world w0 reservation"
  define c1 where "c1 = prune w c"
  define e where "e = pub_entry w0 index build project"
  define d where "d = pub_installed w root e c1"
  have 1: "good_step c c1" unfolding c1_def by (rule prune_step)
  have 2: "good_step c d" unfolding d_def by (rule good_step_trans [OF 1 pub_installed_step])
  have 3: "good_step c (release_index w root d)" by (rule good_step_trans [OF 2 release_index_step])
  have 4: "good_step c (upd_state root (\<lambda>s. s \<lparr> ps_in_flight := None \<rparr>) c1
             \<lparr> pc_released := pc_released c1 @ [(index, ci_bytes e)] \<rparr>)"
    using good_step_trans [OF good_step_trans [OF 1 drop_in_flight_step [where P = "\<lambda>_. True"]] released_runner_step(2)]
    by simp
  show ?thesis using 1 2 3 4
    by (simp add: publish_eq Let_def w_def [symmetric] c1_def [symmetric] e_def [symmetric] d_def [symmetric])
qed

section \<open>Runs of the cache\<close>

datatype cache_op =
    RunnerFor path
  | InstallRunner path nat ProjectFingerprint
  | DiscardProject path
  | InvalidateAfterMaven path
  | RequireFullRebuild path
  | FinishFullRebuild path nat
  | InvalidateGeneration path nat
  | LookupIndex path ProjectFingerprint nat nat
  | RecordHit path
  | Reserve path nat nat nat
  | Publish path nat nat FinishedBuild ProjectFingerprint nat
  | FinishFailed path nat
  | RecordPersistedUse bool nat nat

fun apply_op :: "world \<Rightarrow> cache_op \<Rightarrow> ProjectCache \<Rightarrow> ProjectCache" where
  "apply_op w (RunnerFor root) c = snd (runner_for w root c)"
| "apply_op w (InstallRunner root runner fp) c = snd (install_runner w root runner fp c)"
| "apply_op w (DiscardProject root) c = discard_project w root c"
| "apply_op w (InvalidateAfterMaven root) c = invalidate_after_maven w root c"
| "apply_op w (RequireFullRebuild root) c = require_full_rebuild w root c"
| "apply_op w (FinishFullRebuild root g) c = finish_full_rebuild root g c"
| "apply_op w (InvalidateGeneration root g) c = invalidate_generation w root g c"
| "apply_op w (LookupIndex root fp cell owner) c = snd (lookup_index w root fp cell owner c)"
| "apply_op w (RecordHit root) c = record_hit w root c"
| "apply_op w (Reserve root g bytes rid) c = snd (reserve w root g bytes rid c)"
| "apply_op w (Publish root g index build fp rid) c = snd (publish w root g index build fp rid c)"
| "apply_op w (FinishFailed root g) c = finish_failed w root g c"
| "apply_op w (RecordPersistedUse hit a b) c = record_persisted_use hit a b c"

lemma apply_op_step: "good_step c (apply_op w op c)"
  by (cases op)
    (simp_all add: runner_for_step install_runner_step discard_project_step invalidate_after_maven_step
      require_full_rebuild_step finish_full_rebuild_step invalidate_generation_step lookup_index_step
      record_hit_step reserve_step publish_step finish_failed_step record_persisted_use_def released_runner_step)

text \<open>The operations of all requests run one after another under the lock, each in the world of its time.\<close>

inductive cache_run :: "ProjectCache \<Rightarrow> ProjectCache \<Rightarrow> bool" where
  here: "cache_run c c"
| step: "cache_run c d \<Longrightarrow> cache_run c (apply_op w op d)"

lemma cache_run_good: "cache_run c d \<Longrightarrow> good_step c d"
  by (induction rule: cache_run.induct) (blast intro: good_step_refl good_step_trans apply_op_step)+

lemma cache_ok_new: "cache_ok (new_cache limits)"
  by (simp add: cache_ok_def new_cache_def keys_ok_def state_of_def)

lemma cache_run_ok: "cache_run (new_cache limits) c \<Longrightarrow> cache_ok c"
  using cache_run_good cache_ok_new by (auto simp: good_step_def)

lemma cache_run_ok': "cache_run c d \<Longrightarrow> cache_ok c \<Longrightarrow> cache_ok d"
  using cache_run_good by (auto simp: good_step_def)

section \<open>Protected projects, budgets and counts\<close>

lemma evict_while_rel:
  assumes "\<And>c. R c (snd (evict c))" "\<And>c. R c c" "\<And>a b c. R a b \<Longrightarrow> R b c \<Longrightarrow> R a c"
  shows "R c (evict_while n over evict c)"
proof (induction n arbitrary: c)
  case (Suc n)
  obtain b d where d: "evict c = (b, d)" by fastforce
  then show ?case using assms(1) [of c] Suc.IH [of d] assms(2,3) by (cases b) auto
qed (simp add: assms(2))

text \<open>The index of a project is kept, in its generation.\<close>

definition keeps_index :: "path \<Rightarrow> ProjectCache \<Rightarrow> ProjectCache \<Rightarrow> bool" where
  "keeps_index root c d \<longleftrightarrow>
     (\<forall>s e. state_of c root = Some s \<and> ps_index s = Some e \<longrightarrow>
        (\<exists>s'. state_of d root = Some s' \<and> ps_index s' = Some e \<and> ps_generation s' = ps_generation s))"

lemma keeps_index_trans: "keeps_index root a b \<Longrightarrow> keeps_index root b c \<Longrightarrow> keeps_index root a c"
  unfolding keeps_index_def by metis

lemma keeps_index_evict_index: "keeps_index root c (snd (evict_least_recently_used_index w (Some root) c))"
proof (cases "index_victim (Some root) c")
  case (Some v)
  then have "v \<noteq> root" using index_victim_Some [OF Some] by metis
  then show ?thesis using Some
    by (auto simp: keeps_index_def evict_least_recently_used_index_def Let_def state_of_release_index
        split: option.splits)
qed (auto simp: keeps_index_def evict_least_recently_used_index_def)

lemma keeps_index_evict_runner: "keeps_index root c (snd (evict_least_recently_used_runner w p c))"
  by (auto simp: keeps_index_def evict_least_recently_used_runner_def split: option.splits)

lemma keeps_index_evict_any: "keeps_index root c (snd (evict_any w (Some root) p c))"
proof (cases "evict_least_recently_used_index w (Some root) c")
  case (Pair b d)
  then show ?thesis
    using keeps_index_evict_index [of root c w] keeps_index_evict_runner [of root d w p] keeps_index_trans
    by (cases b) (auto simp: evict_any_def)
qed

lemma keeps_index_enforce:
  assumes "keys_ok c"
  shows "keeps_index root c (enforce w (Some root) c)"
proof -
  have refl: "keeps_index root c c" for c by (simp add: keeps_index_def)
  have prune: "keeps_index root c (prune w c)" for c by (auto simp: keeps_index_def)
  have retain: "keeps_index root c (retain_states w c)" if "keys_ok c" for c
    using state_of_retain [OF that] by (auto simp: keeps_index_def)
  define c1 where "c1 = prune w c"
  define c2 where "c2 = evict_while (loop_fuel c1) too_many_indexes (evict_least_recently_used_index w (Some root)) c1"
  define c3 where "c3 = evict_while (loop_fuel c2) (over_budget w 0) (evict_any w (Some root) (Some root)) c2"
  define c4 where "c4 = evict_while (loop_fuel c3) too_many_runners (evict_least_recently_used_runner w (Some root)) c3"
  have "keeps_index root c1 c2" unfolding c2_def
    by (rule evict_while_rel) (rule keeps_index_evict_index refl keeps_index_trans; assumption?)+
  moreover have "keeps_index root c2 c3" unfolding c3_def
    by (rule evict_while_rel) (rule keeps_index_evict_any refl keeps_index_trans; assumption?)+
  moreover have "keeps_index root c3 c4" unfolding c4_def
    by (rule evict_while_rel) (rule keeps_index_evict_runner refl keeps_index_trans; assumption?)+
  moreover have "keys_ok c4"
  proof -
    have k1: "keys_ok c1" using assms by (simp add: c1_def)
    have k2: "keys_ok c2" unfolding c2_def by (rule shrinks_keys [OF loop_shrinks(1) [OF k1]])
    have k3: "keys_ok c3" unfolding c3_def by (rule shrinks_keys [OF loop_shrinks(3) [OF k2]])
    show ?thesis unfolding c4_def by (rule shrinks_keys [OF loop_shrinks(2) [OF k3]])
  qed
  moreover have "enforce w (Some root) c = retain_states w c4"
    by (simp add: enforce_def Let_def c1_def c2_def c3_def c4_def)
  ultimately show ?thesis using prune [of c] retain [of c4] keeps_index_trans c1_def by metis
qed

text \<open>Counting projects by their roots.\<close>

definition index_roots :: "ProjectCache \<Rightarrow> path set" where
  "index_roots c = {root. \<exists>s. state_of c root = Some s \<and> ps_index s \<noteq> None}"

definition runner_roots :: "ProjectCache \<Rightarrow> path set" where
  "runner_roots c = {root. \<exists>s. state_of c root = Some s \<and> ps_runner s \<noteq> None}"

lemma count_roots:
  assumes "keys_ok c"
  shows "length (filter P (map snd (pc_states c))) = card {root. \<exists>s. state_of c root = Some s \<and> P s}"
proof -
  have eq: "{root. \<exists>s. state_of c root = Some s \<and> P s} = fst ` set (filter (P \<circ> snd) (pc_states c))"
    using assms by (force simp: state_of_iff)
  have "distinct (map fst (filter (P \<circ> snd) (pc_states c)))"
    using assms by (simp add: keys_ok_def distinct_map_filter)
  then have "card (set (map fst (filter (P \<circ> snd) (pc_states c)))) = length (map fst (filter (P \<circ> snd) (pc_states c)))"
    by (rule distinct_card)
  then show ?thesis by (simp add: eq filter_map)
qed

lemma finite_roots: "finite (index_roots c)" "finite (runner_roots c)"
proof -
  have "{root. \<exists>s. state_of c root = Some s \<and> P s} \<subseteq> fst ` set (pc_states c)" for P
    by (force simp: state_of_def dest: map_of_SomeD)
  then show "finite (index_roots c)" "finite (runner_roots c)"
    unfolding index_roots_def runner_roots_def by (meson finite_imageI finite_set finite_subset)+
qed

lemma index_count_card: "keys_ok c \<Longrightarrow> index_count c = card (index_roots c)"
  unfolding index_count_def index_roots_def by (rule count_roots)

lemma runner_count_card: "keys_ok c \<Longrightarrow> runner_count c = card (runner_roots c)"
  unfolding runner_count_def runner_roots_def by (rule count_roots)

lemma shrinks_roots: "shrinks w c d \<Longrightarrow> index_roots d \<subseteq> index_roots c" "shrinks w c d \<Longrightarrow> runner_roots d \<subseteq> runner_roots c"
  unfolding shrinks_def index_roots_def runner_roots_def state_le_def by fastforce+

lemma index_victim_None_roots:
  "keys_ok c \<Longrightarrow> index_victim p c = None \<longleftrightarrow> index_roots c \<subseteq> set_option p"
  unfolding index_victim_None index_roots_def by (force simp: state_of_iff)

text \<open>Evicting a runner or dropping an empty project never raises the retained bytes.\<close>

lemma sum_upd_state:
  assumes "distinct (map fst xs)" "(v, s) \<in> set xs"
  shows "sum_list (map (\<lambda>(_, s). g s) (map (\<lambda>(k, s). (k, if k = v then f s else s)) xs)) + g s =
    sum_list (map (\<lambda>(_, s). g s) xs) + (g (f s) :: nat)"
  using assms
proof (induction xs)
  case (Cons x xs)
  have keep: "map (\<lambda>(k, s). (k, if k = v then f s else s)) ys = ys" if "v \<notin> fst ` set ys" for ys
    using that by (induction ys) force+
  show ?case
  proof (cases "x = (v, s)")
    case True
    then show ?thesis using Cons.prems keep [of xs] by simp
  next
    case False
    then have "fst x \<noteq> v" "(v, s) \<in> set xs" using Cons.prems by (force simp: image_iff)+
    then show ?thesis using Cons by (cases x) (simp add: add.assoc)
  qed
qed simp

lemma list_ex_upd:
  assumes "\<And>s. P (f s) \<Longrightarrow> P s" "list_ex (\<lambda>(_, s). P s) (map (\<lambda>(k, s). (k, if k = v then f s else s)) xs)"
  shows "list_ex (\<lambda>(_, s). P s) xs"
  using assms(2)
proof (induction xs)
  case (Cons x xs)
  obtain k s where x: "x = (k, s)" by fastforce
  have "P s \<or> list_ex (\<lambda>(_, s). P s) xs"
    using Cons assms(1) [of s] unfolding x by (cases "k = v") auto
  then show ?case unfolding x by simp
qed simp

lemma retained_bytes_evict_runner:
  assumes "keys_ok c"
  shows "retained_bytes w (snd (evict_least_recently_used_runner w p c)) \<le> retained_bytes w c"
proof (cases "runner_victim w p c")
  case None
  then show ?thesis by (simp add: evict_least_recently_used_runner_def)
next
  case (Some v)
  obtain s where s: "(v, s) \<in> set (pc_states c)" "ps_runner s \<noteq> None"
    using runner_victim_Some [OF Some] by metis
  then obtain e where e: "ps_runner s = Some e" by auto
  let ?f = "\<lambda>s. s \<lparr> ps_runner := None \<rparr>"
  let ?d = "upd_state v ?f c \<lparr> pc_released_runners := pc_released_runners c @ [release_runner e] \<rparr>"
  have "state_of c v = Some s" using s(1) assms by (simp add: state_of_iff)
  then have d: "snd (evict_least_recently_used_runner w p c) = ?d"
    using Some e by (simp add: evict_least_recently_used_runner_def)
  have states: "pc_states ?d = map (\<lambda>(k, s). (k, if k = v then ?f s else s)) (pc_states c)"
    by (simp add: upd_state_def)
  have "sum_list (map (\<lambda>(_, s). state_bytes w s) (pc_states ?d)) + state_bytes w s =
      sum_list (map (\<lambda>(_, s). state_bytes w s) (pc_states c)) + state_bytes w (?f s)"
    unfolding states using assms s(1) by (intro sum_upd_state) (simp_all add: keys_ok_def)
  then have sum: "sum_list (map (\<lambda>(_, s). state_bytes w s) (pc_states ?d)) + entry_bytes w e =
      sum_list (map (\<lambda>(_, s). state_bytes w s) (pc_states c))"
    using e by (simp add: state_bytes_def)
  have idx: "index_strong w ?d i \<Longrightarrow> index_strong w c i" for i
    unfolding index_strong_def states
    using list_ex_upd [of "\<lambda>s. case ps_index s of None \<Rightarrow> False | Some e \<Rightarrow> ci_index e = i" ?f v] by auto
  have rnr: "runner_strong w ?d r \<Longrightarrow> runner_strong w c r" for r
    unfolding runner_strong_def states
    using list_ex_upd [of "\<lambda>s. case ps_runner s of None \<Rightarrow> False | Some e \<Rightarrow> re_runner e = r" ?f v] by auto
  have "released_runner_bytes w ?d r \<le> released_runner_bytes w c r" for r
    using rnr by (simp add: released_runner_bytes_def)
  then have rel: "sum_list (map (released_runner_bytes w ?d) rs) \<le> sum_list (map (released_runner_bytes w c) rs)" for rs
    by (intro sum_list_mono) simp
  have new: "released_runner_bytes w ?d (release_runner e) \<le> entry_bytes w e"
    by (simp add: released_runner_bytes_def release_runner_def entry_bytes_def runner_bytes_def)
  have same: "pc_released ?d = pc_released c" "pc_reservations ?d = pc_reservations c"
    by (simp_all add: upd_state_def upd_states_def)
  have "sum_list (map snd (filter (\<lambda>(i, _). index_strong w ?d i) xs)) \<le>
      sum_list (map snd (filter (\<lambda>(i, _). index_strong w c i) xs))" for xs :: "(nat \<times> nat) list"
    using idx by (induction xs) auto
  from this [of "pc_released c"] show ?thesis unfolding d retained_bytes_def same
    using sum rel [of "pc_released_runners c"] new by simp
qed

lemma retained_bytes_retain: "retained_bytes w (retain_states w c) \<le> retained_bytes w c"
proof -
  let ?d = "retain_states w c"
  have "sum_list (map g (filter P xs)) \<le> sum_list (map g xs)" for g :: "path \<times> ProjectState \<Rightarrow> nat" and P xs
    by (induction xs) auto
  then have "sum_list (map (\<lambda>(_, s). state_bytes w s) (pc_states ?d)) \<le> sum_list (map (\<lambda>(_, s). state_bytes w s) (pc_states c))"
    by (simp add: retain_states_def)
  moreover have idx: "index_strong w ?d = index_strong w c"
    by (rule ext) (auto simp: index_strong_def retain_states_def list_ex_iff split: option.splits)
  moreover have rnr: "runner_strong w ?d = runner_strong w c"
    by (rule ext) (auto simp: runner_strong_def retain_states_def list_ex_iff split: option.splits)
  moreover have "released_runner_bytes w ?d = released_runner_bytes w c"
    by (rule ext) (simp add: released_runner_bytes_def rnr)
  ultimately show ?thesis by (simp add: retained_bytes_def) (simp add: retain_states_def)
qed

lemma runner_loop_bytes:
  "keys_ok c \<Longrightarrow> retained_bytes w (evict_while n over (evict_least_recently_used_runner w p) c) \<le> retained_bytes w c"
proof (induction n arbitrary: c)
  case (Suc n)
  obtain b d where d: "evict_least_recently_used_runner w p c = (b, d)" by fastforce
  have "retained_bytes w d \<le> retained_bytes w c" "keys_ok d"
    using retained_bytes_evict_runner [OF Suc.prems, of w p] shrinks_keys [OF shrinks_evict_runner [OF Suc.prems, of w p]] d
    by simp_all
  then show ?case using d Suc.IH [of d] by (cases b) auto
qed simp

lemma shrinksD: "shrinks w c d \<Longrightarrow> state_of d r = Some s' \<Longrightarrow> \<exists>s. state_of c r = Some s \<and> state_le w s s'"
  by (simp add: shrinks_def)

lemma index_victim_mono: "index_victim p c = None \<Longrightarrow> shrinks w c d \<Longrightarrow> keys_ok c \<Longrightarrow> index_victim p d = None"
  using shrinks_roots(1) [of w c d] shrinks_keys [of w c d] by (simp add: index_victim_None_roots)

lemma runner_victim_mono:
  assumes "runner_victim w p c = None" "shrinks w c d" "keys_ok c"
  shows "runner_victim w p d = None"
proof -
  have "ps_runner s' = None \<or> has_live_build w s' \<or> p = Some r" if b: "state_of d r = Some s'" for r s'
  proof -
    obtain s where s: "state_of c r = Some s" "state_le w s s'" using shrinksD [OF assms(2) b] by blast
    then have "ps_runner s = None \<or> has_live_build w s \<or> p = Some r"
      using assms(1,3) by (auto simp: runner_victim_None state_of_iff)
    then show ?thesis using s(2) state_le_live [OF s(2)] by (auto simp: state_le_def)
  qed
  then show ?thesis using shrinks_keys [OF assms(2)] by (force simp: runner_victim_None state_of_iff)
qed

text \<open>The stages of \<open>enforce\<close> and why each loop stopped.\<close>

lemma enforce_stages:
  assumes "keys_ok c"
  obtains c2 c3 c4 where "shrinks w c2 c3" "shrinks w c3 c4" "shrinks w c4 (enforce w p c)"
    "keys_ok c2" "pc_limits c2 = pc_limits c"
    "index_count c2 \<le> cl_max_indexes (pc_limits c) \<or> index_victim p c2 = None"
    "retained_bytes w c3 \<le> cl_max_bytes (pc_limits c) \<or> index_victim p c3 = None \<and> runner_victim w p c3 = None"
    "runner_count c4 \<le> cl_max_runners (pc_limits c) \<or> runner_victim w p c4 = None"
    "retained_bytes w (enforce w p c) \<le> retained_bytes w c3"
proof -
  define c1 where "c1 = prune w c"
  define c2 where "c2 = evict_while (loop_fuel c1) too_many_indexes (evict_least_recently_used_index w p) c1"
  define c3 where "c3 = evict_while (loop_fuel c2) (over_budget w 0) (evict_any w p p) c2"
  define c4 where "c4 = evict_while (loop_fuel c3) too_many_runners (evict_least_recently_used_runner w p) c3"
  have enf: "enforce w p c = retain_states w c4" by (simp add: enforce_def Let_def c1_def c2_def c3_def c4_def)
  have k1: "keys_ok c1" using assms by (simp add: c1_def)
  have s2: "shrinks w c1 c2" unfolding c2_def by (rule loop_shrinks(1) [OF k1])
  have s3: "shrinks w c2 c3" unfolding c3_def by (rule loop_shrinks(3) [OF shrinks_keys [OF s2]])
  have s4: "shrinks w c3 c4" unfolding c4_def by (rule loop_shrinks(2) [OF shrinks_keys [OF s3]])
  note k = shrinks_keys [OF s2] shrinks_keys [OF s3] shrinks_keys [OF s4]
  have lim: "pc_limits c2 = pc_limits c" "pc_limits c3 = pc_limits c" "pc_limits c4 = pc_limits c"
    using s2 s3 s4 by (simp_all add: shrinks_def c1_def)
  have "\<not> too_many_indexes c2 \<or> evict_least_recently_used_index w p c2 = (False, c2)"
    unfolding c2_def by (rule idx.evict_while_exit [OF k1]) (simp add: loop_fuel_def)
  moreover have "\<not> over_budget w 0 c3 \<or> evict_any w p p c3 = (False, c3)"
    unfolding c3_def by (rule anyv.evict_while_exit [OF k(1)]) (simp add: loop_fuel_def)
  moreover have "\<not> too_many_runners c4 \<or> evict_least_recently_used_runner w p c4 = (False, c4)"
    unfolding c4_def by (rule rnr.evict_while_exit [OF k(2)]) (simp add: loop_fuel_def)
  moreover have "retained_bytes w (retain_states w c4) \<le> retained_bytes w c3"
    using retained_bytes_retain [of w c4] runner_loop_bytes [OF k(2), of w] unfolding c4_def by (meson le_trans)
  ultimately show thesis using s3 s4 shrinks_retain [OF k(3), of w] k(1) lim
    by (intro that [of c2 c3 c4])
      (auto simp: enf too_many_indexes_def over_budget_def too_many_runners_def evict_index_False evict_any_False evict_runner_False)
qed

lemma enforce_limits_hold:
  assumes "keys_ok c" "d = enforce w p c"
  shows "index_count d \<le> cl_max_indexes (pc_limits c) \<or> index_roots d \<subseteq> set_option p"
    and "retained_bytes w d \<le> cl_max_bytes (pc_limits c) \<or> index_victim p d = None \<and> runner_victim w p d = None"
    and "runner_count d \<le> cl_max_runners (pc_limits c) \<or> runner_victim w p d = None"
proof -
  obtain c2 c3 c4 where s: "shrinks w c2 c3" "shrinks w c3 c4" "shrinks w c4 d" "keys_ok c2"
    and ex: "index_count c2 \<le> cl_max_indexes (pc_limits c) \<or> index_victim p c2 = None"
    "retained_bytes w c3 \<le> cl_max_bytes (pc_limits c) \<or> index_victim p c3 = None \<and> runner_victim w p c3 = None"
    "runner_count c4 \<le> cl_max_runners (pc_limits c) \<or> runner_victim w p c4 = None"
    "retained_bytes w d \<le> retained_bytes w c3"
    using enforce_stages [OF assms(1), of w p] unfolding assms(2) by metis
  note k = shrinks_keys [OF s(1)] shrinks_keys [OF s(2)] shrinks_keys [OF s(3)]
  have s3d: "shrinks w c3 d" by (rule shrinks_trans [OF s(2,3)])
  have s2d: "shrinks w c2 d" by (rule shrinks_trans [OF s(1) s3d])
  have "card (index_roots d) \<le> card (index_roots c2)" "card (runner_roots d) \<le> card (runner_roots c4)"
    using shrinks_roots s2d s(3) finite_roots by (blast intro: card_mono)+
  then have le: "index_count d \<le> index_count c2" "runner_count d \<le> runner_count c4"
    using k s(4) by (simp_all add: index_count_card runner_count_card)
  show "index_count d \<le> cl_max_indexes (pc_limits c) \<or> index_roots d \<subseteq> set_option p"
    using ex(1) le(1) index_victim_mono [OF _ s2d s(4)] k(3) by (auto simp: index_victim_None_roots)
  show "retained_bytes w d \<le> cl_max_bytes (pc_limits c) \<or> index_victim p d = None \<and> runner_victim w p d = None"
    using ex(2,4) index_victim_mono [OF _ s3d k(1)] runner_victim_mono [OF _ s3d k(1)] by auto
  show "runner_count d \<le> cl_max_runners (pc_limits c) \<or> runner_victim w p d = None"
    using ex(3) le(2) runner_victim_mono [OF _ s(3) k(2)] by auto
qed

section \<open>Properties\<close>

text \<open>
  Claim C4.  The cache invariant holds after every sequence of operations: projects are unique,
  every generation in use was issued, the marker of a running build carries the generation of its
  project, and no two projects with a runner or an index were last used at the same tick.
\<close>

theorem cache_invariant:
  assumes "cache_run (new_cache limits) c"
  shows "cache_ok c"
  using cache_run_ok [OF assms] .

text \<open>The comparison as the code makes it, on unsigned 64-bit generations.\<close>

definition is_current_u64 :: "path \<Rightarrow> 64 word \<Rightarrow> ProjectCache \<Rightarrow> bool" where
  "is_current_u64 root generation c \<longleftrightarrow>
     (case state_of c root of None \<Rightarrow> False | Some s \<Rightarrow> word_of_nat (ps_generation s) = generation)"

lemma is_current_u64_iff:
  assumes "cache_ok c" "pc_next_generation c < 2 ^ 64" "g < 2 ^ 64"
  shows "is_current_u64 root (word_of_nat g) c \<longleftrightarrow> is_current root g c"
proof (cases "state_of c root")
  case (Some s)
  then have "ps_generation s \<le> pc_next_generation c" using cache_okD(2) [OF assms(1)] by (simp add: state_ok_def)
  then have "word_of_nat (ps_generation s) = (word_of_nat g :: 64 word) \<longleftrightarrow> ps_generation s = g"
    using assms(2,3) by (simp add: word_of_nat_eq_iff take_bit_nat_eq_self)
  then show ?thesis using Some by (simp add: is_current_def is_current_u64_def)
qed (simp add: is_current_def is_current_u64_def)

lemma stale_build_facts:
  assumes "cache_run (new_cache limits) c" "g \<le> pc_next_generation c"
    and "cache_run (invalidate w root c) d"
  shows "fst (publish w' root g index build project reservation d) = PubStale"
    and "map_option ps_index (state_of (snd (publish w' root g index build project reservation d)) r) =
         map_option ps_index (state_of d r)"
    and "fst (reserve w' root g bytes rid d) = Inl ReserveStale"
    and "map_option ps_index (state_of (snd (reserve w' root g bytes rid d)) r) = map_option ps_index (state_of d r)"
    and "pc_next_generation d < 2 ^ 64 \<Longrightarrow> \<not> is_current_u64 root (word_of_nat g) d"
proof -
  have ok: "cache_ok c" by (rule cache_run_ok [OF assms(1)])
  have ok1: "cache_ok (invalidate w root c)" using invalidate_step ok by (auto simp: good_step_def)
  have gen: "gen_step (invalidate w root c) d" using cache_run_good [OF assms(3)] ok1 by (simp add: good_step_def)
  have "ps_generation s \<noteq> g" if s: "state_of d root = Some s" for s
  proof -
    consider s0 where "state_of (invalidate w root c) root = Some s0" "ps_generation s = ps_generation s0"
      | "pc_next_generation (invalidate w root c) < ps_generation s"
      using gen s by (auto simp: gen_step_def)
    then show ?thesis using invalidate_fresh [of w root c] assms(2) by cases auto
  qed
  then have here: "\<not> is_current root g d" by (auto simp: is_current_def split: option.splits)
  then have stale: "\<not> is_current root g (prune v d)" for v
    by (auto simp: is_current_def split: option.splits)
  have "pc_next_generation c \<le> pc_next_generation (invalidate w root c)" using invalidate_step ok by (auto simp: good_step_def gen_step_def)
  then have "g \<le> pc_next_generation d" using assms(2) gen by (simp add: gen_step_def)
  then show "\<not> is_current_u64 root (word_of_nat g) d" if "pc_next_generation d < 2 ^ 64"
    using here is_current_u64_iff [OF cache_run_ok' [OF assms(3) ok1] that] that by simp
  show "fst (publish w' root g index build project reservation d) = PubStale"
    "fst (reserve w' root g bytes rid d) = Inl ReserveStale"
    using stale by (simp_all add: publish_eq reserve_def Let_def)
  show "map_option ps_index (state_of (snd (publish w' root g index build project reservation d)) r) =
         map_option ps_index (state_of d r)"
    using stale by (simp add: publish_eq Let_def option.map_comp o_def)
  show "map_option ps_index (state_of (snd (reserve w' root g bytes rid d)) r) = map_option ps_index (state_of d r)"
    using stale by (simp add: reserve_def Let_def option.map_comp o_def)
qed

text \<open>
  Claim C2.  A stale build is never published: once a project was invalidated after a build of an
  issued generation began, whatever runs in between, publishing that build and reserving memory for it both answer
  \<open>Stale\<close> and both leave the index of every project as it is.  The counters of the model are unbounded; as long as
  fewer than \<open>2 ^ 64\<close> generations were issued the code's comparison on 64 bits tells the build stale as well.
\<close>

theorem stale_build_never_published:
  assumes "cache_run (new_cache limits) c" "g \<le> pc_next_generation c"
    and "cache_run (invalidate w root c) d"
  shows "fst (publish w' root g index build project reservation d) = PubStale \<and>
    (\<forall>r. map_option ps_index (state_of (snd (publish w' root g index build project reservation d)) r) =
         map_option ps_index (state_of d r)) \<and>
    fst (reserve w' root g bytes rid d) = Inl ReserveStale \<and>
    (\<forall>r. map_option ps_index (state_of (snd (reserve w' root g bytes rid d)) r) = map_option ps_index (state_of d r)) \<and>
    (pc_next_generation d < 2 ^ 64 \<longrightarrow> \<not> is_current_u64 root (word_of_nat g) d)"
  using stale_build_facts [OF assms] by blast

lemma publish_retained_facts:
  assumes "cache_run (new_cache limits) c"
    and "publish w root g index build project reservation c = (PubRetained, d)"
  shows "\<exists>s e. state_of d root = Some s \<and> ps_generation s = g \<and> ps_index s = Some e \<and>
           ci_index e = index \<and> ci_project e = project"
    and "retained_bytes (pub_world w reservation) d \<le> cl_max_bytes (pc_limits c)"
    and "index_count d \<le> max 1 (cl_max_indexes (pc_limits c))"
proof -
  define v where "v = pub_world w reservation"
  define e where "e = pub_entry w index build project"
  define c1 where "c1 = prune v c"
  define c2 where "c2 = upd_state root (\<lambda>s. touch v (pc_tick c1 + 1) (s \<lparr> ps_in_flight := None, ps_index := Some e \<rparr>))
          (c1 \<lparr> pc_tick := pc_tick c1 + 1 \<rparr>)"
  have ok: "keys_ok c" using cache_okD(1) [OF cache_run_ok [OF assms(1)]] .
  then have k2: "keys_ok c2" by (simp add: c2_def c1_def)
  have d: "d = enforce v (Some root) c2" "is_current root g c1" "retained_bytes v d \<le> cl_max_bytes (pc_limits d)"
    using assms(2) by (simp_all add: publish_eq Let_def pub_installed_def v_def e_def c1_def c2_def split: if_splits)
  have lim: "pc_limits d = pc_limits c"
    using shrinks_enforce [OF k2, of v "Some root"] d(1) by (simp add: shrinks_def c2_def c1_def)
  obtain s where s: "state_of c1 root = Some s" "ps_generation s = g"
    using d(2) by (auto simp: is_current_def split: option.splits)
  then have "state_of c2 root = Some (touch v (pc_tick c1 + 1) (s \<lparr> ps_in_flight := None, ps_index := Some e \<rparr>))"
    by (simp add: c2_def)
  then have "\<exists>s'. state_of d root = Some s' \<and> ps_index s' = Some e \<and> ps_generation s' = g"
    using keeps_index_enforce [OF k2, of root v] s(2) unfolding d(1) keeps_index_def by (fastforce simp: touch_def)
  then show "\<exists>s e. state_of d root = Some s \<and> ps_generation s = g \<and> ps_index s = Some e \<and>
           ci_index e = index \<and> ci_project e = project"
    by (auto simp: e_def pub_entry_def)
  show "retained_bytes (pub_world w reservation) d \<le> cl_max_bytes (pc_limits c)"
    using d(3) lim by (simp add: v_def)
  have "index_count d \<le> cl_max_indexes (pc_limits c) \<or> index_roots d \<subseteq> {root}"
    using enforce_limits_hold(1) [OF k2 d(1)] by (simp add: c2_def c1_def)
  then show "index_count d \<le> max 1 (cl_max_indexes (pc_limits c))"
    using index_count_card [of d] card_mono [of "{root}" "index_roots d"] shrinks_keys [OF shrinks_enforce [OF k2]] d(1)
    by auto
qed

text \<open>
  A publication that reports \<open>Retained\<close> leaves the new index cached for its project and
  generation, with the retained memory of the whole cache within the byte budget and the number of indexes
  within its limit (or only this index left).
\<close>

lemma publish_retained:
  assumes "cache_run (new_cache limits) c"
    and "publish w root g index build project reservation c = (PubRetained, d)"
  shows "(\<exists>s e. state_of d root = Some s \<and> ps_generation s = g \<and> ps_index s = Some e \<and>
           ci_index e = index \<and> ci_project e = project) \<and>
    retained_bytes (pub_world w reservation) d \<le> cl_max_bytes (pc_limits c) \<and>
    index_count d \<le> max 1 (cl_max_indexes (pc_limits c))"
  using publish_retained_facts [OF assms] by blast

lemma reserve_budget_facts:
  assumes "cache_run (new_cache limits) c" "reserve w root g bytes rid c = (r, d)" "wd_reservation_held w rid"
  shows "r = Inr rid \<Longrightarrow> retained_bytes w d \<le> cl_max_bytes (pc_limits c)"
    and "r = Inl (OverBudget needed limit) \<Longrightarrow>
      limit = cl_max_bytes (pc_limits c) \<and> limit < needed \<and> needed = retained_bytes w d + bytes \<and>
      (\<forall>q s. state_of d q = Some s \<longrightarrow>
         ps_index s = None \<and> (ps_runner s = None \<or> has_live_build w s \<or> q = root))"
proof -
  define c1 where "c1 = prune w c"
  define c2 where "c2 = evict_while (loop_fuel c1) (over_budget w bytes) (evict_any w None (Some root)) c1"
  have k1: "keys_ok c1" using cache_okD(1) [OF cache_run_ok [OF assms(1)]] by (simp add: c1_def)
  have sh: "shrinks w c1 c2" unfolding c2_def by (rule loop_shrinks(3) [OF k1])
  have lim: "pc_limits c2 = pc_limits c" using sh by (simp add: shrinks_def c1_def)
  have out: "r = (if over_budget w bytes c2 then Inl (OverBudget (retained_bytes w c2 + bytes) (cl_max_bytes (pc_limits c2))) else Inr rid)"
      "d = (if over_budget w bytes c2 then c2 else c2 \<lparr> pc_reservations := pc_reservations c2 @ [(rid, bytes)] \<rparr>)"
    if "r \<noteq> Inl ReserveStale"
    using assms(2) that by (auto simp: reserve_def Let_def c1_def c2_def split: if_splits)
  have sum: "retained_bytes w (c2 \<lparr> pc_reservations := pc_reservations c2 @ [(rid, bytes)] \<rparr>) = retained_bytes w c2 + bytes"
    using assms(3) by (simp add: retained_bytes_def index_strong_def runner_strong_def released_runner_bytes_def [abs_def])
  show "retained_bytes w d \<le> cl_max_bytes (pc_limits c)" if "r = Inr rid"
    using out that sum lim by (auto simp: over_budget_def split: if_splits)
  show "limit = cl_max_bytes (pc_limits c) \<and> limit < needed \<and> needed = retained_bytes w d + bytes \<and>
      (\<forall>q s. state_of d q = Some s \<longrightarrow>
         ps_index s = None \<and> (ps_runner s = None \<or> has_live_build w s \<or> q = root))"
    if "r = Inl (OverBudget needed limit)"
  proof -
    have over: "over_budget w bytes c2" "d = c2" using out that by (auto split: if_splits)
    have "\<not> over_budget w bytes c2 \<or> evict_any w None (Some root) c2 = (False, c2)"
      unfolding c2_def by (rule anyv.evict_while_exit [OF k1]) (simp add: loop_fuel_def)
    then have "index_victim None c2 = None" "runner_victim w (Some root) c2 = None"
      using over by (auto simp: evict_any_False)
    then show ?thesis using out that over lim shrinks_keys [OF sh]
      by (auto simp: over_budget_def index_victim_None runner_victim_None state_of_iff)
  qed
qed

text \<open>
  A reservation is granted only within the budget, counting the reservation itself; it is
  refused as over budget only when no index is left to evict and every remaining runner belongs
  to the project itself or to a project with a running build.
\<close>

lemma reserve_budget:
  assumes "cache_run (new_cache limits) c" "reserve w root g bytes rid c = (r, d)" "wd_reservation_held w rid"
  shows "case r of
      Inr _ \<Rightarrow> retained_bytes w d \<le> cl_max_bytes (pc_limits c)
    | Inl ReserveStale \<Rightarrow> \<not> is_current root g c
    | Inl (OverBudget needed limit) \<Rightarrow>
        limit = cl_max_bytes (pc_limits c) \<and> limit < needed \<and> needed = retained_bytes w d + bytes \<and>
        (\<forall>q s. state_of d q = Some s \<longrightarrow>
           ps_index s = None \<and> (ps_runner s = None \<or> has_live_build w s \<or> q = root))"
proof -
  have "is_current root g (prune w c) = is_current root g c"
    by (simp add: is_current_def split: option.split)
  then have "r = Inr n \<Longrightarrow> n = rid" "r = Inl ReserveStale \<Longrightarrow> \<not> is_current root g c" for n
    using assms(2) by (auto simp: reserve_def Let_def split: if_splits)
  note own = this
  show ?thesis
  proof (cases r)
    case (Inr n)
    then show ?thesis using own(1) reserve_budget_facts(1) [OF assms] by simp
  next
    case (Inl e)
    then show ?thesis using own(2) reserve_budget_facts(2) [OF assms] by (cases e) simp_all
  qed
qed

text \<open>
  Index eviction is least recently used and does not depend on the order in which the hash
  map is walked: the evicted project is the only one, among the unprotected projects with an index,
  whose last use is the oldest; every other project keeps its index.
\<close>

lemma lru_index_eviction:
  assumes "cache_run (new_cache limits) c" "evict_least_recently_used_index w protect c = (True, d)"
  shows "\<exists>v s. state_of c v = Some s \<and> ps_index s \<noteq> None \<and> protect \<noteq> Some v \<and>
     (\<forall>q t. state_of c q = Some t \<and> ps_index t \<noteq> None \<and> protect \<noteq> Some q \<and> q \<noteq> v \<longrightarrow>
        ps_last_used_tick s < ps_last_used_tick t) \<and>
     index_roots d = index_roots c - {v}"
proof -
  have ok: "cache_ok c" and k: "keys_ok c" using cache_run_ok [OF assms(1)] cache_okD by blast+
  from assms(2) obtain v where v: "index_victim protect c = Some v"
    and d: "\<And>r. state_of d r = state_of (release_index w v c) r"
    by (auto simp: evict_least_recently_used_index_def Let_def split: option.splits)
  from index_victim_Some [OF v] obtain s where s: "(v, s) \<in> set (pc_states c)" "ps_index s \<noteq> None" "protect \<noteq> Some v"
    "\<And>q t. (q, t) \<in> set (pc_states c) \<Longrightarrow> ps_index t \<noteq> None \<Longrightarrow> protect \<noteq> Some q \<Longrightarrow> ps_last_used_tick s \<le> ps_last_used_tick t"
    by metis
  have sv: "state_of c v = Some s" using s(1) k by (simp add: state_of_iff)
  have "ps_last_used_tick s < ps_last_used_tick t"
    if "state_of c q = Some t" "ps_index t \<noteq> None" "protect \<noteq> Some q" "q \<noteq> v" for q t
    using s(4) [of q t] that cache_ok_ticks [OF ok sv that(1)] s(2) k by (force simp: state_of_iff used_def)
  moreover have "index_roots d = index_roots c - {v}"
    using sv s(2) by (auto simp: index_roots_def d state_of_release_index)
  ultimately show ?thesis using sv s(2,3) by blast
qed

text \<open>
  After \<open>enforce\<close>, which ends every operation that adds to the cache, the number of indexes
  is within its limit or only the protected one is left; the retained bytes are within the budget
  or nothing can be evicted any more; and the number of runners is within its limit or every remaining
  runner is protected or has a running build.  None of the three loops stops early.
\<close>

lemma enforce_within_limits:
  assumes "cache_run (new_cache limits) c"
  shows "(index_count (enforce w p c) \<le> cl_max_indexes (pc_limits c) \<or> index_roots (enforce w p c) \<subseteq> set_option p) \<and>
    (retained_bytes w (enforce w p c) \<le> cl_max_bytes (pc_limits c) \<or>
       index_victim p (enforce w p c) = None \<and> runner_victim w p (enforce w p c) = None) \<and>
    (runner_count (enforce w p c) \<le> cl_max_runners (pc_limits c) \<or> runner_victim w p (enforce w p c) = None)"
  using enforce_limits_hold [OF cache_okD(1) [OF cache_run_ok [OF assms]] refl, of w p] by simp

section \<open>Evaluation on a concrete cache\<close>

text \<open>Evaluation equations without local bindings, so that every stage works on an evaluated cache.\<close>

definition stage :: "(ProjectCache \<Rightarrow> bool) \<Rightarrow> (ProjectCache \<Rightarrow> bool \<times> ProjectCache) \<Rightarrow> ProjectCache \<Rightarrow> ProjectCache" where
  "stage over evict c = evict_while (loop_fuel c) over evict c"

lemma enforce_code [code]:
  "enforce w p c =
     retain_states w (stage too_many_runners (evict_least_recently_used_runner w p)
       (stage (over_budget w 0) (evict_any w p p)
         (stage too_many_indexes (evict_least_recently_used_index w p) (prune w c))))"
  by (simp add: enforce_def stage_def Let_def)

definition publish_finish :: "world \<Rightarrow> path \<Rightarrow> ProjectCache \<Rightarrow> Publication \<times> ProjectCache" where
  "publish_finish w root d =
     (if cl_max_bytes (pc_limits d) < retained_bytes w d then (PubUncached, release_index w root d)
      else (PubRetained, d))"

definition publish_pruned ::
    "world \<Rightarrow> path \<Rightarrow> nat \<Rightarrow> nat \<Rightarrow> CachedIndex \<Rightarrow> ProjectCache \<Rightarrow> Publication \<times> ProjectCache" where
  "publish_pruned w root g index e c =
     (if \<not> is_current root g c then (PubStale, c)
      else if cl_max_bytes (pc_limits c) < ci_bytes e
      then (PubUncached, upd_state root (\<lambda>s. s \<lparr> ps_in_flight := None \<rparr>) c
              \<lparr> pc_released := pc_released c @ [(index, ci_bytes e)] \<rparr>)
      else publish_finish w root (pub_installed w root e c))"

lemma publish_code [code]:
  "publish w root g index build project reservation c =
     publish_pruned (pub_world w reservation) root g index (pub_entry w index build project)
       (prune (pub_world w reservation) c)"
  by (simp add: publish_eq publish_pruned_def publish_finish_def Let_def)

definition reserve_finish :: "world \<Rightarrow> nat \<Rightarrow> nat \<Rightarrow> ProjectCache \<Rightarrow> (ReserveError + nat) \<times> ProjectCache" where
  "reserve_finish w bytes rid c =
     (if over_budget w bytes c
      then (Inl (OverBudget (retained_bytes w c + bytes) (cl_max_bytes (pc_limits c))), c)
      else (Inr rid, c \<lparr> pc_reservations := pc_reservations c @ [(rid, bytes)] \<rparr>))"

definition reserve_pruned ::
    "world \<Rightarrow> path \<Rightarrow> nat \<Rightarrow> nat \<Rightarrow> nat \<Rightarrow> ProjectCache \<Rightarrow> (ReserveError + nat) \<times> ProjectCache" where
  "reserve_pruned w root g bytes rid c =
     (if \<not> is_current root g c then (Inl ReserveStale, c)
      else reserve_finish w bytes rid (stage (over_budget w bytes) (evict_any w None (Some root)) c))"

lemma reserve_code [code]:
  "reserve w root g bytes rid c = reserve_pruned w root g bytes rid (prune w c)"
  by (simp add: reserve_def reserve_pruned_def reserve_finish_def stage_def Let_def)

definition demo_world :: world where
  "demo_world =
     \<lparr> wd_index_held = (\<lambda>_. False), wd_runner_held = (\<lambda>_. False), wd_reservation_held = (\<lambda>r. r = 4),
       wd_cell_held = (\<lambda>_. False), wd_owner_locked = (\<lambda>_. False), wd_test_result_bytes = (\<lambda>_. 0),
       wd_index_bytes = (\<lambda>_. 1000), wd_unix_ms = 7 \<rparr>"

definition demo_limits :: CacheLimits where
  "demo_limits = \<lparr> cl_max_indexes = 2, cl_max_runners = 2, cl_max_bytes = 100000 \<rparr>"

definition demo_build :: FinishedBuild where
  "demo_build = \<lparr> fb_artifacts = [], fb_classpath_entries = 1, fb_duration = 3 \<rparr>"

definition demo_ops :: "cache_op list" where
  "demo_ops = [LookupIndex [[97]] [] 5 6, Publish [[97]] 1 11 demo_build [] 4,
     LookupIndex [[98]] [] 7 8, Publish [[98]] 2 12 demo_build [] 9]"

definition demo_cache :: "nat \<Rightarrow> ProjectCache" where
  "demo_cache n = fold (apply_op demo_world) (take n demo_ops) (new_cache demo_limits)"

lemma cache_run_fold: "cache_run c d \<Longrightarrow> cache_run c (fold (apply_op w) ops d)"
  by (induction ops arbitrary: d) (auto intro: cache_run.step)

lemma demo_cache_run: "cache_run (new_cache demo_limits) (demo_cache n)"
  unfolding demo_cache_def by (rule cache_run_fold [OF cache_run.here])

theorem cache_invariant_witness: "cache_ok (demo_cache 4)"
  by (rule cache_invariant [OF demo_cache_run])

theorem stale_build_never_published_witness:
  "fst (publish demo_world [[97]] 1 11 demo_build [] 4 (invalidate demo_world [[97]] (demo_cache 1))) = PubStale"
proof -
  have "1 \<le> pc_next_generation (demo_cache 1)" by code_simp
  from stale_build_never_published [OF demo_cache_run this cache_run.here] show ?thesis by blast
qed

end
