(* ===== verification/Lexer.thy ===== *)
theory Lexer
  imports Prelude
begin

text \<open>
  The Java and Kotlin lexer of the declaration slicer (\<open>src/index/declaration_source/lexer.rs\<close>).

  The state keeps the remaining text beside the byte position and the line; \<open>bump\<close> and
  \<open>bump_ascii\<close> move both.  Loops over the remaining text are functions with its length as
  measure.  \<open>next_token\<close>, strings, raw strings and string templates call each other; they carry
  fuel, \<open>None\<close> is running out of it, and four units for each remaining character plus one are always
  enough (\<open>next_token_total\<close>).  The Unicode class of letters and digits
  (\<open>char::is_alphanumeric\<close>) is a parameter of the model.
\<close>

section \<open>Tokens and state\<close>

datatype SourceLanguage = Java | Kotlin

definition language_of_entry :: "str \<Rightarrow> SourceLanguage" where
  "language_of_entry entry = (if ends_with (lit ''.kt'') entry then Kotlin else Java)"

datatype TokenKind = Identifier | Punctuation | Literal

record Token =
  tk_kind :: TokenKind
  tk_start :: nat
  tk_end :: nat
  tk_line :: nat
  tk_end_line :: nat

record lexer =
  lx_rest :: str
  lx_position :: nat
  lx_line :: nat

record lex_context =
  lc_source :: str
  lc_language :: SourceLanguage
  lc_alnum :: "ch \<Rightarrow> bool"

definition MAX_TEMPLATE_DEPTH :: nat where
  "MAX_TEMPLATE_DEPTH = 32"

definition MAX_BRACKET_RECOVERY :: nat where
  "MAX_BRACKET_RECOVERY = 8"

definition lex_starts_with :: "str \<Rightarrow> lexer \<Rightarrow> bool" where
  "lex_starts_with p s \<longleftrightarrow> starts_with p (lx_rest s)"

definition bump :: "lexer \<Rightarrow> lexer" where
  "bump s =
     (case lx_rest s of
        [] \<Rightarrow> s
      | c # r \<Rightarrow> \<lparr> lx_rest = r, lx_position = lx_position s + utf8_len c,
                  lx_line = (if c = 10 then lx_line s + 1 else lx_line s) \<rparr>)"

definition bump_ascii :: "nat \<Rightarrow> lexer \<Rightarrow> lexer" where
  "bump_ascii n s = s \<lparr> lx_rest := drop n (lx_rest s), lx_position := lx_position s + n \<rparr>"

definition is_identifier_char :: "lex_context \<Rightarrow> ch \<Rightarrow> bool" where
  "is_identifier_char ctx c \<longleftrightarrow> lc_alnum ctx c \<or> c = 95 \<or> c = 36"

definition current_is :: "(ch \<Rightarrow> bool) \<Rightarrow> lexer \<Rightarrow> bool" where
  "current_is P s \<longleftrightarrow> (case lx_rest s of [] \<Rightarrow> False | c # _ \<Rightarrow> P c)"

lemma lx_rest_bump [simp]: "lx_rest (bump s) = tl (lx_rest s)"
  by (auto simp: bump_def split: list.splits)

lemma length_bump: "lx_rest s \<noteq> [] \<Longrightarrow> length (lx_rest (bump s)) < length (lx_rest s)"
  by (auto simp: bump_def split: list.splits)

lemma current_is_not_Nil: "current_is P s \<Longrightarrow> lx_rest s \<noteq> []"
  by (auto simp: current_is_def)

section \<open>Loops over the remaining text\<close>

function bump_while :: "(ch \<Rightarrow> bool) \<Rightarrow> lexer \<Rightarrow> lexer" where
  "bump_while P s = (if current_is P s then bump_while P (bump s) else s)"
  by pat_completeness auto

termination bump_while
  by (relation "measure (\<lambda>(P, s). length (lx_rest s))") (auto intro: length_bump dest: current_is_not_Nil)

lemma length_bump_ascii:
  "lex_starts_with p s \<Longrightarrow> p \<noteq> [] \<Longrightarrow> n = length p \<Longrightarrow> length (lx_rest (bump_ascii n s)) < length (lx_rest s)"
  by (auto simp: bump_ascii_def lex_starts_with_def starts_with_iff)

function block_comment :: "bool \<Rightarrow> nat \<Rightarrow> lexer \<Rightarrow> lexer" where
  "block_comment nested depth s =
     (if lx_rest s = [] then s
      else if lex_starts_with (lit ''/*'') s \<and> (depth = 0 \<or> nested)
      then block_comment nested (depth + 1) (bump_ascii 2 s)
      else if lex_starts_with (lit ''*/'') s
      then (if depth - 1 = 0 then bump_ascii 2 s else block_comment nested (depth - 1) (bump_ascii 2 s))
      else block_comment nested depth (bump s))"
  by pat_completeness auto

termination block_comment
  by (relation "measure (\<lambda>(nested, depth, s). length (lx_rest s))")
    (auto intro: length_bump length_bump_ascii)

definition skip_block_comment :: "lex_context \<Rightarrow> lexer \<Rightarrow> lexer" where
  "skip_block_comment ctx s = block_comment (lc_language ctx = Kotlin) 0 s"

abbreviation triple_quote :: str where
  "triple_quote \<equiv> [34, 34, 34]"

function skip_text_block :: "lexer \<Rightarrow> lexer" where
  "skip_text_block s =
     (case lx_rest s of
        [] \<Rightarrow> s
      | c # _ \<Rightarrow>
          if c = 92 then skip_text_block (bump (bump s))
          else if lex_starts_with triple_quote s then bump_ascii 3 s
          else skip_text_block (bump s))"
  by pat_completeness auto

termination skip_text_block
  by (relation "measure (\<lambda>s. length (lx_rest s))") auto

function quoted_loop :: "ch \<Rightarrow> lexer \<Rightarrow> lexer" where
  "quoted_loop quote s =
     (case lx_rest s of
        [] \<Rightarrow> s
      | c # _ \<Rightarrow>
          if c = 10 then s
          else if c = 92 then quoted_loop quote (bump (bump s))
          else if c = quote then bump s
          else quoted_loop quote (bump s))"
  by pat_completeness auto

termination quoted_loop
  by (relation "measure (\<lambda>(q, s). length (lx_rest s))") auto

definition skip_quoted :: "ch \<Rightarrow> lexer \<Rightarrow> lexer" where
  "skip_quoted quote s = quoted_loop quote (bump s)"

function skip_number :: "lex_context \<Rightarrow> lexer \<Rightarrow> lexer" where
  "skip_number ctx s =
     (case lx_rest s of
        [] \<Rightarrow> s
      | c # r \<Rightarrow>
          if is_identifier_char ctx c then skip_number ctx (bump s)
          else if c = 46 \<and> (case r of [] \<Rightarrow> False | d # _ \<Rightarrow> is_ascii_digit d) then skip_number ctx (bump s)
          else s)"
  by pat_completeness auto

termination skip_number
  by (relation "measure (\<lambda>(ctx, s). length (lx_rest s))") auto

declare bump_while.simps [simp del, loop_simps] block_comment.simps [simp del, loop_simps]
  skip_text_block.simps [simp del, loop_simps] quoted_loop.simps [simp del, loop_simps]
  skip_number.simps [simp del, loop_simps]

section \<open>Moving forward\<close>

text \<open>
  Every operation consumes a prefix of the remaining text: the position grows by its bytes and the
  line by its newlines.
\<close>

definition newlines :: "str \<Rightarrow> nat" where
  "newlines s = length (filter ((=) 10) s)"

definition consumes :: "str \<Rightarrow> lexer \<Rightarrow> lexer \<Rightarrow> bool" where
  "consumes p s s' \<longleftrightarrow>
     lx_rest s = p @ lx_rest s' \<and> lx_position s' = lx_position s + str_len p \<and>
     lx_line s' = lx_line s + newlines p"

definition adv :: "lexer \<Rightarrow> lexer \<Rightarrow> bool" where
  "adv s s' \<longleftrightarrow> (\<exists>p. consumes p s s')"

lemma newlines_simps [simp]:
  "newlines [] = 0" "newlines (c # s) = (if c = 10 then Suc (newlines s) else newlines s)"
  "newlines (s @ t) = newlines s + newlines t"
  by (auto simp: newlines_def)

lemma consumes_Nil [simp]: "consumes [] s s"
  by (simp add: consumes_def)

lemma consumes_trans: "consumes p s t \<Longrightarrow> consumes q t u \<Longrightarrow> consumes (p @ q) s u"
  by (simp add: consumes_def)

lemma adv_refl [simp]: "adv s s"
  unfolding adv_def by (blast intro: consumes_Nil)

lemma adv_trans: "adv s t \<Longrightarrow> adv t u \<Longrightarrow> adv s u"
  unfolding adv_def by (blast intro: consumes_trans)

lemma adv_length: "adv s s' \<Longrightarrow> length (lx_rest s') \<le> length (lx_rest s)"
  by (auto simp: adv_def consumes_def)

lemma consumes_bump: "lx_rest s = c # r \<Longrightarrow> consumes [c] s (bump s)"
  by (simp add: consumes_def bump_def)

lemma adv_bump [simp]: "adv s (bump s)"
proof (cases "lx_rest s")
  case Nil
  then show ?thesis by (simp add: bump_def)
next
  case (Cons c r)
  then show ?thesis using consumes_bump by (auto simp: adv_def)
qed

lemma consumes_bump_ascii:
  "lex_starts_with p s \<Longrightarrow> n = length p \<Longrightarrow> (\<And>c. c \<in> set p \<Longrightarrow> c < 128 \<and> c \<noteq> 10) \<Longrightarrow>
   consumes p s (bump_ascii n s)"
proof -
  assume p: "lex_starts_with p s" "n = length p" "\<And>c. c \<in> set p \<Longrightarrow> c < 128 \<and> c \<noteq> 10"
  have "newlines p = 0" using p(3) by (induction p) auto
  moreover have "str_len p = length p" using p(3) by (intro str_len_ascii) auto
  ultimately show ?thesis using p(1,2)
    by (auto simp: consumes_def bump_ascii_def lex_starts_with_def starts_with_iff)
qed

lemma adv_bump_ascii:
  "lex_starts_with p s \<Longrightarrow> n = length p \<Longrightarrow> (\<And>c. c \<in> set p \<Longrightarrow> c < 128 \<and> c \<noteq> 10) \<Longrightarrow> adv s (bump_ascii n s)"
  unfolding adv_def by (blast intro: consumes_bump_ascii)

lemma adv_bumpI: "adv (bump s) t \<Longrightarrow> adv s t"
  by (rule adv_trans [OF adv_bump])

lemma adv_bump2I: "adv (bump (bump s)) t \<Longrightarrow> adv s t"
  by (rule adv_bumpI, rule adv_bumpI)

lemma bump_while_adv: "adv s (bump_while P s)"
proof (induction P s rule: bump_while.induct)
  case (1 P s)
  then show ?case using adv_bumpI [of s] by (subst bump_while.simps) simp
qed

lemma adv_open_comment: "lex_starts_with (lit ''/*'') s \<Longrightarrow> adv s (bump_ascii 2 s)"
  and adv_close_comment: "lex_starts_with (lit ''*/'') s \<Longrightarrow> adv s (bump_ascii 2 s)"
  and adv_triple_quote: "lex_starts_with triple_quote s \<Longrightarrow> adv s (bump_ascii 3 s)"
  and adv_template: "lex_starts_with (lit ''${'') s \<Longrightarrow> adv s (bump_ascii 2 s)"
  and adv_arrow: "lex_starts_with (lit ''->'') s \<Longrightarrow> adv s (bump_ascii 2 s)"
  by (rule adv_bump_ascii, assumption, simp, auto)+

lemma block_comment_adv: "adv s (block_comment nested depth s)"
proof (induction nested depth s rule: block_comment.induct)
  case (1 nested depth s)
  show ?case
  proof (cases "lx_rest s = []")
    case False
    then show ?thesis
      using 1 adv_trans [OF adv_open_comment [of s]] adv_trans [OF adv_close_comment [of s]]
        adv_close_comment [of s] adv_bumpI [of s]
      by (subst block_comment.simps) (simp del: lit.simps)
  qed (simp add: block_comment.simps)
qed

lemma skip_text_block_adv: "adv s (skip_text_block s)"
proof (induction s rule: skip_text_block.induct)
  case (1 s)
  show ?case
  proof (cases "lx_rest s")
    case (Cons c r)
    then show ?thesis using 1 [OF Cons] adv_triple_quote [of s] adv_bumpI [of s] adv_bump2I [of s]
      by (subst skip_text_block.simps) simp
  qed (simp add: skip_text_block.simps)
qed

lemma quoted_loop_adv: "adv s (quoted_loop quote s)"
proof (induction quote s rule: quoted_loop.induct)
  case (1 quote s)
  show ?case
  proof (cases "lx_rest s")
    case (Cons c r)
    then show ?thesis using 1 [OF Cons] adv_bumpI [of s] adv_bump2I [of s]
      by (subst quoted_loop.simps) simp
  qed (simp add: quoted_loop.simps)
qed

lemma skip_quoted_adv: "adv s (skip_quoted quote s)"
  unfolding skip_quoted_def by (rule adv_bumpI) (rule quoted_loop_adv)

lemma skip_number_adv: "adv s (skip_number ctx s)"
proof (induction ctx s rule: skip_number.induct)
  case (1 ctx s)
  show ?case
  proof (cases "lx_rest s")
    case (Cons c r)
    then show ?thesis using 1 [OF Cons] adv_bumpI [of s]
      by (subst skip_number.simps) simp
  qed (simp add: skip_number.simps)
qed

section \<open>Trivia\<close>

lemma block_comment_shorter:
  assumes "lex_starts_with (lit ''/*'') s"
  shows "length (lx_rest (block_comment nested 0 s)) < length (lx_rest s)"
proof -
  have ne: "lx_rest s \<noteq> []" using assms by (auto simp: lex_starts_with_def starts_with_iff)
  have "block_comment nested 0 s = block_comment nested 1 (bump_ascii 2 s)"
    using assms ne by (subst block_comment.simps) (simp del: lit.simps)
  moreover have "length (lx_rest (block_comment nested 1 (bump_ascii 2 s))) \<le> length (lx_rest (bump_ascii 2 s))"
    by (rule adv_length [OF block_comment_adv])
  moreover have "length (lx_rest (bump_ascii 2 s)) < length (lx_rest s)"
    using ne by (simp add: bump_ascii_def)
  ultimately show ?thesis by simp
qed

lemma line_comment_shorter:
  assumes "lex_starts_with (lit ''//'') s"
  shows "length (lx_rest (bump_while (\<lambda>c. c \<noteq> 10) s)) < length (lx_rest s)"
proof -
  have c: "current_is (\<lambda>c. c \<noteq> 10) s" and ne: "lx_rest s \<noteq> []"
    using assms by (auto simp: lex_starts_with_def starts_with_iff current_is_def)
  have "length (lx_rest (bump_while (\<lambda>c. c \<noteq> 10) (bump s))) \<le> length (lx_rest (bump s))"
    by (rule adv_length [OF bump_while_adv])
  then show ?thesis using c length_bump [OF ne] by (subst bump_while.simps) simp
qed

function skip_trivia :: "lex_context \<Rightarrow> lexer \<Rightarrow> lexer" where
  "skip_trivia ctx s =
     (if current_is is_whitespace s then skip_trivia ctx (bump s)
      else if lex_starts_with (lit ''//'') s then skip_trivia ctx (bump_while (\<lambda>c. c \<noteq> 10) s)
      else if lex_starts_with (lit ''/*'') s then skip_trivia ctx (skip_block_comment ctx s)
      else s)"
  by pat_completeness auto

termination skip_trivia
  by (relation "measure (\<lambda>(ctx, s). length (lx_rest s))")
    (auto simp: skip_block_comment_def line_comment_shorter block_comment_shorter current_is_def
      simp del: lit.simps split: list.splits)

declare skip_trivia.simps [simp del, loop_simps]

lemma skip_trivia_adv: "adv s (skip_trivia ctx s)"
proof (induction ctx s rule: skip_trivia.induct)
  case (1 ctx s)
  have "adv s (skip_block_comment ctx s)" unfolding skip_block_comment_def by (rule block_comment_adv)
  from 1 adv_bumpI [of s] adv_trans [OF bump_while_adv [of s "\<lambda>c. c \<noteq> 10"]] adv_trans [OF this]
  show ?case by (subst skip_trivia.simps) (simp del: lit.simps)
qed

text \<open>After trivia the text is at its end or at a character that begins neither whitespace nor a comment.\<close>

lemma skip_trivia_done:
  "\<not> current_is is_whitespace (skip_trivia ctx s) \<and>
   \<not> lex_starts_with (lit ''//'') (skip_trivia ctx s) \<and> \<not> lex_starts_with (lit ''/*'') (skip_trivia ctx s)"
proof (induction ctx s rule: skip_trivia.induct)
  case (1 ctx s)
  then show ?case by (subst (1 2 3) skip_trivia.simps) (simp del: lit.simps)
qed

section \<open>Tokens, strings and templates\<close>

definition is_template_start :: "lex_context \<Rightarrow> lexer \<Rightarrow> bool" where
  "is_template_start ctx s \<longleftrightarrow> lc_language ctx = Kotlin \<and> lex_starts_with (lit ''${'') s"

definition make_token :: "TokenKind \<Rightarrow> lexer \<Rightarrow> lexer \<Rightarrow> Token" where
  "make_token kind s s' =
     \<lparr> tk_kind = kind, tk_start = lx_position s, tk_end = lx_position s',
       tk_line = lx_line s, tk_end_line = lx_line s' \<rparr>"

function (sequential) next_token :: "nat \<Rightarrow> lex_context \<Rightarrow> nat \<Rightarrow> lexer \<Rightarrow> (Token option \<times> lexer) option"
  and skip_string :: "nat \<Rightarrow> lex_context \<Rightarrow> nat \<Rightarrow> lexer \<Rightarrow> lexer option"
  and string_loop :: "nat \<Rightarrow> lex_context \<Rightarrow> nat \<Rightarrow> lexer \<Rightarrow> lexer option"
  and skip_raw_string :: "nat \<Rightarrow> lex_context \<Rightarrow> nat \<Rightarrow> lexer \<Rightarrow> lexer option"
  and skip_template :: "nat \<Rightarrow> lex_context \<Rightarrow> nat \<Rightarrow> lexer \<Rightarrow> lexer option"
  and template_loop :: "nat \<Rightarrow> lex_context \<Rightarrow> nat \<Rightarrow> nat \<Rightarrow> lexer \<Rightarrow> lexer option"
where
  "next_token 0 ctx template_depth s0 = None"
| "next_token (Suc n) ctx template_depth s0 =
     (let s = skip_trivia ctx s0
      in case lx_rest s of
           [] \<Rightarrow> Some (None, s)
         | c # _ \<Rightarrow>
             map_option (\<lambda>(kind, s'). (Some (make_token kind s s'), s'))
               (if c = 34 then map_option (\<lambda>s'. (Literal, s')) (skip_string n ctx template_depth s)
                else if c = 39 then Some (Literal, skip_quoted 39 s)
                else if c = 96 \<and> lc_language ctx = Kotlin then Some (Identifier, skip_quoted 96 s)
                else if is_ascii_digit c then Some (Literal, skip_number ctx s)
                else if is_identifier_char ctx c then Some (Identifier, bump_while (is_identifier_char ctx) s)
                else if lex_starts_with (lit ''->'') s then Some (Punctuation, bump_ascii 2 s)
                else Some (Punctuation, bump s)))"
| "skip_string 0 ctx template_depth s = None"
| "skip_string (Suc n) ctx template_depth s =
     (if lex_starts_with triple_quote s
      then (case lc_language ctx of
              Java \<Rightarrow> Some (skip_text_block (bump_ascii 3 s))
            | Kotlin \<Rightarrow> skip_raw_string n ctx template_depth (bump_ascii 3 s))
      else string_loop n ctx template_depth (bump_ascii 1 s))"
| "string_loop 0 ctx template_depth s = None"
| "string_loop (Suc n) ctx template_depth s =
     (case lx_rest s of
        [] \<Rightarrow> Some s
      | c # _ \<Rightarrow>
          if c = 10 then Some s
          else if c = 92 then string_loop n ctx template_depth (bump (bump s))
          else if c = 34 then Some (bump s)
          else if c = 36 \<and> is_template_start ctx s
          then (case skip_template n ctx template_depth s of
                  None \<Rightarrow> None | Some s' \<Rightarrow> string_loop n ctx template_depth s')
          else string_loop n ctx template_depth (bump s))"
| "skip_raw_string 0 ctx template_depth s = None"
| "skip_raw_string (Suc n) ctx template_depth s =
     (if lx_rest s = [] then Some s
      else if lex_starts_with triple_quote s then Some (bump_while ((=) 34) s)
      else if is_template_start ctx s
      then (case skip_template n ctx template_depth s of
              None \<Rightarrow> None | Some s' \<Rightarrow> skip_raw_string n ctx template_depth s')
      else skip_raw_string n ctx template_depth (bump s))"
| "skip_template 0 ctx template_depth s = None"
| "skip_template (Suc n) ctx template_depth s =
     (if MAX_TEMPLATE_DEPTH \<le> template_depth then Some (bump_ascii 2 s)
      else template_loop n ctx template_depth 1 (bump_ascii 2 s))"
| "template_loop 0 ctx template_depth depth s = None"
| "template_loop (Suc n) ctx template_depth depth s =
     (case next_token n ctx (template_depth + 1) s of
        None \<Rightarrow> None
      | Some (None, s') \<Rightarrow> Some s'
      | Some (Some token, s') \<Rightarrow>
          if tk_kind token \<noteq> Punctuation then template_loop n ctx template_depth depth s'
          else if byte_slice (lc_source ctx) (tk_start token) (tk_end token) = Some (lit ''{'')
          then template_loop n ctx template_depth (depth + 1) s'
          else if byte_slice (lc_source ctx) (tk_start token) (tk_end token) = Some (lit ''}'')
          then (if depth - 1 = 0 then Some s' else template_loop n ctx template_depth (depth - 1) s')
          else template_loop n ctx template_depth depth s')"

  by pat_completeness auto

termination
  by (relation "measure (case_sum (case_sum fst (case_sum fst fst)) (case_sum fst (case_sum fst fst)))") auto

text \<open>The loop of \<open>tokenize\<close>; each token takes at least one character.\<close>

fun tokens_from :: "nat \<Rightarrow> lex_context \<Rightarrow> lexer \<Rightarrow> Token list option" where
  "tokens_from 0 ctx s = None"
| "tokens_from (Suc n) ctx s =
     (case next_token (4 * length (lx_rest s) + 1) ctx 0 s of
        None \<Rightarrow> None
      | Some (None, s') \<Rightarrow> Some []
      | Some (Some token, s') \<Rightarrow> map_option ((#) token) (tokens_from n ctx s'))"

definition initial :: "str \<Rightarrow> lexer" where
  "initial source = \<lparr> lx_rest = source, lx_position = 0, lx_line = 0 \<rparr>"

definition tokenize :: "(ch \<Rightarrow> bool) \<Rightarrow> str \<Rightarrow> SourceLanguage \<Rightarrow> Token list option" where
  "tokenize alnum source language =
     tokens_from (Suc (length source)) \<lparr> lc_source = source, lc_language = language, lc_alnum = alnum \<rparr> (initial source)"

section \<open>Fuel suffices and every token takes text\<close>

text \<open>What is documented of \<open>char::is_alphanumeric\<close> on ASCII characters.\<close>

definition ascii_alnum :: "(ch \<Rightarrow> bool) \<Rightarrow> bool" where
  "ascii_alnum alnum \<longleftrightarrow> (\<forall>c < 128. alnum c = is_ascii_alphanumeric c)"

definition sadv :: "lexer \<Rightarrow> lexer \<Rightarrow> bool" where
  "sadv s s' \<longleftrightarrow> adv s s' \<and> length (lx_rest s') < length (lx_rest s)"

lemma sadv_adv: "sadv s s' \<Longrightarrow> adv s s'"
  by (simp add: sadv_def)

lemma sadv_adv_trans: "sadv s t \<Longrightarrow> adv t u \<Longrightarrow> sadv s u"
  using adv_trans adv_length by (fastforce simp: sadv_def)

lemma sadv_bump: "lx_rest s \<noteq> [] \<Longrightarrow> sadv s (bump s)"
  by (simp add: sadv_def length_bump)

lemma sadv_bump_ascii:
  "lex_starts_with p s \<Longrightarrow> p \<noteq> [] \<Longrightarrow> n = length p \<Longrightarrow> (\<And>c. c \<in> set p \<Longrightarrow> c < 128 \<and> c \<noteq> 10) \<Longrightarrow>
   sadv s (bump_ascii n s)"
  unfolding sadv_def using adv_bump_ascii length_bump_ascii by blast

lemma sadv_triple_quote: "lex_starts_with triple_quote s \<Longrightarrow> sadv s (bump_ascii 3 s)"
  and sadv_template: "lex_starts_with (lit ''${'') s \<Longrightarrow> sadv s (bump_ascii 2 s)"
  and sadv_arrow: "lex_starts_with (lit ''->'') s \<Longrightarrow> sadv s (bump_ascii 2 s)"
  by (rule sadv_bump_ascii, assumption, simp, simp, auto)+

lemma sadv_bump_while: "current_is P s \<Longrightarrow> sadv s (bump_while P s)"
  using sadv_adv_trans [OF sadv_bump [OF current_is_not_Nil] bump_while_adv]
  by (subst bump_while.simps) simp

lemma sadv_skip_quoted: "lx_rest s \<noteq> [] \<Longrightarrow> sadv s (skip_quoted q s)"
  unfolding skip_quoted_def by (rule sadv_adv_trans [OF sadv_bump quoted_loop_adv])

lemma sadv_skip_number:
  "lx_rest s = c # r \<Longrightarrow> is_ascii_digit c \<Longrightarrow> ascii_alnum (lc_alnum ctx) \<Longrightarrow> sadv s (skip_number ctx s)"
proof -
  assume c: "lx_rest s = c # r" "is_ascii_digit c" "ascii_alnum (lc_alnum ctx)"
  then have "c < 128" by (simp add: is_ascii_digit_def)
  then have "is_identifier_char ctx c"
    using c by (simp add: is_identifier_char_def ascii_alnum_def is_ascii_alphanumeric_def)
  then have "skip_number ctx s = skip_number ctx (bump s)" using c(1) by (subst skip_number.simps) simp
  then show ?thesis using sadv_adv_trans [OF sadv_bump skip_number_adv] c(1) by simp
qed

definition token_ok :: "lex_context \<Rightarrow> lexer \<Rightarrow> Token option \<Rightarrow> lexer \<Rightarrow> bool" where
  "token_ok ctx s t s' \<longleftrightarrow>
     (case t of
        None \<Rightarrow> s' = skip_trivia ctx s \<and> lx_rest s' = []
      | Some tok \<Rightarrow> sadv (skip_trivia ctx s) s' \<and> (\<exists>k. tok = make_token k (skip_trivia ctx s) s'))"

lemma token_ok_adv: "token_ok ctx s t s' \<Longrightarrow> adv s s'"
  using adv_trans [OF skip_trivia_adv [of s ctx]] sadv_adv [of "skip_trivia ctx s" s'] skip_trivia_adv [of s ctx]
  by (auto simp: token_ok_def split: option.splits)

lemma token_ok_shorter: "token_ok ctx s (Some t) s' \<Longrightarrow> length (lx_rest s') < length (lx_rest s)"
  using adv_length [OF skip_trivia_adv [of s ctx]] by (auto simp: token_ok_def sadv_def)

abbreviation len :: "lexer \<Rightarrow> nat" where
  "len s \<equiv> length (lx_rest s)"

definition next_token_ok :: "lex_context \<Rightarrow> nat \<Rightarrow> bool" where
  "next_token_ok ctx n \<longleftrightarrow> (\<forall>d s. 4 * len s + 1 \<le> n \<longrightarrow>
     (\<exists>t s'. next_token n ctx d s = Some (t, s') \<and> token_ok ctx s t s'))"

definition strings_ok :: "lex_context \<Rightarrow> nat \<Rightarrow> bool" where
  "strings_ok ctx n \<longleftrightarrow>
     (\<forall>d s. current_is ((=) 34) s \<and> 4 * len s \<le> n \<longrightarrow> (\<exists>s'. skip_string n ctx d s = Some s' \<and> sadv s s')) \<and>
     (\<forall>d s. 4 * len s + 3 \<le> n \<longrightarrow> (\<exists>s'. string_loop n ctx d s = Some s' \<and> adv s s')) \<and>
     (\<forall>d s. 4 * len s + 3 \<le> n \<longrightarrow> (\<exists>s'. skip_raw_string n ctx d s = Some s' \<and> adv s s'))"

definition templates_ok :: "lex_context \<Rightarrow> nat \<Rightarrow> bool" where
  "templates_ok ctx n \<longleftrightarrow>
     (\<forall>d s. lex_starts_with (lit ''${'') s \<and> 4 * len s + 2 \<le> n \<longrightarrow>
        (\<exists>s'. skip_template n ctx d s = Some s' \<and> sadv s s')) \<and>
     (\<forall>d k s. 4 * len s + 2 \<le> n \<longrightarrow> (\<exists>s'. template_loop n ctx d k s = Some s' \<and> adv s s'))"

lemma next_token_step:
  assumes "strings_ok ctx n" "ascii_alnum (lc_alnum ctx)"
  shows "next_token_ok ctx (Suc n)"
  unfolding next_token_ok_def
proof (intro allI impI)
  fix d s
  assume fuel: "4 * len s + 1 \<le> Suc n"
  let ?m = "skip_trivia ctx s"
  show "\<exists>t s'. next_token (Suc n) ctx d s = Some (t, s') \<and> token_ok ctx s t s'"
  proof (cases "lx_rest ?m")
    case Nil
    then show ?thesis by (simp add: token_ok_def)
  next
    case (Cons c r)
    have ne: "lx_rest ?m \<noteq> []" using Cons by simp
    have "len ?m \<le> len s" by (rule adv_length [OF skip_trivia_adv])
    then have "c = 34 \<Longrightarrow> \<exists>s'. skip_string n ctx d ?m = Some s' \<and> sadv ?m s'"
      using assms(1) fuel Cons by (auto simp: strings_ok_def current_is_def)
    moreover have "is_ascii_digit c \<Longrightarrow> sadv ?m (skip_number ctx ?m)"
      using sadv_skip_number Cons assms(2) by blast
    moreover have "is_identifier_char ctx c \<Longrightarrow> sadv ?m (bump_while (is_identifier_char ctx) ?m)"
      using Cons by (intro sadv_bump_while) (simp add: current_is_def)
    ultimately show ?thesis
      using Cons sadv_bump [OF ne] sadv_skip_quoted [OF ne] sadv_arrow [of ?m]
      by (auto simp: token_ok_def Let_def simp del: lit.simps)
  qed
qed

lemma string_step:
  assumes "strings_ok ctx n" "templates_ok ctx n"
  shows "strings_ok ctx (Suc n)"
  unfolding strings_ok_def
proof (intro conjI allI impI; (elim conjE)?)
  fix d s
  assume q: "current_is ((=) 34) s" and fuel: "4 * len s \<le> Suc n"
  then have ne: "lx_rest s \<noteq> []" by (simp add: current_is_not_Nil)
  have one: "sadv s (bump_ascii 1 s)"
    using q by (intro sadv_bump_ascii [of "[34]"]) (auto simp: lex_starts_with_def starts_with_iff current_is_def split: list.splits)
  have "4 * len (bump_ascii 1 s) + 3 \<le> n" "4 * len (bump_ascii 3 s) + 3 \<le> n"
  proof -
    obtain k where "len s = Suc k" using ne by (cases "lx_rest s") auto
    then show "4 * len (bump_ascii 1 s) + 3 \<le> n" "4 * len (bump_ascii 3 s) + 3 \<le> n"
      using fuel by (simp_all add: bump_ascii_def)
  qed
  then have "\<exists>s'. string_loop n ctx d (bump_ascii 1 s) = Some s' \<and> adv (bump_ascii 1 s) s'"
    "\<exists>s'. skip_raw_string n ctx d (bump_ascii 3 s) = Some s' \<and> adv (bump_ascii 3 s) s'"
    using assms(1) by (auto simp: strings_ok_def)
  then show "\<exists>s'. skip_string (Suc n) ctx d s = Some s' \<and> sadv s s'"
    using sadv_adv_trans [OF one] sadv_adv_trans [OF sadv_triple_quote [of s]] skip_text_block_adv [of "bump_ascii 3 s"]
    by (auto split: SourceLanguage.split)
next
  fix d s
  assume fuel: "4 * len s + 3 \<le> Suc n"
  show "\<exists>s'. string_loop (Suc n) ctx d s = Some s' \<and> adv s s'"
  proof (cases "lx_rest s")
    case (Cons c r)
    have loop: "\<exists>s'. string_loop n ctx d t = Some s' \<and> adv s s'" if t: "sadv s t" for t
    proof -
      have "4 * len t + 3 \<le> n" using t fuel by (simp add: sadv_def)
      then obtain s' where "string_loop n ctx d t = Some s'" "adv t s'"
        using assms(1) unfolding strings_ok_def by blast
      then show ?thesis using adv_trans [OF sadv_adv [OF t]] by blast
    qed
    have tmpl: "\<exists>s'. skip_template n ctx d s = Some s' \<and> sadv s s'" if "is_template_start ctx s"
      using assms(2) fuel that by (simp add: templates_ok_def is_template_start_def)
    have "sadv s (bump s)" "sadv s (bump (bump s))"
      using sadv_bump [of s] sadv_adv_trans [OF sadv_bump [of s] adv_bump] Cons by simp_all
    from loop [OF this(1)] loop [OF this(2)] this show ?thesis using Cons tmpl loop
      by (auto simp: sadv_adv)
  qed simp
next
  fix d s
  assume fuel: "4 * len s + 3 \<le> Suc n"
  show "\<exists>s'. skip_raw_string (Suc n) ctx d s = Some s' \<and> adv s s'"
  proof (cases "lx_rest s = []")
    case False
    have loop: "\<exists>s'. skip_raw_string n ctx d t = Some s' \<and> adv s s'" if t: "sadv s t" for t
    proof -
      have "4 * len t + 3 \<le> n" using t fuel by (simp add: sadv_def)
      then obtain s' where "skip_raw_string n ctx d t = Some s'" "adv t s'"
        using assms(1) unfolding strings_ok_def by blast
      then show ?thesis using adv_trans [OF sadv_adv [OF t]] by blast
    qed
    have tmpl: "\<exists>s'. skip_template n ctx d s = Some s' \<and> sadv s s'" if "is_template_start ctx s"
      using assms(2) fuel that by (simp add: templates_ok_def is_template_start_def)
    show ?thesis using False loop [OF sadv_bump [OF False]] tmpl loop bump_while_adv [of s "(=) 34"]
      by auto
  qed simp
qed

lemma template_step:
  assumes "next_token_ok ctx n" "templates_ok ctx n"
  shows "templates_ok ctx (Suc n)"
  unfolding templates_ok_def
proof (intro conjI allI impI; (elim conjE)?)
  fix d s
  assume t: "lex_starts_with (lit ''${'') s" and fuel: "4 * len s + 2 \<le> Suc n"
  have sa: "sadv s (bump_ascii 2 s)" by (rule sadv_template [OF t])
  then have "\<exists>s'. template_loop n ctx d 1 (bump_ascii 2 s) = Some s' \<and> adv (bump_ascii 2 s) s'"
    using assms(2) fuel by (auto simp: templates_ok_def sadv_def)
  then show "\<exists>s'. skip_template (Suc n) ctx d s = Some s' \<and> sadv s s'"
    using sa sadv_adv_trans [OF sa] by auto
next
  fix d k s
  assume fuel: "4 * len s + 2 \<le> Suc n"
  obtain t s' where t: "next_token n ctx (d + 1) s = Some (t, s')" "token_ok ctx s t s'"
    using assms(1) fuel unfolding next_token_ok_def by fastforce
  have loop: "\<exists>s''. template_loop n ctx d j s' = Some s'' \<and> adv s s''" if "t = Some tok" for j tok
  proof -
    have "len s' < len s" using token_ok_shorter t(2) that by blast
    then have "4 * len s' + 2 \<le> n" using fuel by simp
    then obtain s'' where "template_loop n ctx d j s' = Some s''" "adv s' s''"
      using assms(2) unfolding templates_ok_def by blast
    then show ?thesis using adv_trans [OF token_ok_adv [OF t(2)]] by blast
  qed
  show "\<exists>s'. template_loop (Suc n) ctx d k s = Some s' \<and> adv s s'"
    using t(1) loop token_ok_adv [OF t(2)] by (cases t) (auto simp del: lit.simps)
qed

lemma fuel_suffices:
  assumes "ascii_alnum (lc_alnum ctx)"
  shows "next_token_ok ctx n \<and> strings_ok ctx n \<and> templates_ok ctx n"
proof (induction n)
  case 0
  show ?case by (auto simp: next_token_ok_def strings_ok_def templates_ok_def current_is_def)
next
  case (Suc n)
  then show ?case using next_token_step string_step template_step assms by blast
qed

section \<open>Tokens of a source text\<close>

text \<open>The state is at the place in the source that its position and line say.\<close>

definition lexer_at :: "str \<Rightarrow> lexer \<Rightarrow> bool" where
  "lexer_at source s \<longleftrightarrow>
     (\<exists>pre. source = pre @ lx_rest s \<and> lx_position s = str_len pre \<and> lx_line s = newlines pre)"

definition token_at :: "str \<Rightarrow> Token \<Rightarrow> bool" where
  "token_at source t \<longleftrightarrow>
     (\<exists>a x b. source = a @ x @ b \<and> x \<noteq> [] \<and> tk_start t = str_len a \<and> tk_end t = str_len (a @ x) \<and>
        tk_line t = newlines a \<and> tk_end_line t = newlines (a @ x))"

lemma lexer_at_adv: "lexer_at source s \<Longrightarrow> adv s s' \<Longrightarrow> lexer_at source s'"
proof -
  assume "lexer_at source s" "adv s s'"
  then obtain pre p where "source = pre @ lx_rest s" "lx_position s = str_len pre" "lx_line s = newlines pre"
    "lx_rest s = p @ lx_rest s'" "lx_position s' = lx_position s + str_len p" "lx_line s' = lx_line s + newlines p"
    by (auto simp: lexer_at_def adv_def consumes_def)
  then have "source = (pre @ p) @ lx_rest s' \<and> lx_position s' = str_len (pre @ p) \<and> lx_line s' = newlines (pre @ p)"
    by simp
  then show ?thesis unfolding lexer_at_def by blast
qed

lemma make_token_at:
  assumes "lexer_at source m" "sadv m s'"
  shows "token_at source (make_token k m s')"
proof -
  from assms obtain a where a: "source = a @ lx_rest m" "lx_position m = str_len a" "lx_line m = newlines a"
    by (auto simp: lexer_at_def)
  from assms(2) obtain x where x: "lx_rest m = x @ lx_rest s'" "lx_position s' = lx_position m + str_len x"
    "lx_line s' = lx_line m + newlines x" "x \<noteq> []"
    by (auto simp: sadv_def adv_def consumes_def)
  have "source = a @ x @ lx_rest s'" using a(1) x(1) by simp
  then show ?thesis unfolding token_at_def make_token_def using a x by (intro exI conjI) simp_all
qed

lemma adv_position: "adv s s' \<Longrightarrow> lx_position s \<le> lx_position s'"
  by (auto simp: adv_def consumes_def)

lemma tokens_from_total:
  assumes "ascii_alnum (lc_alnum ctx)"
  shows "len s < n \<Longrightarrow> lexer_at source s \<Longrightarrow>
    \<exists>ts. tokens_from n ctx s = Some ts \<and>
      (\<forall>t \<in> set ts. token_at source t \<and> lx_position s \<le> tk_start t) \<and>
      sorted_wrt (\<lambda>t u. tk_end t \<le> tk_start u) ts"
proof (induction n arbitrary: s)
  case (Suc n)
  let ?m = "skip_trivia ctx s"
  obtain t s' where t: "next_token (4 * len s + 1) ctx 0 s = Some (t, s')" "token_ok ctx s t s'"
    using fuel_suffices [OF assms, of "4 * len s + 1"] unfolding next_token_ok_def by blast
  show ?case
  proof (cases t)
    case None
    then show ?thesis using t(1) by simp
  next
    case (Some tok)
    then obtain k where k: "sadv ?m s'" "tok = make_token k ?m s'" using t(2) by (auto simp: token_ok_def)
    have at: "lexer_at source ?m" "lexer_at source s'"
      using lexer_at_adv [OF Suc.prems(2)] skip_trivia_adv token_ok_adv [OF t(2)] by blast+
    have "len s' < n" using token_ok_shorter [of ctx s tok s'] t(2) Some Suc.prems(1) by simp
    from Suc.IH [OF this at(2)] obtain ts where ts: "tokens_from n ctx s' = Some ts"
      "\<forall>t \<in> set ts. token_at source t \<and> lx_position s' \<le> tk_start t" "sorted_wrt (\<lambda>t u. tk_end t \<le> tk_start u) ts"
      by blast
    have tok: "tk_start tok = lx_position ?m" "tk_end tok = lx_position s'" "token_at source tok"
      using k make_token_at [OF at(1) k(1)] by (simp_all add: make_token_def)
    have "lx_position s \<le> lx_position ?m" "lx_position s \<le> lx_position s'"
      using adv_position [OF skip_trivia_adv] adv_position [OF token_ok_adv [OF t(2)]] by blast+
    then show ?thesis using t(1) Some ts tok by (fastforce simp del: next_token.simps)
  qed
qed simp

section \<open>Brackets\<close>

text \<open>\<open>Iterator::rposition\<close>: the last index that satisfies a predicate.\<close>

definition rposition :: "('a \<Rightarrow> bool) \<Rightarrow> 'a list \<Rightarrow> nat option" where
  "rposition P xs = find (\<lambda>i. P (xs ! i)) (rev [0..<length xs])"

definition opener_of :: "str \<Rightarrow> str option" where
  "opener_of t =
     (if t = lit '')'' then Some (lit ''('')
      else if t = lit '']'' then Some (lit ''['')
      else if t = lit ''}'' then Some (lit ''{'')
      else None)"

definition is_opener :: "str \<Rightarrow> bool" where
  "is_opener t \<longleftrightarrow> t = lit ''('' \<or> t = lit ''['' \<or> t = lit ''{''"

definition token_text :: "str \<Rightarrow> Token \<Rightarrow> str option" where
  "token_text source token = byte_slice source (tk_start token) (tk_end token)"

lemma token_at_text: "token_at source t \<Longrightarrow> \<exists>x. token_text source t = Some x"
  by (auto simp: token_at_def token_text_def byte_slice_append)

type_synonym bracket_state = "(nat \<times> str) list \<times> nat option list"

text \<open>One iteration of \<open>match_brackets\<close>; the text of a token always exists when the token is of the source.\<close>

definition bracket_step :: "str \<Rightarrow> nat \<times> Token \<Rightarrow> bracket_state \<Rightarrow> bracket_state" where
  "bracket_step source = (\<lambda>(index, token) (opened, matching).
     (if tk_kind token \<noteq> Punctuation then (opened, matching)
      else case token_text source token of
             None \<Rightarrow> (opened, matching)
           | Some t \<Rightarrow>
               if is_opener t then (opened @ [(index, t)], matching)
               else case opener_of t of
                      None \<Rightarrow> (opened, matching)
                    | Some opener \<Rightarrow>
                        let searched = length opened - MAX_BRACKET_RECOVERY
                        in case rposition (\<lambda>(_, value). value = opener) (drop searched opened) of
                             None \<Rightarrow> (opened, matching)
                           | Some p \<Rightarrow>
                               let position = searched + p; start = fst (opened ! position)
                               in (take position opened, matching[start := Some index, index := Some start])))"

definition match_brackets :: "str \<Rightarrow> Token list \<Rightarrow> nat option list" where
  "match_brackets source tokens =
     snd (fold (bracket_step source) (enumerate 0 tokens) ([], replicate (length tokens) None))"

lemma rposition_Some: "rposition P xs = Some p \<Longrightarrow> p < length xs \<and> P (xs ! p)"
  by (auto simp: rposition_def find_Some_iff rev_nth)

text \<open>A linked pair of brackets, opener first.\<close>

definition linked :: "nat option list \<Rightarrow> nat \<Rightarrow> nat \<Rightarrow> bool" where
  "linked m a b \<longleftrightarrow> a < b \<and> b < length m \<and> m ! a = Some b \<and> m ! b = Some a"

definition bracket_text :: "str \<Rightarrow> Token list \<Rightarrow> nat \<Rightarrow> str option" where
  "bracket_text source tokens i =
     (if i < length tokens \<and> tk_kind (tokens ! i) = Punctuation then token_text source (tokens ! i) else None)"

definition pair_ok :: "str \<Rightarrow> Token list \<Rightarrow> nat \<Rightarrow> nat \<Rightarrow> bool" where
  "pair_ok source tokens a b \<longleftrightarrow>
     (\<exists>t. bracket_text source tokens b = Some t \<and> opener_of t \<noteq> None \<and>
        bracket_text source tokens a = opener_of t)"

definition all_linked :: "nat option list \<Rightarrow> bool" where
  "all_linked m \<longleftrightarrow> (\<forall>i j. i < length m \<and> m ! i = Some j \<longrightarrow> linked m i j \<or> linked m j i)"

definition bracket_inv :: "str \<Rightarrow> Token list \<Rightarrow> nat \<Rightarrow> bracket_state \<Rightarrow> bool" where
  "bracket_inv source tokens k = (\<lambda>(opened, m).
     length m = length tokens \<and> all_linked m \<and>
     sorted_wrt (<) (map fst opened) \<and>
     (\<forall>(i, t) \<in> set opened. i < k \<and> m ! i = None \<and> bracket_text source tokens i = Some t) \<and>
     (\<forall>a b. linked m a b \<longrightarrow> b < k \<and> pair_ok source tokens a b) \<and>
     (\<forall>a b. linked m a b \<longrightarrow> (\<forall>(i, t) \<in> set opened. \<not> (a < i \<and> i < b))) \<and>
     (\<forall>a b c d. linked m a b \<and> linked m c d \<longrightarrow> \<not> (a < c \<and> c < b \<and> b < d)))"

lemma linked_link:
  assumes "start < k" "k < length m" "m ! start = None" "m ! k = None"
  shows "linked (m[start := Some k, k := Some start]) a b \<longleftrightarrow> a = start \<and> b = k \<or> linked m a b"
  using assms by (auto simp: linked_def nth_list_update)

lemma all_linked_link:
  assumes "all_linked m" "start < k" "k < length m" "m ! start = None" "m ! k = None"
  shows "all_linked (m[start := Some k, k := Some start])"
  unfolding all_linked_def linked_link [OF assms(2-5)]
  using assms(1-3) by (auto simp: all_linked_def nth_list_update split: if_splits)

lemma unlinked_from:
  assumes "all_linked m" "\<And>a b. linked m a b \<Longrightarrow> b < k" "k < length m"
  shows "m ! k = None"
proof (rule ccontr)
  assume "m ! k \<noteq> None"
  then obtain j where "linked m k j \<or> linked m j k" using assms(1,3) by (auto simp: all_linked_def)
  then show False using assms(2) by (auto simp: linked_def dest: less_trans)
qed

lemma bracket_inv_open:
  assumes "bracket_inv source tokens k (opened, m)" "bracket_text source tokens k = Some t" "k < length tokens"
  shows "bracket_inv source tokens (Suc k) (opened @ [(k, t)], m)"
proof -
  note inv = assms(1) [unfolded bracket_inv_def prod.case]
  have "m ! k = None" using inv assms(3) by (intro unlinked_from [of m k]) auto
  moreover have "\<not> (a < k \<and> k < b)" if "linked m a b" for a b using inv that by fastforce
  ultimately show ?thesis using inv assms(2) unfolding bracket_inv_def prod.case
    by (auto simp: sorted_wrt_append less_Suc_eq split: prod.splits)
qed

lemma bracket_inv_skip:
  "bracket_inv source tokens k (opened, m) \<Longrightarrow> bracket_inv source tokens (Suc k) (opened, m)"
  unfolding bracket_inv_def by (auto simp: less_SucI)

lemma bracket_inv_close:
  assumes "bracket_inv source tokens k (opened, m)" "k < length tokens"
    and "bracket_text source tokens k = Some t" "opener_of t = Some opener"
    and "position < length opened" "opened ! position = (start, opener)"
  shows "bracket_inv source tokens (Suc k) (take position opened, m[start := Some k, k := Some start])"
proof -
  note inv = assms(1) [unfolded bracket_inv_def prod.case]
  let ?m = "m[start := Some k, k := Some start]"
  have mem: "(start, opener) \<in> set opened" using assms(5,6) by (metis nth_mem)
  then have st: "start < k" "m ! start = None" "bracket_text source tokens start = Some opener" using inv by auto
  have free: "m ! k = None" using inv assms(2) by (intro unlinked_from [of m k]) auto
  have len: "k < length m" using inv assms(2) by simp
  note link = linked_link [OF st(1) len st(2) free]
  have before: "i < start" if iu: "(i, u) \<in> set (take position opened)" for i u
  proof -
    obtain q where q: "q < position" "opened ! q = (i, u)" using iu assms(5) by (auto simp: in_set_conv_nth)
    then have "map fst opened ! q < map fst opened ! position"
      using inv assms(5) by (intro sorted_wrt_nth_less) auto
    then show ?thesis using q assms(5,6) by simp
  qed
  have sub: "set (take position opened) \<subseteq> set opened" by (rule set_take_subset)
  have outside: "\<not> (a < start \<and> start < b)" if "linked m a b" for a b using inv mem that by fastforce
  have below: "linked m a b \<Longrightarrow> b < k \<and> pair_ok source tokens a b" for a b using inv by blast
  have crossing: "linked m a b \<Longrightarrow> linked m c d \<Longrightarrow> a < c \<Longrightarrow> c < b \<Longrightarrow> b < d \<Longrightarrow> False" for a b c d
    using inv by blast
  have new: "pair_ok source tokens start k" using assms(3,4) st(3) by (simp add: pair_ok_def)
  have "sorted_wrt (<) (map fst (take position opened))"
    using inv by (simp add: take_map [symmetric] sorted_wrt_take)
  moreover have "\<forall>(i, u) \<in> set (take position opened). i < Suc k \<and> ?m ! i = None \<and> bracket_text source tokens i = Some u"
  proof (rule ballI, clarify)
    fix i u
    assume iu: "(i, u) \<in> set (take position opened)"
    then have "i < start" "(i, u) \<in> set opened" using before sub by auto
    then show "i < Suc k \<and> ?m ! i = None \<and> bracket_text source tokens i = Some u"
      using inv st(1) by (auto simp: nth_list_update)
  qed
  moreover have "\<forall>a b. linked ?m a b \<longrightarrow> (\<forall>(i, u) \<in> set (take position opened). \<not> (a < i \<and> i < b))"
  proof (intro allI impI ballI, clarify)
    fix a b i u
    assume l: "linked ?m a b" and iu: "(i, u) \<in> set (take position opened)" and lt: "a < i" "i < b"
    have "i < start" "(i, u) \<in> set opened" using before iu sub by auto
    moreover from this have "linked m a b \<Longrightarrow> False" using inv lt by fastforce
    ultimately show False using l lt unfolding link by auto
  qed
  moreover have "\<forall>a b c d. linked ?m a b \<and> linked ?m c d \<longrightarrow> \<not> (a < c \<and> c < b \<and> b < d)"
  proof (intro allI impI notI)
    fix a b c d
    assume l: "linked ?m a b \<and> linked ?m c d" and "a < c \<and> c < b \<and> b < d"
    then have lt: "a < c" "c < b" "b < d" by auto
    from l consider "a = start" "b = k" "c = start" | "a = start" "b = k" "linked m c d"
      | "linked m a b" "c = start" | "linked m a b" "linked m c d" unfolding link by blast
    then show False
    proof cases
      case 1
      then show False using lt by simp
    next
      case 2
      then show False using lt below [of c d] by simp
    next
      case 3
      then show False using lt outside [of a b] by simp
    next
      case 4
      then show False using crossing lt by blast
    qed
  qed
  moreover have "\<forall>a b. linked ?m a b \<longrightarrow> b < Suc k \<and> pair_ok source tokens a b"
    unfolding link using below new by (auto simp: less_SucI)
  ultimately show ?thesis
    unfolding bracket_inv_def prod.case using inv all_linked_link [OF _ st(1) len st(2) free] by simp
qed

lemma bracket_step_inv:
  assumes "bracket_inv source tokens k st" "k < length tokens"
  shows "bracket_inv source tokens (Suc k) (bracket_step source (k, tokens ! k) st)"
proof -
  obtain opened m where st: "st = (opened, m)" by fastforce
  let ?t = "bracket_text source tokens k"
  have tx: "?t = (if tk_kind (tokens ! k) = Punctuation then token_text source (tokens ! k) else None)"
    using assms(2) by (simp add: bracket_text_def)
  show ?thesis
  proof (cases ?t)
    case None
    then show ?thesis using bracket_inv_skip assms(1) tx unfolding st bracket_step_def
      by (auto split: if_splits)
  next
    case (Some t)
    then have tk: "tk_kind (tokens ! k) = Punctuation" "token_text source (tokens ! k) = Some t"
      using tx by (auto split: if_splits)
    show ?thesis
    proof (cases "is_opener t")
      case True
      then show ?thesis using bracket_inv_open [OF _ Some assms(2)] assms(1) tk
        unfolding st bracket_step_def by simp
    next
      case False
      let ?sr = "length opened - MAX_BRACKET_RECOVERY"
      show ?thesis
      proof (cases "\<exists>opener p. opener_of t = Some opener \<and> rposition (\<lambda>(_, value). value = opener) (drop ?sr opened) = Some p")
        case True
        then obtain opener p where opn: "opener_of t = Some opener"
          and p: "rposition (\<lambda>(_, value). value = opener) (drop ?sr opened) = Some p" by blast
        from rposition_Some [OF p] have p': "?sr + p < length opened" "snd (opened ! (?sr + p)) = opener"
          by (auto simp: less_diff_conv add.commute split: prod.splits)
        then obtain start where "opened ! (?sr + p) = (start, opener)" by (metis prod.collapse)
        from bracket_inv_close [OF assms(1) [unfolded st] assms(2) Some opn p'(1) this]
        show ?thesis using tk False opn p \<open>opened ! (?sr + p) = (start, opener)\<close>
          unfolding st bracket_step_def by (simp add: Let_def)
      next
        case no: False
        then have "bracket_step source (k, tokens ! k) st = st" using tk False
          unfolding st bracket_step_def by (auto split: option.splits)
        then show ?thesis using bracket_inv_skip assms(1) st by simp
      qed
    qed
  qed
qed

lemma match_brackets_inv: "\<exists>opened. bracket_inv source tokens (length tokens) (opened, match_brackets source tokens)"
proof -
  have "bracket_inv source tokens k (fold (bracket_step source) (take k (enumerate 0 tokens)) ([], replicate (length tokens) None))"
    if "k \<le> length tokens" for k
    using that
  proof (induction k)
    case 0
    then show ?case by (auto simp: bracket_inv_def all_linked_def linked_def)
  next
    case (Suc k)
    then have "take (Suc k) (enumerate 0 tokens) = take k (enumerate 0 tokens) @ [(k, tokens ! k)]"
      by (simp add: take_Suc_conv_app_nth nth_enumerate_eq)
    then show ?case using Suc bracket_step_inv by simp
  qed
  from this [of "length tokens"] show ?thesis
    by (simp add: match_brackets_def) (metis prod.collapse)
qed

section \<open>Properties\<close>

text \<open>
  Claim C6.  \<open>Lexer::tokenize\<close> returns on every source text in either language, and its tokens are an
  exact, ordered outline of that text: each token is a non-empty slice on character boundaries whose
  byte range, first line and last line agree with the text before it and in it, and no token starts
  before the previous one has ended.
\<close>

theorem tokenize_sound:
  assumes "ascii_alnum alnum"
  shows "\<exists>tokens. tokenize alnum source language = Some tokens \<and>
    (\<forall>t \<in> set tokens. token_at source t \<and> token_text source t \<noteq> None) \<and>
    sorted_wrt (\<lambda>t u. tk_end t \<le> tk_start u) tokens"
proof -
  have "lexer_at source (initial source)" by (simp add: lexer_at_def initial_def)
  moreover have "len (initial source) < Suc (len (initial source))" "length source = len (initial source)"
    by (simp_all add: initial_def)
  ultimately obtain ts where "tokenize alnum source language = Some ts" "\<forall>t \<in> set ts. token_at source t"
    "sorted_wrt (\<lambda>t u. tk_end t \<le> tk_start u) ts"
    using tokens_from_total [of "\<lparr> lc_source = source, lc_language = language, lc_alnum = alnum \<rparr>"
        "initial source" "Suc (length source)" source] assms
    unfolding tokenize_def by auto
  then show ?thesis using token_at_text by fastforce
qed

theorem tokenize_sound_witness:
  "ascii_alnum is_ascii_alphanumeric \<and>
   map_option (map (\<lambda>t. (tk_start t, tk_end t, tk_line t))) (tokenize is_ascii_alphanumeric (lit ''a{ /*}*/ \"}\"}'') Java)
     = Some [(0, 1, 0), (1, 2, 0), (9, 12, 0), (12, 13, 0)] \<and>
   (\<exists>tokens. tokenize is_ascii_alphanumeric (lit ''a{ /*}*/ \"}\"}'') Java = Some tokens \<and>
     (\<forall>t \<in> set tokens. token_at (lit ''a{ /*}*/ \"}\"}'') t \<and> token_text (lit ''a{ /*}*/ \"}\"}'') t \<noteq> None) \<and>
     sorted_wrt (\<lambda>t u. tk_end t \<le> tk_start u) tokens)"
proof -
  have a: "ascii_alnum is_ascii_alphanumeric" by (simp add: ascii_alnum_def)
  have b: "map_option (map (\<lambda>t. (tk_start t, tk_end t, tk_line t))) (tokenize is_ascii_alphanumeric (lit ''a{ /*}*/ \"}\"}'') Java)
     = Some [(0, 1, 0), (1, 2, 0), (9, 12, 0), (12, 13, 0)]" by code_simp
  show ?thesis using a b tokenize_sound [OF a] by blast
qed

text \<open>
  Claim C7.  \<open>match_brackets\<close> builds a table of properly nested bracket pairs for any token list, damaged
  sources included: a filled entry points to the other end of its pair and back, the earlier token of the
  pair is the opening bracket of the same shape as the closing bracket at the later one, both are
  punctuation tokens, and two pairs never cross.
\<close>

theorem match_brackets_nested:
  "length (match_brackets source tokens) = length tokens \<and>
   (\<forall>i j. i < length tokens \<and> match_brackets source tokens ! i = Some j \<longrightarrow>
      linked (match_brackets source tokens) (min i j) (max i j) \<and> pair_ok source tokens (min i j) (max i j)) \<and>
   (\<forall>a b c d. linked (match_brackets source tokens) a b \<and> linked (match_brackets source tokens) c d \<longrightarrow>
      \<not> (a < c \<and> c < b \<and> b < d))"
proof -
  obtain opened where inv: "bracket_inv source tokens (length tokens) (opened, match_brackets source tokens)"
    using match_brackets_inv by blast
  let ?m = "match_brackets source tokens"
  have len: "length ?m = length tokens" using inv by (simp add: bracket_inv_def)
  have "linked ?m (min i j) (max i j) \<and> pair_ok source tokens (min i j) (max i j)"
    if "i < length tokens" "?m ! i = Some j" for i j
  proof -
    have "linked ?m i j \<or> linked ?m j i" using inv that len by (simp add: bracket_inv_def all_linked_def)
    then have "linked ?m (min i j) (max i j)" by (auto simp: linked_def min_def max_def)
    then show ?thesis using inv by (auto simp: bracket_inv_def)
  qed
  moreover have "\<forall>a b c d. linked ?m a b \<and> linked ?m c d \<longrightarrow> \<not> (a < c \<and> c < b \<and> b < d)"
    using inv by (simp add: bracket_inv_def)
  ultimately show ?thesis using len by blast
qed

definition damaged_tokens :: "Token list" where
  "damaged_tokens = map (\<lambda>i. \<lparr> tk_kind = Punctuation, tk_start = i, tk_end = i + 1, tk_line = 0, tk_end_line = 0 \<rparr>) [0..<6]"

theorem match_brackets_nested_witness:
  "match_brackets (lit ''{(}[])'') damaged_tokens = [Some 2, None, Some 0, Some 4, Some 3, None] \<and>
   linked (match_brackets (lit ''{(}[])'') damaged_tokens) (min 4 3) (max 4 3)"
proof -
  have m: "match_brackets (lit ''{(}[])'') damaged_tokens = [Some 2, None, Some 0, Some 4, Some 3, None]" by code_simp
  have "length damaged_tokens = 6" by (simp add: damaged_tokens_def)
  then have i: "4 < length damaged_tokens \<and> match_brackets (lit ''{(}[])'') damaged_tokens ! 4 = Some 3"
    unfolding m by simp
  then have "linked (match_brackets (lit ''{(}[])'') damaged_tokens) (min 4 3) (max 4 3)"
    using match_brackets_nested [of "lit ''{(}[])''" damaged_tokens] by blast
  with m show ?thesis by blast
qed

end
