(* ===== verification/Outline.thy ===== *)
theory Outline
  imports Lexer
begin

text \<open>
  The token outline of one source file (\<open>src/index/declaration_source.rs\<close>): the data of
  declarations, the primitives that read tokens and walk balanced brackets, and the skipping of
  annotations and modifiers (\<open>src/index/declaration_source/members.rs\<close>).

  An index expression \<open>self.tokens[i]\<close> that would panic and a subtraction that would underflow are
  \<open>None\<close> of \<open>token_of\<close> and \<open>checked_sub\<close>; functions that contain one return an option, and the
  component theories show that it is never \<open>None\<close> on a parsed outline.  \<open>char::is_lowercase\<close> is a
  parameter of the model, kept beside the outline it is used on.
\<close>

section \<open>Declarations\<close>

record TypeDeclaration =
  td_name :: str
  td_is_enum :: bool
  td_is_record :: bool
  td_is_companion :: bool
  td_type_parameters :: "(nat \<times> nat) option"
  td_primary_parameters :: "(nat \<times> nat) option"
  td_body :: "(nat \<times> nat) option"

record FunctionDeclaration =
  fd_name :: str
  fd_is_constructor :: bool
  fd_is_suspend :: bool
  fd_type_parameters :: "(nat \<times> nat) option"
  fd_receiver :: "(nat \<times> nat) option"
  fd_parameters :: "nat \<times> nat"

datatype MemberKind =
    Type_Member TypeDeclaration
  | Function_Member FunctionDeclaration
  | Field_Member "str list"
  | Other_Member

record Member =
  mb_start :: nat
  mb_end :: nat
  mb_kind :: MemberKind

record SourceOutline =
  so_source :: str
  so_language :: SourceLanguage
  so_tokens :: "Token list"
  so_matching :: "nat option list"
  so_lower :: "ch \<Rightarrow> bool"

definition parse_outline :: "(ch \<Rightarrow> bool) \<Rightarrow> (ch \<Rightarrow> bool) \<Rightarrow> str \<Rightarrow> SourceLanguage \<Rightarrow> SourceOutline option" where
  "parse_outline alnum lower source language =
     (case tokenize alnum source language of
        None \<Rightarrow> None
      | Some tokens \<Rightarrow>
          Some \<lparr> so_source = source, so_language = language, so_tokens = tokens,
                 so_matching = match_brackets source tokens, so_lower = lower \<rparr>)"

section \<open>Reading tokens\<close>

definition token_of :: "SourceOutline \<Rightarrow> nat \<Rightarrow> Token option" where
  "token_of ol i = (if i < length (so_tokens ol) then Some (so_tokens ol ! i) else None)"

definition text_of :: "SourceOutline \<Rightarrow> nat \<Rightarrow> str option" where
  "text_of ol i = (case token_of ol i of None \<Rightarrow> None | Some t \<Rightarrow> token_text (so_source ol) t)"

definition word_of :: "SourceOutline \<Rightarrow> nat \<Rightarrow> str option" where
  "word_of ol i =
     (case token_of ol i of None \<Rightarrow> None | Some t \<Rightarrow> if tk_kind t = Identifier then text_of ol i else None)"

definition trim_matches_ch :: "'a \<Rightarrow> 'a list \<Rightarrow> 'a list" where
  "trim_matches_ch d s = trim_end_matches_ch d (dropWhile ((=) d) s)"

definition identifier_of :: "SourceOutline \<Rightarrow> nat \<Rightarrow> str option" where
  "identifier_of ol i = map_option (trim_matches_ch 96) (word_of ol i)"

definition is_punct :: "SourceOutline \<Rightarrow> nat \<Rightarrow> string \<Rightarrow> bool" where
  "is_punct ol i v =
     (case token_of ol i of
        None \<Rightarrow> False
      | Some t \<Rightarrow> tk_kind t = Punctuation \<and> text_of ol i = Some (lit v))"

definition is_closer :: "SourceOutline \<Rightarrow> nat \<Rightarrow> bool" where
  "is_closer ol i \<longleftrightarrow> list_ex (is_punct ol i) ['')'', '']'', ''}'']"

definition closing :: "SourceOutline \<Rightarrow> nat \<Rightarrow> nat option" where
  "closing ol i = (if i < length (so_matching ol) then so_matching ol ! i else None)"

definition is_open_bracket :: "SourceOutline \<Rightarrow> nat \<Rightarrow> bool" where
  "is_open_bracket ol i \<longleftrightarrow> list_ex (is_punct ol i) [''('', ''['', ''{'']"

definition option_filter :: "('a \<Rightarrow> bool) \<Rightarrow> 'a option \<Rightarrow> 'a option" where
  "option_filter P v = (case v of None \<Rightarrow> None | Some a \<Rightarrow> if P a then Some a else None)"

definition unwrap_or :: "'a option \<Rightarrow> 'a \<Rightarrow> 'a" where
  "unwrap_or v d = (case v of None \<Rightarrow> d | Some a \<Rightarrow> a)"

definition group_end :: "SourceOutline \<Rightarrow> nat \<Rightarrow> nat \<Rightarrow> nat" where
  "group_end ol i stop =
     (if \<not> is_open_bracket ol i then i
      else unwrap_or (option_filter (\<lambda>close. i < close \<and> close < stop) (closing ol i)) (max (stop - 1) i))"

lemma option_filter_Some [simp]: "option_filter P v = Some a \<longleftrightarrow> v = Some a \<and> P a"
  by (auto simp: option_filter_def split: option.splits)

lemma option_filter_simps [simp]:
  "option_filter P None = None"
  "option_filter P (Some a) = (if P a then Some a else None)"
  by (simp_all add: option_filter_def)

lemma group_end_ge: "i \<le> group_end ol i stop"
  by (auto simp: group_end_def unwrap_or_def split: option.splits)

lemma group_end_less: "i < stop \<Longrightarrow> group_end ol i stop < stop"
  by (auto simp: group_end_def unwrap_or_def split: option.splits)

lemma group_end_measure [simp]: "i < stop \<Longrightarrow> stop - Suc (group_end ol i stop) < stop - i"
  using group_end_ge [of i ol stop] group_end_less [of i stop ol] by simp

section \<open>Angle brackets and lists\<close>

function angle_loop :: "SourceOutline \<Rightarrow> nat \<Rightarrow> nat \<Rightarrow> nat \<Rightarrow> nat \<Rightarrow> nat" where
  "angle_loop ol opn stop depth index =
     (if index < stop then
        if is_punct ol index ''<'' then
          angle_loop ol opn stop (depth + 1) (group_end ol index stop + 1)
        else if is_punct ol index ''>'' then
          if depth - 1 = 0 then index
          else angle_loop ol opn stop (depth - 1) (group_end ol index stop + 1)
        else if is_punct ol index ''{'' \<or> is_punct ol index '';'' then max (index - 1) opn
        else angle_loop ol opn stop depth (group_end ol index stop + 1)
      else max (stop - 1) opn)"
  by pat_completeness auto
termination by (relation "measure (\<lambda>(ol, opn, stop, depth, index). stop - index)") auto

declare angle_loop.simps [simp del, loop_simps]

definition angle_end :: "SourceOutline \<Rightarrow> nat \<Rightarrow> nat \<Rightarrow> nat" where
  "angle_end ol opn stop = angle_loop ol opn stop 0 opn"

function split_loop :: "SourceOutline \<Rightarrow> nat \<Rightarrow> nat \<Rightarrow> nat \<Rightarrow> nat \<Rightarrow> (nat \<times> nat) list" where
  "split_loop ol close start angle_depth index =
     (if index < close then
        if is_punct ol index ''<'' then
          split_loop ol close start (angle_depth + 1) (group_end ol index close + 1)
        else if is_punct ol index ''>'' then
          split_loop ol close start (angle_depth - 1) (group_end ol index close + 1)
        else if angle_depth = 0 \<and> is_punct ol index '','' then
          (start, index) # split_loop ol close (index + 1) angle_depth (group_end ol index close + 1)
        else split_loop ol close start angle_depth (group_end ol index close + 1)
      else [(start, close)])"
  by pat_completeness auto
termination by (relation "measure (\<lambda>(ol, close, start, depth, index). close - index)") auto

declare split_loop.simps [simp del, loop_simps]

definition split_list_at :: "SourceOutline \<Rightarrow> nat \<Rightarrow> nat \<Rightarrow> (nat \<times> nat) list" where
  "split_list_at ol opn close = filter (\<lambda>(start, stop). start < stop) (split_loop ol close (opn + 1) 0 (opn + 1))"

section \<open>Annotations and modifiers\<close>

definition JAVA_MODIFIERS :: "str list" where
  "JAVA_MODIFIERS = map lit
     [''public'', ''protected'', ''private'', ''static'', ''final'', ''abstract'', ''transient'', ''volatile'',
      ''synchronized'', ''native'', ''strictfp'', ''default'', ''sealed'']"

definition KOTLIN_MODIFIERS :: "str list" where
  "KOTLIN_MODIFIERS = map lit
     [''public'', ''protected'', ''private'', ''internal'', ''abstract'', ''final'', ''open'', ''override'',
      ''sealed'', ''data'', ''inner'', ''value'', ''annotation'', ''companion'', ''const'', ''lateinit'',
      ''inline'', ''noinline'', ''crossinline'', ''suspend'', ''tailrec'', ''operator'', ''in'' @ ''fix'',
      ''external'', ''expect'', ''actual'', ''vararg'']"

record Modifiers =
  md_is_enum :: bool
  md_is_suspend :: bool
  md_is_companion :: bool

definition word_is :: "SourceOutline \<Rightarrow> nat \<Rightarrow> string \<Rightarrow> bool" where
  "word_is ol i v \<longleftrightarrow> word_of ol i = Some (lit v)"

lemma identifier_bound: "identifier_of ol i \<noteq> None \<Longrightarrow> i < length (so_tokens ol)"
  by (auto simp: identifier_of_def word_of_def token_of_def split: if_splits)

lemma word_bound: "word_of ol i \<noteq> None \<Longrightarrow> i < length (so_tokens ol)"
  by (auto simp: word_of_def token_of_def split: if_splits)

lemma punct_bound: "is_punct ol i v \<Longrightarrow> i < length (so_tokens ol)"
  by (auto simp: is_punct_def token_of_def split: if_splits)

function annotation_name :: "SourceOutline \<Rightarrow> nat \<Rightarrow> nat" where
  "annotation_name ol i =
     (if identifier_of ol i \<noteq> None then
        if is_punct ol (i + 1) ''.'' \<and> identifier_of ol (i + 2) \<noteq> None then annotation_name ol (i + 2) else i + 1
      else i)"
  by pat_completeness auto
termination
  by (relation "measure (\<lambda>(ol, i). length (so_tokens ol) - i)") (use identifier_bound in force)+

declare annotation_name.simps [simp del, loop_simps]

lemma annotation_name_ge: "i \<le> annotation_name ol i"
  by (induction ol i rule: annotation_name.induct) (subst annotation_name.simps, auto)

text \<open>One iteration of \<open>skip_annotations\<close> from an \<open>@\<close>.\<close>

definition annotation_next :: "SourceOutline \<Rightarrow> nat \<Rightarrow> nat \<Rightarrow> nat" where
  "annotation_next ol index stop =
     (let i = (if so_language ol = Kotlin \<and> identifier_of ol (index + 1) \<noteq> None \<and> is_punct ol (index + 2) '':''
               then index + 3 else index + 1)
      in if is_punct ol i ''['' then group_end ol i stop + 1
         else let n = annotation_name ol i
              in if is_punct ol n ''('' then group_end ol n stop + 1 else n)"

lemma annotation_next_gt: "index < annotation_next ol index stop"
proof -
  define i where "i = (if so_language ol = Kotlin \<and> identifier_of ol (index + 1) \<noteq> None \<and> is_punct ol (index + 2) '':''
               then index + 3 else index + 1)"
  have i: "index < i" by (simp add: i_def)
  have "annotation_next ol index stop =
      (if is_punct ol i ''['' then group_end ol i stop + 1
       else if is_punct ol (annotation_name ol i) ''('' then group_end ol (annotation_name ol i) stop + 1
       else annotation_name ol i)"
    by (simp add: annotation_next_def Let_def i_def)
  then show ?thesis
    using i annotation_name_ge [of i ol] group_end_ge [of i ol stop] group_end_ge [of "annotation_name ol i" ol stop]
    by simp
qed

function skip_annotations :: "SourceOutline \<Rightarrow> nat \<Rightarrow> nat \<Rightarrow> nat" where
  "skip_annotations ol index stop =
     (if index < stop \<and> is_punct ol index ''@'' \<and> \<not> word_is ol (index + 1) ''interface''
      then skip_annotations ol (annotation_next ol index stop) stop else index)"
  by pat_completeness auto
termination
  by (relation "measure (\<lambda>(ol, index, stop). stop - index)") (auto intro!: diff_less_mono2 annotation_next_gt)

declare skip_annotations.simps [simp del, loop_simps]

lemma skip_annotations_ge: "index \<le> skip_annotations ol index stop"
proof (induction ol index stop rule: skip_annotations.induct)
  case (1 ol index stop)
  then show ?case
    using annotation_next_gt [of index ol stop] by (subst skip_annotations.simps) (simp add: less_imp_le order_less_le_trans)
qed

definition known_modifier :: "SourceOutline \<Rightarrow> nat \<Rightarrow> str \<Rightarrow> bool" where
  "known_modifier ol index w \<longleftrightarrow>
     (case so_language ol of
        Java \<Rightarrow> w \<in> set JAVA_MODIFIERS
      | Kotlin \<Rightarrow> w \<in> set KOTLIN_MODIFIERS \<or> w = lit ''enum'' \<and> word_is ol (index + 1) ''class'')"

function modifiers_loop :: "SourceOutline \<Rightarrow> nat \<Rightarrow> Modifiers \<Rightarrow> nat \<Rightarrow> nat \<times> Modifiers" where
  "modifiers_loop ol stop modifiers start =
     (let index = skip_annotations ol start stop
      in case option_filter (\<lambda>_. index < stop) (word_of ol index) of
           None \<Rightarrow> (index, modifiers)
         | Some w \<Rightarrow>
             if w = lit ''non'' \<and> is_punct ol (index + 1) ''-'' \<and> word_is ol (index + 2) ''sealed''
             then modifiers_loop ol stop modifiers (index + 3)
             else if \<not> known_modifier ol index w then (index, modifiers)
             else modifiers_loop ol stop
                    \<lparr> md_is_enum = (md_is_enum modifiers \<or> w = lit ''enum''),
                      md_is_suspend = (md_is_suspend modifiers \<or> w = lit ''suspend''),
                      md_is_companion = (md_is_companion modifiers \<or> w = lit ''companion'') \<rparr> (index + 1))"
  by pat_completeness auto

lemma skip_annotations_measure:
  assumes "skip_annotations ol start stop < stop"
  shows "stop - Suc (skip_annotations ol start stop) < stop - start"
    "stop - Suc (Suc (Suc (skip_annotations ol start stop))) < stop - start"
  using skip_annotations_ge [of start ol stop] assms by simp_all

termination modifiers_loop
  by (relation "measure (\<lambda>(ol, stop, modifiers, start). stop - start)")
    (auto simp: option_filter_def skip_annotations_measure eval_nat_numeral simp del: diff_Suc_less
      split: option.splits if_splits)

declare modifiers_loop.simps [simp del, loop_simps]

definition skip_modifiers :: "SourceOutline \<Rightarrow> nat \<Rightarrow> nat \<Rightarrow> nat \<times> Modifiers" where
  "skip_modifiers ol index stop =
     modifiers_loop ol stop \<lparr> md_is_enum = False, md_is_suspend = False, md_is_companion = False \<rparr> index"

section \<open>Walking forward\<close>

lemma modifiers_loop_ge: "start \<le> fst (modifiers_loop ol stop modifiers start)"
proof (induction ol stop modifiers start rule: modifiers_loop.induct)
  case (1 ol stop modifiers start)
  let ?i = "skip_annotations ol start stop"
  have ge: "start \<le> ?i" by (rule skip_annotations_ge)
  show ?case
  proof (cases "option_filter (\<lambda>_. ?i < stop) (word_of ol ?i)")
    case None
    then show ?thesis using ge by (subst modifiers_loop.simps) (simp add: Let_def)
  next
    case (Some w)
    note IH = 1 [OF refl Some]
    show ?thesis
      by (subst modifiers_loop.simps) (use IH ge Some in \<open>auto simp: Let_def simp del: lit.simps\<close>)
  qed
qed

lemma skip_modifiers_ge: "start \<le> fst (skip_modifiers ol start stop)"
  by (simp add: skip_modifiers_def modifiers_loop_ge)

lemma angle_loop_bounds:
  "opn \<le> index \<Longrightarrow> opn < stop \<Longrightarrow> opn \<le> angle_loop ol opn stop depth index \<and> angle_loop ol opn stop depth index < stop"
proof (induction ol opn stop depth index rule: angle_loop.induct)
  case (1 ol opn stop depth index)
  have "opn \<le> group_end ol index stop" using 1(4) group_end_ge [of index ol stop] by simp
  then show ?case using 1 by (subst (1 2) angle_loop.simps) auto
qed

lemma angle_loop_ge: "opn \<le> angle_loop ol opn stop depth index \<or> index < opn"
proof (induction ol opn stop depth index rule: angle_loop.induct)
  case (1 ol opn stop depth index)
  show ?case
  proof (cases "index < opn")
    case False
    then have "\<not> group_end ol index stop + 1 < opn" using group_end_ge [of index ol stop] by simp
    then show ?thesis using 1 False by (subst angle_loop.simps) auto
  qed simp
qed

lemma angle_end_ge: "opn \<le> angle_end ol opn stop"
  using angle_loop_ge [of opn ol stop 0 opn] by (simp add: angle_end_def)

lemma angle_end_less: "opn < stop \<Longrightarrow> angle_end ol opn stop < stop"
  using angle_loop_bounds [of opn opn stop ol 0] by (simp add: angle_end_def)

lemma is_punct_neq: "is_punct ol i v \<Longrightarrow> lit v \<noteq> lit w \<Longrightarrow> \<not> is_punct ol i w"
  by (auto simp: is_punct_def split: option.splits)

section \<open>Parsed outlines\<close>

definition outline_wf :: "SourceOutline \<Rightarrow> bool" where
  "outline_wf ol \<longleftrightarrow>
     length (so_matching ol) = length (so_tokens ol) \<and>
     (\<forall>t \<in> set (so_tokens ol). token_at (so_source ol) t) \<and>
     sorted_wrt (\<lambda>t u. tk_end t \<le> tk_start u) (so_tokens ol) \<and>
     (\<forall>i j. closing ol i = Some j \<longrightarrow> j < length (so_tokens ol)) \<and>
     (\<forall>i j. closing ol i = Some j \<and> is_open_bracket ol i \<longrightarrow> i < j \<and> is_closer ol j)"

lemma is_punct_bracket_text:
  "is_punct ol i v \<longleftrightarrow> bracket_text (so_source ol) (so_tokens ol) i = Some (lit v)"
  by (auto simp: is_punct_def bracket_text_def token_of_def text_of_def)

lemma opener_of_Some: "opener_of t = Some u \<longleftrightarrow>
    t = lit '')'' \<and> u = lit ''('' \<or> t = lit '']'' \<and> u = lit ''['' \<or> t = lit ''}'' \<and> u = lit ''{''"
  by (auto simp: opener_of_def)

lemma tokenize_facts:
  assumes "ascii_alnum alnum"
  obtains tokens where "tokenize alnum source language = Some tokens" "\<forall>t \<in> set tokens. token_at source t"
    "sorted_wrt (\<lambda>t u. tk_end t \<le> tk_start u) tokens"
proof -
  have "lexer_at source (initial source)" by (simp add: lexer_at_def initial_def)
  moreover have "len (initial source) < Suc (length source)" by (simp add: initial_def)
  ultimately show ?thesis
    using tokens_from_total [of "\<lparr> lc_source = source, lc_language = language, lc_alnum = alnum \<rparr>"
        "initial source" "Suc (length source)" source] assms that
    unfolding tokenize_def by (metis lex_context.select_convs(3))
qed

lemma match_brackets_wf:
  assumes "so_matching ol = match_brackets (so_source ol) (so_tokens ol)" "closing ol i = Some j"
  shows "j < length (so_tokens ol)" "is_open_bracket ol i \<Longrightarrow> i < j \<and> is_closer ol j"
proof -
  let ?m = "so_matching ol"
  obtain opened where inv: "bracket_inv (so_source ol) (so_tokens ol) (length (so_tokens ol)) (opened, ?m)"
    using match_brackets_inv assms(1) by metis
  have len: "length ?m = length (so_tokens ol)" and "all_linked ?m"
    and pair: "\<And>a b. linked ?m a b \<Longrightarrow> pair_ok (so_source ol) (so_tokens ol) a b"
    using inv by (simp_all add: bracket_inv_def)
  moreover have i: "i < length ?m" "?m ! i = Some j"
    using assms(2) by (simp_all add: closing_def split: if_splits)
  ultimately have lk: "linked ?m i j \<or> linked ?m j i" by (simp add: all_linked_def)
  then show "j < length (so_tokens ol)" using len by (auto simp: linked_def)
  assume opn: "is_open_bracket ol i"
  have "\<not> linked ?m j i"
  proof
    assume "linked ?m j i"
    from pair [OF this] show False
      using opn by (auto simp: pair_ok_def is_open_bracket_def is_punct_bracket_text opener_of_Some)
  qed
  with lk have lij: "linked ?m i j" by blast
  from pair [OF this] have "is_closer ol j"
    by (auto simp: pair_ok_def is_closer_def is_punct_bracket_text opener_of_Some)
  with lij show "i < j \<and> is_closer ol j" by (simp add: linked_def)
qed

lemma parse_outline_wf:
  assumes "ascii_alnum alnum"
  obtains ol where "parse_outline alnum lower source language = Some ol" "outline_wf ol"
    "so_source ol = source" "so_language ol = language" "so_lower ol = lower"
proof -
  obtain tokens where t: "tokenize alnum source language = Some tokens" "\<forall>t \<in> set tokens. token_at source t"
    "sorted_wrt (\<lambda>t u. tk_end t \<le> tk_start u) tokens" using tokenize_facts [OF assms] .
  define ol where "ol = \<lparr> so_source = source, so_language = language, so_tokens = tokens,
                 so_matching = match_brackets source tokens, so_lower = lower \<rparr>"
  have "parse_outline alnum lower source language = Some ol"
    by (simp add: parse_outline_def t(1) ol_def)
  moreover have "outline_wf ol"
    using t(2,3) match_brackets_wf [of ol] match_brackets_inv [of source tokens]
    unfolding outline_wf_def by (auto simp: ol_def bracket_inv_def)
  ultimately show ?thesis using that by (simp add: ol_def)
qed

text \<open>On a parsed outline the text of every token exists: \<open>text\<close> is absent only past the last token.\<close>

lemma text_of_None: "outline_wf ol \<Longrightarrow> text_of ol i = None \<longleftrightarrow> length (so_tokens ol) \<le> i"
  using token_at_text [of "so_source ol" "so_tokens ol ! i"]
  by (auto simp: outline_wf_def text_of_def token_of_def)

section \<open>Splitting a list\<close>

definition consecutive_parts :: "SourceOutline \<Rightarrow> nat \<Rightarrow> nat \<Rightarrow> (nat \<times> nat) list \<Rightarrow> bool" where
  "consecutive_parts ol start close ps \<longleftrightarrow>
     (\<forall>(a, b) \<in> set ps. start \<le> a \<and> b \<le> close \<and> (b = close \<or> is_punct ol b '','') \<and>
        (a = start \<or> is_punct ol (a - 1) '','')) \<and>
     sorted_wrt (\<lambda>(a, b) (c, d). b < c) ps"

lemma consecutive_parts_Cons:
  assumes "consecutive_parts ol (index + 1) close ps" "is_punct ol index '',''" "start \<le> index" "index < close"
  shows "consecutive_parts ol start close ((start, index) # ps)"
  using assms by (fastforce simp: consecutive_parts_def)

lemma split_loop_parts:
  "start \<le> index \<Longrightarrow> start \<le> close \<Longrightarrow> consecutive_parts ol start close (split_loop ol close start depth index)"
proof (induction ol close start depth index rule: split_loop.induct)
  case (1 ol close start depth index)
  let ?next = "group_end ol index close + 1"
  have ge: "start \<le> ?next" "index + 1 \<le> ?next" using 1(5) group_end_ge [of index ol close] by auto
  show ?case
  proof (cases "index < close")
    case True
    note IH = 1(1-4) [OF True]
    show ?thesis
    proof (cases "\<not> is_punct ol index ''<'' \<and> \<not> is_punct ol index ''>'' \<and> depth = 0 \<and> is_punct ol index '',''")
      case comma: True
      then have "consecutive_parts ol (index + 1) close (split_loop ol close (index + 1) depth ?next)"
        using IH(3) ge True by auto
      then have "consecutive_parts ol start close ((start, index) # split_loop ol close (index + 1) depth ?next)"
        using comma 1(5) True by (intro consecutive_parts_Cons) auto
      then show ?thesis using True comma by (subst split_loop.simps) simp
    next
      case False
      then show ?thesis using True IH ge 1(6) by (subst split_loop.simps) auto
    qed
  next
    case False
    then show ?thesis by (subst split_loop.simps) (use 1(6) in \<open>simp add: consecutive_parts_def\<close>)
  qed
qed

text \<open>
  \<open>split_list\<close> cuts the contents of a bracket pair at top-level commas: the parts are not empty,
  lie strictly between the brackets, follow each other in order without overlap, and each part begins
  right after the opening bracket or a comma and ends right before a comma or at the closing bracket.
\<close>

lemma split_list_partition:
  assumes "opn < close"
  shows "(\<forall>(a, b) \<in> set (split_list_at ol opn close). opn < a \<and> a < b \<and> b \<le> close \<and>
      (a = opn + 1 \<or> is_punct ol (a - 1) '','') \<and> (b = close \<or> is_punct ol b '','')) \<and>
    sorted_wrt (\<lambda>(a, b) (c, d). b < c) (split_list_at ol opn close)"
proof -
  have "consecutive_parts ol (opn + 1) close (split_loop ol close (opn + 1) 0 (opn + 1))"
    using assms by (intro split_loop_parts) auto
  then show ?thesis
    by (auto simp: consecutive_parts_def split_list_at_def sorted_wrt_filter)
qed

definition sample_outline :: "string \<Rightarrow> SourceLanguage \<Rightarrow> SourceOutline" where
  "sample_outline source language =
     the (parse_outline is_ascii_alphanumeric (\<lambda>c. 97 \<le> c \<and> c \<le> 122) (lit source) language)"

definition list_outline :: SourceOutline where
  "list_outline = sample_outline ''(Map<K,V> m, @A(b,c) int[] x,)'' Java"

end
