(* ===== verification/Erasure.thy ===== *)
theory Erasure
  imports Outline
begin

text \<open>
  Erasure of source parameter types for matching them against classfile descriptors
  (\<open>src/index/declaration_source/erasure.rs\<close>): parsing of descriptors, erasure of Java and Kotlin
  types written in tokens, type variables and their bounds, and the comparison of an erased
  signature with a descriptor.
\<close>

section \<open>Erased types and descriptors\<close>

definition MAX_TYPE_NESTING :: nat where
  "MAX_TYPE_NESTING = 32"

definition MAX_TYPE_VARIABLE_DEPTH :: nat where
  "MAX_TYPE_VARIABLE_DEPTH = 8"

record ErasedType =
  et_name :: str
  et_dimensions :: nat

definition erased_new :: "str \<Rightarrow> nat \<Rightarrow> ErasedType" where
  "erased_new name dimensions = \<lparr> et_name = name, et_dimensions = dimensions \<rparr>"

datatype DescriptorMatch = Proven | Possible | Excluded

definition primitive_name :: "ch \<Rightarrow> str option" where
  "primitive_name d =
     (if d = of_char CHR ''B'' then Some (lit ''byte'')
      else if d = of_char CHR ''C'' then Some (lit ''char'')
      else if d = of_char CHR ''D'' then Some (lit ''double'')
      else if d = of_char CHR ''F'' then Some (lit ''float'')
      else if d = of_char CHR ''I'' then Some (lit ''int'')
      else if d = of_char CHR ''J'' then Some (lit ''long'')
      else if d = of_char CHR ''S'' then Some (lit ''short'')
      else if d = of_char CHR ''Z'' then Some (lit ''boolean'')
      else None)"

text \<open>\<open>rsplit(c).next()\<close>: the part after the last separator.\<close>

definition after_last :: "ch \<Rightarrow> str \<Rightarrow> str" where
  "after_last c s = last (split_on c s)"

function descriptor_loop :: "nat \<Rightarrow> str \<Rightarrow> ErasedType list option" where
  "descriptor_loop dimensions [] = (if dimensions = 0 then Some [] else None)"
| "descriptor_loop dimensions (c # cs) =
     (if c = of_char CHR ''['' then descriptor_loop (dimensions + 1) cs
      else if c = of_char CHR ''L'' then
        map_option ((#) (erased_new (after_last (of_char CHR ''$'')
            (after_last (of_char CHR ''/'') (takeWhile (\<lambda>v. v \<noteq> of_char CHR '';'') cs))) dimensions))
          (descriptor_loop 0 (tl (dropWhile (\<lambda>v. v \<noteq> of_char CHR '';'') cs)))
      else case primitive_name c of
             None \<Rightarrow> None
           | Some name \<Rightarrow> map_option ((#) (erased_new name dimensions)) (descriptor_loop 0 cs))"
  by pat_completeness auto
termination
  by (relation "measure (\<lambda>(dimensions, cs). length cs)")
    (auto simp: less_Suc_eq_le intro: le_trans [OF diff_le_self length_dropWhile_le])

definition descriptor_parameters :: "str \<Rightarrow> ErasedType list option" where
  "descriptor_parameters descriptor =
     (case strip_prefix (lit ''('') descriptor of
        None \<Rightarrow> None
      | Some rest \<Rightarrow>
          case split_once (lit '')'') rest of
            None \<Rightarrow> None
          | Some (parameters, _) \<Rightarrow> descriptor_loop 0 parameters)"

section \<open>Kotlin type names\<close>

definition kotlin_primitive :: "str \<Rightarrow> (str \<times> str) option" where
  "kotlin_primitive name = map_of
     [(lit ''Int'', lit ''int'', lit ''Integer''), (lit ''Long'', lit ''long'', lit ''Long''),
      (lit ''Short'', lit ''short'', lit ''Short''), (lit ''Byte'', lit ''byte'', lit ''Byte''),
      (lit ''Char'', lit ''char'', lit ''Character''), (lit ''Boolean'', lit ''boolean'', lit ''Boolean''),
      (lit ''Float'', lit ''float'', lit ''Float''), (lit ''Double'', lit ''double'', lit ''Double'')] name"

definition kotlin_mapped_name :: "str \<Rightarrow> str" where
  "kotlin_mapped_name name = unwrap_or (map_of
     [(lit ''Any'', lit ''Object''), (lit ''Nothing'', lit ''Void''), (lit ''MutableList'', lit ''List''),
      (lit ''MutableSet'', lit ''Set''), (lit ''MutableMap'', lit ''Map''),
      (lit ''MutableCollection'', lit ''Collection''), (lit ''MutableIterable'', lit ''Iterable''),
      (lit ''MutableIterator'', lit ''Iterator''), (lit ''MutableListIterator'', lit ''ListIterator''),
      (lit ''MutableEntry'', lit ''Entry'')] name) name"

lemma strip_suffix_shorter: "strip_suffix p s = Some r \<Longrightarrow> p \<noteq> [] \<Longrightarrow> length r < length s"
  by (auto simp: strip_suffix_def strip_prefix_Some map_option_case split: option.splits)
    (metis length_append length_rev add_less_same_cancel2 length_greater_0_conv less_add_same_cancel2)

function kotlin_erased_name :: "(ch \<Rightarrow> bool) \<Rightarrow> str \<Rightarrow> bool \<Rightarrow> ErasedType" where
  "kotlin_erased_name lower name boxed =
     (case kotlin_primitive name of
        Some (primitive, boxed_name) \<Rightarrow> erased_new (if boxed then boxed_name else primitive) 0
      | None \<Rightarrow>
          case strip_suffix (lit ''Array'') name of
            None \<Rightarrow> erased_new (kotlin_mapped_name name) 0
          | Some element_name \<Rightarrow>
              let element = kotlin_erased_name lower element_name False
              in case et_name element of
                   c # _ \<Rightarrow> if lower c then erased_new (et_name element) 1
                            else erased_new (kotlin_mapped_name name) 0
                 | [] \<Rightarrow> erased_new (kotlin_mapped_name name) 0)"
  by pat_completeness auto
termination
  by (relation "measure (\<lambda>(lower, name, boxed). length name)") (auto dest: strip_suffix_shorter)

declare kotlin_erased_name.simps [simp del, loop_simps]

section \<open>Java types\<close>

lemma java_segment_measure:
  assumes "skip_annotations ol index stop < stop"
  shows "stop - Suc (Suc (skip_annotations ol index stop)) < stop - index"
    "stop - Suc (Suc (angle_end ol (Suc (skip_annotations ol index stop)) stop)) < stop - index"
  using skip_annotations_ge [of index ol stop] angle_end_ge [of "Suc (skip_annotations ol index stop)" ol stop] assms
  by simp_all

function java_type_name :: "SourceOutline \<Rightarrow> nat \<Rightarrow> nat \<Rightarrow> (str \<times> nat) option" where
  "java_type_name ol stop start =
     (let index = skip_annotations ol start stop
      in case option_filter (\<lambda>_. index < stop) (identifier_of ol index) of
           None \<Rightarrow> None
         | Some name \<Rightarrow>
             let after = (if is_punct ol (index + 1) ''<'' then angle_end ol (index + 1) stop + 1 else index + 1)
             in if is_punct ol after ''.'' \<and> identifier_of ol (after + 1) \<noteq> None
                then java_type_name ol stop (after + 1)
                else Some (name, after))"
  by pat_completeness auto
termination
  by (relation "measure (\<lambda>(ol, stop, start). stop - start)")
    (auto simp: java_segment_measure split: if_splits)

declare java_type_name.simps [simp del, loop_simps]

lemma skip_annotations_punct_measure:
  "is_punct ol (skip_annotations ol index stop) v \<Longrightarrow>
   length (so_tokens ol) - Suc (Suc (skip_annotations ol index stop)) < length (so_tokens ol) - index"
  using skip_annotations_ge [of index ol stop] punct_bound [of ol "skip_annotations ol index stop" v] by simp

function java_dimensions :: "SourceOutline \<Rightarrow> nat \<Rightarrow> nat \<Rightarrow> nat \<Rightarrow> nat \<times> nat" where
  "java_dimensions ol stop dimensions start =
     (let index = skip_annotations ol start stop
      in if is_punct ol index ''['' \<and> is_punct ol (index + 1) '']''
         then java_dimensions ol stop (dimensions + 1) (index + 2)
         else (dimensions, index))"
  by pat_completeness auto
termination
  by (relation "measure (\<lambda>(ol, stop, dimensions, start). length (so_tokens ol) - start)")
    (auto simp: skip_annotations_punct_measure)

declare java_dimensions.simps [simp del, loop_simps]

definition java_type :: "SourceOutline \<Rightarrow> nat \<Rightarrow> nat \<Rightarrow> (ErasedType \<times> nat) option" where
  "java_type ol index stop =
     (case java_type_name ol stop index of
        None \<Rightarrow> None
      | Some (name, after) \<Rightarrow>
          let (dimensions, i) = java_dimensions ol stop 0 after
          in if list_all (\<lambda>offset. is_punct ol (i + offset) ''.'') [0, 1, 2]
             then Some (erased_new name (dimensions + 1), i + 3)
             else Some (erased_new name dimensions, i))"

definition java_parameter_name_index :: "SourceOutline \<Rightarrow> nat \<Rightarrow> nat \<Rightarrow> nat option" where
  "java_parameter_name_index ol start stop =
     (case java_type ol (fst (skip_modifiers ol start stop)) stop of
        None \<Rightarrow> None
      | Some (_, index) \<Rightarrow> if index < stop \<and> identifier_of ol index \<noteq> None then Some index else None)"

function trailing_dimensions :: "SourceOutline \<Rightarrow> nat \<Rightarrow> nat \<Rightarrow> nat" where
  "trailing_dimensions ol stop cursor =
     (if cursor + 1 < stop \<and> is_punct ol cursor ''['' \<and> is_punct ol (cursor + 1) '']''
      then trailing_dimensions ol stop (cursor + 2) + 1 else 0)"
  by pat_completeness auto
termination by (relation "measure (\<lambda>(ol, stop, cursor). stop - cursor)") auto

declare trailing_dimensions.simps [simp del, loop_simps]

definition java_parameter :: "SourceOutline \<Rightarrow> nat \<Rightarrow> nat \<Rightarrow> ErasedType option option" where
  "java_parameter ol start stop =
     (case java_type ol (fst (skip_modifiers ol start stop)) stop of
        None \<Rightarrow> None
      | Some (erased, index) \<Rightarrow>
          if word_is ol index ''this'' \<or> word_is ol (index + 2) ''this'' then Some None
          else Some (Some (erased \<lparr> et_dimensions :=
                 et_dimensions erased + trailing_dimensions ol stop (index + 1) \<rparr>)))"

section \<open>Kotlin types\<close>

text \<open>The loops that walk over balanced groups up to a punctuation token.\<close>

function scan_to :: "SourceOutline \<Rightarrow> string \<Rightarrow> nat \<Rightarrow> nat \<Rightarrow> nat" where
  "scan_to ol v stop index =
     (if index < stop \<and> \<not> is_punct ol index v then scan_to ol v stop (group_end ol index stop + 1) else index)"
  by pat_completeness auto
termination by (relation "measure (\<lambda>(ol, v, stop, index). stop - index)") auto

declare scan_to.simps [simp del, loop_simps]

definition kotlin_function_type_arity :: "SourceOutline \<Rightarrow> nat \<Rightarrow> nat \<Rightarrow> nat option" where
  "kotlin_function_type_arity ol start stop =
     (let index = scan_to ol ''->'' stop start
      in case checked_sub index 1 of
           None \<Rightarrow> None
         | Some close \<Rightarrow>
             if stop \<le> index \<or> \<not> is_punct ol close '')'' then None
             else case option_filter (\<lambda>opn. start \<le> opn \<and> opn < close) (closing ol close) of
                    None \<Rightarrow> None
                  | Some opn \<Rightarrow> Some (length (split_list_at ol opn close) + (if start < opn then 1 else 0)))"

function kotlin_type_path :: "SourceOutline \<Rightarrow> nat \<Rightarrow> str \<Rightarrow> nat \<Rightarrow> str \<times> (nat \<times> nat) option" where
  "kotlin_type_path ol stop name start =
     (let opn = start + 1;
          arguments = (if is_punct ol opn ''<'' then Some (opn, angle_end ol opn stop) else None);
          index = (case arguments of Some (_, close) \<Rightarrow> close + 1 | None \<Rightarrow> opn)
      in case identifier_of ol (index + 1) of
           None \<Rightarrow> (name, arguments)
         | Some segment \<Rightarrow>
             if is_punct ol index ''.'' \<and> index + 1 < stop then kotlin_type_path ol stop segment (index + 1)
             else (name, arguments))"
  by pat_completeness auto

lemma angle_path_measure:
  "Suc (Suc (angle_end ol (Suc start) stop)) < stop \<Longrightarrow>
   stop - Suc (Suc (angle_end ol (Suc start) stop)) < stop - start"
  using angle_end_ge [of "Suc start" ol stop] by simp

termination kotlin_type_path
  by (relation "measure (\<lambda>(ol, stop, name, start). stop - start)")
    (auto simp: angle_path_measure split: if_splits)

declare kotlin_type_path.simps [simp del, loop_simps]

function kotlin_type :: "SourceOutline \<Rightarrow> nat \<Rightarrow> nat \<Rightarrow> bool \<Rightarrow> nat \<Rightarrow> ErasedType option"
  and kotlin_array_type :: "SourceOutline \<Rightarrow> (nat \<times> nat) option \<Rightarrow> nat \<Rightarrow> ErasedType" where
  "kotlin_type ol start stop boxed depth =
     (if MAX_TYPE_NESTING \<le> depth then None
      else
        let skipped = skip_annotations ol start stop;
            is_suspend = word_is ol skipped ''suspend'';
            index = (if is_suspend then skipped + 1 else skipped);
            nullable = (index < stop \<and> is_punct ol (stop - 1) ''?'')
        in case kotlin_function_type_arity ol index stop of
             Some arity \<Rightarrow>
               Some (erased_new (lit ''Function'' @ fmt_radix 10 (arity + (if is_suspend then 1 else 0))) 0)
           | None \<Rightarrow>
               if is_punct ol index ''('' then
                 kotlin_type ol (index + 1) (group_end ol index stop) (boxed \<or> nullable) (depth + 1)
               else case option_filter (\<lambda>_. index < stop) (identifier_of ol index) of
                      None \<Rightarrow> None
                    | Some first \<Rightarrow>
                        let (name, arguments) = kotlin_type_path ol stop first index
                        in if name = lit ''Array'' then Some (kotlin_array_type ol arguments depth)
                           else Some (kotlin_erased_name (so_lower ol) name (boxed \<or> nullable)))"
| "kotlin_array_type ol arguments depth =
     (let element =
        (case arguments of
           None \<Rightarrow> None
         | Some (opn, close) \<Rightarrow>
             (case split_list_at ol opn close of
                [] \<Rightarrow> None
              | (start, stop) # _ \<Rightarrow>
                  kotlin_type ol (if word_is ol start ''out'' \<or> word_is ol start ''in'' then start + 1 else start)
                    stop True (depth + 1)));
          e = unwrap_or element (erased_new (lit ''Object'') 0)
      in erased_new (et_name e) (et_dimensions e + 1))"
  by pat_completeness auto
termination
  by (relation "measure (case_sum
        (\<lambda>(ol, start, stop, boxed, depth). if depth < MAX_TYPE_NESTING then 2 * (MAX_TYPE_NESTING + 1 - depth) else 0)
        (\<lambda>(ol, arguments, depth). if depth < MAX_TYPE_NESTING then 2 * (MAX_TYPE_NESTING + 1 - depth) - 1 else 1))")
    auto

declare kotlin_type.simps [simp del, loop_simps]
declare kotlin_array_type.simps [simp del, loop_simps]

function kotlin_parameter_start :: "SourceOutline \<Rightarrow> nat \<Rightarrow> bool \<Rightarrow> nat \<Rightarrow> nat \<times> bool" where
  "kotlin_parameter_start ol stop is_vararg index =
     (case word_of ol index of
        None \<Rightarrow> (index, is_vararg)
      | Some w \<Rightarrow>
          if \<not> (w = lit ''val'' \<or> w = lit ''var'' \<or> w \<in> set KOTLIN_MODIFIERS) \<or> is_punct ol (index + 1) '':''
          then (index, is_vararg)
          else kotlin_parameter_start ol stop (is_vararg \<or> w = lit ''vararg'') (skip_annotations ol (index + 1) stop))"
  by pat_completeness auto

lemma parameter_start_measure:
  "word_of ol index = Some w \<Longrightarrow>
   length (so_tokens ol) - skip_annotations ol (Suc index) stop < length (so_tokens ol) - index"
  using skip_annotations_ge [of "Suc index" ol stop] word_bound [of ol index] by simp

termination kotlin_parameter_start
  by (relation "measure (\<lambda>(ol, stop, is_vararg, index). length (so_tokens ol) - index)")
    (auto simp: parameter_start_measure simp del: lit.simps)

declare kotlin_parameter_start.simps [simp del, loop_simps]

definition kotlin_parameter :: "SourceOutline \<Rightarrow> nat \<Rightarrow> nat \<Rightarrow> ErasedType option" where
  "kotlin_parameter ol start stop =
     (let (index, is_vararg) = kotlin_parameter_start ol stop False (skip_annotations ol start stop)
      in if identifier_of ol index = None \<or> \<not> is_punct ol (index + 1) '':'' then None
         else let type_start = index + 2; type_end = scan_to ol ''='' stop type_start
              in case kotlin_type ol type_start (min type_end stop) False 0 of
                   None \<Rightarrow> None
                 | Some erased \<Rightarrow>
                     Some (if is_vararg then erased \<lparr> et_dimensions := et_dimensions erased + 1 \<rparr> else erased))"

section \<open>Type variables\<close>

type_synonym TypeVariables = "str \<rightharpoonup> (nat \<times> nat) option"

definition collect_one :: "SourceOutline \<Rightarrow> nat \<times> nat \<Rightarrow> TypeVariables \<Rightarrow> TypeVariables" where
  "collect_one ol = (\<lambda>(start, stop) variables.
     let skipped = skip_annotations ol start stop;
         index = (if word_is ol skipped ''reified'' \<or> word_is ol skipped ''in'' \<or> word_is ol skipped ''out''
                  then skipped + 1 else skipped)
     in case identifier_of ol index of
          None \<Rightarrow> variables
        | Some name \<Rightarrow>
            let has_bound = word_is ol (index + 1) ''extends'' \<or> is_punct ol (index + 1) '':'';
                bound_start = index + 2
            in variables (name \<mapsto>
                 (if has_bound \<and> bound_start < stop
                  then Some (bound_start, min (scan_to ol ''&'' stop bound_start) stop) else None)))"

definition collect_type_variables :: "SourceOutline \<Rightarrow> (nat \<times> nat) option \<Rightarrow> TypeVariables \<Rightarrow> TypeVariables" where
  "collect_type_variables ol parameters variables =
     (case parameters of
        None \<Rightarrow> variables
      | Some (opn, close) \<Rightarrow> fold (collect_one ol) (split_list_at ol opn close) variables)"

definition bound_type :: "SourceOutline \<Rightarrow> (nat \<times> nat) option \<Rightarrow> ErasedType option" where
  "bound_type ol bound =
     (case bound of
        None \<Rightarrow> None
      | Some (start, stop) \<Rightarrow>
          (case so_language ol of
             Java \<Rightarrow> map_option fst (java_type ol start stop)
           | Kotlin \<Rightarrow> kotlin_type ol start stop True 0))"

function erase :: "SourceOutline \<Rightarrow> TypeVariables \<Rightarrow> ErasedType \<Rightarrow> nat \<Rightarrow> ErasedType" where
  "erase ol variables erased depth =
     (case variables (et_name erased) of
        None \<Rightarrow> erased
      | Some bound \<Rightarrow>
          if MAX_TYPE_VARIABLE_DEPTH \<le> depth then erased_new (lit ''Object'') (et_dimensions erased)
          else
            let base = (case bound_type ol bound of
                   None \<Rightarrow> erased_new (lit ''Object'') 0
                 | Some b \<Rightarrow> erase ol variables b (depth + 1))
            in erased_new (et_name base) (et_dimensions base + et_dimensions erased))"
  by pat_completeness auto
termination by (relation "measure (\<lambda>(ol, variables, erased, depth). MAX_TYPE_VARIABLE_DEPTH - depth)") auto

declare erase.simps [simp del, loop_simps]

section \<open>Signatures\<close>

text \<open>The loop over the parameters: the first parameter that does not parse ends it with \<open>None\<close>.\<close>

fun erased_parameters :: "SourceOutline \<Rightarrow> TypeVariables \<Rightarrow> (nat \<times> nat) list \<Rightarrow> ErasedType list option" where
  "erased_parameters ol variables [] = Some []"
| "erased_parameters ol variables ((start, stop) # parts) =
     (case (case so_language ol of
              Java \<Rightarrow> java_parameter ol start stop
            | Kotlin \<Rightarrow> map_option Some (kotlin_parameter ol start stop)) of
        None \<Rightarrow> None
      | Some None \<Rightarrow> erased_parameters ol variables parts
      | Some (Some parameter) \<Rightarrow>
          map_option ((#) (erase ol variables parameter 0)) (erased_parameters ol variables parts))"

definition erased_signature :: "SourceOutline \<Rightarrow> FunctionDeclaration \<Rightarrow> TypeVariables \<Rightarrow> ErasedType list option" where
  "erased_signature ol f variables =
     do {
       receiver \<leftarrow> (case fd_receiver f of
           None \<Rightarrow> Some []
         | Some (start, stop) \<Rightarrow>
             map_option (\<lambda>t. [erase ol variables t 0]) (kotlin_type ol start stop False 0));
       parameters \<leftarrow> erased_parameters ol variables (split_list_at ol (fst (fd_parameters f)) (snd (fd_parameters f)));
       Some (receiver @ parameters @ (if fd_is_suspend f then [erased_new (lit ''Continuation'') 0] else []))
     }"

definition synthetic_constructor_prefix ::
    "TypeDeclaration \<Rightarrow> str option \<Rightarrow> ErasedType list \<Rightarrow> ErasedType list \<Rightarrow> bool" where
  "synthetic_constructor_prefix owner enclosing actual expected \<longleftrightarrow>
     (case enclosing of
        None \<Rightarrow> False
      | Some e \<Rightarrow> length expected = length actual + 1 \<and> expected ! 0 = erased_new e 0 \<and> drop 1 expected = actual) \<or>
     (td_is_enum owner \<and> length expected = length actual + 2 \<and> expected ! 0 = erased_new (lit ''String'') 0 \<and>
      expected ! 1 = erased_new (lit ''int'') 0 \<and> drop 2 expected = actual)"

type_synonym Owners = "(TypeDeclaration \<times> Member) list"

definition scope_variables :: "SourceOutline \<Rightarrow> FunctionDeclaration \<Rightarrow> Owners \<Rightarrow> TypeVariables" where
  "scope_variables ol f owners =
     collect_type_variables ol (fd_type_parameters f)
       (fold (\<lambda>(owner, _). collect_type_variables ol (td_type_parameters owner)) owners Map.empty)"

definition erased_parameters_match ::
    "SourceOutline \<Rightarrow> FunctionDeclaration \<Rightarrow> Owners \<Rightarrow> ErasedType list \<Rightarrow> bool" where
  "erased_parameters_match ol f owners expected =
     (case erased_signature ol f (scope_variables ol f owners) of
        None \<Rightarrow> False
      | Some actual \<Rightarrow>
          actual = expected \<or>
          (owners \<noteq> [] \<and> fd_is_constructor f \<and>
           synthetic_constructor_prefix (fst (last owners))
             (map_option (\<lambda>index. td_name (fst (owners ! index))) (checked_sub (length owners) 2)) actual expected))"

definition function_matches :: "SourceOutline \<Rightarrow> Member \<Rightarrow> Owners \<Rightarrow> ErasedType list \<Rightarrow> DescriptorMatch" where
  "function_matches ol member owners expected =
     (case mb_kind member of
        Function_Member f \<Rightarrow>
          if \<not> is_punct ol (snd (fd_parameters f)) '')'' then Possible
          else if erased_parameters_match ol f owners expected then Proven
          else Excluded
      | _ \<Rightarrow> Excluded)"

section \<open>Descriptors of the class file format\<close>

text \<open>
  Field types of the class file format and their descriptors; \<open>jvm_erased\<close> is the simple name and the
  dimensions of a field type.
\<close>

datatype jvm_type = Prim ch | Class_Of str | Array_Of jvm_type

fun jvm_descriptor :: "jvm_type \<Rightarrow> str" where
  "jvm_descriptor (Prim c) = [c]"
| "jvm_descriptor (Class_Of n) = of_char CHR ''L'' # n @ [of_char CHR '';'']"
| "jvm_descriptor (Array_Of t) = of_char CHR ''['' # jvm_descriptor t"

fun jvm_valid :: "jvm_type \<Rightarrow> bool" where
  "jvm_valid (Prim c) \<longleftrightarrow> primitive_name c \<noteq> None"
| "jvm_valid (Class_Of n) \<longleftrightarrow> of_char CHR '';'' \<notin> set n \<and> of_char CHR '')'' \<notin> set n"
| "jvm_valid (Array_Of t) \<longleftrightarrow> jvm_valid t"

fun jvm_erased :: "jvm_type \<Rightarrow> ErasedType" where
  "jvm_erased (Prim c) = erased_new (the (primitive_name c)) 0"
| "jvm_erased (Class_Of n) = erased_new (after_last (of_char CHR ''$'') (after_last (of_char CHR ''/'') n)) 0"
| "jvm_erased (Array_Of t) = erased_new (et_name (jvm_erased t)) (et_dimensions (jvm_erased t) + 1)"

lemma after_last_suffix: "\<exists>p. s = p @ after_last c s \<and> c \<notin> set (after_last c s)"
proof (induction s)
  case (Cons a s)
  obtain w ws where ws: "split_on c s = w # ws" by (cases "split_on c s") auto
  show ?case
  proof (cases "a = c \<or> ws \<noteq> []")
    case True
    then have "after_last c (a # s) = after_last c s" using ws by (auto simp: after_last_def)
    then show ?thesis using Cons by (metis append_Cons)
  next
    case False
    then have w: "split_on c s = [w]" "a \<noteq> c" using ws by auto
    then have "w = s" using join_split_on [of c s] by simp
    then show ?thesis using w split_on_no_sep [of w c s] by (auto simp: after_last_def intro: exI [of _ "[]"])
  qed
qed (simp add: after_last_def)

lemma descriptor_loop_type:
  "jvm_valid t \<Longrightarrow> descriptor_loop d (jvm_descriptor t @ rest) =
     map_option ((#) (erased_new (et_name (jvm_erased t)) (et_dimensions (jvm_erased t) + d))) (descriptor_loop 0 rest)"
proof (induction t arbitrary: d)
  case (Prim c)
  then have "c \<noteq> of_char CHR ''[''" "c \<noteq> of_char CHR ''L''" by (auto simp: primitive_name_def)
  then show ?case using Prim by (auto simp: erased_new_def)
next
  case (Class_Of n)
  then show ?case by (auto simp: erased_new_def takeWhile_append2 dropWhile_append)
next
  case (Array_Of t)
  then show ?case by (auto simp: erased_new_def)
qed

lemma erased_new_collapse [simp]: "erased_new (et_name t) (et_dimensions t) = t"
  by (simp add: erased_new_def)

lemma descriptor_loop_types:
  "list_all jvm_valid ts \<Longrightarrow> descriptor_loop 0 (concat (map jvm_descriptor ts)) = Some (map jvm_erased ts)"
  by (induction ts) (simp_all add: descriptor_loop_type)

lemma jvm_descriptor_no_paren: "jvm_valid t \<Longrightarrow> of_char CHR '')'' \<notin> set (jvm_descriptor t)"
  by (induction t) (auto simp: primitive_name_def)

text \<open>
  Claim C18.  \<open>descriptor_parameters\<close> inverts the descriptor syntax of the class file format: for any list of
  valid field types (primitives, class types whose names contain no parenthesis, arrays of any depth) and
  any return type, parsing the method descriptor gives back one erased type for each parameter, in order,
  with the array dimensions of that type and the part of its binary name after the last \<open>/\<close> and \<open>$\<close>.
\<close>

theorem descriptor_parameters_roundtrip:
  assumes "list_all jvm_valid ts"
  shows "descriptor_parameters (lit ''('' @ concat (map jvm_descriptor ts) @ lit '')'' @ ret) = Some (map jvm_erased ts)"
proof -
  have "of_char CHR '')'' \<notin> set (concat (map jvm_descriptor ts))"
    using assms jvm_descriptor_no_paren by (auto simp: list_all_iff)
  then have "split_once (lit '')'') (concat (map jvm_descriptor ts) @ lit '')'' @ ret) =
      Some (concat (map jvm_descriptor ts), ret)"
    using split_once_ch [of "of_char CHR '')''" "concat (map jvm_descriptor ts)" ret] by simp
  then show ?thesis using descriptor_loop_types [OF assms]
    by (simp add: descriptor_parameters_def strip_prefix_Some)
qed

theorem descriptor_parameters_roundtrip_witness:
  "list_all jvm_valid [Array_Of (Array_Of (Prim 73)), Class_Of (lit ''java/util/Map$Entry'')] \<and>
   descriptor_parameters (lit ''([[ILjava/util/Map$Entry;)V'')
     = Some [erased_new (lit ''int'') 2, erased_new (lit ''Entry'') 0]"
proof -
  have v: "list_all jvm_valid [Array_Of (Array_Of (Prim 73)), Class_Of (lit ''java/util/Map$Entry'')]" by code_simp
  have "map jvm_erased [Array_Of (Array_Of (Prim 73)), Class_Of (lit ''java/util/Map$Entry'')]
      = [erased_new (lit ''int'') 2, erased_new (lit ''Entry'') 0]" by code_simp
  then show ?thesis using descriptor_parameters_roundtrip [OF v, of "lit ''V''"] v by simp
qed

section \<open>Type variables are resolved\<close>

text \<open>
  The bounds that resolve a type: each type of the chain but the last is named like a type variable in
  scope, and the next type is the one written as the bound of that variable.
\<close>

definition bound_chain :: "SourceOutline \<Rightarrow> TypeVariables \<Rightarrow> ErasedType list \<Rightarrow> bool" where
  "bound_chain ol variables =
     successively (\<lambda>t b. \<exists>bound. variables (et_name t) = Some bound \<and> bound_type ol bound = Some b)"

text \<open>A chain can be followed no further: its last type is no variable, or its bound cannot be read.\<close>

definition chain_ends :: "SourceOutline \<Rightarrow> TypeVariables \<Rightarrow> ErasedType \<Rightarrow> bool" where
  "chain_ends ol variables t \<longleftrightarrow>
     (case variables (et_name t) of None \<Rightarrow> True | Some bound \<Rightarrow> bound_type ol bound = None)"

definition chain_erasure :: "TypeVariables \<Rightarrow> ErasedType list \<Rightarrow> ErasedType" where
  "chain_erasure variables ts =
     erased_new (if variables (et_name (last ts)) = None then et_name (last ts) else lit ''Object'')
       (sum_list (map et_dimensions ts))"

lemma erase_chain:
  "\<exists>bs. bound_chain ol variables (erased # bs) \<and>
     erase ol variables erased depth = chain_erasure variables (erased # bs) \<and>
     length bs \<le> MAX_TYPE_VARIABLE_DEPTH - depth \<and>
     (chain_ends ol variables (last (erased # bs)) \<or> length bs = MAX_TYPE_VARIABLE_DEPTH - depth)"
proof (induction ol variables erased depth rule: erase.induct)
  case (1 ol variables erased depth)
  show ?case
  proof (cases "variables (et_name erased)")
    case None
    then show ?thesis
      by (intro exI [of _ "[]"]) (simp add: erase.simps bound_chain_def chain_erasure_def chain_ends_def)
  next
    case (Some bound)
    note variable = Some
    show ?thesis
    proof (cases "MAX_TYPE_VARIABLE_DEPTH \<le> depth \<or> bound_type ol bound = None")
      case True
      then show ?thesis using Some
        by (intro exI [of _ "[]"])
          (auto simp: erase.simps bound_chain_def chain_erasure_def chain_ends_def erased_new_def)
    next
      case False
      then obtain b where b: "bound_type ol bound = Some b" and less: "\<not> MAX_TYPE_VARIABLE_DEPTH \<le> depth" by auto
      obtain bs where bs: "bound_chain ol variables (b # bs)"
        "erase ol variables b (depth + 1) = chain_erasure variables (b # bs)"
        "length bs \<le> MAX_TYPE_VARIABLE_DEPTH - (depth + 1)"
        "chain_ends ol variables (last (b # bs)) \<or> length bs = MAX_TYPE_VARIABLE_DEPTH - (depth + 1)"
        using 1 [OF variable less b] by blast
      have "erase ol variables erased depth = chain_erasure variables (erased # b # bs)"
        using variable b less bs(2)
        by (subst erase.simps) (simp add: Let_def chain_erasure_def erased_new_def)
      moreover have "bound_chain ol variables (erased # b # bs)"
        using bs(1) variable b by (simp add: bound_chain_def)
      ultimately show ?thesis using bs(3,4) less by (intro exI [of _ "b # bs"]) auto
    qed
  qed
qed

text \<open>
  Claim C19: erase_resolves.  \<open>erase\<close> terminates on every table of type variables, cyclic and
  self-referential bounds included, and follows the bounds: there is a chain from the type to the bound
  of its variable, the bound of that one's variable and so on, which either can be followed no further or
  has as many steps as the depth limit leaves.  The answer has the dimensions of all types of the chain
  added up, and the name of its last type, or \<open>Object\<close> when that is still a type variable (one without a
  bound that can be read, or where the limit is reached).
\<close>

theorem erase_resolves:
  "\<exists>bs. bound_chain ol variables (erased # bs) \<and>
     erase ol variables erased depth = chain_erasure variables (erased # bs) \<and>
     length bs \<le> MAX_TYPE_VARIABLE_DEPTH - depth \<and>
     (chain_ends ol variables (last (erased # bs)) \<or> length bs = MAX_TYPE_VARIABLE_DEPTH - depth)"
  by (rule erase_chain)

text \<open>A bound is erased to its own name and dimensions; a cycle ends at the depth limit with \<open>Object\<close>.\<close>

lemma erase_examples:
  "erase (sample_outline ''<T extends Number[]>'' Java) [lit ''T'' \<mapsto> Some (3, 6)] (erased_new (lit ''T'') 1) 0
     = erased_new (lit ''Number'') 2"
  "erase (sample_outline ''<T extends T[]>'' Java) [lit ''T'' \<mapsto> Some (3, 6)] (erased_new (lit ''T'') 1) 0
     = erased_new (lit ''Object'') 9"
  "erase (sample_outline ''<T>'' Java) [lit ''T'' \<mapsto> None] (erased_new (lit ''T'') 1) 0 = erased_new (lit ''Object'') 1"
  by code_simp+

end
