(* ===== verification/Members.thy ===== *)
theory Members
  imports Erasure
begin

text \<open>
  The member outline of Java and Kotlin type bodies (\<open>src/index/declaration_source/members.rs\<close>):
  where a statement ends, where the body of a declaration is, and the members of a type with their
  kinds and token ranges.

  A function that indexes the token list or subtracts one from an end index returns an option, and
  \<open>None\<close> stands for the panic; \<open>members_total\<close> shows that no member scan of a parsed outline reaches one.
\<close>

section \<open>Kotlin statements\<close>

definition KOTLIN_CONTINUING_SUFFIXES :: "string list" where
  "KOTLIN_CONTINUING_SUFFIXES =
     [''='', '','', ''.'', '':'', ''->'', ''+'', ''-'', ''*'', ''/'', ''%'', ''&'', ''|'', ''<'']"

definition KOTLIN_CONDITION_WORDS :: "string list" where
  "KOTLIN_CONDITION_WORDS = [''if'', ''while'', ''for'']"

definition KOTLIN_CONTINUING_PREFIXES :: "string list" where
  "KOTLIN_CONTINUING_PREFIXES = [''.'', ''?'', '':'', ''='', ''{'', ''&'', ''|'']"

definition KOTLIN_CONTINUING_WORDS :: "string list" where
  "KOTLIN_CONTINUING_WORDS = [''where'', ''by'', ''else'', ''catch'', ''finally'']"

function type_argument_depth :: "SourceOutline \<Rightarrow> nat \<Rightarrow> nat \<Rightarrow> nat \<Rightarrow> nat" where
  "type_argument_depth ol close depth index =
     (if index < close then
        type_argument_depth ol close
          (if is_punct ol index ''<'' then depth + 1 else if is_punct ol index ''>'' then depth - 1 else depth)
          (group_end ol index close + 1)
      else depth)"
  by pat_completeness auto
termination by (relation "measure (\<lambda>(ol, close, depth, index). close - index)") auto

declare type_argument_depth.simps [simp del, loop_simps]

definition closes_type_arguments :: "SourceOutline \<Rightarrow> nat \<Rightarrow> nat \<Rightarrow> bool" where
  "closes_type_arguments ol origin close \<longleftrightarrow> 0 < type_argument_depth ol close 0 origin"

definition line_end_continues :: "SourceOutline \<Rightarrow> nat \<Rightarrow> nat \<Rightarrow> bool" where
  "line_end_continues ol origin previous =
     (if list_ex (is_punct ol previous) KOTLIN_CONTINUING_SUFFIXES \<or> word_is ol previous ''else'' then True
      else if is_punct ol previous ''>'' then \<not> closes_type_arguments ol origin previous
      else is_punct ol previous '')'' \<and>
           (case closing ol previous of
              None \<Rightarrow> False
            | Some opn \<Rightarrow>
                (case checked_sub opn 1 of
                   None \<Rightarrow> False
                 | Some keyword \<Rightarrow> list_ex (word_is ol keyword) KOTLIN_CONDITION_WORDS)))"

definition continues_statement :: "SourceOutline \<Rightarrow> nat \<Rightarrow> nat \<Rightarrow> nat \<Rightarrow> bool \<Rightarrow> bool option" where
  "continues_statement ol origin previous nxt is_property =
     (let continues = line_end_continues ol origin previous \<or>
            list_ex (is_punct ol nxt) KOTLIN_CONTINUING_PREFIXES \<or>
            list_ex (word_is ol nxt) KOTLIN_CONTINUING_WORDS
      in if continues \<or> \<not> is_property then Some continues
         else
           let accessor = fst (skip_modifiers ol nxt (length (so_tokens ol)))
           in if \<not> (word_is ol accessor ''get'' \<or> word_is ol accessor ''set'') then Some False
              else if length (so_tokens ol) \<le> accessor + 1 \<or> is_punct ol (accessor + 1) ''('' \<or>
                      is_punct ol (accessor + 1) ''='' then Some True
              else do {
                after \<leftarrow> token_of ol (accessor + 1);
                at \<leftarrow> token_of ol accessor;
                Some (tk_end_line at < tk_line after)
              })"

definition ends_statement :: "SourceOutline \<Rightarrow> nat \<Rightarrow> nat \<Rightarrow> nat \<Rightarrow> bool \<Rightarrow> bool option" where
  "ends_statement ol origin previous nxt is_property =
     do {
       n \<leftarrow> token_of ol nxt;
       p \<leftarrow> token_of ol previous;
       if tk_end_line p < tk_line n
       then map_option Not (continues_statement ol origin previous nxt is_property)
       else Some False
     }"

function statement_loop :: "SourceOutline \<Rightarrow> nat \<Rightarrow> nat \<Rightarrow> bool \<Rightarrow> nat \<Rightarrow> nat \<Rightarrow> nat option" where
  "statement_loop ol origin stop is_property previous index =
     (if index < stop then
        do {
          ended \<leftarrow> (if is_closer ol index then Some True else ends_statement ol origin previous index is_property);
          if ended then Some previous
          else if is_punct ol index '';'' then Some index
          else statement_loop ol origin stop is_property (group_end ol index stop) (group_end ol index stop + 1)
        }
      else map_option (min previous) (checked_sub stop 1))"
  by pat_completeness auto
termination by (relation "measure (\<lambda>(ol, origin, stop, is_property, previous, index). stop - index)") auto

declare statement_loop.simps [simp del, loop_simps]

definition statement_end :: "SourceOutline \<Rightarrow> nat \<Rightarrow> nat \<Rightarrow> bool \<Rightarrow> nat option" where
  "statement_end ol origin stop is_property =
     statement_loop ol origin stop is_property (group_end ol origin stop) (group_end ol origin stop + 1)"

section \<open>Bodies\<close>

function body_loop :: "SourceOutline \<Rightarrow> nat \<Rightarrow> nat \<Rightarrow> nat \<Rightarrow> nat \<Rightarrow> ((nat \<times> nat) option \<times> nat) option" where
  "body_loop ol start stop previous index =
     (if index < stop then
        do {
          ended \<leftarrow> (if so_language ol = Kotlin then ends_statement ol start previous index False else Some False);
          if ended then Some (None, previous)
          else if is_punct ol index ''{'' then
            (let close = option_filter (\<lambda>close. close < stop) (closing ol index)
             in map_option (\<lambda>last_token. (Some (index, unwrap_or close stop), unwrap_or close last_token)) (checked_sub stop 1))
          else if is_punct ol index '';'' then Some (None, index)
          else if is_closer ol index then Some (None, previous)
          else if so_language ol = Kotlin \<and> is_punct ol index ''='' then
            map_option (Pair None) (statement_end ol index stop False)
          else body_loop ol start stop (group_end ol index stop) (group_end ol index stop + 1)
        }
      else map_option (\<lambda>last_token. (None, min previous last_token)) (checked_sub stop 1))"
  by pat_completeness auto
termination by (relation "measure (\<lambda>(ol, start, stop, previous, index). stop - index)") auto

declare body_loop.simps [simp del, loop_simps]

definition find_body :: "SourceOutline \<Rightarrow> nat \<Rightarrow> nat \<Rightarrow> nat \<Rightarrow> ((nat \<times> nat) option \<times> nat) option" where
  "find_body ol start last_token stop = body_loop ol start stop last_token (last_token + 1)"

section \<open>Types\<close>

definition new_member :: "nat \<Rightarrow> nat \<Rightarrow> MemberKind \<Rightarrow> Member" where
  "new_member start stop kind = \<lparr> mb_start = start, mb_end = stop, mb_kind = kind \<rparr>"

definition type_keyword :: "SourceOutline \<Rightarrow> nat \<Rightarrow> nat option" where
  "type_keyword ol index =
     (if is_punct ol index ''@'' \<and> word_is ol (index + 1) ''interface'' then Some (index + 1)
      else case word_of ol index of
             None \<Rightarrow> None
           | Some w \<Rightarrow>
               if w = lit ''class'' \<or> w = lit ''interface'' \<or> so_language ol = Java \<and> w = lit ''enum'' then Some index
               else if so_language ol = Java \<and> w = lit ''record'' \<and> identifier_of ol (index + 1) \<noteq> None \<and>
                       (is_punct ol (index + 2) ''('' \<or> is_punct ol (index + 2) ''<'') then Some index
               else if so_language ol = Kotlin \<and> w = lit ''object'' then Some index
               else if so_language ol = Kotlin \<and> w = lit ''fun'' \<and> word_is ol (index + 1) ''interface''
                    then Some (index + 1)
               else None)"

definition primary_parameters :: "SourceOutline \<Rightarrow> nat \<Rightarrow> nat \<Rightarrow> bool \<Rightarrow> (nat \<times> nat) option" where
  "primary_parameters ol index stop is_record =
     (case (case so_language ol of
              Java \<Rightarrow> if is_record then Some index else None
            | Kotlin \<Rightarrow>
                let after_modifiers = fst (skip_modifiers ol index stop)
                in if word_is ol after_modifiers ''constructor'' then Some (after_modifiers + 1)
                   else if after_modifiers = index then Some index
                   else None) of
        None \<Rightarrow> None
      | Some opn \<Rightarrow> if opn < stop \<and> is_punct ol opn ''('' then Some (opn, group_end ol opn stop) else None)"

definition type_member :: "SourceOutline \<Rightarrow> nat \<Rightarrow> nat \<Rightarrow> nat \<Rightarrow> Modifiers \<Rightarrow> Member option" where
  "type_member ol start keyword stop modifiers =
     (let keyword_text = unwrap_or (word_of ol keyword) [];
          is_companion = (md_is_companion modifiers \<and> keyword_text = lit ''object'');
          named = option_filter (\<lambda>_. keyword + 1 < stop) (identifier_of ol (keyword + 1));
          name = (case named of Some n \<Rightarrow> n | None \<Rightarrow> if is_companion then lit ''Companion'' else []);
          after_name = (case named of Some _ \<Rightarrow> keyword + 2 | None \<Rightarrow> keyword + 1);
          type_parameters = (if is_punct ol after_name ''<'' then Some (after_name, angle_end ol after_name stop) else None);
          after_type = (case type_parameters of Some (_, close) \<Rightarrow> close + 1 | None \<Rightarrow> after_name);
          is_record = (keyword_text = lit ''record'');
          primary = primary_parameters ol after_type stop is_record;
          index = (case primary of Some (_, close) \<Rightarrow> close + 1 | None \<Rightarrow> after_type)
      in do {
           header_end \<leftarrow> checked_sub index 1;
           (body, last_token) \<leftarrow> find_body ol keyword header_end stop;
           Some (new_member start (max last_token keyword)
             (Type_Member \<lparr> td_name = name, td_is_enum = (md_is_enum modifiers \<or> keyword_text = lit ''enum''),
                td_is_record = is_record, td_is_companion = is_companion, td_type_parameters = type_parameters,
                td_primary_parameters = primary, td_body = body \<rparr>))
         })"

section \<open>Java members\<close>

function java_statement_loop :: "SourceOutline \<Rightarrow> nat \<Rightarrow> nat \<Rightarrow> nat \<Rightarrow> nat option" where
  "java_statement_loop ol origin stop index =
     (if index < stop then
        if is_punct ol index '';'' \<or> is_punct ol index ''{'' then Some (group_end ol index stop)
        else if is_closer ol index then Some (max (index - 1) origin)
        else java_statement_loop ol origin stop (group_end ol index stop + 1)
      else checked_sub stop 1)"
  by pat_completeness auto
termination by (relation "measure (\<lambda>(ol, origin, stop, index). stop - index)") auto

declare java_statement_loop.simps [simp del, loop_simps]

definition java_statement_end :: "SourceOutline \<Rightarrow> nat \<Rightarrow> nat \<Rightarrow> nat option" where
  "java_statement_end ol origin stop = java_statement_loop ol origin stop origin"

function java_field_loop :: "SourceOutline \<Rightarrow> nat \<Rightarrow> nat \<Rightarrow> nat \<Rightarrow> nat option" where
  "java_field_loop ol origin stop index =
     (if index < stop then
        if is_punct ol index '';'' then Some index
        else if is_closer ol index then Some (max (index - 1) origin)
        else java_field_loop ol origin stop (group_end ol index stop + 1)
      else checked_sub stop 1)"
  by pat_completeness auto
termination by (relation "measure (\<lambda>(ol, origin, stop, index). stop - index)") auto

declare java_field_loop.simps [simp del, loop_simps]

definition java_field_end :: "SourceOutline \<Rightarrow> nat \<Rightarrow> nat \<Rightarrow> nat option" where
  "java_field_end ol origin stop = java_field_loop ol origin stop origin"

text \<open>The array brackets before a declarator name: \<open>checked_sub(2)?\<close> gives up with no name.\<close>

function declarator_loop :: "SourceOutline \<Rightarrow> nat \<Rightarrow> nat \<Rightarrow> nat option" where
  "declarator_loop ol first index =
     (if first < index \<and> is_punct ol index '']'' then
        if 2 \<le> index then declarator_loop ol first (index - 2) else None
      else Some index)"
  by pat_completeness auto
termination by (relation "measure (\<lambda>(ol, first, index). index)") auto

declare declarator_loop.simps [simp del, loop_simps]

definition declarator_name_before :: "SourceOutline \<Rightarrow> nat \<Rightarrow> nat \<Rightarrow> str option" where
  "declarator_name_before ol stop first =
     (case checked_sub stop 1 of
        None \<Rightarrow> None
      | Some i \<Rightarrow>
          (case declarator_loop ol first i of
             None \<Rightarrow> None
           | Some index \<Rightarrow> if first < index then identifier_of ol index else None))"

function further_declarators :: "SourceOutline \<Rightarrow> nat \<Rightarrow> nat \<Rightarrow> nat \<Rightarrow> str list" where
  "further_declarators ol last_token stop index =
     (if index < last_token then
        (if is_punct ol index '','' \<and> list_ex (is_punct ol (index + 2)) [''='', '','', '';'', ''['']
         then (case identifier_of ol (index + 1) of None \<Rightarrow> [] | Some n \<Rightarrow> [n]) else []) @
        further_declarators ol last_token stop (group_end ol index stop + 1)
      else [])"
  by pat_completeness auto
termination
  by (relation "measure (\<lambda>(ol, last_token, stop, index). last_token - index)")
    (auto intro: diff_less_mono2 le_imp_less_Suc group_end_ge)

declare further_declarators.simps [simp del, loop_simps]

definition java_field :: "SourceOutline \<Rightarrow> nat \<Rightarrow> nat \<Rightarrow> nat \<Rightarrow> nat \<Rightarrow> Member option" where
  "java_field ol start first at stop =
     do {
       last_token \<leftarrow> java_field_end ol at stop;
       Some (new_member start last_token (Field_Member
         ((case declarator_name_before ol at first of None \<Rightarrow> [] | Some n \<Rightarrow> [n]) @
          further_declarators ol last_token stop at)))
     }"

record JavaHeader =
  jh_start :: nat
  jh_first :: nat
  jh_type_parameters :: "(nat \<times> nat) option"

definition java_function :: "SourceOutline \<Rightarrow> JavaHeader \<Rightarrow> nat \<Rightarrow> nat \<Rightarrow> str option \<Rightarrow> Member option" where
  "java_function ol header opn stop owner =
     (let close = group_end ol opn stop
      in do {
           (_, last_token) \<leftarrow> find_body ol (jh_start header) close stop;
           Some (case (if jh_first header < opn then identifier_of ol (opn - 1) else None) of
                   None \<Rightarrow> new_member (jh_start header) last_token Other_Member
                 | Some name \<Rightarrow>
                     new_member (jh_start header) last_token (Function_Member
                       \<lparr> fd_name = name,
                         fd_is_constructor = (opn - 1 = jh_first header \<and> owner = Some name),
                         fd_is_suspend = False, fd_type_parameters = jh_type_parameters header,
                         fd_receiver = None, fd_parameters = (opn, close) \<rparr>))
         })"

text \<open>The header scan of \<open>java_member\<close>: a parenthesis, a field separator, or neither.\<close>

datatype java_shape = Function_At nat | Field_At nat | No_Shape

function java_shape_loop :: "SourceOutline \<Rightarrow> nat \<Rightarrow> nat \<Rightarrow> nat \<Rightarrow> java_shape" where
  "java_shape_loop ol stop angle_depth cursor =
     (if cursor < stop then
        if is_punct ol cursor ''<'' then
          java_shape_loop ol stop (angle_depth + 1) (group_end ol cursor stop + 1)
        else if is_punct ol cursor ''>'' then
          java_shape_loop ol stop (angle_depth - 1) (group_end ol cursor stop + 1)
        else if angle_depth = 0 \<and> is_punct ol cursor ''('' then Function_At cursor
        else if angle_depth = 0 \<and> list_ex (is_punct ol cursor) ['','', ''='', '';''] then Field_At cursor
        else if angle_depth = 0 \<and> (is_punct ol cursor ''{'' \<or> is_closer ol cursor) then No_Shape
        else java_shape_loop ol stop angle_depth (group_end ol cursor stop + 1)
      else No_Shape)"
  by pat_completeness auto
termination by (relation "measure (\<lambda>(ol, stop, angle_depth, cursor). stop - cursor)") auto

declare java_shape_loop.simps [simp del, loop_simps]

definition java_member :: "SourceOutline \<Rightarrow> nat \<Rightarrow> nat \<Rightarrow> nat \<Rightarrow> str option \<Rightarrow> Member option" where
  "java_member ol start index stop owner =
     (if is_punct ol index ''{'' \<or> is_punct ol index '';''
      then Some (new_member start (group_end ol index stop) Other_Member)
      else
        let type_parameters = (if is_punct ol index ''<'' then Some (index, angle_end ol index stop) else None);
            first = (case type_parameters of None \<Rightarrow> index | Some (_, close) \<Rightarrow> close + 1)
        in case java_shape_loop ol stop 0 first of
             Function_At cursor \<Rightarrow>
               java_function ol \<lparr> jh_start = start, jh_first = first, jh_type_parameters = type_parameters \<rparr> cursor stop owner
           | Field_At cursor \<Rightarrow> java_field ol start first cursor stop
           | No_Shape \<Rightarrow>
               map_option (\<lambda>last_token. new_member start last_token Other_Member) (java_statement_end ol index stop))"

section \<open>Kotlin members\<close>

text \<open>
  The receiver scan of \<open>kotlin_function\<close>: the index it stops at, or \<open>None\<close> when a token ends the header
  before a name followed by a parenthesis.
\<close>

function receiver_loop :: "SourceOutline \<Rightarrow> nat \<Rightarrow> nat \<Rightarrow> nat option" where
  "receiver_loop ol stop cursor =
     (if cursor < stop \<and> \<not> (identifier_of ol cursor \<noteq> None \<and> is_punct ol (cursor + 1) ''('') then
        if list_ex (is_punct ol cursor) [''{'', ''='', '';''] \<or> is_closer ol cursor then None
        else receiver_loop ol stop
               (if is_punct ol cursor ''<'' then angle_end ol cursor stop + 1 else group_end ol cursor stop + 1)
      else Some cursor)"
  by pat_completeness auto

lemma angle_end_measure: "i < stop \<Longrightarrow> stop - Suc (angle_end ol i stop) < stop - i"
  using angle_end_ge [of i ol stop] by simp

termination receiver_loop
  by (relation "measure (\<lambda>(ol, stop, cursor). stop - cursor)") (auto simp: angle_end_measure)

declare receiver_loop.simps [simp del, loop_simps]

definition kotlin_function :: "SourceOutline \<Rightarrow> nat \<Rightarrow> nat \<Rightarrow> nat \<Rightarrow> bool \<Rightarrow> Member option" where
  "kotlin_function ol start keyword stop is_suspend =
     (let type_parameters =
            (if is_punct ol (keyword + 1) ''<'' then Some (keyword + 1, angle_end ol (keyword + 1) stop) else None);
          receiver_start = (case type_parameters of Some (_, close) \<Rightarrow> close + 1 | None \<Rightarrow> keyword + 1)
      in case receiver_loop ol stop receiver_start of
           None \<Rightarrow> map_option (\<lambda>last_token. new_member start last_token Other_Member) (statement_end ol keyword stop False)
         | Some cursor \<Rightarrow>
             (case option_filter (\<lambda>_. cursor < stop) (identifier_of ol cursor) of
                None \<Rightarrow> map_option (\<lambda>last_token. new_member start last_token Other_Member) (checked_sub stop 1)
              | Some name \<Rightarrow>
                  let opn = cursor + 1; close = group_end ol opn stop
                  in do {
                       (_, last_token) \<leftarrow> find_body ol keyword close stop;
                       Some (new_member start last_token (Function_Member
                         \<lparr> fd_name = name, fd_is_constructor = False, fd_is_suspend = is_suspend,
                           fd_type_parameters = type_parameters,
                           fd_receiver = (if receiver_start + 1 < cursor then Some (receiver_start, cursor - 1) else None),
                           fd_parameters = (opn, close) \<rparr>))
                     }))"

lemma property_measure:
  "cursor \<le> last_token \<Longrightarrow> last_token - angle_end ol cursor stop < Suc last_token - cursor"
  "cursor \<le> last_token \<Longrightarrow> last_token - group_end ol cursor stop < Suc last_token - cursor"
  using angle_end_ge [of cursor ol stop] group_end_ge [of cursor ol stop] by simp_all

function property_name :: "SourceOutline \<Rightarrow> nat \<Rightarrow> nat \<Rightarrow> str option \<Rightarrow> nat \<Rightarrow> str option" where
  "property_name ol last_token stop name cursor =
     (if cursor \<le> last_token then
        if is_punct ol cursor '':'' \<or> is_punct ol cursor ''='' \<or> word_is ol cursor ''by'' then name
        else if is_punct ol cursor ''<'' then property_name ol last_token stop name (angle_end ol cursor stop + 1)
        else property_name ol last_token stop
               (case identifier_of ol cursor of None \<Rightarrow> name | Some n \<Rightarrow> Some n) (group_end ol cursor stop + 1)
      else name)"
  by pat_completeness auto
termination
  by (relation "measure (\<lambda>(ol, last_token, stop, name, cursor). Suc last_token - cursor)")
    (auto simp: property_measure)

declare property_name.simps [simp del, loop_simps]

definition kotlin_property :: "SourceOutline \<Rightarrow> nat \<Rightarrow> nat \<Rightarrow> nat \<Rightarrow> Member option" where
  "kotlin_property ol start keyword stop =
     do {
       last_token \<leftarrow> statement_end ol keyword stop True;
       Some (new_member start last_token (Field_Member
         (case property_name ol last_token stop None (keyword + 1) of None \<Rightarrow> [] | Some n \<Rightarrow> [n])))
     }"

definition kotlin_member :: "SourceOutline \<Rightarrow> nat \<Rightarrow> nat \<Rightarrow> nat \<Rightarrow> str option \<Rightarrow> Modifiers \<Rightarrow> Member option" where
  "kotlin_member ol start index stop owner modifiers =
     (if word_is ol index ''fun'' then kotlin_function ol start index stop (md_is_suspend modifiers)
      else if word_is ol index ''val'' \<or> word_is ol index ''var'' then kotlin_property ol start index stop
      else if word_is ol index ''constructor'' \<and> is_punct ol (index + 1) ''('' then
        (let close = group_end ol (index + 1) stop
         in do {
              (_, last_token) \<leftarrow> find_body ol index close stop;
              Some (new_member start last_token (Function_Member
                \<lparr> fd_name = unwrap_or owner [], fd_is_constructor = True, fd_is_suspend = False,
                  fd_type_parameters = None, fd_receiver = None, fd_parameters = (index + 1, close) \<rparr>))
            })
      else if word_is ol index ''init'' \<and> is_punct ol (index + 1) ''{'' then
        Some (new_member start (group_end ol (index + 1) stop) Other_Member)
      else map_option (\<lambda>last_token. new_member start last_token Other_Member) (statement_end ol index stop False))"

section \<open>Scanning a body\<close>

definition member_at :: "SourceOutline \<Rightarrow> nat \<Rightarrow> nat \<Rightarrow> str option \<Rightarrow> Member option" where
  "member_at ol start stop owner =
     (let (index, modifiers) = skip_modifiers ol start stop
      in if stop \<le> index then map_option (\<lambda>last_token. new_member start last_token Other_Member) (checked_sub stop 1)
         else case type_keyword ol index of
                Some keyword \<Rightarrow> type_member ol start keyword stop modifiers
              | None \<Rightarrow>
                  (case so_language ol of
                     Java \<Rightarrow> java_member ol start index stop owner
                   | Kotlin \<Rightarrow> kotlin_member ol start index stop owner modifiers))"

text \<open>One entry of \<open>scan_enum_entries\<close>: the member and the next index, or \<open>None\<close> when the entries end here.\<close>

definition enum_entry :: "SourceOutline \<Rightarrow> nat \<Rightarrow> nat \<Rightarrow> (str \<times> nat) option" where
  "enum_entry ol index stop =
     (let name_index = skip_annotations ol index stop
      in case option_filter (\<lambda>_. name_index < stop) (identifier_of ol name_index) of
           None \<Rightarrow> None
         | Some name \<Rightarrow>
             let nxt = name_index + 1
             in if \<not> (stop \<le> nxt \<or> list_ex (is_punct ol nxt) ['','', '';'', ''('', ''{'']) then None
                else
                  let a = (if is_punct ol nxt ''('' then group_end ol nxt stop + 1 else nxt);
                      b = (if a < stop \<and> is_punct ol a ''{'' then group_end ol a stop + 1 else a)
                  in Some (name, b))"

lemma enum_entry_gt: "enum_entry ol index stop = Some (name, n) \<Longrightarrow> index < n"
proof -
  assume e: "enum_entry ol index stop = Some (name, n)"
  let ?k = "skip_annotations ol index stop"
  define a where "a = (if is_punct ol (?k + 1) ''('' then group_end ol (?k + 1) stop + 1 else ?k + 1)"
  have k: "index \<le> ?k" by (rule skip_annotations_ge)
  have a: "?k + 1 \<le> a" using group_end_ge [of "?k + 1" ol stop] by (auto simp: a_def)
  have "n = (if a < stop \<and> is_punct ol a ''{'' then group_end ol a stop + 1 else a)"
    using e unfolding enum_entry_def Let_def a_def by (auto split: option.splits if_splits)
  then show "index < n" using k a group_end_ge [of a ol stop] by (auto split: if_splits)
qed

function scan_enum_entries :: "SourceOutline \<Rightarrow> nat \<Rightarrow> nat \<Rightarrow> (Member list \<times> nat) option" where
  "scan_enum_entries ol stop index =
     (if index < stop then
        if is_punct ol index '';'' then Some ([], index + 1)
        else case enum_entry ol index stop of
               None \<Rightarrow> Some ([], index)
             | Some (name, nxt) \<Rightarrow>
                 do {
                   last_token \<leftarrow> checked_sub nxt 1;
                   (members, final) \<leftarrow> scan_enum_entries ol stop
                     (if nxt < stop \<and> is_punct ol nxt '','' then nxt + 1 else nxt);
                   Some (new_member index last_token (Field_Member [name]) # members, final)
                 }
      else Some ([], index))"
  by pat_completeness auto
termination
  by (relation "measure (\<lambda>(ol, stop, index). stop - index)")
    (auto dest: enum_entry_gt intro!: diff_less_mono2)

declare scan_enum_entries.simps [simp del, loop_simps]

function member_loop :: "SourceOutline \<Rightarrow> nat \<Rightarrow> str option \<Rightarrow> nat \<Rightarrow> Member list option" where
  "member_loop ol stop owner index =
     (if index < stop then
        do {
          member \<leftarrow> member_at ol index stop owner;
          members \<leftarrow> member_loop ol stop owner (max (mb_end member) index + 1);
          Some (member # members)
        }
      else Some [])"
  by pat_completeness auto
termination by (relation "measure (\<lambda>(ol, stop, owner, index). stop - index)") auto

declare member_loop.simps [simp del, loop_simps]

definition scan_members :: "SourceOutline \<Rightarrow> nat \<Rightarrow> nat \<Rightarrow> str option \<Rightarrow> bool \<Rightarrow> Member list option" where
  "scan_members ol start stop owner is_enum =
     do {
       (entries, index) \<leftarrow> (if is_enum then scan_enum_entries ol stop start else Some ([], start));
       members \<leftarrow> member_loop ol stop owner index;
       Some (entries @ members)
     }"

definition header_field :: "SourceOutline \<Rightarrow> bool \<Rightarrow> nat \<times> nat \<Rightarrow> Member list option" where
  "header_field ol is_record = (\<lambda>(start, stop).
     let index = fst (skip_modifiers ol start stop);
         name_index = (if word_is ol index ''val'' \<or> word_is ol index ''var'' then Some (index + 1)
                       else if is_record then java_parameter_name_index ol start stop
                       else None)
     in case name_index of
          None \<Rightarrow> Some []
        | Some i \<Rightarrow>
            (case identifier_of ol i of
               None \<Rightarrow> Some []
             | Some name \<Rightarrow>
                 map_option (\<lambda>last_token. [new_member start last_token (Field_Member [name])]) (checked_sub stop 1)))"

fun option_concat_map :: "('a \<Rightarrow> 'b list option) \<Rightarrow> 'a list \<Rightarrow> 'b list option" where
  "option_concat_map f [] = Some []"
| "option_concat_map f (x # xs) = do { y \<leftarrow> f x; ys \<leftarrow> option_concat_map f xs; Some (y @ ys) }"

definition header_fields :: "SourceOutline \<Rightarrow> nat \<Rightarrow> nat \<Rightarrow> bool \<Rightarrow> Member list option" where
  "header_fields ol opn close is_record = option_concat_map (header_field ol is_record) (split_list_at ol opn close)"

text \<open>The two halves of \<open>members_of\<close>: the header of a type and its body.\<close>

definition header_members :: "SourceOutline \<Rightarrow> TypeDeclaration \<Rightarrow> Member \<Rightarrow> Member list option" where
  "header_members ol declaration member =
     (case td_primary_parameters declaration of
        None \<Rightarrow> Some []
      | Some (opn, close) \<Rightarrow>
          map_option ((@) (if td_is_record declaration then []
             else [new_member (mb_start member) close (Function_Member
                     \<lparr> fd_name = td_name declaration, fd_is_constructor = True, fd_is_suspend = False,
                       fd_type_parameters = None, fd_receiver = None, fd_parameters = (opn, close) \<rparr>)]))
            (header_fields ol opn close (td_is_record declaration)))"

definition body_members :: "SourceOutline \<Rightarrow> TypeDeclaration \<Rightarrow> Member list option" where
  "body_members ol declaration =
     (case td_body declaration of
        None \<Rightarrow> Some []
      | Some (opn, close) \<Rightarrow> scan_members ol (opn + 1) close (Some (td_name declaration)) (td_is_enum declaration))"

definition members_of :: "SourceOutline \<Rightarrow> TypeDeclaration \<Rightarrow> Member \<Rightarrow> Member list option" where
  "members_of ol declaration member =
     do {
       header \<leftarrow> header_members ol declaration member;
       body \<leftarrow> body_members ol declaration;
       Some (header @ body)
     }"

section \<open>Ends of statements and bodies\<close>

text \<open>An index at which a scan stops: past the last token, or a closing bracket.\<close>

definition stop_ok :: "SourceOutline \<Rightarrow> nat \<Rightarrow> bool" where
  "stop_ok ol stop \<longleftrightarrow> stop = length (so_tokens ol) \<or> stop < length (so_tokens ol) \<and> is_closer ol stop"

lemma stop_ok_le: "stop_ok ol stop \<Longrightarrow> stop \<le> length (so_tokens ol)"
  by (auto simp: stop_ok_def)

lemma closer_no_word: "is_closer ol i \<Longrightarrow> word_of ol i = None"
  by (auto simp: is_closer_def is_punct_def word_of_def split: option.splits)

lemma stop_ok_no_word: "stop_ok ol stop \<Longrightarrow> word_of ol stop = None"
  unfolding stop_ok_def by (metis closer_no_word word_bound less_irrefl)

lemma closer_no_opener: "is_closer ol i \<Longrightarrow> \<not> is_open_bracket ol i"
  by (auto simp: is_closer_def is_open_bracket_def is_punct_def split: option.splits)

lemma open_bracket_bound: "is_open_bracket ol i \<Longrightarrow> i < length (so_tokens ol)"
  by (auto simp: is_open_bracket_def dest: punct_bound)

lemma stop_ok_no_opener: "stop_ok ol stop \<Longrightarrow> \<not> is_open_bracket ol stop"
  using closer_no_opener [of ol stop] open_bracket_bound [of ol stop] by (auto simp: stop_ok_def)

lemma checked_sub_1: "0 < n \<Longrightarrow> checked_sub n 1 = Some (n - 1)"
  by (simp add: checked_sub_def)

lemma continues_statement_total: "\<exists>b. continues_statement ol origin previous nxt is_property = Some b"
  by (auto simp: continues_statement_def Let_def token_of_def)

lemma ends_statement_total:
  assumes "nxt < length (so_tokens ol)" "previous < length (so_tokens ol)"
  shows "\<exists>b. ends_statement ol origin previous nxt is_property = Some b"
  using assms continues_statement_total [of ol origin previous nxt is_property]
  by (auto simp: ends_statement_def token_of_def)

lemma statement_loop_total:
  "index = previous + 1 \<Longrightarrow> 0 < stop \<Longrightarrow> stop \<le> length (so_tokens ol) \<Longrightarrow>
   \<exists>r < stop. statement_loop ol origin stop is_property previous index = Some r \<and> (previous \<le> r \<or> r = stop - 1)"
proof (induction ol origin stop is_property previous index rule: statement_loop.induct)
  case (1 ol origin stop is_property previous index)
  let ?g = "group_end ol index stop"
  show ?case
  proof (cases "index < stop")
    case True
    then obtain b where b:
      "(if is_closer ol index then Some True else ends_statement ol origin previous index is_property) = Some b"
      using ends_statement_total [of index ol previous origin is_property] 1(2-4) by (cases "is_closer ol index") auto
    have g: "index \<le> ?g" "?g < stop" using group_end_ge group_end_less [OF True] by auto
    show ?thesis
    proof (cases "b \<or> is_punct ol index '';''")
      case True
      then show ?thesis using b \<open>index < stop\<close> 1(2) by (subst statement_loop.simps) auto
    next
      case False
      then obtain r where "r < stop" "statement_loop ol origin stop is_property ?g (?g + 1) = Some r" "?g \<le> r \<or> r = stop - 1"
        using 1(1) [OF True b] 1(3,4) by auto
      then show ?thesis using b \<open>index < stop\<close> False 1(2) g by (subst statement_loop.simps) auto
    qed
  next
    case False
    then show ?thesis using 1(2,3) by (subst statement_loop.simps) (auto simp: checked_sub_def)
  qed
qed

lemma statement_end_total:
  assumes "origin < stop" "stop \<le> length (so_tokens ol)"
  obtains r where "statement_end ol origin stop is_property = Some r" "origin \<le> r" "r < stop"
  using statement_loop_total [OF refl, of stop ol origin is_property "group_end ol origin stop"]
    group_end_ge [of "origin" ol stop] assms that
  unfolding statement_end_def by fastforce

definition body_ok :: "SourceOutline \<Rightarrow> nat \<Rightarrow> nat \<Rightarrow> (nat \<times> nat) option \<Rightarrow> bool" where
  "body_ok ol previous stop body \<longleftrightarrow>
     (\<forall>opn close. body = Some (opn, close) \<longrightarrow> previous < opn \<and> opn < close \<and> close \<le> stop \<and> stop_ok ol close)"

lemma body_ok_None [simp]: "body_ok ol previous stop None"
  by (simp add: body_ok_def)

lemma body_at_brace:
  assumes "outline_wf ol" "stop_ok ol stop" "index < stop" "is_punct ol index ''{''" "previous < index"
  shows "body_ok ol previous stop (Some (index, unwrap_or (option_filter (\<lambda>close. close < stop) (closing ol index)) stop))"
    "index \<le> unwrap_or (option_filter (\<lambda>close. close < stop) (closing ol index)) (stop - 1)"
    "unwrap_or (option_filter (\<lambda>close. close < stop) (closing ol index)) (stop - 1) < stop"
    "unwrap_or (option_filter (\<lambda>close. close < stop) (closing ol index)) stop
     \<le> Suc (unwrap_or (option_filter (\<lambda>close. close < stop) (closing ol index)) (stop - 1))"
proof -
  have opn: "is_open_bracket ol index" using assms(4) by (simp add: is_open_bracket_def)
  have cl: "index < c \<and> is_closer ol c \<and> c < length (so_tokens ol)" if "closing ol index = Some c" for c
    using assms(1) that opn by (auto simp: outline_wf_def)
  show "body_ok ol previous stop (Some (index, unwrap_or (option_filter (\<lambda>close. close < stop) (closing ol index)) stop))"
    using cl assms(2,3,5)
    by (cases "closing ol index") (auto simp: body_ok_def unwrap_or_def stop_ok_def split: option.splits)
  show "index \<le> unwrap_or (option_filter (\<lambda>close. close < stop) (closing ol index)) (stop - 1)"
    "unwrap_or (option_filter (\<lambda>close. close < stop) (closing ol index)) (stop - 1) < stop"
    "unwrap_or (option_filter (\<lambda>close. close < stop) (closing ol index)) stop
     \<le> Suc (unwrap_or (option_filter (\<lambda>close. close < stop) (closing ol index)) (stop - 1))"
    using cl assms(3) by (cases "closing ol index"; force simp: unwrap_or_def)+
qed

definition body_result :: "SourceOutline \<Rightarrow> nat \<Rightarrow> nat \<Rightarrow> ((nat \<times> nat) option \<times> nat) option \<Rightarrow> bool" where
  "body_result ol previous stop v \<longleftrightarrow>
     (\<exists>body r. v = Some (body, r) \<and> r < stop \<and> (previous \<le> r \<or> r = stop - 1) \<and> body_ok ol previous stop body \<and>
       (\<forall>opn close. body = Some (opn, close) \<longrightarrow> close \<le> Suc r))"

lemma body_result_mono: "body_result ol g stop v \<Longrightarrow> previous \<le> g \<Longrightarrow> body_result ol previous stop v"
  unfolding body_result_def body_ok_def by (blast intro: le_trans le_less_trans)

lemma body_loop_total:
  "outline_wf ol \<Longrightarrow> stop_ok ol stop \<Longrightarrow> index = previous + 1 \<Longrightarrow> 0 < stop \<Longrightarrow>
   body_result ol previous stop (body_loop ol start stop previous index)"
proof (induction ol start stop previous index rule: body_loop.induct)
  case (1 ol start stop previous index)
  let ?g = "group_end ol index stop"
  have le: "stop \<le> length (so_tokens ol)" using 1(3) by (rule stop_ok_le)
  show ?case
  proof (cases "index < stop")
    case True
    then obtain b where b:
      "(if so_language ol = Kotlin then ends_statement ol start previous index False else Some False) = Some b"
      using ends_statement_total [of index ol previous start False] 1(4) le by (cases "so_language ol = Kotlin") auto
    have g: "index \<le> ?g" using group_end_ge .
    obtain r where r: "statement_end ol index stop False = Some r" "index \<le> r" "r < stop"
      using statement_end_total [OF True le] .
    consider "b" | "\<not> b" "is_punct ol index ''{''" | "\<not> b" "\<not> is_punct ol index ''{''" "is_punct ol index '';'' \<or> is_closer ol index"
      | "\<not> b" "\<not> is_punct ol index ''{''" "\<not> is_punct ol index '';''" "\<not> is_closer ol index" by blast
    then show ?thesis
    proof cases
      case 1
      then show ?thesis using b True \<open>index = previous + 1\<close>
        by (subst body_loop.simps) (auto simp: body_result_def)
    next
      case 2
      have "previous < index" using \<open>index = previous + 1\<close> by simp
      note brace = body_at_brace [OF \<open>outline_wf ol\<close> \<open>stop_ok ol stop\<close> True 2(2) this]
      show ?thesis using b 2 True brace \<open>index = previous + 1\<close> checked_sub_1 [OF \<open>0 < stop\<close>]
        by (subst body_loop.simps) (auto simp: body_result_def Let_def)
    next
      case 3
      then show ?thesis using b True \<open>index = previous + 1\<close>
        by (subst body_loop.simps) (auto simp: body_result_def)
    next
      case 4
      show ?thesis
      proof (cases "so_language ol = Kotlin \<and> is_punct ol index ''=''")
        case eq: True
        then show ?thesis using 4 b True r \<open>index = previous + 1\<close>
          by (subst body_loop.simps) (auto simp: body_result_def)
      next
        case False
        have "body_result ol ?g stop (body_loop ol start stop ?g (?g + 1))"
          using "1.IH" [OF True b] 4 False "1.prems" by blast
        then have "body_result ol previous stop (body_loop ol start stop ?g (?g + 1))"
          using g \<open>index = previous + 1\<close> by (elim body_result_mono) simp
        moreover have "body_loop ol start stop previous index = body_loop ol start stop ?g (?g + 1)"
          using 4 b True False by (subst body_loop.simps) auto
        ultimately show ?thesis by simp
      qed
    qed
  next
    case False
    then show ?thesis using 1(4,5) by (subst body_loop.simps) (auto simp: checked_sub_def body_result_def)
  qed
qed

lemma find_body_total:
  assumes "outline_wf ol" "stop_ok ol stop" "0 < stop"
  obtains body r where "find_body ol start previous stop = Some (body, r)" "r < stop" "previous \<le> r \<or> r = stop - 1"
    "body_ok ol previous stop body" "\<And>opn close. body = Some (opn, close) \<Longrightarrow> close \<le> Suc r"
  using body_loop_total [OF assms(1,2) refl assms(3), of previous start] that
  by (auto simp: find_body_def body_result_def)

section \<open>Ranges of members\<close>

definition member_ok :: "SourceOutline \<Rightarrow> nat \<Rightarrow> Member \<Rightarrow> bool" where
  "member_ok ol stop m \<longleftrightarrow>
     mb_start m \<le> mb_end m \<and> mb_end m < stop \<and>
     (case mb_kind m of
        Type_Member td \<Rightarrow>
          (\<forall>opn close. td_primary_parameters td = Some (opn, close) \<longrightarrow>
             mb_start m \<le> opn \<and> opn \<le> close \<and> close \<le> mb_end m) \<and>
          body_ok ol (mb_start m) (Suc (mb_end m)) (td_body td)
      | _ \<Rightarrow> True)"

lemma member_ok_new:
  "start \<le> last_token \<Longrightarrow> last_token < stop \<Longrightarrow> (\<And>td. kind \<noteq> Type_Member td) \<Longrightarrow>
   member_ok ol stop (new_member start last_token kind)"
  by (cases kind) (auto simp: member_ok_def new_member_def)

lemma new_member_start [simp]: "mb_start (new_member start last_token kind) = start"
  by (simp add: new_member_def)

definition member_result :: "SourceOutline \<Rightarrow> nat \<Rightarrow> nat \<Rightarrow> Member option \<Rightarrow> bool" where
  "member_result ol start stop v \<longleftrightarrow> (\<exists>m. v = Some m \<and> mb_start m = start \<and> member_ok ol stop m)"

lemma member_resultI:
  "v = Some (new_member start last_token kind) \<Longrightarrow> start \<le> last_token \<Longrightarrow> last_token < stop \<Longrightarrow>
   (\<And>td. kind \<noteq> Type_Member td) \<Longrightarrow> member_result ol start stop v"
  by (simp add: member_result_def member_ok_new)

lemma java_field_loop_total:
  "origin \<le> index \<Longrightarrow> origin < stop \<Longrightarrow> \<exists>r. java_field_loop ol origin stop index = Some r \<and> origin \<le> r \<and> r < stop"
proof (induction ol origin stop index rule: java_field_loop.induct)
  case (1 ol origin stop index)
  have "origin \<le> group_end ol index stop + 1" using 1(2) group_end_ge [of index ol stop] by simp
  then show ?case using 1 by (subst java_field_loop.simps) (auto simp: checked_sub_def)
qed

lemma java_statement_loop_total:
  "origin \<le> index \<Longrightarrow> origin < stop \<Longrightarrow> \<exists>r. java_statement_loop ol origin stop index = Some r \<and> origin \<le> r \<and> r < stop"
proof (induction ol origin stop index rule: java_statement_loop.induct)
  case (1 ol origin stop index)
  have g: "origin \<le> group_end ol index stop" using 1(2) group_end_ge [of index ol stop] by simp
  then show ?case using 1 group_end_less [of index stop ol]
    by (subst java_statement_loop.simps) (auto simp: checked_sub_def)
qed

lemma java_shape_bounds:
  "java_shape_loop ol stop d cursor = Function_At c \<Longrightarrow> cursor \<le> c \<and> c < stop"
  "java_shape_loop ol stop d cursor = Field_At c \<Longrightarrow> cursor \<le> c \<and> c < stop"
proof (induction ol stop d cursor rule: java_shape_loop.induct)
  case (1 ol stop d cursor)
  have g: "cursor \<le> group_end ol cursor stop" by (rule group_end_ge)
  {
    case 1
    then show ?case using g "1.IH"(1,3,5) by (subst (asm) java_shape_loop.simps) (auto split: if_splits)
  next
    case 2
    then show ?case using g "1.IH"(2,4,6) by (subst (asm) java_shape_loop.simps) (auto split: if_splits)
  }
qed

lemma java_function_result:
  assumes "outline_wf ol" "stop_ok ol stop" "opn < stop" "jh_start h \<le> opn"
  shows "member_result ol (jh_start h) stop (java_function ol h opn stop owner)"
proof -
  have "0 < stop" using assms(3) by simp
  from find_body_total [OF assms(1,2) this] obtain body r where
    r: "find_body ol (jh_start h) (group_end ol opn stop) stop = Some (body, r)" "r < stop"
       "group_end ol opn stop \<le> r \<or> r = stop - 1" by metis
  have "jh_start h \<le> r" using r(2,3) assms(3,4) group_end_ge [of opn ol stop] by auto
  then show ?thesis using r(1,2)
    by (auto simp: java_function_def Let_def member_result_def intro!: member_ok_new split: option.splits)
qed

lemma java_member_result:
  assumes "outline_wf ol" "stop_ok ol stop" "index < stop" "start \<le> index"
  shows "member_result ol start stop (java_member ol start index stop owner)"
proof (cases "is_punct ol index ''{'' \<or> is_punct ol index '';''")
  case True
  then show ?thesis using assms(3,4) group_end_ge [of index ol stop] group_end_less [of index stop ol]
    by (intro member_resultI [of _ _ "group_end ol index stop" Other_Member]) (auto simp: java_member_def)
next
  case False
  define tp where "tp = (if is_punct ol index ''<'' then Some (index, angle_end ol index stop) else None)"
  define first where "first = (case tp of None \<Rightarrow> index | Some (_, close) \<Rightarrow> close + 1)"
  have first: "index \<le> first" using angle_end_ge [of index ol stop] by (auto simp: first_def tp_def)
  have jm: "java_member ol start index stop owner = (case java_shape_loop ol stop 0 first of
             Function_At cursor \<Rightarrow>
               java_function ol \<lparr> jh_start = start, jh_first = first, jh_type_parameters = tp \<rparr> cursor stop owner
           | Field_At cursor \<Rightarrow> java_field ol start first cursor stop
           | No_Shape \<Rightarrow>
               map_option (\<lambda>last_token. new_member start last_token Other_Member) (java_statement_end ol index stop))"
    unfolding java_member_def Let_def first_def tp_def by (simp only: False if_False)
  show ?thesis
  proof (cases "java_shape_loop ol stop 0 first")
    case (Function_At c)
    then have "c < stop" "start \<le> c" using java_shape_bounds(1) [OF Function_At] first assms(4) by auto
    then show ?thesis using java_function_result [OF assms(1,2), of c "\<lparr> jh_start = start, jh_first = first, jh_type_parameters = tp \<rparr>"]
      by (simp add: jm Function_At)
  next
    case (Field_At c)
    then have c: "c < stop" "start \<le> c" using java_shape_bounds(2) [OF Field_At] first assms(4) by auto
    then obtain r where "java_field_end ol c stop = Some r" "c \<le> r" "r < stop"
      using java_field_loop_total [of c c stop ol] by (auto simp: java_field_end_def)
    then show ?thesis using c
      by (auto simp: jm Field_At java_field_def member_result_def intro!: member_ok_new)
  next
    case No_Shape
    obtain r where "java_statement_end ol index stop = Some r" "index \<le> r" "r < stop"
      using java_statement_loop_total [of index index stop ol] assms(3) by (auto simp: java_statement_end_def)
    then show ?thesis using assms(4)
      by (auto simp: jm No_Shape member_result_def intro!: member_ok_new)
  qed
qed

lemma other_member_result:
  "v = Some r \<Longrightarrow> start \<le> r \<Longrightarrow> r < stop \<Longrightarrow>
   member_result ol start stop (map_option (\<lambda>last_token. new_member start last_token Other_Member) v)"
  by (rule member_resultI) auto

lemma function_member_result:
  assumes "outline_wf ol" "stop_ok ol stop" "start < stop" "start \<le> previous"
  shows "member_result ol start stop
    (do { (_, last_token) \<leftarrow> find_body ol origin previous stop; Some (new_member start last_token (Function_Member f)) })"
proof -
  have "0 < stop" using assms(3) by simp
  from find_body_total [OF assms(1,2) this] obtain body r where
    r: "find_body ol origin previous stop = Some (body, r)" "r < stop" "previous \<le> r \<or> r = stop - 1" by metis
  then have "start \<le> r" using assms(3,4) by auto
  then show ?thesis using r(1,2) by (auto simp: member_result_def intro!: member_ok_new)
qed

lemma receiver_loop_ge: "receiver_loop ol stop cursor = Some c \<Longrightarrow> cursor \<le> c"
proof (induction ol stop cursor rule: receiver_loop.induct)
  case (1 ol stop cursor)
  have "cursor \<le> angle_end ol cursor stop" "cursor \<le> group_end ol cursor stop"
    using angle_end_ge group_end_ge by auto
  then show ?case using 1 by (subst (asm) (2) receiver_loop.simps) (auto split: if_splits)
qed

lemma kotlin_function_result:
  assumes "outline_wf ol" "stop_ok ol stop" "start \<le> keyword" "keyword < stop"
  shows "member_result ol start stop (kotlin_function ol start keyword stop is_suspend)"
proof -
  define tp where "tp = (if is_punct ol (keyword + 1) ''<'' then Some (keyword + 1, angle_end ol (keyword + 1) stop) else None)"
  define rs where "rs = (case tp of Some (_, close) \<Rightarrow> close + 1 | None \<Rightarrow> keyword + 1)"
  have rs: "keyword < rs" using angle_end_ge [of "keyword + 1" ol stop] by (auto simp: rs_def tp_def)
  have le: "stop \<le> length (so_tokens ol)" using assms(2) by (rule stop_ok_le)
  show ?thesis
  proof (cases "receiver_loop ol stop rs")
    case None
    obtain r where "statement_end ol keyword stop False = Some r" "keyword \<le> r" "r < stop"
      using statement_end_total [OF assms(4) le] .
    then show ?thesis using None assms(3)
      unfolding kotlin_function_def tp_def [symmetric] Let_def rs_def [symmetric]
      by (auto simp: member_result_def intro!: member_ok_new)
  next
    case (Some cursor)
    note unfold = kotlin_function_def tp_def [symmetric] Let_def rs_def [symmetric] Some option.case
    show ?thesis
    proof (cases "option_filter (\<lambda>_. cursor < stop) (identifier_of ol cursor)")
      case None
      then show ?thesis unfolding unfold None option.case
        using assms(3,4) checked_sub_1 [of stop] by (intro other_member_result [of _ "stop - 1"]) auto
    next
      case name: (Some name)
      have "start \<le> group_end ol (cursor + 1) stop"
        using group_end_ge [of "cursor + 1" ol stop] receiver_loop_ge [OF Some] rs assms(3) by simp
      then show ?thesis unfolding unfold name option.case
        using assms by (intro function_member_result) auto
    qed
  qed
qed

lemma stop_ok_next:
  assumes "stop_ok ol stop" "index < stop" "word_of ol (index + 1) \<noteq> None \<or> is_open_bracket ol (index + 1)"
  shows "index + 1 < stop"
  using assms stop_ok_no_word [OF assms(1)] stop_ok_no_opener [OF assms(1)]
  by (metis Suc_eq_plus1 Suc_lessI)

lemma kotlin_member_result:
  assumes "outline_wf ol" "stop_ok ol stop" "start \<le> index" "index < stop"
  shows "member_result ol start stop (kotlin_member ol start index stop owner modifiers)"
proof -
  have le: "stop \<le> length (so_tokens ol)" using assms(2) by (rule stop_ok_le)
  obtain r where r: "statement_end ol index stop False = Some r" "index \<le> r" "r < stop"
    using statement_end_total [OF assms(4) le] .
  obtain q where q: "statement_end ol index stop True = Some q" "index \<le> q" "q < stop"
    using statement_end_total [OF assms(4) le] .
  have other: "member_result ol start stop
      (map_option (\<lambda>last_token. new_member start last_token Other_Member) (statement_end ol index stop False))"
    using r assms(3) by (intro other_member_result) auto
  have property: "member_result ol start stop (kotlin_property ol start index stop)"
    using q assms(3) by (auto simp: kotlin_property_def member_result_def intro!: member_ok_new)
  have ctor: "member_result ol start stop
      (do { (_, last_token) \<leftarrow> find_body ol index (group_end ol (index + 1) stop) stop;
            Some (new_member start last_token (Function_Member f)) })" for f
    using assms group_end_ge [of "index + 1" ol stop] by (intro function_member_result) auto
  have block: "member_result ol start stop (Some (new_member start (group_end ol (index + 1) stop) Other_Member))"
    if "is_punct ol (index + 1) ''{''"
  proof -
    have "index + 1 < stop" using stop_ok_next [OF assms(2,4)] that by (simp add: is_open_bracket_def)
    then show ?thesis using group_end_less [of "index + 1" stop ol] group_end_ge [of "index + 1" ol stop] assms(3)
      by (intro member_resultI) auto
  qed
  show ?thesis unfolding kotlin_member_def Let_def
    using kotlin_function_result [OF assms] property ctor block other by simp
qed

lemma type_keyword_word: "type_keyword ol index = Some k \<Longrightarrow> (k = index \<or> k = index + 1) \<and> word_of ol k \<noteq> None"
  by (auto simp: type_keyword_def word_is_def simp del: lit.simps split: if_splits option.splits)

lemma primary_parameters_bounds:
  assumes "primary_parameters ol index stop is_record = Some (opn, close)"
  shows "index \<le> opn" "opn \<le> close" "close < stop"
  using assms skip_modifiers_ge [of index ol stop] group_end_ge [of opn ol stop] group_end_less [of opn stop ol]
  by (auto simp: primary_parameters_def Let_def split: SourceLanguage.splits if_splits option.splits)

lemma type_member_result:
  assumes "outline_wf ol" "stop_ok ol stop" "start \<le> keyword" "keyword < stop"
  shows "member_result ol start stop (type_member ol start keyword stop modifiers)"
proof -
  define named where "named = option_filter (\<lambda>_. keyword + 1 < stop) (identifier_of ol (keyword + 1))"
  define an where "an = (case named of Some _ \<Rightarrow> keyword + 2 | None \<Rightarrow> keyword + 1)"
  define tp where "tp = (if is_punct ol an ''<'' then Some (an, angle_end ol an stop) else None)"
  define at where "at = (case tp of Some (_, close) \<Rightarrow> close + 1 | None \<Rightarrow> an)"
  define kt where "kt = unwrap_or (word_of ol keyword) []"
  define pp where "pp = primary_parameters ol at stop (kt = lit ''record'')"
  define index where "index = (case pp of Some (_, close) \<Rightarrow> close + 1 | None \<Rightarrow> at)"
  have "keyword < an" by (auto simp: an_def split: option.splits)
  then have at: "keyword < at" using angle_end_ge [of an ol stop] by (auto simp: at_def tp_def)
  have pp: "keyword < opn \<and> opn \<le> close \<and> close < stop" if "pp = Some (opn, close)" for opn close
    using primary_parameters_bounds [OF that [unfolded pp_def]] at by auto
  have idx: "keyword < index" using at pp by (force simp: index_def split: option.splits)
  have "0 < stop" using assms(4) by simp
  from find_body_total [OF assms(1,2) this] obtain body r where
    b: "find_body ol keyword (index - 1) stop = Some (body, r)" "r < stop" "index - 1 \<le> r \<or> r = stop - 1"
      "body_ok ol (index - 1) stop body" "\<And>opn close. body = Some (opn, close) \<Longrightarrow> close \<le> Suc r" by metis
  have tm: "\<exists>name is_enum is_record is_companion. type_member ol start keyword stop modifiers =
      Some (new_member start (max r keyword)
        (Type_Member \<lparr> td_name = name, td_is_enum = is_enum, td_is_record = is_record, td_is_companion = is_companion,
           td_type_parameters = tp, td_primary_parameters = pp, td_body = body \<rparr>))"
    unfolding type_member_def Let_def named_def [symmetric] an_def [symmetric] tp_def [symmetric] at_def [symmetric]
      kt_def [symmetric] pp_def [symmetric] index_def [symmetric]
    using idx b(1) checked_sub_1 [of index] by auto
  have "start \<le> opn \<and> opn \<le> close \<and> close \<le> r" if "pp = Some (opn, close)" for opn close
    using pp [OF that] that b(3) assms(3) by (auto simp: index_def)
  moreover have "body_ok ol start (Suc (max r keyword)) body"
    using b(4,5) assms(3) idx unfolding body_ok_def by fastforce
  ultimately show ?thesis using tm assms(3,4) b(2)
    by (fastforce simp: member_result_def member_ok_def new_member_def)
qed

lemma member_at_result:
  assumes "outline_wf ol" "stop_ok ol stop" "start < stop"
  shows "member_result ol start stop (member_at ol start stop owner)"
proof -
  obtain index modifiers where im: "skip_modifiers ol start stop = (index, modifiers)" by fastforce
  then have ge: "start \<le> index" using skip_modifiers_ge [of start ol stop] by simp
  show ?thesis
  proof (cases "stop \<le> index")
    case True
    then show ?thesis using assms(3) checked_sub_1 [of stop]
      by (auto simp: member_at_def im member_result_def intro!: member_ok_new)
  next
    case False
    then have lt: "index < stop" by simp
    show ?thesis
    proof (cases "type_keyword ol index")
      case (Some k)
      then have "start \<le> k" "k < stop"
        using type_keyword_word [OF Some] ge lt stop_ok_next [OF assms(2) lt] by auto
      then show ?thesis using type_member_result [OF assms(1,2)] False Some by (simp add: member_at_def im)
    next
      case None
      then show ?thesis
        using java_member_result [OF assms(1,2) lt ge] kotlin_member_result [OF assms(1,2) ge lt] False
        by (simp add: member_at_def im split: SourceLanguage.splits)
    qed
  qed
qed

section \<open>Ranges of member lists\<close>

definition members_ok :: "SourceOutline \<Rightarrow> nat \<Rightarrow> nat \<Rightarrow> Member list \<Rightarrow> bool" where
  "members_ok ol start stop ms \<longleftrightarrow>
     (\<forall>m \<in> set ms. start \<le> mb_start m \<and> member_ok ol stop m) \<and>
     sorted_wrt (\<lambda>m n. mb_end m < mb_start n) ms"

lemma members_ok_Nil [simp]: "members_ok ol start stop []"
  by (simp add: members_ok_def)

lemma members_ok_Cons:
  assumes "member_ok ol stop m" "start \<le> mb_start m" "members_ok ol k stop ms" "mb_end m < k" "start \<le> k"
  shows "members_ok ol start stop (m # ms)"
  using assms by (fastforce simp: members_ok_def)

lemma member_loop_total:
  "outline_wf ol \<Longrightarrow> stop_ok ol stop \<Longrightarrow>
   \<exists>ms. member_loop ol stop owner index = Some ms \<and> members_ok ol index stop ms"
proof (induction ol stop owner index rule: member_loop.induct)
  case (1 ol stop owner index)
  show ?case
  proof (cases "index < stop")
    case True
    obtain m where m: "member_at ol index stop owner = Some m" "mb_start m = index" "member_ok ol stop m"
      using member_at_result [OF "1.prems" True] by (auto simp: member_result_def)
    obtain ms where ms: "member_loop ol stop owner (max (mb_end m) index + 1) = Some ms"
      "members_ok ol (max (mb_end m) index + 1) stop ms"
      using "1.IH" [OF True m(1) "1.prems"] by blast
    have "members_ok ol index stop (m # ms)" using members_ok_Cons [OF m(3) _ ms(2)] m(2) by simp
    then show ?thesis using True m(1) ms(1) by (subst member_loop.simps) simp
  next
    case False
    then show ?thesis by (subst member_loop.simps) simp
  qed
qed

lemma enum_entry_bounds:
  assumes "enum_entry ol index stop = Some (name, n)" "stop_ok ol stop"
  shows "index < n" "n \<le> stop"
proof -
  show "index < n" using enum_entry_gt [OF assms(1)] .
  let ?k = "skip_annotations ol index stop"
  define a where "a = (if is_punct ol (?k + 1) ''('' then group_end ol (?k + 1) stop + 1 else ?k + 1)"
  have n: "n = (if a < stop \<and> is_punct ol a ''{'' then group_end ol a stop + 1 else a)" and k: "?k < stop"
    using assms(1) unfolding enum_entry_def Let_def a_def by (auto split: option.splits if_splits)
  have "a \<le> stop"
  proof (cases "is_punct ol (?k + 1) ''(''")
    case True
    then have "?k + 1 < stop" using stop_ok_next [OF assms(2) k] by (simp add: is_open_bracket_def)
    then show ?thesis using True group_end_less [of "?k + 1" stop ol] by (simp add: a_def)
  next
    case False
    then show ?thesis using k by (simp add: a_def)
  qed
  then show "n \<le> stop" using n group_end_less [of a stop ol] by (auto split: if_splits)
qed

lemma scan_enum_entries_total:
  "stop_ok ol stop \<Longrightarrow>
   \<exists>ms k. scan_enum_entries ol stop index = Some (ms, k) \<and> index \<le> k \<and> members_ok ol index stop ms \<and>
     (\<forall>m \<in> set ms. mb_end m < k)"
proof (induction ol stop index rule: scan_enum_entries.induct)
  case (1 ol stop index)
  show ?case
  proof (cases "index < stop \<and> \<not> is_punct ol index '';'' \<and> enum_entry ol index stop \<noteq> None")
    case True
    then obtain name n where e: "enum_entry ol index stop = Some (name, n)" by auto
    let ?next = "if n < stop \<and> is_punct ol n '','' then n + 1 else n"
    have b: "index < n" "n \<le> stop" using enum_entry_bounds [OF e 1(2)] by auto
    then have sub: "checked_sub n 1 = Some (n - 1)" by (intro checked_sub_1) simp
    obtain ms k where ms: "scan_enum_entries ol stop ?next = Some (ms, k)" "?next \<le> k" "members_ok ol ?next stop ms"
      "\<forall>m \<in> set ms. mb_end m < k"
      using 1(1) [OF _ _ e refl sub 1(2)] True by blast
    let ?m = "new_member index (n - 1) (Field_Member [name])"
    have "member_ok ol stop ?m" using b by (intro member_ok_new) auto
    moreover have "mb_end ?m < ?next" "index \<le> ?next" using b by (auto simp: new_member_def)
    ultimately have "members_ok ol index stop (?m # ms)" using members_ok_Cons [OF _ _ ms(3)] by simp
    moreover have "scan_enum_entries ol stop index = Some (?m # ms, k)"
      using True e sub ms(1) by (subst scan_enum_entries.simps) simp
    ultimately show ?thesis using ms b by (auto simp: new_member_def split: if_splits)
  next
    case False
    then show ?thesis by (subst scan_enum_entries.simps) (cases "enum_entry ol index stop", auto)
  qed
qed

lemma members_ok_append:
  assumes "members_ok ol start stop xs" "\<forall>m \<in> set xs. mb_end m < k" "members_ok ol k stop ys" "start \<le> k"
  shows "members_ok ol start stop (xs @ ys)"
  using assms by (fastforce simp: members_ok_def sorted_wrt_append)

lemma scan_members_total:
  assumes "outline_wf ol" "stop_ok ol stop"
  obtains ms where "scan_members ol start stop owner is_enum = Some ms" "members_ok ol start stop ms"
proof -
  obtain es k where e: "(if is_enum then scan_enum_entries ol stop start else Some ([], start)) = Some (es, k)"
    "start \<le> k" "members_ok ol start stop es" "\<forall>m \<in> set es. mb_end m < k"
    using scan_enum_entries_total [OF assms(2), of start] by (cases is_enum) auto
  obtain ms where ms: "member_loop ol stop owner k = Some ms" "members_ok ol k stop ms"
    using member_loop_total [OF assms] by blast
  have "scan_members ol start stop owner is_enum = Some (es @ ms)"
    unfolding scan_members_def e(1) by (simp add: ms(1))
  then show ?thesis using that members_ok_append [OF e(3,4) ms(2) e(2)] by blast
qed

lemma split_list_bounds:
  assumes "(a, b) \<in> set (split_list_at ol opn close)"
  shows "opn < a" "a < b" "b \<le> close"
proof -
  show "a < b" using assms by (simp add: split_list_at_def)
  have "opn + 1 \<le> close"
  proof (rule ccontr)
    assume "\<not> opn + 1 \<le> close"
    then have "split_list_at ol opn close = []"
      unfolding split_list_at_def by (subst split_loop.simps) simp
    then show False using assms by simp
  qed
  then have "consecutive_parts ol (opn + 1) close (split_loop ol close (opn + 1) 0 (opn + 1))"
    by (intro split_loop_parts) auto
  then show "opn < a" "b \<le> close" using assms by (auto simp: consecutive_parts_def split_list_at_def)
qed

lemma header_field_total:
  assumes "(a, b) \<in> set (split_list_at ol opn close)"
  shows "\<exists>ms. header_field ol is_record (a, b) = Some ms \<and>
    (\<forall>m \<in> set ms. opn < mb_start m \<and> mb_end m < close \<and> member_ok ol close m)"
proof -
  note b = split_list_bounds [OF assms]
  then have "checked_sub b 1 = Some (b - 1)" by (intro checked_sub_1) simp
  moreover have "member_ok ol close (new_member a (b - 1) (Field_Member [n]))" for n
    using b by (intro member_ok_new) auto
  ultimately show ?thesis using b
    by (auto simp: header_field_def Let_def new_member_def split: option.splits)
qed

lemma option_concat_map_total:
  "(\<And>x. x \<in> set xs \<Longrightarrow> \<exists>ys. f x = Some ys \<and> (\<forall>y \<in> set ys. P y)) \<Longrightarrow>
   \<exists>zs. option_concat_map f xs = Some zs \<and> (\<forall>z \<in> set zs. P z)"
proof (induction xs)
  case (Cons x xs)
  obtain ys where "f x = Some ys" "\<forall>y \<in> set ys. P y" using Cons.prems by auto
  moreover obtain zs where "option_concat_map f xs = Some zs" "\<forall>z \<in> set zs. P z" using Cons by auto
  ultimately show ?case by auto
qed simp

lemma header_fields_total:
  "\<exists>ms. header_fields ol opn close is_record = Some ms \<and>
    (\<forall>m \<in> set ms. opn < mb_start m \<and> mb_end m < close \<and> member_ok ol close m)"
  unfolding header_fields_def by (rule option_concat_map_total) (use header_field_total in fastforce)

lemma member_ok_mono: "member_ok ol stop m \<Longrightarrow> stop \<le> stop' \<Longrightarrow> member_ok ol stop' m"
  by (auto simp: member_ok_def)

text \<open>A member inside the range of another.\<close>

definition within_member :: "SourceOutline \<Rightarrow> Member \<Rightarrow> Member \<Rightarrow> bool" where
  "within_member ol m n \<longleftrightarrow>
     mb_start m \<le> mb_start n \<and> mb_end n \<le> mb_end m \<and> member_ok ol (Suc (mb_end m)) n"

lemma header_members_total:
  assumes "member_ok ol stop m" "mb_kind m = Type_Member td"
  shows "\<exists>ms. header_members ol td m = Some ms \<and> (\<forall>n \<in> set ms. within_member ol m n)"
proof (cases "td_primary_parameters td")
  case (Some p)
  obtain opn close where p: "p = (opn, close)" by fastforce
  have b: "mb_start m \<le> opn" "opn \<le> close" "close \<le> mb_end m" "mb_start m \<le> mb_end m"
    using assms Some p by (auto simp: member_ok_def)
  obtain fs where fs: "header_fields ol opn close (td_is_record td) = Some fs"
    "\<forall>n \<in> set fs. opn < mb_start n \<and> mb_end n < close \<and> member_ok ol close n"
    using header_fields_total by blast
  have "\<forall>n \<in> set fs. within_member ol m n"
    using fs(2) b member_ok_mono [of ol close _ "Suc (mb_end m)"] by (fastforce simp: within_member_def)
  moreover have "within_member ol m (new_member (mb_start m) close (Function_Member f))" for f
    using b by (simp add: within_member_def new_member_def member_ok_def)
  ultimately show ?thesis using fs(1) by (auto simp: header_members_def Some p)
qed (simp add: header_members_def)

lemma body_members_total:
  assumes "outline_wf ol" "member_ok ol stop m" "mb_kind m = Type_Member td"
  shows "\<exists>ms. body_members ol td = Some ms \<and> (\<forall>n \<in> set ms. within_member ol m n)"
proof (cases "td_body td")
  case (Some p)
  obtain opn close where p: "p = (opn, close)" by fastforce
  have b: "mb_start m < opn" "close \<le> Suc (mb_end m)" "stop_ok ol close"
    using assms(2,3) Some p by (auto simp: member_ok_def body_ok_def)
  obtain bs where bs: "scan_members ol (opn + 1) close (Some (td_name td)) (td_is_enum td) = Some bs"
    "members_ok ol (opn + 1) close bs" using scan_members_total [OF assms(1) b(3)] .
  have "within_member ol m n" if "n \<in> set bs" for n
  proof -
    have "opn + 1 \<le> mb_start n" "member_ok ol close n" using bs(2) that by (auto simp: members_ok_def)
    moreover from this have "mb_end n < close" by (simp add: member_ok_def)
    ultimately show ?thesis using b member_ok_mono [of ol close n] by (auto simp: within_member_def)
  qed
  then show ?thesis using bs(1) by (simp add: body_members_def Some p)
qed (simp add: body_members_def)

lemma members_of_total:
  assumes "outline_wf ol" "member_ok ol stop m" "mb_kind m = Type_Member td"
  shows "\<exists>ms. members_of ol td m = Some ms \<and> (\<forall>n \<in> set ms. within_member ol m n)"
  using header_members_total [OF assms(2,3)] body_members_total [OF assms] by (auto simp: members_of_def)

section \<open>All members of a source file\<close>

text \<open>Members of the file and, nested, of its types.\<close>

inductive outline_member :: "SourceOutline \<Rightarrow> Member \<Rightarrow> bool" for ol where
  top_level: "scan_members ol 0 (length (so_tokens ol)) None False = Some ms \<Longrightarrow> m \<in> set ms \<Longrightarrow> outline_member ol m"
| nested: "outline_member ol m \<Longrightarrow> mb_kind m = Type_Member td \<Longrightarrow> members_of ol td m = Some ms \<Longrightarrow> n \<in> set ms \<Longrightarrow>
    outline_member ol n"

lemma outline_member_ok:
  assumes "outline_wf ol" "outline_member ol m"
  shows "member_ok ol (length (so_tokens ol)) m"
  using assms(2)
proof induction
  case (top_level ms m)
  have "stop_ok ol (length (so_tokens ol))" by (simp add: stop_ok_def)
  then show ?case using scan_members_total [OF assms(1), of _ 0 None False] top_level by (metis members_ok_def option.inject)
next
  case (nested m td ms n)
  then have "within_member ol m n" using members_of_total [OF assms(1)] by fastforce
  then show ?case using nested.IH member_ok_mono [of ol "Suc (mb_end m)" n]
    by (auto simp: within_member_def member_ok_def [of _ _ m])
qed

text \<open>
  Claim C20.  The member outline never panics and stays in bounds on any source text, truncated and malformed
  ones included: the scan of the file succeeds, its members follow each other in order without overlap,
  and every member at any nesting depth has a non-empty range of existing tokens; the members of a type can
  be listed and lie inside the range of the type.
\<close>

theorem members_total:
  assumes "ascii_alnum alnum"
  shows "\<exists>ol ms. parse_outline alnum lower source language = Some ol \<and>
    scan_members ol 0 (length (so_tokens ol)) None False = Some ms \<and>
    sorted_wrt (\<lambda>m n. mb_end m < mb_start n) ms \<and>
    (\<forall>m. outline_member ol m \<longrightarrow> mb_start m \<le> mb_end m \<and> mb_end m < length (so_tokens ol) \<and>
      (\<forall>td. mb_kind m = Type_Member td \<longrightarrow>
        (\<exists>ns. members_of ol td m = Some ns \<and>
          (\<forall>n \<in> set ns. mb_start m \<le> mb_start n \<and> mb_end n \<le> mb_end m))))"
proof -
  obtain ol where ol: "parse_outline alnum lower source language = Some ol" "outline_wf ol"
    using parse_outline_wf [OF assms] by metis
  have "stop_ok ol (length (so_tokens ol))" by (simp add: stop_ok_def)
  then obtain ms where ms: "scan_members ol 0 (length (so_tokens ol)) None False = Some ms"
    "members_ok ol 0 (length (so_tokens ol)) ms" using scan_members_total [OF ol(2)] by metis
  have "mb_start m \<le> mb_end m \<and> mb_end m < length (so_tokens ol) \<and>
      (\<forall>td. mb_kind m = Type_Member td \<longrightarrow>
        (\<exists>ns. members_of ol td m = Some ns \<and>
          (\<forall>n \<in> set ns. mb_start m \<le> mb_start n \<and> mb_end n \<le> mb_end m)))" if "outline_member ol m" for m
  proof -
    have ok: "member_ok ol (length (so_tokens ol)) m" using outline_member_ok [OF ol(2) that] .
    then show ?thesis using members_of_total [OF ol(2) ok] by (force simp: member_ok_def within_member_def)
  qed
  then show ?thesis using ol(1) ms by (auto simp: members_ok_def)
qed

theorem members_total_witness:
  "ascii_alnum is_ascii_alphanumeric \<and>
   map_option (map (\<lambda>m. (mb_start m, mb_end m)))
     (scan_members (sample_outline ''class A{int x;void f(){}} enum E{P,Q(1){},;'' Java) 0 26 None False)
     = Some [(0, 12), (13, 25)] \<and>
   (\<exists>ol ms. parse_outline is_ascii_alphanumeric (\<lambda>c. c = 97) (lit ''class A{'') Java = Some ol \<and>
     scan_members ol 0 (length (so_tokens ol)) None False = Some ms)"
proof -
  have a: "ascii_alnum is_ascii_alphanumeric" by (simp add: ascii_alnum_def)
  have b: "map_option (map (\<lambda>m. (mb_start m, mb_end m)))
     (scan_members (sample_outline ''class A{int x;void f(){}} enum E{P,Q(1){},;'' Java) 0 26 None False)
     = Some [(0, 12), (13, 25)]" by code_simp
  show ?thesis using a b members_total [OF a, of "\<lambda>c. c = 97" "lit ''class A{''" Java] by blast
qed

end
