(* ===== verification/Declarations.thy ===== *)
theory Declarations
  imports Members
begin

text \<open>
  Locating a declaration in its source file (\<open>src/index/declaration_source.rs\<close>): the enclosing types
  named by the binary class name, the candidates in the type or its companion, the comparison with
  the descriptor, and the source lines of the answer.

  \<open>None\<close> is a panic of the code; \<open>locate_total\<close> shows that locating never panics.
\<close>

section \<open>Candidates and answers\<close>

datatype DeclarationKind = Class_Kind | Field_Kind | Method_Kind

record DeclarationCandidate =
  dc_kind :: DeclarationKind
  dc_name :: str
  dc_descriptor :: "str option"

datatype UnresolvedDeclarationReason = NotFound | Ambiguous | Unproven | SourceEntryMissing

record SourceSlice =
  sl_start_line :: nat
  sl_end_line :: nat
  sl_source :: str

datatype SliceOutcome = Found SourceSlice | Unresolved UnresolvedDeclarationReason "nat list"

definition not_found :: SliceOutcome where
  "not_found = Unresolved NotFound []"

definition nested_type_path :: "str \<Rightarrow> str list option" where
  "nested_type_path class_name =
     (let path = split_on (of_char CHR ''$'') (after_last (of_char CHR ''.'') class_name)
      in if list_all (\<lambda>segment. case segment of [] \<Rightarrow> False | first # _ \<Rightarrow> \<not> is_ascii_digit first) path
         then Some path else None)"

definition slice_of :: "SourceOutline \<Rightarrow> nat \<Rightarrow> nat \<Rightarrow> SourceSlice option" where
  "slice_of ol start stop =
     do {
       first \<leftarrow> token_of ol start;
       final \<leftarrow> token_of ol stop;
       let start_line = tk_line first;
       let end_line = max (tk_end_line final) start_line;
       Some \<lparr> sl_start_line = start_line + 1, sl_end_line = end_line + 1,
              sl_source = join [10] (take (end_line - start_line + 1) (drop start_line (str_lines (so_source ol)))) \<rparr>
     }"

fun option_map_all :: "('a \<Rightarrow> 'b option) \<Rightarrow> 'a list \<Rightarrow> 'b list option" where
  "option_map_all f [] = Some []"
| "option_map_all f (x # xs) = do { y \<leftarrow> f x; ys \<leftarrow> option_map_all f xs; Some (y # ys) }"

text \<open>\<open>Vec::dedup\<close> on a sorted list.\<close>

definition member_lines :: "SourceOutline \<Rightarrow> Member list \<Rightarrow> nat list option" where
  "member_lines ol members =
     map_option (remdups_adj \<circ> sort)
       (option_map_all (\<lambda>m. map_option (\<lambda>t. tk_line t + 1) (token_of ol (mb_start m))) members)"

definition unresolved_members :: "SourceOutline \<Rightarrow> Member list \<Rightarrow> SliceOutcome option" where
  "unresolved_members ol members =
     (if members = [] then Some not_found else map_option (Unresolved Ambiguous) (member_lines ol members))"

section \<open>Looking up members\<close>

definition companion_members :: "SourceOutline \<Rightarrow> Member \<Rightarrow> Member list option" where
  "companion_members ol member =
     (case mb_kind member of
        Type_Member declaration \<Rightarrow> if td_is_companion declaration then members_of ol declaration member else Some []
      | _ \<Rightarrow> Some [])"

definition direct_or_companion :: "SourceOutline \<Rightarrow> Member list \<Rightarrow> (Member \<Rightarrow> bool) \<Rightarrow> Member list option" where
  "direct_or_companion ol members accept =
     (let direct = filter accept members
      in if direct \<noteq> [] then Some direct
         else map_option (filter accept) (option_concat_map (companion_members ol) members))"

definition is_field_named :: "str \<Rightarrow> Member \<Rightarrow> bool" where
  "is_field_named name m = (case mb_kind m of Field_Member names \<Rightarrow> name \<in> set names | _ \<Rightarrow> False)"

definition is_function_named :: "str \<Rightarrow> Member \<Rightarrow> bool" where
  "is_function_named name m = (case mb_kind m of Function_Member f \<Rightarrow> fd_name f = name | _ \<Rightarrow> False)"

definition is_type_named :: "str \<Rightarrow> Member \<Rightarrow> bool" where
  "is_type_named name m = (case mb_kind m of Type_Member td \<Rightarrow> td_name td = name | _ \<Rightarrow> False)"

definition found_slice :: "SourceOutline \<Rightarrow> Member \<Rightarrow> SliceOutcome option" where
  "found_slice ol m = map_option Found (slice_of ol (mb_start m) (mb_end m))"

definition unique_or_unresolved :: "SourceOutline \<Rightarrow> Member list \<Rightarrow> SliceOutcome option" where
  "unique_or_unresolved ol found =
     (case found of [member] \<Rightarrow> found_slice ol member | _ \<Rightarrow> unresolved_members ol found)"

definition locate_field :: "SourceOutline \<Rightarrow> Member list \<Rightarrow> str \<Rightarrow> SliceOutcome option" where
  "locate_field ol members name =
     do { found \<leftarrow> direct_or_companion ol members (is_field_named name); unique_or_unresolved ol found }"

definition unproven :: "SourceOutline \<Rightarrow> Member list \<Rightarrow> SliceOutcome option" where
  "unproven ol found = map_option (Unresolved Unproven) (member_lines ol found)"

definition by_descriptor :: "SourceOutline \<Rightarrow> Owners \<Rightarrow> ErasedType list \<Rightarrow> Member list \<Rightarrow> SliceOutcome option" where
  "by_descriptor ol owners expected found =
     (let proven = filter (\<lambda>m. function_matches ol m owners expected = Proven) found;
          possible = filter (\<lambda>m. function_matches ol m owners expected = Possible) found
      in case proven of
           [] \<Rightarrow> unproven ol found
         | [member] \<Rightarrow> if possible = [] then found_slice ol member else unresolved_members ol (proven @ possible)
         | _ \<Rightarrow> unresolved_members ol (proven @ possible))"

definition locate_function ::
    "SourceOutline \<Rightarrow> Member list \<Rightarrow> Owners \<Rightarrow> DeclarationCandidate \<Rightarrow> bool \<Rightarrow> SliceOutcome option" where
  "locate_function ol members owners candidate is_compiler_generated =
     do {
       found \<leftarrow> direct_or_companion ol members (is_function_named (dc_name candidate));
       if found = [] then Some not_found
       else if is_compiler_generated then unproven ol found
       else case dc_descriptor candidate of
              None \<Rightarrow> unique_or_unresolved ol found
            | Some descriptor \<Rightarrow>
                (case descriptor_parameters descriptor of
                   None \<Rightarrow> unproven ol found
                 | Some expected \<Rightarrow> by_descriptor ol owners expected found)
     }"

text \<open>
  The walk along the enclosing types: \<open>Inl\<close> is an early answer, \<open>Inr\<close> the members of the innermost type
  and the chain of owners.
\<close>

fun locate_owner ::
    "SourceOutline \<Rightarrow> str list \<Rightarrow> Member list \<Rightarrow> Owners \<Rightarrow> (SliceOutcome + (Member list \<times> Owners)) option" where
  "locate_owner ol [] members owners = Some (Inr (members, owners))"
| "locate_owner ol (segment # path) members owners =
     (case filter (is_type_named segment) members of
        [member] \<Rightarrow>
          (case mb_kind member of
             Type_Member declaration \<Rightarrow>
               do { inner \<leftarrow> members_of ol declaration member;
                    locate_owner ol path inner (owners @ [(declaration, member)]) }
           | _ \<Rightarrow> Some (Inl not_found))
      | found \<Rightarrow> map_option Inl (unresolved_members ol found))"

definition locate :: "SourceOutline \<Rightarrow> str \<Rightarrow> DeclarationCandidate \<Rightarrow> bool \<Rightarrow> SliceOutcome option" where
  "locate ol class_name candidate is_compiler_generated =
     (case nested_type_path class_name of
        None \<Rightarrow> Some not_found
      | Some path \<Rightarrow>
          do {
            members \<leftarrow> scan_members ol 0 (length (so_tokens ol)) None False;
            walked \<leftarrow> locate_owner ol path members [];
            case walked of
              Inl outcome \<Rightarrow> Some outcome
            | Inr (members, owners) \<Rightarrow>
                if owners = [] then Some not_found
                else case dc_kind candidate of
                       Class_Kind \<Rightarrow> found_slice ol (snd (last owners))
                     | Field_Kind \<Rightarrow> locate_field ol members (dc_name candidate)
                     | Method_Kind \<Rightarrow> locate_function ol members owners candidate is_compiler_generated
          })"

section \<open>Locating never panics\<close>

lemma slice_of_total:
  assumes "i < length (so_tokens ol)" "j < length (so_tokens ol)"
  shows "\<exists>s. slice_of ol i j = Some s \<and> 0 < sl_start_line s \<and> sl_start_line s \<le> sl_end_line s"
  using assms by (simp add: slice_of_def token_of_def Let_def)

lemma option_map_all_total:
  "(\<And>x. x \<in> set xs \<Longrightarrow> \<exists>y. f x = Some y) \<Longrightarrow> \<exists>ys. option_map_all f xs = Some ys \<and> length ys = length xs"
proof (induction xs)
  case (Cons x xs)
  then obtain y ys where "f x = Some y" "option_map_all f xs = Some ys" "length ys = length xs" by fastforce
  then show ?case by simp
qed simp

definition members_listed :: "SourceOutline \<Rightarrow> Member list \<Rightarrow> bool" where
  "members_listed ol ms \<longleftrightarrow> (\<forall>m \<in> set ms. outline_member ol m)"

lemma strict_sorted_remdups_adj: "sorted (ls :: nat list) \<Longrightarrow> sorted_wrt (<) (remdups_adj ls)"
  by (induction ls rule: remdups_adj.induct) (auto simp: less_le)

lemma member_lines_total:
  assumes "outline_wf ol" "members_listed ol ms"
  obtains ls where "member_lines ol ms = Some ls" "sorted_wrt (<) ls" "ls = [] \<longleftrightarrow> ms = []"
proof -
  let ?f = "\<lambda>m. map_option (\<lambda>t. tk_line t + 1) (token_of ol (mb_start m))"
  have "\<exists>y. ?f m = Some y" if "m \<in> set ms" for m
    using outline_member_ok [OF assms(1), of m] assms(2) that
    by (auto simp: members_listed_def member_ok_def token_of_def)
  from option_map_all_total [of ms ?f, OF this] obtain ys where
    ys: "option_map_all ?f ms = Some ys" "length ys = length ms" by blast
  have "remdups_adj (sort ys) = [] \<longleftrightarrow> ms = []" using ys(2)
    by (metis length_0_conv length_sort remdups_adj_Nil_iff)
  then show ?thesis using that [of "remdups_adj (sort ys)"] ys(1) strict_sorted_remdups_adj by (simp add: member_lines_def)
qed

definition outcome_ok :: "SourceOutline \<Rightarrow> SliceOutcome \<Rightarrow> bool" where
  "outcome_ok ol r =
     (case r of
        Found s \<Rightarrow> \<exists>m. outline_member ol m \<and> slice_of ol (mb_start m) (mb_end m) = Some s
      | Unresolved reason ls \<Rightarrow>
          sorted_wrt (<) ls \<and> (ls = [] \<longleftrightarrow> reason = NotFound) \<and> reason \<noteq> SourceEntryMissing)"

definition answers :: "SourceOutline \<Rightarrow> SliceOutcome option \<Rightarrow> bool" where
  "answers ol v \<longleftrightarrow> (\<exists>r. v = Some r \<and> outcome_ok ol r)"

lemma answers_not_found [simp]: "answers ol (Some not_found)"
  by (simp add: answers_def not_found_def outcome_ok_def)

lemma unresolved_members_answers:
  assumes "outline_wf ol" "members_listed ol ms"
  shows "answers ol (unresolved_members ol ms)"
proof -
  obtain ls where "member_lines ol ms = Some ls" "sorted_wrt (<) ls" "ls = [] \<longleftrightarrow> ms = []"
    using member_lines_total [OF assms] .
  then show ?thesis by (auto simp: unresolved_members_def answers_def outcome_ok_def not_found_def)
qed

lemma unproven_answers:
  assumes "outline_wf ol" "members_listed ol ms" "ms \<noteq> []"
  shows "answers ol (unproven ol ms)"
proof -
  obtain ls where "member_lines ol ms = Some ls" "sorted_wrt (<) ls" "ls = [] \<longleftrightarrow> ms = []"
    using member_lines_total [OF assms(1,2)] .
  then show ?thesis using assms(3) by (auto simp: unproven_def answers_def outcome_ok_def)
qed

lemma found_slice_answers:
  assumes "outline_wf ol" "outline_member ol m"
  shows "answers ol (found_slice ol m)"
proof -
  have "mb_start m < length (so_tokens ol)" "mb_end m < length (so_tokens ol)"
    using outline_member_ok [OF assms] by (auto simp: member_ok_def)
  then show ?thesis using slice_of_total [of "mb_start m" ol "mb_end m"] assms(2)
    by (auto simp: found_slice_def answers_def outcome_ok_def)
qed

lemma unique_or_unresolved_answers:
  assumes "outline_wf ol" "members_listed ol ms"
  shows "answers ol (unique_or_unresolved ol ms)"
  using unresolved_members_answers [OF assms] found_slice_answers [OF assms(1)] assms(2)
  by (auto simp: unique_or_unresolved_def members_listed_def split: list.splits)

lemma members_of_listed:
  assumes "outline_wf ol" "outline_member ol m" "mb_kind m = Type_Member td"
  obtains ms where "members_of ol td m = Some ms" "members_listed ol ms"
proof -
  obtain ms where ms: "members_of ol td m = Some ms"
    using members_of_total [OF assms(1) outline_member_ok [OF assms(1,2)] assms(3)] by blast
  then have "members_listed ol ms" using outline_member.nested [OF assms(2,3) ms] by (simp add: members_listed_def)
  with ms that show ?thesis by blast
qed

lemma direct_or_companion_listed:
  assumes "outline_wf ol" "members_listed ol ms"
  obtains found where "direct_or_companion ol ms accept = Some found" "members_listed ol found" "\<forall>m \<in> set found. accept m"
proof (cases "filter accept ms = []")
  case False
  show ?thesis
  proof (rule that)
    show "direct_or_companion ol ms accept = Some (filter accept ms)"
      using False by (simp add: direct_or_companion_def Let_def)
  qed (use assms(2) in \<open>auto simp: members_listed_def\<close>)
next
  case True
  have "\<exists>ns. companion_members ol m = Some ns \<and> (\<forall>n \<in> set ns. outline_member ol n)" if "m \<in> set ms" for m
  proof (cases "mb_kind m")
    case (Type_Member td)
    have "outline_member ol m" using that assms(2) by (simp add: members_listed_def)
    then obtain ns where "members_of ol td m = Some ns" "members_listed ol ns"
      using members_of_listed [OF assms(1) _ Type_Member] by blast
    then show ?thesis using Type_Member by (auto simp: companion_members_def members_listed_def)
  qed (auto simp: companion_members_def)
  then obtain cs where "option_concat_map (companion_members ol) ms = Some cs" "\<forall>n \<in> set cs. outline_member ol n"
    using option_concat_map_total [of ms "companion_members ol" "outline_member ol"] by blast
  note cs = this
  show ?thesis
  proof (rule that)
    show "direct_or_companion ol ms accept = Some (filter accept cs)"
      using True cs(1) by (simp add: direct_or_companion_def Let_def)
  qed (use cs(2) in \<open>auto simp: members_listed_def\<close>)
qed

lemma by_descriptor_answers:
  assumes "outline_wf ol" "members_listed ol found" "found \<noteq> []"
  shows "answers ol (by_descriptor ol owners expected found)"
proof -
  let ?p = "filter (\<lambda>m. function_matches ol m owners expected = Proven) found"
  let ?q = "filter (\<lambda>m. function_matches ol m owners expected = Possible) found"
  have "members_listed ol (?p @ ?q)" using assms(2) by (auto simp: members_listed_def)
  note un = unresolved_members_answers [OF assms(1) this]
  have one: "answers ol (found_slice ol m)" if "?p = [m]" for m
  proof -
    have "m \<in> set ?p" unfolding that by simp
    then show ?thesis using assms(1,2) by (auto simp: members_listed_def intro!: found_slice_answers)
  qed
  show ?thesis using un one unproven_answers [OF assms]
    by (cases ?p rule: remdups_adj.cases) (auto simp: by_descriptor_def Let_def)
qed

lemma locate_function_answers:
  assumes "outline_wf ol" "members_listed ol ms"
  shows "answers ol (locate_function ol ms owners candidate gen)"
proof -
  obtain found where f: "direct_or_companion ol ms (is_function_named (dc_name candidate)) = Some found"
    "members_listed ol found" using direct_or_companion_listed [OF assms] by metis
  show ?thesis
    using f(1) unproven_answers [OF assms(1) f(2)] unique_or_unresolved_answers [OF assms(1) f(2)]
      by_descriptor_answers [OF assms(1) f(2)]
    by (simp add: locate_function_def split: option.splits)
qed

lemma locate_field_answers:
  assumes "outline_wf ol" "members_listed ol ms"
  shows "answers ol (locate_field ol ms name)"
proof -
  obtain found where f: "direct_or_companion ol ms (is_field_named name) = Some found" "members_listed ol found"
    using direct_or_companion_listed [OF assms] by metis
  then show ?thesis using unique_or_unresolved_answers [OF assms(1) f(2)] by (simp add: locate_field_def)
qed

definition owners_ok :: "SourceOutline \<Rightarrow> Owners \<Rightarrow> bool" where
  "owners_ok ol owners \<longleftrightarrow> (\<forall>(td, m) \<in> set owners. outline_member ol m \<and> mb_kind m = Type_Member td)"

lemma locate_owner_total:
  assumes "outline_wf ol"
  shows "members_listed ol ms \<Longrightarrow> owners_ok ol owners \<Longrightarrow>
    \<exists>w. locate_owner ol path ms owners = Some w \<and>
      (case w of Inl r \<Rightarrow> outcome_ok ol r | Inr (ns, os) \<Rightarrow> members_listed ol ns \<and> owners_ok ol os)"
proof (induction path arbitrary: ms owners)
  case (Cons segment path)
  let ?f = "filter (is_type_named segment) ms"
  have listed: "members_listed ol ?f" using Cons.prems by (simp add: members_listed_def)
  have un: "\<exists>w. map_option Inl (unresolved_members ol ?f) = Some w \<and>
      (case w of Inl r \<Rightarrow> outcome_ok ol r | Inr (ns, os) \<Rightarrow> members_listed ol ns \<and> owners_ok ol os)"
    using unresolved_members_answers [OF assms listed] by (auto simp: answers_def)
  show ?case
  proof (cases "\<exists>m. ?f = [m]")
    case True
    then obtain m where m: "?f = [m]" by blast
    then have "m \<in> set ?f" by simp
    then obtain td where td: "mb_kind m = Type_Member td" "outline_member ol m"
      using listed by (auto simp: is_type_named_def members_listed_def split: MemberKind.splits)
    obtain inner where inner: "members_of ol td m = Some inner" "members_listed ol inner"
      using members_of_listed [OF assms td(2,1)] .
    have "owners_ok ol (owners @ [(td, m)])" using Cons.prems(2) td by (auto simp: owners_ok_def)
    from Cons.IH [OF inner(2) this] show ?thesis using m td(1) inner(1) by simp
  next
    case False
    then have "locate_owner ol (segment # path) ms owners = map_option Inl (unresolved_members ol ?f)"
      by (auto split: list.splits)
    then show ?thesis using un by simp
  qed
qed simp

lemma locate_answers:
  assumes "outline_wf ol"
  shows "answers ol (locate ol class_name candidate gen)"
proof (cases "nested_type_path class_name")
  case (Some path)
  have "stop_ok ol (length (so_tokens ol))" by (simp add: stop_ok_def)
  then obtain ms where ms: "scan_members ol 0 (length (so_tokens ol)) None False = Some ms"
    using scan_members_total [OF assms] by metis
  then have listed: "members_listed ol ms" using outline_member.top_level [OF ms] by (simp add: members_listed_def)
  obtain w where w: "locate_owner ol path ms [] = Some w"
    "case w of Inl r \<Rightarrow> outcome_ok ol r | Inr (ns, os) \<Rightarrow> members_listed ol ns \<and> owners_ok ol os"
    using locate_owner_total [OF assms listed, of "[]" path] by (auto simp: owners_ok_def)
  show ?thesis
  proof (cases w)
    case (Inl r)
    then show ?thesis using Some ms w by (simp add: locate_def answers_def)
  next
    case (Inr p)
    obtain ns os where p: "p = (ns, os)" by fastforce
    have l: "members_listed ol ns" "owners_ok ol os" using w(2) Inr p by auto
    have "answers ol (found_slice ol (snd (last os)))" if "os \<noteq> []"
    proof (rule found_slice_answers [OF assms])
      show "outline_member ol (snd (last os))" using l(2) last_in_set [OF that] by (fastforce simp: owners_ok_def)
    qed
    then show ?thesis using Some ms w(1) Inr p locate_field_answers [OF assms l(1)] locate_function_answers [OF assms l(1)]
      by (simp add: locate_def split: DeclarationKind.splits)
  qed
qed (simp add: locate_def)

section \<open>Source lines of a slice\<close>

lemma length_split_on_newlines: "length (split_on 10 s) = Suc (newlines s)"
  by (induction s) (auto split: list.splits)

lemma split_on_append:
  "split_on d (u @ v) = butlast (split_on d u) @ (last (split_on d u) @ hd (split_on d v)) # tl (split_on d v)"
proof (induction u)
  case Nil
  show ?case by (cases "split_on d v") auto
next
  case (Cons c u)
  obtain w ws where w: "split_on d u = w # ws" by (cases "split_on d u") auto
  show ?case using Cons w by (cases ws) auto
qed

lemma join_Cons_append: "join s ((a @ x) # xs) = a @ join s (x # xs)"
  by (cases xs) auto

lemma join_snoc_append: "join s (xs @ [a @ b]) = join s (xs @ [a]) @ b"
proof (induction xs)
  case (Cons x xs)
  then show ?case by (cases xs) auto
qed simp

text \<open>The lines of a text from the one where \<open>x\<close> begins to the one where it ends.\<close>

lemma lines_around:
  "join [10] (take (Suc (newlines x)) (drop (newlines a) (split_on 10 (a @ x @ b)))) =
   last (split_on 10 a) @ x @ hd (split_on 10 b)"
proof -
  let ?A = "split_on 10 a" and ?X = "split_on 10 x" and ?B = "split_on 10 b" and ?Y = "split_on 10 (x @ b)"
  have "length (butlast ?A) = newlines a" by (simp add: length_split_on_newlines)
  then have drp: "drop (newlines a) (split_on 10 (a @ x @ b)) = (last ?A @ hd ?Y) # tl ?Y"
    using split_on_append [of 10 a "x @ b"] by simp
  have "length (butlast ?X) = newlines x" by (simp add: length_split_on_newlines)
  then have tak: "take (Suc (newlines x)) ?Y = butlast ?X @ [last ?X @ hd ?B]"
    using split_on_append [of 10 x b] by simp
  have "take (Suc (newlines x)) ((last ?A @ hd ?Y) # tl ?Y) = (last ?A @ hd ?Y) # take (newlines x) (tl ?Y)" by simp
  then have "join [10] (take (Suc (newlines x)) ((last ?A @ hd ?Y) # tl ?Y))
      = last ?A @ join [10] (hd ?Y # take (newlines x) (tl ?Y))"
    by (simp add: join_Cons_append)
  also have "hd ?Y # take (newlines x) (tl ?Y) = take (Suc (newlines x)) ?Y"
    by (metis list.collapse split_on_not_Nil take_Suc_Cons)
  also have "join [10] (take (Suc (newlines x)) ?Y) = join [10] (butlast ?X @ [last ?X]) @ hd ?B"
    unfolding tak by (rule join_snoc_append)
  also have "join [10] (butlast ?X @ [last ?X]) = x" by (simp add: join_split_on)
  finally show ?thesis using drp by simp
qed

lemma strip_cr_id: "13 \<notin> set s \<Longrightarrow> strip_cr s = s"
  by (cases "strip_suffix [13] s") (auto simp: strip_cr_def strip_suffix_Some)

lemma str_lines_no_cr:
  assumes "13 \<notin> set s"
  shows "str_lines s = (if last (split_on 10 s) = [] then butlast (split_on 10 s) else split_on 10 s)"
proof -
  have "set w \<subseteq> set s" if "w \<in> set (split_on 10 s)" for w
    using that by (induction s arbitrary: w) (fastforce split: if_splits list.splits)+
  then have "strip_cr w = w" if "w \<in> set (split_on 10 s)" for w using that assms strip_cr_id by blast
  then have "map strip_cr (butlast (split_on 10 s)) = butlast (split_on 10 s)"
    by (intro map_idI) (auto dest: in_set_butlastD)
  then show ?thesis by (simp add: str_lines_def Let_def)
qed

lemma last_split_on_Nil: "last (split_on d s) = [] \<longleftrightarrow> s = [] \<or> last s = d"
  by (cases s rule: rev_cases) (auto simp: split_on_append)

lemma same_prefix_by_str_len: "p @ r = p' @ r' \<Longrightarrow> str_len p = str_len p' \<Longrightarrow> p = p'"
  using prefix_by_str_len [of p r p' r'] prefix_by_str_len [of p' r' p r] by auto

lemma str_lines_around:
  assumes "13 \<notin> set (a @ x @ b)" "x \<noteq> []" "last x \<noteq> 10"
  shows "join [10] (take (Suc (newlines x)) (drop (newlines a) (str_lines (a @ x @ b)))) =
    last (split_on 10 a) @ x @ hd (split_on 10 b)"
proof -
  let ?S = "split_on 10 (a @ x @ b)"
  have len: "length ?S = Suc (newlines a + newlines x + newlines b)" by (simp add: length_split_on_newlines newlines_def)
  have "newlines b \<noteq> 0" if "last ?S = []"
  proof -
    have "b \<noteq> [] \<and> last b = 10" using that assms(2,3) by (cases "b = []") (auto simp: last_split_on_Nil)
    then have "10 \<in> set b" by (metis last_in_set)
    then show ?thesis by (auto simp: newlines_def filter_empty_conv)
  qed
  then have "take (Suc (newlines x)) (drop (newlines a) (str_lines (a @ x @ b)))
      = take (Suc (newlines x)) (drop (newlines a) ?S)"
    using len by (auto simp: str_lines_no_cr [OF assms(1)] butlast_conv_take drop_take min_def)
  then show ?thesis using lines_around by simp
qed

lemma slice_of_text:
  assumes "outline_wf ol" "slice_of ol i j = Some s" "13 \<notin> set (so_source ol)"
    and "byte_slice (so_source ol) (tk_start (so_tokens ol ! i)) (tk_end (so_tokens ol ! j)) = Some x"
    and "x \<noteq> []" "last x \<noteq> 10"
  shows "\<exists>p q. sl_source s = p @ x @ q \<and> 10 \<notin> set p \<and> 10 \<notin> set q"
proof -
  have ij: "i < length (so_tokens ol)" "j < length (so_tokens ol)"
    using assms(2) by (auto simp: slice_of_def token_of_def split: if_splits)
  let ?ti = "so_tokens ol ! i" and ?tj = "so_tokens ol ! j" and ?src = "so_source ol"
  have at: "token_at ?src ?ti" "token_at ?src ?tj" using assms(1) ij by (auto simp: outline_wf_def)
  from at(1) obtain a r where a: "?src = a @ r" "tk_start ?ti = str_len a" "tk_line ?ti = newlines a"
    by (auto simp: token_at_def)
  from at(2) obtain c r' where c: "?src = c @ r'" "tk_end ?tj = str_len c" "tk_end_line ?tj = newlines c"
    unfolding token_at_def by (metis append_assoc)
  from assms(4) obtain a' b where ab: "?src = a' @ x @ b" "str_len a' = tk_start ?ti" "str_len (a' @ x) = tk_end ?tj"
    using byte_slice_SomeD [OF assms(4)] by blast
  have "a' = a" using same_prefix_by_str_len [of a' "x @ b" a r] ab(1,2) a(1,2) by simp
  have "a' @ x = c" using same_prefix_by_str_len [of "a' @ x" b c r'] ab(1,3) c(1,2) by simp
  then have el: "tk_end_line ?tj = newlines a + newlines x" using c(3) \<open>a' = a\<close> by (auto simp: newlines_def)
  have "sl_source s = join [10] (take (Suc (newlines x)) (drop (newlines a) (str_lines ?src)))"
    using assms(2) ij a(3) el by (auto simp: slice_of_def token_of_def Let_def max_def)
  then have "sl_source s = last (split_on 10 a) @ x @ hd (split_on 10 b)"
    using str_lines_around [of a x b] assms(3,5,6) ab(1) \<open>a' = a\<close> by simp
  moreover have "10 \<notin> set (last (split_on 10 a))" "10 \<notin> set (hd (split_on 10 b))"
    using split_on_no_sep [of "last (split_on 10 a)" 10 a] split_on_no_sep [of "hd (split_on 10 b)" 10 b]
    by (simp_all add: hd_in_set)
  ultimately show ?thesis by blast
qed

lemma token_range_text:
  assumes "outline_wf ol" "i \<le> j" "j < length (so_tokens ol)"
  shows "\<exists>x. x \<noteq> [] \<and> byte_slice (so_source ol) (tk_start (so_tokens ol ! i)) (tk_end (so_tokens ol ! j)) = Some x"
proof -
  let ?ti = "so_tokens ol ! i" and ?tj = "so_tokens ol ! j" and ?src = "so_source ol"
  have at: "token_at ?src ?ti" "token_at ?src ?tj" using assms by (auto simp: outline_wf_def)
  from at(1) obtain a y r where a: "?src = a @ y @ r" "tk_start ?ti = str_len a" "tk_end ?ti = str_len (a @ y)" "y \<noteq> []"
    by (auto simp: token_at_def)
  from at(2) obtain c r' where c: "?src = c @ r'" "tk_end ?tj = str_len c" "tk_start ?tj \<le> tk_end ?tj"
    unfolding token_at_def by (metis append_assoc str_len_append le_add1)
  have "tk_end ?ti \<le> tk_end ?tj"
  proof (cases "i = j")
    case False
    then have "tk_end ?ti \<le> tk_start ?tj"
      using assms sorted_wrt_nth_less [of _ "so_tokens ol" i j] by (auto simp: outline_wf_def)
    then show ?thesis using c(3) by simp
  qed simp
  then have "str_len (a @ y) \<le> str_len c" using a(3) c(2) by simp
  then obtain m where "c = (a @ y) @ m" using prefix_by_str_len [of "a @ y" r c r'] a(1) c(1) by auto
  then show ?thesis using a c(1,2) byte_slice_append [of a "y @ m" r'] by (intro exI [of _ "y @ m"]) simp
qed

section \<open>Found answers\<close>

lemma unresolved_members_not_Found: "unresolved_members ol ms \<noteq> Some (Found s)"
  by (auto simp: unresolved_members_def not_found_def)

lemma by_descriptor_Found:
  assumes "by_descriptor ol owners expected found = Some (Found s)"
  shows "\<exists>m. filter (\<lambda>n. function_matches ol n owners expected \<noteq> Excluded) found = [m] \<and>
    function_matches ol m owners expected = Proven \<and> found_slice ol m = Some (Found s)"
proof -
  let ?p = "filter (\<lambda>m. function_matches ol m owners expected = Proven) found"
  let ?q = "filter (\<lambda>m. function_matches ol m owners expected = Possible) found"
  obtain m where m: "?p = [m]" "?q = []" "found_slice ol m = Some (Found s)"
    using assms unresolved_members_not_Found
    by (cases ?p rule: remdups_adj.cases) (auto simp: by_descriptor_def unproven_def Let_def split: if_splits)
  have "function_matches ol n owners expected \<noteq> Excluded \<longleftrightarrow> function_matches ol n owners expected = Proven"
    if "n \<in> set found" for n
    using that m(2) by (cases "function_matches ol n owners expected") (auto simp: filter_empty_conv)
  then have "filter (\<lambda>n. function_matches ol n owners expected \<noteq> Excluded) found = ?p" by (intro filter_cong) auto
  moreover have "function_matches ol m owners expected = Proven"
    using m(1) by (metis (mono_tags, lifting) filter_eq_ConsD)
  ultimately show ?thesis using m by auto
qed

lemma locate_owner_never_found: "locate_owner ol path ms owners \<noteq> Some (Inl (Found s))"
proof (induction path arbitrary: ms owners)
  case (Cons segment path)
  then show ?case using unresolved_members_not_Found
    by (auto simp: not_found_def bind_eq_Some_conv split: list.splits MemberKind.splits)
qed simp

section \<open>Properties\<close>

text \<open>
  Locating a declaration answers on every source text, class name and candidate, never panics, and the
  answer has the documented shape: a found slice consists of the lines of one member of the outline, with
  one-based lines in order; an unresolved answer lists strictly increasing candidate lines, none exactly when the
  declaration was not found, and never claims a missing source entry.
\<close>

lemma locate_total:
  assumes "ascii_alnum alnum"
  shows "\<exists>ol r. parse_outline alnum lower source language = Some ol \<and>
    locate ol class_name candidate is_compiler_generated = Some r \<and>
    (case r of
       Found s \<Rightarrow> 0 < sl_start_line s \<and> sl_start_line s \<le> sl_end_line s \<and>
         (\<exists>m. outline_member ol m \<and> slice_of ol (mb_start m) (mb_end m) = Some s)
     | Unresolved reason ls \<Rightarrow>
         sorted_wrt (<) ls \<and> (ls = [] \<longleftrightarrow> reason = NotFound) \<and> reason \<noteq> SourceEntryMissing)"
proof -
  obtain ol where ol: "parse_outline alnum lower source language = Some ol" "outline_wf ol"
    using parse_outline_wf [OF assms] by metis
  obtain r where r: "locate ol class_name candidate is_compiler_generated = Some r" "outcome_ok ol r"
    using locate_answers [OF ol(2), of class_name candidate is_compiler_generated] by (auto simp: answers_def)
  have "0 < sl_start_line s \<and> sl_start_line s \<le> sl_end_line s" if "slice_of ol i j = Some s" for i j s
    using that by (auto simp: slice_of_def Let_def token_of_def split: if_splits)
  then show ?thesis using ol(1) r by (auto simp: outcome_ok_def split: SliceOutcome.splits)
qed

text \<open>
  Claim C21.  A method is reported as found by its descriptor only when that is proven: the method is not compiler
  generated, the descriptor parses, and among the functions of that name in the type (or its companion) exactly one is
  not excluded by its erased parameters; that one is proven to match, and its lines are the answer.
\<close>

theorem locate_method_proven:
  assumes "locate ol class_name candidate is_compiler_generated = Some (Found s)"
    and "dc_kind candidate = Method_Kind" "dc_descriptor candidate = Some descriptor"
  shows "\<not> is_compiler_generated \<and>
    (\<exists>expected members owners found m.
       descriptor_parameters descriptor = Some expected \<and>
       direct_or_companion ol members (is_function_named (dc_name candidate)) = Some found \<and>
       locate_owner ol (the (nested_type_path class_name)) (the (scan_members ol 0 (length (so_tokens ol)) None False)) []
         = Some (Inr (members, owners)) \<and>
       filter (\<lambda>n. function_matches ol n owners expected \<noteq> Excluded) found = [m] \<and>
       function_matches ol m owners expected = Proven \<and>
       slice_of ol (mb_start m) (mb_end m) = Some s)"
proof -
  obtain path members0 members owners where w: "nested_type_path class_name = Some path"
    "scan_members ol 0 (length (so_tokens ol)) None False = Some members0"
    "locate_owner ol path members0 [] = Some (Inr (members, owners))"
    "locate_function ol members owners candidate is_compiler_generated = Some (Found s)"
    using assms(1,2) locate_owner_never_found unfolding locate_def
    by (fastforce split: option.splits sum.splits if_splits bind_splits simp: not_found_def)
  obtain found expected where f:
    "direct_or_companion ol members (is_function_named (dc_name candidate)) = Some found"
    "\<not> is_compiler_generated" "descriptor_parameters descriptor = Some expected"
    "by_descriptor ol owners expected found = Some (Found s)"
    using w(4) assms(3) unfolding locate_function_def
    by (auto split: if_splits option.splits bind_splits simp: not_found_def unproven_def)
  obtain m where m: "filter (\<lambda>n. function_matches ol n owners expected \<noteq> Excluded) found = [m]"
    "function_matches ol m owners expected = Proven" "found_slice ol m = Some (Found s)"
    using by_descriptor_Found [OF f(4)] by blast
  then have "slice_of ol (mb_start m) (mb_end m) = Some s" by (auto simp: found_slice_def)
  with w f m show ?thesis by auto
qed

text \<open>
  A found slice contains the declaration: it is made of whole source lines that hold, in one piece, the
  text from the first byte of the declaration's first token to the last byte of its last token, with at most
  the rest of the first and of the last line around it (sources with Unix line ends, and a declaration that does
  not end in a newline, which happens only inside an unclosed literal).
\<close>

lemma found_slice_contains_declaration:
  assumes "ascii_alnum alnum" "13 \<notin> set source"
    and "parse_outline alnum lower source language = Some ol"
    and "locate ol class_name candidate is_compiler_generated = Some (Found s)"
  shows "\<exists>m x. outline_member ol m \<and> x \<noteq> [] \<and>
    byte_slice source (tk_start (so_tokens ol ! mb_start m)) (tk_end (so_tokens ol ! mb_end m)) = Some x \<and>
    (last x \<noteq> 10 \<longrightarrow> (\<exists>p q. sl_source s = p @ x @ q \<and> 10 \<notin> set p \<and> 10 \<notin> set q))"
proof -
  obtain ol' where "parse_outline alnum lower source language = Some ol'" "outline_wf ol'" "so_source ol' = source"
    using parse_outline_wf [OF assms(1)] by metis
  then have ol: "outline_wf ol" "so_source ol = source" using assms(3) by auto
  obtain m where m: "outline_member ol m" "slice_of ol (mb_start m) (mb_end m) = Some s"
    using locate_answers [OF ol(1), of class_name candidate is_compiler_generated] assms(4)
    by (auto simp: answers_def outcome_ok_def)
  have "mb_start m \<le> mb_end m" "mb_end m < length (so_tokens ol)"
    using outline_member_ok [OF ol(1) m(1)] by (auto simp: member_ok_def)
  from token_range_text [OF ol(1) this] obtain x where x: "x \<noteq> []"
    "byte_slice source (tk_start (so_tokens ol ! mb_start m)) (tk_end (so_tokens ol ! mb_end m)) = Some x"
    using ol(2) by auto
  have "\<exists>p q. sl_source s = p @ x @ q \<and> 10 \<notin> set p \<and> 10 \<notin> set q" if "last x \<noteq> 10"
    using slice_of_text [OF ol(1) m(2), of x] x ol(2) assms(2) that by simp
  then show ?thesis using m(1) x by blast
qed

section \<open>Witnesses\<close>

definition demo_source :: str where
  "demo_source = lit ''class A{'' @ [10] @ lit '' void f(int x){}'' @ [10] @ lit '' void f(){}}''"

definition demo_lower :: "ch \<Rightarrow> bool" where
  "demo_lower c \<longleftrightarrow> 97 \<le> c \<and> c \<le> 122"

definition demo_outline :: SourceOutline where
  "demo_outline = the (parse_outline is_ascii_alphanumeric demo_lower demo_source Java)"

definition demo_candidate :: DeclarationCandidate where
  "demo_candidate = \<lparr> dc_kind = Method_Kind, dc_name = lit ''f'', dc_descriptor = Some (lit ''(I)V'') \<rparr>"

definition demo_slice :: SourceSlice where
  "demo_slice = \<lparr> sl_start_line = 2, sl_end_line = 2, sl_source = lit '' void f(int x){}'' \<rparr>"

lemma demo_alnum: "ascii_alnum is_ascii_alphanumeric"
  by (simp add: ascii_alnum_def)

lemma demo_outline_parsed: "parse_outline is_ascii_alphanumeric demo_lower demo_source Java = Some demo_outline"
proof -
  obtain ol where "parse_outline is_ascii_alphanumeric demo_lower demo_source Java = Some ol"
    using parse_outline_wf [OF demo_alnum] by metis
  then show ?thesis by (simp add: demo_outline_def)
qed

lemma demo_located: "locate demo_outline (lit ''p.A'') demo_candidate False = Some (Found demo_slice)"
  by code_simp

theorem locate_method_proven_witness:
  "locate demo_outline (lit ''p.A'') demo_candidate False = Some (Found demo_slice) \<and>
   (\<exists>m :: Member. slice_of demo_outline (mb_start m) (mb_end m) = Some demo_slice)"
  using demo_located locate_method_proven [OF demo_located, of "lit ''(I)V''"] by (auto simp: demo_candidate_def)

end
