(* ===== verification/Heavy_Work.thy ===== *)
theory Heavy_Work
  imports Prelude
begin

text \<open>
  Bounded, cancellable execution of blocking work (\<open>src/blocking.rs\<close>).

  The semaphores are code of the asynchronous runtime, so they are a parameter: a record of their
  operations, with their documented behaviour as the hypothesis \<open>semaphore_laws\<close>.  A job is one
  call of \<open>HeavyWork::run\<close>; its phases follow the body of that function from one await to the next.
  Requests, the blocking threads, cancellation by dropping the future and shutdown interleave, so
  the pool is a step relation; each rule is one atomic step of the code.  The function that the job
  runs is arbitrary: it returns a value or panics at any time.
\<close>

section \<open>The semaphore interface\<close>

record 's semaphore =
  sem_new :: "nat \<Rightarrow> 's"
  sem_available :: "'s \<Rightarrow> nat"
  sem_try_acquire :: "'s \<Rightarrow> 's option"
  sem_release :: "'s \<Rightarrow> 's"

section \<open>Jobs and the pool\<close>

record HeavyWorkLimits =
  hl_running :: nat
  hl_queued :: nat

datatype HeavyWorkError = Overloaded HeavyWorkLimits | Cancelled | Failed

datatype 'v returned = Value "'v option" | Panicked

text \<open>
  \<open>Waiting\<close>: admitted, at the \<open>select\<close>; \<open>Spawned\<close>: both permits moved into the blocking task that has not
  started; \<open>Executing\<close>: inside \<open>work\<close>; \<open>Returned\<close>: the blocking function is over and its permits are
  dropped; \<open>Gone\<close>: the call is over.
\<close>

datatype 'v phase = Waiting | Spawned | Executing | Returned "'v returned" | Gone

record 'v job =
  jb_phase :: "'v phase"
  jb_cancelled :: bool
  jb_polled :: bool
  jb_result :: "(HeavyWorkError + 'v) option"

record ('s, 'v) HeavyWork =
  hw_limits :: HeavyWorkLimits
  hw_running :: 's
  hw_admitted :: 's
  hw_shutdown :: bool
  hw_jobs :: "'v job list"

definition capacity :: "HeavyWorkLimits \<Rightarrow> nat" where
  "capacity limits = sat_add (hl_running limits) (hl_queued limits)"

text \<open>
  What the pool relies on, for the two semaphores it creates: they start with the number of permits asked
  for, an attempt to acquire takes one permit and fails exactly when none is left, and a release gives one back.
  Creating a semaphore of more than the runtime's \<open>MAX_PERMITS\<close> panics: then there is no pool.
\<close>

definition semaphore_laws :: "'s semaphore \<Rightarrow> HeavyWorkLimits \<Rightarrow> bool" where
  "semaphore_laws sem limits \<longleftrightarrow>
     (\<forall>n\<in>{hl_running limits, capacity limits}. sem_available sem (sem_new sem n) = n) \<and>
     (\<forall>s. sem_try_acquire sem s = None \<longleftrightarrow> sem_available sem s = 0) \<and>
     (\<forall>s s'. sem_try_acquire sem s = Some s' \<longrightarrow> sem_available sem s = Suc (sem_available sem s')) \<and>
     (\<forall>s. sem_available sem (sem_release sem s) = Suc (sem_available sem s))"

lemma semaphore_lawsD:
  assumes "semaphore_laws sem limits"
  shows "sem_available sem (sem_new sem (hl_running limits)) = hl_running limits \<and>
      sem_available sem (sem_new sem (capacity limits)) = capacity limits"
    "sem_try_acquire sem s = None \<longleftrightarrow> sem_available sem s = 0"
    "sem_try_acquire sem s = Some s' \<Longrightarrow> sem_available sem s = Suc (sem_available sem s')"
    "sem_available sem (sem_release sem s) = Suc (sem_available sem s)"
  using assms by (auto simp: semaphore_laws_def)

definition new_pool :: "'s semaphore \<Rightarrow> HeavyWorkLimits \<Rightarrow> ('s, 'v) HeavyWork" where
  "new_pool sem limits =
     \<lparr> hw_limits = limits, hw_running = sem_new sem (hl_running limits),
       hw_admitted = sem_new sem (capacity limits), hw_shutdown = False, hw_jobs = [] \<rparr>"

definition active_jobs :: "'s semaphore \<Rightarrow> ('s, 'v) HeavyWork \<Rightarrow> nat" where
  "active_jobs sem p = capacity (hw_limits p) - sem_available sem (hw_admitted p)"

definition shutdown :: "('s, 'v) HeavyWork \<Rightarrow> ('s, 'v) HeavyWork" where
  "shutdown p = p \<lparr> hw_shutdown := True, hw_jobs := map (\<lambda>j. j \<lparr> jb_cancelled := True \<rparr>) (hw_jobs p) \<rparr>"

text \<open>The start of \<open>run\<close>: admission or rejection; a child of a cancelled token is cancelled.\<close>

definition submit :: "'s semaphore \<Rightarrow> ('s, 'v) HeavyWork \<Rightarrow> ('s, 'v) HeavyWork" where
  "submit sem p =
     (case sem_try_acquire sem (hw_admitted p) of
        None \<Rightarrow> p \<lparr> hw_jobs := hw_jobs p @
                   [\<lparr> jb_phase = Gone, jb_cancelled = False, jb_polled = False,
                      jb_result = Some (Inl (Overloaded (hw_limits p))) \<rparr>] \<rparr>
      | Some admitted \<Rightarrow> p \<lparr> hw_admitted := admitted,
            hw_jobs := hw_jobs p @
              [\<lparr> jb_phase = Waiting, jb_cancelled = hw_shutdown p, jb_polled = True, jb_result = None \<rparr>] \<rparr>)"

text \<open>The end of \<open>run\<close>: what the awaited blocking task gives and whether its token was cancelled by then.\<close>

definition outcome_of :: "'v returned \<Rightarrow> bool \<Rightarrow> HeavyWorkError + 'v" where
  "outcome_of r cancelled =
     (case r of
        Value (Some v) \<Rightarrow> if \<not> cancelled then Inr v else Inl Cancelled
      | Value None \<Rightarrow> Inl Cancelled
      | Panicked \<Rightarrow> Inl Failed)"

definition set_job :: "nat \<Rightarrow> 'v job \<Rightarrow> ('s, 'v) HeavyWork \<Rightarrow> ('s, 'v) HeavyWork" where
  "set_job i j p = p \<lparr> hw_jobs := (hw_jobs p)[i := j] \<rparr>"

definition release_both :: "'s semaphore \<Rightarrow> ('s, 'v) HeavyWork \<Rightarrow> ('s, 'v) HeavyWork" where
  "release_both sem p =
     p \<lparr> hw_admitted := sem_release sem (hw_admitted p), hw_running := sem_release sem (hw_running p) \<rparr>"

inductive pool_step :: "'s semaphore \<Rightarrow> ('s, 'v) HeavyWork \<Rightarrow> ('s, 'v) HeavyWork \<Rightarrow> bool" for sem where
  step_submit: "pool_step sem p (submit sem p)"
| step_shutdown: "pool_step sem p (shutdown p)"
| step_cancelled_waiting:
    "i < length (hw_jobs p) \<Longrightarrow> hw_jobs p ! i = j \<Longrightarrow> jb_phase j = Waiting \<Longrightarrow> jb_polled j \<Longrightarrow> jb_cancelled j \<Longrightarrow>
     pool_step sem p (set_job i (j \<lparr> jb_phase := Gone, jb_polled := False, jb_result := Some (Inl Cancelled) \<rparr>)
       (p \<lparr> hw_admitted := sem_release sem (hw_admitted p) \<rparr>))"
| step_acquire:
    "i < length (hw_jobs p) \<Longrightarrow> hw_jobs p ! i = j \<Longrightarrow> jb_phase j = Waiting \<Longrightarrow> jb_polled j \<Longrightarrow> \<not> jb_cancelled j \<Longrightarrow>
     sem_try_acquire sem (hw_running p) = Some running \<Longrightarrow>
     pool_step sem p (set_job i (j \<lparr> jb_phase := Spawned \<rparr>) (p \<lparr> hw_running := running \<rparr>))"
| step_drop_waiting:
    "i < length (hw_jobs p) \<Longrightarrow> hw_jobs p ! i = j \<Longrightarrow> jb_phase j = Waiting \<Longrightarrow> jb_polled j \<Longrightarrow>
     pool_step sem p (set_job i (j \<lparr> jb_phase := Gone, jb_polled := False, jb_cancelled := True \<rparr>)
       (p \<lparr> hw_admitted := sem_release sem (hw_admitted p) \<rparr>))"
| step_drop_running:
    "i < length (hw_jobs p) \<Longrightarrow> hw_jobs p ! i = j \<Longrightarrow> jb_phase j \<noteq> Waiting \<Longrightarrow> jb_polled j \<Longrightarrow>
     pool_step sem p (set_job i (j \<lparr> jb_polled := False, jb_cancelled := True \<rparr>) p)"
| step_start:
    "i < length (hw_jobs p) \<Longrightarrow> hw_jobs p ! i = j \<Longrightarrow> jb_phase j = Spawned \<Longrightarrow> \<not> jb_cancelled j \<Longrightarrow>
     pool_step sem p (set_job i (j \<lparr> jb_phase := Executing \<rparr>) p)"
| step_skip:
    "i < length (hw_jobs p) \<Longrightarrow> hw_jobs p ! i = j \<Longrightarrow> jb_phase j = Spawned \<Longrightarrow> jb_cancelled j \<Longrightarrow>
     pool_step sem p (set_job i (j \<lparr> jb_phase := Returned (Value None) \<rparr>) (release_both sem p))"
| step_return:
    "i < length (hw_jobs p) \<Longrightarrow> hw_jobs p ! i = j \<Longrightarrow> jb_phase j = Executing \<Longrightarrow> r \<noteq> Value None \<Longrightarrow>
     pool_step sem p (set_job i (j \<lparr> jb_phase := Returned r \<rparr>) (release_both sem p))"
| step_deliver:
    "i < length (hw_jobs p) \<Longrightarrow> hw_jobs p ! i = j \<Longrightarrow> jb_phase j = Returned r \<Longrightarrow> jb_polled j \<Longrightarrow>
     pool_step sem p (set_job i (j \<lparr> jb_phase := Gone, jb_polled := False,
       jb_result := Some (outcome_of r (jb_cancelled j)) \<rparr>) p)"

section \<open>Checkpoints\<close>

text \<open>
  The thread-local job of the current thread.  \<open>work\<close> reads and may replace it, also by nested scopes;
  \<open>scope\<close> restores the previous one when \<open>work\<close> returns or unwinds.
\<close>

definition is_cancelled :: "('t \<Rightarrow> bool) \<Rightarrow> 't option \<Rightarrow> bool" where
  "is_cancelled token_cancelled current = (case current of None \<Rightarrow> False | Some t \<Rightarrow> token_cancelled t)"

definition checkpoint :: "('t \<Rightarrow> bool) \<Rightarrow> 't option \<Rightarrow> HeavyWorkError + unit" where
  "checkpoint token_cancelled current =
     (if is_cancelled token_cancelled current then Inl Cancelled else Inr ())"

definition scope :: "'t \<Rightarrow> ('t option \<Rightarrow> 'a \<times> 't option) \<Rightarrow> 't option \<Rightarrow> 'a \<times> 't option" where
  "scope token work current =
     (let previous = current; (result, _) = work (Some token) in (result, previous))"

section \<open>Permits are accounted for\<close>

definition holds_running :: "'v job \<Rightarrow> bool" where
  "holds_running j \<longleftrightarrow> jb_phase j = Spawned \<or> jb_phase j = Executing"

definition holds_admitted :: "'v job \<Rightarrow> bool" where
  "holds_admitted j \<longleftrightarrow> jb_phase j = Waiting \<or> holds_running j"

definition count :: "('a \<Rightarrow> bool) \<Rightarrow> 'a list \<Rightarrow> nat" where
  "count P xs = length (filter P xs)"

lemma count_simps [simp]:
  "count P [] = 0" "count P (x # xs) = (if P x then 1 else 0) + count P xs" "count P (xs @ ys) = count P xs + count P ys"
  by (simp_all add: count_def)

lemma count_update:
  "i < length xs \<Longrightarrow> count P (xs[i := x]) + (if P (xs ! i) then 1 else 0) = count P xs + (if P x then 1 else 0)"
proof (induction xs arbitrary: i)
  case (Cons y ys)
  then show ?case by (cases i) auto
qed simp

lemma count_map: "(\<And>x. P (f x) = P x) \<Longrightarrow> count P (map f xs) = count P xs"
  by (simp add: count_def filter_map comp_def)

definition job_ok :: "bool \<Rightarrow> 'v job \<Rightarrow> bool" where
  "job_ok down j \<longleftrightarrow>
     (jb_phase j = Waiting \<longrightarrow> jb_polled j) \<and>
     (jb_phase j = Gone \<longrightarrow> \<not> jb_polled j) \<and>
     (jb_phase j \<noteq> Gone \<longrightarrow> jb_result j = None) \<and>
     (down \<and> jb_phase j \<noteq> Gone \<longrightarrow> jb_cancelled j) \<and>
     (\<not> jb_polled j \<and> jb_phase j \<noteq> Gone \<longrightarrow> jb_cancelled j)"

definition pool_ok :: "'s semaphore \<Rightarrow> HeavyWorkLimits \<Rightarrow> ('s, 'v) HeavyWork \<Rightarrow> bool" where
  "pool_ok sem limits p \<longleftrightarrow>
     hw_limits p = limits \<and>
     sem_available sem (hw_admitted p) + count holds_admitted (hw_jobs p) = capacity limits \<and>
     sem_available sem (hw_running p) + count holds_running (hw_jobs p) = hl_running limits \<and>
     list_all (job_ok (hw_shutdown p)) (hw_jobs p)"

lemma pool_ok_set_job:
  assumes "pool_ok sem limits p" "i < length (hw_jobs p)" "hw_jobs p ! i = j" "job_ok (hw_shutdown p) j'"
    and "hw_limits q = hw_limits p" "hw_jobs q = hw_jobs p" "hw_shutdown q = hw_shutdown p"
    and "sem_available sem (hw_admitted q) + (if holds_admitted j' then 1 else 0) =
         sem_available sem (hw_admitted p) + (if holds_admitted j then 1 else 0)"
    and "sem_available sem (hw_running q) + (if holds_running j' then 1 else 0) =
         sem_available sem (hw_running p) + (if holds_running j then 1 else 0)"
  shows "pool_ok sem limits (set_job i j' q)"
proof -
  have "list_all (job_ok (hw_shutdown p)) ((hw_jobs p)[i := j'])"
    using assms(1,4) set_update_subset_insert [of "hw_jobs p" i j'] by (auto simp: pool_ok_def list_all_iff)
  then show ?thesis
    using assms count_update [of i "hw_jobs p" holds_admitted j'] count_update [of i "hw_jobs p" holds_running j']
    by (auto simp: pool_ok_def set_job_def)
qed

lemma pool_ok_submit:
  assumes "semaphore_laws sem limits" "pool_ok sem limits p"
  shows "pool_ok sem limits (submit sem p)"
proof (cases "sem_try_acquire sem (hw_admitted p)")
  case None
  then show ?thesis using assms(2)
    by (simp add: pool_ok_def submit_def job_ok_def holds_admitted_def holds_running_def)
next
  case (Some a)
  then show ?thesis using assms(2) semaphore_lawsD(3) [OF assms(1) Some]
    by (simp add: pool_ok_def submit_def job_ok_def holds_admitted_def holds_running_def)
qed

lemma pool_ok_shutdown: "pool_ok sem limits p \<Longrightarrow> pool_ok sem limits (shutdown p)"
proof -
  have "count holds_admitted (map (\<lambda>j. j \<lparr> jb_cancelled := True \<rparr>) js) = count holds_admitted js"
    "count holds_running (map (\<lambda>j. j \<lparr> jb_cancelled := True \<rparr>) js) = count holds_running js" for js :: "'b job list"
    by (rule count_map; simp add: holds_admitted_def holds_running_def)+
  then show "pool_ok sem limits p \<Longrightarrow> pool_ok sem limits (shutdown p)"
    by (auto simp: pool_ok_def shutdown_def list_all_iff job_ok_def)
qed

lemma pool_ok_job: "pool_ok sem limits p \<Longrightarrow> i < length (hw_jobs p) \<Longrightarrow> job_ok (hw_shutdown p) (hw_jobs p ! i)"
  by (simp add: pool_ok_def list_all_length)

lemma pool_ok_step:
  assumes "pool_step sem p q" "semaphore_laws sem limits" "pool_ok sem limits p"
  shows "pool_ok sem limits q"
  using assms(1)
proof cases
  case step_submit
  then show ?thesis using pool_ok_submit assms(2,3) by simp
next
  case step_shutdown
  then show ?thesis using pool_ok_shutdown assms(3) by simp
next
  case (step_start i j)
  have "job_ok (hw_shutdown p) j" using pool_ok_job [OF assms(3) step_start(2)] step_start(3) by simp
  then show ?thesis unfolding step_start(1)
    by (intro pool_ok_set_job [OF assms(3) step_start(2,3)])
      (simp_all add: step_start(4,5) job_ok_def holds_admitted_def holds_running_def)
qed (use pool_ok_job [OF assms(3)] semaphore_lawsD [OF assms(2)] in
    \<open>auto intro!: pool_ok_set_job [OF assms(3) _ refl]
       simp: job_ok_def release_both_def holds_admitted_def holds_running_def\<close>)

lemma pool_ok_new: "semaphore_laws sem limits \<Longrightarrow> pool_ok sem limits (new_pool sem limits)"
  by (simp add: pool_ok_def new_pool_def semaphore_lawsD)

section \<open>Steps of the pool itself\<close>

text \<open>The steps that need no request, no cancellation and no shutdown: the executor and the work proceed.\<close>

definition phase_rank :: "'v job \<Rightarrow> nat" where
  "phase_rank j =
     (case jb_phase j of Waiting \<Rightarrow> 4 | Spawned \<Rightarrow> 3 | Executing \<Rightarrow> 2 | Returned _ \<Rightarrow> if jb_polled j then 1 else 0 | Gone \<Rightarrow> 0)"

definition pending_rank :: "('s, 'v) HeavyWork \<Rightarrow> nat" where
  "pending_rank p = sum_list (map phase_rank (hw_jobs p))"

definition pool_quiet :: "('s, 'v) HeavyWork \<Rightarrow> bool" where
  "pool_quiet p \<longleftrightarrow> list_all (\<lambda>j. phase_rank j = 0) (hw_jobs p)"

definition pool_progress :: "'s semaphore \<Rightarrow> ('s, 'v) HeavyWork \<Rightarrow> ('s, 'v) HeavyWork \<Rightarrow> bool" where
  "pool_progress sem p q \<longleftrightarrow> pool_step sem p q \<and> pending_rank q < pending_rank p \<and>
     map jb_cancelled (hw_jobs q) = map jb_cancelled (hw_jobs p) \<and> hw_shutdown q = hw_shutdown p"

lemma sum_list_update_less:
  "i < length xs \<Longrightarrow> f x < f (xs ! i) \<Longrightarrow> sum_list (map f (xs[i := x])) < (sum_list (map f xs) :: nat)"
proof (induction xs arbitrary: i)
  case (Cons y ys)
  then show ?case by (cases i) auto
qed simp

lemma set_job_progress:
  assumes "pool_step sem p (set_job i j' q)" "i < length (hw_jobs p)" "hw_jobs q = hw_jobs p" "hw_shutdown q = hw_shutdown p"
    and "phase_rank j' < phase_rank (hw_jobs p ! i)" "jb_cancelled j' = jb_cancelled (hw_jobs p ! i)"
  shows "\<exists>q. pool_progress sem p q"
proof
  show "pool_progress sem p (set_job i j' q)"
    using assms sum_list_update_less [of i "hw_jobs p" phase_rank j']
    by (auto simp: pool_progress_def set_job_def pending_rank_def map_update list_update_same_conv)
qed

lemma pool_progress_spawned:
  assumes "i < length (hw_jobs p)" "holds_running (hw_jobs p ! i)"
  shows "\<exists>q. pool_progress sem p q"
proof -
  let ?j = "hw_jobs p ! i"
  consider "jb_phase ?j = Executing" | "jb_phase ?j = Spawned" "jb_cancelled ?j" | "jb_phase ?j = Spawned" "\<not> jb_cancelled ?j"
    using assms(2) by (auto simp: holds_running_def)
  then show ?thesis
  proof cases
    case 1
    have "Panicked \<noteq> Value None" by simp
    from set_job_progress [OF step_return [OF assms(1) refl 1 this] assms(1)] 1 show ?thesis
      by (simp add: release_both_def phase_rank_def)
  next
    case 2
    from set_job_progress [OF step_skip [OF assms(1) refl 2] assms(1)] 2 show ?thesis
      by (simp add: release_both_def phase_rank_def)
  next
    case 3
    from set_job_progress [OF step_start [OF assms(1) refl 3] assms(1)] 3 show ?thesis
      by (simp add: phase_rank_def)
  qed
qed

lemma pool_progress_enabled:
  assumes "semaphore_laws sem limits" "pool_ok sem limits p" "0 < hl_running limits" "\<not> pool_quiet p"
  shows "\<exists>q. pool_progress sem p q"
proof -
  obtain i where i: "i < length (hw_jobs p)" "phase_rank (hw_jobs p ! i) \<noteq> 0"
    using assms(4) by (auto simp: pool_quiet_def list_all_length)
  let ?j = "hw_jobs p ! i"
  have ok: "job_ok (hw_shutdown p) ?j" using pool_ok_job [OF assms(2) i(1)] .
  show ?thesis
  proof (cases "jb_phase ?j")
    case Waiting
    then have polled: "jb_polled ?j" using ok by (simp add: job_ok_def)
    show ?thesis
    proof (cases "jb_cancelled ?j")
      case True
      from set_job_progress [OF step_cancelled_waiting [OF i(1) refl Waiting polled True] i(1)] Waiting show ?thesis
        by (simp add: phase_rank_def)
    next
      case free: False
      show ?thesis
      proof (cases "sem_try_acquire sem (hw_running p)")
        case (Some r)
        from set_job_progress [OF step_acquire [OF i(1) refl Waiting polled free Some] i(1)] Waiting show ?thesis
          by (simp add: phase_rank_def)
      next
        case None
        then have "count holds_running (hw_jobs p) \<noteq> 0"
          using semaphore_lawsD(2) [OF assms(1)] assms(2,3) by (auto simp: pool_ok_def)
        then obtain k where "k < length (hw_jobs p)" "holds_running (hw_jobs p ! k)"
          by (auto simp: count_def filter_empty_conv in_set_conv_nth)
        then show ?thesis by (rule pool_progress_spawned)
      qed
    qed
  next
    case Spawned
    then show ?thesis using pool_progress_spawned [OF i(1)] by (simp add: holds_running_def)
  next
    case Executing
    then show ?thesis using pool_progress_spawned [OF i(1)] by (simp add: holds_running_def)
  next
    case (Returned r)
    then have "jb_polled ?j" using i(2) by (simp add: phase_rank_def split: if_splits)
    from set_job_progress [OF step_deliver [OF i(1) refl Returned this] i(1)] this Returned show ?thesis
      by (simp add: phase_rank_def)
  next
    case Gone
    then show ?thesis using i(2) by (simp add: phase_rank_def)
  qed
qed

interpretation pool: draining_system "pool_step sem" "new_pool sem limits"
  "\<lambda>p. semaphore_laws sem limits \<longrightarrow> pool_ok sem limits p" "pool_progress sem"
  "\<lambda>p. \<not> semaphore_laws sem limits \<or> hl_running limits = 0 \<or> pool_quiet p" pending_rank
proof unfold_locales
  show "\<not> (\<not> semaphore_laws sem limits \<or> hl_running limits = 0 \<or> pool_quiet s) \<Longrightarrow> \<exists>t. pool_progress sem s t"
    if "semaphore_laws sem limits \<longrightarrow> pool_ok sem limits s" for s :: "('a, 'b) HeavyWork"
    using that pool_progress_enabled by blast
qed (auto simp: pool_ok_new pool_progress_def intro: pool_ok_step)

lemma reachable_pool_ok:
  "semaphore_laws sem limits \<Longrightarrow> (pool_step sem)\<^sup>*\<^sup>* (new_pool sem limits) p \<Longrightarrow> pool_ok sem limits p"
  using pool.reachable_inv [of sem limits p] by blast

lemma active_jobs_count: "pool_ok sem limits p \<Longrightarrow> active_jobs sem p = count holds_admitted (hw_jobs p)"
  by (auto simp: pool_ok_def active_jobs_def)

lemma count_mono: "(\<And>x. P x \<Longrightarrow> Q x) \<Longrightarrow> count P xs \<le> count Q xs"
  by (induction xs) auto

section \<open>Properties\<close>

text \<open>
  Claim C22.  The bounds of the pool hold in every reachable state, whatever requests arrive, are dropped or
  cancelled: at most \<open>running\<close> jobs execute, at most \<open>running + queued\<close> jobs are admitted, and \<open>active_jobs\<close>
  is exactly the number of jobs that wait or whose blocking function has not returned, abandoned ones included.
\<close>

theorem heavy_work_bounds:
  assumes "semaphore_laws sem limits" "(pool_step sem)\<^sup>*\<^sup>* (new_pool sem limits) p"
  shows "count (\<lambda>j. jb_phase j = Executing) (hw_jobs p) \<le> hl_running limits \<and>
    active_jobs sem p = count holds_admitted (hw_jobs p) \<and> active_jobs sem p \<le> capacity limits"
proof -
  have ok: "pool_ok sem limits p" using reachable_pool_ok [OF assms] .
  have "count (\<lambda>j. jb_phase j = Executing) (hw_jobs p) \<le> count holds_running (hw_jobs p)"
    by (rule count_mono) (simp add: holds_running_def)
  then show ?thesis using ok active_jobs_count [OF ok] by (simp add: pool_ok_def)
qed

text \<open>
  Claim C23.  No slot is ever lost and no job is stuck: from every reachable state, with at least one running slot,
  the steps of the jobs that are already there lead to a state in which every call has ended, and there every
  permit of both semaphores is available again.
\<close>

theorem heavy_work_drains:
  assumes "semaphore_laws sem limits" "(pool_step sem)\<^sup>*\<^sup>* (new_pool sem limits) p" "0 < hl_running limits"
  shows "\<exists>q. (pool_progress sem)\<^sup>*\<^sup>* p q \<and> pool_quiet q \<and> active_jobs sem q = 0 \<and>
    sem_available sem (hw_admitted q) = capacity limits \<and> sem_available sem (hw_running q) = hl_running limits"
proof -
  have ok: "semaphore_laws sem limits \<longrightarrow> pool_ok sem limits p" using reachable_pool_ok [OF assms(1,2)] by blast
  from pool.drains [OF ok] obtain q where
    "(pool_progress sem)\<^sup>*\<^sup>* p q" "\<not> semaphore_laws sem limits \<or> hl_running limits = 0 \<or> pool_quiet q" by (elim exE conjE)
  then have q: "(pool_progress sem)\<^sup>*\<^sup>* p q" "pool_quiet q" using assms(1,3) by simp_all
  from q(1) have "(pool_step sem)\<^sup>*\<^sup>* p q" by (rule rtranclp_mono [THEN predicate2D, rotated]) (auto simp: pool_progress_def)
  then have okq: "pool_ok sem limits q" using pool.inv_steps [OF _ ok] assms(1) by blast
  have "count holds_admitted (hw_jobs q) = 0" "count holds_running (hw_jobs q) = 0"
    using q(2) by (auto simp: pool_quiet_def count_def list_all_iff filter_empty_conv phase_rank_def
      holds_admitted_def holds_running_def)
  then show ?thesis using q okq active_jobs_count [OF okq] by (auto simp: pool_ok_def)
qed

text \<open>
  Claim C24.  Cancellation is final: a step that delivers the value of a job finds its request still waiting for it,
  its token not cancelled and the pool not shut down, and a step in which a job begins to execute its work finds
  the same of its token and the pool; so nothing starts and nothing is delivered after shutdown.
\<close>

theorem cancelled_never_delivered:
  assumes "semaphore_laws sem limits" "(pool_step sem)\<^sup>*\<^sup>* (new_pool sem limits) p" "pool_step sem p q" "i < length (hw_jobs p)"
  shows "(jb_result (hw_jobs q ! i) = Some (Inr v) \<and> jb_result (hw_jobs p ! i) \<noteq> Some (Inr v) \<longrightarrow>
      jb_polled (hw_jobs p ! i) \<and> \<not> jb_cancelled (hw_jobs p ! i) \<and> \<not> hw_shutdown p) \<and>
    (jb_phase (hw_jobs q ! i) = Executing \<and> jb_phase (hw_jobs p ! i) \<noteq> Executing \<longrightarrow>
      \<not> jb_cancelled (hw_jobs p ! i) \<and> \<not> hw_shutdown p)"
proof -
  have ok: "job_ok (hw_shutdown p) (hw_jobs p ! k)" if "k < length (hw_jobs p)" for k
    using pool_ok_job [OF reachable_pool_ok [OF assms(1,2)] that] .
  show ?thesis using assms(3)
  proof cases
    case step_submit
    then show ?thesis using assms(4) by (auto simp: submit_def nth_append split: option.splits)
  next
    case step_shutdown
    then show ?thesis using assms(4) by (auto simp: shutdown_def)
  next
    case (step_start k j)
    then show ?thesis using ok [of k] by (cases "i = k") (auto simp: set_job_def job_ok_def)
  next
    case (step_deliver k j r)
    then show ?thesis using ok [of k]
      by (cases "i = k") (auto simp: set_job_def job_ok_def outcome_of_def split: returned.splits option.splits if_splits)
  qed (use assms(4) in \<open>auto simp: set_job_def release_both_def nth_list_update split: if_splits\<close>)
qed

text \<open>
  Claim C25.  A new request is rejected as overloaded exactly when every running and queued slot is taken; otherwise it
  is admitted, waits for a running slot, and counts as one more active job.
\<close>

theorem submit_overloaded_iff_full:
  assumes "semaphore_laws sem limits" "(pool_step sem)\<^sup>*\<^sup>* (new_pool sem limits) p"
  shows "(jb_result (last (hw_jobs (submit sem p))) = Some (Inl (Overloaded limits)) \<longleftrightarrow> active_jobs sem p = capacity limits) \<and>
    active_jobs sem (submit sem p) =
      (if active_jobs sem p = capacity limits then active_jobs sem p else active_jobs sem p + 1)"
proof -
  have ok: "pool_ok sem limits p" using reachable_pool_ok [OF assms] .
  have oks: "pool_ok sem limits (submit sem p)" using pool_ok_submit [OF assms(1) ok] .
  have "sem_available sem (hw_admitted p) = 0 \<longleftrightarrow> active_jobs sem p = capacity limits"
    using ok active_jobs_count [OF ok] by (auto simp: pool_ok_def)
  then show ?thesis
    using semaphore_lawsD(2) [OF assms(1), of "hw_admitted p"] active_jobs_count [OF ok] active_jobs_count [OF oks] ok
    by (auto simp: submit_def holds_admitted_def holds_running_def pool_ok_def split: option.splits)
qed

section \<open>Witnesses\<close>

text \<open>A counter as the semaphore, and a pool with one running and no queued slot.\<close>

definition counter_semaphore :: "nat semaphore" where
  "counter_semaphore = \<lparr> sem_new = (\<lambda>n. n), sem_available = (\<lambda>s. s),
     sem_try_acquire = (\<lambda>s. case s of 0 \<Rightarrow> None | Suc n \<Rightarrow> Some n), sem_release = Suc \<rparr>"

lemma counter_semaphore_laws: "semaphore_laws counter_semaphore limits"
  by (simp add: semaphore_laws_def counter_semaphore_def split: nat.splits)

definition demo_pool :: "(nat, nat) HeavyWork" where
  "demo_pool = new_pool counter_semaphore \<lparr> hl_running = 1, hl_queued = 0 \<rparr>"

definition busy_pool :: "(nat, nat) HeavyWork" where
  "busy_pool = submit counter_semaphore demo_pool"

definition acquired_pool :: "(nat, nat) HeavyWork" where
  "acquired_pool = set_job 0 ((hw_jobs busy_pool ! 0) \<lparr> jb_phase := Spawned \<rparr>) (busy_pool \<lparr> hw_running := 0 \<rparr>)"

definition started_pool :: "(nat, nat) HeavyWork" where
  "started_pool = set_job 0 ((hw_jobs acquired_pool ! 0) \<lparr> jb_phase := Executing \<rparr>) acquired_pool"

lemma acquired_pool_job:
  "0 < length (hw_jobs acquired_pool)" "jb_phase (hw_jobs acquired_pool ! 0) = Spawned" "\<not> jb_cancelled (hw_jobs acquired_pool ! 0)"
  by code_simp+

lemma start_demo: "pool_step counter_semaphore acquired_pool started_pool"
  unfolding started_pool_def by (rule step_start [OF acquired_pool_job(1) refl acquired_pool_job(2,3)])

lemma busy_pool_reached: "(pool_step counter_semaphore)\<^sup>*\<^sup>* demo_pool busy_pool"
  unfolding busy_pool_def by (rule r_into_rtranclp) (rule step_submit)

lemma acquired_pool_reached: "(pool_step counter_semaphore)\<^sup>*\<^sup>* demo_pool acquired_pool"
proof -
  have "pool_step counter_semaphore busy_pool acquired_pool" unfolding acquired_pool_def
    by (rule step_acquire [OF _ refl]) code_simp+
  then show ?thesis using busy_pool_reached by simp
qed

theorem heavy_work_bounds_witness: "semaphore_laws counter_semaphore \<lparr> hl_running = 1, hl_queued = 0 \<rparr> \<and> active_jobs counter_semaphore acquired_pool \<le> 1"
  using heavy_work_bounds [OF counter_semaphore_laws acquired_pool_reached [unfolded demo_pool_def]] counter_semaphore_laws
  by (simp add: capacity_def sat_add_def usize_max_def)

theorem heavy_work_drains_witness:
  "\<exists>q. (pool_progress counter_semaphore)\<^sup>*\<^sup>* acquired_pool q \<and> active_jobs counter_semaphore q = 0"
  using heavy_work_drains [OF counter_semaphore_laws acquired_pool_reached [unfolded demo_pool_def]] by auto

theorem cancelled_never_delivered_witness:
  "jb_phase (hw_jobs started_pool ! 0) = Executing \<and> jb_phase (hw_jobs acquired_pool ! 0) \<noteq> Executing \<and> \<not> hw_shutdown acquired_pool"
proof -
  have "jb_phase (hw_jobs started_pool ! 0) = Executing \<and> jb_phase (hw_jobs acquired_pool ! 0) \<noteq> Executing" by code_simp
  then show ?thesis
    using cancelled_never_delivered [OF counter_semaphore_laws acquired_pool_reached [unfolded demo_pool_def] start_demo
        acquired_pool_job(1)] by blast
qed

theorem submit_overloaded_iff_full_witness:
  "active_jobs counter_semaphore busy_pool = 1 \<and>
   jb_result (last (hw_jobs (submit counter_semaphore busy_pool))) = Some (Inl (Overloaded \<lparr> hl_running = 1, hl_queued = 0 \<rparr>))"
proof -
  have "active_jobs counter_semaphore busy_pool = 1" "capacity \<lparr> hl_running = 1, hl_queued = 0 \<rparr> = 1" by code_simp+
  then show ?thesis
    using submit_overloaded_iff_full [OF counter_semaphore_laws busy_pool_reached [unfolded demo_pool_def]] by simp
qed

end
