(* ===== verification/Tool_Call.thy ===== *)
theory Tool_Call
  imports Paging Heavy_Work "HOL-Library.Multiset"
begin

text \<open>
  The observation of every \<open>tools/call\<close> request (\<open>src/server/tool_call.rs\<close>) and the request handler
  \<open>call_tool\<close> of \<open>src/server.rs\<close> that starts and finishes each record.

  The log is the list of debug events.  A call is a trace that is live until it is finished or
  dropped; calls of different requests interleave, so a process is a step relation over the log.
  Call identifiers are 64-bit and wrap like the atomic counter of the code.
\<close>

section \<open>Outcomes\<close>

datatype CallOutcome =
    Outcome_Success
  | Outcome_ToolError
  | Outcome_InvalidParams
  | Outcome_UnknownTool
  | Outcome_InternalError
  | Outcome_OtherError
  | Outcome_Cancelled
  | Outcome_Dropped

fun as_str :: "CallOutcome \<Rightarrow> str" where
  "as_str Outcome_Success = lit ''success''"
| "as_str Outcome_ToolError = lit ''tool_error''"
| "as_str Outcome_InvalidParams = lit ''invalid_params''"
| "as_str Outcome_UnknownTool = lit ''unknown_tool''"
| "as_str Outcome_InternalError = lit ''internal_error''"
| "as_str Outcome_OtherError = lit ''error''"
| "as_str Outcome_Cancelled = lit ''cancelled''"
| "as_str Outcome_Dropped = lit ''dropped''"

text \<open>\<open>is_error\<close> reads the flag of a complete result.\<close>

fun outcome_of_call :: "('r \<Rightarrow> bool option) \<Rightarrow> ErrorData + 'r CallToolResponse \<Rightarrow> bool \<Rightarrow> CallOutcome" where
  "outcome_of_call is_error (Inr (Complete r)) known_tool =
     (if is_error r = Some True then Outcome_ToolError else Outcome_Success)"
| "outcome_of_call is_error (Inr OtherResponse) known_tool = Outcome_Success"
| "outcome_of_call is_error (Inl e) known_tool =
     (if \<not> known_tool then Outcome_UnknownTool
      else case e of
             InvalidParams _ \<Rightarrow> Outcome_InvalidParams
           | InternalError _ \<Rightarrow> Outcome_InternalError
           | OtherCode _ _ \<Rightarrow> Outcome_OtherError)"

section \<open>Traces\<close>

definition UNKNOWN_TOOL :: str where
  "UNKNOWN_TOOL = lit ''<unknown>''"

record ToolCallTrace =
  tc_call_id :: "64 word"
  tc_tool :: "str option"
  tc_started :: nat
  tc_finished :: bool

datatype call_event =
    Call_Started "64 word" str
  | Call_Finished "64 word" str str nat

record call_log =
  cl_next_call_id :: "64 word"
  cl_events :: "call_event list"

definition new_log :: call_log where
  "new_log = \<lparr> cl_next_call_id = 1, cl_events = [] \<rparr>"

definition next_call_id :: "call_log \<Rightarrow> 64 word \<times> call_log" where
  "next_call_id l = (cl_next_call_id l, l \<lparr> cl_next_call_id := cl_next_call_id l + 1 \<rparr>)"

definition tool_name :: "ToolCallTrace \<Rightarrow> str" where
  "tool_name t = (case tc_tool t of None \<Rightarrow> UNKNOWN_TOOL | Some n \<Rightarrow> n)"

definition is_known_tool :: "ToolCallTrace \<Rightarrow> bool" where
  "is_known_tool t \<longleftrightarrow> tc_tool t \<noteq> None"

definition start_trace :: "nat \<Rightarrow> str option \<Rightarrow> call_log \<Rightarrow> ToolCallTrace \<times> call_log" where
  "start_trace now tool l =
     (let (cid, l) = next_call_id l;
          t = \<lparr> tc_call_id = cid, tc_tool = tool, tc_started = now, tc_finished = False \<rparr>
      in (t, l \<lparr> cl_events := cl_events l @ [Call_Started cid (tool_name t)] \<rparr>))"

text \<open>\<open>log_safety::elapsed_ms\<close>: whole milliseconds in 64 bits, saturating; instants are nanoseconds.\<close>

definition elapsed_ms :: "nat \<Rightarrow> nat \<Rightarrow> nat" where
  "elapsed_ms now started = min ((now - started) div 1000000) (2 ^ 64 - 1)"

definition log_finish :: "nat \<Rightarrow> CallOutcome \<Rightarrow> ToolCallTrace \<Rightarrow> call_log \<Rightarrow> call_log" where
  "log_finish now outcome t l =
     l \<lparr> cl_events := cl_events l @
          [Call_Finished (tc_call_id t) (tool_name t) (as_str outcome) (elapsed_ms now (tc_started t))] \<rparr>"

definition drop_trace :: "nat \<Rightarrow> ToolCallTrace \<Rightarrow> call_log \<Rightarrow> call_log" where
  "drop_trace now t l = (if \<not> tc_finished t then log_finish now Outcome_Dropped t l else l)"

text \<open>\<open>finish\<close> consumes the trace, so its destructor runs at the end.\<close>

definition finish_trace :: "nat \<Rightarrow> CallOutcome \<Rightarrow> ToolCallTrace \<Rightarrow> call_log \<Rightarrow> call_log" where
  "finish_trace now outcome t l =
     (let t = t \<lparr> tc_finished := True \<rparr> in drop_trace now t (log_finish now outcome t l))"

section \<open>The request handler\<close>

text \<open>
  How the awaited part of \<open>call_tool\<close> ends: the router answered, the client cancelled first, or the whole
  call was dropped.  \<open>router_get\<close> and the router's answer are parameters.
\<close>

datatype 'r call_ending =
    Router_Answer "ErrorData + 'r CallToolResponse"
  | Client_Cancelled
  | Call_Dropped

record call_request =
  cr_name :: str
  cr_project_path :: "str option"

definition bound_answer ::
    "('v, 'r) codec \<Rightarrow> filesystem \<Rightarrow> nat \<Rightarrow> call_request \<Rightarrow> ErrorData + 'r CallToolResponse \<Rightarrow> server \<Rightarrow>
     ((ErrorData + 'r CallToolResponse) \<times> server) option" where
  "bound_answer cd fs now request answer sv =
     (case answer of
        Inl e \<Rightarrow> Some (Inl e, sv)
      | Inr response \<Rightarrow> bound_response cd fs now (cr_name request) (cr_project_path request) response sv)"

definition call_tool ::
    "('v, 'r) codec \<Rightarrow> filesystem \<Rightarrow> ('r \<Rightarrow> bool option) \<Rightarrow> (str \<Rightarrow> str option) \<Rightarrow> call_request \<Rightarrow> nat \<Rightarrow> nat \<Rightarrow>
     'r call_ending \<Rightarrow> server \<Rightarrow> call_log \<Rightarrow> ((ErrorData + 'r CallToolResponse) option \<times> server \<times> call_log) option" where
  "call_tool cd fs is_error router_get request started ended ending sv l =
     (let (t, l) = start_trace started (router_get (cr_name request)) l
      in case ending of
           Call_Dropped \<Rightarrow> Some (None, sv, drop_trace ended t l)
         | Client_Cancelled \<Rightarrow>
             Some (Some (Inl (InternalError (lit ''tool request cancelled''))), sv, finish_trace ended Outcome_Cancelled t l)
         | Router_Answer answer \<Rightarrow>
             (case bound_answer cd fs ended request answer sv of
                None \<Rightarrow> None
              | Some (result, sv) \<Rightarrow>
                  Some (Some result, sv, finish_trace ended (outcome_of_call is_error result (is_known_tool t)) t l)))"

text \<open>The error a heavy job gives to its tool call.\<close>

definition heavy_work_message :: "HeavyWorkError \<Rightarrow> str" where
  "heavy_work_message e =
     (case e of
        Overloaded limits \<Rightarrow>
          lit ''the server is overloaded: '' @ fmt_dec (hl_running limits) @ lit '' heavy jobs are running and '' @
          fmt_dec (hl_queued limits) @
          lit '' are queued (MAX_HEAVY_JOBS and MAX_QUEUED_HEAVY_JOBS); retry later''
      | Cancelled \<Rightarrow> lit ''the request was cancelled''
      | Failed \<Rightarrow> lit ''blocking work failed unexpectedly'')"

definition heavy_work_error :: "HeavyWorkError \<Rightarrow> ErrorData" where
  "heavy_work_error e = InternalError (heavy_work_message e)"

section \<open>Interleaved calls\<close>

record calls =
  cs_log :: call_log
  cs_traces :: "ToolCallTrace option list"

definition no_calls :: calls where
  "no_calls = \<lparr> cs_log = new_log, cs_traces = [] \<rparr>"

inductive calls_step :: "calls \<Rightarrow> calls \<Rightarrow> bool" where
  call_start: "start_trace now tool (cs_log s) = (t, l) \<Longrightarrow>
     calls_step s \<lparr> cs_log = l, cs_traces = cs_traces s @ [Some t] \<rparr>"
| call_finish: "i < length (cs_traces s) \<Longrightarrow> cs_traces s ! i = Some t \<Longrightarrow>
     calls_step s \<lparr> cs_log = finish_trace now outcome t (cs_log s), cs_traces = (cs_traces s)[i := None] \<rparr>"
| call_drop: "i < length (cs_traces s) \<Longrightarrow> cs_traces s ! i = Some t \<Longrightarrow>
     calls_step s \<lparr> cs_log = drop_trace now t (cs_log s), cs_traces = (cs_traces s)[i := None] \<rparr>"

fun started_ids :: "call_event list \<Rightarrow> 64 word list" where
  "started_ids [] = []"
| "started_ids (Call_Started c _ # es) = c # started_ids es"
| "started_ids (Call_Finished _ _ _ _ # es) = started_ids es"

fun finished_ids :: "call_event list \<Rightarrow> 64 word list" where
  "finished_ids [] = []"
| "finished_ids (Call_Started _ _ # es) = finished_ids es"
| "finished_ids (Call_Finished c _ _ _ # es) = c # finished_ids es"

lemma ids_append [simp]:
  "started_ids (xs @ ys) = started_ids xs @ started_ids ys"
  "finished_ids (xs @ ys) = finished_ids xs @ finished_ids ys"
  by (induction xs rule: started_ids.induct) auto

definition nth_id :: "nat \<Rightarrow> 64 word" where
  "nth_id i = of_nat (Suc i)"

definition over :: "'a option list \<Rightarrow> nat list" where
  "over ts = filter (\<lambda>i. ts ! i = None) [0..<length ts]"

definition calls_ok :: "calls \<Rightarrow> bool" where
  "calls_ok s \<longleftrightarrow>
     cl_next_call_id (cs_log s) = nth_id (length (cs_traces s)) \<and>
     started_ids (cl_events (cs_log s)) = map nth_id [0..<length (cs_traces s)] \<and>
     mset (finished_ids (cl_events (cs_log s))) = mset (map nth_id (over (cs_traces s))) \<and>
     (\<forall>i t. i < length (cs_traces s) \<and> cs_traces s ! i = Some t \<longrightarrow> tc_call_id t = nth_id i \<and> \<not> tc_finished t)"

lemma over_append: "over (ts @ [Some t]) = over ts"
  by (auto simp: over_def nth_append intro: filter_cong)

lemma over_update:
  assumes "i < length ts" "ts ! i = Some t"
  shows "mset (over (ts[i := None])) = add_mset i (mset (over ts))"
proof -
  have split: "[0..<length ts] = [0..<i] @ i # [Suc i..<length ts]"
    using assms(1) upt_add_eq_append [of 0 i "length ts - i"] upt_conv_Cons [of i "length ts"] by simp
  have "filter (\<lambda>k. (ts[i := None]) ! k = None) [0..<i] = filter (\<lambda>k. ts ! k = None) [0..<i]"
    "filter (\<lambda>k. (ts[i := None]) ! k = None) [Suc i..<length ts] = filter (\<lambda>k. ts ! k = None) [Suc i..<length ts]"
    by (rule filter_cong; simp)+
  then show ?thesis using assms by (simp add: over_def split)
qed

lemma start_trace_facts:
  assumes "start_trace now tool l = (t, l')"
  shows "t = \<lparr> tc_call_id = cl_next_call_id l, tc_tool = tool, tc_started = now, tc_finished = False \<rparr>"
    "cl_next_call_id l' = cl_next_call_id l + 1"
    "cl_events l' = cl_events l @ [Call_Started (cl_next_call_id l) (tool_name t)]"
  using assms by (auto simp: start_trace_def next_call_id_def Let_def)

lemma finish_trace_events:
  "cl_events (finish_trace now outcome t l) = cl_events l @
     [Call_Finished (tc_call_id t) (tool_name t) (as_str outcome) (elapsed_ms now (tc_started t))]"
  "cl_next_call_id (finish_trace now outcome t l) = cl_next_call_id l"
  by (simp_all add: finish_trace_def drop_trace_def log_finish_def tool_name_def)

lemma drop_trace_events:
  "\<not> tc_finished t \<Longrightarrow> cl_events (drop_trace now t l) = cl_events l @
     [Call_Finished (tc_call_id t) (tool_name t) (as_str Outcome_Dropped) (elapsed_ms now (tc_started t))]"
  "cl_next_call_id (drop_trace now t l) = cl_next_call_id l"
  by (simp_all add: drop_trace_def log_finish_def)

lemma calls_ok_end:
  assumes "calls_ok s" "i < length (cs_traces s)" "cs_traces s ! i = Some t"
    and "cl_events l = cl_events (cs_log s) @ [Call_Finished (tc_call_id t) n c d]"
    and "cl_next_call_id l = cl_next_call_id (cs_log s)"
  shows "calls_ok \<lparr> cs_log = l, cs_traces = (cs_traces s)[i := None] \<rparr>"
proof -
  have "tc_call_id t = nth_id i" using assms(1-3) by (simp add: calls_ok_def)
  then have "mset (finished_ids (cl_events l)) = mset (map nth_id (over ((cs_traces s)[i := None])))"
    using assms(1,4) over_update [OF assms(2,3)] by (simp add: calls_ok_def)
  then show ?thesis using assms by (auto simp: calls_ok_def nth_list_update)
qed

interpretation call_system: invariant_system calls_step no_calls calls_ok
proof unfold_locales
  show "calls_ok no_calls" by (simp add: calls_ok_def no_calls_def new_log_def nth_id_def over_def)
  show "calls_ok t" if "calls_ok s" "calls_step s t" for s t
    using that(2)
  proof cases
    case (call_start now tool tr l)
    note tr = start_trace_facts [OF call_start(2)]
    have "cl_next_call_id l = nth_id (Suc (length (cs_traces s)))"
      "started_ids (cl_events l) = map nth_id [0..<Suc (length (cs_traces s))]"
      "finished_ids (cl_events l) = finished_ids (cl_events (cs_log s))"
      "tc_call_id tr = nth_id (length (cs_traces s))" "\<not> tc_finished tr"
      using that(1) tr by (simp_all add: calls_ok_def nth_id_def)
    then show ?thesis using that(1) unfolding call_start(1)
      by (auto simp: calls_ok_def over_append nth_append less_Suc_eq)
  next
    case (call_finish i tr now outcome)
    then show ?thesis using calls_ok_end [OF that(1) call_finish(2,3)] finish_trace_events by simp
  next
    case (call_drop i tr now)
    then have "\<not> tc_finished tr" using that(1) by (simp add: calls_ok_def)
    then show ?thesis using calls_ok_end [OF that(1) call_drop(2,3)] drop_trace_events call_drop(1) by simp
  qed
qed

lemma nth_id_inj: "n \<le> 2 ^ 64 \<Longrightarrow> inj_on nth_id {0..<n}"
proof (rule inj_onI)
  fix i j assume "n \<le> 2 ^ 64" "i \<in> {0..<n}" "j \<in> {0..<n}" "nth_id i = nth_id j"
  then have "(of_nat i :: 64 word) = of_nat j" "i < 2 ^ 64" "j < 2 ^ 64" by (auto simp: nth_id_def)
  then show "i = j" by (simp add: word_of_nat_eq_iff take_bit_nat_eq_self)
qed

section \<open>Properties\<close>

text \<open>
  Claim C26.  However calls interleave, are cancelled or dropped, as long as fewer than \<open>2 ^ 64\<close> calls were
  made: every call has its own identifier, exactly one start event, and exactly one finish event once it is over and none
  before; no event carries any other identifier.
\<close>

theorem one_finish_per_start:
  assumes "calls_step\<^sup>*\<^sup>* no_calls s" "length (cs_traces s) \<le> 2 ^ 64" "i < length (cs_traces s)"
  shows "distinct (started_ids (cl_events (cs_log s))) \<and> length (started_ids (cl_events (cs_log s))) = length (cs_traces s) \<and>
    set (finished_ids (cl_events (cs_log s))) \<subseteq> set (started_ids (cl_events (cs_log s))) \<and>
    count_list (finished_ids (cl_events (cs_log s))) (started_ids (cl_events (cs_log s)) ! i) =
      (if cs_traces s ! i = None then 1 else 0)"
proof -
  let ?n = "length (cs_traces s)"
  have ok: "calls_ok s" using call_system.reachable_inv [OF assms(1)] .
  have inj: "inj_on nth_id {0..<?n}" using nth_id_inj [OF assms(2)] .
  have st: "started_ids (cl_events (cs_log s)) = map nth_id [0..<?n]" using ok by (simp add: calls_ok_def)
  have fin: "mset (finished_ids (cl_events (cs_log s))) = mset (map nth_id (over (cs_traces s)))" using ok by (simp add: calls_ok_def)
  have sub: "set (over (cs_traces s)) \<subseteq> {0..<?n}" "distinct (over (cs_traces s))" by (auto simp: over_def)
  have dist: "distinct (map nth_id (over (cs_traces s)))" using sub inj by (auto simp: distinct_map intro: inj_on_subset)
  have "count_list (finished_ids (cl_events (cs_log s))) (nth_id i) = count_list (map nth_id (over (cs_traces s))) (nth_id i)"
    using fin by (metis count_mset)
  also have "\<dots> = (if nth_id i \<in> nth_id ` set (over (cs_traces s)) then 1 else 0)"
    using dist by (metis count_mset distinct_count_atmost_1 list.set_map)
  also have "nth_id i \<in> nth_id ` set (over (cs_traces s)) \<longleftrightarrow> cs_traces s ! i = None"
    using assms(3) sub(1) inj_on_image_mem_iff [OF inj, of i "set (over (cs_traces s))"] by (auto simp: over_def)
  finally have "count_list (finished_ids (cl_events (cs_log s))) (nth_id i) = (if cs_traces s ! i = None then 1 else 0)" .
  moreover have "set (finished_ids (cl_events (cs_log s))) = nth_id ` set (over (cs_traces s))"
    using fin by (metis set_mset_mset list.set_map)
  ultimately show ?thesis using st inj sub assms(3) by (auto simp: distinct_map)
qed

text \<open>
  The request handler logs each call completely: whatever ends it, exactly one start and one finish
  event are added, with the same identifier and the router's own tool name (or \<open><unknown>\<close>), and the finish category is
  that of the response actually returned: cancelled or dropped, or the class of the bounded result.
\<close>

lemma call_tool_logged:
  assumes "call_tool cd fs is_error router_get request started ended ending sv l = Some (result, sv', l')"
  shows "\<exists>outcome. cl_events l' = cl_events l @
      [Call_Started (cl_next_call_id l) (case router_get (cr_name request) of None \<Rightarrow> UNKNOWN_TOOL | Some n \<Rightarrow> n),
       Call_Finished (cl_next_call_id l) (case router_get (cr_name request) of None \<Rightarrow> UNKNOWN_TOOL | Some n \<Rightarrow> n)
         (as_str outcome) (elapsed_ms ended started)] \<and>
    cl_next_call_id l' = cl_next_call_id l + 1 \<and>
    (case ending of
       Call_Dropped \<Rightarrow> outcome = Outcome_Dropped \<and> result = None
     | Client_Cancelled \<Rightarrow> outcome = Outcome_Cancelled
     | Router_Answer answer \<Rightarrow>
         \<exists>r. result = Some r \<and> bound_answer cd fs ended request answer sv = Some (r, sv') \<and>
           outcome = outcome_of_call is_error r (router_get (cr_name request) \<noteq> None))"
proof -
  obtain t l1 where t: "start_trace started (router_get (cr_name request)) l = (t, l1)" by fastforce
  note f = start_trace_facts [OF t]
  have t': "tc_call_id t = cl_next_call_id l" "tc_tool t = router_get (cr_name request)" "tc_started t = started"
    "\<not> tc_finished t" "cl_next_call_id l1 = cl_next_call_id l + 1"
    "cl_events l1 = cl_events l @ [Call_Started (cl_next_call_id l) (tool_name t)]"
    using f by simp_all
  have n: "tool_name t = (case router_get (cr_name request) of None \<Rightarrow> UNKNOWN_TOOL | Some n \<Rightarrow> n)"
    by (simp add: tool_name_def t'(2))
  show ?thesis
  proof (cases ending)
    case (Router_Answer answer)
    then obtain r where r: "bound_answer cd fs ended request answer sv = Some (r, sv')" "result = Some r"
      "l' = finish_trace ended (outcome_of_call is_error r (is_known_tool t)) t l1"
      using assms t by (auto simp: call_tool_def split: option.splits)
    then show ?thesis using Router_Answer t' n finish_trace_events
      by (intro exI [of _ "outcome_of_call is_error r (is_known_tool t)"]) (simp add: is_known_tool_def)
  next
    case Client_Cancelled
    then have "l' = finish_trace ended Outcome_Cancelled t l1" using assms t by (auto simp: call_tool_def)
    then show ?thesis using Client_Cancelled t' n finish_trace_events by (intro exI [of _ Outcome_Cancelled]) simp
  next
    case Call_Dropped
    then have "l' = drop_trace ended t l1" "result = None" using assms t by (auto simp: call_tool_def)
    then show ?thesis using Call_Dropped t' n drop_trace_events by (intro exI [of _ Outcome_Dropped]) simp
  qed
qed

section \<open>Witnesses\<close>

definition demo_calls :: calls where
  "demo_calls =
     (let (t, l) = start_trace 5 None new_log; (u, l) = start_trace 6 (Some (lit ''search'')) l
      in \<lparr> cs_log = finish_trace 9 Outcome_Success u l, cs_traces = [Some t, None] \<rparr>)"

lemma demo_calls_reached: "calls_step\<^sup>*\<^sup>* no_calls demo_calls"
proof -
  obtain t l where a: "start_trace 5 None new_log = (t, l)" by fastforce
  obtain u k where b: "start_trace 6 (Some (lit ''search'')) l = (u, k)" by fastforce
  have "calls_step no_calls \<lparr> cs_log = l, cs_traces = [Some t] \<rparr>"
    using call_start [of 5 None no_calls t l] a by (simp add: no_calls_def)
  moreover have "calls_step \<lparr> cs_log = l, cs_traces = [Some t] \<rparr> \<lparr> cs_log = k, cs_traces = [Some t, Some u] \<rparr>"
    using call_start [of 6 _ "\<lparr> cs_log = l, cs_traces = [Some t] \<rparr>" u k] b by simp
  moreover have "calls_step \<lparr> cs_log = k, cs_traces = [Some t, Some u] \<rparr> demo_calls"
    using call_finish [of 1 "\<lparr> cs_log = k, cs_traces = [Some t, Some u] \<rparr>" u 9 Outcome_Success] a b
    by (simp add: demo_calls_def)
  ultimately show ?thesis by (meson rtranclp.rtrancl_into_rtrancl rtranclp.rtrancl_refl)
qed

theorem one_finish_per_start_witness:
  "length (cs_traces demo_calls) = 2 \<and>
   count_list (finished_ids (cl_events (cs_log demo_calls))) (started_ids (cl_events (cs_log demo_calls)) ! 1) = 1"
proof -
  have "length (cs_traces demo_calls) = 2" "cs_traces demo_calls ! 1 = None" by (simp_all add: demo_calls_def split: prod.splits)
  then show ?thesis using one_finish_per_start [OF demo_calls_reached, of 1] by simp
qed

definition demo_call :: call_request where
  "demo_call = \<lparr> cr_name = lit ''x'', cr_project_path = None \<rparr>"

end
