(* ===== verification/Config.thy ===== *)
theory Config
  imports Paging
begin

text \<open>
  Configuration from the environment and the resource limits of XML input (\<open>src/config.rs\<close>).

  The environment is a function from variable names to values; a value that is not Unicode keeps its
  lossy text.  Directories are canonicalized by the file system parameter of the paging theory.  The
  XML reader is a library: its events up to the end of the text are a parameter, an error of it is
  \<open>Inl\<close>.  A file is its text, or its size and the decoder's message when it is not UTF-8.  An error is
  its outermost message; an error of a file read is the rendering of the whole chain, which the budget
  quotes.
\<close>

section \<open>Environment variables\<close>

datatype env_value = Unicode str | Not_Unicode str

type_synonym environment = "str \<Rightarrow> env_value option"

fun to_string_lossy :: "env_value \<Rightarrow> str" where
  "to_string_lossy (Unicode s) = s"
| "to_string_lossy (Not_Unicode s) = s"

definition parse_positive :: "str \<Rightarrow> env_value option \<Rightarrow> nat \<Rightarrow> str + nat" where
  "parse_positive name v fallback =
     (case v of
        None \<Rightarrow> Inr fallback
      | Some v \<Rightarrow>
          (case parse_usize (to_string_lossy v) of
             None \<Rightarrow> Inl (name @ lit '' must be a positive integer'')
           | Some parsed \<Rightarrow> if parsed = 0 then Inl (name @ lit '' must be greater than zero'') else Inr parsed))"

definition positive_env :: "environment \<Rightarrow> string \<Rightarrow> nat \<Rightarrow> str + nat" where
  "positive_env env name fallback = parse_positive (lit name) (env (lit name)) fallback"

definition validate_resource_limit :: "str \<Rightarrow> nat \<Rightarrow> nat \<Rightarrow> str + nat" where
  "validate_resource_limit name v maximum =
     (if v = 0 \<or> maximum < v then Inl (name @ lit '' must be between 1 and '' @ fmt_dec maximum) else Inr v)"

definition resource_env :: "environment \<Rightarrow> string \<Rightarrow> nat \<Rightarrow> nat \<Rightarrow> str + nat" where
  "resource_env env name fallback maximum =
     and_then (positive_env env name fallback) (\<lambda>v. validate_resource_limit (lit name) v maximum)"

definition boolean_env_or :: "environment \<Rightarrow> string \<Rightarrow> bool \<Rightarrow> str + bool" where
  "boolean_env_or env name fallback =
     (case env (lit name) of
        None \<Rightarrow> Inr fallback
      | Some (Not_Unicode _) \<Rightarrow> Inl (lit ''cannot read '' @ lit name)
      | Some (Unicode v) \<Rightarrow>
          if eq_ignore_ascii_case v (lit ''true'') \<or> v = lit ''1'' then Inr True
          else if eq_ignore_ascii_case v (lit ''false'') \<or> v = lit ''0'' then Inr False
          else Inl (lit name @ lit '' must be true, false, 1, or 0''))"

definition boolean_env :: "environment \<Rightarrow> string \<Rightarrow> str + bool" where
  "boolean_env env name = boolean_env_or env name False"

section \<open>Directories\<close>

definition is_absolute :: "str \<Rightarrow> bool" where
  "is_absolute p \<longleftrightarrow> starts_with (lit ''/'') p"

text \<open>\<open>Path::join\<close> with a relative path.\<close>

definition path_join :: "str \<Rightarrow> string \<Rightarrow> str" where
  "path_join base rel = (if base = [] \<or> ends_with (lit ''/'') base then base @ lit rel else base @ lit ''/'' @ lit rel)"

definition index_cache_directory :: "str option \<Rightarrow> str option \<Rightarrow> str option \<Rightarrow> str + str option" where
  "index_cache_directory configured xdg_cache_home home =
     (case configured of
        Some directory \<Rightarrow>
          if \<not> is_absolute directory then Inl (lit ''MAVEN_MCP_CACHE_DIR must be an absolute path'') else Inr (Some directory)
      | None \<Rightarrow>
          let base = (case (case xdg_cache_home of None \<Rightarrow> None | Some p \<Rightarrow> if is_absolute p then Some p else None) of
                        Some p \<Rightarrow> Some p
                      | None \<Rightarrow> map_option (\<lambda>h. path_join h ''.cache'') home)
          in Inr (map_option (\<lambda>b. path_join b ''maven-mcp/index'') base))"

definition canonicalize_absolute_directory :: "filesystem \<Rightarrow> str \<Rightarrow> str + path" where
  "canonicalize_absolute_directory fs p =
     (if \<not> is_absolute p then Inl (lit ''MAVEN_TRUSTED_PROJECT_DIRECTORIES entries must be absolute paths'')
      else case fs_canonicalize fs p of
             None \<Rightarrow> Inl (lit ''MAVEN_TRUSTED_PROJECT_DIRECTORIES contains an unreadable directory'')
           | Some canonical \<Rightarrow>
               if \<not> fs_is_dir fs canonical
               then Inl (lit ''MAVEN_TRUSTED_PROJECT_DIRECTORIES entries must be directories'')
               else Inr canonical)"

text \<open>\<open>env::split_paths\<close> on Unix.\<close>

definition split_paths :: "str \<Rightarrow> str list" where
  "split_paths v = split_on (of_char CHR '':'') v"

definition parse_trusted_project_directories :: "filesystem \<Rightarrow> str \<Rightarrow> str + path list" where
  "parse_trusted_project_directories fs v =
     and_then (collect_results (map (canonicalize_absolute_directory fs) (split_paths v)))
       (\<lambda>directories.
          if directories = []
          then Inl (lit ''MAVEN_TRUSTED_PROJECT_DIRECTORIES must contain at least one directory'')
          else Inr (remdups_adj (sort directories)))"

definition trusted_project_directories_from_env :: "filesystem \<Rightarrow> environment \<Rightarrow> str + path list" where
  "trusted_project_directories_from_env fs env =
     (case env (lit ''MAVEN_TRUSTED_PROJECT_DIRECTORIES'') of
        None \<Rightarrow> Inr []
      | Some v \<Rightarrow> parse_trusted_project_directories fs (to_string_lossy v))"

section \<open>The configuration\<close>

datatype JavaEnvironment = Inherit | Jenv str

record MavenExecutionConfig =
  me_trusted_project_directories :: "path list"
  me_maven_executable :: "str option"
  me_execution_repository :: "str option"
  me_timeout_seconds :: nat
  me_max_output_bytes :: nat
  me_max_results :: nat
  me_network_enabled :: bool
  me_java_environment :: JavaEnvironment

record IndexCacheConfig =
  ic_directory :: str
  ic_max_bytes :: nat

record Config =
  cf_max_results :: nat
  cf_max_source_bytes :: nat
  cf_max_project_indexes :: nat
  cf_max_project_index_bytes :: nat
  cf_max_heavy_jobs :: nat
  cf_max_queued_heavy_jobs :: nat
  cf_max_mcp_response_bytes :: nat
  cf_max_mcp_result_cache_bytes :: nat
  cf_execution :: MavenExecutionConfig
  cf_index_cache :: "IndexCacheConfig option"

record resource_limits =
  rl_xml_bytes :: nat
  rl_jar_entries :: nat
  rl_index_entries :: nat
  rl_index_name_bytes :: nat

record ProjectExecutionConfig =
  pe_project_root :: path
  pe_maven_executable :: "str option"
  pe_execution_repository :: "str option"
  pe_timeout_seconds :: nat
  pe_max_output_bytes :: nat
  pe_max_results :: nat
  pe_network_enabled :: bool
  pe_java_environment :: JavaEnvironment

definition from_root :: "path \<Rightarrow> MavenExecutionConfig \<Rightarrow> ProjectExecutionConfig" where
  "from_root project_root c =
     \<lparr> pe_project_root = project_root, pe_maven_executable = me_maven_executable c,
       pe_execution_repository = me_execution_repository c, pe_timeout_seconds = me_timeout_seconds c,
       pe_max_output_bytes = me_max_output_bytes c, pe_max_results = me_max_results c,
       pe_network_enabled = me_network_enabled c, pe_java_environment = me_java_environment c \<rparr>"

definition os_var :: "environment \<Rightarrow> string \<Rightarrow> str option" where
  "os_var env name = map_option to_string_lossy (env (lit name))"

definition index_cache_from_env :: "environment \<Rightarrow> str + IndexCacheConfig option" where
  "index_cache_from_env env =
     and_then (positive_env env ''MAX_INDEX_CACHE_BYTES'' 1073741824) (\<lambda>max_bytes.
     and_then (boolean_env_or env ''MAVEN_MCP_INDEX_CACHE'' True) (\<lambda>enabled.
     if \<not> enabled then Inr None
     else and_then (index_cache_directory (os_var env ''MAVEN_MCP_CACHE_DIR'') (os_var env ''XDG_CACHE_HOME'') (os_var env ''HOME''))
       (\<lambda>directory. Inr (map_option (\<lambda>d. \<lparr> ic_directory = d, ic_max_bytes = max_bytes \<rparr>) directory))))"

definition java_environment_from_env :: "environment \<Rightarrow> bool \<Rightarrow> str + JavaEnvironment" where
  "java_environment_from_env env use_jenv =
     (if \<not> use_jenv then Inr Inherit
      else case (case os_var env ''JENV_ROOT'' of
                   Some r \<Rightarrow> Some r
                 | None \<Rightarrow> map_option (\<lambda>h. path_join h ''.jenv'') (os_var env ''HOME'')) of
             None \<Rightarrow> Inl (lit ''--jenv requires JENV_ROOT or HOME'')
           | Some root \<Rightarrow>
               if \<not> is_absolute root then Inl (lit ''JENV_ROOT must be an absolute path when --jenv is enabled'')
               else Inr (Jenv root))"

definition maven_execution_from_env :: "filesystem \<Rightarrow> environment \<Rightarrow> bool \<Rightarrow> str + MavenExecutionConfig" where
  "maven_execution_from_env fs env use_jenv =
     and_then (positive_env env ''MAVEN_TIMEOUT_SECONDS'' 300) (\<lambda>timeout.
     and_then (trusted_project_directories_from_env fs env) (\<lambda>directories.
     and_then (positive_env env ''MAX_MAVEN_OUTPUT_BYTES'' 1048576) (\<lambda>output.
     and_then (positive_env env ''MAX_RESULTS'' 100) (\<lambda>results.
     and_then (boolean_env env ''MAVEN_EXECUTION_NETWORK'') (\<lambda>network.
     and_then (java_environment_from_env env use_jenv) (\<lambda>java.
       Inr \<lparr> me_trusted_project_directories = directories, me_maven_executable = os_var env ''MAVEN_EXECUTABLE'',
             me_execution_repository = os_var env ''MAVEN_EXECUTION_REPO_PATH'', me_timeout_seconds = timeout,
             me_max_output_bytes = output, me_max_results = results, me_network_enabled = network,
             me_java_environment = java \<rparr>))))))"

definition resource_limits_from_env :: "environment \<Rightarrow> str + resource_limits" where
  "resource_limits_from_env env =
     and_then (resource_env env ''MAX_XML_BYTES'' 16777216 67108864) (\<lambda>xml.
     and_then (resource_env env ''MAX_JAR_ENTRIES'' 200000 1000000) (\<lambda>jar.
     and_then (resource_env env ''MAX_INDEX_ENTRIES'' 20000000 20000000) (\<lambda>index.
     and_then (resource_env env ''MAX_INDEX_NAME_BYTES'' 2147483648 2147483648) (\<lambda>names.
       Inr \<lparr> rl_xml_bytes = xml, rl_jar_entries = jar, rl_index_entries = index, rl_index_name_bytes = names \<rparr>))))"

text \<open>The process-wide limits are set first; they stay set when a later variable is rejected.\<close>

definition config_from_env :: "filesystem \<Rightarrow> environment \<Rightarrow> bool \<Rightarrow> str + Config" where
  "config_from_env fs env use_jenv =
     and_then (positive_env env ''MAX_RESULTS'' 100) (\<lambda>results.
     and_then (positive_env env ''MAX_SOURCE_BYTES'' 1048576) (\<lambda>source.
     and_then (positive_env env ''MAX_PROJECT_INDEXES'' 4) (\<lambda>indexes.
     and_then (positive_env env ''MAX_PROJECT_INDEX_BYTES'' 1073741824) (\<lambda>index_bytes.
     and_then (positive_env env ''MAX_HEAVY_JOBS'' 2) (\<lambda>heavy.
     and_then (positive_env env ''MAX_QUEUED_HEAVY_JOBS'' 16) (\<lambda>queued.
     and_then (positive_env env ''MAX_MCP_RESPONSE_BYTES'' 12288) (\<lambda>response.
     and_then (positive_env env ''MAX_MCP_RESULT_CACHE_BYTES'' 67108864) (\<lambda>result_cache.
     and_then (maven_execution_from_env fs env use_jenv) (\<lambda>execution.
     and_then (index_cache_from_env env) (\<lambda>cache.
       Inr \<lparr> cf_max_results = results, cf_max_source_bytes = source, cf_max_project_indexes = indexes,
             cf_max_project_index_bytes = index_bytes, cf_max_heavy_jobs = heavy, cf_max_queued_heavy_jobs = queued,
             cf_max_mcp_response_bytes = response, cf_max_mcp_result_cache_bytes = result_cache,
             cf_execution = execution, cf_index_cache = cache \<rparr>))))))))))"

definition from_env_with_jenv :: "filesystem \<Rightarrow> environment \<Rightarrow> bool \<Rightarrow> resource_limits \<Rightarrow> (str + Config) \<times> resource_limits" where
  "from_env_with_jenv fs env use_jenv limits =
     (case resource_limits_from_env env of
        Inl e \<Rightarrow> (Inl e, limits)
      | Inr limits \<Rightarrow> (config_from_env fs env use_jenv, limits))"

section \<open>Bounded XML\<close>

definition MAX_XML_DEPTH :: nat where "MAX_XML_DEPTH = 128"
definition MAX_XML_ELEMENTS :: nat where "MAX_XML_ELEMENTS = 200000"
definition MAX_XML_TOTAL_BYTES :: nat where "MAX_XML_TOTAL_BYTES = 67108864"
definition MAX_XML_FILES :: nat where "MAX_XML_FILES = 4096"

datatype xml_event = XStart | XEmpty | XEnd | XOther

definition depth_error :: str where
  "depth_error = lit ''XML exceeds MAX_XML_DEPTH limit of '' @ fmt_dec MAX_XML_DEPTH"

definition elements_error :: str where
  "elements_error = lit ''XML exceeds MAX_XML_ELEMENTS limit of '' @ fmt_dec MAX_XML_ELEMENTS"

text \<open>The loop of \<open>validate_xml_structure\<close>; the end of the list is the end of the text.\<close>

definition xml_limits :: "nat \<Rightarrow> nat \<Rightarrow> str + unit" where
  "xml_limits depth elements =
     (if MAX_XML_DEPTH < depth then Inl depth_error
      else if MAX_XML_ELEMENTS < elements then Inl elements_error
      else Inr ())"

fun validate_xml_loop :: "nat \<Rightarrow> nat \<Rightarrow> (str + xml_event) list \<Rightarrow> str + unit" where
  "validate_xml_loop depth elements [] = Inr ()"
| "validate_xml_loop depth elements (Inl e # es) = Inl e"
| "validate_xml_loop depth elements (Inr XStart # es) =
     and_then (xml_limits (depth + 1) (elements + 1)) (\<lambda>_. validate_xml_loop (depth + 1) (elements + 1) es)"
| "validate_xml_loop depth elements (Inr XEmpty # es) =
     (if MAX_XML_DEPTH \<le> depth then Inl depth_error
      else and_then (xml_limits depth (elements + 1)) (\<lambda>_. validate_xml_loop depth (elements + 1) es))"
| "validate_xml_loop depth elements (Inr XEnd # es) =
     and_then (xml_limits (depth - 1) elements) (\<lambda>_. validate_xml_loop (depth - 1) elements es)"
| "validate_xml_loop depth elements (Inr XOther # es) =
     and_then (xml_limits depth elements) (\<lambda>_. validate_xml_loop depth elements es)"

definition validate_xml_structure :: "(str \<Rightarrow> (str + xml_event) list) \<Rightarrow> str \<Rightarrow> str + unit" where
  "validate_xml_structure reader xml = validate_xml_loop 0 0 (reader xml)"

datatype file_content = Utf8 str | Not_Utf8 nat str

fun content_len :: "file_content \<Rightarrow> nat" where
  "content_len (Utf8 s) = str_len s"
| "content_len (Not_Utf8 n cause) = n"

text \<open>At most one byte more than the limit is read; a text within the limit was read whole.\<close>

definition read_bounded_xml_with_limit ::
    "(str \<Rightarrow> (str + xml_event) list) \<Rightarrow> (path \<Rightarrow> str + file_content) \<Rightarrow> path \<Rightarrow> nat \<Rightarrow> str + str" where
  "read_bounded_xml_with_limit reader files p limit =
     and_then (files p) (\<lambda>content.
       if limit < min (content_len content) (sat_add limit 1)
       then Inl (lit ''XML file exceeds configured MAX_XML_BYTES limit of '' @ fmt_dec limit @ lit '' bytes'')
       else case content of
              Not_Utf8 _ cause \<Rightarrow> Inl (lit ''XML file is not valid UTF-8: '' @ cause)
            | Utf8 xml \<Rightarrow> and_then (validate_xml_structure reader xml) (\<lambda>_. Inr xml))"

definition read_bounded_xml ::
    "(str \<Rightarrow> (str + xml_event) list) \<Rightarrow> (path \<Rightarrow> str + file_content) \<Rightarrow> resource_limits \<Rightarrow> path \<Rightarrow> str + str" where
  "read_bounded_xml reader files limits p = read_bounded_xml_with_limit reader files p (rl_xml_bytes limits)"

record XmlBudget =
  xb_bytes :: nat
  xb_files :: nat

definition new_budget :: XmlBudget where
  "new_budget = \<lparr> xb_bytes = 0, xb_files = 0 \<rparr>"

text \<open>The outer \<open>None\<close> is an underflow of the remaining bytes.\<close>

definition budget_read ::
    "(str \<Rightarrow> (str + xml_event) list) \<Rightarrow> (path \<Rightarrow> str + file_content) \<Rightarrow> nat \<Rightarrow> path \<Rightarrow> XmlBudget \<Rightarrow>
     ((str + str) \<times> XmlBudget) option" where
  "budget_read reader files max_xml_bytes p b =
     (if MAX_XML_FILES \<le> xb_files b
      then Some (Inl (lit ''XML set exceeds MAX_XML_FILES limit of '' @ fmt_dec MAX_XML_FILES), b)
      else case checked_sub MAX_XML_TOTAL_BYTES (xb_bytes b) of
             None \<Rightarrow> None
           | Some remaining \<Rightarrow>
               (case read_bounded_xml_with_limit reader files p (min max_xml_bytes remaining) of
                  Inl e \<Rightarrow> Some (Inl (lit ''XML read failed within MAX_XML_BYTES and MAX_XML_TOTAL_BYTES budgets: '' @ e), b)
                | Inr xml \<Rightarrow> Some (Inr xml, \<lparr> xb_bytes = xb_bytes b + str_len xml, xb_files = xb_files b + 1 \<rparr>)))"

section \<open>Accepted values\<close>

lemma parse_usize_bound: "parse_usize s = Some n \<Longrightarrow> n \<le> usize_max"
  by (auto simp: parse_usize_def Let_def split: option.splits if_splits)

lemma positive_env_Inr:
  assumes "positive_env env name d = Inr n" "0 < d" "d \<le> usize_max"
  shows "0 < n \<and> n \<le> usize_max"
  using assms by (auto simp: positive_env_def parse_positive_def dest: parse_usize_bound split: option.splits if_splits)

definition usable :: "nat \<Rightarrow> bool" where
  "usable n \<longleftrightarrow> 0 < n \<and> n \<le> usize_max"

lemma positive_env_usable: "positive_env env name d = Inr n \<Longrightarrow> usable d \<Longrightarrow> usable n"
  unfolding usable_def using positive_env_Inr by blast

lemma usable_defaults:
  "usable 100" "usable 1048576" "usable 4" "usable 1073741824" "usable 2" "usable 16" "usable 12288" "usable 67108864" "usable 300"
  by (simp_all add: usable_def usize_max_def)

lemma resource_env_Inr: "resource_env env name d m = Inr n \<Longrightarrow> 0 < n \<and> n \<le> m"
  by (auto simp: resource_env_def validate_resource_limit_def result_iff split: if_splits)

lemma parse_trusted_Inr:
  assumes "parse_trusted_project_directories fs v = Inr dirs"
  shows "dirs \<noteq> []" "sorted dirs \<and> distinct dirs"
    "d \<in> set dirs \<Longrightarrow> \<exists>entry \<in> set (split_paths v). is_absolute entry \<and> fs_canonicalize fs entry = Some d \<and> fs_is_dir fs d"
proof -
  from assms obtain ds where ds: "map (canonicalize_absolute_directory fs) (split_paths v) = map Inr ds" "ds \<noteq> []"
    "dirs = remdups_adj (sort ds)"
    by (auto simp: parse_trusted_project_directories_def result_iff split: if_splits)
  show "dirs \<noteq> []" using ds(2,3) by (metis remdups_adj_Nil_iff length_sort length_0_conv)
  have "sorted xs \<Longrightarrow> distinct (remdups_adj xs)" for xs :: "path list"
    by (induction xs rule: remdups_adj.induct) auto
  then show "sorted dirs \<and> distinct dirs" by (simp add: ds(3))
  assume "d \<in> set dirs"
  then have "Inr d \<in> set (map (canonicalize_absolute_directory fs) (split_paths v))" unfolding ds(1,3) by simp
  then obtain entry where "entry \<in> set (split_paths v)" "canonicalize_absolute_directory fs entry = Inr d" by auto
  then show "\<exists>entry \<in> set (split_paths v). is_absolute entry \<and> fs_canonicalize fs entry = Some d \<and> fs_is_dir fs d"
    by (intro bexI [of _ entry]) (auto simp: canonicalize_absolute_directory_def split: if_splits option.splits)
qed

lemma trusted_project_root_Inr:
  assumes "trusted_project_root fs dirs p = Inr root"
  shows "fs_canonicalize fs p = Some root" "fs_is_dir fs root" "fs_is_file fs (root @ [lit ''pom.xml''])"
    "\<exists>d \<in> set dirs. \<exists>r. root = d @ r"
  using assms
  by (auto simp: trusted_project_root_def validate_project_path_def canonical_project_root_def list_ex_iff path_starts_with_def
      starts_with_iff split: if_splits option.splits sum.splits)

section \<open>The nesting of XML elements\<close>

text \<open>The depth of every element of an event list, counted from the depth of its context.\<close>

fun element_depths :: "nat \<Rightarrow> xml_event list \<Rightarrow> nat list" where
  "element_depths d [] = []"
| "element_depths d (XStart # es) = (d + 1) # element_depths (d + 1) es"
| "element_depths d (XEmpty # es) = (d + 1) # element_depths d es"
| "element_depths d (XEnd # es) = element_depths (d - 1) es"
| "element_depths d (XOther # es) = element_depths d es"

lemma validate_xml_loop_iff:
  "depth \<le> MAX_XML_DEPTH \<Longrightarrow> elements \<le> MAX_XML_ELEMENTS \<Longrightarrow>
   validate_xml_loop depth elements (map Inr es) = Inr () \<longleftrightarrow>
     list_all (\<lambda>d. d \<le> MAX_XML_DEPTH) (element_depths depth es) \<and>
     elements + length (element_depths depth es) \<le> MAX_XML_ELEMENTS"
proof (induction depth es arbitrary: elements rule: element_depths.induct)
  case (4 d es)
  have "d - Suc 0 \<le> MAX_XML_DEPTH" using 4(2) by simp
  with 4 show ?case by (simp add: xml_limits_def)
qed (auto simp: xml_limits_def)

lemma validate_xml_loop_ok: "validate_xml_loop depth elements es = Inr () \<Longrightarrow> \<exists>xs. es = map Inr xs"
proof (induction depth elements es rule: validate_xml_loop.induct)
  case (1 depth elements)
  then show ?case by simp
qed (auto simp: result_iff split: if_splits intro: exI [of _ "_ # _"])

section \<open>The XML budget\<close>

definition budget_ok :: "XmlBudget \<Rightarrow> bool" where
  "budget_ok b \<longleftrightarrow> xb_bytes b \<le> MAX_XML_TOTAL_BYTES \<and> xb_files b \<le> MAX_XML_FILES"

definition budget_step ::
    "(str \<Rightarrow> (str + xml_event) list) \<Rightarrow> (path \<Rightarrow> str + file_content) \<Rightarrow> nat \<Rightarrow> XmlBudget \<Rightarrow> XmlBudget \<Rightarrow> bool" where
  "budget_step reader files limit b b' \<longleftrightarrow> (\<exists>p r. budget_read reader files limit p b = Some (r, b'))"

lemma read_bounded_len:
  assumes "read_bounded_xml_with_limit reader files p limit = Inr xml" "limit < usize_max"
  shows "str_len xml \<le> limit \<and> files p = Inr (Utf8 xml) \<and> validate_xml_structure reader xml = Inr ()"
proof -
  from assms(1) obtain content where content: "files p = Inr content"
    "(if limit < min (content_len content) (sat_add limit 1)
       then Inl (lit ''XML file exceeds configured MAX_XML_BYTES limit of '' @ fmt_dec limit @ lit '' bytes'')
       else case content of
              Not_Utf8 _ cause \<Rightarrow> Inl (lit ''XML file is not valid UTF-8: '' @ cause)
            | Utf8 xml \<Rightarrow> and_then (validate_xml_structure reader xml) (\<lambda>_. Inr xml)) = Inr xml"
    unfolding read_bounded_xml_with_limit_def and_then_Inr by blast
  show ?thesis
  proof (cases content)
    case (Utf8 t)
    then show ?thesis using content assms(2) by (auto simp: result_iff sat_add_def split: if_splits)
  next
    case (Not_Utf8 n cause)
    then show ?thesis using content by (simp split: if_splits)
  qed
qed

lemma budget_read_total:
  assumes "budget_ok b"
  shows "\<exists>r b'. budget_read reader files limit p b = Some (r, b') \<and> budget_ok b' \<and>
    (case r of Inl _ \<Rightarrow> b' = b
     | Inr xml \<Rightarrow> str_len xml \<le> limit \<and> files p = Inr (Utf8 xml) \<and> validate_xml_structure reader xml = Inr () \<and>
         xb_bytes b' = xb_bytes b + str_len xml \<and> xb_files b' = xb_files b + 1)"
proof (cases "MAX_XML_FILES \<le> xb_files b")
  case True
  then show ?thesis using assms by (simp add: budget_read_def)
next
  case False
  let ?rem = "MAX_XML_TOTAL_BYTES - xb_bytes b"
  have sub: "checked_sub MAX_XML_TOTAL_BYTES (xb_bytes b) = Some ?rem" using assms by (simp add: budget_ok_def checked_sub_def)
  have "?rem \<le> MAX_XML_TOTAL_BYTES" by simp
  also have "\<dots> < usize_max" by (simp add: MAX_XML_TOTAL_BYTES_def usize_max_def)
  finally have lt: "min limit ?rem < usize_max" by (simp add: min_less_iff_disj)
  show ?thesis
  proof (cases "read_bounded_xml_with_limit reader files p (min limit ?rem)")
    case (Inl e)
    then show ?thesis using False sub assms by (simp add: budget_read_def)
  next
    case (Inr xml)
    then show ?thesis using False sub assms read_bounded_len [OF Inr lt] by (auto simp: budget_read_def budget_ok_def)
  qed
qed

interpretation budget: invariant_system "budget_step reader files limit" new_budget budget_ok
proof unfold_locales
  show "budget_ok new_budget" by (simp add: budget_ok_def new_budget_def)
  show "budget_ok t" if s: "budget_ok s" and step: "budget_step reader files limit s t" for s t
  proof -
    from step obtain p r where "budget_read reader files limit p s = Some (r, t)" unfolding budget_step_def by blast
    with budget_read_total [OF s, of reader files limit p] show ?thesis by auto
  qed
qed

section \<open>Properties\<close>

text \<open>
  The server only starts with usable limits: a configuration accepted from the environment has every limit
  positive and representable, the process-wide resource limits lie between one and their maxima (in particular one XML file
  never exceeds the budget of a set of files), and the trusted directories are distinct and sorted.
\<close>

lemma config_limits_usable:
  assumes "from_env_with_jenv fs env use_jenv limits0 = (Inr c, limits)"
  shows "(\<forall>n \<in> {cf_max_results c, cf_max_source_bytes c, cf_max_project_indexes c, cf_max_project_index_bytes c,
        cf_max_heavy_jobs c, cf_max_queued_heavy_jobs c, cf_max_mcp_response_bytes c, cf_max_mcp_result_cache_bytes c,
        me_timeout_seconds (cf_execution c), me_max_output_bytes (cf_execution c), me_max_results (cf_execution c)}.
      0 < n \<and> n \<le> usize_max) \<and>
    0 < rl_xml_bytes limits \<and> rl_xml_bytes limits \<le> MAX_XML_TOTAL_BYTES \<and>
    0 < rl_jar_entries limits \<and> rl_jar_entries limits \<le> 1000000 \<and>
    0 < rl_index_entries limits \<and> rl_index_entries limits \<le> 20000000 \<and>
    0 < rl_index_name_bytes limits \<and> rl_index_name_bytes limits \<le> 2147483648 \<and>
    sorted (me_trusted_project_directories (cf_execution c)) \<and> distinct (me_trusted_project_directories (cf_execution c))"
proof -
  from assms have c: "config_from_env fs env use_jenv = Inr c" and l: "resource_limits_from_env env = Inr limits"
    by (auto simp: from_env_with_jenv_def split: sum.splits)
  from c obtain ex where ex: "maven_execution_from_env fs env use_jenv = Inr ex" "cf_execution c = ex"
    by (auto simp: config_from_env_def result_iff)
  have dirs: "sorted (me_trusted_project_directories ex) \<and> distinct (me_trusted_project_directories ex)"
    using ex(1) parse_trusted_Inr(2)
    by (fastforce simp: maven_execution_from_env_def result_iff trusted_project_directories_from_env_def split: option.splits)
  have exl: "usable (me_timeout_seconds ex)" "usable (me_max_output_bytes ex)" "usable (me_max_results ex)"
    using ex(1) by (auto simp: maven_execution_from_env_def result_iff intro: usable_defaults positive_env_usable)
  have cl: "usable (cf_max_results c)" "usable (cf_max_source_bytes c)" "usable (cf_max_project_indexes c)"
    "usable (cf_max_project_index_bytes c)" "usable (cf_max_heavy_jobs c)" "usable (cf_max_queued_heavy_jobs c)"
    "usable (cf_max_mcp_response_bytes c)" "usable (cf_max_mcp_result_cache_bytes c)"
    using c by (auto simp: config_from_env_def result_iff intro: usable_defaults positive_env_usable)
  have "0 < rl_xml_bytes limits \<and> rl_xml_bytes limits \<le> MAX_XML_TOTAL_BYTES \<and>
    0 < rl_jar_entries limits \<and> rl_jar_entries limits \<le> 1000000 \<and>
    0 < rl_index_entries limits \<and> rl_index_entries limits \<le> 20000000 \<and>
    0 < rl_index_name_bytes limits \<and> rl_index_name_bytes limits \<le> 2147483648"
    using l by (auto simp: resource_limits_from_env_def result_iff MAX_XML_TOTAL_BYTES_def dest!: resource_env_Inr)
  then show ?thesis using cl exl dirs unfolding ex(2) usable_def by simp
qed

text \<open>
  Claim C27.  No project outside the configured directory trees is ever served: a project root accepted by the server is the
  canonical path of the requested path, is a directory with a \<open>pom.xml\<close>, and lies below the canonical directory of an absolute entry
  of \<open>MAVEN_TRUSTED_PROJECT_DIRECTORIES\<close>; without that variable no root is accepted.
\<close>

theorem trusted_root_is_configured:
  assumes "trusted_project_directories_from_env fs env = Inr dirs" "trusted_project_root fs dirs project_path = Inr root"
  shows "fs_canonicalize fs project_path = Some root \<and> fs_is_dir fs root \<and> fs_is_file fs (root @ [lit ''pom.xml'']) \<and>
    (\<exists>v entry d r. env (lit ''MAVEN_TRUSTED_PROJECT_DIRECTORIES'') = Some v \<and> entry \<in> set (split_paths (to_string_lossy v)) \<and>
       is_absolute entry \<and> fs_canonicalize fs entry = Some d \<and> fs_is_dir fs d \<and> root = d @ r)"
proof -
  note root = trusted_project_root_Inr [OF assms(2)]
  from root(4) obtain d r where d: "d \<in> set dirs" "root = d @ r" by blast
  show ?thesis
  proof (cases "env (lit ''MAVEN_TRUSTED_PROJECT_DIRECTORIES'')")
    case None
    then show ?thesis using assms(1) d(1) by (simp add: trusted_project_directories_from_env_def)
  next
    case (Some v)
    then have "parse_trusted_project_directories fs (to_string_lossy v) = Inr dirs"
      using assms(1) by (simp add: trusted_project_directories_from_env_def)
    from parse_trusted_Inr(3) [OF this d(1)] show ?thesis using Some root(1-3) d(2) by blast
  qed
qed

theorem trusted_root_is_configured_witness:
  "let env = (\<lambda>n. if n = lit ''MAVEN_TRUSTED_PROJECT_DIRECTORIES'' then Some (Unicode (lit ''/w:/v'')) else None)
   in trusted_project_directories_from_env demo_fs env = Inr [[lit ''v''], [lit ''w'']] \<and>
      trusted_project_root demo_fs [[lit ''v''], [lit ''w'']] (lit ''/w/a'') = Inr [lit ''w'', lit ''a''] \<and>
      fs_is_file demo_fs ([lit ''w'', lit ''a''] @ [lit ''pom.xml''])"
proof -
  let ?env = "\<lambda>n. if n = lit ''MAVEN_TRUSTED_PROJECT_DIRECTORIES'' then Some (Unicode (lit ''/w:/v'')) else None"
  have dirs: "trusted_project_directories_from_env demo_fs ?env = Inr [[lit ''v''], [lit ''w'']]" by code_simp
  have root: "trusted_project_root demo_fs [[lit ''v''], [lit ''w'']] (lit ''/w/a'') = Inr [lit ''w'', lit ''a'']" by code_simp
  show ?thesis using trusted_root_is_configured [OF dirs root] dirs root unfolding Let_def by blast
qed

text \<open>
  \<open>validate_xml_structure\<close> decides exactly the documented limits: a text is accepted if and only if the reader reports no
  error, every element of it, empty ones included, is nested at most \<open>MAX_XML_DEPTH\<close> deep, and there are at most \<open>MAX_XML_ELEMENTS\<close> elements.
\<close>

lemma validate_xml_structure_iff:
  "validate_xml_structure reader xml = Inr () \<longleftrightarrow>
     (\<exists>events. reader xml = map Inr events \<and> list_all (\<lambda>d. d \<le> MAX_XML_DEPTH) (element_depths 0 events) \<and>
       length (element_depths 0 events) \<le> MAX_XML_ELEMENTS)"
  using validate_xml_loop_ok [of 0 0 "reader xml"] validate_xml_loop_iff [of 0 0]
  by (auto simp: validate_xml_structure_def)

text \<open>
  The XML budget never underflows and is never exceeded: after any number of reads through one budget, with
  whatever files and reader, the next read returns; the bytes read stay within \<open>MAX_XML_TOTAL_BYTES\<close> and the files within \<open>MAX_XML_FILES\<close>;
  a text is returned only whole, valid and within the limit of one file, and a failed read changes nothing.
\<close>

lemma xml_budget_respected:
  assumes "(budget_step reader files limit)\<^sup>*\<^sup>* new_budget b"
  shows "\<exists>r b'. budget_read reader files limit p b = Some (r, b') \<and>
    xb_bytes b' \<le> MAX_XML_TOTAL_BYTES \<and> xb_files b' \<le> MAX_XML_FILES \<and>
    (case r of Inl _ \<Rightarrow> b' = b
     | Inr xml \<Rightarrow> str_len xml \<le> limit \<and> files p = Inr (Utf8 xml) \<and> validate_xml_structure reader xml = Inr () \<and>
         xb_bytes b' = xb_bytes b + str_len xml \<and> xb_files b' = xb_files b + 1)"
  using budget_read_total [OF budget.reachable_inv [OF assms], of reader files limit p] by (auto simp: budget_ok_def)

end
