(* ===== verification/Timestamps.thy ===== *)
theory Timestamps
  imports Prelude
begin

text \<open>
  The UTC timestamp codec of the agent-log analysis (\<open>src/log_analysis/time.rs\<close>): epoch seconds and
  milliseconds, RFC 3339 and wall-clock timestamps are normalized to one fixed-width text.

  The constant regular expression is a function that gives its capture groups.  The numbers are \<open>i64\<close>
  in the code; the accepted texts have at most thirteen digits, so no operation on them leaves that
  range and they are \<open>int\<close> here.  The euclidean division of the code, and its plain division of
  non-negative numbers, are \<open>div\<close>.
\<close>

section \<open>Operations\<close>

definition fmt_dec_pad :: "nat \<Rightarrow> nat \<Rightarrow> str" where
  "fmt_dec_pad w n = replicate (w - length (fmt_dec n)) 48 @ fmt_dec n"

definition i64_max :: int where
  "i64_max = 2 ^ 63 - 1"

text \<open>\<open>str::parse::<i64>\<close> on a text of digits.\<close>

definition parse_digits :: "str \<Rightarrow> int option" where
  "parse_digits s =
     (if s = [] then None
      else case dec_value 0 s of
             None \<Rightarrow> None
           | Some n \<Rightarrow> if int n \<le> i64_max then Some (int n) else None)"

text \<open>The capture groups of \<open>DATE\<close>; the last five take part in a match only with a time of day.\<close>

record date_captures =
  dt_year :: str
  dt_month :: str
  dt_day :: str
  dt_hour :: "str option"
  dt_minute :: "str option"
  dt_second :: "str option"
  dt_fraction :: "str option"
  dt_zone :: "str option"

definition take_digits :: "nat \<Rightarrow> str \<Rightarrow> (str \<times> str) option" where
  "take_digits n s =
     (if n \<le> length s \<and> list_all is_ascii_digit (take n s) then Some (take n s, drop n s) else None)"

definition take_one :: "ch list \<Rightarrow> str \<Rightarrow> str option" where
  "take_one cs s = (case s of [] \<Rightarrow> None | c # r \<Rightarrow> if c \<in> set cs then Some r else None)"

definition zone_captures :: "str \<Rightarrow> str option option" where
  "zone_captures s =
     (if s = [] then Some None
      else if s = lit ''Z'' then Some (Some s)
      else do {
        r \<leftarrow> take_one (lit ''+-'') s;
        (_, r) \<leftarrow> take_digits 2 r;
        r \<leftarrow> take_one (lit '':'') r;
        (_, r) \<leftarrow> take_digits 2 r;
        if r = [] then Some (Some s) else None })"

definition fraction_captures :: "str \<Rightarrow> (str option \<times> str) option" where
  "fraction_captures s =
     (case take_one (lit ''.,'') s of
        None \<Rightarrow> Some (None, s)
      | Some r \<Rightarrow>
          let f = takeWhile is_ascii_digit r
          in if 1 \<le> length f \<and> length f \<le> 9 then Some (Some f, dropWhile is_ascii_digit r) else None)"

definition date_captures :: "str \<Rightarrow> date_captures option" where
  "date_captures s =
     do {
       (year, r) \<leftarrow> take_digits 4 s;
       r \<leftarrow> take_one (lit ''-'') r;
       (month, r) \<leftarrow> take_digits 2 r;
       r \<leftarrow> take_one (lit ''-'') r;
       (day, r) \<leftarrow> take_digits 2 r;
       if r = []
       then Some \<lparr> dt_year = year, dt_month = month, dt_day = day, dt_hour = None, dt_minute = None, dt_second = None,
                   dt_fraction = None, dt_zone = None \<rparr>
       else do {
         r \<leftarrow> take_one (lit ''T '') r;
         (hour, r) \<leftarrow> take_digits 2 r;
         r \<leftarrow> take_one (lit '':'') r;
         (minute, r) \<leftarrow> take_digits 2 r;
         r \<leftarrow> take_one (lit '':'') r;
         (second, r) \<leftarrow> take_digits 2 r;
         (fraction, r) \<leftarrow> fraction_captures r;
         zone \<leftarrow> zone_captures r;
         Some \<lparr> dt_year = year, dt_month = month, dt_day = day, dt_hour = Some hour, dt_minute = Some minute,
                dt_second = Some second, dt_fraction = fraction, dt_zone = zone \<rparr> } }"

definition optional_number :: "str option \<Rightarrow> int option" where
  "optional_number c = (case c of None \<Rightarrow> Some 0 | Some s \<Rightarrow> parse_digits s)"

definition is_leap :: "int \<Rightarrow> bool" where
  "is_leap year \<longleftrightarrow> year mod 4 = 0 \<and> (year mod 100 \<noteq> 0 \<or> year mod 400 = 0)"

definition days_in_month :: "int \<Rightarrow> int \<Rightarrow> int option" where
  "days_in_month year month =
     (if month = 2 then Some (if is_leap year then 29 else 28)
      else if month \<in> {4, 6, 9, 11} then Some 30
      else if month \<in> {1, 3, 5, 7, 8, 10, 12} then Some 31
      else None)"

definition days_of_date :: "int \<Rightarrow> int \<Rightarrow> int \<Rightarrow> int" where
  "days_of_date year month day =
     (let adjusted_year = year - (if month \<le> 2 then 1 else 0);
          era = adjusted_year div 400;
          yoe = adjusted_year - era * 400;
          shifted_month = month + (if 2 < month then - 3 else 9)
      in era * 146097 + yoe * 365 + yoe div 4 - yoe div 100 + (153 * shifted_month + 2) div 5 + day - 1 - 719468)"

definition zone_offset :: "str option \<Rightarrow> int option" where
  "zone_offset zone =
     (case zone of
        None \<Rightarrow> Some 0
      | Some z \<Rightarrow>
          if z = lit ''Z'' then Some 0
          else do {
            h \<leftarrow> Option.bind (byte_slice z 1 3) parse_digits;
            m \<leftarrow> Option.bind (byte_slice z 4 6) parse_digits;
            if h > 23 \<or> m > 59 then None
            else Some ((h * 60 + m) * 60 * (if starts_with (lit ''-'') z then - 1 else 1)) })"

definition millis_of_fraction :: "str option \<Rightarrow> int option" where
  "millis_of_fraction fraction =
     (let f = (case fraction of None \<Rightarrow> [] | Some f \<Rightarrow> f)
      in Option.bind (bytes_to 3 (f @ replicate (3 - length f) 48)) parse_digits)"

text \<open>The calendar date of a day, as \<open>format_epoch\<close> computes it.\<close>

definition date_of_days :: "int \<Rightarrow> int \<times> int \<times> int" where
  "date_of_days z =
     (let days = z + 719468;
          era = days div 146097;
          doe = days - era * 146097;
          yoe = (doe - doe div 1460 + doe div 36524 - doe div 146096) div 365;
          year = yoe + era * 400;
          doy = doe - (365 * yoe + yoe div 4 - yoe div 100);
          mp = (5 * doy + 2) div 153;
          day = doy - (153 * mp + 2) div 5 + 1;
          month = mp + (if mp < 10 then 3 else - 9)
      in (year + (if month \<le> 2 then 1 else 0), month, day))"

definition format_epoch :: "int \<Rightarrow> str option" where
  "format_epoch millis =
     (let seconds = millis div 1000;
          (year, month, day) = date_of_days (seconds div 86400)
      in if \<not> (0 \<le> year \<and> year \<le> 9999) then None
         else let within_day = seconds mod 86400
              in Some (fmt_dec_pad 4 (nat year) @ lit ''-'' @ fmt_dec_pad 2 (nat month) @ lit ''-'' @ fmt_dec_pad 2 (nat day) @
                   lit ''T'' @ fmt_dec_pad 2 (nat (within_day div 3600)) @ lit '':'' @
                   fmt_dec_pad 2 (nat (within_day div 60 mod 60)) @ lit '':'' @ fmt_dec_pad 2 (nat (within_day mod 60)) @
                   lit ''.'' @ fmt_dec_pad 3 (nat (millis mod 1000)) @ lit ''Z''))"

definition epoch_of_captures :: "date_captures \<Rightarrow> int option" where
  "epoch_of_captures c =
     do {
       year \<leftarrow> parse_digits (dt_year c);
       month \<leftarrow> parse_digits (dt_month c);
       day \<leftarrow> parse_digits (dt_day c);
       hour \<leftarrow> optional_number (dt_hour c);
       minute \<leftarrow> optional_number (dt_minute c);
       second \<leftarrow> optional_number (dt_second c);
       last_day \<leftarrow> days_in_month year month;
       if \<not> (1 \<le> day \<and> day \<le> last_day) \<or> 23 < hour \<or> 59 < minute \<or> 59 < second then None
       else do {
         offset \<leftarrow> zone_offset (dt_zone c);
         millis \<leftarrow> millis_of_fraction (dt_fraction c);
         Some ((days_of_date year month day * 86400 + hour * 3600 + minute * 60 + second - offset) * 1000 + millis) } }"

definition epoch_of_digits :: "str \<Rightarrow> int option" where
  "epoch_of_digits v =
     do {
       epoch \<leftarrow> parse_digits v;
       if length v = 10 then (if epoch * 1000 \<le> i64_max then Some (epoch * 1000) else None) else Some epoch }"

definition normalize_timestamp :: "str \<Rightarrow> str option" where
  "normalize_timestamp v =
     (if list_all is_ascii_digit v \<and> (length v = 10 \<or> length v = 13)
      then Option.bind (epoch_of_digits v) format_epoch
      else Option.bind (Option.bind (date_captures v) epoch_of_captures) format_epoch)"

section \<open>The calendar\<close>

text \<open>
  Years are counted from March.  \<open>year_start\<close> is the number of days before the first of March of a
  year, \<open>month_start\<close> the number of days from there to the start of a month.
\<close>

definition year_start :: "int \<Rightarrow> int" where
  "year_start y = 365 * y + y div 4 - y div 100 + y div 400"

definition month_start :: "int \<Rightarrow> int" where
  "month_start m = (153 * m + 2) div 5"

definition march_year_length :: "int \<Rightarrow> int" where
  "march_year_length y = (if is_leap (y + 1) then 366 else 365)"

lemma div_Suc_int:
  assumes "0 < (k::int)"
  shows "(y + 1) div k = y div k + (if (y + 1) mod k = 0 then 1 else 0)"
proof -
  have y: "y = k * (y div k) + y mod k" "0 \<le> y mod k" "y mod k < k" using assms by simp_all
  show ?thesis
  proof (cases "y mod k + 1 = k")
    case True
    then have "y + 1 = k * (y div k + 1) + 0" using y(1) unfolding distrib_left by linarith
    then have "(y + 1) div k = y div k + 1" "(y + 1) mod k = 0" using assms by (simp_all only: int_div_pos_eq int_mod_pos_eq order_refl)
    then show ?thesis by simp
  next
    case False
    then have "y + 1 = k * (y div k) + (y mod k + 1)" "0 \<le> y mod k + 1" "y mod k + 1 < k" using y by simp_all
    then have "(y + 1) div k = y div k" "(y + 1) mod k = y mod k + 1" by (rule int_div_pos_eq, rule int_mod_pos_eq)
    then show ?thesis using y(2) by simp
  qed
qed

lemma year_start_Suc: "year_start (y + 1) = year_start y + march_year_length y"
proof -
  have "(400::int) dvd y + 1 \<Longrightarrow> 100 dvd y + 1" "(100::int) dvd y + 1 \<Longrightarrow> 4 dvd y + 1"
    by (rule dvd_trans [of 100 400], simp_all, rule dvd_trans [of 4 100], simp_all)
  then have "(y + 1) mod 400 = 0 \<Longrightarrow> (y + 1) mod 100 = 0" "(y + 1) mod 100 = 0 \<Longrightarrow> (y + 1) mod 4 = 0"
    by (simp_all only: mod_eq_0_iff_dvd)
  note multiples = this
  have add: "\<lbrakk>A = y4 + (if p then 1 else 0); B = y100 + (if q then 1 else 0); C = y400 + (if r then 1 else 0); r \<Longrightarrow> q; q \<Longrightarrow> p\<rbrakk>
      \<Longrightarrow> 365 * (y + 1) + A - B + C = 365 * y + y4 - y100 + y400 + (if p \<and> (\<not> q \<or> r) then 366 else (365::int))"
    for A B C y4 y100 y400 p q r by (cases p; cases q; cases r) simp_all
  show ?thesis unfolding year_start_def march_year_length_def is_leap_def
    by (rule add [OF div_Suc_int div_Suc_int div_Suc_int multiples]) simp_all
qed

lemma year_start_mono: "a \<le> b \<Longrightarrow> year_start a \<le> year_start b"
proof (induction b rule: int_ge_induct)
  case (step i)
  then show ?case by (simp add: year_start_Suc march_year_length_def)
qed simp

lemma year_start_strict: "a < b \<Longrightarrow> year_start a + march_year_length a \<le> year_start b"
  using year_start_mono [of "a + 1" b] by (simp add: year_start_Suc)

lemma year_start_unique:
  assumes "year_start a \<le> z" "z < year_start a + march_year_length a" "year_start b \<le> z" "z < year_start b + march_year_length b"
  shows "a = b"
  using assms year_start_strict [of a b] year_start_strict [of b a] by (cases a b rule: linorder_cases) auto

text \<open>The year of a day within a cycle of 400 years, by monotonicity from its values at the ends of each year.\<close>

definition cycle_year :: "int \<Rightarrow> int" where
  "cycle_year doe = (doe - doe div 1460 + doe div 36524 - doe div 146096) div 365"

lemma cycle_year_mono: "0 \<le> a \<Longrightarrow> a \<le> b \<Longrightarrow> b < 146097 \<Longrightarrow> cycle_year a \<le> cycle_year b"
proof -
  assume ab: "0 \<le> a" "a \<le> b" "b < 146097"
  have "b - b div 1460 \<ge> a - a div 1460" using ab by linarith
  moreover have "b div 36524 - b div 146096 \<ge> a div 36524 - a div 146096"
  proof (cases "a = b")
    case False
    then have "a div 146096 = 0" "a div 36524 \<le> 3" using ab by simp_all
    moreover have "b div 36524 - b div 146096 = (if b = 146096 then 3 else b div 36524)" using ab by auto
    moreover have "a div 36524 \<le> b div 36524" using ab by (intro zdiv_mono1) simp_all
    ultimately show ?thesis by simp
  qed simp
  ultimately show ?thesis unfolding cycle_year_def by (intro zdiv_mono1) linarith+
qed

definition cycle_year_ok :: "int \<Rightarrow> bool" where
  "cycle_year_ok y \<longleftrightarrow> cycle_year (year_start y) = y \<and> cycle_year (year_start y + march_year_length y - 1) = y"

lemma cycle_years_checked: "list_all cycle_year_ok [0..399]"
  by code_simp

lemma cycle_year_in:
  assumes "0 \<le> y" "y < 400" "year_start y \<le> doe" "doe < year_start y + march_year_length y"
  shows "cycle_year doe = y"
proof -
  have ok: "cycle_year_ok y" using cycle_years_checked assms(1,2) by (simp add: list_all_iff)
  have le: "year_start 0 \<le> year_start y" "year_start (y + 1) \<le> year_start 400" using assms(1,2) by (intro year_start_mono; simp)+
  moreover have "year_start 0 = 0" "year_start 400 = 146097" by (simp_all add: year_start_def)
  ultimately have b: "0 \<le> year_start y" "year_start y + march_year_length y - 1 < 146097" by (simp_all add: year_start_Suc)
  have "cycle_year (year_start y) \<le> cycle_year doe" using assms b by (intro cycle_year_mono) simp_all
  moreover have "cycle_year doe \<le> cycle_year (year_start y + march_year_length y - 1)" using assms b by (intro cycle_year_mono) simp_all
  ultimately show ?thesis using ok by (simp add: cycle_year_ok_def)
qed

lemma year_start_cycle: "year_start (y + e * 400) = year_start y + e * 146097"
proof -
  have "(y + e * 400) div 4 = (y + (e * 100) * 4) div 4" "(y + e * 400) div 100 = (y + (e * 4) * 100) div 100" by (simp_all add: ac_simps)
  then have "(y + e * 400) div 4 = y div 4 + e * 100" "(y + e * 400) div 100 = y div 100 + e * 4"
    by (simp_all only: div_mult_self1 zero_neq_numeral [symmetric] not_False_eq_True add.commute)
  moreover have "(y + e * 400) div 400 = y div 400 + e" by simp
  ultimately show ?thesis by (simp add: year_start_def)
qed

lemma year_containing:
  assumes "0 \<le> n" "year_start 0 \<le> z" "z < year_start n"
  shows "\<exists>y. 0 \<le> y \<and> y < n \<and> year_start y \<le> z \<and> z < year_start y + march_year_length y"
  using assms
proof (induction n rule: int_ge_induct)
  case (step n)
  then show ?case
  proof (cases "z < year_start n")
    case True
    then show ?thesis using step by fastforce
  next
    case False
    then show ?thesis using step by (intro exI [of _ n]) (simp add: year_start_Suc)
  qed
qed simp

lemma month_of_day_iff: "(5 * r + 2) div 153 = m \<longleftrightarrow> month_start m \<le> r \<and> r < month_start (m + 1)"
proof -
  have "5 * month_start m \<le> 153 * m + 2" "153 * m + 2 < 5 * month_start m + 5"
    unfolding month_start_def by linarith+
  moreover have "month_start (m + 1) = (153 * m + 155) div 5" by (simp add: month_start_def algebra_simps)
  then have "5 * month_start (m + 1) \<le> 153 * m + 155" "153 * m + 155 < 5 * month_start (m + 1) + 5" by linarith+
  moreover have "(5 * r + 2) div 153 = m \<longleftrightarrow> 153 * m \<le> 5 * r + 2 \<and> 5 * r + 2 < 153 * m + 153" by linarith
  ultimately show ?thesis by linarith
qed

text \<open>Dates of a year counted from March: the year, the month from zero and the day of the year.\<close>

definition march_date :: "int \<Rightarrow> int \<Rightarrow> int \<times> int \<times> int" where
  "march_date y r =
     (let mp = (5 * r + 2) div 153
      in (y + (if mp < 10 then 0 else 1), mp + (if mp < 10 then 3 else - 9), r - month_start mp + 1))"

lemma date_of_days_march:
  assumes "year_start y \<le> z + 719468" "z + 719468 < year_start y + march_year_length y"
  shows "date_of_days z = march_date y (z + 719468 - year_start y)"
proof -
  define e where "e = y div 400"
  define yoe where "yoe = y mod 400"
  have y: "y = yoe + e * 400" "0 \<le> yoe" "yoe < 400" unfolding e_def yoe_def by simp_all
  have ys: "year_start y = year_start yoe + e * 146097" using year_start_cycle [of yoe e] y(1) by simp
  have len: "march_year_length y = march_year_length yoe"
  proof -
    have "y + 1 = (yoe + 1) + e * 400" using y(1) by simp
    then have "year_start (y + 1) = year_start (yoe + 1) + e * 146097" by (simp only: year_start_cycle)
    then show ?thesis using ys by (simp add: year_start_Suc)
  qed
  define doe where "doe = z + 719468 - e * 146097"
  have doe: "year_start yoe \<le> doe" "doe < year_start yoe + march_year_length yoe" using assms ys len by (simp_all add: doe_def)
  have "year_start 0 \<le> year_start yoe" "year_start (yoe + 1) \<le> year_start 400" using y(2,3) by (intro year_start_mono; simp)+
  moreover have "year_start 0 = 0" "year_start 400 = 146097" by (simp_all add: year_start_def)
  ultimately have "0 \<le> doe" "doe < 146097" using doe year_start_Suc [of yoe] by linarith+
  then have era: "(z + 719468) div 146097 = e" unfolding doe_def by linarith
  have cy: "(doe - doe div 1460 + doe div 36524 - doe div 146096) div 365 = yoe"
    using cycle_year_in [OF y(2,3) doe] by (simp add: cycle_year_def)
  have doy: "doe - (365 * yoe + yoe div 4 - yoe div 100) = z + 719468 - year_start y"
    using ys y by (simp add: doe_def year_start_def)
  define r where "r = z + 719468 - year_start y"
  define mp where "mp = (5 * r + 2) div 153"
  have "0 \<le> r" using assms by (simp add: r_def)
  moreover have "r < 366" using assms(2) by (simp add: r_def march_year_length_def split: if_splits)
  ultimately have mp0: "0 \<le> mp" "mp \<le> 11" unfolding mp_def by linarith+
  show ?thesis
    unfolding date_of_days_def Let_def era doe_def [symmetric] cy doy march_date_def r_def [symmetric] mp_def [symmetric] month_start_def
    using y(1) mp0 by auto
qed

lemma days_of_date_march:
  "days_of_date y m d =
     year_start (y - (if m \<le> 2 then 1 else 0)) + month_start (m + (if 2 < m then - 3 else 9)) + d - 1 - 719468"
proof -
  define a where "a = y - (if m \<le> 2 then 1 else 0)"
  have "year_start a = year_start (a - a div 400 * 400) + a div 400 * 146097"
    using year_start_cycle [of "a - a div 400 * 400" "a div 400"] by simp
  moreover have "(a - a div 400 * 400) div 400 = 0" by simp
  ultimately show ?thesis unfolding days_of_date_def Let_def a_def [symmetric] month_start_def
    by (simp add: year_start_def [of "a - a div 400 * 400"])
qed

definition valid_date :: "int \<Rightarrow> int \<Rightarrow> int \<Rightarrow> bool" where
  "valid_date y m d \<longleftrightarrow> (case days_in_month y m of None \<Rightarrow> False | Some l \<Rightarrow> 1 \<le> d \<and> d \<le> l)"

lemma valid_date_march:
  fixes y m d :: int
  assumes "m \<in> {1, 2, 3, 4, 5, 6, 7, 8, 9, 10, 11, 12}"
  defines "mp \<equiv> m + (if 2 < m then - 3 else 9)" and "a \<equiv> y - (if m \<le> 2 then 1 else 0)"
  shows "valid_date y m d \<longleftrightarrow> 1 \<le> d \<and> month_start mp + d - 1 < month_start (mp + 1) \<and> month_start mp + d - 1 < march_year_length a"
  using assms(1) unfolding mp_def a_def
  by (elim insertE) (simp_all add: valid_date_def days_in_month_def month_start_def march_year_length_def, auto)

lemma date_of_days_of_date:
  assumes "valid_date y m d"
  shows "date_of_days (days_of_date y m d) = (y, m, d)"
proof -
  define mp where "mp = m + (if 2 < m then - 3 else 9)"
  define a where "a = y - (if m \<le> 2 then 1 else 0)"
  define r where "r = month_start mp + d - 1"
  have m: "m \<in> {1, 2, 3, 4, 5, 6, 7, 8, 9, 10, 11, 12}"
    using assms by (auto simp: valid_date_def days_in_month_def split: if_splits)
  have b: "1 \<le> d" "r < month_start (mp + 1)" "r < march_year_length a"
    using valid_date_march [OF m, of y d] assms by (simp_all add: mp_def a_def r_def)
  have mp: "0 \<le> mp" "mp \<le> 11" using m by (auto simp: mp_def)
  then have "0 \<le> month_start mp" by (simp add: month_start_def)
  then have r: "0 \<le> r" "month_start mp \<le> r" using b(1) by (simp_all add: r_def)
  have z: "days_of_date y m d + 719468 = year_start a + r"
    by (simp add: days_of_date_march mp_def a_def r_def)
  have "(5 * r + 2) div 153 = mp" using month_of_day_iff r b(2) by blast
  then show ?thesis
    using date_of_days_march [of a "days_of_date y m d"] z r b m
    by (auto simp: march_date_def r_def mp_def a_def)
qed

lemma days_of_date_of_days:
  assumes "date_of_days z = (y, m, d)"
  shows "valid_date y m d" "days_of_date y m d = z"
proof -
  define e where "e = (z + 719468) div 146097"
  define doe where "doe = (z + 719468) mod 146097"
  have "year_start 0 = 0" "year_start 400 = 146097" by (simp_all add: year_start_def)
  moreover have "0 \<le> doe" "doe < 146097" by (simp_all add: doe_def)
  ultimately obtain yoe where yoe: "0 \<le> yoe" "yoe < 400" "year_start yoe \<le> doe" "doe < year_start (yoe + 1)"
    using year_containing [of 400 doe] by (auto simp: year_start_Suc)
  define a where "a = yoe + e * 400"
  have z: "z + 719468 = doe + e * 146097" by (simp add: e_def doe_def)
  have ya: "year_start a = year_start yoe + e * 146097" "year_start (a + 1) = year_start (yoe + 1) + e * 146097"
    using year_start_cycle [of yoe e] year_start_cycle [of "yoe + 1" e] by (simp_all add: a_def ac_simps)
  then have za: "year_start a \<le> z + 719468" "z + 719468 < year_start a + march_year_length a"
    using yoe z year_start_Suc [of a] by simp_all
  define r where "r = z + 719468 - year_start a"
  have r: "0 \<le> r" "r < march_year_length a" using za by (simp_all add: r_def)
  define mp where "mp = (5 * r + 2) div 153"
  have "r < 366" using r(2) by (simp add: march_year_length_def split: if_splits)
  then have mp: "0 \<le> mp" "mp \<le> 11" using r(1) unfolding mp_def by linarith+
  have ms: "month_start mp \<le> r" "r < month_start (mp + 1)" using month_of_day_iff [of r mp] mp_def by blast+
  have d: "y = a + (if mp < 10 then 0 else 1)" "m = mp + (if mp < 10 then 3 else - 9)" "d = r - month_start mp + 1"
    using assms date_of_days_march [OF za] by (simp_all add: march_date_def Let_def r_def [symmetric] mp_def [symmetric])
  have m: "m \<in> {1, 2, 3, 4, 5, 6, 7, 8, 9, 10, 11, 12}"
    using mp unfolding d(2) insert_iff empty_iff by presburger
  have undo: "m + (if 2 < m then - 3 else 9) = mp" "y - (if m \<le> 2 then 1 else 0) = a" using mp d(1,2) by auto
  show "valid_date y m d" using valid_date_march [OF m, of y d] ms r(2) d(3) by (simp add: undo)
  show "days_of_date y m d = z" using d(3) by (simp add: days_of_date_march undo r_def)
qed

text \<open>The calendar, one day after another.\<close>

fun next_date :: "int \<times> int \<times> int \<Rightarrow> int \<times> int \<times> int" where
  "next_date (y, m, d) =
     (if days_in_month y m \<noteq> Some d then (y, m, d + 1) else if m < 12 then (y, m + 1, 1) else (y + 1, 1, 1))"

lemma next_date_days:
  assumes "valid_date y m d"
  shows "case next_date (y, m, d) of (y', m', d') \<Rightarrow> valid_date y' m' d' \<and> days_of_date y' m' d' = days_of_date y m d + 1"
proof -
  have "m \<in> {1, 2, 3, 4, 5, 6, 7, 8, 9, 10, 11, 12}"
    using assms by (auto simp: valid_date_def days_in_month_def split: if_splits)
  moreover have "year_start y = year_start (y - 1) + march_year_length (y - 1)" using year_start_Suc [of "y - 1"] by simp
  ultimately show ?thesis using assms
    by (elim insertE)
      (simp_all add: valid_date_def days_in_month_def days_of_date_march month_start_def march_year_length_def split: if_splits)
qed

lemma days_of_date_bounds:
  assumes "valid_date y m d"
  shows "year_start (y - 1) + 306 \<le> days_of_date y m d + 719468" "days_of_date y m d + 719468 < year_start y + 306"
proof -
  have "m \<in> {1, 2, 3, 4, 5, 6, 7, 8, 9, 10, 11, 12}"
    using assms by (auto simp: valid_date_def days_in_month_def split: if_splits)
  moreover have "year_start y = year_start (y - 1) + march_year_length (y - 1)" using year_start_Suc [of "y - 1"] by simp
  ultimately have "year_start (y - 1) + 306 \<le> days_of_date y m d + 719468 \<and> days_of_date y m d + 719468 < year_start y + 306"
    using assms
    by (elim insertE)
      (simp_all add: valid_date_def days_in_month_def days_of_date_march month_start_def march_year_length_def split: if_splits)
  then show "year_start (y - 1) + 306 \<le> days_of_date y m d + 719468" "days_of_date y m d + 719468 < year_start y + 306"
    by blast+
qed

lemma days_of_date_mono_day: "d < d' \<Longrightarrow> days_of_date y m d < days_of_date y m d'"
  by (simp add: days_of_date_march)

lemma days_of_date_next_month:
  assumes "valid_date y m d" "m < 12"
  shows "days_of_date y m d < days_of_date y (m + 1) 1"
proof -
  have "m \<in> {1, 2, 3, 4, 5, 6, 7, 8, 9, 10, 11, 12}"
    using assms by (auto simp: valid_date_def days_in_month_def split: if_splits)
  moreover have "year_start y = year_start (y - 1) + march_year_length (y - 1)" using year_start_Suc [of "y - 1"] by simp
  ultimately show ?thesis using assms
    by (elim insertE)
      (simp_all add: valid_date_def days_in_month_def days_of_date_march month_start_def march_year_length_def split: if_splits)
qed

lemma valid_first_day: "1 \<le> m \<Longrightarrow> m \<le> 12 \<Longrightarrow> valid_date y m 1"
  by (simp add: valid_date_def days_in_month_def) presburger

lemma days_of_date_later_month:
  assumes "valid_date y m d" "m + 1 \<le> m'" "m' \<le> 12"
  shows "days_of_date y m d < days_of_date y m' 1"
  using assms(2,3)
proof (induction m' rule: int_ge_induct)
  case base
  then show ?case using days_of_date_next_month [OF assms(1)] by simp
next
  case (step i)
  have "1 \<le> m" using assms(1) by (auto simp: valid_date_def days_in_month_def split: if_splits)
  then have "days_of_date y i 1 < days_of_date y (i + 1) 1"
    using step by (intro days_of_date_next_month valid_first_day) simp_all
  then show ?case using step by simp
qed

lemma days_of_date_mono:
  assumes "valid_date y m d" "valid_date y' m' d'" "(y, m, d) < (y', m', d')"
  shows "days_of_date y m d < days_of_date y' m' d'"
proof -
  have v': "1 \<le> d'" "m' \<le> 12" using assms(2) by (auto simp: valid_date_def days_in_month_def split: if_splits)
  from assms(3) consider "y < y'" | "y = y'" "m < m'" | "y = y'" "m = m'" "d < d'" by (auto simp: le_less)
  then show ?thesis
  proof cases
    case 1
    then have "year_start y \<le> year_start (y' - 1)" by (intro year_start_mono) simp
    then show ?thesis using days_of_date_bounds(2) [OF assms(1)] days_of_date_bounds(1) [OF assms(2)] by simp
  next
    case 2
    then have "days_of_date y m d < days_of_date y m' 1" using days_of_date_later_month [OF assms(1)] v'(2) by simp
    then show ?thesis using v'(1) 2(1) by (simp add: days_of_date_march)
  next
    case 3
    then show ?thesis by (simp add: days_of_date_march)
  qed
qed

section \<open>Numbers of fixed width\<close>

lemma fmt_dec_pad_Suc:
  assumes "1 \<le> w"
  shows "fmt_dec_pad (Suc w) n = fmt_dec_pad w (n div 10) @ [digit_ch (n mod 10)]"
proof (cases "n < 10")
  case True
  then have "fmt_dec n = [digit_ch n]" "fmt_dec (n div 10) = [48]" by (simp_all add: fmt_radix_small digit_ch_def)
  moreover have "replicate w (48::nat) = replicate (w - 1) 48 @ [48]"
    using assms by (metis Suc_pred' less_eq_Suc_le One_nat_def replicate_append_same replicate_Suc)
  ultimately show ?thesis using True by (simp add: fmt_dec_pad_def)
next
  case False
  then have "fmt_dec n = fmt_dec (n div 10) @ [digit_ch (n mod 10)]" by (subst fmt_radix.simps) simp
  then show ?thesis by (simp add: fmt_dec_pad_def)
qed

lemma length_fmt_dec_pad: "1 \<le> w \<Longrightarrow> n < 10 ^ w \<Longrightarrow> length (fmt_dec_pad w n) = w"
proof (induction w arbitrary: n rule: nat_induct_at_least)
  case base
  then show ?case by (simp add: fmt_dec_pad_def fmt_radix_small)
next
  case (Suc w)
  then show ?case by (simp add: fmt_dec_pad_Suc less_mult_imp_div_less mult.commute)
qed

lemma fmt_dec_pad_digits: "list_all is_ascii_digit (fmt_dec_pad w n)"
  using fmt_dec_digits by (auto simp: fmt_dec_pad_def list_all_iff is_ascii_digit_def)

lemma dec_value_zeros: "dec_value 0 (replicate k 48 @ s) = dec_value 0 s"
  by (induction k) (simp_all add: is_ascii_digit_def)

lemma dec_value_fmt_dec_pad: "dec_value 0 (fmt_dec_pad w n) = Some n"
  by (simp add: fmt_dec_pad_def dec_value_zeros dec_value_fmt_dec)

lemma fmt_dec_pad_inj: "fmt_dec_pad w n = fmt_dec_pad w m \<longleftrightarrow> n = m"
  by (metis dec_value_fmt_dec_pad option.inject)

lemma list_less_append:
  "length a = length b \<Longrightarrow> a @ x < b @ (y :: 'a::linorder list) \<longleftrightarrow> a < b \<or> a = b \<and> x < y"
  by (induction a b rule: list_induct2) auto

lemma div_mod_less: "n < m \<longleftrightarrow> n div 10 < m div 10 \<or> n div 10 = m div 10 \<and> n mod 10 < m mod (10::nat)"
proof -
  have "n = n div 10 * 10 + n mod 10" "m = m div 10 * 10 + m mod 10" "n mod 10 < 10" "m mod 10 < 10" by simp_all
  then show ?thesis by (cases "n div 10" "m div 10" rule: linorder_cases) linarith+
qed

lemma fmt_dec_pad_less:
  "1 \<le> w \<Longrightarrow> n < 10 ^ w \<Longrightarrow> m < 10 ^ w \<Longrightarrow> fmt_dec_pad w n < fmt_dec_pad w m \<longleftrightarrow> n < m"
proof (induction w arbitrary: n m rule: nat_induct_at_least)
  case base
  then show ?case by (simp add: fmt_dec_pad_def fmt_radix_small digit_ch_def)
next
  case (Suc w)
  have b: "n div 10 < 10 ^ w" "m div 10 < 10 ^ w" using Suc.prems by (simp_all add: less_mult_imp_div_less mult.commute)
  have d: "digit_ch (n mod 10) < digit_ch (m mod 10) \<longleftrightarrow> n mod 10 < m mod 10" by (simp add: digit_ch_def)
  have "n < m \<longleftrightarrow> n div 10 < m div 10 \<or> n div 10 = m div 10 \<and> n mod 10 < m mod 10" by (rule div_mod_less)
  then show ?case using Suc.hyps Suc.IH [OF b] b d
    by (simp add: fmt_dec_pad_Suc list_less_append length_fmt_dec_pad fmt_dec_pad_inj)
qed

section \<open>The fields of an instant\<close>

text \<open>The numbers that \<open>format_epoch\<close> prints, and the text they make.\<close>

definition time_fields :: "int \<Rightarrow> nat \<times> nat \<times> nat \<times> nat" where
  "time_fields millis =
     (let within_day = millis div 1000 mod 86400
      in (nat (within_day div 3600), nat (within_day div 60 mod 60), nat (within_day mod 60), nat (millis mod 1000)))"

definition stamp_text :: "nat \<times> nat \<times> nat \<Rightarrow> nat \<times> nat \<times> nat \<times> nat \<Rightarrow> str" where
  "stamp_text = (\<lambda>(year, month, day) (hour, minute, second, millis).
     fmt_dec_pad 4 year @ lit ''-'' @ fmt_dec_pad 2 month @ lit ''-'' @ fmt_dec_pad 2 day @
     lit ''T'' @ fmt_dec_pad 2 hour @ lit '':'' @ fmt_dec_pad 2 minute @ lit '':'' @ fmt_dec_pad 2 second @
     lit ''.'' @ fmt_dec_pad 3 millis @ lit ''Z'')"

lemma format_epoch_Some:
  assumes "format_epoch e = Some s"
  obtains year month day where "date_of_days (e div 1000 div 86400) = (int year, int month, int day)"
    "year < 10 ^ 4" "valid_date (int year) (int month) (int day)"
    "s = stamp_text (year, month, day) (time_fields e)"
proof -
  obtain y m d where dt: "date_of_days (e div 1000 div 86400) = (y, m, d)" by (metis prod_cases3)
  note v = days_of_date_of_days(1) [OF dt]
  then have "1 \<le> m" "1 \<le> d" by (auto simp: valid_date_def days_in_month_def split: if_splits)
  moreover from assms dt have "0 \<le> y" "y \<le> 9999" "s = stamp_text (nat y, nat m, nat d) (time_fields e)"
    by (auto simp: format_epoch_def stamp_text_def time_fields_def Let_def split: if_splits)
  ultimately show ?thesis using that [of "nat y" "nat m" "nat d"] dt v by simp
qed

lemma valid_date_small: "valid_date y (int m) (int d) \<Longrightarrow> m < 10 ^ 2 \<and> d < 10 ^ 2"
  by (auto simp: valid_date_def days_in_month_def split: if_splits)

lemma time_fields_bounds:
  assumes "time_fields e = (h, mi, sc, ms)"
  shows "h < 24" "mi < 60" "sc < 60" "ms < 1000"
    "e = ((e div 1000 div 86400 * 86400 + int h * 3600 + int mi * 60 + int sc) * 1000 + int ms)"
proof -
  define w where "w = e div 1000 mod 86400"
  have w: "0 \<le> w" "w < 86400" by (simp_all add: w_def)
  have f: "h = nat (w div 3600)" "mi = nat (w div 60 mod 60)" "sc = nat (w mod 60)" "ms = nat (e mod 1000)"
    using assms by (simp_all add: time_fields_def Let_def w_def)
  have i: "int h = w div 3600" "int mi = w div 60 mod 60" "int sc = w mod 60" "int ms = e mod 1000"
    using w by (simp_all add: f pos_imp_zdiv_nonneg_iff)
  show "h < 24" using i(1) w by linarith
  show "mi < 60" "sc < 60" "ms < 1000" using i pos_mod_bound [of 60 "w div 60"] pos_mod_bound [of 60 w] pos_mod_bound [of 1000 e] by linarith+
  have "w div 3600 = w div 60 div 60" by (simp add: zdiv_zmult2_eq [symmetric])
  then have split: "w = (w div 3600 * 60 + w div 60 mod 60) * 60 + w mod 60" by (simp only: div_mult_mod_eq)
  have sum: "\<lbrakk>x = E * 1000 + f; E = D * 86400 + v; v = (a * 60 + b) * 60 + c\<rbrakk>
      \<Longrightarrow> x = (D * 86400 + a * 3600 + b * 60 + c) * 1000 + f" for x E f D v a b c :: int by simp
  show "e = ((e div 1000 div 86400 * 86400 + int h * 3600 + int mi * 60 + int sc) * 1000 + int ms)"
    unfolding i by (rule sum [OF _ _ split]) (simp_all only: w_def div_mult_mod_eq)
qed

lemma stamp_text_less:
  assumes "year < 10 ^ 4" "month < 10 ^ 2" "day < 10 ^ 2" "hour < 24" "minute < 60" "second < 60" "ms < 1000"
    "year' < 10 ^ 4" "month' < 10 ^ 2" "day' < 10 ^ 2" "hour' < 24" "minute' < 60" "second' < 60" "ms' < 1000"
  shows "stamp_text (year, month, day) (hour, minute, second, ms) < stamp_text (year', month', day') (hour', minute', second', ms')
    \<longleftrightarrow> (year, month, day, hour, minute, second, ms) < (year', month', day', hour', minute', second', ms')"
  using assms by (simp add: stamp_text_def list_less_append length_fmt_dec_pad fmt_dec_pad_less fmt_dec_pad_inj less_le_not_le [symmetric] le_less) metis

lemma later_days_date:
  assumes "date_of_days a = (y, m, d)" "date_of_days b = (y', m', d')" "a < b"
  shows "(y, m, d) < (y', m', d')"
proof -
  note A = days_of_date_of_days [OF assms(1)] and B = days_of_date_of_days [OF assms(2)]
  have "(y, m, d) \<noteq> (y', m', d')" using A(2) B(2) assms(3) by auto
  moreover have "\<not> (y', m', d') < (y, m, d)" using days_of_date_mono [OF B(1) A(1)] A(2) B(2) assms(3) by auto
  ultimately show ?thesis by (meson linorder_neqE)
qed

lemma later_time_fields:
  assumes "time_fields a = (h, mi, sc, ms)" "time_fields b = (h', mi', sc', ms')"
    and "a div 1000 div 86400 = b div 1000 div 86400" "a < b"
  shows "(h, mi, sc, ms) < (h', mi', sc', ms')"
proof (rule ccontr)
  assume neg: "\<not> (h, mi, sc, ms) < (h', mi', sc', ms')"
  then consider "h' < h" | "h = h'" "mi' < mi" | "h = h'" "mi = mi'" "sc' < sc" | "h = h'" "mi = mi'" "sc = sc'" "ms' \<le> ms"
    by (auto simp: le_less not_less)
  moreover have "int ((h * 3600 + mi * 60 + sc) * 1000 + ms) < int ((h' * 3600 + mi' * 60 + sc') * 1000 + ms')"
  proof -
    have "(int h * 3600 + int mi * 60 + int sc) * 1000 + int ms < (int h' * 3600 + int mi' * 60 + int sc') * 1000 + int ms'"
    proof -
      have cmp: "\<lbrakk>u = (D * 86400 + p + q + r) * 1000 + f; v = (D' * 86400 + p' + q' + r') * 1000 + f'; D = D'; u < v\<rbrakk>
        \<Longrightarrow> (p + q + r) * 1000 + f < (p' + q' + r') * 1000 + f'" for u v D D' p q r f p' q' r' f' :: int by simp
      show ?thesis by (rule cmp [OF time_fields_bounds(5) [OF assms(1)] time_fields_bounds(5) [OF assms(2)] assms(3,4)])
    qed
    then show ?thesis by simp
  qed
  then have "(h * 3600 + mi * 60 + sc) * 1000 + ms < (h' * 3600 + mi' * 60 + sc') * 1000 + ms'" by (simp only: of_nat_less_iff)
  ultimately show False using time_fields_bounds(1-4) [OF assms(1)] time_fields_bounds(1-4) [OF assms(2)]
    by cases (simp_all add: algebra_simps)
qed

lemma format_epoch_less:
  assumes "format_epoch a = Some s" "format_epoch b = Some t" "a < b"
  shows "s < t"
proof -
  obtain y m d where A: "date_of_days (a div 1000 div 86400) = (int y, int m, int d)" "y < 10 ^ 4"
    "valid_date (int y) (int m) (int d)" "s = stamp_text (y, m, d) (time_fields a)" using format_epoch_Some [OF assms(1)] .
  obtain y' m' d' where B: "date_of_days (b div 1000 div 86400) = (int y', int m', int d')" "y' < 10 ^ 4"
    "valid_date (int y') (int m') (int d')" "t = stamp_text (y', m', d') (time_fields b)" using format_epoch_Some [OF assms(2)] .
  obtain h mi sc ms where ta: "time_fields a = (h, mi, sc, ms)" by (metis prod_cases4)
  obtain h' mi' sc' ms' where tb: "time_fields b = (h', mi', sc', ms')" by (metis prod_cases4)
  have le: "a div 1000 div 86400 \<le> b div 1000 div 86400" using assms(3) by (intro zdiv_mono1) simp_all
  have "(y, m, d, h, mi, sc, ms) < (y', m', d', h', mi', sc', ms')"
  proof (cases "a div 1000 div 86400 = b div 1000 div 86400")
    case True
    then show ?thesis using later_time_fields [OF ta tb True assms(3)] A(1) B(1) by simp
  next
    case False
    then have "(int y, int m, int d) < (int y', int m', int d')" using le later_days_date [OF A(1) B(1)] by simp
    then show ?thesis by (auto simp: le_less)
  qed
  then show ?thesis
    using stamp_text_less [of y m d h mi sc ms y' m' d' h' mi' sc' ms'] A B ta tb
      valid_date_small [OF A(3)] valid_date_small [OF B(3)] time_fields_bounds(1-4) [OF ta] time_fields_bounds(1-4) [OF tb]
    by simp
qed

section \<open>Reading a normalized text back\<close>

lemma take_digits_pad: "1 \<le> w \<Longrightarrow> n < 10 ^ w \<Longrightarrow> take_digits w (fmt_dec_pad w n @ r) = Some (fmt_dec_pad w n, r)"
  using fmt_dec_pad_digits [of w n] by (simp add: take_digits_def length_fmt_dec_pad)

lemma parse_digits_pad: "n < 10000 \<Longrightarrow> parse_digits (fmt_dec_pad w n) = Some (int n)"
proof -
  have "fmt_dec_pad w n \<noteq> []" by (simp add: fmt_dec_pad_def)
  then show "n < 10000 \<Longrightarrow> parse_digits (fmt_dec_pad w n) = Some (int n)"
    by (simp add: parse_digits_def dec_value_fmt_dec_pad i64_max_def)
qed

lemma fraction_captures_pad:
  assumes "n < 10 ^ 3"
  shows "fraction_captures (46 # fmt_dec_pad 3 n @ [90]) = Some (Some (fmt_dec_pad 3 n), [90])"
proof -
  have "list_all is_ascii_digit (fmt_dec_pad 3 n)" "length (fmt_dec_pad 3 n) = 3" "\<not> is_ascii_digit 90"
    using fmt_dec_pad_digits assms by (simp_all add: length_fmt_dec_pad is_ascii_digit_def)
  then have "takeWhile is_ascii_digit (fmt_dec_pad 3 n @ [90]) = fmt_dec_pad 3 n" "dropWhile is_ascii_digit (fmt_dec_pad 3 n @ [90]) = [90]"
    by (simp_all add: takeWhile_append dropWhile_append list_all_iff)
  then show ?thesis using assms by (simp add: fraction_captures_def take_one_def length_fmt_dec_pad)
qed

lemma date_captures_stamp:
  assumes "year < 10 ^ 4" "month < 10 ^ 2" "day < 10 ^ 2" "hour < 24" "minute < 60" "second < 60" "ms < 1000"
  shows "date_captures (stamp_text (year, month, day) (hour, minute, second, ms)) =
    Some \<lparr> dt_year = fmt_dec_pad 4 year, dt_month = fmt_dec_pad 2 month, dt_day = fmt_dec_pad 2 day,
           dt_hour = Some (fmt_dec_pad 2 hour), dt_minute = Some (fmt_dec_pad 2 minute), dt_second = Some (fmt_dec_pad 2 second),
           dt_fraction = Some (fmt_dec_pad 3 ms), dt_zone = Some (lit ''Z'') \<rparr>"
  using assms fraction_captures_pad [of ms]
  by (simp add: date_captures_def stamp_text_def take_digits_pad take_one_def zone_captures_def)

lemma epoch_of_stamp:
  assumes "time_fields e = (hour, minute, second, ms)" "year < 10 ^ 4" "valid_date (int year) (int month) (int day)"
    "date_of_days (e div 1000 div 86400) = (int year, int month, int day)"
  shows "Option.bind (date_captures (stamp_text (year, month, day) (time_fields e))) epoch_of_captures = Some e"
proof -
  note f = time_fields_bounds [OF assms(1)]
  note md = valid_date_small [OF assms(3)]
  have days: "days_of_date (int year) (int month) (int day) = e div 1000 div 86400" using days_of_date_of_days(2) [OF assms(4)] .
  obtain l where l: "days_in_month (int year) (int month) = Some l" "1 \<le> day" "int day \<le> l"
    using assms(3) by (auto simp: valid_date_def split: option.splits)
  have len: "length (fmt_dec_pad 3 ms) = 3" using f(4) by (simp add: length_fmt_dec_pad)
  have "\<And>c. c \<in> set (fmt_dec_pad 3 ms) \<Longrightarrow> c < 128" using fmt_dec_pad_digits [of 3 ms] by (auto simp: list_all_iff is_ascii_digit_def)
  then have "bytes_to 3 (fmt_dec_pad 3 ms) = Some (fmt_dec_pad 3 ms)"
    using str_len_ascii len by (auto simp: bytes_to_Some)
  then have ms: "millis_of_fraction (Some (fmt_dec_pad 3 ms)) = Some (int ms)" using len f(4) by (simp add: millis_of_fraction_def parse_digits_pad)
  have e: "(e div 1000 div 86400 * 86400 + int hour * 3600 + int minute * 60 + int second - 0) * 1000 + int ms = e"
    using f(5) by simp
  show ?thesis
    using date_captures_stamp [OF assms(2) conjunct1 [OF md] conjunct2 [OF md] f(1-4)] assms(1,2) md f(1-4) l days ms e
    by (simp add: epoch_of_captures_def optional_number_def parse_digits_pad zone_offset_def)
qed

lemma stamp_text_no_epoch: "\<not> list_all is_ascii_digit (stamp_text d t)"
  by (cases d; cases t) (simp add: stamp_text_def is_ascii_digit_def)

lemma normalize_format_epoch:
  assumes "format_epoch e = Some s"
  shows "normalize_timestamp s = Some s" "length s = 24"
proof -
  obtain y m d where A: "date_of_days (e div 1000 div 86400) = (int y, int m, int d)" "y < 10 ^ 4"
    "valid_date (int y) (int m) (int d)" "s = stamp_text (y, m, d) (time_fields e)" using format_epoch_Some [OF assms] .
  obtain h mi sc ms where t: "time_fields e = (h, mi, sc, ms)" by (metis prod_cases4)
  show "normalize_timestamp s = Some s"
    using epoch_of_stamp [OF t A(2,3,1)] stamp_text_no_epoch [of "(y, m, d)" "time_fields e"] assms
    by (simp add: normalize_timestamp_def A(4) [symmetric])
  show "length s = 24" using A(2) valid_date_small [OF A(3)] time_fields_bounds(1-4) [OF t]
    by (simp add: A(4) t stamp_text_def length_fmt_dec_pad)
qed

lemma normalize_is_format:
  "normalize_timestamp v = Some s \<Longrightarrow> \<exists>e. format_epoch e = Some s"
  by (auto simp: normalize_timestamp_def bind_eq_Some_conv split: if_splits)

section \<open>Properties\<close>

text \<open>
  The calendar of \<open>format_epoch\<close> is the Gregorian calendar, for every day without bound: day zero is the first
  of January 1970, the date of the following day is the following date, and the day number computed from a date by
  \<open>normalize_timestamp\<close> is the inverse.
\<close>

lemma calendar_correct:
  "date_of_days 0 = (1970, 1, 1) \<and> date_of_days (z + 1) = next_date (date_of_days z) \<and>
   (case date_of_days z of (y, m, d) \<Rightarrow> valid_date y m d \<and> days_of_date y m d = z) \<and>
   (valid_date year month day \<longrightarrow> date_of_days (days_of_date year month day) = (year, month, day))"
proof -
  obtain y m d where dt: "date_of_days z = (y, m, d)" by (metis prod_cases3)
  note v = days_of_date_of_days [OF dt]
  obtain y' m' d' where n: "next_date (y, m, d) = (y', m', d')" by (metis prod_cases3)
  have "valid_date y' m' d'" "days_of_date y' m' d' = z + 1" using next_date_days [OF v(1)] n v(2) by simp_all
  then have "date_of_days (z + 1) = next_date (date_of_days z)" using date_of_days_of_date n dt by metis
  moreover have "date_of_days 0 = (1970, 1, 1)" by code_simp
  ultimately show ?thesis using dt v date_of_days_of_date by simp
qed

text \<open>
  Claim C28.  Normalization is idempotent and order preserving: a normalized timestamp is a text of 24 characters that
  normalizes to itself, and of two instants the earlier one has the lexicographically smaller text, so the
  filters that compare normalized texts compare instants.
\<close>

theorem normalized_timestamps:
  assumes "normalize_timestamp v = Some s"
  shows "normalize_timestamp s = Some s \<and> length s = 24 \<and> str_len s = 24 \<and>
    (\<exists>a. format_epoch a = Some s \<and> (\<forall>b t. format_epoch b = Some t \<longrightarrow> (s < t \<longleftrightarrow> a < b) \<and> (s = t \<longleftrightarrow> a = b)))"
proof -
  obtain a where a: "format_epoch a = Some s" using normalize_is_format [OF assms] by blast
  have ord: "(s < t \<longleftrightarrow> a < b) \<and> (s = t \<longleftrightarrow> a = b)" if b: "format_epoch b = Some t" for b t
  proof (cases a b rule: linorder_cases)
    case less
    then show ?thesis using format_epoch_less [OF a b] by auto
  next
    case equal
    then show ?thesis using a b by simp
  next
    case greater
    then show ?thesis using format_epoch_less [OF b a] by auto
  qed
  have "str_len s = length s"
  proof -
    obtain y m d where "s = stamp_text (y, m, d) (time_fields a)" using format_epoch_Some [OF a] by metis
    moreover have "c < 128" if "c \<in> set (fmt_dec_pad w n)" for c w n
      using fmt_dec_pad_digits [of w n] that by (auto simp: list_all_iff is_ascii_digit_def)
    ultimately show ?thesis by (intro str_len_ascii) (cases "time_fields a", auto simp: stamp_text_def)
  qed
  then show ?thesis using normalize_format_epoch [OF a] a ord by auto
qed

theorem normalized_timestamps_witness:
  "normalize_timestamp (lit ''2026-01-01T01:00:00+01:00'') = Some (lit ''2026-01-01T00:00:00.000Z'') \<and>
   normalize_timestamp (lit ''2026-01-01T00:00:00.000Z'') = Some (lit ''2026-01-01T00:00:00.000Z'')"
proof -
  have "normalize_timestamp (lit ''2026-01-01T01:00:00+01:00'') = Some (lit ''2026-01-01T00:00:00.000Z'')" by code_simp
  then show ?thesis using normalized_timestamps by blast
qed

end
