(* ===== verification/Event_Log.thy ===== *)
theory Event_Log
  imports Prelude "HOL-Library.Option_ord" "HOL-Library.Multiset"
begin

text \<open>
  Recorded commands of the agent-log analysis and the budget of retained state (\<open>src/log_analysis.rs\<close>,
  \<open>src/log_analysis/limits.rs\<close>): events, filters, deduplication and sorting.

  The sizes of structs are the compiler's business, so \<open>layout\<close> is a parameter.  Byte counts of
  retained text are far below the 64 bits of the code and are plain numbers, except where the budget checks
  for overflow itself.  \<open>None\<close> of the deduplication is an index out of range; it never happens.
\<close>

section \<open>Events\<close>

datatype CommandCategory =
    Maven
  | JarInspection
  | ClassInspection
  | PomInspection
  | ResourceInspection
  | Shell

fun category_as_str :: "CommandCategory \<Rightarrow> str" where
  "category_as_str Maven = lit ''maven''"
| "category_as_str JarInspection = lit ''jar_inspection''"
| "category_as_str ClassInspection = lit ''class_inspection''"
| "category_as_str PomInspection = lit ''pom_inspection''"
| "category_as_str ResourceInspection = lit ''resource_inspection''"
| "category_as_str Shell = lit ''shell''"

record MavenCommand =
  mc_executable :: str
  mc_lifecycle_goals :: "str list"
  mc_plugin_goals :: "str list"
  mc_modules :: "str list"
  mc_also_make :: bool
  mc_also_make_dependents :: bool
  mc_resume_from :: "str option"
  mc_pom_file :: "str option"
  mc_tests :: "str list"
  mc_profiles :: "str list"
  mc_properties :: "(str \<times> str) list"

record CommandEvent =
  ce_timestamp :: "str option"
  ce_ide :: str
  ce_agent :: "str option"
  ce_project :: "str option"
  ce_session :: "str option"
  ce_tool :: str
  ce_cwd :: "str option"
  ce_command :: str
  ce_category :: CommandCategory
  ce_call_id :: "str option"
  ce_maven :: "MavenCommand option"
  ce_provenance :: str

record EventFilter =
  fl_since :: "str option"
  fl_until :: "str option"
  fl_ide :: "str option"
  fl_agent :: "str option"
  fl_project :: "str option"
  fl_session :: "str option"
  fl_category :: "CommandCategory option"

section \<open>The budget of retained state\<close>

definition ENTRY_OVERHEAD_BYTES :: nat where
  "ENTRY_OVERHEAD_BYTES = 48"

datatype LimitExceeded = Input_Limit | State_Limit

record StateBudget =
  sb_limit :: nat
  sb_used :: nat

definition new_state_budget :: "nat \<Rightarrow> StateBudget" where
  "new_state_budget limit = \<lparr> sb_limit = limit, sb_used = 0 \<rparr>"

definition unlimited_budget :: StateBudget where
  "unlimited_budget = new_state_budget usize_max"

definition charge :: "nat \<Rightarrow> StateBudget \<Rightarrow> (LimitExceeded + unit) \<times> StateBudget" where
  "charge bytes b =
     (case checked_add (sb_used b) bytes of
        None \<Rightarrow> (Inl State_Limit, b)
      | Some used \<Rightarrow> if used \<le> sb_limit b then (Inr (), b \<lparr> sb_used := used \<rparr>) else (Inl State_Limit, b))"

definition release :: "nat \<Rightarrow> StateBudget \<Rightarrow> StateBudget" where
  "release bytes b = b \<lparr> sb_used := sb_used b - bytes \<rparr>"

definition restore_used :: "nat \<Rightarrow> StateBudget \<Rightarrow> StateBudget" where
  "restore_used used b = b \<lparr> sb_used := used \<rparr>"

record layout =
  size_of_event :: nat
  size_of_maven :: nat
  size_of_dedup_key :: nat

definition optional_len :: "str option \<Rightarrow> nat" where
  "optional_len v = (case v of None \<Rightarrow> 0 | Some s \<Rightarrow> str_len s)"

definition maven_bytes :: "layout \<Rightarrow> MavenCommand \<Rightarrow> nat" where
  "maven_bytes L m =
     size_of_maven L + str_len (mc_executable m) + optional_len (mc_resume_from m) + optional_len (mc_pom_file m) +
     sum_list (map (\<lambda>s. str_len s + ENTRY_OVERHEAD_BYTES)
       (mc_lifecycle_goals m @ mc_plugin_goals m @ mc_modules m @ mc_tests m @ mc_profiles m)) +
     sum_list (map (\<lambda>(k, v). str_len k + str_len v + ENTRY_OVERHEAD_BYTES) (mc_properties m))"

definition event_bytes :: "layout \<Rightarrow> CommandEvent \<Rightarrow> nat" where
  "event_bytes L e =
     size_of_event L + str_len (ce_ide e) + str_len (ce_tool e) + str_len (ce_command e) +
     sum_list (map optional_len [ce_timestamp e, ce_agent e, ce_project e, ce_session e, ce_cwd e, ce_call_id e]) +
     (case ce_maven e of None \<Rightarrow> 0 | Some m \<Rightarrow> maven_bytes L m)"

definition retained_event_bytes :: "layout \<Rightarrow> CommandEvent list \<Rightarrow> nat" where
  "retained_event_bytes L es = sum_list (map (event_bytes L) es)"

section \<open>Filters\<close>

definition matches_filter :: "str option \<Rightarrow> str option \<Rightarrow> bool" where
  "matches_filter expected actual \<longleftrightarrow>
     (case expected of
        None \<Rightarrow> True
      | Some x \<Rightarrow> (case actual of None \<Rightarrow> False | Some a \<Rightarrow> eq_ignore_ascii_case a x))"

definition event_matches :: "EventFilter \<Rightarrow> CommandEvent \<Rightarrow> bool" where
  "event_matches f e \<longleftrightarrow>
     (case fl_since f of None \<Rightarrow> True | Some since \<Rightarrow> (case ce_timestamp e of None \<Rightarrow> False | Some t \<Rightarrow> since \<le> t)) \<and>
     (case fl_until f of None \<Rightarrow> True | Some u \<Rightarrow> (case ce_timestamp e of None \<Rightarrow> False | Some t \<Rightarrow> t \<le> u)) \<and>
     matches_filter (fl_ide f) (Some (ce_ide e)) \<and> matches_filter (fl_agent f) (ce_agent e) \<and>
     matches_filter (fl_project f) (ce_project e) \<and> matches_filter (fl_session f) (ce_session e) \<and>
     (case fl_category f of None \<Rightarrow> True | Some c \<Rightarrow> ce_category e = c)"

definition filter_events :: "CommandEvent list \<Rightarrow> EventFilter \<Rightarrow> CommandEvent list" where
  "filter_events events f = filter (event_matches f) events"

definition filter_events_within ::
    "layout \<Rightarrow> CommandEvent list \<Rightarrow> EventFilter \<Rightarrow> StateBudget \<Rightarrow> CommandEvent list \<times> StateBudget" where
  "filter_events_within L events f b =
     (let before = retained_event_bytes L events;
          kept = filter_events events f
      in (kept, release (before - retained_event_bytes L kept) b))"

section \<open>Deduplication\<close>

text \<open>The tuple of the code; the last component is the kind and the text of the identity.\<close>

datatype DedupKey = DedupKey str "str option" "str option" str str "str \<times> str"

definition event_identity :: "CommandEvent \<Rightarrow> (str \<times> str) option" where
  "event_identity e =
     (case ce_call_id e of
        Some i \<Rightarrow> Some (lit ''id'', i)
      | None \<Rightarrow>
          map_option (\<lambda>time.
            (lit ''event'', time @ [0] @ (case ce_cwd e of None \<Rightarrow> [] | Some d \<Rightarrow> d) @ [0] @ ce_command e))
          (ce_timestamp e))"

definition dedup_key :: "CommandEvent \<Rightarrow> DedupKey option" where
  "dedup_key e =
     map_option
       (DedupKey (ce_ide e) (ce_agent e) (ce_project e) (case ce_session e of None \<Rightarrow> ce_provenance e | Some s \<Rightarrow> s) (ce_tool e))
     (event_identity e)"

fun dedup_key_bytes :: "layout \<Rightarrow> DedupKey \<Rightarrow> nat" where
  "dedup_key_bytes L (DedupKey ide agent project session tool identity) =
     size_of_dedup_key L + ENTRY_OVERHEAD_BYTES + str_len ide + optional_len agent + optional_len project +
     str_len session + str_len tool + str_len (snd identity)"

definition earliest :: "str option \<Rightarrow> str option \<Rightarrow> str option" where
  "earliest s t = (case (s, t) of (Some a, Some b) \<Rightarrow> Some (min a b) | (None, _) \<Rightarrow> t | (_, None) \<Rightarrow> s)"

definition command_rank :: "CommandEvent \<Rightarrow> nat \<times> str" where
  "command_rank e = (str_len (ce_command e), ce_command e)"

definition merge_events :: "CommandEvent \<Rightarrow> CommandEvent \<Rightarrow> CommandEvent" where
  "merge_events previous event =
     (if command_rank previous < command_rank event then event else previous)
     \<lparr> ce_timestamp := earliest (ce_timestamp previous) (ce_timestamp event) \<rparr>"

fun dedup_loop ::
    "layout \<Rightarrow> CommandEvent list \<Rightarrow> (DedupKey \<Rightarrow> nat option) \<Rightarrow> CommandEvent list \<Rightarrow> nat \<Rightarrow> StateBudget \<Rightarrow>
     ((LimitExceeded + CommandEvent list) \<times> StateBudget) option" where
  "dedup_loop L [] calls result charged b = Some (Inr result, release charged b)"
| "dedup_loop L (event # events) calls result charged b =
     (case dedup_key event of
        None \<Rightarrow> dedup_loop L events calls (result @ [event]) charged b
      | Some key \<Rightarrow>
          (case calls key of
             Some index \<Rightarrow>
               if length result \<le> index then None
               else
                 let previous = result ! index;
                     merged = merge_events previous event;
                     b = release (event_bytes L previous + event_bytes L event) b
                 in (case charge (event_bytes L merged) b of
                       (Inl e, b) \<Rightarrow> Some (Inl e, release charged b)
                     | (Inr _, b) \<Rightarrow> dedup_loop L events calls (result[index := merged]) charged b)
           | None \<Rightarrow>
               (case charge (dedup_key_bytes L key) b of
                  (Inl e, b) \<Rightarrow> Some (Inl e, release charged b)
                | (Inr _, b) \<Rightarrow>
                    dedup_loop L events (calls(key \<mapsto> length result)) (result @ [event])
                      (charged + dedup_key_bytes L key) b)))"

definition sort_key_of :: "CommandEvent \<Rightarrow>
    str option \<times> str \<times> str option \<times> str option \<times> str option \<times> str \<times> str option \<times> str \<times> str option" where
  "sort_key_of e =
     (ce_timestamp e, ce_ide e, ce_agent e, ce_project e, ce_session e, ce_tool e, ce_cwd e, ce_command e, ce_call_id e)"

definition sort_events :: "CommandEvent list \<Rightarrow> CommandEvent list" where
  "sort_events es = sort_key sort_key_of es"

definition deduplicate_events_within ::
    "layout \<Rightarrow> CommandEvent list \<Rightarrow> StateBudget \<Rightarrow> ((LimitExceeded + CommandEvent list) \<times> StateBudget) option" where
  "deduplicate_events_within L events b =
     map_option (\<lambda>(r, b). (map_sum (\<lambda>e. e) sort_events r, b)) (dedup_loop L events (\<lambda>_. None) [] 0 b)"

text \<open>The outer \<open>None\<close> is also the \<open>unreachable!\<close> of the code.\<close>

definition deduplicate_events :: "layout \<Rightarrow> CommandEvent list \<Rightarrow> CommandEvent list option" where
  "deduplicate_events L events =
     (case deduplicate_events_within L events unlimited_budget of
        Some (Inr result, _) \<Rightarrow> Some result
      | _ \<Rightarrow> None)"

section \<open>The reference: one survivor for each identity\<close>

text \<open>
  Without the key table and the budget: an event without an identity stays, the first event of an
  identity stays in place of all events of that identity, merged in their order.
\<close>

function merged_pairs :: "CommandEvent list \<Rightarrow> (DedupKey option \<times> CommandEvent) list" where
  "merged_pairs [] = []"
| "merged_pairs (e # es) =
     (case dedup_key e of
        None \<Rightarrow> (None, e) # merged_pairs es
      | Some key \<Rightarrow>
          (Some key, foldl merge_events e (filter (\<lambda>x. dedup_key x = Some key) es)) #
          merged_pairs (filter (\<lambda>x. dedup_key x \<noteq> Some key) es))"
  by pat_completeness auto
termination by (relation "measure length") (auto simp: le_imp_less_Suc)

definition merged_events :: "CommandEvent list \<Rightarrow> CommandEvent list" where
  "merged_events es = map snd (merged_pairs es)"

lemma keys_merged_pairs: "fst ` set (merged_pairs es) = dedup_key ` set es"
proof (induction es rule: merged_pairs.induct)
  case (2 e es)
  show ?case
  proof (cases "dedup_key e")
    case None
    then show ?thesis using 2(1) by simp
  next
    case (Some key)
    have "insert (Some key) (dedup_key ` {x \<in> set es. dedup_key x \<noteq> Some key}) = insert (Some key) (dedup_key ` set es)"
      by auto
    then show ?thesis using 2(2) [OF Some] Some by simp
  qed
qed simp

lemma distinct_merged_pairs: "distinct (filter (\<lambda>k. k \<noteq> None) (map fst (merged_pairs es)))"
proof (induction es rule: merged_pairs.induct)
  case (2 e es)
  show ?case
  proof (cases "dedup_key e")
    case None
    then show ?thesis using 2(1) by simp
  next
    case (Some key)
    have "Some key \<notin> fst ` set (merged_pairs (filter (\<lambda>x. dedup_key x \<noteq> Some key) es))"
      unfolding keys_merged_pairs by auto
    then show ?thesis using 2(2) Some by auto
  qed
qed simp

text \<open>Lists of values with optional keys, and an index from keys to positions.\<close>

definition update_key :: "'k \<Rightarrow> ('e \<Rightarrow> 'e) \<Rightarrow> 'k option \<times> 'e \<Rightarrow> 'k option \<times> 'e" where
  "update_key key g p = (fst p, if fst p = Some key then g (snd p) else snd p)"

definition indexed :: "('k option \<times> 'e) list \<Rightarrow> ('k \<Rightarrow> nat option) \<Rightarrow> bool" where
  "indexed ps calls \<longleftrightarrow> (\<forall>k i. calls k = Some i \<longleftrightarrow> i < length ps \<and> fst (ps ! i) = Some k)"

lemma fst_update_key [simp]: "fst (update_key key g p) = fst p"
  by (simp add: update_key_def)

lemma update_key_other: "fst p \<noteq> Some key \<Longrightarrow> update_key key g p = p"
  by (simp add: update_key_def)

lemma map_update_key_other: "Some key \<notin> fst ` set ps \<Longrightarrow> map (update_key key g) ps = ps"
  by (induction ps) (auto simp: update_key_other)

lemma indexed_None: "indexed ps calls \<Longrightarrow> calls k = None \<longleftrightarrow> Some k \<notin> fst ` set ps"
proof -
  assume ok: "indexed ps calls"
  have "calls k = None \<longleftrightarrow> (\<forall>i. calls k \<noteq> Some i)" by simp
  also have "\<dots> \<longleftrightarrow> (\<forall>i < length ps. fst (ps ! i) \<noteq> Some k)" by (simp add: ok [unfolded indexed_def, rule_format])
  also have "\<dots> \<longleftrightarrow> Some k \<notin> fst ` set ps" unfolding set_map [symmetric] by (auto simp: in_set_conv_nth simp del: set_map)
  finally show ?thesis .
qed

lemma indexed_Some: "indexed ps calls \<Longrightarrow> calls k = Some i \<Longrightarrow> i < length ps \<and> fst (ps ! i) = Some k"
  by (simp add: indexed_def)

lemma indexed_snoc_None: "indexed ps calls \<Longrightarrow> indexed (ps @ [(None, e)]) calls"
  by (auto simp: indexed_def nth_append less_Suc_eq)

lemma indexed_map_update: "indexed ps calls \<Longrightarrow> indexed (map (update_key key g) ps) calls"
  by (auto simp: indexed_def)

lemma indexed_snoc_new:
  assumes "indexed ps calls" "calls k = None"
  shows "indexed (ps @ [(Some k, e)]) (calls(k \<mapsto> length ps))"
proof -
  have no: "fst (ps ! i) \<noteq> Some k" if "i < length ps" for i using assms that unfolding indexed_def by (metis option.distinct(1))
  have "(calls(k \<mapsto> length ps)) k' = Some i \<longleftrightarrow> i < length (ps @ [(Some k, e)]) \<and> fst ((ps @ [(Some k, e)]) ! i) = Some k'" for k' i
    using assms(1) no unfolding indexed_def
    by (cases "k' = k"; cases "i = length ps") (auto simp: nth_append less_Suc_eq)
  then show ?thesis unfolding indexed_def by blast
qed

lemma unique_key_index:
  assumes "i < length ps" "j < length ps" "fst (ps ! i) = Some k" "fst (ps ! j) = Some k"
    and "distinct (filter (\<lambda>k. k \<noteq> None) (map fst ps))"
  shows "i = j"
  using assms
proof (induction ps arbitrary: i j)
  case (Cons p ps)
  have mem: "Some k \<in> set (map fst ps)" if "fst (ps ! n) = Some k" "n < length ps" for n
    using that by (metis nth_mem image_eqI list.set_map)
  show ?case using Cons.prems Cons.IH [of "i - 1" "j - 1"] mem [of "i - 1"] mem [of "j - 1"]
    by (cases i; cases j) (auto split: if_splits)
qed simp

lemma update_key_at:
  assumes "indexed ps calls" "calls key = Some i" "distinct (filter (\<lambda>k. k \<noteq> None) (map fst ps))"
  shows "map snd (map (update_key key g) ps) = (map snd ps)[i := g (snd (ps ! i))]"
proof (rule nth_equalityI)
  show "length (map snd (map (update_key key g) ps)) = length ((map snd ps)[i := g (snd (ps ! i))])" by simp
  fix n
  assume "n < length (map snd (map (update_key key g) ps))"
  then have n: "n < length ps" by simp
  have i: "i < length ps" "fst (ps ! i) = Some key" using indexed_Some [OF assms(1,2)] by simp_all
  show "map snd (map (update_key key g) ps) ! n = (map snd ps)[i := g (snd (ps ! i))] ! n"
  proof (cases "fst (ps ! n) = Some key")
    case True
    then have "n = i" using unique_key_index [OF n i(1) True i(2) assms(3)] by simp
    then show ?thesis using n i by (simp add: update_key_def)
  next
    case False
    then have "n \<noteq> i" using i(2) by auto
    then show ?thesis using n False by (simp add: update_key_other)
  qed
qed

lemma merged_pairs_snoc:
  "merged_pairs (es @ [e]) =
     (case dedup_key e of
        None \<Rightarrow> merged_pairs es @ [(None, e)]
      | Some key \<Rightarrow>
          if Some key \<in> dedup_key ` set es then map (update_key key (\<lambda>x. merge_events x e)) (merged_pairs es)
          else merged_pairs es @ [(Some key, e)])"
proof (induction es rule: merged_pairs.induct)
  case 1
  then show ?case by (simp split: option.splits)
next
  case (2 x es)
  show ?case
  proof (cases "dedup_key x")
    case None
    note IH = 2(1) [OF None]
    show ?thesis
    proof (cases "dedup_key e")
      case e: None
      then show ?thesis using None IH by simp
    next
      case e: (Some k)
      then show ?thesis using None IH by (simp add: update_key_def)
    qed
  next
    case x: (Some key)
    let ?rest = "filter (\<lambda>y. dedup_key y \<noteq> Some key) es"
    note IH = 2(2) [OF x]
    have keys: "k \<in> dedup_key ` set ?rest \<longleftrightarrow> k \<in> dedup_key ` set es \<and> k \<noteq> Some key" for k by auto
    show ?thesis
    proof (cases "dedup_key e")
      case None
      then show ?thesis using x IH by simp
    next
      case e: (Some k)
      show ?thesis
      proof (cases "k = key")
        case True
        have "Some key \<notin> fst ` set (merged_pairs ?rest)" unfolding keys_merged_pairs by auto
        then show ?thesis using x e True by (simp add: map_update_key_other) (simp add: update_key_def)
      next
        case False
        then show ?thesis using IH x e keys [of "Some k"] by (simp add: update_key_def)
      qed
    qed
  qed
qed

section \<open>The loop computes the reference\<close>

lemma merge_events_bytes: "event_bytes L (merge_events p e) \<le> event_bytes L p + event_bytes L e"
proof -
  have "optional_len (earliest s t) \<le> max (optional_len s) (optional_len t)" for s t
    by (cases s; cases t) (auto simp: earliest_def optional_len_def min_def)
  then have "optional_len (earliest (ce_timestamp p) (ce_timestamp e)) \<le> optional_len (ce_timestamp p) + optional_len (ce_timestamp e)"
    by (metis le_add1 le_add2 le_trans max.bounded_iff max_def)
  then show ?thesis by (simp add: merge_events_def event_bytes_def)
qed

definition new_key_bytes :: "layout \<Rightarrow> CommandEvent list \<Rightarrow> CommandEvent list \<Rightarrow> nat" where
  "new_key_bytes L seen es = (\<Sum>k \<in> Some -` (dedup_key ` set es - dedup_key ` set seen). dedup_key_bytes L k)"

lemma new_key_bytes_old: "dedup_key e \<in> insert None (dedup_key ` set xs) \<Longrightarrow> new_key_bytes L xs (e # es) = new_key_bytes L (xs @ [e]) es"
  unfolding new_key_bytes_def by (rule sum.cong) auto

lemma new_key_bytes_new:
  assumes "dedup_key e = Some k" "Some k \<notin> dedup_key ` set xs"
  shows "new_key_bytes L xs (e # es) = dedup_key_bytes L k + new_key_bytes L (xs @ [e]) es"
proof -
  have "Some -` (dedup_key ` set (e # es) - dedup_key ` set xs) =
      insert k (Some -` (dedup_key ` set es - dedup_key ` set (xs @ [e])))" using assms by auto
  moreover have "finite (Some -` (dedup_key ` set es - dedup_key ` set (xs @ [e])))" by (rule finite_vimageI) simp_all
  moreover have "k \<notin> Some -` (dedup_key ` set es - dedup_key ` set (xs @ [e]))" using assms(1) by simp
  ultimately show ?thesis by (simp add: new_key_bytes_def)
qed

lemma retained_simps [simp]:
  "retained_event_bytes L [] = 0" "retained_event_bytes L (e # es) = event_bytes L e + retained_event_bytes L es"
  "retained_event_bytes L (xs @ ys) = retained_event_bytes L xs + retained_event_bytes L ys"
  by (simp_all add: retained_event_bytes_def)

lemma retained_update:
  assumes "i < length xs"
  shows "retained_event_bytes L (xs[i := m]) + event_bytes L (xs ! i) = retained_event_bytes L xs + event_bytes L m"
    and "event_bytes L (xs ! i) \<le> retained_event_bytes L xs"
proof -
  have le: "map (event_bytes L) xs ! i \<le> sum_list (map (event_bytes L) xs)" using assms by (intro elem_le_sum_list) simp
  then show "event_bytes L (xs ! i) \<le> retained_event_bytes L xs" using assms by (simp add: retained_event_bytes_def)
  then show "retained_event_bytes L (xs[i := m]) + event_bytes L (xs ! i) = retained_event_bytes L xs + event_bytes L m"
    using assms by (simp add: retained_event_bytes_def map_update sum_list_update)
qed

lemma charge_cases:
  "charge n b = (if sb_used b + n \<le> usize_max \<and> sb_used b + n \<le> sb_limit b
     then (Inr (), b \<lparr> sb_used := sb_used b + n \<rparr>) else (Inl State_Limit, b))"
  by (simp add: charge_def checked_add_def)

text \<open>The budget while the loop runs: every event that is still there is charged, and so are the keys.\<close>

definition exact_budget :: "layout \<Rightarrow> CommandEvent list \<Rightarrow> CommandEvent list \<Rightarrow> nat \<Rightarrow> StateBudget \<Rightarrow> bool" where
  "exact_budget L es result charged b \<longleftrightarrow>
     retained_event_bytes L es + retained_event_bytes L result + charged \<le> sb_used b \<and> sb_used b \<le> sb_limit b \<and> sb_limit b \<le> usize_max"

definition exact_outcome :: "layout \<Rightarrow> CommandEvent list \<Rightarrow> CommandEvent list \<Rightarrow> CommandEvent list \<Rightarrow> nat \<Rightarrow> StateBudget \<Rightarrow>
    (LimitExceeded + CommandEvent list) \<times> StateBudget \<Rightarrow> bool" where
  "exact_outcome L xs es result charged b out \<longleftrightarrow>
     (case fst out of
        Inr res \<Rightarrow> sb_used (snd out) + charged + retained_event_bytes L es + retained_event_bytes L result =
                   sb_used b + retained_event_bytes L res
      | Inl _ \<Rightarrow> sb_limit b < sb_used b + new_key_bytes L xs es)"

text \<open>A budget that is not charged for the events still has room when it has room for all of them.\<close>

definition roomy_budget :: "layout \<Rightarrow> nat \<Rightarrow> CommandEvent list \<Rightarrow> CommandEvent list \<Rightarrow> CommandEvent list \<Rightarrow> nat \<Rightarrow> StateBudget \<Rightarrow> bool" where
  "roomy_budget L room xs es result charged b \<longleftrightarrow>
     retained_event_bytes L es + retained_event_bytes L result \<le> room \<and> sb_used b \<le> charged + room \<and>
     charged + new_key_bytes L xs es + room \<le> sb_limit b \<and> sb_limit b \<le> usize_max"

definition dedup_outcome :: "layout \<Rightarrow> nat \<Rightarrow> CommandEvent list \<Rightarrow> CommandEvent list \<Rightarrow> nat \<Rightarrow> StateBudget \<Rightarrow>
    ((LimitExceeded + CommandEvent list) \<times> StateBudget) option \<Rightarrow> bool" where
  "dedup_outcome L room xs es charged b r \<longleftrightarrow>
     (\<exists>out. r = Some out \<and> sb_limit (snd out) = sb_limit b \<and>
        (fst out = Inl State_Limit \<or> fst out = Inr (merged_events (xs @ es))) \<and>
        (exact_budget L es (merged_events xs) charged b \<longrightarrow> exact_outcome L xs es (merged_events xs) charged b out) \<and>
        (roomy_budget L room xs es (merged_events xs) charged b \<longrightarrow> fst out = Inr (merged_events (xs @ es))))"

lemma merged_events_snoc:
  assumes "indexed (merged_pairs xs) calls"
  shows "dedup_key e = None \<Longrightarrow> merged_events (xs @ [e]) = merged_events xs @ [e]"
    and "dedup_key e = Some k \<Longrightarrow> calls k = None \<Longrightarrow> merged_events (xs @ [e]) = merged_events xs @ [e]"
    and "dedup_key e = Some k \<Longrightarrow> calls k = Some i \<Longrightarrow>
      merged_events (xs @ [e]) = (merged_events xs)[i := merge_events (merged_events xs ! i) e]"
proof -
  show "dedup_key e = None \<Longrightarrow> merged_events (xs @ [e]) = merged_events xs @ [e]"
    by (simp add: merged_events_def merged_pairs_snoc)
  show "dedup_key e = Some k \<Longrightarrow> calls k = None \<Longrightarrow> merged_events (xs @ [e]) = merged_events xs @ [e]"
    using indexed_None [OF assms, of k] by (simp add: merged_events_def merged_pairs_snoc keys_merged_pairs)
  assume k: "dedup_key e = Some k" "calls k = Some i"
  have "Some k \<in> dedup_key ` set xs" using indexed_None [OF assms, of k] k(2) by (simp add: keys_merged_pairs)
  then have "merged_events (xs @ [e]) = map snd (map (update_key k (\<lambda>x. merge_events x e)) (merged_pairs xs))"
    using k(1) by (simp add: merged_events_def merged_pairs_snoc)
  also have "\<dots> = (merged_events xs)[i := merge_events (merged_events xs ! i) e]"
    using indexed_Some [OF assms k(2)] unfolding update_key_at [OF assms k(2) distinct_merged_pairs]
    by (simp add: merged_events_def)
  finally show "merged_events (xs @ [e]) = (merged_events xs)[i := merge_events (merged_events xs ! i) e]" .
qed

lemma indexed_snoc:
  assumes "indexed (merged_pairs xs) calls"
  shows "dedup_key e = None \<Longrightarrow> indexed (merged_pairs (xs @ [e])) calls"
    and "dedup_key e = Some k \<Longrightarrow> calls k = None \<Longrightarrow> indexed (merged_pairs (xs @ [e])) (calls(k \<mapsto> length (merged_events xs)))"
    and "dedup_key e = Some k \<Longrightarrow> calls k = Some i \<Longrightarrow> indexed (merged_pairs (xs @ [e])) calls"
  using indexed_None [OF assms, of k] indexed_snoc_None [OF assms] indexed_snoc_new [OF assms] indexed_map_update [OF assms]
  by (simp_all add: merged_events_def merged_pairs_snoc keys_merged_pairs)

text \<open>How one more event changes the two budgets, and the outcome seen from before it.\<close>

lemma dedup_outcome_step:
  assumes out: "dedup_outcome L room (xs @ [e]) es charged' b' r"
    and limit: "sb_limit b' = sb_limit b"
    and exact: "exact_budget L (e # es) (merged_events xs) charged b \<Longrightarrow>
      exact_budget L es (merged_events (xs @ [e])) charged' b' \<and>
      sb_used b' + new_key_bytes L (xs @ [e]) es \<le> sb_used b + new_key_bytes L xs (e # es) \<and>
      sb_used b' + charged + event_bytes L e + retained_event_bytes L (merged_events xs) =
        sb_used b + charged' + retained_event_bytes L (merged_events (xs @ [e]))"
    and room: "roomy_budget L room xs (e # es) (merged_events xs) charged b \<Longrightarrow>
      roomy_budget L room (xs @ [e]) es (merged_events (xs @ [e])) charged' b'"
  shows "dedup_outcome L room xs (e # es) charged b r"
proof -
  obtain out where o': "r = Some out" "sb_limit (snd out) = sb_limit b'"
    "fst out = Inl State_Limit \<or> fst out = Inr (merged_events ((xs @ [e]) @ es))"
    "exact_budget L es (merged_events (xs @ [e])) charged' b' \<Longrightarrow> exact_outcome L (xs @ [e]) es (merged_events (xs @ [e])) charged' b' out"
    "roomy_budget L room (xs @ [e]) es (merged_events (xs @ [e])) charged' b' \<Longrightarrow> fst out = Inr (merged_events ((xs @ [e]) @ es))"
    using assms(1) unfolding dedup_outcome_def by blast
  have "exact_outcome L xs (e # es) (merged_events xs) charged b out"
    if ex: "exact_budget L (e # es) (merged_events xs) charged b"
    using o'(4) exact [OF ex] limit unfolding exact_outcome_def by (auto split: sum.splits)
  then show ?thesis using o' room limit unfolding dedup_outcome_def by auto
qed

lemma dedup_loop_outcome:
  assumes "indexed (merged_pairs xs) calls"
  shows "dedup_outcome L room xs es charged b (dedup_loop L es calls (merged_events xs) charged b)"
  using assms
proof (induction es arbitrary: xs calls charged b)
  case Nil
  then show ?case
    by (auto simp: dedup_outcome_def exact_outcome_def exact_budget_def release_def)
next
  case (Cons e es)
  note idx = indexed_snoc [OF Cons.prems, of e] and ev = merged_events_snoc [OF Cons.prems, of e]
  show ?case
  proof (cases "dedup_key e")
    case None
    have nk: "new_key_bytes L xs (e # es) = new_key_bytes L (xs @ [e]) es" using None by (intro new_key_bytes_old) simp
    have "dedup_outcome L room xs (e # es) charged b (dedup_loop L es calls (merged_events (xs @ [e])) charged b)"
      by (rule dedup_outcome_step [OF Cons.IH [OF idx(1) [OF None]]])
        (auto simp: nk exact_budget_def roomy_budget_def ev(1) [OF None])
    then show ?thesis using None by (simp add: ev(1) [OF None])
  next
    case key: (Some k)
    show ?thesis
    proof (cases "calls k")
      case None
      have new: "Some k \<notin> dedup_key ` set xs" using indexed_None [OF Cons.prems, of k] None by (simp add: keys_merged_pairs)
      note nk = new_key_bytes_new [OF key new, of L es]
      note m = ev(2) [OF key None]
      show ?thesis
      proof (cases "sb_used b + dedup_key_bytes L k \<le> usize_max \<and> sb_used b + dedup_key_bytes L k \<le> sb_limit b")
        case True
        have "dedup_outcome L room xs (e # es) charged b
            (dedup_loop L es (calls(k \<mapsto> length (merged_events xs))) (merged_events (xs @ [e])) (charged + dedup_key_bytes L k)
               (b \<lparr> sb_used := sb_used b + dedup_key_bytes L k \<rparr>))"
          by (rule dedup_outcome_step [OF Cons.IH [OF idx(2) [OF key None]]])
            (use True in \<open>auto simp: nk exact_budget_def roomy_budget_def m\<close>)
        then show ?thesis using True key None by (simp add: charge_cases m)
      next
        case False
        then have "\<not> roomy_budget L room xs (e # es) (merged_events xs) charged b"
          "exact_budget L (e # es) (merged_events xs) charged b \<Longrightarrow> sb_limit b < sb_used b + new_key_bytes L xs (e # es)"
          by (auto simp: roomy_budget_def exact_budget_def nk)
        then show ?thesis using False key None
          by (auto simp: charge_cases dedup_outcome_def exact_outcome_def release_def)
      qed
    next
      case (Some i)
      let ?p = "merged_events xs ! i"
      let ?b = "release (event_bytes L ?p + event_bytes L e) b"
      note m = ev(3) [OF key Some]
      have i: "i < length (merged_events xs)" using indexed_Some [OF Cons.prems Some] by (simp add: merged_events_def)
      have "Some k \<in> dedup_key ` set xs" using indexed_None [OF Cons.prems, of k] Some by (simp add: keys_merged_pairs)
      then have nk: "new_key_bytes L xs (e # es) = new_key_bytes L (xs @ [e]) es" using key by (intro new_key_bytes_old) simp
      note up = retained_update(1) [OF i, of L "merge_events ?p e"] retained_update(2) [OF i, of L]
      note small = merge_events_bytes [of L ?p e]
      show ?thesis
      proof (cases "sb_used ?b + event_bytes L (merge_events ?p e) \<le> usize_max \<and>
          sb_used ?b + event_bytes L (merge_events ?p e) \<le> sb_limit b")
        case True
        have "dedup_outcome L room xs (e # es) charged b
            (dedup_loop L es calls (merged_events (xs @ [e])) charged
               (?b \<lparr> sb_used := sb_used ?b + event_bytes L (merge_events ?p e) \<rparr>))"
        proof (rule dedup_outcome_step [OF Cons.IH [OF idx(3) [OF key Some]]])
          show "sb_limit (?b\<lparr>sb_used := sb_used ?b + event_bytes L (merge_events ?p e)\<rparr>) = sb_limit b" by (simp add: release_def)
        qed (use True up small in \<open>auto simp: nk exact_budget_def roomy_budget_def m release_def\<close>)
        then show ?thesis using True key Some i by (simp add: charge_cases m release_def Let_def)
      next
        case False
        have "sb_used ?b + event_bytes L (merge_events ?p e) \<le> sb_limit b \<and> sb_limit b \<le> usize_max"
          if "exact_budget L (e # es) (merged_events xs) charged b"
          using that up small by (auto simp: exact_budget_def release_def)
        moreover have "sb_used ?b + event_bytes L (merge_events ?p e) \<le> sb_limit b \<and> sb_limit b \<le> usize_max"
          if "roomy_budget L room xs (e # es) (merged_events xs) charged b"
          using that up small by (auto simp: roomy_budget_def release_def)
        ultimately have "\<not> exact_budget L (e # es) (merged_events xs) charged b" "\<not> roomy_budget L room xs (e # es) (merged_events xs) charged b"
          using False by (meson le_trans)+
        then show ?thesis using False key Some i
          by (auto simp: charge_cases dedup_outcome_def release_def Let_def)
      qed
    qed
  qed
qed

lemma indexed_start: "indexed (merged_pairs []) (\<lambda>_. None)"
  by (simp add: indexed_def)

lemma dedup_from_start: "dedup_outcome L room [] es 0 b (dedup_loop L es (\<lambda>_. None) [] 0 b)"
  using dedup_loop_outcome [OF indexed_start, of L room es 0 b] by (simp add: merged_events_def)

lemma retained_sort [simp]: "retained_event_bytes L (sort_events es) = retained_event_bytes L es"
proof -
  have "mset (map (event_bytes L) (sort_events es)) = mset (map (event_bytes L) es)" by (simp add: sort_events_def)
  then show ?thesis unfolding retained_event_bytes_def by (metis sum_mset_sum_list)
qed

section \<open>What survives, independent of the order\<close>

type_synonym event_summary = "(nat \<times> str) \<times> str option"

definition summary_of :: "CommandEvent \<Rightarrow> event_summary" where
  "summary_of e = (command_rank e, ce_timestamp e)"

definition join_summary :: "event_summary \<Rightarrow> event_summary \<Rightarrow> event_summary" where
  "join_summary a b = (max (fst a) (fst b), earliest (snd a) (snd b))"

lemma earliest_simps [simp]: "earliest None t = t" "earliest s None = s" "earliest (Some a) (Some b) = Some (min a b)"
  by (cases s; simp add: earliest_def)+

lemma earliest_commute: "earliest s t = earliest t s"
  by (cases s; cases t) (simp_all add: min.commute)

lemma summary_merge: "summary_of (merge_events p e) = join_summary (summary_of p) (summary_of e)"
proof -
  have stamp: "command_rank (x\<lparr>ce_timestamp := t\<rparr>) = command_rank x" for x :: CommandEvent and t
    by (simp add: command_rank_def)
  have m: "max (command_rank p) (command_rank e) = (if command_rank p < command_rank e then command_rank e else command_rank p)"
    by (simp add: max_def not_less less_imp_le antisym_conv1)
  show ?thesis by (simp add: summary_of_def join_summary_def merge_events_def stamp m)
qed

lemma earliest_left_commute: "earliest s (earliest t u) = earliest t (earliest s u)"
  by (cases s; cases t; cases u) (simp_all add: min.left_commute min.commute)

lemma join_left_commute: "join_summary a (join_summary b c) = join_summary b (join_summary a c)"
  by (simp add: join_summary_def max.left_commute earliest_left_commute)

lemma join_commute: "join_summary a b = join_summary b a"
  by (simp add: join_summary_def max.commute earliest_commute)

definition least_summary :: event_summary where
  "least_summary = ((0, []), None)"

lemma join_least: "join_summary least_summary a = a"
proof -
  have "(0, []) \<le> fst a" by (cases a) (simp add: less_eq_prod_def)
  then show ?thesis by (simp add: join_summary_def least_summary_def max_absorb2)
qed

text \<open>The summary of all events of a multiset with one identity.\<close>

definition group_summary :: "CommandEvent multiset \<Rightarrow> DedupKey \<Rightarrow> event_summary" where
  "group_summary M k = fold_mset (\<lambda>e. join_summary (summary_of e)) least_summary (filter_mset (\<lambda>e. dedup_key e = Some k) M)"

lemma comp_fun_commute_join: "comp_fun_commute (\<lambda>e. join_summary (summary_of e))"
  by standard (auto simp: join_left_commute)

lemma foldl_merge_summary:
  "summary_of (foldl merge_events e g) = fold_mset (\<lambda>e. join_summary (summary_of e)) least_summary (mset (e # g))"
proof -
  let ?f = "\<lambda>e. join_summary (summary_of e)"
  note comm = comp_fun_commute.fold_mset_fun_left_comm [OF comp_fun_commute_join]
    and add = comp_fun_commute.fold_mset_add_mset [OF comp_fun_commute_join]
  have "summary_of (foldl merge_events e g) = fold_mset ?f (summary_of e) (mset g)"
  proof (induction g arbitrary: e)
    case (Cons x g)
    have "join_summary (summary_of e) (summary_of x) = ?f x (summary_of e)" by (rule join_commute)
    then show ?case using Cons by (simp add: summary_merge add comm)
  qed simp
  also have "summary_of e = ?f e least_summary" by (simp add: join_commute [of _ least_summary] join_least)
  finally show ?thesis by (simp add: add comm)
qed

definition survivors :: "CommandEvent multiset \<Rightarrow> (DedupKey option \<times> event_summary) multiset" where
  "survivors M =
     image_mset (\<lambda>e. (None, summary_of e)) (filter_mset (\<lambda>e. dedup_key e = None) M) +
     image_mset (\<lambda>k. (Some k, group_summary M k)) (mset_set (Some -` (dedup_key ` set_mset M)))"

lemma merged_pairs_survivors:
  "image_mset (\<lambda>(k, e). (k, summary_of e)) (mset (merged_pairs es)) = survivors (mset es)"
proof (induction es rule: merged_pairs.induct)
  case 1
  then show ?case by (simp add: survivors_def)
next
  case (2 e es)
  show ?case
  proof (cases "dedup_key e")
    case None
    have "Some -` (dedup_key ` set_mset (mset (e # es))) = Some -` (dedup_key ` set_mset (mset es))" using None by auto
    moreover have "group_summary (mset (e # es)) k = group_summary (mset es) k" for k using None by (simp add: group_summary_def)
    ultimately show ?thesis using None 2(1) by (simp add: survivors_def)
  next
    case (Some key)
    define rest where "rest = filter (\<lambda>x. dedup_key x \<noteq> Some key) es"
    define K where "K = Some -` (dedup_key ` set rest)"
    have keys: "Some -` (dedup_key ` set_mset (mset (e # es))) = insert key K"
    proof -
      have rest: "dedup_key ` set rest = dedup_key ` set es - {Some key}" by (auto simp: rest_def)
      have all_keys: "dedup_key ` set (e # es) = insert (Some key) (dedup_key ` set es)" using Some by simp
      show ?thesis unfolding K_def set_mset_mset rest all_keys by auto
    qed
    have fin: "finite K" unfolding K_def by (rule finite_vimageI) simp_all
    have new: "key \<notin> K" unfolding K_def rest_def by auto
    have other: "group_summary (mset (e # es)) k = group_summary (mset rest) k" if "k \<noteq> key" for k
    proof -
      have "filter_mset (\<lambda>x. dedup_key x = Some k) (mset (e # es)) = filter_mset (\<lambda>x. dedup_key x = Some k) (mset rest)"
        using that Some unfolding rest_def by (auto simp: filter_filter_mset intro!: filter_mset_cong)
      then show ?thesis by (simp only: group_summary_def)
    qed
    have first: "group_summary (mset (e # es)) key = summary_of (foldl merge_events e (filter (\<lambda>x. dedup_key x = Some key) es))"
      using Some by (simp add: foldl_merge_summary group_summary_def)
    have same: "image_mset (\<lambda>k. (Some k, group_summary (mset (e # es)) k)) (mset_set K) =
        image_mset (\<lambda>k. (Some k, group_summary (mset rest) k)) (mset_set K)"
    proof (rule image_mset_cong)
      fix k
      assume "k \<in># mset_set K"
      then have "k \<noteq> key" using new by (metis elem_mset_set fin)
      from other [OF this] show "(Some k, group_summary (mset (e # es)) k) = (Some k, group_summary (mset rest) k)" by (rule arg_cong)
    qed
    have none: "filter_mset (\<lambda>x. dedup_key x = None) (mset (e # es)) = filter_mset (\<lambda>x. dedup_key x = None) (mset rest)"
      using Some unfolding rest_def by (auto simp: filter_filter_mset intro!: filter_mset_cong)
    have K: "Some -` (dedup_key ` set_mset (mset rest)) = K" by (simp add: K_def)
    have "survivors (mset (e # es)) =
        add_mset (Some key, summary_of (foldl merge_events e (filter (\<lambda>x. dedup_key x = Some key) es))) (survivors (mset rest))"
      unfolding survivors_def keys K none mset_set.insert [OF fin new] image_mset_add_mset same first by simp
    then show ?thesis using Some 2(2) [OF Some] unfolding rest_def by simp
  qed
qed

section \<open>Properties\<close>

text \<open>
  Claim C29.  Deduplication under a budget that holds the events never panics and equals the reference without table and
  budget: it returns exactly the merged events in sorted order, and afterwards the budget holds exactly the survivors in place
  of all events; it fails only when the budget has no room for the keys of the table.
\<close>

theorem dedup_within_budget:
  assumes "retained_event_bytes L events \<le> sb_used b" "sb_used b \<le> sb_limit b" "sb_limit b \<le> usize_max"
  shows "\<exists>r b'. deduplicate_events_within L events b = Some (r, b') \<and> sb_limit b' = sb_limit b \<and>
    (case r of
       Inl e \<Rightarrow> e = State_Limit \<and> sb_limit b < sb_used b + new_key_bytes L [] events
     | Inr result \<Rightarrow> result = sort_events (merged_events events) \<and>
         sb_used b' + retained_event_bytes L events = sb_used b + retained_event_bytes L result)"
proof -
  obtain r b' where out: "dedup_loop L events (\<lambda>_. None) [] 0 b = Some (r, b')" "sb_limit b' = sb_limit b"
    "r = Inl State_Limit \<or> r = Inr (merged_events events)"
    "exact_budget L events (merged_events []) 0 b \<longrightarrow> exact_outcome L [] events (merged_events []) 0 b (r, b')"
    using dedup_from_start [of L 0 events b] unfolding dedup_outcome_def by fastforce
  have "exact_budget L events (merged_events []) 0 b" using assms by (simp add: exact_budget_def merged_events_def)
  then have "exact_outcome L [] events (merged_events []) 0 b (r, b')" using out(4) by blast
  then show ?thesis using out(1-3)
    by (auto simp: deduplicate_events_within_def exact_outcome_def merged_events_def split: sum.splits)
qed

text \<open>
  The unlimited deduplication never reaches its unreachable branch: it returns the merged events in sorted
  order whenever the events and the key table fit the address space twice over.
\<close>

lemma deduplicate_events_total:
  assumes "retained_event_bytes L events + new_key_bytes L [] events \<le> usize_max"
  shows "deduplicate_events L events = Some (sort_events (merged_events events))"
proof -
  let ?b = unlimited_budget
  have "roomy_budget L (retained_event_bytes L events) [] events (merged_events []) 0 ?b"
    using assms by (simp add: roomy_budget_def merged_events_def unlimited_budget_def new_state_budget_def)
  then obtain b' where "dedup_loop L events (\<lambda>_. None) [] 0 ?b = Some (Inr (merged_events events), b')"
    using dedup_from_start [of L "retained_event_bytes L events" events ?b] unfolding dedup_outcome_def by fastforce
  then show ?thesis by (simp add: deduplicate_events_def deduplicate_events_within_def)
qed

text \<open>
  What survives does not depend on the order of the input: permuted events give the same survivors with the
  same commands and timestamps; events without an identity all stay, and every identity keeps exactly one event,
  with the longest command of its events and the earliest of their timestamps.
\<close>

lemma dedup_order_independent:
  assumes "mset events = mset events'"
  shows "image_mset summary_of (mset (sort_events (merged_events events))) =
      image_mset summary_of (mset (sort_events (merged_events events'))) \<and>
    image_mset summary_of (mset (merged_events events)) = image_mset snd (survivors (mset events))"
proof -
  have "image_mset summary_of (mset (merged_events es)) = image_mset snd (survivors (mset es))" for es
  proof -
    have "image_mset snd (survivors (mset es)) = image_mset snd (image_mset (\<lambda>(k, e). (k, summary_of e)) (mset (merged_pairs es)))"
      by (simp add: merged_pairs_survivors)
    also have "\<dots> = image_mset summary_of (mset (merged_events es))"
      by (simp add: merged_events_def image_mset.compositionality comp_def case_prod_unfold)
    finally show ?thesis by simp
  qed
  then show ?thesis using assms by (simp add: sort_events_def)
qed

definition demo_layout :: layout where
  "demo_layout = \<lparr> size_of_event = 400, size_of_maven = 200, size_of_dedup_key = 100 \<rparr>"

definition demo_event :: "string \<Rightarrow> string \<Rightarrow> CommandEvent" where
  "demo_event time command =
     \<lparr> ce_timestamp = Some (lit time), ce_ide = lit ''codex'', ce_agent = None, ce_project = None, ce_session = None,
       ce_tool = lit ''bash'', ce_cwd = None, ce_command = lit command, ce_category = Shell, ce_call_id = Some (lit ''7''),
       ce_maven = None, ce_provenance = [] \<rparr>"

definition demo_events :: "CommandEvent list" where
  "demo_events = [demo_event ''2026-01-02'' ''mvn'', demo_event ''2026-01-01'' ''mvn test'', demo_event ''2026-01-03'' ''mvn'']"

theorem dedup_within_budget_witness:
  "\<exists>b'. deduplicate_events_within demo_layout demo_events \<lparr> sb_limit = 5000, sb_used = 1500 \<rparr> =
      Some (Inr [demo_event ''2026-01-01'' ''mvn test''], b') \<and>
    sb_used b' + retained_event_bytes demo_layout demo_events =
      1500 + retained_event_bytes demo_layout [demo_event ''2026-01-01'' ''mvn test'']"
proof -
  have fits: "retained_event_bytes demo_layout demo_events \<le> sb_used \<lparr> sb_limit = 5000, sb_used = 1500 \<rparr>" by code_simp
  have run: "map_option fst (deduplicate_events_within demo_layout demo_events \<lparr> sb_limit = 5000, sb_used = 1500 \<rparr>) =
      Some (Inr [demo_event ''2026-01-01'' ''mvn test''])"
    by code_simp
  from run obtain b' where b': "deduplicate_events_within demo_layout demo_events \<lparr> sb_limit = 5000, sb_used = 1500 \<rparr> =
      Some (Inr [demo_event ''2026-01-01'' ''mvn test''], b')" by auto
  have small: "sb_used \<lparr> sb_limit = 5000, sb_used = 1500 \<rparr> \<le> sb_limit \<lparr> sb_limit = 5000, sb_used = 1500 \<rparr>"
    "sb_limit \<lparr> sb_limit = 5000, sb_used = 1500 \<rparr> \<le> usize_max" by (simp_all add: usize_max_def)
  obtain r c where rc: "deduplicate_events_within demo_layout demo_events \<lparr> sb_limit = 5000, sb_used = 1500 \<rparr> = Some (r, c)"
    "case r of Inl e \<Rightarrow> e = State_Limit \<and> sb_limit \<lparr> sb_limit = 5000, sb_used = 1500 \<rparr>
         < sb_used \<lparr> sb_limit = 5000, sb_used = 1500 \<rparr> + new_key_bytes demo_layout [] demo_events
     | Inr result \<Rightarrow> result = sort_events (merged_events demo_events) \<and>
         sb_used c + retained_event_bytes demo_layout demo_events =
           sb_used \<lparr> sb_limit = 5000, sb_used = 1500 \<rparr> + retained_event_bytes demo_layout result"
    using dedup_within_budget [OF fits small] by (elim exE conjE)
  then have "r = Inr [demo_event ''2026-01-01'' ''mvn test'']" "c = b'" using b' by simp_all
  then show ?thesis using rc(2) b' by (simp del: retained_simps)
qed

end
