(* ===== verification/Shell_Commands.thy ===== *)
theory Shell_Commands
  imports Event_Log "HOL-Library.Sublist"
begin

text \<open>
  Reading recorded shell commands (\<open>src/log_analysis/shell.rs\<close>): words, boundaries and redirections of a
  command line, the commands in it, and the arguments of a Maven command.

  One turn of the loop of \<open>tokens\<close> is \<open>token_step\<close>: it takes the next character and returns the new state
  and the characters that are left.  A call of the closure \<open>argument\<close> gives the value and the words
  that are left; where the code moves its index past the last word, no words are left.
\<close>

section \<open>Tokens\<close>

datatype token = Word str | Boundary | Redirect

record scan =
  sc_result :: "token list"
  sc_word :: str
  sc_started :: bool
  sc_plain_word :: bool
  sc_quote :: "ch option"

definition start_scan :: scan where
  "start_scan = \<lparr> sc_result = [], sc_word = [], sc_started = False, sc_plain_word = True, sc_quote = None \<rparr>"

definition next_is :: "string \<Rightarrow> str \<Rightarrow> bool" where
  "next_is s r \<longleftrightarrow> r \<noteq> [] \<and> hd r \<in> set (lit s)"

abbreviation is_ch :: "ch \<Rightarrow> string \<Rightarrow> bool" where
  "is_ch c s \<equiv> c \<in> set (lit s)"

definition push_word :: "scan \<Rightarrow> scan" where
  "push_word s =
     (if sc_started s
      then s \<lparr> sc_result := sc_result s @ [Word (sc_word s)], sc_word := [], sc_started := False, sc_plain_word := True \<rparr>
      else s)"

definition push_token :: "token \<Rightarrow> scan \<Rightarrow> scan" where
  "push_token t s = s \<lparr> sc_result := sc_result s @ [t] \<rparr>"

definition escaped :: "scan \<Rightarrow> str \<Rightarrow> (scan \<times> str) option" where
  "escaped s r =
     (case r of
        [] \<Rightarrow> None
      | following # r \<Rightarrow>
          let s = s \<lparr> sc_plain_word := False \<rparr>
          in if following = 10 then Some (s, r)
             else Some (s \<lparr> sc_word := sc_word s @
                     (if sc_quote s = Some 34 \<and> following \<notin> {36, 96, 34, 92} then [92] else []) @ [following],
                   sc_started := True \<rparr>, r))"

definition redirection :: "scan \<Rightarrow> ch \<Rightarrow> str \<Rightarrow> scan \<times> str" where
  "redirection s c r =
     (let result = (if sc_started s \<and> \<not> (sc_plain_word s \<and> list_all is_ascii_digit (sc_word s))
                    then sc_result s @ [Word (sc_word s)] else sc_result s);
          r = (if is_ch c ''&'' then (if next_is ''>'' (tl r) then tl (tl r) else tl r)
               else if is_ch c ''>'' \<and> next_is ''>|&'' r \<or> is_ch c ''<'' \<and> next_is ''&>'' r then tl r
               else r)
      in (s \<lparr> sc_result := result @ [Redirect], sc_word := [], sc_started := False, sc_plain_word := True \<rparr>, r))"

definition token_step :: "scan \<Rightarrow> ch \<Rightarrow> str \<Rightarrow> (scan \<times> str) option" where
  "token_step s c r =
     (if c = 92 \<and> sc_quote s \<noteq> Some 39 then escaped s r
      else if Some c = sc_quote s then Some (s \<lparr> sc_quote := None \<rparr>, r)
      else if sc_quote s = Some 39 then Some (s \<lparr> sc_word := sc_word s @ [c] \<rparr>, r)
      else if is_ch c ''`'' \<or> is_ch c ''$'' \<and> next_is ''('' r \<or> sc_quote s = None \<and> is_ch c ''<'' \<and> next_is ''<'' r then None
      else if sc_quote s = None \<and> (c = 39 \<or> c = 34)
      then Some (s \<lparr> sc_quote := Some c, sc_started := True, sc_plain_word := False \<rparr>, r)
      else if sc_quote s = None \<and> (is_ch c ''<>'' \<or> is_ch c ''&'' \<and> next_is ''>'' r) then Some (redirection s c r)
      else if sc_quote s = None \<and> is_ch c ''#'' \<and> \<not> sc_started s
      then Some (push_token Boundary s, tl (dropWhile (\<lambda>c. c \<noteq> 10) r))
      else if sc_quote s = None \<and> (is_whitespace c \<or> is_ch c '';|&()'')
      then Some (if \<not> is_whitespace c \<or> c = 10 then push_token Boundary (push_word s) else push_word s, r)
      else Some (s \<lparr> sc_word := sc_word s @ [c], sc_started := True \<rparr>, r))"

lemma token_step_suffix: "token_step s c r = Some (s', r') \<Longrightarrow> suffix r' r"
proof -
  assume step: "token_step s c r = Some (s', r')"
  have tl: "suffix (tl x) x" "suffix (tl (tl x)) x" "suffix (tl (dropWhile P x)) x" for x :: str and P
    by (metis suffix_tl suffix_order.trans suffix_dropWhile)+
  show ?thesis using step tl
    by (auto simp: token_step_def escaped_def redirection_def Let_def suffix_Cons split: list.splits if_splits)
qed

function tokens_loop :: "scan \<Rightarrow> str \<Rightarrow> token list option" where
  "tokens_loop s [] =
     (if sc_quote s \<noteq> None then None else Some (if sc_started s then sc_result s @ [Word (sc_word s)] else sc_result s))"
| "tokens_loop s (c # r) =
     (case token_step s c r of None \<Rightarrow> None | Some (s', r') \<Rightarrow> tokens_loop s' r')"
  by pat_completeness auto
termination
  by (relation "measure (\<lambda>(s, r). length r)") (auto dest!: token_step_suffix suffix_length_le)

definition tokens :: "str \<Rightarrow> token list option" where
  "tokens command = tokens_loop start_scan command"

section \<open>Invocations\<close>

text \<open>\<open>rsplit(['/', '\\']).next()\<close>.\<close>

definition executable_name :: "str \<Rightarrow> str" where
  "executable_name v = rev (takeWhile (\<lambda>c. c \<noteq> 47 \<and> c \<noteq> 92) (rev v))"

definition is_assignment :: "str \<Rightarrow> bool" where
  "is_assignment word \<longleftrightarrow>
     (case split_once (lit ''='') word of
        None \<Rightarrow> False
      | Some (key, _) \<Rightarrow>
          key \<noteq> [] \<and> list_all (\<lambda>c. is_ch c ''_'' \<or> is_ascii_alphabetic c \<or> is_ascii_digit c) key \<and> \<not> is_ascii_digit (hd key))"

text \<open>The words of a segment that are not targets of redirections, and whether a target is missing.\<close>

fun segment_words :: "bool \<Rightarrow> token list \<Rightarrow> str list \<times> bool" where
  "segment_words skip_target [] = ([], skip_target)"
| "segment_words skip_target (Redirect # ts) = segment_words True ts"
| "segment_words skip_target (Word w # ts) =
     (if skip_target then segment_words False ts
      else let (words, missing) = segment_words skip_target ts in (w # words, missing))"
| "segment_words skip_target (Boundary # ts) = segment_words skip_target ts"

definition strip_environment :: "str list \<Rightarrow> str list" where
  "strip_environment words =
     (case dropWhile is_assignment words of
        [] \<Rightarrow> []
      | w # ws \<Rightarrow>
          if executable_name w = lit ''env''
          then dropWhile (\<lambda>w. is_assignment w \<or> w \<in> {lit ''-i'', lit ''--ignore-environment'', lit ''--''}) ws
          else w # ws)"

definition segment_invocation :: "token list \<Rightarrow> str list option" where
  "segment_invocation segment =
     (let (words, missing) = segment_words False segment
      in if missing then None
         else case strip_environment words of [] \<Rightarrow> None | ws \<Rightarrow> Some ws)"

definition invocations :: "str \<Rightarrow> str list list" where
  "invocations command =
     (case tokens command of
        None \<Rightarrow> []
      | Some ts \<Rightarrow> List.map_filter segment_invocation (split_on Boundary ts))"

section \<open>Maven commands\<close>

definition MAVEN_EXECUTABLES :: "str list" where
  "MAVEN_EXECUTABLES = map lit [''mvn'', ''mvn.cmd'', ''mvnw'', ''mvnw.cmd'', ''mvnd'', ''mvnd.cmd'']"

definition LIFECYCLE :: "str list" where
  "LIFECYCLE = map lit
     [''pre-clean'', ''clean'', ''post-clean'', ''validate'', ''initialize'', ''generate-sources'', ''process-sources'',
      ''generate-resources'', ''process-resources'', ''compile'', ''process-classes'', ''generate-test-sources'',
      ''process-test-sources'', ''generate-test-resources'', ''process-test-resources'', ''test-compile'',
      ''process-test-classes'', ''test'', ''prepare-package'', ''package'', ''pre-integration-test'', ''integration-test'',
      ''post-integration-test'', ''verify'', ''install'', ''deploy'', ''pre-site'', ''site'', ''post-site'', ''site-deploy'']"

definition OPTIONS_WITH_VALUE :: "str list" where
  "OPTIONS_WITH_VALUE = map lit
     [''-s'', ''--settings'', ''-gs'', ''--global-settings'', ''-t'', ''--toolchains'', ''-gt'', ''--global-toolchains'', ''-T'',
      ''--threads'', ''-l'', ''--log-file'', ''-b'', ''--builder'', ''-emp'', ''--encrypt-master-password'', ''-ep'', ''--encrypt-password'']"

definition csv :: "str \<Rightarrow> str list" where
  "csv v = filter (\<lambda>s. s \<noteq> []) (split_on 44 v)"

definition argument :: "string \<Rightarrow> string \<Rightarrow> str \<Rightarrow> str list \<Rightarrow> (str \<times> str list) option" where
  "argument short long tok rest =
     (if tok = lit short \<or> tok = lit long then (case rest of [] \<Rightarrow> None | v # rest \<Rightarrow> Some (v, rest))
      else map_option (\<lambda>v. (dropWhile ((=) 61) v, rest))
        (case strip_prefix (lit long @ lit ''='') tok of
           Some v \<Rightarrow> Some v
         | None \<Rightarrow> (case strip_prefix (lit short) tok of None \<Rightarrow> None | Some v \<Rightarrow> if v = [] then None else Some v)))"

definition define_property :: "str \<Rightarrow> MavenCommand \<Rightarrow> MavenCommand" where
  "define_property v m =
     (let (key, v) = (case split_once (lit ''='') v of None \<Rightarrow> (v, lit ''true'') | Some kv \<Rightarrow> kv);
          m = (if key = lit ''test'' \<or> key = lit ''it.test'' then m \<lparr> mc_tests := mc_tests m @ csv v \<rparr> else m)
      in m \<lparr> mc_properties := bt_insert key v (mc_properties m) \<rparr>)"

text \<open>One turn of the argument loop: the new command and the words that are left.\<close>

definition maven_argument :: "str \<Rightarrow> str list \<Rightarrow> MavenCommand \<Rightarrow> MavenCommand \<times> str list" where
  "maven_argument tok rest m =
     (if tok = lit ''-am'' \<or> tok = lit ''--also-make'' then (m \<lparr> mc_also_make := True \<rparr>, rest)
      else if tok = lit ''-amd'' \<or> tok = lit ''--also-make-dependents'' then (m \<lparr> mc_also_make_dependents := True \<rparr>, rest)
      else case argument ''-pl'' ''--projects'' tok rest of
        Some (v, rest) \<Rightarrow> (m \<lparr> mc_modules := mc_modules m @ csv v \<rparr>, rest)
      | None \<Rightarrow>
     (case argument ''-rf'' ''--resume-from'' tok rest of
        Some (v, rest) \<Rightarrow> (m \<lparr> mc_resume_from := Some v \<rparr>, rest)
      | None \<Rightarrow>
     (case argument ''-P'' ''--activate-profiles'' tok rest of
        Some (v, rest) \<Rightarrow> (m \<lparr> mc_profiles := mc_profiles m @ csv v \<rparr>, rest)
      | None \<Rightarrow>
     (case argument ''-D'' ''--define'' tok rest of
        Some (v, rest) \<Rightarrow> (define_property v m, rest)
      | None \<Rightarrow>
      if tok \<in> {lit ''-ff'', lit ''-fae'', lit ''-fn''} then (m, rest)
      else case argument ''-f'' ''--file'' tok rest of
        Some (v, rest) \<Rightarrow> (m \<lparr> mc_pom_file := Some v \<rparr>, rest)
      | None \<Rightarrow>
      if tok \<in> set OPTIONS_WITH_VALUE then (m, drop 1 rest)
      else if tok \<in> set LIFECYCLE then (m \<lparr> mc_lifecycle_goals := mc_lifecycle_goals m @ [tok] \<rparr>, rest)
      else if \<not> starts_with (lit ''-'') tok \<and> contains (lit '':'') tok \<and> \<not> contains (lit ''/'') tok \<and> \<not> contains (lit ''='') tok
      then (m \<lparr> mc_plugin_goals := mc_plugin_goals m @ [tok] \<rparr>, rest)
      else (m, rest)))))"

lemma argument_length: "argument short long tok rest = Some (v, rest') \<Longrightarrow> length rest' \<le> length rest"
  by (auto simp: argument_def split: if_splits list.splits option.splits)

lemma rest_of_option:
  "(\<And>v r. a = Some (v, r) \<Longrightarrow> length (snd (f v r)) \<le> n) \<Longrightarrow> length (snd g) \<le> n \<Longrightarrow>
   length (snd (case a of None \<Rightarrow> g | Some (v, r) \<Rightarrow> f v r)) \<le> n"
  by (cases a) auto

lemma rest_of_if: "length (snd f) \<le> n \<Longrightarrow> length (snd g) \<le> n \<Longrightarrow> length (snd (if b then f else g)) \<le> n"
  by simp

lemma maven_argument_length: "length (snd (maven_argument tok rest m)) \<le> length rest"
  unfolding maven_argument_def by (intro rest_of_option rest_of_if) (simp_all add: argument_length)

function maven_arguments :: "str list \<Rightarrow> MavenCommand \<Rightarrow> MavenCommand" where
  "maven_arguments [] m = m"
| "maven_arguments (tok # rest) m = (let (m', rest') = maven_argument tok rest m in maven_arguments rest' m')"
  by pat_completeness auto
termination
proof (relation "measure (\<lambda>(ws, m). length ws)")
  fix tok rest m x m' rest'
  assume "x = maven_argument tok rest m" "(m', rest') = x"
  then have "rest' = snd (maven_argument tok rest m)" by (metis snd_conv)
  then show "((rest', m'), (tok # rest, m)) \<in> measure (\<lambda>(ws, m). length ws)"
    using maven_argument_length [of tok rest m] by simp
qed simp

definition new_maven_command :: "str \<Rightarrow> MavenCommand" where
  "new_maven_command executable =
     \<lparr> mc_executable = executable, mc_lifecycle_goals = [], mc_plugin_goals = [], mc_modules = [], mc_also_make = False,
       mc_also_make_dependents = False, mc_resume_from = None, mc_pom_file = None, mc_tests = [], mc_profiles = [],
       mc_properties = [] \<rparr>"

definition parse_maven_command :: "str \<Rightarrow> MavenCommand option" where
  "parse_maven_command command =
     map_option (\<lambda>words. maven_arguments (tl words) (new_maven_command (executable_name (hd words))))
       (find (\<lambda>words. executable_name (hd words) \<in> set MAVEN_EXECUTABLES) (invocations command))"

definition repository_category :: "str \<Rightarrow> CommandCategory" where
  "repository_category command =
     (let relevant = filter (\<lambda>words. executable_name (hd words) \<in>
            {lit ''find'', lit ''jar'', lit ''unzip'', lit ''javap'', lit ''grep'', lit ''rg''}) (invocations command);
          lower = join (lit '' '') (map to_ascii_lowercase (concat relevant));
          has = (\<lambda>s. contains (lit s) lower)
      in if relevant = [] then Shell
         else if list_ex (\<lambda>words. executable_name (hd words) = lit ''javap'') relevant \<or> has ''.class'' then ClassInspection
         else if has ''pom.xml'' \<or> has ''.pom'' then PomInspection
         else if has ''meta-inf'' \<or> has ''resources'' \<or>
                 has ''.jar'' \<and> list_ex has [''.xml'', ''.properties'', ''.yaml'', ''.yml'', ''.json''] then ResourceInspection
         else if has ''.jar'' \<or> has ''.m2'' \<or>
                 list_ex (\<lambda>words. executable_name (hd words) \<in> {lit ''jar'', lit ''unzip''}) relevant then JarInspection
         else Shell)"

section \<open>Quoted words\<close>

text \<open>A word in single quotes, each quote in it closed, escaped and opened again.\<close>

definition sh_quote :: "str \<Rightarrow> str" where
  "sh_quote w = [39] @ concat (map (\<lambda>c. if c = 39 then [39, 92, 39, 39] else [c]) w) @ [39]"

definition sh_words :: "str list \<Rightarrow> str" where
  "sh_words ws = join [32] (map sh_quote ws)"

lemma tokens_in_quote:
  "sc_quote s = Some 39 \<Longrightarrow> sc_started s \<Longrightarrow> \<not> sc_plain_word s \<Longrightarrow>
   tokens_loop s (concat (map (\<lambda>c. if c = 39 then [39, 92, 39, 39] else [c]) w) @ 39 # r) =
     tokens_loop (s \<lparr> sc_word := sc_word s @ w, sc_quote := None \<rparr>) r"
proof (induction w arbitrary: s)
  case Nil
  then show ?case by (simp add: token_step_def)
next
  case (Cons c w)
  show ?case
  proof (cases "c = 39")
    case True
    have eq: "s \<lparr> sc_word := x, sc_quote := Some 39, sc_started := True, sc_plain_word := False \<rparr> = s \<lparr> sc_word := x \<rparr>" for x
      using Cons.prems by (cases s) simp
    show ?thesis using Cons.prems True Cons.IH [of "s \<lparr> sc_word := sc_word s @ [39] \<rparr>"]
      by (simp add: token_step_def escaped_def Let_def eq)
  next
    case False
    then show ?thesis using Cons.prems Cons.IH [of "s \<lparr> sc_word := sc_word s @ [c] \<rparr>"]
      by (simp add: token_step_def)
  qed
qed

lemma tokens_quoted_word:
  assumes "sc_quote s = None" "\<not> sc_started s" "sc_word s = []"
  shows "tokens_loop s (sh_quote w @ r) = tokens_loop (s \<lparr> sc_word := w, sc_started := True, sc_plain_word := False \<rparr>) r"
proof -
  have eq: "s \<lparr> sc_started := True, sc_plain_word := False, sc_word := w, sc_quote := None \<rparr> =
      s \<lparr> sc_word := w, sc_started := True, sc_plain_word := False \<rparr>" using assms(1) by (cases s) simp
  have "tokens_loop s (sh_quote w @ r) =
      tokens_loop (s \<lparr> sc_quote := Some 39, sc_started := True, sc_plain_word := False \<rparr>)
        (concat (map (\<lambda>c. if c = 39 then [39, 92, 39, 39] else [c]) w) @ 39 # r)"
    using assms by (simp add: sh_quote_def token_step_def next_is_def)
  also have "\<dots> = tokens_loop (s \<lparr> sc_word := w, sc_started := True, sc_plain_word := False \<rparr>) r"
    using assms by (subst tokens_in_quote) (simp_all add: eq)
  finally show ?thesis .
qed

lemma tokens_sh_words:
  "tokens_loop (start_scan \<lparr> sc_result := ts \<rparr>) (sh_words ws) = Some (ts @ map Word ws)"
proof (induction ws arbitrary: ts)
  case Nil
  then show ?case by (simp add: sh_words_def start_scan_def)
next
  case (Cons w ws)
  show ?case
  proof (cases ws)
    case Nil
    then show ?thesis using tokens_quoted_word [of "start_scan \<lparr> sc_result := ts \<rparr>" w "[]"]
      by (simp add: sh_words_def start_scan_def)
  next
    case (Cons v vs)
    have space: "tokens_loop ((start_scan \<lparr> sc_result := ts \<rparr>) \<lparr> sc_word := w, sc_started := True, sc_plain_word := False \<rparr>) (32 # r) =
        tokens_loop (start_scan \<lparr> sc_result := ts @ [Word w] \<rparr>) r" for r
      by (simp add: token_step_def start_scan_def next_is_def push_word_def is_whitespace_def)
    have "tokens_loop (start_scan \<lparr> sc_result := ts \<rparr>) (sh_words (w # ws)) =
        tokens_loop ((start_scan \<lparr> sc_result := ts \<rparr>) \<lparr> sc_word := w, sc_started := True, sc_plain_word := False \<rparr>) (32 # sh_words ws)"
      using tokens_quoted_word [of "start_scan \<lparr> sc_result := ts \<rparr>" w "32 # sh_words ws"] Cons
      by (simp add: sh_words_def start_scan_def)
    then show ?thesis using Cons.IH [of "ts @ [Word w]"] by (simp only: space) simp
  qed
qed

lemma tokens_of_words: "tokens (sh_words ws) = Some (map Word ws)"
  using tokens_sh_words [of "[]" ws] by (simp add: tokens_def start_scan_def)

lemma segment_words_only: "segment_words False (map Word ws) = (ws, False)"
  by (induction ws) simp_all

lemma split_on_absent: "d \<notin> set xs \<Longrightarrow> split_on d xs = [xs]"
  by (induction xs) auto

lemma invocations_of_words:
  "invocations (sh_words ws) = (case strip_environment ws of [] \<Rightarrow> [] | vs \<Rightarrow> [vs])"
proof -
  have "split_on Boundary (map Word ws) = [map Word ws]" by (rule split_on_absent) auto
  then show ?thesis
    by (auto simp: invocations_def tokens_of_words segment_invocation_def segment_words_only List.map_filter_def split: list.splits)
qed

section \<open>Text of the words\<close>

text \<open>The text of the words collected so far is made of characters of the command, in order.\<close>

fun token_text :: "token \<Rightarrow> str" where
  "token_text (Word w) = w"
| "token_text Boundary = []"
| "token_text Redirect = []"

definition scan_text :: "scan \<Rightarrow> str" where
  "scan_text s = concat (map token_text (sc_result s)) @ sc_word s"

lemma subseq_keep: "subseq xs ys \<Longrightarrow> subseq (zs @ xs) (zs @ ys)"
  by (simp add: subseq_append')

lemma suffix_rest: "suffix (tl r) r" "suffix (tl (tl r)) r" "suffix (tl (dropWhile P r)) r"
  by (metis suffix_tl suffix_order.trans suffix_dropWhile)+

lemma subseq_skip2: "subseq r (a # b # r)"
  by (intro list_emb_Cons) simp

lemma escaped_text: "escaped s r = Some (s', r') \<Longrightarrow> subseq (scan_text s' @ r') (scan_text s @ 92 # r)"
  by (auto simp: escaped_def scan_text_def Let_def subseq_append' subseq_skip2 split: list.splits if_splits)

lemma redirection_text:
  assumes "redirection s c r = (s', r')"
  shows "subseq (scan_text s' @ r') (scan_text s @ c # r)"
proof -
  have "suffix r' r" using assms suffix_rest(1,2) [of r] by (auto simp: redirection_def Let_def split: if_splits)
  then have "subseq r' (c # r)" by (intro list_emb_Cons suffix_imp_subseq)
  moreover have "subseq (scan_text s') (scan_text s)" using assms by (auto simp: redirection_def scan_text_def Let_def split: if_splits)
  ultimately show ?thesis by (rule list_emb_append_mono [rotated])
qed

lemma push_word_text [simp]: "scan_text (push_word s) = scan_text s"
  by (simp add: push_word_def scan_text_def)

lemma push_token_text [simp]: "subseq (scan_text (push_token Boundary s)) (scan_text s)" "scan_text (push_token Boundary s) = scan_text s"
  by (simp_all add: push_token_def scan_text_def)

lemma token_step_text:
  assumes "token_step s c r = Some (s', r')"
  shows "subseq (scan_text s' @ r') (scan_text s @ c # r)"
proof -
  have skip: "subseq (scan_text s @ x) (scan_text s @ c # r)" if "suffix x r" for x
    using that by (intro subseq_keep list_emb_Cons suffix_imp_subseq)
  have upd: "scan_text (s\<lparr>sc_quote := q\<rparr>) = scan_text s" "scan_text (s\<lparr>sc_word := sc_word s @ [c]\<rparr>) = scan_text s @ [c]"
    "scan_text (s\<lparr>sc_quote := q, sc_started := True, sc_plain_word := False\<rparr>) = scan_text s"
    "scan_text (s\<lparr>sc_word := sc_word s @ [c], sc_started := True\<rparr>) = scan_text s @ [c]" for q
    by (simp_all add: scan_text_def)
  consider "c = 92" "escaped s r = Some (s', r')"
    | "s' = s\<lparr>sc_quote := None\<rparr>" "r' = r" | "s' = s\<lparr>sc_word := sc_word s @ [c]\<rparr>" "r' = r"
    | "s' = s\<lparr>sc_quote := Some c, sc_started := True, sc_plain_word := False\<rparr>" "r' = r"
    | "redirection s c r = (s', r')"
    | "s' = push_token Boundary s" "r' = tl (dropWhile (\<lambda>c. c \<noteq> 10) r)"
    | "s' \<in> {push_token Boundary (push_word s), push_word s}" "r' = r"
    | "s' = s\<lparr>sc_word := sc_word s @ [c], sc_started := True\<rparr>" "r' = r"
    using assms unfolding token_step_def by (auto split: if_splits)
  then show ?thesis
  proof cases
    case 1
    then show ?thesis using escaped_text by simp
  next
    case 5
    then show ?thesis by (rule redirection_text)
  next
    case 6
    then show ?thesis using skip [OF suffix_rest(3)] by simp
  next
    case 7
    then show ?thesis using skip [of r] by auto
  qed (use skip [of r] upd in simp_all)
qed

lemma tokens_loop_text: "tokens_loop s command = Some ts \<Longrightarrow> subseq (concat (map token_text ts)) (scan_text s @ command)"
proof (induction s command rule: tokens_loop.induct)
  case (1 s)
  then show ?case by (auto simp: scan_text_def split: if_splits)
next
  case (2 s c r)
  then obtain s' r' where step: "token_step s c r = Some (s', r')" "tokens_loop s' r' = Some ts" by (auto split: option.splits)
  then have "subseq (concat (map token_text ts)) (scan_text s' @ r')" using 2(1) by simp
  then show ?case using token_step_text [OF step(1)] by (rule subseq_order.trans)
qed

section \<open>Rendering a Maven command\<close>

definition property_word :: "str \<times> str \<Rightarrow> str" where
  "property_word = (\<lambda>(k, v). lit ''-D'' @ k @ [61] @ v)"

definition maven_words :: "MavenCommand \<Rightarrow> str list" where
  "maven_words m =
     [mc_executable m] @ (if mc_also_make m then [lit ''-am''] else []) @
     (if mc_also_make_dependents m then [lit ''-amd''] else []) @
     (if mc_modules m = [] then [] else [lit ''-pl'', join [44] (mc_modules m)]) @
     (case mc_resume_from m of None \<Rightarrow> [] | Some v \<Rightarrow> [lit ''-rf'', v]) @
     (if mc_profiles m = [] then [] else [lit ''-P'', join [44] (mc_profiles m)]) @
     map property_word (mc_properties m) @
     (case mc_pom_file m of None \<Rightarrow> [] | Some v \<Rightarrow> [lit ''-f'', v]) @ mc_lifecycle_goals m @ mc_plugin_goals m"

definition tests_of :: "(str \<times> str) list \<Rightarrow> str list" where
  "tests_of ps = concat (map (\<lambda>(k, v). if k = lit ''test'' \<or> k = lit ''it.test'' then csv v else []) ps)"

definition is_plugin_goal :: "str \<Rightarrow> bool" where
  "is_plugin_goal g \<longleftrightarrow> g \<notin> set LIFECYCLE \<and> \<not> starts_with (lit ''-'') g \<and> contains (lit '':'') g \<and> \<not> contains (lit ''/'') g \<and>
     \<not> contains (lit ''='') g"

text \<open>Commands that arguments can express: list entries without commas, property names without an equals sign.\<close>

definition maven_ok :: "MavenCommand \<Rightarrow> bool" where
  "maven_ok m \<longleftrightarrow>
     mc_executable m \<in> set MAVEN_EXECUTABLES \<and>
     list_all (\<lambda>s. s \<noteq> [] \<and> 44 \<notin> set s) (mc_modules m @ mc_profiles m) \<and>
     sorted_wrt (<) (map fst (mc_properties m)) \<and>
     list_all (\<lambda>(k, v). k \<noteq> [] \<and> 61 \<notin> set k) (mc_properties m) \<and> mc_tests m = tests_of (mc_properties m) \<and>
     list_all (\<lambda>g. g \<in> set LIFECYCLE) (mc_lifecycle_goals m) \<and> list_all is_plugin_goal (mc_plugin_goals m)"

lemma csv_join:
  assumes "xs \<noteq> []" "list_all (\<lambda>s. s \<noteq> [] \<and> 44 \<notin> set s) xs"
  shows "csv (join [44] xs) = xs"
proof -
  have "split_on 44 (join [44] xs) = xs" using assms by (intro split_on_join) (auto simp: list_all_iff)
  then show ?thesis using assms(2) by (simp add: csv_def list_all_iff)
qed

lemma no_argument: "tok \<noteq> [] \<Longrightarrow> hd tok \<noteq> 45 \<Longrightarrow> argument (CHR ''-'' # short) (CHR ''-'' # long) tok rest = None"
  by (cases tok) (auto simp: argument_def)

lemma plain_argument:
  assumes "tok \<noteq> []" "hd tok \<noteq> 45"
  shows "maven_argument tok rest m =
    (if tok \<in> set LIFECYCLE then (m \<lparr> mc_lifecycle_goals := mc_lifecycle_goals m @ [tok] \<rparr>, rest)
     else if contains (lit '':'') tok \<and> \<not> contains (lit ''/'') tok \<and> \<not> contains (lit ''='') tok
     then (m \<lparr> mc_plugin_goals := mc_plugin_goals m @ [tok] \<rparr>, rest) else (m, rest))"
proof -
  have option: "list_all (\<lambda>w. hd w = 45) OPTIONS_WITH_VALUE" by code_simp
  then have "tok \<notin> set OPTIONS_WITH_VALUE" using assms(2) by (auto simp: list_all_iff)
  moreover have "\<not> starts_with (lit ''-'') tok" using assms by (cases tok) (auto simp: starts_with_def)
  moreover have "tok \<noteq> 45 # w" for w using assms(2) by auto
  ultimately show ?thesis unfolding maven_argument_def by (simp add: no_argument assms)
qed

lemma lifecycle_plain: "g \<in> set LIFECYCLE \<Longrightarrow> g \<noteq> [] \<and> hd g \<noteq> 45"
proof -
  have "list_all (\<lambda>g. g \<noteq> [] \<and> hd g \<noteq> 45) LIFECYCLE" by code_simp
  then show "g \<in> set LIFECYCLE \<Longrightarrow> g \<noteq> [] \<and> hd g \<noteq> 45" by (auto simp: list_all_iff)
qed

lemma plugin_plain: "is_plugin_goal g \<Longrightarrow> g \<noteq> [] \<and> hd g \<noteq> 45"
  by (cases g) (auto simp: is_plugin_goal_def starts_with_def contains_def)

lemma read_lifecycle_goals:
  "list_all (\<lambda>g. g \<in> set LIFECYCLE) gs \<Longrightarrow>
   maven_arguments (gs @ r) m = maven_arguments r (m \<lparr> mc_lifecycle_goals := mc_lifecycle_goals m @ gs \<rparr>)"
  by (induction gs arbitrary: m) (simp_all add: plain_argument lifecycle_plain)

lemma read_plugin_goals:
  "list_all is_plugin_goal gs \<Longrightarrow>
   maven_arguments (gs @ r) m = maven_arguments r (m \<lparr> mc_plugin_goals := mc_plugin_goals m @ gs \<rparr>)"
proof (induction gs arbitrary: m)
  case (Cons g gs)
  then have "is_plugin_goal g" by simp
  then have "maven_argument g (gs @ r) m = (m \<lparr> mc_plugin_goals := mc_plugin_goals m @ [g] \<rparr>, gs @ r)"
    using plugin_plain [of g] by (simp add: plain_argument is_plugin_goal_def)
  then show ?case using Cons by simp
qed simp

lemma read_property:
  assumes "k \<noteq> []" "61 \<notin> set k"
  shows "maven_argument (property_word (k, v)) rest m =
    (m \<lparr> mc_tests := mc_tests m @ tests_of [(k, v)], mc_properties := bt_insert k v (mc_properties m) \<rparr>, rest)"
proof -
  have "dropWhile ((=) 61) (k @ 61 # v) = k @ 61 # v" using assms by (cases k) auto
  moreover have "define_property (k @ 61 # v) m =
      m \<lparr> mc_tests := mc_tests m @ tests_of [(k, v)], mc_properties := bt_insert k v (mc_properties m) \<rparr>"
    using split_once_ch [OF assms(2)] by (simp add: define_property_def tests_of_def)
  ultimately show ?thesis using assms by (simp add: property_word_def maven_argument_def argument_def)
qed

lemma bt_insert_last: "(\<And>a. a \<in> fst ` set m \<Longrightarrow> a < k) \<Longrightarrow> bt_insert k v m = m @ [(k, v)]"
  by (induction k v m rule: bt_insert.induct) (auto simp: less_imp_not_less)

lemma read_properties:
  "list_all (\<lambda>(k, v). k \<noteq> [] \<and> 61 \<notin> set k) ps \<Longrightarrow> sorted_wrt (<) (map fst (mc_properties m @ ps)) \<Longrightarrow>
   maven_arguments (map property_word ps @ r) m =
     maven_arguments r (m \<lparr> mc_tests := mc_tests m @ tests_of ps, mc_properties := mc_properties m @ ps \<rparr>)"
proof (induction ps arbitrary: m)
  case Nil
  then show ?case by (simp add: tests_of_def)
next
  case (Cons kv ps)
  obtain k v where kv: "kv = (k, v)" by fastforce
  have "bt_insert k v (mc_properties m) = mc_properties m @ [(k, v)]"
    using Cons.prems(2) by (intro bt_insert_last) (auto simp: sorted_wrt_append kv)
  then have step: "maven_argument (property_word kv) (map property_word ps @ r) m =
      (m \<lparr> mc_tests := mc_tests m @ tests_of [kv], mc_properties := mc_properties m @ [kv] \<rparr>, map property_word ps @ r)"
    using Cons.prems(1) by (simp add: kv read_property)
  have "tests_of [kv] @ tests_of ps = tests_of (kv # ps)" by (simp add: tests_of_def)
  then show ?case using Cons.prems Cons.IH [of "m \<lparr> mc_tests := mc_tests m @ tests_of [kv], mc_properties := mc_properties m @ [kv] \<rparr>"]
    by (simp add: step del: tests_of_def)
qed

lemma read_option_words:
  "maven_arguments (lit ''-am'' # r) m = maven_arguments r (m \<lparr> mc_also_make := True \<rparr>)"
  "maven_arguments (lit ''-amd'' # r) m = maven_arguments r (m \<lparr> mc_also_make_dependents := True \<rparr>)"
  "maven_arguments (lit ''-pl'' # v # r) m = maven_arguments r (m \<lparr> mc_modules := mc_modules m @ csv v \<rparr>)"
  "maven_arguments (lit ''-rf'' # v # r) m = maven_arguments r (m \<lparr> mc_resume_from := Some v \<rparr>)"
  "maven_arguments (lit ''-P'' # v # r) m = maven_arguments r (m \<lparr> mc_profiles := mc_profiles m @ csv v \<rparr>)"
  "maven_arguments (lit ''-f'' # v # r) m = maven_arguments r (m \<lparr> mc_pom_file := Some v \<rparr>)"
  by (simp_all add: maven_argument_def argument_def)

lemma read_segments:
  "maven_arguments ((if b then [lit ''-am''] else []) @ r) m = maven_arguments r (if b then m \<lparr> mc_also_make := True \<rparr> else m)"
  "maven_arguments ((if b then [lit ''-amd''] else []) @ r) m = maven_arguments r (if b then m \<lparr> mc_also_make_dependents := True \<rparr> else m)"
  "list_all (\<lambda>s. s \<noteq> [] \<and> 44 \<notin> set s) xs \<Longrightarrow>
   maven_arguments ((if xs = [] then [] else [lit ''-pl'', join [44] xs]) @ r) m = maven_arguments r (m \<lparr> mc_modules := mc_modules m @ xs \<rparr>)"
  "list_all (\<lambda>s. s \<noteq> [] \<and> 44 \<notin> set s) xs \<Longrightarrow>
   maven_arguments ((if xs = [] then [] else [lit ''-P'', join [44] xs]) @ r) m = maven_arguments r (m \<lparr> mc_profiles := mc_profiles m @ xs \<rparr>)"
  "maven_arguments ((case opt of None \<Rightarrow> [] | Some v \<Rightarrow> [lit ''-rf'', v]) @ r) m =
   maven_arguments r (case opt of None \<Rightarrow> m | Some v \<Rightarrow> m \<lparr> mc_resume_from := Some v \<rparr>)"
  "maven_arguments ((case opt of None \<Rightarrow> [] | Some v \<Rightarrow> [lit ''-f'', v]) @ r) m =
   maven_arguments r (case opt of None \<Rightarrow> m | Some v \<Rightarrow> m \<lparr> mc_pom_file := Some v \<rparr>)"
proof -
  show "maven_arguments ((if b then [lit ''-am''] else []) @ r) m = maven_arguments r (if b then m \<lparr> mc_also_make := True \<rparr> else m)"
    by (cases b) (simp_all del: lit.simps maven_arguments.simps add: read_option_words)
  show "maven_arguments ((if b then [lit ''-amd''] else []) @ r) m = maven_arguments r (if b then m \<lparr> mc_also_make_dependents := True \<rparr> else m)"
    by (cases b) (simp_all del: lit.simps maven_arguments.simps add: read_option_words)
  assume xs: "list_all (\<lambda>s. s \<noteq> [] \<and> 44 \<notin> set s) xs"
  show "maven_arguments ((if xs = [] then [] else [lit ''-pl'', join [44] xs]) @ r) m = maven_arguments r (m \<lparr> mc_modules := mc_modules m @ xs \<rparr>)"
    by (cases "xs = []") (simp_all del: lit.simps maven_arguments.simps add: read_option_words csv_join [OF _ xs])
  show "maven_arguments ((if xs = [] then [] else [lit ''-P'', join [44] xs]) @ r) m = maven_arguments r (m \<lparr> mc_profiles := mc_profiles m @ xs \<rparr>)"
    by (cases "xs = []") (simp_all del: lit.simps maven_arguments.simps add: read_option_words csv_join [OF _ xs])
next
  show "maven_arguments ((case opt of None \<Rightarrow> [] | Some v \<Rightarrow> [lit ''-rf'', v]) @ r) m =
   maven_arguments r (case opt of None \<Rightarrow> m | Some v \<Rightarrow> m \<lparr> mc_resume_from := Some v \<rparr>)"
    by (cases opt) (simp_all del: lit.simps maven_arguments.simps add: read_option_words)
  show "maven_arguments ((case opt of None \<Rightarrow> [] | Some v \<Rightarrow> [lit ''-f'', v]) @ r) m =
   maven_arguments r (case opt of None \<Rightarrow> m | Some v \<Rightarrow> m \<lparr> mc_pom_file := Some v \<rparr>)"
    by (cases opt) (simp_all del: lit.simps maven_arguments.simps add: read_option_words)
qed

lemma read_maven_words:
  assumes "maven_ok m"
  shows "maven_arguments (tl (maven_words m)) (new_maven_command (mc_executable m)) = m"
proof -
  have lists: "list_all (\<lambda>s. s \<noteq> [] \<and> 44 \<notin> set s) (mc_modules m)" "list_all (\<lambda>s. s \<noteq> [] \<and> 44 \<notin> set s) (mc_profiles m)"
    and props: "list_all (\<lambda>(k, v). k \<noteq> [] \<and> 61 \<notin> set k) (mc_properties m)" "sorted_wrt (<) (map fst (mc_properties m))"
    "mc_tests m = tests_of (mc_properties m)"
    and goals: "list_all (\<lambda>g. g \<in> set LIFECYCLE) (mc_lifecycle_goals m)" "list_all is_plugin_goal (mc_plugin_goals m)"
    using assms by (simp_all add: maven_ok_def)
  have fin: "maven_arguments (mc_lifecycle_goals m @ mc_plugin_goals m) x =
      x \<lparr> mc_lifecycle_goals := mc_lifecycle_goals x @ mc_lifecycle_goals m, mc_plugin_goals := mc_plugin_goals x @ mc_plugin_goals m \<rparr>" for x
    using read_plugin_goals [OF goals(2), of "[]"] by (simp add: read_lifecycle_goals [OF goals(1)])
  define start where "start = new_maven_command (mc_executable m)"
  define m1 where "m1 = (if mc_also_make m then start \<lparr> mc_also_make := True \<rparr> else start)"
  define m2 where "m2 = (if mc_also_make_dependents m then m1 \<lparr> mc_also_make_dependents := True \<rparr> else m1)"
  define m3 where "m3 = m2 \<lparr> mc_modules := mc_modules m2 @ mc_modules m \<rparr>"
  define m4 where "m4 = (case mc_resume_from m of None \<Rightarrow> m3 | Some v \<Rightarrow> m3 \<lparr> mc_resume_from := Some v \<rparr>)"
  define m5 where "m5 = m4 \<lparr> mc_profiles := mc_profiles m4 @ mc_profiles m \<rparr>"
  define m6 where "m6 = m5 \<lparr> mc_tests := mc_tests m5 @ tests_of (mc_properties m), mc_properties := mc_properties m5 @ mc_properties m \<rparr>"
  define m7 where "m7 = (case mc_pom_file m of None \<Rightarrow> m6 | Some v \<Rightarrow> m6 \<lparr> mc_pom_file := Some v \<rparr>)"
  have empty: "mc_properties m5 = []"
    by (simp add: m5_def m4_def m3_def m2_def m1_def start_def new_maven_command_def split: option.split)
  have p6: "maven_arguments (map property_word (mc_properties m) @ r) m5 = maven_arguments r m6" for r
    using read_properties [OF props(1), of m5 r] props(2) empty by (simp add: m6_def)
  have "maven_arguments (tl (maven_words m)) start = maven_arguments (mc_lifecycle_goals m @ mc_plugin_goals m) m7"
    unfolding maven_words_def append_assoc append_Cons append_Nil list.sel
      read_segments(1,2,5) m1_def [symmetric] m2_def [symmetric] read_segments(3) [OF lists(1)] m3_def [symmetric] m4_def [symmetric]
      read_segments(4) [OF lists(2)] m5_def [symmetric] p6 read_segments(6) m7_def [symmetric] ..
  also have "\<dots> = m7 \<lparr> mc_lifecycle_goals := mc_lifecycle_goals m7 @ mc_lifecycle_goals m,
      mc_plugin_goals := mc_plugin_goals m7 @ mc_plugin_goals m \<rparr>" by (rule fin)
  also have "\<dots> = m"
    using props(3)
    by (intro MavenCommand.equality)
      (simp_all add: m7_def m6_def m5_def m4_def m3_def m2_def m1_def start_def new_maven_command_def split: option.split)
  finally show ?thesis by (simp only: start_def)
qed

lemma executable_plain:
  "x \<in> set MAVEN_EXECUTABLES \<Longrightarrow> executable_name x = x \<and> \<not> is_assignment x \<and> x \<noteq> lit ''env''"
proof -
  have "list_all (\<lambda>x. executable_name x = x \<and> \<not> is_assignment x \<and> x \<noteq> lit ''env'') MAVEN_EXECUTABLES" by code_simp
  then show "x \<in> set MAVEN_EXECUTABLES \<Longrightarrow> executable_name x = x \<and> \<not> is_assignment x \<and> x \<noteq> lit ''env''" by (auto simp: list_all_iff)
qed

section \<open>Properties\<close>

text \<open>
  The words of a command line are never invented: the texts of the words that \<open>tokens\<close> returns are, one after
  the other, characters of the command in their order (nothing is expanded or repeated), and an unfinished quote, a backtick
  or a substitution outside single quotes gives no words.
\<close>

lemma tokens_sound:
  "(\<forall>ts. tokens command = Some ts \<longrightarrow> subseq (concat (map token_text ts)) command) \<and>
   (sc_quote s \<in> {None, Some 34} \<longrightarrow> tokens_loop s (96 # r) = None \<and> tokens_loop s (36 # 40 # r) = None) \<and>
   (sc_quote s \<noteq> None \<longrightarrow> tokens_loop s [] = None)"
proof -
  have "subseq (concat (map token_text ts)) command" if "tokens command = Some ts" for ts
    using tokens_loop_text [of start_scan command ts] that by (simp add: tokens_def scan_text_def start_scan_def)
  moreover have "tokens_loop s (96 # r) = None \<and> tokens_loop s (36 # 40 # r) = None" if "sc_quote s \<in> {None, Some 34}"
    using that by (auto simp: token_step_def next_is_def)
  ultimately show ?thesis by simp
qed

text \<open>
  Claim C30.  Quoting and parsing are inverse: a Maven command whose parts arguments can express, rendered as command line
  words with every word in single quotes, whatever characters they contain, is read back exactly.
\<close>

theorem maven_command_roundtrip:
  assumes "maven_ok m"
  shows "parse_maven_command (sh_words (maven_words m)) = Some m"
proof -
  have x: "mc_executable m \<in> set MAVEN_EXECUTABLES" using assms by (simp add: maven_ok_def)
  note plain = executable_plain [OF x]
  obtain ws where ws: "maven_words m = mc_executable m # ws" by (simp add: maven_words_def)
  have "invocations (sh_words (maven_words m)) = [maven_words m]"
    using plain by (simp add: invocations_of_words strip_environment_def ws)
  then show ?thesis using plain x read_maven_words [OF assms] by (simp add: parse_maven_command_def ws)
qed

text \<open>A command with a property value that holds quotes, spaces and a dollar sign.\<close>

definition demo_maven :: MavenCommand where
  "demo_maven = (new_maven_command (lit ''mvn''))
     \<lparr> mc_modules := [lit ''a'', lit ''b''], mc_also_make := True, mc_properties := [(lit ''test'', lit ''X,Y z'' @ [39, 34, 36, 40])],
       mc_tests := [lit ''X'', lit ''Y z'' @ [39, 34, 36, 40]], mc_lifecycle_goals := [lit ''clean''], mc_plugin_goals := [lit ''p:g''] \<rparr>"

theorem maven_command_roundtrip_witness:
  "maven_ok demo_maven \<and> parse_maven_command (sh_words (maven_words demo_maven)) = Some demo_maven"
proof -
  have "maven_ok demo_maven" by code_simp
  then show ?thesis using maven_command_roundtrip by blast
qed

end
