(* ===== verification/Jar_Names.thy ===== *)
theory Jar_Names
  imports Prelude
begin

text \<open>
  Names in and around a JAR (\<open>src/src/index.rs\<close>): Maven classifiers and repository paths, the
  sources JARs a binary JAR may have, class names, class queries, source entry names, the effective
  class file of a logical path, and the manifest of a multi-release JAR.

  Paths are lists of components as in the prelude; a path whose name is not valid Unicode is not
  modelled.  Entry names, class names and coordinates are texts.
\<close>

section \<open>Classifiers and coordinates\<close>

definition SOURCES_CLASSIFIER :: str where
  "SOURCES_CLASSIFIER = lit ''sources''"

definition TESTS_CLASSIFIER :: str where
  "TESTS_CLASSIFIER = lit ''tests''"

definition TEST_SOURCES_CLASSIFIER :: str where
  "TEST_SOURCES_CLASSIFIER = lit ''test-sources''"

record ArtifactKey =
  ak_group_id :: str
  ak_artifact_id :: str
  ak_version :: str

record JarIdentity =
  ji_key :: ArtifactKey
  ji_classifier :: "str option"
  ji_relative_path :: str

text \<open>The binary classifier a sources JAR documents; the outer \<open>None\<close> says that it is no sources JAR.\<close>

definition documented_classifier :: "str option \<Rightarrow> str option option" where
  "documented_classifier classifier =
     (case classifier of
        None \<Rightarrow> None
      | Some c \<Rightarrow>
          if c = SOURCES_CLASSIFIER then Some None
          else if c = TEST_SOURCES_CLASSIFIER then Some (Some TESTS_CLASSIFIER)
          else (case strip_suffix (lit ''-sources'') c of
                  None \<Rightarrow> None
                | Some documented \<Rightarrow> if documented = [] then None else Some (Some documented)))"

text \<open>\<open>Path::file_name\<close> and \<open>Path::with_file_name\<close> of an absolute path.\<close>

definition path_file_name :: "path \<Rightarrow> str option" where
  "path_file_name p = (if p = [] then None else Some (last p))"

definition with_file_name :: "path \<Rightarrow> str \<Rightarrow> path" where
  "with_file_name p name = butlast p @ [name]"

definition source_jar_candidates :: "path \<Rightarrow> str option \<Rightarrow> path list" where
  "source_jar_candidates binary_jar classifier =
     (case path_file_name binary_jar \<bind> strip_suffix (lit ''.jar'') of
        None \<Rightarrow> []
      | Some stem \<Rightarrow>
          if ends_with (lit ''-sources'') stem then []
          else
            let sibling = (\<lambda>name. with_file_name binary_jar (name @ lit ''.jar''));
                classified = classifier \<bind> (\<lambda>c.
                  strip_suffix c stem \<bind> (\<lambda>base.
                  map_option (Pair c) (strip_suffix (lit ''-'') base)))
            in case classified of
                 None \<Rightarrow> [sibling (stem @ lit ''-'' @ SOURCES_CLASSIFIER)]
               | Some (c, base) \<Rightarrow>
                   if c = TESTS_CLASSIFIER then [sibling (base @ lit ''-'' @ TEST_SOURCES_CLASSIFIER)]
                   else [sibling (stem @ lit ''-'' @ SOURCES_CLASSIFIER),
                         sibling (base @ lit ''-'' @ SOURCES_CLASSIFIER)])"

definition parse_coordinate :: "path \<Rightarrow> path \<Rightarrow> (ArtifactKey \<times> str option) option" where
  "parse_coordinate root p =
     strip_prefix root p \<bind> (\<lambda>components.
     if length components < 4 then None
     else strip_suffix (lit ''.jar'') (last components) \<bind> (\<lambda>file_name.
       let version = components ! (length components - 2);
           artifact_id = components ! (length components - 3);
           group_id = join (lit ''.'') (take (length components - 3) components)
       in strip_prefix (artifact_id @ lit ''-'' @ version) file_name \<bind> (\<lambda>suffix.
          (if suffix = [] then Some None else map_option Some (strip_prefix (lit ''-'') suffix)) \<bind> (\<lambda>classifier.
          Some (\<lparr> ak_group_id = group_id, ak_artifact_id = artifact_id, ak_version = version \<rparr>, classifier)))))"

definition path_text :: "path \<Rightarrow> str" where
  "path_text p = concat (map (\<lambda>c. lit ''/'' @ c) p)"

text \<open>\<open>to_string_lossy\<close> of the stripped path, or of the whole absolute path.\<close>

definition relative_slash_path :: "path \<Rightarrow> path \<Rightarrow> str" where
  "relative_slash_path root p =
     replace_ch 92 47 (case strip_prefix root p of
                         Some r \<Rightarrow> join (lit ''/'') r
                       | None \<Rightarrow> if p = [] then lit ''/'' else path_text p)"

definition repository_identity :: "path \<Rightarrow> path \<Rightarrow> JarIdentity option" where
  "repository_identity root p =
     map_option (\<lambda>(key, classifier).
         \<lparr> ji_key = key, ji_classifier = classifier, ji_relative_path = relative_slash_path root p \<rparr>)
       (parse_coordinate root p)"

definition coordinate_of :: "ArtifactKey \<Rightarrow> str option \<Rightarrow> str" where
  "coordinate_of key classifier =
     (case classifier of
        Some c \<Rightarrow> ak_group_id key @ lit '':'' @ ak_artifact_id key @ lit '':'' @ ak_version key @ lit '':'' @ c
      | None \<Rightarrow> ak_group_id key @ lit '':'' @ ak_artifact_id key @ lit '':'' @ ak_version key)"

section \<open>Class names and queries\<close>

definition binary_name :: "str \<Rightarrow> str" where
  "binary_name v = replace_ch 47 46 v"

definition class_name_from_entry :: "str \<Rightarrow> str option" where
  "class_name_from_entry entry =
     (case strip_suffix (lit ''.class'') entry of
        None \<Rightarrow> None
      | Some c \<Rightarrow>
          if c = lit ''module-info'' \<or> ends_with (lit ''/module-info'') c \<or> ends_with (lit ''package-info'') c
          then None else Some (replace_ch 47 46 c))"

text \<open>\<open>str::trim_end_matches\<close> with a text pattern.\<close>

definition trim_end_matches :: "str \<Rightarrow> str \<Rightarrow> str" where
  "trim_end_matches p s = rev (trim_start_matches (rev p) (rev s))"

definition normalize_class_query :: "str \<Rightarrow> str" where
  "normalize_class_query v =
     map (\<lambda>c. if c = 47 \<or> c = 92 then 46 else c) (trim_end_matches (lit ''.class'') (trim v))"

definition class_entry_path :: "str \<Rightarrow> str" where
  "class_entry_path class_name = replace_ch 46 47 class_name @ lit ''.class''"

definition source_file_stem :: "str \<Rightarrow> str option" where
  "source_file_stem name =
     (case strip_suffix (lit ''.java'') name of Some stem \<Rightarrow> Some stem | None \<Rightarrow> strip_suffix (lit ''.kt'') name)"

record SourceEntryNames =
  sn_names :: "str list"
  sn_allow_source_set_prefix :: bool

text \<open>The text up to and including the last slash, or nothing: \<open>rfind('/')\<close> and \<open>[..=position]\<close>.\<close>

definition package_directory :: "str \<Rightarrow> str" where
  "package_directory p =
     (case rsplit_once (lit ''/'') p of None \<Rightarrow> [] | Some (a, _) \<Rightarrow> a @ lit ''/'')"

definition new_source_entry_names :: "str \<Rightarrow> str option \<Rightarrow> SourceEntryNames" where
  "new_source_entry_names class_name source_file =
     (let outer_path = replace_ch 46 47 (hd (split_on 36 class_name));
          dir = package_directory outer_path;
          first = (case source_file of None \<Rightarrow> [] | Some f \<Rightarrow> [dir @ f]);
          names = fold (\<lambda>convention names. if convention \<in> set names then names else names @ [convention])
                    [outer_path @ lit ''.java'', outer_path @ lit ''.kt''] first
      in \<lparr> sn_names = names, sn_allow_source_set_prefix = (dir \<noteq> []) \<rparr>)"

definition primary_name :: "SourceEntryNames \<Rightarrow> str" where
  "primary_name s = (case sn_names s of [] \<Rightarrow> [] | n # _ \<Rightarrow> n)"

definition has_directory_prefix :: "str \<Rightarrow> str \<Rightarrow> bool" where
  "has_directory_prefix entry name =
     (case strip_suffix name entry \<bind> strip_suffix (lit ''/'') of None \<Rightarrow> False | Some p \<Rightarrow> p \<noteq> [])"

fun rank_from :: "bool \<Rightarrow> nat \<Rightarrow> str list \<Rightarrow> str \<Rightarrow> nat option" where
  "rank_from allow i [] entry = None"
| "rank_from allow i (name # names) entry =
     (if entry = name then Some (2 * i)
      else if allow \<and> has_directory_prefix entry name then Some (2 * i + 1)
      else rank_from allow (Suc i) names entry)"

definition rank :: "SourceEntryNames \<Rightarrow> str \<Rightarrow> nat option" where
  "rank s entry = rank_from (sn_allow_source_set_prefix s) 0 (sn_names s) entry"

section \<open>Effective class entries\<close>

definition VERSIONED_ENTRY_PREFIX :: str where
  "VERSIONED_ENTRY_PREFIX = lit ''META-INF/versions/''"

definition MIN_MULTI_RELEASE_VERSION :: nat where
  "MIN_MULTI_RELEASE_VERSION = 9"

definition parse_u32 :: "str \<Rightarrow> nat option" where
  "parse_u32 s = (case parse_usize s of None \<Rightarrow> None | Some n \<Rightarrow> if n < 2 ^ 32 then Some n else None)"

text \<open>Version and logical path of one class entry; \<open>None\<close> for an entry that is skipped.\<close>

definition entry_candidate :: "bool \<Rightarrow> str \<Rightarrow> (nat \<times> str) option" where
  "entry_candidate multi_release entry =
     (case strip_prefix VERSIONED_ENTRY_PREFIX entry of
        None \<Rightarrow> Some (0, entry)
      | Some rest \<Rightarrow>
          if \<not> multi_release then None
          else case split_once (lit ''/'') rest of
                 None \<Rightarrow> None
               | Some (version, logical) \<Rightarrow>
                   if version = [] \<or> starts_with (lit ''0'') version \<or> \<not> list_all is_ascii_digit version then None
                   else case parse_u32 version of
                          None \<Rightarrow> None
                        | Some v \<Rightarrow> if v < MIN_MULTI_RELEASE_VERSION then None else Some (v, logical))"

definition select_entry ::
  "bool \<Rightarrow> str \<Rightarrow> (str \<times> nat \<times> str) list \<Rightarrow> (str \<times> nat \<times> str) list" where
  "select_entry multi_release entry selected =
     (case entry_candidate multi_release entry of
        None \<Rightarrow> selected
      | Some (version, logical) \<Rightarrow>
          (case map_of selected logical of
             None \<Rightarrow> bt_insert logical (version, entry) selected
           | Some (v, _) \<Rightarrow> if v < version then bt_insert logical (version, entry) selected else selected))"

definition effective_class_entries :: "str list \<Rightarrow> bool \<Rightarrow> (str \<times> str) list" where
  "effective_class_entries entries multi_release =
     map (\<lambda>(logical, _, entry). (logical, entry))
       (fold (select_entry multi_release) (filter (ends_with (lit ''.class'')) entries) [])"

definition classes_of :: "(str \<times> str) list \<Rightarrow> str list" where
  "classes_of class_entries =
     sort (remdups (List.map_filter (\<lambda>(logical, _). class_name_from_entry logical) class_entries))"

section \<open>The manifest\<close>

function manifest_lines :: "str \<Rightarrow> str list" where
  "manifest_lines m =
     (if m = [] then []
      else let line = takeWhile (\<lambda>c. c \<noteq> 13 \<and> c \<noteq> 10) m;
               rest = dropWhile (\<lambda>c. c \<noteq> 13 \<and> c \<noteq> 10) m
           in if rest = [] then [line]
              else line # manifest_lines (drop (if starts_with [13, 10] rest then 2 else 1) rest))"
  by pat_completeness auto
termination
proof (relation "measure length", goal_cases)
  case (2 m line rest)
  have le: "length rest \<le> length m" unfolding 2 by (rule length_dropWhile_le)
  have "rest \<noteq> []" using 2 by simp
  then have shrink: "length (drop (if b then 2 else 1) rest) < length rest" for b by simp
  have "length (drop (if starts_with [13, 10] rest then 2 else 1) rest) < length m"
    by (rule less_le_trans [OF shrink le])
  then show ?case by simp
qed simp

declare manifest_lines.simps [simp del, loop_simps]

definition unfold_line :: "str \<Rightarrow> str list \<Rightarrow> str list" where
  "unfold_line line unfolded =
     (case strip_prefix (lit '' '') line of
        Some continuation \<Rightarrow>
          if unfolded = [] then unfolded @ [line]
          else butlast unfolded @ [last unfolded @ continuation]
      | None \<Rightarrow> unfolded @ [line])"

definition unfold_manifest :: "str \<Rightarrow> str list" where
  "unfold_manifest manifest =
     fold unfold_line (takeWhile (\<lambda>l. l \<noteq> []) (manifest_lines manifest)) []"

definition declares_multi_release :: "str \<Rightarrow> bool" where
  "declares_multi_release line =
     (case split_once (lit '':'') line of
        None \<Rightarrow> False
      | Some (name, v) \<Rightarrow>
          eq_ignore_ascii_case (trim name) (lit ''Multi-Release'') \<and> eq_ignore_ascii_case (trim v) (lit ''true''))"

definition manifest_declares_multi_release :: "str \<Rightarrow> bool" where
  "manifest_declares_multi_release manifest = list_ex declares_multi_release (unfold_manifest manifest)"


section \<open>One effective entry per logical path\<close>

lemma dec_value_digits: "list_all is_ascii_digit s \<Longrightarrow> \<exists>n. dec_value acc s = Some n"
  by (induction s arbitrary: acc) auto

lemma fmt_dec_digit: "is_ascii_digit c \<Longrightarrow> fmt_dec (c - 48) = [c]"
  by (subst fmt_radix.simps) (auto simp: is_ascii_digit_def digit_ch_def)

lemma fmt_dec_snoc: "0 < n \<Longrightarrow> is_ascii_digit c \<Longrightarrow> fmt_dec (10 * n + (c - 48)) = fmt_dec n @ [c]"
proof -
  assume n: "0 < n" and c: "is_ascii_digit c"
  then have d: "c = 48 + (c - 48)" "c - 48 < 10" unfolding is_ascii_digit_def by linarith+
  obtain d where d: "c = 48 + d" "d < 10" using d by blast
  then show ?thesis using n by (subst fmt_radix.simps) (simp add: digit_ch_def)
qed

text \<open>A decimal number without leading zero is the text that formatting prints for it.\<close>

lemma canonical_dec: "dec_value 0 (c # s) = Some n \<Longrightarrow> c \<noteq> 48 \<Longrightarrow> 0 < n \<and> fmt_dec n = c # s"
proof (induction s arbitrary: n rule: rev_induct)
  case Nil
  then show ?case by (auto simp: fmt_dec_digit is_ascii_digit_def split: if_splits)
next
  case (snoc d s)
  have "dec_value 0 ((c # s) @ [d]) = Some n" using snoc.prems(1) by simp
  then obtain m where m: "dec_value 0 (c # s) = Some m" "is_ascii_digit d" "n = 10 * m + (d - 48)"
    unfolding dec_value_append by (auto split: option.splits if_splits)
  then show ?case using snoc.IH [of m] snoc.prems(2) by (simp add: fmt_dec_snoc)
qed

lemma canonical_u32:
  assumes "parse_u32 s = Some n" "s \<noteq> []" "\<not> starts_with (lit ''0'') s" "list_all is_ascii_digit s"
  shows "s = fmt_dec n"
proof -
  obtain c r where c: "s = c # r" using assms(2) by (cases s) auto
  have "c \<noteq> 48" "c \<noteq> 43" using assms(3,4) c by (auto simp: starts_with_def is_ascii_digit_def)
  moreover have "dec_value 0 s = Some n"
    using assms(1) \<open>c \<noteq> 43\<close> c unfolding parse_u32_def parse_usize_def
    by (simp split: option.splits if_splits)
  ultimately show ?thesis using canonical_dec c by metis
qed

lemma entry_candidate_base: "entry_candidate mr e = Some (0, l) \<longleftrightarrow> \<not> starts_with VERSIONED_ENTRY_PREFIX e \<and> e = l"
  by (auto simp: entry_candidate_def starts_with_def MIN_MULTI_RELEASE_VERSION_def split: option.splits if_splits)

lemma entry_candidate_versioned:
  assumes "entry_candidate mr e = Some (v, l)" "v \<noteq> 0"
  shows "mr \<and> MIN_MULTI_RELEASE_VERSION \<le> v \<and> e = VERSIONED_ENTRY_PREFIX @ fmt_dec v @ lit ''/'' @ l"
proof -
  obtain rest where rest: "strip_prefix VERSIONED_ENTRY_PREFIX e = Some rest"
    using assms by (auto simp: entry_candidate_def split: option.splits)
  with assms obtain w where "split_once (lit ''/'') rest = Some (w, l)" and w: "parse_u32 w = Some v"
    and "w \<noteq> []" "\<not> starts_with (lit ''0'') w" "list_all is_ascii_digit w"
    and mr: "mr" "MIN_MULTI_RELEASE_VERSION \<le> v"
    by (auto simp: entry_candidate_def split: option.splits if_splits)
  then have "rest = w @ lit ''/'' @ l" "w = fmt_dec v"
    by (auto dest: split_once_Some canonical_u32)
  then show ?thesis using rest mr by (simp add: strip_prefix_Some)
qed

text \<open>Version and logical path determine the entry.\<close>

lemma entry_candidate_inj:
  "entry_candidate mr e = Some (v, l) \<Longrightarrow> entry_candidate mr e' = Some (v, l) \<Longrightarrow> e = e'"
  by (cases "v = 0") (auto simp: entry_candidate_base dest: entry_candidate_versioned)

definition pick_entry :: "bool \<Rightarrow> str \<Rightarrow> str \<Rightarrow> (nat \<times> str) option \<Rightarrow> (nat \<times> str) option" where
  "pick_entry mr l e cur =
     (case entry_candidate mr e of
        None \<Rightarrow> cur
      | Some (v, l') \<Rightarrow>
          if l' \<noteq> l then cur
          else (case cur of None \<Rightarrow> Some (v, e) | Some (v', _) \<Rightarrow> if v' < v then Some (v, e) else cur))"

lemma map_of_select_entry: "map_of (select_entry mr e m) l = pick_entry mr l e (map_of m l)"
  by (auto simp: select_entry_def pick_entry_def split: option.splits)

lemma map_of_fold_select: "map_of (fold (select_entry mr) es m) l = fold (pick_entry mr l) es (map_of m l)"
  by (induction es arbitrary: m) (simp_all add: map_of_select_entry)

text \<open>What the selection promises: an entry of the list for this logical path with the highest version.\<close>

definition best_entry :: "bool \<Rightarrow> str \<Rightarrow> str list \<Rightarrow> (nat \<times> str) option \<Rightarrow> bool" where
  "best_entry mr l es cur \<longleftrightarrow>
     (case cur of
        None \<Rightarrow> (\<forall>e\<in>set es. \<forall>v. entry_candidate mr e \<noteq> Some (v, l))
      | Some (v, e) \<Rightarrow> e \<in> set es \<and> entry_candidate mr e = Some (v, l) \<and>
          (\<forall>e'\<in>set es. \<forall>v'. entry_candidate mr e' = Some (v', l) \<longrightarrow> v' \<le> v))"

lemma best_entry_pick: "best_entry mr l es cur \<Longrightarrow> best_entry mr l (es @ [e]) (pick_entry mr l e cur)"
  unfolding best_entry_def pick_entry_def
  by (cases "entry_candidate mr e"; cases cur) (fastforce split: if_splits)+

lemma best_entry_fold: "best_entry mr l es (fold (pick_entry mr l) es None)"
  by (induction es rule: rev_induct) (auto simp: best_entry_pick, simp add: best_entry_def)

lemma best_entry_unique: "best_entry mr l es c \<Longrightarrow> best_entry mr l es c' \<Longrightarrow> c = c'"
  unfolding best_entry_def
  by (auto split: option.splits prod.splits) (metis entry_candidate_inj le_antisym)+

lemma map_of_effective:
  "map_of (effective_class_entries entries mr) l =
     map_option snd (fold (pick_entry mr l) (filter (ends_with (lit ''.class'')) entries) None)"
proof -
  have "map_of (map (\<lambda>(a, _, e). (a, e)) m) l = map_option snd (map_of m l)" for m :: "(str \<times> nat \<times> str) list"
    by (induction m) auto
  then show ?thesis by (simp add: effective_class_entries_def map_of_fold_select)
qed

lemma sorted_select: "sorted_wrt (<) (map fst m) \<Longrightarrow> sorted_wrt (<) (map fst (fold (select_entry mr) es m))"
  by (induction es arbitrary: m) (auto simp: select_entry_def sorted_bt_insert split: option.splits)

lemma sorted_effective: "sorted_wrt (<) (map fst (effective_class_entries entries mr))"
proof -
  have "map fst (map (\<lambda>(a, _, e). (a, e)) m) = map fst m" for m :: "(str \<times> nat \<times> str) list" by auto
  moreover have "sorted_wrt (<) (map fst (fold (select_entry mr) es []))" for es
    by (rule sorted_select) simp
  ultimately show ?thesis by (simp only: effective_class_entries_def)
qed

text \<open>
  Claim C21: effective_entry_iff.  The entry selected for a logical path is the entry of the archive
  with the highest applicable version for that path: whatever the order of the entries, a path is
  selected exactly when it is a class file with a candidate for the logical path that no other
  candidate exceeds, the base entry counting as version zero and versioned entries only when the
  manifest declares a multi-release JAR.
\<close>

lemma effective_entry_iff:
  "map_of (effective_class_entries entries multi_release) logical = Some entry \<longleftrightarrow>
     entry \<in> set entries \<and> ends_with (lit ''.class'') entry \<and>
     (\<exists>v. entry_candidate multi_release entry = Some (v, logical) \<and>
        (\<forall>e' v'. e' \<in> set entries \<and> ends_with (lit ''.class'') e' \<and>
           entry_candidate multi_release e' = Some (v', logical) \<longrightarrow> v' \<le> v))"
  (is "?L \<longleftrightarrow> ?R")
proof -
  let ?es = "filter (ends_with (lit ''.class'')) entries"
  let ?cur = "fold (pick_entry multi_release logical) ?es None"
  have best: "best_entry multi_release logical ?es ?cur" by (rule best_entry_fold)
  have "?R \<longleftrightarrow> (\<exists>v. best_entry multi_release logical ?es (Some (v, entry)))"
    by (auto simp: best_entry_def)
  also have "\<dots> \<longleftrightarrow> (\<exists>v. ?cur = Some (v, entry))" using best best_entry_unique by metis
  also have "\<dots> \<longleftrightarrow> ?L" by (auto simp: map_of_effective)
  finally show ?thesis by simp
qed

section \<open>Unfolding a manifest\<close>

text \<open>
  The format of the JAR specification, written the other way round: a header is a nonempty list of
  chunks, one per physical line, and every line but the first starts with a space.
\<close>

definition line_end :: "str \<Rightarrow> bool" where
  "line_end nl \<longleftrightarrow> nl = [13] \<or> nl = [10] \<or> nl = [13, 10]"

definition one_line :: "str \<Rightarrow> bool" where
  "one_line l \<longleftrightarrow> 13 \<notin> set l \<and> 10 \<notin> set l"

fun header_chunks :: "str list \<Rightarrow> bool" where
  "header_chunks [] = False"
| "header_chunks (c # cs) = (c \<noteq> [] \<and> hd c \<noteq> 32 \<and> one_line c \<and> list_all one_line cs)"

definition header_lines :: "str list \<Rightarrow> str list" where
  "header_lines chunks = hd chunks # map ((#) 32) (tl chunks)"

definition render_manifest :: "str \<Rightarrow> str list list \<Rightarrow> str" where
  "render_manifest nl headers = concat (map (\<lambda>l. l @ nl) (concat (map header_lines headers)))"

lemma manifest_lines_step:
  assumes nl: "line_end nl" and l: "one_line l" and cr: "nl = [13] \<Longrightarrow> \<not> starts_with [10] rest"
  shows "manifest_lines (l @ nl @ rest) = l # manifest_lines rest"
proof -
  let ?P = "\<lambda>c. c \<noteq> 13 \<and> c \<noteq> (10 :: nat)"
  have all: "x \<in> set l \<Longrightarrow> ?P x" for x using l by (auto simp: one_line_def)
  obtain c r where c: "nl @ rest = c # r" "c = 13 \<or> c = 10" using nl by (auto simp: line_end_def)
  have "takeWhile ?P (l @ nl @ rest) = l @ takeWhile ?P (nl @ rest)" by (rule takeWhile_append2 [OF all])
  then have tk: "takeWhile ?P (l @ nl @ rest) = l" using c by auto
  have "dropWhile ?P (l @ nl @ rest) = dropWhile ?P (nl @ rest)" by (rule dropWhile_append2 [OF all])
  then have dr: "dropWhile ?P (l @ nl @ rest) = nl @ rest" using c by auto
  have sep: "drop (if starts_with [13, 10] (nl @ rest) then 2 else 1) (nl @ rest) = rest"
    using nl cr by (auto simp: line_end_def starts_with_def)
  have ne: "l @ nl @ rest \<noteq> []" "nl @ rest \<noteq> []" using c by auto
  show ?thesis
    by (subst (1) manifest_lines.simps) (simp only: tk dr Let_def sep ne if_False)
qed

lemma manifest_lines_blank: "line_end nl \<Longrightarrow> \<exists>ls. manifest_lines (nl @ rest) = [] # ls"
proof -
  assume "line_end nl"
  then obtain c r where "nl @ rest = c # r" "c = 13 \<or> c = 10" by (auto simp: line_end_def)
  then show ?thesis by (subst manifest_lines.simps) (auto simp: Let_def)
qed

lemma manifest_lines_concat:
  assumes "line_end nl" "\<And>l. l \<in> set ls \<Longrightarrow> one_line l \<and> l \<noteq> []" "line_end nl'" "nl' = nl"
  shows "\<exists>more. manifest_lines (concat (map (\<lambda>l. l @ nl) ls) @ nl' @ rest) = ls @ [] # more"
  using assms(2)
proof (induction ls)
  case Nil
  then show ?case using manifest_lines_blank [OF assms(3)] by simp
next
  case (Cons l ls)
  let ?rest = "concat (map (\<lambda>l. l @ nl) ls) @ nl' @ rest"
  have "\<not> starts_with [10] ?rest" if "nl = [13]"
  proof (cases ls)
    case (Cons k ks)
    then show ?thesis using Cons.prems [of k] by (cases k) (auto simp: starts_with_def one_line_def)
  qed (simp add: that assms(4) starts_with_def)
  then have "manifest_lines (l @ nl @ ?rest) = l # manifest_lines ?rest"
    using Cons.prems assms(1) by (intro manifest_lines_step) auto
  with Cons show ?case by simp
qed

lemma unfold_continuations:
  "u \<noteq> [] \<Longrightarrow> fold unfold_line (map ((#) 32) cs) u = butlast u @ [last u @ concat cs]"
  by (induction cs arbitrary: u) (simp_all add: unfold_line_def)

lemma unfold_header: "header_chunks cs \<Longrightarrow> fold unfold_line (header_lines cs) u = u @ [concat cs]"
proof (cases cs)
  case (Cons c rest)
  assume "header_chunks cs"
  then obtain a c' where "c = a # c'" "a \<noteq> 32" using Cons by (cases c) auto
  then have "unfold_line c u = u @ [c]" by (simp add: unfold_line_def)
  then show ?thesis using Cons by (simp add: header_lines_def unfold_continuations)
qed simp

lemma unfold_headers:
  "list_all header_chunks headers \<Longrightarrow>
     fold unfold_line (concat (map header_lines headers)) u = u @ map concat headers"
  by (induction headers arbitrary: u) (simp_all add: unfold_header)

lemma header_lines_ok: "header_chunks cs \<Longrightarrow> l \<in> set (header_lines cs) \<Longrightarrow> one_line l \<and> l \<noteq> []"
  by (cases cs) (auto simp: header_lines_def one_line_def list_all_iff)

text \<open>
  Claim C18: manifest_roundtrip.  Reading a manifest main section inverts writing it: for every line
  terminator of the JAR specification, headers folded over any number of continuation lines are read
  back unfolded, the blank line ends the section whatever follows it, and the multi-release flag is
  the one the headers declare.
\<close>

lemma manifest_roundtrip:
  assumes nl: "line_end nl" and headers: "list_all header_chunks headers"
  shows "unfold_manifest (render_manifest nl headers @ nl @ rest) = map concat headers \<and>
    (manifest_declares_multi_release (render_manifest nl headers @ nl @ rest) \<longleftrightarrow>
       list_ex (\<lambda>cs. declares_multi_release (concat cs)) headers)"
proof -
  let ?ls = "concat (map header_lines headers)"
  have ok: "one_line l \<and> l \<noteq> []" if "l \<in> set ?ls" for l
    using that headers by (auto simp: list_all_iff dest: header_lines_ok)
  from manifest_lines_concat [OF nl ok nl refl] obtain more where
    "manifest_lines (render_manifest nl headers @ nl @ rest) = ?ls @ [] # more"
    unfolding render_manifest_def by blast
  moreover have "takeWhile (\<lambda>l. l \<noteq> []) (?ls @ [] # more) = ?ls"
    using ok by (subst takeWhile_append2) (blast, simp)
  ultimately have "unfold_manifest (render_manifest nl headers @ nl @ rest) = map concat headers"
    using headers by (simp add: unfold_manifest_def unfold_headers)
  then show ?thesis by (simp add: manifest_declares_multi_release_def list_ex_iff)
qed

section \<open>Sources JARs\<close>

lemma strip_prefix_append [simp]: "strip_prefix p (p @ s) = Some s"
  by (simp add: strip_prefix_Some)

lemma strip_suffix_append [simp]: "strip_suffix p (s @ p) = Some s"
  by (simp add: strip_suffix_Some)

text \<open>The file name of an artifact with a classifier.\<close>

definition artifact_stem :: "ArtifactKey \<Rightarrow> str option \<Rightarrow> str" where
  "artifact_stem key classifier =
     ak_artifact_id key @ lit ''-'' @ ak_version key @
     (case classifier of None \<Rightarrow> [] | Some c \<Rightarrow> lit ''-'' @ c)"

lemma parse_coordinate_Some:
  "parse_coordinate root p = Some (key, cl) \<longleftrightarrow>
     (\<exists>comps. p = root @ comps \<and> 4 \<le> length comps \<and>
        last comps = artifact_stem key cl @ lit ''.jar'' \<and>
        ak_version key = comps ! (length comps - 2) \<and> ak_artifact_id key = comps ! (length comps - 3) \<and>
        ak_group_id key = join (lit ''.'') (take (length comps - 3) comps))"
  (is "?L \<longleftrightarrow> ?R")
proof
  assume ?L
  then show ?R
    by (auto simp: parse_coordinate_def Let_def strip_prefix_Some strip_suffix_Some artifact_stem_def bind_eq_Some_conv
      simp del: lit.simps split: if_splits)
next
  assume ?R
  then obtain comps where c: "p = root @ comps" "4 \<le> length comps"
    "last comps = artifact_stem key cl @ lit ''.jar''"
    and k: "comps ! (length comps - 2) = ak_version key" "comps ! (length comps - 3) = ak_artifact_id key"
      "join (lit ''.'') (take (length comps - 3) comps) = ak_group_id key"
    by metis
  have "strip_suffix (lit ''.jar'') (last comps) = Some (artifact_stem key cl)"
    unfolding c(3) by (rule strip_suffix_append)
  moreover have "strip_prefix (ak_artifact_id key @ lit ''-'' @ ak_version key) (artifact_stem key cl) =
      Some (case cl of None \<Rightarrow> [] | Some c \<Rightarrow> lit ''-'' @ c)"
    unfolding artifact_stem_def strip_prefix_Some by (simp del: lit.simps)
  moreover have "lit ''-'' \<noteq> []" by simp
  ultimately show ?L using c(1,2) unfolding parse_coordinate_def
    by (cases cl) (simp_all add: k Let_def del: lit.simps)
qed

lemma parse_sibling:
  assumes "parse_coordinate root p = Some (key, cl)"
  shows "parse_coordinate root (with_file_name p (artifact_stem key cl' @ lit ''.jar'')) = Some (key, cl')"
proof -
  from assms obtain comps where c: "p = root @ comps" "4 \<le> length comps"
    "ak_version key = comps ! (length comps - 2)" "ak_artifact_id key = comps ! (length comps - 3)"
    "ak_group_id key = join (lit ''.'') (take (length comps - 3) comps)"
    unfolding parse_coordinate_Some by blast
  let ?c = "butlast comps @ [artifact_stem key cl' @ lit ''.jar'']"
  have "comps \<noteq> []" using c(2) by auto
  then have "with_file_name p (artifact_stem key cl' @ lit ''.jar'') = root @ ?c"
    using c(1) by (simp add: with_file_name_def butlast_append)
  moreover have "length ?c = length comps" "last ?c = artifact_stem key cl' @ lit ''.jar''"
    using \<open>comps \<noteq> []\<close> by simp_all
  moreover have "?c ! (length comps - 2) = comps ! (length comps - 2)"
    "?c ! (length comps - 3) = comps ! (length comps - 3)"
    "take (length comps - 3) ?c = take (length comps - 3) comps"
    using c(2) by (simp_all add: nth_append_left nth_butlast take_butlast)
  ultimately show ?thesis unfolding parse_coordinate_Some using c(2-5) by metis
qed

lemma parse_coordinate_file_name:
  "parse_coordinate root p = Some (key, cl) \<Longrightarrow> path_file_name p = Some (artifact_stem key cl @ lit ''.jar'')"
  unfolding parse_coordinate_Some path_file_name_def by (metis append_is_Nil_conv last_appendR list.size(3) not_numeral_le_zero)

lemma artifact_stem_Some: "artifact_stem key (Some c) = artifact_stem key None @ lit ''-'' @ c"
  by (simp add: artifact_stem_def)

text \<open>The candidates of an artifact in the repository layout, by classifier.\<close>

definition candidate_classifiers :: "str option \<Rightarrow> str list" where
  "candidate_classifiers cl =
     (case cl of
        None \<Rightarrow> [SOURCES_CLASSIFIER]
      | Some c \<Rightarrow> if c = TESTS_CLASSIFIER then [TEST_SOURCES_CLASSIFIER]
                   else [c @ lit ''-'' @ SOURCES_CLASSIFIER, SOURCES_CLASSIFIER])"

lemma source_jar_candidates_repository:
  assumes parse: "parse_coordinate root p = Some (key, cl)"
    and binary: "\<not> ends_with (lit ''-sources'') (artifact_stem key cl)"
  shows "source_jar_candidates p cl =
    map (\<lambda>c. with_file_name p (artifact_stem key (Some c) @ lit ''.jar'')) (candidate_classifiers cl)"
proof -
  have stem: "path_file_name p \<bind> strip_suffix (lit ''.jar'') = Some (artifact_stem key cl)"
    using parse_coordinate_file_name [OF parse] by (simp del: lit.simps)
  have dash: "strip_suffix c (artifact_stem key (Some c)) \<bind> (\<lambda>base.
      map_option (Pair c) (strip_suffix (lit ''-'') base)) = Some (c, artifact_stem key None)" for c
  proof -
    have "strip_suffix c (artifact_stem key (Some c)) = Some (artifact_stem key None @ lit ''-'')"
      unfolding artifact_stem_Some strip_suffix_Some by simp
    then show ?thesis by (simp del: lit.simps)
  qed
  show ?thesis
  proof (cases cl)
    case None
    then show ?thesis using stem binary
      by (simp add: source_jar_candidates_def candidate_classifiers_def artifact_stem_Some del: lit.simps)
  next
    case (Some c)
    then have "source_jar_candidates p cl =
        (if c = TESTS_CLASSIFIER
         then [with_file_name p (artifact_stem key None @ lit ''-'' @ TEST_SOURCES_CLASSIFIER @ lit ''.jar'')]
         else [with_file_name p (artifact_stem key cl @ lit ''-'' @ SOURCES_CLASSIFIER @ lit ''.jar''),
               with_file_name p (artifact_stem key None @ lit ''-'' @ SOURCES_CLASSIFIER @ lit ''.jar'')])"
      using stem binary dash [of c] by (simp add: source_jar_candidates_def Let_def del: lit.simps)
    then show ?thesis using Some
      by (simp add: candidate_classifiers_def artifact_stem_Some del: lit.simps)
  qed
qed

lemma documented_candidates:
  assumes "cl \<noteq> Some []" "cl \<noteq> Some (lit ''test'')"
  shows "map (\<lambda>c. documented_classifier (Some c)) (candidate_classifiers cl) =
    Some cl # (if cl = None \<or> cl = Some TESTS_CLASSIFIER then [] else [Some None])"
proof (cases cl)
  case None
  then show ?thesis
    by (simp add: candidate_classifiers_def documented_classifier_def SOURCES_CLASSIFIER_def TESTS_CLASSIFIER_def)
next
  case (Some c)
  show ?thesis
  proof (cases "c = TESTS_CLASSIFIER")
    case True
    then show ?thesis using Some
      by (simp add: candidate_classifiers_def documented_classifier_def SOURCES_CLASSIFIER_def
        TEST_SOURCES_CLASSIFIER_def TESTS_CLASSIFIER_def)
  next
    case False
    let ?d = "c @ lit ''-sources''"
    have "length ?d \<noteq> length SOURCES_CLASSIFIER" by (simp add: SOURCES_CLASSIFIER_def)
    then have "?d \<noteq> SOURCES_CLASSIFIER" by metis
    moreover have "TEST_SOURCES_CLASSIFIER = lit ''test'' @ lit ''-sources''"
      by (simp add: TEST_SOURCES_CLASSIFIER_def)
    then have "?d \<noteq> TEST_SOURCES_CLASSIFIER" using assms(2) Some by (metis append_same_eq)
    ultimately have "documented_classifier (Some ?d) = Some (Some c)"
      using assms(1) Some by (simp add: documented_classifier_def del: lit.simps)
    moreover have "c @ lit ''-'' @ SOURCES_CLASSIFIER = ?d" by (simp add: SOURCES_CLASSIFIER_def)
    ultimately show ?thesis using Some False
      by (simp add: candidate_classifiers_def documented_classifier_def SOURCES_CLASSIFIER_def del: lit.simps)
  qed
qed

lemma candidates_documented:
  assumes "parse_coordinate root p = Some (key, cl)"
    and "\<not> ends_with (lit ''-sources'') (artifact_stem key cl)"
    and "cl \<noteq> Some []" "cl \<noteq> Some (lit ''test'')"
  shows "map (\<lambda>q. map_option (\<lambda>(k, c). (k, documented_classifier c)) (parse_coordinate root q))
      (source_jar_candidates p cl) =
    Some (key, Some cl) #
      (if cl = None \<or> cl = Some TESTS_CLASSIFIER then [] else [Some (key, Some None)])"
proof -
  have "map (\<lambda>q. map_option (\<lambda>(k, c). (k, documented_classifier c)) (parse_coordinate root q))
      (source_jar_candidates p cl) =
    map (\<lambda>d. Some (key, d)) (map (\<lambda>c. documented_classifier (Some c)) (candidate_classifiers cl))"
    using assms(1,2) by (simp add: source_jar_candidates_repository parse_sibling o_def del: lit.simps)
  then show ?thesis unfolding documented_candidates [OF assms(3,4)] by simp
qed

text \<open>
  Claim C22: source_candidates_documented.  The sources JARs that are looked for beside a binary JAR
  of the repository are parsed as artifacts of the same coordinate, and their classifiers document
  it: the first one documents exactly the classifier of the binary, and only a classifier other than
  \<open>tests\<close> has a second candidate, the sources of the unclassified artifact.
\<close>

lemma source_candidates_documented:
  assumes "parse_coordinate root p = Some (key, cl)"
    and "\<not> ends_with (lit ''-sources'') (artifact_stem key cl)"
    and "cl \<noteq> Some []" "cl \<noteq> Some (lit ''test'')"
  shows "map (\<lambda>q. map_option (\<lambda>(k, c). (k, documented_classifier c)) (parse_coordinate root q))
      (source_jar_candidates p cl) =
    Some (key, Some cl) #
      (if cl = None \<or> cl = Some TESTS_CLASSIFIER then [] else [Some (key, Some None)])"
  using assms by (rule candidates_documented)

text \<open>
  The classifier \<open>test\<close> is the exception: its sources JAR is taken for the sources of \<open>tests\<close>.
\<close>

lemma test_classifier_mispaired:
  "candidate_classifiers (Some (lit ''test'')) = [TEST_SOURCES_CLASSIFIER, SOURCES_CLASSIFIER] \<and>
   documented_classifier (Some TEST_SOURCES_CLASSIFIER) = Some (Some TESTS_CLASSIFIER)"
  by (simp add: candidate_classifiers_def documented_classifier_def SOURCES_CLASSIFIER_def
    TEST_SOURCES_CLASSIFIER_def TESTS_CLASSIFIER_def)

end
