(* ===== verification/Archive_Budget.thy ===== *)
theory Archive_Budget
  imports Config
begin

text \<open>
  The budget an index build charges its archives against, and the preflight that charges it before
  any archive is opened (\<open>src/src/index.rs\<close>, \<open>ArchiveBudget\<close>, \<open>preflight_archive\<close>,
  \<open>preflight_directory\<close>; \<open>src/src/index/persisted.rs\<close>, \<open>PreflightCharge\<close>).

  A file is the list of its bytes and does not change while it is read; \<open>read_exact\<close> behind its end
  is an error.  A class directory is what the walk over it yields.  Operations on the budget return
  the budget also when they fail, because the code changes it through a mutable reference.
\<close>

section \<open>The budget\<close>

record ArchiveBudget =
  ab_entries :: nat
  ab_names :: nat
  ab_jar_entries :: nat

text \<open>The error of an exceeded limit, and every other error of the \<open>anyhow\<close> chain.\<close>

datatype archive_error = ArchiveLimit str | Malformed str

definition MAX_CENTRAL_DIRECTORY_BYTES :: nat where
  "MAX_CENTRAL_DIRECTORY_BYTES = 67108864"

definition MAX_ENTRY_NAME_BYTES :: nat where
  "MAX_ENTRY_NAME_BYTES = 4096"

definition configured_budget :: "resource_limits \<Rightarrow> ArchiveBudget" where
  "configured_budget limits =
     \<lparr> ab_entries = rl_index_entries limits, ab_names = rl_index_name_bytes limits,
       ab_jar_entries = rl_jar_entries limits \<rparr>"

definition reserve_entry :: "nat \<Rightarrow> ArchiveBudget \<Rightarrow> (archive_error + unit) \<times> ArchiveBudget" where
  "reserve_entry name_bytes b =
     (case checked_sub (ab_entries b) 1 of
        None \<Rightarrow> (Inl (ArchiveLimit (lit ''MAX_INDEX_ENTRIES'')), b)
      | Some entries \<Rightarrow>
          let b = b \<lparr> ab_entries := entries \<rparr>
          in case checked_sub (ab_names b) name_bytes of
               None \<Rightarrow> (Inl (ArchiveLimit (lit ''MAX_INDEX_NAME_BYTES'')), b)
             | Some names \<Rightarrow> (Inr (), b \<lparr> ab_names := names \<rparr>))"

section \<open>Reading bytes\<close>

type_synonym bytes = "8 word list"

definition u16_le :: "bytes \<Rightarrow> nat \<Rightarrow> nat" where
  "u16_le bs i = unat (bs ! i) + 256 * unat (bs ! (i + 1))"

definition u32_le :: "bytes \<Rightarrow> nat \<Rightarrow> nat" where
  "u32_le bs i = u16_le bs i + 65536 * u16_le bs (i + 2)"

definition u64_le :: "bytes \<Rightarrow> nat \<Rightarrow> nat" where
  "u64_le bs i = u32_le bs i + 2 ^ 32 * u32_le bs (i + 4)"

definition has_magic :: "bytes \<Rightarrow> nat \<Rightarrow> bytes \<Rightarrow> bool" where
  "has_magic bs i magic \<longleftrightarrow> take (length magic) (drop i bs) = magic"

text \<open>\<open>seek(SeekFrom::Start(pos))\<close> followed by \<open>read_exact\<close>.\<close>

definition read_exact :: "bytes \<Rightarrow> nat \<Rightarrow> nat \<Rightarrow> bytes option" where
  "read_exact file pos n = (if pos + n \<le> length file then Some (take n (drop pos file)) else None)"

section \<open>Preflight of a JAR\<close>

text \<open>The last position of the tail where an end record starts whose comment ends the file.\<close>

definition find_end_record :: "bytes \<Rightarrow> nat option" where
  "find_end_record tail =
     find (\<lambda>i. has_magic tail i [0x50, 0x4b, 0x05, 0x06] \<and> i + 22 + u16_le tail (i + 20) = length tail)
       (rev [0..<length tail - 21])"

text \<open>Count, size and end of the central directory of a ZIP64 archive.\<close>

definition zip64_end :: "bytes \<Rightarrow> nat \<Rightarrow> archive_error + nat \<times> nat \<times> nat" where
  "zip64_end file central_end =
     (case checked_sub central_end 20 of
        None \<Rightarrow> Inl (Malformed (lit ''ZIP64 locator missing''))
      | Some locator_pos \<Rightarrow>
          case read_exact file locator_pos 20 of
            None \<Rightarrow> Inl (Malformed (lit ''unexpected end of file''))
          | Some locator \<Rightarrow>
              if \<not> has_magic locator 0 [0x50, 0x4b, 0x06, 0x07] then Inl (Malformed (lit ''invalid ZIP64 locator''))
              else let zip64_offset = u64_le locator 8
                   in case read_exact file zip64_offset 56 of
                        None \<Rightarrow> Inl (Malformed (lit ''unexpected end of file''))
                      | Some header \<Rightarrow>
                          if \<not> has_magic header 0 [0x50, 0x4b, 0x06, 0x06]
                          then Inl (Malformed (lit ''invalid ZIP64 end record''))
                          else if u64_le header 4 > MAX_CENTRAL_DIRECTORY_BYTES
                          then Inl (ArchiveLimit (lit ''MAX_CENTRAL_DIRECTORY_BYTES''))
                          else Inr (u64_le header 32, u64_le header 40, zip64_offset))"

text \<open>The same for any archive, from its end record.\<close>

definition central_directory :: "bytes \<Rightarrow> archive_error + nat \<times> nat \<times> nat" where
  "central_directory file =
     (let tail_size = min (length file) 65557;
          tail = drop (length file - tail_size) file
      in case find_end_record tail of
           None \<Rightarrow> Inl (Malformed (lit ''ZIP end of central directory missing''))
         | Some e \<Rightarrow>
             if u16_le tail (e + 4) \<noteq> 0 \<or> u16_le tail (e + 6) \<noteq> 0
             then Inl (Malformed (lit ''multi-disk ZIP is unsupported''))
             else
               let count = u16_le tail (e + 10);
                   dir_size = u32_le tail (e + 12);
                   central_end = length file - tail_size + e
               in if count = 65535 \<or> dir_size = 2 ^ 32 - 1 \<or> u32_le tail (e + 16) = 2 ^ 32 - 1
                  then zip64_end file central_end
                  else Inr (count, dir_size, central_end))"

text \<open>The loop over the headers of the central directory; its value is the number of headers.\<close>

function central_loop ::
  "bytes \<Rightarrow> nat \<Rightarrow> nat \<Rightarrow> nat \<Rightarrow> nat \<Rightarrow> ArchiveBudget \<Rightarrow> (archive_error + nat) \<times> ArchiveBudget" where
  "central_loop file pos consumed dir_size entries b =
     (if \<not> consumed < dir_size then (Inr entries, b)
      else if dir_size - consumed < 46 then (Inl (Malformed (lit ''truncated central directory'')), b)
      else case read_exact file pos 46 of
             None \<Rightarrow> (Inl (Malformed (lit ''unexpected end of file'')), b)
           | Some header \<Rightarrow>
               if \<not> has_magic header 0 [0x50, 0x4b, 0x01, 0x02]
               then (Inl (Malformed (lit ''invalid central directory entry'')), b)
               else if entries + 1 > ab_jar_entries b
               then (Inl (ArchiveLimit (lit ''MAX_JAR_ENTRIES'')), b)
               else
                 let names = u16_le header 28
                 in if names > MAX_ENTRY_NAME_BYTES then (Inl (ArchiveLimit (lit ''MAX_ENTRY_NAME_BYTES'')), b)
                    else
                      let (r, b) = reserve_entry names b
                      in case r of
                           Inl e \<Rightarrow> (Inl e, b)
                         | Inr _ \<Rightarrow>
                             let variable_bytes = names + u16_le header 30 + u16_le header 32;
                                 consumed = consumed + 46 + variable_bytes
                             in if consumed > dir_size
                                then (Inl (Malformed (lit ''central entry exceeds directory size'')), b)
                                else central_loop file (pos + 46 + variable_bytes) consumed dir_size (entries + 1) b)"
  by pat_completeness auto
termination
  by (relation "measure (\<lambda>(_, _, consumed, dir_size, _). dir_size - consumed)") auto

declare central_loop.simps [simp del, loop_simps]

definition preflight_archive :: "bytes \<Rightarrow> ArchiveBudget \<Rightarrow> (archive_error + unit) \<times> ArchiveBudget" where
  "preflight_archive file b =
     (case central_directory file of
        Inl e \<Rightarrow> (Inl e, b)
      | Inr (count, dir_size, central_end) \<Rightarrow>
          if count > ab_jar_entries b then (Inl (ArchiveLimit (lit ''MAX_JAR_ENTRIES'')), b)
          else if count > ab_entries b then (Inl (ArchiveLimit (lit ''MAX_INDEX_ENTRIES'')), b)
          else if dir_size > MAX_CENTRAL_DIRECTORY_BYTES
          then (Inl (ArchiveLimit (lit ''MAX_CENTRAL_DIRECTORY_BYTES'')), b)
          else case checked_sub central_end dir_size of
                 None \<Rightarrow> (Inl (Malformed (lit ''invalid central directory size'')), b)
               | Some start \<Rightarrow>
                   case central_loop file start 0 dir_size 0 b of
                     (Inl e, b) \<Rightarrow> (Inl e, b)
                   | (Inr entries, b) \<Rightarrow>
                       if entries \<noteq> count
                       then (Inl (Malformed (lit ''central directory entry count mismatch'')), b)
                       else (Inr (), b))"

section \<open>Preflight of a class directory\<close>

text \<open>What the walk yields: an error, something that is no regular file, or a file and the byte length
  of its path relative to the directory.\<close>

datatype walk_entry = Walk_Error | Not_A_File | Regular_File nat

fun directory_loop ::
  "walk_entry list \<Rightarrow> nat \<Rightarrow> ArchiveBudget \<Rightarrow> (archive_error + unit) \<times> ArchiveBudget" where
  "directory_loop [] entries b = (Inr (), b)"
| "directory_loop (Walk_Error # ws) entries b = (Inl (Malformed (lit ''cannot read class directory'')), b)"
| "directory_loop (Not_A_File # ws) entries b = directory_loop ws entries b"
| "directory_loop (Regular_File name_bytes # ws) entries b =
     (if entries + 1 > ab_jar_entries b then (Inl (ArchiveLimit (lit ''MAX_JAR_ENTRIES'')), b)
      else if name_bytes > MAX_ENTRY_NAME_BYTES then (Inl (ArchiveLimit (lit ''MAX_ENTRY_NAME_BYTES'')), b)
      else case reserve_entry name_bytes b of
             (Inl e, b) \<Rightarrow> (Inl e, b)
           | (Inr _, b) \<Rightarrow> directory_loop ws (entries + 1) b)"

definition preflight_directory ::
  "walk_entry list \<Rightarrow> ArchiveBudget \<Rightarrow> (archive_error + unit) \<times> ArchiveBudget" where
  "preflight_directory walk b = directory_loop walk 0 b"

section \<open>Charging a stored record\<close>

record PreflightCharge =
  pc_entries :: nat
  pc_name_bytes :: nat

definition charge_between :: "ArchiveBudget \<Rightarrow> ArchiveBudget \<Rightarrow> PreflightCharge" where
  "charge_between before after =
     \<lparr> pc_entries = wrap_sub (ab_entries before) (ab_entries after),
       pc_name_bytes = wrap_sub (ab_names before) (ab_names after) \<rparr>"

definition charge_preflight ::
  "PreflightCharge \<Rightarrow> ArchiveBudget \<Rightarrow> (archive_error + unit) \<times> ArchiveBudget" where
  "charge_preflight c b =
     (if pc_entries c > ab_jar_entries b then (Inl (ArchiveLimit (lit ''MAX_JAR_ENTRIES'')), b)
      else case checked_sub (ab_entries b) (pc_entries c) of
             None \<Rightarrow> (Inl (ArchiveLimit (lit ''MAX_INDEX_ENTRIES'')), b)
           | Some entries \<Rightarrow>
               let b = b \<lparr> ab_entries := entries \<rparr>
               in case checked_sub (ab_names b) (pc_name_bytes c) of
                    None \<Rightarrow> (Inl (ArchiveLimit (lit ''MAX_INDEX_NAME_BYTES'')), b)
                  | Some names \<Rightarrow> (Inr (), b \<lparr> ab_names := names \<rparr>))"

section \<open>What a preflight charges\<close>

definition budget_le :: "ArchiveBudget \<Rightarrow> ArchiveBudget \<Rightarrow> bool" where
  "budget_le b' b \<longleftrightarrow> ab_entries b' \<le> ab_entries b \<and> ab_names b' \<le> ab_names b \<and> ab_jar_entries b' = ab_jar_entries b"

lemma budget_le_refl [simp]: "budget_le b b"
  by (simp add: budget_le_def)

lemma budget_le_trans: "budget_le a b \<Longrightarrow> budget_le b c \<Longrightarrow> budget_le a c"
  by (auto simp: budget_le_def)

fun reserve_all :: "nat list \<Rightarrow> ArchiveBudget \<Rightarrow> (archive_error + unit) \<times> ArchiveBudget" where
  "reserve_all [] b = (Inr (), b)"
| "reserve_all (n # ns) b =
     (case reserve_entry n b of (Inl e, b) \<Rightarrow> (Inl e, b) | (Inr _, b) \<Rightarrow> reserve_all ns b)"

definition spend :: "nat \<Rightarrow> nat \<Rightarrow> ArchiveBudget \<Rightarrow> ArchiveBudget" where
  "spend entries names b = b \<lparr> ab_entries := ab_entries b - entries, ab_names := ab_names b - names \<rparr>"

lemma reserve_entry_cases:
  "reserve_entry n b =
     (if ab_entries b = 0 then (Inl (ArchiveLimit (lit ''MAX_INDEX_ENTRIES'')), b)
      else if ab_names b < n then (Inl (ArchiveLimit (lit ''MAX_INDEX_NAME_BYTES'')), spend 1 0 b)
      else (Inr (), spend 1 n b))"
  by (cases b) (auto simp: reserve_entry_def checked_sub_def spend_def)

lemma spend_fields [simp]:
  "ab_entries (spend e n b) = ab_entries b - e" "ab_names (spend e n b) = ab_names b - n"
  "ab_jar_entries (spend e n b) = ab_jar_entries b" "spend e n (spend e' n' b) = spend (e' + e) (n' + n) b"
  "spend 0 0 b = b"
  by (simp_all add: spend_def)

lemma budget_le_spend [simp]: "budget_le (spend e n b) b"
  by (simp add: budget_le_def)

lemma reserve_all_cases:
  "length ns \<le> ab_entries b \<Longrightarrow>
     (if sum_list ns \<le> ab_names b then reserve_all ns b = (Inr (), spend (length ns) (sum_list ns) b)
      else fst (reserve_all ns b) = Inl (ArchiveLimit (lit ''MAX_INDEX_NAME_BYTES'')))"
proof (induction ns arbitrary: b)
  case (Cons n ns)
  then have IH: "if sum_list ns \<le> ab_names (spend 1 n b)
      then reserve_all ns (spend 1 n b) = (Inr (), spend (length ns) (sum_list ns) (spend 1 n b))
      else fst (reserve_all ns (spend 1 n b)) = Inl (ArchiveLimit (lit ''MAX_INDEX_NAME_BYTES''))"
    by (intro Cons.IH) simp
  have ne: "ab_entries b \<noteq> 0" using Cons.prems by auto
  show ?case
  proof (cases "ab_names b < n")
    case True
    then show ?thesis using ne by (simp add: reserve_entry_cases)
  next
    case False
    then have "sum_list ns \<le> ab_names (spend 1 n b) \<longleftrightarrow> sum_list (n # ns) \<le> ab_names b" by auto
    with IH False ne show ?thesis by (simp add: reserve_entry_cases split: if_splits)
  qed
qed simp

lemma reserve_all_Inr:
  "reserve_all ns b = (Inr u, b') \<Longrightarrow>
     length ns \<le> ab_entries b \<and> sum_list ns \<le> ab_names b \<and> b' = spend (length ns) (sum_list ns) b"
proof (induction ns arbitrary: b)
  case (Cons n ns)
  then have ok: "ab_entries b \<noteq> 0" "\<not> ab_names b < n" and r: "reserve_all ns (spend 1 n b) = (Inr u, b')"
    by (auto simp: reserve_entry_cases split: if_splits)
  from Cons.IH [OF r] ok show ?case by auto
qed simp

lemma reserve_all_Inl: "fst (reserve_all ns b) = Inl e \<Longrightarrow> \<exists>what. e = ArchiveLimit what"
  by (induction ns arbitrary: b) (auto simp: reserve_entry_cases split: if_splits)

lemma charge_preflight_Inl: "fst (charge_preflight c b) = Inl e \<Longrightarrow> \<exists>what. e = ArchiveLimit what"
  by (auto simp: charge_preflight_def Let_def split: if_splits option.splits)

lemma charge_preflight_le: "budget_le (snd (charge_preflight c b)) b"
  by (auto simp: charge_preflight_def Let_def checked_sub_def budget_le_def)

lemma reserve_all_le: "budget_le (snd (reserve_all ns b)) b"
proof (induction ns arbitrary: b)
  case (Cons n ns)
  then show ?case using budget_le_trans [OF Cons.IH budget_le_spend]
    by (auto simp: reserve_entry_cases)
qed simp

definition after_reserve :: "nat \<Rightarrow> (archive_error + unit) \<times> ArchiveBudget \<Rightarrow> (archive_error + nat) \<times> ArchiveBudget" where
  "after_reserve n r = (case r of (Inl e, c) \<Rightarrow> (Inl e, c) | (Inr _, c) \<Rightarrow> (Inr n, c))"

text \<open>
  A loop that ends well has reserved the names of the headers it saw, and with another budget for the
  same limits it would have done nothing but reserve these names.
\<close>

lemma central_loop_Inr:
  "central_loop jar pos consumed dir_size entries b = (Inr n, b') \<Longrightarrow>
     \<exists>ns. n = entries + length ns \<and> reserve_all ns b = (Inr (), b') \<and> (\<forall>m\<in>set ns. m \<le> MAX_ENTRY_NAME_BYTES) \<and>
       (\<forall>c. ab_jar_entries c = ab_jar_entries b \<longrightarrow>
          central_loop jar pos consumed dir_size entries c = after_reserve n (reserve_all ns c))"
proof (induction jar pos consumed dir_size entries b rule: central_loop.induct)
  case (1 jar pos consumed dir_size entries b)
  show ?case
  proof (cases "consumed < dir_size")
    case False
    then have "central_loop jar pos consumed dir_size entries c = (Inr entries, c)" for c
      by (subst central_loop.simps) simp
    then show ?thesis using 1(2) by (intro exI [of _ "[]"]) (simp add: after_reserve_def)
  next
    case True
    from 1(2) True obtain header where header: "read_exact jar pos 46 = Some header"
      "has_magic header 0 [0x50, 0x4b, 0x01, 0x02]" and fit: "\<not> dir_size - consumed < 46"
      "\<not> entries + 1 > ab_jar_entries b"
      by (subst (asm) central_loop.simps) (auto split: option.splits if_splits)
    define names where "names = u16_le header 28"
    define rest where "rest = names + u16_le header 30 + u16_le header 32"
    have unfold: "central_loop jar pos consumed dir_size entries c =
      (if names > MAX_ENTRY_NAME_BYTES then (Inl (ArchiveLimit (lit ''MAX_ENTRY_NAME_BYTES'')), c)
       else case reserve_entry names c of
           (Inl e, c') \<Rightarrow> (Inl e, c')
         | (Inr _, c') \<Rightarrow>
             if consumed + 46 + rest > dir_size
             then (Inl (Malformed (lit ''central entry exceeds directory size'')), c')
             else central_loop jar (pos + 46 + rest) (consumed + 46 + rest) dir_size (entries + 1) c')"
      if "ab_jar_entries c = ab_jar_entries b" for c
      using header fit that True
      by (subst central_loop.simps) (auto simp: Let_def names_def rest_def split: sum.splits prod.splits)
    obtain b1 where b1: "reserve_entry names b = (Inr (), b1)" and small: "names \<le> MAX_ENTRY_NAME_BYTES"
      and le: "\<not> consumed + 46 + rest > dir_size"
      and rec: "central_loop jar (pos + 46 + rest) (consumed + 46 + rest) dir_size (entries + 1) b1 = (Inr n, b')"
      using 1(2) unfolding unfold [OF refl] by (auto split: sum.splits prod.splits if_splits)
    have jar_b1: "ab_jar_entries b1 = ab_jar_entries b" using b1
      by (auto simp: reserve_entry_cases split: if_splits)
    have "\<exists>ns. n = entries + 1 + length ns \<and> reserve_all ns b1 = (Inr (), b') \<and>
        (\<forall>m\<in>set ns. m \<le> MAX_ENTRY_NAME_BYTES) \<and>
        (\<forall>c. ab_jar_entries c = ab_jar_entries b1 \<longrightarrow>
          central_loop jar (pos + 46 + rest) (consumed + 46 + rest) dir_size (entries + 1) c =
            after_reserve n (reserve_all ns c))"
      using 1(1) [OF _ fit(1) header(1) _ fit(2)] True header(2) small le b1 rec
      unfolding names_def rest_def by simp
    then obtain ns where ns: "n = entries + 1 + length ns" "reserve_all ns b1 = (Inr (), b')"
      "\<forall>m\<in>set ns. m \<le> MAX_ENTRY_NAME_BYTES"
      and other: "\<And>c. ab_jar_entries c = ab_jar_entries b1 \<Longrightarrow>
          central_loop jar (pos + 46 + rest) (consumed + 46 + rest) dir_size (entries + 1) c =
            after_reserve n (reserve_all ns c)"
      by blast
    have "central_loop jar pos consumed dir_size entries c = after_reserve n (reserve_all (names # ns) c)"
      if c: "ab_jar_entries c = ab_jar_entries b" for c
      unfolding unfold [OF c] using small le other [of "spend 1 names c"] c jar_b1
      by (auto simp: reserve_entry_cases after_reserve_def)
    then show ?thesis using ns b1 small by (intro exI [of _ "names # ns"]) simp
  qed
qed

lemma central_loop_le: "budget_le (snd (central_loop jar pos consumed dir_size entries b)) b"
proof (induction jar pos consumed dir_size entries b rule: central_loop.induct)
  case (1 jar pos consumed dir_size entries b)
  have entry: "reserve_entry n b = (r, b1) \<Longrightarrow> budget_le b1 b" for n r b1
    by (auto simp: reserve_entry_cases split: if_splits)
  show ?case
  proof (cases "\<exists>header b1. consumed < dir_size \<and> \<not> dir_size - consumed < 46 \<and> read_exact jar pos 46 = Some header \<and>
      has_magic header 0 [0x50, 0x4b, 0x01, 0x02] \<and> \<not> entries + 1 > ab_jar_entries b \<and>
      \<not> u16_le header 28 > MAX_ENTRY_NAME_BYTES \<and> reserve_entry (u16_le header 28) b = (Inr (), b1) \<and>
      \<not> consumed + 46 + (u16_le header 28 + u16_le header 30 + u16_le header 32) > dir_size")
    case True
    then obtain header b1 where c: "consumed < dir_size" "\<not> dir_size - consumed < 46" "read_exact jar pos 46 = Some header"
      "has_magic header 0 [0x50, 0x4b, 0x01, 0x02]" "\<not> entries + 1 > ab_jar_entries b"
      "\<not> u16_le header 28 > MAX_ENTRY_NAME_BYTES" "reserve_entry (u16_le header 28) b = (Inr (), b1)"
      "\<not> consumed + 46 + (u16_le header 28 + u16_le header 30 + u16_le header 32) > dir_size" by blast
    have "central_loop jar pos consumed dir_size entries b =
        central_loop jar (pos + 46 + (u16_le header 28 + u16_le header 30 + u16_le header 32))
          (consumed + 46 + (u16_le header 28 + u16_le header 30 + u16_le header 32)) dir_size (entries + 1) b1"
      using c by (subst central_loop.simps) (simp add: Let_def)
    moreover have "budget_le b1 b" by (rule entry [OF c(7)])
    moreover have "budget_le (snd (central_loop jar (pos + 46 + (u16_le header 28 + u16_le header 30 + u16_le header 32))
          (consumed + 46 + (u16_le header 28 + u16_le header 30 + u16_le header 32)) dir_size (entries + 1) b1)) b1"
      using 1 [OF _ c(2,3) _ c(5) refl c(6)] c by simp
    ultimately show ?thesis by (metis budget_le_trans)
  next
    case False
    then show ?thesis
      by (subst central_loop.simps) (auto simp: Let_def dest: entry split: option.split sum.split prod.split)
  qed
qed

lemma preflight_archive_le: "budget_le (snd (preflight_archive jar b)) b"
proof -
  have "central_loop jar pos consumed dir_size entries b = (r, b') \<Longrightarrow> budget_le b' b"
    for pos consumed dir_size entries r b'
    using central_loop_le [of jar pos consumed dir_size entries b] by simp
  then show ?thesis
    by (auto simp: preflight_archive_def split: option.split sum.split prod.split)
qed

lemma preflight_archive_Inr:
  assumes "preflight_archive jar b = (Inr u, b')"
  shows "\<exists>ns. reserve_all ns b = (Inr (), b') \<and> length ns \<le> ab_jar_entries b \<and>
    (\<forall>m\<in>set ns. m \<le> MAX_ENTRY_NAME_BYTES) \<and>
    (\<forall>c. ab_jar_entries c = ab_jar_entries b \<longrightarrow>
       preflight_archive jar c =
         (if length ns > ab_entries c then (Inl (ArchiveLimit (lit ''MAX_INDEX_ENTRIES'')), c) else reserve_all ns c))"
proof -
  from assms obtain count dir_size central_end start where cd: "central_directory jar = Inr (count, dir_size, central_end)"
    and lim: "\<not> count > ab_jar_entries b" "\<not> dir_size > MAX_CENTRAL_DIRECTORY_BYTES"
    and start: "checked_sub central_end dir_size = Some start"
    and loop: "central_loop jar start 0 dir_size 0 b = (Inr count, b')"
    by (auto simp: preflight_archive_def split: sum.splits prod.splits if_splits option.splits)
  from central_loop_Inr [OF loop] obtain ns where ns: "count = length ns" "reserve_all ns b = (Inr (), b')"
    "\<forall>m\<in>set ns. m \<le> MAX_ENTRY_NAME_BYTES"
    and other: "\<And>c. ab_jar_entries c = ab_jar_entries b \<Longrightarrow>
      central_loop jar start 0 dir_size 0 c = after_reserve count (reserve_all ns c)" by auto
  have "preflight_archive jar c =
      (if length ns > ab_entries c then (Inl (ArchiveLimit (lit ''MAX_INDEX_ENTRIES'')), c) else reserve_all ns c)"
    if c: "ab_jar_entries c = ab_jar_entries b" for c
    using cd lim start other [OF c] c ns(1)
    by (auto simp: preflight_archive_def after_reserve_def split: sum.splits prod.splits)
  then show ?thesis using ns lim(1) by (intro exI [of _ ns]) simp
qed

lemma charge_as_preflight:
  assumes pre: "preflight_archive jar b = (Inr u, b')"
    and range: "ab_entries b \<le> usize_max" "ab_names b \<le> usize_max"
    and same: "ab_jar_entries c = ab_jar_entries b"
  shows "fst (charge_preflight (charge_between b b') c) = fst (preflight_archive jar c) \<and>
    (fst (preflight_archive jar c) = Inr () \<longrightarrow>
       charge_preflight (charge_between b b') c = preflight_archive jar c)"
proof -
  from preflight_archive_Inr [OF pre] obtain ns where ns: "reserve_all ns b = (Inr (), b')"
    "length ns \<le> ab_jar_entries b"
    and other: "preflight_archive jar c =
      (if length ns > ab_entries c then (Inl (ArchiveLimit (lit ''MAX_INDEX_ENTRIES'')), c) else reserve_all ns c)"
    using same by blast
  from reserve_all_Inr [OF ns(1)] range have "charge_between b b' = \<lparr> pc_entries = length ns, pc_name_bytes = sum_list ns \<rparr>"
    by (auto simp: charge_between_def wrap_sub_no_underflow)
  moreover have "charge_preflight \<lparr> pc_entries = length ns, pc_name_bytes = sum_list ns \<rparr> c =
      (if length ns > ab_entries c then (Inl (ArchiveLimit (lit ''MAX_INDEX_ENTRIES'')), c)
       else if sum_list ns \<le> ab_names c then (Inr (), spend (length ns) (sum_list ns) c)
       else (Inl (ArchiveLimit (lit ''MAX_INDEX_NAME_BYTES'')), spend (length ns) 0 c))"
    using ns(2) same by (auto simp: charge_preflight_def checked_sub_def spend_def)
  moreover note reserve_all_cases [of ns c]
  ultimately show ?thesis by (cases "length ns > ab_entries c") (auto simp: other split: if_splits)
qed

text \<open>
  Claim C16: charge_equals_preflight.  Charging a stored record has the effect its preflight had: once
  the preflight of an archive has succeeded, charging the difference it made to any other budget with
  the same per-JAR limit succeeds exactly when a preflight of the archive itself would succeed with
  that budget, leaves the same budget then, and fails with the same limit otherwise.
\<close>

lemma charge_equals_preflight:
  assumes pre: "preflight_archive jar b = (Inr u, b')"
    and range: "ab_entries b \<le> usize_max" "ab_names b \<le> usize_max"
    and same: "ab_jar_entries c = ab_jar_entries b"
  shows "fst (charge_preflight (charge_between b b') c) = fst (preflight_archive jar c) \<and>
    (fst (preflight_archive jar c) = Inr () \<longrightarrow>
       charge_preflight (charge_between b b') c = preflight_archive jar c)"
  using assms by (rule charge_as_preflight)

text \<open>
  The same for class directories; there a budget that runs out of both entries and names may report
  the other limit, because names and entries are reserved in turn.
\<close>

primrec file_sizes :: "walk_entry list \<Rightarrow> nat list" where
  "file_sizes [] = []"
| "file_sizes (w # ws) = (case w of Regular_File n \<Rightarrow> [n] | _ \<Rightarrow> []) @ file_sizes ws"

lemma directory_loop_Inr:
  "directory_loop ws entries b = (Inr u, b') \<Longrightarrow>
     reserve_all (file_sizes ws) b = (Inr (), b') \<and>
     (file_sizes ws = [] \<or> entries + length (file_sizes ws) \<le> ab_jar_entries b) \<and>
     (\<forall>c. ab_jar_entries c = ab_jar_entries b \<longrightarrow> directory_loop ws entries c = reserve_all (file_sizes ws) c)"
proof (induction ws entries b rule: directory_loop.induct)
  case (4 n ws entries b)
  then have ok: "\<not> entries + 1 > ab_jar_entries b" "\<not> n > MAX_ENTRY_NAME_BYTES"
    "ab_entries b \<noteq> 0" "\<not> ab_names b < n" and rec: "directory_loop ws (entries + 1) (spend 1 n b) = (Inr u, b')"
    by (auto simp: reserve_entry_cases split: if_splits)
  have "reserve_entry n b = (Inr (), spend 1 n b)" using ok by (simp add: reserve_entry_cases)
  from 4(1) [OF ok(1,2) this [symmetric] _ rec] have
    IH: "reserve_all (file_sizes ws) (spend 1 n b) = (Inr (), b')"
      "file_sizes ws = [] \<or> entries + 1 + length (file_sizes ws) \<le> ab_jar_entries b"
      "\<And>c. ab_jar_entries c = ab_jar_entries b \<Longrightarrow>
         directory_loop ws (entries + 1) c = reserve_all (file_sizes ws) c" by auto
  then show ?case using ok by (auto simp: reserve_entry_cases split: sum.splits)
qed simp_all

lemma directory_loop_le: "budget_le (snd (directory_loop ws entries b)) b"
proof (induction ws entries b rule: directory_loop.induct)
  case (4 n ws entries b)
  have "reserve_entry n b = (r, b1) \<Longrightarrow> budget_le b1 b" for r b1
    by (auto simp: reserve_entry_cases split: if_splits)
  with 4 show ?case by (auto split: sum.split prod.split intro: budget_le_trans)
qed simp_all

lemma charge_fits_preflight_directory:
  assumes pre: "preflight_directory walk b = (Inr u, b')"
    and range: "ab_entries b \<le> usize_max" "ab_names b \<le> usize_max"
    and same: "ab_jar_entries c = ab_jar_entries b"
  shows "(fst (charge_preflight (charge_between b b') c) = Inr () \<longleftrightarrow> fst (preflight_directory walk c) = Inr ()) \<and>
    (fst (preflight_directory walk c) = Inr () \<longrightarrow>
       charge_preflight (charge_between b b') c = preflight_directory walk c) \<and>
    (\<forall>e. fst (preflight_directory walk c) = Inl e \<longrightarrow> (\<exists>what. e = ArchiveLimit what))"
proof -
  let ?ns = "file_sizes walk"
  have res: "reserve_all ?ns b = (Inr (), b')" and len: "length ?ns \<le> ab_jar_entries b"
    and other: "preflight_directory walk c = reserve_all ?ns c"
    using directory_loop_Inr [OF pre [unfolded preflight_directory_def]] same
    by (auto simp: preflight_directory_def)
  from reserve_all_Inr [OF res] range
  have charge: "charge_between b b' = \<lparr> pc_entries = length ?ns, pc_name_bytes = sum_list ?ns \<rparr>"
    by (auto simp: charge_between_def wrap_sub_no_underflow)
  show ?thesis
  proof (cases "length ?ns \<le> ab_entries c \<and> sum_list ?ns \<le> ab_names c")
    case True
    then show ?thesis using reserve_all_cases [of ?ns c] len same
      unfolding charge other by (auto simp: charge_preflight_def checked_sub_def spend_def)
  next
    case False
    then have "fst (reserve_all ?ns c) \<noteq> Inr ()"
      using reserve_all_Inr [of ?ns c "()" "snd (reserve_all ?ns c)"] by (metis prod.collapse)
    moreover have "fst (charge_preflight (charge_between b b') c) \<noteq> Inr ()"
      using False unfolding charge by (auto simp: charge_preflight_def checked_sub_def)
    ultimately show ?thesis unfolding other using reserve_all_Inl by simp
  qed
qed

text \<open>An archive of one entry with the name \<open>A\<close>, without the data of the entry.\<close>

definition one_entry_jar :: bytes where
  "one_entry_jar =
     [0x50, 0x4b, 0x01, 0x02] @ replicate 24 0 @ [1, 0] @ replicate 16 0 @ [0x41] @
     [0x50, 0x4b, 0x05, 0x06] @ replicate 6 0 @ [1, 0] @ [47, 0, 0, 0] @ replicate 6 0"

lemma preflight_one_entry:
  "preflight_archive one_entry_jar \<lparr> ab_entries = 5, ab_names = 9, ab_jar_entries = 3 \<rparr> =
     (Inr (), \<lparr> ab_entries = 4, ab_names = 8, ab_jar_entries = 3 \<rparr>)"
  by code_simp

end
