(* ===== verification/Jar_Records.thy ===== *)
theory Jar_Records
  imports Jar_Names Archive_Budget "HOL-Library.Option_ord"
begin

text \<open>
  The record an index keeps of one JAR and how it is filled (\<open>src/src/index.rs\<close>): the pool of fact
  strings, hierarchy and reference facts of class files, provider facts of descriptors, and the
  selectors and summaries computed from a record.

  Opening an archive (\<open>zip\<close> crate, file system) and parsing a class file (\<open>cafebabe\<close> crate) are
  parameters: an archive is a function from entry names to what reading the entry yields, and a parser
  maps bytes to the parts of a class file that the code reads.  A type with a derived \<open>Ord\<close> is a
  datatype with an instance of \<open>linorder\<close> that compares its fields in order, because the code sorts
  it; a \<open>BTreeSet\<close> is a sorted list without duplicates.
\<close>

section \<open>Facts\<close>

datatype TypeRelation = Extends | Implements

datatype ClassReferenceKind = Class_Ref | Field_Ref | Method_Ref | Interface_Method_Ref

datatype ProviderDescriptorKind = Service_Loader | Module_Uses | Module_Provides | Spring_Factories | Spring_Imports

instantiation TypeRelation :: linorder
begin

fun relation_rank :: "TypeRelation \<Rightarrow> nat" where
  "relation_rank Extends = 0"
| "relation_rank Implements = 1"

definition less_eq_TypeRelation :: "TypeRelation \<Rightarrow> TypeRelation \<Rightarrow> bool" where
  "less_eq_TypeRelation a b \<longleftrightarrow> relation_rank a \<le> relation_rank b"

definition less_TypeRelation :: "TypeRelation \<Rightarrow> TypeRelation \<Rightarrow> bool" where
  "less_TypeRelation a b \<longleftrightarrow> relation_rank a < relation_rank b"

instance
proof
  fix a b :: TypeRelation
  show "a \<le> b \<Longrightarrow> b \<le> a \<Longrightarrow> a = b"
    by (cases a; cases b) (simp_all add: less_eq_TypeRelation_def)
qed (auto simp: less_eq_TypeRelation_def less_TypeRelation_def)

end

instantiation ClassReferenceKind :: linorder
begin

fun kind_rank :: "ClassReferenceKind \<Rightarrow> nat" where
  "kind_rank Class_Ref = 0"
| "kind_rank Field_Ref = 1"
| "kind_rank Method_Ref = 2"
| "kind_rank Interface_Method_Ref = 3"

definition less_eq_ClassReferenceKind :: "ClassReferenceKind \<Rightarrow> ClassReferenceKind \<Rightarrow> bool" where
  "less_eq_ClassReferenceKind a b \<longleftrightarrow> kind_rank a \<le> kind_rank b"

definition less_ClassReferenceKind :: "ClassReferenceKind \<Rightarrow> ClassReferenceKind \<Rightarrow> bool" where
  "less_ClassReferenceKind a b \<longleftrightarrow> kind_rank a < kind_rank b"

instance
proof
  fix a b :: ClassReferenceKind
  show "a \<le> b \<Longrightarrow> b \<le> a \<Longrightarrow> a = b"
    by (cases a; cases b) (simp_all add: less_eq_ClassReferenceKind_def)
qed (auto simp: less_eq_ClassReferenceKind_def less_ClassReferenceKind_def)

end

instantiation ProviderDescriptorKind :: linorder
begin

fun descriptor_rank :: "ProviderDescriptorKind \<Rightarrow> nat" where
  "descriptor_rank Service_Loader = 0"
| "descriptor_rank Module_Uses = 1"
| "descriptor_rank Module_Provides = 2"
| "descriptor_rank Spring_Factories = 3"
| "descriptor_rank Spring_Imports = 4"

definition less_eq_ProviderDescriptorKind :: "ProviderDescriptorKind \<Rightarrow> ProviderDescriptorKind \<Rightarrow> bool" where
  "less_eq_ProviderDescriptorKind a b \<longleftrightarrow> descriptor_rank a \<le> descriptor_rank b"

definition less_ProviderDescriptorKind :: "ProviderDescriptorKind \<Rightarrow> ProviderDescriptorKind \<Rightarrow> bool" where
  "less_ProviderDescriptorKind a b \<longleftrightarrow> descriptor_rank a < descriptor_rank b"

instance
proof
  fix a b :: ProviderDescriptorKind
  show "a \<le> b \<Longrightarrow> b \<le> a \<Longrightarrow> a = b"
    by (cases a; cases b) (simp_all add: less_eq_ProviderDescriptorKind_def)
qed (auto simp: less_eq_ProviderDescriptorKind_def less_ProviderDescriptorKind_def)

end

text \<open>\<open>FactStringId\<close> is a nonzero 32-bit number; the pool below numbers its values from one.\<close>

type_synonym FactStringId = nat

datatype IndexedTypeParent = IndexedTypeParent (itp_parent: FactStringId) (itp_relation: TypeRelation)

datatype IndexedReference =
  IndexedReference (ir_target_owner: FactStringId) (ir_target_name: "FactStringId option")
    (ir_target_descriptor: "FactStringId option") (ir_kind: ClassReferenceKind)

datatype IndexedProvider =
  IndexedProvider (ip_service: str) (ip_provider: "str option")
    (ip_descriptor_kind: ProviderDescriptorKind) (ip_entry: str)

instantiation IndexedTypeParent :: linorder
begin

definition parent_key :: "IndexedTypeParent \<Rightarrow> nat \<times> TypeRelation" where
  "parent_key p = (itp_parent p, itp_relation p)"

definition less_eq_IndexedTypeParent :: "IndexedTypeParent \<Rightarrow> IndexedTypeParent \<Rightarrow> bool" where
  "less_eq_IndexedTypeParent a b \<longleftrightarrow> parent_key a \<le> parent_key b"

definition less_IndexedTypeParent :: "IndexedTypeParent \<Rightarrow> IndexedTypeParent \<Rightarrow> bool" where
  "less_IndexedTypeParent a b \<longleftrightarrow> parent_key a < parent_key b"

instance
proof
  fix a b c :: IndexedTypeParent
  have inj: "parent_key a = parent_key b \<Longrightarrow> a = b"
    by (cases a; cases b) (simp add: parent_key_def)
  show "a < b \<longleftrightarrow> a \<le> b \<and> \<not> b \<le> a"
    unfolding less_IndexedTypeParent_def less_eq_IndexedTypeParent_def by (rule less_le_not_le)
  show "a \<le> a" "a \<le> b \<or> b \<le> a"
    unfolding less_eq_IndexedTypeParent_def by (rule order_refl, rule linear)
  show "a \<le> b \<Longrightarrow> b \<le> c \<Longrightarrow> a \<le> c"
    unfolding less_eq_IndexedTypeParent_def by (rule order_trans)
  show "a \<le> b \<Longrightarrow> b \<le> a \<Longrightarrow> a = b"
    unfolding less_eq_IndexedTypeParent_def by (rule inj, rule order.antisym)
qed

end

instantiation IndexedReference :: linorder
begin

definition reference_key :: "IndexedReference \<Rightarrow> nat \<times> nat option \<times> nat option \<times> ClassReferenceKind" where
  "reference_key r = (ir_target_owner r, ir_target_name r, ir_target_descriptor r, ir_kind r)"

definition less_eq_IndexedReference :: "IndexedReference \<Rightarrow> IndexedReference \<Rightarrow> bool" where
  "less_eq_IndexedReference a b \<longleftrightarrow> reference_key a \<le> reference_key b"

definition less_IndexedReference :: "IndexedReference \<Rightarrow> IndexedReference \<Rightarrow> bool" where
  "less_IndexedReference a b \<longleftrightarrow> reference_key a < reference_key b"

instance
proof
  fix a b c :: IndexedReference
  have inj: "reference_key a = reference_key b \<Longrightarrow> a = b"
    by (cases a; cases b) (simp add: reference_key_def)
  show "a < b \<longleftrightarrow> a \<le> b \<and> \<not> b \<le> a"
    unfolding less_IndexedReference_def less_eq_IndexedReference_def by (rule less_le_not_le)
  show "a \<le> a" "a \<le> b \<or> b \<le> a"
    unfolding less_eq_IndexedReference_def by (rule order_refl, rule linear)
  show "a \<le> b \<Longrightarrow> b \<le> c \<Longrightarrow> a \<le> c"
    unfolding less_eq_IndexedReference_def by (rule order_trans)
  show "a \<le> b \<Longrightarrow> b \<le> a \<Longrightarrow> a = b"
    unfolding less_eq_IndexedReference_def by (rule inj, rule order.antisym)
qed

end

instantiation IndexedProvider :: linorder
begin

definition provider_key :: "IndexedProvider \<Rightarrow> str \<times> str option \<times> ProviderDescriptorKind \<times> str" where
  "provider_key p = (ip_service p, ip_provider p, ip_descriptor_kind p, ip_entry p)"

definition less_eq_IndexedProvider :: "IndexedProvider \<Rightarrow> IndexedProvider \<Rightarrow> bool" where
  "less_eq_IndexedProvider a b \<longleftrightarrow> provider_key a \<le> provider_key b"

definition less_IndexedProvider :: "IndexedProvider \<Rightarrow> IndexedProvider \<Rightarrow> bool" where
  "less_IndexedProvider a b \<longleftrightarrow> provider_key a < provider_key b"

instance
proof
  fix a b c :: IndexedProvider
  have inj: "provider_key a = provider_key b \<Longrightarrow> a = b"
    by (cases a; cases b) (simp add: provider_key_def)
  show "a < b \<longleftrightarrow> a \<le> b \<and> \<not> b \<le> a"
    unfolding less_IndexedProvider_def less_eq_IndexedProvider_def by (rule less_le_not_le)
  show "a \<le> a" "a \<le> b \<or> b \<le> a"
    unfolding less_eq_IndexedProvider_def by (rule order_refl, rule linear)
  show "a \<le> b \<Longrightarrow> b \<le> c \<Longrightarrow> a \<le> c"
    unfolding less_eq_IndexedProvider_def by (rule order_trans)
  show "a \<le> b \<Longrightarrow> b \<le> a \<Longrightarrow> a = b"
    unfolding less_eq_IndexedProvider_def by (rule inj, rule order.antisym)
qed

end

record IndexedClassFacts =
  cf_source_class :: FactStringId
  cf_source_file :: "FactStringId option"
  cf_parents :: "IndexedTypeParent list"
  cf_references :: "IndexedReference list"

record JarRecord =
  jr_key :: ArtifactKey
  jr_classifier :: "str option"
  jr_relative_path :: str
  jr_path :: path
  jr_classes :: "str list"
  jr_entries :: "str list"
  jr_class_entries :: "(str \<times> str) list"
  jr_multi_release :: bool
  jr_fact_strings :: "str list"
  jr_class_facts :: "IndexedClassFacts list"
  jr_providers :: "IndexedProvider list"

record JarSummary =
  js_coordinate :: str
  js_group_id :: str
  js_artifact_id :: str
  js_version :: str
  js_classifier :: "str option"
  js_path :: str
  js_class_count :: nat
  js_entry_count :: nat

section \<open>The pool of fact strings\<close>

record FactStringPool =
  fp_ids :: "str \<rightharpoonup> FactStringId"
  fp_values :: "str list"

definition new_fact_pool :: FactStringPool where
  "new_fact_pool = \<lparr> fp_ids = Map.empty, fp_values = [] \<rparr>"

text \<open>\<open>None\<close> is the panic of a pool whose next number is no 32-bit number.\<close>

definition intern :: "str \<Rightarrow> FactStringPool \<Rightarrow> (FactStringId \<times> FactStringPool) option" where
  "intern v pool =
     (case fp_ids pool v of
        Some n \<Rightarrow> Some (n, pool)
      | None \<Rightarrow>
          let raw_id = length (fp_values pool) + 1
          in if raw_id < 2 ^ 32
             then Some (raw_id, \<lparr> fp_ids = (fp_ids pool)(v \<mapsto> raw_id), fp_values = fp_values pool @ [v] \<rparr>)
             else None)"

definition intern_option :: "str option \<Rightarrow> FactStringPool \<Rightarrow> (FactStringId option \<times> FactStringPool) option" where
  "intern_option v pool =
     (case v of None \<Rightarrow> Some (None, pool) | Some s \<Rightarrow> map_option (apfst Some) (intern s pool))"

text \<open>\<open>fact_strings[id - 1]\<close>, a panic when the number is out of range.\<close>

definition fact_string_at :: "str list \<Rightarrow> FactStringId \<Rightarrow> str option" where
  "fact_string_at strings n = (if 1 \<le> n \<and> n \<le> length strings then Some (strings ! (n - 1)) else None)"

definition fact_string :: "JarRecord \<Rightarrow> FactStringId \<Rightarrow> str option" where
  "fact_string jar n = fact_string_at (jr_fact_strings jar) n"

section \<open>Class files and archives\<close>

text \<open>The parts of a parsed class file the code reads, as the parser presents them.\<close>

datatype ConstantPoolItem =
    ClassInfo str
  | FieldRef str str str
  | MethodRef str str str
  | InterfaceMethodRef str str str
  | OtherItem

record ModuleData =
  md_uses :: "str list"
  md_provides :: "(str \<times> str list) list"

datatype AttributeData = SourceFile str | Module ModuleData | OtherAttribute

record ParsedClass =
  pcl_this_class :: str
  pcl_super_class :: "str option"
  pcl_interfaces :: "str list"
  pcl_constants :: "ConstantPoolItem list"
  pcl_attributes :: "AttributeData list"

text \<open>
  An opened archive: the entry of a name when \<open>by_name\<close> finds a file (an error is treated like a missing
  file), its declared size, its bytes when reading to the end succeeds, and its text when reading at
  most the given number of bytes succeeds and they are UTF-8.
\<close>

record archive_entry =
  ae_size :: nat
  ae_read_to_end :: "bytes option"
  ae_read_text :: "nat \<Rightarrow> str option"

type_synonym archive = "str \<Rightarrow> archive_entry option"
type_synonym class_parser = "bytes \<Rightarrow> ParsedClass option"

definition source_file_name_of :: "AttributeData \<Rightarrow> str option" where
  "source_file_name_of attribute =
     (case attribute of
        SourceFile name \<Rightarrow>
          (case source_file_stem name of
             None \<Rightarrow> None
           | Some stem \<Rightarrow> if stem \<noteq> [] \<and> 47 \<notin> set name \<and> 92 \<notin> set name then Some name else None)
      | _ \<Rightarrow> None)"

definition source_file_name :: "AttributeData list \<Rightarrow> str option" where
  "source_file_name attributes =
     (case List.map_filter source_file_name_of attributes of [] \<Rightarrow> None | name # _ \<Rightarrow> Some name)"

fun trim_start_matches_ch :: "'a \<Rightarrow> 'a list \<Rightarrow> 'a list" where
  "trim_start_matches_ch d s = dropWhile ((=) d) s"

definition normalize_constant_class :: "str \<Rightarrow> str option" where
  "normalize_constant_class class_name =
     (if starts_with (lit ''['') class_name
      then map_option binary_name
        (strip_prefix (lit ''L'') (trim_start_matches_ch 91 class_name) \<bind> strip_suffix (lit '';''))
      else Some (binary_name class_name))"

text \<open>What one constant refers to, before its texts are interned; \<open>None\<close> for a constant that is skipped.\<close>

definition reference_target ::
  "str \<Rightarrow> ConstantPoolItem \<Rightarrow> (str \<times> str option \<times> str option \<times> ClassReferenceKind) option" where
  "reference_target source_class item =
     (case item of
        ClassInfo c \<Rightarrow>
          (case normalize_constant_class c of
             None \<Rightarrow> None
           | Some owner \<Rightarrow> if owner = source_class then None else Some (owner, None, None, Class_Ref))
      | FieldRef c name d \<Rightarrow> Some (binary_name c, Some name, Some d, Field_Ref)
      | MethodRef c name d \<Rightarrow> Some (binary_name c, Some name, Some d, Method_Ref)
      | InterfaceMethodRef c name d \<Rightarrow> Some (binary_name c, Some name, Some d, Interface_Method_Ref)
      | OtherItem \<Rightarrow> None)"

text \<open>The outer \<open>None\<close> is the panic of the pool, here and below.\<close>

definition indexed_reference ::
  "str \<Rightarrow> ConstantPoolItem \<Rightarrow> FactStringPool \<Rightarrow> (IndexedReference option \<times> FactStringPool) option" where
  "indexed_reference source_class item strings =
     (case reference_target source_class item of
        None \<Rightarrow> Some (None, strings)
      | Some (owner, name, descriptor, kind) \<Rightarrow>
          intern owner strings \<bind> (\<lambda>(owner, strings).
          intern_option name strings \<bind> (\<lambda>(name, strings).
          intern_option descriptor strings \<bind> (\<lambda>(descriptor, strings).
          Some (Some (IndexedReference owner name descriptor kind), strings)))))"

fun indexed_references ::
  "str \<Rightarrow> ConstantPoolItem list \<Rightarrow> FactStringPool \<Rightarrow> (IndexedReference list \<times> FactStringPool) option" where
  "indexed_references source_class [] strings = Some ([], strings)"
| "indexed_references source_class (item # items) strings =
     indexed_reference source_class item strings \<bind> (\<lambda>(r, strings).
     indexed_references source_class items strings \<bind> (\<lambda>(rs, strings).
     Some ((case r of None \<Rightarrow> rs | Some r \<Rightarrow> r # rs), strings)))"

text \<open>The super class and the interfaces, each with its relation, and their interning in this order.\<close>

definition type_parents :: "ParsedClass \<Rightarrow> (str \<times> TypeRelation) list" where
  "type_parents parsed =
     (case pcl_super_class parsed of None \<Rightarrow> [] | Some c \<Rightarrow> [(binary_name c, Extends)]) @
     map (\<lambda>i. (binary_name i, Implements)) (pcl_interfaces parsed)"

fun indexed_parents ::
  "(str \<times> TypeRelation) list \<Rightarrow> FactStringPool \<Rightarrow> (IndexedTypeParent list \<times> FactStringPool) option" where
  "indexed_parents [] strings = Some ([], strings)"
| "indexed_parents ((name, relation) # parents) strings =
     intern name strings \<bind> (\<lambda>(n, strings).
     indexed_parents parents strings \<bind> (\<lambda>(ps, strings).
     Some (IndexedTypeParent n relation # ps, strings)))"

text \<open>\<open>sort_unstable\<close> and \<open>dedup\<close>; equal values of these types are the same.\<close>

definition sort_dedup :: "'a::linorder list \<Rightarrow> 'a list" where
  "sort_dedup xs = remdups_adj (sort xs)"

section \<open>Providers\<close>

abbreviation add_provider :: "IndexedProvider \<Rightarrow> IndexedProvider list \<Rightarrow> IndexedProvider list" where
  "add_provider \<equiv> insort_insert"

definition module_providers :: "str \<Rightarrow> ModuleData \<Rightarrow> IndexedProvider list" where
  "module_providers entry m =
     map (\<lambda>service. IndexedProvider (binary_name service) None Module_Uses entry) (md_uses m) @
     concat (map (\<lambda>(service, provides_with).
       map (\<lambda>p. IndexedProvider (binary_name service) (Some (binary_name p)) Module_Provides entry) provides_with)
       (md_provides m))"

definition collect_module_providers ::
  "AttributeData list \<Rightarrow> str \<Rightarrow> IndexedProvider list \<Rightarrow> IndexedProvider list" where
  "collect_module_providers attributes entry providers =
     fold (\<lambda>attribute providers.
         case attribute of Module m \<Rightarrow> fold add_provider (module_providers entry m) providers | _ \<Rightarrow> providers)
       attributes providers"

definition is_provider_descriptor :: "str \<Rightarrow> bool" where
  "is_provider_descriptor entry \<longleftrightarrow>
     starts_with (lit ''META-INF/services/'') entry \<or> entry = lit ''META-INF/spring.factories'' \<or>
     starts_with (lit ''META-INF/spring/'') entry \<and> ends_with (lit ''.imports'') entry"

definition clean_descriptor_line :: "str \<Rightarrow> str option" where
  "clean_descriptor_line line =
     (let v = trim (hd (split_on 35 line))
      in if v \<noteq> [] \<and> \<not> list_ex is_whitespace v then Some v else None)"

definition collect_line_providers ::
  "str \<Rightarrow> str \<Rightarrow> ProviderDescriptorKind \<Rightarrow> str \<Rightarrow> IndexedProvider list \<Rightarrow> IndexedProvider list" where
  "collect_line_providers service txt kind entry providers =
     fold (\<lambda>p. add_provider (IndexedProvider service (Some p) kind entry))
       (List.map_filter clean_descriptor_line (str_lines txt)) providers"

definition factories_line :: "str \<Rightarrow> str \<Rightarrow> IndexedProvider list" where
  "factories_line entry logical =
     (case split_once (lit ''='') logical of
        None \<Rightarrow> []
      | Some (service, values) \<Rightarrow>
          map (\<lambda>p. IndexedProvider (trim service) (Some p) Spring_Factories entry)
            (filter (\<lambda>v. v \<noteq> [] \<and> \<not> list_ex is_whitespace v) (map trim (split_on 44 values))))"

definition factories_step ::
  "str \<Rightarrow> str \<Rightarrow> str \<times> IndexedProvider list \<Rightarrow> str \<times> IndexedProvider list" where
  "factories_step entry raw_line = (\<lambda>(logical, providers).
     let line = trim raw_line
     in if line = [] \<or> starts_with (lit ''#'') line then (logical, providers)
        else let logical = logical @ trim_end_matches_ch 92 line
             in if ends_with [92] line then (logical, providers)
                else ([], fold add_provider (factories_line entry logical) providers))"

definition collect_spring_factories :: "str \<Rightarrow> str \<Rightarrow> IndexedProvider list \<Rightarrow> IndexedProvider list" where
  "collect_spring_factories txt entry providers = snd (fold (factories_step entry) (str_lines txt) ([], providers))"

definition collect_text_providers :: "str \<Rightarrow> str \<Rightarrow> IndexedProvider list \<Rightarrow> IndexedProvider list" where
  "collect_text_providers entry txt providers =
     (case strip_prefix (lit ''META-INF/services/'') entry of
        Some service \<Rightarrow> collect_line_providers service txt Service_Loader entry providers
      | None \<Rightarrow>
          if entry = lit ''META-INF/spring.factories'' then collect_spring_factories txt entry providers
          else case strip_prefix (lit ''META-INF/spring/'') entry \<bind> strip_suffix (lit ''.imports'') of
                 Some service \<Rightarrow> collect_line_providers service txt Spring_Imports entry providers
               | None \<Rightarrow> providers)"

section \<open>Facts of a JAR\<close>

type_synonym fact_state = "IndexedClassFacts list \<times> IndexedProvider list \<times> FactStringPool"

text \<open>The facts of one parsed class file, which are kept when there are any.\<close>

definition class_facts_of ::
  "ParsedClass \<Rightarrow> FactStringPool \<Rightarrow> (IndexedClassFacts option \<times> FactStringPool) option" where
  "class_facts_of parsed strings =
     (let name = binary_name (pcl_this_class parsed)
      in intern name strings \<bind> (\<lambda>(source_class, strings).
         indexed_parents (type_parents parsed) strings \<bind> (\<lambda>(parents, strings).
         indexed_references name (pcl_constants parsed) strings \<bind> (\<lambda>(references, strings).
         intern_option (source_file_name (pcl_attributes parsed)) strings \<bind> (\<lambda>(source_file, strings).
         let parents = sort_dedup parents; references = sort_dedup references
         in Some (if source_file \<noteq> None \<or> parents \<noteq> [] \<or> references \<noteq> []
                  then Some \<lparr> cf_source_class = source_class, cf_source_file = source_file,
                              cf_parents = parents, cf_references = references \<rparr>
                  else None, strings))))))"

definition collect_class ::
  "class_parser \<Rightarrow> archive \<Rightarrow> nat \<Rightarrow> str \<Rightarrow> fact_state \<Rightarrow> fact_state option" where
  "collect_class parse by_name max_entry_bytes entry_path = (\<lambda>(class_facts, providers, strings).
     case by_name entry_path of
       None \<Rightarrow> Some (class_facts, providers, strings)
     | Some entry \<Rightarrow>
         if ae_size entry > max_entry_bytes then Some (class_facts, providers, strings)
         else case ae_read_to_end entry \<bind> parse of
                None \<Rightarrow> Some (class_facts, providers, strings)
              | Some parsed \<Rightarrow>
                  if binary_name (pcl_this_class parsed) = lit ''module-info''
                  then map_option (\<lambda>(_, strings).
                      (class_facts, collect_module_providers (pcl_attributes parsed) entry_path providers, strings))
                    (intern (lit ''module-info'') strings)
                  else map_option (\<lambda>(facts, strings).
                      ((case facts of None \<Rightarrow> class_facts | Some f \<Rightarrow> class_facts @ [f]), providers, strings))
                    (class_facts_of parsed strings))"

text \<open>The loop over the class entries; the job is polled for cancellation before each of them.\<close>

fun collect_classes ::
  "class_parser \<Rightarrow> archive \<Rightarrow> nat \<Rightarrow> (nat \<Rightarrow> bool) \<Rightarrow> nat \<Rightarrow> str list \<Rightarrow> fact_state \<Rightarrow> fact_state option" where
  "collect_classes parse by_name max_entry_bytes cancelled i [] st = Some st"
| "collect_classes parse by_name max_entry_bytes cancelled i (entry_path # entries) st =
     (if cancelled i then Some st
      else collect_class parse by_name max_entry_bytes entry_path st \<bind>
        collect_classes parse by_name max_entry_bytes cancelled (Suc i) entries)"

definition collect_descriptor ::
  "archive \<Rightarrow> nat \<Rightarrow> str \<Rightarrow> IndexedProvider list \<Rightarrow> IndexedProvider list" where
  "collect_descriptor by_name max_entry_bytes entry_path providers =
     (case by_name entry_path of
        None \<Rightarrow> providers
      | Some entry \<Rightarrow>
          if ae_size entry > max_entry_bytes then providers
          else case ae_read_text entry max_entry_bytes of
                 None \<Rightarrow> providers
               | Some txt \<Rightarrow> collect_text_providers entry_path txt providers)"

definition collect_jar_facts ::
  "class_parser \<Rightarrow> archive option \<Rightarrow> (nat \<Rightarrow> bool) \<Rightarrow> str list \<Rightarrow> (str \<times> str) list \<Rightarrow> nat \<Rightarrow>
     (IndexedClassFacts list \<times> IndexedProvider list \<times> str list) option" where
  "collect_jar_facts parse opened cancelled entries class_entries max_entry_bytes =
     (case opened of
        None \<Rightarrow> Some ([], [], [])
      | Some by_name \<Rightarrow>
          map_option (\<lambda>(class_facts, providers, strings).
              (class_facts,
               fold (collect_descriptor by_name max_entry_bytes) (filter is_provider_descriptor entries) providers,
               fp_values strings))
            (collect_classes parse by_name max_entry_bytes cancelled 0 (map snd class_entries) ([], [], new_fact_pool)))"

section \<open>Operations of a record\<close>

definition is_source :: "JarRecord \<Rightarrow> bool" where
  "is_source jar \<longleftrightarrow> documented_classifier (jr_classifier jar) \<noteq> None"

definition coordinate :: "JarRecord \<Rightarrow> str" where
  "coordinate jar = coordinate_of (jr_key jar) (jr_classifier jar)"

definition summary :: "JarRecord \<Rightarrow> JarSummary" where
  "summary jar =
     \<lparr> js_coordinate = coordinate jar, js_group_id = ak_group_id (jr_key jar),
       js_artifact_id = ak_artifact_id (jr_key jar), js_version = ak_version (jr_key jar),
       js_classifier = jr_classifier jar, js_path = jr_relative_path jar,
       js_class_count = length (jr_classes jar), js_entry_count = length (jr_entries jar) \<rparr>"

definition matches_selector :: "JarRecord \<Rightarrow> str \<Rightarrow> bool" where
  "matches_selector jar selector =
     (let s = trim selector
      in eq_ignore_ascii_case (coordinate jar) s \<or> eq_ignore_ascii_case (jr_relative_path jar) s \<or>
         (case path_file_name (jr_path jar) of None \<Rightarrow> False | Some name \<Rightarrow> eq_ignore_ascii_case name s))"

text \<open>
  The lookup in the sorted class list and then the first class that differs in letter case only;
  lower-casing texts (\<open>str::to_lowercase\<close>, Unicode tables) is a parameter.  The binary search of a sorted
  list without duplicates finds a name exactly when the list has it.
\<close>

definition canonical_class_name :: "(str \<Rightarrow> str) \<Rightarrow> JarRecord \<Rightarrow> str \<Rightarrow> str option" where
  "canonical_class_name lower jar query =
     (if query \<in> set (jr_classes jar) then Some query
      else find (\<lambda>name. lower name = lower query) (jr_classes jar))"

fun find_source_file :: "JarRecord \<Rightarrow> str \<Rightarrow> IndexedClassFacts list \<Rightarrow> str option option" where
  "find_source_file jar class_name [] = Some None"
| "find_source_file jar class_name (facts # others) =
     fact_string jar (cf_source_class facts) \<bind> (\<lambda>name.
     if name \<noteq> class_name then find_source_file jar class_name others
     else case cf_source_file facts of
            None \<Rightarrow> Some None
          | Some n \<Rightarrow> map_option Some (fact_string jar n))"

definition source_file_of :: "JarRecord \<Rightarrow> str \<Rightarrow> str option option" where
  "source_file_of jar class_name = find_source_file jar class_name (jr_class_facts jar)"

definition source_entry_names :: "JarRecord \<Rightarrow> str \<Rightarrow> SourceEntryNames option" where
  "source_entry_names jar class_name = map_option (new_source_entry_names class_name) (source_file_of jar class_name)"

definition select_class_entry :: "JarRecord \<Rightarrow> str \<Rightarrow> str option" where
  "select_class_entry jar class_name = map_of (jr_class_entries jar) (class_entry_path class_name)"

section \<open>Reading a JAR\<close>

record JarIndex =
  jx_classes :: "str list"
  jx_entries :: "str list"
  jx_class_entries :: "(str \<times> str) list"
  jx_multi_release :: bool

text \<open>
  \<open>names\<close> is the result of listing the archive, \<open>manifest\<close> the (lossily decoded) text of an entry up to
  the manifest limit, both parameters like the archive itself.
\<close>

definition read_multi_release_flag :: "(str \<Rightarrow> str option) \<Rightarrow> str list \<Rightarrow> bool" where
  "read_multi_release_flag manifest entries =
     (case find (\<lambda>e. eq_ignore_ascii_case e (lit ''META-INF/MANIFEST.MF'')) entries of
        None \<Rightarrow> False
      | Some p \<Rightarrow> (case manifest p of None \<Rightarrow> False | Some txt \<Rightarrow> manifest_declares_multi_release txt))"

definition read_jar_index_from :: "str list option \<Rightarrow> (str \<Rightarrow> str option) \<Rightarrow> JarIndex option" where
  "read_jar_index_from names manifest =
     map_option (\<lambda>entries.
       let multi_release = read_multi_release_flag manifest entries;
           class_entries = effective_class_entries entries multi_release
       in \<lparr> jx_classes = classes_of class_entries, jx_entries = entries,
            jx_class_entries = class_entries, jx_multi_release = multi_release \<rparr>) names"

text \<open>The outer \<open>None\<close> is the panic of the fact pool, the inner one an unreadable archive.\<close>

definition load_jar_record ::
  "class_parser \<Rightarrow> JarIndex option \<Rightarrow> archive option \<Rightarrow> (nat \<Rightarrow> bool) \<Rightarrow> path \<Rightarrow> JarIdentity \<Rightarrow> nat \<Rightarrow>
     JarRecord option option" where
  "load_jar_record parse index opened cancelled p identity max_entry_bytes =
     (case index of
        None \<Rightarrow> Some None
      | Some ji \<Rightarrow>
          map_option (\<lambda>(class_facts, providers, fact_strings).
              Some \<lparr> jr_key = ji_key identity, jr_classifier = ji_classifier identity,
                jr_relative_path = ji_relative_path identity, jr_path = p, jr_classes = jx_classes ji,
                jr_entries = jx_entries ji, jr_class_entries = jx_class_entries ji,
                jr_multi_release = jx_multi_release ji, jr_fact_strings = fact_strings,
                jr_class_facts = class_facts, jr_providers = providers \<rparr>)
            (if documented_classifier (ji_classifier identity) \<noteq> None then Some ([], [], [])
             else collect_jar_facts parse opened cancelled (jx_entries ji) (jx_class_entries ji) max_entry_bytes))"

section \<open>The pool numbers its texts\<close>

definition pool_wf :: "FactStringPool \<Rightarrow> bool" where
  "pool_wf pool \<longleftrightarrow> (\<forall>v n. fp_ids pool v = Some n \<longrightarrow> fact_string_at (fp_values pool) n = Some v) \<and>
     dom (fp_ids pool) = set (fp_values pool) \<and> distinct (fp_values pool) \<and> length (fp_values pool) < 2 ^ 32"

definition pool_extends :: "FactStringPool \<Rightarrow> FactStringPool \<Rightarrow> bool" where
  "pool_extends pool pool' \<longleftrightarrow> (\<exists>xs. fp_values pool' = fp_values pool @ xs)"

lemma pool_wf_new_fact [simp]: "pool_wf new_fact_pool"
  by (simp add: pool_wf_def new_fact_pool_def)

lemma pool_extends_refl [simp]: "pool_extends pool pool"
  by (simp add: pool_extends_def)

lemma pool_extends_trans [trans]: "pool_extends a b \<Longrightarrow> pool_extends b c \<Longrightarrow> pool_extends a c"
  by (auto simp: pool_extends_def)

lemma fact_string_at_append: "fact_string_at ss n = Some v \<Longrightarrow> fact_string_at (ss @ xs) n = Some v"
  by (auto simp: fact_string_at_def nth_append split: if_splits)

lemma fact_string_at_extends:
  "pool_extends a b \<Longrightarrow> fact_string_at (fp_values a) n = Some v \<Longrightarrow> fact_string_at (fp_values b) n = Some v"
  by (auto simp: pool_extends_def fact_string_at_append)

lemma intern_spec:
  assumes "pool_wf pool" "intern v pool = Some (n, pool')"
  shows "pool_wf pool' \<and> pool_extends pool pool' \<and> fact_string_at (fp_values pool') n = Some v"
proof (cases "fp_ids pool v")
  case None
  with assms have new: "n = length (fp_values pool) + 1" "n < 2 ^ 32"
    "pool' = \<lparr> fp_ids = (fp_ids pool)(v \<mapsto> n), fp_values = fp_values pool @ [v] \<rparr>"
    by (auto simp: intern_def Let_def split: if_splits)
  have at: "fact_string_at (fp_values pool @ [v]) n = Some v" using new(1) by (simp add: fact_string_at_def)
  have "v \<notin> set (fp_values pool)" using assms(1) None by (auto simp: pool_wf_def)
  then have "pool_wf pool'" using assms(1) new at
    by (auto simp: pool_wf_def fact_string_at_append)
  then show ?thesis using new(3) at by (auto simp: pool_extends_def)
next
  case (Some m)
  then show ?thesis using assms by (auto simp: intern_def pool_wf_def)
qed

lemma intern_option_spec:
  assumes "pool_wf pool" "intern_option v pool = Some (n, pool')"
  shows "pool_wf pool' \<and> pool_extends pool pool' \<and>
    map_option (fact_string_at (fp_values pool')) n = map_option Some v"
  using assms by (auto simp: intern_option_def dest: intern_spec split: option.splits)

section \<open>Facts say what the class file says\<close>

text \<open>Facts with their numbers replaced by the texts they stand for.\<close>

definition parent_view :: "str list \<Rightarrow> IndexedTypeParent \<Rightarrow> str option \<times> TypeRelation" where
  "parent_view ss p = (fact_string_at ss (itp_parent p), itp_relation p)"

definition reference_view ::
  "str list \<Rightarrow> IndexedReference \<Rightarrow> str option \<times> str option option \<times> str option option \<times> ClassReferenceKind" where
  "reference_view ss r =
     (fact_string_at ss (ir_target_owner r), map_option (fact_string_at ss) (ir_target_name r),
      map_option (fact_string_at ss) (ir_target_descriptor r), ir_kind r)"

definition parent_text :: "str \<times> TypeRelation \<Rightarrow> str option \<times> TypeRelation" where
  "parent_text = (\<lambda>(name, relation). (Some name, relation))"

definition reference_text ::
  "str \<times> str option \<times> str option \<times> ClassReferenceKind \<Rightarrow>
     str option \<times> str option option \<times> str option option \<times> ClassReferenceKind" where
  "reference_text = (\<lambda>(owner, name, descriptor, kind).
     (Some owner, map_option Some name, map_option Some descriptor, kind))"

lemma parent_view_extends:
  "pool_extends a b \<Longrightarrow> parent_view (fp_values a) p = parent_text t \<Longrightarrow> parent_view (fp_values b) p = parent_text t"
  by (auto simp: parent_view_def parent_text_def fact_string_at_extends split: prod.splits)

lemma option_view_extends:
  "pool_extends a b \<Longrightarrow> map_option (fact_string_at (fp_values a)) n = map_option Some t \<Longrightarrow>
     map_option (fact_string_at (fp_values b)) n = map_option Some t"
  by (cases n; cases t) (auto simp: fact_string_at_extends)

lemma reference_view_extends:
  "pool_extends a b \<Longrightarrow> reference_view (fp_values a) r = reference_text t \<Longrightarrow>
     reference_view (fp_values b) r = reference_text t"
  by (cases t) (auto simp: reference_view_def reference_text_def
    intro: fact_string_at_extends option_view_extends)

lemma indexed_parents_spec:
  assumes "pool_wf pool" "indexed_parents parents pool = Some (ps, pool')"
  shows "pool_wf pool' \<and> pool_extends pool pool' \<and>
    map (parent_view (fp_values pool')) ps = map parent_text parents"
  using assms
proof (induction parents arbitrary: pool ps)
  case (Cons t parents)
  obtain name relation where t: "t = (name, relation)" by (cases t)
  with Cons.prems obtain n pool1 qs where n: "intern name pool = Some (n, pool1)"
    and qs: "indexed_parents parents pool1 = Some (qs, pool')" "ps = IndexedTypeParent n relation # qs"
    by (auto simp: bind_eq_Some_conv)
  note first = intern_spec [OF Cons.prems(1) n]
  note rest = Cons.IH [OF _ qs(1)]
  have "parent_view (fp_values pool1) (IndexedTypeParent n relation) = parent_text t"
    using first t by (simp add: parent_view_def parent_text_def)
  then show ?case using first rest qs(2)
    by (auto intro: pool_extends_trans parent_view_extends)
qed simp

lemma indexed_reference_spec:
  assumes "pool_wf pool" "indexed_reference c item pool = Some (r, pool')"
  shows "pool_wf pool' \<and> pool_extends pool pool' \<and>
    map_option (reference_view (fp_values pool')) r = map_option reference_text (reference_target c item)"
proof (cases "reference_target c item")
  case None
  then show ?thesis using assms by (simp add: indexed_reference_def)
next
  case (Some t)
  obtain owner name descriptor kind where t: "t = (owner, name, descriptor, kind)" by (cases t)
  with Some assms(2) obtain n pool1 nm pool2 d where
    n: "intern owner pool = Some (n, pool1)" and nm: "intern_option name pool1 = Some (nm, pool2)"
    and d: "intern_option descriptor pool2 = Some (d, pool')" and r: "r = Some (IndexedReference n nm d kind)"
    by (auto simp: indexed_reference_def bind_eq_Some_conv)
  note s1 = intern_spec [OF assms(1) n]
  then have s2: "pool_wf pool2 \<and> pool_extends pool1 pool2 \<and>
      map_option (fact_string_at (fp_values pool2)) nm = map_option Some name"
    using intern_option_spec [OF _ nm] by blast
  then have s3: "pool_wf pool' \<and> pool_extends pool2 pool' \<and>
      map_option (fact_string_at (fp_values pool')) d = map_option Some descriptor"
    using intern_option_spec [OF _ d] by blast
  have "pool_extends pool1 pool'" using s2 s3 by (blast intro: pool_extends_trans)
  then have "reference_view (fp_values pool') (IndexedReference n nm d kind) = reference_text t"
    using s1 s2 s3 t
    by (auto simp: reference_view_def reference_text_def intro: fact_string_at_extends option_view_extends)
  then show ?thesis using s1 s2 s3 r Some by (auto intro: pool_extends_trans)
qed

lemma indexed_references_spec:
  assumes "pool_wf pool" "indexed_references c items pool = Some (rs, pool')"
  shows "pool_wf pool' \<and> pool_extends pool pool' \<and>
    map (reference_view (fp_values pool')) rs = map reference_text (List.map_filter (reference_target c) items)"
  using assms
proof (induction items arbitrary: pool rs)
  case Nil
  then show ?case by (simp add: List.map_filter_def)
next
  case (Cons item items)
  then obtain r pool1 qs where r: "indexed_reference c item pool = Some (r, pool1)"
    and qs: "indexed_references c items pool1 = Some (qs, pool')" "rs = (case r of None \<Rightarrow> qs | Some r \<Rightarrow> r # qs)"
    by (auto simp: bind_eq_Some_conv)
  note first = indexed_reference_spec [OF Cons.prems(1) r]
  have rest: "pool_wf pool' \<and> pool_extends pool1 pool' \<and>
      map (reference_view (fp_values pool')) qs = map reference_text (List.map_filter (reference_target c) items)"
    using Cons.IH [OF _ qs(1)] first by blast
  show ?case
  proof (cases r)
    case None
    then show ?thesis using first rest qs(2)
      by (auto simp: List.map_filter_simps intro: pool_extends_trans split: option.splits)
  next
    case (Some q)
    with first obtain t where t: "reference_target c item = Some t"
      "reference_view (fp_values pool1) q = reference_text t"
      by (cases "reference_target c item") auto
    then show ?thesis using Some first rest qs(2)
      by (auto simp: List.map_filter_simps intro: pool_extends_trans reference_view_extends)
  qed
qed

text \<open>What a parsed class file states, and whether that is anything.\<close>

type_synonym class_view =
  "str option \<times> str option option \<times> (str option \<times> TypeRelation) set \<times>
     (str option \<times> str option option \<times> str option option \<times> ClassReferenceKind) set"

definition facts_view :: "str list \<Rightarrow> IndexedClassFacts \<Rightarrow> class_view" where
  "facts_view ss f =
     (fact_string_at ss (cf_source_class f), map_option (fact_string_at ss) (cf_source_file f),
      parent_view ss ` set (cf_parents f), reference_view ss ` set (cf_references f))"

definition references_of :: "ParsedClass \<Rightarrow> (str \<times> str option \<times> str option \<times> ClassReferenceKind) list" where
  "references_of parsed =
     List.map_filter (reference_target (binary_name (pcl_this_class parsed))) (pcl_constants parsed)"

definition class_view :: "ParsedClass \<Rightarrow> class_view" where
  "class_view parsed =
     (Some (binary_name (pcl_this_class parsed)), map_option Some (source_file_name (pcl_attributes parsed)),
      parent_text ` set (type_parents parsed), reference_text ` set (references_of parsed))"

definition states_facts :: "ParsedClass \<Rightarrow> bool" where
  "states_facts parsed \<longleftrightarrow>
     source_file_name (pcl_attributes parsed) \<noteq> None \<or> type_parents parsed \<noteq> [] \<or> references_of parsed \<noteq> []"

lemma set_sort_dedup [simp]: "set (sort_dedup xs) = set xs"
  by (simp add: sort_dedup_def)

lemma sort_dedup_Nil [simp]: "sort_dedup xs = [] \<longleftrightarrow> xs = []"
  by (metis set_empty set_sort_dedup)

text \<open>A view without a missing text stays the same when the pool grows.\<close>

lemma facts_view_extends:
  assumes ext: "pool_extends a b" and view: "facts_view (fp_values a) f = class_view parsed"
  shows "facts_view (fp_values b) f = class_view parsed"
proof -
  have "parent_view (fp_values b) p = parent_view (fp_values a) p" if p: "p \<in> set (cf_parents f)" for p
  proof -
    have "parent_view (fp_values a) p \<in> parent_text ` set (type_parents parsed)"
      using view p by (auto simp: facts_view_def class_view_def)
    then show ?thesis using ext by (auto dest: parent_view_extends)
  qed
  moreover have "reference_view (fp_values b) r = reference_view (fp_values a) r" if r: "r \<in> set (cf_references f)" for r
  proof -
    have "reference_view (fp_values a) r \<in> reference_text ` set (references_of parsed)"
      using view r by (auto simp: facts_view_def class_view_def)
    then show ?thesis using ext by (auto dest: reference_view_extends)
  qed
  moreover have "fact_string_at (fp_values b) (cf_source_class f) = Some (binary_name (pcl_this_class parsed))"
    "map_option (fact_string_at (fp_values b)) (cf_source_file f) =
       map_option Some (source_file_name (pcl_attributes parsed))"
    using ext view by (auto simp: facts_view_def class_view_def intro: fact_string_at_extends option_view_extends)
  ultimately show ?thesis using view by (simp add: facts_view_def class_view_def)
qed

lemma class_facts_of_spec:
  assumes wf: "pool_wf pool" and facts: "class_facts_of parsed pool = Some (f, pool')"
  shows "pool_wf pool' \<and> pool_extends pool pool' \<and>
    map_option (facts_view (fp_values pool')) f = (if states_facts parsed then Some (class_view parsed) else None)"
proof -
  let ?name = "binary_name (pcl_this_class parsed)"
  from facts obtain n p1 ps p2 rs p3 sf where
    n: "intern ?name pool = Some (n, p1)" and ps: "indexed_parents (type_parents parsed) p1 = Some (ps, p2)"
    and rs: "indexed_references ?name (pcl_constants parsed) p2 = Some (rs, p3)"
    and sf: "intern_option (source_file_name (pcl_attributes parsed)) p3 = Some (sf, pool')"
    and f: "f = (if sf \<noteq> None \<or> sort_dedup ps \<noteq> [] \<or> sort_dedup rs \<noteq> []
        then Some \<lparr> cf_source_class = n, cf_source_file = sf, cf_parents = sort_dedup ps, cf_references = sort_dedup rs \<rparr>
        else None)"
    by (auto simp: class_facts_of_def Let_def bind_eq_Some_conv)
  have s1: "pool_wf p1" "pool_extends pool p1" "fact_string_at (fp_values p1) n = Some ?name"
    using intern_spec [OF wf n] by auto
  have s2: "pool_wf p2" "pool_extends p1 p2" "map (parent_view (fp_values p2)) ps = map parent_text (type_parents parsed)"
    using indexed_parents_spec [OF s1(1) ps] by auto
  have s3: "pool_wf p3" "pool_extends p2 p3"
    "map (reference_view (fp_values p3)) rs = map reference_text (references_of parsed)"
    using indexed_references_spec [OF s2(1) rs] by (auto simp: references_of_def)
  have s4: "pool_wf pool'" "pool_extends p3 pool'"
    "map_option (fact_string_at (fp_values pool')) sf = map_option Some (source_file_name (pcl_attributes parsed))"
    using intern_option_spec [OF s3(1) sf] by auto
  have ext2: "pool_extends p2 pool'" using s3(2) s4(2) by (rule pool_extends_trans)
  have ext1: "pool_extends p1 pool'" using s2(2) ext2 by (rule pool_extends_trans)
  let ?f = "\<lparr> cf_source_class = n, cf_source_file = sf, cf_parents = sort_dedup ps, cf_references = sort_dedup rs \<rparr>"
  have "parent_view (fp_values pool') ` set ps = parent_text ` set (type_parents parsed)"
  proof -
    have "list_all2 (\<lambda>p t. parent_view (fp_values p2) p = parent_text t) ps (type_parents parsed)"
      using s2(3) by (simp add: list_all2_conv_all_nth list_eq_iff_nth_eq)
    then have "list_all2 (\<lambda>p t. parent_view (fp_values pool') p = parent_text t) ps (type_parents parsed)"
      by (rule list_all2_mono) (rule parent_view_extends [OF ext2])
    then have "map (parent_view (fp_values pool')) ps = map parent_text (type_parents parsed)"
      by (simp add: list_all2_conv_all_nth list_eq_iff_nth_eq)
    then show ?thesis by (metis set_map)
  qed
  moreover have "reference_view (fp_values pool') ` set rs = reference_text ` set (references_of parsed)"
  proof -
    have "list_all2 (\<lambda>r t. reference_view (fp_values p3) r = reference_text t) rs (references_of parsed)"
      using s3(3) by (simp add: list_all2_conv_all_nth list_eq_iff_nth_eq)
    then have "list_all2 (\<lambda>r t. reference_view (fp_values pool') r = reference_text t) rs (references_of parsed)"
      by (rule list_all2_mono) (rule reference_view_extends [OF s4(2)])
    then have "map (reference_view (fp_values pool')) rs = map reference_text (references_of parsed)"
      by (simp add: list_all2_conv_all_nth list_eq_iff_nth_eq)
    then show ?thesis by (metis set_map)
  qed
  moreover have "fact_string_at (fp_values pool') n = Some ?name" using ext1 s1(3) by (rule fact_string_at_extends)
  ultimately have view: "facts_view (fp_values pool') ?f = class_view parsed"
    using s4(3) by (simp add: facts_view_def class_view_def)
  have "sf \<noteq> None \<longleftrightarrow> source_file_name (pcl_attributes parsed) \<noteq> None"
    using s4(3) by (cases sf; cases "source_file_name (pcl_attributes parsed)") auto
  moreover have "ps = [] \<longleftrightarrow> type_parents parsed = []" using s2(3) by (metis map_is_Nil_conv)
  moreover have "rs = [] \<longleftrightarrow> references_of parsed = []" using s3(3) by (metis map_is_Nil_conv)
  ultimately have "f = (if states_facts parsed then Some ?f else None)"
    using f by (auto simp: states_facts_def)
  then show ?thesis using s4(1) view s1(2) ext1 by (auto intro: pool_extends_trans)
qed

text \<open>The class files that are read: entries that exist, are not too large, readable and parsed.\<close>

definition parsed_class :: "class_parser \<Rightarrow> archive \<Rightarrow> nat \<Rightarrow> str \<Rightarrow> ParsedClass option" where
  "parsed_class parse by_name max_entry_bytes entry_path =
     by_name entry_path \<bind> (\<lambda>entry.
     if ae_size entry > max_entry_bytes then None else ae_read_to_end entry \<bind> parse)"

definition is_module :: "ParsedClass \<Rightarrow> bool" where
  "is_module parsed \<longleftrightarrow> binary_name (pcl_this_class parsed) = lit ''module-info''"

definition fact_classes :: "class_parser \<Rightarrow> archive \<Rightarrow> nat \<Rightarrow> str list \<Rightarrow> ParsedClass list" where
  "fact_classes parse by_name max_entry_bytes paths =
     filter (\<lambda>p. \<not> is_module p \<and> states_facts p)
       (List.map_filter (parsed_class parse by_name max_entry_bytes) paths)"

definition facts_of_state :: "fact_state \<Rightarrow> class_view list" where
  "facts_of_state = (\<lambda>(class_facts, _, strings). map (facts_view (fp_values strings)) class_facts)"

lemma collect_class_cases:
  "collect_class parse by_name m path (cf, pr, pool) =
     (case parsed_class parse by_name m path of
        None \<Rightarrow> Some (cf, pr, pool)
      | Some parsed \<Rightarrow>
          if is_module parsed
          then map_option (\<lambda>(_, pool). (cf, collect_module_providers (pcl_attributes parsed) path pr, pool))
            (intern (lit ''module-info'') pool)
          else map_option (\<lambda>(f, pool). ((case f of None \<Rightarrow> cf | Some f \<Rightarrow> cf @ [f]), pr, pool)) (class_facts_of parsed pool))"
  by (simp add: collect_class_def parsed_class_def is_module_def del: lit.simps split: option.split)

lemma collect_class_spec:
  assumes wf: "pool_wf pool" and known: "map (facts_view (fp_values pool)) cf = map class_view done_classes"
    and step: "collect_class parse by_name m path (cf, pr, pool) = Some (cf', pr', pool')"
  shows "pool_wf pool' \<and> map (facts_view (fp_values pool')) cf' =
    map class_view (done_classes @ fact_classes parse by_name m [path])"
proof -
  have grow: "map (facts_view (fp_values q)) cf = map class_view done_classes" if "pool_extends pool q" for q
  proof -
    have "list_all2 (\<lambda>f p. facts_view (fp_values pool) f = class_view p) cf done_classes"
      using known by (simp add: list_all2_conv_all_nth list_eq_iff_nth_eq)
    then have "list_all2 (\<lambda>f p. facts_view (fp_values q) f = class_view p) cf done_classes"
      by (rule list_all2_mono) (rule facts_view_extends [OF that])
    then show ?thesis by (simp add: list_all2_conv_all_nth list_eq_iff_nth_eq)
  qed
  show ?thesis
  proof (cases "parsed_class parse by_name m path")
    case None
    then show ?thesis using step wf known
      by (simp add: collect_class_cases fact_classes_def List.map_filter_simps)
  next
    case (Some parsed)
    show ?thesis
    proof (cases "is_module parsed")
      case True
      then obtain n where "intern (lit ''module-info'') pool = Some (n, pool')" "cf' = cf"
        using step Some by (auto simp: collect_class_cases simp del: lit.simps)
      then show ?thesis using intern_spec [OF wf] grow Some True
        by (simp add: fact_classes_def List.map_filter_simps)
    next
      case False
      then obtain f where f: "class_facts_of parsed pool = Some (f, pool')"
        "cf' = (case f of None \<Rightarrow> cf | Some f \<Rightarrow> cf @ [f])"
        using step Some by (auto simp: collect_class_cases)
      have spec: "pool_wf pool'" "pool_extends pool pool'"
        "map_option (facts_view (fp_values pool')) f = (if states_facts parsed then Some (class_view parsed) else None)"
        using class_facts_of_spec [OF wf f(1)] by blast+
      show ?thesis
      proof (cases f)
        case None
        then have "\<not> states_facts parsed" using spec(3) by (metis option.distinct(1) option.map_disc_iff)
        then show ?thesis using None Some f(2) spec(1) grow [OF spec(2)]
          by (simp add: fact_classes_def List.map_filter_simps)
      next
        case (Some g)
        then have "Some (facts_view (fp_values pool') g) = (if states_facts parsed then Some (class_view parsed) else None)"
          using spec(3) by (simp only: option.map)
        then have "states_facts parsed" "facts_view (fp_values pool') g = class_view parsed"
          by (metis option.distinct(1) option.inject)+
        moreover have "fact_classes parse by_name m [path] = [parsed]"
          using \<open>parsed_class parse by_name m path = Some parsed\<close> False \<open>states_facts parsed\<close>
          by (simp add: fact_classes_def List.map_filter_simps)
        moreover have "cf' = cf @ [g]" using f(2) Some by simp
        ultimately show ?thesis using spec(1) grow [OF spec(2)] by (simp only: map_append list.map append_Nil2 simp_thms)
      qed
    qed
  qed
qed

definition polled :: "(nat \<Rightarrow> bool) \<Rightarrow> nat \<Rightarrow> 'a list \<Rightarrow> 'a list" where
  "polled cancelled i xs = map snd (takeWhile (\<lambda>(j, _). \<not> cancelled j) (zip [i..<i + length xs] xs))"

lemma polled_simps [simp]:
  "polled cancelled i [] = []"
  "polled cancelled i (x # xs) = (if cancelled i then [] else x # polled cancelled (Suc i) xs)"
proof -
  have "[i..<i + length (x # xs)] = i # [Suc i..<Suc i + length xs]" by (simp add: upt_rec)
  then show "polled cancelled i (x # xs) = (if cancelled i then [] else x # polled cancelled (Suc i) xs)"
    unfolding polled_def by simp
qed (simp add: polled_def)

lemma fact_classes_Cons:
  "fact_classes parse by_name m (p # ps) = fact_classes parse by_name m [p] @ fact_classes parse by_name m ps"
  by (simp add: fact_classes_def List.map_filter_simps split: option.split)

lemma collect_classes_spec:
  assumes "pool_wf pool" "map (facts_view (fp_values pool)) cf = map class_view done_classes"
    and "collect_classes parse by_name m cancelled i paths (cf, pr, pool) = Some (cf', pr', pool')"
  shows "pool_wf pool' \<and> map (facts_view (fp_values pool')) cf' =
    map class_view (done_classes @ fact_classes parse by_name m (polled cancelled i paths))"
  using assms
proof (induction paths arbitrary: i cf pr pool done_classes)
  case Nil
  then show ?case by (simp add: fact_classes_def List.map_filter_simps)
next
  case (Cons p paths)
  show ?case
  proof (cases "cancelled i")
    case True
    then show ?thesis using Cons.prems by (simp add: fact_classes_def List.map_filter_simps)
  next
    case False
    with Cons.prems(3) obtain cf1 pr1 pool1 where
      step: "collect_class parse by_name m p (cf, pr, pool) = Some (cf1, pr1, pool1)"
      and rest: "collect_classes parse by_name m cancelled (Suc i) paths (cf1, pr1, pool1) = Some (cf', pr', pool')"
      by (auto simp: bind_eq_Some_conv)
    note one = collect_class_spec [OF Cons.prems(1,2) step]
    have "pool_wf pool' \<and> map (facts_view (fp_values pool')) cf' =
        map class_view ((done_classes @ fact_classes parse by_name m [p]) @
          fact_classes parse by_name m (polled cancelled (Suc i) paths))"
      using one by (intro Cons.IH [OF _ _ rest]) simp_all
    then show ?thesis using False
      by (simp add: fact_classes_Cons [of parse by_name m p "polled cancelled (Suc i) paths"])
  qed
qed

lemma collect_jar_facts_views:
  assumes "collect_jar_facts parse (Some by_name) cancelled entries class_entries m = Some (cf, pr, ss)"
  shows "map (facts_view ss) cf =
      map class_view (fact_classes parse by_name m (polled cancelled 0 (map snd class_entries))) \<and>
    distinct ss \<and> length ss < 2 ^ 32"
proof -
  from assms obtain pr' pool where
    loop: "collect_classes parse by_name m cancelled 0 (map snd class_entries) ([], [], new_fact_pool) = Some (cf, pr', pool)"
    and strings: "ss = fp_values pool"
    by (auto simp: collect_jar_facts_def)
  have "pool_wf pool \<and> map (facts_view (fp_values pool)) cf =
      map class_view ([] @ fact_classes parse by_name m (polled cancelled 0 (map snd class_entries)))"
    by (rule collect_classes_spec [OF pool_wf_new_fact _ loop]) simp
  then show ?thesis using strings by (simp add: pool_wf_def)
qed

text \<open>
  Claim C17: jar_facts_faithful.  The hierarchy and reference facts of a JAR are those of its class
  files: with the numbers replaced by the texts of the table, the facts are, in the order of the class
  entries, exactly the name, source file, super types and references of every readable class file that
  states any, up to the entry before which the job was cancelled; and every number has a text.
\<close>

theorem jar_facts_faithful:
  assumes "collect_jar_facts parse (Some by_name) cancelled entries class_entries max_entry_bytes =
    Some (class_facts, providers, fact_strings)"
  shows "map (facts_view fact_strings) class_facts =
      map class_view (fact_classes parse by_name max_entry_bytes (polled cancelled 0 (map snd class_entries))) \<and>
    distinct fact_strings \<and> length fact_strings < 2 ^ 32"
  by (rule collect_jar_facts_views [OF assms])

theorem jar_facts_faithful_witness:
  "map (facts_view [lit ''a.B'', lit ''a.C'', lit ''B.java''])
     [\<lparr> cf_source_class = 1, cf_source_file = Some 3, cf_parents = [IndexedTypeParent 2 Extends], cf_references = [] \<rparr>] =
   map class_view
     [\<lparr> pcl_this_class = lit ''a/B'', pcl_super_class = Some (lit ''a/C''), pcl_interfaces = [],
        pcl_constants = [ClassInfo (lit ''a/B'')], pcl_attributes = [SourceFile (lit ''B.java'')] \<rparr>]"
proof -
  define parsed where "parsed = \<lparr> pcl_this_class = lit ''a/B'', pcl_super_class = Some (lit ''a/C''),
    pcl_interfaces = [], pcl_constants = [ClassInfo (lit ''a/B'')], pcl_attributes = [SourceFile (lit ''B.java'')] \<rparr>"
  define entry where "entry = \<lparr> ae_size = 1, ae_read_to_end = Some [0], ae_read_text = (\<lambda>_. None) \<rparr>"
  have names: "binary_name (lit ''a/B'') = lit ''a.B''" "binary_name (lit ''a/C'') = lit ''a.C''"
    "source_file_name [SourceFile (lit ''B.java'')] = Some (lit ''B.java'')"
    "reference_target (lit ''a.B'') (ClassInfo (lit ''a/B'')) = None"
    by (simp_all add: binary_name_def replace_ch_def source_file_name_def source_file_name_of_def
      source_file_stem_def strip_suffix_def List.map_filter_simps reference_target_def
      normalize_constant_class_def starts_with_def)
  have neq: "lit ''a.C'' \<noteq> lit ''a.B''" "lit ''B.java'' \<noteq> lit ''a.B''" "lit ''B.java'' \<noteq> lit ''a.C''"
    by simp_all
  have facts: "class_facts_of parsed new_fact_pool =
      Some (Some \<lparr> cf_source_class = 1, cf_source_file = Some 3, cf_parents = [IndexedTypeParent 2 Extends],
             cf_references = [] \<rparr>,
        \<lparr> fp_ids = [lit ''a.B'' \<mapsto> 1, lit ''a.C'' \<mapsto> 2, lit ''B.java'' \<mapsto> 3],
          fp_values = [lit ''a.B'', lit ''a.C'', lit ''B.java''] \<rparr>)"
    unfolding parsed_def
    by (simp add: class_facts_of_def names neq Let_def intern_def new_fact_pool_def type_parents_def intern_option_def
      indexed_reference_def sort_dedup_def del: lit.simps, simp only: numeral_2_eq_2 numeral_3_eq_3)
  have "collect_jar_facts (\<lambda>_. Some parsed) (Some (\<lambda>_. Some entry)) (\<lambda>_. False) [] [(lit ''a/B.class'', lit ''a/B.class'')] 9 =
      Some ([\<lparr> cf_source_class = 1, cf_source_file = Some 3, cf_parents = [IndexedTypeParent 2 Extends],
             cf_references = [] \<rparr>], [], [lit ''a.B'', lit ''a.C'', lit ''B.java''])"
    using facts by (simp add: collect_jar_facts_def collect_class_cases parsed_class_def entry_def is_module_def
      parsed_def binary_name_def replace_ch_def)
  from jar_facts_faithful [OF this] have
    "map (facts_view [lit ''a.B'', lit ''a.C'', lit ''B.java''])
       [\<lparr> cf_source_class = 1, cf_source_file = Some 3, cf_parents = [IndexedTypeParent 2 Extends], cf_references = [] \<rparr>] =
     map class_view (fact_classes (\<lambda>_. Some parsed) (\<lambda>_. Some entry) 9 (polled (\<lambda>_. False) 0 [lit ''a/B.class'']))"
    by (simp del: lit.simps)
  moreover have "fact_classes (\<lambda>_. Some parsed) (\<lambda>_. Some entry) 9 (polled (\<lambda>_. False) 0 [lit ''a/B.class'']) = [parsed]"
    by (simp add: fact_classes_def List.map_filter_simps parsed_class_def entry_def is_module_def states_facts_def
      parsed_def binary_name_def replace_ch_def type_parents_def)
  ultimately show ?thesis unfolding parsed_def by simp
qed

section \<open>Well-formed records\<close>

text \<open>Every number of a record has a text and its class lists are derived from its entries.\<close>

definition facts_in_range :: "nat \<Rightarrow> IndexedClassFacts \<Rightarrow> bool" where
  "facts_in_range n f \<longleftrightarrow>
     (let in_range = (\<lambda>i. 1 \<le> i \<and> i \<le> n) in
      in_range (cf_source_class f) \<and> pred_option in_range (cf_source_file f) \<and>
      list_all (\<lambda>p. in_range (itp_parent p)) (cf_parents f) \<and>
      list_all (\<lambda>r. in_range (ir_target_owner r) \<and> pred_option in_range (ir_target_name r) \<and>
        pred_option in_range (ir_target_descriptor r)) (cf_references f))"

definition record_wf :: "JarRecord \<Rightarrow> bool" where
  "record_wf jar \<longleftrightarrow>
     list_all (facts_in_range (length (jr_fact_strings jar))) (jr_class_facts jar) \<and>
     jr_class_entries jar = effective_class_entries (jr_entries jar) (jr_multi_release jar) \<and>
     jr_classes jar = classes_of (jr_class_entries jar)"

lemma fact_string_at_Some_iff: "(\<exists>v. fact_string_at ss n = Some v) \<longleftrightarrow> 1 \<le> n \<and> n \<le> length ss"
  by (auto simp: fact_string_at_def)

lemma in_range_option:
  "map_option (fact_string_at ss) n = map_option Some t \<Longrightarrow> pred_option (\<lambda>i. 1 \<le> i \<and> i \<le> length ss) n"
  by (cases n; cases t) (auto simp: fact_string_at_def split: if_splits)

lemma parent_view_range:
  "parent_view ss p = parent_text t \<Longrightarrow> 1 \<le> itp_parent p \<and> itp_parent p \<le> length ss"
  by (cases t) (auto simp: parent_view_def parent_text_def fact_string_at_def split: if_splits)

lemma reference_view_range:
  "reference_view ss r = reference_text t \<Longrightarrow>
     (1 \<le> ir_target_owner r \<and> ir_target_owner r \<le> length ss) \<and>
     pred_option (\<lambda>i. 1 \<le> i \<and> i \<le> length ss) (ir_target_name r) \<and>
     pred_option (\<lambda>i. 1 \<le> i \<and> i \<le> length ss) (ir_target_descriptor r)"
proof -
  assume view: "reference_view ss r = reference_text t"
  obtain owner name descriptor kind where t: "t = (owner, name, descriptor, kind)" by (cases t)
  have "fact_string_at ss (ir_target_owner r) = Some owner"
    "map_option (fact_string_at ss) (ir_target_name r) = map_option Some name"
    "map_option (fact_string_at ss) (ir_target_descriptor r) = map_option Some descriptor"
    using view t by (simp_all add: reference_view_def reference_text_def)
  then show ?thesis using fact_string_at_Some_iff in_range_option by blast
qed

lemma facts_view_in_range:
  assumes "facts_view ss f = class_view parsed"
  shows "facts_in_range (length ss) f"
proof -
  have "1 \<le> itp_parent p \<and> itp_parent p \<le> length ss" if "p \<in> set (cf_parents f)" for p
  proof -
    have "parent_view ss p \<in> parent_text ` set (type_parents parsed)"
      using assms that by (auto simp: facts_view_def class_view_def)
    then show ?thesis by (auto dest: parent_view_range)
  qed
  moreover have "(1 \<le> ir_target_owner r \<and> ir_target_owner r \<le> length ss) \<and>
      pred_option (\<lambda>i. 1 \<le> i \<and> i \<le> length ss) (ir_target_name r) \<and>
      pred_option (\<lambda>i. 1 \<le> i \<and> i \<le> length ss) (ir_target_descriptor r)" if "r \<in> set (cf_references f)" for r
  proof -
    have "reference_view ss r \<in> reference_text ` set (references_of parsed)"
      using assms that by (auto simp: facts_view_def class_view_def)
    then obtain t where "reference_view ss r = reference_text t" by blast
    then show ?thesis by (rule reference_view_range)
  qed
  moreover have "fact_string_at ss (cf_source_class f) = Some (binary_name (pcl_this_class parsed))"
    "map_option (fact_string_at ss) (cf_source_file f) = map_option Some (source_file_name (pcl_attributes parsed))"
    using assms by (simp_all add: facts_view_def class_view_def)
  ultimately show ?thesis unfolding facts_in_range_def Let_def list_all_iff
    using fact_string_at_Some_iff in_range_option by blast
qed

lemma load_jar_record_wf:
  assumes "load_jar_record parse (read_jar_index_from names manifest) opened cancelled p identity m = Some (Some jar)"
  shows "record_wf jar \<and> jr_key jar = ji_key identity \<and> jr_classifier jar = ji_classifier identity \<and>
    jr_relative_path jar = ji_relative_path identity \<and> jr_path jar = p"
proof -
  from assms obtain ji cf pr ss where ji: "read_jar_index_from names manifest = Some ji"
    and facts: "(if documented_classifier (ji_classifier identity) \<noteq> None then Some ([], [], [])
       else collect_jar_facts parse opened cancelled (jx_entries ji) (jx_class_entries ji) m) = Some (cf, pr, ss)"
    and jar: "jar = \<lparr> jr_key = ji_key identity, jr_classifier = ji_classifier identity,
        jr_relative_path = ji_relative_path identity, jr_path = p, jr_classes = jx_classes ji,
        jr_entries = jx_entries ji, jr_class_entries = jx_class_entries ji,
        jr_multi_release = jx_multi_release ji, jr_fact_strings = ss, jr_class_facts = cf, jr_providers = pr \<rparr>"
    by (auto simp: load_jar_record_def split: option.splits)
  have "list_all (facts_in_range (length ss)) cf"
  proof (cases "documented_classifier (ji_classifier identity) \<noteq> None \<or> opened = None")
    case True
    then show ?thesis using facts by (auto simp: collect_jar_facts_def split: if_splits)
  next
    case False
    then obtain by_name where "collect_jar_facts parse (Some by_name) cancelled (jx_entries ji) (jx_class_entries ji) m =
        Some (cf, pr, ss)" using facts by auto
    then obtain classes where "map (facts_view ss) cf = map class_view classes"
      using collect_jar_facts_views by blast
    then have "\<forall>f\<in>set cf. \<exists>c. facts_view ss f = class_view c"
      by (metis (no_types, lifting) image_iff list.set_map)
    then show ?thesis unfolding list_all_iff using facts_view_in_range by blast
  qed
  moreover have "jx_class_entries ji = effective_class_entries (jx_entries ji) (jx_multi_release ji)"
    "jx_classes ji = classes_of (jx_class_entries ji)"
    using ji by (auto simp: read_jar_index_from_def Let_def)
  ultimately show ?thesis using jar by (simp add: record_wf_def)
qed

end
