(* ===== verification/Persisted_Records.thy ===== *)
theory Persisted_Records
  imports Jar_Records Project_Cache
begin

text \<open>
  The persistable form of a record (\<open>src/src/index/persisted.rs\<close>): the stamps and the context a stored
  record depends on, storing, and restoring with the charge of its preflight.

  The payload codec of \<open>index_cache.rs\<close> is modelled over the two libraries it calls: \<open>serde_json\<close> and the
  reader and writer of \<open>zlib\<close> streams are parameters, as are the clock and what a walk over the
  artifact yields; \<open>was_settled_at\<close> is the definition of the project cache.
\<close>

section \<open>The payload codec\<close>

text \<open>
  \<open>cd_inflate\<close> reads the first bytes of a compressed stream, at most as many as it is asked for, and is \<open>None\<close>
  when they cannot be read.
\<close>

record 'v codec_library =
  cd_to_json :: "'v \<Rightarrow> bytes option"
  cd_from_json :: "bytes \<Rightarrow> 'v option"
  cd_deflate :: "bytes \<Rightarrow> bytes option"
  cd_inflate :: "bytes \<Rightarrow> nat \<Rightarrow> bytes option"

definition MAX_DECODED_PAYLOAD_BYTES :: nat where
  "MAX_DECODED_PAYLOAD_BYTES = 2 ^ 30"

definition encode_payload :: "'v codec_library \<Rightarrow> 'v \<Rightarrow> bytes option" where
  "encode_payload c v = cd_to_json c v \<bind> cd_deflate c"

definition decode_payload :: "'v codec_library \<Rightarrow> bytes \<Rightarrow> 'v option" where
  "decode_payload c payload =
     (case cd_inflate c payload (MAX_DECODED_PAYLOAD_BYTES + 1) of
        None \<Rightarrow> None
      | Some json \<Rightarrow> if MAX_DECODED_PAYLOAD_BYTES < length json then None else cd_from_json c json)"

text \<open>What the libraries document: JSON is read back, and a stream yields the bytes it was written from.\<close>

definition codec_laws :: "'v codec_library \<Rightarrow> bool" where
  "codec_laws c \<longleftrightarrow> (\<forall>v json. cd_to_json c v = Some json \<longrightarrow> cd_from_json c json = Some v) \<and>
     (\<forall>json payload n. cd_deflate c json = Some payload \<longrightarrow> cd_inflate c payload n = Some (take n json))"

lemma decode_encoded:
  assumes "codec_laws c" "encode_payload c v = Some payload"
  obtains json where "cd_to_json c v = Some json"
    "decode_payload c payload = (if MAX_DECODED_PAYLOAD_BYTES < length json then None else Some v)"
proof -
  from assms(2) obtain json where json: "cd_to_json c v = Some json" "cd_deflate c json = Some payload"
    by (auto simp: encode_payload_def bind_eq_Some_conv)
  then have "cd_inflate c payload (MAX_DECODED_PAYLOAD_BYTES + 1) = Some (take (MAX_DECODED_PAYLOAD_BYTES + 1) json)"
    using assms(1) by (simp add: codec_laws_def del: take_Suc)
  moreover have "cd_from_json c json = Some v" using assms(1) json(1) by (simp add: codec_laws_def)
  ultimately show thesis using that [OF json(1)] by (simp add: decode_payload_def)
qed

lemma decode_encoded_value:
  "codec_laws c \<Longrightarrow> encode_payload c v = Some payload \<Longrightarrow> decode_payload c payload = Some v' \<Longrightarrow> v' = v"
  by (elim decode_encoded) (auto split: if_splits)

section \<open>Stamps and context\<close>

type_synonym validity_stamp = "str \<times> nat \<times> nat"

text \<open>Relative name, length and modification time of every entry of the walk; \<open>None\<close> for an entry that
  cannot be stamped.\<close>

definition capture_validity :: "resource_limits \<Rightarrow> validity_stamp option list \<Rightarrow> validity_stamp list option" where
  "capture_validity limits walk =
     (let limit = sat_add (rl_index_entries limits) 1;
          taken = take limit walk
      in if None \<in> set taken then None
         else if length taken < limit then Some (map the taken) else None)"

text \<open>Each stamp is compared with a reading of the clock of its own.\<close>

fun validity_is_settled :: "(nat \<Rightarrow> nat) \<Rightarrow> nat \<Rightarrow> validity_stamp list \<Rightarrow> bool" where
  "validity_is_settled now i [] = True"
| "validity_is_settled now i ((_, _, modified) # stamps) =
     (was_settled_at modified (now i) \<and> validity_is_settled now (Suc i) stamps)"

record RecordContext =
  rc_path :: path
  rc_group_id :: str
  rc_artifact_id :: str
  rc_version :: str
  rc_classifier :: "str option"
  rc_relative_path :: str
  rc_max_entry_bytes :: nat
  rc_max_jar_entries :: nat
  rc_max_xml_bytes :: nat

definition new_context :: "resource_limits \<Rightarrow> path \<Rightarrow> JarIdentity \<Rightarrow> nat \<Rightarrow> RecordContext" where
  "new_context limits p identity max_entry_bytes =
     \<lparr> rc_path = p, rc_group_id = ak_group_id (ji_key identity), rc_artifact_id = ak_artifact_id (ji_key identity),
       rc_version = ak_version (ji_key identity), rc_classifier = ji_classifier identity,
       rc_relative_path = ji_relative_path identity, rc_max_entry_bytes = max_entry_bytes,
       rc_max_jar_entries = rl_jar_entries limits, rc_max_xml_bytes = rl_xml_bytes limits \<rparr>"

section \<open>The stored form\<close>

type_synonym StoredReference = "nat \<times> nat option \<times> nat option \<times> ClassReferenceKind"

record StoredClassFacts =
  sc_source_class :: nat
  sc_source_file :: "nat option"
  sc_parents :: "(nat \<times> TypeRelation) list"
  sc_references :: "StoredReference list"

record StoredProvider =
  sp_service :: str
  sp_provider :: "str option"
  sp_descriptor_kind :: ProviderDescriptorKind
  sp_entry :: str

record StoredRecord =
  st_context :: RecordContext
  st_validity :: "validity_stamp list"
  st_preflight :: PreflightCharge
  st_multi_release :: bool
  st_entries :: "str list"
  st_fact_strings :: "str list"
  st_class_facts :: "StoredClassFacts list"
  st_providers :: "StoredProvider list"

definition store_class_facts :: "IndexedClassFacts \<Rightarrow> StoredClassFacts" where
  "store_class_facts f =
     \<lparr> sc_source_class = cf_source_class f, sc_source_file = cf_source_file f,
       sc_parents = map (\<lambda>p. (itp_parent p, itp_relation p)) (cf_parents f),
       sc_references = map (\<lambda>r. (ir_target_owner r, ir_target_name r, ir_target_descriptor r, ir_kind r))
         (cf_references f) \<rparr>"

definition store_provider :: "IndexedProvider \<Rightarrow> StoredProvider" where
  "store_provider p =
     \<lparr> sp_service = ip_service p, sp_provider = ip_provider p, sp_descriptor_kind = ip_descriptor_kind p,
       sp_entry = ip_entry p \<rparr>"

definition stored_record ::
  "resource_limits \<Rightarrow> JarRecord \<Rightarrow> validity_stamp list \<Rightarrow> PreflightCharge \<Rightarrow> nat \<Rightarrow> StoredRecord" where
  "stored_record limits jar validity preflight max_entry_bytes =
     (let identity = \<lparr> ji_key = jr_key jar, ji_classifier = jr_classifier jar, ji_relative_path = jr_relative_path jar \<rparr>
      in \<lparr> st_context = new_context limits (jr_path jar) identity max_entry_bytes,
           st_validity = validity, st_preflight = preflight, st_multi_release = jr_multi_release jar,
           st_entries = jr_entries jar, st_fact_strings = jr_fact_strings jar,
           st_class_facts = map store_class_facts (jr_class_facts jar),
           st_providers = map store_provider (jr_providers jar) \<rparr>)"

text \<open>Path and payload of a record that may be written to the cache.\<close>

definition persistable ::
  "(StoredRecord \<Rightarrow> bytes option) \<Rightarrow> resource_limits \<Rightarrow> (nat \<Rightarrow> nat) \<Rightarrow> JarRecord \<Rightarrow> validity_stamp list \<Rightarrow>
     PreflightCharge \<Rightarrow> nat \<Rightarrow> (path \<times> bytes) option" where
  "persistable encode limits now jar validity preflight max_entry_bytes =
     (if \<not> validity_is_settled now 0 validity then None
      else map_option (Pair (jr_path jar))
        (encode (stored_record limits jar validity preflight max_entry_bytes)))"

section \<open>Restoring\<close>

definition stored_in_range :: "nat \<Rightarrow> StoredClassFacts \<Rightarrow> bool" where
  "stored_in_range count f \<longleftrightarrow>
     (let in_range = (\<lambda>i. 1 \<le> i \<and> i \<le> count) in
      in_range (sc_source_class f) \<and> pred_option in_range (sc_source_file f) \<and>
      list_all (\<lambda>(parent, _). in_range parent) (sc_parents f) \<and>
      list_all (\<lambda>(owner, name, descriptor, _).
        in_range owner \<and> pred_option in_range name \<and> pred_option in_range descriptor) (sc_references f))"

definition validate :: "StoredRecord \<Rightarrow> StoredRecord option" where
  "validate stored =
     (if list_all (stored_in_range (length (st_fact_strings stored))) (st_class_facts stored)
      then Some stored else None)"

text \<open>\<open>NonZeroU32::new(raw).unwrap_or(MIN)\<close>.\<close>

definition fact_id :: "nat \<Rightarrow> FactStringId" where
  "fact_id raw = (if raw = 0 then 1 else raw)"

definition restore_class_facts :: "StoredClassFacts \<Rightarrow> IndexedClassFacts" where
  "restore_class_facts f =
     \<lparr> cf_source_class = fact_id (sc_source_class f), cf_source_file = map_option fact_id (sc_source_file f),
       cf_parents = map (\<lambda>(parent, relation). IndexedTypeParent (fact_id parent) relation) (sc_parents f),
       cf_references = map (\<lambda>(owner, name, descriptor, kind).
         IndexedReference (fact_id owner) (map_option fact_id name) (map_option fact_id descriptor) kind)
         (sc_references f) \<rparr>"

definition restore_provider :: "StoredProvider \<Rightarrow> IndexedProvider" where
  "restore_provider p = IndexedProvider (sp_service p) (sp_provider p) (sp_descriptor_kind p) (sp_entry p)"

definition into_record :: "StoredRecord \<Rightarrow> path \<Rightarrow> JarIdentity \<Rightarrow> JarRecord" where
  "into_record stored p identity =
     (let class_entries = effective_class_entries (st_entries stored) (st_multi_release stored)
      in \<lparr> jr_key = ji_key identity, jr_classifier = ji_classifier identity,
           jr_relative_path = ji_relative_path identity, jr_path = p, jr_classes = classes_of class_entries,
           jr_entries = st_entries stored, jr_class_entries = class_entries,
           jr_multi_release = st_multi_release stored, jr_fact_strings = st_fact_strings stored,
           jr_class_facts = map restore_class_facts (st_class_facts stored),
           jr_providers = map restore_provider (st_providers stored) \<rparr>)"

text \<open>\<open>Inr None\<close> is a cache miss; the budget is returned because a failing charge may have changed it.\<close>

definition restore ::
  "(bytes \<Rightarrow> StoredRecord option) \<Rightarrow> resource_limits \<Rightarrow> bytes \<Rightarrow> path \<Rightarrow> JarIdentity \<Rightarrow> validity_stamp list \<Rightarrow> nat \<Rightarrow>
     ArchiveBudget \<Rightarrow> (archive_error + JarRecord option) \<times> ArchiveBudget" where
  "restore decode limits payload p identity validity max_entry_bytes budget =
     (case decode payload \<bind> validate of
        None \<Rightarrow> (Inr None, budget)
      | Some stored \<Rightarrow>
          if st_context stored \<noteq> new_context limits p identity max_entry_bytes \<or> st_validity stored \<noteq> validity
          then (Inr None, budget)
          else case charge_preflight (st_preflight stored) budget of
                 (Inl e, budget) \<Rightarrow> (Inl e, budget)
               | (Inr _, budget) \<Rightarrow> (Inr (Some (into_record stored p identity)), budget))"

section \<open>Round trip\<close>

lemma stored_in_range_iff: "stored_in_range n (store_class_facts f) \<longleftrightarrow> facts_in_range n f"
  by (simp add: stored_in_range_def store_class_facts_def facts_in_range_def list_all_iff Let_def)

lemma fact_id_same: "1 \<le> n \<Longrightarrow> fact_id n = n"
  by (simp add: fact_id_def)

lemma fact_id_option: "pred_option (\<lambda>i. 1 \<le> i \<and> i \<le> m) n \<Longrightarrow> map_option fact_id n = n"
  by (cases n) (simp_all add: fact_id_same)

lemma restore_store_facts: "facts_in_range n f \<Longrightarrow> restore_class_facts (store_class_facts f) = f"
  unfolding facts_in_range_def restore_class_facts_def store_class_facts_def Let_def list_all_iff
  by (cases f) (auto simp: fact_id_same fact_id_option comp_def intro!: map_idI)

lemma restore_store_provider [simp]: "restore_provider (store_provider p) = p"
  by (simp add: restore_provider_def store_provider_def)

lemma into_stored_record:
  assumes "record_wf jar"
  shows "into_record (stored_record limits jar validity charge m) (jr_path jar)
    \<lparr> ji_key = jr_key jar, ji_classifier = jr_classifier jar, ji_relative_path = jr_relative_path jar \<rparr> = jar"
proof -
  have "map (restore_class_facts \<circ> store_class_facts) (jr_class_facts jar) = jr_class_facts jar"
    using assms by (intro map_idI) (auto simp: record_wf_def list_all_iff dest: restore_store_facts)
  moreover have "map (restore_provider \<circ> store_provider) (jr_providers jar) = jr_providers jar"
    by (intro map_idI) simp
  ultimately show ?thesis using assms
    by (simp add: into_record_def stored_record_def Let_def record_wf_def)
qed

lemma validate_stored_record:
  "record_wf jar \<Longrightarrow>
     validate (stored_record limits jar validity charge m) = Some (stored_record limits jar validity charge m)"
  by (simp add: validate_def stored_record_def Let_def record_wf_def list_all_iff stored_in_range_iff)

text \<open>
  Claim C8: restore_persistable.  A record that was persisted is restored unchanged, unless its JSON exceeds the limit
  of one decoded payload, which makes it a miss: over libraries that read back what they wrote, restoring the payload
  of a well-formed record for the same path, identity, limits and stamps charges the recorded preflight, and when
  the budget allows it answers the very record that was stored.
\<close>

theorem restore_persistable:
  assumes "record_wf jar" "codec_laws c"
    and "persistable (encode_payload c) limits now jar validity charge m = Some (p, payload)"
  shows "p = jr_path jar \<and> validity_is_settled now 0 validity \<and>
    (\<exists>json. cd_to_json c (stored_record limits jar validity charge m) = Some json \<and>
      restore (decode_payload c) limits payload p
        \<lparr> ji_key = jr_key jar, ji_classifier = jr_classifier jar, ji_relative_path = jr_relative_path jar \<rparr>
        validity m budget =
      (if MAX_DECODED_PAYLOAD_BYTES < length json then (Inr None, budget)
       else case charge_preflight charge budget of
              (Inl e, left) \<Rightarrow> (Inl e, left)
            | (Inr _, left) \<Rightarrow> (Inr (Some jar), left)))"
proof -
  let ?stored = "stored_record limits jar validity charge m"
  have p: "p = jr_path jar" "validity_is_settled now 0 validity" and enc: "encode_payload c ?stored = Some payload"
    using assms(3) by (auto simp: persistable_def split: if_splits)
  from decode_encoded [OF assms(2) enc] obtain json where json: "cd_to_json c ?stored = Some json"
    "decode_payload c payload = (if MAX_DECODED_PAYLOAD_BYTES < length json then None else Some ?stored)" .
  have "st_context ?stored = new_context limits p
      \<lparr> ji_key = jr_key jar, ji_classifier = jr_classifier jar, ji_relative_path = jr_relative_path jar \<rparr> m"
    "st_validity ?stored = validity" "st_preflight ?stored = charge" "validate ?stored = Some ?stored"
    using p validate_stored_record [OF assms(1)] by (simp_all add: stored_record_def Let_def)
  then have "restore (decode_payload c) limits payload p
        \<lparr> ji_key = jr_key jar, ji_classifier = jr_classifier jar, ji_relative_path = jr_relative_path jar \<rparr> validity m budget =
      (if MAX_DECODED_PAYLOAD_BYTES < length json then (Inr None, budget)
       else case charge_preflight charge budget of (Inl e, left) \<Rightarrow> (Inl e, left) | (Inr _, left) \<Rightarrow> (Inr (Some jar), left))"
    using p into_stored_record [OF assms(1)] json(2) by (simp add: restore_def split: prod.split sum.split)
  then show ?thesis using p json(1) by blast
qed

text \<open>A small JAR with one class that extends another.\<close>

definition sample_identity :: JarIdentity where
  "sample_identity =
     \<lparr> ji_key = \<lparr> ak_group_id = lit ''g'', ak_artifact_id = lit ''a'', ak_version = lit ''1'' \<rparr>,
       ji_classifier = None, ji_relative_path = lit ''g/a/1/a-1.jar'' \<rparr>"

definition sample_jar :: JarRecord where
  "sample_jar =
     \<lparr> jr_key = ji_key sample_identity, jr_classifier = None, jr_relative_path = lit ''g/a/1/a-1.jar'',
       jr_path = [lit ''a-1.jar''], jr_classes = [lit ''p.A''], jr_entries = [lit ''p/A.class''],
       jr_class_entries = [(lit ''p/A.class'', lit ''p/A.class'')], jr_multi_release = False,
       jr_fact_strings = [lit ''p.A'', lit ''p.B''],
       jr_class_facts = [\<lparr> cf_source_class = 1, cf_source_file = None, cf_parents = [IndexedTypeParent 2 Extends],
         cf_references = [] \<rparr>],
       jr_providers = [] \<rparr>"

definition sample_limits :: resource_limits where
  "sample_limits = \<lparr> rl_xml_bytes = 9, rl_jar_entries = 3, rl_index_entries = 5, rl_index_name_bytes = 9 \<rparr>"

lemma sample_entries:
  "effective_class_entries [lit ''p/A.class''] False = [(lit ''p/A.class'', lit ''p/A.class'')]"
  "classes_of [(lit ''p/A.class'', lit ''p/A.class'')] = [lit ''p.A'']"
  by (simp_all add: effective_class_entries_def select_entry_def entry_candidate_def VERSIONED_ENTRY_PREFIX_def
    ends_with_def strip_suffix_def classes_of_def List.map_filter_simps class_name_from_entry_def replace_ch_def)

lemma sample_jar_wf: "record_wf sample_jar"
  by (simp add: record_wf_def sample_jar_def sample_entries facts_in_range_def del: lit.simps)

text \<open>A codec for one record, whose stream is its JSON.\<close>

definition sample_codec :: "StoredRecord \<Rightarrow> bytes \<Rightarrow> StoredRecord codec_library" where
  "sample_codec v json =
     \<lparr> cd_to_json = (\<lambda>w. if w = v then Some json else None), cd_from_json = (\<lambda>_. Some v), cd_deflate = Some,
       cd_inflate = (\<lambda>stream n. Some (take n stream)) \<rparr>"

lemma sample_codec_laws: "codec_laws (sample_codec v json)"
  by (simp add: codec_laws_def sample_codec_def)

lemma sample_codec_encode: "encode_payload (sample_codec v json) w = (if w = v then Some json else None)"
  by (simp add: encode_payload_def sample_codec_def)

theorem restore_persistable_witness:
  "restore (decode_payload (sample_codec (stored_record sample_limits sample_jar [] \<lparr> pc_entries = 1, pc_name_bytes = 9 \<rparr> 8) [7]))
     sample_limits [7] [lit ''a-1.jar''] sample_identity [] 8 \<lparr> ab_entries = 5, ab_names = 9, ab_jar_entries = 3 \<rparr> =
   (Inr (Some sample_jar), \<lparr> ab_entries = 4, ab_names = 0, ab_jar_entries = 3 \<rparr>)"
proof -
  let ?charge = "\<lparr> pc_entries = 1, pc_name_bytes = 9 \<rparr>"
  let ?b = "\<lparr> ab_entries = 5, ab_names = 9, ab_jar_entries = 3 \<rparr>"
  define stored where "stored = stored_record sample_limits sample_jar [] ?charge 8"
  let ?c = "sample_codec stored [7]"
  have persisted: "persistable (encode_payload ?c) sample_limits (\<lambda>_. 0) sample_jar [] ?charge 8 = Some ([lit ''a-1.jar''], [7])"
    by (simp add: persistable_def sample_codec_encode stored_def sample_jar_def)
  have charge: "charge_preflight ?charge ?b = (Inr (), \<lparr> ab_entries = 4, ab_names = 0, ab_jar_entries = 3 \<rparr>)"
    by (simp add: charge_preflight_def checked_sub_def)
  have identity: "\<lparr> ji_key = jr_key sample_jar, ji_classifier = jr_classifier sample_jar,
      ji_relative_path = jr_relative_path sample_jar \<rparr> = sample_identity"
    by (simp add: sample_jar_def sample_identity_def)
  have json: "cd_to_json ?c stored = Some j \<longleftrightarrow> j = [7]" for j by (auto simp: sample_codec_def)
  from restore_persistable [OF sample_jar_wf sample_codec_laws persisted, of ?b]
  obtain j where "cd_to_json ?c stored = Some j" "restore (decode_payload ?c) sample_limits [7] [lit ''a-1.jar''] sample_identity [] 8 ?b =
      (if MAX_DECODED_PAYLOAD_BYTES < length j then (Inr None, ?b)
       else case charge_preflight ?charge ?b of (Inl e, left) \<Rightarrow> (Inl e, left) | (Inr _, left) \<Rightarrow> (Inr (Some sample_jar), left))"
    unfolding identity stored_def [symmetric] by blast
  then show ?thesis unfolding json charge stored_def [symmetric] by (simp add: MAX_DECODED_PAYLOAD_BYTES_def)
qed

text \<open>
  Claim C9: index_records_well_formed.  Every record an index is built from is well formed, whether it
  was read from its archive or restored from any payload, damaged or not: every fact number has a text,
  so looking one up never panics, and classes and class entries are those of the entries.  A payload is
  used only if it was stored for the same path, identity, limits and stamps.
\<close>

theorem index_records_well_formed:
  "(load_jar_record parse (read_jar_index_from names manifest) opened cancelled p identity m = Some (Some jar) \<or>
    restore decode limits payload p identity validity m budget = (Inr (Some jar), left)) \<Longrightarrow>
   record_wf jar \<and> jr_key jar = ji_key identity \<and> jr_classifier jar = ji_classifier identity \<and>
   jr_relative_path jar = ji_relative_path identity \<and> jr_path jar = p \<and>
   (restore decode limits payload p identity validity m budget = (Inr (Some jar), left) \<longrightarrow>
     (\<exists>stored. decode payload = Some stored \<and> st_context stored = new_context limits p identity m \<and>
       st_validity stored = validity))"
  (is "?load \<or> ?restore \<Longrightarrow> ?wf \<and> ?stored")
proof -
  assume cases: "?load \<or> ?restore"
  have restored: "?wf \<and> ?stored" if ?restore
  proof -
    from that obtain stored where s: "decode payload = Some stored" "validate stored = Some stored"
      "st_context stored = new_context limits p identity m" "st_validity stored = validity"
      and jar: "jar = into_record stored p identity"
      by (auto simp: restore_def validate_def bind_eq_Some_conv split: option.splits if_splits prod.splits sum.splits)
    have "facts_in_range (length (st_fact_strings stored)) (restore_class_facts f)"
      if "stored_in_range (length (st_fact_strings stored)) f" for f
    proof -
      have "store_class_facts (restore_class_facts f) = f"
        using that by (cases f) (auto simp: stored_in_range_def store_class_facts_def restore_class_facts_def
          Let_def list_all_iff fact_id_same fact_id_option comp_def intro!: map_idI)
      then show ?thesis using that stored_in_range_iff [of _ "restore_class_facts f"] by simp
    qed
    then have "record_wf jar" using s(2) unfolding jar
      by (auto simp: record_wf_def into_record_def Let_def validate_def list_all_iff split: if_splits)
    then show ?thesis using s jar by (auto simp: into_record_def Let_def)
  qed
  show "?wf \<and> ?stored"
  proof (cases ?restore)
    case True
    then show ?thesis by (rule restored)
  next
    case False
    with cases have ?load by blast
    then show ?thesis using load_jar_record_wf False by blast
  qed
qed

theorem index_records_well_formed_witness:
  "record_wf (sample_jar \<lparr> jr_fact_strings := [], jr_class_facts := [] \<rparr>)"
proof -
  let ?jar = "sample_jar \<lparr> jr_fact_strings := [], jr_class_facts := [] \<rparr>"
  have "read_jar_index_from (Some [lit ''p/A.class'']) (\<lambda>_. None) =
      Some \<lparr> jx_classes = [lit ''p.A''], jx_entries = [lit ''p/A.class''],
        jx_class_entries = [(lit ''p/A.class'', lit ''p/A.class'')], jx_multi_release = False \<rparr>"
  proof -
    have "\<not> read_multi_release_flag (\<lambda>_. None) [lit ''p/A.class'']"
      by (simp add: read_multi_release_flag_def split: option.split)
    then show ?thesis by (simp add: read_jar_index_from_def Let_def sample_entries del: lit.simps)
  qed
  then have "load_jar_record (\<lambda>_. None) (read_jar_index_from (Some [lit ''p/A.class'']) (\<lambda>_. None)) None (\<lambda>_. False)
      [lit ''a-1.jar''] sample_identity 8 = Some (Some ?jar)"
    by (simp add: load_jar_record_def collect_jar_facts_def sample_identity_def sample_jar_def documented_classifier_def)
  from index_records_well_formed [OF disjI1, OF this, of "\<lambda>_. None" sample_limits "[]" "[]" ] show ?thesis
    by blast
qed

end
