(* ===== verification/Class_Index.thy ===== *)
theory Class_Index
  imports Persisted_Records "HOL-Library.AList" "HOL-Library.Multiset"
begin

text \<open>
  The class index of a repository or a project (\<open>src/src/index.rs\<close>, \<open>MavenIndex\<close>): building it from
  JARs under the archive budget, its statistics, and the searches that need no archive.

  A hash map is an association list with distinct keys, built with \<open>AList.update\<close> and
  \<open>AList.map_default\<close> (\<open>push_entry\<close>); the order of its entries never reaches a result.  Everything read from outside
  while an index is built is a record of functions from paths, \<open>jar_source\<close>.  \<open>str::to_lowercase\<close> is a
  parameter \<open>lower\<close>.  A fact string of a record is looked up with \<open>fact_text\<close>: the records of an index
  are well formed (theorem \<open>index_records_well_formed\<close>), so the panic of a missing text cannot happen.
\<close>

section \<open>State\<close>

text \<open>The value of a map entry, or the empty default.\<close>

definition opt_list :: "'a list option \<Rightarrow> 'a list" where
  "opt_list xs = (case xs of None \<Rightarrow> [] | Some ys \<Rightarrow> ys)"

lemma opt_list_simps [simp]: "opt_list None = []" "opt_list (Some xs) = xs"
  by (simp_all add: opt_list_def)

text \<open>\<open>entry(key).or_default().push(value)\<close>.\<close>

definition push_entry :: "'k \<Rightarrow> 'v \<Rightarrow> ('k \<times> 'v list) list \<Rightarrow> ('k \<times> 'v list) list" where
  "push_entry k v = AList.map_default k [v] (\<lambda>vs. vs @ [v])"

definition fact_text :: "JarRecord \<Rightarrow> FactStringId \<Rightarrow> str" where
  "fact_text jar n = (case fact_string jar n of Some v \<Rightarrow> v | None \<Rightarrow> [])"

record HierarchyEdge =
  he_jar :: nat
  he_class :: nat
  he_parent :: nat

record MavenIndex =
  mx_root :: path
  mx_jars :: "JarRecord list"
  mx_source_jars :: "(ArtifactKey \<times> (str option \<times> nat) list) list"
  mx_class_locations :: "(str \<times> nat list) list"
  mx_children_by_parent :: "(str \<times> HierarchyEdge list) list"
  mx_artifacts :: "((str \<times> str) \<times> str list) list"
  mx_max_results :: nat
  mx_max_source_bytes :: nat

section \<open>The hierarchy\<close>

text \<open>Every child-to-parent fact in JAR, class and parent order, and what it says.\<close>

definition jar_edges :: "nat \<Rightarrow> JarRecord \<Rightarrow> HierarchyEdge list" where
  "jar_edges j jar =
     concat (map (\<lambda>(c, facts). map (\<lambda>p. \<lparr> he_jar = j, he_class = c, he_parent = p \<rparr>) [0..<length (cf_parents facts)])
       (enumerate 0 (jr_class_facts jar)))"

definition all_edges :: "JarRecord list \<Rightarrow> HierarchyEdge list" where
  "all_edges jars = concat (map (\<lambda>(j, jar). jar_edges j jar) (enumerate 0 jars))"

definition edge_facts :: "JarRecord list \<Rightarrow> HierarchyEdge \<Rightarrow> IndexedClassFacts" where
  "edge_facts jars e = jr_class_facts (jars ! he_jar e) ! he_class e"

definition edge_child :: "JarRecord list \<Rightarrow> HierarchyEdge \<Rightarrow> str" where
  "edge_child jars e = fact_text (jars ! he_jar e) (cf_source_class (edge_facts jars e))"

definition edge_parent :: "JarRecord list \<Rightarrow> HierarchyEdge \<Rightarrow> str" where
  "edge_parent jars e = fact_text (jars ! he_jar e) (itp_parent (cf_parents (edge_facts jars e) ! he_parent e))"

definition edge_relation :: "JarRecord list \<Rightarrow> HierarchyEdge \<Rightarrow> TypeRelation" where
  "edge_relation jars e = itp_relation (cf_parents (edge_facts jars e) ! he_parent e)"

definition edge_sort_key :: "JarRecord list \<Rightarrow> HierarchyEdge \<Rightarrow> str \<times> str \<times> TypeRelation" where
  "edge_sort_key jars e = (edge_child jars e, jr_relative_path (jars ! he_jar e), edge_relation jars e)"

definition build_children_by_parent :: "JarRecord list \<Rightarrow> (str \<times> HierarchyEdge list) list" where
  "build_children_by_parent jars =
     map (\<lambda>(parent, edges). (parent, sort_key (edge_sort_key jars) edges))
       (fold (\<lambda>e children. push_entry (to_ascii_lowercase (edge_parent jars e)) e children)
         (all_edges jars) [])"

section \<open>Building\<close>

definition empty_index :: "path \<Rightarrow> nat \<Rightarrow> nat \<Rightarrow> MavenIndex" where
  "empty_index root max_results max_source_bytes =
     \<lparr> mx_root = root, mx_jars = [], mx_source_jars = [], mx_class_locations = [], mx_children_by_parent = [],
       mx_artifacts = [], mx_max_results = max_results, mx_max_source_bytes = max_source_bytes \<rparr>"

definition add_location :: "(str \<Rightarrow> str) \<Rightarrow> nat \<Rightarrow> str \<Rightarrow> (str \<times> nat list) list \<Rightarrow> (str \<times> nat list) list" where
  "add_location lower i class_name = push_entry (lower class_name) i"

definition add_record :: "(str \<Rightarrow> str) \<Rightarrow> JarRecord \<Rightarrow> MavenIndex \<Rightarrow> MavenIndex" where
  "add_record lower jar idx =
     (let key = jr_key jar;
          jar_index = length (mx_jars idx);
          artifact = (ak_group_id key, ak_artifact_id key);
          versions = opt_list (map_of (mx_artifacts idx) artifact);
          idx = idx \<lparr> mx_artifacts := bt_insert artifact (insort_insert (ak_version key) versions) (mx_artifacts idx) \<rparr>;
          idx = (case documented_classifier (jr_classifier jar) of
                   Some documented \<Rightarrow>
                     idx \<lparr> mx_source_jars :=
                       AList.map_default key [(documented, jar_index)] (AList.update documented jar_index) (mx_source_jars idx) \<rparr>
                 | None \<Rightarrow>
                     idx \<lparr> mx_class_locations := fold (add_location lower jar_index) (jr_classes jar) (mx_class_locations idx) \<rparr>)
      in idx \<lparr> mx_jars := mx_jars idx @ [jar] \<rparr>)"

definition index_of_records :: "(str \<Rightarrow> str) \<Rightarrow> path \<Rightarrow> nat \<Rightarrow> nat \<Rightarrow> JarRecord list \<Rightarrow> MavenIndex" where
  "index_of_records lower root max_results max_source_bytes records =
     (let idx = fold (add_record lower) records (empty_index root max_results max_source_bytes)
      in idx \<lparr> mx_children_by_parent := build_children_by_parent (mx_jars idx) \<rparr>)"

text \<open>
  What a build reads from outside, by path: cancellation polls, file kind, bytes and walk of the
  preflight, stamps, names, manifest and entries of the archive, the polls inside it, the clock; the
  class file parser and the libraries of the payload codec.
\<close>

record jar_source =
  bs_cancelled :: "nat \<Rightarrow> bool"
  bs_is_dir :: "path \<Rightarrow> bool"
  bs_file :: "path \<Rightarrow> bytes option"
  bs_walk :: "path \<Rightarrow> walk_entry list"
  bs_stamps :: "path \<Rightarrow> validity_stamp option list"
  bs_names :: "path \<Rightarrow> str list option"
  bs_manifest :: "path \<Rightarrow> str \<Rightarrow> str option"
  bs_archive :: "path \<Rightarrow> archive option"
  bs_polls :: "path \<Rightarrow> nat \<Rightarrow> bool"
  bs_now :: "path \<Rightarrow> nat \<Rightarrow> nat"
  bs_parse :: class_parser
  bs_codec :: "StoredRecord codec_library"

record RecordReuse =
  ru_reused :: "path list"
  ru_built :: nat
  ru_persistable :: "(path \<times> bytes) list"

datatype build_error = Build_Cancelled | Build_Limit archive_error

type_synonym build_state = "ArchiveBudget \<times> JarRecord list \<times> RecordReuse"

definition preflight_path :: "jar_source \<Rightarrow> path \<Rightarrow> ArchiveBudget \<Rightarrow> (archive_error + unit) \<times> ArchiveBudget" where
  "preflight_path src p budget =
     (if bs_is_dir src p then preflight_directory (bs_walk src p) budget
      else case bs_file src p of
             None \<Rightarrow> (Inl (Malformed (lit ''cannot open'')), budget)
           | Some bytes \<Rightarrow> preflight_archive bytes budget)"

definition load_path :: "jar_source \<Rightarrow> path \<Rightarrow> JarIdentity \<Rightarrow> nat \<Rightarrow> JarRecord option option" where
  "load_path src p identity max_source_bytes =
     load_jar_record (bs_parse src) (read_jar_index_from (bs_names src p) (bs_manifest src p)) (bs_archive src p)
       (bs_polls src p) p identity max_source_bytes"

text \<open>One JAR that is not restored: preflight, read, and encode when records are persisted.  The outer
  \<open>None\<close> is the panic of the fact pool.\<close>

definition build_fresh ::
  "jar_source \<Rightarrow> resource_limits \<Rightarrow> nat \<Rightarrow> validity_stamp list option \<Rightarrow> path \<Rightarrow> JarIdentity \<Rightarrow> build_state \<Rightarrow>
     (build_error + build_state) option" where
  "build_fresh src limits max_source_bytes validity p identity = (\<lambda>(before, records, reuse).
     case preflight_path src p before of
       (Inl (ArchiveLimit what), _) \<Rightarrow> Some (Inl (Build_Limit (ArchiveLimit what)))
     | (Inl (Malformed _), budget) \<Rightarrow> Some (Inr (budget, records, reuse))
     | (Inr _, budget) \<Rightarrow>
         map_option (\<lambda>loaded. Inr
           (case loaded of
              None \<Rightarrow> (budget, records, reuse)
            | Some jar \<Rightarrow>
                (budget, records @ [jar],
                 (case validity of
                    None \<Rightarrow> reuse
                  | Some v \<Rightarrow>
                      reuse \<lparr> ru_built := ru_built reuse + 1,
                        ru_persistable := ru_persistable reuse @
                          (case persistable (encode_payload (bs_codec src)) limits (bs_now src p) jar v
                                  (charge_between before budget) max_source_bytes of
                             None \<Rightarrow> [] | Some r \<Rightarrow> [r]) \<rparr>))))
         (load_path src p identity max_source_bytes))"

definition build_step ::
  "jar_source \<Rightarrow> resource_limits \<Rightarrow> nat \<Rightarrow> (path \<Rightarrow> bytes option) option \<Rightarrow> path \<Rightarrow> JarIdentity \<Rightarrow> build_state \<Rightarrow>
     (build_error + build_state) option" where
  "build_step src limits max_source_bytes persisted p identity = (\<lambda>(budget, records, reuse).
     let validity = persisted \<bind> (\<lambda>_. capture_validity limits (bs_stamps src p));
         restored = (case (persisted \<bind> (\<lambda>load. load p), validity) of
                       (Some stored, Some v) \<Rightarrow>
                         restore (decode_payload (bs_codec src)) limits stored p identity v max_source_bytes budget
                     | _ \<Rightarrow> (Inr None, budget))
     in case restored of
          (Inl e, _) \<Rightarrow> Some (Inl (Build_Limit e))
        | (Inr (Some jar), budget) \<Rightarrow> Some (Inr (budget, records @ [jar], reuse \<lparr> ru_reused := ru_reused reuse @ [p] \<rparr>))
        | (Inr None, budget) \<Rightarrow> build_fresh src limits max_source_bytes validity p identity (budget, records, reuse))"

fun build_loop ::
  "jar_source \<Rightarrow> resource_limits \<Rightarrow> nat \<Rightarrow> (path \<Rightarrow> bytes option) option \<Rightarrow> nat \<Rightarrow> (path \<times> JarIdentity) list \<Rightarrow>
     build_state \<Rightarrow> (build_error + build_state) option" where
  "build_loop src limits max_source_bytes persisted i [] st = Some (Inr st)"
| "build_loop src limits max_source_bytes persisted i ((p, identity) # jars) st =
     (if bs_cancelled src i then Some (Inl Build_Cancelled)
      else case build_step src limits max_source_bytes persisted p identity st of
             None \<Rightarrow> None
           | Some (Inl e) \<Rightarrow> Some (Inl e)
           | Some (Inr st) \<Rightarrow> build_loop src limits max_source_bytes persisted (Suc i) jars st)"

definition build_from_jars ::
  "jar_source \<Rightarrow> (str \<Rightarrow> str) \<Rightarrow> resource_limits \<Rightarrow> path \<Rightarrow> (path \<times> JarIdentity) list \<Rightarrow> nat \<Rightarrow> nat \<Rightarrow>
     (path \<Rightarrow> bytes option) option \<Rightarrow> (build_error + MavenIndex \<times> RecordReuse) option" where
  "build_from_jars src lower limits root jars max_results max_source_bytes persisted =
     (let jars = sort_key fst jars
      in map_option (\<lambda>r. case r of
             Inl e \<Rightarrow> Inl e
           | Inr (_, records, reuse) \<Rightarrow>
               let records = sort_key jr_relative_path records
               in if bs_cancelled src (length jars) then Inl Build_Cancelled
                  else Inr (index_of_records lower root max_results max_source_bytes records, reuse))
         (build_loop src limits max_source_bytes persisted 0 jars
            (configured_budget limits, [], \<lparr> ru_reused = [], ru_built = 0, ru_persistable = [] \<rparr>)))"

section \<open>Statistics and selection\<close>

record IndexStats =
  is_jar_count :: nat
  is_source_jar_count :: nat
  is_class_count :: nat
  is_unique_class_count :: nat
  is_artifact_count :: nat

definition source_jar_count :: "MavenIndex \<Rightarrow> nat" where
  "source_jar_count idx = sum_list (map (\<lambda>(_, by_classifier). length by_classifier) (mx_source_jars idx))"

definition index_stats :: "MavenIndex \<Rightarrow> IndexStats" where
  "index_stats idx =
     \<lparr> is_jar_count = length (mx_jars idx) - source_jar_count idx, is_source_jar_count = source_jar_count idx,
       is_class_count = sum_list (map (\<lambda>jar. length (jr_classes jar)) (filter (\<lambda>jar. \<not> is_source jar) (mx_jars idx))),
       is_unique_class_count = length (mx_class_locations idx), is_artifact_count = length (mx_artifacts idx) \<rparr>"

text \<open>\<open>clamp(1, max_results)\<close> panics when the maximum is zero, which no accepted configuration has.\<close>

definition limit_of :: "MavenIndex \<Rightarrow> nat option \<Rightarrow> nat option" where
  "limit_of idx requested =
     (if mx_max_results idx < 1 then None
      else Some (max 1 (min (case requested of None \<Rightarrow> mx_max_results idx | Some n \<Rightarrow> n) (mx_max_results idx))))"

definition selected_by :: "str option \<Rightarrow> JarRecord \<Rightarrow> bool" where
  "selected_by selector jar \<longleftrightarrow> (case selector of None \<Rightarrow> True | Some s \<Rightarrow> matches_selector jar s)"

definition selected_jars :: "MavenIndex \<Rightarrow> str option \<Rightarrow> JarRecord list" where
  "selected_jars idx selector = filter (selected_by selector) (mx_jars idx)"

definition source_jar_of :: "MavenIndex \<Rightarrow> JarRecord \<Rightarrow> nat option" where
  "source_jar_of idx jar =
     (case map_of (mx_source_jars idx) (jr_key jar) of
        None \<Rightarrow> None
      | Some by_classifier \<Rightarrow>
          let exact = map_of by_classifier (jr_classifier jar)
          in if jr_classifier jar = None \<or> jr_classifier jar = Some TESTS_CLASSIFIER then exact
             else (case exact of Some i \<Rightarrow> Some i | None \<Rightarrow> map_of by_classifier None))"

definition source_matches_selector :: "MavenIndex \<Rightarrow> nat \<Rightarrow> JarRecord \<Rightarrow> str option \<Rightarrow> bool" where
  "source_matches_selector idx source_index source_jar selector \<longleftrightarrow>
     (case selector of
        None \<Rightarrow> True
      | Some s \<Rightarrow>
          matches_selector source_jar s \<or>
          list_ex (\<lambda>jar. jr_key jar = jr_key source_jar \<and> \<not> is_source jar \<and> matches_selector jar s \<and>
            source_jar_of idx jar = Some source_index) (mx_jars idx))"

section \<open>Searches\<close>

record ClassLocation =
  cl_class_name :: str
  cl_jar :: JarSummary

definition class_rank :: "str \<Rightarrow> str \<Rightarrow> nat \<times> nat \<times> str" where
  "class_rank query name = (if name = query then 0 else 1, str_len name, name)"

definition class_location :: "MavenIndex \<Rightarrow> str \<Rightarrow> nat \<Rightarrow> ClassLocation" where
  "class_location idx name i =
     (let jar = mx_jars idx ! i
      in \<lparr> cl_class_name = (case find (\<lambda>c. eq_ignore_ascii_case c name) (jr_classes jar) of None \<Rightarrow> name | Some c \<Rightarrow> c),
           cl_jar = summary jar \<rparr>)"

definition search_classes :: "(str \<Rightarrow> str) \<Rightarrow> MavenIndex \<Rightarrow> str \<Rightarrow> nat option \<Rightarrow> ClassLocation list option" where
  "search_classes lower idx query requested =
     (let query = lower (trim query)
      in if query = [] then Some []
         else map_option (\<lambda>limit.
             let names = sort_key (class_rank query) (filter (contains query) (map fst (mx_class_locations idx)))
             in take limit (concat (map (\<lambda>name.
                  map (class_location idx name) (opt_list (map_of (mx_class_locations idx) name))) names)))
           (limit_of idx requested))"

definition search_jars :: "(str \<Rightarrow> str) \<Rightarrow> MavenIndex \<Rightarrow> str \<Rightarrow> nat option \<Rightarrow> JarSummary list option" where
  "search_jars lower idx query requested =
     (let query = lower (trim query)
      in if query = [] then Some []
         else map_option (\<lambda>limit.
             map summary (take limit (filter (\<lambda>jar.
               contains query (lower (coordinate jar)) \<or> contains query (lower (jr_relative_path jar))) (mx_jars idx))))
           (limit_of idx requested))"

record EntryMatch =
  em_entry :: str
  em_jar :: JarSummary

definition search_entries ::
  "(str \<Rightarrow> str) \<Rightarrow> MavenIndex \<Rightarrow> str \<Rightarrow> str option \<Rightarrow> nat option \<Rightarrow> EntryMatch list option" where
  "search_entries lower idx query selector requested =
     (let query = lower (trim query)
      in if query = [] then Some []
         else map_option (\<lambda>limit.
             take limit (concat (map (\<lambda>jar.
               map (\<lambda>entry. \<lparr> em_entry = entry, em_jar = summary jar \<rparr>)
                 (filter (\<lambda>entry. contains query (lower entry)) (jr_entries jar))) (selected_jars idx selector))))
           (limit_of idx requested))"

record ClassList =
  cs_jar :: JarSummary
  cs_total :: nat
  cs_offset :: nat
  cs_classes :: "str list"

definition list_classes :: "MavenIndex \<Rightarrow> str \<Rightarrow> nat \<Rightarrow> nat option \<Rightarrow> ClassList list option" where
  "list_classes idx selector offset requested =
     map_option (\<lambda>limit.
         map (\<lambda>jar. \<lparr> cs_jar = summary jar, cs_total = length (jr_classes jar), cs_offset = offset,
                      cs_classes = take limit (drop offset (jr_classes jar)) \<rparr>)
           (filter (\<lambda>jar. \<not> is_source jar) (selected_jars idx (Some selector))))
       (limit_of idx requested)"

definition artifact_versions :: "MavenIndex \<Rightarrow> str \<Rightarrow> str option \<Rightarrow> (str \<times> str list) list" where
  "artifact_versions idx artifact_id group_id =
     (let artifact_id = trim artifact_id
      in fold (\<lambda>((group, artifact), versions) m. bt_insert (group @ lit '':'' @ artifact) versions m)
           (filter (\<lambda>((group, artifact), _). eq_ignore_ascii_case artifact artifact_id \<and>
              (case group_id of None \<Rightarrow> True | Some expected \<Rightarrow> eq_ignore_ascii_case group (trim expected)))
             (mx_artifacts idx)) [])"

definition target_artifacts :: "(str \<Rightarrow> str) \<Rightarrow> MavenIndex \<Rightarrow> str \<Rightarrow> str list" where
  "target_artifacts lower idx class_name =
     sort (remdups (map (\<lambda>i. coordinate (mx_jars idx ! i))
       (opt_list (map_of (mx_class_locations idx) (lower class_name)))))"

section \<open>What the maps of an index hold\<close>

lemma map_of_push_entry: "opt_list (map_of (push_entry k v m) k') = opt_list (map_of m k') @ (if k' = k then [v] else [])"
  by (simp add: push_entry_def map_of_map_default split: option.split)

lemma push_entry_None: "map_of (push_entry k v m) k' = None \<longleftrightarrow> map_of m k' = None \<and> k' \<noteq> k"
  by (simp add: push_entry_def map_of_map_default split: option.split)

lemma distinct_push_entry: "distinct (map fst m) \<Longrightarrow> distinct (map fst (push_entry k v m))"
  by (simp add: push_entry_def distinct_map_default)

text \<open>Grouping a list by a key with \<open>push_entry\<close>.\<close>

lemma group_entries:
  "opt_list (map_of (fold (\<lambda>x. push_entry (k x) (v x)) xs m) key) =
     opt_list (map_of m key) @ map v (filter (\<lambda>x. k x = key) xs)"
  by (induction xs arbitrary: m) (auto simp: map_of_push_entry)

lemma group_entries_None:
  "map_of (fold (\<lambda>x. push_entry (k x) (v x)) xs m) key = None \<longleftrightarrow>
     map_of m key = None \<and> filter (\<lambda>x. k x = key) xs = []"
  by (induction xs arbitrary: m) (auto simp: push_entry_None)

lemma distinct_group_entries:
  "distinct (map fst m) \<Longrightarrow> distinct (map fst (fold (\<lambda>x. push_entry (k x) (v x)) xs m))"
  by (induction xs arbitrary: m) (auto simp: distinct_push_entry)

definition index_records :: "(str \<Rightarrow> str) \<Rightarrow> path \<Rightarrow> nat \<Rightarrow> nat \<Rightarrow> JarRecord list \<Rightarrow> MavenIndex" where
  "index_records lower root m n records = fold (add_record lower) records (empty_index root m n)"

lemma index_records_snoc:
  "index_records lower root m n (records @ [jar]) = add_record lower jar (index_records lower root m n records)"
  by (simp add: index_records_def)

lemma add_record_fields:
  "mx_jars (add_record lower jar idx) = mx_jars idx @ [jar]"
  "mx_class_locations (add_record lower jar idx) =
     (if is_source jar then mx_class_locations idx
      else fold (\<lambda>c. push_entry (lower c) (length (mx_jars idx))) (jr_classes jar) (mx_class_locations idx))"
  "mx_source_jars (add_record lower jar idx) =
     (case documented_classifier (jr_classifier jar) of
        None \<Rightarrow> mx_source_jars idx
      | Some d \<Rightarrow> AList.map_default (jr_key jar) [(d, length (mx_jars idx))]
                   (AList.update d (length (mx_jars idx))) (mx_source_jars idx))"
  "mx_max_results (add_record lower jar idx) = mx_max_results idx"
  by (auto simp: add_record_def Let_def is_source_def add_location_def [abs_def] split: option.split)

lemma mx_jars_index_records [simp]: "mx_jars (index_records lower root m n records) = records"
proof (induction records rule: rev_induct)
  case Nil
  then show ?case by (simp add: index_records_def empty_index_def)
next
  case (snoc jar records)
  then show ?case by (simp add: index_records_snoc add_record_fields)
qed

text \<open>The binary JARs with a class of a given lower-cased name, once per such class.\<close>

definition class_jars :: "(str \<Rightarrow> str) \<Rightarrow> JarRecord list \<Rightarrow> str \<Rightarrow> nat list" where
  "class_jars lower records name =
     concat (map (\<lambda>(i, jar). if is_source jar then []
                            else map (\<lambda>_. i) (filter (\<lambda>c. lower c = name) (jr_classes jar))) (enumerate 0 records))"

lemma class_jars_snoc:
  "class_jars lower (records @ [jar]) name =
     class_jars lower records name @
     (if is_source jar then [] else map (\<lambda>_. length records) (filter (\<lambda>c. lower c = name) (jr_classes jar)))"
  by (simp add: class_jars_def enumerate_append_eq)

lemma class_locations_spec:
  "opt_list (map_of (mx_class_locations (index_records lower root m n records)) name) = class_jars lower records name \<and>
   (map_of (mx_class_locations (index_records lower root m n records)) name = None \<longleftrightarrow> class_jars lower records name = []) \<and>
   distinct (map fst (mx_class_locations (index_records lower root m n records)))"
proof (induction records rule: rev_induct)
  case Nil
  then show ?case by (simp add: index_records_def empty_index_def class_jars_def)
next
  case (snoc jar records)
  then show ?case
    by (auto simp: index_records_snoc add_record_fields class_jars_snoc group_entries group_entries_None
      distinct_group_entries)
qed

text \<open>The last sources JAR of an artifact that documents a classifier.\<close>

definition last_source :: "JarRecord list \<Rightarrow> ArtifactKey \<Rightarrow> str option \<Rightarrow> nat option" where
  "last_source records key d =
     map_option fst (find (\<lambda>(_, jar). jr_key jar = key \<and> documented_classifier (jr_classifier jar) = Some d)
       (rev (enumerate 0 records)))"

lemma last_source_snoc:
  "last_source (records @ [jar]) key d =
     (if jr_key jar = key \<and> documented_classifier (jr_classifier jar) = Some d then Some (length records)
      else last_source records key d)"
  by (simp add: last_source_def enumerate_append_eq)

lemma source_jars_spec:
  "(case map_of (mx_source_jars (index_records lower root m n records)) key of
      None \<Rightarrow> None | Some by_classifier \<Rightarrow> map_of by_classifier d) = last_source records key d"
proof (induction records rule: rev_induct)
  case Nil
  then show ?case by (simp add: index_records_def empty_index_def last_source_def)
next
  case (snoc jar records)
  let ?m = "mx_source_jars (index_records lower root m n records)"
  show ?case
  proof (cases "documented_classifier (jr_classifier jar)")
    case None
    then show ?thesis using snoc.IH by (simp add: index_records_snoc add_record_fields last_source_snoc)
  next
    case (Some c)
    have "(case map_of (AList.map_default k [(c, i)] (AList.update c i) ?m) key of
          None \<Rightarrow> None | Some by_classifier \<Rightarrow> map_of by_classifier d) =
        (if key = k \<and> c = d then Some i
         else case map_of ?m key of None \<Rightarrow> None | Some by_classifier \<Rightarrow> map_of by_classifier d)" for k i
      by (cases "map_of ?m key") (auto simp: map_of_map_default update_conv')
    with Some snoc.IH show ?thesis
      by (auto simp: index_records_snoc add_record_fields last_source_snoc)
  qed
qed

lemma index_of_records_fields [simp]:
  "mx_jars (index_of_records lower root m n records) = records"
  "mx_class_locations (index_of_records lower root m n records) = mx_class_locations (index_records lower root m n records)"
  "mx_source_jars (index_of_records lower root m n records) = mx_source_jars (index_records lower root m n records)"
  "mx_children_by_parent (index_of_records lower root m n records) = build_children_by_parent records"
  by (simp_all add: index_of_records_def Let_def flip: index_records_def)

lemma mx_max_results_index_records [simp]: "mx_max_results (index_records lower root m n records) = m"
  by (induction records rule: rev_induct) (simp_all add: index_records_snoc add_record_fields index_records_def empty_index_def)

lemma mx_max_results_index_of_records [simp]: "mx_max_results (index_of_records lower root m n records) = m"
  using mx_max_results_index_records [of lower root m n records]
  by (simp add: index_of_records_def Let_def index_records_def)

lemma source_jar_of_spec:
  "source_jar_of (index_of_records lower root m n records) jar =
     (let exact = last_source records (jr_key jar) (jr_classifier jar)
      in if jr_classifier jar = None \<or> jr_classifier jar = Some TESTS_CLASSIFIER then exact
         else (case exact of Some i \<Rightarrow> Some i | None \<Rightarrow> last_source records (jr_key jar) None))"
  unfolding source_jars_spec [where lower = lower and root = root and m = m and n = n, symmetric]
  by (auto simp: source_jar_of_def Let_def split: option.split)

lemma last_source_Some:
  "last_source records key d = Some i \<Longrightarrow>
     i < length records \<and> jr_key (records ! i) = key \<and> documented_classifier (jr_classifier (records ! i)) = Some d"
proof (induction records arbitrary: i rule: rev_induct)
  case (snoc jar records)
  then show ?case by (auto simp: last_source_snoc nth_append split: if_splits)
qed (simp add: last_source_def)

lemma last_source_exists:
  "jar \<in> set records \<Longrightarrow> documented_classifier (jr_classifier jar) = Some d \<Longrightarrow>
     \<exists>i. last_source records (jr_key jar) d = Some i"
  by (induction records rule: rev_induct) (auto simp: last_source_snoc)

text \<open>
  Claim C17: source_jar_paired.  The index pairs a binary JAR with the sources JAR published beside it:
  when one of the candidate paths of a binary JAR of the repository layout is indexed, the index answers
  a sources JAR of the same coordinate, one that documents exactly the classifier of the binary if the
  first candidate is indexed, and otherwise at least the unclassified artifact.
\<close>

lemma source_jar_paired:
  assumes binary: "parse_coordinate root p = Some (jr_key jar, jr_classifier jar)"
      "\<not> ends_with (lit ''-sources'') (artifact_stem (jr_key jar) (jr_classifier jar))"
      "jr_classifier jar \<noteq> Some []" "jr_classifier jar \<noteq> Some (lit ''test'')"
    and candidate: "q \<in> set (source_jar_candidates p (jr_classifier jar))"
    and indexed: "src \<in> set records" "parse_coordinate root q = Some (jr_key src, jr_classifier src)"
  shows "\<exists>i<length records. source_jar_of (index_of_records lower r m n records) jar = Some i \<and>
    jr_key (records ! i) = jr_key jar \<and>
    documented_classifier (jr_classifier (records ! i)) \<in> {Some (jr_classifier jar), Some None} \<and>
    (q = hd (source_jar_candidates p (jr_classifier jar)) \<longrightarrow>
       documented_classifier (jr_classifier (records ! i)) = Some (jr_classifier jar))"
proof -
  let ?cl = "jr_classifier jar"
  let ?view = "\<lambda>q. map_option (\<lambda>(k, c). (k, documented_classifier c)) (parse_coordinate root q)"
  have views: "map ?view (source_jar_candidates p ?cl) = Some (jr_key jar, Some ?cl) #
      (if ?cl = None \<or> ?cl = Some TESTS_CLASSIFIER then [] else [Some (jr_key jar, Some None)])"
    by (rule candidates_documented [OF binary])
  have q: "?view q = Some (jr_key src, documented_classifier (jr_classifier src))" using indexed(2) by simp
  have "?view q \<in> set (map ?view (source_jar_candidates p ?cl))" using candidate by simp
  then have key: "jr_key src = jr_key jar"
    and doc: "documented_classifier (jr_classifier src) = Some ?cl \<or>
      documented_classifier (jr_classifier src) = Some None \<and> ?cl \<noteq> None \<and> ?cl \<noteq> Some TESTS_CLASSIFIER"
    unfolding views q by (auto split: if_splits)
  have first: "documented_classifier (jr_classifier src) = Some ?cl" if "q = hd (source_jar_candidates p ?cl)"
  proof -
    have "source_jar_candidates p ?cl \<noteq> []" using views by auto
    then have "?view q = hd (map ?view (source_jar_candidates p ?cl))" using that by (simp add: hd_map)
    then show ?thesis unfolding views q by simp
  qed
  show ?thesis
  proof (cases "last_source records (jr_key jar) ?cl")
    case (Some i)
    then have "source_jar_of (index_of_records lower r m n records) jar = Some i"
      by (simp add: source_jar_of_spec Let_def)
    then show ?thesis using last_source_Some [OF Some] by blast
  next
    case None
    then have "documented_classifier (jr_classifier src) \<noteq> Some ?cl"
      using last_source_exists [OF indexed(1), of ?cl] key by auto
    with doc have none: "documented_classifier (jr_classifier src) = Some None" "?cl \<noteq> None" "?cl \<noteq> Some TESTS_CLASSIFIER"
      by auto
    then obtain i where i: "last_source records (jr_key jar) None = Some i"
      using last_source_exists [OF indexed(1), of None] key by auto
    with None none have "source_jar_of (index_of_records lower r m n records) jar = Some i"
      by (simp add: source_jar_of_spec Let_def)
    then show ?thesis using last_source_Some [OF i] first \<open>documented_classifier (jr_classifier src) \<noteq> Some ?cl\<close> by blast
  qed
qed

section \<open>Class search\<close>

lemma in_enumerate: "(i, x) \<in> set (enumerate 0 xs) \<longleftrightarrow> i < length xs \<and> xs ! i = x"
  by (auto simp: in_set_enumerate_eq)

lemma in_class_jars:
  "i \<in> set (class_jars lower records name) \<longleftrightarrow>
     i < length records \<and> \<not> is_source (records ! i) \<and> (\<exists>c\<in>set (jr_classes (records ! i)). lower c = name)"
proof -
  have "i \<in> set (class_jars lower records name) \<longleftrightarrow>
      (\<exists>(j, jar)\<in>set (enumerate 0 records). \<not> is_source jar \<and> i = j \<and> (\<exists>c\<in>set (jr_classes jar). lower c = name))"
    unfolding class_jars_def by (fastforce split: if_splits)
  also have "\<dots> \<longleftrightarrow> (\<exists>jar. (i, jar) \<in> set (enumerate 0 records) \<and> \<not> is_source jar \<and> (\<exists>c\<in>set (jr_classes jar). lower c = name))"
    by blast
  finally show ?thesis unfolding in_enumerate by blast
qed

lemma class_location_keys:
  "name \<in> set (map fst (mx_class_locations (index_records lower root m n records))) \<longleftrightarrow> class_jars lower records name \<noteq> []"
  using class_locations_spec [of lower root m n records name] by (metis map_of_eq_None_iff set_map)

definition indexed_class :: "JarRecord list \<Rightarrow> nat \<Rightarrow> str \<Rightarrow> bool" where
  "indexed_class records i c \<longleftrightarrow> i < length records \<and> \<not> is_source (records ! i) \<and> c \<in> set (jr_classes (records ! i))"

lemma limit_of_Some: "limit_of idx requested = Some l \<Longrightarrow> 1 \<le> l \<and> l \<le> mx_max_results idx"
  by (auto simp: limit_of_def split: if_splits)

lemma sorted_hd_le: "sorted xs \<Longrightarrow> x \<in> set xs \<Longrightarrow> hd xs \<le> x"
  by (cases xs) auto

text \<open>A stable sort by an injective rank of a key lists the groups of the keys in the order of their ranks.\<close>

lemma filter_groups:
  "distinct ns \<Longrightarrow> filter (\<lambda>x. k x = n) (concat (map (\<lambda>m. filter (\<lambda>x. k x = m) xs) ns)) =
     (if n \<in> set ns then filter (\<lambda>x. k x = n) xs else [])"
proof (induction ns)
  case (Cons m ns)
  have "filter (\<lambda>x. k x = n) (filter (\<lambda>x. k x = m) xs) = (if m = n then filter (\<lambda>x. k x = n) xs else [])"
    by (auto simp: filter_empty_conv conj_commute cong: conj_cong)
  then show ?case using Cons by auto
qed simp

lemma sorted_groups:
  fixes f :: "'k \<Rightarrow> 'r::linorder"
  shows "sorted (map f ns) \<Longrightarrow> sorted (map (\<lambda>x. f (k x)) (concat (map (\<lambda>m. filter (\<lambda>x. k x = m) xs) ns)))"
proof (induction ns)
  case (Cons m ns)
  have "sorted (map (\<lambda>x. f (k x)) (filter (\<lambda>x. k x = m) xs))"
    by (induction xs) auto
  moreover have "f (k x) \<le> f (k y)"
    if "x \<in> set (filter (\<lambda>x. k x = m) xs)" "y \<in> set (concat (map (\<lambda>m. filter (\<lambda>x. k x = m) xs) ns))" for x y
    using that Cons.prems by auto
  ultimately show ?case using Cons by (simp add: sorted_append del: filter_concat)
qed simp

lemma sort_key_groups:
  fixes f :: "'k \<Rightarrow> 'r::linorder" and xs :: "'a list"
  assumes inj: "inj f" and ns: "distinct ns" "k ` set xs \<subseteq> set ns"
  shows "sort_key (\<lambda>x. f (k x)) xs = concat (map (\<lambda>n. filter (\<lambda>x. k x = n) xs) (sort_key f ns))"
proof -
  define ys where "ys = concat (map (\<lambda>n. filter (\<lambda>x. k x = n) xs) (sort_key f ns))"
  have groups: "filter (\<lambda>x. k x = n) ys = filter (\<lambda>x. k x = n) xs" for n
  proof -
    have "n \<notin> set ns \<Longrightarrow> filter (\<lambda>x. k x = n) xs = []" using ns(2) by (auto simp: filter_empty_conv)
    then show ?thesis using filter_groups [of "sort_key f ns" k n xs] ns(1) by (auto simp: ys_def)
  qed
  have part: "count (mset zs) y = count (mset (filter (\<lambda>x. k x = k y) zs)) y" for zs and y :: 'a
    by (simp add: mset_filter)
  have "mset ys = mset xs"
  proof (rule multiset_eqI)
    fix y show "count (mset ys) y = count (mset xs) y" using part [of ys y] part [of xs y] groups [of "k y"] by (simp only:)
  qed
  moreover have same: "(\<lambda>x. f (k a) = f (k x)) = (\<lambda>x. k x = k a)" for a using inj by (auto dest: injD simp: fun_eq_iff)
  moreover have "sorted (map (\<lambda>x. f (k x)) ys)" unfolding ys_def by (rule sorted_groups) simp
  ultimately show ?thesis unfolding ys_def [symmetric] using groups by (intro properties_for_sort_key) (simp_all add: same)
qed

text \<open>
  What a class search is about: the classes of the binary JARs, each with the index of its JAR, in the order
  of the index; those whose lower-cased name contains the query, an exact match first, then the shorter
  names, then by name.
\<close>

definition class_occurrences :: "JarRecord list \<Rightarrow> (nat \<times> str) list" where
  "class_occurrences records =
     concat (map (\<lambda>(i, jar). if is_source jar then [] else map (Pair i) (jr_classes jar)) (enumerate 0 records))"

lemma class_jars_occurrences:
  "class_jars lower records name = map fst (filter (\<lambda>(i, c). lower c = name) (class_occurrences records))"
proof -
  have "(\<lambda>(i, jar). if is_source jar then [] else map (\<lambda>_. i) (filter (\<lambda>c. lower c = name) (jr_classes jar))) =
      (\<lambda>p. map fst (filter (\<lambda>(i, c). lower c = name)
        (case p of (i, jar) \<Rightarrow> if is_source jar then [] else map (Pair i) (jr_classes jar))))"
    by (auto simp: fun_eq_iff filter_map comp_def)
  then show ?thesis unfolding class_jars_def class_occurrences_def filter_concat map_concat map_map comp_def
    by (rule arg_cong)
qed

lemma in_class_occurrences: "(i, c) \<in> set (class_occurrences records) \<longleftrightarrow> indexed_class records i c"
  by (force simp: class_occurrences_def indexed_class_def in_enumerate split: if_splits)

definition ranked_classes :: "(str \<Rightarrow> str) \<Rightarrow> JarRecord list \<Rightarrow> str \<Rightarrow> (nat \<times> str) list" where
  "ranked_classes lower records q =
     sort_key (\<lambda>(i, c). (if lower c = q then 0 else 1 :: nat, str_len (lower c), lower c))
       (filter (\<lambda>(i, c). contains q (lower c)) (class_occurrences records))"

lemma ranked_classes_names:
  fixes lower records root m n
  defines "idx \<equiv> index_of_records lower root m n records"
  shows "concat (map (\<lambda>name. map (class_location idx name) (opt_list (map_of (mx_class_locations idx) name)))
      (sort_key (class_rank q) (filter (contains q) (map fst (mx_class_locations idx))))) =
    map (\<lambda>(i, c). class_location idx (lower c) i) (ranked_classes lower records q)"
proof -
  let ?k = "\<lambda>(i :: nat, c). lower c"
  let ?occ = "class_occurrences records"
  let ?ns = "filter (contains q) (map fst (mx_class_locations idx))"
  let ?xs = "filter (\<lambda>(i, c). contains q (lower c)) ?occ"
  have keys: "name \<in> set ?ns \<longleftrightarrow> contains q name \<and> class_jars lower records name \<noteq> []" for name
    using class_location_keys [of name lower root m n records] by (auto simp: idx_def)
  have "distinct ?ns" using class_locations_spec [of lower root m n records] by (simp add: idx_def)
  moreover have "?k ` set ?xs \<subseteq> set ?ns"
  proof
    fix name assume "name \<in> ?k ` set ?xs"
    then obtain i c where "(i, c) \<in> set ?occ" "contains q name" "lower c = name" by auto
    then show "name \<in> set ?ns" unfolding keys class_jars_occurrences by (auto simp: filter_empty_conv)
  qed
  moreover have "inj (class_rank q)" by (rule injI) (simp add: class_rank_def)
  ultimately have "sort_key (\<lambda>x. class_rank q (?k x)) ?xs =
      concat (map (\<lambda>name. filter (\<lambda>x. ?k x = name) ?xs) (sort_key (class_rank q) ?ns))"
    by (rule sort_key_groups [of "class_rank q" ?ns ?k ?xs, rotated 1])
  moreover have "(\<lambda>x. class_rank q (?k x)) =
      (\<lambda>(i, c). (if lower c = q then 0 else 1, str_len (lower c), lower c))"
    by (auto simp: class_rank_def fun_eq_iff)
  ultimately have ranked: "ranked_classes lower records q =
      concat (map (\<lambda>name. filter (\<lambda>x. ?k x = name) ?xs) (sort_key (class_rank q) ?ns))"
    by (simp add: ranked_classes_def)
  have "map (\<lambda>(i, c). class_location idx (lower c) i) (filter (\<lambda>x. ?k x = name) ?xs) =
      map (class_location idx name) (opt_list (map_of (mx_class_locations idx) name))"
    if "name \<in> set (sort_key (class_rank q) ?ns)" for name
  proof -
    from that have "filter (\<lambda>x. ?k x = name) ?xs = filter (\<lambda>(i, c). lower c = name) ?occ"
      by (auto intro!: filter_cong)
    moreover have "opt_list (map_of (mx_class_locations idx) name) = map fst (filter (\<lambda>(i, c). lower c = name) ?occ)"
      using class_locations_spec [of lower root m n records name] by (simp add: idx_def class_jars_occurrences)
    ultimately show ?thesis by auto
  qed
  then show ?thesis unfolding ranked map_concat map_map comp_def
    by (intro arg_cong [where f = concat] map_cong refl) simp_all
qed

text \<open>
  The spelling of a class in an answer is looked up among the classes of its JAR up to ASCII case.  It is
  the class's own when no other class of the JAR is spelled like it up to ASCII case and lower-casing its
  name changes no other letter.
\<close>

definition spelled_apart :: "(str \<Rightarrow> str) \<Rightarrow> str list \<Rightarrow> bool" where
  "spelled_apart lower classes \<longleftrightarrow>
     (\<forall>c\<in>set classes. eq_ignore_ascii_case c (lower c) \<and>
        (\<forall>c'\<in>set classes. eq_ignore_ascii_case c' (lower c) \<longrightarrow> c' = c))"

lemma class_location_own:
  assumes "c \<in> set (jr_classes (mx_jars idx ! i))" "spelled_apart lower (jr_classes (mx_jars idx ! i))"
  shows "cl_class_name (class_location idx (lower c) i) = c"
proof -
  let ?cs = "jr_classes (mx_jars idx ! i)"
  have "find (\<lambda>c'. eq_ignore_ascii_case c' (lower c)) ?cs \<noteq> None"
    using assms by (auto simp: find_None_iff spelled_apart_def)
  then obtain c' where c': "find (\<lambda>c'. eq_ignore_ascii_case c' (lower c)) ?cs = Some c'" by blast
  then have "c' \<in> set ?cs" "eq_ignore_ascii_case c' (lower c)" by (auto simp: find_Some_iff)
  then have "c' = c" using assms unfolding spelled_apart_def by blast
  with c' show ?thesis by (simp add: class_location_def Let_def)
qed

text \<open>
  Claim C16: search_classes_correct.  With a maximum of at least one result, a class search with a query
  that is not blank returns.  Its results stand for the first classes, up to the limit (the requested one
  between 1 and the maximum), of the ranking: the classes of the binary JARs whose lower-cased name
  contains the lower-cased trimmed query, an exact match first, then shorter names, then by name, then in
  the order of the index.  Each result names the JAR of its class, and, where the classes of every JAR are
  spelled apart, its very class.
\<close>

theorem search_classes_correct:
  fixes lower records root m n query requested
  defines "q \<equiv> lower (trim query)"
    and "limit \<equiv> max 1 (min (case requested of None \<Rightarrow> m | Some r \<Rightarrow> r) m)"
  assumes "1 \<le> m" and "lower (trim query) \<noteq> []"
  shows "\<exists>results. search_classes lower (index_of_records lower root m n records) query requested = Some results \<and>
    map cl_jar results = map (\<lambda>(i, c). summary (records ! i)) (take limit (ranked_classes lower records q)) \<and>
    ((\<forall>jar\<in>set records. spelled_apart lower (jr_classes jar)) \<longrightarrow>
       map cl_class_name results = map snd (take limit (ranked_classes lower records q)))"
proof -
  let ?idx = "index_of_records lower root m n records"
  let ?ranked = "take limit (ranked_classes lower records q)"
  let ?results = "map (\<lambda>(i, c). class_location ?idx (lower c) i) ?ranked"
  have "limit_of ?idx requested = Some limit" using assms(3) by (simp add: limit_of_def limit_def split: option.split)
  then have "search_classes lower ?idx query requested = Some ?results"
    using assms(4) ranked_classes_names [of lower root m n records q]
    by (simp add: search_classes_def Let_def q_def take_map)
  moreover have "map cl_jar ?results = map (\<lambda>(i, c). summary (records ! i)) ?ranked"
    by (auto simp: class_location_def Let_def)
  moreover have "map cl_class_name ?results = map snd ?ranked"
    if apart: "\<forall>jar\<in>set records. spelled_apart lower (jr_classes jar)"
  proof -
    have "cl_class_name (class_location ?idx (lower c) i) = c" if "(i, c) \<in> set ?ranked" for i c
    proof -
      from that have "(i, c) \<in> set (class_occurrences records)"
        by (auto simp: ranked_classes_def dest: in_set_takeD)
      then have "i < length records" "c \<in> set (jr_classes (records ! i))"
        by (auto simp: in_class_occurrences indexed_class_def)
      then show ?thesis using apart by (intro class_location_own) auto
    qed
    then show ?thesis by (auto intro!: map_cong)
  qed
  ultimately show ?thesis by blast
qed

text \<open>Two classes of a JAR that differ only in ASCII case: both answers name the first one.\<close>

lemma class_case_collision:
  fixes records
  defines "records \<equiv> [sample_jar \<lparr> jr_classes := [lit ''p.A'', lit ''p.a''] \<rparr>]"
  shows "map_option (map cl_class_name)
      (search_classes to_ascii_lowercase (index_of_records to_ascii_lowercase [] 9 9 records) (lit ''p.a'') None) =
    Some [lit ''p.A'', lit ''p.A'']"
  unfolding records_def by code_simp

theorem search_classes_correct_witness:
  "map_option (map cl_class_name)
     (search_classes to_ascii_lowercase (index_of_records to_ascii_lowercase [] 9 9
        [sample_jar \<lparr> jr_classes := [lit ''p.A'', lit ''q.pB'', lit ''r.P''] \<rparr>]) (lit '' P '') (Some 2)) =
   Some [lit ''p.A'', lit ''r.P'']"
proof -
  let ?records = "[sample_jar \<lparr> jr_classes := [lit ''p.A'', lit ''q.pB'', lit ''r.P''] \<rparr>]"
  have q: "to_ascii_lowercase (trim (lit '' P '')) = lit ''p''" "lit ''p'' \<noteq> []" by code_simp+
  have apart: "\<forall>jar\<in>set ?records. spelled_apart to_ascii_lowercase (jr_classes jar)" by code_simp
  have ranked: "map snd (take (max 1 (min 2 9)) (ranked_classes to_ascii_lowercase ?records (lit ''p''))) =
      [lit ''p.A'', lit ''r.P'']" by code_simp
  show ?thesis
    using search_classes_correct [where m = 9 and lower = to_ascii_lowercase and query = "lit '' P ''" and
      records = ?records and root = "[]" and n = 9 and requested = "Some 2"] q apart ranked
    by (fastforce simp del: lit.simps)
qed

end
