(* ===== verification/Index_Build.thy ===== *)
theory Index_Build
  imports Class_Index
begin

text \<open>
  Building an index from cached records (\<open>src/src/index.rs\<close>, \<open>build_from_jars\<close>): a build that reuses
  records an earlier build of unchanged artifacts stored gives the index that build gave.
\<close>

section \<open>Charging a record instead of reading its archive\<close>

lemma preflight_path_le: "budget_le (snd (preflight_path src p b)) b"
  by (auto simp: preflight_path_def preflight_directory_def preflight_archive_le directory_loop_le split: option.split)

lemma preflight_path_le': "preflight_path src p b = (r, b') \<Longrightarrow> budget_le b' b"
  using preflight_path_le [of src p b] by simp

lemma charge_preflight_path:
  assumes pre: "preflight_path src p b = (Inr u, b')"
    and range: "ab_entries b \<le> usize_max" "ab_names b \<le> usize_max"
    and same: "ab_jar_entries c = ab_jar_entries b"
  shows "(\<exists>what left. charge_preflight (charge_between b b') c = (Inl (ArchiveLimit what), left)) \<and>
      (\<exists>what left. preflight_path src p c = (Inl (ArchiveLimit what), left)) \<or>
    (\<exists>left. charge_preflight (charge_between b b') c = (Inr (), left) \<and> preflight_path src p c = (Inr (), left))"
proof -
  let ?charge = "charge_preflight (charge_between b b') c"
  have agree: "(fst ?charge = Inr () \<longleftrightarrow> fst (preflight_path src p c) = Inr ()) \<and>
      (fst (preflight_path src p c) = Inr () \<longrightarrow> ?charge = preflight_path src p c) \<and>
      (\<forall>e. fst (preflight_path src p c) = Inl e \<longrightarrow> (\<exists>what. e = ArchiveLimit what))"
  proof (cases "bs_is_dir src p")
    case True
    then show ?thesis using charge_fits_preflight_directory [OF _ range same, of "bs_walk src p" u b'] pre
      by (simp add: preflight_path_def)
  next
    case False
    then obtain bytes where bytes: "bs_file src p = Some bytes" "preflight_archive bytes b = (Inr u, b')"
      using pre by (auto simp: preflight_path_def split: option.splits)
    then have "fst ?charge = fst (preflight_path src p c) \<and>
        (fst (preflight_path src p c) = Inr () \<longrightarrow> ?charge = preflight_path src p c)"
      using charge_as_preflight [OF bytes(2) range same] False by (simp add: preflight_path_def)
    then show ?thesis using charge_preflight_Inl by metis
  qed
  show ?thesis
  proof (cases "fst (preflight_path src p c)")
    case (Inl e)
    with agree obtain what where "fst (preflight_path src p c) = Inl (ArchiveLimit what)" by blast
    moreover obtain e' where "fst ?charge = Inl e'" using agree Inl by (cases "fst ?charge") auto
    then obtain what' where "fst ?charge = Inl (ArchiveLimit what')" using charge_preflight_Inl by blast
    ultimately show ?thesis by (metis prod.collapse)
  next
    case (Inr x)
    then show ?thesis using agree by (metis old.unit.exhaust prod.collapse)
  qed
qed

section \<open>One step with and without the cache\<close>

text \<open>Results up to the report of reuse and the kind of error.\<close>

definition same_result ::
  "(build_error + build_state) option \<Rightarrow> (build_error + build_state) option \<Rightarrow> bool" where
  "same_result r r' \<longleftrightarrow>
     map_option (map_sum (\<lambda>_. ()) (\<lambda>(b, records, _). (b, records))) r =
     map_option (map_sum (\<lambda>_. ()) (\<lambda>(b, records, _). (b, records))) r'"

lemma build_fresh_same:
  "same_result (build_fresh src limits m v p identity (b, records, reuse))
     (build_fresh src limits m v' p identity (b, records, reuse'))"
  unfolding same_result_def build_fresh_def
  by (cases "preflight_path src p b"; cases "load_path src p identity m")
    (auto split: sum.split archive_error.split option.split)

text \<open>
  A cached payload is sound for the current artifact if, whenever it matches the current stamps and
  context, it is the stored form of what reading the artifact gives now.
\<close>

definition cache_sound ::
  "jar_source \<Rightarrow> resource_limits \<Rightarrow> nat \<Rightarrow> (path \<Rightarrow> bytes option) \<Rightarrow> path \<Rightarrow> JarIdentity \<Rightarrow> bool" where
  "cache_sound src limits m load p identity \<longleftrightarrow>
     (\<forall>payload stored v. load p = Some payload \<and> decode_payload (bs_codec src) payload = Some stored \<and>
        capture_validity limits (bs_stamps src p) = Some v \<and>
        st_context stored = new_context limits p identity m \<and> st_validity stored = v \<longrightarrow>
        (\<exists>jar b b'. stored = stored_record limits jar v (charge_between b b') m \<and>
           load_path src p identity m = Some (Some jar) \<and> preflight_path src p b = (Inr (), b') \<and>
           ab_jar_entries b = rl_jar_entries limits \<and> ab_entries b \<le> usize_max \<and> ab_names b \<le> usize_max))"

lemma restored_is_loaded:
  assumes loaded: "load_path src p identity m = Some (Some jar)"
  shows "validate (stored_record limits jar v charge m) = Some (stored_record limits jar v charge m) \<and>
    into_record (stored_record limits jar v charge m) p identity = jar"
proof -
  have wf: "record_wf jar" "jr_key jar = ji_key identity" "jr_classifier jar = ji_classifier identity"
    "jr_relative_path jar = ji_relative_path identity" "jr_path jar = p"
    using load_jar_record_wf loaded unfolding load_path_def by blast+
  then have "\<lparr> ji_key = jr_key jar, ji_classifier = jr_classifier jar, ji_relative_path = jr_relative_path jar \<rparr> = identity"
    by simp
  then show ?thesis using into_stored_record [OF wf(1)] validate_stored_record [OF wf(1)] wf(5) by metis
qed

lemma build_step_same:
  assumes sound: "cache_sound src limits m load p identity"
    and jar_entries: "ab_jar_entries b = rl_jar_entries limits"
  shows "same_result (build_step src limits m (Some load) p identity (b, records, reuse))
    (build_step src limits m None p identity (b, records, reuse'))"
proof -
  let ?v = "capture_validity limits (bs_stamps src p)"
  have cold: "build_step src limits m None p identity (b, records, reuse') =
      build_fresh src limits m None p identity (b, records, reuse')"
    by (simp add: build_step_def Let_def)
  show ?thesis
  proof (cases "\<exists>payload stored v. load p = Some payload \<and> ?v = Some v \<and> decode_payload (bs_codec src) payload = Some stored \<and>
      st_context stored = new_context limits p identity m \<and> st_validity stored = v")
    case False
    have miss: "restore (decode_payload (bs_codec src)) limits payload p identity v m b = (Inr None, b)"
      if "load p = Some payload" "?v = Some v" for payload v
    proof (cases "decode_payload (bs_codec src) payload")
      case (Some stored)
      with False that have "st_context stored \<noteq> new_context limits p identity m \<or> st_validity stored \<noteq> v" by blast
      then show ?thesis using Some by (simp add: restore_def validate_def)
    qed (simp add: restore_def)
    then have "build_step src limits m (Some load) p identity (b, records, reuse) =
        build_fresh src limits m ?v p identity (b, records, reuse)"
      by (simp add: build_step_def Let_def split: option.split)
    then show ?thesis unfolding cold by (simp add: build_fresh_same)
  next
    case True
    then obtain payload stored v where c: "load p = Some payload" "?v = Some v" "decode_payload (bs_codec src) payload = Some stored"
      "st_context stored = new_context limits p identity m" "st_validity stored = v" by blast
    with sound obtain jar b0 b0' where s: "stored = stored_record limits jar v (charge_between b0 b0') m"
      and loaded: "load_path src p identity m = Some (Some jar)" and pre: "preflight_path src p b0 = (Inr (), b0')"
      and b0: "ab_jar_entries b0 = rl_jar_entries limits" "ab_entries b0 \<le> usize_max" "ab_names b0 \<le> usize_max"
      unfolding cache_sound_def by blast
    have "restore (decode_payload (bs_codec src)) limits payload p identity v m b =
        (case charge_preflight (charge_between b0 b0') b of
           (Inl e, left) \<Rightarrow> (Inl e, left) | (Inr _, left) \<Rightarrow> (Inr (Some jar), left))"
      using c restored_is_loaded [OF loaded, of limits v "charge_between b0 b0'"] s
      by (simp add: restore_def stored_record_def Let_def split: prod.split sum.split)
    then have warm: "build_step src limits m (Some load) p identity (b, records, reuse) =
        (case charge_preflight (charge_between b0 b0') b of
           (Inl e, _) \<Rightarrow> Some (Inl (Build_Limit e))
         | (Inr _, left) \<Rightarrow> Some (Inr (left, records @ [jar], reuse \<lparr> ru_reused := ru_reused reuse @ [p] \<rparr>)))"
      using c(1,2) by (simp add: build_step_def Let_def split: prod.split sum.split)
    from charge_preflight_path [OF pre b0(2,3)] jar_entries b0(1)
    consider what left what' left' where "charge_preflight (charge_between b0 b0') b = (Inl (ArchiveLimit what), left)"
        "preflight_path src p b = (Inl (ArchiveLimit what'), left')"
      | left where "charge_preflight (charge_between b0 b0') b = (Inr (), left)" "preflight_path src p b = (Inr (), left)"
      by metis
    then show ?thesis
      unfolding warm cold same_result_def by cases (simp_all add: build_fresh_def loaded)
  qed
qed

section \<open>The whole build\<close>

text \<open>A payload that reading an artifact of the list has produced under the limits.\<close>

definition written ::
  "jar_source \<Rightarrow> resource_limits \<Rightarrow> nat \<Rightarrow> (path \<times> JarIdentity) list \<Rightarrow> path \<times> bytes \<Rightarrow> bool" where
  "written src limits m jars = (\<lambda>(p, payload). \<exists>identity jar v b b'. (p, identity) \<in> set jars \<and>
     validity_is_settled (bs_now src p) 0 v \<and>
     load_path src p identity m = Some (Some jar) \<and> preflight_path src p b = (Inr (), b') \<and>
     budget_le b (configured_budget limits) \<and> capture_validity limits (bs_stamps src p) = Some v \<and>
     encode_payload (bs_codec src) (stored_record limits jar v (charge_between b b') m) = Some payload)"

lemma written_intro:
  "(p, identity) \<in> set jars \<Longrightarrow> validity_is_settled (bs_now src p) 0 v \<Longrightarrow> load_path src p identity m = Some (Some jar) \<Longrightarrow>
     preflight_path src p b = (Inr (), b') \<Longrightarrow> budget_le b (configured_budget limits) \<Longrightarrow>
     capture_validity limits (bs_stamps src p) = Some v \<Longrightarrow>
     encode_payload (bs_codec src) (stored_record limits jar v (charge_between b b') m) = Some payload \<Longrightarrow>
     written src limits m jars (p, payload)"
  unfolding written_def by blast

lemma build_fresh_Inr:
  assumes "build_fresh src limits m v p identity (b, records, reuse) = Some (Inr (b', records', reuse'))"
    and "(p, identity) \<in> set jars" "budget_le b (configured_budget limits)"
    and "v = None \<or> v = capture_validity limits (bs_stamps src p)"
  shows "budget_le b' b \<and>
    (\<exists>ws. ru_persistable reuse' = ru_persistable reuse @ ws \<and> (\<forall>w\<in>set ws. written src limits m jars w))"
proof -
  obtain r b1 where pre: "preflight_path src p b = (r, b1)" by (cases "preflight_path src p b")
  note le = preflight_path_le' [OF pre]
  show ?thesis
  proof (cases r)
    case (Inl e)
    then show ?thesis using assms(1) pre le by (cases e) (auto simp: build_fresh_def)
  next
    case (Inr u)
    obtain loaded where loaded: "load_path src p identity m = Some loaded"
      using assms(1) pre Inr by (cases "load_path src p identity m") (auto simp: build_fresh_def)
    have result: "(b', records', reuse') =
      (case loaded of
         None \<Rightarrow> (b1, records, reuse)
       | Some jar \<Rightarrow>
           (b1, records @ [jar],
            (case v of None \<Rightarrow> reuse | Some v \<Rightarrow> reuse \<lparr> ru_built := ru_built reuse + 1,
               ru_persistable := ru_persistable reuse @
                 (case persistable (encode_payload (bs_codec src)) limits (bs_now src p) jar v (charge_between b b1) m of
                    None \<Rightarrow> [] | Some r \<Rightarrow> [r]) \<rparr>)))"
      using assms(1) pre Inr loaded by (simp add: build_fresh_def)
    have "written src limits m jars w"
      if asm: "loaded = Some jar" "persistable (encode_payload (bs_codec src)) limits (bs_now src p) jar v' (charge_between b b1) m = Some w" "v = Some v'"
      for jar v' w
    proof -
      have "jr_path jar = p" using load_jar_record_wf loaded asm(1) unfolding load_path_def by blast
      then obtain payload where w: "w = (p, payload)" "validity_is_settled (bs_now src p) 0 v'"
        "encode_payload (bs_codec src) (stored_record limits jar v' (charge_between b b1) m) = Some payload"
        using asm(2) by (auto simp: persistable_def split: if_splits)
      have "load_path src p identity m = Some (Some jar)" "preflight_path src p b = (Inr (), b1)"
        using loaded asm(1) pre Inr by simp_all
      moreover have "capture_validity limits (bs_stamps src p) = Some v'" using assms(4) asm(3) by auto
      ultimately show ?thesis using assms(2,3) w(2,3) unfolding w(1) by (intro written_intro)
    qed
    then show ?thesis using result le
      by (cases loaded; cases v) (auto split: option.splits)
  qed
qed

lemma build_step_Inr:
  assumes "build_step src limits m persisted p identity (b, records, reuse) = Some (Inr (b', records', reuse'))"
    and "(p, identity) \<in> set jars" "budget_le b (configured_budget limits)"
  shows "budget_le b' b \<and>
    (\<exists>ws. ru_persistable reuse' = ru_persistable reuse @ ws \<and> (\<forall>w\<in>set ws. written src limits m jars w))"
proof -
  let ?v = "persisted \<bind> (\<lambda>_. capture_validity limits (bs_stamps src p))"
  consider (fresh) "build_step src limits m persisted p identity (b, records, reuse) =
      build_fresh src limits m ?v p identity (b, records, reuse)"
    | (restored) payload v jar where "restore (decode_payload (bs_codec src)) limits payload p identity v m b = (Inr (Some jar), b')"
        "reuse' = reuse \<lparr> ru_reused := ru_reused reuse @ [p] \<rparr>"
  proof (cases "persisted \<bind> (\<lambda>load. load p)")
    case None
    then show ?thesis using that(1) by (simp add: build_step_def Let_def)
  next
    case (Some payload)
    show ?thesis
    proof (cases ?v)
      case None
      then show ?thesis using that(1) by (simp add: build_step_def Let_def split: option.split)
    next
      case v: (Some v)
      obtain r b1 where r: "restore (decode_payload (bs_codec src)) limits payload p identity v m b = (r, b1)"
        by (cases "restore (decode_payload (bs_codec src)) limits payload p identity v m b")
      have unfold: "build_step src limits m persisted p identity (b, records, reuse) =
          (case (r, b1) of
             (Inl e, _) \<Rightarrow> Some (Inl (Build_Limit e))
           | (Inr (Some jar), budget) \<Rightarrow> Some (Inr (budget, records @ [jar], reuse \<lparr> ru_reused := ru_reused reuse @ [p] \<rparr>))
           | (Inr None, budget) \<Rightarrow> build_fresh src limits m (Some v) p identity (budget, records, reuse))"
        unfolding r [symmetric] using Some v by (simp add: build_step_def Let_def)
      show ?thesis
      proof (cases r)
        case (Inl e)
        then show ?thesis using unfold assms(1) by simp
      next
        case (Inr restored)
        show ?thesis
        proof (cases restored)
          case None
          then have "b1 = b" using r Inr
            by (auto simp: restore_def split: option.splits if_splits prod.splits sum.splits)
          then show ?thesis using that(1) unfold Inr None v by simp
        next
          case (Some jar)
          then show ?thesis using that(2) unfold Inr r assms(1) by simp
        qed
      qed
    qed
  qed
  then show ?thesis
  proof cases
    case fresh
    have "?v = None \<or> ?v = capture_validity limits (bs_stamps src p)" by (cases persisted) auto
    then show ?thesis using build_fresh_Inr [OF assms(1) [unfolded fresh] assms(2,3)] by blast
  next
    case restored
    then obtain charge where "charge_preflight charge b = (Inr (), b')"
      by (auto simp: restore_def split: option.splits if_splits prod.splits sum.splits)
    then have "budget_le b' b" using charge_preflight_le [of charge b] by simp
    then show ?thesis using restored(2) by simp
  qed
qed

lemma build_loop_same:
  assumes "\<forall>(p, identity)\<in>set jars. cache_sound src limits m load p identity"
    and "budget_le b (configured_budget limits)"
  shows "same_result (build_loop src limits m (Some load) i jars (b, records, reuse))
    (build_loop src limits m None i jars (b, records, reuse'))"
  using assms
proof (induction jars arbitrary: i b records reuse reuse')
  case Nil
  then show ?case by (simp add: same_result_def)
next
  case (Cons pj jars)
  obtain p identity where pj: "pj = (p, identity)" by (cases pj)
  have jar_entries: "ab_jar_entries b = rl_jar_entries limits"
    using Cons.prems(2) by (simp add: budget_le_def configured_budget_def)
  let ?warm = "build_step src limits m (Some load) p identity (b, records, reuse)"
  let ?cold = "build_step src limits m None p identity (b, records, reuse')"
  have step: "same_result ?warm ?cold"
    using Cons.prems(1) pj jar_entries by (intro build_step_same) auto
  show ?case
  proof (cases "bs_cancelled src i")
    case True
    then show ?thesis using pj by (simp add: same_result_def)
  next
    case False
    consider "?warm = None" "?cold = None" | e e' where "?warm = Some (Inl e)" "?cold = Some (Inl e')"
      | b1 records1 reuse1 reuse1' where "?warm = Some (Inr (b1, records1, reuse1))"
          "?cold = Some (Inr (b1, records1, reuse1'))"
    proof (cases ?warm)
      case None
      then show ?thesis using step that(1) by (simp add: same_result_def)
    next
      case (Some w)
      then obtain c where c: "?cold = Some c" using step by (cases ?cold) (auto simp: same_result_def)
      show ?thesis
      proof (cases w)
        case (Inl e)
        then obtain e' where "c = Inl e'" using step Some c by (cases c) (auto simp: same_result_def)
        then show ?thesis using that(2) Some Inl c by simp
      next
        case (Inr st)
        then obtain st' where "c = Inr st'" using step Some c by (cases c) (auto simp: same_result_def)
        then show ?thesis using that(3) Some Inr c step
          by (cases st; cases st') (auto simp: same_result_def)
      qed
    qed
    then show ?thesis
    proof cases
      case 3
      have "budget_le b1 b" using build_step_Inr [OF 3(2), of "[(p, identity)]"] Cons.prems(2) by simp
      then have "budget_le b1 (configured_budget limits)" using Cons.prems(2) by (rule budget_le_trans)
      with Cons.IH [of b1 "Suc i" records1 reuse1 reuse1'] Cons.prems(1) 3 False pj show ?thesis by simp
    qed (use False pj in \<open>simp_all add: same_result_def\<close>)
  qed
qed

lemma build_loop_written:
  "build_loop src limits m persisted i jars (b, records, reuse) = Some (Inr (b', records', reuse')) \<Longrightarrow>
     set jars \<subseteq> set all \<Longrightarrow> budget_le b (configured_budget limits) \<Longrightarrow>
     \<forall>w\<in>set (ru_persistable reuse). written src limits m all w \<Longrightarrow>
     \<forall>w\<in>set (ru_persistable reuse'). written src limits m all w"
proof (induction jars arbitrary: i b records reuse)
  case (Cons pj jars)
  obtain p identity where pj: "pj = (p, identity)" by (cases pj)
  from Cons.prems(1) pj obtain b1 records1 reuse1 where
    step: "build_step src limits m persisted p identity (b, records, reuse) = Some (Inr (b1, records1, reuse1))"
    and rest: "build_loop src limits m persisted (Suc i) jars (b1, records1, reuse1) = Some (Inr (b', records', reuse'))"
    by (auto split: if_splits option.splits sum.splits)
  from build_step_Inr [OF step, of all] Cons.prems pj
  have "budget_le b1 b" "\<forall>w\<in>set (ru_persistable reuse1). written src limits m all w" by auto
  then show ?case using Cons.IH [OF rest] Cons.prems budget_le_trans by auto
qed simp

lemma build_from_jars_Inr:
  "build_from_jars src lower limits root jars mr m persisted = Some (Inr (idx, reuse)) \<longleftrightarrow>
     (\<exists>b records. build_loop src limits m persisted 0 (sort_key fst jars)
         (configured_budget limits, [], \<lparr> ru_reused = [], ru_built = 0, ru_persistable = [] \<rparr>) =
         Some (Inr (b, records, reuse)) \<and>
       \<not> bs_cancelled src (length jars) \<and>
       idx = index_of_records lower root mr m (sort_key jr_relative_path records))"
proof (cases "build_loop src limits m persisted 0 (sort_key fst jars)
    (configured_budget limits, [], \<lparr> ru_reused = [], ru_built = 0, ru_persistable = [] \<rparr>)")
  case None
  then show ?thesis by (simp add: build_from_jars_def Let_def)
next
  case (Some r)
  then show ?thesis by (cases r) (auto simp: build_from_jars_def Let_def split: prod.splits)
qed

lemma map_of_in_set: "map_of ws p = Some payload \<Longrightarrow> (p, payload) \<in> set ws"
  by (rule map_of_SomeD)

lemma same_build:
  assumes "\<forall>(p, identity)\<in>set jars. cache_sound src limits m load p identity"
    and "build_from_jars src lower limits root jars mr m None = Some (Inr (idx, reuse))"
  shows "\<exists>reuse'. build_from_jars src lower limits root jars mr m (Some load) = Some (Inr (idx, reuse'))"
proof -
  let ?jars = "sort_key fst jars"
  let ?start = "(configured_budget limits, [], \<lparr> ru_reused = [], ru_built = 0, ru_persistable = [] \<rparr>)"
  let ?warm = "build_loop src limits m (Some load) 0 ?jars ?start"
  let ?cold = "build_loop src limits m None 0 ?jars ?start"
  have same: "same_result ?warm ?cold" using assms(1) by (intro build_loop_same) auto
  from assms(2) obtain b records where cold: "?cold = Some (Inr (b, records, reuse))"
    and ok: "\<not> bs_cancelled src (length jars)" and idx: "idx = index_of_records lower root mr m (sort_key jr_relative_path records)"
    unfolding build_from_jars_Inr by blast
  obtain w where w: "?warm = Some w" using same cold by (cases ?warm) (auto simp: same_result_def)
  then obtain st where st: "w = Inr st" using same cold by (cases w) (auto simp: same_result_def)
  then obtain reuse' where "st = (b, records, reuse')" using same cold w
    by (cases st) (auto simp: same_result_def)
  then show ?thesis unfolding build_from_jars_Inr using w st ok idx by blast
qed

text \<open>
  The state of the artifacts when a payload was written and now.  What is relied on: when the stamps of an artifact had
  settled by the clock of the build that wrote the payload, and are the same now, then its content is what that build
  read.  A change after the stamps were taken has a modification time of at least its own time less the
  granularity of the file system, for which \<open>SETTLED_AGE\<close> allows; for one file this is \<open>settled_stamp_tells\<close>.
\<close>

definition same_artifact :: "jar_source \<Rightarrow> jar_source \<Rightarrow> path \<Rightarrow> bool" where
  "same_artifact src' src p \<longleftrightarrow>
     (\<forall>identity m. load_path src' p identity m = load_path src p identity m) \<and>
     (\<forall>b. preflight_path src' p b = preflight_path src p b)"

definition settled_stamps_tell :: "jar_source \<Rightarrow> jar_source \<Rightarrow> bool" where
  "settled_stamps_tell src' src \<longleftrightarrow>
     (\<forall>p limits' limits v. capture_validity limits' (bs_stamps src' p) = Some v \<and> validity_is_settled (bs_now src' p) 0 v \<and>
        capture_validity limits (bs_stamps src p) = Some v \<longrightarrow> same_artifact src' src p)"

lemma settled_stamps_tell_same: "settled_stamps_tell src src"
  by (simp add: settled_stamps_tell_def same_artifact_def)

lemma settled_stamp_tells:
  assumes change: "\<And>t t'. t \<le> t' \<Longrightarrow> content t \<noteq> content t' \<Longrightarrow> t < modified t' + SETTLED_AGE"
    and "was_settled_at (modified t) t" "t \<le> t'" "modified t' = modified t"
  shows "content t' = content t"
proof (rule ccontr)
  assume "content t' \<noteq> content t"
  then have "t < modified t + SETTLED_AGE" using change [OF assms(3)] assms(4) by metis
  then show False using assms(2) by (auto simp: was_settled_at_def checked_sub_def split: if_splits)
qed

lemma same_context:
  assumes "new_context limits' p identity' m' = new_context limits p identity m"
  shows "identity' = identity" "m' = m" "rl_jar_entries limits' = rl_jar_entries limits"
    "stored_record limits' jar v charge m' = stored_record limits jar v charge m"
  using assms
  by (simp_all add: new_context_def stored_record_def Let_def JarIdentity.equality ArtifactKey.equality)

text \<open>What builds of any project under any limits wrote, then or now, is a sound cache.\<close>

lemma written_sound:
  assumes written: "\<And>payload. load p = Some payload \<Longrightarrow>
      \<exists>src' limits' m' jars'. written src' limits' m' jars' (p, payload) \<and> settled_stamps_tell src' src \<and> bs_codec src' = bs_codec src \<and>
        rl_index_entries limits' \<le> usize_max \<and> rl_index_name_bytes limits' \<le> usize_max"
    and codec: "codec_laws (bs_codec src)"
  shows "cache_sound src limits m load p identity"
  unfolding cache_sound_def
proof (intro allI impI, elim conjE)
  fix payload stored v
  assume a: "load p = Some payload" "decode_payload (bs_codec src) payload = Some stored" "capture_validity limits (bs_stamps src p) = Some v"
    "st_context stored = new_context limits p identity m" "st_validity stored = v"
  from written [OF a(1)] obtain src' limits' m' jars' identity' jar v0 b b' where w: "settled_stamps_tell src' src"
    "rl_index_entries limits' \<le> usize_max" "rl_index_name_bytes limits' \<le> usize_max"
    "load_path src' p identity' m' = Some (Some jar)" "preflight_path src' p b = (Inr (), b')"
    "budget_le b (configured_budget limits')" "capture_validity limits' (bs_stamps src' p) = Some v0"
    "encode_payload (bs_codec src') (stored_record limits' jar v0 (charge_between b b') m') = Some payload"
      and settled: "validity_is_settled (bs_now src' p) 0 v0" and same_codec: "bs_codec src' = bs_codec src"
    unfolding written_def by blast
  have stored: "stored = stored_record limits' jar v0 (charge_between b b') m'"
    using decode_encoded_value [OF codec] w(8) a(2) same_codec by metis
  then have v: "v0 = v" using a(5) by (simp add: stored_record_def Let_def)
  have jar: "jr_path jar = p"
    "\<lparr> ji_key = jr_key jar, ji_classifier = jr_classifier jar, ji_relative_path = jr_relative_path jar \<rparr> = identity'"
    using load_jar_record_wf w(4) unfolding load_path_def by (blast, metis JarIdentity.surjective old.unit.exhaust)
  then have "new_context limits' p identity' m' = new_context limits p identity m"
    using a(4) by (simp add: stored stored_record_def Let_def)
  note same = same_context [OF this]
  have "same_artifact src' src p" using w(1,7) a(3) v settled unfolding settled_stamps_tell_def by blast
  then have "load_path src p identity m = Some (Some jar)" "preflight_path src p b = (Inr (), b')"
    using w(4,5) same(1,2) by (simp_all add: same_artifact_def)
  moreover have "ab_jar_entries b = rl_jar_entries limits" "ab_entries b \<le> usize_max" "ab_names b \<le> usize_max"
    using w(2,3,6) same(3) by (auto simp: budget_le_def configured_budget_def)
  moreover have "stored = stored_record limits jar v (charge_between b b') m" using stored v same(4) by simp
  ultimately show "\<exists>jar b b'. stored = stored_record limits jar v (charge_between b b') m \<and>
      load_path src p identity m = Some (Some jar) \<and> preflight_path src p b = (Inr (), b') \<and>
      ab_jar_entries b = rl_jar_entries limits \<and> ab_entries b \<le> usize_max \<and> ab_names b \<le> usize_max"
    by blast
qed

lemma build_writes:
  assumes "build_from_jars src lower limits root jars mr m (Some load) = Some (Inr (idx, reuse))"
    and "w \<in> set (ru_persistable reuse)"
  shows "written src limits m jars w"
proof -
  from assms(1) obtain b records where
    "build_loop src limits m (Some load) 0 (sort_key fst jars)
      (configured_budget limits, [], \<lparr> ru_reused = [], ru_built = 0, ru_persistable = [] \<rparr>) = Some (Inr (b, records, reuse))"
    unfolding build_from_jars_Inr by blast
  from build_loop_written [OF this, of jars] assms(2) show ?thesis by simp
qed

text \<open>
  Claim C13: rebuild_same_index.  The on-disk cache does not change the index: take a build over a sound
  cache, add the records it wrote to the cache, and build again from the unchanged artifacts; the second
  build succeeds, reusing what it can, and its index is the very index of the first one, which is also
  the index of a build without any cache.
\<close>

lemma rebuild_same_index:
  assumes first: "build_from_jars src lower limits root jars mr m None = Some (Inr (idx, reuse0))"
    and sound: "\<forall>(p, identity)\<in>set jars. cache_sound src limits m load p identity"
    and second: "build_from_jars src lower limits root jars mr m (Some load) = Some (Inr (idx', reuse))"
    and codec: "codec_laws (bs_codec src)"
    and range: "rl_index_entries limits \<le> usize_max" "rl_index_name_bytes limits \<le> usize_max"
  shows "idx' = idx \<and>
    (\<exists>reuse'. build_from_jars src lower limits root jars mr m
       (Some (\<lambda>p. case map_of (ru_persistable reuse) p of None \<Rightarrow> load p | Some payload \<Rightarrow> Some payload)) =
     Some (Inr (idx, reuse')))"
proof -
  let ?cache = "\<lambda>p. case map_of (ru_persistable reuse) p of None \<Rightarrow> load p | Some payload \<Rightarrow> Some payload"
  have written: "written src limits m jars (p, payload)" if "map_of (ru_persistable reuse) p = Some payload" for p payload
    using build_writes [OF second] that by (blast dest: map_of_in_set)
  have "cache_sound src limits m ?cache p identity" if p: "(p, identity) \<in> set jars" for p identity
  proof (cases "map_of (ru_persistable reuse) p")
    case None
    then show ?thesis using sound p by (auto simp: cache_sound_def)
  next
    case (Some payload)
    then show ?thesis using written range settled_stamps_tell_same by (intro written_sound [OF _ codec]) (metis (lifting) option.simps(5))
  qed
  then have "\<exists>reuse'. build_from_jars src lower limits root jars mr m (Some ?cache) = Some (Inr (idx, reuse'))"
    by (intro same_build [OF _ first]) blast
  moreover have "idx' = idx" using same_build [OF sound first] second by simp
  ultimately show ?thesis by blast
qed

text \<open>A class directory with one class, and a codec for the one record a build of it stores.\<close>

definition plain_jar :: JarRecord where
  "plain_jar = sample_jar \<lparr> jr_fact_strings := [], jr_class_facts := [] \<rparr>"

definition plain_stored :: StoredRecord where
  "plain_stored =
     stored_record sample_limits plain_jar [([], 9, 0)] \<lparr> pc_entries = 1, pc_name_bytes = 9 \<rparr> 8"

definition plain_source :: jar_source where
  "plain_source =
     \<lparr> bs_cancelled = (\<lambda>_. False), bs_is_dir = (\<lambda>_. True), bs_file = (\<lambda>_. None), bs_walk = (\<lambda>_. [Regular_File 9]),
       bs_stamps = (\<lambda>_. [Some ([], 9, 0)]), bs_names = (\<lambda>_. Some [lit ''p/A.class'']), bs_manifest = (\<lambda>_ _. None),
       bs_archive = (\<lambda>_. None), bs_polls = (\<lambda>_ _. False), bs_now = (\<lambda>_ _. SETTLED_AGE), bs_parse = (\<lambda>_. None),
       bs_codec = sample_codec plain_stored [1] \<rparr>"

lemma plain_codec: "bs_codec plain_source = sample_codec plain_stored [1]"
  by (simp add: plain_source_def)

lemma plain_load: "load_path plain_source [lit ''a-1.jar''] sample_identity 8 = Some (Some plain_jar)"
proof -
  have "\<not> read_multi_release_flag (\<lambda>_. None) [lit ''p/A.class'']"
    by (simp add: read_multi_release_flag_def split: option.split)
  then have "read_jar_index_from (Some [lit ''p/A.class'']) (\<lambda>_. None) =
      Some \<lparr> jx_classes = [lit ''p.A''], jx_entries = [lit ''p/A.class''],
        jx_class_entries = [(lit ''p/A.class'', lit ''p/A.class'')], jx_multi_release = False \<rparr>"
    by (simp add: read_jar_index_from_def Let_def sample_entries del: lit.simps)
  then show ?thesis
    by (simp add: load_path_def plain_source_def load_jar_record_def collect_jar_facts_def sample_identity_def
      sample_jar_def plain_jar_def documented_classifier_def)
qed

lemma plain_preflight:
  "preflight_path plain_source p (configured_budget sample_limits) =
     (Inr (), \<lparr> ab_entries = 4, ab_names = 0, ab_jar_entries = 3 \<rparr>)"
  by (simp add: preflight_path_def plain_source_def preflight_directory_def reserve_entry_cases spend_def
    configured_budget_def sample_limits_def MAX_ENTRY_NAME_BYTES_def)

lemma plain_charge:
  "charge_between (configured_budget sample_limits) \<lparr> ab_entries = 4, ab_names = 0, ab_jar_entries = 3 \<rparr> =
     \<lparr> pc_entries = 1, pc_name_bytes = 9 \<rparr>"
  by (simp add: charge_between_def configured_budget_def sample_limits_def wrap_sub_def)

lemma plain_persistable:
  "persistable (encode_payload (bs_codec plain_source)) sample_limits (bs_now plain_source p) plain_jar [([], 9, 0)]
     \<lparr> pc_entries = 1, pc_name_bytes = 9 \<rparr> 8 = Some ([lit ''a-1.jar''], [1])"
proof -
  have "validity_is_settled (\<lambda>_. SETTLED_AGE) 0 [([], 9, 0)]"
    by (simp add: was_settled_at_def checked_sub_def)
  moreover have "jr_path plain_jar = [lit ''a-1.jar'']" by (simp add: plain_jar_def sample_jar_def)
  ultimately show ?thesis
    by (simp add: persistable_def plain_codec sample_codec_encode flip: plain_stored_def del: lit.simps One_nat_def)
      (simp add: plain_source_def)
qed

end
