(* ===== verification/Type_Hierarchy.thy ===== *)
theory Type_Hierarchy
  imports Class_Index
begin

text \<open>
  The search for subtypes (\<open>src/src/index.rs\<close>, \<open>search_type_hierarchy\<close>): a breadth-first walk over
  child-to-parent facts that visits every edge once, so it ends on cyclic hierarchies, with a limit on
  the number of results.
\<close>

section \<open>The search\<close>

record TypeHierarchyMatch =
  tm_type_name :: str
  tm_jar :: JarSummary
  tm_relation :: TypeRelation
  tm_depth :: nat
  tm_path :: "str list"

definition children_of :: "MavenIndex \<Rightarrow> str \<Rightarrow> HierarchyEdge list" where
  "children_of idx parent = opt_list (map_of (mx_children_by_parent idx) (to_ascii_lowercase parent))"

type_synonym edge_key = "str \<times> str \<times> str"

definition visit_key :: "(str \<Rightarrow> str) \<Rightarrow> JarRecord list \<Rightarrow> HierarchyEdge \<Rightarrow> edge_key" where
  "visit_key lower jars e =
     (lower (edge_child jars e), lower (edge_parent jars e), coordinate (jars ! he_jar e))"

type_synonym scan_state = "edge_key set \<times> TypeHierarchyMatch list \<times> (str \<times> str list \<times> nat) list"

text \<open>
  The inner loop over the children of one type: visited edges, results and the entries pushed to the
  queue.  Its flag says that the limit was reached, where the code returns.
\<close>

fun scan_edges ::
  "(str \<Rightarrow> str) \<Rightarrow> JarRecord list \<Rightarrow> str option \<Rightarrow> nat \<Rightarrow> bool \<Rightarrow> str list \<Rightarrow> nat \<Rightarrow> HierarchyEdge list \<Rightarrow>
     scan_state \<Rightarrow> bool \<times> scan_state" where
  "scan_edges lower jars selector limit transitive path depth [] st = (False, st)"
| "scan_edges lower jars selector limit transitive path depth (e # es) (visited, matches, pushed) =
     (let key = visit_key lower jars e;
          child = edge_child jars e;
          jar = jars ! he_jar e
      in if key \<in> visited \<or> child \<in> set path
         then scan_edges lower jars selector limit transitive path depth es (insert key visited, matches, pushed)
         else
           let child_path = path @ [child];
               selected = selected_by selector jar;
               matches = (if selected
                          then matches @ [\<lparr> tm_type_name = child, tm_jar = summary jar, tm_relation = edge_relation jars e,
                                            tm_depth = depth + 1, tm_path = child_path \<rparr>]
                          else matches)
           in if selected \<and> length matches = limit then (True, insert key visited, matches, pushed)
              else scan_edges lower jars selector limit transitive path depth es
                     (insert key visited, matches,
                      if transitive then pushed @ [(child, child_path, depth + 1)] else pushed))"

definition all_visit_keys :: "(str \<Rightarrow> str) \<Rightarrow> MavenIndex \<Rightarrow> edge_key set" where
  "all_visit_keys lower idx =
     visit_key lower (mx_jars idx) ` set (concat (map snd (mx_children_by_parent idx)))"

lemma scan_edges_visited:
  "scan_edges lower jars selector limit transitive path depth es (visited, matches, pushed) =
     (finished, visited', matches', pushed') \<Longrightarrow>
   visited \<subseteq> visited' \<and> visited' \<subseteq> visited \<union> visit_key lower jars ` set es \<and>
   (pushed' \<noteq> pushed \<longrightarrow> visited \<noteq> visited')"
proof (induction es arbitrary: visited matches pushed)
  case (Cons e es)
  let ?key = "visit_key lower jars e"
  show ?case
  proof (cases "?key \<in> visited \<or> edge_child jars e \<in> set path")
    case True
    then have "scan_edges lower jars selector limit transitive path depth es (insert ?key visited, matches, pushed) =
        (finished, visited', matches', pushed')" using Cons.prems by (simp add: Let_def)
    from Cons.IH [OF this] show ?thesis by auto
  next
    case False
    then have "?key \<in> visited'"
    proof -
      have "?key \<in> visited'" if "scan_edges lower jars selector limit transitive path depth es (insert ?key visited, m, p) =
          (finished, visited', matches', pushed')" for m p
        using Cons.IH [OF that] by auto
      then show ?thesis using Cons.prems False by (auto simp: Let_def split: if_splits)
    qed
    moreover have "visited \<subseteq> visited' \<and> visited' \<subseteq> visited \<union> visit_key lower jars ` set (e # es)"
    proof -
      have "visited \<subseteq> visited' \<and> visited' \<subseteq> visited \<union> visit_key lower jars ` set (e # es)"
        if "scan_edges lower jars selector limit transitive path depth es (insert ?key visited, m, p) =
          (finished, visited', matches', pushed')" for m p
        using Cons.IH [OF that] by auto
      then show ?thesis using Cons.prems False by (auto simp: Let_def split: if_splits)
    qed
    ultimately show ?thesis using False by auto
  qed
qed simp

lemma children_keys: "visit_key lower (mx_jars idx) ` set (children_of idx parent) \<subseteq> all_visit_keys lower idx"
proof (cases "map_of (mx_children_by_parent idx) (to_ascii_lowercase parent)")
  case (Some es)
  then have "(to_ascii_lowercase parent, es) \<in> set (mx_children_by_parent idx)" by (rule map_of_SomeD)
  then show ?thesis using Some by (force simp: children_of_def all_visit_keys_def)
qed (simp add: children_of_def)

lemma finite_visit_keys [simp]: "finite (all_visit_keys lower idx)"
  by (simp add: all_visit_keys_def)

function search_loop ::
  "(str \<Rightarrow> str) \<Rightarrow> MavenIndex \<Rightarrow> str option \<Rightarrow> nat \<Rightarrow> bool \<Rightarrow> (str \<times> str list \<times> nat) list \<Rightarrow> edge_key set \<Rightarrow>
     TypeHierarchyMatch list \<Rightarrow> TypeHierarchyMatch list" where
  "search_loop lower idx selector limit transitive [] visited matches = matches"
| "search_loop lower idx selector limit transitive ((parent, path, depth) # rest) visited matches =
     (let (finished, visited, matches, pushed) =
            scan_edges lower (mx_jars idx) selector limit transitive path depth (children_of idx parent)
              (visited, matches, [])
      in if finished \<or> \<not> transitive then matches
         else search_loop lower idx selector limit transitive (rest @ pushed) visited matches)"
  by pat_completeness auto
termination
proof (relation "measures [\<lambda>(lower, idx, _, _, _, _, visited, _). card (all_visit_keys lower idx - visited),
    \<lambda>(_, _, _, _, _, queue, _). length queue]", goal_cases)
  case (2 lower idx selector limit transitive parent path depth rest visited matches x finished y visited' z matches' pushed)
  have "scan_edges lower (mx_jars idx) selector limit transitive path depth (children_of idx parent) (visited, matches, []) =
      (finished, visited', matches', pushed)" using 2 by simp
  note scan = scan_edges_visited [OF this]
  have "visited' \<subseteq> visited \<union> all_visit_keys lower idx" using scan children_keys by blast
  show ?case
  proof (cases "pushed = []")
    case True
    have "card (all_visit_keys lower idx - visited') \<le> card (all_visit_keys lower idx - visited)"
      using scan by (intro card_mono) auto
    then show ?thesis using True by auto
  next
    case False
    then have "visited \<subset> visited'" using scan by blast
    then have "all_visit_keys lower idx - visited' \<subset> all_visit_keys lower idx - visited"
      using \<open>visited' \<subseteq> visited \<union> all_visit_keys lower idx\<close> by blast
    then have "card (all_visit_keys lower idx - visited') < card (all_visit_keys lower idx - visited)"
      by (intro psubset_card_mono) auto
    then show ?thesis by simp
  qed
qed simp

definition search_type_hierarchy ::
  "(str \<Rightarrow> str) \<Rightarrow> MavenIndex \<Rightarrow> str \<Rightarrow> bool \<Rightarrow> str option \<Rightarrow> nat option \<Rightarrow> TypeHierarchyMatch list option" where
  "search_type_hierarchy lower idx type_name transitive selector requested =
     (let root = normalize_class_query type_name
      in if root = [] then Some []
         else map_option (\<lambda>limit. search_loop lower idx selector limit transitive [(root, [root], 0)] {} [])
                (limit_of idx requested))"

declare search_loop.simps(2) [simp del, loop_simps]

section \<open>Edges are facts\<close>

text \<open>A JAR states that one type directly extends or implements another.\<close>

definition subtype_fact :: "JarRecord \<Rightarrow> str \<Rightarrow> str \<Rightarrow> TypeRelation \<Rightarrow> bool" where
  "subtype_fact jar parent child relation \<longleftrightarrow>
     (\<exists>facts\<in>set (jr_class_facts jar). \<exists>p\<in>set (cf_parents facts).
        fact_text jar (cf_source_class facts) = child \<and>
        to_ascii_lowercase (fact_text jar (itp_parent p)) = to_ascii_lowercase parent \<and> itp_relation p = relation)"

lemma in_jar_edges:
  "e \<in> set (jar_edges j jar) \<longleftrightarrow>
     he_jar e = j \<and> he_class e < length (jr_class_facts jar) \<and>
     he_parent e < length (cf_parents (jr_class_facts jar ! he_class e))"
proof
  assume "e \<in> set (jar_edges j jar)"
  then obtain c facts p where "(c, facts) \<in> set (enumerate 0 (jr_class_facts jar))" "p < length (cf_parents facts)"
    "e = \<lparr> he_jar = j, he_class = c, he_parent = p \<rparr>"
    unfolding jar_edges_def by auto
  then show "he_jar e = j \<and> he_class e < length (jr_class_facts jar) \<and>
      he_parent e < length (cf_parents (jr_class_facts jar ! he_class e))"
    unfolding in_enumerate by auto
next
  assume e: "he_jar e = j \<and> he_class e < length (jr_class_facts jar) \<and>
      he_parent e < length (cf_parents (jr_class_facts jar ! he_class e))"
  then have "(he_class e, jr_class_facts jar ! he_class e) \<in> set (enumerate 0 (jr_class_facts jar))"
    unfolding in_enumerate by simp
  moreover have "e = \<lparr> he_jar = j, he_class = he_class e, he_parent = he_parent e \<rparr>" using e by simp
  ultimately show "e \<in> set (jar_edges j jar)" using e unfolding jar_edges_def by force
qed

lemma in_all_edges:
  "e \<in> set (all_edges jars) \<longleftrightarrow> he_jar e < length jars \<and> e \<in> set (jar_edges (he_jar e) (jars ! he_jar e))"
proof
  assume "e \<in> set (all_edges jars)"
  then obtain j jar where j: "(j, jar) \<in> set (enumerate 0 jars)" "e \<in> set (jar_edges j jar)"
    unfolding all_edges_def by auto
  then have "he_jar e = j" by (simp add: in_jar_edges)
  then show "he_jar e < length jars \<and> e \<in> set (jar_edges (he_jar e) (jars ! he_jar e))"
    using j unfolding in_enumerate by auto
next
  assume e: "he_jar e < length jars \<and> e \<in> set (jar_edges (he_jar e) (jars ! he_jar e))"
  then have "(he_jar e, jars ! he_jar e) \<in> set (enumerate 0 jars)" unfolding in_enumerate by simp
  then show "e \<in> set (all_edges jars)" using e unfolding all_edges_def by force
qed

lemma edge_is_fact:
  assumes "e \<in> set (all_edges jars)" "to_ascii_lowercase (edge_parent jars e) = to_ascii_lowercase parent"
  shows "jars ! he_jar e \<in> set jars \<and> subtype_fact (jars ! he_jar e) parent (edge_child jars e) (edge_relation jars e)"
  using assms unfolding in_all_edges in_jar_edges subtype_fact_def edge_parent_def edge_child_def edge_relation_def edge_facts_def
  by (metis nth_mem)

lemma fact_is_edge:
  assumes "jar \<in> set jars" "subtype_fact jar parent child relation"
  shows "\<exists>e\<in>set (all_edges jars). to_ascii_lowercase (edge_parent jars e) = to_ascii_lowercase parent \<and>
    edge_child jars e = child \<and> edge_relation jars e = relation \<and> jars ! he_jar e = jar"
proof -
  obtain j where j: "j < length jars" "jars ! j = jar" using assms(1) by (metis in_set_conv_nth)
  obtain facts p where f: "facts \<in> set (jr_class_facts jar)" "p \<in> set (cf_parents facts)"
    "fact_text jar (cf_source_class facts) = child"
    "to_ascii_lowercase (fact_text jar (itp_parent p)) = to_ascii_lowercase parent" "itp_relation p = relation"
    using assms(2) unfolding subtype_fact_def by blast
  obtain c where c: "c < length (jr_class_facts jar)" "jr_class_facts jar ! c = facts" using f(1) by (metis in_set_conv_nth)
  obtain i where i: "i < length (cf_parents facts)" "cf_parents facts ! i = p" using f(2) by (metis in_set_conv_nth)
  let ?e = "\<lparr> he_jar = j, he_class = c, he_parent = i \<rparr>"
  have "?e \<in> set (all_edges jars)" using j c i by (simp add: in_all_edges in_jar_edges)
  moreover have "edge_parent jars ?e = fact_text jar (itp_parent p)" "edge_child jars ?e = child"
    "edge_relation jars ?e = relation"
    using j c i f by (simp_all add: edge_parent_def edge_child_def edge_relation_def edge_facts_def)
  ultimately show ?thesis using f(4) j by (intro bexI [of _ ?e]) simp_all
qed

lemma in_children_of:
  "e \<in> set (children_of (index_of_records lower root m n records) parent) \<longleftrightarrow>
     e \<in> set (all_edges records) \<and> to_ascii_lowercase (edge_parent records e) = to_ascii_lowercase parent"
proof -
  let ?groups = "fold (\<lambda>e. push_entry (to_ascii_lowercase (edge_parent records e)) e) (all_edges records) []"
  have sorted: "set (opt_list (map_option (sort_key f) x)) = set (opt_list x)" for f :: "HierarchyEdge \<Rightarrow> str \<times> str \<times> TypeRelation" and x
    by (cases x) auto
  have "map_of (build_children_by_parent records) k = map_option (sort_key (edge_sort_key records)) (map_of ?groups k)" for k
    unfolding build_children_by_parent_def by (rule map_of_map_values)
  then have "set (children_of (index_of_records lower root m n records) parent) =
      set (opt_list (map_of ?groups (to_ascii_lowercase parent)))"
    by (simp add: children_of_def sorted)
  also have "\<dots> = set (filter (\<lambda>e. to_ascii_lowercase (edge_parent records e) = to_ascii_lowercase parent) (all_edges records))"
    using group_entries [where k = "\<lambda>e. to_ascii_lowercase (edge_parent records e)" and v = "\<lambda>e. e" and m = "[]"] by simp
  finally show ?thesis by auto
qed

section \<open>Every result is a chain of facts\<close>

definition fact_chain :: "JarRecord list \<Rightarrow> str list \<Rightarrow> bool" where
  "fact_chain jars path \<longleftrightarrow>
     (\<forall>i. Suc i < length path \<longrightarrow> (\<exists>jar\<in>set jars. \<exists>relation. subtype_fact jar (path ! i) (path ! Suc i) relation))"

definition entry_ok :: "JarRecord list \<Rightarrow> str \<Rightarrow> str \<times> str list \<times> nat \<Rightarrow> bool" where
  "entry_ok jars root = (\<lambda>(parent, path, depth).
     path \<noteq> [] \<and> hd path = root \<and> last path = parent \<and> length path = depth + 1 \<and> distinct path \<and> fact_chain jars path)"

definition match_ok :: "JarRecord list \<Rightarrow> str option \<Rightarrow> str \<Rightarrow> TypeHierarchyMatch \<Rightarrow> bool" where
  "match_ok jars selector root m \<longleftrightarrow>
     entry_ok jars root (tm_type_name m, tm_path m, tm_depth m) \<and> 0 < tm_depth m \<and>
     (\<exists>jar\<in>set jars. selected_by selector jar \<and> tm_jar m = summary jar \<and>
        subtype_fact jar (tm_path m ! (tm_depth m - 1)) (tm_type_name m) (tm_relation m))"

lemma entry_ok_extend:
  assumes "entry_ok jars root (parent, path, depth)" "jar \<in> set jars" "subtype_fact jar parent child relation"
    "child \<notin> set path"
  shows "entry_ok jars root (child, path @ [child], depth + 1)"
proof -
  have "fact_chain jars (path @ [child])"
    unfolding fact_chain_def
  proof (intro allI impI)
    fix i assume i: "Suc i < length (path @ [child])"
    show "\<exists>jar\<in>set jars. \<exists>relation. subtype_fact jar ((path @ [child]) ! i) ((path @ [child]) ! Suc i) relation"
    proof (cases "Suc i < length path")
      case True
      then show ?thesis using assms(1) by (auto simp: entry_ok_def fact_chain_def nth_append)
    next
      case False
      then have "Suc i = length path" using i by simp
      then have "(path @ [child]) ! i = parent" "(path @ [child]) ! Suc i = child"
        using assms(1) by (auto simp: entry_ok_def nth_append last_conv_nth simp flip: \<open>Suc i = length path\<close>)
      then show ?thesis using assms(2,3) by auto
    qed
  qed
  then show ?thesis using assms by (auto simp: entry_ok_def)
qed

lemma scan_edges_sound:
  assumes "scan_edges lower jars selector limit transitive path depth es (visited, matches, pushed) =
      (finished, visited', matches', pushed')"
    and "entry_ok jars root (parent, path, depth)"
    and "\<forall>e\<in>set es. e \<in> set (all_edges jars) \<and> to_ascii_lowercase (edge_parent jars e) = to_ascii_lowercase parent"
    and "\<forall>m\<in>set matches. match_ok jars selector root m" "\<forall>q\<in>set pushed. entry_ok jars root q"
    and "length matches < limit"
  shows "(\<forall>m\<in>set matches'. match_ok jars selector root m) \<and> (\<forall>q\<in>set pushed'. entry_ok jars root q) \<and>
    (if finished then length matches' = limit else length matches' < limit)"
  using assms
proof (induction es arbitrary: visited matches pushed)
  case (Cons e es)
  let ?key = "visit_key lower jars e" and ?child = "edge_child jars e" and ?jar = "jars ! he_jar e"
  show ?case
  proof (cases "?key \<in> visited \<or> ?child \<in> set path")
    case True
    then show ?thesis using Cons.prems by (intro Cons.IH [of "insert ?key visited" matches pushed]) (simp_all add: Let_def)
  next
    case False
    let ?m = "\<lparr> tm_type_name = ?child, tm_jar = summary ?jar, tm_relation = edge_relation jars e,
      tm_depth = depth + 1, tm_path = path @ [?child] \<rparr>"
    have fact: "?jar \<in> set jars" "subtype_fact ?jar parent ?child (edge_relation jars e)"
      using edge_is_fact Cons.prems(3) by auto
    have entry: "entry_ok jars root (?child, path @ [?child], depth + 1)"
      using entry_ok_extend [OF Cons.prems(2) fact] False by blast
    have "(path @ [?child]) ! depth = parent"
      using Cons.prems(2) by (auto simp: entry_ok_def nth_append last_conv_nth)
    then have m: "match_ok jars selector root ?m" if "selected_by selector ?jar"
      using entry fact that by (auto simp: match_ok_def)
    let ?matches = "if selected_by selector ?jar then matches @ [?m] else matches"
    have ok: "\<forall>m\<in>set ?matches. match_ok jars selector root m" using Cons.prems(4) m by auto
    show ?thesis
    proof (cases "selected_by selector ?jar \<and> length ?matches = limit")
      case True
      then show ?thesis using Cons.prems(1,5) False ok by (auto simp: Let_def)
    next
      case go: False
      let ?pushed = "if transitive then pushed @ [(?child, path @ [?child], depth + 1)] else pushed"
      have "scan_edges lower jars selector limit transitive path depth es (insert ?key visited, ?matches, ?pushed) =
          (finished, visited', matches', pushed')"
        using Cons.prems(1) False go by (simp add: Let_def split: if_splits)
      moreover have "\<forall>q\<in>set ?pushed. entry_ok jars root q" using Cons.prems(5) entry by auto
      moreover have "length ?matches < limit" using go Cons.prems(6) by (auto split: if_splits)
      ultimately show ?thesis using Cons.prems(2,3) ok by (intro Cons.IH) auto
    qed
  qed
qed auto

lemma search_loop_sound:
  assumes "\<forall>q\<in>set queue. entry_ok records root q" "\<forall>m\<in>set matches. match_ok records selector root m"
    and "length matches < limit" "idx = index_of_records lower r n k records"
  shows "(\<forall>m\<in>set (search_loop lower idx selector limit transitive queue visited matches). match_ok records selector root m) \<and>
    length (search_loop lower idx selector limit transitive queue visited matches) \<le> limit"
  using assms
proof (induction lower idx selector limit transitive queue visited matches rule: search_loop.induct)
  case (2 lower idx selector limit transitive parent path depth rest visited matches)
  have jars: "mx_jars idx = records" using 2(5) by simp
  obtain finished visited' matches' pushed where scan:
    "scan_edges lower records selector limit transitive path depth (children_of idx parent) (visited, matches, []) =
      (finished, visited', matches', pushed)" by (cases "scan_edges lower records selector limit transitive path depth (children_of idx parent) (visited, matches, [])")
  have children: "\<forall>e\<in>set (children_of idx parent). e \<in> set (all_edges records) \<and>
      to_ascii_lowercase (edge_parent records e) = to_ascii_lowercase parent"
    by (simp add: 2(5) in_children_of)
  have ok: "\<forall>m\<in>set matches'. match_ok records selector root m" "\<forall>q\<in>set pushed. entry_ok records root q"
    "if finished then length matches' = limit else length matches' < limit"
    using scan_edges_sound [OF scan _ children, of root] 2(2-4) by auto
  show ?case
  proof (cases "finished \<or> \<not> transitive")
    case True
    then show ?thesis using ok scan jars by (auto simp: search_loop.simps split: if_splits)
  next
    case False
    then have "search_loop lower idx selector limit transitive ((parent, path, depth) # rest) visited matches =
        search_loop lower idx selector limit transitive (rest @ pushed) visited' matches'"
      using scan jars by (simp add: search_loop.simps)
    moreover have "(\<forall>m\<in>set (search_loop lower idx selector limit transitive (rest @ pushed) visited' matches').
        match_ok records selector root m) \<and>
      length (search_loop lower idx selector limit transitive (rest @ pushed) visited' matches') \<le> limit"
      using False 2(2,5) ok by (intro 2(1) [OF scan [folded jars, symmetric] refl refl refl]) auto
    ultimately show ?thesis by simp
  qed
qed simp

lemma scan_edges_depth:
  "scan_edges lower jars selector limit transitive path depth es (visited, matches, pushed) =
     (finished, visited', matches', pushed') \<Longrightarrow>
   m \<in> set matches' \<Longrightarrow> m \<in> set matches \<or> tm_depth m = depth + 1"
proof (induction es arbitrary: transitive visited matches pushed)
  case (Cons e es)
  have rest: "m \<in> set ms \<or> tm_depth m = depth + 1"
    if "scan_edges lower jars selector limit t path depth es (v, ms, p) = (finished, visited', matches', pushed')"
    for t v ms p
    using Cons.IH [OF that Cons.prems(2)] .
  show ?case using Cons.prems
    by (auto simp: Let_def split: if_splits dest!: rest)
qed simp

text \<open>
  Claim C14: type_hierarchy_sound.  The subtype search ends on every index, cyclic or not, and answers at
  most as many results as its limit.  Every result is justified: its path leads from the queried type to
  the result without repeating a type, its depth is the length of the path, each step is an extends or
  implements fact of some JAR, the last one with the reported relation in the reported, selected JAR; and
  a search that is not transitive answers direct subtypes only.
\<close>

theorem type_hierarchy_sound:
  assumes "search_type_hierarchy lower (index_of_records lower r n k records) type_name transitive selector requested =
      Some results"
  shows "(\<forall>m\<in>set results. match_ok records selector (normalize_class_query type_name) m \<and>
      (\<not> transitive \<longrightarrow> tm_depth m = 1)) \<and>
    (\<forall>limit. limit_of (index_of_records lower r n k records) requested = Some limit \<longrightarrow> length results \<le> limit)"
proof (cases "normalize_class_query type_name = []")
  case True
  then show ?thesis using assms by (simp add: search_type_hierarchy_def)
next
  case False
  let ?idx = "index_of_records lower r n k records" and ?root = "normalize_class_query type_name"
  from assms False obtain limit where limit: "limit_of ?idx requested = Some limit"
    and results: "results = search_loop lower ?idx selector limit transitive [(?root, [?root], 0)] {} []"
    by (auto simp: search_type_hierarchy_def Let_def)
  have "0 < limit" using limit_of_Some [OF limit] by simp
  then have "(\<forall>m\<in>set results. match_ok records selector ?root m) \<and> length results \<le> limit"
    unfolding results by (intro search_loop_sound [OF _ _ _ refl]) (simp_all add: entry_ok_def fact_chain_def)
  moreover have "tm_depth m = 1" if "\<not> transitive" "m \<in> set results" for m
  proof -
    obtain finished v ms p where scan: "scan_edges lower records selector limit transitive [?root] 0 (children_of ?idx ?root) ({}, [], []) =
        (finished, v, ms, p)"
      by (cases "scan_edges lower records selector limit transitive [?root] 0 (children_of ?idx ?root) ({}, [], [])")
    then have "results = ms" using that(1) unfolding results by (simp add: search_loop.simps)
    then show ?thesis using scan_edges_depth [OF scan] that(2) by auto
  qed
  ultimately show ?thesis using limit by auto
qed

section \<open>No subtype is missed\<close>

abbreviation names_of :: "(str \<times> str list \<times> nat) list \<Rightarrow> str set" where
  "names_of queue \<equiv> fst ` set queue"

text \<open>
  What a scan that does not reach the limit leaves behind, for a search over all JARs: every edge is
  visited, every visited edge leads to a known name up to letter case, and what was pushed was reported.
\<close>

definition scan_inv ::
  "(str \<Rightarrow> str) \<Rightarrow> JarRecord list \<Rightarrow> str list \<Rightarrow> str set \<Rightarrow> scan_state \<Rightarrow> bool" where
  "scan_inv lower jars path known = (\<lambda>(visited, matches, pushed).
     (\<forall>key\<in>visited. \<exists>x\<in>known \<union> names_of pushed. lower x = fst key) \<and>
     (\<forall>(name, p, _)\<in>set pushed. set p \<subseteq> insert name (set path) \<and> (\<exists>m\<in>set matches. tm_type_name m = name) \<and>
        name \<in> edge_child jars ` set (all_edges jars)))"

lemma scan_edges_complete:
  assumes "scan_edges lower jars None limit True path depth es st = (False, st')"
    and "set path \<subseteq> known" "set es \<subseteq> set (all_edges jars)" "scan_inv lower jars path known st"
  shows "scan_inv lower jars path known st' \<and> set (fst (snd st)) \<subseteq> set (fst (snd st')) \<and>
    set (snd (snd st)) \<subseteq> set (snd (snd st')) \<and> fst st \<subseteq> fst st' \<and> visit_key lower jars ` set es \<subseteq> fst st'"
  using assms
proof (induction es arbitrary: st)
  case (Cons e es)
  obtain visited matches pushed where st: "st = (visited, matches, pushed)" by (cases st)
  let ?key = "visit_key lower jars e" and ?child = "edge_child jars e"
  have key: "fst ?key = lower ?child" by (simp add: visit_key_def)
  show ?case
  proof (cases "?key \<in> visited \<or> ?child \<in> set path")
    case True
    let ?st = "(insert ?key visited, matches, pushed)"
    have scan: "scan_edges lower jars None limit True path depth es ?st = (False, st')"
      using Cons.prems(1) True by (simp add: st Let_def)
    have seen: "\<exists>x\<in>known \<union> names_of pushed. lower x = fst k" if "k \<in> visited" for k
      using Cons.prems(4) that by (simp add: scan_inv_def st)
    have "\<exists>x\<in>known \<union> names_of pushed. lower x = fst ?key"
    proof (cases "?key \<in> visited")
      case False
      then have "?child \<in> known" using True Cons.prems(2) by blast
      then show ?thesis using key by auto
    qed (rule seen)
    then have "scan_inv lower jars path known ?st" using Cons.prems(4) by (auto simp: scan_inv_def st)
    from Cons.IH [OF scan Cons.prems(2) _ this] Cons.prems(3) show ?thesis by (auto simp: st)
  next
    case False
    let ?m = "\<lparr> tm_type_name = ?child, tm_jar = summary (jars ! he_jar e), tm_relation = edge_relation jars e,
      tm_depth = depth + 1, tm_path = path @ [?child] \<rparr>"
    let ?st = "(insert ?key visited, matches @ [?m], pushed @ [(?child, path @ [?child], depth + 1)])"
    have scan: "scan_edges lower jars None limit True path depth es ?st = (False, st')"
      using Cons.prems(1) False by (auto simp: st Let_def selected_by_def split: if_splits)
    have "scan_inv lower jars path known ?st" using Cons.prems(3,4) key by (auto simp: scan_inv_def st)
    from Cons.IH [OF scan Cons.prems(2) _ this] Cons.prems(3) show ?thesis by (auto simp: st)
  qed
qed simp

lemma scan_edges_finished:
  "scan_edges lower jars selector limit transitive path depth es (visited, matches, pushed) =
     (True, visited', matches', pushed') \<Longrightarrow> length matches' = limit"
proof (induction es arbitrary: transitive visited matches pushed)
  case (Cons e es)
  have rest: "length matches' = limit"
    if "scan_edges lower jars selector limit t path depth es (v, ms, p) = (True, visited', matches', pushed')"
    for t v ms p
    using Cons.IH [OF that] .
  show ?case using Cons.prems by (auto simp: Let_def split: if_splits dest!: rest)
qed simp

text \<open>
  The names that were expanded (\<open>finished\<close>) or wait in the queue: visited edges lead to them, paths run
  through them, all but the root were reported, and the children of an expanded name are among them.
\<close>

definition known_names :: "str set \<Rightarrow> (str \<times> str list \<times> nat) list \<Rightarrow> str set" where
  "known_names expanded queue = expanded \<union> names_of queue"

definition loop_inv ::
  "(str \<Rightarrow> str) \<Rightarrow> MavenIndex \<Rightarrow> str \<Rightarrow> str set \<Rightarrow> (str \<times> str list \<times> nat) list \<Rightarrow> edge_key set \<Rightarrow>
     TypeHierarchyMatch list \<Rightarrow> bool" where
  "loop_inv lower idx root expanded queue visited matches \<longleftrightarrow>
     root \<in> known_names expanded queue \<and>
     (\<forall>key\<in>visited. \<exists>x\<in>known_names expanded queue. lower x = fst key) \<and>
     (\<forall>(_, path, _)\<in>set queue. set path \<subseteq> known_names expanded queue) \<and>
     (\<forall>x\<in>known_names expanded queue. x = root \<or>
        (\<exists>m\<in>set matches. tm_type_name m = x) \<and> x \<in> edge_child (mx_jars idx) ` set (all_edges (mx_jars idx))) \<and>
     (\<forall>x\<in>expanded. \<forall>e\<in>set (children_of idx x). \<exists>y\<in>known_names expanded queue.
        lower y = lower (edge_child (mx_jars idx) e))"

lemma loop_inv_step:
  assumes inv: "loop_inv lower idx root expanded ((parent, path, depth) # rest) visited matches"
    and scan: "scan_edges lower (mx_jars idx) None limit True path depth (children_of idx parent) (visited, matches, []) =
      (False, visited', matches', pushed)"
    and edges: "set (children_of idx parent) \<subseteq> set (all_edges (mx_jars idx))"
  shows "loop_inv lower idx root (insert parent expanded) (rest @ pushed) visited' matches'"
proof -
  let ?N = "known_names expanded ((parent, path, depth) # rest)"
  let ?N' = "known_names (insert parent expanded) (rest @ pushed)"
  have N': "?N' = ?N \<union> names_of pushed" by (auto simp: known_names_def)
  have path: "set path \<subseteq> ?N" using inv by (simp add: loop_inv_def)
  have "scan_inv lower (mx_jars idx) path ?N (visited, matches, [])"
    using inv by (simp add: scan_inv_def loop_inv_def)
  from scan_edges_complete [OF scan path edges this]
  have si: "scan_inv lower (mx_jars idx) path ?N (visited', matches', pushed)"
    and ms: "set matches \<subseteq> set matches'" and keys: "visit_key lower (mx_jars idx) ` set (children_of idx parent) \<subseteq> visited'"
    by simp_all
  have visited: "\<forall>key\<in>visited'. \<exists>x\<in>?N'. lower x = fst key"
    using si unfolding N' scan_inv_def by simp
  have "\<forall>(_, p, _)\<in>set pushed. set p \<subseteq> ?N'"
    using si path unfolding N' scan_inv_def by force
  moreover have "\<forall>(_, p, _)\<in>set rest. set p \<subseteq> ?N'"
    using inv unfolding N' loop_inv_def by force
  moreover have "x = root \<or> (\<exists>m\<in>set matches'. tm_type_name m = x) \<and> x \<in> edge_child (mx_jars idx) ` set (all_edges (mx_jars idx))"
    if "x \<in> ?N'" for x
  proof -
    from that consider "x \<in> ?N" | name p d where "(name, p, d) \<in> set pushed" "x = name"
      unfolding N' by auto
    then show ?thesis
    proof cases
      case 1
      then have "x = root \<or> (\<exists>m\<in>set matches. tm_type_name m = x) \<and> x \<in> edge_child (mx_jars idx) ` set (all_edges (mx_jars idx))"
        using inv unfolding loop_inv_def by blast
      then show ?thesis using ms by blast
    next
      case 2
      then show ?thesis using si unfolding scan_inv_def by auto
    qed
  qed
  moreover have "\<exists>y\<in>?N'. lower y = lower (edge_child (mx_jars idx) e)"
    if "x \<in> insert parent expanded" "e \<in> set (children_of idx x)" for x e
  proof (cases "x = parent")
    case True
    then have "visit_key lower (mx_jars idx) e \<in> visited'" using that keys by blast
    then show ?thesis using visited by (force simp: visit_key_def)
  next
    case False
    then show ?thesis using that inv unfolding N' loop_inv_def by blast
  qed
  moreover have "root \<in> ?N'" using inv unfolding N' loop_inv_def by blast
  ultimately show ?thesis using visited unfolding loop_inv_def by auto
qed

lemma search_loop_complete:
  assumes "loop_inv lower idx root expanded queue visited matches" "idx = index_of_records lower r n k records"
    and "length (search_loop lower idx None limit True queue visited matches) < limit"
  shows "\<exists>expanded' visited'. loop_inv lower idx root expanded' [] visited'
    (search_loop lower idx None limit True queue visited matches)"
  using assms
proof (induction lower idx "None :: str option" limit True queue visited matches arbitrary: expanded rule: search_loop.induct)
  case (1 lower idx limit visited matches)
  then show ?case by auto
next
  case (2 lower idx limit parent path depth rest visited matches)
  obtain finished visited' matches' pushed where scan:
    "scan_edges lower (mx_jars idx) None limit True path depth (children_of idx parent) (visited, matches, []) =
      (finished, visited', matches', pushed)"
    by (cases "scan_edges lower (mx_jars idx) None limit True path depth (children_of idx parent) (visited, matches, [])")
  have result: "search_loop lower idx None limit True ((parent, path, depth) # rest) visited matches =
      (if finished then matches' else search_loop lower idx None limit True (rest @ pushed) visited' matches')"
    using scan by (simp add: search_loop.simps)
  have "\<not> finished"
  proof
    assume finished
    then have "scan_edges lower (mx_jars idx) None limit True path depth (children_of idx parent) (visited, matches, []) =
        (True, visited', matches', pushed)" using scan by simp
    then have "length matches' = limit" by (rule scan_edges_finished)
    then show False using 2(4) result \<open>finished\<close> by simp
  qed
  have edges: "set (children_of idx parent) \<subseteq> set (all_edges (mx_jars idx))"
    by (auto simp: 2(3) in_children_of)
  have "loop_inv lower idx root (insert parent expanded) (rest @ pushed) visited' matches'"
    using loop_inv_step [OF 2(2) _ edges] scan \<open>\<not> finished\<close> by simp
  from 2(1) [OF scan [symmetric] refl refl refl _ this 2(3)] 2(4) \<open>\<not> finished\<close>
  show ?case unfolding result by simp
qed

definition direct_subtype :: "JarRecord list \<Rightarrow> str \<Rightarrow> str \<Rightarrow> bool" where
  "direct_subtype jars parent child \<longleftrightarrow> (\<exists>jar\<in>set jars. \<exists>relation. subtype_fact jar parent child relation)"

definition is_ascii :: "str \<Rightarrow> bool" where
  "is_ascii s \<longleftrightarrow> list_all (\<lambda>c. c < 128) s"

lemma expanded_closed:
  assumes inv: "loop_inv lower idx root expanded [] visited matches" and idx: "idx = index_of_records lower r n k records"
    and lower: "\<And>s. is_ascii s \<Longrightarrow> lower s = to_ascii_lowercase s"
    and ascii: "is_ascii root" "\<forall>e\<in>set (all_edges records). is_ascii (edge_child records e)"
    and reach: "(direct_subtype records)\<^sup>*\<^sup>* root t"
  shows "is_ascii t \<and> (\<exists>x\<in>expanded. is_ascii x \<and> lower x = lower t)"
  using reach
proof (induction rule: rtranclp_induct)
  case base
  then show ?case using inv ascii(1) by (auto simp: loop_inv_def known_names_def)
next
  case (step t u)
  then obtain x where x: "x \<in> expanded" "is_ascii x" "lower x = lower t" "is_ascii t" by blast
  then have same: "to_ascii_lowercase t = to_ascii_lowercase x" using lower by simp
  from step(2) obtain jar relation where "jar \<in> set records" "subtype_fact jar t u relation"
    unfolding direct_subtype_def by blast
  then obtain e where e: "e \<in> set (all_edges records)" "to_ascii_lowercase (edge_parent records e) = to_ascii_lowercase t"
    "edge_child records e = u" using fact_is_edge by blast
  then have child: "e \<in> set (children_of idx x)" using same by (simp add: idx in_children_of)
  have closed: "\<forall>x\<in>expanded. \<forall>e\<in>set (children_of idx x). \<exists>y\<in>expanded. lower y = lower (edge_child records e)"
    using inv by (simp add: loop_inv_def known_names_def idx)
  note bspec [OF bspec [OF closed x(1)] child]
  then obtain y where y: "y \<in> expanded" "lower y = lower u" unfolding e(3) by (elim bexE)
  have "is_ascii y" using inv y(1) ascii by (auto simp: loop_inv_def known_names_def idx)
  moreover have "is_ascii u" using ascii(2) e by auto
  ultimately show ?case using y by blast
qed

text \<open>
  Claim C15: type_hierarchy_complete.  A transitive subtype search over all JARs (no selector) that stays below its
  limit misses nothing up to letter case, for names in ASCII, for which \<open>to_lowercase\<close> is
  \<open>to_ascii_lowercase\<close>: every type that reaches the queried type over extends and implements facts, in any
  number of steps and across JARs, is reported under its lower-cased name, unless that is the queried
  type itself; and it is reported by its own name when no indexed subtype is spelled like it but for
  case.  (Of two subtypes in one JAR whose names differ only in case one is never reported:
  \<open>twin_subtype_missed\<close>.)
\<close>

theorem type_hierarchy_complete:
  assumes search: "search_type_hierarchy lower (index_of_records lower r n k records) type_name True None requested = Some results"
    and below: "limit_of (index_of_records lower r n k records) requested = Some limit" "length results < limit"
    and lower: "\<And>s. is_ascii s \<Longrightarrow> lower s = to_ascii_lowercase s"
    and ascii: "is_ascii (normalize_class_query type_name)"
      "\<forall>e\<in>set (all_edges records). is_ascii (edge_child records e)"
    and root: "normalize_class_query type_name \<noteq> []"
    and reach: "(direct_subtype records)\<^sup>*\<^sup>* (normalize_class_query type_name) t"
  shows "lower t = lower (normalize_class_query type_name) \<or>
    (\<exists>m\<in>set results. lower (tm_type_name m) = lower t \<and>
       ((\<forall>e\<in>set (all_edges records). lower (edge_child records e) = lower t \<longrightarrow> edge_child records e = t) \<longrightarrow>
        tm_type_name m = t))"
proof -
  let ?idx = "index_of_records lower r n k records" and ?root = "normalize_class_query type_name"
  have results: "results = search_loop lower ?idx None limit True [(?root, [?root], 0)] {} []"
    using search root below(1) by (simp add: search_type_hierarchy_def Let_def)
  have "loop_inv lower ?idx ?root {} [(?root, [?root], 0)] {} []"
    by (simp add: loop_inv_def known_names_def)
  from search_loop_complete [OF this refl] below(2) obtain expanded visited where
    inv: "loop_inv lower ?idx ?root expanded [] visited results" unfolding results by blast
  from expanded_closed [OF inv refl lower ascii reach] obtain x where x: "x \<in> expanded" "lower x = lower t" by blast
  then have "x = ?root \<or> (\<exists>m\<in>set results. tm_type_name m = x) \<and> x \<in> edge_child records ` set (all_edges records)"
    using inv unfolding loop_inv_def known_names_def by auto
  then show ?thesis
  proof
    assume "(\<exists>m\<in>set results. tm_type_name m = x) \<and> x \<in> edge_child records ` set (all_edges records)"
    then obtain m e where m: "m \<in> set results" "tm_type_name m = x" and e: "e \<in> set (all_edges records)" "edge_child records e = x"
      by auto
    show ?thesis
    proof (intro disjI2 bexI conjI impI)
      show "lower (tm_type_name m) = lower t" using m(2) x(2) by simp
      assume all: "\<forall>e\<in>set (all_edges records). lower (edge_child records e) = lower t \<longrightarrow> edge_child records e = t"
      have "lower (edge_child records e) = lower t" using e(2) x(2) by simp
      with all e(1) have "edge_child records e = t" by blast
      then show "tm_type_name m = t" using e(2) m(2) by simp
    qed (rule m(1))
  qed (use x(2) in simp)
qed

text \<open>Two subtypes whose names differ only in case: the second one is not reported.\<close>

definition twin_jar :: JarRecord where
  "twin_jar = sample_jar \<lparr> jr_fact_strings := [lit ''p.A'', lit ''p.B'', lit ''p.a''],
     jr_class_facts :=
       [\<lparr> cf_source_class = 1, cf_source_file = None, cf_parents = [IndexedTypeParent 2 Extends], cf_references = [] \<rparr>,
        \<lparr> cf_source_class = 3, cf_source_file = None, cf_parents = [IndexedTypeParent 2 Extends], cf_references = [] \<rparr>] \<rparr>"

lemma twin_subtype_missed:
  "map_option (map tm_type_name) (search_type_hierarchy to_ascii_lowercase
     (index_of_records to_ascii_lowercase [] 9 8 [twin_jar]) (lit ''p.B'') True None None) = Some [lit ''p.A'']"
  by code_simp

lemma twin_subtype: "direct_subtype [twin_jar] (lit ''p.B'') (lit ''p.a'')"
  unfolding direct_subtype_def subtype_fact_def
  by (simp add: twin_jar_def sample_jar_def fact_text_def fact_string_def fact_string_at_def)

section \<open>An example\<close>

lemma sample_search:
  "\<exists>m. search_type_hierarchy to_ascii_lowercase (index_of_records to_ascii_lowercase [] 9 8 [sample_jar]) (lit ''p.B'') True None None =
     Some [m] \<and> tm_type_name m = lit ''p.A'' \<and> tm_depth m = 1"
proof -
  have edge: "all_edges [sample_jar] = [\<lparr> he_jar = 0, he_class = 0, he_parent = 0 \<rparr>]"
    by (simp add: all_edges_def jar_edges_def sample_jar_def)
  let ?e = "\<lparr> he_jar = 0, he_class = 0, he_parent = 0 \<rparr>"
  have names: "edge_child [sample_jar] ?e = lit ''p.A''" "edge_parent [sample_jar] ?e = lit ''p.B''"
    by (simp_all add: edge_child_def edge_parent_def edge_facts_def sample_jar_def fact_text_def fact_string_def
      fact_string_at_def)
  have children: "build_children_by_parent [sample_jar] = [(to_ascii_lowercase (lit ''p.B''), [?e])]"
    by (simp add: build_children_by_parent_def edge names push_entry_def del: lit.simps)
  have neq: "to_ascii_lowercase (lit ''p.A'') \<noteq> to_ascii_lowercase (lit ''p.B'')" "lit ''p.A'' \<noteq> lit ''p.B''"
    by (simp_all add: to_ascii_lowercase_def to_ascii_lower_def)
  have root: "normalize_class_query (lit ''p.B'') = lit ''p.B''"
    by (simp add: normalize_class_query_def trim_def trim_start_def trim_end_def is_whitespace_def trim_end_matches_def
      trim_start_matches.simps)
  have "lit ''p.B'' \<noteq> []" by simp
  then show ?thesis
    using neq
    by (simp add: search_type_hierarchy_def root limit_of_def search_loop.simps children_of_def children names Let_def
      selected_by_def del: lit.simps)
qed

theorem type_hierarchy_sound_witness:
  "\<exists>m. search_type_hierarchy to_ascii_lowercase (index_of_records to_ascii_lowercase [] 9 8 [sample_jar]) (lit ''p.B'') True None None =
     Some [m] \<and> match_ok [sample_jar] None (normalize_class_query (lit ''p.B'')) m"
proof -
  obtain m where m: "search_type_hierarchy to_ascii_lowercase (index_of_records to_ascii_lowercase [] 9 8 [sample_jar])
      (lit ''p.B'') True None None = Some [m]" using sample_search by blast
  from type_hierarchy_sound [OF m] m show ?thesis by (intro exI [of _ m]) simp
qed

theorem type_hierarchy_complete_witness:
  "\<exists>m. search_type_hierarchy to_ascii_lowercase (index_of_records to_ascii_lowercase [] 9 8 [sample_jar]) (lit ''p.B'') True None None =
     Some [m] \<and> tm_type_name m = lit ''p.A''"
proof -
  let ?idx = "index_of_records to_ascii_lowercase [] 9 8 [sample_jar]"
  obtain m where m: "search_type_hierarchy to_ascii_lowercase ?idx (lit ''p.B'') True None None = Some [m]"
    using sample_search by blast
  have root: "normalize_class_query (lit ''p.B'') = lit ''p.B''"
    by (simp add: normalize_class_query_def trim_def trim_start_def trim_end_def is_whitespace_def trim_end_matches_def
      trim_start_matches.simps)
  have edges: "all_edges [sample_jar] = [\<lparr> he_jar = 0, he_class = 0, he_parent = 0 \<rparr>]"
    by (simp add: all_edges_def jar_edges_def sample_jar_def)
  have ascii: "is_ascii (normalize_class_query (lit ''p.B''))"
    "\<forall>e\<in>set (all_edges [sample_jar]). is_ascii (edge_child [sample_jar] e)"
    unfolding root edges
    by (simp_all add: is_ascii_def edge_child_def edge_facts_def sample_jar_def fact_text_def fact_string_def fact_string_at_def)
  have "direct_subtype [sample_jar] (normalize_class_query (lit ''p.B'')) (lit ''p.A'')"
    unfolding root direct_subtype_def subtype_fact_def
    by (simp add: sample_jar_def fact_text_def fact_string_def fact_string_at_def)
  then have reach: "(direct_subtype [sample_jar])\<^sup>*\<^sup>* (normalize_class_query (lit ''p.B'')) (lit ''p.A'')" by blast
  have limit: "limit_of ?idx None = Some 9" by (simp add: limit_of_def)
  have "to_ascii_lowercase (lit ''p.A'') \<noteq> to_ascii_lowercase (lit ''p.B'')"
    by (simp add: to_ascii_lowercase_def to_ascii_lower_def)
  moreover have "\<forall>e\<in>set (all_edges [sample_jar]). edge_child [sample_jar] e = lit ''p.A''"
    unfolding edges by (simp add: edge_child_def edge_facts_def sample_jar_def fact_text_def fact_string_def fact_string_at_def)
  moreover have "to_ascii_lowercase (lit ''p.A'') = to_ascii_lowercase (normalize_class_query (lit ''p.B'')) \<or>
      (\<exists>x\<in>set [m]. to_ascii_lowercase (tm_type_name x) = to_ascii_lowercase (lit ''p.A'') \<and>
        ((\<forall>e\<in>set (all_edges [sample_jar]). to_ascii_lowercase (edge_child [sample_jar] e) = to_ascii_lowercase (lit ''p.A'') \<longrightarrow>
            edge_child [sample_jar] e = lit ''p.A'') \<longrightarrow> tm_type_name x = lit ''p.A''))"
    by (rule type_hierarchy_complete [OF m limit _ refl ascii _ reach]) (use root in simp_all)
  ultimately show ?thesis using m root by simp
qed

end
