(* ===== verification/Text_Laws.thy ===== *)
theory Text_Laws
  imports Prelude
begin

text \<open>
  Laws of searching, trimming and splitting text that the readers of Maven output and of log files
  share: how the operations act on text that was put together from known parts.
\<close>

named_theorems text_parts \<open>operations on text that was put together from parts\<close>

section \<open>Searching\<close>

lemma starts_with_append [simp]: "starts_with p (p @ s)"
  by (auto simp: starts_with_iff)

lemma starts_with_Cons_neq: "c \<noteq> d \<Longrightarrow> \<not> starts_with (c # p) (d # s)"
  by (simp add: starts_with_def)

lemma find_str_prefix [text_parts]: "find_str p (p @ s) = Some 0"
  by (metis (no_types) append_is_Nil_conv find_str.elims starts_with_append)

lemma find_str_skip:
  "c \<notin> set pre \<Longrightarrow> find_str (c # p) (pre @ s) = map_option ((+) (length pre)) (find_str (c # p) s)"
proof (induction pre)
  case Nil
  then show ?case by (cases "find_str (c # p) s") auto
next
  case (Cons d pre)
  then show ?case by (cases "find_str (c # p) s") (auto simp: starts_with_Cons_neq)
qed

lemma find_str_at: "c \<notin> set pre \<Longrightarrow> find_str (c # p) (pre @ (c # p) @ s) = Some (length pre)"
  by (simp add: find_str_skip find_str_prefix del: append_Cons find_str.simps)

lemma find_str_missing: "c \<in> set p \<Longrightarrow> c \<notin> set s \<Longrightarrow> find_str p s = None"
proof (induction s)
  case (Cons d s)
  then have "\<not> starts_with p (d # s)" unfolding starts_with_iff by (metis Un_iff set_append)
  then show ?case using Cons by simp
qed auto

lemma contains_missing: "c \<in> set p \<Longrightarrow> c \<notin> set s \<Longrightarrow> \<not> contains p s"
  by (simp add: contains_def find_str_missing)

lemma contains_iff: "contains p s \<longleftrightarrow> (\<exists>a b. s = a @ p @ b)"
proof
  assume "contains p s"
  then obtain i where "find_str p s = Some i" by (auto simp: contains_def)
  from find_str_Some_split [OF this] show "\<exists>a b. s = a @ p @ b" by blast
next
  assume "\<exists>a b. s = a @ p @ b"
  then obtain a b where s: "s = a @ p @ b" by blast
  show "contains p s" unfolding s
  proof (induction a)
    case Nil
    then show ?case by (simp add: contains_def find_str_prefix)
  next
    case (Cons c a)
    then show ?case by (auto simp: contains_def)
  qed
qed

text \<open>A separator that does not occur before it marks where the first part ends.\<close>

lemma closed_inj: "a \<notin> set x \<Longrightarrow> a \<notin> set y \<Longrightarrow> x @ a # u = y @ a # v \<longleftrightarrow> x = y \<and> u = v"
proof (induction x arbitrary: y)
  case Nil
  then show ?case by (cases y) auto
next
  case (Cons b x)
  then show ?case by (cases y) auto
qed

section \<open>Trimming\<close>

lemma dropWhile_hd: "xs \<noteq> [] \<Longrightarrow> \<not> P (hd xs) \<Longrightarrow> dropWhile P xs = xs"
  by (cases xs) auto

lemma trim_id [text_parts]: "s \<noteq> [] \<Longrightarrow> \<not> is_whitespace (hd s) \<Longrightarrow> \<not> is_whitespace (last s) \<Longrightarrow> trim s = s"
  by (simp add: trim_def trim_start_def trim_end_def dropWhile_hd hd_rev)

lemma trim_Nil [simp]: "trim [] = []"
  by (simp add: trim_def trim_start_def trim_end_def)

lemma trim_leading: "(\<And>c. c \<in> set w \<Longrightarrow> is_whitespace c) \<Longrightarrow> trim (w @ s) = trim s"
  by (simp add: trim_def trim_start_def dropWhile_append)

lemma trim_trailing:
  assumes "\<And>c. c \<in> set w \<Longrightarrow> is_whitespace c"
  shows "trim (s @ w) = trim s"
proof (cases "\<exists>c\<in>set s. \<not> is_whitespace c")
  case True
  then have "trim_start (s @ w) = trim_start s @ w" by (auto simp: trim_start_def dropWhile_append)
  then show ?thesis using assms by (simp add: trim_def trim_end_def dropWhile_append)
next
  case False
  then have "dropWhile is_whitespace s = []" "dropWhile is_whitespace (s @ w) = []" using assms by auto
  then show ?thesis by (simp only: trim_def trim_start_def)
qed

lemma trim_word: "(\<And>c. c \<in> set s \<Longrightarrow> \<not> is_whitespace c) \<Longrightarrow> trim s = s"
  by (cases "s = []") (auto intro: trim_id)

lemma trim_end_matches_ch_id: "s = [] \<or> last s \<noteq> d \<Longrightarrow> trim_end_matches_ch d s = s"
  by (cases "rev s") (auto simp: trim_end_matches_ch_def rev_swap)

lemma trim_start_matches_id: "\<not> starts_with p s \<Longrightarrow> trim_start_matches p s = s"
  by (cases "p = []") (auto simp: starts_with_def trim_start_matches.simps)

lemma trim_start_matches_once: "p \<noteq> [] \<Longrightarrow> \<not> starts_with p s \<Longrightarrow> trim_start_matches p (p @ s) = s"
proof -
  assume "p \<noteq> []" "\<not> starts_with p s"
  moreover have "strip_prefix p (p @ s) = Some s" by (simp add: strip_prefix_Some)
  ultimately show ?thesis by (subst trim_start_matches.simps) (simp add: trim_start_matches_id)
qed

section \<open>Splitting\<close>

lemma split_whitespace_from_word:
  "(\<And>c. c \<in> set s \<Longrightarrow> \<not> is_whitespace c) \<Longrightarrow> split_whitespace_from w s = (if w @ s = [] then [] else [w @ s])"
  by (induction s arbitrary: w) auto

lemma split_whitespace_word: "s \<noteq> [] \<Longrightarrow> (\<And>c. c \<in> set s \<Longrightarrow> \<not> is_whitespace c) \<Longrightarrow> split_whitespace s = [s]"
  by (simp add: split_whitespace_def split_whitespace_from_word)

text \<open>Lines written with a newline each are read back.\<close>

definition unlines :: "str list \<Rightarrow> str" where
  "unlines ls = concat (map (\<lambda>l. l @ [10]) ls)"

definition is_line :: "str \<Rightarrow> bool" where
  "is_line l \<longleftrightarrow> 10 \<notin> set l \<and> (l = [] \<or> last l \<noteq> 13)"

lemma strip_cr_last: "l = [] \<or> last l \<noteq> 13 \<Longrightarrow> strip_cr l = l"
  by (auto simp: strip_cr_def strip_suffix_Some split: option.split)

lemma split_on_newline: "10 \<notin> set l \<Longrightarrow> split_on 10 (l @ 10 # s) = l # split_on 10 s"
  by (induction l) auto

lemma str_lines_Cons: "is_line l \<Longrightarrow> str_lines (l @ 10 # s) = l # str_lines s"
  by (simp add: str_lines_def split_on_newline is_line_def strip_cr_last Let_def)

lemma str_lines_unlines: "(\<And>l. l \<in> set ls \<Longrightarrow> is_line l) \<Longrightarrow> str_lines (unlines ls) = ls"
proof (induction ls)
  case Nil
  then show ?case by (simp add: unlines_def str_lines_def)
next
  case (Cons l ls)
  then have "str_lines (l @ 10 # unlines ls) = l # str_lines (unlines ls)" by (intro str_lines_Cons) simp
  then show ?case using Cons by (simp add: unlines_def)
qed

lemma is_line_last: "10 \<notin> set l \<Longrightarrow> l \<noteq> [] \<Longrightarrow> \<not> is_whitespace (last l) \<Longrightarrow> is_line l"
  by (auto simp: is_line_def is_whitespace_def)


section \<open>Sorting\<close>

text \<open>\<open>sort\<close> followed by \<open>dedup\<close>.\<close>

lemma sorted_distinct_adj: "sorted xs \<Longrightarrow> distinct_adj xs \<Longrightarrow> distinct xs"
proof (induction xs rule: induct_list012)
  case (3 x y zs)
  then have "x < y" "\<forall>z\<in>set zs. y \<le> z" by auto
  then show ?case using 3 by auto
qed auto

lemma remdups_adj_sort: "remdups_adj (sort xs) = sorted_list_of_set (set xs)"
proof -
  have "distinct (remdups_adj (sort xs))" by (intro sorted_distinct_adj) simp_all
  then show ?thesis by (metis remdups_adj_set set_sort sorted_list_of_set.idem_if_sorted_distinct sorted_remdups_adj sorted_sort)
qed

end
