(* ===== verification/Wildcard.thy ===== *)
theory Wildcard
  imports Prelude
begin

text \<open>
  Coordinate filters (\<open>src/src/project.rs\<close>, \<open>wildcard_matches\<close>): the backtracking matcher for
  patterns with \<open>*\<close>, and its agreement with the meaning of such patterns.
\<close>

section \<open>The matcher\<close>

text \<open>\<open>str::as_bytes\<close>.\<close>

definition utf8_char :: "ch \<Rightarrow> nat list" where
  "utf8_char c =
     (if c < 128 then [c]
      else if c < 2048 then [192 + c div 64, 128 + c mod 64]
      else if c < 65536 then [224 + c div 4096, 128 + c div 64 mod 64, 128 + c mod 64]
      else [240 + c div 262144, 128 + c div 4096 mod 64, 128 + c div 64 mod 64, 128 + c mod 64])"

definition as_bytes :: "str \<Rightarrow> nat list" where
  "as_bytes s = concat (map utf8_char s)"

definition STAR :: nat where "STAR = 42"

text \<open>The loop over both indices; \<open>star\<close> is the position of the last star seen in the pattern, \<open>star_value\<close>
  the position in the value where the text it stands for ends.\<close>

partial_function (option) wildcard_loop ::
  "nat list \<Rightarrow> nat list \<Rightarrow> nat \<Rightarrow> nat \<Rightarrow> nat option \<Rightarrow> nat \<Rightarrow> bool option" where
  "wildcard_loop pattern v pattern_index value_index star star_value =
     (if value_index < length v then
        (if pattern_index < length pattern \<and> pattern ! pattern_index = v ! value_index
         then wildcard_loop pattern v (pattern_index + 1) (value_index + 1) star star_value
         else if pattern_index < length pattern \<and> pattern ! pattern_index = STAR
         then wildcard_loop pattern v (pattern_index + 1) value_index (Some pattern_index) value_index
         else case star of
                Some s \<Rightarrow> wildcard_loop pattern v (s + 1) (star_value + 1) star (star_value + 1)
              | None \<Rightarrow> Some False)
      else Some (list_all ((=) STAR) (drop pattern_index pattern)))"

definition wildcard_matches :: "str \<Rightarrow> str \<Rightarrow> bool option" where
  "wildcard_matches pattern v = wildcard_loop (as_bytes pattern) (as_bytes v) 0 0 None 0"

section \<open>What a pattern means\<close>

text \<open>A star stands for any text, every other byte for itself.\<close>

fun glob :: "nat list \<Rightarrow> nat list \<Rightarrow> bool" where
  "glob [] v \<longleftrightarrow> v = []"
| "glob (c # p) [] \<longleftrightarrow> c = STAR \<and> glob p []"
| "glob (c # p) (d # v) \<longleftrightarrow> (if c = STAR then glob p (d # v) \<or> glob (c # p) v else c = d \<and> glob p v)"

lemma glob_Nil: "glob p [] \<longleftrightarrow> list_all ((=) STAR) p"
  by (induction p) auto

lemma glob_star: "glob (STAR # p) v \<longleftrightarrow> (\<exists>k\<le>length v. glob p (drop k v))"
proof (induction v)
  case (Cons d v)
  have "(\<exists>k\<le>length (d # v). glob p (drop k (d # v))) \<longleftrightarrow> glob p (d # v) \<or> (\<exists>k\<le>length v. glob p (drop k v))"
    by (metis Suc_le_mono drop0 drop_Suc_Cons le0 length_Cons not0_implies_Suc)
  then show ?case using Cons by simp
qed simp

lemma glob_literal: "STAR \<notin> set l \<Longrightarrow> glob (l @ p) v \<longleftrightarrow> (\<exists>w. v = l @ w \<and> glob p w)"
proof (induction l arbitrary: v)
  case (Cons c l)
  then show ?case by (cases v) auto
qed simp

section \<open>The matcher agrees with the meaning\<close>

text \<open>The part of the pattern since the last star is a literal equal to the part of the value since
  \<open>star_value\<close>.\<close>

definition wild_inv :: "nat list \<Rightarrow> nat list \<Rightarrow> nat \<Rightarrow> nat \<Rightarrow> nat option \<Rightarrow> nat \<Rightarrow> bool" where
  "wild_inv p v pi vi star sv \<longleftrightarrow> pi \<le> length p \<and> vi \<le> length v \<and>
     (case star of None \<Rightarrow> sv = 0
      | Some s \<Rightarrow> s < pi \<and> sv \<le> vi \<and>
          (\<exists>l. STAR \<notin> set l \<and> drop (s + 1) p = l @ drop pi p \<and> drop sv v = l @ drop vi v))"

definition wild_meaning :: "nat list \<Rightarrow> nat list \<Rightarrow> nat \<Rightarrow> nat \<Rightarrow> nat option \<Rightarrow> nat \<Rightarrow> bool" where
  "wild_meaning p v pi vi star sv \<longleftrightarrow> glob (drop pi p) (drop vi v) \<or>
     (\<exists>s k. star = Some s \<and> sv < k \<and> k \<le> length v \<and> glob (drop (s + 1) p) (drop k v))"

lemma meaning_finished:
  assumes "wild_inv p v pi (length v) star sv"
  shows "wild_meaning p v pi (length v) star sv \<longleftrightarrow> list_all ((=) STAR) (drop pi p)"
proof -
  have "\<not> glob (drop (s + 1) p) (drop k v)" if "star = Some s" "sv < k" "k \<le> length v" for s k
  proof
    assume glob: "glob (drop (s + 1) p) (drop k v)"
    from assms that(1) obtain l where l: "STAR \<notin> set l" "drop (s + 1) p = l @ drop pi p" "drop sv v = l"
      by (auto simp: wild_inv_def)
    then obtain w where "drop k v = l @ w" using glob glob_literal [OF l(1)] by metis
    then have "length l \<le> length v - k" by (metis le_add1 length_append length_drop)
    moreover have "length l = length v - sv" using l(3) by auto
    ultimately show False using that by simp
  qed
  then show ?thesis by (auto simp: wild_meaning_def glob_Nil)
qed

lemma meaning_step_equal:
  assumes inv: "wild_inv p v pi vi star sv" and star: "STAR \<notin> set v"
    and here: "vi < length v" "pi < length p" "p ! pi = v ! vi"
  shows "wild_inv p v (pi + 1) (vi + 1) star sv \<and>
    (wild_meaning p v pi vi star sv \<longleftrightarrow> wild_meaning p v (pi + 1) (vi + 1) star sv)"
proof -
  have heads: "drop pi p = v ! vi # drop (pi + 1) p" "drop vi v = v ! vi # drop (vi + 1) v"
    using here by (simp_all add: Cons_nth_drop_Suc [symmetric])
  have literal: "v ! vi \<noteq> STAR" using star here(1) by (metis nth_mem)
  have "wild_inv p v (pi + 1) (vi + 1) star sv"
  proof (cases star)
    case None
    then show ?thesis using inv here by (simp add: wild_inv_def)
  next
    case (Some s)
    then obtain l where l: "STAR \<notin> set l" "drop (s + 1) p = l @ drop pi p" "drop sv v = l @ drop vi v"
      "s < pi" "sv \<le> vi" using inv by (auto simp: wild_inv_def)
    have "STAR \<notin> set (l @ [v ! vi]) \<and> drop (s + 1) p = (l @ [v ! vi]) @ drop (pi + 1) p \<and>
        drop sv v = (l @ [v ! vi]) @ drop (vi + 1) v"
      unfolding l(2,3) heads using l(1) literal by simp
    then show ?thesis using Some l(4,5) here by (auto simp: wild_inv_def)
  qed
  moreover have "wild_meaning p v pi vi star sv \<longleftrightarrow> wild_meaning p v (pi + 1) (vi + 1) star sv"
    unfolding wild_meaning_def heads using literal by simp
  ultimately show ?thesis by simp
qed

lemma meaning_step_star:
  assumes inv: "wild_inv p v pi vi star sv" and here: "vi < length v" "pi < length p" "p ! pi = STAR"
  shows "wild_inv p v (pi + 1) vi (Some pi) vi \<and>
    (wild_meaning p v pi vi star sv \<longleftrightarrow> wild_meaning p v (pi + 1) vi (Some pi) vi)"
proof -
  have heads: "drop pi p = STAR # drop (pi + 1) p" using here by (simp add: Cons_nth_drop_Suc [symmetric])
  have new: "wild_meaning p v (pi + 1) vi (Some pi) vi \<longleftrightarrow> glob (drop pi p) (drop vi v)"
  proof -
    have "glob (drop pi p) (drop vi v) \<longleftrightarrow> (\<exists>k\<ge>vi. k \<le> length v \<and> glob (drop (pi + 1) p) (drop k v))"
    proof
      assume "glob (drop pi p) (drop vi v)"
      then obtain k where "k \<le> length v - vi" "glob (drop (pi + 1) p) (drop (vi + k) v)"
        unfolding heads glob_star by (auto simp: add.commute)
      then show "\<exists>k\<ge>vi. k \<le> length v \<and> glob (drop (pi + 1) p) (drop k v)"
        using here(1) by (intro exI [of _ "vi + k"]) simp
    next
      assume "\<exists>k\<ge>vi. k \<le> length v \<and> glob (drop (pi + 1) p) (drop k v)"
      then obtain k where "vi \<le> k" "k \<le> length v" "glob (drop (pi + 1) p) (drop k v)" by blast
      then show "glob (drop pi p) (drop vi v)"
        unfolding heads glob_star by (intro exI [of _ "k - vi"]) simp
    qed
    also have "\<dots> \<longleftrightarrow> wild_meaning p v (pi + 1) vi (Some pi) vi"
      unfolding wild_meaning_def using here(1) by (auto simp: le_less)
    finally show ?thesis by simp
  qed
  have old: "glob (drop pi p) (drop vi v)" if star: "star = Some s" "sv < k" "k \<le> length v" "glob (drop (s + 1) p) (drop k v)" for s k
  proof -
    obtain l where l: "STAR \<notin> set l" "drop (s + 1) p = l @ drop pi p" "drop sv v = l @ drop vi v" "sv \<le> vi"
      using inv star(1) by (auto simp: wild_inv_def)
    then obtain w where w: "drop k v = l @ w" "glob (drop pi p) w" using star(4) glob_literal [OF l(1)] by metis
    have len: "length l = vi - sv" using arg_cong [OF l(3), of length] here(1) l(4) by auto
    then have "w = drop (k + length l) v" using arg_cong [OF w(1), of "drop (length l)"] by (simp add: add.commute)
    moreover have "vi \<le> k + length l" using len star(2) l(4) by simp
    ultimately have "w = drop (k + length l - vi) (drop vi v)" by simp
    then obtain j where "glob (drop (pi + 1) p) (drop j (drop vi v))" "j \<le> length (drop vi v)"
      using w(2) unfolding heads glob_star
      by (metis (no_types, lifting) drop_all drop_drop glob_star linorder_le_cases order_refl)
    then show ?thesis unfolding heads glob_star by blast
  qed
  have "wild_inv p v (pi + 1) vi (Some pi) vi" using here by (auto simp: wild_inv_def)
  moreover have "wild_meaning p v pi vi star sv \<longleftrightarrow> glob (drop pi p) (drop vi v)"
    using old by (auto simp: wild_meaning_def)
  ultimately show ?thesis using new by simp
qed

lemma meaning_step_back:
  assumes inv: "wild_inv p v pi vi (Some s) sv" and here: "vi < length v"
    and mismatch: "\<not> (pi < length p \<and> p ! pi = v ! vi)" "\<not> (pi < length p \<and> p ! pi = STAR)"
  shows "wild_inv p v (s + 1) (sv + 1) (Some s) (sv + 1) \<and>
    (wild_meaning p v pi vi (Some s) sv \<longleftrightarrow> wild_meaning p v (s + 1) (sv + 1) (Some s) (sv + 1))"
proof -
  have dead: "\<not> glob (drop pi p) (drop vi v)"
  proof (cases "pi < length p")
    case True
    then show ?thesis using mismatch here by (simp add: Cons_nth_drop_Suc [symmetric])
  qed (use here in simp)
  have "wild_inv p v (s + 1) (sv + 1) (Some s) (sv + 1)" using inv here by (auto simp: wild_inv_def)
  moreover have "(\<exists>k. sv < k \<and> k \<le> length v \<and> glob (drop (s + 1) p) (drop k v)) \<longleftrightarrow>
      glob (drop (s + 1) p) (drop (sv + 1) v) \<or> (\<exists>k. sv + 1 < k \<and> k \<le> length v \<and> glob (drop (s + 1) p) (drop k v))"
    (is "(\<exists>k. ?ge k) \<longleftrightarrow> ?first \<or> (\<exists>k. ?gt k)")
  proof
    assume "\<exists>k. ?ge k"
    then obtain k where k: "?ge k" ..
    then show "?first \<or> (\<exists>k. ?gt k)" by (cases "k = sv + 1") auto
  next
    have "sv + 1 \<le> length v" using inv here by (simp add: wild_inv_def)
    then have "?first \<Longrightarrow> ?ge (sv + 1)" by simp
    moreover assume "?first \<or> (\<exists>k. ?gt k)"
    ultimately show "\<exists>k. ?ge k" by (metis add_lessD1)
  qed
  ultimately show ?thesis using dead by (simp add: wild_meaning_def)
qed

lemma meaning_no_star:
  assumes "vi < length v" "\<not> (pi < length p \<and> p ! pi = v ! vi)" "\<not> (pi < length p \<and> p ! pi = STAR)"
  shows "\<not> wild_meaning p v pi vi None sv"
proof (cases "pi < length p")
  case True
  then show ?thesis using assms by (simp add: wild_meaning_def Cons_nth_drop_Suc [symmetric])
qed (use assms in \<open>simp add: wild_meaning_def\<close>)


text \<open>Positions move forward, or back to one past the last start of the text of a later star.\<close>

definition wild_bounds :: "nat list \<Rightarrow> nat list \<Rightarrow> nat \<Rightarrow> nat \<Rightarrow> nat option \<Rightarrow> nat \<Rightarrow> bool" where
  "wild_bounds p v pi vi star sv \<longleftrightarrow> pi \<le> length p \<and> vi \<le> length v \<and> sv \<le> vi \<and>
     (case star of None \<Rightarrow> True | Some s \<Rightarrow> s < pi)"

definition wild_measure :: "(nat list \<times> nat list \<times> nat \<times> nat \<times> nat option \<times> nat) \<Rightarrow> nat \<times> nat \<times> nat" where
  "wild_measure = (\<lambda>(p, v, pi, vi, star, sv).
     (length p - (case star of None \<Rightarrow> 0 | Some s \<Rightarrow> s + 1), length v - sv, length v - vi))"

lemma wildcard_loop_spec:
  "wild_bounds p v pi vi star sv \<Longrightarrow>
    (\<exists>b. wildcard_loop p v pi vi star sv = Some b \<and>
      (STAR \<notin> set v \<and> wild_inv p v pi vi star sv \<longrightarrow> b = wild_meaning p v pi vi star sv))"
proof (induction "(p, v, pi, vi, star, sv)" arbitrary: pi vi star sv
    rule: wf_induct_rule [OF wf_inv_image [OF wf_lex_prod [OF wf_less wf_lex_prod [OF wf_less wf_less]], of wild_measure]])
  case (1 pi vi star sv)
  note IH = 1(1) [unfolded in_inv_image in_lex_prod]
  note bounds = 1(2)
  note unfold = wildcard_loop.simps [of p v pi vi star sv]
  show ?case
  proof (cases "vi < length v")
    case False
    then have "vi = length v" using bounds by (simp add: wild_bounds_def)
    then show ?thesis using meaning_finished [of p v pi star sv] unfold by simp
  next
    case here: True
    consider (equal) "pi < length p" "p ! pi = v ! vi"
      | (star) "\<not> (pi < length p \<and> p ! pi = v ! vi)" "pi < length p" "p ! pi = STAR"
      | (retry) s where "\<not> (pi < length p \<and> p ! pi = v ! vi)" "\<not> (pi < length p \<and> p ! pi = STAR)" "star = Some s"
      | (stuck) "\<not> (pi < length p \<and> p ! pi = v ! vi)" "\<not> (pi < length p \<and> p ! pi = STAR)" "star = None"
      by (cases star) blast+
    then show ?thesis
    proof cases
      case equal
      have step: "wildcard_loop p v pi vi star sv = wildcard_loop p v (pi + 1) (vi + 1) star sv"
        using unfold here equal by simp
      have "wild_bounds p v (pi + 1) (vi + 1) star sv"
        using bounds here equal by (auto simp: wild_bounds_def split: option.splits)
      moreover have "length v - (vi + 1) < length v - vi" using here by simp
      ultimately have "\<exists>b. wildcard_loop p v (pi + 1) (vi + 1) star sv = Some b \<and>
          (STAR \<notin> set v \<and> wild_inv p v (pi + 1) (vi + 1) star sv \<longrightarrow> b = wild_meaning p v (pi + 1) (vi + 1) star sv)"
        by (intro IH) (simp add: wild_measure_def)
      then show ?thesis unfolding step using meaning_step_equal [of p v pi vi star sv] equal here by blast
    next
      case star
      have step: "wildcard_loop p v pi vi star sv = wildcard_loop p v (pi + 1) vi (Some pi) vi"
        using unfold here star by simp
      have "wild_bounds p v (pi + 1) vi (Some pi) vi" using bounds star(2) by (simp add: wild_bounds_def)
      moreover have "length p - (pi + 1) < length p - (case star of None \<Rightarrow> 0 | Some s \<Rightarrow> s + 1)"
        using star(2) bounds by (cases star) (auto simp: wild_bounds_def intro!: diff_less_mono2)
      ultimately have "\<exists>b. wildcard_loop p v (pi + 1) vi (Some pi) vi = Some b \<and>
          (STAR \<notin> set v \<and> wild_inv p v (pi + 1) vi (Some pi) vi \<longrightarrow> b = wild_meaning p v (pi + 1) vi (Some pi) vi)"
        by (intro IH) (simp add: wild_measure_def)
      then show ?thesis unfolding step using meaning_step_star [of p v pi vi star sv] star here by blast
    next
      case (retry s)
      have step: "wildcard_loop p v pi vi star sv = wildcard_loop p v (s + 1) (sv + 1) (Some s) (sv + 1)"
        using unfold here retry by simp
      have "wild_bounds p v (s + 1) (sv + 1) (Some s) (sv + 1)" using bounds here retry(3) by (simp add: wild_bounds_def)
      moreover have "length v - (sv + 1) < length v - sv"
        using bounds here unfolding wild_bounds_def by (intro diff_less_mono2) linarith+
      ultimately have "\<exists>b. wildcard_loop p v (s + 1) (sv + 1) (Some s) (sv + 1) = Some b \<and>
          (STAR \<notin> set v \<and> wild_inv p v (s + 1) (sv + 1) (Some s) (sv + 1) \<longrightarrow>
             b = wild_meaning p v (s + 1) (sv + 1) (Some s) (sv + 1))"
        by (intro IH) (simp add: wild_measure_def retry(3))
      then show ?thesis unfolding retry(3) step [unfolded retry(3)] using meaning_step_back [of p v pi vi s sv] retry here by blast
    next
      case stuck
      then have "wildcard_loop p v pi vi star sv = Some False"
        by (subst unfold) (simp only: if_P [OF here] if_not_P [OF stuck(1)] if_not_P [OF stuck(2)] stuck(3) option.case if_False)
      then show ?thesis using meaning_no_star [OF here stuck(1,2)] stuck(3) by blast
    qed
  qed
qed

text \<open>A match is never claimed wrongly, stars in the value included.\<close>

lemma glob_skip: "glob p v \<Longrightarrow> glob (STAR # p) v" "glob p v \<Longrightarrow> glob (STAR # p) (d # v)"
  unfolding glob_star by (force intro: exI [of _ 0]) (force intro: exI [of _ 1])

lemma wildcard_loop_sound:
  assumes "wildcard_loop p v pi vi star sv = Some b"
  shows "wild_bounds p v pi vi star sv \<longrightarrow> b \<longrightarrow> wild_meaning p v pi vi star sv"
proof (rule wildcard_loop.raw_induct [OF _ assms, where P = "\<lambda>p v pi vi star sv b.
    wild_bounds p v pi vi star sv \<longrightarrow> b \<longrightarrow> wild_meaning p v pi vi star sv"], intro impI)
  fix loop p v pi vi star sv b
  assume IH: "\<And>p v pi vi star sv b. loop p v pi vi star sv = Some b \<Longrightarrow>
      wild_bounds p v pi vi star sv \<longrightarrow> b \<longrightarrow> wild_meaning p v pi vi star sv"
    and step: "(if vi < length v then
        (if pi < length p \<and> p ! pi = v ! vi then loop p v (pi + 1) (vi + 1) star sv
         else if pi < length p \<and> p ! pi = STAR then loop p v (pi + 1) vi (Some pi) vi
         else case star of None \<Rightarrow> Some False | Some s \<Rightarrow> loop p v (s + 1) (sv + 1) star (sv + 1))
      else Some (list_all ((=) STAR) (drop pi p))) = Some b"
    and bounds: "wild_bounds p v pi vi star sv" and b
  show "wild_meaning p v pi vi star sv"
  proof (cases "vi < length v")
    case False
    then show ?thesis using step bounds \<open>b\<close> by (simp add: wild_meaning_def wild_bounds_def glob_Nil)
  next
    case here: True
    have heads: "drop vi v = v ! vi # drop (vi + 1) v" "pi < length p \<Longrightarrow> drop pi p = p ! pi # drop (pi + 1) p"
      using here by (simp_all add: Cons_nth_drop_Suc [symmetric])
    consider (equal) "pi < length p" "p ! pi = v ! vi" "loop p v (pi + 1) (vi + 1) star sv = Some b"
      | (star) "pi < length p" "p ! pi = STAR" "loop p v (pi + 1) vi (Some pi) vi = Some b"
      | (retry) s where "star = Some s" "loop p v (s + 1) (sv + 1) star (sv + 1) = Some b"
      using step here \<open>b\<close> by (auto split: if_splits option.splits)
    then show ?thesis
    proof cases
      case equal
      have "wild_bounds p v (pi + 1) (vi + 1) star sv"
        using bounds here equal(1) by (auto simp: wild_bounds_def split: option.splits)
      then have "wild_meaning p v (pi + 1) (vi + 1) star sv" using IH [OF equal(3)] \<open>b\<close> by simp
      moreover have "glob (drop (pi + 1) p) (drop (vi + 1) v) \<Longrightarrow> glob (drop pi p) (drop vi v)"
        unfolding heads(1) heads(2) [OF equal(1)] using equal(2) by (auto intro: glob_skip)
      ultimately show ?thesis unfolding wild_meaning_def by blast
    next
      case star
      have "wild_bounds p v (pi + 1) vi (Some pi) vi" using bounds star(1) by (simp add: wild_bounds_def)
      then have "wild_meaning p v (pi + 1) vi (Some pi) vi" using IH [OF star(3)] \<open>b\<close> by simp
      then have "\<exists>k. vi \<le> k \<and> k \<le> length v \<and> glob (drop (pi + 1) p) (drop k v)"
        unfolding wild_meaning_def using here by (auto intro: less_imp_le)
      then obtain k where "vi \<le> k" "k \<le> length v" "glob (drop (pi + 1) p) (drop k v)" by blast
      then have "glob (drop pi p) (drop vi v)"
        unfolding heads(2) [OF star(1)] star(2) glob_star by (intro exI [of _ "k - vi"]) simp
      then show ?thesis by (simp add: wild_meaning_def)
    next
      case (retry s)
      have "wild_bounds p v (s + 1) (sv + 1) star (sv + 1)" using bounds here retry(1) by (simp add: wild_bounds_def)
      then have "wild_meaning p v (s + 1) (sv + 1) star (sv + 1)" using IH [OF retry(2)] \<open>b\<close> by simp
      moreover have "sv + 1 \<le> length v" using bounds here by (simp add: wild_bounds_def)
      ultimately show ?thesis using retry(1) unfolding wild_meaning_def by auto
    qed
  qed
qed

text \<open>
  Claim C40: wildcard_matches_correct.  The filter matcher ends on every pattern and value.  When it answers
  that the value matches, the value does match the pattern, where each star of the pattern stands for any
  text and every other byte for itself; and for a value without a star it answers so for every value that
  does.  (A value with a star may be missed: \<open>star_in_value_lost\<close>.)
\<close>

theorem wildcard_matches_correct:
  "\<exists>b. wildcard_matches pattern v = Some b \<and>
    (b \<longrightarrow> glob (as_bytes pattern) (as_bytes v)) \<and>
    (STAR \<notin> set (as_bytes v) \<and> glob (as_bytes pattern) (as_bytes v) \<longrightarrow> b)"
proof -
  have start: "wild_bounds (as_bytes pattern) (as_bytes v) 0 0 None 0" "wild_inv (as_bytes pattern) (as_bytes v) 0 0 None 0"
    by (simp_all add: wild_bounds_def wild_inv_def)
  from wildcard_loop_spec [OF start(1)] obtain b where b: "wildcard_matches pattern v = Some b"
    "STAR \<notin> set (as_bytes v) \<Longrightarrow> b = glob (as_bytes pattern) (as_bytes v)"
    using start(2) by (auto simp: wildcard_matches_def wild_meaning_def)
  then have "b \<Longrightarrow> glob (as_bytes pattern) (as_bytes v)"
    using wildcard_loop_sound [of "as_bytes pattern" "as_bytes v" 0 0 None 0 b] start(1)
    by (simp add: wildcard_matches_def wild_meaning_def)
  with b show ?thesis by blast
qed

text \<open>A star in the value is taken for the star of the pattern, and the match is lost.\<close>

lemma star_in_value_lost:
  "wildcard_matches (lit ''*b'') (lit ''*ab'') = Some False \<and> glob (as_bytes (lit ''*b'')) (as_bytes (lit ''*ab''))"
  by (simp add: wildcard_matches_def as_bytes_def utf8_char_def STAR_def wildcard_loop.simps)

theorem wildcard_matches_correct_witness:
  "wildcard_matches (lit ''org.*:lib'') (lit ''org.a:lib'') = Some True"
proof -
  have "STAR \<notin> set (as_bytes (lit ''org.a:lib''))" "glob (as_bytes (lit ''org.*:lib'')) (as_bytes (lit ''org.a:lib''))"
    by (simp_all add: as_bytes_def utf8_char_def STAR_def)
  with wildcard_matches_correct [of "lit ''org.*:lib''" "lit ''org.a:lib''"] show ?thesis by (elim exE) (simp only: simp_thms)
qed

end
