(* ===== verification/Maven_Output.thy ===== *)
theory Maven_Output
  imports Config Text_Laws
begin

text \<open>
  What the server reads from the output of Maven (\<open>src/src/project.rs\<close>): the outcome of a run, the
  reactor summary, the dependency tree and the classpath.  \<open>lower\<close> stands for \<open>str::to_lowercase\<close>, whose
  tables are not written out.
\<close>

section \<open>Runs and their outcome\<close>

record MavenModule =
  mm_selector :: str
  mm_artifact_id :: str
  mm_packaging :: str
  mm_modules :: "str list"

record MavenProject =
  mp_artifact_id :: str
  mp_packaging :: str
  mp_wrapper :: bool
  mp_modules :: "MavenModule list"

datatype MavenRunStatus = Run_Success | Run_BuildFailure | Run_Timeout | Run_RunnerError

record MavenRunResult =
  run_status :: MavenRunStatus
  run_exit_code :: "int option"
  run_duration_ms :: nat
  run_timed_out :: bool
  run_stdout :: str
  run_stderr :: str
  run_stdout_truncated :: bool
  run_stderr_truncated :: bool
  run_redaction_count :: nat

datatype MavenBuildOutcome =
  Outcome_Success | CompilationError | TestFailure | BuildFailure | Outcome_Timeout | Outcome_RunnerError

record ReactorModuleResult =
  rm_module :: str
  rm_status :: str

record MavenBuildResult =
  br_outcome :: MavenBuildOutcome
  br_policy_notice :: "str option"
  br_compiler_diagnostics :: "str list"
  br_reactor_summary :: "ReactorModuleResult list"
  br_run :: MavenRunResult

definition POLICY_NOTICE :: str where
  "POLICY_NOTICE = lit ''Maven could not resolve a remote artifact because maven-mcp is running Maven offline. This can be an intentional security policy or missing MCP server configuration and is not necessarily a project error. If remote resolution is intended for this trusted project, set MAVEN_EXECUTION_NETWORK=true in the MCP server environment and restart the server.''"

definition offline_resolution_policy_notice :: "MavenRunStatus \<Rightarrow> str \<Rightarrow> str option" where
  "offline_resolution_policy_notice status lowercase =
     (if status = Run_BuildFailure \<and> contains (lit ''cannot access'') lowercase \<and>
        contains (lit ''in offline mode'') lowercase
      then Some POLICY_NOTICE else None)"

text \<open>The search for a module status in one line of the reactor summary: the first of the three words,
  in this order, that occurs, with the text before it.\<close>

definition status_words :: "str list" where
  "status_words = [lit ''SUCCESS'', lit ''FAILURE'', lit ''SKIPPED'']"

fun find_status :: "str list \<Rightarrow> str \<Rightarrow> (str \<times> str) option" where
  "find_status [] line = None"
| "find_status (w # ws) line =
     (case find_str w line of Some i \<Rightarrow> Some (take i line, w) | None \<Rightarrow> find_status ws line)"

definition log_line :: "str \<Rightarrow> str" where
  "log_line line = trim (trim_start_matches (lit ''[INFO]'') (trim line))"

definition summary_line :: "(str \<Rightarrow> str) \<Rightarrow> str \<Rightarrow> ReactorModuleResult list" where
  "summary_line lower line =
     (case find_status status_words line of
        None \<Rightarrow> []
      | Some (before, status) \<Rightarrow>
          let module = trim (trim_end_matches_ch 46 (trim before))
          in if module = [] then [] else [\<lparr> rm_module = module, rm_status = lower status \<rparr>])"

fun reactor_lines :: "(str \<Rightarrow> str) \<Rightarrow> bool \<Rightarrow> str list \<Rightarrow> ReactorModuleResult list" where
  "reactor_lines lower in_summary [] = []"
| "reactor_lines lower in_summary (line # lines) =
     (if contains (lit ''Reactor Summary'') line then reactor_lines lower True lines
      else if \<not> in_summary then reactor_lines lower False lines
      else
        let line = log_line line
        in if starts_with (lit ''BUILD '') line then []
           else summary_line lower line @ reactor_lines lower True lines)"

definition parse_reactor_summary :: "(str \<Rightarrow> str) \<Rightarrow> str \<Rightarrow> ReactorModuleResult list" where
  "parse_reactor_summary lower output = reactor_lines lower False (str_lines output)"

definition is_compiler_diagnostic :: "(str \<Rightarrow> str) \<Rightarrow> str \<Rightarrow> bool" where
  "is_compiler_diagnostic lower line \<longleftrightarrow> contains (lit ''[ERROR]'') line \<and>
     (contains (lit ''.java:['') line \<or> contains (lit ''.kt:['') line \<or> contains (lit ''compilation'') (lower line))"

definition build_outcome :: "MavenRunStatus \<Rightarrow> str \<Rightarrow> MavenBuildOutcome" where
  "build_outcome status lowercase =
     (case status of
        Run_Success \<Rightarrow> Outcome_Success
      | Run_Timeout \<Rightarrow> Outcome_Timeout
      | Run_RunnerError \<Rightarrow> Outcome_RunnerError
      | Run_BuildFailure \<Rightarrow>
          if contains (lit ''compilation error'') lowercase \<or> contains (lit ''compilation failure'') lowercase
          then CompilationError
          else if contains (lit ''there are test failures'') lowercase \<or> contains (lit ''failures: 1'') lowercase \<or>
            contains (lit ''errors: 1'') lowercase
          then TestFailure
          else BuildFailure)"

definition from_run :: "(str \<Rightarrow> str) \<Rightarrow> MavenRunResult \<Rightarrow> MavenBuildResult" where
  "from_run lower run =
     (let combined = run_stdout run @ [10] @ run_stderr run;
          lowercase = lower combined
      in \<lparr> br_outcome = build_outcome (run_status run) lowercase,
           br_policy_notice = offline_resolution_policy_notice (run_status run) lowercase,
           br_compiler_diagnostics = map trim (filter (is_compiler_diagnostic lower) (str_lines combined)),
           br_reactor_summary = parse_reactor_summary lower combined, br_run = run \<rparr>)"

section \<open>The dependency tree\<close>

record DependencyNode =
  dn_depth :: nat
  dn_coordinate :: str
  dn_scope :: "str option"

definition BRANCH :: str where "BRANCH = lit ''+- ''"
definition LAST_BRANCH :: str where "LAST_BRANCH = [92, 45, 32]"
definition BAR :: str where "BAR = lit ''|  ''"
definition BLANK :: str where "BLANK = lit ''   ''"

definition find_marker :: "str \<Rightarrow> nat option" where
  "find_marker line = (case find_str BRANCH line of Some i \<Rightarrow> Some i | None \<Rightarrow> find_str LAST_BRANCH line)"

text \<open>The prefix consists of whole chunks of three bytes, each a bar or blank; such a prefix is ASCII.\<close>

fun tree_prefix :: "str \<Rightarrow> bool" where
  "tree_prefix [] \<longleftrightarrow> True"
| "tree_prefix (a # b # c # rest) \<longleftrightarrow> ([a, b, c] = BAR \<or> [a, b, c] = BLANK) \<and> tree_prefix rest"
| "tree_prefix _ \<longleftrightarrow> False"

definition SCOPES :: "str list" where
  "SCOPES = map lit [''compile'', ''provided'', ''runtime'', ''test'', ''system'', ''import'']"

definition is_dependency_scope :: "str \<Rightarrow> bool" where
  "is_dependency_scope value \<longleftrightarrow> value \<in> set SCOPES"

definition tree_coordinate :: "str list \<Rightarrow> (str \<times> str option) option" where
  "tree_coordinate parts =
     (if [] \<in> set parts \<or> \<not> is_dependency_scope (last parts) then None
      else case parts of
             [g, artifact, kind, version, scope] \<Rightarrow> Some (join [58] [g, artifact, version], Some scope)
           | [g, artifact, kind, classifier, version, scope] \<Rightarrow>
               Some (join [58] [g, artifact, version, classifier], Some scope)
           | _ \<Rightarrow> None)"

definition tree_line :: "str \<Rightarrow> DependencyNode option" where
  "tree_line line =
     (let line = log_line line
      in case find_marker line of
           None \<Rightarrow> None
         | Some marker \<Rightarrow>
             if \<not> tree_prefix (take marker line) then None
             else case split_whitespace (trim (drop (marker + 3) line)) of
                    [] \<Rightarrow> None
                  | coordinate # _ \<Rightarrow>
                      map_option (\<lambda>(normalized, scope). \<lparr> dn_depth = marker div 3 + 1, dn_coordinate = normalized, dn_scope = scope \<rparr>)
                        (tree_coordinate (split_on 58 (trim_end_matches_ch 44 coordinate))))"

definition parse_dependency_tree :: "str \<Rightarrow> DependencyNode list" where
  "parse_dependency_tree output = List.map_filter tree_line (str_lines output)"

section \<open>The classpath\<close>

fun classpath_loop :: "str list \<Rightarrow> str list \<times> bool \<times> bool" where
  "classpath_loop [] = ([], False, False)"
| "classpath_loop (line # lines) =
     (if \<not> contains (lit ''Dependencies classpath:'') line then classpath_loop lines
      else case lines of
             [] \<Rightarrow> ([], True, True)
           | classpath # rest \<Rightarrow>
               (case classpath_loop rest of (found, marker, incomplete) \<Rightarrow> (trim classpath # found, True, incomplete)))"

text \<open>The classpath lines and whether the output is incomplete.\<close>

definition classpath_lines :: "str \<Rightarrow> str list \<times> bool" where
  "classpath_lines output =
     (case classpath_loop (str_lines output) of (found, marker, incomplete) \<Rightarrow> (found, incomplete \<or> \<not> marker))"

definition classpath_items :: "str list \<Rightarrow> str list" where
  "classpath_items classpaths = filter (\<lambda>item. item \<noteq> []) (concat (map (split_on 58) classpaths))"

definition coordinate_from_repository_path :: "str \<Rightarrow> str option" where
  "coordinate_from_repository_path p =
     (let normalized = replace_ch 92 47 p;
          relative = (case strip_prefix (lit ''<MAVEN_REPOSITORY>/'') normalized of
                        Some r \<Rightarrow> Some r
                      | None \<Rightarrow> map_option snd (rsplit_once (lit ''/repository/'') normalized))
      in relative \<bind> (\<lambda>relative.
           let parts = split_on 47 relative; n = length parts
           in if n < 4 then None
              else strip_suffix (lit ''.jar'') (last parts) \<bind> (\<lambda>file_name.
                let version = parts ! (n - 2); artifact = parts ! (n - 3); g = join [46] (take (n - 3) parts)
                in map_option (\<lambda>suffix.
                     case strip_prefix [45] suffix of
                       Some classifier \<Rightarrow>
                         if classifier = [] then join [58] [g, artifact, version]
                         else join [58] [g, artifact, version, classifier]
                     | None \<Rightarrow> join [58] [g, artifact, version])
                   (strip_prefix (artifact @ [45] @ version) file_name))))"

definition parse_classpath :: "str \<Rightarrow> str list \<times> bool" where
  "parse_classpath output =
     (case classpath_lines output of (classpaths, incomplete) \<Rightarrow>
        let items = classpath_items classpaths
        in (remdups_adj (sort (List.map_filter coordinate_from_repository_path items)),
            incomplete \<or> None \<in> set (map coordinate_from_repository_path items)))"

text \<open>A path is kept by its text; \<open>Path\<close> compares by components, which is the order of \<open>path_key\<close>.\<close>

definition path_key :: "str \<Rightarrow> str list" where
  "path_key p = filter (\<lambda>c. c \<noteq> [] \<and> c \<noteq> [46]) (split_on 47 p)"

definition parse_classpath_paths :: "str \<Rightarrow> path list \<times> bool" where
  "parse_classpath_paths output =
     (case classpath_lines output of (classpaths, incomplete) \<Rightarrow>
        let items = classpath_items classpaths
        in (remdups_adj (sort (map path_key (filter is_absolute items))),
            incomplete \<or> (\<exists>item\<in>set items. \<not> is_absolute item)))"


section \<open>Reading a dependency tree back\<close>

text \<open>
  The tree as \<open>dependency:tree\<close> writes it: each line has one chunk per ancestor below the root, a bar
  when more siblings of the ancestor follow and blanks otherwise.
\<close>

record TreeDependency =
  td_group :: str
  td_artifact :: str
  td_kind :: str
  td_classifier :: "str option"
  td_version :: str
  td_scope :: str

datatype dep_tree = Dep TreeDependency "dep_tree list"

definition dep_fields :: "TreeDependency \<Rightarrow> str list" where
  "dep_fields d = [td_group d, td_artifact d, td_kind d] @ (case td_classifier d of None \<Rightarrow> [] | Some c \<Rightarrow> [c]) @
     [td_version d, td_scope d]"

definition dep_text :: "TreeDependency \<Rightarrow> str" where
  "dep_text d = join [58] (dep_fields d)"

definition chunks :: "bool list \<Rightarrow> str" where
  "chunks ancestors = concat (map (\<lambda>more_follow. if more_follow then BAR else BLANK) ancestors)"

fun tree_lines :: "bool list \<Rightarrow> dep_tree list \<Rightarrow> str list" where
  "tree_lines ancestors [] = []"
| "tree_lines ancestors (Dep d below # rest) =
     (chunks ancestors @ (if rest = [] then LAST_BRANCH else BRANCH) @ dep_text d)
     # tree_lines (ancestors @ [rest \<noteq> []]) below @ tree_lines ancestors rest"

definition tree_output :: "dep_tree list \<Rightarrow> str" where
  "tree_output forest = unlines (map (\<lambda>line. lit ''[INFO] '' @ line) (tree_lines [] forest))"

text \<open>The nodes the reader answers for it.\<close>

definition normalized :: "TreeDependency \<Rightarrow> str" where
  "normalized d = join [58] ([td_group d, td_artifact d, td_version d] @ (case td_classifier d of None \<Rightarrow> [] | Some c \<Rightarrow> [c]))"

fun tree_nodes :: "bool list \<Rightarrow> dep_tree list \<Rightarrow> DependencyNode list" where
  "tree_nodes ancestors [] = []"
| "tree_nodes ancestors (Dep d below # rest) =
     \<lparr> dn_depth = length (dropWhile Not ancestors) + 1, dn_coordinate = normalized d, dn_scope = Some (td_scope d) \<rparr>
     # tree_nodes (ancestors @ [rest \<noteq> []]) below @ tree_nodes ancestors rest"

definition field_ok :: "str \<Rightarrow> bool" where
  "field_ok s \<longleftrightarrow> s \<noteq> [] \<and> 58 \<notin> set s \<and> (\<forall>c\<in>set s. \<not> is_whitespace c)"

definition dep_ok :: "TreeDependency \<Rightarrow> bool" where
  "dep_ok d \<longleftrightarrow> list_all field_ok (dep_fields d) \<and> is_dependency_scope (td_scope d)"

primrec tree_ok :: "dep_tree \<Rightarrow> bool" where
  "tree_ok (Dep d below) \<longleftrightarrow> dep_ok d \<and> list_all tree_ok below"

lemma scope_last: "is_dependency_scope s \<Longrightarrow> s \<noteq> [] \<and> last s \<noteq> 44"
  by (auto simp: is_dependency_scope_def SCOPES_def)

lemma join_last: "xs \<noteq> [] \<Longrightarrow> last xs \<noteq> [] \<Longrightarrow> join sep xs \<noteq> [] \<and> last (join sep xs) = last (last xs)"
proof (induction xs rule: list_nonempty_induct)
  case (cons x xs)
  then show ?case by (cases xs) (auto simp: last_append)
qed simp

lemma set_join: "set (join sep xs) \<subseteq> set sep \<union> \<Union> (set ` set xs)"
proof (induction sep xs rule: join.induct)
  case (3 sep x y ys)
  then show ?case by auto
qed auto

lemma dep_text_word:
  assumes "dep_ok d"
  shows "dep_text d \<noteq> []" "\<And>c. c \<in> set (dep_text d) \<Longrightarrow> \<not> is_whitespace c" "last (dep_text d) \<noteq> 44"
    "split_on 58 (dep_text d) = dep_fields d"
proof -
  have fields: "dep_fields d \<noteq> []" "last (dep_fields d) = td_scope d" by (simp_all add: dep_fields_def)
  with assms scope_last show "dep_text d \<noteq> []" "last (dep_text d) \<noteq> 44"
    using join_last [of "dep_fields d" "[58]"] by (auto simp: dep_text_def dep_ok_def)
  have each: "field_ok x" if "x \<in> set (dep_fields d)" for x
    using assms that by (simp add: dep_ok_def list_all_iff)
  show "\<And>c. c \<in> set (dep_text d) \<Longrightarrow> \<not> is_whitespace c"
  proof -
    fix c assume "c \<in> set (dep_text d)"
    then have "c = 58 \<or> (\<exists>x\<in>set (dep_fields d). c \<in> set x)"
      using set_join [of "[58]" "dep_fields d"] by (auto simp: dep_text_def)
    then show "\<not> is_whitespace c"
    proof
      assume "c = 58"
      then show ?thesis by (simp add: is_whitespace_def)
    next
      assume "\<exists>x\<in>set (dep_fields d). c \<in> set x"
      then show ?thesis using each by (auto simp: field_ok_def)
    qed
  qed
  show "split_on 58 (dep_text d) = dep_fields d"
    unfolding dep_text_def using fields(1) each by (intro split_on_join) (auto simp: field_ok_def)
qed

lemma tree_coordinate_fields: "dep_ok d \<Longrightarrow> tree_coordinate (dep_fields d) = Some (normalized d, Some (td_scope d))"
proof -
  assume ok: "dep_ok d"
  then have "[] \<notin> set (dep_fields d)" by (auto simp: dep_ok_def list_all_iff field_ok_def)
  moreover have "is_dependency_scope (last (dep_fields d))" using ok by (simp add: dep_ok_def dep_fields_def)
  ultimately show ?thesis
    by (cases "td_classifier d") (simp_all add: tree_coordinate_def normalized_def, simp_all add: dep_fields_def)
qed

lemma chunks_simps [simp]:
  "chunks [] = []" "chunks (True # as) = 124 # 32 # 32 # chunks as" "chunks (False # as) = 32 # 32 # 32 # chunks as"
  by (simp_all add: chunks_def BAR_def BLANK_def)

lemma length_chunks [simp]: "length (chunks as) = 3 * length as"
  by (induction as) (auto simp: chunks_def BAR_def BLANK_def)

lemma set_chunks: "set (chunks as) \<subseteq> {124, 32}"
  by (induction as) (auto simp: chunks_def BAR_def BLANK_def)

lemma tree_prefix_chunks: "tree_prefix (chunks as)"
proof (induction as)
  case (Cons a as)
  then show ?case by (cases a) (simp_all add: BAR_def BLANK_def)
qed simp

lemma chunks_trimmed:
  assumes "marker \<noteq> []" "\<not> is_whitespace (hd marker)"
  shows "dropWhile is_whitespace (chunks as @ marker) = chunks (dropWhile Not as) @ marker"
proof (induction as)
  case Nil
  then show ?case using assms by (simp add: dropWhile_hd)
next
  case (Cons a as)
  then show ?case by (cases a) (simp_all add: is_whitespace_def)
qed

text \<open>The marker is found at the end of the prefix.\<close>

lemma find_marker_line:
  assumes word: "\<And>c. c \<in> set s \<Longrightarrow> \<not> is_whitespace c" and marker: "m = BRANCH \<or> m = LAST_BRANCH"
  shows "find_marker (chunks as @ m @ s) = Some (length (chunks as))"
proof -
  have free: "43 \<notin> set (chunks as)" "92 \<notin> set (chunks as)" using set_chunks [of as] by auto
  have blank: "32 \<notin> set s" using word [of 32] by (auto simp: is_whitespace_def)
  from marker show ?thesis
  proof
    assume m: "m = BRANCH"
    have "find_str BRANCH (chunks as @ BRANCH @ s) = Some (length (chunks as))"
      using find_str_at [OF free(1), of "[45, 32]" s] by (simp add: BRANCH_def)
    then show ?thesis by (simp add: find_marker_def m)
  next
    assume m: "m = LAST_BRANCH"
    have "find_str BRANCH ((chunks as @ LAST_BRANCH) @ s) = map_option ((+) (length (chunks as @ LAST_BRANCH))) (find_str BRANCH s)"
      using find_str_skip [of 43 "chunks as @ LAST_BRANCH" "[45, 32]" s] free by (simp add: BRANCH_def LAST_BRANCH_def)
    also have "find_str BRANCH s = None" using blank by (intro find_str_missing [of 32]) (simp_all add: BRANCH_def)
    finally have "find_str BRANCH (chunks as @ LAST_BRANCH @ s) = None" by simp
    moreover have "find_str LAST_BRANCH (chunks as @ LAST_BRANCH @ s) = Some (length (chunks as))"
      using find_str_at [OF free(2), of "[45, 32]" s] by (simp add: LAST_BRANCH_def)
    ultimately show ?thesis by (simp add: find_marker_def m)
  qed
qed

lemma log_line_info:
  assumes "s \<noteq> []" "hd s \<noteq> 91" "\<not> is_whitespace (last s)"
  shows "log_line (lit ''[INFO] '' @ s) = dropWhile is_whitespace s"
proof -
  have info: "lit ''[INFO] '' = lit ''[INFO]'' @ [32]" by simp
  have "trim (lit ''[INFO] '' @ s) = lit ''[INFO]'' @ 32 # s"
    unfolding info using assms by (subst trim_id) (auto simp: is_whitespace_def)
  moreover have "trim_start_matches (lit ''[INFO]'') (lit ''[INFO]'' @ 32 # s) = 32 # s"
    by (intro trim_start_matches_once) (simp_all add: starts_with_Cons_neq)
  moreover have "trim (32 # s) = dropWhile is_whitespace s"
  proof -
    have "trim (32 # s) = trim s" using trim_leading [of "[32]" s] by (simp add: is_whitespace_def)
    also have "\<dots> = dropWhile is_whitespace s"
    proof -
      have "dropWhile is_whitespace s \<noteq> [] \<and> last (dropWhile is_whitespace s) = last s"
        using assms(1,3) by (metis dropWhile_eq_Nil_conv last_in_set last_appendR takeWhile_dropWhile_id)
      then show ?thesis using assms(3) unfolding trim_def trim_start_def trim_end_def
        by (simp add: dropWhile_hd hd_rev)
    qed
    finally show ?thesis .
  qed
  ultimately show ?thesis by (simp add: log_line_def)
qed

lemma tree_line_rendered:
  assumes ok: "dep_ok d" and marker: "m = BRANCH \<or> m = LAST_BRANCH"
  shows "tree_line (lit ''[INFO] '' @ chunks as @ m @ dep_text d) =
    Some \<lparr> dn_depth = length (dropWhile Not as) + 1, dn_coordinate = normalized d, dn_scope = Some (td_scope d) \<rparr>"
proof -
  note word = dep_text_word [OF ok]
  let ?pre = "chunks (dropWhile Not as)"
  have m: "m \<noteq> []" "hd m \<noteq> 32" "hd m \<noteq> 91" "\<not> is_whitespace (hd m)" "length m = 3"
    using marker by (auto simp: BRANCH_def LAST_BRANCH_def is_whitespace_def)
  have first: "hd (chunks as @ m @ dep_text d) \<noteq> 91" using m(1,3) set_chunks [of as]
    by (cases "chunks as") auto
  have line: "log_line (lit ''[INFO] '' @ chunks as @ m @ dep_text d) = ?pre @ m @ dep_text d"
    using first m(1,4) word(1,2) by (subst log_line_info) (auto simp: chunks_trimmed)
  have "find_marker (?pre @ m @ dep_text d) = Some (length ?pre)" using find_marker_line [OF word(2) marker] .
  moreover have "drop (length ?pre + 3) (?pre @ m @ dep_text d) = dep_text d" using m(5) by simp
  moreover have "take (length ?pre) (?pre @ m @ dep_text d) = ?pre" by simp
  ultimately show ?thesis
    unfolding tree_line_def line
    using word trim_word [OF word(2)] split_whitespace_word [OF word(1,2)] tree_coordinate_fields [OF ok]
    by (simp add: tree_prefix_chunks trim_end_matches_ch_id del: length_chunks) simp
qed

lemma tree_lines_read:
  "list_all tree_ok forest \<Longrightarrow>
    List.map_filter tree_line (map (\<lambda>line. lit ''[INFO] '' @ line) (tree_lines as forest)) = tree_nodes as forest"
proof (induction as forest rule: tree_lines.induct)
  case (2 as d below rest)
  then show ?case
    using tree_line_rendered [of d "if rest = [] then LAST_BRANCH else BRANCH" as]
    by (auto simp: map_filter_simps List.map_filter_def)
qed (simp add: map_filter_simps)

lemma tree_lines_are_lines: "list_all tree_ok forest \<Longrightarrow> line \<in> set (tree_lines as forest) \<Longrightarrow> is_line (lit ''[INFO] '' @ line)"
proof (induction as forest rule: tree_lines.induct)
  case (2 as d below rest)
  show ?case
  proof (cases "line = chunks as @ (if rest = [] then LAST_BRANCH else BRANCH) @ dep_text d")
    case True
    have ok: "dep_ok d" using 2 by simp
    note word = dep_text_word [OF ok]
    have "10 \<notin> set (dep_text d)" using word(2) [of 10] by (auto simp: is_whitespace_def)
    then have "10 \<notin> set line" using True set_chunks [of as] by (auto simp: BRANCH_def LAST_BRANCH_def)
    then show ?thesis using True word(1,2) by (intro is_line_last) auto
  next
    case False
    then show ?thesis using 2 by auto
  qed
qed simp

text \<open>
  Claim C39: dependency_tree_read_back.  From a dependency tree in Maven's format the reader answers every
  dependency once, in the order of the tree, with its group, artifact, version, classifier and scope.  Its
  depth is the number of its ancestors plus one, except that ancestors at the start of the path that are
  the last of their siblings are not counted, because the line is trimmed before the prefix is measured.
\<close>

theorem dependency_tree_read_back:
  assumes "list_all tree_ok forest"
  shows "parse_dependency_tree (tree_output forest) = tree_nodes [] forest"
proof -
  have "str_lines (tree_output forest) = map (\<lambda>line. lit ''[INFO] '' @ line) (tree_lines [] forest)"
    unfolding tree_output_def using assms by (intro str_lines_unlines) (auto dest: tree_lines_are_lines)
  then show ?thesis unfolding parse_dependency_tree_def using tree_lines_read [OF assms] by simp
qed

definition demo_dependency :: "string \<Rightarrow> TreeDependency" where
  "demo_dependency a = \<lparr> td_group = lit ''g'', td_artifact = lit a, td_kind = lit ''jar'', td_classifier = None,
     td_version = lit ''1'', td_scope = lit ''compile'' \<rparr>"

text \<open>Below the last dependency of the root the reported depth is one, as if the node were a direct
  dependency; below the others it is right.\<close>

theorem dependency_tree_read_back_witness:
  "map dn_depth (parse_dependency_tree (tree_output
      [Dep (demo_dependency ''a'') [Dep (demo_dependency ''b'') []], Dep (demo_dependency ''c'') [Dep (demo_dependency ''d'') []]])) =
    [1, 2, 1, 1]"
proof -
  have "list_all tree_ok
      [Dep (demo_dependency ''a'') [Dep (demo_dependency ''b'') []], Dep (demo_dependency ''c'') [Dep (demo_dependency ''d'') []]]"
    by (simp add: demo_dependency_def dep_ok_def dep_fields_def field_ok_def is_whitespace_def is_dependency_scope_def SCOPES_def)
  from dependency_tree_read_back [OF this] show ?thesis by simp
qed


section \<open>Reading the classpath back\<close>

text \<open>The output of \<open>dependency:build-classpath\<close>: per module some log lines, the marker and the paths.\<close>

definition CLASSPATH_MARKER :: str where
  "CLASSPATH_MARKER = lit ''[INFO] Dependencies classpath:''"

definition classpath_output :: "(str list \<times> str list) list \<Rightarrow> str list \<Rightarrow> str" where
  "classpath_output modules trailing =
     unlines (concat (map (\<lambda>(noise, paths). noise @ [CLASSPATH_MARKER, join [58] paths]) modules) @ trailing)"

definition quiet_line :: "str \<Rightarrow> bool" where
  "quiet_line line \<longleftrightarrow> is_line line \<and> \<not> contains (lit ''Dependencies classpath:'') line"

definition path_ok :: "str \<Rightarrow> bool" where
  "path_ok p \<longleftrightarrow> is_absolute p \<and> 58 \<notin> set p \<and> 10 \<notin> set p \<and> \<not> is_whitespace (last p)"

lemma marker_line: "contains (lit ''Dependencies classpath:'') CLASSPATH_MARKER" "is_line CLASSPATH_MARKER"
proof -
  have "CLASSPATH_MARKER = lit ''[INFO] '' @ lit ''Dependencies classpath:'' @ []" by (simp add: CLASSPATH_MARKER_def)
  then show "contains (lit ''Dependencies classpath:'') CLASSPATH_MARKER" unfolding contains_iff by blast
qed (simp add: CLASSPATH_MARKER_def is_line_def)

lemma path_nonempty: "path_ok p \<Longrightarrow> p \<noteq> [] \<and> \<not> is_whitespace (hd p)"
proof -
  assume "path_ok p"
  then obtain r where "p = 47 # r" by (auto simp: path_ok_def is_absolute_def starts_with_iff)
  then show ?thesis by (simp add: is_whitespace_def)
qed

lemma paths_line:
  assumes "list_all path_ok paths"
  shows "trim (join [58] paths) = join [58] paths" "is_line (join [58] paths)"
    "filter (\<lambda>item. item \<noteq> []) (split_on 58 (join [58] paths)) = paths"
proof -
  show "filter (\<lambda>item. item \<noteq> []) (split_on 58 (join [58] paths)) = paths"
  proof (cases "paths = []")
    case False
    then have "split_on 58 (join [58] paths) = paths" using assms by (intro split_on_join) (auto simp: list_all_iff path_ok_def)
    moreover have "filter (\<lambda>item. item \<noteq> []) paths = paths" using assms path_nonempty by (auto simp: filter_id_conv list_all_iff)
    ultimately show ?thesis by simp
  qed simp
  have "trim (join [58] paths) = join [58] paths \<and> is_line (join [58] paths)"
  proof (cases "paths = []")
    case False
    then obtain p ps where paths: "paths = p # ps" by (cases paths) auto
    then have p: "path_ok p" using assms by simp
    have lastp: "path_ok (last paths)" using assms False by (simp add: list_all_iff)
    have "last paths \<noteq> []" using path_nonempty [OF lastp] by blast
    then have ends: "join [58] paths \<noteq> []" "last (join [58] paths) = last (last paths)" using join_last [OF False] by auto
    moreover have "hd (join [58] paths) = hd p"
      unfolding paths using path_nonempty [OF p] by (cases ps) auto
    moreover have "\<not> is_whitespace (last (last paths))" using lastp by (simp add: path_ok_def)
    moreover have "10 \<notin> set (join [58] paths)"
      using set_join [of "[58]" paths] assms by (auto simp: list_all_iff path_ok_def)
    ultimately show ?thesis using path_nonempty [OF p] by (auto intro: trim_id is_line_last)
  qed (simp add: is_line_def)
  then show "trim (join [58] paths) = join [58] paths" "is_line (join [58] paths)" by auto
qed

lemma classpath_loop_quiet: "list_all quiet_line noise \<Longrightarrow> classpath_loop (noise @ rest) = classpath_loop rest"
  by (induction noise) (auto simp: quiet_line_def)

lemma classpath_loop_modules:
  "list_all (\<lambda>(noise, paths). list_all quiet_line noise \<and> list_all path_ok paths) modules \<Longrightarrow> list_all quiet_line trailing \<Longrightarrow>
   classpath_loop (concat (map (\<lambda>(noise, paths). noise @ [CLASSPATH_MARKER, join [58] paths]) modules) @ trailing) =
     (map (\<lambda>(noise, paths). join [58] paths) modules, modules \<noteq> [], False)"
proof (induction modules)
  case Nil
  then show ?case using classpath_loop_quiet [of trailing "[]"] by simp
next
  case (Cons m modules)
  obtain noise paths where m: "m = (noise, paths)" by (cases m)
  then show ?case
    using Cons by (simp add: classpath_loop_quiet marker_line paths_line(1) del: lit.simps)
qed

text \<open>
  Claim C38: classpath_read_back.  From the output of a reactor build the classpath reader answers every
  path of every module, sorted and without duplicates, whatever other lines stand between the modules,
  and reports the classpath as complete.
\<close>

lemma classpath_read_back:
  assumes modules: "list_all (\<lambda>(noise, paths). list_all quiet_line noise \<and> list_all path_ok paths) modules"
    and "modules \<noteq> []" and trailing: "list_all quiet_line trailing"
  shows "parse_classpath_paths (classpath_output modules trailing) =
    (sorted_list_of_set (path_key ` set (concat (map snd modules))), False)"
proof -
  let ?items = "concat (map snd modules)"
  have lines: "str_lines (classpath_output modules trailing) =
      concat (map (\<lambda>(noise, paths). noise @ [CLASSPATH_MARKER, join [58] paths]) modules) @ trailing"
    unfolding classpath_output_def using modules trailing
    by (intro str_lines_unlines) (auto simp: list_all_iff quiet_line_def marker_line paths_line(2) simp del: lit.simps)
  have "classpath_lines (classpath_output modules trailing) = (map (\<lambda>(noise, paths). join [58] paths) modules, False)"
    using assms(2) unfolding classpath_lines_def lines classpath_loop_modules [OF modules trailing] by simp
  moreover have "classpath_items (map (\<lambda>(noise, paths). join [58] paths) modules) = ?items"
    using modules by (induction modules) (auto simp: classpath_items_def paths_line(3))
  moreover have "is_absolute p" if "p \<in> set ?items" for p
    using modules that by (auto simp: list_all_iff path_ok_def)
  then have "filter is_absolute ?items = ?items" "\<not> (\<exists>item\<in>set ?items. \<not> is_absolute item)"
    by (auto simp: filter_id_conv)
  moreover have "set (map path_key ?items) = path_key ` set ?items" by simp
  ultimately show ?thesis by (simp only: parse_classpath_paths_def Let_def remdups_adj_sort prod.case simp_thms)
qed

end
