(* ===== verification/Dependency_Resolution.thy ===== *)
theory Dependency_Resolution
  imports Maven_Output Wildcard
begin

text \<open>
  The explanation of dependency mediation (\<open>src/src/project.rs\<close>, \<open>parse_dependency_resolution\<close> and its
  helpers): the verbose dependency tree of every module is read into one explanation per artifact.
\<close>

section \<open>Lines of the verbose tree\<close>

datatype DependencyPathStatus = Selected | ConflictOmitted | DuplicateOmitted | Excluded

datatype DependencySelectionReason = DirectDeclaration | NearestDefinition | DependencyManagement | OnlyCandidate

record DependencyResolutionPath =
  rp_module :: str
  rp_nodes :: "str list"
  rp_requested_version :: str
  rp_status :: DependencyPathStatus
  rp_annotations :: "str list"

record DependencyResolutionExplanation =
  de_artifact :: str
  de_selected_version :: "str option"
  de_requested_versions :: "str list"
  de_selection_reasons :: "DependencySelectionReason list"
  de_paths :: "DependencyResolutionPath list"

record ParsedDependencyCoordinate =
  pc_identity :: str
  pc_coordinate :: str
  pc_version :: str

record ParsedDependencyLine =
  pl_depth :: nat
  pl_coordinate :: ParsedDependencyCoordinate
  pl_status :: DependencyPathStatus
  pl_annotations :: "str list"
  pl_requested_version :: str

definition LEVELS :: "str list" where
  "LEVELS = [lit ''[INFO]'', lit ''[WARNING]'', lit ''[WARN]'', lit ''[ERROR]'']"

fun strip_level :: "str list \<Rightarrow> str \<Rightarrow> str" where
  "strip_level [] line = line"
| "strip_level (level # levels) line =
     (case strip_prefix level line of
        Some message \<Rightarrow> trim_end (case strip_prefix [32] message of Some m \<Rightarrow> m | None \<Rightarrow> message)
      | None \<Rightarrow> strip_level levels line)"

definition maven_log_message :: "str \<Rightarrow> str" where
  "maven_log_message line = strip_level LEVELS (trim_end (trim_start line))"

definition plugin_module_artifact :: "str \<Rightarrow> str option" where
  "plugin_module_artifact line =
     (case split_once (lit '' @ '') line of
        None \<Rightarrow> None
      | Some (_, remainder) \<Rightarrow>
          let artifact = trim (trim_end_matches_ch 45 remainder)
          in if artifact = [] then None else Some artifact)"

definition module_selector :: "MavenProject \<Rightarrow> str \<Rightarrow> str" where
  "module_selector project artifact_id =
     (case find (\<lambda>m. mm_artifact_id m = artifact_id) (mp_modules project) of
        None \<Rightarrow> lit ''.'' | Some m \<Rightarrow> mm_selector m)"

definition normalize_coordinate :: "str list \<Rightarrow> str option" where
  "normalize_coordinate parts =
     (case parts of
        [g, artifact, kind, version] \<Rightarrow> Some (join [58] [g, artifact, version])
      | [g, artifact, kind, classifier, version] \<Rightarrow> Some (join [58] [g, artifact, version, classifier])
      | _ \<Rightarrow> None)"

definition parse_root_coordinate :: "str \<Rightarrow> (str \<times> str) option" where
  "parse_root_coordinate line =
     (if (\<exists>c\<in>set line. is_whitespace c) \<or> starts_with [40] line then None
      else let parts = split_on 58 line
           in if length parts \<notin> {4, 5} \<or> [] \<in> set parts then None
              else map_option (\<lambda>c. (parts ! 1, c)) (normalize_coordinate parts))"

definition parse_dependency_coordinate :: "str list \<Rightarrow> ParsedDependencyCoordinate option" where
  "parse_dependency_coordinate parts =
     (let n = length parts; scope_index = length (takeWhile (\<lambda>p. \<not> is_dependency_scope p) parts)
      in if n \<notin> {5, 6} \<or> [] \<in> set parts \<or> scope_index = n then None
         else map_option (\<lambda>version_index.
             let classifier = (if n = 6 then [parts ! 3] else [])
             in \<lparr> pc_identity = join [58] ([parts ! 0, parts ! 1, parts ! 2] @ classifier),
                  pc_coordinate = join [58] ([parts ! 0, parts ! 1, parts ! version_index] @ classifier),
                  pc_version = parts ! version_index \<rparr>)
           (if (n, scope_index) = (5, 4) then Some 3
            else if (n, scope_index) = (5, 3) then Some 4
            else if (n, scope_index) = (6, 5) then Some 4
            else if (n, scope_index) = (6, 4) then Some 5
            else None))"

definition split_dependency_annotations :: "str \<Rightarrow> str \<times> str list" where
  "split_dependency_annotations value =
     (let trimmed = trim value
      in case strip_prefix [40] trimmed \<bind> strip_suffix [41] \<bind> split_once (lit '' - '') of
           Some (coordinate, annotation) \<Rightarrow> (trim coordinate, [trim annotation])
         | None \<Rightarrow>
             (case rsplit_once (lit '' ('') trimmed of
                Some (coordinate, annotation) \<Rightarrow> (trim coordinate, [trim (trim_end_matches_ch 41 annotation)])
              | None \<Rightarrow> (trimmed, [])))"

definition trim_parens :: "str \<Rightarrow> str" where
  "trim_parens s = rev (dropWhile (\<lambda>c. c = 40 \<or> c = 41) (rev (dropWhile (\<lambda>c. c = 40 \<or> c = 41) s)))"

definition MANAGED_FROM :: str where "MANAGED_FROM = lit ''version managed from ''"

fun managed_from_version :: "str list \<Rightarrow> str option" where
  "managed_from_version [] = None"
| "managed_from_version (annotation # annotations) =
     (case find_str MANAGED_FROM (to_ascii_lowercase annotation) of
        None \<Rightarrow> managed_from_version annotations
      | Some i \<Rightarrow>
          let version = takeWhile (\<lambda>c. c \<notin> {59, 44, 32}) (drop (i + length MANAGED_FROM) annotation)
          in if version = [] then managed_from_version annotations else Some version)"

definition path_status :: "str list \<Rightarrow> DependencyPathStatus" where
  "path_status annotations =
     (let note = to_ascii_lowercase (join (lit ''; '') annotations)
      in if contains (lit ''excluded'') note \<or> contains (lit ''exclusion'') note then Excluded
         else if contains (lit ''omitted for conflict'') note then ConflictOmitted
         else if contains (lit ''omitted for duplicate'') note then DuplicateOmitted
         else Selected)"

text \<open>\<open>marker\<close> counts characters; the depth is computed from bytes.\<close>

definition parse_dependency_line :: "str \<Rightarrow> nat \<Rightarrow> ParsedDependencyLine option" where
  "parse_dependency_line line marker =
     (case split_dependency_annotations (trim (drop (marker + 3) line)) of
        (coordinate_text, annotations) \<Rightarrow>
          map_option (\<lambda>coordinate.
              \<lparr> pl_depth = str_len (take marker line) div 3 + 1, pl_coordinate = coordinate,
                pl_status = path_status annotations, pl_annotations = annotations,
                pl_requested_version =
                  (case managed_from_version annotations of Some v \<Rightarrow> v | None \<Rightarrow> pc_version coordinate) \<rparr>)
            (parse_dependency_coordinate (split_on 58 (trim_parens coordinate_text))))"

section \<open>One explanation per artifact\<close>

record DependencyExplanationBuilder =
  eb_selected_version :: "str option"
  eb_requested_versions :: "str set"
  eb_selection_reasons :: "DependencySelectionReason set"
  eb_paths :: "DependencyResolutionPath list"

definition new_builder :: DependencyExplanationBuilder where
  "new_builder = \<lparr> eb_selected_version = None, eb_requested_versions = {}, eb_selection_reasons = {}, eb_paths = [] \<rparr>"

definition is_managed :: "str list \<Rightarrow> bool" where
  "is_managed annotations \<longleftrightarrow> (\<exists>a\<in>set annotations. contains (lit ''managed'') (to_ascii_lowercase a))"

definition record_path :: "ParsedDependencyLine \<Rightarrow> str \<Rightarrow> str list \<Rightarrow> DependencyExplanationBuilder \<Rightarrow>
    DependencyExplanationBuilder" where
  "record_path parsed module nodes b =
     \<lparr> eb_selected_version =
         (if pl_status parsed = Selected then Some (pc_version (pl_coordinate parsed)) else eb_selected_version b),
       eb_requested_versions = insert (pl_requested_version parsed) (eb_requested_versions b),
       eb_selection_reasons = eb_selection_reasons b \<union>
         (if pl_status parsed = Selected \<and> pl_depth parsed = 1 then {DirectDeclaration} else {}) \<union>
         (if is_managed (pl_annotations parsed) then {DependencyManagement} else {}),
       eb_paths = eb_paths b @ [\<lparr> rp_module = module, rp_nodes = nodes, rp_requested_version = pl_requested_version parsed,
         rp_status = pl_status parsed, rp_annotations = pl_annotations parsed \<rparr>] \<rparr>"

record resolution_state =
  rs_builders :: "(str \<times> DependencyExplanationBuilder) list"
  rs_path_stack :: "str list"
  rs_module :: str
  rs_malformed :: bool

definition start_resolution :: resolution_state where
  "start_resolution = \<lparr> rs_builders = [], rs_path_stack = [], rs_module = lit ''.'', rs_malformed = False \<rparr>"

definition or_default :: "DependencyExplanationBuilder option \<Rightarrow> DependencyExplanationBuilder" where
  "or_default b = (case b of None \<Rightarrow> new_builder | Some b \<Rightarrow> b)"

definition dependency_found :: "ParsedDependencyLine \<Rightarrow> resolution_state \<Rightarrow> resolution_state" where
  "dependency_found parsed st =
     (let stack = take (min (pl_depth parsed) (length (rs_path_stack st))) (rs_path_stack st);
          nodes = stack @ [pc_coordinate (pl_coordinate parsed)];
          key = pc_identity (pl_coordinate parsed)
      in st \<lparr> rs_path_stack := nodes,
              rs_builders := bt_insert key
                (record_path parsed (rs_module st) nodes (or_default (map_of (rs_builders st) key))) (rs_builders st) \<rparr>)"

definition resolution_line :: "MavenProject \<Rightarrow> str \<Rightarrow> resolution_state \<Rightarrow> resolution_state" where
  "resolution_line project raw_line st =
     (let line = maven_log_message raw_line
      in case plugin_module_artifact line of
           Some artifact_id \<Rightarrow> st \<lparr> rs_module := module_selector project artifact_id, rs_path_stack := [] \<rparr>
         | None \<Rightarrow>
             (case find_marker line of
                None \<Rightarrow>
                  (case parse_root_coordinate line of
                     None \<Rightarrow> st
                   | Some (artifact_id, coordinate) \<Rightarrow>
                       st \<lparr> rs_module := module_selector project artifact_id, rs_path_stack := [coordinate] \<rparr>)
              | Some marker \<Rightarrow>
                  (case parse_dependency_line line marker of
                     None \<Rightarrow> st \<lparr> rs_malformed := True \<rparr>
                   | Some parsed \<Rightarrow> dependency_found parsed st)))"

definition add_mediation_reason :: "DependencyExplanationBuilder \<Rightarrow> DependencyExplanationBuilder" where
  "add_mediation_reason b =
     (if (\<exists>p\<in>set (eb_paths b). rp_status p = ConflictOmitted) then
        (if DirectDeclaration \<in> eb_selection_reasons b then b
         else b \<lparr> eb_selection_reasons := insert NearestDefinition (eb_selection_reasons b) \<rparr>)
      else if card (eb_requested_versions b) = 1
      then b \<lparr> eb_selection_reasons := insert OnlyCandidate (eb_selection_reasons b) \<rparr>
      else b)"

definition REASONS :: "DependencySelectionReason list" where
  "REASONS = [DirectDeclaration, NearestDefinition, DependencyManagement, OnlyCandidate]"

definition explanation :: "str \<Rightarrow> DependencyExplanationBuilder \<Rightarrow> DependencyResolutionExplanation" where
  "explanation artifact b =
     (let b = add_mediation_reason b
      in \<lparr> de_artifact = artifact, de_selected_version = eb_selected_version b,
           de_requested_versions = sorted_list_of_set (eb_requested_versions b),
           de_selection_reasons = filter (\<lambda>r. r \<in> eb_selection_reasons b) REASONS, de_paths = eb_paths b \<rparr>)"

text \<open>The explanations in the order of their artifacts, and whether a line was malformed.\<close>

definition parse_dependency_resolution :: "str \<Rightarrow> MavenProject \<Rightarrow> DependencyResolutionExplanation list \<times> bool" where
  "parse_dependency_resolution output project =
     (let st = fold (resolution_line project) (str_lines output) start_resolution
      in (map (\<lambda>(artifact, b). explanation artifact b) (rs_builders st), rs_malformed st))"

section \<open>Filtering and limiting\<close>

text \<open>\<open>a || b\<close> of tests that may not end.\<close>

definition or_else :: "bool option \<Rightarrow> bool option \<Rightarrow> bool option" where
  "or_else a b = (case a of None \<Rightarrow> None | Some True \<Rightarrow> Some True | Some False \<Rightarrow> b)"

fun any_path :: "str \<Rightarrow> DependencyResolutionPath list \<Rightarrow> bool option" where
  "any_path pattern [] = Some False"
| "any_path pattern (p # ps) =
     or_else (if rp_nodes p = [] then Some False else wildcard_matches pattern (last (rp_nodes p))) (any_path pattern ps)"

definition coordinate_matches :: "str \<Rightarrow> DependencyResolutionExplanation \<Rightarrow> bool option" where
  "coordinate_matches pattern e = or_else (wildcard_matches pattern (de_artifact e)) (any_path pattern (de_paths e))"

definition validate_coordinate_filter :: "str \<Rightarrow> str + unit" where
  "validate_coordinate_filter value =
     (if value = [] \<or> 512 < str_len value \<or>
        \<not> list_all (\<lambda>c. is_ascii_alphanumeric c \<or> c \<in> set (lit ''_.-:*'')) value
      then Inl (lit ''coordinate_filter contains unsupported characters'') else Inr ())"

datatype DependencyResolutionStatus = DR_Available | DR_Empty | DR_Incomplete | DR_ResolutionFailed | DR_Invalid

record DependencyResolutionResult =
  rr_status :: DependencyResolutionStatus
  rr_explanations :: "DependencyResolutionExplanation list"
  rr_incomplete :: bool
  rr_error :: "str option"
  rr_build :: MavenBuildResult

text \<open>The result for a finished run of Maven, from its redacted result and its raw output.\<close>

definition explain_dependency_resolution ::
  "(str \<Rightarrow> str) \<Rightarrow> MavenProject \<Rightarrow> nat \<Rightarrow> str option \<Rightarrow> MavenRunResult \<Rightarrow> str \<Rightarrow> DependencyResolutionResult" where
  "explain_dependency_resolution lower project max_results coordinate_filter run raw_stdout =
     (let build = from_run lower run; truncated = run_stdout_truncated run
      in if br_outcome build \<noteq> Outcome_Success
         then \<lparr> rr_status = DR_ResolutionFailed, rr_explanations = [], rr_incomplete = truncated, rr_error = None,
                rr_build = build \<rparr>
         else
           let (explanations, malformed) = parse_dependency_resolution raw_stdout project;
               explanations = (case coordinate_filter of None \<Rightarrow> explanations
                               | Some pattern \<Rightarrow> filter (\<lambda>e. coordinate_matches pattern e = Some True) explanations);
               incomplete = truncated \<or> max_results < length explanations;
               explanations = take max_results explanations
           in \<lparr> rr_status = (if malformed then DR_Invalid else if incomplete then DR_Incomplete
                             else if explanations = [] then DR_Empty else DR_Available),
                rr_explanations = explanations, rr_incomplete = incomplete \<or> malformed,
                rr_error = (if malformed then Some (lit ''Maven dependency tree contained malformed dependency entries'')
                            else None),
                rr_build = build \<rparr>)"


section \<open>Reading a verbose tree back\<close>

text \<open>A node of the verbose tree carries no note, a note with which it was omitted, or a note behind it.\<close>

datatype tree_note = Plain | Omitted str | Noted str

datatype verbose_tree = VNode TreeDependency tree_note "verbose_tree list"

fun verbose_text :: "TreeDependency \<Rightarrow> tree_note \<Rightarrow> str" where
  "verbose_text d Plain = dep_text d"
| "verbose_text d (Omitted note) = [40] @ dep_text d @ lit '' - '' @ note @ [41]"
| "verbose_text d (Noted note) = dep_text d @ lit '' ('' @ note @ [41]"

fun note_texts :: "tree_note \<Rightarrow> str list" where
  "note_texts Plain = []" | "note_texts (Omitted note) = [note]" | "note_texts (Noted note) = [note]"

definition note_ok :: "str \<Rightarrow> bool" where
  "note_ok note \<longleftrightarrow> note \<noteq> [] \<and> \<not> is_whitespace (hd note) \<and> \<not> is_whitespace (last note) \<and>
     (\<forall>c\<in>{10, 40, 41, 43, 64}. c \<notin> set note)"

text \<open>
  The fields of a dependency can be told apart: they contain no colon and no whitespace (\<open>dep_ok\<close>), the group
  does not begin with a parenthesis, and no field but the scope is spelled like a scope.
\<close>

definition dep_plain :: "TreeDependency \<Rightarrow> bool" where
  "dep_plain d \<longleftrightarrow> dep_ok d \<and> hd (td_group d) \<notin> {40, 41} \<and>
     (\<forall>f\<in>set (butlast (dep_fields d)). \<not> is_dependency_scope f)"

fun verbose_ok :: "verbose_tree \<Rightarrow> bool" where
  "verbose_ok (VNode d n below) \<longleftrightarrow> dep_plain d \<and> list_all note_ok (note_texts n) \<and> list_all verbose_ok below"

fun verbose_lines :: "bool list \<Rightarrow> verbose_tree list \<Rightarrow> str list" where
  "verbose_lines ancestors [] = []"
| "verbose_lines ancestors (VNode d n below # rest) =
     (lit ''[INFO] '' @ chunks ancestors @ (if rest = [] then LAST_BRANCH else BRANCH) @ verbose_text d n)
     # verbose_lines (ancestors @ [rest \<noteq> []]) below @ verbose_lines ancestors rest"

definition identity :: "TreeDependency \<Rightarrow> str" where
  "identity d = join [58] ([td_group d, td_artifact d, td_kind d] @ (case td_classifier d of None \<Rightarrow> [] | Some c \<Rightarrow> [c]))"

definition parsed_of :: "nat \<Rightarrow> TreeDependency \<Rightarrow> tree_note \<Rightarrow> ParsedDependencyLine" where
  "parsed_of depth d n =
     \<lparr> pl_depth = depth,
       pl_coordinate = \<lparr> pc_identity = identity d, pc_coordinate = normalized d, pc_version = td_version d \<rparr>,
       pl_status = path_status (note_texts n), pl_annotations = note_texts n,
       pl_requested_version = (case managed_from_version (note_texts n) of Some v \<Rightarrow> v | None \<Rightarrow> td_version d) \<rparr>"

lemma dep_plain_ok: "dep_plain d \<Longrightarrow> dep_ok d"
  by (simp add: dep_plain_def)

lemma dep_text_ends:
  assumes "dep_plain d"
  shows "hd (dep_text d) \<notin> {40, 41}" "last (dep_text d) \<notin> {40, 41}" "\<not> is_whitespace (hd (dep_text d))"
    "\<not> is_whitespace (last (dep_text d))" "32 \<notin> set (dep_text d)" "10 \<notin> set (dep_text d)"
    "last (dep_text d) \<notin> {32, 43, 45, 64}"
proof -
  note word = dep_text_word [OF dep_plain_ok [OF assms]]
  have scope: "is_dependency_scope (td_scope d)" and g: "td_group d \<noteq> []"
    using assms by (auto simp: dep_plain_def dep_ok_def dep_fields_def field_ok_def)
  have "last (dep_fields d) = td_scope d" "dep_fields d \<noteq> []" by (simp_all add: dep_fields_def)
  then have "last (dep_text d) = last (td_scope d)"
    using join_last [of "dep_fields d" "[58]"] scope by (auto simp: dep_text_def is_dependency_scope_def SCOPES_def)
  then show "last (dep_text d) \<notin> {40, 41}" "last (dep_text d) \<notin> {32, 43, 45, 64}"
    using scope by (auto simp: is_dependency_scope_def SCOPES_def)
  have "hd (dep_text d) = hd (td_group d)" using g by (simp add: dep_text_def dep_fields_def)
  then show "hd (dep_text d) \<notin> {40, 41}" using assms by (simp add: dep_plain_def)
  show "\<not> is_whitespace (hd (dep_text d))" "\<not> is_whitespace (last (dep_text d))" using word(1,2) by auto
  show "32 \<notin> set (dep_text d)" "10 \<notin> set (dep_text d)"
    using word(2) [of 32] word(2) [of 10] by (auto simp: is_whitespace_def)
qed

lemma trim_parens_id: "s \<noteq> [] \<Longrightarrow> hd s \<notin> {40, 41} \<Longrightarrow> last s \<notin> {40, 41} \<Longrightarrow> trim_parens s = s"
  by (simp add: trim_parens_def dropWhile_hd hd_rev)

lemma rsplit_once_at: "40 \<notin> set b \<Longrightarrow> rsplit_once (lit '' ('') (a @ lit '' ('' @ b) = Some (a, b)"
proof -
  assume "40 \<notin> set b"
  then have "find_str [40, 32] (rev b @ [40, 32] @ rev a) = Some (length (rev b))"
    using find_str_at [of 40 "rev b" "[32]" "rev a"] by simp
  then show ?thesis by (simp add: rsplit_once_def split_once_def)
qed

lemma split_once_at: "c \<notin> set a \<Longrightarrow> split_once (c # p) (a @ (c # p) @ b) = Some (a, b)"
  using find_str_at [of c a p b] by (simp add: split_once_def)

lemma split_annotations_rendered:
  assumes d: "dep_plain d" and n: "list_all note_ok (note_texts n)"
  shows "split_dependency_annotations (verbose_text d n) = (dep_text d, note_texts n)"
proof -
  note word = dep_text_word [OF dep_plain_ok [OF d]] and ends = dep_text_ends [OF d]
  have self: "trim (dep_text d) = dep_text d" using word(2) by (rule trim_word)
  have not_paren: "strip_prefix [40] (dep_text d @ s) = None" for s
    using word(1) ends(1) by (cases "dep_text d") auto
  show ?thesis
  proof (cases n)
    case Plain
    have "find_str [40, 32] (rev (dep_text d)) = None" using ends(5) by (intro find_str_missing [of 32]) auto
    then show ?thesis
      using Plain self not_paren [of "[]"] by (simp add: split_dependency_annotations_def Let_def rsplit_once_def split_once_def)
  next
    case (Omitted msg)
    then have msg: "note_ok msg" using n by simp
    let ?inner = "dep_text d @ lit '' - '' @ msg"
    have whole: "verbose_text d n = [40] @ ?inner @ [41]" using Omitted by simp
    have "trim (verbose_text d n) = verbose_text d n" unfolding whole by (rule trim_id) (simp_all add: is_whitespace_def)
    moreover have "strip_prefix [40] (verbose_text d n) = Some (?inner @ [41])" unfolding whole by (simp add: strip_prefix_Some)
    moreover have "strip_suffix [41] (?inner @ [41]) = Some ?inner" by (simp only: strip_suffix_Some)
    moreover have "split_once (lit '' - '') ?inner = Some (dep_text d, msg)"
      using split_once_at [OF ends(5), of "[45, 32]" msg] by simp
    moreover have "trim msg = msg" using msg by (auto simp: note_ok_def intro: trim_id)
    ultimately show ?thesis using self Omitted by (simp add: split_dependency_annotations_def Let_def del: lit.simps)
  next
    case (Noted msg)
    then have msg: "note_ok msg" using n by simp
    have whole: "verbose_text d n = dep_text d @ lit '' ('' @ (msg @ [41])" using Noted by simp
    have "trim (verbose_text d n) = verbose_text d n"
      unfolding whole using word(1) ends(3) by (intro trim_id) (auto simp: is_whitespace_def)
    moreover have "strip_prefix [40] (verbose_text d n) = None" unfolding whole by (rule not_paren)
    moreover have "rsplit_once (lit '' ('') (verbose_text d n) = Some (dep_text d, msg @ [41])"
      unfolding whole using msg by (intro rsplit_once_at) (auto simp: note_ok_def)
    moreover have "trim_end_matches_ch 41 (msg @ [41]) = msg"
    proof -
      have "msg \<noteq> []" "last msg \<noteq> 41" using msg unfolding note_ok_def by (metis insertCI last_in_set)+
      then show ?thesis by (simp add: trim_end_matches_ch_def dropWhile_hd hd_rev)
    qed
    moreover have "trim msg = msg" using msg by (auto simp: note_ok_def intro: trim_id)
    ultimately show ?thesis using self Noted by (simp add: split_dependency_annotations_def Let_def del: lit.simps)
  qed
qed

lemma parse_coordinate_fields:
  assumes "dep_plain d"
  shows "parse_dependency_coordinate (dep_fields d) =
    Some \<lparr> pc_identity = identity d, pc_coordinate = normalized d, pc_version = td_version d \<rparr>"
proof -
  have nonempty: "[] \<notin> set (dep_fields d)"
    using assms by (auto simp: dep_plain_def dep_ok_def list_all_iff field_ok_def)
  have scope: "is_dependency_scope (td_scope d)" using assms by (simp add: dep_plain_def dep_ok_def)
  have others: "\<not> is_dependency_scope f" if "f \<in> set (butlast (dep_fields d))" for f
    using assms that by (simp add: dep_plain_def)
  have "takeWhile (\<lambda>p. \<not> is_dependency_scope p) (butlast (dep_fields d) @ [td_scope d]) = butlast (dep_fields d)"
    using others scope by (simp add: takeWhile_append2)
  moreover have "dep_fields d = butlast (dep_fields d) @ [td_scope d]" by (cases "td_classifier d") (simp_all add: dep_fields_def)
  ultimately have index: "takeWhile (\<lambda>p. \<not> is_dependency_scope p) (dep_fields d) = butlast (dep_fields d)" by metis
  show ?thesis
  proof (cases "td_classifier d")
    case None
    then have "dep_fields d = [td_group d, td_artifact d, td_kind d, td_version d, td_scope d]" by (simp add: dep_fields_def)
    then show ?thesis using index nonempty None
      by (simp add: parse_dependency_coordinate_def Let_def identity_def normalized_def)
  next
    case (Some c)
    then have "dep_fields d = [td_group d, td_artifact d, td_kind d, c, td_version d, td_scope d]" by (simp add: dep_fields_def)
    then show ?thesis using index nonempty Some
      by (simp add: parse_dependency_coordinate_def Let_def identity_def normalized_def)
  qed
qed


text \<open>A pattern does not straddle two texts that each lack a character of it and meet at a foreign one.\<close>

lemma contains_straddle:
  assumes "c \<notin> set B" "e \<notin> set A" "e \<in> set (c # p)" "A \<noteq> []" "last A \<notin> set (c # p)"
  shows "find_str (c # p) (A @ B) = None"
proof -
  have False if occurs: "A @ B = a @ (c # p) @ b" for a b
  proof -
    from occurs consider us where "B = us @ (c # p) @ b" | us where "us @ B = (c # p) @ b" "A = a @ us"
      unfolding append_eq_append_conv2 by auto
    then show False
    proof cases
      case 1
      then show False using assms(1) by auto
    next
      case (2 us)
      then consider vs where "us = (c # p) @ vs" | vs where "us @ vs = c # p" "B = vs @ b"
        unfolding append_eq_append_conv2 by auto
      then show False
      proof cases
        case 1
        then show False using 2(2) assms(2,3) by auto
      next
        case (2 vs)
        have "us \<noteq> []" using 2 assms(1) by auto
        then have "last A \<in> set us" using \<open>A = a @ us\<close> by simp
        then show False using 2(1) assms(5) by (metis UnCI set_append)
      qed
    qed
  qed
  then have "\<not> contains (c # p) (A @ B)" unfolding contains_iff by blast
  then show ?thesis by (simp add: contains_def)
qed

lemma verbose_text_chars:
  assumes d: "dep_plain d" and n: "list_all note_ok (note_texts n)"
  shows "find_str BRANCH (verbose_text d n) = None" "find_str [64, 32] (verbose_text d n) = None" "10 \<notin> set (verbose_text d n)"
    "verbose_text d n \<noteq> []" "\<not> is_whitespace (hd (verbose_text d n))" "\<not> is_whitespace (last (verbose_text d n))"
proof -
  note word = dep_text_word [OF dep_plain_ok [OF d]] and ends = dep_text_ends [OF d]
  define pre where "pre = (case n of Omitted _ \<Rightarrow> [40 :: nat] | _ \<Rightarrow> [])"
  define behind where "behind = (case n of Plain \<Rightarrow> [] | Omitted msg \<Rightarrow> lit '' - '' @ msg @ [41] | Noted msg \<Rightarrow> lit '' ('' @ msg @ [41])"
  have whole: "verbose_text d n = pre @ dep_text d @ behind" by (cases n) (simp_all add: pre_def behind_def)
  have lacks: "43 \<notin> set behind" "64 \<notin> set behind" "43 \<notin> set pre" "64 \<notin> set pre"
    using n by (cases n; simp add: pre_def behind_def note_ok_def)+
  have "find_str BRANCH (dep_text d @ behind) = None" "find_str [64, 32] (dep_text d @ behind) = None"
    using contains_straddle [of 43 behind 32 "dep_text d" "[45, 32]"]
      contains_straddle [of 64 behind 32 "dep_text d" "[32]"] lacks(1,2) ends(5,7) word(1)
    by (simp_all add: BRANCH_def)
  then show "find_str BRANCH (verbose_text d n) = None" "find_str [64, 32] (verbose_text d n) = None"
    unfolding whole using find_str_skip [OF lacks(3), of "[45, 32]"] find_str_skip [OF lacks(4), of "[32]"]
    by (simp_all add: BRANCH_def)
  show "10 \<notin> set (verbose_text d n)" using ends(6) n by (cases n; simp add: note_ok_def)
  show "verbose_text d n \<noteq> []" using word(1) by (cases n) auto
  show "\<not> is_whitespace (hd (verbose_text d n))" using word(1) ends(3) by (cases n) (auto simp: is_whitespace_def)
  show "\<not> is_whitespace (last (verbose_text d n))" using word(1) ends(4) by (cases n) (auto simp: is_whitespace_def)
qed

lemma find_marker_rendered:
  assumes s: "find_str BRANCH s = None" and marker: "m = BRANCH \<or> m = LAST_BRANCH"
  shows "find_marker (chunks as @ m @ s) = Some (length (chunks as))"
proof -
  have free: "43 \<notin> set (chunks as)" "92 \<notin> set (chunks as)" using set_chunks [of as] by auto
  from marker show ?thesis
  proof
    assume "m = BRANCH"
    then show ?thesis using find_str_at [OF free(1), of "[45, 32]" s] by (simp add: find_marker_def BRANCH_def)
  next
    assume m: "m = LAST_BRANCH"
    then have "43 \<notin> set (chunks as @ m)" using free(1) by (simp add: LAST_BRANCH_def)
    then have "find_str BRANCH ((chunks as @ m) @ s) = None"
      using s find_str_skip [of 43 "chunks as @ m" "[45, 32]" s] by (simp add: BRANCH_def)
    then show ?thesis
      using m find_str_at [OF free(2), of "[45, 32]" s] by (simp add: find_marker_def LAST_BRANCH_def)
  qed
qed

lemma maven_log_message_info:
  assumes "s \<noteq> []" "\<not> is_whitespace (last s)"
  shows "maven_log_message (lit ''[INFO] '' @ s) = s"
proof -
  have whole: "lit ''[INFO] '' @ s = lit ''[INFO]'' @ 32 # s" by simp
  have "trim_end (trim_start (lit ''[INFO] '' @ s)) = lit ''[INFO]'' @ 32 # s"
    using assms trim_id [of "lit ''[INFO]'' @ 32 # s"] unfolding whole trim_def by (simp add: is_whitespace_def)
  moreover have "strip_prefix (lit ''[INFO]'') (lit ''[INFO]'' @ 32 # s) = Some (32 # s)" by (simp only: strip_prefix_Some)
  moreover have "trim_end s = s" using assms by (simp add: trim_end_def dropWhile_hd hd_rev)
  ultimately show ?thesis by (simp add: maven_log_message_def LEVELS_def del: lit.simps)
qed

lemma resolution_line_rendered:
  assumes d: "dep_plain d" and n: "list_all note_ok (note_texts n)" and marker: "m = BRANCH \<or> m = LAST_BRANCH"
  shows "resolution_line project (lit ''[INFO] '' @ chunks as @ m @ verbose_text d n) st =
    dependency_found (parsed_of (length as + 1) d n) st"
proof -
  let ?line = "chunks as @ m @ verbose_text d n"
  note v = verbose_text_chars [OF d n] and word = dep_text_word [OF dep_plain_ok [OF d]] and ends = dep_text_ends [OF d]
  have m: "64 \<notin> set m" "length m = 3" using marker by (auto simp: BRANCH_def LAST_BRANCH_def)
  have line: "maven_log_message (lit ''[INFO] '' @ ?line) = ?line" using v(4,6) by (intro maven_log_message_info) auto
  have "64 \<notin> set (chunks as @ m)" using m(1) set_chunks [of as] by auto
  then have "find_str [64, 32] ((chunks as @ m) @ verbose_text d n) = None"
    using v(2) find_str_skip [of 64 "chunks as @ m" "[32]" "verbose_text d n"] by simp
  then have "\<not> contains [64, 32] ?line" by (simp add: contains_def)
  moreover have "contains [64, 32] ?line" if "?line = a @ lit '' @ '' @ b" for a b
    using that unfolding contains_iff by (intro exI [of _ "a @ [32]"] exI [of _ b]) simp
  ultimately have "\<not> contains (lit '' @ '') ?line" unfolding contains_iff [of "lit '' @ ''"] by blast
  then have "plugin_module_artifact ?line = None"
    by (simp add: plugin_module_artifact_def split_once_def contains_def)
  moreover have "find_marker ?line = Some (length (chunks as))" by (rule find_marker_rendered [OF v(1) marker])
  moreover have "parse_dependency_line ?line (length (chunks as)) = Some (parsed_of (length as + 1) d n)"
  proof -
    have trim: "trim (verbose_text d n) = verbose_text d n" using v(4-6) by (rule trim_id)
    have drop: "drop (length (chunks as) + 3) ?line = verbose_text d n" using m(2) by simp
    have ascii: "str_len (chunks as) = 3 * length as"
      using str_len_ascii [of "chunks as"] set_chunks [of as] by fastforce
    have parens: "trim_parens (dep_text d) = dep_text d" using word(1) ends(1,2) by (rule trim_parens_id)
    show ?thesis
      unfolding parse_dependency_line_def drop trim split_annotations_rendered [OF d n]
      by (simp add: parens word(4) parse_coordinate_fields [OF d] parsed_of_def ascii split: option.split del: length_chunks)
  qed
  ultimately show ?thesis unfolding resolution_line_def line by simp
qed

text \<open>The dependencies of a forest below a path, each with the path that leads to it.\<close>

fun verbose_events :: "str list \<Rightarrow> verbose_tree list \<Rightarrow> (ParsedDependencyLine \<times> str list) list" where
  "verbose_events path [] = []"
| "verbose_events path (VNode d n below # rest) =
     (parsed_of (length path) d n, path @ [normalized d]) # verbose_events (path @ [normalized d]) below
       @ verbose_events path rest"

definition record_event :: "str \<Rightarrow> ParsedDependencyLine \<times> str list \<Rightarrow> (str \<times> DependencyExplanationBuilder) list \<Rightarrow>
    (str \<times> DependencyExplanationBuilder) list" where
  "record_event module = (\<lambda>(parsed, nodes) builders.
     bt_insert (pc_identity (pl_coordinate parsed))
       (record_path parsed module nodes (or_default (map_of builders (pc_identity (pl_coordinate parsed))))) builders)"

lemma forest_read:
  "list_all verbose_ok forest \<Longrightarrow> take (length path) (rs_path_stack st) = path \<Longrightarrow> length path = length as + 1 \<Longrightarrow>
    \<exists>stack. fold (resolution_line project) (verbose_lines as forest) st =
        st \<lparr> rs_path_stack := stack, rs_builders := fold (record_event (rs_module st)) (verbose_events path forest) (rs_builders st) \<rparr>
      \<and> take (length path) stack = path"
proof (induction as forest arbitrary: path st rule: verbose_lines.induct)
  case (1 as)
  then show ?case by (intro exI [of _ "rs_path_stack st"]) simp
next
  case (2 as d n below rest)
  let ?parsed = "parsed_of (length path) d n" and ?nodes = "path @ [normalized d]"
  have ok: "dep_plain d" "list_all note_ok (note_texts n)" "list_all verbose_ok below" "list_all verbose_ok rest"
    using 2(3) by auto
  have len: "length path \<le> length (rs_path_stack st)" using 2(4) by (metis length_take min.cobounded1)
  define st1 where "st1 = st \<lparr> rs_path_stack := ?nodes,
    rs_builders := record_event (rs_module st) (?parsed, ?nodes) (rs_builders st) \<rparr>"
  have line: "resolution_line project (lit ''[INFO] '' @ chunks as @ (if rest = [] then LAST_BRANCH else BRANCH) @ verbose_text d n) st = st1"
    using resolution_line_rendered [OF ok(1,2), of "if rest = [] then LAST_BRANCH else BRANCH" project as st] 2(4,5) len
    by (simp add: dependency_found_def record_event_def st1_def parsed_of_def Let_def)
  have "take (length ?nodes) (rs_path_stack st1) = ?nodes" by (simp add: st1_def)
  with 2(1) [OF ok(3), of ?nodes st1] 2(5) obtain stack2 where
    below: "fold (resolution_line project) (verbose_lines (as @ [rest \<noteq> []]) below) st1 =
      st1 \<lparr> rs_path_stack := stack2, rs_builders := fold (record_event (rs_module st1)) (verbose_events ?nodes below) (rs_builders st1) \<rparr>"
    and stack2: "take (length ?nodes) stack2 = ?nodes" by auto
  define st2 where "st2 = st1 \<lparr> rs_path_stack := stack2,
    rs_builders := fold (record_event (rs_module st1)) (verbose_events ?nodes below) (rs_builders st1) \<rparr>"
  have "take (length path) (rs_path_stack st2) = path"
    using arg_cong [OF stack2, of "take (length path)"] by (simp add: st2_def)
  with 2(2) [OF ok(4), of path st2] 2(5) obtain stack3 where
    rest: "fold (resolution_line project) (verbose_lines as rest) st2 =
      st2 \<lparr> rs_path_stack := stack3, rs_builders := fold (record_event (rs_module st2)) (verbose_events path rest) (rs_builders st2) \<rparr>"
    and stack3: "take (length path) stack3 = path" by auto
  have "fold (resolution_line project) (verbose_lines as (VNode d n below # rest)) st =
      st2 \<lparr> rs_path_stack := stack3, rs_builders := fold (record_event (rs_module st2)) (verbose_events path rest) (rs_builders st2) \<rparr>"
    by (simp only: verbose_lines.simps fold_simps fold_append o_apply line below rest st2_def [symmetric])
  also have "\<dots> = st \<lparr> rs_path_stack := stack3,
      rs_builders := fold (record_event (rs_module st)) (verbose_events path (VNode d n below # rest)) (rs_builders st) \<rparr>"
    by (simp add: st1_def st2_def)
  finally show ?case using stack3 by blast
qed


subsection \<open>The output of a reactor\<close>

text \<open>Per module: log lines that are no dependencies, the line of its own coordinate, and its tree.\<close>

record module_tree =
  mt_noise :: "str list"
  mt_root :: TreeDependency
  mt_forest :: "verbose_tree list"

definition noise_ok :: "str \<Rightarrow> bool" where
  "noise_ok line \<longleftrightarrow> is_line line \<and>
     (plugin_module_artifact (maven_log_message line) \<noteq> None \<or> find_marker (maven_log_message line) = None)"

definition root_fields :: "TreeDependency \<Rightarrow> str list" where
  "root_fields d = butlast (dep_fields d)"

definition root_ok :: "TreeDependency \<Rightarrow> bool" where
  "root_ok d \<longleftrightarrow> list_all field_ok (root_fields d) \<and> hd (td_group d) \<noteq> 40"

definition module_ok :: "module_tree \<Rightarrow> bool" where
  "module_ok m \<longleftrightarrow> list_all noise_ok (mt_noise m) \<and> root_ok (mt_root m) \<and> list_all verbose_ok (mt_forest m)"

definition module_lines :: "module_tree \<Rightarrow> str list" where
  "module_lines m = mt_noise m @ [lit ''[INFO] '' @ join [58] (root_fields (mt_root m))] @ verbose_lines [] (mt_forest m)"

definition resolution_output :: "module_tree list \<Rightarrow> str list \<Rightarrow> str" where
  "resolution_output modules trailing = unlines (concat (map module_lines modules) @ trailing)"

text \<open>What is found in it: the module, the dependency and the path to it.\<close>

type_synonym found_dependency = "str \<times> ParsedDependencyLine \<times> str list"

definition module_events :: "MavenProject \<Rightarrow> module_tree \<Rightarrow> found_dependency list" where
  "module_events project m =
     map (Pair (module_selector project (td_artifact (mt_root m)))) (verbose_events [normalized (mt_root m)] (mt_forest m))"

definition found_identity :: "found_dependency \<Rightarrow> str" where
  "found_identity = (\<lambda>(module, parsed, nodes). pc_identity (pl_coordinate parsed))"

definition found_path :: "found_dependency \<Rightarrow> DependencyResolutionPath" where
  "found_path = (\<lambda>(module, parsed, nodes).
     \<lparr> rp_module = module, rp_nodes = nodes, rp_requested_version = pl_requested_version parsed,
       rp_status = pl_status parsed, rp_annotations = pl_annotations parsed \<rparr>)"

definition last_selected :: "found_dependency list \<Rightarrow> str option" where
  "last_selected found =
     (let selected = filter (\<lambda>(module, parsed, nodes). pl_status parsed = Selected) found
      in if selected = [] then None else Some (pc_version (pl_coordinate (fst (snd (last selected))))))"

definition record_found :: "found_dependency \<Rightarrow> (str \<times> DependencyExplanationBuilder) list \<Rightarrow>
    (str \<times> DependencyExplanationBuilder) list" where
  "record_found = (\<lambda>(module, event). record_event module event)"

lemma fold_record_Pair: "fold record_found (map (Pair module) events) = fold (record_event module) events"
  by (induction events) (auto simp: record_found_def fun_eq_iff)

lemma noise_read:
  "list_all noise_ok lines \<Longrightarrow> \<exists>module stack. fold (resolution_line project) lines st =
     st \<lparr> rs_module := module, rs_path_stack := stack \<rparr>"
proof (induction lines arbitrary: st)
  case Nil
  then show ?case by (intro exI [of _ "rs_module st"] exI [of _ "rs_path_stack st"]) simp
next
  case (Cons line lines)
  have "\<exists>module stack. resolution_line project line st = st \<lparr> rs_module := module, rs_path_stack := stack \<rparr>"
  proof (cases "plugin_module_artifact (maven_log_message line)")
    case None
    then have "find_marker (maven_log_message line) = None" using Cons.prems by (simp add: noise_ok_def)
    then have line: "resolution_line project line st =
        (case parse_root_coordinate (maven_log_message line) of None \<Rightarrow> st
         | Some (artifact_id, coordinate) \<Rightarrow> st \<lparr> rs_module := module_selector project artifact_id, rs_path_stack := [coordinate] \<rparr>)"
      using None by (simp add: resolution_line_def Let_def)
    show ?thesis
    proof (cases "parse_root_coordinate (maven_log_message line)")
      case None
      then show ?thesis unfolding line by (intro exI [of _ "rs_module st"] exI [of _ "rs_path_stack st"]) simp
    qed (auto simp: line)
  qed (auto simp: resolution_line_def Let_def)
  then obtain module stack where "resolution_line project line st = st \<lparr> rs_module := module, rs_path_stack := stack \<rparr>" by blast
  moreover from Cons obtain module' stack' where
    "fold (resolution_line project) lines (st \<lparr> rs_module := module, rs_path_stack := stack \<rparr>) =
      (st \<lparr> rs_module := module, rs_path_stack := stack \<rparr>) \<lparr> rs_module := module', rs_path_stack := stack' \<rparr>" by fastforce
  ultimately show ?case by (intro exI [of _ module'] exI [of _ stack']) simp
qed

lemma root_line_read:
  assumes "root_ok d"
  shows "resolution_line project (lit ''[INFO] '' @ join [58] (root_fields d)) st =
      st \<lparr> rs_module := module_selector project (td_artifact d), rs_path_stack := [normalized d] \<rparr>"
    and "is_line (lit ''[INFO] '' @ join [58] (root_fields d))"
proof -
  let ?text = "join [58] (root_fields d)"
  have fields: "root_fields d = [td_group d, td_artifact d, td_kind d] @ (case td_classifier d of None \<Rightarrow> [] | Some c \<Rightarrow> [c]) @ [td_version d]"
    by (cases "td_classifier d") (simp_all add: root_fields_def dep_fields_def)
  have each: "field_ok f" if "f \<in> set (root_fields d)" for f
    using assms that by (auto simp: root_ok_def list_all_iff)
  have chars: "\<not> is_whitespace c" if c: "c \<in> set ?text" for c
  proof -
    from c have "c = 58 \<or> (\<exists>f\<in>set (root_fields d). c \<in> set f)" using set_join [of "[58]" "root_fields d"] by auto
    then show ?thesis using each by (auto simp: field_ok_def) (simp add: is_whitespace_def)
  qed
  have nonempty: "?text \<noteq> []"
  proof -
    have "root_fields d \<noteq> []" "last (root_fields d) \<noteq> []"
      using each [of "td_version d"] by (simp_all add: fields field_ok_def)
    then show ?thesis using join_last by blast
  qed
  have split: "split_on 58 ?text = root_fields d"
    using each by (intro split_on_join) (auto simp: field_ok_def fields)
  have lacks: "32 \<notin> set ?text" "10 \<notin> set ?text"
    using chars [of 32] chars [of 10] by (auto simp: is_whitespace_def)
  have "td_group d \<noteq> []" using each [of "td_group d"] by (simp add: fields field_ok_def)
  then have first: "hd ?text \<noteq> 40" using assms by (simp add: root_ok_def fields)
  have message: "maven_log_message (lit ''[INFO] '' @ ?text) = ?text"
    using nonempty chars [of "last ?text"] by (intro maven_log_message_info) auto
  have "plugin_module_artifact ?text = None"
    using lacks(1) by (simp add: plugin_module_artifact_def split_once_def find_str_missing [of 32])
  moreover have "find_marker ?text = None"
    using lacks(1) by (simp add: find_marker_def BRANCH_def LAST_BRANCH_def find_str_missing [of 32])
  moreover have "parse_root_coordinate ?text = Some (td_artifact d, normalized d)"
  proof -
    have "\<not> starts_with [40] ?text" using first by (auto simp: starts_with_iff)
    moreover have "\<not> (\<exists>c\<in>set ?text. is_whitespace c)" using chars by auto
    moreover have "[] \<notin> set (root_fields d)" using each [of "[]"] by (auto simp: field_ok_def)
    moreover have "length (root_fields d) \<in> {4, 5}" by (cases "td_classifier d") (simp_all add: fields)
    moreover have "normalize_coordinate (root_fields d) = Some (normalized d)" "root_fields d ! 1 = td_artifact d"
      by (cases "td_classifier d"; simp add: fields normalize_coordinate_def normalized_def)+
    ultimately show ?thesis unfolding parse_root_coordinate_def split Let_def by simp
  qed
  ultimately show "resolution_line project (lit ''[INFO] '' @ ?text) st =
      st \<lparr> rs_module := module_selector project (td_artifact d), rs_path_stack := [normalized d] \<rparr>"
    unfolding resolution_line_def message by simp
  show "is_line (lit ''[INFO] '' @ ?text)"
    using lacks(2) nonempty chars [of "last ?text"] by (intro is_line_last) auto
qed

lemma module_read:
  assumes "module_ok m"
  shows "\<exists>module stack. fold (resolution_line project) (module_lines m) st =
    st \<lparr> rs_module := module, rs_path_stack := stack,
         rs_builders := fold record_found (module_events project m) (rs_builders st) \<rparr>"
proof -
  have ok: "list_all noise_ok (mt_noise m)" "root_ok (mt_root m)" "list_all verbose_ok (mt_forest m)"
    using assms by (simp_all add: module_ok_def)
  let ?module = "module_selector project (td_artifact (mt_root m))" and ?path = "[normalized (mt_root m)]"
  from noise_read [OF ok(1)] obtain module stack where
    noise: "fold (resolution_line project) (mt_noise m) st = st \<lparr> rs_module := module, rs_path_stack := stack \<rparr>" by blast
  define st1 where "st1 = st \<lparr> rs_module := ?module, rs_path_stack := ?path \<rparr>"
  have root: "resolution_line project (lit ''[INFO] '' @ join [58] (root_fields (mt_root m)))
      (st \<lparr> rs_module := module, rs_path_stack := stack \<rparr>) = st1"
    unfolding root_line_read(1) [OF ok(2)] st1_def by simp
  have "take (length ?path) (rs_path_stack st1) = ?path" by (simp add: st1_def)
  from forest_read [OF ok(3) this, of "[]"] obtain stack2 where
    "fold (resolution_line project) (verbose_lines [] (mt_forest m)) st1 =
      st1 \<lparr> rs_path_stack := stack2, rs_builders := fold (record_event ?module) (verbose_events ?path (mt_forest m)) (rs_builders st1) \<rparr>"
    by (auto simp: st1_def)
  then have "fold (resolution_line project) (module_lines m) st =
      st1 \<lparr> rs_path_stack := stack2, rs_builders := fold (record_event ?module) (verbose_events ?path (mt_forest m)) (rs_builders st1) \<rparr>"
    by (simp only: module_lines_def fold_append fold_simps o_apply noise root)
  then show ?thesis
    by (intro exI [of _ ?module] exI [of _ stack2]) (simp add: st1_def module_events_def fold_record_Pair)
qed

lemma modules_read:
  "list_all module_ok modules \<Longrightarrow> \<exists>module stack. fold (resolution_line project) (concat (map module_lines modules)) st =
    st \<lparr> rs_module := module, rs_path_stack := stack,
         rs_builders := fold record_found (concat (map (module_events project) modules)) (rs_builders st) \<rparr>"
proof (induction modules arbitrary: st)
  case Nil
  then show ?case by (intro exI [of _ "rs_module st"] exI [of _ "rs_path_stack st"]) simp
next
  case (Cons m modules)
  then have "module_ok m" by simp
  from module_read [OF this] obtain module stack where
    m: "fold (resolution_line project) (module_lines m) st = st \<lparr> rs_module := module, rs_path_stack := stack,
      rs_builders := fold record_found (module_events project m) (rs_builders st) \<rparr>" by blast
  define st1 where "st1 = st \<lparr> rs_module := module, rs_path_stack := stack,
    rs_builders := fold record_found (module_events project m) (rs_builders st) \<rparr>"
  from Cons.IH [of st1] Cons.prems obtain module' stack' where
    "fold (resolution_line project) (concat (map module_lines modules)) st1 =
     st1 \<lparr> rs_module := module', rs_path_stack := stack',
       rs_builders := fold record_found (concat (map (module_events project) modules)) (rs_builders st1) \<rparr>" by auto
  then show ?case by (intro exI [of _ module'] exI [of _ stack']) (simp add: m st1_def)
qed

subsection \<open>The explanations of what was found\<close>

definition builder_of :: "found_dependency list \<Rightarrow> DependencyExplanationBuilder \<Rightarrow> bool" where
  "builder_of found b \<longleftrightarrow> eb_paths b = map found_path found \<and>
     eb_requested_versions b = rp_requested_version ` set (map found_path found) \<and> eb_selected_version b = last_selected found"

lemma builder_of_record:
  assumes "builder_of found b"
  shows "builder_of (found @ [(module, parsed, nodes)]) (record_path parsed module nodes b)"
  using assms by (auto simp: builder_of_def record_path_def found_path_def last_selected_def Let_def)

lemma record_found_spec:
  "sorted_wrt (<) (map fst (fold record_found found [])) \<and>
   fst ` set (fold record_found found []) = set (map found_identity found) \<and>
   (\<forall>k b. map_of (fold record_found found []) k = Some b \<longrightarrow> builder_of (filter (\<lambda>f. found_identity f = k) found) b)"
proof (induction found rule: rev_induct)
  case (snoc f found)
  obtain module parsed nodes where f: "f = (module, parsed, nodes)" by (cases f)
  let ?m = "fold record_found found []" and ?key = "pc_identity (pl_coordinate parsed)"
  let ?new = "record_path parsed module nodes (or_default (map_of ?m ?key))"
  have m: "fold record_found (found @ [f]) [] = bt_insert ?key ?new ?m"
    by (simp add: f record_found_def record_event_def)
  have key: "found_identity f = ?key" by (simp add: f found_identity_def)
  have "builder_of (filter (\<lambda>f. found_identity f = ?key) found) (or_default (map_of ?m ?key))"
  proof (cases "map_of ?m ?key")
    case None
    then have "?key \<notin> set (map found_identity found)" using snoc by (simp add: map_of_eq_None_iff)
    then have "filter (\<lambda>f. found_identity f = ?key) found = []" by (force simp: filter_empty_conv)
    then show ?thesis using None by (simp add: or_default_def new_builder_def builder_of_def last_selected_def)
  qed (use snoc in \<open>simp add: or_default_def\<close>)
  then have "builder_of (filter (\<lambda>f. found_identity f = ?key) (found @ [f])) ?new"
    using builder_of_record key by (simp add: f)
  then have "builder_of (filter (\<lambda>f. found_identity f = k) (found @ [f])) b" if "map_of (bt_insert ?key ?new ?m) k = Some b" for k b
    using that snoc key by (cases "k = ?key") auto
  then show ?case unfolding m using snoc key by (auto intro: sorted_bt_insert)
qed simp

lemma explanation_fields:
  "de_artifact (explanation a b) = a" "de_paths (explanation a b) = eb_paths b"
  "de_requested_versions (explanation a b) = sorted_list_of_set (eb_requested_versions b)"
  "de_selected_version (explanation a b) = eb_selected_version b"
  by (simp_all add: explanation_def add_mediation_reason_def Let_def)

lemma verbose_lines_are_lines:
  "list_all verbose_ok forest \<Longrightarrow> line \<in> set (verbose_lines as forest) \<Longrightarrow> is_line line"
proof (induction as forest rule: verbose_lines.induct)
  case (2 as d n below rest)
  show ?case
  proof (cases "line = lit ''[INFO] '' @ chunks as @ (if rest = [] then LAST_BRANCH else BRANCH) @ verbose_text d n")
    case True
    have ok: "dep_plain d" "list_all note_ok (note_texts n)" using 2(3) by auto
    note v = verbose_text_chars [OF ok]
    have "10 \<notin> set line" unfolding True using v(3) set_chunks [of as] by (auto simp: BRANCH_def LAST_BRANCH_def)
    then show ?thesis unfolding True using v(4,6) by (intro is_line_last) auto
  next
    case False
    then have "line \<in> set (verbose_lines (as @ [rest \<noteq> []]) below) \<or> line \<in> set (verbose_lines as rest)"
      using 2(4) by (simp del: lit.simps)
    then show ?thesis using 2 by auto
  qed
qed simp

lemma module_lines_are_lines: "module_ok m \<Longrightarrow> line \<in> set (module_lines m) \<Longrightarrow> is_line line"
  unfolding module_lines_def module_ok_def
  using root_line_read(2) [of "mt_root m"] verbose_lines_are_lines [of "mt_forest m" line "[]"]
  by (auto simp: list_all_iff noise_ok_def simp del: lit.simps)

text \<open>
  Claim C31: resolution_read_back.  From the verbose dependency trees of a reactor the reader reports no
  malformed line and explains every artifact once, in order: its paths are exactly the places where it
  stands in a tree, in order, each with the module of the tree and the chain of coordinates from the
  module down to it; its requested versions are those of its paths, and its selected version is the one
  of the last place where it was not omitted.  This is for trees whose lines can be told apart
  (\<open>module_ok\<close>): the fields of a coordinate are not empty and contain no colon and no whitespace, a group
  begins with no parenthesis, a note contains no line end, parenthesis, \<open>+\<close> or \<open>@\<close>, the other log lines
  name a module or have no branch, and no field other than the scope is spelled like a scope (an artifact
  called \<open>test\<close> makes its line malformed: \<open>scope_like_name_malformed\<close>).
\<close>

theorem resolution_read_back:
  assumes "list_all module_ok modules" "list_all noise_ok trailing"
    and found: "found = concat (map (module_events project) modules)"
  shows "\<exists>explanations. parse_dependency_resolution (resolution_output modules trailing) project = (explanations, False) \<and>
    map de_artifact explanations = sorted_list_of_set (set (map found_identity found)) \<and>
    (\<forall>e\<in>set explanations.
       de_paths e = map found_path (filter (\<lambda>f. found_identity f = de_artifact e) found) \<and>
       de_requested_versions e = sorted_list_of_set (rp_requested_version ` set (de_paths e)) \<and>
       de_selected_version e = last_selected (filter (\<lambda>f. found_identity f = de_artifact e) found))"
proof -
  let ?builders = "fold record_found found []"
  have lines: "str_lines (resolution_output modules trailing) = concat (map module_lines modules) @ trailing"
    unfolding resolution_output_def using assms module_lines_are_lines
    by (intro str_lines_unlines) (auto simp: list_all_iff noise_ok_def)
  from modules_read [OF assms(1), of project start_resolution] obtain module stack where
    modules: "fold (resolution_line project) (concat (map module_lines modules)) start_resolution =
      start_resolution \<lparr> rs_module := module, rs_path_stack := stack, rs_builders := ?builders \<rparr>"
    by (auto simp: found start_resolution_def)
  from noise_read [OF assms(2), of project "start_resolution \<lparr> rs_module := module, rs_path_stack := stack, rs_builders := ?builders \<rparr>"]
  obtain module' stack' where
    trailing: "fold (resolution_line project) trailing (start_resolution \<lparr> rs_module := module, rs_path_stack := stack, rs_builders := ?builders \<rparr>) =
      start_resolution \<lparr> rs_module := module, rs_path_stack := stack, rs_builders := ?builders \<rparr> \<lparr> rs_module := module', rs_path_stack := stack' \<rparr>"
    by blast
  define final where "final = fold (resolution_line project) (concat (map module_lines modules) @ trailing) start_resolution"
  have final: "rs_builders final = ?builders" "\<not> rs_malformed final"
    by (simp_all add: final_def modules trailing) (simp add: start_resolution_def)
  let ?es = "map (\<lambda>(artifact, b). explanation artifact b) ?builders"
  have parse: "parse_dependency_resolution (resolution_output modules trailing) project = (?es, False)"
    unfolding parse_dependency_resolution_def lines final_def [symmetric] Let_def using final by simp
  have keys: "map de_artifact ?es = map fst ?builders" by (auto simp: explanation_fields)
  have sorted: "sorted_wrt (<) (map fst ?builders)" "fst ` set ?builders = set (map found_identity found)"
    using record_found_spec [of found] by auto
  then have "map fst ?builders = sorted_list_of_set (set (map found_identity found))"
    by (metis set_map sorted_list_of_set.idem_if_sorted_distinct strict_sorted_iff)
  moreover have "de_paths e = map found_path (filter (\<lambda>f. found_identity f = de_artifact e) found) \<and>
       de_requested_versions e = sorted_list_of_set (rp_requested_version ` set (de_paths e)) \<and>
       de_selected_version e = last_selected (filter (\<lambda>f. found_identity f = de_artifact e) found)" if "e \<in> set ?es" for e
  proof -
    from that obtain a b where ab: "(a, b) \<in> set ?builders" "e = explanation a b" by auto
    have "distinct (map fst ?builders)" using sorted(1) by (simp add: strict_sorted_iff)
    then have "map_of ?builders a = Some b" using ab(1) by simp
    then have "builder_of (filter (\<lambda>f. found_identity f = a) found) b" using record_found_spec [of found] by blast
    then show ?thesis by (simp add: ab(2) explanation_fields builder_of_def)
  qed
  ultimately show ?thesis using parse keys by (intro exI [of _ ?es]) simp
qed


definition demo_project :: MavenProject where
  "demo_project = \<lparr> mp_artifact_id = lit ''app'', mp_packaging = lit ''jar'', mp_wrapper = False, mp_modules = [] \<rparr>"

definition demo_module :: module_tree where
  "demo_module = \<lparr> mt_noise = [lit ''[INFO] --- dependency:3.8.1:tree (default-cli) @ app ---''],
     mt_root = demo_dependency ''app'',
     mt_forest = [VNode (demo_dependency ''a'') Plain [VNode (demo_dependency ''b'') (Omitted (lit ''omitted for duplicate'')) []]] \<rparr>"

lemma demo_dependency_plain: "dep_plain (demo_dependency ''a'')" "dep_plain (demo_dependency ''b'')"
  by (simp_all add: demo_dependency_def dep_plain_def dep_ok_def dep_fields_def field_ok_def is_whitespace_def
    is_dependency_scope_def SCOPES_def)

lemma demo_module_ok: "module_ok demo_module"
proof -
  have "noise_ok (lit ''[INFO] --- dependency:3.8.1:tree (default-cli) @ app ---'')"
  proof -
    have line: "lit ''[INFO] --- dependency:3.8.1:tree (default-cli) @ app ---'' =
        lit ''[INFO] '' @ lit ''--- dependency:3.8.1:tree (default-cli) @ app ---''" by simp
    have "maven_log_message (lit ''[INFO] --- dependency:3.8.1:tree (default-cli) @ app ---'') =
        lit ''--- dependency:3.8.1:tree (default-cli) @ app ---''"
      unfolding line by (rule maven_log_message_info) (simp_all add: is_whitespace_def)
    moreover have "plugin_module_artifact (lit ''--- dependency:3.8.1:tree (default-cli) @ app ---'') = Some (lit ''app'')"
      by (simp add: plugin_module_artifact_def split_once_def starts_with_def trim_end_matches_ch_def trim_def
        trim_start_def trim_end_def is_whitespace_def)
    moreover have "is_line (lit ''[INFO] --- dependency:3.8.1:tree (default-cli) @ app ---'')" by (simp add: is_line_def)
    ultimately show ?thesis by (simp add: noise_ok_def del: lit.simps)
  qed
  moreover have "root_ok (demo_dependency ''app'')"
    by (simp add: root_ok_def root_fields_def demo_dependency_def dep_fields_def field_ok_def is_whitespace_def)
  moreover have "note_ok (lit ''omitted for duplicate'')" by (simp add: note_ok_def is_whitespace_def)
  ultimately show ?thesis using demo_dependency_plain by (simp add: module_ok_def demo_module_def del: lit.simps)
qed

theorem resolution_read_back_witness:
  "\<exists>explanations. parse_dependency_resolution (resolution_output [demo_module] []) demo_project = (explanations, False) \<and>
    map de_artifact explanations = [lit ''g:a:jar'', lit ''g:b:jar''] \<and>
    map de_selected_version explanations = [Some (lit ''1''), None]"
proof -
  let ?found = "module_events demo_project demo_module"
  have ok: "list_all module_ok [demo_module]" "list_all noise_ok []" using demo_module_ok by simp_all
  have found: "?found = concat (map (module_events demo_project) [demo_module])" by simp
  have status: "path_status [lit ''omitted for duplicate''] = DuplicateOmitted" "path_status [] = Selected"
    by (simp_all add: path_status_def contains_def starts_with_def to_ascii_lowercase_def to_ascii_lower_def)
  have events: "map found_identity ?found = [lit ''g:a:jar'', lit ''g:b:jar'']"
    by (simp add: module_events_def demo_module_def found_identity_def parsed_of_def identity_def demo_dependency_def)
  have selected: "last_selected (filter (\<lambda>f. found_identity f = lit ''g:a:jar'') ?found) = Some (lit ''1'')"
    "last_selected (filter (\<lambda>f. found_identity f = lit ''g:b:jar'') ?found) = None"
    by (simp_all add: module_events_def demo_module_def found_identity_def parsed_of_def identity_def demo_dependency_def
      last_selected_def status [simplified])
  have keys: "sorted_list_of_set (set [lit ''g:a:jar'', lit ''g:b:jar'']) = [lit ''g:a:jar'', lit ''g:b:jar'']" by simp
  from resolution_read_back [OF ok found] obtain es where
    es: "parse_dependency_resolution (resolution_output [demo_module] []) demo_project = (es, False)"
      "map de_artifact es = [lit ''g:a:jar'', lit ''g:b:jar'']"
      and all: "\<forall>e\<in>set es. de_paths e = map found_path (filter (\<lambda>f. found_identity f = de_artifact e) ?found) \<and>
        de_requested_versions e = sorted_list_of_set (rp_requested_version ` set (de_paths e)) \<and>
        de_selected_version e = last_selected (filter (\<lambda>f. found_identity f = de_artifact e) ?found)"
    unfolding events keys by (elim exE conjE)
  have "map de_selected_version es =
      map (\<lambda>artifact. last_selected (filter (\<lambda>f. found_identity f = artifact) ?found)) (map de_artifact es)"
    unfolding map_map using all by (intro map_cong) (simp_all add: o_def)
  also have "\<dots> = [Some (lit ''1''), None]" unfolding es(2) list.map selected ..
  finally have "map de_selected_version es = [Some (lit ''1''), None]" .
  with es show ?thesis by (intro exI [of _ es] conjI)
qed

text \<open>An artifact, kind or classifier that is spelled like a scope makes its line malformed.\<close>

lemma scope_like_name_malformed:
  "parse_dependency_coordinate [lit ''g'', lit ''a'', lit ''jar'', lit ''test'', lit ''1'', lit ''compile''] = None"
  by (simp add: parse_dependency_coordinate_def is_dependency_scope_def SCOPES_def)

end
