(* ===== verification/Maven_Runner.thy ===== *)
theory Maven_Runner
  imports Dependency_Resolution
begin

text \<open>
  Running Maven (\<open>src/src/project.rs\<close>, \<open>src/src/project/run_trace.rs\<close>): the argument vectors, the bounded
  capture of the output of the child process, the classification of its end, and the log events of a
  run.  The child process itself, its pipes and the clock are parameters.
\<close>

section \<open>Argument vectors\<close>

datatype LifecyclePhase = Compile | TestCompile | Verify

fun phase_argument :: "LifecyclePhase \<Rightarrow> str" where
  "phase_argument Compile = lit ''compile''"
| "phase_argument TestCompile = lit ''test-compile''"
| "phase_argument Verify = lit ''verify''"

record MavenInvocation =
  inv_phase :: LifecyclePhase
  inv_module :: "str option"
  inv_also_make :: bool

record FocusedTestInvocation =
  ft_test_class :: str
  ft_test_method :: "str option"
  ft_module :: "str option"
  ft_also_make :: bool

datatype DependencyScope = Scope_Compile | Scope_Provided | Scope_Runtime | Scope_Test | Scope_System

fun scope_argument :: "DependencyScope \<Rightarrow> str" where
  "scope_argument Scope_Compile = lit ''compile''"
| "scope_argument Scope_Provided = lit ''provided''"
| "scope_argument Scope_Runtime = lit ''runtime''"
| "scope_argument Scope_Test = lit ''test''"
| "scope_argument Scope_System = lit ''system''"

text \<open>The parts of a runner its arguments depend on.\<close>

record MavenRunner =
  mr_project :: MavenProject
  mr_network_enabled :: bool
  mr_execution_repository :: "str option"

definition base_arguments :: "MavenRunner \<Rightarrow> str option \<Rightarrow> bool \<Rightarrow> str + str list" where
  "base_arguments r module also_make =
     (let arguments = [lit ''--batch-mode'', lit ''--no-transfer-progress''] @
            (if mr_network_enabled r then [] else [lit ''--offline'']) @
            (case mr_execution_repository r of None \<Rightarrow> [] | Some repository \<Rightarrow> [lit ''-Dmaven.repo.local='' @ repository])
      in case module of
           Some m \<Rightarrow>
             if \<not> list_ex (\<lambda>candidate. mm_selector candidate = m) (mp_modules (mr_project r))
             then Inl (lit ''unknown reactor module: '' @ m)
             else Inr (arguments @ [lit ''--projects'', m] @ (if also_make then [lit ''--also-make''] else []))
         | None \<Rightarrow>
             if also_make then Inl (lit ''also_make requires a selected module'') else Inr arguments)"

definition lifecycle_arguments :: "MavenRunner \<Rightarrow> MavenInvocation \<Rightarrow> str + str list" where
  "lifecycle_arguments r invocation =
     and_then (base_arguments r (inv_module invocation) (inv_also_make invocation))
       (\<lambda>arguments. Inr (arguments @ [phase_argument (inv_phase invocation)]))"

definition validate_java_selector :: "str \<Rightarrow> str \<Rightarrow> str + unit" where
  "validate_java_selector value name =
     (if value = [] \<or> 512 < str_len value \<or>
        \<not> list_all (\<lambda>c. is_ascii_alphanumeric c \<or> c = 95 \<or> c = 36 \<or> c = 46) value
      then Inl (name @ lit '' must be a Java class or method name without shell syntax'') else Inr ())"

definition focused_test_arguments :: "MavenRunner \<Rightarrow> FocusedTestInvocation \<Rightarrow> str + str list" where
  "focused_test_arguments r invocation =
     and_then (validate_java_selector (ft_test_class invocation) (lit ''test_class'')) (\<lambda>_.
     and_then (case ft_test_method invocation of
                 None \<Rightarrow> Inr () | Some m \<Rightarrow> validate_java_selector m (lit ''test_method'')) (\<lambda>_.
     and_then (base_arguments r (ft_module invocation) (ft_also_make invocation)) (\<lambda>arguments.
       let selector = (case ft_test_method invocation of
                         None \<Rightarrow> ft_test_class invocation
                       | Some m \<Rightarrow> ft_test_class invocation @ [35] @ m)
       in Inr (arguments @ [lit ''test'', lit ''-Dtest='' @ selector, lit ''-Dsurefire.failIfNoSpecifiedTests=false'']))))"

definition dependency_tree_arguments ::
  "MavenRunner \<Rightarrow> str option \<Rightarrow> DependencyScope option \<Rightarrow> str option \<Rightarrow> str + str list" where
  "dependency_tree_arguments r module scope coordinate_filter =
     and_then (case coordinate_filter of None \<Rightarrow> Inr () | Some f \<Rightarrow> validate_coordinate_filter f) (\<lambda>_.
     and_then (base_arguments r module False) (\<lambda>arguments.
       Inr (arguments @ [lit ''dependency:tree'', lit ''-DoutputType=text''] @
         (case scope of None \<Rightarrow> [] | Some s \<Rightarrow> [lit ''-Dscope='' @ scope_argument s]) @
         (case coordinate_filter of None \<Rightarrow> [] | Some f \<Rightarrow> [lit ''-Dincludes='' @ f]))))"

definition dependency_resolution_arguments ::
  "MavenRunner \<Rightarrow> str option \<Rightarrow> DependencyScope option \<Rightarrow> str option \<Rightarrow> str + str list" where
  "dependency_resolution_arguments r module scope coordinate_filter =
     and_then (case coordinate_filter of None \<Rightarrow> Inr () | Some f \<Rightarrow> validate_coordinate_filter f) (\<lambda>_.
     and_then (base_arguments r module False) (\<lambda>arguments.
       Inr (arguments @ [lit ''dependency:tree'', lit ''-DoutputType=text'', lit ''-Dverbose''] @
         (case scope of None \<Rightarrow> [] | Some s \<Rightarrow> [lit ''-Dscope='' @ scope_argument s]))))"

datatype ClasspathKind = Build_Classpath | Test_Classpath

definition classpath_arguments :: "MavenRunner \<Rightarrow> str option \<Rightarrow> ClasspathKind \<Rightarrow> str + str list" where
  "classpath_arguments r module kind =
     and_then (base_arguments r module False) (\<lambda>arguments.
       Inr (arguments @ [lit ''dependency:build-classpath'',
         (case kind of Build_Classpath \<Rightarrow> lit ''-DincludeScope=compile'' | Test_Classpath \<Rightarrow> lit ''-DincludeScope=test'')]))"

text \<open>\<open>run_arguments\<close> forwards the argument vector of the client.\<close>

definition client_arguments :: "str list \<Rightarrow> str + str list" where
  "client_arguments arguments =
     (if list_ex (\<lambda>argument. 0 \<in> set argument) arguments
      then Inl (lit ''Maven arguments must not contain NUL bytes'') else Inr arguments)"

section \<open>Bounded output\<close>

text \<open>The results of the successive reads of a pipe: an error, or at most 8192 bytes, none at the end.\<close>

type_synonym 'e pipe_reads = "('e + nat list) list"

record BoundedOutput =
  bo_bytes :: "nat list"
  bo_tail :: "nat list"
  bo_truncated :: bool

definition empty_output :: BoundedOutput where
  "empty_output = \<lparr> bo_bytes = [], bo_tail = [], bo_truncated = False \<rparr>"

definition absorb :: "nat \<Rightarrow> nat list \<Rightarrow> BoundedOutput \<Rightarrow> BoundedOutput" where
  "absorb limit buffer out =
     (let n = length buffer;
          new_tail = (if limit \<le> n then drop (n - limit) buffer
                  else drop (length (bo_tail out) + n - limit) (bo_tail out) @ buffer);
          remaining = limit - length (bo_bytes out)
      in \<lparr> bo_bytes = bo_bytes out @ take (min n remaining) buffer, bo_tail = new_tail,
           bo_truncated = (bo_truncated out \<or> remaining < n) \<rparr>)"

fun read_loop :: "nat \<Rightarrow> 'e pipe_reads \<Rightarrow> BoundedOutput \<Rightarrow> 'e + BoundedOutput" where
  "read_loop limit [] out = Inr out"
| "read_loop limit (Inl e # reads) out = Inl e"
| "read_loop limit (Inr buffer # reads) out =
     (if buffer = [] then Inr out else read_loop limit reads (absorb limit buffer out))"

definition read_bounded :: "'e pipe_reads option \<Rightarrow> nat \<Rightarrow> 'e + BoundedOutput" where
  "read_bounded reader limit =
     (case reader of None \<Rightarrow> Inr empty_output | Some reads \<Rightarrow> read_loop limit reads empty_output)"

definition into_bytes :: "BoundedOutput \<Rightarrow> bool \<Rightarrow> nat list" where
  "into_bytes out prefer_tail = (if prefer_tail \<and> bo_truncated out then bo_tail out else bo_bytes out)"

text \<open>What a pipe delivered: all buffers up to the end.\<close>

fun delivered :: "'e pipe_reads \<Rightarrow> nat list" where
  "delivered (Inr buffer # reads) = (if buffer = [] then [] else buffer @ delivered reads)"
| "delivered _ = []"

fun fails :: "'e pipe_reads \<Rightarrow> 'e option" where
  "fails (Inr buffer # reads) = (if buffer = [] then None else fails reads)"
| "fails (Inl e # reads) = Some e"
| "fails [] = None"

definition last_bytes :: "nat \<Rightarrow> nat list \<Rightarrow> nat list" where
  "last_bytes n xs = drop (length xs - n) xs"

definition output_of :: "nat \<Rightarrow> nat list \<Rightarrow> BoundedOutput" where
  "output_of limit bytes =
     \<lparr> bo_bytes = take limit bytes, bo_tail = last_bytes limit bytes, bo_truncated = (limit < length bytes) \<rparr>"

lemma absorb_output_of: "absorb limit buffer (output_of limit bytes) = output_of limit (bytes @ buffer)"
proof -
  have "drop (length (last_bytes limit bytes) + length buffer - limit) (last_bytes limit bytes) @ buffer =
      last_bytes limit (bytes @ buffer)" if "length buffer < limit"
  proof -
    have "length bytes - limit + (length (last_bytes limit bytes) + length buffer - limit) = length bytes + length buffer - limit"
      using that by (auto simp: last_bytes_def)
    then show ?thesis using that by (simp add: last_bytes_def drop_drop add.commute)
  qed
  then show ?thesis
    by (auto simp: absorb_def output_of_def Let_def last_bytes_def not_le min_def)
qed

lemma read_loop_output_of:
  "read_loop limit reads (output_of limit bytes) =
    (case fails reads of Some e \<Rightarrow> Inl e | None \<Rightarrow> Inr (output_of limit (bytes @ delivered reads)))"
proof (induction reads arbitrary: bytes rule: delivered.induct)
  case (1 buffer reads)
  then show ?case by (simp add: absorb_output_of split: option.split)
qed auto

text \<open>
  Claim C33: read_bounded_window.  However a pipe's output is cut into reads, the capture keeps exactly its
  first and its last bytes up to the limit and knows whether anything is missing; a failed run whose
  output was cut is shown by its last bytes, every other run by its first.
\<close>

theorem read_bounded_window:
  "read_bounded (Some reads) limit =
    (case fails reads of
       Some e \<Rightarrow> Inl e
     | None \<Rightarrow> Inr \<lparr> bo_bytes = take limit (delivered reads), bo_tail = drop (length (delivered reads) - limit) (delivered reads),
                    bo_truncated = (limit < length (delivered reads)) \<rparr>) \<and>
   (\<forall>out failed. read_bounded (Some reads) limit = Inr out \<longrightarrow> length (into_bytes out failed) \<le> limit \<and>
      (if failed then \<exists>start. delivered reads = start @ into_bytes out failed
       else \<exists>rest. delivered reads = into_bytes out failed @ rest))"
proof -
  have "empty_output = output_of limit []" by (simp add: empty_output_def output_of_def last_bytes_def)
  then have result: "read_bounded (Some reads) limit =
      (case fails reads of Some e \<Rightarrow> Inl e | None \<Rightarrow> Inr (output_of limit (delivered reads)))"
    using read_loop_output_of [of limit reads "[]"] by (simp add: read_bounded_def split: option.split)
  moreover have "length (into_bytes (output_of limit bytes) failed) \<le> limit \<and>
      (if failed then \<exists>start. bytes = start @ into_bytes (output_of limit bytes) failed
       else \<exists>rest. bytes = into_bytes (output_of limit bytes) failed @ rest)" for bytes failed
    by (auto simp: into_bytes_def output_of_def last_bytes_def intro: append_take_drop_id [symmetric])
  ultimately show ?thesis unfolding last_bytes_def [symmetric] output_of_def [symmetric]
    by (auto split: option.splits)
qed

theorem read_bounded_window_witness:
  "length (into_bytes (output_of 2 [1, 2, 3]) True) \<le> 2 \<and> read_bounded (Some [Inr [1, 2], Inr [3], Inr []]) 2 = Inr (output_of 2 [1, 2, 3])"
proof -
  have run: "read_bounded (Some [Inr [1, 2], Inr [3], Inr []]) 2 = Inr (output_of 2 [1, 2, 3])"
    by (simp add: read_bounded_def absorb_def empty_output_def output_of_def last_bytes_def numeral_2_eq_2)
  with read_bounded_window [of "[Inr [1, 2], Inr [3], Inr []]" 2] show ?thesis by blast
qed


section \<open>One run\<close>

datatype MavenOperation =
  Op_Lifecycle | Op_FocusedTest | Op_EffectivePom | Op_DependencyTree | Op_DependencyResolution | Op_Classpath | Op_Arguments

datatype RunFailure =
  Failure_Permit | Failure_Executable | Failure_JavaSelection | Failure_Spawn | Failure_Wait | Failure_OutputRead

text \<open>
  What the system answers while a child runs: the checks before it starts, its exit as seen before the
  deadline and, if it was still running then, in the second after its process group was killed, and the
  pipes likewise.  An exit is its code, none when a signal ended the process.
\<close>

record child_run =
  cr_executable :: "str + unit"
  cr_java :: "str + unit"
  cr_spawn :: "str + unit"
  cr_wait :: "(str + int option) option"
  cr_wait_late :: "(str + int option) option"
  cr_pipes :: "((str + BoundedOutput) \<times> (str + BoundedOutput)) option"
  cr_pipes_late :: "((str + BoundedOutput) \<times> (str + BoundedOutput)) option"
  cr_elapsed_ms :: nat

definition wait_text :: "str + int option \<Rightarrow> (RunFailure \<times> str) + int option" where
  "wait_text w = (case w of Inl e \<Rightarrow> Inl (Failure_Wait, lit ''cannot wait for Maven: '' @ e) | Inr code \<Rightarrow> Inr code)"

definition read_text :: "str + BoundedOutput \<Rightarrow> (RunFailure \<times> str) + BoundedOutput" where
  "read_text r = (case r of Inl e \<Rightarrow> Inl (Failure_OutputRead, lit ''cannot read Maven output: '' @ e) | Inr out \<Rightarrow> Inr out)"

text \<open>The deadline covers the exit of the child and the end of both pipes.\<close>

definition timed_out :: "child_run \<Rightarrow> bool" where
  "timed_out c \<longleftrightarrow> cr_wait c = None \<or> cr_pipes c = None"

definition exit_of :: "child_run \<Rightarrow> str + int option" where
  "exit_of c =
     (case cr_wait c of Some w \<Rightarrow> w
      | None \<Rightarrow> (case cr_wait_late c of Some w \<Rightarrow> w
                 | None \<Rightarrow> Inl (lit ''Maven did not exit after process-group termination'')))"

definition pipes_of :: "child_run \<Rightarrow> (str + BoundedOutput) \<times> (str + BoundedOutput)" where
  "pipes_of c =
     (case cr_pipes c of Some p \<Rightarrow> p
      | None \<Rightarrow> (case cr_pipes_late c of Some p \<Rightarrow> p | None \<Rightarrow> (Inr empty_output, Inr empty_output)))"

definition child_status :: "bool \<Rightarrow> int option \<Rightarrow> MavenRunStatus \<times> int option" where
  "child_status late code =
     (if late then (Run_Timeout, None) else if code = Some 0 then (Run_Success, code) else (Run_BuildFailure, code))"

text \<open>\<open>lossy\<close> is \<open>String::from_utf8_lossy\<close>, \<open>redact\<close> the redaction with its number of replacements.  The
  result comes with the raw standard output.\<close>

definition run_child ::
  "(nat list \<Rightarrow> str) \<Rightarrow> (str \<Rightarrow> str \<times> nat) \<Rightarrow> child_run \<Rightarrow> (RunFailure \<times> str) + (MavenRunResult \<times> str)" where
  "run_child lossy redact c =
     and_then (case cr_executable c of Inl e \<Rightarrow> Inl (Failure_Executable, e) | Inr u \<Rightarrow> Inr u) (\<lambda>_.
     and_then (case cr_java c of Inl e \<Rightarrow> Inl (Failure_JavaSelection, e) | Inr u \<Rightarrow> Inr u) (\<lambda>_.
     and_then (case cr_spawn c of Inl e \<Rightarrow> Inl (Failure_Spawn, lit ''cannot start Maven: '' @ e) | Inr u \<Rightarrow> Inr u) (\<lambda>_.
     and_then (wait_text (exit_of c)) (\<lambda>code.
     and_then (read_text (fst (pipes_of c))) (\<lambda>stdout.
     and_then (read_text (snd (pipes_of c))) (\<lambda>stderr.
       let (status, exit_code) = child_status (timed_out c) code;
           failed = (status \<noteq> Run_Success);
           (stdout_text, stdout_redactions) = redact (lossy (into_bytes stdout failed));
           (stderr_text, stderr_redactions) = redact (lossy (into_bytes stderr failed))
       in Inr (\<lparr> run_status = status, run_exit_code = exit_code, run_duration_ms = cr_elapsed_ms c,
                 run_timed_out = timed_out c, run_stdout = stdout_text, run_stderr = stderr_text,
                 run_stdout_truncated = bo_truncated stdout, run_stderr_truncated = bo_truncated stderr,
                 run_redaction_count = stdout_redactions + stderr_redactions \<rparr>,
               lossy (bo_bytes stdout))))))))"

definition runner_error :: "(str \<Rightarrow> str \<times> nat) \<Rightarrow> nat \<Rightarrow> str \<Rightarrow> MavenRunResult" where
  "runner_error redact elapsed message =
     (let (stderr, redaction_count) = redact message
      in \<lparr> run_status = Run_RunnerError, run_exit_code = None, run_duration_ms = elapsed, run_timed_out = False,
           run_stdout = [], run_stderr = stderr, run_stdout_truncated = False, run_stderr_truncated = False,
           run_redaction_count = redaction_count \<rparr>)"

text \<open>
  The log events of a run, with the fields of the events in their order: what a finished run reports of
  its result are figures, not texts; the times are the wait for the permit, the timeout, the run and
  their total.
\<close>

record run_figures =
  rg_status :: MavenRunStatus
  rg_exit_code :: "int option"
  rg_timed_out :: bool
  rg_stdout_truncated :: bool
  rg_stderr_truncated :: bool
  rg_redaction_count :: nat

definition figures_of :: "MavenRunResult \<Rightarrow> run_figures" where
  "figures_of r =
     \<lparr> rg_status = run_status r, rg_exit_code = run_exit_code r, rg_timed_out = run_timed_out r,
       rg_stdout_truncated = run_stdout_truncated r, rg_stderr_truncated = run_stderr_truncated r,
       rg_redaction_count = run_redaction_count r \<rparr>"

datatype run_event =
  Run_Started MavenOperation nat nat
| Run_Finished MavenOperation run_figures nat nat nat nat "RunFailure option"
| Run_Abandoned MavenOperation nat nat nat
| Permit_Failed MavenOperation nat

definition total_ms :: "nat \<Rightarrow> nat \<Rightarrow> nat" where
  "total_ms wait_ms run_ms = sat_add wait_ms run_ms"

text \<open>A run under the permit; the request may be cancelled while the child runs (\<open>None\<close>), which drops the
  trace.\<close>

definition execute_permitted ::
  "(nat list \<Rightarrow> str) \<Rightarrow> (str \<Rightarrow> str \<times> nat) \<Rightarrow> MavenOperation \<Rightarrow> nat \<Rightarrow> nat \<Rightarrow> nat \<Rightarrow> child_run option \<Rightarrow>
     (MavenRunResult \<times> str) option \<times> run_event list" where
  "execute_permitted lossy redact operation wait_ms timeout_ms run_ms child =
     (let started = Run_Started operation wait_ms timeout_ms; duration = total_ms wait_ms run_ms
      in case child of
           None \<Rightarrow> (None, [started, Run_Abandoned operation wait_ms run_ms duration])
         | Some c \<Rightarrow>
             (case run_child lossy redact c of
                Inr (result, raw) \<Rightarrow>
                  (Some (result, raw), [started, Run_Finished operation (figures_of result) timeout_ms wait_ms run_ms duration None])
              | Inl (failure, message) \<Rightarrow>
                  let result = runner_error redact (cr_elapsed_ms c) message
                  in (Some (result, []), [started, Run_Finished operation (figures_of result) timeout_ms wait_ms run_ms duration (Some failure)])))"

definition execute_with_raw_stdout ::
  "(nat list \<Rightarrow> str) \<Rightarrow> (str \<Rightarrow> str \<times> nat) \<Rightarrow> MavenOperation \<Rightarrow> (str + unit) \<Rightarrow> nat \<Rightarrow> nat \<Rightarrow> nat \<Rightarrow> nat \<Rightarrow>
     child_run option \<Rightarrow> (MavenRunResult \<times> str) option \<times> run_event list" where
  "execute_with_raw_stdout lossy redact operation permit elapsed wait_ms timeout_ms run_ms child =
     (case permit of
        Inl e \<Rightarrow> (Some (runner_error redact elapsed e, []), [Permit_Failed operation wait_ms])
      | Inr _ \<Rightarrow> execute_permitted lossy redact operation wait_ms timeout_ms run_ms child)"

text \<open>
  What was seen of a child, in terms of the answers of the system alone: it was started; its exit code, and
  both outputs, were read before the deadline; or, when one of the two was missing at the deadline, they
  became known in the second after its process group was killed (an output then still open counts as
  empty).
\<close>

definition child_started :: "child_run \<Rightarrow> bool" where
  "child_started c \<longleftrightarrow> cr_executable c = Inr () \<and> cr_java c = Inr () \<and> cr_spawn c = Inr ()"

definition in_time :: "child_run \<Rightarrow> int option \<Rightarrow> BoundedOutput \<Rightarrow> BoundedOutput \<Rightarrow> bool" where
  "in_time c code stdout stderr \<longleftrightarrow>
     child_started c \<and> cr_wait c = Some (Inr code) \<and> cr_pipes c = Some (Inr stdout, Inr stderr)"

definition too_late :: "child_run \<Rightarrow> BoundedOutput \<Rightarrow> BoundedOutput \<Rightarrow> bool" where
  "too_late c stdout stderr \<longleftrightarrow>
     child_started c \<and> (cr_wait c = None \<or> cr_pipes c = None) \<and>
     (\<exists>code. cr_wait c = Some (Inr code) \<or> cr_wait c = None \<and> cr_wait_late c = Some (Inr code)) \<and>
     (cr_pipes c = Some (Inr stdout, Inr stderr) \<or>
      cr_pipes c = None \<and> cr_pipes_late c = Some (Inr stdout, Inr stderr) \<or>
      cr_pipes c = None \<and> cr_pipes_late c = None \<and> stdout = empty_output \<and> stderr = empty_output)"

lemma run_child_in_time:
  assumes "in_time c code stdout stderr"
  shows "\<exists>r raw. run_child lossy redact c = Inr (r, raw) \<and>
    run_status r = (if code = Some 0 then Run_Success else Run_BuildFailure) \<and> run_exit_code r = code \<and>
    run_stdout r = fst (redact (lossy (into_bytes stdout (code \<noteq> Some 0)))) \<and>
    run_stderr r = fst (redact (lossy (into_bytes stderr (code \<noteq> Some 0))))"
  using assms
  by (auto simp: in_time_def child_started_def run_child_def exit_of_def pipes_of_def wait_text_def read_text_def
    child_status_def timed_out_def Let_def split: prod.splits)

lemma run_child_too_late:
  assumes "too_late c stdout stderr"
  shows "\<exists>r raw. run_child lossy redact c = Inr (r, raw) \<and>
    run_status r = Run_Timeout \<and> run_exit_code r = None \<and>
    run_stdout r = fst (redact (lossy (into_bytes stdout True))) \<and>
    run_stderr r = fst (redact (lossy (into_bytes stderr True)))"
proof -
  have "timed_out c" "\<exists>code. exit_of c = Inr code" "pipes_of c = (Inr stdout, Inr stderr)" "child_started c"
    using assms by (auto simp: too_late_def timed_out_def exit_of_def pipes_of_def split: option.split)
  then show ?thesis
    by (auto simp: child_started_def run_child_def wait_text_def read_text_def child_status_def Let_def split: prod.splits)
qed

lemma run_child_otherwise:
  assumes "\<And>code stdout stderr. \<not> in_time c code stdout stderr" "\<And>stdout stderr. \<not> too_late c stdout stderr"
  shows "\<exists>failure message. run_child lossy redact c = Inl (failure, message)"
proof (cases "run_child lossy redact c")
  case (Inl fm)
  then show ?thesis by (cases fm) auto
next
  case (Inr rr)
  then have "child_started c" "\<exists>code. exit_of c = Inr code" "\<exists>stdout stderr. pipes_of c = (Inr stdout, Inr stderr)"
    by (auto simp: run_child_def and_then_Inr child_started_def wait_text_def read_text_def split: sum.splits)
      (metis prod.collapse)
  then have False using assms
    by (auto simp: in_time_def too_late_def exit_of_def pipes_of_def split: option.splits)
  then show ?thesis ..
qed

lemma in_time_determined:
  "in_time c code stdout stderr \<Longrightarrow> in_time c code' stdout' stderr' \<longleftrightarrow> code' = code \<and> stdout' = stdout \<and> stderr' = stderr"
  "in_time c code stdout stderr \<Longrightarrow> \<not> too_late c stdout' stderr'"
  by (auto simp: in_time_def too_late_def)

lemma too_late_determined:
  "too_late c stdout stderr \<Longrightarrow> too_late c stdout' stderr' \<longleftrightarrow> stdout' = stdout \<and> stderr' = stderr"
  by (auto simp: too_late_def)

text \<open>
  Claim C32: run_reported_truthfully.  The status of an answered run is told by what was seen of the child.
  \<open>Success\<close> is answered exactly when the child started, exited with code zero and both its outputs were
  read to their ends without an error, all before the deadline; then the first bytes of both outputs are
  shown, redacted.  \<open>BuildFailure\<close> is answered for any other exit in time, with its code.  \<open>Timeout\<close> is
  answered, without a code, exactly when the exit or the outputs came too late but did come, or the
  outputs were given up.  A failed run shows the last bytes of an output that was cut, redacted.
  Everything else (nothing started, no exit at all, an output that cannot be read) is a runner error
  with no output and no code.
\<close>

theorem run_reported_truthfully:
  assumes "execute_permitted lossy redact operation wait_ms timeout_ms run_ms (Some c) = (Some (result, raw), events)"
  shows "(run_status result = Run_Success \<longleftrightarrow> (\<exists>stdout stderr. in_time c (Some 0) stdout stderr)) \<and>
    (run_status result = Run_BuildFailure \<longleftrightarrow> (\<exists>code stdout stderr. in_time c code stdout stderr \<and> code \<noteq> Some 0)) \<and>
    (run_status result = Run_Timeout \<longleftrightarrow> (\<exists>stdout stderr. too_late c stdout stderr)) \<and>
    (run_status result = Run_RunnerError \<longrightarrow> run_stdout result = [] \<and> raw = [] \<and> run_exit_code result = None) \<and>
    (\<forall>code stdout stderr. in_time c code stdout stderr \<longrightarrow> run_exit_code result = code \<and>
       run_stdout result = fst (redact (lossy (into_bytes stdout (code \<noteq> Some 0)))) \<and>
       run_stderr result = fst (redact (lossy (into_bytes stderr (code \<noteq> Some 0))))) \<and>
    (\<forall>stdout stderr. too_late c stdout stderr \<longrightarrow> run_exit_code result = None \<and>
       run_stdout result = fst (redact (lossy (into_bytes stdout True))) \<and>
       run_stderr result = fst (redact (lossy (into_bytes stderr True))))"
proof -
  consider (in_time) code stdout stderr where "in_time c code stdout stderr"
    | (late) stdout stderr where "too_late c stdout stderr"
    | (neither) "\<And>code stdout stderr. \<not> in_time c code stdout stderr" "\<And>stdout stderr. \<not> too_late c stdout stderr"
    by blast
  then show ?thesis
  proof cases
    case in_time
    with run_child_in_time [OF in_time, of lossy redact] assms show ?thesis
      by (auto simp: execute_permitted_def in_time_determined [OF in_time] split: if_splits)
  next
    case late
    have "\<not> in_time c code stdout' stderr'" for code stdout' stderr' using late in_time_determined(2) by blast
    with run_child_too_late [OF late, of lossy redact] assms show ?thesis
      by (auto simp: execute_permitted_def too_late_determined [OF late])
  next
    case neither
    with run_child_otherwise [of c lossy redact] assms show ?thesis
      by (auto simp: execute_permitted_def runner_error_def Let_def split: prod.splits)
  qed
qed

theorem run_reported_truthfully_witness:
  "\<exists>result raw events. execute_permitted (\<lambda>bytes. bytes) (\<lambda>s. (s, 0)) Op_Lifecycle 0 1000 5
     (Some \<lparr> cr_executable = Inr (), cr_java = Inr (), cr_spawn = Inr (), cr_wait = Some (Inr (Some 0)), cr_wait_late = None,
             cr_pipes = None, cr_pipes_late = Some (Inr (output_of 2 [65, 66, 67]), Inr empty_output), cr_elapsed_ms = 5 \<rparr>) =
     (Some (result, raw), events) \<and> run_status result = Run_Timeout \<and> run_stdout result = [66, 67]"
proof -
  let ?c = "\<lparr> cr_executable = Inr (), cr_java = Inr (), cr_spawn = Inr (), cr_wait = Some (Inr (Some 0)), cr_wait_late = None,
    cr_pipes = None, cr_pipes_late = Some (Inr (output_of 2 [65, 66, 67]), Inr empty_output), cr_elapsed_ms = 5 \<rparr> :: child_run"
  let ?run = "execute_permitted (\<lambda>bytes. bytes) (\<lambda>s. (s, 0)) Op_Lifecycle 0 1000 5 (Some ?c)"
  have late: "too_late ?c (output_of 2 [65, 66, 67]) empty_output" by (simp add: too_late_def child_started_def)
  obtain result raw events where run: "?run = (Some (result, raw), events)"
    using run_child_too_late [OF late, of "\<lambda>bytes. bytes" "\<lambda>s. (s, 0)"] by (auto simp: execute_permitted_def Let_def)
  have "run_status result = Run_Timeout \<and> run_stdout result = into_bytes (output_of 2 [65, 66, 67]) True"
    using run_reported_truthfully [OF run] late by auto
  moreover have "into_bytes (output_of 2 [65, 66, 67]) True = [66, 67 :: nat]"
    by (simp add: into_bytes_def output_of_def last_bytes_def)
  ultimately show ?thesis using run by auto
qed

end
