(* ===== verification/Module_Discovery.thy ===== *)
theory Module_Discovery
  imports Maven_Output
begin

text \<open>
  Reading the reactor from disk (\<open>src/src/project.rs\<close>): the choice of the Maven executable, the selectors
  of modules and the recursive discovery of module POMs within the XML budget.  The file system and the
  POM parser are parameters.
\<close>

section \<open>The executable\<close>

datatype MavenExecutable = Wrapper path | System path

record exec_files =
  ef_is_file :: "path \<Rightarrow> bool"
  ef_executable :: "path \<Rightarrow> str + bool"
  ef_canonicalize :: "str \<Rightarrow> path option"

definition select_executable :: "exec_files \<Rightarrow> path \<Rightarrow> str option \<Rightarrow> str + MavenExecutable" where
  "select_executable fs root configured =
     (let wrapper = root @ [lit ''mvnw'']
      in and_then (if ef_is_file fs wrapper \<and>
                      ef_is_file fs (root @ [lit ''.mvn'', lit ''wrapper'', lit ''maven-wrapper.properties''])
                   then ef_executable fs wrapper else Inr False) (\<lambda>use_wrapper.
         if use_wrapper then Inr (Wrapper wrapper)
         else case configured of
                None \<Rightarrow> Inl (lit ''MAVEN_EXECUTABLE must be an absolute executable path when no Maven Wrapper is available'')
              | Some p \<Rightarrow>
                  if \<not> is_absolute p then Inl (lit ''MAVEN_EXECUTABLE must be absolute'')
                  else case ef_canonicalize fs p of
                         None \<Rightarrow> Inl (lit ''MAVEN_EXECUTABLE must exist'')
                       | Some canonical \<Rightarrow>
                           and_then (ef_executable fs canonical) (\<lambda>ok.
                             if ok then Inr (System canonical) else Inl (lit ''MAVEN_EXECUTABLE is not executable''))))"

section \<open>Selectors\<close>

text \<open>\<open>Path::components\<close> of a relative path contains a parent directory exactly when \<open>..\<close> stands between
  slashes.\<close>

definition normalize_module_selector :: "str \<Rightarrow> str \<Rightarrow> str + str" where
  "normalize_module_selector parent module =
     (if is_absolute module \<or> lit ''..'' \<in> set (split_on 47 module)
      then Inl (lit ''module selector must remain inside project_path'')
      else Inr (replace_ch 92 47 (if parent = lit ''.'' then module else parent @ [47] @ module)))"

section \<open>Discovery\<close>

record RawProject =
  rp_artifact_id :: str
  rp_packaging :: "str option"
  rp_modules :: "str list"

record pom_files =
  pf_canonicalize :: "path \<Rightarrow> path option"
  pf_child :: "path \<Rightarrow> str \<Rightarrow> path option"
  pf_content :: "path \<Rightarrow> str + file_content"
  pf_reader :: "str \<Rightarrow> (str + xml_event) list"
  pf_parse :: "str \<Rightarrow> str + RawProject"

record discovery =
  ds_discovered :: "(str \<times> MavenModule) list"
  ds_visited :: "path set"
  ds_budget :: XmlBudget

definition ESCAPES :: str where "ESCAPES = lit ''module path escapes project_path''"

text \<open>The children of a module in order; the first argument discovers one module.\<close>

fun discover_children ::
  "(path \<Rightarrow> str \<Rightarrow> discovery \<Rightarrow> (str + discovery) option) \<Rightarrow> pom_files \<Rightarrow> path \<Rightarrow> path \<Rightarrow> (str \<times> str) list \<Rightarrow> discovery \<Rightarrow>
     (str + discovery) option" where
  "discover_children go fs root directory [] st = Some (Inr st)"
| "discover_children go fs root directory ((module, child_selector) # rest) st =
     (case pf_child fs directory module of
        None \<Rightarrow> Some (Inl (lit ''module '' @ child_selector @ lit '' is not a readable directory''))
      | Some child \<Rightarrow>
          if \<not> path_starts_with child root then Some (Inl ESCAPES)
          else case go child child_selector st of
                 Some (Inr st') \<Rightarrow> discover_children go fs root directory rest st'
               | r \<Rightarrow> r)"

text \<open>
  The first argument is the number of levels left, \<open>MAX_XML_DEPTH + 1 - depth\<close>; the outer \<open>None\<close> is the
  arithmetic panic of the XML budget.
\<close>

primrec discover_module ::
  "nat \<Rightarrow> pom_files \<Rightarrow> nat \<Rightarrow> path \<Rightarrow> path \<Rightarrow> str \<Rightarrow> discovery \<Rightarrow> (str + discovery) option" where
  "discover_module 0 fs max_xml_bytes root directory selector st = Some (Inl (lit ''module discovery exceeds MAX_XML_DEPTH''))"
| "discover_module (Suc levels) fs max_xml_bytes root directory selector st =
     (case pf_canonicalize fs directory of
        None \<Rightarrow> Some (Inl (lit ''cannot canonicalize module directory''))
      | Some directory \<Rightarrow>
          if \<not> path_starts_with directory root then Some (Inl ESCAPES)
          else if directory \<in> ds_visited st then Some (Inr st)
          else
            (case budget_read (pf_reader fs) (pf_content fs) max_xml_bytes (directory @ [lit ''pom.xml'']) (ds_budget st) of
               None \<Rightarrow> None
             | Some (Inl e, _) \<Rightarrow> Some (Inl (lit ''module '' @ selector @ lit '' has no readable pom.xml: '' @ e))
             | Some (Inr xml, budget) \<Rightarrow>
                 (case pf_parse fs xml of
                    Inl e \<Rightarrow> Some (Inl (lit ''cannot parse module POM for '' @ selector))
                  | Inr raw \<Rightarrow>
                      (case collect_results (map (normalize_module_selector selector) (rp_modules raw)) of
                         Inl e \<Rightarrow> Some (Inl e)
                       | Inr child_selectors \<Rightarrow>
                           discover_children (discover_module levels fs max_xml_bytes root) fs root directory
                             (zip (rp_modules raw) child_selectors)
                             \<lparr> ds_discovered = bt_insert selector
                                  \<lparr> mm_selector = selector, mm_artifact_id = rp_artifact_id raw,
                                    mm_packaging = (case rp_packaging raw of Some p \<Rightarrow> p | None \<Rightarrow> lit ''jar''),
                                    mm_modules = child_selectors \<rparr> (ds_discovered st),
                               ds_visited = insert directory (ds_visited st), ds_budget = budget \<rparr>))))"

definition discover_project :: "pom_files \<Rightarrow> nat \<Rightarrow> path \<Rightarrow> bool \<Rightarrow> (str + MavenProject) option" where
  "discover_project fs max_xml_bytes root wrapper =
     map_option (\<lambda>r. and_then r (\<lambda>st.
         case map_of (ds_discovered st) (lit ''.'') of
           None \<Rightarrow> Inl (lit ''root project was not discovered'')
         | Some root_module \<Rightarrow>
             Inr \<lparr> mp_artifact_id = mm_artifact_id root_module, mp_packaging = mm_packaging root_module, mp_wrapper = wrapper,
                   mp_modules = map snd (filter (\<lambda>(selector, _). selector \<noteq> lit ''.'') (ds_discovered st)) \<rparr>))
       (discover_module (MAX_XML_DEPTH + 1) fs max_xml_bytes root root (lit ''.'')
         \<lparr> ds_discovered = [], ds_visited = {}, ds_budget = new_budget \<rparr>)"

section \<open>What is discovered lies inside the project\<close>

text \<open>A module is described by a POM of a directory.\<close>

definition described :: "pom_files \<Rightarrow> path \<Rightarrow> MavenModule \<Rightarrow> bool" where
  "described fs directory m \<longleftrightarrow> (\<exists>xml raw. pf_content fs (directory @ [lit ''pom.xml'']) = Inr (Utf8 xml) \<and>
     pf_parse fs xml = Inr raw \<and> mm_artifact_id m = rp_artifact_id raw \<and>
     mm_packaging m = (case rp_packaging raw of Some p \<Rightarrow> p | None \<Rightarrow> lit ''jar'') \<and>
     map (normalize_module_selector (mm_selector m)) (rp_modules raw) = map Inr (mm_modules m))"

definition discovery_ok :: "pom_files \<Rightarrow> path \<Rightarrow> discovery \<Rightarrow> bool" where
  "discovery_ok fs root st \<longleftrightarrow> sorted_wrt (<) (map fst (ds_discovered st)) \<and>
     finite (ds_visited st) \<and> card (ds_visited st) = xb_files (ds_budget st) \<and> budget_ok (ds_budget st) \<and>
     (\<forall>d\<in>ds_visited st. path_starts_with d root) \<and>
     (\<exists>dir. inj_on dir (fst ` set (ds_discovered st)) \<and>
        (\<forall>(s, m)\<in>set (ds_discovered st). mm_selector m = s \<and> dir s \<in> ds_visited st \<and> described fs (dir s) m))"

lemma bt_insert_entries:
  assumes "sorted_wrt (<) (map fst m)" "(s, x) \<in> set (bt_insert k v m)"
  shows "(s = k \<and> x = v) \<or> (s \<noteq> k \<and> (s, x) \<in> set m)"
proof -
  have sorted: "sorted_wrt (<) (map fst (bt_insert k v m))" by (rule sorted_bt_insert [OF assms(1)])
  have "map_of (bt_insert k v m) s = Some x" using sorted assms(2)
    by (auto simp: strict_sorted_iff simp del: map_of_bt_insert intro: map_of_is_SomeI)
  then show ?thesis by (auto split: if_splits dest: map_of_SomeD)
qed

lemma discovery_ok_insert:
  assumes ok: "discovery_ok fs root st"
    and new: "d \<notin> ds_visited st" "path_starts_with d root"
    and budget: "budget_ok budget" "xb_files budget = xb_files (ds_budget st) + 1"
    and m: "mm_selector m = selector" "described fs d m"
  shows "discovery_ok fs root \<lparr> ds_discovered = bt_insert selector m (ds_discovered st),
    ds_visited = insert d (ds_visited st), ds_budget = budget \<rparr>"
proof -
  from ok obtain dir where sorted: "sorted_wrt (<) (map fst (ds_discovered st))" and
    dir: "inj_on dir (fst ` set (ds_discovered st))"
      "\<And>s m. (s, m) \<in> set (ds_discovered st) \<Longrightarrow> mm_selector m = s \<and> dir s \<in> ds_visited st \<and> described fs (dir s) m"
    unfolding discovery_ok_def by blast
  let ?dir = "dir(selector := d)"
  have "d \<noteq> dir s" if "s \<in> fst ` set (ds_discovered st)" for s using dir(2) that new(1) by force
  then have "inj_on ?dir (insert selector (fst ` set (ds_discovered st)))"
    using dir(1) by (auto simp: inj_on_def)
  moreover have "mm_selector x = s \<and> ?dir s \<in> insert d (ds_visited st) \<and> described fs (?dir s) x"
    if "(s, x) \<in> set (bt_insert selector m (ds_discovered st))" for s x
    using bt_insert_entries [OF sorted that] dir(2) m by auto
  ultimately have "\<exists>dir. inj_on dir (fst ` set (bt_insert selector m (ds_discovered st))) \<and>
      (\<forall>(s, x)\<in>set (bt_insert selector m (ds_discovered st)).
         mm_selector x = s \<and> dir s \<in> insert d (ds_visited st) \<and> described fs (dir s) x)"
    by (intro exI [of _ ?dir]) auto
  then show ?thesis using ok new budget unfolding discovery_ok_def
    by (simp add: sorted_bt_insert card_insert_if)
qed

lemma discover_children_ok:
  assumes go: "\<And>d s st. discovery_ok fs root st \<Longrightarrow> \<exists>r. go d s st = Some r \<and> (\<forall>st'. r = Inr st' \<longrightarrow> discovery_ok fs root st')"
  shows "discovery_ok fs root st \<Longrightarrow> \<exists>r. discover_children go fs root directory pairs st = Some r \<and>
    (\<forall>st'. r = Inr st' \<longrightarrow> discovery_ok fs root st')"
proof (induction pairs arbitrary: st)
  case (Cons pair rest)
  obtain module child_selector where pair: "pair = (module, child_selector)" by (cases pair)
  show ?case
  proof (cases "pf_child fs directory module")
    case (Some child)
    show ?thesis
    proof (cases "path_starts_with child root")
      case True
      from go [OF Cons.prems] obtain r where
        r: "go child child_selector st = Some r" "\<And>st'. r = Inr st' \<Longrightarrow> discovery_ok fs root st'" by blast
      then show ?thesis using Some True Cons.IH by (cases r) (auto simp: pair)
    qed (simp add: Some pair)
  qed (simp add: pair)
qed simp

lemma discover_module_ok:
  "discovery_ok fs root st \<Longrightarrow> \<exists>r. discover_module levels fs max_xml_bytes root directory selector st = Some r \<and>
    (\<forall>st'. r = Inr st' \<longrightarrow> discovery_ok fs root st')"
proof (induction levels arbitrary: directory selector st)
  case (Suc levels)
  note children = discover_children_ok [of fs root "discover_module levels fs max_xml_bytes root", OF Suc.IH]
  show ?case
  proof (cases "pf_canonicalize fs directory")
    case (Some d)
    show ?thesis
    proof (cases "\<not> path_starts_with d root \<or> d \<in> ds_visited st")
      case True
      then show ?thesis using Some Suc.prems by auto
    next
      case False
      have "budget_ok (ds_budget st)" using Suc.prems by (simp add: discovery_ok_def)
      from budget_read_total [OF this, of "pf_reader fs" "pf_content fs" max_xml_bytes "d @ [lit ''pom.xml'']"] obtain r budget where
        read: "budget_read (pf_reader fs) (pf_content fs) max_xml_bytes (d @ [lit ''pom.xml'']) (ds_budget st) = Some (r, budget)"
          "budget_ok budget" "case r of Inl _ \<Rightarrow> True
             | Inr xml \<Rightarrow> pf_content fs (d @ [lit ''pom.xml'']) = Inr (Utf8 xml) \<and> xb_files budget = xb_files (ds_budget st) + 1"
        by (fastforce split: sum.splits)
      show ?thesis
      proof (cases r)
        case (Inl e)
        then show ?thesis using Some False read(1) by simp
      next
        case (Inr xml)
        show ?thesis
        proof (cases "pf_parse fs xml")
          case (Inl e)
          then show ?thesis using Some False read(1) Inr by simp
        next
          case raw: (Inr raw)
          show ?thesis
          proof (cases "collect_results (map (normalize_module_selector selector) (rp_modules raw))")
            case (Inl e)
            then show ?thesis using Some False read(1) Inr raw by simp
          next
            case selectors: (Inr child_selectors)
            let ?m = "\<lparr> mm_selector = selector, mm_artifact_id = rp_artifact_id raw,
              mm_packaging = (case rp_packaging raw of Some p \<Rightarrow> p | None \<Rightarrow> lit ''jar''), mm_modules = child_selectors \<rparr>"
            let ?st = "\<lparr> ds_discovered = bt_insert selector ?m (ds_discovered st),
              ds_visited = insert d (ds_visited st), ds_budget = budget \<rparr>"
            have "described fs d ?m" using read(3) Inr raw selectors by (simp add: described_def collect_results_Inr)
            then have "discovery_ok fs root ?st"
              using False read(2,3) Inr by (intro discovery_ok_insert [OF Suc.prems]) simp_all
            from children [OF _ this] show ?thesis using Some False read(1) Inr raw selectors by simp
          qed
        qed
      qed
    qed
  qed simp
qed simp

text \<open>
  Claim C34: module_discovery_contained.  Discovery always ends without a panic, on module cycles and links
  included.  A discovered project has its modules in the order of distinct selectors, each read from a
  directory of its own whose canonical path lies inside the project root, with the artifact, packaging
  and child selectors of the POM there, and there are no more of them than files may be read.
\<close>

theorem module_discovery_contained:
  "\<exists>r. discover_project fs max_xml_bytes root wrapper = Some r \<and>
    (\<forall>project. r = Inr project \<longrightarrow>
       sorted_wrt (<) (map mm_selector (mp_modules project)) \<and> length (mp_modules project) \<le> MAX_XML_FILES \<and>
       (\<exists>dir. inj_on dir (mm_selector ` set (mp_modules project)) \<and>
          (\<forall>m\<in>set (mp_modules project). path_starts_with (dir (mm_selector m)) root \<and> described fs (dir (mm_selector m)) m)))"
proof -
  have "discovery_ok fs root \<lparr> ds_discovered = [], ds_visited = {}, ds_budget = new_budget \<rparr>"
    by (simp add: discovery_ok_def new_budget_def budget_ok_def)
  from discover_module_ok [OF this, of "MAX_XML_DEPTH + 1" max_xml_bytes root "lit ''.''"] obtain r where
    r: "discover_module (MAX_XML_DEPTH + 1) fs max_xml_bytes root root (lit ''.'')
        \<lparr> ds_discovered = [], ds_visited = {}, ds_budget = new_budget \<rparr> = Some r"
      "\<And>st. r = Inr st \<Longrightarrow> discovery_ok fs root st" by blast
  show ?thesis
  proof (cases r)
    case (Inl e)
    then show ?thesis unfolding discover_project_def r(1) by simp
  next
    case (Inr st)
    from r(2) [OF Inr] have ok: "discovery_ok fs root st" .
    let ?modules = "map snd (filter (\<lambda>(selector, _). selector \<noteq> lit ''.'') (ds_discovered st))"
    from ok obtain dir where sorted: "sorted_wrt (<) (map fst (ds_discovered st))"
      and inj: "inj_on dir (fst ` set (ds_discovered st))"
      and dir: "\<And>s m. (s, m) \<in> set (ds_discovered st) \<Longrightarrow> mm_selector m = s \<and> dir s \<in> ds_visited st \<and> described fs (dir s) m"
      unfolding discovery_ok_def by blast
    have below: "path_starts_with d root" if "d \<in> ds_visited st" for d using ok that by (simp add: discovery_ok_def)
    have selectors: "map mm_selector ?modules = map fst (filter (\<lambda>(selector, _). selector \<noteq> lit ''.'') (ds_discovered st))"
      using dir by (auto simp del: lit.simps)
    have "sorted_wrt (<) (map mm_selector ?modules)"
      unfolding selectors using sorted by (simp add: sorted_wrt_map sorted_wrt_filter del: lit.simps)
    moreover have "length ?modules \<le> MAX_XML_FILES"
    proof -
      have "length ?modules \<le> length (ds_discovered st)" by (simp del: lit.simps)
      also have "\<dots> = card (fst ` set (ds_discovered st))"
        using sorted distinct_card [of "map fst (ds_discovered st)"] by (simp add: strict_sorted_iff)
      also have "\<dots> = card (dir ` fst ` set (ds_discovered st))" using inj by (simp add: card_image)
      also have "\<dots> \<le> card (ds_visited st)" using ok dir by (intro card_mono) (force simp: discovery_ok_def)+
      also have "\<dots> \<le> MAX_XML_FILES" using ok by (simp add: discovery_ok_def budget_ok_def)
      finally show ?thesis .
    qed
    moreover have sub: "mm_selector ` set ?modules \<subseteq> fst ` set (ds_discovered st)" using dir by force
    then have "inj_on dir (mm_selector ` set ?modules)" using inj inj_on_subset by blast
    moreover have "path_starts_with (dir (mm_selector m)) root \<and> described fs (dir (mm_selector m)) m" if "m \<in> set ?modules" for m
      using that dir below by (fastforce simp del: lit.simps)
    ultimately have contained: "sorted_wrt (<) (map mm_selector ?modules) \<and> length ?modules \<le> MAX_XML_FILES \<and>
        (\<exists>dir. inj_on dir (mm_selector ` set ?modules) \<and>
          (\<forall>m\<in>set ?modules. path_starts_with (dir (mm_selector m)) root \<and> described fs (dir (mm_selector m)) m))"
      by blast
    show ?thesis
    proof (cases "map_of (ds_discovered st) (lit ''.'')")
      case None
      then show ?thesis unfolding discover_project_def r(1) Inr by simp
    next
      case (Some root_module)
      then show ?thesis unfolding discover_project_def r(1) Inr using contained by (simp del: lit.simps set_filter set_map length_map)
    qed
  qed
qed

text \<open>
  The selector itself is not contained: a backslash is a character of a directory name when the
  components are checked and a separator of the selector afterwards.
\<close>

lemma selector_escapes: "normalize_module_selector (lit ''.'') (lit ''..'' @ [92] @ lit ''x'') = Inr (lit ''../x'')"
  by (simp add: normalize_module_selector_def is_absolute_def starts_with_def replace_ch_def)

definition demo_poms :: pom_files where
  "demo_poms = \<lparr> pf_canonicalize = Some, pf_child = (\<lambda>d m. if m = lit ''a'' then Some (d @ [m]) else None),
     pf_content = (\<lambda>p. Inr (Utf8 (if length p = 2 then lit ''root'' else lit ''leaf''))), pf_reader = (\<lambda>_. []),
     pf_parse = (\<lambda>xml. Inr (if xml = lit ''root'' then \<lparr> rp_artifact_id = lit ''app'', rp_packaging = Some (lit ''pom''), rp_modules = [lit ''a''] \<rparr>
                           else \<lparr> rp_artifact_id = lit ''core'', rp_packaging = None, rp_modules = [] \<rparr>)) \<rparr>"

theorem module_discovery_contained_witness:
  "\<exists>project. discover_project demo_poms 100 [lit ''p''] False = Some (Inr project) \<and>
    map mm_artifact_id (mp_modules project) = [lit ''core''] \<and> length (mp_modules project) \<le> MAX_XML_FILES"
proof -
  have "map_option (map_sum (\<lambda>_. ()) (\<lambda>p. map mm_artifact_id (mp_modules p))) (discover_project demo_poms 100 [lit ''p''] False) =
      Some (Inr [lit ''core''])"
    by code_simp
  then obtain project where p: "discover_project demo_poms 100 [lit ''p''] False = Some (Inr project)"
    "map mm_artifact_id (mp_modules project) = [lit ''core'']"
    by (cases "discover_project demo_poms 100 [lit ''p''] False"; cases "the (discover_project demo_poms 100 [lit ''p''] False)")
      (auto simp del: lit.simps)
  with module_discovery_contained [of demo_poms 100 "[lit ''p'']" False] show ?thesis by auto
qed

end
