(* ===== verification/Maven_Environment.thy ===== *)
theory Maven_Environment
  imports Wildcard Text_Laws
begin

text \<open>
  The inherited environment in the identity of a classpath
  (\<open>src/src/index_cache/maven_environment.rs\<close>): the variables that Maven, its launcher and the scanned
  configuration files can read, and the digest of their names and values.  File contents and
  \<open>OsString\<close>s are lists of bytes.
\<close>

unbundle bit_operations_syntax

section \<open>UTF-8\<close>

text \<open>\<open>str::from_utf8\<close>: shortest forms of scalar values only.\<close>

definition is_continuation :: "nat \<Rightarrow> bool" where
  "is_continuation b \<longleftrightarrow> 128 \<le> b \<and> b < 192"

definition is_scalar :: "ch \<Rightarrow> bool" where
  "is_scalar c \<longleftrightarrow> c < 55296 \<or> (57344 \<le> c \<and> c < 1114112)"

fun from_utf8 :: "nat list \<Rightarrow> str option" where
  "from_utf8 [] = Some []"
| "from_utf8 (b # r) =
     (if b < 128 then map_option ((#) b) (from_utf8 r)
      else if 192 \<le> b \<and> b < 224 then
        (case r of
           b1 # r' \<Rightarrow>
             let c = (b - 192) * 64 + (b1 - 128)
             in if is_continuation b1 \<and> 128 \<le> c then map_option ((#) c) (from_utf8 r') else None
         | _ \<Rightarrow> None)
      else if 224 \<le> b \<and> b < 240 then
        (case r of
           b1 # b2 # r' \<Rightarrow>
             let c = (b - 224) * 4096 + (b1 - 128) * 64 + (b2 - 128)
             in if is_continuation b1 \<and> is_continuation b2 \<and> 2048 \<le> c \<and> is_scalar c
                then map_option ((#) c) (from_utf8 r') else None
         | _ \<Rightarrow> None)
      else if 240 \<le> b \<and> b < 248 then
        (case r of
           b1 # b2 # b3 # r' \<Rightarrow>
             let c = (b - 240) * 262144 + (b1 - 128) * 4096 + (b2 - 128) * 64 + (b3 - 128)
             in if is_continuation b1 \<and> is_continuation b2 \<and> is_continuation b3 \<and> 65536 \<le> c \<and> is_scalar c
                then map_option ((#) c) (from_utf8 r') else None
         | _ \<Rightarrow> None)
      else None)"

lemma is_continuation_mod [simp]: "is_continuation (128 + c mod 64)"
  by (simp add: is_continuation_def)

lemma from_utf8_three:
  assumes "a < 16" "x < 64" "y < 64" "c = a * 4096 + x * 64 + y" "2048 \<le> c" "is_scalar c"
  shows "from_utf8 ((224 + a) # (128 + x) # (128 + y) # r) = map_option ((#) c) (from_utf8 r)"
  using assms by (simp add: is_continuation_def Let_def)

lemma from_utf8_four:
  assumes "a < 8" "x < 64" "y < 64" "z < 64" "c = a * 262144 + x * 4096 + y * 64 + z" "65536 \<le> c" "is_scalar c"
  shows "from_utf8 ((240 + a) # (128 + x) # (128 + y) # (128 + z) # r) = map_option ((#) c) (from_utf8 r)"
  using assms by (simp add: is_continuation_def Let_def)

lemma sextets:
  fixes c :: nat
  shows "c = c div 4096 * 4096 + c div 64 mod 64 * 64 + c mod 64"
    and "c = c div 262144 * 262144 + c div 4096 mod 64 * 4096 + c div 64 mod 64 * 64 + c mod 64"
proof -
  have "c div 64 div 64 = c div 4096" "c div 4096 div 64 = c div 262144" by (simp_all add: div_mult2_eq [symmetric])
  then have parts: "c div 64 = c div 4096 * 64 + c div 64 mod 64" "c div 4096 = c div 262144 * 64 + c div 4096 mod 64"
    by (metis div_mult_mod_eq)+
  have c: "c = c div 64 * 64 + c mod 64" by simp
  show "c = c div 4096 * 4096 + c div 64 mod 64 * 64 + c mod 64" using parts(1) c by linarith
  show "c = c div 262144 * 262144 + c div 4096 mod 64 * 4096 + c div 64 mod 64 * 64 + c mod 64"
    using parts c by linarith
qed

lemma from_utf8_char:
  assumes "is_scalar c"
  shows "from_utf8 (utf8_char c @ bytes) = map_option ((#) c) (from_utf8 bytes)"
proof -
  consider "c < 128" | "128 \<le> c" "c < 2048" | "2048 \<le> c" "c < 65536" | "65536 \<le> c" by linarith
  then show ?thesis
  proof cases
    case 1
    then show ?thesis by (simp add: utf8_char_def)
  next
    case 2
    then have "c div 64 < 32" "c div 64 * 64 + c mod 64 = c" by simp_all
    then show ?thesis using 2 by (auto simp: utf8_char_def)
  next
    case 3
    then have "c div 4096 < 16" by simp
    then have "from_utf8 ((224 + c div 4096) # (128 + c div 64 mod 64) # (128 + c mod 64) # bytes) =
        map_option ((#) c) (from_utf8 bytes)"
      using 3 assms sextets(1) by (intro from_utf8_three) simp_all
    then show ?thesis using 3 by (simp add: utf8_char_def del: from_utf8.simps)
  next
    case 4
    then have "c div 262144 < 8" using assms by (simp add: is_scalar_def)
    then have "from_utf8 ((240 + c div 262144) # (128 + c div 4096 mod 64) # (128 + c div 64 mod 64) # (128 + c mod 64) # bytes) =
        map_option ((#) c) (from_utf8 bytes)"
      using 4 assms sextets(2) by (intro from_utf8_four) simp_all
    then show ?thesis using 4 by (simp add: utf8_char_def del: from_utf8.simps)
  qed
qed

lemma from_utf8_as_bytes: "list_all is_scalar s \<Longrightarrow> from_utf8 (as_bytes s) = Some s"
  by (induction s) (simp_all add: as_bytes_def from_utf8_char)

section \<open>Property references\<close>

definition ENV_PROPERTY_PREFIX :: "nat list" where "ENV_PROPERTY_PREFIX = lit ''env.''"

definition MAX_XML_REFERENCE_BYTES :: nat where "MAX_XML_REFERENCE_BYTES = 32"

definition is_property_byte :: "nat \<Rightarrow> bool" where
  "is_property_byte b \<longleftrightarrow> is_ascii_alphanumeric b \<or> b = 95 \<or> b = 46 \<or> b = 45"

text \<open>Property bytes are ASCII, so the decoding of the name cannot fail.\<close>

definition env_property_name :: "nat list \<Rightarrow> str option" where
  "env_property_name text =
     (let name = rev (dropWhile (\<lambda>c. c = 46 \<or> c = 45) (rev (takeWhile is_property_byte text)))
      in if name = [] then None else Some name)"

definition literal_env_references :: "nat list \<Rightarrow> str set" where
  "literal_env_references text =
     set (List.map_filter (\<lambda>i.
         if starts_with ENV_PROPERTY_PREFIX (drop i text) \<and> (i = 0 \<or> \<not> is_property_byte (text ! (i - 1)))
         then env_property_name (drop (i + length ENV_PROPERTY_PREFIX) text) else None)
       [0..<length text + 1 - length ENV_PROPERTY_PREFIX])"

datatype XmlReference = Character ch | UnknownEntity | Literal

text \<open>\<open>u32::from_str_radix\<close> and \<open>parse\<close>: an optional plus sign and digits.\<close>

definition to_digit :: "nat \<Rightarrow> ch \<Rightarrow> nat option" where
  "to_digit radix c =
     (let d = (if is_ascii_digit c then c - 48 else if 97 \<le> c \<and> c \<le> 122 then c - 87
               else if 65 \<le> c \<and> c \<le> 90 then c - 55 else radix)
      in if d < radix then Some d else None)"

fun digits_value :: "nat \<Rightarrow> nat \<Rightarrow> str \<Rightarrow> nat option" where
  "digits_value radix acc [] = Some acc"
| "digits_value radix acc (c # s) =
     (case to_digit radix c of None \<Rightarrow> None | Some d \<Rightarrow> digits_value radix (radix * acc + d) s)"

definition radix_u32 :: "nat \<Rightarrow> str \<Rightarrow> nat option" where
  "radix_u32 radix s =
     (let digits = (case s of [] \<Rightarrow> [] | c # r \<Rightarrow> if c = 43 then r else s)
      in if digits = [] then None
         else case digits_value radix 0 digits of None \<Rightarrow> None
              | Some n \<Rightarrow> if n < 2 ^ 32 then Some n else None)"

definition is_entity_name :: "str \<Rightarrow> bool" where
  "is_entity_name name \<longleftrightarrow> name \<noteq> [] \<and> list_all (\<lambda>b. is_ascii_alphanumeric b \<or> b = 95 \<or> b = 45 \<or> b = 46 \<or> b = 58) name"

definition character_reference :: "nat option \<Rightarrow> XmlReference" where
  "character_reference code = (case code of Some c \<Rightarrow> if is_scalar c then Character c else Literal | None \<Rightarrow> Literal)"

definition xml_reference :: "nat list \<Rightarrow> XmlReference" where
  "xml_reference body =
     (case from_utf8 body of
        None \<Rightarrow> Literal
      | Some body \<Rightarrow>
          (case strip_prefix (lit ''#x'') body of
             Some hexadecimal \<Rightarrow> character_reference (radix_u32 16 hexadecimal)
           | None \<Rightarrow>
               (case strip_prefix (lit ''#'') body of
                  Some decimal \<Rightarrow> character_reference (radix_u32 10 decimal)
                | None \<Rightarrow>
                    if body = lit ''lt'' then Character 60
                    else if body = lit ''gt'' then Character 62
                    else if body = lit ''amp'' then Character 38
                    else if body = lit ''quot'' then Character 34
                    else if body = lit ''apos'' then Character 39
                    else if is_entity_name body then UnknownEntity else Literal)))"

text \<open>The semicolon is searched in the 32 bytes from the ampersand, which is not in the argument.\<close>

definition reference_end :: "nat list \<Rightarrow> nat option" where
  "reference_end tail =
     (let window = take (MAX_XML_REFERENCE_BYTES - 1) tail; n = length (takeWhile (\<lambda>b. b \<noteq> 59) window)
      in if n < length window then Some n else None)"

function decode_xml_references :: "nat list \<Rightarrow> nat list option" where
  "decode_xml_references [] = Some []"
| "decode_xml_references (b # tail) =
     (if b \<noteq> 38 then map_option ((#) b) (decode_xml_references tail)
      else case reference_end tail of
             None \<Rightarrow> map_option ((#) 38) (decode_xml_references tail)
           | Some n \<Rightarrow>
               (case xml_reference (take n tail) of
                  Character c \<Rightarrow> map_option ((@) (utf8_char c)) (decode_xml_references (drop (n + 1) tail))
                | UnknownEntity \<Rightarrow> None
                | Literal \<Rightarrow> map_option ((#) 38) (decode_xml_references tail)))"
  by pat_completeness auto

termination decode_xml_references by (relation "measure length") auto

definition env_references :: "nat list \<Rightarrow> str set option" where
  "env_references text =
     map_option (\<lambda>decoded. literal_env_references text \<union> literal_env_references decoded) (decode_xml_references text)"

section \<open>Shell references\<close>

definition shell_name :: "nat list \<Rightarrow> str option" where
  "shell_name text =
     (case text of
        [] \<Rightarrow> None
      | first # _ \<Rightarrow>
          if \<not> (is_ascii_alphabetic first \<or> first = 95) then None
          else Some (takeWhile (\<lambda>b. is_ascii_alphanumeric b \<or> b = 95) text))"

fun shell_references :: "nat list \<Rightarrow> str set" where
  "shell_references [] = {}"
| "shell_references (b # after) =
     (if b = 36 then set_option (shell_name (if after \<noteq> [] \<and> hd after = 123 then tl after else after)) else {}) \<union>
     shell_references after"

section \<open>Files that can reference a variable\<close>

definition MAX_SCANNED_FILE_BYTES :: nat where "MAX_SCANNED_FILE_BYTES = 16 * 2 ^ 20"

datatype scanned_file = Not_Found | Unreadable | Content "nat list"

record ReferenceFiles =
  rf_interpolated :: "path list"
  rf_shell :: "path list"

definition of_project :: "path \<Rightarrow> path list \<Rightarrow> path list \<Rightarrow> path option \<Rightarrow> ReferenceFiles" where
  "of_project root reactor_poms installation home =
     (let jvm_config = root @ [lit ''.mvn'', lit ''jvm.config''];
          directories = (case home of None \<Rightarrow> [] | Some h \<Rightarrow> [h @ [lit ''.m2'']]) @ filter (\<lambda>d. ends_with [lit ''conf''] d) installation
      in \<lparr> rf_interpolated = reactor_poms @ [root @ [lit ''.mvn'', lit ''maven.config''], jvm_config] @
             concat (map (\<lambda>d. [d @ [lit ''settings.xml''], d @ [lit ''toolchains.xml'']]) directories),
           rf_shell = [[lit ''etc'', lit ''mavenrc''], jvm_config] @
             (case home of None \<Rightarrow> [] | Some h \<Rightarrow> [h @ [lit ''.mavenrc'']]) \<rparr>)"

text \<open>At most one byte more than the limit is read.\<close>

definition scanned_content :: "(path \<Rightarrow> scanned_file) \<Rightarrow> path \<Rightarrow> nat list option" where
  "scanned_content files p =
     (case files p of
        Not_Found \<Rightarrow> Some []
      | Unreadable \<Rightarrow> None
      | Content bytes \<Rightarrow>
          let content = take (MAX_SCANNED_FILE_BYTES + 1) bytes
          in if length content \<le> MAX_SCANNED_FILE_BYTES then Some content else None)"

fun collect_names :: "('a \<Rightarrow> str set option) \<Rightarrow> 'a list \<Rightarrow> str set option" where
  "collect_names names_of [] = Some {}"
| "collect_names names_of (x # xs) =
     names_of x \<bind> (\<lambda>names. map_option ((\<union>) names) (collect_names names_of xs))"

definition referenced_names :: "(path \<Rightarrow> scanned_file) \<Rightarrow> ReferenceFiles \<Rightarrow> str set option" where
  "referenced_names files r =
     collect_names (\<lambda>p. scanned_content files p \<bind> env_references) (rf_interpolated r) \<bind> (\<lambda>names.
     map_option ((\<union>) names) (collect_names (\<lambda>p. map_option shell_references (scanned_content files p)) (rf_shell r)))"

section \<open>Which variables take part\<close>

definition SERVER_ONLY_ENVIRONMENT :: "str list" where
  "SERVER_ONLY_ENVIRONMENT = map lit
     [''MAX_RESULTS'', ''MAX_SOURCE_BYTES'', ''MAX_PROJECT_INDEXES'', ''MAX_PROJECT_INDEX_BYTES'', ''MAX_HEAVY_JOBS'',
      ''MAX_QUEUED_HEAVY_JOBS'', ''MAX_XML_BYTES'', ''MAX_JAR_ENTRIES'', ''MAX_INDEX_ENTRIES'', ''MAX_INDEX_NAME_BYTES'',
      ''MAX_INDEX_CACHE_BYTES'', ''MAX_MAVEN_OUTPUT_BYTES'', ''MAX_MCP_RESPONSE_BYTES'', ''MAX_MCP_RESULT_CACHE_BYTES'',
      ''MAVEN_TIMEOUT_SECONDS'', ''MAVEN_MCP_INDEX_CACHE'', ''MAVEN_MCP_CACHE_DIR'', ''MAVEN_MCP_RUNTIME_DIR'', ''RUST_LOG'']"

definition MAVEN_ENVIRONMENT_NAMES :: "str list" where
  "MAVEN_ENVIRONMENT_NAMES = map lit [''HOME'', ''JAVA_HOME'', ''JAVA_TOOL_OPTIONS'', ''JDK_JAVA_OPTIONS'', ''M2_HOME'', ''PATH'']"

definition MAVEN_ENVIRONMENT_PREFIXES :: "str list" where
  "MAVEN_ENVIRONMENT_PREFIXES = map lit [''MAVEN_'', ''MVNW_'', ''JENV_'']"

definition PROXY_SUFFIXES :: "str list" where
  "PROXY_SUFFIXES = map lit [''_PROXY'', ''_proxy'']"

definition takes_part :: "str \<Rightarrow> str set option \<Rightarrow> bool" where
  "takes_part name referenced \<longleftrightarrow>
     name \<notin> set SERVER_ONLY_ENVIRONMENT \<and>
     (case referenced of
        None \<Rightarrow> True
      | Some names \<Rightarrow>
          name \<in> set MAVEN_ENVIRONMENT_NAMES \<or> list_ex (\<lambda>prefix. starts_with prefix name) MAVEN_ENVIRONMENT_PREFIXES \<or>
          list_ex (\<lambda>suffix. ends_with suffix name) PROXY_SUFFIXES \<or> name \<in> names)"

section \<open>The digest\<close>

definition FNV_OFFSET :: "64 word" where "FNV_OFFSET = 0xcbf29ce484222325"
definition FNV_PRIME :: "64 word" where "FNV_PRIME = 0x100000001b3"

definition fnv_byte :: "nat \<Rightarrow> 64 word \<Rightarrow> 64 word" where
  "fnv_byte byte hash = (hash XOR word_of_nat byte) * FNV_PRIME"

definition fnv1a :: "64 word \<Rightarrow> nat list \<Rightarrow> 64 word" where
  "fnv1a hash bytes = fold fnv_byte (bytes @ [255]) hash"

type_synonym variables = "(nat list \<times> nat list) list"

definition collect_variables :: "variables \<Rightarrow> variables" where
  "collect_variables vs = fold (\<lambda>(name, v). bt_insert name v) vs []"

definition selection_digest :: "variables \<Rightarrow> 64 word" where
  "selection_digest selected =
     (let names = fold (\<lambda>(name, v) hash. fnv1a hash name) selected FNV_OFFSET
      in fold (\<lambda>(name, v) hash. fnv1a (fnv1a hash name) v) selected (fnv1a names []))"

definition digest_selects :: "str set option \<Rightarrow> nat list \<Rightarrow> bool" where
  "digest_selects referenced name =
     (case from_utf8 name of Some n \<Rightarrow> takes_part n referenced | None \<Rightarrow> referenced = None)"

definition environment_digest :: "variables \<Rightarrow> str set option \<Rightarrow> 64 word" where
  "environment_digest variables referenced =
     selection_digest (collect_variables (filter (\<lambda>(name, _). digest_selects referenced name) variables))"

definition reference_selects :: "str set \<Rightarrow> nat list \<Rightarrow> bool" where
  "reference_selects referenced name =
     (case from_utf8 name of Some n \<Rightarrow> n \<in> referenced \<and> n \<notin> set SERVER_ONLY_ENVIRONMENT | None \<Rightarrow> False)"

definition referenced_digest :: "variables \<Rightarrow> str set \<Rightarrow> 64 word" where
  "referenced_digest variables referenced =
     selection_digest (collect_variables (filter (\<lambda>(name, _). reference_selects referenced name) variables))"

section \<open>References are found however they are escaped\<close>

text \<open>A text refers to a variable when \<open>env.\<close> and its name stand in it as one property.\<close>

definition dots :: "nat list \<Rightarrow> bool" where
  "dots s \<longleftrightarrow> list_all (\<lambda>c. c = 46 \<or> c = 45) s"

definition refers_to :: "nat list \<Rightarrow> str \<Rightarrow> bool" where
  "refers_to text name \<longleftrightarrow> (\<exists>x d y. text = x @ ENV_PROPERTY_PREFIX @ name @ d @ y \<and>
     (x = [] \<or> \<not> is_property_byte (last x)) \<and> name \<noteq> [] \<and> list_all is_property_byte name \<and> last name \<noteq> 46 \<and> last name \<noteq> 45 \<and>
     dots d \<and> (y = [] \<or> \<not> is_property_byte (hd y)))"

lemma takeWhile_block: "list_all P w \<Longrightarrow> y = [] \<or> \<not> P (hd y) \<Longrightarrow> takeWhile P (w @ y) = w"
  by (induction w) (cases y; simp)+

lemma property_name_Some:
  "env_property_name text = Some name \<longleftrightarrow>
    (\<exists>d y. text = name @ d @ y \<and> name \<noteq> [] \<and> list_all is_property_byte name \<and> last name \<noteq> 46 \<and> last name \<noteq> 45 \<and>
       dots d \<and> (y = [] \<or> \<not> is_property_byte (hd y)))" (is "?l \<longleftrightarrow> ?r")
proof
  let ?w = "takeWhile is_property_byte text"
  let ?P = "\<lambda>c. c = 46 \<or> c = (45::nat)"
  assume ?l
  then have name: "name = rev (dropWhile ?P (rev ?w))" "name \<noteq> []"
    by (auto simp: env_property_name_def Let_def split: if_splits)
  let ?d = "rev (takeWhile ?P (rev ?w))"
  have "?w = name @ ?d" unfolding name(1) by (metis rev_append rev_rev_ident takeWhile_dropWhile_id)
  then have "text = name @ ?d @ dropWhile is_property_byte text" by (metis append.assoc takeWhile_dropWhile_id)
  moreover have "list_all is_property_byte name"
    using \<open>?w = name @ ?d\<close> by (auto simp: list_all_iff dest: set_takeWhileD) (metis UnCI set_append set_takeWhileD)
  moreover have "\<not> ?P (last name)"
    using name hd_dropWhile [of ?P "rev ?w"] by (simp add: last_rev)
  moreover have "dots ?d" by (auto simp: dots_def list_all_iff dest: set_takeWhileD)
  moreover have "dropWhile is_property_byte text = [] \<or> \<not> is_property_byte (hd (dropWhile is_property_byte text))"
    using hd_dropWhile by blast
  ultimately show ?r using name(2) by blast
next
  let ?P = "\<lambda>c. c = 46 \<or> c = (45::nat)"
  assume ?r
  then obtain d y where whole: "text = name @ d @ y" and name: "name \<noteq> []" "list_all is_property_byte name" "\<not> ?P (last name)"
    and d: "dots d" and y: "y = [] \<or> \<not> is_property_byte (hd y)" by blast
  have "list_all is_property_byte d" using d by (auto simp: dots_def list_all_iff is_property_byte_def)
  then have w: "takeWhile is_property_byte text = name @ d"
    using takeWhile_block [of is_property_byte "name @ d" y] name(2) y by (simp add: whole)
  have "dropWhile ?P (rev (name @ d)) = dropWhile ?P (rev name)"
    using d by (subst rev_append, subst dropWhile_append2) (auto simp: dots_def list_all_iff)
  also have "\<dots> = rev name" using name by (simp add: dropWhile_hd hd_rev)
  finally show ?l using name(1) by (simp add: env_property_name_def w Let_def)
qed

lemma literal_env_references_iff: "name \<in> literal_env_references text \<longleftrightarrow> refers_to text name"
proof
  assume "name \<in> literal_env_references text"
  then have "\<exists>i. starts_with ENV_PROPERTY_PREFIX (drop i text) \<and> (i = 0 \<or> \<not> is_property_byte (text ! (i - 1))) \<and>
      env_property_name (drop (i + length ENV_PROPERTY_PREFIX) text) = Some name \<and> i < length text + 1 - length ENV_PROPERTY_PREFIX"
    by (fastforce simp: literal_env_references_def map_filter_def split: if_splits)
  then obtain i where i: "starts_with ENV_PROPERTY_PREFIX (drop i text)" "i = 0 \<or> \<not> is_property_byte (text ! (i - 1))"
    "env_property_name (drop (i + length ENV_PROPERTY_PREFIX) text) = Some name" "i < length text + 1 - length ENV_PROPERTY_PREFIX"
    by blast
  then obtain r where r: "drop i text = ENV_PROPERTY_PREFIX @ r" by (auto simp: starts_with_iff)
  have "drop (i + length ENV_PROPERTY_PREFIX) text = r" using arg_cong [OF r, of "drop (length ENV_PROPERTY_PREFIX)"]
    by (simp add: add.commute)
  then obtain d y where name: "r = name @ d @ y" "name \<noteq> []" "list_all is_property_byte name" "last name \<noteq> 46" "last name \<noteq> 45"
    "dots d" "y = [] \<or> \<not> is_property_byte (hd y)" using i(3) unfolding property_name_Some by auto
  have "text = take i text @ ENV_PROPERTY_PREFIX @ name @ d @ y" using r name(1) by (metis append_take_drop_id)
  moreover have "take i text = [] \<or> \<not> is_property_byte (last (take i text))"
    using i(2,4) by (cases "i = 0") (auto simp: last_conv_nth min_def ENV_PROPERTY_PREFIX_def split: if_splits)
  ultimately show "refers_to text name" unfolding refers_to_def using name by blast
next
  assume "refers_to text name"
  then obtain x d y where whole: "text = x @ ENV_PROPERTY_PREFIX @ name @ d @ y" and x: "x = [] \<or> \<not> is_property_byte (last x)"
    and name: "name \<noteq> []" "list_all is_property_byte name" "last name \<noteq> 46" "last name \<noteq> 45" "dots d" "y = [] \<or> \<not> is_property_byte (hd y)"
    unfolding refers_to_def by blast
  have "env_property_name (name @ d @ y) = Some name" unfolding property_name_Some using name by blast
  moreover have "x \<noteq> [] \<Longrightarrow> text ! (length x - 1) = last x" unfolding whole by (simp add: nth_append last_conv_nth)
  moreover have "length x < length text + 1 - length ENV_PROPERTY_PREFIX" unfolding whole by simp
  ultimately show "name \<in> literal_env_references text" using x name(1)
    unfolding literal_env_references_def map_filter_def
    by (auto simp: whole intro!: image_eqI [where x = "length x"])
qed

text \<open>Pieces of XML text: a byte as it is, or a character written as a reference.\<close>

datatype xml_piece = Raw nat | Decimal_Reference ch | Hex_Reference ch | Predefined string ch

fun rendered :: "xml_piece \<Rightarrow> nat list" where
  "rendered (Raw b) = [b]"
| "rendered (Decimal_Reference c) = lit ''&#'' @ fmt_dec c @ [59]"
| "rendered (Hex_Reference c) = lit ''&#x'' @ fmt_hex c @ [59]"
| "rendered (Predefined name c) = [38] @ lit name @ [59]"

fun piece_meaning :: "xml_piece \<Rightarrow> nat list" where
  "piece_meaning (Raw b) = [b]"
| "piece_meaning (Decimal_Reference c) = utf8_char c"
| "piece_meaning (Hex_Reference c) = utf8_char c"
| "piece_meaning (Predefined name c) = utf8_char c"

fun piece_ok :: "xml_piece \<Rightarrow> bool" where
  "piece_ok (Raw b) \<longleftrightarrow> b \<noteq> 38"
| "piece_ok (Decimal_Reference c) \<longleftrightarrow> is_scalar c"
| "piece_ok (Hex_Reference c) \<longleftrightarrow> is_scalar c"
| "piece_ok (Predefined name c) \<longleftrightarrow>
     (name, c) \<in> {(''lt'', 60), (''gt'', 62), (''amp'', 38), (''quot'', 34), (''apos'', 39)}"

definition xml_text :: "xml_piece list \<Rightarrow> nat list" where
  "xml_text pieces = concat (map rendered pieces)"

definition text_meaning :: "xml_piece list \<Rightarrow> nat list" where
  "text_meaning pieces = concat (map piece_meaning pieces)"

lemma from_utf8_ascii: "list_all (\<lambda>c. c < 128) s \<Longrightarrow> from_utf8 s = Some s"
  by (induction s) auto

lemma reference_end_at:
  assumes "59 \<notin> set body" "length body < 31"
  shows "reference_end (body @ 59 # rest) = Some (length body)"
proof -
  have "take 31 (body @ 59 # rest) = body @ 59 # take (30 - length body) rest"
    using assms(2) by (simp add: take_Cons' )
  moreover have "takeWhile (\<lambda>b. b \<noteq> 59) (body @ 59 # s) = body" for s
    using assms(1) by (metis (mono_tags) takeWhile_tail append_Nil2 takeWhile_eq_all_conv takeWhile_append2)
  ultimately show ?thesis by (simp add: reference_end_def MAX_XML_REFERENCE_BYTES_def Let_def)
qed

lemma digits_value_snoc:
  "digits_value radix acc (s @ [c]) =
     (case digits_value radix acc s of None \<Rightarrow> None | Some n \<Rightarrow> map_option (\<lambda>d. radix * n + d) (to_digit radix c))"
  by (induction s arbitrary: acc) (auto split: option.splits)

lemma to_digit_digit_ch: "d < radix \<Longrightarrow> radix \<le> 16 \<Longrightarrow> to_digit radix (digit_ch d) = Some d"
  by (auto simp: to_digit_def digit_ch_def is_ascii_digit_def)

lemma digits_value_fmt: "2 \<le> radix \<Longrightarrow> radix \<le> 16 \<Longrightarrow> digits_value radix 0 (fmt_radix radix n) = Some n"
proof (induction n rule: less_induct)
  case (less n)
  show ?case
  proof (cases "n < radix")
    case True
    then show ?thesis using less.prems by (simp add: fmt_radix_small to_digit_digit_ch)
  next
    case False
    then have "n div radix < n" using less.prems by simp
    then show ?thesis using less False
      by (simp add: fmt_radix_big digits_value_snoc to_digit_digit_ch)
  qed
qed

lemma fmt_radix_alnum: "2 \<le> radix \<Longrightarrow> radix \<le> 16 \<Longrightarrow> c \<in> set (fmt_radix radix n) \<Longrightarrow> is_ascii_digit c \<or> (97 \<le> c \<and> c \<le> 102)"
proof (induction n rule: less_induct)
  case (less n)
  have digit: "is_ascii_digit (digit_ch d) \<or> (97 \<le> digit_ch d \<and> digit_ch d \<le> 102)" if "d < radix" for d
    using that less.prems by (auto simp: digit_ch_def is_ascii_digit_def)
  show ?case
  proof (cases "n < radix")
    case True
    then show ?thesis using less.prems digit by (simp add: fmt_radix_small)
  next
    case False
    then have "n div radix < n" "n mod radix < radix" using less.prems by simp_all
    moreover have "c \<in> set (fmt_radix radix (n div radix)) \<or> c = digit_ch (n mod radix)"
      using less.prems False by (simp add: fmt_radix_big disj_commute)
    ultimately show ?thesis using less.IH less.prems(1,2) digit by blast
  qed
qed

lemma parse_u32_fmt:
  assumes "2 \<le> radix" "radix \<le> 16" "n < 2 ^ 32"
  shows "radix_u32 radix (fmt_radix radix n) = Some n"
proof -
  obtain c r where c: "fmt_radix radix n = c # r" by (cases "fmt_radix radix n") auto
  then have "is_ascii_digit c \<or> (97 \<le> c \<and> c \<le> 102)" using fmt_radix_alnum [OF assms(1,2), of c n] by simp
  then have "c \<noteq> 43" by (auto simp: is_ascii_digit_def)
  then show ?thesis using digits_value_fmt [OF assms(1,2), of n] assms(3) by (simp add: radix_u32_def c)
qed

lemma decode_reference:
  assumes "59 \<notin> set body" "length body < 31" "xml_reference body = Character c"
  shows "decode_xml_references (38 # body @ 59 # rest) = map_option ((@) (utf8_char c)) (decode_xml_references rest)"
  using assms by (simp add: reference_end_at)

lemma scalar_digits:
  assumes "is_scalar c"
  shows "length (fmt_dec c) \<le> 7" "length (fmt_hex c) \<le> 6" "c < 2 ^ 32"
proof -
  have c: "c < 10 ^ Suc 6" "c < 16 ^ Suc 5" using assms by (auto simp: is_scalar_def)
  show "length (fmt_dec c) \<le> 7" using length_fmt_radix [OF _ c(1)] by simp
  show "length (fmt_hex c) \<le> 6" using length_fmt_radix [OF _ c(2)] by simp
  show "c < 2 ^ 32" using assms by (auto simp: is_scalar_def)
qed

lemma fmt_ascii: "2 \<le> radix \<Longrightarrow> radix \<le> 16 \<Longrightarrow> list_all (\<lambda>c. c < 128 \<and> c \<noteq> 59 \<and> c \<noteq> 120) (fmt_radix radix n)"
  using fmt_radix_alnum by (fastforce simp: list_all_iff is_ascii_digit_def)

lemma decimal_reference: "is_scalar c \<Longrightarrow> xml_reference (35 # fmt_dec c) = Character c"
  using fmt_ascii [of 10 c] scalar_digits(3) parse_u32_fmt [of 10 c] from_utf8_ascii [of "35 # fmt_dec c"]
  by (cases "fmt_dec c") (auto simp: xml_reference_def character_reference_def list_all_iff)

lemma hex_reference: "is_scalar c \<Longrightarrow> xml_reference (35 # 120 # fmt_hex c) = Character c"
  using fmt_ascii [of 16 c] scalar_digits(3) parse_u32_fmt [of 16 c] from_utf8_ascii [of "35 # 120 # fmt_hex c"]
  by (auto simp: xml_reference_def character_reference_def list_all_iff)

lemma decode_rendered:
  assumes "piece_ok piece"
  shows "decode_xml_references (rendered piece @ rest) = map_option ((@) (piece_meaning piece)) (decode_xml_references rest)"
proof (cases piece)
  case (Raw b)
  then show ?thesis using assms by (cases "decode_xml_references rest") auto
next
  case (Decimal_Reference c)
  then have c: "is_scalar c" using assms by simp
  have "59 \<notin> set (35 # fmt_dec c)" "length (35 # fmt_dec c) < 31"
    using fmt_ascii [of 10 c] scalar_digits(1) [OF c] by (auto simp: list_all_iff)
  from decode_reference [OF this decimal_reference [OF c]] show ?thesis by (simp add: Decimal_Reference)
next
  case (Hex_Reference c)
  then have c: "is_scalar c" using assms by simp
  have "59 \<notin> set (35 # 120 # fmt_hex c)" "length (35 # 120 # fmt_hex c) < 31"
    using fmt_ascii [of 16 c] scalar_digits(2) [OF c] by (auto simp: list_all_iff)
  from decode_reference [OF this hex_reference [OF c]] show ?thesis by (simp add: Hex_Reference)
next
  case (Predefined name c)
  then have "xml_reference (lit name) = Character c" "59 \<notin> set (lit name)" "length (lit name) < 31"
    using assms by (auto simp: xml_reference_def)
  from decode_reference [OF this(2,3,1), of rest] show ?thesis by (simp add: Predefined)
qed

lemma decode_xml_text: "list_all piece_ok pieces \<Longrightarrow> decode_xml_references (xml_text pieces) = Some (text_meaning pieces)"
  by (induction pieces) (simp_all add: xml_text_def text_meaning_def decode_rendered del: rendered.simps)

text \<open>
  Claim C37: env_references_complete.  In an XML text in which any characters are written as decimal, hexadecimal or
  predefined references, exactly the variables are found to which the text refers as it stands or as an XML
  parser reads it.
\<close>

theorem env_references_complete:
  assumes "list_all piece_ok pieces"
  shows "\<exists>names. env_references (xml_text pieces) = Some names \<and>
    (\<forall>name. name \<in> names \<longleftrightarrow> refers_to (xml_text pieces) name \<or> refers_to (text_meaning pieces) name)"
  using decode_xml_text [OF assms] by (simp add: env_references_def literal_env_references_iff)

text \<open>The references of \<open>${env.A&#95;B}\<close>.\<close>

definition demo_pieces :: "xml_piece list" where
  "demo_pieces = map Raw (lit ''${env.A'') @ [Decimal_Reference 95] @ map Raw (lit ''B}'')"

theorem env_references_complete_witness:
  "\<exists>names. env_references (xml_text demo_pieces) = Some names \<and> lit ''A_B'' \<in> names"
proof -
  have "list_all piece_ok demo_pieces" by (simp add: demo_pieces_def is_scalar_def)
  moreover have "text_meaning demo_pieces = lit ''${'' @ ENV_PROPERTY_PREFIX @ lit ''A_B'' @ [] @ lit ''}''"
    by (simp add: demo_pieces_def text_meaning_def ENV_PROPERTY_PREFIX_def utf8_char_def)
  then have "refers_to (text_meaning demo_pieces) (lit ''A_B'')"
    unfolding refers_to_def
    by (intro exI [of _ "lit ''${''"] exI [of _ "[]"] exI [of _ "lit ''}''"])
      (simp add: is_property_byte_def is_ascii_alphanumeric_def is_ascii_digit_def is_ascii_alphabetic_def dots_def)
  ultimately show ?thesis using env_references_complete [of demo_pieces] by blast
qed

section \<open>The digest reads exactly the selected variables\<close>

text \<open>What the digest reads: the selected names, a separator, then every name and its value, each closed by a
  byte that UTF-8 does not have.\<close>

definition segments :: "variables \<Rightarrow> nat list list" where
  "segments vs = map fst vs @ [[]] @ concat (map (\<lambda>(name, v). [name, v]) vs)"

definition framed :: "nat list list \<Rightarrow> nat list" where
  "framed parts = concat (map (\<lambda>s. s @ [255]) parts)"

lemma framed_simps [simp]: "framed [] = []" "framed (s # parts) = s @ 255 # framed parts"
  "framed (parts @ parts') = framed parts @ framed parts'"
  by (simp_all add: framed_def)

lemma framed_inj:
  "255 \<notin> \<Union> (set ` set xs) \<Longrightarrow> 255 \<notin> \<Union> (set ` set ys) \<Longrightarrow> framed xs = framed ys \<Longrightarrow> xs = ys"
proof (induction xs arbitrary: ys)
  case Nil
  then show ?case by (cases ys) auto
next
  case (Cons x xs)
  then obtain y zs where ys: "ys = y # zs" by (cases ys) auto
  have "x @ 255 # framed xs = y @ 255 # framed zs" using Cons.prems(3) by (simp add: ys)
  then have "x = y" "framed xs = framed zs"
    using Cons.prems(1,2) by (simp_all add: ys closed_inj)
  then show ?case using Cons by (simp add: ys)
qed

lemma pairs_inj: "concat (map (\<lambda>(k, v). [k, v]) xs) = concat (map (\<lambda>(k, v). [k, v]) ys) \<Longrightarrow> xs = ys"
proof (induction xs arbitrary: ys)
  case Nil
  then show ?case by (cases ys) auto
next
  case (Cons x xs)
  then show ?case by (cases ys) (auto split: prod.splits)
qed

lemma length_pairs: "length (concat (map (\<lambda>(k, v). [k, v]) xs)) = 2 * length xs"
  by (induction xs) auto

lemma segments_inj:
  assumes "segments xs = segments ys" shows "xs = ys"
proof -
  have "length (segments xs) = length (segments ys)" using assms by simp
  then have "length xs = length ys" by (simp add: segments_def length_pairs)
  then have "concat (map (\<lambda>(k, v). [k, v]) xs) = concat (map (\<lambda>(k, v). [k, v]) ys)"
    using assms by (simp add: segments_def)
  then show ?thesis by (rule pairs_inj)
qed

lemma set_segments: "\<Union> (set ` set (segments vs)) = (\<Union>(name, v)\<in>set vs. set name \<union> set v)"
  by (force simp: segments_def split: prod.splits)

lemma fold_fnv1a: "fold (\<lambda>(name, v) hash. fnv1a hash name) vs hash = fold fnv_byte (framed (map fst vs)) hash"
  by (induction vs arbitrary: hash) (auto simp: fnv1a_def)

lemma fold_fnv1a_pairs:
  "fold (\<lambda>(name, v) hash. fnv1a (fnv1a hash name) v) vs hash =
   fold fnv_byte (framed (concat (map (\<lambda>(name, v). [name, v]) vs))) hash"
  by (induction vs arbitrary: hash) (auto simp: fnv1a_def)

lemma selection_digest_framed: "selection_digest vs = fold fnv_byte (framed (segments vs)) FNV_OFFSET"
  unfolding selection_digest_def Let_def fold_fnv1a fold_fnv1a_pairs
  by (simp add: segments_def fnv1a_def)

lemma collect_variables_spec:
  "sorted_wrt (<) (map fst m) \<Longrightarrow>
     sorted_wrt (<) (map fst (fold (\<lambda>(name, v). bt_insert name v) vs m)) \<and>
     map_of (fold (\<lambda>(name, v). bt_insert name v) vs m) = map_of m ++ map_of (rev vs)"
proof (induction vs arbitrary: m)
  case (Cons x vs)
  obtain k v where x: "x = (k, v)" by (cases x)
  show ?case using Cons.IH [OF sorted_bt_insert [OF Cons.prems]] by (simp add: x fun_upd_def map_add_def fun_eq_iff split: option.split)
qed simp

lemma sorted_keys_unique:
  assumes "sorted_wrt (<) (map fst m)" "sorted_wrt (<) (map fst m')" "map_of m = map_of (m' :: ('k::linorder \<times> 'v) list)"
  shows "m = m'"
proof -
  have distinct: "distinct (map fst m)" "distinct (map fst m')" and sorted: "sorted (map fst m)" "sorted (map fst m')"
    using assms by (simp_all add: strict_sorted_iff)
  have "set m = set m'" using map_of_inject_set [OF distinct] assms(3) by blast
  moreover have "inj_on fst (set m)" using distinct(1) by (simp add: distinct_map)
  ultimately show ?thesis using map_sorted_distinct_set_unique [of fst m m'] distinct sorted by simp
qed

definition selected_variables :: "variables \<Rightarrow> str set option \<Rightarrow> variables" where
  "selected_variables variables referenced =
     collect_variables (filter (\<lambda>(name, _). digest_selects referenced name) variables)"

lemma map_of_filter_keys: "map_of (filter (\<lambda>(k, _). P k) xs) k = (if P k then map_of xs k else None)"
  by (induction xs) auto

lemma selected_variables_spec:
  assumes "distinct (map fst vs)"
  shows "sorted_wrt (<) (map fst (selected_variables vs referenced))"
    and "map_of (selected_variables vs referenced) name = (if digest_selects referenced name then map_of vs name else None)"
proof -
  let ?vs = "filter (\<lambda>(name, _). digest_selects referenced name) vs"
  have spec: "sorted_wrt (<) (map fst (collect_variables ?vs))" "map_of (collect_variables ?vs) = map_of (rev ?vs)"
    using collect_variables_spec [of "[]" ?vs] by (simp_all add: collect_variables_def)
  show "sorted_wrt (<) (map fst (selected_variables vs referenced))" using spec by (simp add: selected_variables_def)
  have "distinct (map fst ?vs)" using assms by (simp add: distinct_map_filter)
  then have "map_of (rev ?vs) = map_of ?vs" by (subst map_of_inject_set) (simp_all add: rev_map [symmetric])
  then show "map_of (selected_variables vs referenced) name = (if digest_selects referenced name then map_of vs name else None)"
    using spec by (simp add: selected_variables_def map_of_filter_keys)
qed

text \<open>
  The digest ends every name and every value with the byte 0xFF, so it takes streams apart only where no
  variable that takes part has that byte; no UTF-8 text has it, other system strings may.
\<close>

definition separable :: "variables \<Rightarrow> str set option \<Rightarrow> bool" where
  "separable vs referenced \<longleftrightarrow> (\<forall>(name, v)\<in>set vs. digest_selects referenced name \<longrightarrow> 255 \<notin> set name \<and> 255 \<notin> set v)"

lemma selected_separable:
  assumes "distinct (map fst vs)" "separable vs referenced"
  shows "255 \<notin> \<Union> (set ` set (segments (selected_variables vs referenced)))"
proof -
  have "255 \<notin> set name \<and> 255 \<notin> set v" if "(name, v) \<in> set (selected_variables vs referenced)" for name v
  proof -
    have "map_of (selected_variables vs referenced) name = Some v"
      using that selected_variables_spec(1) [OF assms(1)] by (auto simp: strict_sorted_iff intro: map_of_is_SomeI)
    then have "(name, v) \<in> set vs" "digest_selects referenced name" using selected_variables_spec(2) [OF assms(1)]
      by (auto split: if_splits dest: map_of_SomeD)
    then show ?thesis using assms(2) by (auto simp: separable_def)
  qed
  then show ?thesis unfolding set_segments by auto
qed

text \<open>What the digest of an environment hashes.\<close>

definition digest_stream :: "variables \<Rightarrow> str set option \<Rightarrow> nat list" where
  "digest_stream variables referenced = framed (segments (selected_variables variables referenced))"

text \<open>
  Claim C38: environment_digest_faithful.  The digest of an environment, whose variables have distinct names, is the
  FNV-1a hash of a byte stream.  Environments that agree on every variable that takes part always have the
  same stream, in whatever order they list their variables, so a variable of the session alone never changes
  the identity of a classpath.  Conversely, where no variable that takes part contains the byte 0xFF,
  environments with the same stream agree on every variable that takes part, so any change of one changes
  what is hashed.  (With that byte a change can be lost: \<open>separator_byte_collides\<close>.)
\<close>

theorem environment_digest_faithful:
  assumes "distinct (map fst vs)" "distinct (map fst ws)"
  shows "environment_digest vs referenced = fold fnv_byte (digest_stream vs referenced) FNV_OFFSET \<and>
    ((\<forall>name. digest_selects referenced name \<longrightarrow> map_of vs name = map_of ws name) \<longrightarrow>
     digest_stream vs referenced = digest_stream ws referenced) \<and>
    (separable vs referenced \<and> separable ws referenced \<and> digest_stream vs referenced = digest_stream ws referenced \<longrightarrow>
     (\<forall>name. digest_selects referenced name \<longrightarrow> map_of vs name = map_of ws name))"
proof -
  let ?V = "selected_variables vs referenced" and ?W = "selected_variables ws referenced"
  have "?V = ?W \<longleftrightarrow> map_of ?V = map_of ?W"
    using sorted_keys_unique [OF selected_variables_spec(1) [OF assms(1)] selected_variables_spec(1) [OF assms(2)]] by auto
  also have "\<dots> \<longleftrightarrow> (\<forall>name. digest_selects referenced name \<longrightarrow> map_of vs name = map_of ws name)"
    by (auto simp: fun_eq_iff selected_variables_spec(2) assms)
  finally have agree: "?V = ?W \<longleftrightarrow> (\<forall>name. digest_selects referenced name \<longrightarrow> map_of vs name = map_of ws name)" .
  have "?V = ?W" if "separable vs referenced" "separable ws referenced" "framed (segments ?V) = framed (segments ?W)"
    using framed_inj [OF selected_separable [OF assms(1) that(1)] selected_separable [OF assms(2) that(2)]]
      segments_inj [of ?V ?W] that(3) by auto
  then show ?thesis unfolding agree [symmetric]
    unfolding environment_digest_def digest_stream_def selected_variables_def [symmetric] selection_digest_framed by auto
qed

text \<open>Two environments with different values of \<open>A\<close> and \<open>B\<close> and the same digest.\<close>

lemma separator_byte_collides:
  "environment_digest [(lit ''A'', lit ''x'' @ [255] @ lit ''B'' @ [255] @ lit ''y''), (lit ''B'', lit ''z'')] None =
   environment_digest [(lit ''A'', lit ''x''), (lit ''B'', lit ''y'' @ [255] @ lit ''B'' @ [255] @ lit ''z'')] None"
proof -
  have "digest_selects None (lit ''A'')" "digest_selects None (lit ''B'')"
    by (simp_all add: digest_selects_def takes_part_def SERVER_ONLY_ENVIRONMENT_def)
  then show ?thesis by (simp add: environment_digest_def collect_variables_def selection_digest_def fnv1a_def)
qed

lemma session_variable_ignored:
  "\<not> digest_selects (Some {lit ''A_B''}) (lit ''CLAUDE_CODE_SESSION_ID'')" "digest_selects (Some {lit ''A_B''}) (lit ''A_B'')"
  "digest_selects (Some {}) (lit ''https_proxy'')" "\<not> digest_selects None (lit ''RUST_LOG'')"
  by (simp_all add: digest_selects_def takes_part_def SERVER_ONLY_ENVIRONMENT_def MAVEN_ENVIRONMENT_NAMES_def
    MAVEN_ENVIRONMENT_PREFIXES_def PROXY_SUFFIXES_def starts_with_def ends_with_def strip_suffix_def)

theorem environment_digest_faithful_witness:
  "digest_stream [(lit ''PWD'', lit ''a''), (lit ''PATH'', lit ''b'')] (Some {}) = digest_stream [(lit ''PATH'', lit ''b'')] (Some {}) \<and>
   digest_stream [(lit ''PATH'', lit ''c'')] (Some {}) \<noteq> digest_stream [(lit ''PATH'', lit ''b'')] (Some {})"
proof -
  let ?names = "\<lambda>vs :: variables. distinct (map fst vs)"
  have path: "digest_selects (Some {}) (lit ''PATH'')"
    by (simp add: digest_selects_def takes_part_def SERVER_ONLY_ENVIRONMENT_def MAVEN_ENVIRONMENT_NAMES_def)
  have "\<not> digest_selects (Some {}) (lit ''PWD'')"
    by (simp add: digest_selects_def takes_part_def MAVEN_ENVIRONMENT_NAMES_def
      MAVEN_ENVIRONMENT_PREFIXES_def PROXY_SUFFIXES_def starts_with_def ends_with_def strip_suffix_def)
  then have "\<forall>name. digest_selects (Some {}) name \<longrightarrow>
      map_of [(lit ''PWD'', lit ''a''), (lit ''PATH'', lit ''b'')] name = map_of [(lit ''PATH'', lit ''b'')] name" by auto
  moreover have names: "?names [(lit ''PWD'', lit ''a''), (lit ''PATH'', lit ''b'')]" "?names [(lit ''PATH'', lit ''b'')]"
      "?names [(lit ''PATH'', lit ''c'')]"
    by simp_all
  ultimately have "digest_stream [(lit ''PWD'', lit ''a''), (lit ''PATH'', lit ''b'')] (Some {}) = digest_stream [(lit ''PATH'', lit ''b'')] (Some {})"
    using environment_digest_faithful [of "[(lit ''PWD'', lit ''a''), (lit ''PATH'', lit ''b'')]" "[(lit ''PATH'', lit ''b'')]" "Some {}"] by blast
  moreover have "separable [(lit ''PATH'', lit ''b'')] (Some {})" "separable [(lit ''PATH'', lit ''c'')] (Some {})"
    by (simp_all add: separable_def)
  then have "digest_stream [(lit ''PATH'', lit ''c'')] (Some {}) \<noteq> digest_stream [(lit ''PATH'', lit ''b'')] (Some {})"
    using environment_digest_faithful [OF names(3,2), of "Some {}"] path by auto
  ultimately show ?thesis by blast
qed

end
