(* ===== verification/Model_Inputs.thy ===== *)
theory Model_Inputs
  imports Config Maven_Environment
begin

text \<open>
  The parent and imported POMs of a Maven model (\<open>src/src/index_cache/model_inputs.rs\<close>): the walk over the
  POMs that take part in a classpath resolution.  The file system, the XML reader and the derived
  deserializer of \<open>ModelPom\<close> are parameters; a path is the list of its components.
\<close>

section \<open>POMs\<close>

definition MAX_FOLLOWED_VERSIONS :: nat where "MAX_FOLLOWED_VERSIONS = 256"

definition DEFAULT_RELATIVE_PATH :: str where "DEFAULT_RELATIVE_PATH = lit ''../pom.xml''"

record ParentReference =
  pr_group_id :: "str option"
  pr_artifact_id :: "str option"
  pr_version :: "str option"
  pr_relative_path :: "str option"

record ManagedDependency =
  md_group_id :: "str option"
  md_artifact_id :: "str option"
  md_version :: "str option"
  md_scope :: "str option"

text \<open>\<open>DependencyManagement\<close>, \<open>Profiles\<close> and their inner structs only wrap the lists.\<close>

record ModelPom =
  mo_group_id :: "str option"
  mo_artifact_id :: "str option"
  mo_parent :: "ParentReference option"
  mo_dependency_management :: "ManagedDependency list"
  mo_profiles :: "ManagedDependency list list"

definition imports_of :: "ModelPom \<Rightarrow> ManagedDependency list" where
  "imports_of model =
     filter (\<lambda>d. map_option trim (md_scope d) = Some (lit ''import''))
       (concat (mo_dependency_management model # mo_profiles model))"

definition model_group_id :: "ModelPom \<Rightarrow> str option" where
  "model_group_id model =
     (case mo_group_id model of Some g \<Rightarrow> Some g | None \<Rightarrow> mo_parent model \<bind> pr_group_id)"

text \<open>\<open>str::replace\<close>; the patterns are never empty.\<close>

function replace_str :: "'a list \<Rightarrow> 'a list \<Rightarrow> 'a list \<Rightarrow> 'a list" where
  "replace_str p r s =
     (if p = [] then s
      else case split_once p s of None \<Rightarrow> s | Some (a, b) \<Rightarrow> a @ r @ replace_str p r b)"
  by pat_completeness auto

termination replace_str
  by (relation "measure (\<lambda>(p, r, s). length s)") (auto dest: split_once_Some)

declare replace_str.simps [simp del, loop_simps]

definition known_properties :: "ModelPom \<Rightarrow> (str \<times> str option) list" where
  "known_properties model =
     [(lit ''project.groupId'', model_group_id model), (lit ''pom.groupId'', model_group_id model),
      (lit ''groupId'', model_group_id model), (lit ''project.artifactId'', mo_artifact_id model),
      (lit ''pom.artifactId'', mo_artifact_id model), (lit ''artifactId'', mo_artifact_id model),
      (lit ''project.parent.groupId'', mo_parent model \<bind> pr_group_id),
      (lit ''project.parent.artifactId'', mo_parent model \<bind> pr_artifact_id)]"

fun substitute :: "(str \<times> str option) list \<Rightarrow> str \<Rightarrow> str option" where
  "substitute [] resolved = Some resolved"
| "substitute ((name, replacement) # known) resolved =
     (let placeholder = lit ''${'' @ name @ lit ''}''
      in if contains placeholder resolved
         then replacement \<bind> (\<lambda>r. substitute known (replace_str placeholder (trim r) resolved))
         else substitute known resolved)"

definition interpolate :: "ModelPom \<Rightarrow> str \<Rightarrow> str option" where
  "interpolate model v =
     substitute (known_properties model) (trim v) \<bind> (\<lambda>resolved.
       if contains (lit ''${'') resolved then None else Some resolved)"

definition is_path_segment :: "str \<Rightarrow> bool" where
  "is_path_segment segment \<longleftrightarrow> segment \<noteq> [] \<and> segment \<noteq> lit ''.'' \<and> segment \<noteq> lit ''..'' \<and> 47 \<notin> set segment \<and> 92 \<notin> set segment"

record Coordinate =
  co_group_id :: str
  co_artifact_id :: str
  co_version :: "str option"

definition literal_version :: "str \<Rightarrow> bool" where
  "literal_version version \<longleftrightarrow> is_path_segment version \<and> \<not> contains (lit ''${'') version \<and>
     set version \<inter> {91, 40, 44} = {} \<and> \<not> ends_with (lit ''-SNAPSHOT'') version"

definition model_coordinate :: "ModelPom \<Rightarrow> str option \<Rightarrow> str option \<Rightarrow> str option \<Rightarrow> Coordinate option" where
  "model_coordinate model group_id artifact_id version =
     group_id \<bind> interpolate model \<bind> (\<lambda>group_id.
     artifact_id \<bind> interpolate model \<bind> (\<lambda>artifact_id.
       if \<not> list_all is_path_segment (split_on 46 group_id) \<or> \<not> is_path_segment artifact_id then None
       else Some \<lparr> co_group_id = group_id, co_artifact_id = artifact_id,
                   co_version = (case map_option trim version of
                                   Some v \<Rightarrow> if literal_version v then Some v else None
                                 | None \<Rightarrow> None) \<rparr>))"

section \<open>The walk\<close>

text \<open>The entries of a directory: whether each is a directory, and its name if it is Unicode.\<close>

record model_files =
  ml_is_file :: "path \<Rightarrow> bool"
  ml_is_dir :: "path \<Rightarrow> bool"
  ml_canonicalize :: "path \<Rightarrow> path option"
  ml_read_dir :: "path \<Rightarrow> (bool \<times> str option) list option"
  ml_reader :: "str \<Rightarrow> (str + xml_event) list"
  ml_content :: "path \<Rightarrow> str + file_content"
  ml_parse :: "str \<Rightarrow> ModelPom option"

record ModelWalk =
  mw_queue :: "(path \<times> bool) list"
  mw_visited :: "path set"
  mw_inputs :: "path set"
  mw_env_references :: "str set"
  mw_budget :: XmlBudget

text \<open>\<open>Path::join\<close> by components: an absolute path replaces, empty and \<open>.\<close> components vanish.\<close>

definition join_path :: "path \<Rightarrow> str \<Rightarrow> path" where
  "join_path directory relative =
     (let components = filter (\<lambda>c. c \<noteq> [] \<and> c \<noteq> lit ''.'') (split_on 47 relative)
      in if is_absolute relative then components else directory @ components)"

definition version_pom :: "path \<Rightarrow> str \<Rightarrow> path option" where
  "version_pom version_directory artifact_id =
     (if version_directory = [] \<or> last version_directory = lit ''..'' then None
      else Some (version_directory @ [artifact_id @ lit ''-'' @ last version_directory @ lit ''.pom'']))"

definition enqueue :: "path \<times> bool \<Rightarrow> ModelWalk \<Rightarrow> ModelWalk" where
  "enqueue entry w =
     (if fst entry \<in> mw_visited w then w
      else w \<lparr> mw_visited := insert (fst entry) (mw_visited w), mw_queue := mw_queue w @ [entry] \<rparr>)"

definition add_input :: "path \<Rightarrow> ModelWalk \<Rightarrow> ModelWalk" where
  "add_input p w = w \<lparr> mw_inputs := insert p (mw_inputs w) \<rparr>"

definition relative_target :: "model_files \<Rightarrow> path \<Rightarrow> str option \<Rightarrow> path option" where
  "relative_target fs pom relative_path =
     (let relative = (case relative_path of None \<Rightarrow> DEFAULT_RELATIVE_PATH | Some r \<Rightarrow> trim r)
      in if pom = [] \<or> relative = [] then None
         else
           let target = join_path (butlast pom) relative;
               target = (if ml_is_dir fs target then target @ [lit ''pom.xml''] else target)
           in Some (case ml_canonicalize fs target of Some canonical \<Rightarrow> canonical | None \<Rightarrow> target))"

definition relative_parent :: "model_files \<Rightarrow> path \<Rightarrow> str option \<Rightarrow> ModelWalk \<Rightarrow> ModelWalk" where
  "relative_parent fs pom relative_path w =
     (case relative_target fs pom relative_path of
        None \<Rightarrow> w | Some target \<Rightarrow> enqueue (target, True) (add_input target w))"

definition artifact_directory :: "path \<Rightarrow> Coordinate \<Rightarrow> path" where
  "artifact_directory repository c = join_path (join_path repository (replace_ch 46 47 (co_group_id c))) (co_artifact_id c)"

definition repository_pom :: "model_files \<Rightarrow> path option \<Rightarrow> Coordinate \<Rightarrow> ModelWalk \<Rightarrow> ModelWalk option" where
  "repository_pom fs repository c w =
     repository \<bind> (\<lambda>repository.
       let directory = artifact_directory repository c
       in case co_version c of
            Some version \<Rightarrow>
              map_option (\<lambda>pom. enqueue (pom, False) (add_input pom w))
                (version_pom (join_path directory version) (co_artifact_id c))
          | None \<Rightarrow>
              let w = add_input directory w
              in case ml_read_dir fs directory of
                   None \<Rightarrow> Some w
                 | Some entries \<Rightarrow>
                     let versions = take (MAX_FOLLOWED_VERSIONS + 1) (filter fst entries)
                     in if MAX_FOLLOWED_VERSIONS < length versions then None
                        else Some (fold (\<lambda>(_, name) w.
                               case name \<bind> (\<lambda>n. version_pom (directory @ [n]) (co_artifact_id c)) of
                                 Some pom \<Rightarrow> enqueue (pom, False) w | None \<Rightarrow> w) versions w))"

fun follow_imports :: "model_files \<Rightarrow> path option \<Rightarrow> ModelPom \<Rightarrow> ManagedDependency list \<Rightarrow> ModelWalk \<Rightarrow> ModelWalk option" where
  "follow_imports fs repository model [] w = Some w"
| "follow_imports fs repository model (d # ds) w =
     model_coordinate model (md_group_id d) (md_artifact_id d) (md_version d) \<bind> (\<lambda>c.
     repository_pom fs repository c w \<bind> follow_imports fs repository model ds)"

definition follow_model :: "model_files \<Rightarrow> path option \<Rightarrow> path \<Rightarrow> bool \<Rightarrow> ModelPom \<Rightarrow> ModelWalk \<Rightarrow> ModelWalk option" where
  "follow_model fs repository pom in_reactor model w =
     (case mo_parent model of
        None \<Rightarrow> Some w
      | Some parent \<Rightarrow>
          let w = (if in_reactor then relative_parent fs pom (pr_relative_path parent) w else w)
          in model_coordinate model (pr_group_id parent) (pr_artifact_id parent) (pr_version parent) \<bind> (\<lambda>c.
             repository_pom fs repository c w)) \<bind>
     follow_imports fs repository model (imports_of model)"

text \<open>The outer \<open>None\<close> is the arithmetic panic of the XML budget, the inner one a walk that declines.\<close>

definition visit :: "model_files \<Rightarrow> nat \<Rightarrow> path option \<Rightarrow> path \<times> bool \<Rightarrow> ModelWalk \<Rightarrow> ModelWalk option option" where
  "visit fs max_xml_bytes repository entry w =
     (case entry of (pom, in_reactor) \<Rightarrow>
        if \<not> ml_is_file fs pom then Some (Some w)
        else case budget_read (ml_reader fs) (ml_content fs) max_xml_bytes pom (mw_budget w) of
               None \<Rightarrow> None
             | Some (Inl _, _) \<Rightarrow> Some None
             | Some (Inr xml, budget) \<Rightarrow>
                 Some (env_references (as_bytes xml) \<bind> (\<lambda>names.
                   ml_parse fs xml \<bind> (\<lambda>model.
                     follow_model fs repository pom in_reactor model
                       (w \<lparr> mw_env_references := mw_env_references w \<union> names, mw_budget := budget \<rparr>)))))"

text \<open>Following references never changes the budget.\<close>

lemma enqueue_fields [simp]:
  "mw_budget (enqueue entry w) = mw_budget w" "mw_inputs (enqueue entry w) = mw_inputs w"
  "mw_env_references (enqueue entry w) = mw_env_references w"
  by (simp_all add: enqueue_def)

lemma add_input_fields [simp]:
  "mw_budget (add_input p w) = mw_budget w" "mw_env_references (add_input p w) = mw_env_references w"
  by (simp_all add: add_input_def)

section \<open>The references of one POM\<close>

text \<open>What a reference adds to the inputs, and the POMs it leads to.\<close>

definition repository_references :: "model_files \<Rightarrow> path option \<Rightarrow> Coordinate \<Rightarrow> (path list \<times> (path \<times> bool) list) option" where
  "repository_references fs repository c =
     repository \<bind> (\<lambda>repository.
       let directory = artifact_directory repository c
       in case co_version c of
            Some version \<Rightarrow>
              map_option (\<lambda>pom. ([pom], [(pom, False)])) (version_pom (join_path directory version) (co_artifact_id c))
          | None \<Rightarrow>
              (case ml_read_dir fs directory of
                 None \<Rightarrow> Some ([directory], [])
               | Some entries \<Rightarrow>
                   let versions = take (MAX_FOLLOWED_VERSIONS + 1) (filter fst entries)
                   in if MAX_FOLLOWED_VERSIONS < length versions then None
                      else Some ([directory], map (\<lambda>pom. (pom, False))
                             (List.map_filter (\<lambda>(_, name). name \<bind> (\<lambda>n. version_pom (directory @ [n]) (co_artifact_id c))) versions))))"

type_synonym references = "path list \<times> (path \<times> bool) list"

definition both :: "references \<Rightarrow> references \<Rightarrow> references" where
  "both r r' = (fst r @ fst r', snd r @ snd r')"

definition relative_references :: "model_files \<Rightarrow> path \<Rightarrow> str option \<Rightarrow> references" where
  "relative_references fs pom relative_path =
     (case relative_target fs pom relative_path of None \<Rightarrow> ([], []) | Some target \<Rightarrow> ([target], [(target, True)]))"

fun import_references :: "model_files \<Rightarrow> path option \<Rightarrow> ModelPom \<Rightarrow> ManagedDependency list \<Rightarrow> references option" where
  "import_references fs repository model [] = Some ([], [])"
| "import_references fs repository model (d # ds) =
     model_coordinate model (md_group_id d) (md_artifact_id d) (md_version d) \<bind> (\<lambda>c.
     repository_references fs repository c \<bind> (\<lambda>r.
     map_option (both r) (import_references fs repository model ds)))"

definition parent_references :: "model_files \<Rightarrow> path option \<Rightarrow> path \<Rightarrow> bool \<Rightarrow> ModelPom \<Rightarrow> references option" where
  "parent_references fs repository pom in_reactor model =
     (case mo_parent model of
        None \<Rightarrow> Some ([], [])
      | Some parent \<Rightarrow>
          model_coordinate model (pr_group_id parent) (pr_artifact_id parent) (pr_version parent) \<bind> (\<lambda>c.
          map_option (both (if in_reactor then relative_references fs pom (pr_relative_path parent) else ([], [])))
            (repository_references fs repository c)))"

definition model_references :: "model_files \<Rightarrow> path option \<Rightarrow> path \<Rightarrow> bool \<Rightarrow> ModelPom \<Rightarrow> references option" where
  "model_references fs repository pom in_reactor model =
     parent_references fs repository pom in_reactor model \<bind> (\<lambda>r.
     map_option (both r) (import_references fs repository model (imports_of model)))"

text \<open>Adding references to a walk, inputs first.\<close>

definition add_references :: "references \<Rightarrow> ModelWalk \<Rightarrow> ModelWalk" where
  "add_references r w = fold enqueue (snd r) (w \<lparr> mw_inputs := mw_inputs w \<union> set (fst r) \<rparr>)"

lemma enqueue_inputs: "enqueue e (w \<lparr> mw_inputs := i \<rparr>) = enqueue e w \<lparr> mw_inputs := i \<rparr>"
  by (simp add: enqueue_def)

lemma fold_enqueue_inputs:
  "fold enqueue es (w \<lparr> mw_inputs := i \<rparr>) = fold enqueue es w \<lparr> mw_inputs := i \<rparr>"
  by (induction es arbitrary: w) (simp_all add: enqueue_inputs)

lemma fold_enqueue_fields:
  "mw_budget (fold enqueue es w) = mw_budget w" "mw_inputs (fold enqueue es w) = mw_inputs w"
  "mw_env_references (fold enqueue es w) = mw_env_references w"
  by (induction es arbitrary: w) simp_all

lemma add_references_both: "add_references r' (add_references r w) = add_references (both r r') w"
  by (simp add: add_references_def both_def fold_enqueue_inputs fold_enqueue_fields Un_assoc)

lemma add_references_none [simp]: "add_references ([], []) w = w"
  by (simp add: add_references_def)

lemma add_input_references: "enqueue (p, f) (add_input p w) = add_references ([p], [(p, f)]) w"
  by (simp add: add_references_def add_input_def)

lemma relative_parent_references:
  "relative_parent fs pom relative_path w = add_references (relative_references fs pom relative_path) w"
  by (simp add: relative_parent_def relative_references_def add_input_references split: option.split)

lemma fold_versions:
  "fold (\<lambda>(d, name) w. case name \<bind> f of Some pom \<Rightarrow> enqueue (pom, False) w | None \<Rightarrow> w) versions w =
   fold enqueue (map (\<lambda>pom. (pom, False)) (List.map_filter (\<lambda>(d, name). name \<bind> f) versions)) w"
  by (induction versions arbitrary: w) (auto simp: map_filter_def split: option.split)

lemma repository_pom_references:
  "repository_pom fs repository c w = map_option (\<lambda>r. add_references r w) (repository_references fs repository c)"
proof (cases repository)
  case (Some r)
  show ?thesis
  proof (cases "co_version c")
    case None
    have "add_input p w = add_references ([p], []) w" for p by (simp add: add_input_def add_references_def)
    then show ?thesis using None
      by (auto simp: Some repository_pom_def repository_references_def Let_def fold_versions add_references_def add_input_def
          split: option.split)
  next
    case version: (Some v)
    show ?thesis
      by (cases "version_pom (join_path (artifact_directory r c) v) (co_artifact_id c)")
        (simp_all add: Some version repository_pom_def repository_references_def Let_def add_input_references)
  qed
qed (simp add: repository_pom_def repository_references_def)

lemma follow_imports_references:
  "follow_imports fs repository model ds w = map_option (\<lambda>r. add_references r w) (import_references fs repository model ds)"
proof (induction ds arbitrary: w)
  case (Cons d ds)
  show ?case
  proof (cases "model_coordinate model (md_group_id d) (md_artifact_id d) (md_version d)")
    case c: (Some c)
    show ?thesis
      by (cases "repository_references fs repository c")
        (simp_all add: c repository_pom_references Cons.IH option.map_comp comp_def add_references_both)
  qed simp
qed simp

lemma follow_model_references:
  "follow_model fs repository pom in_reactor model w =
     map_option (\<lambda>r. add_references r w) (model_references fs repository pom in_reactor model)"
proof (cases "mo_parent model")
  case None
  then show ?thesis
    by (cases "import_references fs repository model (imports_of model)")
      (simp_all add: follow_model_def model_references_def parent_references_def follow_imports_references both_def)
next
  case parent: (Some p)
  show ?thesis
  proof (cases "model_coordinate model (pr_group_id p) (pr_artifact_id p) (pr_version p)")
    case c: (Some c)
    show ?thesis
    proof (cases "repository_references fs repository c")
      case r: (Some r)
      then show ?thesis
        by (cases "import_references fs repository model (imports_of model)")
          (simp_all add: parent c follow_model_def model_references_def parent_references_def Let_def
            follow_imports_references repository_pom_references relative_parent_references add_references_both [symmetric])
    qed (simp add: parent c follow_model_def model_references_def parent_references_def Let_def repository_pom_references)
  qed (simp add: parent follow_model_def model_references_def parent_references_def Let_def)
qed

lemma budget_add_references [simp]: "mw_budget (add_references r w) = mw_budget w"
  by (simp add: add_references_def fold_enqueue_fields)

text \<open>The variables, inputs and further POMs of one POM file, whatever the budget.\<close>

definition pom_references :: "model_files \<Rightarrow> path option \<Rightarrow> path \<times> bool \<Rightarrow> (str set \<times> references) option" where
  "pom_references fs repository entry =
     (if \<not> ml_is_file fs (fst entry) then Some ({}, [], [])
      else case ml_content fs (fst entry) of
             Inr (Utf8 xml) \<Rightarrow>
               env_references (as_bytes xml) \<bind> (\<lambda>names.
               ml_parse fs xml \<bind> (\<lambda>model.
               map_option (Pair names) (model_references fs repository (fst entry) (snd entry) model)))
           | _ \<Rightarrow> None)"

lemma visit_spec:
  assumes "budget_ok (mw_budget w)"
  shows "\<exists>r. visit fs max_xml_bytes repository entry w = Some r \<and>
    (\<forall>w'. r = Some w' \<longrightarrow> budget_ok (mw_budget w') \<and>
      xb_files (mw_budget w') = xb_files (mw_budget w) + (if ml_is_file fs (fst entry) then 1 else 0) \<and>
      (\<exists>names refs. pom_references fs repository entry = Some (names, refs) \<and>
         w' = add_references refs (w \<lparr> mw_env_references := mw_env_references w \<union> names, mw_budget := mw_budget w' \<rparr>)))"
proof (cases "ml_is_file fs (fst entry)")
  case False
  then show ?thesis using assms
    by (cases entry) (auto simp: visit_def pom_references_def)
next
  case True
  obtain pom in_reactor where entry: "entry = (pom, in_reactor)" by (cases entry)
  from budget_read_total [OF assms, of "ml_reader fs" "ml_content fs" max_xml_bytes pom] obtain r b where
    read: "budget_read (ml_reader fs) (ml_content fs) max_xml_bytes pom (mw_budget w) = Some (r, b)" "budget_ok b"
      "\<And>xml. r = Inr xml \<Longrightarrow> ml_content fs pom = Inr (Utf8 xml) \<and> xb_files b = xb_files (mw_budget w) + 1"
    by (fastforce split: sum.splits)
  show ?thesis
  proof (cases r)
    case (Inl e)
    then show ?thesis using True read(1) by (simp add: entry visit_def)
  next
    case (Inr xml)
    note xml = read(3) [OF Inr]
    show ?thesis
    proof (cases "env_references (as_bytes xml)")
      case names: (Some names)
      show ?thesis
      proof (cases "ml_parse fs xml")
        case model: (Some model)
        show ?thesis
          by (cases "model_references fs repository pom in_reactor model")
            (use True read(1,2) Inr xml names model in \<open>simp_all add: entry visit_def pom_references_def follow_model_references\<close>)
      qed (use True read(1) Inr names in \<open>simp add: entry visit_def\<close>)
    qed (use True read(1) Inr in \<open>simp add: entry visit_def\<close>)
  qed
qed

section \<open>The whole walk\<close>

lemma visit_progress:
  assumes "visit fs max_xml_bytes repository entry w = Some (Some w')"
  shows "(xb_files (mw_budget w) < MAX_XML_FILES \<and> xb_files (mw_budget w') = Suc (xb_files (mw_budget w))) \<or> w' = w"
  using assms
  by (auto simp: visit_def follow_model_references budget_read_def bind_eq_Some_conv split: prod.splits if_splits option.splits sum.splits)

function walk_loop :: "model_files \<Rightarrow> nat \<Rightarrow> path option \<Rightarrow> ModelWalk \<Rightarrow> ModelWalk option option" where
  "walk_loop fs max_xml_bytes repository w =
     (case mw_queue w of
        [] \<Rightarrow> Some (Some w)
      | entry # queue \<Rightarrow>
          (case visit fs max_xml_bytes repository entry (w \<lparr> mw_queue := queue \<rparr>) of
             Some (Some w') \<Rightarrow> walk_loop fs max_xml_bytes repository w'
           | r \<Rightarrow> r))"
  by pat_completeness auto

termination walk_loop
proof (relation "measures [\<lambda>(fs, m, r, w). MAX_XML_FILES - xb_files (mw_budget w), \<lambda>(fs, m, r, w). length (mw_queue w)]")
  show "wf (measures [\<lambda>(fs, m, r, w). MAX_XML_FILES - xb_files (mw_budget w), \<lambda>(fs, m, r, w). length (mw_queue w)])" by simp
next
  fix fs m r w entry queue x w'
  assume "mw_queue w = entry # queue" "visit fs m r entry (w \<lparr> mw_queue := queue \<rparr>) = Some x" "x = Some w'"
  then show "((fs, m, r, w'), fs, m, r, w) \<in>
      measures [\<lambda>(fs, m, r, w). MAX_XML_FILES - xb_files (mw_budget w), \<lambda>(fs, m, r, w). length (mw_queue w)]"
    by (auto dest!: visit_progress)
qed

declare walk_loop.simps [simp del, loop_simps]

record ModelInputs =
  mi_paths :: "path list"
  mi_env_references :: "str set"

definition start_walk :: "path list \<Rightarrow> path list \<Rightarrow> ModelWalk" where
  "start_walk reactor_poms repository_poms =
     fold enqueue (map (\<lambda>p. (p, True)) reactor_poms @ map (\<lambda>p. (p, False)) repository_poms)
       \<lparr> mw_queue = [], mw_visited = {}, mw_inputs = {}, mw_env_references = {}, mw_budget = new_budget \<rparr>"

definition model_inputs :: "model_files \<Rightarrow> nat \<Rightarrow> path list \<Rightarrow> path list \<Rightarrow> path option \<Rightarrow> ModelInputs option option" where
  "model_inputs fs max_xml_bytes reactor_poms repository_poms repository =
     map_option (map_option (\<lambda>w.
         \<lparr> mi_paths = sorted_list_of_set (mw_inputs w), mi_env_references = mw_env_references w \<rparr>))
       (walk_loop fs max_xml_bytes repository (start_walk reactor_poms repository_poms))"

text \<open>What is visited: the POMs the walk was started with and, from each, the POMs it refers to.\<close>

definition leads_to :: "model_files \<Rightarrow> path option \<Rightarrow> path \<times> bool \<Rightarrow> path \<times> bool \<Rightarrow> bool" where
  "leads_to fs repository e e' \<longleftrightarrow> (\<exists>names refs. pom_references fs repository e = Some (names, refs) \<and> e' \<in> set (snd refs))"

definition pom_names_of :: "model_files \<Rightarrow> path option \<Rightarrow> path \<times> bool \<Rightarrow> str set" where
  "pom_names_of fs repository e = (case pom_references fs repository e of Some (names, refs) \<Rightarrow> names | None \<Rightarrow> {})"

definition inputs_of :: "model_files \<Rightarrow> path option \<Rightarrow> path \<times> bool \<Rightarrow> path set" where
  "inputs_of fs repository e = (case pom_references fs repository e of Some (names, refs) \<Rightarrow> set (fst refs) | None \<Rightarrow> {})"

definition walk_ok :: "model_files \<Rightarrow> path option \<Rightarrow> (path \<times> bool) set \<Rightarrow> (path \<times> bool) list \<Rightarrow> ModelWalk \<Rightarrow> bool" where
  "walk_ok fs repository starts visits w \<longleftrightarrow>
     distinct (map fst (visits @ mw_queue w)) \<and> mw_visited w = fst ` set (visits @ mw_queue w) \<and> fst ` starts \<subseteq> mw_visited w \<and>
     (\<forall>e\<in>set (visits @ mw_queue w). \<exists>s\<in>starts. (leads_to fs repository)\<^sup>*\<^sup>* s e) \<and>
     (\<forall>e\<in>set visits. pom_references fs repository e \<noteq> None) \<and>
     (\<forall>e\<in>set visits. \<forall>e'. leads_to fs repository e e' \<longrightarrow> fst e' \<in> mw_visited w) \<and>
     mw_inputs w = (\<Union>e\<in>set visits. inputs_of fs repository e) \<and> mw_env_references w = (\<Union>e\<in>set visits. pom_names_of fs repository e) \<and>
     budget_ok (mw_budget w) \<and> xb_files (mw_budget w) = length (filter (\<lambda>e. ml_is_file fs (fst e)) visits)"

text \<open>What enqueueing many entries does to queue and visited set.\<close>

lemma fold_enqueue_queue:
  assumes "distinct (map fst (visits @ mw_queue w))" "mw_visited w = fst ` set (visits @ mw_queue w)"
  shows "\<exists>new. mw_queue (fold enqueue es w) = mw_queue w @ new \<and> set new \<subseteq> set es \<and>
    distinct (map fst (visits @ mw_queue w @ new)) \<and> mw_visited (fold enqueue es w) = fst ` set (visits @ mw_queue w @ new) \<and>
    fst ` set es \<subseteq> mw_visited (fold enqueue es w)"
  using assms
proof (induction es arbitrary: w)
  case (Cons e es)
  show ?case
  proof (cases "fst e \<in> mw_visited w")
    case True
    then have same: "enqueue e w = w" by (simp add: enqueue_def)
    from Cons.IH [OF Cons.prems] obtain new where new: "mw_queue (fold enqueue es w) = mw_queue w @ new" "set new \<subseteq> set es"
      "distinct (map fst (visits @ mw_queue w @ new))" "mw_visited (fold enqueue es w) = fst ` set (visits @ mw_queue w @ new)"
      "fst ` set es \<subseteq> mw_visited (fold enqueue es w)" by blast
    moreover have "fst e \<in> fst ` set (visits @ mw_queue w @ new)" using True Cons.prems(2) by auto
    ultimately show ?thesis by (intro exI [of _ new]) (auto simp: same)
  next
    case False
    let ?w = "enqueue e w"
    have w: "mw_queue ?w = mw_queue w @ [e]" "mw_visited ?w = insert (fst e) (mw_visited w)" using False by (simp_all add: enqueue_def)
    have "distinct (map fst (visits @ mw_queue ?w))" "mw_visited ?w = fst ` set (visits @ mw_queue ?w)"
      using Cons.prems False by (auto simp: w)
    from Cons.IH [OF this] obtain new where new: "mw_queue (fold enqueue es ?w) = mw_queue ?w @ new" "set new \<subseteq> set es"
      "distinct (map fst (visits @ mw_queue ?w @ new))" "mw_visited (fold enqueue es ?w) = fst ` set (visits @ mw_queue ?w @ new)"
      "fst ` set es \<subseteq> mw_visited (fold enqueue es ?w)" by blast
    then show ?thesis by (intro exI [of _ "e # new"]) (auto simp: w)
  qed
qed auto

lemma walk_ok_step:
  assumes ok: "walk_ok fs repository starts visits w" and queue: "mw_queue w = e # q"
    and visit: "visit fs max_xml_bytes repository e (w \<lparr> mw_queue := q \<rparr>) = Some (Some w')"
  shows "walk_ok fs repository starts (visits @ [e]) w'"
proof -
  have "budget_ok (mw_budget (w \<lparr> mw_queue := q \<rparr>))" using ok by (simp add: walk_ok_def)
  from visit_spec [OF this, of fs max_xml_bytes repository e] visit obtain names refs where
    budget: "budget_ok (mw_budget w')" "xb_files (mw_budget w') = xb_files (mw_budget w) + (if ml_is_file fs (fst e) then 1 else 0)"
    and refs: "pom_references fs repository e = Some (names, refs)"
    and w': "w' = add_references refs (w \<lparr> mw_queue := q, mw_env_references := mw_env_references w \<union> names, mw_budget := mw_budget w' \<rparr>)"
    by auto
  define u where "u = w \<lparr> mw_queue := q, mw_env_references := mw_env_references w \<union> names, mw_budget := mw_budget w',
    mw_inputs := mw_inputs w \<union> set (fst refs) \<rparr>"
  have u: "mw_queue u = q" "mw_visited u = mw_visited w" "mw_inputs u = mw_inputs w \<union> set (fst refs)"
    "mw_env_references u = mw_env_references w \<union> names" by (simp_all add: u_def)
  have w'_u: "w' = fold enqueue (snd refs) u" by (subst w') (simp add: add_references_def u_def)
  have "distinct (map fst ((visits @ [e]) @ mw_queue u))" "mw_visited u = fst ` set ((visits @ [e]) @ mw_queue u)"
    using ok by (auto simp: walk_ok_def queue u)
  from fold_enqueue_queue [OF this, of "snd refs"] obtain new where
    new: "mw_queue w' = q @ new" "set new \<subseteq> set (snd refs)" "distinct (map fst ((visits @ [e]) @ mw_queue w'))"
      "mw_visited w' = fst ` set ((visits @ [e]) @ mw_queue w')" "fst ` set (snd refs) \<subseteq> mw_visited w'"
    unfolding w'_u [symmetric] u(1) by auto
  have fields: "mw_inputs w' = mw_inputs w \<union> inputs_of fs repository e" "mw_env_references w' = mw_env_references w \<union> pom_names_of fs repository e"
    by (simp_all add: w'_u fold_enqueue_fields u inputs_of_def pom_names_of_def refs)
  have followed: "leads_to fs repository e e' \<longleftrightarrow> e' \<in> set (snd refs)" for e' by (auto simp: leads_to_def refs)
  have grown: "mw_visited w \<subseteq> mw_visited w'" using ok by (auto simp: walk_ok_def queue new(1,4))
  have "\<exists>s\<in>starts. (leads_to fs repository)\<^sup>*\<^sup>* s e'" if "e' \<in> set ((visits @ [e]) @ mw_queue w')" for e'
  proof (cases "e' \<in> set new")
    case True
    obtain s where "s \<in> starts" "(leads_to fs repository)\<^sup>*\<^sup>* s e" using ok queue by (auto simp: walk_ok_def)
    moreover have "leads_to fs repository e e'" using True new(2) followed by blast
    ultimately show ?thesis by (meson rtranclp.rtrancl_into_rtrancl)
  qed (use that ok queue new(1) in \<open>auto simp: walk_ok_def\<close>)
  moreover have "fst e'' \<in> mw_visited w'" if "e' \<in> set (visits @ [e])" "leads_to fs repository e' e''" for e' e''
  proof (cases "e' = e")
    case True
    then show ?thesis using that(2) followed new(5) by blast
  next
    case False
    then have "e' \<in> set visits" using that(1) by simp
    then have "fst e'' \<in> mw_visited w" using ok that(2) unfolding walk_ok_def by blast
    then show ?thesis using grown by blast
  qed
  moreover have "pom_references fs repository e' \<noteq> None" if "e' \<in> set (visits @ [e])" for e'
    using that ok refs by (auto simp: walk_ok_def)
  moreover have "fst ` starts \<subseteq> mw_visited w'" using ok grown unfolding walk_ok_def by (elim conjE) (rule subset_trans)
  moreover have "mw_inputs w' = (\<Union>e'\<in>set (visits @ [e]). inputs_of fs repository e')"
    "mw_env_references w' = (\<Union>e'\<in>set (visits @ [e]). pom_names_of fs repository e')"
    using ok fields by (auto simp: walk_ok_def)
  moreover have "xb_files (mw_budget w') = length (filter (\<lambda>e. ml_is_file fs (fst e)) (visits @ [e]))"
    using ok budget(2) by (auto simp: walk_ok_def)
  ultimately show ?thesis unfolding walk_ok_def using new(3,4) budget(1) by blast
qed

lemma walk_loop_ok:
  "walk_ok fs repository starts visits w \<Longrightarrow>
     \<exists>r. walk_loop fs max_xml_bytes repository w = Some r \<and>
       (\<forall>w'. r = Some w' \<longrightarrow> mw_queue w' = [] \<and> (\<exists>visits'. walk_ok fs repository starts visits' w'))"
proof (induction fs max_xml_bytes repository w arbitrary: visits rule: walk_loop.induct)
  case (1 fs max_xml_bytes repository w)
  show ?case
  proof (cases "mw_queue w")
    case Nil
    then show ?thesis using "1.prems" by (auto simp: walk_loop.simps [of fs max_xml_bytes repository w])
  next
    case (Cons e q)
    have "budget_ok (mw_budget (w \<lparr> mw_queue := q \<rparr>))" using "1.prems" by (simp add: walk_ok_def)
    from visit_spec [OF this, of fs max_xml_bytes repository e] obtain r where
      r: "visit fs max_xml_bytes repository e (w \<lparr> mw_queue := q \<rparr>) = Some r" by blast
    show ?thesis
    proof (cases r)
      case None
      then show ?thesis by (simp add: walk_loop.simps [of fs max_xml_bytes repository w] Cons r)
    next
      case (Some w')
      from "1.IH" [OF Cons r Some walk_ok_step [OF "1.prems" Cons]] r Some show ?thesis
        by (simp add: walk_loop.simps [of fs max_xml_bytes repository w] Cons)
    qed
  qed
qed

lemma start_walk_ok:
  assumes "starts = set (map (\<lambda>p. (p, True)) reactor_poms @ map (\<lambda>p. (p, False)) repository_poms)"
  shows "walk_ok fs repository starts [] (start_walk reactor_poms repository_poms)"
proof -
  let ?w = "\<lparr> mw_queue = [], mw_visited = {}, mw_inputs = {}, mw_env_references = {}, mw_budget = new_budget \<rparr>"
  from fold_enqueue_queue [of "[]" ?w "map (\<lambda>p. (p, True)) reactor_poms @ map (\<lambda>p. (p, False)) repository_poms"] obtain new where
    "mw_queue (start_walk reactor_poms repository_poms) = new" "set new \<subseteq> starts" "distinct (map fst new)"
    "mw_visited (start_walk reactor_poms repository_poms) = fst ` set new"
    "fst ` starts \<subseteq> mw_visited (start_walk reactor_poms repository_poms)"
    unfolding start_walk_def assms by auto
  then show ?thesis
    by (auto simp: walk_ok_def start_walk_def fold_enqueue_fields budget_ok_def new_budget_def)
qed

text \<open>
  Claim C36: model_inputs_closed.  The walk always ends without a panic.  When it does not decline, the paths and
  variables it answers are exactly those of a set of POMs that contains every reactor and repository POM, is
  closed under parents and imports, contains only POMs reached that way and each only once, and reads at most
  the permitted number of files.
\<close>

theorem model_inputs_closed:
  "\<exists>r. model_inputs fs max_xml_bytes reactor_poms repository_poms repository = Some r \<and>
    (\<forall>inputs. r = Some inputs \<longrightarrow>
      (\<exists>visited. finite visited \<and> inj_on fst visited \<and> set reactor_poms \<union> set repository_poms \<subseteq> fst ` visited \<and>
         (\<forall>e\<in>visited. \<exists>s\<in>(\<lambda>p. (p, True)) ` set reactor_poms \<union> (\<lambda>p. (p, False)) ` set repository_poms. (leads_to fs repository)\<^sup>*\<^sup>* s e) \<and>
         (\<forall>e\<in>visited. \<forall>e'. leads_to fs repository e e' \<longrightarrow> fst e' \<in> fst ` visited) \<and>
         mi_paths inputs = sorted_list_of_set (\<Union>e\<in>visited. inputs_of fs repository e) \<and>
         mi_env_references inputs = (\<Union>e\<in>visited. pom_names_of fs repository e) \<and>
         card {e \<in> visited. ml_is_file fs (fst e)} \<le> MAX_XML_FILES))"
proof -
  let ?starts = "(\<lambda>p. (p, True)) ` set reactor_poms \<union> (\<lambda>p. (p, False)) ` set repository_poms"
  have "walk_ok fs repository ?starts [] (start_walk reactor_poms repository_poms)" by (rule start_walk_ok) auto
  from walk_loop_ok [OF this, of max_xml_bytes] obtain r where
    r: "walk_loop fs max_xml_bytes repository (start_walk reactor_poms repository_poms) = Some r"
      "\<And>w. r = Some w \<Longrightarrow> mw_queue w = [] \<and> (\<exists>visits. walk_ok fs repository ?starts visits w)" by blast
  have "\<exists>visited. finite visited \<and> inj_on fst visited \<and> set reactor_poms \<union> set repository_poms \<subseteq> fst ` visited \<and>
      (\<forall>e\<in>visited. \<exists>s\<in>?starts. (leads_to fs repository)\<^sup>*\<^sup>* s e) \<and>
      (\<forall>e\<in>visited. \<forall>e'. leads_to fs repository e e' \<longrightarrow> fst e' \<in> fst ` visited) \<and>
      mw_inputs w = (\<Union>e\<in>visited. inputs_of fs repository e) \<and> mw_env_references w = (\<Union>e\<in>visited. pom_names_of fs repository e) \<and>
      card {e \<in> visited. ml_is_file fs (fst e)} \<le> MAX_XML_FILES"
    if w: "r = Some w" for w
  proof -
    from r(2) [OF w] obtain visits where empty: "mw_queue w = []" and ok: "walk_ok fs repository ?starts visits w" by blast
    have distinct: "distinct (map fst visits)" using ok empty by (simp add: walk_ok_def)
    have "card {e \<in> set visits. ml_is_file fs (fst e)} = length (filter (\<lambda>e. ml_is_file fs (fst e)) visits)"
      using distinct by (simp add: distinct_map distinct_length_filter Int_def conj_commute)
    also have "\<dots> \<le> MAX_XML_FILES" using ok by (simp add: walk_ok_def budget_ok_def)
    finally have "card {e \<in> set visits. ml_is_file fs (fst e)} \<le> MAX_XML_FILES" .
    moreover have visited: "mw_visited w = fst ` set visits" using ok empty unfolding walk_ok_def by auto
    moreover have "set reactor_poms \<union> set repository_poms \<subseteq> fst ` set visits"
    proof -
      have "fst ` ?starts = set reactor_poms \<union> set repository_poms" by force
      moreover have "fst ` ?starts \<subseteq> fst ` set visits" using ok unfolding walk_ok_def visited by (elim conjE)
      ultimately show ?thesis by simp
    qed
    moreover have "\<forall>e\<in>set visits. \<forall>e'. leads_to fs repository e e' \<longrightarrow> fst e' \<in> fst ` set visits"
      using ok unfolding walk_ok_def visited by (elim conjE)
    moreover have "inj_on fst (set visits)" using distinct by (simp add: distinct_map)
    ultimately show ?thesis using ok empty
      by (intro exI [of _ "set visits"]) (simp only: walk_ok_def finite_set append_Nil2 simp_thms, elim conjE, intro conjI)
  qed
  then show ?thesis unfolding model_inputs_def r(1) by (cases r) auto
qed

text \<open>A reactor of one POM without parent and imports, beside a repository POM that does not exist.\<close>

definition demo_model :: model_files where
  "demo_model = \<lparr> ml_is_file = (\<lambda>p. p = [lit ''pom.xml'']), ml_is_dir = (\<lambda>_. False), ml_canonicalize = (\<lambda>_. None),
     ml_read_dir = (\<lambda>_. None), ml_reader = (\<lambda>_. []), ml_content = (\<lambda>_. Inr (Utf8 [])),
     ml_parse = (\<lambda>_. Some \<lparr> mo_group_id = None, mo_artifact_id = None, mo_parent = None, mo_dependency_management = [],
                          mo_profiles = [] \<rparr>) \<rparr>"

theorem model_inputs_closed_witness:
  "\<exists>inputs. model_inputs demo_model 100 [[lit ''pom.xml'']] [[lit ''r'']] None = Some (Some inputs) \<and>
     (\<exists>visited. [lit ''pom.xml''] \<in> fst ` visited \<and> [lit ''r''] \<in> fst ` visited \<and>
        mi_env_references inputs = (\<Union>e\<in>visited. pom_names_of demo_model None e))"
proof -
  have read: "env_references (as_bytes []) = Some {}"
    by (simp add: as_bytes_def env_references_def literal_env_references_def map_filter_def ENV_PROPERTY_PREFIX_def)
  have "start_walk [[lit ''pom.xml'']] [[lit ''r'']] =
      \<lparr> mw_queue = [([lit ''pom.xml''], True), ([lit ''r''], False)], mw_visited = {[lit ''r''], [lit ''pom.xml'']}, mw_inputs = {},
         mw_env_references = {}, mw_budget = new_budget \<rparr>"
    by (simp add: start_walk_def enqueue_def)
  then obtain inputs where inputs: "model_inputs demo_model 100 [[lit ''pom.xml'']] [[lit ''r'']] None = Some (Some inputs)"
    by (simp add: model_inputs_def walk_loop.simps visit_def demo_model_def new_budget_def budget_read_def MAX_XML_FILES_def
        MAX_XML_TOTAL_BYTES_def checked_sub_def read_bounded_xml_with_limit_def validate_xml_structure_def read
        follow_model_def imports_of_def)
  with model_inputs_closed [of demo_model 100 "[[lit ''pom.xml'']]" "[[lit ''r'']]" None] show ?thesis
    by (auto simp del: lit.simps)
qed

end
