(* ===== verification/Cache_Table.thy ===== *)
theory Cache_Table
  imports Text_Laws "HOL-Library.Multiset"
begin

text \<open>
  The entries of the on-disk index cache (\<open>src/src/index_cache.rs\<close>): the SQL statements of the cache as
  operations on the rows of its table.  The choice of the row number of a new row is SQLite's and a
  parameter; a statement that fails rolls its transaction back and leaves the rows as they are.
\<close>

section \<open>Rows\<close>

record cache_row =
  row_id :: int
  row_kind :: str
  row_key :: str
  row_tool :: str
  row_payload :: "8 word list"
  row_bytes :: int
  row_last_used :: int

definition RECORD_KIND :: str where "RECORD_KIND = lit ''record''"
definition CLASSPATH_KIND :: str where "CLASSPATH_KIND = lit ''classpath''"

definition I64_MAX :: int where "I64_MAX = 2 ^ 63 - 1"

definition row_entry_bytes :: "str \<Rightarrow> 8 word list \<Rightarrow> int" where
  "row_entry_bytes key payload = min (int (str_len key + length payload)) I64_MAX"

text \<open>The primary key of the table.\<close>

definition row_identity :: "cache_row \<Rightarrow> str \<times> str \<times> str" where
  "row_identity r = (row_kind r, row_key r, row_tool r)"

definition load_row :: "str \<Rightarrow> str \<Rightarrow> str \<Rightarrow> cache_row list \<Rightarrow> 8 word list option" where
  "load_row tool kind key rows = map_option row_payload (find (\<lambda>r. row_identity r = (kind, key, tool)) rows)"

lemma row_identity_new [simp]:
  "row_identity \<lparr> row_id = i, row_kind = kind, row_key = key, row_tool = tool, row_payload = payload, row_bytes = n,
     row_last_used = used \<rparr> = (kind, key, tool)"
  by (simp add: row_identity_def)

text \<open>\<open>INSERT OR REPLACE\<close>: the row with the same key goes, the new one gets a free number.\<close>

definition upsert ::
  "(cache_row list \<Rightarrow> int) \<Rightarrow> int \<Rightarrow> str \<Rightarrow> str \<Rightarrow> str \<times> 8 word list \<Rightarrow> cache_row list \<Rightarrow> cache_row list" where
  "upsert next_row now tool kind entry rows =
     (case entry of (key, payload) \<Rightarrow>
        filter (\<lambda>r. row_identity r \<noteq> (kind, key, tool)) rows @
          [\<lparr> row_id = next_row rows, row_kind = kind, row_key = key, row_tool = tool, row_payload = payload,
             row_bytes = row_entry_bytes key payload, row_last_used = now \<rparr>])"

definition touch_rows :: "int \<Rightarrow> str \<Rightarrow> str \<Rightarrow> cache_row list \<Rightarrow> cache_row list" where
  "touch_rows now tool key rows =
     map (\<lambda>r. if row_identity r = (RECORD_KIND, key, tool) then r \<lparr> row_last_used := now \<rparr> else r) rows"

section \<open>Eviction\<close>

text \<open>\<open>SUM\<close> fails when it leaves the 64-bit range.\<close>

definition total_row_bytes :: "cache_row list \<Rightarrow> str + int" where
  "total_row_bytes rows =
     (let total = sum_list (map row_bytes rows) in if total \<le> I64_MAX then Inr total else Inl (lit ''integer overflow''))"

fun victims :: "int \<Rightarrow> cache_row list \<Rightarrow> int list" where
  "victims excess [] = []"
| "victims excess (r # rs) = (if 0 < excess then row_id r # victims (excess - row_bytes r) rs else [])"

definition use_order :: "cache_row \<Rightarrow> int \<times> int" where
  "use_order r = (row_last_used r, row_id r)"

definition evict_to_budget :: "nat \<Rightarrow> cache_row list \<Rightarrow> str + cache_row list" where
  "evict_to_budget max_bytes rows =
     and_then (total_row_bytes rows) (\<lambda>total.
       let excess = total - min (int max_bytes) I64_MAX
       in if excess \<le> 0 then Inr rows
          else let gone = victims excess (sort_key use_order rows)
               in Inr (filter (\<lambda>r. row_id r \<notin> set gone) rows))"

section \<open>Writing a build\<close>

record CacheUpdate =
  cu_classpath :: "(str \<times> 8 word list) option"
  cu_records :: "(path \<times> 8 word list) list"
  cu_reused :: "path list"

text \<open>\<open>to_str\<close> is \<open>Path::to_str\<close>; a path that is not Unicode is skipped.\<close>

definition apply_update ::
  "(cache_row list \<Rightarrow> int) \<Rightarrow> (path \<Rightarrow> str option) \<Rightarrow> int \<Rightarrow> str \<Rightarrow> CacheUpdate \<Rightarrow> cache_row list \<Rightarrow> cache_row list" where
  "apply_update next_row to_str now tool update rows =
     (let rows = (case cu_classpath update of None \<Rightarrow> rows | Some entry \<Rightarrow> upsert next_row now tool CLASSPATH_KIND entry rows);
          rows = fold (\<lambda>(p, payload) rows. case to_str p of
                   None \<Rightarrow> rows | Some key \<Rightarrow> upsert next_row now tool RECORD_KIND (key, payload) rows) (cu_records update) rows
      in fold (touch_rows now tool) (List.map_filter to_str (cu_reused update)) rows)"

definition try_write ::
  "(cache_row list \<Rightarrow> int) \<Rightarrow> (path \<Rightarrow> str option) \<Rightarrow> int \<Rightarrow> nat \<Rightarrow> str \<Rightarrow> CacheUpdate \<Rightarrow> cache_row list \<Rightarrow> str + cache_row list" where
  "try_write next_row to_str now max_bytes tool update rows =
     evict_to_budget max_bytes (apply_update next_row to_str now tool update rows)"

section \<open>Classpath contexts\<close>

text \<open>\<open>json\<close> is the JSON string of a path, \<open>identity\<close> the JSON of the remaining identity.\<close>

definition project_scope :: "(path \<Rightarrow> str) \<Rightarrow> path \<Rightarrow> str" where
  "project_scope json root = json root @ [10]"

definition context_key :: "(path \<Rightarrow> str) \<Rightarrow> path \<Rightarrow> str \<Rightarrow> str" where
  "context_key json root identity_json = project_scope json root @ identity_json"

definition forget_project_classpaths :: "(path \<Rightarrow> str) \<Rightarrow> path \<Rightarrow> cache_row list \<Rightarrow> cache_row list" where
  "forget_project_classpaths json root rows =
     filter (\<lambda>r. \<not> (row_kind r = CLASSPATH_KIND \<and>
       take (length (project_scope json root)) (row_key r) = project_scope json root)) rows"

section \<open>The invariant of the table\<close>

definition row_ok :: "cache_row \<Rightarrow> bool" where
  "row_ok r \<longleftrightarrow> row_bytes r = row_entry_bytes (row_key r) (row_payload r)"

definition table_ok :: "cache_row list \<Rightarrow> bool" where
  "table_ok rows \<longleftrightarrow> distinct (map row_id rows) \<and> distinct (map row_identity rows) \<and> list_all row_ok rows"

definition fresh_ids :: "(cache_row list \<Rightarrow> int) \<Rightarrow> bool" where
  "fresh_ids next_row \<longleftrightarrow> (\<forall>rows. next_row rows \<notin> row_id ` set rows)"

lemma entry_bytes_nonneg: "0 \<le> row_entry_bytes key payload"
  by (simp add: row_entry_bytes_def I64_MAX_def)

lemma row_bytes_nonneg: "table_ok rows \<Longrightarrow> r \<in> set rows \<Longrightarrow> 0 \<le> row_bytes r"
  by (simp add: table_ok_def list_all_iff row_ok_def entry_bytes_nonneg)

lemma table_ok_filter: "table_ok rows \<Longrightarrow> table_ok (filter P rows)"
  by (auto simp: table_ok_def distinct_map_filter list_all_iff)

lemma table_ok_upsert:
  assumes "fresh_ids next_row" "table_ok rows" shows "table_ok (upsert next_row now tool kind entry rows)"
proof -
  obtain key payload where entry: "entry = (key, payload)" by (cases entry)
  let ?kept = "filter (\<lambda>r. row_identity r \<noteq> (kind, key, tool)) rows"
  have "table_ok ?kept" by (rule table_ok_filter [OF assms(2)])
  moreover have "next_row rows \<notin> row_id ` set ?kept" using assms(1) by (auto simp: fresh_ids_def)
  ultimately show ?thesis by (auto simp: upsert_def entry table_ok_def row_ok_def row_identity_def)
qed

lemma touch_maps [simp]:
  "map row_id (touch_rows now tool key rows) = map row_id rows" "map row_identity (touch_rows now tool key rows) = map row_identity rows"
  by (simp_all add: touch_rows_def row_identity_def comp_def)

lemma table_ok_touch: "table_ok rows \<Longrightarrow> table_ok (touch_rows now tool key rows)"
  unfolding table_ok_def touch_maps by (auto simp: touch_rows_def list_all_iff row_ok_def)

lemma table_ok_touches: "table_ok rows \<Longrightarrow> table_ok (fold (touch_rows now tool) keys rows)"
  by (induction keys arbitrary: rows) (simp_all add: table_ok_touch)

lemma table_ok_records:
  "fresh_ids next_row \<Longrightarrow> table_ok rows \<Longrightarrow>
     table_ok (fold (\<lambda>(p, payload) rows. case to_str p of
       None \<Rightarrow> rows | Some key \<Rightarrow> upsert next_row now tool RECORD_KIND (key, payload) rows) records rows)"
  by (induction records arbitrary: rows) (auto simp: table_ok_upsert split: option.split)

lemma table_ok_apply: "fresh_ids next_row \<Longrightarrow> table_ok rows \<Longrightarrow> table_ok (apply_update next_row to_str now tool update rows)"
  by (auto simp: apply_update_def Let_def table_ok_touches table_ok_records table_ok_upsert split: option.split)

section \<open>What is evicted\<close>

lemma victims_prefix:
  assumes "\<And>r. r \<in> set rows \<Longrightarrow> 0 \<le> row_bytes r" "excess \<le> sum_list (map row_bytes rows)"
  shows "\<exists>n\<le>length rows. victims excess rows = map row_id (take n rows) \<and>
    excess \<le> sum_list (map row_bytes (take n rows)) \<and> (\<forall>k<n. sum_list (map row_bytes (take k rows)) < excess)"
  using assms
proof (induction rows arbitrary: excess)
  case Nil
  then show ?case by simp
next
  case (Cons r rows)
  show ?case
  proof (cases "0 < excess")
    case True
    from Cons.IH [of "excess - row_bytes r"] Cons.prems obtain n where n: "n \<le> length rows"
      "victims (excess - row_bytes r) rows = map row_id (take n rows)"
      "excess - row_bytes r \<le> sum_list (map row_bytes (take n rows))"
      "\<And>k. k < n \<Longrightarrow> sum_list (map row_bytes (take k rows)) < excess - row_bytes r" by auto
    have "sum_list (map row_bytes (take k (r # rows))) < excess" if "k < Suc n" for k
      using that True n(4) [of "k - 1"] by (cases k) auto
    then show ?thesis using True n by (intro exI [of _ "Suc n"]) auto
  next
    case False
    then show ?thesis by (intro exI [of _ 0]) auto
  qed
qed

text \<open>The rows in the order of their use, oldest first.\<close>

definition by_use :: "cache_row list \<Rightarrow> cache_row list" where
  "by_use rows = sort_key (\<lambda>r. (row_last_used r, row_id r)) rows"

lemma use_order_eta: "use_order = (\<lambda>r. (row_last_used r, row_id r))"
  by (simp add: use_order_def fun_eq_iff)

lemma by_use_facts:
  "mset (by_use rows) = mset rows" "sorted (map use_order (by_use rows))" "set (by_use rows) = set rows"
  by (simp_all add: by_use_def use_order_eta)

lemma filter_dropped:
  assumes "distinct (map row_id xs)"
  shows "filter (\<lambda>r. row_id r \<notin> row_id ` set (take n xs)) xs = drop n xs"
proof -
  have "row_id r \<notin> row_id ` set (take n xs)" if "r \<in> set (drop n xs)" for r
  proof
    assume "row_id r \<in> row_id ` set (take n xs)"
    then have "row_id r \<in> set (map row_id (take n xs)) \<inter> set (map row_id (drop n xs))" using that by auto
    moreover have "distinct (map row_id (take n xs) @ map row_id (drop n xs))"
      using assms by (simp flip: map_append)
    ultimately show False by (auto simp: disjoint_iff)
  qed
  then have "filter (\<lambda>r. row_id r \<notin> row_id ` set (take n xs)) (take n xs @ drop n xs) = drop n xs"
    unfolding filter_append by (auto simp: filter_empty_conv filter_id_conv)
  then show ?thesis by simp
qed

lemma evict_to_budget_spec:
  assumes ok: "table_ok rows" and evict: "evict_to_budget max_bytes rows = Inr rows'"
  shows "\<exists>n. by_use rows' = drop n (by_use rows) \<and> sum_list (map row_bytes rows') \<le> int max_bytes \<and>
    (\<forall>k<n. int max_bytes < sum_list (map row_bytes (drop k (by_use rows)))) \<and> set rows' \<subseteq> set rows \<and> table_ok rows'"
proof -
  let ?sum = "\<lambda>rs. sum_list (map row_bytes rs)" and ?S = "by_use rows" and ?limit = "min (int max_bytes) I64_MAX"
  from evict have total: "?sum rows \<le> I64_MAX" by (auto simp: evict_to_budget_def total_row_bytes_def Let_def split: if_splits)
  have sums: "?sum rs = ?sum (by_use rs)" for rs by (metis by_use_facts(1) mset_map sum_mset_sum_list)
  show ?thesis
  proof (cases "?sum rows - ?limit \<le> 0")
    case True
    then have "rows' = rows" using evict total by (simp add: evict_to_budget_def total_row_bytes_def Let_def)
    then show ?thesis using True ok by (intro exI [of _ 0]) auto
  next
    case False
    then have limit: "?limit = int max_bytes" using total by auto
    have "0 \<le> row_bytes r" if "r \<in> set ?S" for r using row_bytes_nonneg [OF ok] that by (simp add: by_use_facts)
    moreover have "?sum rows - ?limit \<le> ?sum ?S" using sums [of rows] by (simp add: I64_MAX_def)
    ultimately obtain n where n: "victims (?sum rows - ?limit) ?S = map row_id (take n ?S)"
      "?sum rows - ?limit \<le> ?sum (take n ?S)" "\<And>k. k < n \<Longrightarrow> ?sum (take k ?S) < ?sum rows - ?limit"
      using victims_prefix [of ?S "?sum rows - ?limit"] by blast
    have distinct: "distinct (map row_id ?S)" using ok
      by (simp add: by_use_def table_ok_def distinct_map)
    have rows': "rows' = filter (\<lambda>r. row_id r \<notin> row_id ` set (take n ?S)) rows"
      using evict total False n(1) by (simp add: evict_to_budget_def total_row_bytes_def Let_def by_use_def use_order_eta)
    have left: "by_use rows' = drop n ?S"
      unfolding rows' by_use_def filter_sort [symmetric] using filter_dropped [OF distinct] by (simp add: by_use_def)
    have parts: "?sum (take k ?S) + ?sum (drop k ?S) = ?sum rows" for k
      by (metis append_take_drop_id map_append sum_list_append sums)
    have "?sum rows' + ?sum (take n ?S) = ?sum rows" using sums [of rows'] parts [of n] unfolding left by linarith
    then have "?sum rows' \<le> int max_bytes" using n(2) unfolding limit by linarith
    moreover have "int max_bytes < ?sum (drop k ?S)" if "k < n" for k
      using n(3) [OF that] parts [of k] unfolding limit by linarith
    ultimately show ?thesis using left table_ok_filter [OF ok] rows' by auto
  qed
qed

lemma write_table_ok:
  "fresh_ids next_row \<Longrightarrow> table_ok rows \<Longrightarrow> try_write next_row to_str now max_bytes tool update rows = Inr rows' \<Longrightarrow> table_ok rows'"
  using evict_to_budget_spec table_ok_apply unfolding try_write_def by blast

text \<open>
  Claim C35: cache_write_evicts_lru.  A successful write keeps the table consistent (one row per key, sizes as stored) and
  within the byte budget, and it evicts exactly the least recently used rows: the rows left are the most recent
  ones of the updated table, and with any one more of them the budget would be exceeded.
\<close>

theorem cache_write_evicts_lru:
  assumes "fresh_ids next_row" "table_ok rows" "try_write next_row to_str now max_bytes tool update rows = Inr rows'"
  shows "table_ok rows' \<and> sum_list (map row_bytes rows') \<le> int max_bytes \<and>
    (\<exists>n. by_use rows' = drop n (by_use (apply_update next_row to_str now tool update rows)) \<and>
       (\<forall>k<n. int max_bytes <
          sum_list (map row_bytes (drop k (by_use (apply_update next_row to_str now tool update rows))))))"
  using evict_to_budget_spec [OF table_ok_apply [OF assms(1,2)]] assms(3) unfolding try_write_def by blast

text \<open>Two rows of 10 bytes with a budget of 15: the older one goes.\<close>

definition demo_rows :: "cache_row list" where
  "demo_rows = [\<lparr> row_id = 1, row_kind = RECORD_KIND, row_key = lit ''a'', row_tool = [], row_payload = replicate 9 0,
     row_bytes = 10, row_last_used = 5 \<rparr>]"

definition demo_next :: "cache_row list \<Rightarrow> int" where
  "demo_next rows = Max (insert 0 (row_id ` set rows)) + 1"

lemma demo_next_fresh: "fresh_ids demo_next"
proof -
  have "x \<le> Max (insert 0 (row_id ` set rows))" if "x \<in> row_id ` set rows" for x rows using that by (intro Max_ge) auto
  then show ?thesis by (force simp: fresh_ids_def demo_next_def)
qed

theorem cache_write_evicts_lru_witness:
  "\<exists>rows'. try_write demo_next (\<lambda>p. Some (concat p)) 7 15 []
       \<lparr> cu_classpath = None, cu_records = [([lit ''b''], replicate 9 0)], cu_reused = [] \<rparr> demo_rows = Inr rows' \<and>
     table_ok rows' \<and> map row_key rows' = [lit ''b''] \<and> sum_list (map row_bytes rows') \<le> 15"
proof -
  let ?update = "\<lparr> cu_classpath = None, cu_records = [([lit ''b''], replicate 9 0)], cu_reused = [] \<rparr> :: CacheUpdate"
  have ok: "table_ok demo_rows"
    by (simp add: demo_rows_def table_ok_def row_ok_def row_entry_bytes_def I64_MAX_def)
  obtain rows' where rows': "try_write demo_next (\<lambda>p. Some (concat p)) 7 15 [] ?update demo_rows = Inr rows'"
    "map row_key rows' = [lit ''b'']"
    by (simp add: try_write_def apply_update_def upsert_def demo_rows_def demo_next_def evict_to_budget_def
        total_row_bytes_def row_entry_bytes_def I64_MAX_def row_identity_def use_order_def RECORD_KIND_def Let_def)
  from cache_write_evicts_lru [OF demo_next_fresh ok rows'(1)] rows' show ?thesis by auto
qed

section \<open>Reading what was written\<close>

definition update_entries :: "(path \<Rightarrow> str option) \<Rightarrow> CacheUpdate \<Rightarrow> ((str \<times> str) \<times> 8 word list) list" where
  "update_entries to_str update =
     (case cu_classpath update of None \<Rightarrow> [] | Some (key, payload) \<Rightarrow> [((CLASSPATH_KIND, key), payload)]) @
     List.map_filter (\<lambda>(p, payload). map_option (\<lambda>key. ((RECORD_KIND, key), payload)) (to_str p)) (cu_records update)"

definition written_value ::
  "(path \<Rightarrow> str option) \<Rightarrow> str \<Rightarrow> CacheUpdate \<Rightarrow> cache_row list \<Rightarrow> str \<Rightarrow> str \<Rightarrow> str \<Rightarrow> 8 word list option" where
  "written_value to_str tool update rows tool' kind key =
     (if tool' = tool then
        (case map_of (rev (update_entries to_str update)) (kind, key) of Some payload \<Rightarrow> Some payload
         | None \<Rightarrow> load_row tool' kind key rows)
      else load_row tool' kind key rows)"

lemma find_SomeD: "find P xs = Some x \<Longrightarrow> x \<in> set xs \<and> P x"
  by (induction xs) (auto split: if_splits)

lemma find_append: "find P (xs @ ys) = (case find P xs of None \<Rightarrow> find P ys | Some x \<Rightarrow> Some x)"
  by (induction xs) auto

lemma find_filter_other: "(\<And>x. P x \<Longrightarrow> Q x) \<Longrightarrow> find P (filter Q xs) = find P xs"
  by (induction xs) auto

lemma find_filter_same: "find (\<lambda>x. f x = v) (filter (\<lambda>x. f x \<noteq> v) xs) = None"
  by (induction xs) auto

lemma load_upsert:
  "load_row tool' kind' key' (upsert next_row now tool kind (key, payload) rows) =
     (if (kind', key', tool') = (kind, key, tool) then Some payload else load_row tool' kind' key' rows)"
proof (cases "(kind', key', tool') = (kind, key, tool)")
  case True
  then show ?thesis by (simp add: load_row_def upsert_def find_append find_filter_same)
next
  case False
  then have "find (\<lambda>r. row_identity r = (kind', key', tool')) (filter (\<lambda>r. row_identity r \<noteq> (kind, key, tool)) rows) =
      find (\<lambda>r. row_identity r = (kind', key', tool')) rows"
    by (intro find_filter_other) auto
  then show ?thesis using False
    by (auto simp: load_row_def upsert_def find_append split: option.split)
qed

lemma load_touch [simp]: "load_row tool' kind key (touch_rows now tool key' rows) = load_row tool' kind key rows"
  by (induction rows) (auto simp: load_row_def touch_rows_def row_identity_def)

lemma load_touches [simp]: "load_row tool' kind key (fold (touch_rows now tool) keys rows) = load_row tool' kind key rows"
  by (induction keys arbitrary: rows) simp_all

lemma load_records:
  "load_row tool' kind key (fold (\<lambda>(p, payload) rows. case to_str p of
       None \<Rightarrow> rows | Some key \<Rightarrow> upsert next_row now tool RECORD_KIND (key, payload) rows) records rows) =
   (if tool' = tool then
      (case map_of (rev (List.map_filter (\<lambda>(p, payload). map_option (\<lambda>key. ((RECORD_KIND, key), payload)) (to_str p)) records)) (kind, key) of
         Some payload \<Rightarrow> Some payload | None \<Rightarrow> load_row tool' kind key rows)
    else load_row tool' kind key rows)"
proof (induction records rule: rev_induct)
  case (snoc x records)
  obtain p payload where x: "x = (p, payload)" by (cases x)
  show ?case using snoc by (cases "to_str p") (auto simp: x map_filter_def load_upsert split: option.split)
qed (simp add: map_filter_def)

lemma load_apply_update:
  "load_row tool' kind key (apply_update next_row to_str now tool update rows) = written_value to_str tool update rows tool' kind key"
  by (auto simp: apply_update_def Let_def load_records written_value_def update_entries_def load_upsert
      split: option.split)

lemma load_row_subset:
  assumes "table_ok rows" "set rows' \<subseteq> set rows" "load_row tool kind key rows' = Some payload"
  shows "load_row tool kind key rows = Some payload"
proof -
  from assms(3) obtain r where r: "r \<in> set rows'" "row_identity r = (kind, key, tool)" "row_payload r = payload"
    by (auto simp: load_row_def dest: find_SomeD)
  then have "find (\<lambda>r. row_identity r = (kind, key, tool)) rows \<noteq> None" using assms(2) by (auto simp: find_None_iff)
  then obtain r' where r': "find (\<lambda>r. row_identity r = (kind, key, tool)) rows = Some r'" by blast
  then have "r' \<in> set rows" "row_identity r' = (kind, key, tool)" by (auto dest: find_SomeD)
  moreover have "r \<in> set rows" "inj_on row_identity (set rows)" using r assms(1,2) by (auto simp: table_ok_def distinct_map)
  ultimately have "r' = r" using r(2) by (simp add: inj_on_def)
  then show ?thesis using r' r(3) by (simp add: load_row_def)
qed

lemma load_after_write:
  assumes "fresh_ids next_row" "table_ok rows" "try_write next_row to_str now max_bytes tool update rows = Inr rows'"
    and "load_row tool' kind key rows' = Some payload"
  shows "written_value to_str tool update rows tool' kind key = Some payload"
proof -
  note ok = table_ok_apply [OF assms(1,2), of to_str now tool update]
  have "set rows' \<subseteq> set (apply_update next_row to_str now tool update rows)"
    using evict_to_budget_spec [OF ok] assms(3) unfolding try_write_def by blast
  from load_row_subset [OF ok this assms(4)] show ?thesis unfolding load_apply_update .
qed

section \<open>Forgetting a project\<close>

lemma scope_prefix:
  assumes "10 \<notin> set (json root)" "10 \<notin> set (json root')" "json root = json root' \<longrightarrow> root = root'"
  shows "take (length (project_scope json root)) (context_key json root' identity_json) = project_scope json root \<longleftrightarrow> root' = root"
proof
  assume "take (length (project_scope json root)) (context_key json root' identity_json) = project_scope json root"
  then have "starts_with (json root @ [10]) (json root' @ [10] @ identity_json)"
    unfolding starts_with_iff context_key_def project_scope_def by (metis append_assoc append_take_drop_id)
  then obtain rest where "json root' @ 10 # identity_json = json root @ 10 # rest" by (auto simp: starts_with_iff)
  then have "json root' = json root" using closed_inj [OF assms(2,1)] by blast
  then show "root' = root" using assms(3) by simp
qed (simp add: context_key_def project_scope_def)

text \<open>Forgetting a project removes its classpaths, whatever their identity, and nothing else.\<close>

lemma forget_exact:
  assumes json: "\<And>p. 10 \<notin> set (json p)" "inj json"
    and keys: "\<And>r. r \<in> set rows \<Longrightarrow> row_kind r = CLASSPATH_KIND \<Longrightarrow> row_key r = context_key json (owner r) (rest r)"
  shows "forget_project_classpaths json root rows = filter (\<lambda>r. row_kind r \<noteq> CLASSPATH_KIND \<or> owner r \<noteq> root) rows"
  unfolding forget_project_classpaths_def
  by (rule filter_cong [OF refl]) (use keys scope_prefix [of json root] json in \<open>auto simp: inj_def\<close>)

end
