(* ===== verification/Cached_Builds.thy ===== *)
theory Cached_Builds
  imports Index_Build Cache_Table
begin

text \<open>
  Builds over the on-disk cache (\<open>src/src/index.rs\<close> with \<open>src/src/index_cache.rs\<close>): the table after any
  history of builds, evictions, foreign writes and resets, and what a build over it answers.
\<close>

section \<open>The table and its readers\<close>

definition load_record :: "(path \<Rightarrow> str option) \<Rightarrow> str \<Rightarrow> cache_row list \<Rightarrow> path \<Rightarrow> 8 word list option" where
  "load_record to_str tool rows p = to_str p \<bind> (\<lambda>key. load_row tool RECORD_KIND key rows)"

definition build_update :: "(str \<times> 8 word list) option \<Rightarrow> RecordReuse \<Rightarrow> CacheUpdate" where
  "build_update classpath reuse =
     \<lparr> cu_classpath = classpath, cu_records = ru_persistable reuse, cu_reused = ru_reused reuse \<rparr>"

text \<open>
  Histories of one database: builds of this tool at any state of the artifacts whose settled stamps tell changes, for
  any project and limits, each lookup at a moment of its own and the write at a later one; writes of other
  tools; forgotten projects; and a database created anew.
\<close>

inductive cache_history ::
  "jar_source \<Rightarrow> (str \<Rightarrow> str) \<Rightarrow> (cache_row list \<Rightarrow> int) \<Rightarrow> (path \<Rightarrow> str option) \<Rightarrow> str \<Rightarrow> cache_row list \<Rightarrow> bool"
  for src lower next_row to_str tool where
  created: "cache_history src lower next_row to_str tool []"
| built: "settled_stamps_tell src' src \<Longrightarrow> bs_codec src' = bs_codec src \<Longrightarrow> rl_index_entries limits \<le> usize_max \<Longrightarrow> rl_index_name_bytes limits \<le> usize_max \<Longrightarrow>
    build_from_jars src' lower limits root jars mr m (Some load) = Some (Inr (idx, reuse)) \<Longrightarrow>
    cache_history src lower next_row to_str tool rows \<Longrightarrow>
    try_write next_row to_str now max_bytes tool (build_update classpath reuse) rows = Inr rows' \<Longrightarrow>
    cache_history src lower next_row to_str tool rows'"
| foreign: "cache_history src lower next_row to_str tool rows \<Longrightarrow> tool' \<noteq> tool \<Longrightarrow>
    try_write next_row to_str now max_bytes tool' update rows = Inr rows' \<Longrightarrow>
    cache_history src lower next_row to_str tool rows'"
| forgot: "cache_history src lower next_row to_str tool rows \<Longrightarrow>
    cache_history src lower next_row to_str tool (forget_project_classpaths json root rows)"

section \<open>Everything in the table was written by a build\<close>

definition good_payload :: "jar_source \<Rightarrow> path \<Rightarrow> 8 word list \<Rightarrow> bool" where
  "good_payload src p payload \<longleftrightarrow> (\<exists>src' limits m jars. written src' limits m jars (p, payload) \<and> settled_stamps_tell src' src \<and> bs_codec src' = bs_codec src \<and>
     rl_index_entries limits \<le> usize_max \<and> rl_index_name_bytes limits \<le> usize_max)"

definition good_rows :: "jar_source \<Rightarrow> (path \<Rightarrow> str option) \<Rightarrow> str \<Rightarrow> cache_row list \<Rightarrow> bool" where
  "good_rows src to_str tool rows \<longleftrightarrow> table_ok rows \<and>
     (\<forall>p payload. load_record to_str tool rows p = Some payload \<longrightarrow> good_payload src p payload)"

lemma update_entry_record:
  assumes "map_of (rev (update_entries to_str update)) (RECORD_KIND, key) = Some payload"
  shows "\<exists>p. to_str p = Some key \<and> (p, payload) \<in> set (cu_records update)"
proof -
  have "((RECORD_KIND, key), payload) \<in> set (update_entries to_str update)" using map_of_SomeD [OF assms] by simp
  moreover have "RECORD_KIND \<noteq> CLASSPATH_KIND" by (simp add: RECORD_KIND_def CLASSPATH_KIND_def)
  ultimately show ?thesis
    by (auto simp: update_entries_def map_filter_def split: option.splits if_splits)
qed

lemma good_rows_subset:
  assumes "good_rows src to_str tool rows" "set rows' \<subseteq> set rows" "table_ok rows'"
  shows "good_rows src to_str tool rows'"
  using assms load_row_subset unfolding good_rows_def load_record_def by (auto simp: bind_eq_Some_conv)

lemma good_rows_write:
  assumes "fresh_ids next_row" "good_rows src to_str tool rows"
    and inj: "\<And>p q key. to_str p = Some key \<Longrightarrow> to_str q = Some key \<Longrightarrow> p = q"
    and wrote: "try_write next_row to_str now max_bytes tool' update rows = Inr rows'"
    and new: "\<And>p payload. tool' = tool \<Longrightarrow> (p, payload) \<in> set (cu_records update) \<Longrightarrow> good_payload src p payload"
  shows "good_rows src to_str tool rows'"
proof -
  have ok: "table_ok rows" using assms(2) by (simp add: good_rows_def)
  have "table_ok rows'" using write_table_ok [OF assms(1) ok wrote] .
  moreover have "good_payload src p payload" if "load_record to_str tool rows' p = Some payload" for p payload
  proof -
    from that obtain key where key: "to_str p = Some key" "load_row tool RECORD_KIND key rows' = Some payload"
      by (auto simp: load_record_def bind_eq_Some_conv)
    from load_after_write [OF assms(1) ok wrote key(2)]
    have "written_value to_str tool' update rows tool RECORD_KIND key = Some payload" .
    then consider "load_row tool RECORD_KIND key rows = Some payload"
      | "tool' = tool" "map_of (rev (update_entries to_str update)) (RECORD_KIND, key) = Some payload"
      by (auto simp: written_value_def split: if_splits option.splits)
    then show ?thesis
    proof cases
      case 1
      then show ?thesis using assms(2) key(1) by (simp add: good_rows_def load_record_def)
    next
      case 2
      then show ?thesis using update_entry_record new inj key(1) by blast
    qed
  qed
  ultimately show ?thesis by (simp add: good_rows_def)
qed

lemma cache_history_good:
  assumes "cache_history src lower next_row to_str tool rows" "fresh_ids next_row"
    and inj: "\<And>p q key. to_str p = Some key \<Longrightarrow> to_str q = Some key \<Longrightarrow> p = q"
  shows "good_rows src to_str tool rows"
  using assms(1)
proof induction
  case created
  then show ?case by (simp add: good_rows_def table_ok_def load_record_def load_row_def)
next
  case (built src' limits root jars mr m load idx reuse rows now max_bytes classpath rows')
  have "good_payload src p payload" if "(p, payload) \<in> set (ru_persistable reuse)" for p payload
    using build_writes [OF built.hyps(5) that] built.hyps(1-4) unfolding good_payload_def by blast
  then show ?case using good_rows_write [OF assms(2) built.IH inj built.hyps(7)] by (auto simp: build_update_def)
next
  case (foreign rows tool' now max_bytes update rows')
  show ?case by (rule good_rows_write [OF assms(2) foreign.IH inj foreign.hyps(3)]) (use foreign.hyps(2) in simp_all)
next
  case (forgot rows json root)
  then show ?case using table_ok_filter
    by (intro good_rows_subset [OF forgot.IH]) (auto simp: forget_project_classpaths_def good_rows_def)
qed

text \<open>
  Claim C10: cached_builds_agree.  Whatever builds of any projects, limits and earlier states of the artifacts have
  written to the cache, whatever was evicted, forgotten or written by other versions in between, and however
  the lookups interleave with the writes of other processes: a build over the cache succeeds and its index is
  exactly the index of a build without a cache.  Relied on is that an artifact whose stamps had settled when
  a record of it was written and are the same now has not changed since, that the JSON and zlib libraries read back what they
  wrote, and that different paths have different keys; a payload over the decoding limit is a miss.
\<close>

theorem cached_builds_agree:
  assumes cold: "build_from_jars src lower limits root jars mr m None = Some (Inr (idx, reuse0))"
    and lookups: "\<And>p. \<exists>rows. cache_history src lower next_row to_str tool rows \<and> load p = load_record to_str tool rows p"
    and "fresh_ids next_row" "codec_laws (bs_codec src)"
    and inj: "\<And>p q key. to_str p = Some key \<Longrightarrow> to_str q = Some key \<Longrightarrow> p = q"
  shows "\<exists>reuse. build_from_jars src lower limits root jars mr m (Some load) = Some (Inr (idx, reuse))"
proof -
  have "good_payload src p payload" if "load p = Some payload" for p payload
  proof -
    from lookups [of p] obtain rows where rows: "cache_history src lower next_row to_str tool rows" "load p = load_record to_str tool rows p"
      by blast
    have "good_rows src to_str tool rows" by (rule cache_history_good [OF rows(1) assms(3) inj])
    then show ?thesis using that unfolding rows(2) good_rows_def by blast
  qed
  then have "cache_sound src limits m load p identity" for p identity
    by (intro written_sound assms(4)) (simp add: good_payload_def)
  then show ?thesis by (intro same_build [OF _ cold]) auto
qed

text \<open>One build of a class directory, its write, and a second build over the table.\<close>

definition plain_path :: path where "plain_path = [lit ''a-1.jar'']"

definition plain_to_str :: "path \<Rightarrow> str option" where
  "plain_to_str p = (if p = plain_path then Some (lit ''a-1.jar'') else None)"

theorem cached_builds_agree_witness:
  "\<exists>idx reuse rows. cache_history plain_source (\<lambda>s. s) demo_next plain_to_str [] rows \<and> load_record plain_to_str [] rows plain_path = Some [1] \<and>
     build_from_jars plain_source (\<lambda>s. s) sample_limits [] [(plain_path, sample_identity)] 9 8 None =
       Some (Inr (idx, \<lparr> ru_reused = [], ru_built = 0, ru_persistable = [] \<rparr>)) \<and>
     build_from_jars plain_source (\<lambda>s. s) sample_limits [] [(plain_path, sample_identity)] 9 8
       (Some (load_record plain_to_str [] rows)) = Some (Inr (idx, reuse))"
proof -
  let ?jars = "[(plain_path, sample_identity)]"
  let ?idx = "index_of_records (\<lambda>s. s) [] 9 8 [plain_jar]"
  let ?reuse = "\<lparr> ru_reused = [], ru_built = 1, ru_persistable = [(plain_path, [1])] \<rparr>"
  let ?row = "\<lparr> row_id = 1, row_kind = RECORD_KIND, row_key = lit ''a-1.jar'', row_tool = [], row_payload = [1], row_bytes = 8,
    row_last_used = 5 \<rparr>"
  have stamps: "capture_validity sample_limits (bs_stamps plain_source p) = Some [([], 9, 0)]" for p
    by (simp add: capture_validity_def plain_source_def sample_limits_def sat_add_def usize_max_def)
  have poll: "\<not> bs_cancelled plain_source i" for i by (simp add: plain_source_def)
  note build = build_from_jars_Inr build_step_def build_fresh_def Let_def plain_preflight plain_load poll stamps
    plain_charge plain_persistable plain_path_def
  have first: "build_from_jars plain_source (\<lambda>s. s) sample_limits [] ?jars 9 8 None =
      Some (Inr (?idx, \<lparr> ru_reused = [], ru_built = 0, ru_persistable = [] \<rparr>))"
    by (simp add: build del: lit.simps One_nat_def)
  have second: "build_from_jars plain_source (\<lambda>s. s) sample_limits [] ?jars 9 8 (Some (load_record plain_to_str [] [])) =
      Some (Inr (?idx, ?reuse))"
    by (simp add: build load_record_def load_row_def plain_to_str_def del: lit.simps One_nat_def)
  have wrote: "try_write demo_next plain_to_str 5 100 [] (build_update None ?reuse) [] = Inr [?row]"
    by (simp add: try_write_def build_update_def apply_update_def upsert_def plain_to_str_def demo_next_def evict_to_budget_def
        total_row_bytes_def row_entry_bytes_def I64_MAX_def Let_def map_filter_def)
  have codec: "codec_laws (bs_codec plain_source)" by (simp add: plain_codec sample_codec_laws)
  have range: "rl_index_entries sample_limits \<le> usize_max" "rl_index_name_bytes sample_limits \<le> usize_max"
    by (simp_all add: sample_limits_def usize_max_def)
  have history: "cache_history plain_source (\<lambda>s. s) demo_next plain_to_str [] [?row]"
    by (rule cache_history.built [OF settled_stamps_tell_same refl range second cache_history.created wrote])
  have inj: "p = q" if "plain_to_str p = Some key" "plain_to_str q = Some key" for p q key
    using that by (simp add: plain_to_str_def split: if_splits)
  have lookup: "load_record plain_to_str [] [?row] plain_path = Some [1]"
    by (simp add: load_record_def load_row_def plain_to_str_def)
  have "\<exists>reuse. build_from_jars plain_source (\<lambda>s. s) sample_limits [] ?jars 9 8 (Some (load_record plain_to_str [] [?row])) =
      Some (Inr (?idx, reuse))"
    by (rule cached_builds_agree [OF first _ demo_next_fresh codec inj]) (use history in auto)
  then obtain reuse where "build_from_jars plain_source (\<lambda>s. s) sample_limits [] ?jars 9 8
      (Some (load_record plain_to_str [] [?row])) = Some (Inr (?idx, reuse))" ..
  then show ?thesis using first history lookup by (intro exI conjI)
qed

end
