(* ===== verification/Cache_Recovery.thy ===== *)
theory Cache_Recovery
  imports Text_Laws
begin

text \<open>
  Recovery of a damaged database (\<open>src/src/index_cache.rs\<close>, \<open>open\<close>, \<open>write\<close>, \<open>recover\<close>, \<open>reset\<close>): processes of one
  user that share a database file and a lock file holding the recovery epoch, as steps of a system.  A
  database file is named by the number of deletions before its creation; a file is only ever created where
  none is, so the name is unique.
\<close>

section \<open>The protocol\<close>

text \<open>
  Where a process stands: holding the shared lock with the epoch it read (\<open>open\<close>), using a database in a
  write, having diagnosed a file as damaged with the epoch observed before, holding the exclusive lock in
  \<open>recover\<close> before the deletion, between deletion and the new epoch, and before opening the file again.
\<close>

datatype recovery_stage =
  At_Idle
| At_Opening "64 word"
| At_Using nat
| At_Damaged "64 word" nat
| At_Recovering "64 word" nat
| At_Deleted "64 word" nat
| At_Reopening

text \<open>
  \<open>rv_write\<close> is the epoch a process observed at the start of a running write; \<open>rv_damaged\<close> are the files that were
  damaged, \<open>rv_deleted\<close> the deletions, latest first: the file diagnosed and the file at the path,
  \<open>rv_recoveries\<close> counts the epochs written, and \<open>rv_interrupted\<close> the recoveries that ended between the deletion and the new
  epoch.
\<close>

record recovery =
  rv_epoch :: "64 word"
  rv_database :: "nat option"
  rv_stage :: "nat \<Rightarrow> recovery_stage"
  rv_write :: "nat \<Rightarrow> 64 word option"
  rv_damaged :: "nat set"
  rv_deleted :: "(nat \<times> nat option) list"
  rv_recoveries :: nat
  rv_interrupted :: nat

definition start_recovery :: recovery where
  "start_recovery =
     \<lparr> rv_epoch = 0, rv_database = None, rv_stage = (\<lambda>_. At_Idle), rv_write = (\<lambda>_. None), rv_damaged = {}, rv_deleted = [],
       rv_recoveries = 0, rv_interrupted = 0 \<rparr>"

fun holds_shared :: "recovery_stage \<Rightarrow> bool" where
  "holds_shared (At_Opening e) = True"
| "holds_shared _ = False"

fun holds_exclusive :: "recovery_stage \<Rightarrow> bool" where
  "holds_exclusive (At_Recovering e i) = True"
| "holds_exclusive (At_Deleted e i) = True"
| "holds_exclusive At_Reopening = True"
| "holds_exclusive _ = False"

definition shared_free :: "recovery \<Rightarrow> bool" where
  "shared_free s \<longleftrightarrow> (\<forall>p. \<not> holds_exclusive (rv_stage s p))"

definition exclusive_free :: "recovery \<Rightarrow> bool" where
  "exclusive_free s \<longleftrightarrow> (\<forall>p. \<not> holds_exclusive (rv_stage s p) \<and> \<not> holds_shared (rv_stage s p))"

definition go :: "nat \<Rightarrow> recovery_stage \<Rightarrow> recovery \<Rightarrow> recovery" where
  "go p st s = s \<lparr> rv_stage := (rv_stage s)(p := st) \<rparr>"

definition set_write :: "nat \<Rightarrow> 64 word option \<Rightarrow> recovery \<Rightarrow> recovery" where
  "set_write p e s = s \<lparr> rv_write := (rv_write s)(p := e) \<rparr>"

text \<open>Whether the file a process diagnosed is still the one at the path, and the epoch of the next file.\<close>

definition reset_needed :: "64 word \<Rightarrow> 64 word \<Rightarrow> bool" where
  "reset_needed observed current \<longleftrightarrow> current = observed"

definition next_epoch :: "64 word \<Rightarrow> 64 word" where
  "next_epoch current = current + 1"

definition reset :: "nat \<Rightarrow> recovery \<Rightarrow> recovery" where
  "reset i s = s \<lparr> rv_database := None, rv_deleted := (i, rv_database s) # rv_deleted s \<rparr>"

definition write_epoch :: "64 word \<Rightarrow> recovery \<Rightarrow> recovery" where
  "write_epoch e s = s \<lparr> rv_epoch := e, rv_recoveries := rv_recoveries s + 1 \<rparr>"

text \<open>
  The epoch is the decimal text of the lock file; \<open>write_epoch\<close> empties the file, writes the digits and
  syncs.  A process that dies or gets an error on the way leaves the old text, some first digits of the new one, or all of them.
\<close>

definition read_epoch :: "str \<Rightarrow> 64 word" where
  "read_epoch text = (case parse_usize (trim text) of Some n \<Rightarrow> word_of_nat n | None \<Rightarrow> 0)"

definition epoch_text :: "64 word \<Rightarrow> str" where
  "epoch_text e = fmt_dec (unat e)"

definition epoch_left :: "64 word \<Rightarrow> 64 word \<Rightarrow> bool" where
  "epoch_left current e \<longleftrightarrow>
     e = current \<or> (\<exists>n\<le>length (epoch_text (next_epoch current)). e = read_epoch (take n (epoch_text (next_epoch current))))"

definition interrupt :: "64 word \<Rightarrow> recovery \<Rightarrow> recovery" where
  "interrupt e s = s \<lparr> rv_epoch := e, rv_interrupted := rv_interrupted s + 1 \<rparr>"

definition create_database :: "recovery \<Rightarrow> recovery" where
  "create_database s = s \<lparr> rv_database := Some (length (rv_deleted s)) \<rparr>"

text \<open>The end of an \<open>open\<close>: a write goes on with the connection, any other caller leaves.\<close>

definition opened :: "nat \<Rightarrow> nat \<Rightarrow> recovery \<Rightarrow> recovery" where
  "opened p i s = (case rv_write s p of None \<Rightarrow> go p At_Idle s | Some _ \<Rightarrow> go p (At_Using i) s)"

text \<open>
  The steps of the processes.  Only a damaged file is diagnosed.  At any moment a process may leave, because it
  dies or because a call of the system returns an error, and releases its lock: also after the deletion, when
  \<open>write_epoch\<close> has not finished (\<open>interrupted\<close>), and, by \<open>leaves\<close>, when \<open>reset\<close> cannot delete the database.
\<close>

inductive recovery_step :: "recovery \<Rightarrow> recovery \<Rightarrow> bool" where
  write_starts: "rv_stage s p = At_Idle \<Longrightarrow> rv_write s p = None \<Longrightarrow> shared_free s \<Longrightarrow>
    recovery_step s (set_write p (Some (rv_epoch s)) s)"
| open_starts: "rv_stage s p = At_Idle \<Longrightarrow> shared_free s \<Longrightarrow> recovery_step s (go p (At_Opening (rv_epoch s)) s)"
| creates: "holds_shared (rv_stage s p) \<or> rv_stage s p = At_Reopening \<Longrightarrow> rv_database s = None \<Longrightarrow>
    recovery_step s (create_database s)"
| opens: "rv_stage s p = At_Opening e \<Longrightarrow> rv_database s = Some i \<Longrightarrow> recovery_step s (opened p i s)"
| open_damaged: "rv_stage s p = At_Opening e \<Longrightarrow> rv_database s = Some i \<Longrightarrow> i \<in> rv_damaged s \<Longrightarrow>
    recovery_step s (go p (At_Damaged e i) s)"
| write_ends: "rv_stage s p = At_Using i \<Longrightarrow> recovery_step s (set_write p None (go p At_Idle s))"
| write_damaged: "rv_stage s p = At_Using i \<Longrightarrow> rv_write s p = Some e \<Longrightarrow> i \<in> rv_damaged s \<Longrightarrow>
    recovery_step s (set_write p None (go p (At_Damaged e i) s))"
| locks: "rv_stage s p = At_Damaged e i \<Longrightarrow> exclusive_free s \<Longrightarrow> recovery_step s (go p (At_Recovering e i) s)"
| resets: "rv_stage s p = At_Recovering e i \<Longrightarrow> reset_needed e (rv_epoch s) \<Longrightarrow>
    recovery_step s (go p (At_Deleted e i) (reset i s))"
| already_reset: "rv_stage s p = At_Recovering e i \<Longrightarrow> \<not> reset_needed e (rv_epoch s) \<Longrightarrow>
    recovery_step s (go p At_Reopening s)"
| writes_epoch: "rv_stage s p = At_Deleted e i \<Longrightarrow>
    recovery_step s (go p At_Reopening (write_epoch (next_epoch e) s))"
| reopens: "rv_stage s p = At_Reopening \<Longrightarrow> rv_database s = Some i \<Longrightarrow> recovery_step s (opened p i s)"
| leaves: "(\<And>e i. rv_stage s p \<noteq> At_Deleted e i) \<Longrightarrow> recovery_step s (set_write p None (go p At_Idle s))"
| interrupted: "rv_stage s p = At_Deleted e i \<Longrightarrow> epoch_left e e' \<Longrightarrow>
    recovery_step s (set_write p None (go p At_Idle (interrupt e' s)))"
| damages: "rv_database s = Some i \<Longrightarrow> recovery_step s (s \<lparr> rv_damaged := insert i (rv_damaged s) \<rparr>)"

section \<open>The invariant\<close>

text \<open>An epoch observed when \<open>n\<close> recoveries were done belongs to no file older than that.\<close>

definition observed :: "recovery \<Rightarrow> 64 word \<Rightarrow> nat \<Rightarrow> bool" where
  "observed s e i \<longleftrightarrow> (\<exists>n. e = word_of_nat n \<and> n \<le> rv_recoveries s \<and> n \<le> i)"

fun stage_ok :: "recovery \<Rightarrow> nat \<Rightarrow> recovery_stage \<Rightarrow> bool" where
  "stage_ok s p At_Idle = True"
| "stage_ok s p (At_Opening e) \<longleftrightarrow> e = rv_epoch s \<and> length (rv_deleted s) = rv_recoveries s"
| "stage_ok s p (At_Using i) \<longleftrightarrow> i \<le> length (rv_deleted s) \<and> (i = length (rv_deleted s) \<longrightarrow> rv_database s = Some i) \<and>
     (\<forall>e. rv_write s p = Some e \<longrightarrow> observed s e i)"
| "stage_ok s p (At_Damaged e i) \<longleftrightarrow> i \<le> length (rv_deleted s) \<and> (i = length (rv_deleted s) \<longrightarrow> rv_database s = Some i) \<and>
     observed s e i \<and> i \<in> rv_damaged s"
| "stage_ok s p (At_Recovering e i) \<longleftrightarrow> i \<le> length (rv_deleted s) \<and> (i = length (rv_deleted s) \<longrightarrow> rv_database s = Some i) \<and>
     observed s e i \<and> i \<in> rv_damaged s \<and> length (rv_deleted s) = rv_recoveries s"
| "stage_ok s p (At_Deleted e i) \<longleftrightarrow> e = rv_epoch s \<and> rv_database s = None \<and> length (rv_deleted s) = Suc (rv_recoveries s)"
| "stage_ok s p At_Reopening \<longleftrightarrow> length (rv_deleted s) = rv_recoveries s"

definition exclusive_alone :: "recovery \<Rightarrow> bool" where
  "exclusive_alone s \<longleftrightarrow> (\<forall>p q. holds_exclusive (rv_stage s p) \<and> (holds_exclusive (rv_stage s q) \<or> holds_shared (rv_stage s q)) \<longrightarrow> p = q)"

definition recovery_inv :: "recovery \<Rightarrow> bool" where
  "recovery_inv s \<longleftrightarrow> rv_epoch s = word_of_nat (rv_recoveries s) \<and> exclusive_alone s \<and>
     (shared_free s \<longrightarrow> length (rv_deleted s) = rv_recoveries s) \<and>
     rv_recoveries s \<le> length (rv_deleted s) \<and>
     (\<forall>i. rv_database s = Some i \<longrightarrow> i = length (rv_deleted s)) \<and>
     (\<forall>p. stage_ok s p (rv_stage s p)) \<and>
     (\<forall>p e. rv_write s p = Some e \<longrightarrow> (\<exists>n\<le>rv_recoveries s. e = word_of_nat n)) \<and>
     (rv_recoveries s < 2 ^ 64 \<longrightarrow>
        map fst (rv_deleted s) = rev [0..<length (rv_deleted s)] \<and>
        (\<forall>(i, found)\<in>set (rv_deleted s). found = Some i \<and> i \<in> rv_damaged s))"

lemma go_fields [simp]:
  "rv_epoch (go p st s) = rv_epoch s" "rv_database (go p st s) = rv_database s" "rv_write (go p st s) = rv_write s"
  "rv_damaged (go p st s) = rv_damaged s" "rv_deleted (go p st s) = rv_deleted s" "rv_recoveries (go p st s) = rv_recoveries s"
  "rv_interrupted (go p st s) = rv_interrupted s"
  "rv_stage (go p st s) = (rv_stage s)(p := st)"
  by (simp_all add: go_def)

lemma set_write_fields [simp]:
  "rv_epoch (set_write p w s) = rv_epoch s" "rv_database (set_write p w s) = rv_database s"
  "rv_write (set_write p w s) = (rv_write s)(p := w)"
  "rv_damaged (set_write p w s) = rv_damaged s" "rv_deleted (set_write p w s) = rv_deleted s"
  "rv_recoveries (set_write p w s) = rv_recoveries s" "rv_stage (set_write p w s) = rv_stage s"
  "rv_interrupted (set_write p w s) = rv_interrupted s"
  by (simp_all add: set_write_def)

lemma observed_go [simp]: "observed (go p st s) e i = observed s e i" "observed (set_write p w s) e i = observed s e i"
  by (simp_all add: observed_def)

lemma stage_ok_go [simp]: "stage_ok (go p st s) q st' = stage_ok s q st'"
  by (cases st') simp_all

lemma stage_ok_set_write: "stage_ok s q st \<Longrightarrow> q \<noteq> p \<or> w = None \<or> (\<forall>i. st \<noteq> At_Using i) \<Longrightarrow> stage_ok (set_write p w s) q st"
  by (cases st) auto

lemma shared_free_go: "shared_free (go p st s) \<longleftrightarrow> \<not> holds_exclusive st \<and> (\<forall>q. q \<noteq> p \<longrightarrow> \<not> holds_exclusive (rv_stage s q))"
  by (auto simp: shared_free_def)

lemma not_shared_free: "holds_exclusive (rv_stage s p) \<Longrightarrow> \<not> shared_free s"
  by (auto simp: shared_free_def)

lemma write_epoch_fields [simp]:
  "rv_epoch (write_epoch e s) = e" "rv_database (write_epoch e s) = rv_database s" "rv_write (write_epoch e s) = rv_write s"
  "rv_damaged (write_epoch e s) = rv_damaged s" "rv_deleted (write_epoch e s) = rv_deleted s"
  "rv_recoveries (write_epoch e s) = Suc (rv_recoveries s)" "rv_stage (write_epoch e s) = rv_stage s"
  "rv_interrupted (write_epoch e s) = rv_interrupted s"
  by (simp_all add: write_epoch_def)

text \<open>What the invariant says, part by part.\<close>

lemma recovery_invD:
  assumes "recovery_inv s"
  shows "rv_epoch s = word_of_nat (rv_recoveries s)" "exclusive_alone s"
    "shared_free s \<Longrightarrow> length (rv_deleted s) = rv_recoveries s" "rv_recoveries s \<le> length (rv_deleted s)"
    "rv_database s = Some i \<Longrightarrow> i = length (rv_deleted s)" "stage_ok s p (rv_stage s p)"
    "rv_write s p = Some e \<Longrightarrow> \<exists>n\<le>rv_recoveries s. e = word_of_nat n"
    "rv_recoveries s < 2 ^ 64 \<Longrightarrow> map fst (rv_deleted s) = rev [0..<length (rv_deleted s)] \<and>
       (\<forall>(i, found)\<in>set (rv_deleted s). found = Some i \<and> i \<in> rv_damaged s)"
  using assms unfolding recovery_inv_def by blast+

text \<open>A process that only moves between stages keeps the invariant when its new stage is fine.\<close>

lemma inv_go:
  assumes inv: "recovery_inv s" and ok: "stage_ok s p st"
    and alone: "exclusive_alone (go p st s)"
    and free: "shared_free (go p st s) \<Longrightarrow> length (rv_deleted s) = rv_recoveries s"
  shows "recovery_inv (go p st s)"
  using recovery_invD [OF inv] ok alone free unfolding recovery_inv_def by auto

lemma alone_leaves: "exclusive_alone s \<Longrightarrow> \<not> holds_exclusive st \<Longrightarrow> \<not> holds_shared st \<Longrightarrow> exclusive_alone (go p st s)"
  unfolding exclusive_alone_def by (auto split: if_splits)

lemma alone_same:
  "exclusive_alone s \<Longrightarrow> holds_exclusive (rv_stage s p) \<Longrightarrow> holds_exclusive st \<Longrightarrow> \<not> holds_shared st \<Longrightarrow> exclusive_alone (go p st s)"
  unfolding exclusive_alone_def by (auto split: if_splits)

lemma alone_shared: "exclusive_alone s \<Longrightarrow> shared_free s \<Longrightarrow> \<not> holds_exclusive st \<Longrightarrow> exclusive_alone (go p st s)"
  unfolding exclusive_alone_def shared_free_def by (auto split: if_splits)

lemma alone_locks: "exclusive_free s \<Longrightarrow> \<not> holds_shared st \<Longrightarrow> exclusive_alone (go p st s)"
  unfolding exclusive_alone_def exclusive_free_def by (auto split: if_splits)

lemma inv_set_write:
  assumes inv: "recovery_inv s" and w: "\<And>e. w = Some e \<Longrightarrow> e = rv_epoch s \<and> (\<forall>i. rv_stage s p \<noteq> At_Using i)"
  shows "recovery_inv (set_write p w s)"
proof -
  have "stage_ok (set_write p w s) q (rv_stage s q)" for q
    using recovery_invD(6) [OF inv, of q] w by (intro stage_ok_set_write) (cases w; auto)+
  moreover have "exclusive_alone (set_write p w s)" "shared_free (set_write p w s) = shared_free s"
    using recovery_invD(2) [OF inv] by (simp_all add: exclusive_alone_def shared_free_def)
  ultimately show ?thesis using recovery_invD(1,3-5,7,8) [OF inv] w unfolding recovery_inv_def by auto
qed

text \<open>Steps that leave the lock alone.\<close>

lemma inv_leaves:
  assumes inv: "recovery_inv s" and st: "\<not> holds_exclusive st" "\<not> holds_shared st" "stage_ok s p st"
    and recovery_stage: "\<And>e i. rv_stage s p \<noteq> At_Deleted e i"
  shows "recovery_inv (go p st s)"
proof (rule inv_go [OF inv st(3) alone_leaves [OF recovery_invD(2) [OF inv] st(1,2)]])
  assume free: "shared_free (go p st s)"
  show "length (rv_deleted s) = rv_recoveries s"
  proof (cases "holds_exclusive (rv_stage s p)")
    case True
    then show ?thesis using recovery_invD(6) [OF inv, of p] recovery_stage by (cases "rv_stage s p") auto
  next
    case False
    then have "shared_free s" using free by (metis shared_free_def shared_free_go)
    then show ?thesis by (rule recovery_invD(3) [OF inv])
  qed
qed

lemma inv_opened:
  assumes inv: "recovery_inv s" and database: "rv_database s = Some i" and settled: "length (rv_deleted s) = rv_recoveries s"
    and recovery_stage: "\<And>e i. rv_stage s p \<noteq> At_Deleted e i"
  shows "recovery_inv (opened p i s)"
proof (cases "rv_write s p")
  case None
  then show ?thesis using inv_leaves [OF inv, of At_Idle p] recovery_stage by (simp add: opened_def)
next
  case (Some e)
  from recovery_invD(7) [OF inv Some] obtain n where "n \<le> rv_recoveries s" "e = word_of_nat n" by blast
  then have "observed s e i" using recovery_invD(5) [OF inv database] settled by (auto simp: observed_def)
  then have "stage_ok s p (At_Using i)" using recovery_invD(5) [OF inv database] database Some by simp
  then show ?thesis using inv_leaves [OF inv, of "At_Using i" p] recovery_stage Some by (simp add: opened_def)
qed

text \<open>Creating, damaging, deleting a file and writing the epoch.\<close>

lemma inv_create:
  assumes inv: "recovery_inv s" and none: "rv_database s = None"
    and recovery_stage: "holds_shared (rv_stage s p) \<or> rv_stage s p = At_Reopening"
  shows "recovery_inv (create_database s)"
proof -
  have "stage_ok (create_database s) q (rv_stage s q)" for q
  proof (cases "rv_stage s q")
    case (At_Deleted e i)
    then have "holds_exclusive (rv_stage s q)" by simp
    moreover have "holds_exclusive (rv_stage s p) \<or> holds_shared (rv_stage s p)" using recovery_stage by auto
    ultimately have "q = p" using recovery_invD(2) [OF inv] unfolding exclusive_alone_def by blast
    then show ?thesis using recovery_stage At_Deleted by simp
  qed (use recovery_invD(6) [OF inv, of q] none in \<open>auto simp: create_database_def observed_def\<close>)
  moreover have "exclusive_alone (create_database s)" "shared_free (create_database s) = shared_free s"
    using recovery_invD(2) [OF inv] by (simp_all add: exclusive_alone_def shared_free_def create_database_def)
  ultimately show ?thesis using recovery_invD(1,3,4,7,8) [OF inv] unfolding recovery_inv_def by (auto simp: create_database_def)
qed

lemma inv_damages:
  assumes inv: "recovery_inv s" shows "recovery_inv (s \<lparr> rv_damaged := insert i (rv_damaged s) \<rparr>)"
proof -
  have "stage_ok (s \<lparr> rv_damaged := insert i (rv_damaged s) \<rparr>) q (rv_stage s q)" for q
    using recovery_invD(6) [OF inv, of q] by (cases "rv_stage s q") (auto simp: observed_def)
  moreover have "exclusive_alone (s \<lparr> rv_damaged := insert i (rv_damaged s) \<rparr>)"
    "shared_free (s \<lparr> rv_damaged := insert i (rv_damaged s) \<rparr>) = shared_free s"
    using recovery_invD(2) [OF inv] by (simp_all add: exclusive_alone_def shared_free_def)
  ultimately show ?thesis using recovery_invD(1,3-5,7,8) [OF inv] unfolding recovery_inv_def by auto
qed

lemma others_idle:
  assumes "exclusive_alone s" "holds_exclusive (rv_stage s p)" "q \<noteq> p"
  shows "\<not> holds_exclusive (rv_stage s q)" "\<not> holds_shared (rv_stage s q)"
  using assms unfolding exclusive_alone_def by blast+

lemma word_of_nat_64_inj: "n < 2 ^ 64 \<Longrightarrow> k < 2 ^ 64 \<Longrightarrow> (word_of_nat n :: 64 word) = word_of_nat k \<Longrightarrow> n = k"
proof -
  assume bound: "n < 2 ^ 64" "k < 2 ^ 64" and "(word_of_nat n :: 64 word) = word_of_nat k"
  then have "unat (word_of_nat n :: 64 word) = unat (word_of_nat k :: 64 word)" by simp
  then show "n = k" using bound by (simp add: unsigned_of_nat take_bit_nat_eq_self)
qed

lemma resets_damaged:
  assumes inv: "recovery_inv s" and recovery_stage: "rv_stage s p = At_Recovering e i" and needed: "reset_needed e (rv_epoch s)"
    and few: "rv_recoveries s < 2 ^ 64"
  shows "rv_database s = Some i \<and> i = length (rv_deleted s) \<and> i \<in> rv_damaged s"
proof -
  have ok: "i \<le> length (rv_deleted s)" "i = length (rv_deleted s) \<longrightarrow> rv_database s = Some i" "observed s e i" "i \<in> rv_damaged s"
    "length (rv_deleted s) = rv_recoveries s"
    using recovery_invD(6) [OF inv, of p] recovery_stage by simp_all
  from ok(3) obtain n where n: "e = word_of_nat n" "n \<le> rv_recoveries s" "n \<le> i" by (auto simp: observed_def)
  have "(word_of_nat n :: 64 word) = word_of_nat (rv_recoveries s)"
    using needed n(1) recovery_invD(1) [OF inv] by (simp add: reset_needed_def)
  then have "n = rv_recoveries s" using n(2) few by (intro word_of_nat_64_inj) simp_all
  then show ?thesis using ok n(3) by simp
qed

lemma inv_resets:
  assumes inv: "recovery_inv s" and recovery_stage: "rv_stage s p = At_Recovering e i" and needed: "reset_needed e (rv_epoch s)"
  shows "recovery_inv (go p (At_Deleted e i) (reset i s))"
proof -
  let ?t = "go p (At_Deleted e i) (reset i s)"
  have fields: "rv_epoch ?t = rv_epoch s" "rv_database ?t = None" "rv_write ?t = rv_write s" "rv_damaged ?t = rv_damaged s"
    "rv_deleted ?t = (i, rv_database s) # rv_deleted s" "rv_recoveries ?t = rv_recoveries s"
    "rv_stage ?t = (rv_stage s)(p := At_Deleted e i)"
    by (simp_all add: reset_def)
  have settled: "length (rv_deleted s) = rv_recoveries s" using recovery_invD(6) [OF inv, of p] recovery_stage by simp
  have exclusive: "holds_exclusive (rv_stage s p)" using recovery_stage by simp
  note others = others_idle [OF recovery_invD(2) [OF inv] exclusive]
  have "stage_ok ?t q (rv_stage ?t q)" for q
  proof (cases "q = p")
    case True
    then show ?thesis using needed settled by (simp add: reset_def reset_needed_def)
  next
    case False
    then show ?thesis using recovery_invD(6) [OF inv, of q] others [OF False]
      by (cases "rv_stage s q") (auto simp: fields observed_def reset_def)
  qed
  moreover have "exclusive_alone ?t" using others unfolding exclusive_alone_def fields(7) by auto
  moreover have "\<not> shared_free ?t" by (rule not_shared_free [of _ p]) simp
  moreover have "map fst (rv_deleted ?t) = rev [0..<length (rv_deleted ?t)] \<and>
      (\<forall>(i, found)\<in>set (rv_deleted ?t). found = Some i \<and> i \<in> rv_damaged ?t)" if "rv_recoveries s < 2 ^ 64"
    using resets_damaged [OF inv recovery_stage needed that] recovery_invD(8) [OF inv that] unfolding fields by auto
  ultimately show ?thesis using recovery_invD(1,4,7) [OF inv] unfolding recovery_inv_def fields(1-6) by auto
qed

lemma inv_writes_epoch:
  assumes inv: "recovery_inv s" and recovery_stage: "rv_stage s p = At_Deleted e i"
  shows "recovery_inv (go p At_Reopening (write_epoch (next_epoch e) s))"
proof -
  let ?t = "go p At_Reopening (write_epoch (next_epoch e) s)"
  have fields: "rv_epoch ?t = next_epoch e" "rv_database ?t = rv_database s" "rv_write ?t = rv_write s" "rv_damaged ?t = rv_damaged s"
    "rv_deleted ?t = rv_deleted s" "rv_recoveries ?t = Suc (rv_recoveries s)" "rv_stage ?t = (rv_stage s)(p := At_Reopening)"
    by simp_all
  have p: "e = rv_epoch s" "rv_database s = None" "length (rv_deleted s) = Suc (rv_recoveries s)"
    using recovery_invD(6) [OF inv, of p] recovery_stage by simp_all
  have exclusive: "holds_exclusive (rv_stage s p)" using recovery_stage by simp
  note others = others_idle [OF recovery_invD(2) [OF inv] exclusive]
  have "stage_ok ?t q (rv_stage ?t q)" for q
  proof (cases "q = p")
    case True
    then show ?thesis using p by simp
  next
    case False
    have "observed s e' j \<Longrightarrow> observed ?t e' j" for e' j unfolding observed_def fields using le_SucI by blast
    then show ?thesis using recovery_invD(6) [OF inv, of q] others [OF False] False
      by (cases "rv_stage s q") (auto simp: fields)
  qed
  moreover have "exclusive_alone ?t" using others unfolding exclusive_alone_def fields(7) by auto
  moreover have "rv_epoch ?t = word_of_nat (rv_recoveries ?t)"
    using recovery_invD(1) [OF inv] p(1) by (simp add: fields next_epoch_def add.commute)
  moreover have "\<exists>n\<le>rv_recoveries ?t. e' = word_of_nat n" if "rv_write s q = Some e'" for q e'
    using recovery_invD(7) [OF inv that] by (auto simp: fields intro: le_SucI)
  ultimately show ?thesis using recovery_invD(5,8) [OF inv] p(2,3) unfolding recovery_inv_def fields(2-6) by auto
qed

lemma recovery_step_inv:
  assumes "recovery_inv s" "recovery_step s t" "rv_interrupted t = 0" shows "recovery_inv t"
  using assms(2,1)
proof cases
  case (write_starts p)
  then show ?thesis using assms(1) by (auto intro: inv_set_write)
next
  case (open_starts p)
  then show ?thesis using recovery_invD(2,3) [OF assms(1)] alone_shared
    by (auto intro!: inv_go [OF assms(1)])
next
  case (creates p)
  then show ?thesis using inv_create [OF assms(1)] by blast
next
  case (opens p e i)
  then show ?thesis using recovery_invD(6) [OF assms(1), of p] by (auto intro: inv_opened [OF assms(1)])
next
  case (open_damaged p e i)
  have ok: "e = rv_epoch s" "length (rv_deleted s) = rv_recoveries s"
    using recovery_invD(6) [OF assms(1), of p] open_damaged by simp_all
  have i: "i = length (rv_deleted s)" by (rule recovery_invD(5) [OF assms(1) open_damaged(3)])
  have "observed s e i" unfolding observed_def using ok i recovery_invD(1) [OF assms(1)] by auto
  then show ?thesis using open_damaged i by (auto intro!: inv_leaves [OF assms(1)])
next
  case (write_ends p i)
  then show ?thesis by (auto intro!: inv_set_write inv_leaves [OF assms(1)])
next
  case (write_damaged p i e)
  then show ?thesis using recovery_invD(6) [OF assms(1), of p]
    by (auto intro!: inv_set_write inv_leaves [OF assms(1)])
next
  case (locks p e i)
  have "length (rv_deleted s) = rv_recoveries s"
    using recovery_invD(3) [OF assms(1)] locks by (simp add: exclusive_free_def shared_free_def)
  then show ?thesis using locks recovery_invD(6) [OF assms(1), of p] alone_locks
    by (auto intro!: inv_go [OF assms(1)])
next
  case (resets p e i)
  then show ?thesis using inv_resets [OF assms(1)] by blast
next
  case (already_reset p e i)
  then show ?thesis using recovery_invD(2,6) [OF assms(1)] alone_same [of s p At_Reopening]
    by (auto intro!: inv_go [OF assms(1)] dest: not_shared_free) (metis stage_ok.simps(5))+
next
  case (writes_epoch p e i)
  then show ?thesis using inv_writes_epoch [OF assms(1)] by blast
next
  case (reopens p i)
  then show ?thesis using recovery_invD(6) [OF assms(1), of p] by (auto intro: inv_opened [OF assms(1)])
next
  case (leaves p)
  then show ?thesis by (auto intro!: inv_set_write inv_leaves [OF assms(1)])
next
  case (interrupted p e i e')
  then show ?thesis using assms(3) by (simp add: interrupt_def)
next
  case (damages i)
  then show ?thesis using inv_damages [OF assms(1)] by blast
qed

text \<open>
  What holds in every run: one process at a time is in recovery, a diagnosed file is a damaged one, and as long as no
  recovery was interrupted the invariant above.
\<close>

definition diagnoses_ok :: "recovery \<Rightarrow> bool" where
  "diagnoses_ok s \<longleftrightarrow> (\<forall>p e i. rv_stage s p = At_Damaged e i \<or> rv_stage s p = At_Recovering e i \<longrightarrow> i \<in> rv_damaged s) \<and>
     (\<forall>(diagnosed, _)\<in>set (rv_deleted s). diagnosed \<in> rv_damaged s)"

definition recovery_ok :: "recovery \<Rightarrow> bool" where
  "recovery_ok s \<longleftrightarrow> exclusive_alone s \<and> diagnoses_ok s \<and> (rv_interrupted s = 0 \<longrightarrow> recovery_inv s)"

lemma diagnoses_leaves:
  "diagnoses_ok s \<Longrightarrow> (\<And>e i. st = At_Damaged e i \<or> st = At_Recovering e i \<Longrightarrow> i \<in> rv_damaged s) \<Longrightarrow> diagnoses_ok (go p st s)"
  by (auto simp: diagnoses_ok_def)

lemma diagnoses_same [simp]:
  "diagnoses_ok (set_write p w s) = diagnoses_ok s" "diagnoses_ok (write_epoch e s) = diagnoses_ok s"
  "diagnoses_ok (create_database s) = diagnoses_ok s" "diagnoses_ok (interrupt e s) = diagnoses_ok s"
  "exclusive_alone (set_write p w s) = exclusive_alone s" "exclusive_alone (write_epoch e s) = exclusive_alone s"
  "exclusive_alone (create_database s) = exclusive_alone s" "exclusive_alone (interrupt e s) = exclusive_alone s"
  "exclusive_alone (reset i s) = exclusive_alone s" "rv_stage (reset i s) = rv_stage s"
  by (simp_all add: diagnoses_ok_def exclusive_alone_def create_database_def interrupt_def reset_def)

lemma diagnoses_step:
  assumes "diagnoses_ok s" "recovery_step s t" shows "diagnoses_ok t"
  using assms(2)
proof cases
  case (resets p e i)
  then show ?thesis using assms(1) by (auto simp: diagnoses_ok_def reset_def)
next
  case (damages i)
  then show ?thesis using assms(1) by (auto simp: diagnoses_ok_def)
next
  case (locks p e i)
  then show ?thesis using assms(1) by (auto simp: diagnoses_ok_def)
qed (use assms(1) in \<open>auto simp: opened_def intro!: diagnoses_leaves split: option.split\<close>)

lemma alone_step:
  assumes "exclusive_alone s" "recovery_step s t" shows "exclusive_alone t"
  using assms(2)
proof cases
  case (open_starts p)
  then show ?thesis using alone_shared [OF assms(1)] by simp
next
  case (locks p e i)
  then show ?thesis using alone_locks by simp
next
  case (resets p e i)
  then show ?thesis using alone_same [of "reset i s" p "At_Deleted e i"] assms(1) by simp
next
  case (already_reset p e i)
  then show ?thesis using alone_same [OF assms(1), of p At_Reopening] by simp
next
  case (writes_epoch p e i)
  then show ?thesis using alone_same [of "write_epoch (next_epoch e) s" p At_Reopening] assms(1) by simp
next
  case (damages i)
  then show ?thesis using assms(1) by (simp add: exclusive_alone_def)
qed (use assms(1) in \<open>auto simp: opened_def intro!: alone_leaves split: option.split\<close>)

lemma interrupted_mono: "recovery_step s t \<Longrightarrow> rv_interrupted s \<le> rv_interrupted t"
  by (cases rule: recovery_step.cases) (auto simp: opened_def create_database_def reset_def interrupt_def split: option.split)

interpretation recovery: invariant_system recovery_step start_recovery recovery_ok
proof unfold_locales
  show "recovery_ok start_recovery"
    by (simp add: recovery_ok_def recovery_inv_def diagnoses_ok_def start_recovery_def exclusive_alone_def)
  show "recovery_ok t" if "recovery_ok s" "recovery_step s t" for s t
    using that alone_step diagnoses_step recovery_step_inv interrupted_mono [OF that(2)] unfolding recovery_ok_def by auto
qed

text \<open>
  Claim C13: recovery_deletes_damaged_once.  However the processes interleave, die, get errors or damage files, at most
  one process at a time is in recovery, with no other process opening the database, and every deletion was
  decided by the diagnosis of a damaged file.  As long as no process has died or failed between deleting a file and
  recording the new epoch, and fewer than \<open>2 ^ 64\<close> epochs were recorded, every deletion removes exactly the file
  its process had diagnosed, and no file is deleted twice.
\<close>

theorem recovery_deletes_damaged_once:
  assumes "recovery_step\<^sup>*\<^sup>* start_recovery s"
  shows "(\<forall>p q. holds_exclusive (rv_stage s p) \<and> (holds_exclusive (rv_stage s q) \<or> holds_shared (rv_stage s q)) \<longrightarrow> p = q) \<and>
    (\<forall>(diagnosed, found)\<in>set (rv_deleted s). diagnosed \<in> rv_damaged s) \<and>
    (rv_interrupted s = 0 \<and> rv_recoveries s < 2 ^ 64 \<longrightarrow>
      (\<forall>(diagnosed, found)\<in>set (rv_deleted s). found = Some diagnosed) \<and> distinct (map fst (rv_deleted s)))"
proof -
  have ok: "recovery_ok s" by (rule recovery.reachable_inv [OF assms(1)])
  have "distinct (map fst (rv_deleted s)) \<and> (\<forall>(diagnosed, found)\<in>set (rv_deleted s). found = Some diagnosed)"
    if "rv_interrupted s = 0" "rv_recoveries s < 2 ^ 64"
  proof -
    have "recovery_inv s" using ok that(1) by (simp add: recovery_ok_def)
    from recovery_invD(8) [OF this that(2)] show ?thesis by auto
  qed
  then show ?thesis using ok by (auto simp: recovery_ok_def exclusive_alone_def diagnoses_ok_def)
qed

lemma epoch_read_back: "read_epoch (epoch_text e) = e"
proof -
  have "unat e < 2 ^ 64" using unsigned_less [of e, where ?'a = nat] by simp
  then have "unat e \<le> usize_max" by (simp add: usize_max_def)
  moreover have "\<not> is_whitespace c" if "c \<in> set (epoch_text e)" for c
  proof -
    have "is_ascii_digit c" using fmt_dec_digits [of c "unat e"] that by (simp add: epoch_text_def)
    then show ?thesis by (auto simp: is_ascii_digit_def is_whitespace_def)
  qed
  then have "trim (epoch_text e) = epoch_text e"
    by (intro trim_id) (simp_all add: epoch_text_def)
  ultimately show ?thesis by (simp add: read_epoch_def epoch_text_def parse_usize_fmt_dec)
qed

section \<open>Runs\<close>

text \<open>Two processes diagnose the same file; the first deletes it and dies before it has written the epoch.\<close>

fun demo_stage :: "recovery_stage \<Rightarrow> recovery_stage \<Rightarrow> nat \<Rightarrow> recovery_stage" where
  "demo_stage a b p = (if p = 0 then a else if p = 1 then b else At_Idle)"

definition demo_state :: "nat option \<Rightarrow> recovery_stage \<Rightarrow> recovery_stage \<Rightarrow> nat set \<Rightarrow> (nat \<times> nat option) list \<Rightarrow> recovery" where
  "demo_state database a b damaged deleted =
     \<lparr> rv_epoch = 0, rv_database = database, rv_stage = demo_stage a b, rv_write = (\<lambda>_. None), rv_damaged = damaged,
       rv_deleted = deleted, rv_recoveries = 0, rv_interrupted = 0 \<rparr>"

lemma demo_fields [simp]:
  "rv_epoch (demo_state db a b dm dl) = 0" "rv_database (demo_state db a b dm dl) = db"
  "rv_stage (demo_state db a b dm dl) = demo_stage a b" "rv_write (demo_state db a b dm dl) p = None"
  "rv_damaged (demo_state db a b dm dl) = dm" "rv_deleted (demo_state db a b dm dl) = dl"
  "rv_recoveries (demo_state db a b dm dl) = 0" "rv_interrupted (demo_state db a b dm dl) = 0"
  by (simp_all add: demo_state_def)

lemma demo_free [simp]:
  "shared_free (demo_state db a b dm dl) \<longleftrightarrow> \<not> holds_exclusive a \<and> \<not> holds_exclusive b"
  "exclusive_free (demo_state db a b dm dl) \<longleftrightarrow>
     \<not> holds_exclusive a \<and> \<not> holds_exclusive b \<and> \<not> holds_shared a \<and> \<not> holds_shared b"
  by (auto simp: shared_free_def exclusive_free_def split: if_splits)

lemma demo_moves [simp]:
  "go 0 st (demo_state db a b dm dl) = demo_state db st b dm dl"
  "go (Suc 0) st (demo_state db a b dm dl) = demo_state db a st dm dl"
  "set_write p None (demo_state db a b dm dl) = demo_state db a b dm dl"
  "reset i (demo_state db a b dm dl) = demo_state None a b dm ((i, db) # dl)"
  "create_database (demo_state db a b dm dl) = demo_state (Some (length dl)) a b dm dl"
  "opened 0 i (demo_state db a b dm dl) = demo_state db At_Idle b dm dl"
  "demo_state db a b dm dl \<lparr> rv_damaged := dm' \<rparr> = demo_state db a b dm' dl"
  by (auto simp: go_def set_write_def reset_def create_database_def opened_def demo_state_def fun_eq_iff)

lemma demo_step:
  "recovery_step s t \<Longrightarrow> t = u \<Longrightarrow> recovery_step\<^sup>*\<^sup>* start s \<Longrightarrow> recovery_step\<^sup>*\<^sup>* start u"
  by (simp add: rtranclp.rtrancl_into_rtrancl)

lemma demo_diagnosed:
  "recovery_step\<^sup>*\<^sup>* start_recovery (demo_state (Some 0) (At_Damaged 0 0) (At_Damaged 0 0) {0} [])"
proof -
  have "start_recovery = demo_state None At_Idle At_Idle {} []"
    by (auto simp: start_recovery_def demo_state_def fun_eq_iff)
  then have "recovery_step\<^sup>*\<^sup>* start_recovery (demo_state None At_Idle At_Idle {} [])" by simp
  then have "recovery_step\<^sup>*\<^sup>* start_recovery (demo_state None (At_Opening 0) At_Idle {} [])"
    by (rule demo_step [OF recovery_step.open_starts [of _ 0], rotated 3]) simp_all
  then have "recovery_step\<^sup>*\<^sup>* start_recovery (demo_state None (At_Opening 0) (At_Opening 0) {} [])"
    by (rule demo_step [OF recovery_step.open_starts [of _ "Suc 0"], rotated 3]) simp_all
  then have "recovery_step\<^sup>*\<^sup>* start_recovery (demo_state (Some 0) (At_Opening 0) (At_Opening 0) {} [])"
    by (rule demo_step [OF recovery_step.creates [of _ 0], rotated 3]) simp_all
  then have "recovery_step\<^sup>*\<^sup>* start_recovery (demo_state (Some 0) (At_Opening 0) (At_Opening 0) {0} [])"
    by (rule demo_step [OF recovery_step.damages [of _ 0], rotated 2]) simp_all
  then have "recovery_step\<^sup>*\<^sup>* start_recovery (demo_state (Some 0) (At_Damaged 0 0) (At_Opening 0) {0} [])"
    by (rule demo_step [OF recovery_step.open_damaged [of _ 0 0 0], rotated 4]) simp_all
  then show ?thesis
    by (rule demo_step [OF recovery_step.open_damaged [of _ "Suc 0" 0 0], rotated 4]) simp_all
qed

lemma demo_deleted:
  "recovery_step\<^sup>*\<^sup>* start_recovery (demo_state None (At_Deleted 0 0) (At_Damaged 0 0) {0} [(0, Some 0)])"
proof -
  have "recovery_step\<^sup>*\<^sup>* start_recovery (demo_state (Some 0) (At_Recovering 0 0) (At_Damaged 0 0) {0} [])"
    by (rule demo_step [OF recovery_step.locks [of _ 0 0 0] _ demo_diagnosed]) simp_all
  then show ?thesis
    by (rule demo_step [OF recovery_step.resets [of _ 0 0 0], rotated 3]) (simp_all add: reset_needed_def)
qed

theorem recovery_deletes_damaged_once_witness:
  "\<exists>s. recovery_step\<^sup>*\<^sup>* start_recovery s \<and> rv_deleted s = [(0, Some 0)] \<and> distinct (map fst (rv_deleted s)) \<and>
     (\<forall>(diagnosed, found)\<in>set (rv_deleted s). found = Some diagnosed)"
proof -
  let ?s = "demo_state None (At_Deleted 0 0) (At_Damaged 0 0) {0} [(0, Some 0)]"
  have "rv_interrupted ?s = 0 \<and> rv_recoveries ?s < 2 ^ 64" by simp
  with recovery_deletes_damaged_once [OF demo_deleted]
  have result: "distinct (map fst (rv_deleted ?s)) \<and> (\<forall>(diagnosed, found)\<in>set (rv_deleted ?s). found = Some diagnosed)" by blast
  show ?thesis by (rule exI [of _ ?s], rule conjI [OF demo_deleted conjI [OF _ result]]) simp
qed

text \<open>
  The interrupted case: the epoch is still the one the second process observed, so it deletes the new, undamaged file
  although its diagnosis belongs to the deleted one.
\<close>

lemma interrupted_recovery_deletes_new_file:
  "\<exists>s. recovery_step\<^sup>*\<^sup>* start_recovery s \<and> (0, Some 1) \<in> set (rv_deleted s) \<and> 1 \<notin> rv_damaged s"
proof -
  let ?late = "\<lambda>db b dl. interrupt 0 (demo_state db At_Idle b {0} dl)"
  have late: "go 0 st (?late db b dl) = interrupt 0 (demo_state db st b {0} dl)" "go (Suc 0) st (?late db b dl) = ?late db st dl"
    "reset i (?late db b dl) = ?late None b ((i, db) # dl)"
    "rv_stage (interrupt 0 (demo_state db a b {0} dl)) = demo_stage a b" "rv_epoch (interrupt 0 (demo_state db a b {0} dl)) = 0"
    "rv_database (interrupt 0 (demo_state db a b {0} dl)) = db"
    "create_database (interrupt 0 (demo_state db a b {0} dl)) = interrupt 0 (demo_state (Some (length dl)) a b {0} dl)"
    "opened 0 i (interrupt 0 (demo_state db a b {0} dl)) = ?late db b dl"
    "shared_free (interrupt 0 (demo_state db a b {0} dl)) = shared_free (demo_state db a b {0} dl)"
    "exclusive_free (interrupt 0 (demo_state db a b {0} dl)) = exclusive_free (demo_state db a b {0} dl)"
    "set_write 0 None (go 0 At_Idle (interrupt 0 (demo_state db a b {0} dl))) = ?late db b dl" for db a b dl st i
    by (auto simp: go_def set_write_def reset_def create_database_def opened_def demo_state_def interrupt_def fun_eq_iff
      shared_free_def exclusive_free_def)
  have "recovery_step\<^sup>*\<^sup>* start_recovery (?late None (At_Damaged 0 0) [(0, Some 0)])"
    by (rule demo_step [OF recovery_step.interrupted [of _ 0 0 0 0] _ demo_deleted]) (simp_all add: late epoch_left_def)
  then have "recovery_step\<^sup>*\<^sup>* start_recovery (interrupt 0 (demo_state None (At_Opening 0) (At_Damaged 0 0) {0} [(0, Some 0)]))"
    by (rule demo_step [OF recovery_step.open_starts [of _ 0], rotated 3]) (simp_all add: late)
  then have "recovery_step\<^sup>*\<^sup>* start_recovery (interrupt 0 (demo_state (Some 1) (At_Opening 0) (At_Damaged 0 0) {0} [(0, Some 0)]))"
    by (rule demo_step [OF recovery_step.creates [of _ 0], rotated 3]) (simp_all add: late)
  then have "recovery_step\<^sup>*\<^sup>* start_recovery (?late (Some 1) (At_Damaged 0 0) [(0, Some 0)])"
    by (rule demo_step [OF recovery_step.opens [of _ 0 0 1], rotated 3]) (simp_all add: late)
  then have "recovery_step\<^sup>*\<^sup>* start_recovery (?late (Some 1) (At_Recovering 0 0) [(0, Some 0)])"
    by (rule demo_step [OF recovery_step.locks [of _ "Suc 0" 0 0], rotated 3]) (simp_all add: late)
  then have "recovery_step\<^sup>*\<^sup>* start_recovery (?late None (At_Deleted 0 0) [(0, Some 1), (0, Some 0)])"
    by (rule demo_step [OF recovery_step.resets [of _ "Suc 0" 0 0], rotated 3]) (simp_all add: reset_needed_def late)
  then show ?thesis
    by (intro exI [of _ "?late None (At_Deleted 0 0) [(0, Some 1), (0, Some 0)]"]) (simp add: interrupt_def)
qed

end
