(* ===== verification/Scoped_Build.thy ===== *)
theory Scoped_Build
  imports Model_Inputs Index_Build
begin

text \<open>
  The index of one project (\<open>src/src/index.rs\<close>, \<open>build_scoped_with\<close>, with the helpers of
  \<open>src/src/server.rs\<close>): the identity of every classpath entry in the local repository or the reactor, the
  coordinate of a reactor module from its POM and its parents, the JARs an index is built from, and
  the entries it reports instead.  The file system and the deserializer of POMs are parameters.
\<close>

section \<open>Reactor POMs\<close>

record ReactorPomParent =
  rq_group_id :: "str option"
  rq_artifact_id :: "str option"
  rq_version :: "str option"
  rq_relative_path :: "str option"

record ReactorPom =
  rp_group_id :: "str option"
  rp_artifact_id :: "str option"
  rp_version :: "str option"
  rp_parent :: "ReactorPomParent option"
  rp_properties :: "(str \<times> str) list"

definition MAX_REACTOR_PARENT_DEPTH :: nat where "MAX_REACTOR_PARENT_DEPTH = 16"
definition MAX_INTERPOLATION_DEPTH :: nat where "MAX_INTERPOLATION_DEPTH = 8"

text \<open>\<open>rx_text\<close> is \<open>fs::read_to_string\<close>, \<open>rx_parse\<close> the derived deserializer.\<close>

record reactor_files =
  rx_is_dir :: "path \<Rightarrow> bool"
  rx_is_file :: "path \<Rightarrow> bool"
  rx_canonicalize :: "path \<Rightarrow> path option"
  rx_text :: "path \<Rightarrow> str option"
  rx_reader :: "str \<Rightarrow> (str + xml_event) list"
  rx_content :: "path \<Rightarrow> str + file_content"
  rx_parse :: "str \<Rightarrow> ReactorPom option"

definition read_reactor_pom :: "reactor_files \<Rightarrow> resource_limits \<Rightarrow> path \<Rightarrow> ReactorPom option" where
  "read_reactor_pom fs limits p =
     (case read_bounded_xml (rx_reader fs) (rx_content fs) limits p of Inl _ \<Rightarrow> None | Inr xml \<Rightarrow> rx_parse fs xml)"

text \<open>\<open>BTreeMap::extend\<close>.\<close>

definition extend_map :: "('k::linorder \<times> 'v) list \<Rightarrow> ('k \<times> 'v) list \<Rightarrow> ('k \<times> 'v) list" where
  "extend_map entries m = fold (\<lambda>(k, v). bt_insert k v) entries m"

text \<open>The properties of the parents inside the reactor, nearest first; the first number is the depth left.\<close>

fun parent_chain :: "reactor_files \<Rightarrow> resource_limits \<Rightarrow> path \<Rightarrow> nat \<Rightarrow> path \<Rightarrow> str option option \<Rightarrow> (str \<times> str) list list" where
  "parent_chain fs limits root 0 current parent = []"
| "parent_chain fs limits root (Suc n) current None = []"
| "parent_chain fs limits root (Suc n) current (Some relative_path) =
     (let relative = trim (case relative_path of None \<Rightarrow> lit ''../pom.xml'' | Some r \<Rightarrow> r)
      in if relative = [] \<or> current = [] then []
         else
           let candidate = join_path (butlast current) relative;
               candidate = (if rx_is_dir fs candidate then candidate @ [lit ''pom.xml''] else candidate)
           in case rx_canonicalize fs candidate of
                None \<Rightarrow> []
              | Some candidate \<Rightarrow>
                  if \<not> path_starts_with candidate root \<or> candidate = current then []
                  else (case read_reactor_pom fs limits candidate of
                          None \<Rightarrow> []
                        | Some pom \<Rightarrow>
                            rp_properties pom #
                              parent_chain fs limits root n candidate (map_option rq_relative_path (rp_parent pom))))"

definition inherited_properties :: "reactor_files \<Rightarrow> resource_limits \<Rightarrow> path \<Rightarrow> path \<Rightarrow> ReactorPom \<Rightarrow> (str \<times> str) list" where
  "inherited_properties fs limits root module_pom pom =
     (let chain = parent_chain fs limits root MAX_REACTOR_PARENT_DEPTH module_pom (map_option rq_relative_path (rp_parent pom))
      in extend_map (rp_properties pom) (fold extend_map (rev chain) []))"

fun config_definitions :: "str list \<Rightarrow> (str \<times> str) list" where
  "config_definitions [] = []"
| "config_definitions (token # tokens) =
     (if token = lit ''-D'' \<or> token = lit ''--define''
      then (case tokens of
              [] \<Rightarrow> []
            | d # rest \<Rightarrow> (case split_once (lit ''='') d of None \<Rightarrow> [] | Some e \<Rightarrow> [e]) @ config_definitions rest)
      else
        let definition_text = (case strip_prefix (lit ''--define='') token of
              Some d \<Rightarrow> Some d | None \<Rightarrow> strip_prefix (lit ''-D'') token)
        in (case definition_text \<bind> split_once (lit ''='') of None \<Rightarrow> [] | Some e \<Rightarrow> [e]) @ config_definitions tokens)"

definition maven_config_properties :: "reactor_files \<Rightarrow> path \<Rightarrow> (str \<times> str) list" where
  "maven_config_properties fs root =
     (case rx_text fs (root @ [lit ''.mvn'', lit ''maven.config'']) of
        None \<Rightarrow> []
      | Some config \<Rightarrow> extend_map (config_definitions (split_whitespace config)) [])"

text \<open>One value: \<open>inner\<close> resolves a referenced value one level deeper, never at depth zero.\<close>

function interpolate_loop :: "(str \<Rightarrow> str option) \<Rightarrow> (str \<times> str) list \<Rightarrow> str \<Rightarrow> str option" where
  "interpolate_loop inner lookup rest =
     (case split_once (lit ''${'') rest of
        None \<Rightarrow> Some rest
      | Some (before, after) \<Rightarrow>
          (case split_once (lit ''}'') after of
             None \<Rightarrow> None
           | Some (name, rest') \<Rightarrow>
               map_of lookup name \<bind> inner \<bind> (\<lambda>replacement.
               map_option (\<lambda>resolved. before @ replacement @ resolved) (interpolate_loop inner lookup rest'))))"
  by pat_completeness auto

termination interpolate_loop
  by (relation "measure (\<lambda>(inner, lookup, rest). length rest)") (auto dest!: split_once_Some)

declare interpolate_loop.simps [simp del, loop_simps]

primrec interpolate_value :: "nat \<Rightarrow> (str \<times> str) list \<Rightarrow> str \<Rightarrow> str option" where
  "interpolate_value 0 lookup v = interpolate_loop (\<lambda>_. None) lookup v"
| "interpolate_value (Suc depth) lookup v = interpolate_loop (interpolate_value depth lookup) lookup v"

definition module_lookup :: "reactor_files \<Rightarrow> resource_limits \<Rightarrow> path \<Rightarrow> path \<Rightarrow> ReactorPom \<Rightarrow> str \<Rightarrow> str \<Rightarrow> str \<Rightarrow> (str \<times> str) list" where
  "module_lookup fs limits root module_pom pom raw_group raw_artifact raw_version =
     (let own = concat (map (\<lambda>(name, v). map (\<lambda>prefix. (prefix @ lit ''.'' @ name, v)) [lit ''project'', lit ''pom''])
            [(lit ''groupId'', raw_group), (lit ''artifactId'', raw_artifact), (lit ''version'', raw_version)]);
          inherited = (case rp_parent pom of
            None \<Rightarrow> []
          | Some parent \<Rightarrow> concat (map (\<lambda>(name, v). case v of
                None \<Rightarrow> []
              | Some v \<Rightarrow> [(lit ''project.parent.'' @ name, v), (lit ''parent.'' @ name, v)])
              [(lit ''groupId'', rq_group_id parent), (lit ''artifactId'', rq_artifact_id parent), (lit ''version'', rq_version parent)]))
      in extend_map (maven_config_properties fs root)
           (extend_map inherited (extend_map own (inherited_properties fs limits root module_pom pom))))"

definition resolve_value :: "(str \<times> str) list \<Rightarrow> str \<Rightarrow> str option" where
  "resolve_value lookup v =
     interpolate_value MAX_INTERPOLATION_DEPTH lookup (trim v) \<bind> (\<lambda>resolved.
       if resolved = [] \<or> contains (lit ''${'') resolved then None else Some resolved)"

definition reactor_module_coordinate :: "reactor_files \<Rightarrow> resource_limits \<Rightarrow> path \<Rightarrow> path \<Rightarrow> ArtifactKey option" where
  "reactor_module_coordinate fs limits root directory =
     (let module_pom = directory @ [lit ''pom.xml'']
      in read_reactor_pom fs limits module_pom \<bind> (\<lambda>pom.
         (case rp_group_id pom of Some g \<Rightarrow> Some g | None \<Rightarrow> rp_parent pom \<bind> rq_group_id) \<bind> (\<lambda>raw_group.
         (case rp_version pom of Some v \<Rightarrow> Some v | None \<Rightarrow> rp_parent pom \<bind> rq_version) \<bind> (\<lambda>raw_version.
         rp_artifact_id pom \<bind> (\<lambda>raw_artifact.
           let lookup = module_lookup fs limits root module_pom pom raw_group raw_artifact raw_version
           in resolve_value lookup raw_group \<bind> (\<lambda>g.
              resolve_value lookup raw_artifact \<bind> (\<lambda>a.
              resolve_value lookup raw_version \<bind> (\<lambda>v.
              Some \<lparr> ak_group_id = g, ak_artifact_id = a, ak_version = v \<rparr>))))))))"

section \<open>The identity of a classpath entry\<close>

datatype UnindexedReason = Missing | Not_Maven_Repository_Layout | Outside_Repository_And_Reactor | Unresolved_Reactor_Coordinate

definition OUTPUT_CLASSIFIER_SUFFIXES :: "str list" where
  "OUTPUT_CLASSIFIER_SUFFIXES = [TEST_SOURCES_CLASSIFIER, SOURCES_CLASSIFIER, TESTS_CLASSIFIER]"

definition output_classifier :: "reactor_files \<Rightarrow> ArtifactKey \<Rightarrow> path \<Rightarrow> str option option" where
  "output_classifier fs key p =
     path_file_name p \<bind> (\<lambda>file_name.
       if rx_is_dir fs p then Some (if file_name = lit ''test-classes'' then Some (lit ''tests'') else None)
       else
         strip_suffix (lit ''.jar'') file_name \<bind> (\<lambda>stem.
           if \<not> rx_is_file fs p then None
           else let named = find (\<lambda>c. ends_with (lit ''-'' @ c) stem) OUTPUT_CLASSIFIER_SUFFIXES
                in Some (case strip_prefix (ak_artifact_id key @ lit ''-'' @ ak_version key) stem of
                           None \<Rightarrow> named
                         | Some suffix \<Rightarrow>
                             if suffix = [] then None
                             else case strip_prefix (lit ''-'') suffix of Some c \<Rightarrow> Some c | None \<Rightarrow> named)))"

definition reactor_identity :: "reactor_files \<Rightarrow> resource_limits \<Rightarrow> path \<Rightarrow> path \<Rightarrow> path \<Rightarrow> JarIdentity option" where
  "reactor_identity fs limits root directory p =
     reactor_module_coordinate fs limits root directory \<bind> (\<lambda>key.
     map_option (\<lambda>classifier. \<lparr> ji_key = key, ji_classifier = classifier, ji_relative_path = relative_slash_path root p \<rparr>)
       (output_classifier fs key p))"

record ReactorLayout =
  rl_root :: path
  rl_modules :: "path list"

text \<open>\<open>max_by_key\<close>: the last of the greatest.\<close>

fun last_max_by :: "('a \<Rightarrow> nat) \<Rightarrow> 'a list \<Rightarrow> 'a option" where
  "last_max_by f [] = None"
| "last_max_by f (x # xs) =
     (case last_max_by f xs of None \<Rightarrow> Some x | Some y \<Rightarrow> if f x \<le> f y then Some y else Some x)"

definition output_module :: "ReactorLayout \<Rightarrow> path \<Rightarrow> path option" where
  "output_module reactor p =
     last_max_by length (filter (\<lambda>m. path_starts_with m (rl_root reactor) \<and> path_starts_with p (m @ [lit ''target'']))
       (rl_modules reactor))"

definition scoped_identity ::
  "reactor_files \<Rightarrow> resource_limits \<Rightarrow> path option \<Rightarrow> ReactorLayout \<Rightarrow> path \<Rightarrow> UnindexedReason + JarIdentity" where
  "scoped_identity fs limits repository reactor p =
     (case repository of
        Some repository_root \<Rightarrow>
          if path_starts_with p repository_root
          then (case repository_identity repository_root p of None \<Rightarrow> Inl Not_Maven_Repository_Layout | Some i \<Rightarrow> Inr i)
          else (case output_module reactor p of
                  None \<Rightarrow> Inl Outside_Repository_And_Reactor
                | Some m \<Rightarrow>
                    (case reactor_identity fs limits (rl_root reactor) m p of
                       None \<Rightarrow> Inl Unresolved_Reactor_Coordinate | Some i \<Rightarrow> Inr i))
      | None \<Rightarrow>
          (case output_module reactor p of
             None \<Rightarrow> Inl Outside_Repository_And_Reactor
           | Some m \<Rightarrow>
               (case reactor_identity fs limits (rl_root reactor) m p of
                  None \<Rightarrow> Inl Unresolved_Reactor_Coordinate | Some i \<Rightarrow> Inr i)))"

definition source_jar_stamp_paths :: "reactor_files \<Rightarrow> resource_limits \<Rightarrow> path option \<Rightarrow> ReactorLayout \<Rightarrow> path \<Rightarrow> path list" where
  "source_jar_stamp_paths fs limits repository reactor p =
     (case rx_canonicalize fs p of
        None \<Rightarrow> []
      | Some p \<Rightarrow>
          (case scoped_identity fs limits repository reactor p of
             Inl _ \<Rightarrow> [] | Inr identity \<Rightarrow> source_jar_candidates p (ji_classifier identity)))"

section \<open>Building\<close>

type_synonym unindexed = "path \<times> UnindexedReason"

record ScopedIndex =
  sx_index :: MavenIndex
  sx_unindexed :: "unindexed list"
  sx_records :: RecordReuse

text \<open>The sources JAR an entry is paired with: the first candidate that is a file and has an identity.\<close>

fun first_source :: "reactor_files \<Rightarrow> resource_limits \<Rightarrow> path option \<Rightarrow> ReactorLayout \<Rightarrow> path list \<Rightarrow> (path \<times> JarIdentity) option" where
  "first_source fs limits repository reactor [] = None"
| "first_source fs limits repository reactor (c # cs) =
     (if rx_is_file fs c
      then (case scoped_identity fs limits repository reactor c of
              Inr identity \<Rightarrow> Some (c, identity)
            | Inl _ \<Rightarrow> first_source fs limits repository reactor cs)
      else first_source fs limits repository reactor cs)"

definition scan_entry ::
  "reactor_files \<Rightarrow> resource_limits \<Rightarrow> path option \<Rightarrow> ReactorLayout \<Rightarrow> path \<Rightarrow> (path \<times> JarIdentity) list \<times> unindexed list \<Rightarrow>
     (path \<times> JarIdentity) list \<times> unindexed list" where
  "scan_entry fs limits repository reactor p = (\<lambda>(jars, unindexed).
     case rx_canonicalize fs p of
       None \<Rightarrow> (jars, unindexed @ [(p, Missing)])
     | Some p \<Rightarrow>
         (case scoped_identity fs limits repository reactor p of
            Inl reason \<Rightarrow> (jars, unindexed @ [(p, reason)])
          | Inr identity \<Rightarrow>
              let jars = (case first_source fs limits repository reactor (source_jar_candidates p (ji_classifier identity)) of
                            None \<Rightarrow> jars | Some (source, source_identity) \<Rightarrow> bt_insert source source_identity jars)
              in (bt_insert p identity jars, unindexed)))"

fun scan_classpath ::
  "(nat \<Rightarrow> bool) \<Rightarrow> reactor_files \<Rightarrow> resource_limits \<Rightarrow> path option \<Rightarrow> ReactorLayout \<Rightarrow> nat \<Rightarrow> path list \<Rightarrow>
     (path \<times> JarIdentity) list \<times> unindexed list \<Rightarrow> (build_error + (path \<times> JarIdentity) list \<times> unindexed list)" where
  "scan_classpath cancelled fs limits repository reactor i [] st = Inr st"
| "scan_classpath cancelled fs limits repository reactor i (p # ps) st =
     (if cancelled i then Inl Build_Cancelled
      else scan_classpath cancelled fs limits repository reactor (Suc i) ps (scan_entry fs limits repository reactor p st))"

definition build_scoped_with ::
  "jar_source \<Rightarrow> reactor_files \<Rightarrow> (nat \<Rightarrow> bool) \<Rightarrow> (str \<Rightarrow> str) \<Rightarrow> resource_limits \<Rightarrow> path option \<Rightarrow> ReactorLayout \<Rightarrow> path list \<Rightarrow>
     nat \<Rightarrow> nat \<Rightarrow> (path \<Rightarrow> bytes option) option \<Rightarrow> (build_error + ScopedIndex) option" where
  "build_scoped_with src fs cancelled lower limits repository reactor classpath max_results max_source_bytes persisted =
     (case scan_classpath cancelled fs limits repository reactor 0 classpath ([], []) of
        Inl e \<Rightarrow> Some (Inl e)
      | Inr (jars, unindexed) \<Rightarrow>
          let root = (case repository of Some r \<Rightarrow> r | None \<Rightarrow> rl_root reactor)
          in map_option (\<lambda>r. case r of
                 Inl e \<Rightarrow> Inl e
               | Inr (idx, reuse) \<Rightarrow> Inr \<lparr> sx_index = idx, sx_unindexed = unindexed, sx_records = reuse \<rparr>)
               (build_from_jars src lower limits root jars max_results max_source_bytes persisted))"

text \<open>An index of the whole repository: \<open>walk\<close> lists the entries that could be read, with their kind.\<close>

definition jar_extension :: "path \<Rightarrow> bool" where
  "jar_extension p \<longleftrightarrow> (case path_file_name p of
     None \<Rightarrow> False | Some name \<Rightarrow> ends_with (lit ''.jar'') name \<and> name \<noteq> lit ''.jar'')"

definition collect_repository_jars :: "(str + bool \<times> path) list \<Rightarrow> path list" where
  "collect_repository_jars walk =
     List.map_filter (\<lambda>e. case e of Inl _ \<Rightarrow> None | Inr (is_file, p) \<Rightarrow> if is_file \<and> jar_extension p then Some p else None) walk"

definition index_build ::
  "jar_source \<Rightarrow> (str \<Rightarrow> str) \<Rightarrow> resource_limits \<Rightarrow> path \<Rightarrow> (str + bool \<times> path) list \<Rightarrow> nat \<Rightarrow> nat \<Rightarrow> (build_error + MavenIndex) option" where
  "index_build src lower limits root walk max_results max_source_bytes =
     map_option (\<lambda>r. case r of Inl e \<Rightarrow> Inl e | Inr (idx, _) \<Rightarrow> Inr idx)
       (build_from_jars src lower limits root
          (List.map_filter (\<lambda>p. map_option (Pair p) (repository_identity root p)) (collect_repository_jars walk))
          max_results max_source_bytes None)"

section \<open>What the server does with a classpath\<close>

fun repository_component :: "path \<Rightarrow> path \<Rightarrow> path option" where
  "repository_component prefix [] = None"
| "repository_component prefix (c # cs) =
     (if c = lit ''repository'' then Some (prefix @ [c]) else repository_component (prefix @ [c]) cs)"

fun find_map :: "('a \<Rightarrow> 'b option) \<Rightarrow> 'a list \<Rightarrow> 'b option" where
  "find_map f [] = None"
| "find_map f (x # xs) = (case f x of Some y \<Rightarrow> Some y | None \<Rightarrow> find_map f xs)"

definition repository_root_for :: "path list \<Rightarrow> path \<Rightarrow> path option \<Rightarrow> path option" where
  "repository_root_for paths root execution_repository =
     (let configured = execution_repository \<bind> (\<lambda>r. if list_ex (\<lambda>p. path_starts_with p r) paths then Some r else None)
      in case configured of
           Some r \<Rightarrow> Some r
         | None \<Rightarrow> find_map (\<lambda>p. case strip_prefix root p of
                       Some relative \<Rightarrow> repository_component root relative
                     | None \<Rightarrow> repository_component [] p) paths)"

definition has_indexable_jars :: "path list \<Rightarrow> path \<Rightarrow> bool \<Rightarrow> bool" where
  "has_indexable_jars paths root has_repository \<longleftrightarrow> has_repository \<or> list_ex (\<lambda>p. path_starts_with p root) paths"

definition reactor_poms :: "path list \<Rightarrow> path list" where
  "reactor_poms fingerprint_paths = filter (\<lambda>p. path_file_name p = Some (lit ''pom.xml'')) fingerprint_paths"

text \<open>The files whose stamps an index depends on: every entry and every sources JAR it may be paired with.\<close>

definition stamped_artifacts :: "reactor_files \<Rightarrow> resource_limits \<Rightarrow> path option \<Rightarrow> ReactorLayout \<Rightarrow> path list \<Rightarrow> path list" where
  "stamped_artifacts fs limits repository reactor classpath =
     concat (map (\<lambda>p. p # source_jar_stamp_paths fs limits repository reactor p) classpath)"

fun reason_description :: "UnindexedReason \<Rightarrow> str" where
  "reason_description Missing = lit ''missing''"
| "reason_description Not_Maven_Repository_Layout = lit ''not in Maven repository layout''"
| "reason_description Outside_Repository_And_Reactor = lit ''outside the local repository and the reactor build directories''"
| "reason_description Unresolved_Reactor_Coordinate = lit ''reactor output without resolvable module coordinates''"

definition MAX_REPORTED_UNINDEXED_ENTRIES :: nat where "MAX_REPORTED_UNINDEXED_ENTRIES = 3"

text \<open>The reasons in their derived order; the ellipsis is character 8230.\<close>

definition unindexed_classpath_message :: "unindexed list \<Rightarrow> str" where
  "unindexed_classpath_message unindexed =
     (let counted = filter (\<lambda>(_, n). 0 < n) (map (\<lambda>r. (r, length (filter (\<lambda>(_, r'). r' = r) unindexed)))
            [Missing, Not_Maven_Repository_Layout, Outside_Repository_And_Reactor, Unresolved_Reactor_Coordinate]);
          reasons = join (lit '', '') (map (\<lambda>(r, n). fmt_dec n @ lit '' '' @ reason_description r) counted);
          names = join (lit '', '') (map (\<lambda>(p, _). case path_file_name p of None \<Rightarrow> lit ''?'' | Some n \<Rightarrow> n)
            (take MAX_REPORTED_UNINDEXED_ENTRIES unindexed));
          ellipsis = (if MAX_REPORTED_UNINDEXED_ENTRIES < length unindexed then lit '', '' @ [8230] else [])
      in fmt_dec (length unindexed) @ lit '' selected classpath entries cannot be indexed ('' @ reasons @ lit '': '' @ names @
         ellipsis @ lit ''); the project index was not built because it would be incomplete'')"

section \<open>Which records a build holds\<close>

definition identity_of :: "JarRecord \<Rightarrow> JarIdentity" where
  "identity_of jar = \<lparr> ji_key = jr_key jar, ji_classifier = jr_classifier jar, ji_relative_path = jr_relative_path jar \<rparr>"

text \<open>An artifact that a build skips: its preflight calls it malformed or its archive cannot be read.\<close>

definition unreadable :: "jar_source \<Rightarrow> nat \<Rightarrow> path \<Rightarrow> JarIdentity \<Rightarrow> bool" where
  "unreadable src m p identity \<longleftrightarrow>
     (\<exists>b what. fst (preflight_path src p b) = Inl (Malformed what)) \<or> load_path src p identity m = Some None"

definition one_record :: "jar_source \<Rightarrow> nat \<Rightarrow> path \<Rightarrow> JarIdentity \<Rightarrow> JarRecord list \<Rightarrow> bool" where
  "one_record src m p identity new \<longleftrightarrow>
     (new = [] \<and> unreadable src m p identity) \<or> (\<exists>jar. new = [jar] \<and> jr_path jar = p \<and> identity_of jar = identity)"

lemma build_fresh_records:
  assumes "build_fresh src limits m v p identity (b, records, reuse) = Some (Inr (b', records', reuse'))"
  shows "\<exists>new. records' = records @ new \<and> one_record src m p identity new"
proof -
  obtain r b1 where pre: "preflight_path src p b = (r, b1)" by (cases "preflight_path src p b")
  show ?thesis
  proof (cases r)
    case (Inl e)
    then show ?thesis using assms pre
      by (cases e) (auto simp: build_fresh_def one_record_def unreadable_def intro!: exI [of _ b])
  next
    case (Inr u)
    obtain loaded where loaded: "load_path src p identity m = Some loaded"
      using assms pre Inr by (cases "load_path src p identity m") (auto simp: build_fresh_def)
    show ?thesis
    proof (cases loaded)
      case None
      then show ?thesis using assms pre Inr loaded by (auto simp: build_fresh_def one_record_def unreadable_def)
    next
      case (Some jar)
      have "jr_key jar = ji_key identity" "jr_classifier jar = ji_classifier identity"
        "jr_relative_path jar = ji_relative_path identity" "jr_path jar = p"
        using load_jar_record_wf loaded Some unfolding load_path_def by blast+
      then have "one_record src m p identity [jar]" by (simp add: one_record_def identity_of_def)
      then show ?thesis using assms pre Inr loaded Some by (auto simp: build_fresh_def)
    qed
  qed
qed

lemma restore_record:
  "restore decode limits payload p identity v m b = (Inr (Some jar), b') \<Longrightarrow> one_record src m' p identity [jar]"
  by (auto simp: restore_def one_record_def identity_of_def into_record_def Let_def split: option.splits if_splits prod.splits sum.splits)

lemma build_step_records:
  assumes "build_step src limits m persisted p identity (b, records, reuse) = Some (Inr (b', records', reuse'))"
  shows "\<exists>new. records' = records @ new \<and> one_record src m p identity new"
proof -
  let ?v = "persisted \<bind> (\<lambda>_. capture_validity limits (bs_stamps src p))"
  consider (fresh) b1 where "build_fresh src limits m ?v p identity (b1, records, reuse) = Some (Inr (b', records', reuse'))"
    | (restored) payload v jar where "restore (decode_payload (bs_codec src)) limits payload p identity v m b = (Inr (Some jar), b')"
        "records' = records @ [jar]"
  proof (cases "persisted \<bind> (\<lambda>load. load p)")
    case None
    then show ?thesis using that(1) assms by (simp add: build_step_def Let_def)
  next
    case (Some payload)
    show ?thesis
    proof (cases ?v)
      case None
      then show ?thesis using that(1) [of b] assms by (simp add: build_step_def Let_def split: option.splits)
    next
      case v: (Some v)
      obtain r b1 where r: "restore (decode_payload (bs_codec src)) limits payload p identity v m b = (r, b1)"
        by (cases "restore (decode_payload (bs_codec src)) limits payload p identity v m b")
      have unfold: "(case (r, b1) of
             (Inl e, _) \<Rightarrow> Some (Inl (Build_Limit e))
           | (Inr (Some jar), budget) \<Rightarrow> Some (Inr (budget, records @ [jar], reuse \<lparr> ru_reused := ru_reused reuse @ [p] \<rparr>))
           | (Inr None, budget) \<Rightarrow> build_fresh src limits m (Some v) p identity (budget, records, reuse)) =
          Some (Inr (b', records', reuse'))"
        unfolding r [symmetric] using Some v assms by (simp add: build_step_def Let_def)
      show ?thesis
      proof (cases r)
        case (Inl e)
        then show ?thesis using unfold by simp
      next
        case (Inr restored)
        then show ?thesis using unfold that r v by (cases restored) auto
      qed
    qed
  qed
  then show ?thesis
  proof cases
    case fresh
    then show ?thesis by (rule build_fresh_records)
  next
    case restored
    then show ?thesis using restore_record [OF restored(1)] by blast
  qed
qed

lemma build_loop_records:
  "build_loop src limits m persisted i jars (b, records, reuse) = Some (Inr (b', records', reuse')) \<Longrightarrow>
     \<exists>new. records' = records @ new \<and>
       (\<forall>jar\<in>set new. (jr_path jar, identity_of jar) \<in> set jars) \<and>
       (\<forall>(p, identity)\<in>set jars. unreadable src m p identity \<or> (\<exists>jar\<in>set new. jr_path jar = p \<and> identity_of jar = identity))"
proof (induction jars arbitrary: i b records reuse)
  case (Cons pj jars)
  obtain p identity where pj: "pj = (p, identity)" by (cases pj)
  from Cons.prems pj obtain b1 records1 reuse1 where
    step: "build_step src limits m persisted p identity (b, records, reuse) = Some (Inr (b1, records1, reuse1))"
    and rest: "build_loop src limits m persisted (Suc i) jars (b1, records1, reuse1) = Some (Inr (b', records', reuse'))"
    by (auto split: if_splits option.splits sum.splits)
  from build_step_records [OF step] obtain new where new: "records1 = records @ new" "one_record src m p identity new" by blast
  from Cons.IH [OF rest] obtain new' where new': "records' = records1 @ new'"
    "\<forall>jar\<in>set new'. (jr_path jar, identity_of jar) \<in> set jars"
    "\<forall>(p, identity)\<in>set jars. unreadable src m p identity \<or> (\<exists>jar\<in>set new'. jr_path jar = p \<and> identity_of jar = identity)"
    by blast
  have "\<forall>jar\<in>set (new @ new'). (jr_path jar, identity_of jar) \<in> set (pj # jars)"
    using new(2) new'(2) pj by (auto simp: one_record_def)
  moreover have "\<forall>(p, identity)\<in>set (pj # jars). unreadable src m p identity \<or>
      (\<exists>jar\<in>set (new @ new'). jr_path jar = p \<and> identity_of jar = identity)"
    using new(2) new'(3) pj by (fastforce simp: one_record_def)
  ultimately show ?case using new(1) new'(1) by (intro exI [of _ "new @ new'"] conjI) simp_all
qed simp

lemma build_from_jars_records:
  assumes "build_from_jars src lower limits root jars mr m persisted = Some (Inr (idx, reuse))"
  shows "jar \<in> set (mx_jars idx) \<Longrightarrow> (jr_path jar, identity_of jar) \<in> set jars"
    and "(p, identity) \<in> set jars \<Longrightarrow> unreadable src m p identity \<or> (\<exists>jar\<in>set (mx_jars idx). jr_path jar = p \<and> identity_of jar = identity)"
  using assms build_loop_records unfolding build_from_jars_Inr by fastforce+

section \<open>Which artifacts a build reads\<close>

lemma first_source_Some:
  "first_source fs limits repository reactor cs = Some (c, identity) \<Longrightarrow>
     c \<in> set cs \<and> rx_is_file fs c \<and> scoped_identity fs limits repository reactor c = Inr identity"
  by (induction cs) (auto split: if_splits sum.splits)

text \<open>
  The scan keeps: every offered JAR has the identity of its path and is an entry or a sources JAR of an
  entry; every entry seen is offered or reported.
\<close>

definition offered :: "reactor_files \<Rightarrow> resource_limits \<Rightarrow> path option \<Rightarrow> ReactorLayout \<Rightarrow> path list \<Rightarrow> path \<Rightarrow> bool" where
  "offered fs limits repository reactor classpath q \<longleftrightarrow>
     (\<exists>p\<in>set classpath. rx_canonicalize fs p = Some q \<or> q \<in> set (source_jar_stamp_paths fs limits repository reactor p))"

definition reported :: "reactor_files \<Rightarrow> resource_limits \<Rightarrow> path option \<Rightarrow> ReactorLayout \<Rightarrow> path \<Rightarrow> unindexed \<Rightarrow> bool" where
  "reported fs limits repository reactor p u \<longleftrightarrow>
     (case rx_canonicalize fs p of
        None \<Rightarrow> u = (p, Missing)
      | Some c \<Rightarrow> \<exists>reason. scoped_identity fs limits repository reactor c = Inl reason \<and> u = (c, reason))"

definition scan_ok ::
  "reactor_files \<Rightarrow> resource_limits \<Rightarrow> path option \<Rightarrow> ReactorLayout \<Rightarrow> path list \<Rightarrow> (path \<times> JarIdentity) list \<times> unindexed list \<Rightarrow> bool" where
  "scan_ok fs limits repository reactor seen st \<longleftrightarrow>
     (\<forall>(q, identity)\<in>set (fst st). scoped_identity fs limits repository reactor q = Inr identity \<and> offered fs limits repository reactor seen q) \<and>
     (\<forall>p\<in>set seen. (\<exists>u\<in>set (snd st). reported fs limits repository reactor p u) \<or>
        (\<exists>q. rx_canonicalize fs p = Some q \<and> q \<in> fst ` set (fst st))) \<and>
     (\<forall>u\<in>set (snd st). \<exists>p\<in>set seen. reported fs limits repository reactor p u)"

lemma bt_insert_subset: "set (bt_insert k v m) \<subseteq> insert (k, v) (set m)"
  by (induction k v m rule: bt_insert.induct) auto

lemma offered_more: "offered fs limits repository reactor seen q \<Longrightarrow> offered fs limits repository reactor (seen @ [p]) q"
  by (auto simp: offered_def)

lemma scan_entry_ok:
  assumes ok: "scan_ok fs limits repository reactor seen st"
  shows "scan_ok fs limits repository reactor (seen @ [p]) (scan_entry fs limits repository reactor p st)"
proof -
  obtain jars unindexed where st: "st = (jars, unindexed)" by (cases st)
  let ?id = "scoped_identity fs limits repository reactor" and ?reported = "reported fs limits repository reactor"
  have jars: "?id q = Inr identity" "offered fs limits repository reactor (seen @ [p]) q" if "(q, identity) \<in> set jars" for q identity
    using ok that offered_more unfolding st scan_ok_def by fastforce+
  have seen: "(\<exists>u\<in>set unindexed. ?reported p' u) \<or> (\<exists>q. rx_canonicalize fs p' = Some q \<and> q \<in> fst ` set jars)" if "p' \<in> set seen" for p'
    using ok that unfolding st scan_ok_def by simp
  have reports: "\<exists>p\<in>set seen. ?reported p u" if "u \<in> set unindexed" for u using ok that unfolding st scan_ok_def by simp
  have report: "scan_ok fs limits repository reactor (seen @ [p]) (jars, unindexed @ [u])" if "?reported p u" for u
    unfolding scan_ok_def using jars seen reports that by auto
  show ?thesis
  proof (cases "rx_canonicalize fs p")
    case None
    then show ?thesis using report by (simp add: st scan_entry_def reported_def)
  next
    case c: (Some c)
    show ?thesis
    proof (cases "?id c")
      case (Inl reason)
      then show ?thesis using report c by (simp add: st scan_entry_def reported_def)
    next
      case (Inr identity)
      define sources where "sources = first_source fs limits repository reactor (source_jar_candidates c (ji_classifier identity))"
      define new where "new = (case sources of None \<Rightarrow> jars | Some (source, source_identity) \<Rightarrow> bt_insert source source_identity jars)"
      have result: "scan_entry fs limits repository reactor p st = (bt_insert c identity new, unindexed)"
        using c Inr by (simp add: st scan_entry_def new_def sources_def Let_def)
      have stamps: "source_jar_stamp_paths fs limits repository reactor p = source_jar_candidates c (ji_classifier identity)"
        using c Inr by (simp add: source_jar_stamp_paths_def)
      have new: "?id q = Inr i \<and> offered fs limits repository reactor (seen @ [p]) q" if "(q, i) \<in> set new" for q i
      proof (cases sources)
        case None
        then show ?thesis using that jars by (simp add: new_def)
      next
        case (Some e)
        obtain s si where e: "e = (s, si)" by (cases e)
        have s: "s \<in> set (source_jar_candidates c (ji_classifier identity))" "?id s = Inr si"
          using first_source_Some Some unfolding sources_def e by blast+
        have "(q, i) = (s, si) \<or> (q, i) \<in> set jars" using that Some e bt_insert_subset unfolding new_def by fastforce
        then show ?thesis using jars s stamps by (auto simp: offered_def)
      qed
      have keys: "fst ` set jars \<subseteq> fst ` set new" by (auto simp: new_def split: option.splits)
      have all: "?id q = Inr i \<and> offered fs limits repository reactor (seen @ [p]) q" if "(q, i) \<in> set (bt_insert c identity new)" for q i
      proof -
        have "(q, i) = (c, identity) \<or> (q, i) \<in> set new" using that bt_insert_subset by fastforce
        then show ?thesis using new Inr c by (auto simp: offered_def)
      qed
      then have "\<forall>(q, i)\<in>set (bt_insert c identity new). ?id q = Inr i \<and> offered fs limits repository reactor (seen @ [p]) q" by blast
      moreover have "\<forall>p'\<in>set (seen @ [p]). (\<exists>u\<in>set unindexed. ?reported p' u) \<or>
          (\<exists>q. rx_canonicalize fs p' = Some q \<and> q \<in> fst ` set (bt_insert c identity new))"
      proof
        fix p' assume "p' \<in> set (seen @ [p])"
        then consider "p' = p" | "p' \<in> set seen" by auto
        then show "(\<exists>u\<in>set unindexed. ?reported p' u) \<or>
            (\<exists>q. rx_canonicalize fs p' = Some q \<and> q \<in> fst ` set (bt_insert c identity new))"
        proof cases
          case 1
          then show ?thesis using c by simp
        next
          case 2
          then show ?thesis using seen [OF 2] keys by auto
        qed
      qed
      moreover have "\<forall>u\<in>set unindexed. \<exists>p'\<in>set (seen @ [p]). ?reported p' u" using reports by auto
      ultimately show ?thesis unfolding result scan_ok_def fst_conv snd_conv by (intro conjI)
    qed
  qed
qed

lemma scan_classpath_ok:
  "scan_classpath cancelled fs limits repository reactor i ps st = Inr st' \<Longrightarrow> scan_ok fs limits repository reactor seen st \<Longrightarrow>
     scan_ok fs limits repository reactor (seen @ ps) st'"
proof (induction ps arbitrary: i st seen)
  case (Cons p ps)
  then have "scan_classpath cancelled fs limits repository reactor (Suc i) ps (scan_entry fs limits repository reactor p st) = Inr st'"
    by (simp split: if_splits)
  from Cons.IH [OF this scan_entry_ok [OF Cons.prems(2)]] show ?case by simp
qed simp

lemma build_scoped_Inr:
  assumes "build_scoped_with src fs cancelled lower limits repository reactor classpath mr m persisted = Some (Inr r)"
  obtains jars root where "scan_ok fs limits repository reactor classpath (jars, sx_unindexed r)"
    "build_from_jars src lower limits root jars mr m persisted = Some (Inr (sx_index r, sx_records r))"
proof -
  obtain st where st: "scan_classpath cancelled fs limits repository reactor 0 classpath ([], []) = Inr st"
    using assms by (auto simp: build_scoped_with_def split: sum.splits)
  obtain jars unindexed where pair: "st = (jars, unindexed)" by (cases st)
  have "scan_ok fs limits repository reactor [] ([], [])" by (simp add: scan_ok_def)
  from scan_classpath_ok [OF st this] have ok: "scan_ok fs limits repository reactor classpath (jars, unindexed)" by (simp add: pair)
  let ?build = "build_from_jars src lower limits (case repository of Some r \<Rightarrow> r | None \<Rightarrow> rl_root reactor) jars mr m persisted"
  have result: "map_option (\<lambda>b. case b of Inl e \<Rightarrow> Inl e
      | Inr (idx, reuse) \<Rightarrow> Inr \<lparr> sx_index = idx, sx_unindexed = unindexed, sx_records = reuse \<rparr>) ?build = Some (Inr r)"
    using assms st pair by (simp add: build_scoped_with_def Let_def)
  then obtain b where b: "?build = Some b" by (cases ?build) auto
  show thesis
  proof (cases b)
    case (Inr ir)
    then show thesis using that [of jars] ok result b by (cases ir) auto
  qed (use result b in auto)
qed

text \<open>
  Claim C12: scoped_index_complete.  The index of a project holds nothing but artifacts whose files are stamped for it (the
  classpath entries and the sources JARs they may be paired with), each under the identity of its path; and a
  classpath entry is never dropped silently: it is reported with its reason, or the index holds it, or its
  archive is unreadable.
\<close>

theorem scoped_index_complete:
  assumes "build_scoped_with src fs cancelled lower limits repository reactor classpath mr m persisted = Some (Inr r)"
  shows "(\<forall>jar\<in>set (mx_jars (sx_index r)).
      scoped_identity fs limits repository reactor (jr_path jar) = Inr (identity_of jar) \<and>
      (\<exists>p\<in>set (stamped_artifacts fs limits repository reactor classpath). jr_path jar = p \<or> rx_canonicalize fs p = Some (jr_path jar))) \<and>
    (\<forall>p\<in>set classpath.
      (\<exists>u\<in>set (sx_unindexed r). reported fs limits repository reactor p u) \<or>
      (\<exists>c identity. rx_canonicalize fs p = Some c \<and> scoped_identity fs limits repository reactor c = Inr identity \<and>
         (unreadable src m c identity \<or> (\<exists>jar\<in>set (mx_jars (sx_index r)). jr_path jar = c \<and> identity_of jar = identity)))) \<and>
    (\<forall>u\<in>set (sx_unindexed r). \<exists>p\<in>set classpath. reported fs limits repository reactor p u)"
proof -
  from build_scoped_Inr [OF assms] obtain jars root where ok: "scan_ok fs limits repository reactor classpath (jars, sx_unindexed r)"
    and built: "build_from_jars src lower limits root jars mr m persisted = Some (Inr (sx_index r, sx_records r))" .
  have jars: "scoped_identity fs limits repository reactor q = Inr identity" "offered fs limits repository reactor classpath q"
    if "(q, identity) \<in> set jars" for q identity
    using ok that unfolding scan_ok_def by fastforce+
  have "scoped_identity fs limits repository reactor (jr_path jar) = Inr (identity_of jar) \<and>
      (\<exists>p\<in>set (stamped_artifacts fs limits repository reactor classpath). jr_path jar = p \<or> rx_canonicalize fs p = Some (jr_path jar))"
    if "jar \<in> set (mx_jars (sx_index r))" for jar
    using jars [OF build_from_jars_records(1) [OF built that]] unfolding offered_def stamped_artifacts_def by fastforce
  moreover have "(\<exists>u\<in>set (sx_unindexed r). reported fs limits repository reactor p u) \<or>
      (\<exists>c identity. rx_canonicalize fs p = Some c \<and> scoped_identity fs limits repository reactor c = Inr identity \<and>
         (unreadable src m c identity \<or> (\<exists>jar\<in>set (mx_jars (sx_index r)). jr_path jar = c \<and> identity_of jar = identity)))"
    if p: "p \<in> set classpath" for p
  proof -
    consider "\<exists>u\<in>set (sx_unindexed r). reported fs limits repository reactor p u"
      | c identity where "rx_canonicalize fs p = Some c" "(c, identity) \<in> set jars"
      using ok p unfolding scan_ok_def by fastforce
    then show ?thesis
    proof cases
      case 2
      then show ?thesis using jars(1) [OF 2(2)] build_from_jars_records(2) [OF built 2(2)] by blast
    qed blast
  qed
  moreover have "\<forall>u\<in>set (sx_unindexed r). \<exists>p\<in>set classpath. reported fs limits repository reactor p u"
    using ok unfolding scan_ok_def by simp
  ultimately show ?thesis by blast
qed

text \<open>A classpath of one artifact in the repository and one that is missing.\<close>

definition demo_artifact :: path where
  "demo_artifact = [lit ''repository'', lit ''g'', lit ''a'', lit ''1'', lit ''a-1.jar'']"

definition demo_reactor_files :: reactor_files where
  "demo_reactor_files =
     \<lparr> rx_is_dir = (\<lambda>_. False), rx_is_file = (\<lambda>p. p = demo_artifact),
       rx_canonicalize = (\<lambda>p. if p = demo_artifact then Some p else None), rx_text = (\<lambda>_. None), rx_reader = (\<lambda>_. []),
       rx_content = (\<lambda>_. Inl []), rx_parse = (\<lambda>_. None) \<rparr>"

lemma demo_identity:
  "scoped_identity demo_reactor_files sample_limits (Some [lit ''repository'']) \<lparr> rl_root = [], rl_modules = [] \<rparr> demo_artifact = Inr sample_identity"
  by (simp add: scoped_identity_def demo_artifact_def path_starts_with_def starts_with_def repository_identity_def parse_coordinate_def
      sample_identity_def strip_suffix_def relative_slash_path_def replace_ch_def)

lemma demo_sources:
  "first_source demo_reactor_files sample_limits (Some [lit ''repository'']) \<lparr> rl_root = [], rl_modules = [] \<rparr>
     (source_jar_candidates demo_artifact None) = None"
proof -
  have "source_jar_candidates demo_artifact None = [[lit ''repository'', lit ''g'', lit ''a'', lit ''1'', lit ''a-1-sources.jar'']]"
    by (simp add: source_jar_candidates_def demo_artifact_def path_file_name_def strip_suffix_def ends_with_def with_file_name_def
        SOURCES_CLASSIFIER_def)
  then show ?thesis by (simp add: demo_reactor_files_def demo_artifact_def)
qed

lemma demo_scan:
  "scan_classpath (\<lambda>_. False) demo_reactor_files sample_limits (Some [lit ''repository'']) \<lparr> rl_root = [], rl_modules = [] \<rparr> 0
     [demo_artifact, []] ([], []) = Inr ([(demo_artifact, sample_identity)], [([], Missing)])"
proof -
  have "rx_canonicalize demo_reactor_files demo_artifact = Some demo_artifact" "rx_canonicalize demo_reactor_files [] = None"
    by (simp_all add: demo_reactor_files_def demo_artifact_def)
  moreover have "ji_classifier sample_identity = None" by (simp add: sample_identity_def)
  ultimately show ?thesis using demo_sources by (simp add: scan_entry_def demo_identity del: lit.simps)
qed

definition demo_jar :: JarRecord where
  "demo_jar = plain_jar \<lparr> jr_path := demo_artifact \<rparr>"

lemma load_jar_record_path:
  "load_jar_record parse index opened cancelled p identity m =
     map_option (map_option (\<lambda>jar. jar \<lparr> jr_path := p \<rparr>)) (load_jar_record parse index opened cancelled q identity m)"
  by (auto simp: load_jar_record_def option.map_comp comp_def split: option.split intro!: option.map_cong)

lemma demo_load: "load_path plain_source demo_artifact sample_identity 8 = Some (Some demo_jar)"
proof -
  have "load_path plain_source demo_artifact sample_identity 8 =
      map_option (map_option (\<lambda>jar. jar \<lparr> jr_path := demo_artifact \<rparr>)) (load_path plain_source [lit ''a-1.jar''] sample_identity 8)"
    unfolding load_path_def by (subst load_jar_record_path [of _ _ _ _ demo_artifact _ _ "[lit ''a-1.jar'']"]) (simp add: plain_source_def)
  then show ?thesis by (simp add: plain_load demo_jar_def del: lit.simps)
qed

theorem scoped_index_complete_witness:
  "\<exists>r. build_scoped_with plain_source demo_reactor_files (\<lambda>_. False) (\<lambda>s. s) sample_limits (Some [lit ''repository''])
       \<lparr> rl_root = [], rl_modules = [] \<rparr> [demo_artifact, []] 9 8 None = Some (Inr r) \<and> mx_jars (sx_index r) = [demo_jar] \<and>
     scoped_identity demo_reactor_files sample_limits (Some [lit ''repository'']) \<lparr> rl_root = [], rl_modules = [] \<rparr> (jr_path demo_jar) =
       Inr (identity_of demo_jar)"
proof -
  let ?reactor = "\<lparr> rl_root = [], rl_modules = [] \<rparr>" and ?repository = "Some [lit ''repository'']"
  have poll: "\<not> bs_cancelled plain_source i" for i by (simp add: plain_source_def)
  have "build_from_jars plain_source (\<lambda>s. s) sample_limits [lit ''repository''] [(demo_artifact, sample_identity)] 9 8 None =
      Some (Inr (index_of_records (\<lambda>s. s) [lit ''repository''] 9 8 [demo_jar], \<lparr> ru_reused = [], ru_built = 0, ru_persistable = [] \<rparr>))"
    by (simp add: build_from_jars_Inr build_step_def build_fresh_def Let_def plain_preflight demo_load poll del: lit.simps One_nat_def)
  then obtain r where r: "build_scoped_with plain_source demo_reactor_files (\<lambda>_. False) (\<lambda>s. s) sample_limits ?repository
      ?reactor [demo_artifact, []] 9 8 None = Some (Inr r)" "mx_jars (sx_index r) = [demo_jar]"
    by (simp add: build_scoped_with_def demo_scan del: lit.simps scan_classpath.simps)
  from scoped_index_complete [OF r(1)] r(2) have "scoped_identity demo_reactor_files sample_limits ?repository ?reactor (jr_path demo_jar) =
      Inr (identity_of demo_jar)" by simp
  then show ?thesis using r by (intro exI conjI)
qed

end
