(* ===== verification/Resolution_Inputs.thy ===== *)
theory Resolution_Inputs
  imports Scoped_Build
begin

text \<open>
  The stored classpath of a project (\<open>src/src/index_cache.rs\<close>, \<open>ClasspathManifest\<close>, \<open>ResolutionInputs\<close>,
  \<open>resolution_inputs\<close>; \<open>src/src/server.rs\<close>, \<open>capture_resolution_inputs\<close> and \<open>persist_build\<close>): which files and
  variables a classpath depends on, when it may be stored, and when a stored one may be used again.  File
  stamps, directory walks, the environment and the clock are parameters.
\<close>

section \<open>The files a classpath depends on\<close>

definition sibling_pom :: "path \<Rightarrow> path option" where
  "sibling_pom artifact =
     (if artifact = [] then None
      else
        let directory = butlast artifact
        in path_file_name directory \<bind> (\<lambda>version.
           path_file_name (butlast directory) \<bind> (\<lambda>artifact_id.
           Some (directory @ [artifact_id @ lit ''-'' @ version @ lit ''.pom'']))))"

definition repository_poms :: "path list \<Rightarrow> path option \<Rightarrow> path list" where
  "repository_poms classpath repository_root =
     (case repository_root of
        None \<Rightarrow> []
      | Some r \<Rightarrow> List.map_filter sibling_pom (filter (\<lambda>p. path_starts_with p r) classpath))"

definition ancestors :: "path \<Rightarrow> path list" where
  "ancestors p = map (\<lambda>n. take n p) (rev [0..<Suc (length p)])"

definition classpath_inputs :: "path \<Rightarrow> JavaEnvironment \<Rightarrow> path option \<Rightarrow> path list \<Rightarrow> path option \<Rightarrow> path list" where
  "classpath_inputs root java home classpath repository_root =
     remdups_adj (sort
       ([lit ''etc'', lit ''mavenrc''] #
        (case home of
           None \<Rightarrow> []
         | Some h \<Rightarrow> [h @ [lit ''.m2'', lit ''settings.xml''], h @ [lit ''.m2'', lit ''toolchains.xml''],
                     h @ [lit ''.m2'', lit ''extensions.xml''], h @ [lit ''.mavenrc'']]) @
        (case java of
           Inherit \<Rightarrow> []
         | Jenv jenv_root \<Rightarrow> (join_path [] jenv_root @ [lit ''version'']) # map (\<lambda>d. d @ [lit ''.java-version'']) (ancestors root)) @
        repository_poms classpath repository_root))"

text \<open>\<open>walk\<close> lists the readable entries of a directory, itself first; for any other path it is \<open>None\<close>.\<close>

definition tree_paths :: "(path \<Rightarrow> path list option) \<Rightarrow> nat \<Rightarrow> path list \<Rightarrow> path list" where
  "tree_paths walk max_index_entries paths =
     concat (map (\<lambda>p. case walk p of None \<Rightarrow> [p] | Some entries \<Rightarrow> take (sat_add max_index_entries 1) entries) paths)"

definition capture_trees ::
  "(path \<Rightarrow> FileStamp option) \<Rightarrow> (path \<Rightarrow> path list option) \<Rightarrow> nat \<Rightarrow> path list \<Rightarrow> ProjectFingerprint" where
  "capture_trees stamp walk max_index_entries paths = capture stamp (tree_paths walk max_index_entries paths)"

section \<open>The inputs of a resolution\<close>

record ResolutionInputs =
  ri_stamps :: ProjectFingerprint
  ri_model_references :: "str set"
  ri_model_environment :: "64 word"

definition new_inputs :: "ProjectFingerprint \<Rightarrow> str set \<Rightarrow> variables \<Rightarrow> ResolutionInputs" where
  "new_inputs stamps references variables =
     \<lparr> ri_stamps = stamps, ri_model_references = references, ri_model_environment = referenced_digest variables references \<rparr>"

definition matches_environment :: "variables \<Rightarrow> ResolutionInputs \<Rightarrow> bool" where
  "matches_environment variables inputs \<longleftrightarrow> referenced_digest variables (ri_model_references inputs) = ri_model_environment inputs"

definition inputs_are_current :: "(path \<Rightarrow> FileStamp option) \<Rightarrow> variables \<Rightarrow> ResolutionInputs \<Rightarrow> bool" where
  "inputs_are_current stamp variables inputs \<longleftrightarrow> fp_is_current stamp (ri_stamps inputs) \<and> matches_environment variables inputs"

text \<open>\<open>is_settled\<close> reads the clock for every stamp; \<open>now\<close> is the time read for a path.\<close>

definition fp_is_settled :: "(path \<Rightarrow> nat) \<Rightarrow> ProjectFingerprint \<Rightarrow> bool" where
  "fp_is_settled now fp \<longleftrightarrow>
     list_all (\<lambda>(p, s). case s of None \<Rightarrow> True | Some s \<Rightarrow> was_settled_at (stamp_modified_ns s) (now p)) fp"

record resolution_sources =
  rs_root :: path
  rs_java :: JavaEnvironment
  rs_home :: "path option"
  rs_classpath :: "path list"
  rs_repository_root :: "path option"
  rs_reactor_poms :: "path list"
  rs_installation :: "path list"

definition stamped_inputs :: "resolution_sources \<Rightarrow> ModelInputs \<Rightarrow> path list" where
  "stamped_inputs sources model =
     classpath_inputs (rs_root sources) (rs_java sources) (rs_home sources) (rs_classpath sources) (rs_repository_root sources) @
     rs_installation sources @ mi_paths model"

text \<open>The outer \<open>None\<close> is the panic of the walk, the inner one an input that cannot be identified.\<close>

definition resolution_inputs ::
  "(path \<Rightarrow> FileStamp option) \<Rightarrow> (path \<Rightarrow> path list option) \<Rightarrow> resource_limits \<Rightarrow> model_files \<Rightarrow> variables \<Rightarrow> resolution_sources \<Rightarrow>
     ResolutionInputs option option" where
  "resolution_inputs stamp walk limits models variables sources =
     map_option (map_option (\<lambda>model.
         new_inputs (capture_trees stamp walk (rl_index_entries limits) (stamped_inputs sources model)) (mi_env_references model) variables))
       (model_inputs models (rl_xml_bytes limits) (rs_reactor_poms sources)
          (repository_poms (rs_classpath sources) (rs_repository_root sources)) (rs_repository_root sources))"

text \<open>The server keeps them only if everything was settled when Maven started.\<close>

definition capture_resolution_inputs ::
  "(path \<Rightarrow> FileStamp option) \<Rightarrow> (path \<Rightarrow> path list option) \<Rightarrow> resource_limits \<Rightarrow> model_files \<Rightarrow> variables \<Rightarrow> resolution_sources \<Rightarrow>
     ProjectFingerprint \<Rightarrow> nat \<Rightarrow> ResolutionInputs option option" where
  "capture_resolution_inputs stamp walk limits models variables sources project started =
     map_option (\<lambda>inputs. inputs \<bind> (\<lambda>inputs.
         if fp_was_settled_at project started \<and> fp_was_settled_at (ri_stamps inputs) started then Some inputs else None))
       (resolution_inputs stamp walk limits models variables sources)"

section \<open>Manifests\<close>

record ClasspathManifest =
  cm_context :: str
  cm_project :: ProjectFingerprint
  cm_inputs :: ResolutionInputs
  cm_classpath :: "path list"

definition settled_manifest :: "(path \<Rightarrow> nat) \<Rightarrow> str \<Rightarrow> ProjectFingerprint \<Rightarrow> ResolutionInputs \<Rightarrow> path list \<Rightarrow> ClasspathManifest option" where
  "settled_manifest now context_key project inputs classpath =
     (if fp_is_settled now project \<and> fp_is_settled now (ri_stamps inputs)
      then Some \<lparr> cm_context = context_key, cm_project = project, cm_inputs = inputs, cm_classpath = classpath \<rparr>
      else None)"

definition reusable_classpath ::
  "(path \<Rightarrow> bool) \<Rightarrow> (path \<Rightarrow> FileStamp option) \<Rightarrow> variables \<Rightarrow> str \<Rightarrow> ProjectFingerprint \<Rightarrow> ClasspathManifest \<Rightarrow>
     (path list \<times> ResolutionInputs) option" where
  "reusable_classpath exists_path stamp variables context_key project manifest =
     (if cm_context manifest = context_key \<and> cm_project manifest = project \<and> inputs_are_current stamp variables (cm_inputs manifest) \<and>
         list_all exists_path (cm_classpath manifest)
      then Some (cm_classpath manifest, cm_inputs manifest) else None)"

text \<open>The manifest \<open>persist_build\<close> writes.\<close>

definition persisted_manifest ::
  "(path \<Rightarrow> FileStamp option) \<Rightarrow> variables \<Rightarrow> (path \<Rightarrow> nat) \<Rightarrow> str \<Rightarrow> ProjectFingerprint \<Rightarrow> path list \<Rightarrow> ResolutionInputs option \<Rightarrow>
     ClasspathManifest option" where
  "persisted_manifest stamp variables now context_key project classpath inputs =
     inputs \<bind> (\<lambda>inputs.
       if inputs_are_current stamp variables inputs then settled_manifest now context_key project inputs classpath else None)"

section \<open>Files over time\<close>

text \<open>
  What every path holds at every moment and when it was last modified.  The assumption is the documented
  one of \<open>SETTLED_AGE\<close>: a file that holds something else than at an earlier moment was not settled at that moment.
\<close>

record file_history =
  fh_content :: "nat \<Rightarrow> path \<Rightarrow> nat list option"
  fh_modified :: "nat \<Rightarrow> path \<Rightarrow> nat"

definition stamp_at :: "file_history \<Rightarrow> nat \<Rightarrow> path \<Rightarrow> FileStamp option" where
  "stamp_at h t p = map_option (\<lambda>c. \<lparr> stamp_len = length c, stamp_modified_ns = fh_modified h t p \<rparr>) (fh_content h t p)"

definition clock_ok :: "file_history \<Rightarrow> bool" where
  "clock_ok h \<longleftrightarrow> (\<forall>t t' p c. t \<le> t' \<and> fh_content h t' p = Some c \<and> fh_content h t p \<noteq> Some c \<longrightarrow>
     \<not> was_settled_at (fh_modified h t' p) t)"

lemma settled_unchanged:
  assumes "clock_ok h" "started \<le> t" "stamp_at h t p = Some s" "was_settled_at (stamp_modified_ns s) started"
  shows "fh_content h t p = fh_content h started p"
proof -
  obtain c where c: "fh_content h t p = Some c" "stamp_modified_ns s = fh_modified h t p"
    using assms(3) by (auto simp: stamp_at_def)
  show ?thesis
  proof (rule ccontr)
    assume "fh_content h t p \<noteq> fh_content h started p"
    then have "fh_content h started p \<noteq> Some c" using c(1) by simp
    then have "\<not> was_settled_at (fh_modified h t p) started" using assms(1,2) c(1) unfolding clock_ok_def by blast
    then show False using assms(4) c(2) by simp
  qed
qed

lemma map_of_capture: "map_of (capture stamp paths) p = (if p \<in> set paths then Some (stamp p) else None)"
proof -
  have "map_of (fold (\<lambda>p m. bt_insert p (stamp p) m) paths m) p = (if p \<in> set paths then Some (stamp p) else map_of m p)" for m
    by (induction paths arbitrary: m) (auto simp: map_of_bt_insert)
  then show ?thesis by (simp add: capture_def)
qed

text \<open>A fingerprint that was settled at a moment and is still current: no file it names as existing has changed since.\<close>

lemma settled_fingerprint:
  assumes "clock_ok h" "started \<le> t" "fp_was_settled_at fp started" "fp_is_current (stamp_at h t) fp" "(p, s) \<in> set fp"
    and "fh_content h t p \<noteq> None"
  shows "fh_content h t p = fh_content h started p"
proof -
  have "stamp_at h t p = s" using assms(4,5) by (auto simp: fp_is_current_def list_all_iff)
  moreover obtain s' where "stamp_at h t p = Some s'" using assms(6) by (auto simp: stamp_at_def)
  ultimately have "stamp_at h t p = Some s'" "was_settled_at (stamp_modified_ns s') started"
    using assms(3,5) by (auto simp: fp_was_settled_at_def list_all_iff)
  then show ?thesis by (rule settled_unchanged [OF assms(1,2)])
qed

lemma capture_resolution_Some:
  assumes "capture_resolution_inputs stamp walk limits models variables sources project started = Some (Some inputs)"
  obtains model where "model_inputs models (rl_xml_bytes limits) (rs_reactor_poms sources)
      (repository_poms (rs_classpath sources) (rs_repository_root sources)) (rs_repository_root sources) = Some (Some model)"
    "inputs = new_inputs (capture_trees stamp walk (rl_index_entries limits) (stamped_inputs sources model)) (mi_env_references model) variables"
    "fp_was_settled_at project started" "fp_was_settled_at (ri_stamps inputs) started"
  using assms by (auto simp: capture_resolution_inputs_def resolution_inputs_def bind_eq_Some_conv split: if_splits)

text \<open>
  Claim C11: classpath_reuse_sound.  A stored classpath is used again only where Maven would read what it read when it
  was resolved: for the same context and project files, with every stamped input that exists, the model files
  and the files of the project holding what they held when Maven started, with the same digest of the
  variables the models reference, and with all its entries present.
\<close>

theorem classpath_reuse_sound:
  assumes clock: "clock_ok h" "started \<le> t"
    and captured: "capture_resolution_inputs stamp walk limits models variables sources project started = Some (Some inputs)"
    and stored: "persisted_manifest stamp' variables' now key project (rs_classpath sources) (Some inputs) = Some manifest"
    and reused: "reusable_classpath exists_path (stamp_at h t) variables'' key' project' manifest = Some (classpath, inputs')"
    and current: "fp_is_current (stamp_at h t) project'"
  shows "key' = key \<and> project' = project \<and> classpath = rs_classpath sources \<and> list_all exists_path classpath \<and>
    (\<exists>model. model_inputs models (rl_xml_bytes limits) (rs_reactor_poms sources)
        (repository_poms (rs_classpath sources) (rs_repository_root sources)) (rs_repository_root sources) = Some (Some model) \<and>
      referenced_digest variables'' (mi_env_references model) = referenced_digest variables (mi_env_references model) \<and>
      (\<forall>p\<in>set (tree_paths walk (rl_index_entries limits) (stamped_inputs sources model)) \<union> fst ` set project.
         fh_content h t p \<noteq> None \<longrightarrow> fh_content h t p = fh_content h started p))"
proof -
  from captured obtain model where model: "model_inputs models (rl_xml_bytes limits) (rs_reactor_poms sources)
      (repository_poms (rs_classpath sources) (rs_repository_root sources)) (rs_repository_root sources) = Some (Some model)"
    and inputs: "inputs = new_inputs (capture_trees stamp walk (rl_index_entries limits) (stamped_inputs sources model))
      (mi_env_references model) variables"
    and settled: "fp_was_settled_at project started" "fp_was_settled_at (ri_stamps inputs) started"
    by (rule capture_resolution_Some)
  have manifest: "manifest = \<lparr> cm_context = key, cm_project = project, cm_inputs = inputs, cm_classpath = rs_classpath sources \<rparr>"
    using stored by (auto simp: persisted_manifest_def settled_manifest_def split: if_splits)
  have reuse: "key' = key" "project' = project" "classpath = rs_classpath sources" "list_all exists_path classpath"
    "fp_is_current (stamp_at h t) (ri_stamps inputs)" "matches_environment variables'' inputs"
    using reused by (auto simp: reusable_classpath_def manifest inputs_are_current_def split: if_splits)
  have "fh_content h t p = fh_content h started p"
    if p: "p \<in> set (tree_paths walk (rl_index_entries limits) (stamped_inputs sources model)) \<union> fst ` set project"
      and there: "fh_content h t p \<noteq> None" for p
  proof -
    consider s where "(p, s) \<in> set (ri_stamps inputs)" | s where "(p, s) \<in> set project"
    proof (cases "p \<in> fst ` set project")
      case True
      then show ?thesis using that(2) by auto
    next
      case False
      then have "map_of (ri_stamps inputs) p = Some (stamp p)"
        using p by (simp add: inputs new_inputs_def capture_trees_def map_of_capture)
      then show ?thesis by (rule that(1) [OF map_of_SomeD])
    qed
    then show ?thesis
      using settled_fingerprint [OF clock settled(2) reuse(5) _ there] settled_fingerprint [OF clock settled(1) current [unfolded reuse(2)] _ there]
      by cases
  qed
  moreover have "referenced_digest variables'' (mi_env_references model) = referenced_digest variables (mi_env_references model)"
    using reuse(6) by (simp add: matches_environment_def inputs new_inputs_def)
  ultimately show ?thesis using reuse model by blast
qed

text \<open>A resolution without repository artifacts, stored and used again while nothing changes.\<close>

definition demo_models :: model_files where
  "demo_models =
     \<lparr> ml_is_file = (\<lambda>_. False), ml_is_dir = (\<lambda>_. False), ml_canonicalize = (\<lambda>_. None), ml_read_dir = (\<lambda>_. None),
       ml_reader = (\<lambda>_. []), ml_content = (\<lambda>_. Inl []), ml_parse = (\<lambda>_. None) \<rparr>"

definition demo_resolution :: resolution_sources where
  "demo_resolution =
     \<lparr> rs_root = [], rs_java = Inherit, rs_home = None, rs_classpath = [[lit ''x'']], rs_repository_root = None,
       rs_reactor_poms = [], rs_installation = [] \<rparr>"

definition mavenrc :: path where "mavenrc = [lit ''etc'', lit ''mavenrc'']"

definition demo_inputs :: "FileStamp option \<Rightarrow> ResolutionInputs" where
  "demo_inputs s = new_inputs [(mavenrc, s)] {} []"

definition demo_manifest :: "FileStamp option \<Rightarrow> ClasspathManifest" where
  "demo_manifest s = \<lparr> cm_context = [], cm_project = [], cm_inputs = demo_inputs s, cm_classpath = [[lit ''x'']] \<rparr>"

lemma demo_walk: "model_inputs demo_models n [] [] None = Some (Some \<lparr> mi_paths = [], mi_env_references = {} \<rparr>)"
  by (simp add: model_inputs_def start_walk_def walk_loop.simps)

lemma demo_stamped: "stamped_inputs demo_resolution \<lparr> mi_paths = [], mi_env_references = {} \<rparr> = [mavenrc]"
  by (simp add: stamped_inputs_def demo_resolution_def classpath_inputs_def repository_poms_def mavenrc_def)

lemma demo_captured:
  assumes "case stamp mavenrc of None \<Rightarrow> True | Some s \<Rightarrow> was_settled_at (stamp_modified_ns s) started"
  shows "capture_resolution_inputs stamp (\<lambda>_. None) sample_limits demo_models [] demo_resolution [] started =
    Some (Some (demo_inputs (stamp mavenrc)))"
proof -
  have "resolution_inputs stamp (\<lambda>_. None) sample_limits demo_models [] demo_resolution = Some (Some (demo_inputs (stamp mavenrc)))"
    using demo_walk demo_stamped
    by (simp add: resolution_inputs_def demo_resolution_def repository_poms_def capture_trees_def tree_paths_def capture_def demo_inputs_def)
  then show ?thesis using assms by (simp add: capture_resolution_inputs_def demo_inputs_def new_inputs_def fp_was_settled_at_def)
qed

lemma demo_stored:
  assumes "stamp mavenrc = s" "case s of None \<Rightarrow> True | Some s \<Rightarrow> was_settled_at (stamp_modified_ns s) n"
  shows "persisted_manifest stamp [] (\<lambda>_. n) [] [] (rs_classpath demo_resolution) (Some (demo_inputs s)) = Some (demo_manifest s)"
    "reusable_classpath (\<lambda>_. True) stamp [] [] [] (demo_manifest s) = Some ([[lit ''x'']], demo_inputs s)"
  using assms
  by (simp_all add: persisted_manifest_def settled_manifest_def reusable_classpath_def inputs_are_current_def matches_environment_def
      demo_inputs_def demo_manifest_def new_inputs_def demo_resolution_def fp_is_current_def fp_is_settled_def del: lit.simps)

definition steady :: file_history where
  "steady = \<lparr> fh_content = (\<lambda>_ _. Some [1]), fh_modified = (\<lambda>_ _. 0) \<rparr>"

lemma settled_zero: "was_settled_at 0 (SETTLED_AGE + n)"
  by (simp add: was_settled_at_def checked_sub_def)

theorem classpath_reuse_sound_witness:
  "clock_ok steady \<and> fh_content steady (SETTLED_AGE + 1) mavenrc = fh_content steady SETTLED_AGE mavenrc \<and>
     (\<exists>model. model_inputs demo_models (rl_xml_bytes sample_limits) [] [] None = Some (Some model))"
proof -
  let ?t = "SETTLED_AGE + 1" and ?s = "Some \<lparr> stamp_len = 1, stamp_modified_ns = 0 \<rparr> :: FileStamp option"
  have clock: "clock_ok steady" by (simp add: clock_ok_def steady_def)
  have stamp: "stamp_at steady t mavenrc = ?s" for t by (simp add: stamp_at_def steady_def)
  have settled: "case ?s of None \<Rightarrow> True | Some s \<Rightarrow> was_settled_at (stamp_modified_ns s) SETTLED_AGE"
    using settled_zero [of 0] by simp
  have captured: "capture_resolution_inputs (stamp_at steady ?t) (\<lambda>_. None) sample_limits demo_models [] demo_resolution [] SETTLED_AGE =
      Some (Some (demo_inputs ?s))"
    using demo_captured [of SETTLED_AGE "stamp_at steady ?t"] settled by (simp add: stamp)
  have "SETTLED_AGE \<le> ?t" "fp_is_current (stamp_at steady ?t) []" by (simp_all add: fp_is_current_def)
  note stored = demo_stored [where stamp = "stamp_at steady ?t" and s = ?s and n = SETTLED_AGE, OF stamp settled]
  from classpath_reuse_sound [OF clock \<open>SETTLED_AGE \<le> ?t\<close> captured stored \<open>fp_is_current (stamp_at steady ?t) []\<close>]
  have "\<exists>model. model_inputs demo_models (rl_xml_bytes sample_limits) [] [] None = Some (Some model)"
    by (auto simp: demo_resolution_def repository_poms_def)
  then show ?thesis using clock by (simp add: steady_def)
qed

text \<open>
  A file that is deleted while Maven runs escapes: it is stamped as missing, which counts as settled.  The
  classpath that Maven resolved with it is stored and used again without it.
\<close>

definition deleting :: file_history where
  "deleting = \<lparr> fh_content = (\<lambda>t _. if t \<le> SETTLED_AGE then Some [1] else None), fh_modified = (\<lambda>_ _. 0) \<rparr>"

lemma deleted_input_missed:
  "clock_ok deleting \<and> fh_content deleting SETTLED_AGE mavenrc = Some [1] \<and> fh_content deleting (SETTLED_AGE + 1) mavenrc = None \<and>
   capture_resolution_inputs (stamp_at deleting (SETTLED_AGE + 1)) (\<lambda>_. None) sample_limits demo_models [] demo_resolution [] SETTLED_AGE =
     Some (Some (demo_inputs None)) \<and>
   reusable_classpath (\<lambda>_. True) (stamp_at deleting (SETTLED_AGE + 1)) [] [] [] (demo_manifest None) = Some ([[lit ''x'']], demo_inputs None)"
proof -
  have stamp: "stamp_at deleting (SETTLED_AGE + 1) mavenrc = None" by (simp add: stamp_at_def deleting_def)
  have "clock_ok deleting" by (auto simp: clock_ok_def deleting_def split: if_splits)
  moreover have "fh_content deleting SETTLED_AGE mavenrc = Some [1]" "fh_content deleting (SETTLED_AGE + 1) mavenrc = None"
    by (simp_all add: deleting_def)
  ultimately show ?thesis
    using demo_captured [where stamp = "stamp_at deleting (SETTLED_AGE + 1)" and started = SETTLED_AGE]
      demo_stored(2) [where stamp = "stamp_at deleting (SETTLED_AGE + 1)" and s = None, OF stamp]
    unfolding stamp by simp
qed

end
