(* ===== verification/Index_Service.thy ===== *)
theory Index_Service
  imports Cached_Builds Resolution_Inputs Maven_Output Paging
begin

text \<open>
  How the server answers a request for the index of a project (\<open>server.rs\<close>): the runner is revalidated, the cache
  is looked up, a build resolves the classpath, stamps the artifacts, reserves memory, indexes, compares the stamps
  again, publishes and persists; a refresh invalidates first.  Each function is translated with all of its calls on
  the project cache, in order.  A request holds no lock between two of them, so before each the other requests of
  the process and the other processes act: \<open>others_act\<close> runs an arbitrary list of their actions.  Jars, stamps,
  Maven runs, discovered runners and allocated objects are observed through \<open>service_env\<close> by the number of the
  action; runners, indexes, cells and reservations are known by numbers, as in \<open>Project_Cache\<close>.  Status publication,
  tracing and the poisoning of the lock by a panic are left out.
\<close>

section \<open>The state of the service\<close>

text \<open>
  A publication is the record of one index that was built and handed out: its project, generation and number,
  and the fingerprints it was built for.  The service keeps the project cache, the build cells that are
  initialised, the rows of the on-disk cache, and, for the statements below, the publications so far and the number of actions.
  A build cell is known by its number together with the project and the generation it was handed out for.
\<close>

record publication =
  pb_root :: path
  pb_generation :: nat
  pb_index :: nat
  pb_project :: ProjectFingerprint
  pb_artifacts :: ProjectFingerprint

datatype BuildOutcome = Built nat | Build_Failed ErrorData | Build_Stale

type_synonym cell_key = "path \<times> nat \<times> nat"

record service =
  sv_cache :: ProjectCache
  sv_cells :: "(cell_key \<times> BuildOutcome) list"
  sv_rows :: "cache_row list"
  sv_published :: "publication list"
  sv_time :: nat

text \<open>What other requests and processes do between two actions of a request.\<close>

datatype other_action = Cache_Action cache_op | Cell_Action cell_key BuildOutcome | Rows_Action "cache_row list"

record classpath_run =
  cr_build :: MavenBuildResult
  cr_paths :: "path list"
  cr_paths_incomplete :: bool

text \<open>
  What a request observes, by the number of the action that observes it, and the configuration:
  \<open>se_others\<close> are the actions of others, \<open>se_blocking\<close> a rejection of heavy work, \<open>se_new\<close> a new number for an
  allocated object, \<open>se_discover\<close> the discovery of a runner, \<open>se_maven\<close> a run of Maven, \<open>se_panic\<close> the error of a
  panicking job.
\<close>

record service_env =
  se_others :: "service \<Rightarrow> other_action list"
  se_world :: "nat \<Rightarrow> world"
  se_stamp :: "nat \<Rightarrow> path \<Rightarrow> FileStamp option"
  se_walk :: "nat \<Rightarrow> path \<Rightarrow> path list option"
  se_exists :: "nat \<Rightarrow> path \<Rightarrow> bool"
  se_files :: "nat \<Rightarrow> filesystem"
  se_reactor_files :: "nat \<Rightarrow> reactor_files"
  se_source :: "nat \<Rightarrow> jar_source"
  se_models :: "nat \<Rightarrow> model_files"
  se_scanned :: "nat \<Rightarrow> path \<Rightarrow> scanned_file"
  se_variables :: "nat \<Rightarrow> variables"
  se_clock :: "nat \<Rightarrow> nat"
  se_new :: "nat \<Rightarrow> nat"
  se_blocking :: "nat \<Rightarrow> ErrorData option"
  se_panic :: ErrorData
  se_cancelled :: "nat \<Rightarrow> nat \<Rightarrow> bool"
  se_error_text :: "build_error \<Rightarrow> str"
  se_elapsed :: "nat \<Rightarrow> nat"
  se_discover :: "nat \<Rightarrow> path \<Rightarrow> nat option \<Rightarrow> str + nat"
  se_fingerprint_paths :: "nat \<Rightarrow> nat \<Rightarrow> path list"
  se_modules :: "nat \<Rightarrow> path list"
  se_installation :: "nat \<Rightarrow> nat \<Rightarrow> path list"
  se_maven :: "nat \<Rightarrow> nat \<Rightarrow> classpath_run"
  se_lower :: "str \<Rightarrow> str"
  se_json :: "path \<Rightarrow> str"
  se_identity :: "path \<Rightarrow> 64 word \<Rightarrow> str"
  se_encode :: "ClasspathManifest \<Rightarrow> 8 word list option"
  se_decode :: "8 word list \<Rightarrow> ClasspathManifest option"
  se_next_row :: "cache_row list \<Rightarrow> int"
  se_to_str :: "path \<Rightarrow> str option"
  se_trusted :: "path list"
  se_execution_repository :: "path option"
  se_java :: JavaEnvironment
  se_home :: "path option"
  se_index_cache :: "nat option"
  se_tool :: str
  se_limits :: resource_limits
  se_max_results :: nat
  se_max_source_bytes :: nat

definition publications :: "world \<Rightarrow> cache_op \<Rightarrow> ProjectCache \<Rightarrow> publication list" where
  "publications w op c =
     (case op of
        Publish root g index build fp rid \<Rightarrow>
          if fst (publish w root g index build fp rid c) = PubStale then []
          else [\<lparr> pb_root = root, pb_generation = g, pb_index = index, pb_project = fp, pb_artifacts = fb_artifacts build \<rparr>]
      | _ \<Rightarrow> [])"

text \<open>One operation on the cache under its lock.\<close>

definition run_op :: "service_env \<Rightarrow> cache_op \<Rightarrow> service \<Rightarrow> service" where
  "run_op env op st =
     st \<lparr> sv_cache := apply_op (se_world env (sv_time st)) op (sv_cache st),
          sv_published := sv_published st @ publications (se_world env (sv_time st)) op (sv_cache st) \<rparr>"

fun other_step :: "service_env \<Rightarrow> other_action \<Rightarrow> service \<Rightarrow> service" where
  "other_step env (Cache_Action op) st = run_op env op st"
| "other_step env (Cell_Action key outcome) st = st \<lparr> sv_cells := (key, outcome) # sv_cells st \<rparr>"
| "other_step env (Rows_Action rows) st = st \<lparr> sv_rows := rows \<rparr>"

text \<open>Others act before every action of the request.\<close>

definition others_act :: "service_env \<Rightarrow> service \<Rightarrow> service" where
  "others_act env st = (let st = st \<lparr> sv_time := Suc (sv_time st) \<rparr> in fold (other_step env) (se_others env st) st)"

definition blocking :: "service_env \<Rightarrow> service \<Rightarrow> (ErrorData + unit) \<times> service" where
  "blocking env st =
     (let st = others_act env st
      in (case se_blocking env (sv_time st) of Some e \<Rightarrow> Inl e | None \<Rightarrow> Inr (), st))"

definition then_do :: "('e + 'a) \<times> service \<Rightarrow> ('a \<Rightarrow> service \<Rightarrow> ('e + 'b) \<times> service) \<Rightarrow> ('e + 'b) \<times> service" where
  "then_do m f = (case m of (Inl e, st) \<Rightarrow> (Inl e, st) | (Inr x, st) \<Rightarrow> f x st)"

section \<open>Runners\<close>

definition discover_runner ::
  "service_env \<Rightarrow> path \<Rightarrow> RunnerSnapshot option \<Rightarrow> service \<Rightarrow> (ErrorData + path \<times> RunnerSnapshot) \<times> service" where
  "discover_runner env root cached st =
     (let st = others_act env st
      in case se_discover env (sv_time st) root (map_option sn_runner cached) of
           Inl e \<Rightarrow> (Inl (InvalidParams e), run_op env (DiscardProject root) (others_act env st))
         | Inr runner \<Rightarrow>
             let st = others_act env st;
                 fp = capture (se_stamp env (sv_time st)) (se_fingerprint_paths env (sv_time st) runner);
                 st = others_act env st;
                 snapshot = fst (install_runner (se_world env (sv_time st)) root runner fp (sv_cache st))
             in (Inr (root, snapshot), run_op env (InstallRunner root runner fp) st))"

definition project_runner :: "service_env \<Rightarrow> str \<Rightarrow> service \<Rightarrow> (ErrorData + path \<times> RunnerSnapshot) \<times> service" where
  "project_runner env project_path st =
     (let st = others_act env st
      in case trusted_project_root (se_files env (sv_time st)) (se_trusted env) project_path of
           Inl e \<Rightarrow> (Inl e, st)
         | Inr root \<Rightarrow>
             let st = others_act env st;
                 cached = fst (runner_for (se_world env (sv_time st)) root (sv_cache st));
                 st = others_act env (run_op env (RunnerFor root) st)
             in case cached of
                  Some snapshot \<Rightarrow>
                    if \<not> sn_revalidate snapshot \<and> fp_is_current (se_stamp env (sv_time st)) (sn_fingerprint snapshot)
                    then (Inr (root, snapshot), st) else discover_runner env root cached st
                | None \<Rightarrow> discover_runner env root cached st)"

section \<open>The classpath of a build\<close>

definition MAX_MAVEN_FAILURE_DETAIL_CHARS :: nat where "MAX_MAVEN_FAILURE_DETAIL_CHARS = 2048"

fun outcome_text :: "MavenBuildOutcome \<Rightarrow> str" where
  "outcome_text Outcome_Success = lit ''Success''"
| "outcome_text CompilationError = lit ''CompilationError''"
| "outcome_text TestFailure = lit ''TestFailure''"
| "outcome_text BuildFailure = lit ''BuildFailure''"
| "outcome_text Outcome_Timeout = lit ''Timeout''"
| "outcome_text Outcome_RunnerError = lit ''RunnerError''"

definition fmt_int :: "int \<Rightarrow> str" where
  "fmt_int n = (if n < 0 then 45 # fmt_dec (nat (- n)) else fmt_dec (nat n))"

definition maven_failure_detail :: "MavenBuildResult \<Rightarrow> str" where
  "maven_failure_detail build =
     (let run = br_run build;
          lines = map trim (str_lines (run_stderr run) @ str_lines (run_stdout run));
          error_lines = filter (\<lambda>line. contains (lit ''[ERROR]'') line \<and> line \<noteq> lit ''[ERROR]'') lines;
          detail = join [10] (if error_lines = [] then filter (\<lambda>line. line \<noteq> []) lines else error_lines)
      in if detail = []
         then (case run_exit_code run of
                 None \<Rightarrow> lit ''Maven failed with outcome '' @ outcome_text (br_outcome build) @ lit '' without diagnostic output''
               | Some code \<Rightarrow> lit ''Maven exited with status '' @ fmt_int code @ lit '' without diagnostic output'')
         else
           let bounded = take (MAX_MAVEN_FAILURE_DETAIL_CHARS + 1) detail
           in if MAX_MAVEN_FAILURE_DETAIL_CHARS < length bounded
              then take (MAX_MAVEN_FAILURE_DETAIL_CHARS - 1) bounded @ [8230] else bounded)"

record ResolvedClasspath =
  rc_paths :: "path list"
  rc_persisted :: bool
  rc_inputs :: "ResolutionInputs option"
  rc_context :: str

definition classpath_context :: "service_env \<Rightarrow> nat \<Rightarrow> path \<Rightarrow> nat \<Rightarrow> str" where
  "classpath_context env t root runner =
     (let poms = reactor_poms (se_fingerprint_paths env t runner);
          references = referenced_names (se_scanned env t) (of_project root poms (se_installation env t runner) (se_home env))
      in context_key (se_json env) root (se_identity env root (environment_digest (se_variables env t) references)))"

definition stored_classpath :: "service_env \<Rightarrow> path \<Rightarrow> RunnerSnapshot \<Rightarrow> service \<Rightarrow> str \<times> (path list \<times> ResolutionInputs) option" where
  "stored_classpath env root snapshot st =
     (let t = sv_time st; key = classpath_context env t root (sn_runner snapshot)
      in (key, load_row (se_tool env) CLASSPATH_KIND key (sv_rows st) \<bind> se_decode env \<bind>
            reusable_classpath (se_exists env t) (se_stamp env t) (se_variables env t) key (sn_fingerprint snapshot)))"

definition captured_inputs ::
  "service_env \<Rightarrow> path \<Rightarrow> RunnerSnapshot \<Rightarrow> path list \<Rightarrow> nat \<Rightarrow> service \<Rightarrow> (ErrorData + ResolutionInputs option) \<times> service" where
  "captured_inputs env root snapshot classpath started st =
     (if se_index_cache env = None then (Inr None, st)
      else then_do (blocking env st) (\<lambda>_ st.
        let t = sv_time st; runner = sn_runner snapshot;
            sources = \<lparr> rs_root = root, rs_java = se_java env, rs_home = se_home env, rs_classpath = classpath,
              rs_repository_root = repository_root_for classpath root (se_execution_repository env),
              rs_reactor_poms = reactor_poms (se_fingerprint_paths env t runner), rs_installation = se_installation env t runner \<rparr>
        in case capture_resolution_inputs (se_stamp env t) (se_walk env t) (se_limits env) (se_models env t) (se_variables env t)
                  sources (sn_fingerprint snapshot) started of
             None \<Rightarrow> (Inl (se_panic env), st)
           | Some inputs \<Rightarrow> (Inr inputs, st)))"

definition maven_classpath ::
  "service_env \<Rightarrow> path \<Rightarrow> RunnerSnapshot \<Rightarrow> str \<Rightarrow> service \<Rightarrow> (ErrorData + ResolvedClasspath) \<times> service" where
  "maven_classpath env root snapshot key st =
     (let st = others_act env st;
          started = se_clock env (sv_time st);
          st = others_act env st;
          run = se_maven env (sv_time st) (sn_runner snapshot)
      in if br_outcome (cr_build run) \<noteq> Outcome_Success
         then (Inl (InvalidParams (lit ''cannot build Maven classpath for project index: '' @ maven_failure_detail (cr_build run))), st)
         else if cr_paths_incomplete run
         then (Inl (InvalidParams (lit ''Maven classpath output was truncated or malformed; the project index was not built because it would be incomplete'')), st)
         else then_do (captured_inputs env root snapshot (cr_paths run) started st) (\<lambda>inputs st.
           (Inr \<lparr> rc_paths = cr_paths run, rc_persisted = False, rc_inputs = inputs, rc_context = key \<rparr>, st)))"

definition resolve_classpath ::
  "service_env \<Rightarrow> path \<Rightarrow> RunnerSnapshot \<Rightarrow> service \<Rightarrow> (ErrorData + ResolvedClasspath) \<times> service" where
  "resolve_classpath env root snapshot st =
     (if se_index_cache env = None then maven_classpath env root snapshot [] st
      else then_do (blocking env st) (\<lambda>_ st.
        case stored_classpath env root snapshot st of
          (key, Some (paths, inputs)) \<Rightarrow>
            (Inr \<lparr> rc_paths = paths, rc_persisted = True, rc_inputs = Some inputs, rc_context = key \<rparr>, st)
        | (key, None) \<Rightarrow> maven_classpath env root snapshot key st))"

section \<open>One build\<close>

text \<open>Early returns of a build are on the left.\<close>

datatype early_return = Early_Failed ErrorData | Early_Stale

primrec early_outcome :: "early_return \<Rightarrow> BuildOutcome" where
  "early_outcome (Early_Failed e) = Build_Failed e"
| "early_outcome Early_Stale = Build_Stale"

definition failing :: "(ErrorData + 'a) \<times> service \<Rightarrow> (early_return + 'a) \<times> service" where
  "failing m = (case m of (Inl e, st) \<Rightarrow> (Inl (Early_Failed e), st) | (Inr x, st) \<Rightarrow> (Inr x, st))"

definition stamp_artifacts ::
  "service_env \<Rightarrow> path \<Rightarrow> RunnerSnapshot \<Rightarrow> path list \<Rightarrow> path option \<Rightarrow> service \<Rightarrow> (early_return + ProjectFingerprint) \<times> service" where
  "stamp_artifacts env root snapshot paths repository st =
     then_do (failing (blocking env st)) (\<lambda>_ st.
       let t = sv_time st; reactor = \<lparr> rl_root = root, rl_modules = se_modules env (sn_runner snapshot) \<rparr>
       in (Inr (capture_trees (se_stamp env t) (se_walk env t) (rl_index_entries (se_limits env))
             (stamped_artifacts (se_reactor_files env t) (se_limits env) repository reactor paths)), st))"

definition reserve_build ::
  "service_env \<Rightarrow> path \<Rightarrow> nat \<Rightarrow> ProjectFingerprint \<Rightarrow> service \<Rightarrow> (early_return + nat) \<times> service" where
  "reserve_build env root g artifacts st =
     (let st = others_act env st; w = se_world env (sv_time st); rid = se_new env (sv_time st);
          r = fst (reserve w root g (file_bytes artifacts) rid (sv_cache st));
          st = run_op env (Reserve root g (file_bytes artifacts) rid) st
      in case r of
           Inl ReserveStale \<Rightarrow> (Inl Early_Stale, st)
         | Inl (OverBudget needed limit) \<Rightarrow>
             (Inl (Early_Failed (InvalidParams (lit ''building this project index needs an estimated '' @ fmt_dec needed @
                lit '' bytes, which exceeds MAX_PROJECT_INDEX_BYTES ('' @ fmt_dec limit @ lit '')''))), st)
         | Inr rid \<Rightarrow> (Inr rid, st))"

text \<open>
  The indexing job: the records it may reuse are read from the rows, unless a full rebuild was asked for;
  afterwards the fingerprints are compared again.
\<close>

definition index_project ::
  "service_env \<Rightarrow> path \<Rightarrow> RunnerSnapshot \<Rightarrow> path list \<Rightarrow> path option \<Rightarrow> ProjectFingerprint \<Rightarrow> service \<Rightarrow>
     (early_return + ScopedIndex \<times> bool) \<times> service" where
  "index_project env root snapshot paths repository artifacts st =
     (let st = others_act env st; full = requires_full_rebuild root (sv_cache st)
      in then_do (failing (blocking env st)) (\<lambda>_ st.
        let t = sv_time st; reactor = \<lparr> rl_root = root, rl_modules = se_modules env (sn_runner snapshot) \<rparr>;
            persisted = (if se_index_cache env = None then None
                         else if full then Some (\<lambda>_. None) else Some (load_record (se_to_str env) (se_tool env) (sv_rows st)))
        in case build_scoped_with (se_source env t) (se_reactor_files env t) (se_cancelled env t) (se_lower env) (se_limits env) repository reactor
                  paths (se_max_results env) (se_max_source_bytes env) persisted of
             None \<Rightarrow> (Inl (Early_Failed (se_panic env)), st)
           | Some (Inl e) \<Rightarrow> (Inl (Early_Failed (InternalError (se_error_text env e))), st)
           | Some (Inr scoped) \<Rightarrow>
               let st = others_act env st;
                   stamp = se_stamp env (sv_time st);
                   changed = (\<not> fp_is_current stamp (sn_fingerprint snapshot) \<or> \<not> fp_is_current stamp artifacts)
               in if sx_unindexed scoped \<noteq> []
                  then (Inl (Early_Failed (InvalidParams (unindexed_classpath_message (sx_unindexed scoped)))), st)
                  else (Inr (scoped, changed), st)))"

definition publish_build ::
  "service_env \<Rightarrow> path \<Rightarrow> RunnerSnapshot \<Rightarrow> nat \<Rightarrow> ResolvedClasspath \<Rightarrow> ProjectFingerprint \<Rightarrow> nat \<Rightarrow> ScopedIndex \<times> bool \<Rightarrow> service \<Rightarrow>
     (early_return + nat) \<times> service" where
  "publish_build env root snapshot g classpath artifacts rid built st =
     (let st = others_act env st
      in if snd built then (Inl Early_Stale, run_op env (InvalidateGeneration root g) st)
         else
           let records = sx_records (fst built);
               st = (if se_index_cache env = None then st
                     else run_op env (RecordPersistedUse (rc_persisted classpath) (length (ru_reused records)) (ru_built records)) st);
               index = se_new env (sv_time st);
               build = \<lparr> fb_artifacts = artifacts, fb_classpath_entries = length (rc_paths classpath), fb_duration = se_elapsed env (sv_time st) \<rparr>;
               publication = fst (publish (se_world env (sv_time st)) root g index build (sn_fingerprint snapshot) rid (sv_cache st));
               st = run_op env (Publish root g index build (sn_fingerprint snapshot) rid) st
           in if publication = PubStale then (Inl Early_Stale, st)
              else (Inr index, run_op env (FinishFullRebuild root g) st))"

definition forget_persisted_classpaths :: "service_env \<Rightarrow> path \<Rightarrow> service \<Rightarrow> service" where
  "forget_persisted_classpaths env root st =
     (if se_index_cache env = None then st
      else case blocking env st of
             (Inl e, st) \<Rightarrow> st
           | (Inr _, st) \<Rightarrow> st \<lparr> sv_rows := forget_project_classpaths (se_json env) root (sv_rows st) \<rparr>)"

definition persist_build ::
  "service_env \<Rightarrow> path \<Rightarrow> RunnerSnapshot \<Rightarrow> nat \<Rightarrow> ResolvedClasspath \<Rightarrow> RecordReuse \<Rightarrow> service \<Rightarrow> service" where
  "persist_build env root snapshot g classpath records st =
     (case se_index_cache env of
        None \<Rightarrow> st
      | Some max_bytes \<Rightarrow>
          let st = (case blocking env st of
                (Inl e, st) \<Rightarrow> st
              | (Inr _, st) \<Rightarrow>
                  let t = sv_time st;
                      manifest = persisted_manifest (se_stamp env t) (se_variables env t) (\<lambda>_. se_clock env t) (rc_context classpath)
                        (sn_fingerprint snapshot) (rc_paths classpath) (rc_inputs classpath) \<bind> se_encode env;
                      update = build_update (map_option (Pair (rc_context classpath)) manifest) records
                  in (case try_write (se_next_row env) (se_to_str env) (int (se_clock env t div 10 ^ 6)) max_bytes (se_tool env) update (sv_rows st) of
                        Inl _ \<Rightarrow> st | Inr rows \<Rightarrow> st \<lparr> sv_rows := rows \<rparr>));
              st = others_act env st
          in if is_current root g (sv_cache st) then st else forget_persisted_classpaths env root st)"

definition try_build_index :: "service_env \<Rightarrow> path \<Rightarrow> RunnerSnapshot \<Rightarrow> nat \<Rightarrow> service \<Rightarrow> BuildOutcome \<times> service" where
  "try_build_index env root snapshot g st =
     (case then_do (failing (resolve_classpath env root snapshot st)) (\<lambda>classpath st.
             let paths = rc_paths classpath; repository = repository_root_for paths root (se_execution_repository env)
             in if \<not> has_indexable_jars paths root (repository \<noteq> None)
                then (Inl (Early_Failed (InvalidParams (lit ''Maven classpath did not contain indexable local repository JARs''))), st)
                else then_do (stamp_artifacts env root snapshot paths repository st) (\<lambda>artifacts st.
                     then_do (reserve_build env root g artifacts st) (\<lambda>rid st.
                     then_do (index_project env root snapshot paths repository artifacts st) (\<lambda>built st.
                     then_do (publish_build env root snapshot g classpath artifacts rid built st) (\<lambda>index st.
                     (Inr index, persist_build env root snapshot g classpath (sx_records (fst built)) st)))))) of
        (Inl early, st) \<Rightarrow> (early_outcome early, st)
      | (Inr index, st) \<Rightarrow> (Built index, st))"

definition build_index :: "service_env \<Rightarrow> path \<Rightarrow> RunnerSnapshot \<Rightarrow> nat \<Rightarrow> service \<Rightarrow> BuildOutcome \<times> service" where
  "build_index env root snapshot g st =
     (case try_build_index env root snapshot g (others_act env st) of
        (Build_Failed e, st) \<Rightarrow> (Build_Failed e, run_op env (FinishFailed root g) (others_act env st))
      | (outcome, st) \<Rightarrow> (outcome, st))"

text \<open>\<open>OnceCell::get_or_init\<close>: an initialised cell answers, otherwise this request builds.\<close>

definition get_or_build :: "service_env \<Rightarrow> path \<Rightarrow> RunnerSnapshot \<Rightarrow> nat \<Rightarrow> nat \<Rightarrow> service \<Rightarrow> BuildOutcome \<times> service" where
  "get_or_build env root snapshot g cell st =
     (let st = others_act env st
      in case map_of (sv_cells st) (root, g, cell) of
           Some outcome \<Rightarrow> (outcome, st)
         | None \<Rightarrow>
             (case build_index env root snapshot g st of
                (outcome, st) \<Rightarrow> (outcome, st \<lparr> sv_cells := ((root, g, cell), outcome) # sv_cells st \<rparr>)))"

section \<open>Answers\<close>

definition MAX_INDEX_BUILD_ATTEMPTS :: nat where "MAX_INDEX_BUILD_ATTEMPTS = 4"

primrec index_attempts :: "nat \<Rightarrow> service_env \<Rightarrow> str \<Rightarrow> service \<Rightarrow> (ErrorData + nat) \<times> service" where
  "index_attempts 0 env project_path st =
     (Inl (InternalError (lit ''the project changed repeatedly while its index was being built; retry the request'')), st)"
| "index_attempts (Suc n) env project_path st =
     then_do (project_runner env project_path st) (\<lambda>(root, snapshot) st.
       let st = others_act env st; cell = se_new env (sv_time st);
           lookup = fst (lookup_index (se_world env (sv_time st)) root (sn_fingerprint snapshot) cell cell (sv_cache st));
           st = run_op env (LookupIndex root (sn_fingerprint snapshot) cell cell) st
       in case lookup of
            Cached entry g \<Rightarrow>
              then_do (blocking env st) (\<lambda>_ st.
                if fp_is_current (se_stamp env (sv_time st)) (ci_artifacts entry)
                then (Inr (ci_index entry), run_op env (RecordHit root) (others_act env st))
                else index_attempts n env project_path (run_op env (InvalidateGeneration root g) (others_act env st)))
          | Build cell owner g \<Rightarrow>
              (case get_or_build env root snapshot g cell st of
                 (Built index, st) \<Rightarrow> (Inr index, st)
               | (Build_Failed e, st) \<Rightarrow> (Inl e, st)
               | (Build_Stale, st) \<Rightarrow> index_attempts n env project_path st))"

definition index_for :: "service_env \<Rightarrow> str \<Rightarrow> service \<Rightarrow> (ErrorData + nat) \<times> service" where
  "index_for env project_path st = index_attempts MAX_INDEX_BUILD_ATTEMPTS env project_path st"

definition invalidate_project :: "service_env \<Rightarrow> str \<Rightarrow> service \<Rightarrow> (ErrorData + unit) \<times> service" where
  "invalidate_project env project_path st =
     (let st = others_act env st
      in case validate_project_path (se_files env (sv_time st)) project_path of
           Inl e \<Rightarrow> (Inl e, st)
         | Inr root \<Rightarrow> (Inr (), forget_persisted_classpaths env root (run_op env (InvalidateAfterMaven root) (others_act env st))))"

fun refresh_error :: "ErrorData \<Rightarrow> ErrorData" where
  "refresh_error (InvalidParams m) = InvalidParams (lit ''the project cache was invalidated but the refresh did not complete: '' @ m)"
| "refresh_error (InternalError m) = InternalError (lit ''the project cache was invalidated but the refresh did not complete: '' @ m)"
| "refresh_error (OtherCode n m) = OtherCode n (lit ''the project cache was invalidated but the refresh did not complete: '' @ m)"

definition refresh_project :: "service_env \<Rightarrow> str \<Rightarrow> service \<Rightarrow> (ErrorData + nat) \<times> service" where
  "refresh_project env project_path st =
     (let st = others_act env st
      in case trusted_project_root (se_files env (sv_time st)) (se_trusted env) project_path of
           Inl e \<Rightarrow> (Inl e, st)
         | Inr root \<Rightarrow>
             let st = run_op env (RequireFullRebuild root) (run_op env (InvalidateAfterMaven root) (others_act env st))
             in (case index_for env project_path (forget_persisted_classpaths env root st) of
                   (Inl e, st) \<Rightarrow> (Inl (refresh_error e), st) | (Inr index, st) \<Rightarrow> (Inr index, st)))"

end
