(* ===== verification/Index_Answers.thy ===== *)
theory Index_Answers
  imports Index_Service
begin

text \<open>
  What the answers of \<open>Index_Service\<close> are worth, whatever other requests do in between: an answered index comes from
  a publication of its project whose files were unchanged when its build ended, it is not older than an invalidation
  before the request, and a refresh answers an index of a new generation.
\<close>

section \<open>Which cached indexes an operation leaves\<close>

definition holds_index :: "ProjectCache \<Rightarrow> path \<Rightarrow> nat \<Rightarrow> CachedIndex \<Rightarrow> bool" where
  "holds_index c root g e \<longleftrightarrow> (\<exists>s. state_of c root = Some s \<and> ps_index s = Some e \<and> ps_generation s = g)"

definition index_le :: "ProjectCache \<Rightarrow> ProjectCache \<Rightarrow> bool" where
  "index_le c c' \<longleftrightarrow> (\<forall>root g e. holds_index c' root g e \<longrightarrow> holds_index c root g e)"

lemma index_le_refl [simp]: "index_le c c"
  by (simp add: index_le_def)

lemma index_le_trans: "index_le a b \<Longrightarrow> index_le b c \<Longrightarrow> index_le a c"
  by (simp add: index_le_def)

lemma index_leI:
  "(\<And>root s e. state_of c' root = Some s \<Longrightarrow> ps_index s = Some e \<Longrightarrow> holds_index c root (ps_generation s) e) \<Longrightarrow> index_le c c'"
  by (auto simp: index_le_def holds_index_def)

lemma index_le_same: "pc_states c' = pc_states c \<Longrightarrow> index_le c c'"
  by (simp add: index_le_def holds_index_def state_of_def)

lemma index_le_shrinks: "shrinks w c c' \<Longrightarrow> index_le c c'"
  by (rule index_leI) (fastforce simp: holds_index_def shrinks_def state_le_def)

lemma index_le_prune: "index_le c (prune w c)"
  by (rule index_leI) (auto simp: holds_index_def)

lemma index_le_enforce: "keys_ok c \<Longrightarrow> index_le c (enforce w p c)"
  by (rule index_le_shrinks [OF shrinks_enforce])

lemma index_le_release: "index_le c (release_index w root c)"
  by (rule index_leI) (auto simp: holds_index_def state_of_release_index split: option.splits if_splits)

lemma release_clears: "state_of (release_index w root c) root = Some s \<Longrightarrow> ps_index s = None"
  unfolding state_of_release_index by (auto split: option.splits if_splits)

lemma index_le_upd:
  assumes "\<And>s. ps_index (f s) = None \<or> ps_index (f s) = ps_index s \<and> ps_generation (f s) = ps_generation s"
  shows "index_le c (upd_state root f c)"
proof (rule index_leI)
  fix r s' e assume a: "state_of (upd_state root f c) r = Some s'" "ps_index s' = Some e"
  show "holds_index c r (ps_generation s') e"
  proof (cases "r = root")
    case True
    then obtain s where s: "state_of c r = Some s" "s' = f s" using a by auto
    then show ?thesis using a assms [of s] by (auto simp: holds_index_def)
  qed (use a in \<open>simp add: holds_index_def\<close>)
qed

lemma index_le_insert: "index_le c (or_insert root (new_state w g) c)"
  by (rule index_leI) (auto simp: holds_index_def new_state_def split: option.splits if_splits)

lemma index_le_invalidate: "index_le c (invalidate w root c)"
proof (cases "state_of c root")
  case None
  then show ?thesis by (simp add: invalidate_def fresh_generation_def index_le_same)
next
  case (Some s)
  let ?c1 = "upd_state root (\<lambda>s. s \<lparr> ps_generation := pc_next_generation c + 1, ps_in_flight := None \<rparr>)
    (c \<lparr> pc_next_generation := pc_next_generation c + 1 \<rparr>) \<lparr> pc_invalidations := pc_invalidations c + 1 \<rparr>"
  have eq: "invalidate w root c = release_index w root ?c1"
    using Some by (simp add: invalidate_def fresh_generation_def upd_state_def upd_states_def)
  have eq': "holds_index c r g e" if "r \<noteq> root" "holds_index ?c1 r g e" for r g e using that by (simp add: holds_index_def)
  show ?thesis
  proof (rule index_leI)
    fix r s' e assume a: "state_of (invalidate w root c) r = Some s'" "ps_index s' = Some e"
    then have "r \<noteq> root" using release_clears [of w root ?c1] unfolding eq by force
    moreover have "holds_index ?c1 r (ps_generation s') e"
      using a index_le_release [of ?c1 w root] unfolding eq by (auto simp: index_le_def holds_index_def)
    ultimately show "holds_index c r (ps_generation s') e" by (rule eq')
  qed
qed

text \<open>As rules that follow an operation step by step.\<close>

lemma index_le_fields:
  "index_le a c \<Longrightarrow> index_le a (c \<lparr> pc_released := x1 \<rparr>)" "index_le a c \<Longrightarrow> index_le a (c \<lparr> pc_released_runners := x2 \<rparr>)"
  "index_le a c \<Longrightarrow> index_le a (c \<lparr> pc_reservations := x1 \<rparr>)" "index_le a c \<Longrightarrow> index_le a (c \<lparr> pc_next_generation := n \<rparr>)"
  "index_le a c \<Longrightarrow> index_le a (c \<lparr> pc_tick := n \<rparr>)" "index_le a c \<Longrightarrow> index_le a (c \<lparr> pc_hits := n \<rparr>)"
  "index_le a c \<Longrightarrow> index_le a (c \<lparr> pc_misses := n \<rparr>)" "index_le a c \<Longrightarrow> index_le a (c \<lparr> pc_evictions := n \<rparr>)"
  "index_le a c \<Longrightarrow> index_le a (c \<lparr> pc_invalidations := n \<rparr>)" "index_le a c \<Longrightarrow> index_le a (c \<lparr> pc_persisted := x3 \<rparr>)"
  by (simp_all add: index_le_def holds_index_def)

lemma index_le_steps:
  "index_le a c \<Longrightarrow> (\<And>s. ps_index (f s) = None \<or> ps_index (f s) = ps_index s \<and> ps_generation (f s) = ps_generation s) \<Longrightarrow>
     index_le a (upd_state root f c)"
  "index_le a c \<Longrightarrow> index_le a (invalidate w root c)" "index_le a c \<Longrightarrow> index_le a (prune w c)"
  "index_le a c \<Longrightarrow> index_le a (release_index w root c)" "index_le a c \<Longrightarrow> index_le a (or_insert root (new_state w g) c)"
  using index_le_trans [OF _ index_le_upd] index_le_trans [OF _ index_le_invalidate] index_le_trans [OF _ index_le_prune]
    index_le_trans [OF _ index_le_release] index_le_trans [OF _ index_le_insert] by blast+

lemma keys_ok_fields' [simp]: "keys_ok (c \<lparr> pc_released_runners := b \<rparr>) = keys_ok c"
  by simp

lemma keys_ok_invalidate [simp]: "keys_ok (invalidate w root c) = keys_ok c"
  by (simp add: invalidate_def fresh_generation_def Let_def split: option.split)

text \<open>Every operation but a publication leaves at most the indexes there were, each of its generation.\<close>

lemma index_le_runner_for: "index_le c (snd (runner_for w root c))"
  unfolding runner_for_def next_tick_def Let_def prod.case
  by (auto split: option.split intro!: index_le_steps index_le_fields simp: touch_def)

lemma index_le_install: "keys_ok c \<Longrightarrow> index_le c (snd (install_runner w root runner fp c))"
  unfolding install_runner_def next_tick_def fresh_generation_def Let_def prod.case snd_conv
  by (rule index_le_trans [OF _ index_le_enforce])
    (auto split: option.split intro!: index_le_steps index_le_fields simp: touch_def keys_ok_or_insert)

lemma index_le_discard: "keys_ok c \<Longrightarrow> index_le c (discard_project w root c)"
  unfolding discard_project_def Let_def
  by (rule index_le_trans [OF _ index_le_enforce]) (auto split: option.split intro!: index_le_steps index_le_fields)

lemma index_le_after_maven: "index_le c (invalidate_after_maven w root c)"
  unfolding invalidate_after_maven_def by (auto intro!: index_le_steps)

lemma index_le_require: "index_le c (require_full_rebuild w root c)"
  unfolding require_full_rebuild_def fresh_generation_def Let_def prod.case by (auto intro!: index_le_steps index_le_fields)

lemma index_le_finish_full: "index_le c (finish_full_rebuild root g c)"
  unfolding finish_full_rebuild_def by (auto intro!: index_le_steps split: if_splits)

lemma index_le_invalidate_generation: "index_le c (invalidate_generation w root g c)"
  unfolding invalidate_generation_def by (auto intro!: index_le_steps)

lemma index_le_start_build: "index_le a c \<Longrightarrow> index_le a (snd (start_build root cell owner c))"
  unfolding start_build_def by (auto split: option.split intro!: index_le_steps)

lemma index_le_lookup: "index_le c (snd (lookup_index w root fp cell owner c))"
  unfolding lookup_index_def next_tick_def fresh_generation_def Let_def prod.case
  by (auto split: option.split intro!: index_le_start_build index_le_steps index_le_fields)

lemma index_le_record_hit: "index_le c (record_hit w root c)"
  unfolding record_hit_def next_tick_def Let_def prod.case by (auto intro!: index_le_steps index_le_fields simp: touch_def)

lemma index_le_reserve: "keys_ok c \<Longrightarrow> index_le c (snd (reserve w root g bytes rid c))"
proof -
  assume ok: "keys_ok c"
  have prune: "index_le c (prune w c)" "keys_ok (prune w c)" using index_le_prune ok by simp_all
  then have "index_le c (evict_while (loop_fuel (prune w c)) (over_budget w bytes) (evict_any w None (Some root)) (prune w c))"
    using index_le_trans [OF prune(1) index_le_shrinks [OF loop_shrinks(3)]] by blast
  then show ?thesis using prune(1) by (auto simp: reserve_def Let_def intro!: index_le_fields)
qed

lemma index_le_finish_failed: "keys_ok c \<Longrightarrow> index_le c (finish_failed w root g c)"
  unfolding finish_failed_def by (rule index_le_trans [OF _ index_le_enforce]) (auto intro!: index_le_steps split: if_splits)

text \<open>A publication adds at most the index it publishes, under the generation it was built for.\<close>

lemma pub_installed_indexed:
  assumes "keys_ok c" "is_current root g c" "holds_index (pub_installed w root e c) r g' e'"
  shows "holds_index c r g' e' \<or> (r = root \<and> g' = g \<and> e' = e)"
proof -
  let ?c = "upd_state root (\<lambda>s. touch w (pc_tick c + 1) (s \<lparr> ps_in_flight := None, ps_index := Some e \<rparr>)) (c \<lparr> pc_tick := pc_tick c + 1 \<rparr>)"
  have "index_le ?c (pub_installed w root e c)" unfolding pub_installed_def by (rule index_le_enforce) (simp add: assms(1))
  then have "holds_index ?c r g' e'" using assms(3) by (simp add: index_le_def)
  then show ?thesis using assms(2)
    by (cases "r = root") (auto simp: holds_index_def touch_def is_current_def)
qed

lemma publish_indexed:
  assumes ok: "keys_ok c" and i: "holds_index (snd (publish w root g index build fp rid c)) r g' e"
  shows "holds_index c r g' e \<or>
    (r = root \<and> g' = g \<and> e = pub_entry w index build fp \<and> fst (publish w root g index build fp rid c) \<noteq> PubStale)"
proof -
  let ?w = "pub_world w rid" and ?e = "pub_entry w index build fp"
  let ?c = "prune ?w c"
  let ?d = "pub_installed ?w root ?e ?c"
  have from_c: "holds_index c r g' e" if "index_le ?c x" "holds_index x r g' e" for x
    using that index_le_prune [of c ?w] by (simp add: index_le_def)
  show ?thesis
  proof (cases "is_current root g ?c")
    case False
    then show ?thesis using i from_c [of ?c] by (simp add: publish_eq Let_def)
  next
    case True
    show ?thesis
    proof (cases "cl_max_bytes (pc_limits ?c) < ci_bytes ?e")
      case big: True
      have le: "index_le d (upd_state root (\<lambda>s. s \<lparr> ps_in_flight := None \<rparr>) d \<lparr> pc_released := x \<rparr>)" for d x
        by (auto intro!: index_le_steps index_le_fields)
      have "holds_index (upd_state root (\<lambda>s. s \<lparr> ps_in_flight := None \<rparr>) ?c \<lparr> pc_released := pc_released ?c @ [(index, ci_bytes ?e)] \<rparr>) r g' e"
        using i True big by (simp add: publish_eq Let_def)
      from from_c [OF le this] show ?thesis ..
    next
      case small: False
      have "holds_index ?d r g' e"
        using i True small index_le_release [of ?d ?w root] by (auto simp: publish_eq Let_def index_le_def split: if_splits)
      from pub_installed_indexed [OF _ True this] ok have "holds_index ?c r g' e \<or> (r = root \<and> g' = g \<and> e = ?e)" by simp
      moreover have "fst (publish w root g index build fp rid c) \<noteq> PubStale" using True small by (simp add: publish_eq Let_def)
      ultimately show ?thesis using from_c [of ?c] by auto
    qed
  qed
qed

lemma apply_op_indexed:
  assumes ok: "keys_ok c" and i: "holds_index (apply_op w op c) r g e"
  shows "holds_index c r g e \<or> (\<exists>index build fp rid. op = Publish r g index build fp rid \<and> e = pub_entry w index build fp \<and>
    fst (publish w r g index build fp rid c) \<noteq> PubStale)"
proof (cases "\<exists>root g' index build fp rid. op = Publish root g' index build fp rid")
  case True
  then obtain root g' index build fp rid where op: "op = Publish root g' index build fp rid" by blast
  then have "holds_index (snd (publish w root g' index build fp rid c)) r g e" using i by simp
  from publish_indexed [OF ok this] show ?thesis using op by blast
next
  case False
  have "index_le c (apply_op w op c)"
  proof (cases op)
    case (RecordPersistedUse hit hits misses)
    then show ?thesis by (auto simp: record_persisted_use_def intro: index_le_fields)
  qed (use False ok in \<open>simp_all add: index_le_runner_for index_le_install index_le_discard index_le_after_maven index_le_require
      index_le_finish_full index_le_invalidate_generation index_le_lookup index_le_record_hit index_le_reserve index_le_finish_failed\<close>)
  then show ?thesis using i by (simp add: index_le_def)
qed

section \<open>What the service keeps\<close>

definition checked :: "service_env \<Rightarrow> nat \<Rightarrow> publication \<Rightarrow> bool" where
  "checked env t p \<longleftrightarrow> (\<exists>t'\<le>t. fp_is_current (se_stamp env t') (pb_project p) \<and> fp_is_current (se_stamp env t') (pb_artifacts p))"

definition published_as :: "service \<Rightarrow> path \<Rightarrow> nat \<Rightarrow> nat \<Rightarrow> bool" where
  "published_as st root g index \<longleftrightarrow> (\<exists>p\<in>set (sv_published st). pb_root p = root \<and> pb_generation p = g \<and> pb_index p = index)"

text \<open>
  Every cached index and every initialised cell comes from a publication of its project and generation, whose
  files were found unchanged, and no publication is of a generation not yet issued.
\<close>

definition service_ok :: "service_env \<Rightarrow> service \<Rightarrow> bool" where
  "service_ok env st \<longleftrightarrow> cache_ok (sv_cache st) \<and>
     (\<forall>root g e. holds_index (sv_cache st) root g e \<longrightarrow> published_as st root g (ci_index e)) \<and>
     (\<forall>p\<in>set (sv_published st). pb_generation p \<le> pc_next_generation (sv_cache st) \<and> checked env (sv_time st) p) \<and>
     (\<forall>root g cell index. ((root, g, cell), Built index) \<in> set (sv_cells st) \<longrightarrow> published_as st root g index)"

lemma service_okD:
  "service_ok env st \<Longrightarrow> cache_ok (sv_cache st)"
  "service_ok env st \<Longrightarrow> holds_index (sv_cache st) root g e \<Longrightarrow> published_as st root g (ci_index e)"
  "service_ok env st \<Longrightarrow> p \<in> set (sv_published st) \<Longrightarrow> pb_generation p \<le> pc_next_generation (sv_cache st) \<and> checked env (sv_time st) p"
  "service_ok env st \<Longrightarrow> ((root, g, cell), Built index) \<in> set (sv_cells st) \<Longrightarrow> published_as st root g index"
  unfolding service_ok_def by blast+

text \<open>What is relied on of the actions of others, which are those of the same program.\<close>

fun justified :: "service_env \<Rightarrow> other_action \<Rightarrow> service \<Rightarrow> bool" where
  "justified env (Cache_Action op) st \<longleftrightarrow>
     list_all (checked env (sv_time st)) (publications (se_world env (sv_time st)) op (sv_cache st))"
| "justified env (Cell_Action (root, g, cell) outcome) st \<longleftrightarrow>
     (case outcome of Built index \<Rightarrow> published_as st root g index | _ \<Rightarrow> True)"
| "justified env (Rows_Action rows) st \<longleftrightarrow> True"

fun others_ok :: "service_env \<Rightarrow> other_action list \<Rightarrow> service \<Rightarrow> bool" where
  "others_ok env [] st \<longleftrightarrow> True"
| "others_ok env (a # as) st \<longleftrightarrow> justified env a st \<and> others_ok env as (other_step env a st)"

definition rely :: "service_env \<Rightarrow> bool" where
  "rely env \<longleftrightarrow> (\<forall>st. others_ok env (se_others env st) st)"

text \<open>What every action guarantees in turn.\<close>

definition follows :: "service_env \<Rightarrow> service \<Rightarrow> service \<Rightarrow> bool" where
  "follows env st st' \<longleftrightarrow> (service_ok env st \<longrightarrow> service_ok env st' \<and> gen_step (sv_cache st) (sv_cache st') \<and>
     sv_time st \<le> sv_time st' \<and> set (sv_published st) \<subseteq> set (sv_published st'))"

lemma gen_step_refl [simp]: "gen_step c c"
  by (auto simp: gen_step_def)

lemma follows_refl [simp]: "follows env st st"
  by (simp add: follows_def)

lemma follows_trans: "follows env a b \<Longrightarrow> follows env b c \<Longrightarrow> follows env a c"
  unfolding follows_def using gen_step_trans by (meson order_trans)

lemma follows_ok: "follows env a b \<Longrightarrow> service_ok env a \<Longrightarrow> service_ok env b"
  by (simp add: follows_def)

lemma published_as_mono: "set (sv_published st) \<subseteq> set (sv_published st') \<Longrightarrow> published_as st root g i \<Longrightarrow> published_as st' root g i"
  unfolding published_as_def by blast

lemma published_as_follows: "follows env st st' \<Longrightarrow> service_ok env st \<Longrightarrow> published_as st root g i \<Longrightarrow> published_as st' root g i"
  using published_as_mono unfolding follows_def by blast

lemma checked_mono: "checked env t p \<Longrightarrow> t \<le> t' \<Longrightarrow> checked env t' p"
  unfolding checked_def by (meson order_trans)

lemma publications_current:
  assumes "cache_ok c" "p \<in> set (publications w op c)"
  shows "pb_generation p \<le> pc_next_generation c"
proof -
  obtain root g index build fp rid where op: "op = Publish root g index build fp rid" "pb_generation p = g"
    "fst (publish w root g index build fp rid c) \<noteq> PubStale"
    using assms(2) by (auto simp: publications_def split: cache_op.splits if_splits)
  then have "is_current root g (prune (pub_world w rid) c)" by (auto simp: publish_eq Let_def split: if_splits)
  then obtain s where "state_of c root = Some s" "ps_generation s = g"
    by (auto simp: is_current_def split: option.splits)
  then show ?thesis using cache_okD(2) [OF assms(1)] op(2) by (auto simp: state_ok_def)
qed

lemma run_op_published: "sv_published (run_op env op st) = sv_published st @ publications (se_world env (sv_time st)) op (sv_cache st)"
  by (simp add: run_op_def)

lemma run_op_fields [simp]: "sv_time (run_op env op st) = sv_time st" "sv_cells (run_op env op st) = sv_cells st"
  "sv_rows (run_op env op st) = sv_rows st" "sv_cache (run_op env op st) = apply_op (se_world env (sv_time st)) op (sv_cache st)"
  by (simp_all add: run_op_def)

lemma run_op_follows:
  assumes checks: "list_all (checked env (sv_time st)) (publications (se_world env (sv_time st)) op (sv_cache st))"
  shows "follows env st (run_op env op st)"
  unfolding follows_def
proof
  let ?st = "run_op env op st" and ?w = "se_world env (sv_time st)"
  assume ok: "service_ok env st"
  note cache = service_okD(1) [OF ok]
  have step: "cache_ok (sv_cache ?st)" "gen_step (sv_cache st) (sv_cache ?st)"
    using apply_op_step [of "sv_cache st" ?w op] cache by (simp_all add: good_step_def)
  then have next_generation: "pc_next_generation (sv_cache st) \<le> pc_next_generation (sv_cache ?st)" by (simp add: gen_step_def)
  have more: "set (sv_published st) \<subseteq> set (sv_published ?st)" by (simp add: run_op_published)
  have "published_as ?st root g (ci_index e)" if "holds_index (sv_cache ?st) root g e" for root g e
  proof -
    from apply_op_indexed [OF cache_okD(1) [OF cache] that [simplified]]
    consider "holds_index (sv_cache st) root g e"
      | index build fp rid where "op = Publish root g index build fp rid" "e = pub_entry ?w index build fp"
          "fst (publish ?w root g index build fp rid (sv_cache st)) \<noteq> PubStale" by blast
    then show ?thesis
    proof cases
      case 1
      then show ?thesis using service_okD(2) [OF ok 1] published_as_mono [OF more] by blast
    next
      case 2
      then show ?thesis by (auto simp: published_as_def run_op_published publications_def pub_entry_def)
    qed
  qed
  moreover have "pb_generation p \<le> pc_next_generation (sv_cache ?st) \<and> checked env (sv_time ?st) p" if mem: "p \<in> set (sv_published ?st)" for p
  proof -
    consider "p \<in> set (sv_published st)" | "p \<in> set (publications ?w op (sv_cache st))" using mem [unfolded run_op_published set_append] by blast
    then show ?thesis
    proof cases
      case 1
      then show ?thesis using service_okD(3) [OF ok 1] next_generation by simp
    next
      case 2
      then show ?thesis using publications_current [OF cache 2] checks next_generation by (simp add: list_all_iff)
    qed
  qed
  moreover have "published_as ?st root g index" if "((root, g, cell), Built index) \<in> set (sv_cells ?st)" for root g cell index
    using service_okD(4) [OF ok, of root g cell index] that published_as_mono [OF more] by simp
  ultimately have "service_ok env ?st" using step(1) unfolding service_ok_def by blast
  then show "service_ok env ?st \<and> gen_step (sv_cache st) (sv_cache ?st) \<and> sv_time st \<le> sv_time ?st \<and>
      set (sv_published st) \<subseteq> set (sv_published ?st)" using step(2) more by simp
qed

lemma follows_op:
  "(\<And>root g index build fp rid. op \<noteq> Publish root g index build fp rid) \<Longrightarrow> follows env st (run_op env op st)"
  by (rule run_op_follows) (auto simp: publications_def split: cache_op.split)

lemma other_step_follows:
  assumes "justified env a st"
  shows "follows env st (other_step env a st)"
proof (cases a)
  case (Cache_Action op)
  then show ?thesis using assms run_op_follows [of env st op] by simp
next
  case (Cell_Action key outcome)
  then show ?thesis using assms by (cases key) (auto simp: follows_def service_ok_def published_as_def)
next
  case (Rows_Action rows)
  then show ?thesis by (simp add: follows_def service_ok_def published_as_def)
qed

lemma others_follow: "others_ok env as st \<Longrightarrow> follows env st (fold (other_step env) as st)"
proof (induction as arbitrary: st)
  case (Cons a as)
  from Cons.prems have a: "justified env a st" "others_ok env as (other_step env a st)" by simp_all
  show ?case using follows_trans [OF other_step_follows [OF a(1)] Cons.IH [OF a(2)]] by simp
qed simp

lemma time_follows: "follows env st (st \<lparr> sv_time := Suc (sv_time st) \<rparr>)"
  using checked_mono [of env "sv_time st" _ "Suc (sv_time st)"] by (simp add: follows_def service_ok_def published_as_def)

lemma rows_follows: "follows env st (st \<lparr> sv_rows := rows \<rparr>)"
  by (simp add: follows_def service_ok_def published_as_def)

lemma others_act_follows:
  assumes "rely env"
  shows "follows env st (others_act env st)"
proof -
  let ?st = "st \<lparr> sv_time := Suc (sv_time st) \<rparr>"
  have "others_ok env (se_others env ?st) ?st" using assms unfolding rely_def by blast
  from follows_trans [OF time_follows others_follow [OF this]] show ?thesis by (simp add: others_act_def Let_def)
qed

text \<open>As rules that follow a part of a request backwards, action by action.\<close>

lemma follows_steps:
  "rely env \<Longrightarrow> follows env a st \<Longrightarrow> follows env a (others_act env st)"
  "(\<And>root g index build fp rid. op \<noteq> Publish root g index build fp rid) \<Longrightarrow> follows env a st \<Longrightarrow> follows env a (run_op env op st)"
  "follows env a st \<Longrightarrow> follows env a (st \<lparr> sv_rows := rows \<rparr>)"
  using follows_trans others_act_follows follows_op rows_follows by blast+

section \<open>What each part of a request guarantees\<close>

text \<open>A part of a request follows the state it started in, and its result has a property of the state it ends in.\<close>

definition yields :: "service_env \<Rightarrow> service \<Rightarrow> ('e + 'a) \<times> service \<Rightarrow> ('a \<Rightarrow> service \<Rightarrow> bool) \<Rightarrow> bool" where
  "yields env st m P \<longleftrightarrow> follows env st (snd m) \<and> (service_ok env st \<longrightarrow> (\<forall>x. fst m = Inr x \<longrightarrow> P x (snd m)))"

lemma yields_error [simp]: "yields env st (Inl e, st') P \<longleftrightarrow> follows env st st'"
  by (simp add: yields_def)

lemma yields_value [simp]: "yields env st (Inr x, st') P \<longleftrightarrow> follows env st st' \<and> (service_ok env st \<longrightarrow> P x st')"
  by (auto simp: yields_def)

lemma yields_then:
  assumes m: "yields env st m P"
    and f: "\<And>x st1. m = (Inr x, st1) \<Longrightarrow> service_ok env st1 \<Longrightarrow> P x st1 \<Longrightarrow> yields env st1 (f x st1) Q"
  shows "yields env st (then_do m f) Q"
proof (cases "service_ok env st")
  case ok: True
  obtain r st1 where r: "m = (r, st1)" by (cases m)
  have st1: "follows env st st1" "service_ok env st1" using m ok by (simp_all add: r yields_def follows_def)
  show ?thesis
  proof (cases r)
    case (Inl e)
    then show ?thesis using st1 by (simp add: r then_do_def)
  next
    case (Inr x)
    then have "P x st1" using m ok by (simp add: r)
    then have y: "yields env st1 (f x st1) Q" using f [of x st1] st1(2) Inr r by blast
    then show ?thesis using follows_trans [OF st1(1)] st1(2) by (simp add: r Inr then_do_def yields_def)
  qed
qed (simp add: yields_def follows_def)

lemma yields_after: "follows env st st1 \<Longrightarrow> yields env st1 m P \<Longrightarrow> yields env st m P"
  unfolding yields_def using follows_trans by (metis follows_def)

lemma yields_failing: "yields env st m P \<Longrightarrow> yields env st (failing m) P"
  by (cases m; cases "fst m") (auto simp: failing_def yields_def)

lemma yields_follows: "yields env st m P \<Longrightarrow> follows env st (snd m)"
  by (simp add: yields_def)

lemma blocking_yields: "rely env \<Longrightarrow> yields env st (blocking env st) (\<lambda>_ _. True)"
  using others_act_follows [of env st] by (simp add: blocking_def Let_def yields_def)

lemma discover_runner_yields:
  assumes "rely env"
  shows "yields env st (discover_runner env root cached st) (\<lambda>(root', _) _. root' = root)"
  unfolding discover_runner_def Let_def
  by (auto split: sum.split intro!: follows_steps assms)

lemma project_runner_yields:
  assumes "rely env"
  shows "yields env st (project_runner env project_path st)
    (\<lambda>(root, _) _. \<exists>t. trusted_project_root (se_files env t) (se_trusted env) project_path = Inr root)"
proof (cases "trusted_project_root (se_files env (sv_time (others_act env st))) (se_trusted env) project_path")
  case (Inl e)
  then show ?thesis using others_act_follows [OF assms] by (simp add: project_runner_def Let_def)
next
  case (Inr root)
  let ?st = "others_act env (run_op env (RunnerFor root) (others_act env (others_act env st)))"
  have st: "follows env st ?st"
    by (intro follows_steps assms) simp_all
  have "yields env ?st (discover_runner env root cached ?st)
      (\<lambda>(root, _) _. \<exists>t. trusted_project_root (se_files env t) (se_trusted env) project_path = Inr root)" for cached
    using discover_runner_yields [OF assms, of ?st root cached] Inr by (auto simp: yields_def)
  from yields_after [OF st this] st Inr show ?thesis by (auto simp: project_runner_def Let_def split: option.split)
qed

lemma captured_inputs_yields:
  assumes "rely env"
  shows "yields env st (captured_inputs env root snapshot classpath started st) (\<lambda>_ _. True)"
  by (auto simp: captured_inputs_def Let_def split: option.split intro!: yields_then [OF blocking_yields [OF assms]])

lemma maven_classpath_yields:
  assumes "rely env"
  shows "yields env st (maven_classpath env root snapshot key st) (\<lambda>_ _. True)"
  unfolding maven_classpath_def Let_def
  by (rule yields_after [OF others_act_follows [OF assms] yields_after [OF others_act_follows [OF assms]]])
    (auto intro!: yields_then [OF captured_inputs_yields [OF assms]])

lemma resolve_classpath_yields:
  assumes "rely env"
  shows "yields env st (resolve_classpath env root snapshot st) (\<lambda>_ _. True)"
  by (auto simp: resolve_classpath_def maven_classpath_yields [OF assms] split: prod.split option.split
      intro!: yields_then [OF blocking_yields [OF assms]])

lemma stamp_artifacts_yields:
  assumes "rely env"
  shows "yields env st (stamp_artifacts env root snapshot paths repository st) (\<lambda>_ _. True)"
  by (auto simp: stamp_artifacts_def Let_def intro!: yields_then [OF yields_failing [OF blocking_yields [OF assms]]])

lemma reserve_build_yields:
  assumes "rely env"
  shows "yields env st (reserve_build env root g artifacts st) (\<lambda>_ _. True)"
  by (auto simp: reserve_build_def Let_def split: sum.split ReserveError.split intro!: follows_steps assms)

lemma index_project_yields:
  assumes "rely env"
  shows "yields env st (index_project env root snapshot paths repository artifacts st)
    (\<lambda>(scoped, changed) st'. \<not> changed \<longrightarrow> fp_is_current (se_stamp env (sv_time st')) (sn_fingerprint snapshot) \<and>
       fp_is_current (se_stamp env (sv_time st')) artifacts)"
  unfolding index_project_def Let_def
  by (rule yields_after [OF others_act_follows [OF assms]], rule yields_then [OF yields_failing [OF blocking_yields [OF assms]]])
    (auto split: option.split sum.split intro!: follows_steps assms)

lemma publications_Publish:
  "publications w (Publish root g index build fp rid) c =
     (if fst (publish w root g index build fp rid c) = PubStale then []
      else [\<lparr> pb_root = root, pb_generation = g, pb_index = index, pb_project = fp, pb_artifacts = fb_artifacts build \<rparr>])"
  by (simp add: publications_def)

lemma publish_follows:
  assumes st: "follows env st0 st" "service_ok env st0"
    and current: "\<exists>t\<le> sv_time st0. fp_is_current (se_stamp env t) fp \<and> fp_is_current (se_stamp env t) (fb_artifacts build)"
  shows "follows env st0 (run_op env (Publish root g index build fp rid) st)"
proof -
  have "sv_time st0 \<le> sv_time st" using st by (simp add: follows_def)
  then have "checked env (sv_time st) p" if "pb_project p = fp" "pb_artifacts p = fb_artifacts build" for p
    using current that unfolding checked_def by (auto intro: order_trans)
  then have "follows env st (run_op env (Publish root g index build fp rid) st)"
    by (intro run_op_follows) (simp add: publications_Publish)
  then show ?thesis using follows_trans [OF st(1)] by blast
qed

lemma publish_published:
  assumes "fst (publish (se_world env (sv_time st)) root g index build fp rid (sv_cache st)) \<noteq> PubStale"
  shows "published_as (run_op env (Publish root g index build fp rid) st) root g index"
  using assms by (simp add: published_as_def run_op_published publications_Publish)

lemma run_op_keeps_published: "published_as st root g index \<Longrightarrow> published_as (run_op env op st) root g index"
  by (auto simp: published_as_def run_op_published)

lemma publish_build_yields:
  assumes "rely env" "service_ok env st"
    and current: "\<not> snd built \<longrightarrow> fp_is_current (se_stamp env (sv_time st)) (sn_fingerprint snapshot) \<and>
      fp_is_current (se_stamp env (sv_time st)) artifacts"
  shows "yields env st (publish_build env root snapshot g classpath artifacts rid built st)
    (\<lambda>index st'. published_as st' root g index)"
proof (cases "snd built")
  case True
  then show ?thesis by (simp add: publish_build_def Let_def follows_steps assms(1))
next
  case False
  let ?st = "others_act env st"
  let ?use = "RecordPersistedUse (rc_persisted classpath) (length (ru_reused (sx_records (fst built)))) (ru_built (sx_records (fst built)))"
  define st2 where "st2 = (if se_index_cache env = None then ?st else run_op env ?use ?st)"
  define build where "build = \<lparr> fb_artifacts = artifacts, fb_classpath_entries = length (rc_paths classpath), fb_duration = se_elapsed env (sv_time st2) \<rparr>"
  define op where "op = Publish root g (se_new env (sv_time st2)) build (sn_fingerprint snapshot) rid"
  have st2: "follows env st st2" by (simp add: st2_def follows_steps assms(1))
  have op: "follows env st (run_op env op st2)"
    unfolding op_def using current False by (intro publish_follows [OF st2 assms(2)]) (auto simp: build_def)
  have "publish_build env root snapshot g classpath artifacts rid built st =
      (if fst (publish (se_world env (sv_time st2)) root g (se_new env (sv_time st2)) build (sn_fingerprint snapshot) rid (sv_cache st2)) = PubStale
       then (Inl Early_Stale, run_op env op st2)
       else (Inr (se_new env (sv_time st2)), run_op env (FinishFullRebuild root g) (run_op env op st2)))"
    using False by (simp add: publish_build_def Let_def st2_def build_def op_def)
  moreover have "follows env st (run_op env (FinishFullRebuild root g) (run_op env op st2))"
    by (rule follows_steps(2) [OF _ op]) simp
  ultimately show ?thesis using op publish_published [of env st2] run_op_keeps_published by (simp add: op_def)
qed

lemma forget_persisted_follows:
  assumes "rely env"
  shows "follows env st (forget_persisted_classpaths env root st)"
proof -
  have b: "follows env st (snd (blocking env st))" by (rule yields_follows [OF blocking_yields [OF assms]])
  then show ?thesis
    by (cases "blocking env st") (auto simp: forget_persisted_classpaths_def split: sum.split intro: follows_steps(3))
qed

lemma persist_build_follows:
  assumes "rely env"
  shows "follows env st (persist_build env root snapshot g classpath records st)"
proof (cases "se_index_cache env")
  case (Some max_bytes)
  have b: "follows env st (snd (blocking env st))" by (rule yields_follows [OF blocking_yields [OF assms]])
  obtain r st1 where r: "blocking env st = (r, st1)" by (cases "blocking env st")
  with b have st1: "follows env st st1" by simp
  note steps = follows_trans [OF _ forget_persisted_follows [OF assms]] follows_steps assms st1
  show ?thesis
    by (cases r) (auto simp: persist_build_def Some r Let_def split: sum.split intro!: steps)
qed (simp add: persist_build_def)

lemma try_build_index_spec:
  assumes "rely env" "service_ok env st"
  shows "follows env st (snd (try_build_index env root snapshot g st)) \<and>
    (\<forall>index. fst (try_build_index env root snapshot g st) = Built index \<longrightarrow>
       published_as (snd (try_build_index env root snapshot g st)) root g index)"
proof -
  let ?body = "\<lambda>classpath st. let paths = rc_paths classpath; repository = repository_root_for paths root (se_execution_repository env)
    in if \<not> has_indexable_jars paths root (repository \<noteq> None)
       then (Inl (Early_Failed (InvalidParams (lit ''Maven classpath did not contain indexable local repository JARs''))), st)
       else then_do (stamp_artifacts env root snapshot paths repository st) (\<lambda>artifacts st.
            then_do (reserve_build env root g artifacts st) (\<lambda>rid st.
            then_do (index_project env root snapshot paths repository artifacts st) (\<lambda>built st.
            then_do (publish_build env root snapshot g classpath artifacts rid built st) (\<lambda>index st.
            (Inr index, persist_build env root snapshot g classpath (sx_records (fst built)) st)))))"
  let ?m = "then_do (failing (resolve_classpath env root snapshot st)) ?body"
  have stored: "yields env st (Inr index, persist_build env root snapshot g classpath records st) (\<lambda>index st'. published_as st' root g index)"
    if "service_ok env st" "published_as st root g index" for st index classpath records
    using persist_build_follows [OF assms(1)] published_as_follows [OF persist_build_follows [OF assms(1)] that] by simp
  have "yields env st ?m (\<lambda>index st'. published_as st' root g index)"
  proof (rule yields_then [OF yields_failing [OF resolve_classpath_yields [OF assms(1)]]], goal_cases)
    case (1 classpath st1)
    show ?case unfolding Let_def
      by (cases "has_indexable_jars (rc_paths classpath) root (repository_root_for (rc_paths classpath) root (se_execution_repository env) \<noteq> None)")
        (auto simp del: lit.simps intro!: stored yields_then [OF stamp_artifacts_yields [OF assms(1)]] yields_then [OF reserve_build_yields [OF assms(1)]]
          yields_then [OF index_project_yields [OF assms(1)]] yields_then [OF publish_build_yields [OF assms(1)]])
  qed
  moreover have "try_build_index env root snapshot g st =
      (case ?m of (Inl early, st) \<Rightarrow> (early_outcome early, st) | (Inr index, st) \<Rightarrow> (Built index, st))"
    unfolding try_build_index_def ..
  moreover obtain r st' where "?m = (r, st')" by (cases ?m)
  moreover have "early_outcome early \<noteq> Built index" for early index by (cases early) simp_all
  ultimately show ?thesis using assms(2) by (cases r) (auto simp: yields_def)
qed

section \<open>Lookups and generations\<close>

definition newer :: "ProjectCache \<Rightarrow> path \<Rightarrow> nat \<Rightarrow> bool" where
  "newer c root g \<longleftrightarrow> (case state_of c root of Some s \<Rightarrow> ps_generation s \<le> g | None \<Rightarrow> pc_next_generation c < g)"

text \<open>What is not older than a project after a step was not older before it.\<close>

lemma newer_back:
  assumes "cache_ok c" "gen_step c c'" "newer c' root g"
  shows "newer c root g"
proof (cases "state_of c' root")
  case None
  then have g: "pc_next_generation c < g" using assms(2,3) by (simp add: newer_def gen_step_def)
  have "ps_generation s \<le> pc_next_generation c" if "state_of c root = Some s" for s
    using cache_okD(2) [OF assms(1) that] by (simp add: state_ok_def)
  then show ?thesis using g by (fastforce simp: newer_def split: option.split)
next
  case (Some s')
  then have le: "ps_generation s' \<le> g" using assms(3) by (simp add: newer_def)
  have old: "ps_generation s \<le> pc_next_generation c" if "state_of c root = Some s" for s
    using cache_okD(2) [OF assms(1) that] by (simp add: state_ok_def)
  consider s where "state_of c root = Some s" "ps_generation s' = ps_generation s" | "pc_next_generation c < ps_generation s'"
    using assms(2) Some unfolding gen_step_def by blast
  then show ?thesis
  proof cases
    case 1
    then show ?thesis using le by (simp add: newer_def)
  next
    case 2
    then have "newer c root g" if "state_of c root = Some s" for s
      using old [OF that] that le by (simp add: newer_def)
    then show ?thesis using 2 le by (cases "state_of c root") (auto simp: newer_def)
  qed
qed

lemma newer_current: "is_current root g c \<Longrightarrow> newer c root g"
  by (simp add: is_current_def newer_def split: option.splits)

fun lookup_generation :: "IndexLookup \<Rightarrow> nat" where
  "lookup_generation (Cached entry g) = g"
| "lookup_generation (Build cell owner g) = g"

lemma start_build_current:
  "state_of c root \<noteq> None \<Longrightarrow> is_current root (lookup_generation (fst (start_build root cell owner c))) (snd (start_build root cell owner c))"
  by (auto simp: start_build_def is_current_def split: option.split)

lemma start_build_no_entry: "fst (start_build root cell owner c) \<noteq> Cached e g"
  by (auto simp: start_build_def split: option.split)

lemma state_of_counters [simp]:
  "state_of (c \<lparr> pc_misses := n \<rparr>) r = state_of c r" "state_of (c \<lparr> pc_tick := n \<rparr>) r = state_of c r"
  "state_of (c \<lparr> pc_next_generation := n \<rparr>) r = state_of c r" "state_of (c \<lparr> pc_invalidations := n \<rparr>) r = state_of c r"
  by (simp_all add: state_of_def)

lemma lookup_index_cases:
  obtains c1 s where "state_of c1 root = Some s" "\<And>e. ps_index s = Some e \<Longrightarrow> holds_index c root (ps_generation s) e"
    "lookup_index w root fp cell owner c =
      (case ps_index s of
         Some entry \<Rightarrow> if ci_project entry = fp then (Cached entry (ps_generation s), c1)
           else start_build root cell owner (invalidate w root c1 \<lparr> pc_misses := pc_misses (invalidate w root c1) + 1 \<rparr>)
       | None \<Rightarrow> start_build root cell owner (c1 \<lparr> pc_misses := pc_misses c1 + 1 \<rparr>))"
proof -
  define c1 where "c1 = upd_state root (\<lambda>s. s \<lparr> ps_last_used_tick := pc_tick c + 1 \<rparr>)
    (let (generation, c) = fresh_generation (c \<lparr> pc_tick := pc_tick c + 1 \<rparr>) in or_insert root (new_state w generation) c)"
  obtain s where s: "state_of c1 root = Some s" by (cases "state_of c root") (simp_all add: c1_def fresh_generation_def)
  have old: "holds_index c root (ps_generation s) e" if "ps_index s = Some e" for e
    using s that by (cases "state_of c root") (auto simp: c1_def fresh_generation_def holds_index_def new_state_def)
  have "lookup_index w root fp cell owner c =
      (case state_of c1 root of
         None \<Rightarrow> (Build cell owner 0, c1)
       | Some s \<Rightarrow>
           (case ps_index s of
              Some entry \<Rightarrow> if ci_project entry = fp then (Cached entry (ps_generation s), c1)
                else start_build root cell owner (invalidate w root c1 \<lparr> pc_misses := pc_misses (invalidate w root c1) + 1 \<rparr>)
            | None \<Rightarrow> start_build root cell owner (c1 \<lparr> pc_misses := pc_misses c1 + 1 \<rparr>)))"
    unfolding lookup_index_def next_tick_def fresh_generation_def Let_def prod.case c1_def by (rule refl)
  then show thesis using that [OF s old] by (simp only: s option.case)
qed

lemma lookup_index_current:
  "is_current root (lookup_generation (fst (lookup_index w root fp cell owner c))) (snd (lookup_index w root fp cell owner c))"
proof (cases rule: lookup_index_cases [where w = w and root = root and fp = fp and cell = cell and owner = owner and c = c])
  case (1 c1 s)
  have inv: "state_of (invalidate w root c1) root \<noteq> None"
    using 1(1) by (simp add: invalidate_def fresh_generation_def state_of_release_index Let_def split: option.split)
  show ?thesis
  proof (cases "ps_index s")
    case None
    then show ?thesis unfolding 1(3) using 1(1) by (simp add: start_build_current)
  next
    case (Some e)
    then show ?thesis unfolding 1(3) using 1(1) inv by (simp add: start_build_current is_current_def [of root _ c1])
  qed
qed

lemma lookup_index_cached:
  assumes "fst (lookup_index w root fp cell owner c) = Cached e g"
  shows "holds_index c root g e \<and> ci_project e = fp"
proof (cases rule: lookup_index_cases [where w = w and root = root and fp = fp and cell = cell and owner = owner and c = c])
  case (1 c1 s)
  have "ps_index s = Some e \<and> ps_generation s = g \<and> ci_project e = fp"
    using assms unfolding 1(3) by (cases "ps_index s") (auto simp: start_build_no_entry split: if_splits)
  then show ?thesis using 1(2) by auto
qed

section \<open>Answers\<close>

lemma build_index_spec:
  assumes "rely env" "service_ok env st"
  shows "follows env st (snd (build_index env root snapshot g st)) \<and>
    (\<forall>index. fst (build_index env root snapshot g st) = Built index \<longrightarrow>
       published_as (snd (build_index env root snapshot g st)) root g index)"
proof -
  let ?st = "others_act env st"
  have st: "follows env st ?st" "service_ok env ?st"
    using others_act_follows [OF assms(1), of st] assms(2) by (simp_all add: follows_def)
  obtain outcome st' where t: "try_build_index env root snapshot g ?st = (outcome, st')" by (cases "try_build_index env root snapshot g ?st")
  with try_build_index_spec [OF assms(1) st(2), of root snapshot g]
  have "follows env ?st st'" "\<forall>index. outcome = Built index \<longrightarrow> published_as st' root g index" by simp_all
  then show ?thesis using follows_trans [OF st(1)]
    by (cases outcome) (auto simp: build_index_def t intro!: follows_steps assms)
qed

lemma cell_follows:
  "(\<And>index. outcome = Built index \<Longrightarrow> published_as st root g index) \<Longrightarrow>
     follows env st (st \<lparr> sv_cells := ((root, g, cell), outcome) # sv_cells st \<rparr>)"
  by (auto simp: follows_def service_ok_def published_as_def)

lemma get_or_build_spec:
  assumes "rely env" "service_ok env st"
  shows "follows env st (snd (get_or_build env root snapshot g cell st)) \<and>
    (\<forall>index. fst (get_or_build env root snapshot g cell st) = Built index \<longrightarrow>
       published_as (snd (get_or_build env root snapshot g cell st)) root g index)"
proof -
  let ?st = "others_act env st"
  have st: "follows env st ?st" "service_ok env ?st"
    using others_act_follows [OF assms(1), of st] assms(2) by (simp_all add: follows_def)
  show ?thesis
  proof (cases "map_of (sv_cells ?st) (root, g, cell)")
    case (Some outcome)
    then show ?thesis using st service_okD(4) [OF st(2), of root g cell] map_of_SomeD [OF Some]
      by (auto simp: get_or_build_def)
  next
    case None
    obtain outcome st' where b: "build_index env root snapshot g ?st = (outcome, st')" by (cases "build_index env root snapshot g ?st")
    with build_index_spec [OF assms(1) st(2), of root snapshot g]
    have st': "follows env ?st st'" "\<And>index. outcome = Built index \<Longrightarrow> published_as st' root g index" by simp_all
    have "follows env st (st' \<lparr> sv_cells := ((root, g, cell), outcome) # sv_cells st' \<rparr>)"
      using follows_trans [OF follows_trans [OF st(1) st'(1)] cell_follows [OF st'(2)]] .
    then show ?thesis using st'(2) by (simp add: get_or_build_def None b published_as_def)
  qed
qed

text \<open>An answer: the published index of a project root, not older than the project when the request started.\<close>

definition answer :: "service_env \<Rightarrow> str \<Rightarrow> service \<Rightarrow> nat \<Rightarrow> service \<Rightarrow> bool" where
  "answer env project_path st index st' \<longleftrightarrow>
     (\<exists>t root g. trusted_project_root (se_files env t) (se_trusted env) project_path = Inr root \<and>
        published_as st' root g index \<and> newer (sv_cache st) root g)"

lemma follows_newer:
  "follows env st st' \<Longrightarrow> service_ok env st \<Longrightarrow> newer (sv_cache st') root g \<Longrightarrow> newer (sv_cache st) root g"
  using newer_back service_okD(1) unfolding follows_def by blast

lemma answer_back:
  "follows env st st1 \<Longrightarrow> service_ok env st \<Longrightarrow> answer env project_path st1 index st' \<Longrightarrow> answer env project_path st index st'"
  unfolding answer_def using follows_newer by blast

lemma yields_answer_back:
  assumes "yields env st1 m (answer env project_path st1)" "follows env st st1" "service_ok env st"
  shows "yields env st1 m (answer env project_path st)"
  using assms(1) answer_back [OF assms(2,3)] by (auto simp: yields_def)

lemma cached_entry_answer:
  assumes rely: "rely env" and ok: "service_ok env st"
    and root: "trusted_project_root (se_files env t) (se_trusted env) project_path = Inr root"
    and hit: "fst (lookup_index (se_world env (sv_time st)) root fp cell cell (sv_cache st)) = Cached entry g"
    and st': "follows env (run_op env (LookupIndex root fp cell cell) st) st'"
  shows "answer env project_path st (ci_index entry) st'"
proof -
  let ?st = "run_op env (LookupIndex root fp cell cell) st"
  have step: "follows env st ?st" by (rule follows_op) simp
  have "published_as st root g (ci_index entry)" using service_okD(2) [OF ok] lookup_index_cached [OF hit] by blast
  then have "published_as st' root g (ci_index entry)"
    using published_as_follows [OF follows_trans [OF step st'] ok] by blast
  moreover have "is_current root g (sv_cache ?st)"
    using lookup_index_current [of root "se_world env (sv_time st)" fp cell cell "sv_cache st"] hit by simp
  then have "newer (sv_cache st) root g" by (intro follows_newer [OF step ok] newer_current)
  ultimately show ?thesis using root unfolding answer_def by blast
qed

lemma built_answer:
  assumes ok: "service_ok env st"
    and root: "trusted_project_root (se_files env t) (se_trusted env) project_path = Inr root"
    and miss: "fst (lookup_index (se_world env (sv_time st)) root fp cell cell (sv_cache st)) = Build cell' owner g"
    and st': "published_as st' root g index"
  shows "answer env project_path st index st'"
proof -
  let ?st = "run_op env (LookupIndex root fp cell cell) st"
  have step: "follows env st ?st" by (rule follows_op) simp
  have "is_current root g (sv_cache ?st)"
    using lookup_index_current [of root "se_world env (sv_time st)" fp cell cell "sv_cache st"] miss by simp
  then have "newer (sv_cache st) root g" by (intro follows_newer [OF step ok] newer_current)
  then show ?thesis using root st' unfolding answer_def by blast
qed

lemma index_attempts_yields:
  assumes "rely env"
  shows "service_ok env st \<Longrightarrow> yields env st (index_attempts n env project_path st) (answer env project_path st)"
proof (induction n arbitrary: st)
  case (Suc n)
  have retry: "yields env st1 (index_attempts n env project_path st1) (answer env project_path st)"
    if "follows env st st1" for st1
    using yields_answer_back [OF Suc.IH that Suc.prems] that Suc.prems by (simp add: follows_def)
  have again: "yields env st1 (index_attempts n env project_path st2) (answer env project_path st)"
    if "follows env st st1" "follows env st1 st2" for st1 st2
    using yields_after [OF that(2) retry [OF follows_trans [OF that]]] .
  show ?case unfolding index_attempts.simps
  proof (rule yields_then [OF project_runner_yields [OF assms]], goal_cases)
    case (1 x st1)
    obtain root snapshot where x: "x = (root, snapshot)" by (cases x)
    then obtain t where root: "trusted_project_root (se_files env t) (se_trusted env) project_path = Inr root" using 1(3) by auto
    have st1: "follows env st st1" using yields_follows [OF project_runner_yields [OF assms, of st project_path]] 1(1) by simp
    define st2 where "st2 = others_act env st1"
    define cell where "cell = se_new env (sv_time st2)"
    define st3 where "st3 = run_op env (LookupIndex root (sn_fingerprint snapshot) cell cell) st2"
    have st2: "follows env st1 st2" "follows env st st2" "service_ok env st2"
      using others_act_follows [OF assms, of st1] follows_trans [OF st1] 1(2) by (simp_all add: st2_def follows_def)
    have step: "follows env st2 st3" unfolding st3_def by (rule follows_op) simp
    note st3 = step follows_trans [OF st2(1) step] follows_trans [OF st2(2) step] follows_ok [OF step st2(3)]
    show ?case
    proof (cases "fst (lookup_index (se_world env (sv_time st2)) root (sn_fingerprint snapshot) cell cell (sv_cache st2))")
      case (Cached entry g)
      have hit: "answer env project_path st (ci_index entry) st'" if "follows env st3 st'" for st'
        using answer_back [OF st2(2) Suc.prems cached_entry_answer [OF assms st2(3) root Cached that [unfolded st3_def]]] .
      have "yields env st3 (then_do (blocking env st3) (\<lambda>_ st.
          if fp_is_current (se_stamp env (sv_time st)) (ci_artifacts entry)
          then (Inr (ci_index entry), run_op env (RecordHit root) (others_act env st))
          else index_attempts n env project_path (run_op env (InvalidateGeneration root g) (others_act env st)))) (answer env project_path st)"
      proof (rule yields_then [OF blocking_yields [OF assms]], goal_cases)
        case (1 u st4)
        have st4: "follows env st3 st4" using yields_follows [OF blocking_yields [OF assms, of st3]] 1(1) by simp
        have "follows env st4 (run_op env op (others_act env st4))" if "\<And>root g index build fp rid. op \<noteq> Publish root g index build fp rid" for op
          by (intro follows_steps that assms follows_refl)
        then show ?case using hit follows_trans [OF st4] again [OF follows_trans [OF st3(3) st4]] by simp
      qed
      from yields_after [OF st3(2) this] Cached show ?thesis by (simp add: x Let_def flip: st2_def cell_def st3_def)
    next
      case (Build cell' owner g)
      obtain outcome st4 where b: "get_or_build env root snapshot g cell' st3 = (outcome, st4)" by (cases "get_or_build env root snapshot g cell' st3")
      with get_or_build_spec [OF assms st3(4), of root snapshot g cell']
      have st4: "follows env st3 st4" "\<And>index. outcome = Built index \<Longrightarrow> published_as st4 root g index" by simp_all
      have "answer env project_path st index st4" if "outcome = Built index" for index
        using answer_back [OF st2(2) Suc.prems built_answer [OF st2(3) root Build st4(2) [OF that]]] .
      then have "yields env st1 (case (outcome, st4) of
          (Built index, st) \<Rightarrow> (Inr index, st) | (Build_Failed e, st) \<Rightarrow> (Inl e, st)
        | (Build_Stale, st) \<Rightarrow> index_attempts n env project_path st) (answer env project_path st)"
        using follows_trans [OF st3(2) st4(1)] again [OF st1 follows_trans [OF st3(2) st4(1)]] by (cases outcome) simp_all
      then show ?thesis using Build b by (simp add: x Let_def flip: st2_def cell_def st3_def)
    qed
  qed
qed simp

text \<open>A refresh leaves the project at a generation that was not issued before.\<close>

lemma refreshed_generation:
  assumes "cache_ok c" "newer (require_full_rebuild w root (invalidate_after_maven w' root c)) root g"
  shows "pc_next_generation c < g"
proof -
  have inv: "pc_next_generation (invalidate w' root c) = Suc (pc_next_generation c)"
    by (simp add: invalidate_def fresh_generation_def Let_def split: option.split)
  show ?thesis
  proof (cases "state_of c root")
    case None
    then have "state_of (invalidate_after_maven w' root c) root = None"
      by (simp add: invalidate_after_maven_def invalidate_def fresh_generation_def Let_def)
    then show ?thesis using assms(2) inv
      by (simp add: newer_def require_full_rebuild_def fresh_generation_def invalidate_after_maven_def new_state_def Let_def)
  next
    case (Some s)
    then obtain s' where "state_of (invalidate w' root c) root = Some s'" "ps_generation s' = Suc (pc_next_generation c)"
      by (cases "ps_index s = None") (simp_all add: invalidate_def fresh_generation_def state_of_release_index Let_def)
    then show ?thesis using assms(2)
      by (simp add: newer_def require_full_rebuild_def fresh_generation_def invalidate_after_maven_def Let_def)
  qed
qed

section \<open>Properties\<close>

text \<open>
  An index the server answers was published for the project's canonical root, by a build whose project files and
  artifacts were unchanged when it ended, and its generation is not older than the project's when the request
  started, so no invalidation before the request is missed, whatever others do meanwhile.
\<close>

theorem index_answer_justified:
  assumes "rely env" "service_ok env st" "fst (index_for env project_path st) = Inr index"
  shows "\<exists>p\<in>set (sv_published (snd (index_for env project_path st))).
    (\<exists>t. trusted_project_root (se_files env t) (se_trusted env) project_path = Inr (pb_root p)) \<and> pb_index p = index \<and>
    checked env (sv_time (snd (index_for env project_path st))) p \<and> newer (sv_cache st) (pb_root p) (pb_generation p)"
proof -
  let ?st = "snd (index_for env project_path st)"
  have y: "yields env st (index_for env project_path st) (answer env project_path st)"
    unfolding index_for_def by (rule index_attempts_yields [OF assms(1,2)])
  then have "answer env project_path st index ?st" "service_ok env ?st"
    using assms(2,3) by (simp_all add: yields_def follows_def)
  then show ?thesis using service_okD(3) unfolding answer_def published_as_def by blast
qed

text \<open>
  A successful refresh answers an index that was published during the refresh, under a generation issued after it
  started: no index of before, and no build that was running before, is answered.
\<close>

theorem refresh_rebuilds:
  assumes "rely env" "service_ok env st" "fst (refresh_project env project_path st) = Inr index"
    and canonical: "\<And>t r. trusted_project_root (se_files env t) (se_trusted env) project_path = Inr r \<Longrightarrow> r = root"
  shows "\<exists>p\<in>set (sv_published (snd (refresh_project env project_path st))) - set (sv_published st).
    pb_root p = root \<and> pb_index p = index \<and> pc_next_generation (sv_cache st) < pb_generation p \<and>
    checked env (sv_time (snd (refresh_project env project_path st))) p"
proof -
  define st1 where "st1 = others_act env st"
  define st2 where "st2 = others_act env st1"
  define st3 where "st3 = run_op env (RequireFullRebuild root) (run_op env (InvalidateAfterMaven root) st2)"
  define st4 where "st4 = forget_persisted_classpaths env root st3"
  have st2: "follows env st st2" by (simp add: st1_def st2_def follows_steps assms(1))
  have st4: "follows env st3 st4" unfolding st4_def by (rule forget_persisted_follows [OF assms(1)])
  have st3: "follows env st2 st3" "follows env st st3" using st2 by (simp_all add: st3_def follows_steps)
  obtain r where "trusted_project_root (se_files env (sv_time st1)) (se_trusted env) project_path = Inr r"
    using assms(3) by (cases "trusted_project_root (se_files env (sv_time st1)) (se_trusted env) project_path")
      (simp_all add: refresh_project_def Let_def st1_def)
  then have root: "trusted_project_root (se_files env (sv_time st1)) (se_trusted env) project_path = Inr root" using canonical by blast
  then have eq: "refresh_project env project_path st =
      (case index_for env project_path st4 of (Inl e, st) \<Rightarrow> (Inl (refresh_error e), st) | (Inr index, st) \<Rightarrow> (Inr index, st))"
    by (simp add: refresh_project_def Let_def flip: st1_def st2_def st3_def st4_def)
  obtain st5 where st5: "index_for env project_path st4 = (Inr index, st5)" "snd (refresh_project env project_path st) = st5"
    using assms(3) unfolding eq by (auto split: prod.splits sum.splits)
  have ok: "service_ok env st2" "service_ok env st3" "service_ok env st4" using follows_ok st2 st3(1) st4 assms(2) by blast+
  from index_attempts_yields [OF assms(1) ok(3), of MAX_INDEX_BUILD_ATTEMPTS project_path]
  have "answer env project_path st4 index st5" "service_ok env st5" using st5(1) ok(3) by (simp_all add: yields_def follows_def flip: index_for_def)
  then obtain p where p: "p \<in> set (sv_published st5)" "pb_root p = root" "pb_index p = index"
      "newer (sv_cache st4) root (pb_generation p)" "checked env (sv_time st5) p"
    using canonical service_okD(3) unfolding answer_def published_as_def by blast
  have "newer (sv_cache st3) root (pb_generation p)" by (rule follows_newer [OF st4 ok(2) p(4)])
  then have "pc_next_generation (sv_cache st2) < pb_generation p"
    using refreshed_generation [OF service_okD(1) [OF ok(1)]] by (simp add: st3_def)
  moreover have "pc_next_generation (sv_cache st) \<le> pc_next_generation (sv_cache st2)"
    using st2 assms(2) by (simp add: follows_def gen_step_def)
  ultimately have "pc_next_generation (sv_cache st) < pb_generation p" by simp
  moreover from this have "p \<notin> set (sv_published st)" using service_okD(3) [OF assms(2)] by force
  ultimately show ?thesis using p st5(2) by blast
qed

end
