(* ===== verification/Index_Example.thy ===== *)
theory Index_Example
  imports Index_Answers
begin

text \<open>
  One project with one artifact, run through the service of \<open>Index_Service\<close> by evaluation: a refresh invalidates, the
  runner is discovered, Maven answers the classpath, the JAR is holds_index and the index is published.  The two
  theorems of \<open>Index_Answers\<close> apply to it.
\<close>

section \<open>A project with one artifact\<close>

definition demo_env :: service_env where
  "demo_env =
     \<lparr> se_others = (\<lambda>_. []),
       se_world = (\<lambda>_. \<lparr> wd_index_held = (\<lambda>_. True), wd_runner_held = (\<lambda>_. True), wd_reservation_held = (\<lambda>_. True),
         wd_cell_held = (\<lambda>_. True), wd_owner_locked = (\<lambda>_. True), wd_test_result_bytes = (\<lambda>_. 0), wd_index_bytes = (\<lambda>_. 1), wd_unix_ms = 0 \<rparr>),
       se_stamp = (\<lambda>_ _. None), se_walk = (\<lambda>_ _. None), se_exists = (\<lambda>_ _. True), se_files = (\<lambda>_. demo_fs),
       se_reactor_files = (\<lambda>_. demo_reactor_files), se_source = (\<lambda>_. plain_source), se_models = (\<lambda>_. demo_models),
       se_scanned = (\<lambda>_ _. Not_Found), se_variables = (\<lambda>_. []), se_clock = (\<lambda>t. t), se_new = (\<lambda>t. t), se_blocking = (\<lambda>_. None),
       se_panic = InternalError [], se_cancelled = (\<lambda>_ _. False), se_error_text = (\<lambda>_. []), se_elapsed = (\<lambda>_. 0),
       se_discover = (\<lambda>t root cached. Inr 5), se_fingerprint_paths = (\<lambda>_ _. [[lit ''w'', lit ''a'', lit ''pom.xml'']]), se_modules = (\<lambda>_. []),
       se_installation = (\<lambda>_ _. []),
       se_maven = (\<lambda>_ _. \<lparr> cr_build = \<lparr> br_outcome = Outcome_Success, br_policy_notice = None, br_compiler_diagnostics = [],
           br_reactor_summary = [], br_run = \<lparr> run_status = Run_Success,
             run_exit_code = Some 0, run_duration_ms = 0, run_timed_out = False, run_stdout = [], run_stderr = [],
             run_stdout_truncated = False, run_stderr_truncated = False, run_redaction_count = 0 \<rparr> \<rparr>, cr_paths = [demo_artifact], cr_paths_incomplete = False \<rparr>),
       se_lower = (\<lambda>s. s), se_json = (\<lambda>_. []), se_identity = (\<lambda>_ _. []), se_encode = (\<lambda>_. None), se_decode = (\<lambda>_. None),
       se_next_row = (\<lambda>_. 0), se_to_str = (\<lambda>_. None), se_trusted = [[lit ''w'']], se_execution_repository = None, se_java = Inherit,
       se_home = None, se_index_cache = None, se_tool = [], se_limits = sample_limits, se_max_results = 9, se_max_source_bytes = 8 \<rparr>"

definition demo_service :: service where
  "demo_service =
     \<lparr> sv_cache = new_cache \<lparr> cl_max_indexes = 2, cl_max_runners = 2, cl_max_bytes = 100000 \<rparr>, sv_cells = [], sv_rows = [],
       sv_published = [], sv_time = 0 \<rparr>"

lemma demo_rely: "rely demo_env"
  by (simp add: rely_def demo_env_def)

lemma demo_service_ok: "service_ok env demo_service"
  by (simp add: service_ok_def demo_service_def holds_index_def state_of_def new_cache_def cache_ok_def keys_ok_def)

lemma demo_entry:
  "scoped_identity demo_reactor_files sample_limits (Some [lit ''repository'']) reactor demo_artifact = Inr sample_identity"
  "ji_classifier sample_identity = None" "rx_canonicalize demo_reactor_files demo_artifact = Some demo_artifact"
  by (simp_all add: scoped_identity_def demo_artifact_def path_starts_with_def starts_with_def repository_identity_def parse_coordinate_def
      sample_identity_def strip_suffix_def relative_slash_path_def replace_ch_def demo_reactor_files_def)

definition demo_sources_jar :: path where
  "demo_sources_jar = [lit ''repository'', lit ''g'', lit ''a'', lit ''1'', lit ''a-1-sources.jar'']"

lemma demo_candidates: "source_jar_candidates demo_artifact None = [demo_sources_jar]"
  by (simp add: source_jar_candidates_def demo_artifact_def path_file_name_def strip_suffix_def ends_with_def with_file_name_def
      SOURCES_CLASSIFIER_def demo_sources_jar_def)

lemma demo_scoped_build:
  "\<exists>r. build_scoped_with plain_source demo_reactor_files (\<lambda>_. False) (\<lambda>s. s) sample_limits (Some [lit ''repository''])
     reactor [demo_artifact] 9 8 None = Some (Inr r) \<and> sx_unindexed r = []"
proof -
  have poll: "\<not> bs_cancelled plain_source i" for i by (simp add: plain_source_def)
  have build: "build_from_jars plain_source (\<lambda>s. s) sample_limits [lit ''repository''] [(demo_artifact, sample_identity)] 9 8 None =
      Some (Inr (index_of_records (\<lambda>s. s) [lit ''repository''] 9 8 [demo_jar], \<lparr> ru_reused = [], ru_built = 0, ru_persistable = [] \<rparr>))"
    by (simp add: build_from_jars_Inr build_step_def build_fresh_def Let_def plain_preflight demo_load poll del: lit.simps One_nat_def)
  have "first_source demo_reactor_files sample_limits (Some [lit ''repository'']) reactor [demo_sources_jar] = None"
    by (simp add: demo_reactor_files_def demo_artifact_def demo_sources_jar_def)
  then have "scan_classpath (\<lambda>_. False) demo_reactor_files sample_limits (Some [lit ''repository'']) reactor 0 [demo_artifact] ([], []) =
      Inr ([(demo_artifact, sample_identity)], [])"
    by (simp add: scan_entry_def demo_entry demo_candidates del: lit.simps first_source.simps)
  then show ?thesis using build by (simp add: build_scoped_with_def del: lit.simps scan_classpath.simps)
qed

definition demo_path :: str where "demo_path = lit ''/w/a''"
definition built_root :: path where "built_root = [lit ''w'', lit ''a'']"
definition built_world :: world where
  "built_world = \<lparr> wd_index_held = (\<lambda>_. True), wd_runner_held = (\<lambda>_. True), wd_reservation_held = (\<lambda>_. True),
         wd_cell_held = (\<lambda>_. True), wd_owner_locked = (\<lambda>_. True), wd_test_result_bytes = (\<lambda>_. 0), wd_index_bytes = (\<lambda>_. 1), wd_unix_ms = 0 \<rparr>"

lemma demo_others [simp]: "others_act demo_env st = st \<lparr> sv_time := Suc (sv_time st) \<rparr>"
  by (simp add: others_act_def demo_env_def)

lemma demo_blocking [simp]: "blocking demo_env st = (Inr (), st \<lparr> sv_time := Suc (sv_time st) \<rparr>)"
  by (simp add: blocking_def Let_def) (simp add: demo_env_def)

lemma demo_env_sel [simp]:
  "se_world demo_env t = built_world" "se_stamp demo_env t = (\<lambda>_. None)" "se_new demo_env t = t" 
  "se_discover demo_env t root cached = Inr 5" "se_fingerprint_paths demo_env t r = [[lit ''w'', lit ''a'', lit ''pom.xml'']]"
  "se_index_cache demo_env = None"
  by (simp_all add: demo_env_def built_world_def)

definition demo_fp :: ProjectFingerprint where "demo_fp = [([lit ''w'', lit ''a'', lit ''pom.xml''], None)]"

lemma demo_capture: "capture (\<lambda>_. None) [[lit ''w'', lit ''a'', lit ''pom.xml'']] = demo_fp"
  by (simp add: capture_def demo_fp_def del: lit.simps)

lemma demo_fp_bytes: "fp_estimated_bytes demo_fp = 108"
  by (simp add: fp_estimated_bytes_def demo_fp_def path_len_def PATH_ENTRY_OVERHEAD_BYTES_def str_len_def utf8_len_def)

lemma demo_trusted: "trusted_project_root (se_files demo_env t) (se_trusted demo_env) demo_path = Inr built_root"
  by (simp add: demo_env_def demo_path_def built_root_def trusted_project_root_def validate_project_path_def canonical_project_root_def demo_fs_def path_starts_with_def starts_with_def)

definition demo_refreshed :: service where
  "demo_refreshed = run_op demo_env (RequireFullRebuild built_root)
     (run_op demo_env (InvalidateAfterMaven built_root) (demo_service \<lparr> sv_time := 2 \<rparr>))"

definition built_cache :: "ProjectState \<Rightarrow> nat \<Rightarrow> nat \<Rightarrow> ProjectCache" where
  "built_cache s generation tick = (new_cache \<lparr> cl_max_indexes = 2, cl_max_runners = 2, cl_max_bytes = 100000 \<rparr>)
     \<lparr> pc_states := [(built_root, s)], pc_next_generation := generation, pc_tick := tick \<rparr>"

lemma demo_refreshed_eq: "demo_refreshed = demo_service \<lparr> sv_time := 2, sv_cache := built_cache ((new_state built_world 2) \<lparr> ps_full_rebuild := True \<rparr>) 2 0 \<rparr>"
  by (simp add: demo_refreshed_def run_op_def demo_service_def publications_def require_full_rebuild_def invalidate_after_maven_def invalidate_def
    fresh_generation_def built_cache_def new_cache_def new_state_def state_of_def upd_state_def upd_states_def or_insert_def)


definition built_project :: ProjectState where
  "built_project = \<lparr> ps_generation = 2, ps_runner = Some \<lparr> re_runner = 5, re_fingerprint = demo_fp, re_revalidate = False \<rparr>,
     ps_index = None, ps_in_flight = None, ps_full_rebuild = True, ps_last_used_tick = 2, ps_last_used_unix_ms = 0 \<rparr>"

definition demo_snapshot :: RunnerSnapshot where
  "demo_snapshot = \<lparr> sn_runner = 5, sn_fingerprint = demo_fp, sn_revalidate = False \<rparr>"

lemmas accounting = in_flight_is_live_def has_live_build_def enforce_def prune_def loop_fuel_def state_of_def upd_state_def upd_states_def touch_def built_world_def
  too_many_indexes_def index_count_def runner_count_def too_many_runners_def over_budget_def retained_bytes_def state_bytes_def
  entry_bytes_def runner_bytes_def RUNNER_BASE_BYTES_def demo_fp_bytes retain_states_def

lemma demo_runner: "project_runner demo_env demo_path demo_refreshed =
  (Inr (built_root, demo_snapshot), demo_service \<lparr> sv_cache := built_cache built_project 3 2, sv_time := 8 \<rparr>)"
  by (simp add: project_runner_def demo_trusted Let_def demo_refreshed_eq demo_service_def runner_for_def next_tick_def discover_runner_def
     install_runner_def fresh_generation_def run_op_def built_cache_def new_cache_def new_state_def state_of_def demo_capture publications_def
    upd_state_def upd_states_def touch_def or_insert_def del: lit.simps)
   (simp add: accounting Let_def built_project_def demo_snapshot_def del: lit.simps)

definition demo_building :: service where
  "demo_building = demo_service \<lparr> sv_time := 9,
     sv_cache := (built_cache (built_project \<lparr> ps_last_used_tick := 3, ps_in_flight := Some \<lparr> if_generation = 2, if_cell = 9, if_owner = 9 \<rparr> \<rparr>) 4 3)
       \<lparr> pc_misses := 1 \<rparr> \<rparr>"

lemma demo_lookup:
  "fst (lookup_index built_world built_root demo_fp 9 9 (built_cache built_project 3 2)) = Build 9 9 2"
  "run_op demo_env (LookupIndex built_root demo_fp 9 9) (demo_service \<lparr> sv_cache := built_cache built_project 3 2, sv_time := 9 \<rparr>) = demo_building"
  by (simp_all add: lookup_index_def next_tick_def fresh_generation_def start_build_def run_op_def built_cache_def new_cache_def
    demo_service_def publications_def or_insert_def built_project_def demo_building_def state_of_def upd_state_def upd_states_def Let_def)

lemma demo_maven [simp]:
  "br_outcome (cr_build (se_maven demo_env t r)) = Outcome_Success" "cr_paths_incomplete (se_maven demo_env t r) = False"
  "cr_paths (se_maven demo_env t r) = [demo_artifact]" "se_execution_repository demo_env = None" "se_modules demo_env r = []"
  "se_walk demo_env t = (\<lambda>_. None)" "se_limits demo_env = sample_limits" "se_elapsed demo_env t = 0"
  by (simp_all add: demo_env_def)

lemma demo_repository: "repository_root_for [demo_artifact] built_root None = Some [lit ''repository'']"
  by (simp add: repository_root_for_def demo_artifact_def built_root_def path_starts_with_def starts_with_def)

lemma demo_resolve: "resolve_classpath demo_env built_root demo_snapshot st =
  (Inr \<lparr> rc_paths = [demo_artifact], rc_persisted = False, rc_inputs = None, rc_context = [] \<rparr>, st \<lparr> sv_time := Suc (Suc (sv_time st)) \<rparr>)"
  by (simp add: resolve_classpath_def maven_classpath_def captured_inputs_def then_do_def Let_def)


definition demo_stamps :: ProjectFingerprint where
  "demo_stamps = [(demo_sources_jar, None), (demo_artifact, None)]"

lemma built_stamped: "capture_trees (\<lambda>_. None) (\<lambda>_. None) n
  (stamped_artifacts demo_reactor_files sample_limits (Some [lit ''repository'']) reactor [demo_artifact]) = demo_stamps"
proof -
  have "demo_sources_jar < demo_artifact" by (simp add: demo_sources_jar_def demo_artifact_def)
  then show ?thesis
  by (simp add: stamped_artifacts_def source_jar_stamp_paths_def demo_entry demo_candidates capture_trees_def tree_paths_def capture_def demo_stamps_def del: lit.simps)
qed

lemma demo_stamps_bytes: "fp_estimated_bytes demo_stamps = 250" "file_bytes demo_stamps = 0" "fp_is_current (\<lambda>_. None) demo_stamps"
  apply (simp_all add: demo_stamps_def fp_estimated_bytes_def file_bytes_def fp_is_current_def)
  by (simp add: demo_sources_jar_def demo_artifact_def path_len_def PATH_ENTRY_OVERHEAD_BYTES_def str_len_def utf8_len_def)


lemma demo_env_sel' [simp]: "se_reactor_files demo_env t = demo_reactor_files"
  "se_source demo_env t = plain_source" "se_cancelled demo_env t = (\<lambda>_. False)" "se_lower demo_env = (\<lambda>s. s)" "se_max_results demo_env = 9"
  "se_max_source_bytes demo_env = 8"
  by (simp_all add: demo_env_def)

lemma demo_stamp_artifacts: "stamp_artifacts demo_env built_root demo_snapshot [demo_artifact] (Some [lit ''repository'']) st =
   (Inr demo_stamps, st \<lparr> sv_time := Suc (sv_time st) \<rparr>)"
  by (simp add: stamp_artifacts_def failing_def then_do_def Let_def built_stamped del: lit.simps)

lemma demo_index_project: "\<exists>scoped. index_project demo_env built_root demo_snapshot [demo_artifact] (Some [lit ''repository'']) demo_stamps st =
   (Inr (scoped, False), st \<lparr> sv_time := sv_time st + 3 \<rparr>)"
proof -
  obtain r where r: "build_scoped_with plain_source demo_reactor_files (\<lambda>_. False) (\<lambda>s. s) sample_limits (Some [lit ''repository''])
     \<lparr> rl_root = built_root, rl_modules = [] \<rparr> [demo_artifact] 9 8 None = Some (Inr r)" "sx_unindexed r = []"
    using demo_scoped_build by blast
  have "fp_is_current (\<lambda>_. None) demo_fp" by (simp add: demo_fp_def fp_is_current_def)
  with r show ?thesis
    by (simp add: index_project_def failing_def then_do_def Let_def demo_snapshot_def demo_stamps_bytes del: lit.simps)
qed

lemma demo_reserve:
  "\<exists>c. reserve_build demo_env built_root 2 demo_stamps (demo_building \<lparr> sv_time := 14 \<rparr>) = (Inr 15, demo_building \<lparr> sv_time := 15, sv_cache := c \<rparr>) \<and>
      c = sv_cache demo_building \<lparr> pc_reservations := [(15, 0)] \<rparr>"
  by (simp add: reserve_build_def run_op_def publications_def Let_def demo_building_def built_cache_def new_cache_def built_project_def reserve_def
    demo_stamps_bytes is_current_def demo_service_def)
   (simp add: accounting Let_def built_project_def demo_snapshot_def is_current_def del: lit.simps)


lemma demo_publish:
  assumes "state_of (sv_cache st) built_root = Some s" "ps_generation s = 2"
  shows "fst (publish_build demo_env built_root demo_snapshot 2 classpath demo_stamps rid (scoped, False) st) = Inr (Suc (sv_time st))"
proof -
  have "is_current built_root 2 (prune w (sv_cache st))" for w
    using assms by (simp add: is_current_def)
  then show ?thesis by (simp add: publish_build_def Let_def publish_eq)
qed

lemma demo_try_build: "fst (try_build_index demo_env built_root demo_snapshot 2 (demo_building \<lparr> sv_time := 11 \<rparr>)) = Built 19"
proof -
  define st where "st = demo_building \<lparr> sv_time := 15, sv_cache := sv_cache demo_building \<lparr> pc_reservations := [(15, 0)] \<rparr> \<rparr>"
  obtain scoped where scoped: "index_project demo_env built_root demo_snapshot [demo_artifact] (Some [lit ''repository'']) demo_stamps st =
      (Inr (scoped, False), st \<lparr> sv_time := 18 \<rparr>)"
    using demo_index_project [of st] by (auto simp: st_def)
  have reserve: "reserve_build demo_env built_root 2 demo_stamps (demo_building \<lparr> sv_time := 14 \<rparr>) = (Inr 15, st)"
    using demo_reserve by (simp add: st_def)
  obtain s where s: "state_of (sv_cache st) built_root = Some s" "ps_generation s = 2"
    by (simp add: st_def demo_building_def built_cache_def built_project_def state_of_def)
  have "fst (publish_build demo_env built_root demo_snapshot 2 classpath demo_stamps 15 (scoped, False) (st \<lparr> sv_time := 18 \<rparr>)) = Inr 19" for classpath
    using demo_publish [of "st \<lparr> sv_time := 18 \<rparr>" s] s by simp
  then have published: "\<exists>st'. publish_build demo_env built_root demo_snapshot 2 classpath demo_stamps 15 (scoped, False) (st \<lparr> sv_time := 18 \<rparr>) = (Inr 19, st')" for classpath
    by (metis prod.collapse)
  have indexable: "has_indexable_jars [demo_artifact] built_root True" by (simp add: has_indexable_jars_def)
  have resolve: "failing (resolve_classpath demo_env built_root demo_snapshot (demo_building \<lparr> sv_time := 11 \<rparr>)) =
      (Inr \<lparr> rc_paths = [demo_artifact], rc_persisted = False, rc_inputs = None, rc_context = [] \<rparr>, demo_building \<lparr> sv_time := 13 \<rparr>)"
    by (simp add: demo_resolve failing_def)
  have stamp: "stamp_artifacts demo_env built_root demo_snapshot [demo_artifact] (Some [lit ''repository'']) (demo_building \<lparr> sv_time := 13 \<rparr>) =
      (Inr demo_stamps, demo_building \<lparr> sv_time := 14 \<rparr>)"
    by (simp add: demo_stamp_artifacts del: lit.simps)
  obtain st' where st': "publish_build demo_env built_root demo_snapshot 2 \<lparr> rc_paths = [demo_artifact], rc_persisted = False, rc_inputs = None, rc_context = [] \<rparr>
      demo_stamps 15 (scoped, False) (st \<lparr> sv_time := 18 \<rparr>) = (Inr 19, st')" using published by blast
  show ?thesis
    by (simp add: try_build_index_def then_do_def resolve demo_repository indexable stamp reserve scoped st' Let_def del: lit.simps)
qed

lemma demo_index: "fst (index_for demo_env demo_path demo_refreshed) = Inr 19"
proof -
  have key: "map_of (sv_cells demo_building) k = None" for k by (simp add: demo_building_def demo_service_def)
  have build: "fst (build_index demo_env built_root demo_snapshot 2 (demo_building \<lparr> sv_time := 10 \<rparr>)) = Built 19"
    using demo_try_build by (auto simp: build_index_def split: prod.splits BuildOutcome.splits)
  then obtain st' where st': "build_index demo_env built_root demo_snapshot 2 (demo_building \<lparr> sv_time := 10 \<rparr>) = (Built 19, st')"
    by (metis prod.collapse)
  have time: "sv_time demo_building = 9" by (simp add: demo_building_def)
  have "get_or_build demo_env built_root demo_snapshot 2 9 demo_building = (Built 19, st' \<lparr> sv_cells := ((built_root, 2, 9), Built 19) # sv_cells st' \<rparr>)"
    by (simp add: get_or_build_def Let_def key time st')
  then show ?thesis
    using demo_lookup by (simp add: index_for_def MAX_INDEX_BUILD_ATTEMPTS_def numeral_eq_Suc then_do_def demo_runner Let_def demo_snapshot_def)
qed

text \<open>The refresh of the project rebuilds its index: both theorems hold of it, with a publication.\<close>

lemma demo_refresh: "fst (refresh_project demo_env demo_path demo_service) = Inr 19"
proof -
  have "refresh_project demo_env demo_path demo_service =
      (case index_for demo_env demo_path demo_refreshed of (Inl e, st) \<Rightarrow> (Inl (refresh_error e), st) | (Inr index, st) \<Rightarrow> (Inr index, st))"
    using demo_trusted [of 1]
    by (simp add: refresh_project_def Let_def forget_persisted_classpaths_def demo_refreshed_def demo_service_def numeral_2_eq_2)
  then show ?thesis using demo_index by (auto split: prod.splits sum.splits)
qed

lemma demo_refreshed_ok: "service_ok demo_env demo_refreshed"
proof -
  have "service_ok demo_env (demo_service \<lparr> sv_time := 2 \<rparr>)"
    by (simp add: service_ok_def demo_service_def holds_index_def state_of_def new_cache_def cache_ok_def keys_ok_def)
  then show ?thesis unfolding demo_refreshed_def
    by (intro follows_ok [OF follows_op] ) simp_all
qed

lemma index_answer_example:
  "\<exists>p\<in>set (sv_published (snd (index_for demo_env demo_path demo_refreshed))). pb_root p = built_root \<and> pb_index p = 19"
  using index_answer_justified [OF demo_rely demo_refreshed_ok demo_index] unfolding demo_trusted by force

lemma refresh_example:
  "\<exists>p\<in>set (sv_published (snd (refresh_project demo_env demo_path demo_service))). pb_root p = built_root \<and> pb_index p = 19 \<and>
     0 < pb_generation p"
  using refresh_rebuilds [OF demo_rely demo_service_ok demo_refresh, of built_root] unfolding demo_trusted by auto

end
