(* ===== verification/Spec2Isabelle.thy ===== *)
theory Spec2Isabelle
  imports Result_Store Paging Project_Cache Declarations Tool_Call Heavy_Work Config Timestamps Event_Log Shell_Commands Jar_Names Archive_Budget Jar_Records Persisted_Records Class_Index Index_Build Type_Hierarchy Text_Laws Wildcard Maven_Output Dependency_Resolution Maven_Runner Module_Discovery Maven_Environment Model_Inputs Cache_Table Cached_Builds Cache_Recovery Scoped_Build Resolution_Inputs Index_Answers Index_Example
begin

text \<open>
  Verification of the Maven MCP server (repository \<open>maven-mcp\<close>, Rust, all paths below \<open>src/src/\<close>).

  \<^bold>\<open>The program.\<close>  The server answers the tool calls of a coding agent about one Maven project: it runs Maven,
  reads what Maven printed, indexes the JARs of the selected classpath, answers queries over class files,
  sources and POMs, and bounds every answer.  A second program of the repository analyses the logs of agents for Maven
  commands.  The parts interact as follows.  A request (\<open>server.rs\<close>) is traced, its project root is checked
  against the configuration, its work is admitted to a bounded pool (\<open>blocking.rs\<close>); the handler asks the project
  cache (\<open>project_cache.rs\<close>) for a runner or an index, which is built (\<open>index.rs\<close>) from the classpath that
  the Maven runner (\<open>project.rs\<close>) reports, over the records of the on-disk cache (\<open>index_cache.rs\<close>,
  \<open>index/persisted.rs\<close>); the answer goes through the response limit (\<open>server/response_limit.rs\<close>), which puts what is
  too large into the result store (\<open>server/result_store.rs\<close>) and hands out cursors.

  \<^bold>\<open>Theories and code.\<close>
  \<^item> \<open>Prelude\<close>: characters and text as lists of scalar values, byte lengths, slicing, splitting, trimming, searching,
    ordered maps (\<open>BTreeMap\<close>, \<open>BTreeSet\<close>) as sorted lists, results \<open>str + 'a\<close> with \<open>and_then\<close>, paths as lists of
    components, and the two locales of step systems, \<open>invariant_system\<close> and \<open>draining_system\<close>.  \<open>Text_Laws\<close>: how the
    text operations act on text composed of known parts.
  \<^item> \<open>Result_Store\<close> (\<open>server/result_store.rs\<close>): the record \<open>ResultStore\<close> with \<open>insert_result\<close>, \<open>get_result\<close>, eviction
    and expiry; refinement of the window of newest results.  \<open>Paging\<close> (\<open>server/response_limit.rs\<close>, \<open>bound_response\<close> and
    \<open>read_tool_result_page\<close> of \<open>server.rs\<close>): counted sizes, skeletons, cursors, pages; a deferred result is read back.
  \<^item> \<open>Project_Cache\<close> (\<open>project_cache.rs\<close>): file stamps and fingerprints, the slots of a project with
    generations, lookup, publication, reservation, invalidation and eviction.  \<open>Index_Service\<close> (\<open>server.rs\<close>,
    \<open>index_for\<close>, \<open>try_build_index\<close>, \<open>refresh_project\<close>): a request for the index of a project, with the actions of other
    requests before each of its own.  \<open>Index_Answers\<close>: an index that is answered was published for the project, found
    unchanged, under a generation no older than the request, and a refresh answers only an index published after it
    began, relying on the other requests to do what the request itself is proved to do; \<open>Index_Example\<close> runs one request.
  \<^item> \<open>Heavy_Work\<close> (\<open>blocking.rs\<close>), \<open>Tool_Call\<close> (\<open>server/tool_call.rs\<close>), \<open>Config\<close> (\<open>config.rs\<close>, \<open>canonical_project_root\<close>,
    the trusted root checks of \<open>server.rs\<close>).
  \<^item> \<open>Lexer\<close>, \<open>Outline\<close>, \<open>Erasure\<close>, \<open>Members\<close>, \<open>Declarations\<close> (\<open>index/declaration_source/\<close> and its callers): tokens
    and brackets of Java and Kotlin, the outline of type bodies, erasure of parameter types against descriptors, and
    the proof that a located method is the one asked for.
  \<^item> \<open>Jar_Names\<close>, \<open>Archive_Budget\<close>, \<open>Jar_Records\<close>, \<open>Persisted_Records\<close>, \<open>Class_Index\<close>, \<open>Index_Build\<close>, \<open>Type_Hierarchy\<close>
    (\<open>index.rs\<close>, \<open>index/persisted.rs\<close>): names and coordinates, the budget of archives, the string pool and the
    facts of class files, the stored form of records and its payload, the index and its queries, builds over stored records, and the
    subtype search.  \<open>Scoped_Build\<close> (\<open>index.rs\<close>, \<open>server.rs\<close>): the identities of classpath entries in the repository and
    the reactor, and the index of one project.
  \<^item> \<open>Cache_Table\<close>, \<open>Cached_Builds\<close>, \<open>Cache_Recovery\<close> (\<open>index_cache.rs\<close>), \<open>Maven_Environment\<close>
    (\<open>index_cache/maven_environment.rs\<close>), \<open>Model_Inputs\<close> (\<open>index_cache/model_inputs.rs\<close>), \<open>Resolution_Inputs\<close>
    (\<open>index_cache.rs\<close>): the rows of the database and their eviction, builds over any history of the database,
    the recovery protocol between processes, the variables a classpath depends on, the POMs it was derived from, and
    the reuse of a stored classpath.
  \<^item> \<open>Maven_Runner\<close>, \<open>Maven_Output\<close>, \<open>Dependency_Resolution\<close>, \<open>Wildcard\<close>, \<open>Module_Discovery\<close> (\<open>project.rs\<close>,
    \<open>project/run_trace.rs\<close>): argument vectors and bounded runs, outcome, reactor summary, trees and classpaths, the
    explanation of mediation, coordinate filters, and the discovery of modules.
  \<^item> \<open>Event_Log\<close>, \<open>Timestamps\<close>, \<open>Shell_Commands\<close> (\<open>log_analysis.rs\<close>, \<open>log_analysis/limits.rs\<close>, \<open>time.rs\<close>,
    \<open>shell.rs\<close>): deduplicated events within a budget, normalized timestamps, and Maven commands in shell text.

  \<^bold>\<open>Correspondence.\<close>  A Rust struct is a \<open>record\<close> with the fields of the struct, prefixed; an enum is a \<open>datatype\<close> with
  its constructors; \<open>Option\<close> is \<open>option\<close>; a fallible function answers a sum with the message text on the left, and
  a panic (overflow, slice bound) is an outer \<open>None\<close>, so totality is a theorem.  Functions that mutate return the new state.
  Machine integers are words where they wrap (digests, epochs) and naturals with the explicit limit (\<open>usize_max\<close>,
  \<open>I64_MAX\<close>) where they are checked.  Locks and atomics make an operation one step of a step relation
  (\<open>pool_step\<close>, \<open>calls_step\<close>, \<open>recovery_step\<close>).

  \<^bold>\<open>What the lemmas show.\<close>  Every component has its invariant and the proof that each operation keeps it, often by
  an interpretation of \<open>invariant_system\<close> or of a locale of its own (\<open>evictor\<close>, \<open>page_protocol\<close>, \<open>held_result\<close>);
  refinement of an abstract specification (the window of results, the reference of deduplication); equality of an
  optimised path with the plain one (stored records and fresh ones, charge and preflight, cached builds and builds without a
  cache, the backtracking matcher); round trips of writers and readers; and termination with the bounds below.

  \<^bold>\<open>Bounds and fuel.\<close>  Loops whose progress is lexical use fuel that is proved to be enough: the lexer and the member loop
  take a multiple of the length of the text, and their totality theorems show that the fuel never runs out.
  The eviction loops take the number of things to evict.  Module discovery and the walk over POMs end by measures on the
  directories and the budget of XML files (\<open>MAX_XML_FILES\<close>), not by a bound of the model.

  \<^bold>\<open>Parameters.\<close>  Code outside the repository is an argument of the definitions: semaphores of tokio, the file system and
  its stamps, the clock, child processes and their pipes, the XML reader and the deserializers, the ZIP
  reader, the class file parser, the JSON and zlib libraries under the payload encoding, the row numbers of SQLite, Unicode classes
  and lower-casing, and the random process key.  What is relied on is a named hypothesis of the theorem.

  \<^bold>\<open>Side conditions.\<close>  Where the code does less than one would expect, the theorem states the condition and a lemma
  beside it shows the input the code misses: class names that differ only in case (\<open>class_case_collision\<close>,
  \<open>twin_subtype_missed\<close>), coordinates spelled like a scope (\<open>scope_like_name_malformed\<close>), the byte 0xFF in a
  variable (\<open>separator_byte_collides\<close>), a star in a value (\<open>star_in_value_lost\<close>), and a recovery that dies between
  deletion and epoch (\<open>interrupted_recovery_deletes_new_file\<close>).  Counters of 64 bits that only grow
  (generations, ticks) are unbounded naturals; \<open>stale_build_never_published\<close> says when the comparison on 64 bits agrees.
  A slice that the code would panic on is skipped in \<open>bracket_step\<close>, where it cannot occur, and a path that is not Unicode is
  kept as its lossy text in \<open>Config\<close>, where the code keeps the bytes.

  \<^bold>\<open>Not modelled.\<close>  The tool handlers translate JSON requests into calls of the modelled operations.  Regular expressions
  (\<open>redaction.rs\<close>, \<open>log_analysis/privacy.rs\<close>), the streaming JSON readers of agent logs
  (\<open>log_analysis/sources.rs\<close>), the XML reports of tests and coverage, the status file (\<open>runtime_stats.rs\<close>), the
  benchmark and the command-line entry points consist of calls of libraries and of the operating system.  SQL
  execution, file permissions and the creation of the schema are left to SQLite and the system.
\<close>

end
